(* ===== verification/Prelude.thy ===== *)
theory Prelude
  imports Main "HOL-Library.Word" "HOL-Library.Code_Target_Numeral"
begin

text \<open>
  Shared vocabulary of the development: the fixed-width integers of the C code, byte
  buffers and the three ways the code touches them (a seg read, a \<open>memcpy\<close> into a
  buffer, a struct written as little-endian bytes), and the generic list facts the
  component theories use.
\<close>

unbundle bit_operations_syntax

named_theorems buf_simps \<open>rewriting slices and buffer writes\<close>
named_theorems le_simps \<open>little-endian encodings of fixed-width integers\<close>

type_synonym byte = "8 word"
type_synonym u16 = "16 word"
type_synonym u32 = "32 word"
type_synonym u64 = "64 word"
type_synonym bytes = "byte list"

section \<open>Buffers\<close>

text \<open>\<open>seg off len b\<close>: the bytes \<open>b[off], \<dots>, b[off + len - 1]\<close> of a buffer.\<close>

definition seg :: "nat \<Rightarrow> nat \<Rightarrow> 'a list \<Rightarrow> 'a list" where
  "seg off len b = take len (drop off b)"

text \<open>\<open>put b off d\<close>: the buffer after \<open>memcpy (b + off, d, length d)\<close>.\<close>

definition put :: "'a list \<Rightarrow> nat \<Rightarrow> 'a list \<Rightarrow> 'a list" where
  "put b off d = take off b @ d @ drop (off + length d) b"

lemma length_seg [simp]: "length (seg off len b) = min len (length b - off)"
  by (simp add: seg_def min.commute)

lemma seg_0 [simp]: "seg off 0 b = []"
  by (simp add: seg_def)

lemma seg_start [simp]: "seg 0 n b = take n b"
  by (simp add: seg_def)

lemma seg_nth [simp]: "i < len \<Longrightarrow> off + i < length b \<Longrightarrow> seg off len b ! i = b ! (off + i)"
  by (simp add: seg_def add.commute)

lemma seg_whole: "off = 0 \<Longrightarrow> length b \<le> len \<Longrightarrow> seg off len b = b"
  by (simp add: seg_def)

lemma take_append_seg: "take n b @ seg n m b = take (n + m) b"
  by (simp add: seg_def take_add)

lemma seg_append_seg: "seg a n b @ seg (a + n) m b = seg a (n + m) b"
  by (simp add: seg_def take_add add.commute [of n a])

lemma seg_append_left: "off + len \<le> length a \<Longrightarrow> seg off len (a @ b) = seg off len a"
  by (simp add: seg_def)

lemma seg_append_right: "length a \<le> off \<Longrightarrow> seg off len (a @ b) = seg (off - length a) len b"
  by (simp add: seg_def)

lemma seg_take: "seg off len (take n b) = seg off (min len (n - off)) b"
  by (simp add: seg_def drop_take min.commute)

lemma seg_drop: "seg off len (drop n b) = seg (n + off) len b"
  by (simp add: seg_def add.commute)

lemma seg_eq_iff:
  assumes "off1 + len \<le> length b1" "off2 + len \<le> length b2"
  shows "seg off1 len b1 = seg off2 len b2 \<longleftrightarrow> (\<forall>i < len. b1 ! (off1 + i) = b2 ! (off2 + i))"
  using assms by (auto simp: list_eq_iff_nth_eq)

lemma length_put [buf_simps]:
  "off \<le> length b \<Longrightarrow> length (put b off d) = max (length b) (off + length d)"
  by (simp add: put_def)

lemma put_length_le: "off \<le> length b \<Longrightarrow> off + length d \<le> length (put b off d)"
  by (simp add: put_def)

lemma take_put [buf_simps]:
  "off \<le> length b \<Longrightarrow> n = off + length d \<Longrightarrow> take n (put b off d) = take off b @ d"
  by (simp add: put_def)

lemma take_put_before [buf_simps]: "n \<le> off \<Longrightarrow> off \<le> length b \<Longrightarrow> take n (put b off d) = take n b"
  by (simp add: put_def)

lemma seg_put_same [buf_simps]:
  "off \<le> length b \<Longrightarrow> n = length d \<Longrightarrow> seg off n (put b off d) = d"
  by (simp add: put_def seg_def)

lemma seg_put_before [buf_simps]:
  "a + n \<le> off \<Longrightarrow> off \<le> length b \<Longrightarrow> seg a n (put b off d) = seg a n b"
  by (simp add: put_def seg_def drop_take)

lemma seg_put_after [buf_simps]:
  "off + length d \<le> a \<Longrightarrow> off \<le> length b \<Longrightarrow> seg a n (put b off d) = seg a n b"
  by (simp add: put_def seg_def drop_append)

lemma put_put: "off + length d = off' \<Longrightarrow> off \<le> length b \<Longrightarrow> put (put b off d) off' d' = put b off (d @ d')"
  by (auto simp: put_def add.commute [of "length d'"] add.assoc)

lemma drop_after: "drop r d = x @ rest \<Longrightarrow> n = length x \<Longrightarrow> drop (r + n) d = rest"
  by (metis append_eq_conv_conj drop_drop add.commute)

text \<open>A buffer prefix that ends in a known seg.\<close>

lemma take_split: "m \<le> n \<Longrightarrow> take n b = take m b @ seg m (n - m) b"
  by (simp add: take_append_seg)

section \<open>Little-endian integers\<close>

text \<open>
  The byte image of an unsigned integer of \<open>n\<close> bytes on the little-endian machines the
  code runs on, and its value when the bytes are read back.
\<close>

fun le_enc :: "nat \<Rightarrow> nat \<Rightarrow> bytes" where
  "le_enc 0 v = []"
| "le_enc (Suc n) v = word_of_nat (v mod 256) # le_enc n (v div 256)"

fun le_dec :: "bytes \<Rightarrow> nat" where
  "le_dec [] = 0"
| "le_dec (b # bs) = unat b + 256 * le_dec bs"

lemma length_le_enc [simp]: "length (le_enc n v) = n"
  by (induction n arbitrary: v) auto

lemma unat_byte_of_nat [simp]: "unat (word_of_nat (v mod 256) :: byte) = v mod 256"
  by (simp add: unat_of_nat)

lemma le_dec_enc [le_simps]: "v < 256 ^ n \<Longrightarrow> le_dec (le_enc n v) = v"
proof (induction n arbitrary: v)
  case 0
  then show ?case by simp
next
  case (Suc n)
  then have "v div 256 < 256 ^ n"
    by (simp add: less_mult_imp_div_less mult.commute)
  with Suc.IH show ?case by simp
qed

lemma unat_byte_bound: "unat (b :: byte) < 256"
  using unsigned_less [of b, where ?'a = nat] by simp

lemma le_dec_bound: "le_dec bs < 256 ^ length bs"
proof (induction bs)
  case Nil
  then show ?case by simp
next
  case (Cons b bs)
  have "unat b < 256" by (rule unat_byte_bound)
  with Cons show ?case by simp
qed

lemma le_enc_dec [le_simps]: "le_enc (length bs) (le_dec bs) = bs"
proof (induction bs)
  case Nil
  then show ?case by simp
next
  case (Cons b bs)
  have b: "unat b < 256" by (rule unat_byte_bound)
  then have "(unat b + 256 * le_dec bs) mod 256 = unat b" "(unat b + 256 * le_dec bs) div 256 = le_dec bs"
    by simp_all
  with Cons show ?case by simp
qed

definition le32 :: "u32 \<Rightarrow> bytes" where
  "le32 w = le_enc 4 (unat w)"

definition rd32 :: "bytes \<Rightarrow> u32" where
  "rd32 bs = word_of_nat (le_dec (take 4 bs))"

definition le64 :: "u64 \<Rightarrow> bytes" where
  "le64 w = le_enc 8 (unat w)"

definition rd64 :: "bytes \<Rightarrow> u64" where
  "rd64 bs = word_of_nat (le_dec (take 8 bs))"

lemma length_le32 [simp]: "length (le32 w) = 4"
  by (simp add: le32_def)

lemma length_le64 [simp]: "length (le64 w) = 8"
  by (simp add: le64_def)

lemma rd32_le32 [simp]: "rd32 (le32 w @ bs) = w"
proof -
  have "unat w < 256 ^ 4" using unsigned_less [of w, where ?'a = nat] by simp
  then show ?thesis by (simp add: rd32_def le32_def le_simps)
qed

lemma rd32_le32_Nil [simp]: "rd32 (le32 w) = w"
  using rd32_le32 [of w "[]"] by simp

lemma rd64_le64 [simp]: "rd64 (le64 w @ bs) = w"
proof -
  have "unat w < 256 ^ 8" using unsigned_less [of w, where ?'a = nat] by simp
  then show ?thesis by (simp add: rd64_def le64_def le_simps)
qed

lemma unat_of_nat_le: "unat (word_of_nat k :: 'a::len word) \<le> k"
  by (simp add: unsigned_of_nat take_bit_nat_less_eq_self)

lemma unat_of_nat_small: "k < 2 ^ LENGTH('a) \<Longrightarrow> unat (word_of_nat k :: 'a::len word) = k"
  by (simp add: unsigned_of_nat take_bit_nat_eq_self)

section \<open>Results\<close>

text \<open>A C function that can fail returns \<open>error + value\<close>; \<open>bindE\<close> is its sequencing.\<close>

definition bindE :: "'e + 'a \<Rightarrow> ('a \<Rightarrow> 'e + 'b) \<Rightarrow> 'e + 'b" where
  "bindE r f = (case r of Inl e \<Rightarrow> Inl e | Inr x \<Rightarrow> f x)"

lemma bindE_simps [simp]: "bindE (Inl e) f = Inl e" "bindE (Inr x) f = f x"
  by (simp_all add: bindE_def)

lemma bindE_Inr_iff: "bindE r f = Inr y \<longleftrightarrow> (\<exists>x. r = Inr x \<and> f x = Inr y)"
  by (cases r) auto

text \<open>A loop over a list that threads a state, stops at the first error and collects the results.\<close>

fun mapS :: "('c \<Rightarrow> 's \<Rightarrow> 'e + 'a \<times> 's) \<Rightarrow> 'c list \<Rightarrow> 's \<Rightarrow> 'e + 'a list \<times> 's" where
  "mapS f [] s = Inr ([], s)"
| "mapS f (c # cs) s = bindE (f c s) (\<lambda>(a, s1). bindE (mapS f cs s1) (\<lambda>(as, s2). Inr (a # as, s2)))"

text \<open>A loop over a list that threads a state and stops at the first error.\<close>

fun foldE :: "('c \<Rightarrow> 's \<Rightarrow> 'e + 's) \<Rightarrow> 'c list \<Rightarrow> 's \<Rightarrow> 'e + 's" where
  "foldE f [] s = Inr s"
| "foldE f (c # cs) s = bindE (f c s) (foldE f cs)"

lemma foldE_append: "foldE f (xs @ ys) s = bindE (foldE f xs s) (foldE f ys)"
  by (induction xs arbitrary: s) (auto simp: bindE_def split: sum.splits)

lemma foldE_inv:
  assumes "\<And>c s. c \<in> set cs \<Longrightarrow> P s \<Longrightarrow> \<exists>s'. f c s = Inr s' \<and> P s'" "P s"
  shows "\<exists>s'. foldE f cs s = Inr s' \<and> P s'"
  using assms
proof (induction cs arbitrary: s)
  case (Cons c cs)
  then obtain s1 where "f c s = Inr s1" "P s1" by fastforce
  with Cons show ?case by simp
qed simp

text \<open>A loop over a list that stops at the first error and collects the results.\<close>

fun mapE :: "('a \<Rightarrow> 'e + 'b) \<Rightarrow> 'a list \<Rightarrow> 'e + 'b list" where
  "mapE f [] = Inr []"
| "mapE f (x # xs) = bindE (f x) (\<lambda>y. bindE (mapE f xs) (\<lambda>ys. Inr (y # ys)))"

lemma mapE_Inr: "(\<And>x. x \<in> set xs \<Longrightarrow> f x = Inr (g x)) \<Longrightarrow> mapE f xs = Inr (map g xs)"
  by (induction xs) auto

lemma mapE_ex:
  assumes "\<And>x. x \<in> set xs \<Longrightarrow> \<exists>y. f x = Inr y \<and> R x y"
  shows "\<exists>ys. mapE f xs = Inr ys \<and> list_all2 R xs ys"
  using assms
proof (induction xs)
  case (Cons x xs)
  then obtain y ys where "f x = Inr y" "R x y" "mapE f xs = Inr ys" "list_all2 R xs ys" by fastforce
  then show ?case by simp
qed simp

end
