(* ===== verification/Gear.thy ===== *)
theory Gear
  imports Prelude
begin

text \<open>
  Content-defined sub-chunking of the delta codec (\<open>edelta/util.cc\<close>, \<open>util.h\<close>): the gear
  table, the two gear-hash chunkers, the 64-bit weak hash, and \<open>Chunking_v3\<close>, which turns
  the cut points of a base chunk into records. The lemmas give the chunk bounds on which
  the codec's progress and memory safety rest.
\<close>

definition STRMIN :: nat where "STRMIN = 12"
definition STRMAX :: nat where "STRMAX = 64"
definition STRAVG :: u32 where "STRAVG = 28"

lemmas str_consts = STRMIN_def STRMAX_def STRAVG_def

text \<open>
  The initialiser of \<open>uint32_t GEAR[256]\<close> lists 255 values; C sets the last element to 0.
\<close>

definition gear_table :: "u32 list" where
  "gear_table =
    [0x4b8fbc70, 0x95a75be0, 0x7fa97617, 0xdb51a0d, 0x7c71d5b3, 0x97842403,
     0x87d60b89, 0x10c081cb, 0x176c2faf, 0xc7392648, 0x2f15cf70, 0x842062ac,
     0x7d19bc1b, 0xc9a22b6d, 0x29f65703, 0x54f0a470, 0x4913c078, 0x91dd2661,
     0xce401296, 0x1080796b, 0x3c6ba084, 0x291fd606, 0x1be96ae, 0x5e104df3,
     0x953a3946, 0xd59e7f77, 0x9f4734d9, 0xf095c27c, 0xe4448418, 0x47ca4676,
     0xe9131404, 0xc6965ee3, 0x2f46c05a, 0x8ba2c750, 0x5fb2fec6, 0xaae07db7,
     0xf96ad818, 0xaed74a8d, 0x3b73296d, 0x42b47c83, 0x3f14fa76, 0xe775583b,
     0x8583a649, 0xe347effd, 0x1814ed33, 0xd747a499, 0x1241b4c, 0xc2ba1de6,
     0x9e459ecd, 0xf2cb801a, 0xb1575ba0, 0x57230ea3, 0xfd6e88ca, 0x1d0501a2,
     0xf33ed508, 0x531f339c, 0xece73621, 0x2171ee60, 0xc545563a, 0x3b68b071,
     0x480657e4, 0x69b955c1, 0x954a24b1, 0xc458ee33, 0x48958571, 0xccdd1652,
     0xa67ad0f0, 0xa93e0890, 0x8255fe6, 0xc190ff58, 0x6d2966a, 0x1e3e1a20,
     0x1649fd23, 0xa5452efe, 0x247ce55, 0xf4220d84, 0xf817eb4b, 0xab0ff6bf,
     0xd98c80da, 0xbb660cad, 0xce39b4a0, 0xebfa6bfe, 0xc4baba1b, 0x5cfd0930,
     0x7cdba262, 0xab2c4cdb, 0xdd1858e7, 0x7aa35c54, 0x36c7793b, 0xc3298957,
     0x5212e006, 0x772a10b3, 0x4b412801, 0x6348ea44, 0x90b7a8c, 0xf3903817,
     0x55ec8d5, 0xd39bca5e, 0xa19e4f8b, 0xf8472700, 0xd792025e, 0xcfdc83e0,
     0x576880c7, 0xcbaa6558, 0x692f5350, 0x1400ee49, 0x3a89aa8b, 0x46873d99,
     0x63ecb853, 0x9860b122, 0x31685257, 0x32874e3d, 0x6b44e063, 0x87525cd0,
     0xf0a5025c, 0x6ccb4020, 0xf1d8849d, 0x414f66e7, 0x6afed5a4, 0x9a9befeb,
     0xd6e18fdc, 0x27129a4c, 0x7d6bcf28, 0x37fa944a, 0xe9b09b54, 0x9159093,
     0x4a31242, 0x28d0d7d2, 0x97e8d65a, 0xfcf68625, 0x1800702, 0x39dbe43f,
     0x35da0210, 0xa6c68d9, 0x68500f4e, 0xc8a5ab6e, 0x8b2b756a, 0xd5fb25bd,
     0xb0c0405d, 0xc453b18c, 0xe2e66ea4, 0xda553370, 0x7dbc5759, 0x886eeab,
     0x9fafd0e5, 0x4e430b, 0x8331c2e5, 0x5a5d06b4, 0xe43f7b9d, 0xf3ec3644,
     0x6a46d11, 0xcd41e503, 0xa18a2e19, 0xadde1ea1, 0x36f7488e, 0x455255bd,
     0x8075175e, 0x88d32d58, 0x9a0a25b0, 0x970e0c67, 0x77b009e, 0x12d5bf75,
     0xdc7fd18, 0xde77a2bb, 0x6ab176e0, 0xa6ab6c09, 0x6210efa8, 0xd947e049,
     0x5fb01605, 0xde4bd448, 0x5b2af7ba, 0xd2b49fe9, 0x1783f531, 0x66fffd39,
     0x59e8a9ba, 0xc2ee818b, 0x1f3b0f3c, 0x4cd0e620, 0xeaf278ba, 0x92045e3d,
     0x64e6ebca, 0x9b70573, 0x3aaf57a4, 0xe287e26, 0x54dcafbb, 0x8c25a8,
     0x99642381, 0x5c8de9f0, 0x51fda6c0, 0x910e0b6d, 0xf6328e12, 0xec5e5389,
     0x8ed195f, 0xe80f0583, 0xa7185a25, 0xa83c3268, 0xa4e79433, 0xe6def4b,
     0x77065b1f, 0x43678dc7, 0x7e506399, 0x88503f60, 0x62c4983d, 0x70ece12,
     0xe0d421a4, 0x71821295, 0x801310e8, 0x3bd7bf4b, 0xe42779be, 0xefee3449,
     0xd6aaaffc, 0xa5608bae, 0xf6e0b8ae, 0xdd79aa9f, 0x8bd6606d, 0x3b83977a,
     0x512a0c70, 0x2c6de88, 0x25f5ea97, 0x68ceb140, 0xdaa87097, 0x602b8497,
     0x7767467a, 0xfee216a8, 0x14512325, 0x142c4e04, 0x7bf5ac09, 0x384364d5,
     0xf58188a8, 0xa410598, 0x799223f, 0xc1b76b42, 0xd828d74b, 0x931ecbb1,
     0x41922ad3, 0x787fb489, 0xf41c1d00, 0x3dbc3f88, 0x12a70e39, 0x26ae363d,
     0x47f7274, 0x86385074, 0x2ffb7263, 0xb8e3de33, 0x9496a61, 0x92025809,
     0xbf8b296d, 0xf1a57003, 0xa8057fb6, 0x2ce2e565, 0x56d7a64a, 0xa6e30007,
     0xe0562996, 0xabec18bd, 0x6b8c68ed,
     0]"

definition GEAR :: "byte \<Rightarrow> u32" where
  "GEAR b = gear_table ! unat b"

text \<open>
  A read \<open>p[i]\<close>. The chunkers read at most one byte past the length they are given; what
  is there never influences the result (\<open>chunk_gear_cong\<close>), so the model reads 0.
\<close>

definition byte_at :: "bytes \<Rightarrow> nat \<Rightarrow> byte" where
  "byte_at p i = (if i < length p then p ! i else 0)"

section \<open>\<open>chunk_gear\<close>: the next sub-chunk of the input\<close>

function chunk_gear_loop :: "bytes \<Rightarrow> nat \<Rightarrow> u32 \<Rightarrow> nat \<Rightarrow> nat" where
  "chunk_gear_loop p n fingerprint i =
     (if i \<le> n then
        let fingerprint' = push_bit 1 fingerprint + GEAR (byte_at p i) in
        if i \<le> STRMAX then
          if fingerprint' AND STRAVG = 0 then i
          else chunk_gear_loop p n fingerprint' (i + 1)
        else i
      else i)"
  by pat_completeness auto
termination
  by (relation "measure (\<lambda>(p, n, fingerprint, i). Suc n - i)") auto

definition chunk_gear :: "bytes \<Rightarrow> nat \<Rightarrow> nat" where
  "chunk_gear p n = (if n \<le> STRMAX then n else chunk_gear_loop p n 0 (STRMIN + 1))"

declare chunk_gear_loop.simps [simp del]

lemma chunk_gear_loop_bounds:
  "STRMAX < n \<Longrightarrow> i \<le> STRMAX + 1 \<Longrightarrow>
   i \<le> chunk_gear_loop p n fp i \<and> chunk_gear_loop p n fp i \<le> STRMAX + 1"
proof (induction p n fp i rule: chunk_gear_loop.induct)
  case (1 p n fp i)
  let ?fp = "push_bit 1 fp + GEAR (byte_at p i)"
  show ?case
  proof (cases "i \<le> STRMAX \<and> ?fp AND STRAVG \<noteq> 0")
    case True
    with "1.prems" have "chunk_gear_loop p n fp i = chunk_gear_loop p n ?fp (i + 1)"
      by (subst chunk_gear_loop.simps) (simp add: Let_def)
    with "1.IH" [of ?fp] True "1.prems" show ?thesis by simp
  next
    case False
    then have "chunk_gear_loop p n fp i = i"
      by (subst chunk_gear_loop.simps) (simp add: Let_def)
    with "1.prems" show ?thesis by simp
  qed
qed

lemma chunk_gear_le: "chunk_gear p n \<le> n"
  using chunk_gear_loop_bounds [of n "STRMIN + 1" p 0]
  by (auto simp: chunk_gear_def str_consts)

lemma chunk_gear_pos: "0 < n \<Longrightarrow> 0 < chunk_gear p n"
  using chunk_gear_loop_bounds [of n "STRMIN + 1" p 0]
  by (auto simp: chunk_gear_def str_consts)

lemma chunk_gear_0 [simp]: "chunk_gear p 0 = 0"
  by (simp add: chunk_gear_def)

lemma chunk_gear_min: "STRMAX < n \<Longrightarrow> STRMIN < chunk_gear p n \<and> chunk_gear p n \<le> STRMAX + 1"
  using chunk_gear_loop_bounds [of n "STRMIN + 1" p 0]
  by (auto simp: chunk_gear_def str_consts)

text \<open>The bytes outside the given range do not matter.\<close>

lemma chunk_gear_loop_cong:
  "STRMAX < n \<Longrightarrow> i \<le> STRMAX + 1 \<Longrightarrow> take n p = take n q \<Longrightarrow>
   chunk_gear_loop p n fp i = chunk_gear_loop q n fp i"
proof (induction p n fp i rule: chunk_gear_loop.induct)
  case (1 p n fp i)
  show ?case
  proof (cases "i \<le> STRMAX")
    case True
    with "1.prems" have i: "i < n" by simp
    have "byte_at p i = byte_at (take n p) i" "byte_at q i = byte_at (take n q) i"
      using i by (simp_all add: byte_at_def)
    with "1.prems" have b: "byte_at p i = byte_at q i" by simp
    have "chunk_gear_loop p n (push_bit 1 fp + GEAR (byte_at p i)) (i + 1)
        = chunk_gear_loop q n (push_bit 1 fp + GEAR (byte_at p i)) (i + 1)"
      if "(push_bit 1 fp + GEAR (byte_at p i)) AND STRAVG \<noteq> 0"
      using "1.IH" [OF _ refl] True i "1.prems" that by simp
    with True i b show ?thesis
      by (subst (1 2) chunk_gear_loop.simps) (simp add: Let_def)
  next
    case False
    then show ?thesis by (subst (1 2) chunk_gear_loop.simps) simp
  qed
qed

lemma chunk_gear_cong: "take n p = take n q \<Longrightarrow> chunk_gear p n = chunk_gear q n"
  by (auto simp: chunk_gear_def str_consts intro!: chunk_gear_loop_cong)

section \<open>\<open>rolling_gear_v3\<close>: the cut points of a stretch of the base\<close>

function rolling_gear_loop ::
  "bytes \<Rightarrow> nat \<Rightarrow> nat \<Rightarrow> u32 \<Rightarrow> nat \<Rightarrow> nat list \<Rightarrow> nat \<Rightarrow> nat list" where
  "rolling_gear_loop p n num_of_chunks fingerprint i cuts j =
     (if j < num_of_chunks then
        if i < n then
          let fingerprint' = push_bit 1 fingerprint + GEAR (byte_at p i) in
          if i \<le> last cuts + STRMAX then
            if fingerprint' AND STRAVG = 0
            then rolling_gear_loop p n num_of_chunks 0 (i + STRMIN + 1) (cuts @ [i]) (j + 1)
            else rolling_gear_loop p n num_of_chunks fingerprint' (i + 1) cuts j
          else rolling_gear_loop p n num_of_chunks 0 (i + STRMIN + 1) (cuts @ [i]) (j + 1)
        else cuts @ replicate (num_of_chunks - j) n
      else cuts)"
  by pat_completeness auto
termination
  by (relation "measure (\<lambda>(p, n, num_of_chunks, fingerprint, i, cuts, j). n - i)") auto

definition rolling_gear_v3 :: "bytes \<Rightarrow> nat \<Rightarrow> nat \<Rightarrow> nat list" where
  "rolling_gear_v3 p n num_of_chunks = rolling_gear_loop p n num_of_chunks 0 (STRMIN + 1) [0] 0"

declare rolling_gear_loop.simps [simp del]

text \<open>
  A state of the loop is well formed when one cut more than chunks has been written, the
  cuts so far are ascending and stay below the read position.
\<close>

definition cuts_ok :: "nat \<Rightarrow> nat \<Rightarrow> nat list \<Rightarrow> nat \<Rightarrow> bool" where
  "cuts_ok n i cuts j \<longleftrightarrow>
     length cuts = j + 1 \<and> sorted cuts \<and> cuts ! 0 = 0 \<and> last cuts \<le> n \<and> last cuts + STRMIN < i"

lemma cuts_ok_snoc:
  "cuts_ok n i cuts j \<Longrightarrow> i < n \<Longrightarrow> cuts_ok n (i + STRMIN + 1) (cuts @ [i]) (j + 1)"
  by (cases cuts rule: rev_cases) (fastforce simp: cuts_ok_def nth_append sorted_append)+

lemma cuts_ok_step: "cuts_ok n i cuts j \<Longrightarrow> cuts_ok n (Suc i) cuts j"
  by (simp add: cuts_ok_def)

lemma cuts_ok_le: "cuts_ok n i cuts j \<Longrightarrow> c \<in> set cuts \<Longrightarrow> c \<le> n"
  by (cases cuts rule: rev_cases) (fastforce simp: cuts_ok_def sorted_append)+

definition cuts_done :: "nat \<Rightarrow> nat \<Rightarrow> nat list \<Rightarrow> bool" where
  "cuts_done n num cuts \<longleftrightarrow> length cuts = num + 1 \<and> sorted cuts \<and> cuts ! 0 = 0 \<and> last cuts \<le> n"

lemma cuts_done_fill:
  "cuts_ok n i cuts j \<Longrightarrow> j < num \<Longrightarrow> cuts_done n num (cuts @ replicate (num - j) n)"
  by (auto simp: cuts_done_def sorted_append nth_append last_replicate dest: cuts_ok_le)
    (auto simp: cuts_ok_def)

lemma rolling_gear_loop_spec:
  "cuts_ok n i cuts j \<Longrightarrow> j \<le> num \<Longrightarrow> cuts_done n num (rolling_gear_loop p n num fp i cuts j)"
proof (induction p n num fp i cuts j rule: rolling_gear_loop.induct)
  case (1 p n num fp i cuts j)
  let ?R = "rolling_gear_loop p n num fp i cuts j"
  let ?fp = "push_bit 1 fp + GEAR (byte_at p i)"
  consider (stop) "\<not> j < num" | (fill) "j < num" "\<not> i < n"
    | (cutting) "j < num" "i < n" "\<not> (i \<le> last cuts + STRMAX \<and> ?fp AND STRAVG \<noteq> 0)"
    | (skip) "j < num" "i < n" "i \<le> last cuts + STRMAX" "?fp AND STRAVG \<noteq> 0"
    by blast
  then show ?case
  proof cases
    case stop
    then have "?R = cuts" by (subst rolling_gear_loop.simps) simp
    with stop "1.prems" show ?thesis by (auto simp: cuts_ok_def cuts_done_def)
  next
    case fill
    then have "?R = cuts @ replicate (num - j) n" by (subst rolling_gear_loop.simps) simp
    with fill "1.prems" show ?thesis by (simp add: cuts_done_fill)
  next
    case cutting
    then have "?R = rolling_gear_loop p n num 0 (i + STRMIN + 1) (cuts @ [i]) (j + 1)"
      by (subst rolling_gear_loop.simps) (auto simp: Let_def)
    moreover have "cuts_ok n (i + STRMIN + 1) (cuts @ [i]) (j + 1)"
      using "1.prems" cutting by (intro cuts_ok_snoc)
    ultimately show ?thesis
      using "1.IH" [of ?fp] cutting by (cases "i \<le> last cuts + STRMAX") simp_all
  next
    case skip
    then have "?R = rolling_gear_loop p n num ?fp (i + 1) cuts j"
      by (subst rolling_gear_loop.simps) (auto simp: Let_def)
    with "1.IH" [of ?fp] skip "1.prems" show ?thesis by (simp add: cuts_ok_step)
  qed
qed

lemma rolling_gear_v3_spec: "cuts_done n num (rolling_gear_v3 p n num)"
  unfolding rolling_gear_v3_def
  by (rule rolling_gear_loop_spec) (simp_all add: cuts_ok_def)

section \<open>\<open>weakHash\<close>\<close>

text \<open>
  The 64-bit hash of a sub-chunk (an XXH64 with a fixed seed). The loop over 32-byte
  stripes, the loop over 8-byte words and the byte tail are the three recursive functions;
  all arithmetic is on \<open>64 word\<close> and wraps as \<open>uint64_t\<close> does.
\<close>

definition xxh_seed :: u64 where "xxh_seed = 0x7fcaf1"
definition xxh_p1 :: u64 where "xxh_p1 = 0x9e3779b185ebca87"
definition xxh_p2 :: u64 where "xxh_p2 = 0xc2b2ae3d27d4eb4f"
definition xxh_p3 :: u64 where "xxh_p3 = 0x165667b19e3779f9"
definition xxh_p4 :: u64 where "xxh_p4 = 0x85ebca77c2b2ae63"
definition xxh_p5 :: u64 where "xxh_p5 = 0x27d4eb2f165667c5"

definition XXHR :: "u64 \<Rightarrow> nat \<Rightarrow> u64" where
  "XXHR x r = push_bit r x OR drop_bit (64 - r) x"

definition XXHS :: "u64 \<Rightarrow> u64 \<Rightarrow> u64" where
  "XXHS x v = XXHR (v + x * xxh_p2) 31 * xxh_p1"

definition XXHF :: "u64 \<Rightarrow> u64 \<Rightarrow> u64" where
  "XXHF v h = (h XOR (XXHR (v * xxh_p2) 31 * xxh_p1)) * xxh_p1 + xxh_p4"

function xxh_stripes :: "bytes \<Rightarrow> u64 \<times> u64 \<times> u64 \<times> u64 \<Rightarrow> (u64 \<times> u64 \<times> u64 \<times> u64) \<times> bytes" where
  "xxh_stripes p (v0, v1, v2, v3) =
     (if length p < 32 then ((v0, v1, v2, v3), p)
      else xxh_stripes (drop 32 p)
        (XXHS (rd64 p) v0, XXHS (rd64 (drop 8 p)) v1,
         XXHS (rd64 (drop 16 p)) v2, XXHS (rd64 (drop 24 p)) v3))"
  by pat_completeness auto
termination
  by (relation "measure (\<lambda>(p, v). length p)") auto

function xxh_words :: "bytes \<Rightarrow> u64 \<Rightarrow> u64 \<times> bytes" where
  "xxh_words p h =
     (if length p < 8 then (h, p)
      else xxh_words (drop 8 p)
        (XXHR (h XOR (XXHR (rd64 p * xxh_p2) 31 * xxh_p1)) 27 * xxh_p1 + xxh_p4))"
  by pat_completeness auto
termination
  by (relation "measure (\<lambda>(p, h). length p)") auto

fun xxh_tail :: "bytes \<Rightarrow> u64 \<Rightarrow> u64" where
  "xxh_tail [] h = h"
| "xxh_tail (b # p) h = xxh_tail p (XXHR (h XOR (ucast b * xxh_p5)) 11 * xxh_p1)"

declare xxh_stripes.simps [simp del] xxh_words.simps [simp del]

definition weakHash :: "bytes \<Rightarrow> u64" where
  "weakHash buf =
    (let n = word_of_nat (length buf) :: u64;
         (h0, p0) =
           (if length buf < 32 then (xxh_seed + xxh_p5 + n, buf)
            else case xxh_stripes buf
                   (xxh_seed + xxh_p1 + xxh_p2, xxh_seed + xxh_p2, xxh_seed, xxh_seed - xxh_p1) of
              ((v0, v1, v2, v3), p) \<Rightarrow>
                (XXHF v3 (XXHF v2 (XXHF v1 (XXHF v0
                   (XXHR v0 1 + XXHR v1 7 + XXHR v2 12 + XXHR v3 18)))) + n, p));
         (h1, p1) = xxh_words p0 h0;
         (h2, p2) =
           (if 4 \<le> length p1
            then (XXHR (h1 XOR (ucast (rd32 p1) * xxh_p1)) 23 * xxh_p2 + xxh_p3, drop 4 p1)
            else (h1, p1));
         h3 = xxh_tail p2 h2;
         h4 = (h3 XOR drop_bit 33 h3) * xxh_p2;
         h5 = (h4 XOR drop_bit 29 h4) * xxh_p3
     in h5 XOR drop_bit 32 h5)"

section \<open>Records of base sub-chunks\<close>

text \<open>
  \<open>DeltaRecord\<close> without its intrusive link: the hash table holds the chains (theory
  \<open>HTable\<close>). \<open>nSimID\<close> is never written or read.
\<close>

record DeltaRecord =
  nHash :: u64
  nOffset :: nat
  nLength :: nat
  DupFlag :: nat

definition Chunking_v3 :: "bytes \<Rightarrow> nat \<Rightarrow> nat \<Rightarrow> DeltaRecord list \<times> nat" where
  "Chunking_v3 data len num_of_chunks =
    (let cuts = rolling_gear_v3 data len num_of_chunks;
         subChunkLink = map (\<lambda>i.
           \<lparr>nHash = weakHash (seg (cuts ! i) (cuts ! (i + 1) - cuts ! i) data),
            nOffset = cuts ! i, nLength = cuts ! (i + 1) - cuts ! i, DupFlag = 0\<rparr>)
           [0..<num_of_chunks]
     in (subChunkLink, last cuts))"

lemma Chunking_v3_records:
  assumes "r \<in> set (fst (Chunking_v3 data len num))"
  shows "nOffset r + nLength r \<le> snd (Chunking_v3 data len num)"
proof -
  let ?cuts = "rolling_gear_v3 data len num"
  have spec: "length ?cuts = num + 1" "sorted ?cuts"
    using rolling_gear_v3_spec [of len num data] by (simp_all add: cuts_done_def)
  from assms obtain i where i: "i < num" "nOffset r = ?cuts ! i" "nLength r = ?cuts ! (i + 1) - ?cuts ! i"
    by (auto simp: Chunking_v3_def Let_def)
  have "?cuts ! i \<le> ?cuts ! (i + 1)" "?cuts ! (i + 1) \<le> ?cuts ! num"
    using i spec by (auto intro!: sorted_nth_mono)
  moreover have "?cuts ! num = last ?cuts"
    using spec by (subst last_conv_nth) auto
  ultimately show ?thesis
    using i by (simp add: Chunking_v3_def Let_def)
qed

lemma Chunking_v3_bytes: "snd (Chunking_v3 data len num) \<le> len"
  using rolling_gear_v3_spec [of len num data] by (simp add: Chunking_v3_def Let_def cuts_done_def)

lemma length_Chunking_v3: "length (fst (Chunking_v3 data len num)) = num"
  by (simp add: Chunking_v3_def Let_def)

end
