(* ===== verification/HTable.thy ===== *)
theory HTable
  imports Gear
begin

text \<open>
  The chained hash table of base sub-chunks (\<open>edelta/htable.cc\<close>, \<open>htable.h\<close>). The intrusive
  chains (\<open>hlink\<close>) are lists of records, one per bucket; the key of an item is its own
  \<open>nHash\<close>, as every caller passes \<open>&rec->nHash\<close>. The locale \<open>chunk_index\<close> is what the
  codec relies on: a lookup finds a stored record with that key, and misses only if there
  is none. Which of several records with one key is found is not promised, and
  \<open>grow_table\<close> does reverse their order.
\<close>

record htable =
  table :: "DeltaRecord list list"
  num_items :: nat
  max_items :: nat
  buckets :: nat
  mask :: u32

section \<open>Operations\<close>

fun ht_pwr :: "nat \<Rightarrow> nat" where
  "ht_pwr tsize = (if tsize = 0 then 0 else Suc (ht_pwr (tsize div 2)))"

declare ht_pwr.simps [simp del]

definition ht_init :: "nat \<Rightarrow> htable" where
  "ht_init tsize =
    (let pwr = ht_pwr (tsize div 4) in
     \<lparr>table = replicate (2 ^ pwr) [], num_items = 0, max_items = 2 ^ pwr * 4,
      buckets = 2 ^ pwr, mask = NOT (push_bit pwr (NOT 0))\<rparr>)"

definition ht_index :: "u32 \<Rightarrow> u64 \<Rightarrow> nat" where
  "ht_index m key = unat ((key * 2654435761) AND ucast m)"

text \<open>\<open>insert\<close> up to its growth check: the item becomes the head of its chain.\<close>

definition ht_link :: "htable \<Rightarrow> DeltaRecord \<Rightarrow> htable" where
  "ht_link t item =
    (let index = ht_index (mask t) (nHash item) in
     t\<lparr>table := (table t)[index := item # table t ! index], num_items := num_items t + 1\<rparr>)"

text \<open>
  \<open>grow_table\<close> walks the old table with \<open>first\<close>/\<open>next\<close> (buckets in ascending order, each
  chain from its head) and inserts every item in a table of twice the size.
\<close>

definition ht_walk :: "htable \<Rightarrow> DeltaRecord list" where
  "ht_walk t = concat (table t)"

definition ht_big :: "htable \<Rightarrow> htable" where
  "ht_big t =
    \<lparr>table = replicate (buckets t * 2) [], num_items = 0, max_items = buckets t * 2 * 4,
     buckets = buckets t * 2, mask = push_bit 1 (mask t) OR 1\<rparr>"

definition grow_table :: "htable \<Rightarrow> htable" where
  "grow_table t = foldl ht_link (ht_big t) (ht_walk t)"

definition ht_insert :: "htable \<Rightarrow> DeltaRecord \<Rightarrow> htable" where
  "ht_insert t item =
    (let t' = ht_link t item in
     if num_items t' \<ge> max_items t' then grow_table t' else t')"

definition ht_lookup :: "htable \<Rightarrow> u64 \<Rightarrow> DeltaRecord option" where
  "ht_lookup t key = find (\<lambda>hp. key = nHash hp) (table t ! ht_index (mask t) key)"

definition ResetTable :: "htable \<Rightarrow> htable" where
  "ResetTable t = t\<lparr>table := replicate (buckets t) [], num_items := 0\<rparr>"

section \<open>Invariant\<close>

definition ht_items :: "htable \<Rightarrow> DeltaRecord set" where
  "ht_items t = set (ht_walk t)"

definition ht_inv :: "htable \<Rightarrow> bool" where
  "ht_inv t \<longleftrightarrow>
     length (table t) = buckets t \<and> unat (mask t) < buckets t \<and>
     num_items t = length (ht_walk t) \<and>
     (\<forall>i < buckets t. \<forall>r \<in> set (table t ! i). ht_index (mask t) (nHash r) = i)"

lemma ht_index_le: "ht_index m key \<le> unat m"
proof -
  have "(key * 2654435761) AND ucast m \<le> (ucast m :: u64)" by (rule word_and_le1)
  then have "ht_index m key \<le> take_bit 64 (unat m)"
    by (simp add: ht_index_def word_le_nat_alt unsigned_ucast_eq)
  also have "\<dots> \<le> unat m" by (rule take_bit_nat_less_eq_self)
  finally show ?thesis .
qed

lemma ht_index_bound: "ht_inv t \<Longrightarrow> ht_index (mask t) key < length (table t)"
  using ht_index_le [of "mask t" key] by (simp add: ht_inv_def)

lemma ht_items_iff: "r \<in> ht_items t \<longleftrightarrow> (\<exists>i < length (table t). r \<in> set (table t ! i))"
  unfolding ht_items_def ht_walk_def by (auto simp: set_conv_nth [of "table t"])

lemma ht_items_index:
  "ht_inv t \<Longrightarrow> r \<in> ht_items t \<longleftrightarrow> r \<in> set (table t ! ht_index (mask t) (nHash r))"
  using ht_index_bound [of t "nHash r"] by (auto simp: ht_items_iff ht_inv_def)

lemma ht_link_frame [simp]:
  "mask (ht_link t r) = mask t" "buckets (ht_link t r) = buckets t"
  "max_items (ht_link t r) = max_items t" "num_items (ht_link t r) = num_items t + 1"
  "length (table (ht_link t r)) = length (table t)"
  by (simp_all add: ht_link_def Let_def)

lemma length_concat_update:
  "i < length xss \<Longrightarrow> length (concat (xss[i := x # xss ! i])) = Suc (length (concat xss))"
  by (induction xss arbitrary: i) (auto split: nat.splits)

lemma ht_link_inv: "ht_inv t \<Longrightarrow> ht_inv (ht_link t r)"
  using ht_index_bound [of t "nHash r"]
  by (auto simp: ht_inv_def ht_link_def Let_def ht_walk_def length_concat_update nth_list_update)

lemma ht_link_items: "ht_inv t \<Longrightarrow> ht_items (ht_link t r) = insert r (ht_items t)"
  using ht_index_bound [of t "nHash r"]
  by (fastforce simp: ht_items_iff ht_link_def Let_def nth_list_update split: if_splits)

lemma concat_replicate_Nil [simp]: "concat (replicate n []) = []"
  by (induction n) auto

lemma ht_empty_inv:
  "unat m < b \<Longrightarrow> table t = replicate b [] \<Longrightarrow> num_items t = 0 \<Longrightarrow> buckets t = b \<Longrightarrow> mask t = m
   \<Longrightarrow> ht_inv t \<and> ht_items t = {}"
  by (simp add: ht_inv_def ht_walk_def ht_items_def)

lemma mask_step: "unat (push_bit 1 m OR 1 :: u32) \<le> 2 * unat m + 1"
proof -
  have "push_bit 1 m OR 1 = push_bit 1 m + (1 :: u32)"
    by (simp add: or_one_eq)
  also have "unat \<dots> \<le> 2 * unat m + 1"
    by (simp add: push_bit_eq_mult unat_word_ariths mult.commute)
  finally show ?thesis .
qed

lemma ht_big_inv: "ht_inv t \<Longrightarrow> ht_inv (ht_big t) \<and> ht_items (ht_big t) = {}"
  using mask_step [of "mask t"]
  by (intro ht_empty_inv [where m = "push_bit 1 (mask t) OR 1" and b = "buckets t * 2"])
    (simp_all add: ht_big_def ht_inv_def)


lemma foldl_ht_link:
  "ht_inv t \<Longrightarrow> ht_inv (foldl ht_link t rs) \<and>
   ht_items (foldl ht_link t rs) = set rs \<union> ht_items t \<and>
   num_items (foldl ht_link t rs) = num_items t + length rs \<and>
   max_items (foldl ht_link t rs) = max_items t"
  by (induction rs arbitrary: t) (auto simp: ht_link_inv ht_link_items)

lemma grow_table_inv: "ht_inv t \<Longrightarrow> ht_inv (grow_table t) \<and> ht_items (grow_table t) = ht_items t"
  using foldl_ht_link [of "ht_big t" "ht_walk t"] ht_big_inv [of t]
  by (simp add: grow_table_def ht_items_def)

text \<open>
  The growth check of \<open>big->insert\<close> inside \<open>grow_table\<close> never fires: while the old items
  are moved over, the new table stays below its own limit, so \<open>ht_link\<close> is what runs.
\<close>

lemma grow_table_no_nested_growth:
  assumes "ht_inv t" "num_items t \<le> max_items t" "max_items t = 4 * buckets t" "0 < buckets t"
    "n \<le> length (ht_walk t)"
  shows "num_items (foldl ht_link (ht_big t) (take n (ht_walk t)))
       < max_items (foldl ht_link (ht_big t) (take n (ht_walk t)))"
  using foldl_ht_link [of "ht_big t" "take n (ht_walk t)"] ht_big_inv [of t] assms
  by (simp add: ht_big_def ht_inv_def)

lemma ht_insert_inv: "ht_inv t \<Longrightarrow> ht_inv (ht_insert t r)"
  by (simp add: ht_insert_def Let_def ht_link_inv grow_table_inv)

lemma ht_insert_items: "ht_inv t \<Longrightarrow> ht_items (ht_insert t r) = insert r (ht_items t)"
  by (simp add: ht_insert_def Let_def ht_link_inv grow_table_inv ht_link_items)

lemma ht_lookup_Some: "ht_inv t \<Longrightarrow> ht_lookup t k = Some r \<Longrightarrow> r \<in> ht_items t \<and> nHash r = k"
  using ht_index_bound [of t k]
  by (auto simp: ht_lookup_def find_Some_iff ht_items_iff)

lemma ht_lookup_None: "ht_inv t \<Longrightarrow> ht_lookup t k = None \<longleftrightarrow> (\<forall>r \<in> ht_items t. nHash r \<noteq> k)"
  by (auto simp: ht_lookup_def find_None_iff ht_items_index)

lemma ht_init_inv: "ht_inv (ht_init n) \<and> ht_items (ht_init n) = {}"
proof -
  have "unat (NOT (push_bit p (NOT 0)) :: u32) < 2 ^ p" for p
  proof -
    have "NOT (push_bit p (NOT 0)) = (word_of_nat (Bit_Operations.mask p) :: u32)"
      by (simp add: push_bit_minus_one_eq_not_mask of_nat_mask_eq)
    then have "unat (NOT (push_bit p (NOT 0)) :: u32) \<le> Bit_Operations.mask p"
      by (simp only: unat_of_nat_le)
    also have "\<dots> < 2 ^ p"
      by (simp add: mask_eq_exp_minus_1)
    finally show ?thesis .
  qed
  then show ?thesis
    by (intro ht_empty_inv [where b = "2 ^ ht_pwr (n div 4)"]) (simp_all add: ht_init_def Let_def)
qed

lemma ResetTable_inv: "ht_inv t \<Longrightarrow> ht_inv (ResetTable t) \<and> ht_items (ResetTable t) = {}"
  by (intro ht_empty_inv [where b = "buckets t" and m = "mask t"]) (simp_all add: ResetTable_def ht_inv_def)

section \<open>What the codec relies on\<close>

locale chunk_index =
  fixes inv :: "'t \<Rightarrow> bool"
    and items :: "'t \<Rightarrow> DeltaRecord set"
    and ins :: "'t \<Rightarrow> DeltaRecord \<Rightarrow> 't"
    and lookup :: "'t \<Rightarrow> u64 \<Rightarrow> DeltaRecord option"
    and reset :: "'t \<Rightarrow> 't"
  assumes inv_ins: "inv t \<Longrightarrow> inv (ins t r)"
    and items_ins: "inv t \<Longrightarrow> items (ins t r) = insert r (items t)"
    and lookup_sound: "inv t \<Longrightarrow> lookup t k = Some r \<Longrightarrow> r \<in> items t \<and> nHash r = k"
    and lookup_complete: "inv t \<Longrightarrow> lookup t k = None \<longleftrightarrow> (\<forall>r \<in> items t. nHash r \<noteq> k)"
    and inv_reset: "inv t \<Longrightarrow> inv (reset t)"
    and items_reset: "inv t \<Longrightarrow> items (reset t) = {}"
begin

text \<open>A predicate that every stored record satisfies, and its preservation.\<close>

definition all_items :: "(DeltaRecord \<Rightarrow> bool) \<Rightarrow> 't \<Rightarrow> bool" where
  "all_items P t \<longleftrightarrow> inv t \<and> (\<forall>r \<in> items t. P r)"

lemma all_items_ins: "all_items P t \<Longrightarrow> P r \<Longrightarrow> all_items P (ins t r)"
  by (simp add: all_items_def inv_ins items_ins)

lemma all_items_lookup: "all_items P t \<Longrightarrow> lookup t k = Some r \<Longrightarrow> P r"
  using lookup_sound by (auto simp: all_items_def)

lemma all_items_reset: "inv t \<Longrightarrow> all_items P (reset t)"
  by (simp add: all_items_def inv_reset items_reset)

lemma lookup_after_ins: "inv t \<Longrightarrow> \<exists>r'. lookup (ins t r) (nHash r) = Some r' \<and> nHash r' = nHash r"
proof -
  assume t: "inv t"
  then have "lookup (ins t r) (nHash r) \<noteq> None"
    by (simp add: lookup_complete inv_ins items_ins)
  with lookup_sound [OF inv_ins [OF t]] show ?thesis by blast
qed

end

interpretation ht: chunk_index ht_inv ht_items ht_insert ht_lookup ResetTable
proof (unfold_locales, goal_cases)
  case (3 t k r)
  then show ?case by (rule ht_lookup_Some)
qed (simp_all add: ht_insert_inv ht_insert_items ht_lookup_None ResetTable_inv)

end
