(* ===== verification/DeltaFormat.thy ===== *)
theory DeltaFormat
  imports Gear
begin

text \<open>
  The delta format of the edelta codec and its decoder (\<open>DeltaUnit1\<close>/\<open>DeltaUnit2\<close> of
  \<open>util.h\<close>; \<open>set_flag\<close>, \<open>get_flag\<close>, \<open>set_length\<close>, \<open>get_length\<close> and \<open>EDeltaDecode\<close>). A delta is a
  sequence of units, each a copy from the base or literal bytes; \<open>enc_unit\<close> is the byte
  image of one unit and \<open>run_unit\<close> its meaning. The main lemma is that the decoder, run on
  the image of any well-formed script, produces the script's meaning.
\<close>

section \<open>The flag-and-length word\<close>

definition FLAG_BIT :: u32 where "FLAG_BIT = push_bit 31 1"
definition LEN_MASK :: u32 where "LEN_MASK = drop_bit 1 (NOT 0)"

definition set_flag :: "u32 \<Rightarrow> nat \<Rightarrow> u32" where
  "set_flag flag_length flag =
    (if flag = 0 then flag_length AND LEN_MASK else flag_length OR FLAG_BIT)"

definition get_flag :: "u32 \<Rightarrow> u32" where
  "get_flag flag_length = flag_length AND FLAG_BIT"

definition set_length :: "u32 \<Rightarrow> u32 \<Rightarrow> u32" where
  "set_length flag_length len = len OR (flag_length AND FLAG_BIT)"

definition get_length :: "u32 \<Rightarrow> u32" where
  "get_length flag_length = flag_length AND LEN_MASK"

lemmas unit_word_defs = set_flag_def get_flag_def set_length_def get_length_def

text \<open>A length has its top bit clear: it is below \<open>2\<^sup>3\<^sup>1\<close>.\<close>

lemma bit31_iff: "bit (w :: u32) 31 \<longleftrightarrow> 2 ^ 31 \<le> unat w"
proof -
  have "bit w 31 \<longleftrightarrow> odd (unat w div 2 ^ 31)"
    by (simp add: bit_iff_odd_drop_bit drop_bit_eq_div flip: bit_unsigned_iff [where 'a = nat, of w 31, simplified])
  moreover have "unat w div 2 ^ 31 \<le> 1"
    using unsigned_less [of w, where ?'a = nat] by (simp add: div_le_mono less_Suc_eq_le)
  ultimately show ?thesis
    by (cases "unat w div 2 ^ 31 = 0") (auto simp: div_eq_0_iff le_Suc_eq not_less)
qed


lemma bit_flag_mask: "bit FLAG_BIT n \<longleftrightarrow> n = 31"
  unfolding FLAG_BIT_def by (auto simp only: bit_push_bit_iff bit_1_iff word_size possible_bit_word) auto

lemma bit_len_mask: "bit LEN_MASK n \<longleftrightarrow> n < 31"
  unfolding LEN_MASK_def by (auto simp only: bit_drop_bit_eq bit_not_iff o_apply bit_0_eq possible_bit_word) auto

lemmas unit_bits = bit_and_iff bit_or_iff bit_flag_mask bit_len_mask

lemma bit_length_word: "unat (n :: u32) < 2 ^ 31 \<Longrightarrow> bit n i \<Longrightarrow> i < 31"
  using bit_imp_le_length [of n i] by (cases "i = 31") (auto simp: bit31_iff)

lemma get_flag_iff: "get_flag w = 0 \<longleftrightarrow> \<not> bit w 31"
proof
  assume "\<not> bit w 31"
  then have "\<not> bit (get_flag w) n" for n by (auto simp: get_flag_def unit_bits)
  then show "get_flag w = 0" by (intro bit_eqI) simp
next
  assume z: "get_flag w = 0"
  have "bit (get_flag w) 31 \<longleftrightarrow> bit w 31" by (simp add: get_flag_def unit_bits)
  with z show "\<not> bit w 31" by simp
qed

lemma bit_set_length: "unat n < 2 ^ 31 \<Longrightarrow> bit (set_length w n) i \<longleftrightarrow> bit n i \<or> (i = 31 \<and> bit w 31)"
  by (auto simp: set_length_def unit_bits)

lemma get_length_set_length [simp]: "unat n < 2 ^ 31 \<Longrightarrow> get_length (set_length w n) = n"
  using bit_length_word [of n] unfolding bit_eq_iff
  by (auto simp: bit_set_length get_length_def unit_bits)

lemma get_flag_set_length [simp]:
  "unat n < 2 ^ 31 \<Longrightarrow> get_flag (set_length w n) = 0 \<longleftrightarrow> get_flag w = 0"
  using bit_length_word [of n 31] by (auto simp: get_flag_iff bit_set_length)

lemma get_flag_set_flag [simp]: "get_flag (set_flag w f) = 0 \<longleftrightarrow> f = 0"
  by (auto simp: get_flag_iff set_flag_def unit_bits)

text \<open>
  The early return of the encoder fills in records that were never initialised:
  \<open>set_flag\<close> and \<open>set_length\<close> together determine the word whatever was there.
\<close>

lemma set_length_set_flag_any: "set_length (set_flag w f) n = set_length (set_flag w' f) n"
  unfolding bit_eq_iff by (auto simp: set_length_def set_flag_def unit_bits)

lemma get_length_lt: "unat (get_length w) < 2 ^ 31"
proof -
  have "\<not> bit (get_length w) 31" by (simp add: get_length_def unit_bits)
  then show ?thesis by (simp add: bit31_iff)
qed

section \<open>Delta scripts\<close>

datatype delta_unit = Copy nat nat \<comment> \<open>offset, length\<close> | Lit bytes

fun enc_unit :: "delta_unit \<Rightarrow> bytes" where
  "enc_unit (Copy off len) = le32 (set_length (set_flag 0 0) (word_of_nat len)) @ le32 (word_of_nat off)"
| "enc_unit (Lit bs) = le32 (set_length (set_flag 0 1) (word_of_nat (length bs))) @ bs"

fun run_unit :: "bytes \<Rightarrow> delta_unit \<Rightarrow> bytes" where
  "run_unit base (Copy off len) = seg off len base"
| "run_unit base (Lit bs) = bs"

fun unit_ok :: "bytes \<Rightarrow> delta_unit \<Rightarrow> bool" where
  "unit_ok base (Copy off len) \<longleftrightarrow> off + len \<le> length base \<and> length base < 2 ^ 31"
| "unit_ok base (Lit bs) \<longleftrightarrow> length bs < 2 ^ 31"

definition enc_script :: "delta_unit list \<Rightarrow> bytes" where
  "enc_script us = concat (map enc_unit us)"

definition run_script :: "bytes \<Rightarrow> delta_unit list \<Rightarrow> bytes" where
  "run_script base us = concat (map (run_unit base) us)"

lemma enc_script_simps [simp]:
  "enc_script [] = []" "enc_script (u # us) = enc_unit u @ enc_script us"
  "enc_script (us @ vs) = enc_script us @ enc_script vs"
  by (simp_all add: enc_script_def)

lemma run_script_simps [simp]:
  "run_script base [] = []" "run_script base (u # us) = run_unit base u @ run_script base us"
  "run_script base (us @ vs) = run_script base us @ run_script base vs"
  by (simp_all add: run_script_def)

section \<open>The decoder\<close>

text \<open>
  \<open>memcpy\<close> beyond a buffer is an error value of the model; in the C code it is undefined
  behaviour.
\<close>

datatype edelta_error = ReadDelta | ReadBase | UninitRead | OutOfFuel

function EDeltaDecode_loop :: "bytes \<Rightarrow> nat \<Rightarrow> bytes \<Rightarrow> nat \<Rightarrow> bytes \<Rightarrow> edelta_error + bytes" where
  "EDeltaDecode_loop deltaBuf deltaSize baseBuf readLength outBuf =
    (if readLength + 4 > length deltaBuf then Inl ReadDelta
     else
       let flag_length = rd32 (drop readLength deltaBuf);
           len = unat (get_length flag_length)
       in
       if get_flag flag_length = 0 then
         if readLength + 8 > length deltaBuf then Inl ReadDelta
         else
           let off = unat (rd32 (drop (readLength + 4) deltaBuf));
               readLength' = readLength + 8
           in
           if off + len > length baseBuf then Inl ReadBase
           else
             let outBuf' = outBuf @ seg off len baseBuf in
             if readLength' \<ge> deltaSize then Inr outBuf'
             else EDeltaDecode_loop deltaBuf deltaSize baseBuf readLength' outBuf'
       else
         let readLength' = readLength + 4 in
         if readLength' + len > length deltaBuf then Inl ReadDelta
         else
           let outBuf' = outBuf @ seg readLength' len deltaBuf;
               readLength'' = readLength' + len
           in
           if readLength'' \<ge> deltaSize then Inr outBuf'
           else EDeltaDecode_loop deltaBuf deltaSize baseBuf readLength'' outBuf')"
  by pat_completeness auto
termination
  by (relation "measure (\<lambda>(deltaBuf, deltaSize, baseBuf, readLength, outBuf). deltaSize - readLength)")
    auto

declare EDeltaDecode_loop.simps [simp del]

definition EDeltaDecode :: "bytes \<Rightarrow> nat \<Rightarrow> bytes \<Rightarrow> edelta_error + bytes" where
  "EDeltaDecode deltaBuf deltaSize baseBuf = EDeltaDecode_loop deltaBuf deltaSize baseBuf 0 []"

lemma decode_unit:
  assumes u: "unit_ok base u" and buf: "drop r d = enc_unit u @ rest" and r: "r \<le> length d"
  shows "EDeltaDecode_loop d n base r out =
    (let r' = r + length (enc_unit u); out' = out @ run_unit base u in
     if r' \<ge> n then Inr out' else EDeltaDecode_loop d n base r' out')"
proof -
  have len: "length d = r + length (enc_unit u) + length rest"
    using arg_cong [OF buf, of length] r by simp
  show ?thesis
  proof (cases u)
    case (Copy off m)
    with u have small: "m < 2 ^ 31" "off < 2 ^ 31" "off + m \<le> length base" by auto
    then have um: "unat (word_of_nat m :: u32) = m" "unat (word_of_nat off :: u32) = off"
      by (simp_all add: unat_of_nat_small)
    let ?w = "set_length (set_flag 0 0) (word_of_nat m)"
    from buf Copy have "drop r d = le32 ?w @ (le32 (word_of_nat off) @ rest)" by simp
    then have "drop (r + 4) d = le32 (word_of_nat off) @ rest"
      by (rule drop_after) simp
    with buf Copy len um small show ?thesis
      by (subst EDeltaDecode_loop.simps) (simp add: Let_def)
  next
    case (Lit bs)
    with u have small: "length bs < 2 ^ 31" by auto
    then have um: "unat (word_of_nat (length bs) :: u32) = length bs"
      by (simp add: unat_of_nat_small)
    let ?w = "set_length (set_flag 0 1) (word_of_nat (length bs))"
    from buf Lit have "drop r d = le32 ?w @ (bs @ rest)" by simp
    then have "drop (r + 4) d = bs @ rest" by (rule drop_after) simp
    then have "seg (r + 4) (length bs) d = bs" by (simp add: seg_def)
    with buf Lit len um small show ?thesis
      by (subst EDeltaDecode_loop.simps) (simp add: Let_def add.assoc)
  qed
qed

lemma enc_unit_nonempty: "0 < length (enc_unit u)"
  by (cases u) auto

lemma decode_script_at:
  assumes "us \<noteq> []" "list_all (unit_ok base) us"
    "drop r d = enc_script us" "r \<le> length d"
  shows "EDeltaDecode_loop d (length d) base r out = Inr (out @ run_script base us)"
  using assms
proof (induction us arbitrary: r out)
  case Nil
  then show ?case by simp
next
  case (Cons u us)
  let ?r = "r + length (enc_unit u)"
  have step: "EDeltaDecode_loop d (length d) base r out =
    (if ?r \<ge> length d then Inr (out @ run_unit base u)
     else EDeltaDecode_loop d (length d) base ?r (out @ run_unit base u))"
    using decode_unit [of base u r d "enc_script us" "length d" out] Cons.prems by (simp add: Let_def)
  have len: "length d = ?r + length (enc_script us)"
    using arg_cong [OF Cons.prems(3), of length] Cons.prems(4) by simp
  show ?case
  proof (cases us)
    case Nil
    with step len show ?thesis by simp
  next
    case (Cons v vs)
    then have "?r < length d" using len enc_unit_nonempty [of v] by simp
    moreover have "drop ?r d = enc_script us"
      using Cons.prems(3) by (intro drop_after) simp_all
    ultimately show ?thesis
      using step Cons.IH [of ?r "out @ run_unit base u"] Cons Cons.prems by simp
  qed
qed

text \<open>Decoding the image of a well-formed script gives its meaning.\<close>

lemma decode_script:
  "us \<noteq> [] \<Longrightarrow> list_all (unit_ok base) us \<Longrightarrow>
   EDeltaDecode (enc_script us) (length (enc_script us)) base = Inr (run_script base us)"
  using decode_script_at [of us base 0 "enc_script us" "[]"] by (simp add: EDeltaDecode_def)

end
