(* ===== verification/MatchRun.thy ===== *)
theory MatchRun
  imports DeltaFormat
begin

text \<open>
  The scanning loops of \<open>EDeltaEncode\<close>: how far two buffers agree going forward (the head of
  a chunk, and the extension of a match), going backward from their ends (the tail), and
  going backward from a position (the extension of a match into pending literal bytes).
  The first two compare eight bytes at a time and then single bytes; they are shown equal
  to \<open>common_len\<close>, the length of the longest common prefix, of the buffers or of their
  reverses.
\<close>

section \<open>The reference: longest common prefix\<close>

fun common_len :: "'a list \<Rightarrow> 'a list \<Rightarrow> nat" where
  "common_len (x # xs) (y # ys) = (if x = y then Suc (common_len xs ys) else 0)"
| "common_len _ _ = 0"

lemma common_len_Nil [simp]: "common_len xs [] = 0" "common_len [] ys = 0"
  by (cases xs; simp)+

lemma common_len_take: "take (common_len xs ys) xs = take (common_len xs ys) ys"
  by (induction xs ys rule: common_len.induct) auto

lemma common_len_le: "common_len xs ys \<le> length xs" "common_len xs ys \<le> length ys"
  by (induction xs ys rule: common_len.induct) auto

lemma common_len_append [simp]: "common_len (p @ xs) (p @ ys) = length p + common_len xs ys"
  by (induction p) auto

lemma common_len_max:
  "common_len xs ys < length xs \<Longrightarrow> common_len xs ys < length ys \<Longrightarrow>
   xs ! common_len xs ys \<noteq> ys ! common_len xs ys"
  by (induction xs ys rule: common_len.induct) auto

text \<open>It is the greatest length on which the two lists agree.\<close>

lemma common_len_greatest:
  "take n xs = take n ys \<Longrightarrow> n \<le> length xs \<Longrightarrow> n \<le> length ys \<Longrightarrow> n \<le> common_len xs ys"
proof (induction xs ys arbitrary: n rule: common_len.induct)
  case (1 x xs y ys)
  then show ?case by (cases n) auto
qed auto

section \<open>The loops\<close>

function match_fwd8 :: "bytes \<Rightarrow> nat \<Rightarrow> nat \<Rightarrow> bytes \<Rightarrow> nat \<Rightarrow> nat \<Rightarrow> nat \<Rightarrow> nat" where
  "match_fwd8 b bo bl n no nl j =
    (if bo + j + 7 < bl \<and> no + j + 7 < nl then
       if rd64 (drop (bo + j) b) = rd64 (drop (no + j) n) then match_fwd8 b bo bl n no nl (j + 8)
       else j
     else j)"
  by pat_completeness auto
termination
  by (relation "measure (\<lambda>(b, bo, bl, n, no, nl, j). bl - j)") auto

function match_fwd1 :: "bytes \<Rightarrow> nat \<Rightarrow> nat \<Rightarrow> bytes \<Rightarrow> nat \<Rightarrow> nat \<Rightarrow> nat \<Rightarrow> nat" where
  "match_fwd1 b bo bl n no nl j =
    (if bo + j < bl \<and> no + j < nl then
       if b ! (bo + j) = n ! (no + j) then match_fwd1 b bo bl n no nl (j + 1)
       else j
     else j)"
  by pat_completeness auto
termination
  by (relation "measure (\<lambda>(b, bo, bl, n, no, nl, j). bl - j)") auto

definition match_fwd :: "bytes \<Rightarrow> nat \<Rightarrow> nat \<Rightarrow> bytes \<Rightarrow> nat \<Rightarrow> nat \<Rightarrow> nat" where
  "match_fwd b bo bl n no nl = match_fwd1 b bo bl n no nl (match_fwd8 b bo bl n no nl 0)"

function match_bwd8 :: "bytes \<Rightarrow> bytes \<Rightarrow> nat \<Rightarrow> nat" where
  "match_bwd8 b n e =
    (if e + 7 < length b \<and> e + 7 < length n then
       if rd64 (drop (length b - e - 8) b) = rd64 (drop (length n - e - 8) n)
       then match_bwd8 b n (e + 8)
       else e
     else e)"
  by pat_completeness auto
termination
  by (relation "measure (\<lambda>(b, n, e). length b - e)") auto

function match_bwd1 :: "bytes \<Rightarrow> bytes \<Rightarrow> nat \<Rightarrow> nat" where
  "match_bwd1 b n e =
    (if e < length b \<and> e < length n then
       if b ! (length b - e - 1) = n ! (length n - e - 1) then match_bwd1 b n (e + 1)
       else e
     else e)"
  by pat_completeness auto
termination
  by (relation "measure (\<lambda>(b, n, e). length b - e)") auto

definition match_bwd :: "bytes \<Rightarrow> bytes \<Rightarrow> nat" where
  "match_bwd b n = match_bwd1 b n (match_bwd8 b n 0)"

function match_back :: "bytes \<Rightarrow> nat \<Rightarrow> bytes \<Rightarrow> nat \<Rightarrow> nat \<Rightarrow> nat \<Rightarrow> nat" where
  "match_back b off n pos L k =
    (if k + 1 \<le> off \<and> k + 1 \<le> L then
       if b ! (off - (k + 1)) = n ! (pos - (k + 1)) then match_back b off n pos L (k + 1)
       else k
     else k)"
  by pat_completeness auto
termination
  by (relation "measure (\<lambda>(b, off, n, pos, L, k). off - k)") auto

declare match_fwd8.simps [simp del] match_fwd1.simps [simp del] match_bwd8.simps [simp del]
  match_bwd1.simps [simp del] match_back.simps [simp del]

section \<open>Equivalence with the reference\<close>

lemma rd64_inj:
  assumes "8 \<le> length x" "8 \<le> length y" "rd64 x = rd64 y"
  shows "take 8 x = take 8 y"
proof -
  have small: "le_dec (take 8 z) < 2 ^ 64" if "8 \<le> length z" for z
    using le_dec_bound [of "take 8 z"] that by simp
  have "unat (rd64 z) = le_dec (take 8 z)" if "8 \<le> length z" for z
    using small [OF that] by (simp add: rd64_def unat_of_nat_small)
  with assms have "le_dec (take 8 x) = le_dec (take 8 y)" by metis
  then have "le_enc (length (take 8 x)) (le_dec (take 8 x)) = le_enc (length (take 8 y)) (le_dec (take 8 y))"
    using assms by simp
  then show ?thesis by (simp only: le_enc_dec)
qed

lemma common_len_block:
  assumes "take m xs = take m ys" "m \<le> length xs" "m \<le> length ys"
  shows "common_len xs ys = m + common_len (drop m xs) (drop m ys)"
proof -
  have "common_len (take m xs @ drop m xs) (take m ys @ drop m ys) = m + common_len (drop m xs) (drop m ys)"
    using assms by (simp del: append_take_drop_id)
  then show ?thesis by simp
qed

lemma common_len_step:
  assumes "i < length xs" "j < length ys"
  shows "common_len (drop i xs) (drop j ys) =
    (if xs ! i = ys ! j then 1 + common_len (drop (i + 1) xs) (drop (j + 1) ys) else 0)"
  using assms by (simp flip: Cons_nth_drop_Suc)

lemma match_fwd1_eq:
  "bl \<le> length b \<Longrightarrow> nl \<le> length n \<Longrightarrow>
   match_fwd1 b bo bl n no nl j = j + common_len (drop (bo + j) (take bl b)) (drop (no + j) (take nl n))"
proof (induction b bo bl n no nl j rule: match_fwd1.induct)
  case (1 b bo bl n no nl j)
  show ?case
  proof (cases "bo + j < bl \<and> no + j < nl")
    case True
    with "1" common_len_step [of "bo + j" "take bl b" "no + j" "take nl n"] show ?thesis
      by (subst match_fwd1.simps) simp
  next
    case False
    then have "drop (bo + j) (take bl b) = [] \<or> drop (no + j) (take nl n) = []" by auto
    with False show ?thesis by (subst match_fwd1.simps) auto
  qed
qed

lemma match_fwd8_eq:
  "bl \<le> length b \<Longrightarrow> nl \<le> length n \<Longrightarrow>
   (let j' = match_fwd8 b bo bl n no nl j in
    j' + common_len (drop (bo + j') (take bl b)) (drop (no + j') (take nl n))) =
   j + common_len (drop (bo + j) (take bl b)) (drop (no + j) (take nl n))"
proof (induction b bo bl n no nl j rule: match_fwd8.induct)
  case (1 b bo bl n no nl j)
  let ?x = "drop (bo + j) (take bl b)" and ?y = "drop (no + j) (take nl n)"
  show ?case
  proof (cases "bo + j + 7 < bl \<and> no + j + 7 < nl \<and> rd64 (drop (bo + j) b) = rd64 (drop (no + j) n)")
    case True
    have "take 8 (drop (bo + j) b) = take 8 (drop (no + j) n)"
      using True "1.prems" by (intro rd64_inj) auto
    then have "take 8 ?x = take 8 ?y"
      using True by (simp add: take_drop min_def)
    then have "common_len ?x ?y = 8 + common_len (drop 8 ?x) (drop 8 ?y)"
      using True "1.prems" by (intro common_len_block) auto
    moreover have "drop 8 ?x = drop (bo + (j + 8)) (take bl b)" "drop 8 ?y = drop (no + (j + 8)) (take nl n)"
      by (simp_all only: drop_drop ac_simps)
    moreover have "match_fwd8 b bo bl n no nl j = match_fwd8 b bo bl n no nl (j + 8)"
      using True by (subst match_fwd8.simps) simp
    moreover have "(let j' = match_fwd8 b bo bl n no nl (j + 8) in
        j' + common_len (drop (bo + j') (take bl b)) (drop (no + j') (take nl n))) =
      j + 8 + common_len (drop (bo + (j + 8)) (take bl b)) (drop (no + (j + 8)) (take nl n))"
      using True "1.prems" by (intro "1.IH") auto
    ultimately show ?thesis by (simp only: Let_def add.assoc)
  next
    case False
    then have "match_fwd8 b bo bl n no nl j = j" by (subst match_fwd8.simps) auto
    then show ?thesis by simp
  qed
qed

lemma match_fwd_eq:
  "bl \<le> length b \<Longrightarrow> nl \<le> length n \<Longrightarrow>
   match_fwd b bo bl n no nl = common_len (drop bo (take bl b)) (drop no (take nl n))"
  using match_fwd8_eq [of bl b nl n bo no 0] by (simp add: match_fwd_def match_fwd1_eq Let_def)

lemma match_bwd1_eq: "match_bwd1 b n e = e + common_len (drop e (rev b)) (drop e (rev n))"
proof (induction b n e rule: match_bwd1.induct)
  case (1 b n e)
  show ?case
  proof (cases "e < length b \<and> e < length n")
    case True
    with "1" common_len_step [of e "rev b" e "rev n"] show ?thesis
      by (subst match_bwd1.simps) (simp add: rev_nth)
  next
    case False
    then have "drop e (rev b) = [] \<or> drop e (rev n) = []" by auto
    with False show ?thesis by (subst match_bwd1.simps) auto
  qed
qed

lemma take_drop_rev:
  "e + m \<le> length xs \<Longrightarrow> take m (drop e (rev xs)) = rev (take m (drop (length xs - e - m) xs))"
  by (simp add: take_rev drop_rev drop_take)

lemma match_bwd8_eq:
  "(let e' = match_bwd8 b n e in e' + common_len (drop e' (rev b)) (drop e' (rev n))) =
   e + common_len (drop e (rev b)) (drop e (rev n))"
proof (induction b n e rule: match_bwd8.induct)
  case (1 b n e)
  show ?case
  proof (cases "e + 7 < length b \<and> e + 7 < length n \<and>
      rd64 (drop (length b - e - 8) b) = rd64 (drop (length n - e - 8) n)")
    case True
    have "take 8 (drop (length b - e - 8) b) = take 8 (drop (length n - e - 8) n)"
      using True by (intro rd64_inj) simp_all
    then have "take 8 (drop e (rev b)) = take 8 (drop e (rev n))"
      using True by (simp add: take_drop_rev)
    then have "common_len (drop e (rev b)) (drop e (rev n)) =
        8 + common_len (drop 8 (drop e (rev b))) (drop 8 (drop e (rev n)))"
      using True by (intro common_len_block) auto
    moreover have "match_bwd8 b n e = match_bwd8 b n (e + 8)"
      using True by (subst match_bwd8.simps) simp
    ultimately show ?thesis using "1.IH" True by (simp add: add.commute)
  next
    case False
    then have "match_bwd8 b n e = e" by (subst match_bwd8.simps) auto
    then show ?thesis by simp
  qed
qed

lemma match_bwd_eq: "match_bwd b n = common_len (rev b) (rev n)"
  using match_bwd8_eq [of b n 0] by (simp add: match_bwd_def match_bwd1_eq Let_def)

section \<open>What the encoder uses of them\<close>

lemma match_fwd_sound:
  assumes "bl \<le> length b" "nl \<le> length n" "bo \<le> bl" "no \<le> nl"
  defines "j \<equiv> match_fwd b bo bl n no nl"
  shows "bo + j \<le> bl" "no + j \<le> nl" "seg bo j b = seg no j n"
proof -
  let ?x = "drop bo (take bl b)" and ?y = "drop no (take nl n)"
  have j: "j = common_len ?x ?y" using assms by (simp add: match_fwd_eq)
  show bounds: "bo + j \<le> bl" "no + j \<le> nl"
    using common_len_le [of ?x ?y] assms(1-4) unfolding j by auto
  have "take j ?x = take j ?y" unfolding j by (rule common_len_take)
  with bounds show "seg bo j b = seg no j n" by (simp add: seg_def take_drop min_def)
qed

lemma match_bwd_sound:
  assumes "e \<le> match_bwd b n"
  shows "e \<le> length b" "e \<le> length n" "seg (length b - e) e b = seg (length n - e) e n"
proof -
  show le: "e \<le> length b" "e \<le> length n"
    using assms common_len_le [of "rev b" "rev n"] by (auto simp: match_bwd_eq)
  have "take e (rev b) = take e (rev n)"
    using assms common_len_take [of "rev b" "rev n"]
    by (metis match_bwd_eq min.absorb1 take_take)
  with le show "seg (length b - e) e b = seg (length n - e) e n"
    by (simp add: take_rev seg_def)
qed

lemma match_back_sound:
  assumes "off \<le> length b" "L \<le> pos" "pos \<le> length n" "k \<le> off" "k \<le> L"
    "seg (off - k) k b = seg (pos - k) k n"
  shows "(let k' = match_back b off n pos L k in
    k' \<le> off \<and> k' \<le> L \<and> seg (off - k') k' b = seg (pos - k') k' n)"
  using assms
proof (induction b off n pos L k rule: match_back.induct)
  case (1 b off n pos L k)
  show ?case
  proof (cases "k + 1 \<le> off \<and> k + 1 \<le> L \<and> b ! (off - (k + 1)) = n ! (pos - (k + 1))")
    case True
    have cons: "seg (p - (k + 1)) (k + 1) z = z ! (p - (k + 1)) # seg (p - k) k z"
      if "p \<le> length z" "k + 1 \<le> p" for p and z :: bytes
      using that by (simp add: seg_def Suc_diff_Suc flip: Cons_nth_drop_Suc)
    have "seg (off - (k + 1)) (k + 1) b = seg (pos - (k + 1)) (k + 1) n"
      using True "1.prems" by (subst (1 2) cons) auto
    moreover have "match_back b off n pos L k = match_back b off n pos L (k + 1)"
      using True by (subst match_back.simps) simp
    ultimately show ?thesis using "1.IH" True "1.prems" by simp
  next
    case False
    then have "match_back b off n pos L k = k" by (subst match_back.simps) auto
    with "1.prems" show ?thesis by simp
  qed
qed

end
