(* ===== verification/EDelta.thy ===== *)
theory EDelta
  imports HTable MatchRun
begin

text \<open>
  The delta encoder \<open>EDeltaEncode\<close> (\<open>ecallFreqIndex.cc\<close>; \<open>ecallMeGA.cc\<close> and
  \<open>ecallOffline.cc\<close> hold copies of it). The pointer-and-goto code is split at its own
  joints: writing to the delta buffer (\<open>out_st\<close>), chunking the base and probing the
  input (\<open>base_st\<close>), and one turn of the main loop (\<open>enc_step\<close>).

  Sizes and positions are natural numbers; the flag-and-length words keep their 32 bits.
  \<open>newSize\<close> and \<open>baseSize\<close> are the lengths of the buffers. The counters \<open>matchsum\<close> and
  \<open>match\<close> are written but never read and are left out.
\<close>

definition BASE_BEGIN :: nat where "BASE_BEGIN = 5"
definition BASE_EXPAND :: nat where "BASE_EXPAND = 3"
definition BASE_STEP :: nat where "BASE_STEP = 3"
definition INPUT_TRY :: nat where "INPUT_TRY = 5"

section \<open>Writing the delta\<close>

text \<open>
  \<open>lastflag\<close> is the \<open>flag\<close> of the code: 1 when the last record in the buffer is a copy,
  2 when it is a literal whose header is still to be written back, 0 at the start.
\<close>

record out_st =
  deltaBuf :: bytes
  deltaLen :: nat
  record1 :: u32
  record2 :: u32
  lastflag :: nat

definition append_bytes :: "bytes \<Rightarrow> out_st \<Rightarrow> out_st" where
  "append_bytes d s = s\<lparr>deltaBuf := put (deltaBuf s) (deltaLen s) d, deltaLen := deltaLen s + length d\<rparr>"

definition emit_literal :: "bytes \<Rightarrow> nat \<Rightarrow> nat \<Rightarrow> out_st \<Rightarrow> out_st" where
  "emit_literal newBuf inputPos len s =
    (if lastflag s = 2 then
       let s1 = append_bytes (seg inputPos len newBuf) s
       in s1\<lparr>record2 := set_length (record2 s) (get_length (record2 s) + word_of_nat len)\<rparr>
     else
       let s1 = s\<lparr>record2 := set_length (record2 s) (word_of_nat len)\<rparr>;
           s2 = append_bytes (le32 (record2 s1)) s1;
           s3 = append_bytes (seg inputPos len newBuf) s2
       in s3\<lparr>lastflag := 2\<rparr>)"

definition back_patch :: "out_st \<Rightarrow> out_st" where
  "back_patch s =
    (if lastflag s = 2
     then s\<lparr>deltaBuf := put (deltaBuf s) (deltaLen s - unat (get_length (record2 s)) - 4) (le32 (record2 s))\<rparr>
     else s)"

definition emit_copy :: "nat \<Rightarrow> nat \<Rightarrow> out_st \<Rightarrow> out_st" where
  "emit_copy off len s =
    (let s1 = s\<lparr>record1 := set_length (record1 s) (word_of_nat len)\<rparr>
     in append_bytes (le32 (record1 s1) @ le32 (word_of_nat off)) s1)"

text \<open>Give back the last \<open>k\<close> bytes of the pending literal, dropping it if nothing is left.\<close>

definition shrink_literal :: "nat \<Rightarrow> out_st \<Rightarrow> out_st" where
  "shrink_literal k s =
    (if k > 0 then
       let s1 = s\<lparr>deltaLen := deltaLen s - unat (get_length (record2 s)) - 4,
                  record2 := set_length (record2 s) (get_length (record2 s) - word_of_nat k)\<rparr>
       in if unat (get_length (record2 s1)) > 0 then
            let s2 = append_bytes (le32 (record2 s1)) s1
            in s2\<lparr>deltaLen := deltaLen s2 + unat (get_length (record2 s2))\<rparr>
          else s1
     else s)"

section \<open>Turning one input sub-chunk into delta records\<close>

text \<open>
  The label \<open>match\<close>: the sub-chunk of \<open>len\<close> bytes at \<open>inputPos\<close> has the hash of the base
  record \<open>r\<close>. Results: the output, the new \<open>cursor_input\<close>, the new \<open>cursor_base\<close>.
\<close>

definition match_dup ::
  "bytes \<Rightarrow> bytes \<Rightarrow> nat \<Rightarrow> nat \<Rightarrow> nat \<Rightarrow> DeltaRecord \<Rightarrow> nat \<Rightarrow> out_st \<Rightarrow> out_st \<times> nat \<times> nat" where
  "match_dup newBuf baseBuf endSize inputPos len r cursor_base s =
    (let s1 = back_patch s;
         cursor_input = inputPos + len;
         j = match_fwd baseBuf (nOffset r + len) (length baseBuf - endSize)
               newBuf cursor_input (length newBuf - endSize);
         cursor_input' = cursor_input + j;
         cursor_base' = (if nOffset r + len + j > cursor_base then nOffset r + len + j else cursor_base);
         k = (if lastflag s1 = 2
              then match_back baseBuf (nOffset r) newBuf inputPos (unat (get_length (record2 s1))) 0
              else 0);
         s2 = shrink_literal k s1;
         s3 = emit_copy (nOffset r - k) (cursor_input' - inputPos + k) s2
     in (s3\<lparr>lastflag := 1\<rparr>, cursor_input', cursor_base'))"

definition handle_dup ::
  "bytes \<Rightarrow> bytes \<Rightarrow> nat \<Rightarrow> nat \<Rightarrow> nat \<Rightarrow> DeltaRecord \<Rightarrow> nat \<Rightarrow> out_st \<Rightarrow> out_st \<times> nat \<times> nat" where
  "handle_dup newBuf baseBuf endSize inputPos len r cursor_base s =
    (if len = nLength r \<and> seg inputPos len newBuf = seg (nOffset r) len baseBuf
     then match_dup newBuf baseBuf endSize inputPos len r cursor_base s
     else (emit_literal newBuf inputPos len s, inputPos + len, cursor_base))"

section \<open>Chunking the base and probing the input\<close>

record base_st =
  cursor_base :: nat
  numBase :: nat
  numBytes_accu :: nat
  flag_chunk :: bool
  psHTable :: htable

fun insert_base :: "nat \<Rightarrow> DeltaRecord list \<Rightarrow> htable \<Rightarrow> htable \<times> bool" where
  "insert_base cb [] t = (t, True)"
| "insert_base cb (r # rs) t =
    (if nLength r = 0 then (t, False)
     else insert_base cb rs (ht_insert t (r\<lparr>nOffset := nOffset r + cb\<rparr>)))"

definition chunk_base :: "bytes \<Rightarrow> nat \<Rightarrow> nat \<Rightarrow> base_st \<Rightarrow> base_st" where
  "chunk_base baseBuf endSize chunk_number b =
    (let (link, numBytes) = Chunking_v3 (drop (cursor_base b) baseBuf)
           (length baseBuf - endSize - cursor_base b) chunk_number;
         (t, more) = insert_base (cursor_base b) link (psHTable b)
     in \<lparr>cursor_base = cursor_base b + numBytes, numBase = numBase b + chunk_number,
         numBytes_accu = numBytes_accu b + numBytes, flag_chunk = flag_chunk b \<and> more, psHTable = t\<rparr>)"

text \<open>
  The probe chunks of the input (\<open>InputLink\<close>) as their lengths and hashes, and the probe
  match: the index and the base record found, or nothing (\<open>probe_match = INPUT_TRY\<close>).
\<close>

type_synonym probe_link = "nat \<times> u64"
type_synonym probe_hit = "(nat \<times> DeltaRecord) option"

fun probe_input ::
  "bytes \<Rightarrow> nat \<Rightarrow> htable \<Rightarrow> nat \<Rightarrow> nat \<Rightarrow> nat \<Rightarrow> probe_link list \<times> probe_hit" where
  "probe_input newBuf endSize t 0 j cursor = ([], None)"
| "probe_input newBuf endSize t (Suc n) j cursor =
    (let len = chunk_gear (drop cursor newBuf) (length newBuf - cursor - endSize);
         hash = weakHash (seg cursor len newBuf)
     in case ht_lookup t hash of
          Some r \<Rightarrow> ([(len, hash)], Some (j, r))
        | None \<Rightarrow> (let (ls, m) = probe_input newBuf endSize t n (j + 1) (cursor + len)
                   in ((len, hash) # ls, m)))"

fun probe_again :: "htable \<Rightarrow> nat \<Rightarrow> probe_link list \<Rightarrow> probe_hit" where
  "probe_again t j [] = None"
| "probe_again t j ((len, hash) # ls) =
    (case ht_lookup t hash of Some r \<Rightarrow> Some (j, r) | None \<Rightarrow> probe_again t (j + 1) ls)"

text \<open>The loop over \<open>BASE_STEP\<close> rounds; its first argument counts the rounds left.\<close>

fun base_loop ::
  "nat \<Rightarrow> nat \<Rightarrow> nat \<Rightarrow> bytes \<Rightarrow> bytes \<Rightarrow> nat \<Rightarrow> nat \<Rightarrow> probe_link list \<Rightarrow> base_st
   \<Rightarrow> base_st \<times> probe_link list \<times> probe_hit" where
  "base_loop 0 i chunk_number newBuf baseBuf endSize cursor_input ls b = (b, ls, None)"
| "base_loop (Suc n) i chunk_number newBuf baseBuf endSize cursor_input ls b =
    (let b1 = chunk_base baseBuf endSize chunk_number b;
         (ls1, m) = (if i = 0 then probe_input newBuf endSize (psHTable b1) INPUT_TRY 0 cursor_input
                     else (ls, probe_again (psHTable b1) 0 ls))
     in if m \<noteq> None \<or> \<not> flag_chunk b1 then (b1, ls1, m)
        else base_loop n (i + 1) (chunk_number * BASE_EXPAND) newBuf baseBuf endSize cursor_input ls1 b1)"

text \<open>The unmatched probe chunks become literals, up to the one that matched.\<close>

fun handle_probe ::
  "bytes \<Rightarrow> probe_link list \<Rightarrow> probe_hit \<Rightarrow> nat \<Rightarrow> nat \<Rightarrow> out_st \<Rightarrow> out_st \<times> nat \<times> (nat \<times> DeltaRecord) option" where
  "handle_probe newBuf [] m i inputPos s = (s, inputPos, None)"
| "handle_probe newBuf ((len, hash) # ls) m i inputPos s =
    (if (\<exists>p \<in> set_option m. fst p = i) then (s, inputPos, Some (len, snd (the m)))
     else handle_probe newBuf ls m (i + 1) (inputPos + len) (emit_literal newBuf inputPos len s))"

section \<open>The pacing test\<close>

text \<open>
  \<open>(cursor_input / (float)newSize) + 0.5 >= (cursor_base / (float)baseSize)\<close>. The two
  quotients are rounded to binary32 (24 significant bits, nearest, ties to even); the sum
  and the comparison are in double precision, where they are exact for buffers below
  \<open>2\<^sup>2\<^sup>4\<close> bytes. A quotient is kept as \<open>(q, s)\<close>, the number \<open>q / 2\<^sup>s\<close>.
\<close>

function flt_shift :: "nat \<Rightarrow> nat \<Rightarrow> nat \<Rightarrow> nat" where
  "flt_shift a b s =
    (if a = 0 \<or> b * 2 ^ 23 \<le> a * 2 ^ s then s else flt_shift a b (s + 1))"
  by pat_completeness auto
termination
  by (relation "measure (\<lambda>(a, b, s). b * 2 ^ 23 - a * 2 ^ s)")
    (auto intro!: diff_less_mono2)

declare flt_shift.simps [simp del]

definition flt_div :: "nat \<Rightarrow> nat \<Rightarrow> nat \<times> nat" where
  "flt_div a b =
    (let s = flt_shift a b 23;
         q = a * 2 ^ s div b;
         r = a * 2 ^ s mod b
     in (if 2 * r > b \<or> (2 * r = b \<and> odd q) then q + 1 else q, s))"

definition pacing :: "nat \<Rightarrow> nat \<Rightarrow> nat \<Rightarrow> nat \<Rightarrow> bool" where
  "pacing ci newSize cb baseSize =
    (case (flt_div ci newSize, flt_div cb baseSize) of
       ((q1, s1), (q2, s2)) \<Rightarrow> 2 * q1 * 2 ^ s2 + 2 ^ s1 * 2 ^ s2 \<ge> 2 * q2 * 2 ^ s1)"

section \<open>The main loop\<close>

text \<open>
  \<open>flag_handle_probe\<close> is \<open>None\<close> until it is first assigned: the code declares it, with
  \<open>probe_match\<close> and \<open>InputLink\<close>, without an initial value.
\<close>

record enc_st =
  out :: out_st
  bst :: base_st
  inputPos :: nat
  cursor_input :: nat
  input_last_chunk_beg :: nat
  flag_handle_probe :: "bool option"
  InputLink :: "probe_link list"
  probe_match :: probe_hit

definition refill :: "bytes \<Rightarrow> bytes \<Rightarrow> nat \<Rightarrow> enc_st \<Rightarrow> enc_st" where
  "refill newBuf baseBuf endSize st =
    (let numBytes_old = numBytes_accu (bst st);
         (b, ls, m) = base_loop BASE_STEP 0 BASE_BEGIN newBuf baseBuf endSize (cursor_input st)
           (InputLink st) ((bst st)\<lparr>numBytes_accu := 0\<rparr>)
     in st\<lparr>bst := b, flag_handle_probe := Some True, InputLink := ls, probe_match := m,
           input_last_chunk_beg := max (cursor_input st) (input_last_chunk_beg st + numBytes_old)\<rparr>)"

definition encode_chunk ::
  "bytes \<Rightarrow> bytes \<Rightarrow> nat \<Rightarrow> out_st \<times> nat \<times> (nat \<times> DeltaRecord) option \<Rightarrow> base_st
   \<Rightarrow> out_st \<times> nat \<times> nat" where
  "encode_chunk newBuf baseBuf endSize p b =
    (case p of
       (s, pos, Some (len, r)) \<Rightarrow> handle_dup newBuf baseBuf endSize pos len r (cursor_base b) s
     | (s, pos, None) \<Rightarrow>
         (let len = chunk_gear (drop pos newBuf) (length newBuf - pos - endSize);
              hash = weakHash (seg pos len newBuf)
          in case ht_lookup (psHTable b) hash of
               Some r \<Rightarrow> handle_dup newBuf baseBuf endSize pos len r (cursor_base b) s
             | None \<Rightarrow> (emit_literal newBuf pos len s, pos + len, cursor_base b)))"

definition enc_step :: "bytes \<Rightarrow> bytes \<Rightarrow> nat \<Rightarrow> enc_st \<Rightarrow> edelta_error + enc_st" where
  "enc_step newBuf baseBuf endSize st =
    (let st1 = (if flag_chunk (bst st) \<and>
                   pacing (cursor_input st) (length newBuf) (cursor_base (bst st)) (length baseBuf)
                then refill newBuf baseBuf endSize st else st)
     in case flag_handle_probe st1 of
          None \<Rightarrow> Inl UninitRead
        | Some handle \<Rightarrow>
            (let p = (if handle then handle_probe newBuf (InputLink st1) (probe_match st1) 0 (inputPos st1) (out st1)
                      else (out st1, inputPos st1, None));
                 (s, ci, cb) = encode_chunk newBuf baseBuf endSize p (bst st1)
             in Inr (st1\<lparr>out := s, bst := (bst st1)\<lparr>cursor_base := cb\<rparr>, inputPos := ci,
                         cursor_input := ci, flag_handle_probe := Some False\<rparr>)))"

fun enc_loop :: "nat \<Rightarrow> bytes \<Rightarrow> bytes \<Rightarrow> nat \<Rightarrow> enc_st \<Rightarrow> edelta_error + enc_st" where
  "enc_loop 0 newBuf baseBuf endSize st =
    (if inputPos st < length newBuf - endSize then Inl OutOfFuel else Inr st)"
| "enc_loop (Suc fuel) newBuf baseBuf endSize st =
    (if inputPos st < length newBuf - endSize
     then bindE (enc_step newBuf baseBuf endSize st) (enc_loop fuel newBuf baseBuf endSize)
     else Inr st)"

section \<open>\<open>EDeltaEncode\<close>\<close>

definition head_size :: "bytes \<Rightarrow> bytes \<Rightarrow> nat" where
  "head_size newBuf baseBuf =
    (let begSize = match_fwd baseBuf 0 (length baseBuf) newBuf 0 (length newBuf)
     in if begSize > 16 then begSize else 0)"

definition tail_size :: "bytes \<Rightarrow> bytes \<Rightarrow> nat \<Rightarrow> nat" where
  "tail_size newBuf baseBuf begSize =
    (let endSize = match_bwd baseBuf newBuf;
         endSize' = (if begSize + endSize > length newBuf then length newBuf - begSize else endSize)
     in if endSize' > 16 then endSize' else 0)"

text \<open>The records of the early return are not initialised there; see \<open>set_length_set_flag_any\<close>.\<close>

definition out_init :: "bytes \<Rightarrow> out_st" where
  "out_init buf = \<lparr>deltaBuf = buf, deltaLen = 0, record1 = set_flag 0 0, record2 = set_flag 0 1, lastflag = 0\<rparr>"

definition encode_short :: "bytes \<Rightarrow> bytes \<Rightarrow> nat \<Rightarrow> nat \<Rightarrow> out_st \<Rightarrow> out_st" where
  "encode_short newBuf baseBuf begSize endSize s =
    (let s1 = (if begSize > 0 then emit_copy 0 begSize s else s);
         mid = length newBuf - begSize - endSize;
         s2 = (if mid > 0 then emit_literal newBuf begSize mid s1 else s1)
     in if endSize > 0 then emit_copy (length baseBuf - endSize) endSize s2 else s2)"

definition enc_init :: "bytes \<Rightarrow> nat \<Rightarrow> htable \<Rightarrow> enc_st" where
  "enc_init buf begSize t =
    \<lparr>out = (if begSize > 0 then (emit_copy 0 begSize (out_init buf))\<lparr>lastflag := 1\<rparr> else out_init buf),
     bst = \<lparr>cursor_base = begSize, numBase = 0, numBytes_accu = 0, flag_chunk = True, psHTable = t\<rparr>,
     inputPos = begSize, cursor_input = begSize, input_last_chunk_beg = begSize,
     flag_handle_probe = None, InputLink = [], probe_match = None\<rparr>"

definition enc_finish :: "bytes \<Rightarrow> nat \<Rightarrow> out_st \<Rightarrow> out_st" where
  "enc_finish baseBuf endSize s =
    (let s1 = back_patch s
     in if endSize > 0 then emit_copy (length baseBuf - endSize) endSize s1 else s1)"

text \<open>
  The result is the delta, \<open>deltaBuf[0 .. deltaSize - 1]\<close>, and the table as it is left for
  the next call. \<open>buf\<close> is what the caller's buffer held before.
\<close>

definition EDeltaEncode :: "bytes \<Rightarrow> bytes \<Rightarrow> bytes \<Rightarrow> htable \<Rightarrow> edelta_error + bytes \<times> htable" where
  "EDeltaEncode newBuf baseBuf buf t =
    (let begSize = head_size newBuf baseBuf;
         endSize = tail_size newBuf baseBuf begSize
     in if begSize + endSize \<ge> length baseBuf then
          let s = encode_short newBuf baseBuf begSize endSize (out_init buf)
          in Inr (take (deltaLen s) (deltaBuf s), t)
        else
          bindE (enc_loop (length newBuf) newBuf baseBuf endSize (enc_init buf begSize t)) (\<lambda>st.
            let s = enc_finish baseBuf endSize (out st)
            in Inr (take (deltaLen s) (deltaBuf s), ResetTable (psHTable (bst st)))))"

end
