(* ===== verification/EDeltaWrite.thy ===== *)
theory EDeltaWrite
  imports EDelta
begin

text \<open>
  Correctness of the part of the encoder that writes the delta buffer. \<open>out_ok\<close> says what
  the buffer means while a literal may still be pending: complete units for the input up
  to the literal, a header to be overwritten, and the literal's bytes. \<open>script_ok\<close> says
  that the buffer is complete. Every writing operation keeps or establishes them.
\<close>

section \<open>Unit words\<close>

lemma unit_word_copy: "get_flag w = 0 \<Longrightarrow> set_length (set_flag 0 0) (get_length w) = w"
proof -
  assume "get_flag w = 0"
  then have *: "\<not> bit w 31" by (simp add: get_flag_iff)
  have "bit w n \<Longrightarrow> n < 31" for n
    using * bit_imp_le_length [of w n] by (cases "n = 31") auto
  then show ?thesis
    unfolding bit_eq_iff by (auto simp: set_length_def set_flag_def get_length_def unit_bits)
qed

lemma unit_word_literal: "get_flag w \<noteq> 0 \<Longrightarrow> set_length (set_flag 0 1) (get_length w) = w"
proof -
  assume "get_flag w \<noteq> 0"
  then have *: "bit w 31" by (simp add: get_flag_iff)
  have "bit w n \<Longrightarrow> n < 31 \<or> n = 31" for n
    using bit_imp_le_length [of w n] by auto
  with * show ?thesis
    unfolding bit_eq_iff by (auto simp: set_length_def set_flag_def get_length_def unit_bits)
qed

lemma unat_len: "n < 2 ^ 31 \<Longrightarrow> unat (word_of_nat n :: u32) = n"
  by (simp add: unat_of_nat_small)

lemma unat_get_set_length [simp]:
  "n < 2 ^ 31 \<Longrightarrow> unat (get_length (set_length w (word_of_nat n))) = n"
  by (simp add: unat_len)

lemma word_of_get_length [simp]: "word_of_nat (unat (get_length w)) = get_length w"
  by simp

lemma copy_image:
  assumes "get_flag w = 0" "n < 2 ^ 31"
  shows "le32 (set_length w (word_of_nat n)) @ le32 (word_of_nat off) = enc_unit (Copy off n)"
  using unit_word_copy [of "set_length w (word_of_nat n)"] assms by (simp add: unat_len)

lemma literal_image:
  assumes "get_flag w \<noteq> 0" "length bs = unat (get_length w)"
  shows "le32 w @ bs = enc_unit (Lit bs)"
  using unit_word_literal [OF assms(1)] assms(2) by simp

section \<open>Buffer writes on a split buffer\<close>

lemma put_mid: "length d = length h \<Longrightarrow> put (a @ h @ c) (length a) d = a @ d @ c"
  by (simp add: put_def)

lemma put_end: "put (a @ c) (length a) d = a @ d @ drop (length d) c"
  by (simp add: put_def)

section \<open>Invariants of the output\<close>

definition pending :: "out_st \<Rightarrow> nat" where
  "pending s = (if lastflag s = 2 then unat (get_length (record2 s)) else 0)"

definition hdr :: "out_st \<Rightarrow> nat" where
  "hdr s = (if lastflag s = 2 then 4 else 0)"

definition flags_ok :: "out_st \<Rightarrow> bool" where
  "flags_ok s \<longleftrightarrow> get_flag (record1 s) = 0 \<and> get_flag (record2 s) \<noteq> 0"

definition script_for :: "bytes \<Rightarrow> bytes \<Rightarrow> nat \<Rightarrow> delta_unit list \<Rightarrow> bool" where
  "script_for base new pos us \<longleftrightarrow> list_all (unit_ok base) us \<and> run_script base us = take pos new"

definition out_ok :: "bytes \<Rightarrow> bytes \<Rightarrow> nat \<Rightarrow> out_st \<Rightarrow> bool" where
  "out_ok base new pos s \<longleftrightarrow>
     flags_ok s \<and> pending s \<le> pos \<and> pos \<le> length new \<and> length new < 2 ^ 31 \<and> length base < 2 ^ 31 \<and>
     (\<exists>us h rest. script_for base new (pos - pending s) us \<and> length h = hdr s \<and>
        deltaBuf s = enc_script us @ h @ seg (pos - pending s) (pending s) new @ rest \<and>
        deltaLen s = length (enc_script us) + length h + pending s)"

definition script_ok :: "bytes \<Rightarrow> bytes \<Rightarrow> nat \<Rightarrow> out_st \<Rightarrow> bool" where
  "script_ok base new pos s \<longleftrightarrow>
     flags_ok s \<and> pos \<le> length new \<and> length new < 2 ^ 31 \<and> length base < 2 ^ 31 \<and>
     (\<exists>us rest. script_for base new pos us \<and>
        deltaBuf s = enc_script us @ rest \<and> deltaLen s = length (enc_script us))"

lemma out_okI:
  assumes "flags_ok s" "pending s \<le> pos" "pos \<le> length new" "length new < 2 ^ 31" "length base < 2 ^ 31"
    "script_for base new (pos - pending s) us" "length h = hdr s"
    "deltaBuf s = enc_script us @ h @ seg (pos - pending s) (pending s) new @ rest"
    "deltaLen s = length (enc_script us) + length h + pending s"
  shows "out_ok base new pos s"
  using assms unfolding out_ok_def by blast

lemma script_okI:
  assumes "flags_ok s" "pos \<le> length new" "length new < 2 ^ 31" "length base < 2 ^ 31"
    "script_for base new pos us" "deltaBuf s = enc_script us @ rest" "deltaLen s = length (enc_script us)"
  shows "script_ok base new pos s"
  using assms unfolding script_ok_def by blast

lemma out_okD:
  "out_ok base new pos s \<Longrightarrow> flags_ok s" "out_ok base new pos s \<Longrightarrow> pos \<le> length new"
  "out_ok base new pos s \<Longrightarrow> length new < 2 ^ 31" "out_ok base new pos s \<Longrightarrow> length base < 2 ^ 31"
  by (simp_all add: out_ok_def)

lemma script_okD:
  "script_ok base new pos s \<Longrightarrow> flags_ok s" "script_ok base new pos s \<Longrightarrow> pos \<le> length new"
  "script_ok base new pos s \<Longrightarrow> length new < 2 ^ 31" "script_ok base new pos s \<Longrightarrow> length base < 2 ^ 31"
  by (simp_all add: script_ok_def)

text \<open>A pending literal, taken apart.\<close>

lemma out_ok_pendingE:
  assumes "out_ok base new pos s" "lastflag s = 2"
  obtains us h rest where
    "script_for base new (pos - unat (get_length (record2 s))) us" "length h = 4"
    "deltaBuf s = enc_script us @ h @ seg (pos - unat (get_length (record2 s))) (unat (get_length (record2 s))) new @ rest"
    "deltaLen s = length (enc_script us) + 4 + unat (get_length (record2 s))"
    "unat (get_length (record2 s)) \<le> pos" "length new < 2 ^ 31" "pos \<le> length new"
  using assms by (auto simp: out_ok_def pending_def hdr_def)

lemma script_out_ok: "script_ok base new pos s \<Longrightarrow> lastflag s \<noteq> 2 \<Longrightarrow> out_ok base new pos s"
  unfolding script_ok_def out_ok_def pending_def hdr_def by auto

lemma out_script_ok: "out_ok base new pos s \<Longrightarrow> lastflag s \<noteq> 2 \<Longrightarrow> script_ok base new pos s"
  unfolding script_ok_def out_ok_def pending_def hdr_def by auto

lemma script_ok_lastflag [simp]: "script_ok base new pos (s\<lparr>lastflag := f\<rparr>) = script_ok base new pos s"
  by (simp add: script_ok_def flags_ok_def)

lemma script_for_Nil [simp]: "script_for base new 0 []"
  by (simp add: script_for_def)

lemma script_for_literal:
  assumes "script_for base new p us" "p + n \<le> length new" "length new < 2 ^ 31"
  shows "script_for base new (p + n) (us @ [Lit (seg p n new)])"
  using assms by (simp add: script_for_def take_append_seg)

lemma script_for_copy:
  assumes "script_for base new p us" "off + n \<le> length base" "length base < 2 ^ 31"
    "seg off n base = seg p n new"
  shows "script_for base new (p + n) (us @ [Copy off n])"
  using assms by (simp add: script_for_def take_append_seg)

section \<open>The writing operations\<close>

lemma emit_literal_fresh:
  assumes f: "lastflag s \<noteq> 2" and n: "pos + n \<le> length new"
    and us: "deltaBuf s = enc_script us @ rest" "deltaLen s = length (enc_script us)"
  shows "emit_literal new pos n s =
    s\<lparr>record2 := set_length (record2 s) (word_of_nat n),
      deltaBuf := enc_script us @ le32 (set_length (record2 s) (word_of_nat n)) @ seg pos n new @ drop n (drop 4 rest),
      deltaLen := length (enc_script us) + 4 + n, lastflag := 2\<rparr>"
proof -
  let ?h = "le32 (set_length (record2 s) (word_of_nat n))" and ?d = "seg pos n new"
  have len: "length (enc_script us) + 4 = length (enc_script us @ ?h)" by simp
  have "put (enc_script us @ ?h @ drop 4 rest) (length (enc_script us @ ?h)) ?d =
      enc_script us @ ?h @ ?d @ drop n (drop 4 rest)"
    using put_end [of "enc_script us @ ?h" "drop 4 rest" ?d] n by simp
  then show ?thesis
    using f n us unfolding emit_literal_def append_bytes_def Let_def
    by (simp add: put_end del: length_append flip: len)
qed

lemma emit_literal_new:
  assumes s: "script_ok base new pos s" and f: "lastflag s \<noteq> 2" and n: "pos + n \<le> length new"
  shows "out_ok base new (pos + n) (emit_literal new pos n s)"
    "script_ok base new (pos + n) (emit_literal new pos n s)"
proof -
  from s obtain us rest where us: "script_for base new pos us" "deltaBuf s = enc_script us @ rest"
      "deltaLen s = length (enc_script us)"
    by (auto simp: script_ok_def)
  let ?w = "set_length (record2 s) (word_of_nat n)" and ?d = "seg pos n new"
  note shape = emit_literal_fresh [OF f n us(2,3)] and s' = script_okD [OF s]
  have small: "n < 2 ^ 31" using s' n by simp
  show "out_ok base new (pos + n) (emit_literal new pos n s)"
    using us small n s' unfolding shape
    by (intro out_okI [where us = us and h = "le32 ?w" and rest = "drop n (drop 4 rest)"])
      (simp_all add: flags_ok_def pending_def hdr_def unat_len)
  have "le32 ?w @ ?d = enc_unit (Lit ?d)"
    using s' small n by (intro literal_image) (simp_all add: flags_ok_def unat_len)
  then have buf: "enc_script us @ le32 ?w @ ?d @ drop n (drop 4 rest) =
      enc_script (us @ [Lit ?d]) @ drop n (drop 4 rest)"
    by (metis append.assoc append.right_neutral enc_script_simps)
  show "script_ok base new (pos + n) (emit_literal new pos n s)"
    using us small n s' script_for_literal [OF us(1) n] unfolding shape buf
    by (intro script_okI [where us = "us @ [Lit ?d]" and rest = "drop n (drop 4 rest)"])
      (simp_all add: flags_ok_def unat_len)
qed

lemma emit_literal_more:
  assumes s: "out_ok base new pos s" and f: "lastflag s = 2" and n: "pos + n \<le> length new"
  shows "out_ok base new (pos + n) (emit_literal new pos n s)"
proof -
  let ?L = "unat (get_length (record2 s))"
  from s f obtain us h rest where us: "script_for base new (pos - ?L) us" "length h = 4"
      "deltaBuf s = enc_script us @ h @ seg (pos - ?L) ?L new @ rest"
      "deltaLen s = length (enc_script us) + 4 + ?L" "?L \<le> pos" "length new < 2 ^ 31" "pos \<le> length new"
    by (rule out_ok_pendingE)
  let ?p = "enc_script us @ h @ seg (pos - ?L) ?L new"
  have L: "unat (get_length (record2 s) + word_of_nat n) = ?L + n"
    using us n by (subst unat_add_lem [THEN iffD1]) (simp_all add: unat_len)
  have w: "unat (get_length (set_length (record2 s) (get_length (record2 s) + word_of_nat n))) = ?L + n"
    using L us n by simp
  have len: "deltaLen s = length ?p" using us by simp
  have "deltaBuf s = ?p @ rest" using us by simp
  then have "put (deltaBuf s) (deltaLen s) (seg pos n new) = ?p @ seg pos n new @ drop n rest"
    using put_end [of ?p rest "seg pos n new"] n unfolding len by (simp only: length_seg) simp
  moreover have "seg (pos - ?L) (?L + n) new = seg (pos - ?L) ?L new @ seg pos n new"
    using us by (simp flip: seg_append_seg)
  ultimately have "emit_literal new pos n s =
      s\<lparr>deltaBuf := enc_script us @ h @ seg (pos - ?L) (?L + n) new @ drop n rest,
        deltaLen := length (enc_script us) + 4 + (?L + n),
        record2 := set_length (record2 s) (get_length (record2 s) + word_of_nat n)\<rparr>"
    using f n us unfolding emit_literal_def append_bytes_def Let_def by simp
  moreover note out_okD [OF s]
  ultimately show ?thesis
    using us f w n L
    by (intro out_okI [where us = us and h = h and rest = "drop n rest"])
      (simp_all add: flags_ok_def pending_def hdr_def)
qed

lemma emit_literal_ok:
  "out_ok base new pos s \<Longrightarrow> pos + n \<le> length new \<Longrightarrow> out_ok base new (pos + n) (emit_literal new pos n s)"
  by (cases "lastflag s = 2") (auto intro: emit_literal_more emit_literal_new out_script_ok)

lemma emit_copy_ok:
  assumes s: "script_ok base new pos s" and b: "off + n \<le> length base"
    and eq: "seg off n base = seg pos n new" and n: "pos + n \<le> length new"
  shows "script_ok base new (pos + n) (emit_copy off n s)"
proof -
  from s obtain us rest where us: "script_for base new pos us" "deltaBuf s = enc_script us @ rest"
      "deltaLen s = length (enc_script us)"
    by (auto simp: script_ok_def)
  have small: "length base < 2 ^ 31" "length new < 2 ^ 31" "n < 2 ^ 31" and fl: "flags_ok s"
    using s n by (simp_all add: script_ok_def)
  have img: "le32 (set_length (record1 s) (word_of_nat n)) @ le32 (word_of_nat off) = enc_unit (Copy off n)"
    using fl small by (intro copy_image) (simp_all add: flags_ok_def)
  then have "emit_copy off n s =
      s\<lparr>record1 := set_length (record1 s) (word_of_nat n),
        deltaBuf := enc_script (us @ [Copy off n]) @ drop 8 rest,
        deltaLen := length (enc_script (us @ [Copy off n]))\<rparr>"
    using us by (simp add: emit_copy_def append_bytes_def Let_def put_end)
  moreover have "script_for base new (pos + n) (us @ [Copy off n])"
    using us b small eq by (intro script_for_copy)
  ultimately show ?thesis
    using fl small n unfolding script_ok_def flags_ok_def by (fastforce simp: unat_len)
qed

lemma back_patch_ok:
  assumes s: "out_ok base new pos s"
  shows "script_ok base new pos (back_patch s)"
proof (cases "lastflag s = 2")
  case True
  let ?L = "unat (get_length (record2 s))"
  from s True obtain us h rest where us: "script_for base new (pos - ?L) us" "length h = 4"
      "deltaBuf s = enc_script us @ h @ seg (pos - ?L) ?L new @ rest"
      "deltaLen s = length (enc_script us) + 4 + ?L" "?L \<le> pos" "length new < 2 ^ 31" "pos \<le> length new"
    by (rule out_ok_pendingE)
  let ?lit = "seg (pos - ?L) ?L new"
  have img: "le32 (record2 s) @ ?lit = enc_unit (Lit ?lit)"
    using s us by (intro literal_image) (simp_all add: out_ok_def flags_ok_def)
  have "deltaBuf (back_patch s) = enc_script us @ (le32 (record2 s) @ ?lit) @ rest"
    using True us by (simp add: back_patch_def put_mid)
  then have "deltaBuf (back_patch s) = enc_script (us @ [Lit ?lit]) @ rest"
    unfolding img by simp
  moreover have "deltaLen (back_patch s) = length (enc_script (us @ [Lit ?lit]))"
    using us True by (simp add: back_patch_def)
  moreover have "script_for base new pos (us @ [Lit ?lit])"
    using script_for_literal [OF us(1), of ?L] us by simp
  ultimately show ?thesis
    using s us True unfolding script_ok_def out_ok_def flags_ok_def by (auto simp: back_patch_def)
next
  case False
  then show ?thesis using out_script_ok [OF s] by (simp add: back_patch_def)
qed

text \<open>After the header has been written back, \<open>k\<close> literal bytes can be given to a copy.\<close>

lemma shrink_literal_ok:
  assumes s: "out_ok base new pos s" and f: "lastflag s = 2"
    and k: "0 < k" "k \<le> unat (get_length (record2 s))"
  shows "script_ok base new (pos - k) (shrink_literal k (back_patch s))"
proof -
  let ?L = "unat (get_length (record2 s))" and ?s = "back_patch s"
  let ?w = "set_length (record2 s) (get_length (record2 s) - word_of_nat k)"
  from s f obtain us h rest where us: "script_for base new (pos - ?L) us" "length h = 4"
      "deltaBuf s = enc_script us @ h @ seg (pos - ?L) ?L new @ rest"
      "deltaLen s = length (enc_script us) + 4 + ?L" "?L \<le> pos" "length new < 2 ^ 31" "pos \<le> length new"
    by (rule out_ok_pendingE)
  have bp: "deltaBuf ?s = enc_script us @ le32 (record2 s) @ seg (pos - ?L) ?L new @ rest"
      "deltaLen ?s = deltaLen s" "record2 ?s = record2 s" "record1 ?s = record1 s" "lastflag ?s = 2"
    using f us by (simp_all add: back_patch_def put_mid)
  have sub: "get_length (record2 s) - word_of_nat k = (word_of_nat (?L - k) :: u32)"
    using k by (simp add: of_nat_diff)
  have lt: "?L - k < 2 ^ 31" using get_length_lt [of "record2 s"] by simp
  have w: "unat (get_length ?w) = ?L - k"
    unfolding sub using lt by (rule unat_get_set_length)
  have "get_flag ?w = 0 \<longleftrightarrow> get_flag (record2 s) = 0"
    unfolding sub using lt unat_len [OF lt] by (intro get_flag_set_length) (simp only:)
  then have fl: "get_flag ?w \<noteq> 0" "get_flag (record1 s) = 0"
    using out_okD(1) [OF s] by (simp_all add: flags_ok_def)
  let ?lit = "seg (pos - ?L) (?L - k) new"
  have split: "seg (pos - ?L) ?L new = ?lit @ seg (pos - k) k new"
    using seg_append_seg [of "pos - ?L" "?L - k" new k] us k by simp
  show ?thesis
  proof (cases "k = ?L")
    case True
    with bp us w k have "shrink_literal k ?s = ?s\<lparr>deltaLen := length (enc_script us), record2 := ?w\<rparr>"
      by (simp add: shrink_literal_def Let_def)
    with True bp us fl out_okD [OF s] show ?thesis
      by (intro script_okI [where us = us]) (simp_all add: flags_ok_def)
  next
    case False
    have img: "le32 ?w @ ?lit = enc_unit (Lit ?lit)"
      using fl w us by (intro literal_image) simp_all
    have "put (deltaBuf ?s) (length (enc_script us)) (le32 ?w) =
        enc_script us @ (le32 ?w @ ?lit) @ seg (pos - k) k new @ rest"
      unfolding bp split by (simp add: put_mid)
    then have "shrink_literal k ?s = ?s\<lparr>record2 := ?w,
        deltaBuf := enc_script (us @ [Lit ?lit]) @ seg (pos - k) k new @ rest,
        deltaLen := length (enc_script (us @ [Lit ?lit]))\<rparr>"
      using False bp us w k unfolding img
      by (simp add: shrink_literal_def Let_def append_bytes_def)
    moreover have "script_for base new (pos - k) (us @ [Lit ?lit])"
      using script_for_literal [OF us(1), of "?L - k"] us k by simp
    ultimately show ?thesis
      using bp fl us out_okD [OF s]
      by (intro script_okI [where us = "us @ [Lit ?lit]"]) (simp_all add: flags_ok_def)
  qed
qed

lemma write_frames [simp]:
  "lastflag (emit_copy off n s) = lastflag s" "deltaLen (emit_copy off n s) = deltaLen s + 8"
  "lastflag (back_patch s) = lastflag s" "record2 (back_patch s) = record2 s"
  "deltaLen (back_patch s) = deltaLen s" "lastflag (emit_literal new pos n s) = 2"
  by (simp_all add: emit_copy_def append_bytes_def back_patch_def emit_literal_def Let_def)

text \<open>Giving literal bytes back never makes the buffer longer.\<close>

lemma shrink_literal_len:
  assumes "out_ok base new pos s" "k > 0 \<longrightarrow> lastflag s = 2 \<and> k \<le> unat (get_length (record2 s))"
  shows "deltaLen (shrink_literal k (back_patch s)) \<le> deltaLen s"
proof (cases "k > 0")
  case True
  let ?L = "unat (get_length (record2 s))"
  from assms True have k: "k \<le> ?L" and f: "lastflag s = 2" by auto
  from assms f have L: "?L + 4 \<le> deltaLen s"
    by (auto simp: out_ok_def pending_def hdr_def)
  have sub: "get_length (record2 s) - word_of_nat k = (word_of_nat (?L - k) :: u32)"
    using k by (simp add: of_nat_diff)
  have "unat (get_length (set_length (record2 s) (get_length (record2 s) - word_of_nat k))) = ?L - k"
    unfolding sub using get_length_lt [of "record2 s"] by (subst unat_get_set_length) simp_all
  with L k show ?thesis
    by (simp add: shrink_literal_def Let_def append_bytes_def)
qed (simp add: shrink_literal_def)

end
