(* ===== verification/EDeltaCorrect.thy ===== *)
theory EDeltaCorrect
  imports EDeltaWrite
begin

text \<open>
  The main loop of the encoder: the records of the base in the hash table stay inside the
  base (through the laws of \<open>chunk_index\<close>), the probe chunks tile the input, every turn
  of the loop keeps the output invariant and consumes input, so the loop ends, and what it
  leaves decodes to the input. The bound on the size of the delta comes along: a match
  replaces at least \<open>STRMIN\<close> input bytes, except at the very end.
\<close>

section \<open>Matches\<close>

definition rec_ok :: "nat \<Rightarrow> DeltaRecord \<Rightarrow> bool" where
  "rec_ok lim r \<longleftrightarrow> 0 < nLength r \<and> nOffset r + nLength r \<le> lim"

text \<open>What one sub-chunk of \<open>len\<close> bytes at \<open>pos\<close> leaves behind.\<close>

definition chunk_done ::
  "bytes \<Rightarrow> bytes \<Rightarrow> nat \<Rightarrow> nat \<Rightarrow> nat \<Rightarrow> nat \<Rightarrow> out_st \<Rightarrow> out_st \<times> nat \<times> nat \<Rightarrow> bool" where
  "chunk_done base new e pos len cb s r \<longleftrightarrow>
    (case r of (s', ci, cb') \<Rightarrow>
       out_ok base new ci s' \<and> pos + len \<le> ci \<and> ci \<le> length new - e \<and>
       cb \<le> cb' \<and> cb' \<le> max cb (length base - e) \<and>
       (deltaLen s' + hdr s \<le> deltaLen s + (ci - pos) + hdr s' \<or> deltaLen s' \<le> deltaLen s + 8))"

lemma literal_done:
  assumes "out_ok base new pos s" "pos + len \<le> length new - e"
  shows "chunk_done base new e pos len cb s (emit_literal new pos len s, pos + len, cb)"
  using assms emit_literal_ok [of base new pos s len]
  by (auto simp: chunk_done_def emit_literal_def append_bytes_def Let_def hdr_def)

lemma match_dup_done:
  assumes s: "out_ok base new pos s" and r: "nOffset r + len \<le> length base - e"
    and eq: "seg pos len new = seg (nOffset r) len base" and p: "pos + len \<le> length new - e"
  shows "chunk_done base new e pos len cb s (match_dup new base e pos len r cb s)"
proof -
  let ?L = "unat (get_length (record2 s))"
  define j where "j = match_fwd base (nOffset r + len) (length base - e) new (pos + len) (length new - e)"
  define k where "k = (if lastflag s = 2 then match_back base (nOffset r) new pos ?L 0 else 0)"
  let ?s2 = "shrink_literal k (back_patch s)"
  have j: "nOffset r + len + j \<le> length base - e" "pos + len + j \<le> length new - e"
      "seg (nOffset r + len) j base = seg (pos + len) j new"
    unfolding j_def by (rule match_fwd_sound; use r p in simp)+
  have Lp: "lastflag s = 2 \<Longrightarrow> ?L \<le> pos" using s by (auto simp: out_ok_def pending_def)
  have "nOffset r \<le> length base" using r by simp
  then have mb: "k \<le> nOffset r \<and> k \<le> ?L \<and> seg (nOffset r - k) k base = seg (pos - k) k new" if "lastflag s = 2"
    using match_back_sound [of "nOffset r" base ?L pos new 0] Lp [OF that] out_okD(2) [OF s] that
    by (simp add: k_def Let_def)
  have k: "k \<le> nOffset r" "k \<le> pos" "k > 0 \<Longrightarrow> lastflag s = 2 \<and> k \<le> ?L"
      "seg (nOffset r - k) k base = seg (pos - k) k new"
    using mb Lp by (cases "lastflag s = 2"; force simp: k_def)+
  have s2: "script_ok base new (pos - k) ?s2"
    using shrink_literal_ok [OF s] back_patch_ok [OF s] k(3)
    by (cases "k > 0") (simp_all add: shrink_literal_def)
  have "seg (nOffset r - k) (k + (len + j)) base = seg (pos - k) (k + (len + j)) new"
    using k j(3) eq by (simp flip: seg_append_seg)
  then have s3: "script_ok base new (pos - k + (len + j + k)) (emit_copy (nOffset r - k) (len + j + k) ?s2)"
    using j k r p by (intro emit_copy_ok [OF s2]) (simp_all add: add.commute)
  have res: "match_dup new base e pos len r cb s =
      ((emit_copy (nOffset r - k) (len + j + k) ?s2)\<lparr>lastflag := 1\<rparr>, pos + len + j,
       max cb (nOffset r + len + j))"
    by (simp add: match_dup_def Let_def j_def k_def max_def add.assoc)
  have "deltaLen ?s2 \<le> deltaLen s" using s k(3) by (intro shrink_literal_len) simp_all
  moreover have "pos - k + (len + j + k) = pos + len + j" using k by simp
  ultimately show ?thesis
    using s3 j k unfolding res chunk_done_def by (auto intro!: script_out_ok simp: add.assoc)
qed

lemma handle_dup_done:
  assumes "out_ok base new pos s" "rec_ok (length base - e) r" "pos + len \<le> length new - e"
  shows "chunk_done base new e pos len cb s (handle_dup new base e pos len r cb s)"
  using assms match_dup_done [of base new pos s r len e cb] literal_done [of base new pos s len e cb]
  by (auto simp: handle_dup_def rec_ok_def)

section \<open>The base\<close>

definition base_ok :: "bytes \<Rightarrow> nat \<Rightarrow> base_st \<Rightarrow> bool" where
  "base_ok base e b \<longleftrightarrow>
     cursor_base b \<le> length base - e \<and> ht.all_items (rec_ok (length base - e)) (psHTable b)"

lemma insert_base_ok:
  "ht.all_items (rec_ok lim) t \<Longrightarrow> \<forall>r \<in> set rs. cb + nOffset r + nLength r \<le> lim \<Longrightarrow>
   ht.all_items (rec_ok lim) (fst (insert_base cb rs t))"
proof (induction rs arbitrary: t)
  case (Cons r rs)
  then have "nLength r \<noteq> 0 \<Longrightarrow> ht.all_items (rec_ok lim) (ht_insert t (r\<lparr>nOffset := nOffset r + cb\<rparr>))"
    by (intro ht.all_items_ins) (auto simp: rec_ok_def [of _ "_\<lparr>nOffset := _\<rparr>"])
  with Cons show ?case by simp
qed simp

lemma chunk_base_ok: "base_ok base e b \<Longrightarrow> base_ok base e (chunk_base base e n b)"
proof -
  assume b: "base_ok base e b"
  let ?c = "Chunking_v3 (drop (cursor_base b) base) (length base - e - cursor_base b) n"
  have "cursor_base b + snd ?c \<le> length base - e"
    using Chunking_v3_bytes [of "drop (cursor_base b) base" "length base - e - cursor_base b" n] b
    unfolding base_ok_def by linarith
  moreover have "cursor_base b + nOffset r + nLength r \<le> cursor_base b + snd ?c" if "r \<in> set (fst ?c)" for r
    using Chunking_v3_records [OF that] by simp
  ultimately show ?thesis
    using b insert_base_ok [of "length base - e" "psHTable b" "fst ?c" "cursor_base b"]
    by (force simp: base_ok_def chunk_base_def Let_def split: prod.splits)
qed

section \<open>Probing\<close>

fun links_ok :: "nat \<Rightarrow> nat \<Rightarrow> probe_link list \<Rightarrow> bool" where
  "links_ok lim c [] \<longleftrightarrow> c \<le> lim"
| "links_ok lim c ((l, h) # ls) \<longleftrightarrow>
    (STRMIN < l \<or> c + l = lim) \<and> (c < lim \<longrightarrow> 0 < l) \<and> links_ok lim (c + l) ls"

lemma links_ok_le: "links_ok lim c ls \<Longrightarrow> c \<le> lim"
  by (induction lim c ls rule: links_ok.induct) auto

lemma input_chunk:
  fixes new :: bytes and pos e :: nat
  defines "len \<equiv> chunk_gear (drop pos new) (length new - pos - e)"
  assumes "pos \<le> length new - e"
  shows "pos + len \<le> length new - e" "STRMIN < len \<or> pos + len = length new - e"
    "pos < length new - e \<Longrightarrow> 0 < len"
proof -
  show "pos + len \<le> length new - e"
    using chunk_gear_le [of "drop pos new" "length new - pos - e"] assms by simp
  show "STRMIN < len \<or> pos + len = length new - e"
  proof (cases "STRMAX < length new - pos - e")
    case True
    then show ?thesis using chunk_gear_min [of _ "drop pos new"] by (simp add: len_def)
  next
    case False
    with assms(2) have "len = length new - pos - e" by (simp add: len_def chunk_gear_def)
    with assms(2) show ?thesis by linarith
  qed
  show "pos < length new - e \<Longrightarrow> 0 < len"
    unfolding len_def by (intro chunk_gear_pos) simp
qed

definition hit_ok :: "nat \<Rightarrow> probe_hit \<Rightarrow> bool" where
  "hit_ok lim m \<longleftrightarrow> (\<forall>j r. m = Some (j, r) \<longrightarrow> rec_ok lim r)"

lemma hit_ok_simps [simp]: "hit_ok lim None" "hit_ok lim (Some (j, r)) \<longleftrightarrow> rec_ok lim r"
  by (simp_all add: hit_ok_def)

lemma probe_input_ok:
  assumes t: "ht.all_items (rec_ok lim) t"
  shows "c \<le> length new - e \<Longrightarrow>
    (case probe_input new e t n j c of (ls, m) \<Rightarrow>
       links_ok (length new - e) c ls \<and> hit_ok lim m \<and> (0 < n \<longrightarrow> ls \<noteq> []))"
proof (induction n arbitrary: j c)
  case 0
  then show ?case by simp
next
  case (Suc n)
  let ?len = "chunk_gear (drop c new) (length new - c - e)"
  note chunk = input_chunk [OF Suc.prems]
  show ?case
  proof (cases "ht_lookup t (weakHash (seg c ?len new))")
    case None
    with Suc.IH [OF chunk(1), of "j + 1"] chunk show ?thesis
      by (auto simp: Let_def split: prod.splits)
  next
    case (Some r)
    with ht.all_items_lookup [OF t Some] chunk show ?thesis by (auto simp: Let_def)
  qed
qed

lemma probe_again_ok: "ht.all_items (rec_ok lim) t \<Longrightarrow> hit_ok lim (probe_again t j ls)"
proof (induction t j ls rule: probe_again.induct)
  case (2 t j len hash ls)
  then show ?case
    using ht.all_items_lookup [OF "2.prems", of hash] by (auto split: option.splits)
qed simp

definition probe_ok :: "bytes \<Rightarrow> bytes \<Rightarrow> nat \<Rightarrow> nat \<Rightarrow> probe_link list \<Rightarrow> probe_hit \<Rightarrow> bool" where
  "probe_ok base new e c ls m \<longleftrightarrow>
     links_ok (length new - e) c ls \<and> ls \<noteq> [] \<and> hit_ok (length base - e) m"

lemma base_loop_ok:
  assumes "base_ok base e b" "c \<le> length new - e"
    "i \<noteq> 0 \<Longrightarrow> links_ok (length new - e) c ls \<and> ls \<noteq> []" "i = 0 \<Longrightarrow> 0 < n"
  shows "case base_loop n i cn new base e c ls b of (b', ls', m) \<Rightarrow>
    base_ok base e b' \<and> probe_ok base new e c ls' m"
  using assms
proof (induction n i cn new base e c ls b rule: base_loop.induct)
  case (1 i cn new base e c ls b)
  then show ?case by (auto simp: probe_ok_def)
next
  case (2 n i cn new base e c ls b)
  let ?b = "chunk_base base e cn b"
  define p where "p = (if i = 0 then probe_input new e (psHTable ?b) INPUT_TRY 0 c
                     else (ls, probe_again (psHTable ?b) 0 ls))"
  obtain ls1 m where p_eq: "p = (ls1, m)" by (cases p)
  have b: "base_ok base e ?b" using "2.prems" by (intro chunk_base_ok)
  then have t: "ht.all_items (rec_ok (length base - e)) (psHTable ?b)" by (simp add: base_ok_def)
  have ok: "probe_ok base new e c ls1 m"
    using "2.prems" p_eq probe_input_ok [OF t, of c new e INPUT_TRY 0] probe_again_ok [OF t, of 0 ls]
    by (auto simp: p_def probe_ok_def INPUT_TRY_def split: if_splits)
  show ?case
  proof (cases "m \<noteq> None \<or> \<not> flag_chunk ?b")
    case True
    with b ok p_eq show ?thesis unfolding p_def by (simp add: Let_def)
  next
    case False
    have "case base_loop n (i + 1) (cn * BASE_EXPAND) new base e c ls1 ?b of (b', ls', m) \<Rightarrow>
        base_ok base e b' \<and> probe_ok base new e c ls' m"
      using "2.IH" [OF refl p_eq [unfolded p_def, symmetric] refl] False b ok "2.prems"
      by (simp add: probe_ok_def)
    with False p_eq show ?thesis unfolding p_def by (simp add: Let_def)
  qed
qed

text \<open>
  Turning probe chunks into literals: the output stays tight, and either a probe chunk
  that matched is at hand or all of them have been consumed.
\<close>

definition tight :: "nat \<Rightarrow> out_st \<Rightarrow> bool" where
  "tight pos s \<longleftrightarrow> deltaLen s \<le> pos + hdr s"

lemma tight_literal: "tight pos s \<Longrightarrow> tight (pos + n) (emit_literal new pos n s)"
  by (auto simp: tight_def emit_literal_def append_bytes_def Let_def hdr_def)

definition probed :: "bytes \<Rightarrow> bytes \<Rightarrow> nat \<Rightarrow> out_st \<times> nat \<times> (nat \<times> DeltaRecord) option \<Rightarrow> bool" where
  "probed base new e p \<longleftrightarrow>
    (case p of (s, pos, r) \<Rightarrow>
       out_ok base new pos s \<and> tight pos s \<and> pos \<le> length new - e \<and>
       (\<forall>len d. r = Some (len, d) \<longrightarrow> rec_ok (length base - e) d \<and> pos + len \<le> length new - e \<and>
          (STRMIN < len \<or> pos + len = length new - e) \<and> (pos < length new - e \<longrightarrow> 0 < len)))"

lemma handle_probe_ok:
  assumes "out_ok base new pos s" "tight pos s" "links_ok (length new - e) pos ls"
    "hit_ok (length base - e) m"
  shows "probed base new e (handle_probe new ls m i pos s)"
  using assms
proof (induction new ls m i pos s rule: handle_probe.induct)
  case (1 new m i pos s)
  then show ?case by (simp add: probed_def)
next
  case (2 new len hash ls m i pos s)
  have le: "pos + len \<le> length new - e" "pos \<le> length new - e"
    using links_ok_le [of "length new - e" "pos + len" ls] "2.prems"(3) by simp_all
  show ?case
  proof (cases "\<exists>p \<in> set_option m. fst p = i")
    case True
    with "2.prems" le show ?thesis by (auto simp: probed_def)
  next
    case False
    with "2.IH" [OF False] "2.prems" le show ?thesis
      by (auto simp: emit_literal_ok tight_literal)
  qed
qed

text \<open>Progress: nothing is lost, and the first probe chunk is not empty.\<close>

lemma handle_probe_mono: "fst (snd (handle_probe new ls m i pos s)) \<ge> pos"
  by (induction new ls m i pos s rule: handle_probe.induct) auto

lemma handle_probe_progress:
  assumes "ls \<noteq> []" "links_ok (length new - e) pos ls" "pos < length new - e"
  shows "case handle_probe new ls m i pos s of (s', pos', r) \<Rightarrow>
    pos < pos' \<or> (pos = pos' \<and> (\<exists>len d. r = Some (len, d) \<and> 0 < len))"
proof (cases ls)
  case (Cons l ls')
  obtain len hash where l: "l = (len, hash)" by (cases l)
  have "pos + len \<le> fst (snd (handle_probe new ls' m (i + 1) (pos + len) (emit_literal new pos len s)))"
    by (rule handle_probe_mono)
  with assms Cons l show ?thesis by (auto split: prod.splits)
qed (use assms in simp)

section \<open>One turn of the main loop\<close>

text \<open>A sub-chunk keeps the delta tight, unless it is the short one at the end of the input.\<close>

definition nearly_tight :: "nat \<Rightarrow> nat \<Rightarrow> out_st \<Rightarrow> bool" where
  "nearly_tight lim pos s \<longleftrightarrow> tight pos s \<or> pos = lim \<and> deltaLen s \<le> pos + 12"

lemma chunk_done_tight:
  assumes "chunk_done base new e pos len cb s (s', ci, cb')" "tight pos s"
    "STRMIN < len \<or> pos + len = length new - e"
  shows "nearly_tight (length new - e) ci s'"
  using assms by (auto simp: chunk_done_def nearly_tight_def tight_def hdr_def STRMIN_def split: if_splits)

definition step_done :: "bytes \<Rightarrow> bytes \<Rightarrow> nat \<Rightarrow> nat \<Rightarrow> nat \<Rightarrow> out_st \<times> nat \<times> nat \<Rightarrow> bool" where
  "step_done base new e pos cb r \<longleftrightarrow>
    (case r of (s', ci, cb') \<Rightarrow>
       out_ok base new ci s' \<and> pos \<le> ci \<and> ci \<le> length new - e \<and>
       cb \<le> cb' \<and> cb' \<le> max cb (length base - e) \<and> nearly_tight (length new - e) ci s')"

lemma chunk_step_done:
  assumes "chunk_done base new e pos len cb s r" "tight pos s"
    "STRMIN < len \<or> pos + len = length new - e"
  shows "step_done base new e (pos + len) cb r"
proof -
  obtain s' ci cb' where r: "r = (s', ci, cb')" by (cases r)
  moreover have "nearly_tight (length new - e) ci s'"
    using chunk_done_tight [OF assms [unfolded r]] .
  ultimately show ?thesis using assms(1) by (simp add: step_done_def chunk_done_def)
qed

text \<open>
  Encoding at \<open>pos\<close> moves at least by the length of the sub-chunk that is encoded there:
  the probe chunk that matched, or the next sub-chunk of the input.
\<close>

definition due :: "bytes \<Rightarrow> nat \<Rightarrow> nat \<Rightarrow> (nat \<times> DeltaRecord) option \<Rightarrow> nat" where
  "due new e pos r =
    (case r of Some (len, d) \<Rightarrow> len | None \<Rightarrow> chunk_gear (drop pos new) (length new - pos - e))"

lemma encode_chunk_done:
  assumes p: "probed base new e (s, pos, r)" and b: "base_ok base e b"
  shows "step_done base new e (pos + due new e pos r) (cursor_base b) (encode_chunk new base e (s, pos, r) b)"
proof (cases r)
  case None
  let ?len = "chunk_gear (drop pos new) (length new - pos - e)"
  have s: "out_ok base new pos s" "tight pos s" "pos \<le> length new - e"
    using p by (simp_all add: probed_def)
  note chunk = input_chunk [OF s(3)]
  have t: "ht.all_items (rec_ok (length base - e)) (psHTable b)" using b by (simp add: base_ok_def)
  have "chunk_done base new e pos ?len (cursor_base b) s (encode_chunk new base e (s, pos, r) b)"
    using None s chunk ht.all_items_lookup [OF t]
    by (auto simp: encode_chunk_def Let_def split: option.splits
        intro!: handle_dup_done literal_done)
  with chunk_step_done [OF this s(2) chunk(2)] show ?thesis by (simp add: due_def None)
next
  case (Some q)
  obtain len d where q: "q = (len, d)" by (cases q)
  with Some p have s: "out_ok base new pos s" "tight pos s" "rec_ok (length base - e) d"
      "pos + len \<le> length new - e" "STRMIN < len \<or> pos + len = length new - e"
    by (simp_all add: probed_def)
  then have "chunk_done base new e pos len (cursor_base b) s (encode_chunk new base e (s, pos, r) b)"
    by (simp add: encode_chunk_def Some q handle_dup_done)
  with chunk_step_done [OF this s(2,5)] show ?thesis by (simp add: due_def Some q)
qed

definition enc_inv :: "bytes \<Rightarrow> bytes \<Rightarrow> nat \<Rightarrow> enc_st \<Rightarrow> bool" where
  "enc_inv base new e st \<longleftrightarrow>
     out_ok base new (inputPos st) (out st) \<and> base_ok base e (bst st) \<and>
     cursor_input st = inputPos st \<and> inputPos st \<le> length new - e \<and>
     nearly_tight (length new - e) (inputPos st) (out st)"

lemma refill_ok:
  assumes st: "enc_inv base new e st"
  shows "enc_inv base new e (refill new base e st)"
    "inputPos (refill new base e st) = inputPos st" "out (refill new base e st) = out st"
    "flag_handle_probe (refill new base e st) = Some True"
    "probe_ok base new e (inputPos st) (InputLink (refill new base e st)) (probe_match (refill new base e st))"
proof -
  let ?c = "base_loop BASE_STEP 0 BASE_BEGIN new base e (cursor_input st) (InputLink st) ((bst st)\<lparr>numBytes_accu := 0\<rparr>)"
  obtain b ls m where c: "?c = (b, ls, m)" by (cases ?c)
  have "case ?c of (b', ls', m) \<Rightarrow> base_ok base e b' \<and> probe_ok base new e (cursor_input st) ls' m"
    using st by (intro base_loop_ok) (simp_all add: enc_inv_def base_ok_def BASE_STEP_def)
  then have ok: "base_ok base e b" "probe_ok base new e (cursor_input st) ls m" by (simp_all add: c)
  have r: "refill new base e st = st\<lparr>bst := b, flag_handle_probe := Some True, InputLink := ls,
      probe_match := m,
      input_last_chunk_beg := max (cursor_input st) (input_last_chunk_beg st + numBytes_accu (bst st))\<rparr>"
    by (simp add: refill_def c)
  show "enc_inv base new e (refill new base e st)"
    "inputPos (refill new base e st) = inputPos st" "out (refill new base e st) = out st"
    "flag_handle_probe (refill new base e st) = Some True"
    "probe_ok base new e (inputPos st) (InputLink (refill new base e st)) (probe_match (refill new base e st))"
    using st ok by (simp_all add: r enc_inv_def)
qed

text \<open>The state just before the sub-chunk is encoded.\<close>

definition probe_phase :: "bytes \<Rightarrow> enc_st \<Rightarrow> bool \<Rightarrow> out_st \<times> nat \<times> (nat \<times> DeltaRecord) option" where
  "probe_phase new st handle =
    (if handle then handle_probe new (InputLink st) (probe_match st) 0 (inputPos st) (out st)
     else (out st, inputPos st, None))"

lemma probe_phase_ok:
  assumes st: "enc_inv base new e st" and pos: "inputPos st < length new - e"
    and h: "handle \<longrightarrow> probe_ok base new e (inputPos st) (InputLink st) (probe_match st)"
  shows "probed base new e (probe_phase new st handle)"
    "case probe_phase new st handle of (s, p, r) \<Rightarrow> inputPos st < p + due new e p r"
proof -
  have s: "out_ok base new (inputPos st) (out st)" "tight (inputPos st) (out st)"
    using st pos by (auto simp: enc_inv_def nearly_tight_def)
  show "probed base new e (probe_phase new st handle)"
  proof (cases handle)
    case True
    with h s show ?thesis by (simp add: probe_phase_def probe_ok_def handle_probe_ok)
  next
    case False
    with s pos show ?thesis by (simp add: probe_phase_def probed_def)
  qed
  show "case probe_phase new st handle of (s, p, r) \<Rightarrow> inputPos st < p + due new e p r"
  proof (cases handle)
    case True
    with h have ok: "InputLink st \<noteq> []" "links_ok (length new - e) (inputPos st) (InputLink st)"
      by (simp_all add: probe_ok_def)
    show ?thesis
      using handle_probe_progress [OF ok pos, of "probe_match st" 0 "out st"] True
      by (auto simp: probe_phase_def due_def split: prod.splits)
  next
    case False
    with chunk_gear_pos [of "length new - inputPos st - e"] pos show ?thesis
      by (simp add: probe_phase_def due_def)
  qed
qed

definition can_step :: "bytes \<Rightarrow> bytes \<Rightarrow> enc_st \<Rightarrow> bool" where
  "can_step base new st \<longleftrightarrow> flag_handle_probe st = Some False \<or>
     flag_handle_probe st = None \<and> flag_chunk (bst st) \<and>
     pacing (cursor_input st) (length new) (cursor_base (bst st)) (length base)"

lemma enc_step_ok:
  assumes st: "enc_inv base new e st" and pos: "inputPos st < length new - e"
    and can: "can_step base new st"
  shows "\<exists>st'. enc_step new base e st = Inr st' \<and> enc_inv base new e st' \<and>
    inputPos st < inputPos st' \<and> can_step base new st'"
proof -
  define st1 where "st1 =
    (if flag_chunk (bst st) \<and> pacing (cursor_input st) (length new) (cursor_base (bst st)) (length base)
     then refill new base e st else st)"
  have st1: "enc_inv base new e st1" "inputPos st1 = inputPos st"
    using st refill_ok [OF st] by (simp_all add: st1_def)
  obtain handle where h: "flag_handle_probe st1 = Some handle"
      "handle \<longrightarrow> probe_ok base new e (inputPos st1) (InputLink st1) (probe_match st1)"
  proof (cases "st1 = st \<and> flag_handle_probe st = Some False")
    case True
    then show ?thesis using that [of False] by simp
  next
    case False
    with can have "st1 = refill new base e st" by (auto simp: st1_def can_step_def)
    then show ?thesis using that [of True] refill_ok [OF st] by simp
  qed
  have pos1: "inputPos st1 < length new - e" using pos st1 by simp
  obtain s p r where ph: "probe_phase new st1 handle = (s, p, r)" by (cases "probe_phase new st1 handle")
  obtain s' ci cb where c: "encode_chunk new base e (s, p, r) (bst st1) = (s', ci, cb)"
    by (cases "encode_chunk new base e (s, p, r) (bst st1)")
  have b: "base_ok base e (bst st1)" using st1 by (simp add: enc_inv_def)
  note phase = probe_phase_ok [OF st1(1) pos1 h(2), unfolded ph]
  have "step_done base new e (p + due new e p r) (cursor_base (bst st1)) (s', ci, cb)"
    using encode_chunk_done [OF phase(1) b] by (simp add: c)
  with phase(2) b have done_: "out_ok base new ci s'" "ci \<le> length new - e" "inputPos st < ci"
      "nearly_tight (length new - e) ci s'" "cb \<le> length base - e"
    using st1 by (auto simp: step_done_def base_ok_def)
  let ?st = "st1\<lparr>out := s', bst := (bst st1)\<lparr>cursor_base := cb\<rparr>, inputPos := ci, cursor_input := ci,
      flag_handle_probe := Some False\<rparr>"
  have "enc_step new base e st = Inr ?st"
    using h(1) ph c unfolding enc_step_def st1_def [symmetric] Let_def probe_phase_def [symmetric]
    by (simp add: probe_phase_def)
  moreover have "enc_inv base new e ?st" using done_ b by (simp add: enc_inv_def base_ok_def)
  ultimately show ?thesis using done_(3) by (auto simp: can_step_def)
qed

lemma enc_loop_ok:
  assumes "enc_inv base new e st" "can_step base new st" "length new - e - inputPos st \<le> fuel"
  shows "\<exists>st'. enc_loop fuel new base e st = Inr st' \<and> enc_inv base new e st' \<and>
    inputPos st' = length new - e"
  using assms
proof (induction fuel arbitrary: st)
  case 0
  then show ?case by (auto simp: enc_inv_def)
next
  case (Suc fuel)
  show ?case
  proof (cases "inputPos st < length new - e")
    case True
    from enc_step_ok [OF Suc.prems(1) True Suc.prems(2)] obtain st' where st':
      "enc_step new base e st = Inr st'" "enc_inv base new e st'" "inputPos st < inputPos st'"
      "can_step base new st'" by blast
    with Suc.prems(3) have "length new - e - inputPos st' \<le> fuel" by linarith
    from Suc.IH [OF st'(2,4) this] st'(1) True show ?thesis by simp
  next
    case False
    with Suc.prems(1) show ?thesis by (auto simp: enc_inv_def)
  qed
qed

section \<open>The whole encoder\<close>

lemma head_size_ok:
  "head_size new base \<le> length new" "head_size new base \<le> length base"
  "take (head_size new base) base = take (head_size new base) new"
  "0 < head_size new base \<Longrightarrow> 16 < head_size new base"
  using match_fwd_sound [of "length base" base "length new" new 0 0]
  by (auto simp: head_size_def Let_def split: if_splits)

lemma tail_size_ok:
  fixes new base :: bytes
  defines "e \<equiv> tail_size new base (head_size new base)"
  shows "head_size new base + e \<le> length new" "e \<le> length base"
    "seg (length base - e) e base = seg (length new - e) e new" "0 < e \<Longrightarrow> 16 < e"
proof -
  show bound: "head_size new base + e \<le> length new"
    using head_size_ok(1) [of new base] match_bwd_sound(2) [of "match_bwd base new" base new]
    by (auto simp: e_def tail_size_def Let_def)
  have "e \<le> match_bwd base new" by (auto simp: e_def tail_size_def Let_def)
  then show "e \<le> length base" "seg (length base - e) e base = seg (length new - e) e new"
    using match_bwd_sound [of e base new] by simp_all
  show "0 < e \<Longrightarrow> 16 < e" by (auto simp: e_def tail_size_def Let_def split: if_splits)
qed

lemma out_init_ok:
  "length new < 2 ^ 31 \<Longrightarrow> length base < 2 ^ 31 \<Longrightarrow> script_ok base new 0 (out_init buf)"
  by (intro script_okI [where us = "[]" and rest = buf]) (simp_all add: out_init_def flags_ok_def)

lemma head_copy_ok:
  assumes "length new < 2 ^ 31" "length base < 2 ^ 31"
  shows "script_ok base new (head_size new base) (emit_copy 0 (head_size new base) (out_init buf))"
  using emit_copy_ok [OF out_init_ok, of new base 0 "head_size new base"] head_size_ok [of new base] assms
  by simp

text \<open>A finished delta: a script for all of the input, of bounded size.\<close>

definition delta_for :: "bytes \<Rightarrow> bytes \<Rightarrow> out_st \<Rightarrow> bool" where
  "delta_for base new s \<longleftrightarrow> script_ok base new (length new) s \<and> deltaLen s \<le> length new + 12"

lemma delta_for_script:
  assumes "delta_for base new s" "new \<noteq> []"
  obtains us where "us \<noteq> []" "list_all (unit_ok base) us" "run_script base us = new"
    "take (deltaLen s) (deltaBuf s) = enc_script us" "length (enc_script us) \<le> length new + 12"
proof -
  from assms obtain us rest where us: "list_all (unit_ok base) us" "run_script base us = new"
      "deltaBuf s = enc_script us @ rest" "deltaLen s = length (enc_script us)"
    by (auto simp: delta_for_def script_ok_def script_for_def)
  moreover have "us \<noteq> []" using us(2) assms(2) by auto
  ultimately show ?thesis using that [of us] assms(1) by (simp add: delta_for_def)
qed

lemma tail_copy_ok:
  fixes base new :: bytes
  defines "e \<equiv> tail_size new base (head_size new base)"
  assumes s: "script_ok base new (length new - e) s" and len: "deltaLen s \<le> length new - e + 12"
  shows "delta_for base new (if e > 0 then emit_copy (length base - e) e s else s)"
proof (cases "e > 0")
  case True
  have tail: "e \<le> length new" "e \<le> length base" "16 < e"
      "seg (length base - e) e base = seg (length new - e) e new"
    using tail_size_ok [where new = new and base = base] True by (simp_all add: e_def)
  then have "script_ok base new (length new - e + e) (emit_copy (length base - e) e s)"
    by (intro emit_copy_ok [OF s]) simp_all
  with tail len True show ?thesis by (simp add: delta_for_def)
qed (use s len in \<open>simp add: delta_for_def\<close>)

lemma encode_short_ok:
  assumes "length new < 2 ^ 31" "length base < 2 ^ 31"
  defines "b \<equiv> head_size new base"
  defines "e \<equiv> tail_size new base b"
  shows "delta_for base new (encode_short new base b e (out_init buf))"
proof -
  define s1 where "s1 = (if b > 0 then emit_copy 0 b (out_init buf) else out_init buf)"
  define s2 where "s2 = (if length new - b - e > 0 then emit_literal new b (length new - b - e) s1 else s1)"
  have be: "b + e \<le> length new" using tail_size_ok(1) [of new base] by (simp add: e_def b_def)
  have s1: "script_ok base new b s1" "lastflag s1 \<noteq> 2" "deltaLen s1 \<le> 8"
    using head_copy_ok [OF assms(1,2)] out_init_ok [OF assms(1,2)]
    by (auto simp: s1_def b_def out_init_def)
  have "script_ok base new (length new - e) s2"
  proof (cases "length new - b - e > 0")
    case True
    have "script_ok base new (b + (length new - b - e)) (emit_literal new b (length new - b - e) s1)"
      using s1 be by (intro emit_literal_new) simp_all
    with True be show ?thesis by (simp add: s2_def)
  next
    case False
    with be have "length new - e = b" by simp
    with s1 False show ?thesis by (simp add: s2_def)
  qed
  moreover have "deltaLen s2 \<le> length new - e + 12"
    using s1 be by (auto simp: s2_def emit_literal_def append_bytes_def Let_def)
  ultimately have "delta_for base new (if e > 0 then emit_copy (length base - e) e s2 else s2)"
    unfolding e_def b_def by (rule tail_copy_ok)
  moreover have "encode_short new base b e (out_init buf) = (if e > 0 then emit_copy (length base - e) e s2 else s2)"
    unfolding encode_short_def Let_def s1_def [symmetric] s2_def [symmetric] ..
  ultimately show ?thesis by simp
qed

lemma enc_init_inv:
  fixes new base :: bytes
  assumes "length new < 2 ^ 31" "length base < 2 ^ 31" "ht_inv t" "ht_items t = {}"
  defines "b \<equiv> head_size new base"
  defines "e \<equiv> tail_size new base b"
  assumes "b + e \<le> length base"
  shows "enc_inv base new e (enc_init buf b t)"
proof -
  have be: "b + e \<le> length new" and "0 < b \<Longrightarrow> 16 < b"
    using tail_size_ok(1) [of new base] head_size_ok(4) [of new base] by (simp_all add: e_def b_def)
  moreover have "script_ok base new b (out (enc_init buf b t))" "lastflag (out (enc_init buf b t)) \<noteq> 2"
    using head_copy_ok [OF assms(1,2)] out_init_ok [OF assms(1,2)]
    by (auto simp: enc_init_def b_def out_init_def)
  moreover have "ht.all_items (rec_ok (length base - e)) t"
    using assms by (simp add: ht.all_items_def)
  ultimately show ?thesis
    using assms(7) be
    by (auto simp: enc_inv_def enc_init_def base_ok_def nearly_tight_def tight_def hdr_def out_init_def
        dest: script_out_ok)
qed

text \<open>
  The main loop starts well when it has something to do only if the pacing test holds at
  its first turn; otherwise it reads variables that were never assigned.
\<close>

definition starts_paced :: "bytes \<Rightarrow> bytes \<Rightarrow> bool" where
  "starts_paced new base \<longleftrightarrow>
    (let b = head_size new base; e = tail_size new base b
     in b + e \<ge> length base \<or> b + e = length new \<or> pacing b (length new) b (length base))"

lemma EDeltaEncode_spec:
  assumes "new \<noteq> []" "length new < 2 ^ 31" "length base < 2 ^ 31" "ht_inv t" "ht_items t = {}"
    "starts_paced new base"
  shows "\<exists>us t'. EDeltaEncode new base buf t = Inr (enc_script us, t') \<and>
    us \<noteq> [] \<and> list_all (unit_ok base) us \<and> run_script base us = new \<and>
    length (enc_script us) \<le> length new + 12 \<and> ht_inv t' \<and> ht_items t' = {}"
proof -
  define b where "b = head_size new base"
  define e where "e = tail_size new base b"
  have be: "b + e \<le> length new" using tail_size_ok(1) [of new base] by (simp add: e_def b_def)
  show ?thesis
  proof (cases "b + e \<ge> length base")
    case True
    have "delta_for base new (encode_short new base b e (out_init buf))"
      unfolding e_def b_def using assms by (intro encode_short_ok)
    from delta_for_script [OF this assms(1)] show ?thesis
      using True assms unfolding EDeltaEncode_def b_def e_def by (auto simp: Let_def)
  next
    case False
    let ?st = "enc_init buf b t"
    have inv: "enc_inv base new e ?st"
      unfolding e_def b_def using assms False by (intro enc_init_inv) (simp_all add: e_def b_def)
    have "\<exists>st'. enc_loop (length new) new base e ?st = Inr st' \<and> enc_inv base new e st' \<and>
        inputPos st' = length new - e"
    proof (cases "b + e = length new")
      case True
      then have "inputPos ?st = length new - e" by (simp add: enc_init_def)
      moreover from this have "enc_loop (length new) new base e ?st = Inr ?st"
        using assms(1) by (cases "length new") simp_all
      ultimately show ?thesis using inv by blast
    next
      case nonempty: False
      have "can_step base new ?st"
        using assms(6) False nonempty
        by (simp add: starts_paced_def can_step_def enc_init_def Let_def b_def e_def)
      with inv show ?thesis by (intro enc_loop_ok) simp_all
    qed
    then obtain st' where st': "enc_loop (length new) new base e ?st = Inr st'" "enc_inv base new e st'"
        "inputPos st' = length new - e" by blast
    have "script_ok base new (length new - e) (back_patch (out st'))"
        "deltaLen (back_patch (out st')) \<le> length new - e + 12"
      using st' back_patch_ok by (auto simp: enc_inv_def nearly_tight_def tight_def hdr_def split: if_splits)
    then have "delta_for base new (enc_finish base e (out st'))"
      unfolding enc_finish_def Let_def e_def b_def by (rule tail_copy_ok)
    moreover have "ht_inv (ResetTable (psHTable (bst st')))" "ht_items (ResetTable (psHTable (bst st'))) = {}"
      using st'(2) by (simp_all add: enc_inv_def base_ok_def ht.all_items_def ResetTable_inv)
    moreover have "EDeltaEncode new base buf t =
        (let s = enc_finish base e (out st')
         in Inr (take (deltaLen s) (deltaBuf s), ResetTable (psHTable (bst st'))))"
      using False st'(1) by (simp add: EDeltaEncode_def Let_def flip: b_def e_def)
    ultimately show ?thesis
      using delta_for_script [of base new "enc_finish base e (out st')"] assms(1)
      by (metis (no_types, lifting))
  qed
qed

lemma EDeltaEncode_unpaced:
  assumes "new \<noteq> []" "\<not> starts_paced new base"
  shows "EDeltaEncode new base buf t = Inl UninitRead"
proof -
  define b where "b = head_size new base"
  define e where "e = tail_size new base b"
  have be: "b + e \<le> length new" using tail_size_ok(1) [of new base] by (simp add: e_def b_def)
  with assms(2) have "\<not> length base \<le> b + e" "b < length new - e"
      "\<not> pacing b (length new) b (length base)"
    by (auto simp: starts_paced_def Let_def b_def e_def)
  then show ?thesis
    using assms(1) by (cases "length new")
      (simp_all add: EDeltaEncode_def enc_step_def enc_init_def Let_def flip: b_def e_def)
qed

end
