(* ===== verification/Pacing.thy ===== *)
theory Pacing
  imports EDeltaCorrect Complex_Main
begin

text \<open>
  The pacing test of the delta encoder compares two single-precision quotients. It is accurate
  to one in \<open>2 ^ 23\<close>, which gives a condition on the sizes alone under which the encoder starts well.
\<close>

section \<open>Accuracy of the pacing test\<close>

lemma flt_shift_ge: "s \<le> flt_shift a b s"
  by (induction a b s rule: flt_shift.induct) (subst flt_shift.simps, auto)

lemma flt_div_accuracy:
  assumes "0 < b" "flt_div a b = (q, s)"
  shows "\<bar>real q / 2 ^ s - real a / real b\<bar> \<le> 1 / 2 ^ 24"
proof -
  have s: "s = flt_shift a b 23" "23 \<le> s"
    using assms(2) flt_shift_ge [of 23 a b] by (auto simp: flt_div_def Let_def)
  let ?n = "a * 2 ^ s" and ?Q = "a * 2 ^ s div b" and ?R = "a * 2 ^ s mod b"
  have "real ?n = real b * real ?Q + real ?R"
    by (metis mult_div_mod_eq of_nat_add of_nat_mult)
  then have e: "real ?n / real b = real ?Q + real ?R / real b"
    using assms(1) by (simp add: field_simps)
  have R: "real ?R < real b" using assms(1) by simp
  have "\<bar>real q - real ?n / real b\<bar> \<le> 1 / 2"
  proof (cases "2 * ?R > b \<or> (2 * ?R = b \<and> odd ?Q)")
    case True
    then have "q = ?Q + 1" using assms(2) s(1) by (simp add: flt_div_def Let_def)
    moreover have "1 / 2 \<le> real ?R / real b" "real ?R / real b \<le> 1"
      using True R assms(1) by (auto simp: field_simps)
    ultimately show ?thesis using e by simp
  next
    case False
    then have "q = ?Q" using assms(2) s(1) by (auto simp: flt_div_def Let_def)
    moreover have "real ?R / real b \<le> 1 / 2"
      using False assms(1) by (auto simp: field_simps)
    ultimately show ?thesis using e by simp
  qed
  moreover have "real q / 2 ^ s - real a / real b = (real q - real ?n / real b) / 2 ^ s"
    by (simp add: diff_divide_distrib)
  moreover have "\<bar>x / 2 ^ s\<bar> = \<bar>x\<bar> / 2 ^ s" for x :: real by (simp add: abs_divide)
  ultimately have "\<bar>real q / 2 ^ s - real a / real b\<bar> \<le> (1 / 2) / 2 ^ s"
    by (simp only: divide_right_mono zero_le_power zero_le_numeral)
  then have "\<bar>real q / 2 ^ s - real a / real b\<bar> \<le> 1 / (2 * 2 ^ s)" by simp
  also have "\<dots> \<le> 1 / (2 * 2 ^ 23)"
    using power_increasing [OF s(2), of "2 :: real"] by (intro divide_left_mono) simp_all
  finally show ?thesis by simp
qed

lemma pacing_iff_quotients:
  assumes "flt_div ci n = (q1, s1)" "flt_div cb m = (q2, s2)"
  shows "pacing ci n cb m \<longleftrightarrow> real q2 / 2 ^ s2 \<le> real q1 / 2 ^ s1 + 1 / 2"
proof -
  have "pacing ci n cb m \<longleftrightarrow> real (2 * q2 * 2 ^ s1) \<le> real (2 * q1 * 2 ^ s2 + 2 ^ s1 * 2 ^ s2)"
    using assms unfolding pacing_def of_nat_le_iff by simp
  also have "\<dots> \<longleftrightarrow> real q2 / 2 ^ s2 \<le> real q1 / 2 ^ s1 + 1 / 2"
    by (simp add: field_simps)
  finally show ?thesis .
qed

lemma pacing_close:
  assumes "0 < n" "0 < m" "real cb / real m + 1 / 2 ^ 23 \<le> real ci / real n + 1 / 2"
  shows "pacing ci n cb m"
proof -
  obtain q1 s1 where 1: "flt_div ci n = (q1, s1)" by (cases "flt_div ci n")
  obtain q2 s2 where 2: "flt_div cb m = (q2, s2)" by (cases "flt_div cb m")
  define d :: real where "d = 1 / 2 ^ 24"
  have "1 / 2 ^ 23 = 2 * d" by (simp add: d_def)
  moreover have "\<bar>real q1 / 2 ^ s1 - real ci / real n\<bar> \<le> d" "\<bar>real q2 / 2 ^ s2 - real cb / real m\<bar> \<le> d"
    unfolding d_def using flt_div_accuracy [OF assms(1) 1] flt_div_accuracy [OF assms(2) 2] .
  ultimately show ?thesis
    using assms(3) unfolding pacing_iff_quotients [OF 1 2] abs_le_iff by linarith
qed

lemma paced_sizes:
  assumes "length new < 2 * length base" "length new \<le> 2 ^ 22"
  shows "starts_paced new base"
proof (cases "head_size new base = 0 \<or> new = []")
  case True
  have "pacing 0 n 0 m" for n m by (auto simp: pacing_def flt_div_def Let_def)
  with True head_size_ok(1) [of new base] show ?thesis by (auto simp: starts_paced_def Let_def)
next
  case False
  let ?b = "real (head_size new base)" and ?n = "real (length new)" and ?m = "real (length base)"
  have n: "0 < ?n" "0 < ?m" "?b \<le> ?m" "0 < ?b" "?b \<le> ?n"
    using False head_size_ok(1,2) [of new base] by auto
  have gap: "?n + 1 \<le> 2 * ?m" using assms(1) by linarith
  have "?b / ?m - ?b / ?n \<le> 1 / 2 - 1 / (2 * ?n)"
  proof (cases "?n \<le> ?m")
    case True
    then have "?b / ?m \<le> ?b / ?n" using n by (intro divide_left_mono) simp_all
    moreover have "1 / (2 * ?n) \<le> 1 / 2" using n False by (simp add: field_simps Suc_le_eq)
    ultimately show ?thesis by simp
  next
    case False
    have "?b / ?m - ?b / ?n = ?b / ?m * (1 - ?m / ?n)" using n by (simp add: field_simps)
    also have "\<dots> \<le> 1 * (1 - ?m / ?n)"
      using n False by (intro mult_right_mono) (simp_all add: field_simps)
    also have "\<dots> \<le> 1 / 2 - 1 / (2 * ?n)"
    proof -
      have "(?n + 1) / (2 * ?n) \<le> (2 * ?m) / (2 * ?n)" using gap n by (intro divide_right_mono) simp_all
      then show ?thesis using n by (simp add: add_divide_distrib)
    qed
    finally show ?thesis .
  qed
  moreover have "1 / 2 ^ 23 \<le> 1 / (2 * ?n)"
  proof -
    have "?n \<le> real (2 ^ 22)" using assms(2) by (simp only: of_nat_le_iff)
    then have "2 * ?n \<le> 2 ^ 23" by simp
    with n show ?thesis by (intro divide_left_mono) simp_all
  qed
  ultimately have "?b / ?m + 1 / 2 ^ 23 \<le> ?b / ?n + 1 / 2" by linarith
  then have "pacing (head_size new base) (length new) (head_size new base) (length base)"
    using n by (intro pacing_close) simp_all
  then show ?thesis by (simp add: starts_paced_def Let_def)
qed

end
