(* ===== verification/EDeltaProps.thy ===== *)
theory EDeltaProps
  imports Pacing
begin

text \<open>
  What the codec promises its callers: a delta decodes to the chunk it was made from, it is
  barely larger than that chunk, and the hash table is handed back empty; and exactly when
  the encoder reads variables it never assigned.
\<close>

section \<open>Properties\<close>

text \<open>
  C7: encoding a chunk against a base and decoding the delta with the same base gives the
  chunk back. The encoder returns (the loop ends), whatever the delta buffer held before;
  the delta exceeds the chunk by at most 12 bytes; the hash table is left empty and well
  formed for the next call. The hypotheses: sizes fit the 31-bit length field, the table is
  empty as every call leaves it, and the pacing test holds at the first turn of the loop.
\<close>

theorem EDelta_roundtrip:
  assumes "newBuf \<noteq> []" "length newBuf < 2 ^ 31" "length baseBuf < 2 ^ 31"
    "ht_inv t" "ht_items t = {}" "starts_paced newBuf baseBuf"
  shows "\<exists>d t'. EDeltaEncode newBuf baseBuf buf t = Inr (d, t') \<and>
    EDeltaDecode d (length d) baseBuf = Inr newBuf \<and> length d \<le> length newBuf + 12 \<and>
    ht_inv t' \<and> ht_items t' = {}"
  using EDeltaEncode_spec [OF assms] decode_script by (metis (no_types, lifting))

theorem EDelta_roundtrip_witness:
  "\<exists>d t'. EDeltaEncode [1, 2, 3, 4] [1, 2, 9, 4] [] (ht_init 8) = Inr (d, t') \<and>
    EDeltaDecode d (length d) [1, 2, 9, 4] = Inr [1, 2, 3, 4] \<and> length d \<le> 16 \<and>
    ht_inv t' \<and> ht_items t' = {}"
proof -
  have "starts_paced [1, 2, 3, 4] [1, 2, 9, 4]" by code_simp
  then show ?thesis
    using EDelta_roundtrip [of "[1, 2, 3, 4]" "[1, 2, 9, 4]" "ht_init 8" "[]"] ht_init_inv [of 8] by simp
qed

text \<open>
  C8: for a non-empty chunk the encoder goes wrong in exactly one way: it reads
  \<open>flag_handle_probe\<close> before any assignment, and it does so exactly when the pacing test
  fails at the first turn of a loop that has work to do.
\<close>

theorem EDelta_uninit_iff:
  assumes "newBuf \<noteq> []" "length newBuf < 2 ^ 31" "length baseBuf < 2 ^ 31"
    "ht_inv t" "ht_items t = {}"
  shows "EDeltaEncode newBuf baseBuf buf t = Inl UninitRead \<longleftrightarrow> \<not> starts_paced newBuf baseBuf"
proof (cases "starts_paced newBuf baseBuf")
  case True
  from EDeltaEncode_spec [OF assms True, of buf] True show ?thesis by auto
qed (use EDeltaEncode_unpaced [OF assms(1)] in simp)

theorem EDelta_uninit_iff_witness:
  "EDeltaEncode (replicate 20 1 @ replicate 80 2) (replicate 20 1 @ [3]) [] (ht_init 8) = Inl UninitRead"
proof -
  have "\<not> starts_paced (replicate 20 1 @ replicate 80 2) (replicate 20 1 @ [3])" by code_simp
  then show ?thesis
    using EDelta_uninit_iff [of "replicate 20 1 @ replicate 80 2" "replicate 20 1 @ [3]" "ht_init 8" "[]"]
      ht_init_inv [of 8] by simp
qed

text \<open>
  C9: a chunk shorter than twice its base (and of at most 4 MiB) is always encoded: the
  uninitialised read needs a chunk at least twice as long as its base.
\<close>

theorem EDelta_safe_sizes:
  assumes "newBuf \<noteq> []" "length newBuf < 2 * length baseBuf" "length newBuf \<le> 2 ^ 22"
    "length baseBuf < 2 ^ 31" "ht_inv t" "ht_items t = {}"
  shows "\<exists>r. EDeltaEncode newBuf baseBuf buf t = Inr r"
  using EDeltaEncode_spec [of newBuf baseBuf t buf] paced_sizes [of newBuf baseBuf] assms by fastforce

theorem EDelta_safe_sizes_witness:
  "\<exists>r. EDeltaEncode [1, 2, 3, 4, 5] [7, 8, 9] [0] (ht_init 8) = Inr r"
  using EDelta_safe_sizes [of "[1, 2, 3, 4, 5]" "[7, 8, 9]" "ht_init 8" "[0]"] ht_init_inv [of 8] by simp

text \<open>
  C10: the head and the tail that the encoder detects eight bytes at a time are the longest
  common prefix and the longest common suffix of the two buffers.
\<close>

theorem EDelta_head_tail:
  "match_fwd baseBuf 0 (length baseBuf) newBuf 0 (length newBuf) = common_len baseBuf newBuf \<and>
   match_bwd baseBuf newBuf = common_len (rev baseBuf) (rev newBuf)"
  by (simp add: match_fwd_eq match_bwd_eq)

text \<open>
  C11: the decoder implements the delta format: on the bytes of any non-empty script of
  copies inside the base and literals it returns the concatenation of what they denote.
\<close>

theorem EDeltaDecode_script:
  assumes "us \<noteq> []" "list_all (unit_ok baseBuf) us"
  shows "EDeltaDecode (enc_script us) (length (enc_script us)) baseBuf = Inr (run_script baseBuf us)"
  using assms by (rule decode_script)

theorem EDeltaDecode_script_witness:
  "EDeltaDecode (enc_script [Copy 1 2, Lit [7], Copy 0 3]) (length (enc_script [Copy 1 2, Lit [7], Copy 0 3]))
     [10, 11, 12] = Inr [11, 12, 7, 10, 11, 12]"
  using EDeltaDecode_script [of "[Copy 1 2, Lit [7], Copy 0 3]" "[10, 11, 12]"] by (simp add: seg_def)

text \<open>
  C12: the hash table finds what was inserted: after any insertion, including one that makes
  the table grow and rehash, every stored key is found, nothing else is, and the
  well-formedness of the table is kept.
\<close>

theorem ht_insert_lookup:
  assumes "ht_inv t"
  shows "ht_inv (ht_insert t r) \<and>
    (ht_lookup (ht_insert t r) k = None \<longleftrightarrow> nHash r \<noteq> k \<and> ht_lookup t k = None)"
  using assms by (simp add: ht.inv_ins ht.lookup_complete ht.items_ins)

theorem ht_insert_lookup_witness:
  "ht_lookup (ht_insert (ht_init 8) \<lparr>nHash = 5, nOffset = 0, nLength = 1, DupFlag = 0\<rparr>) 5 \<noteq> None"
  using ht_insert_lookup [of "ht_init 8" "\<lparr>nHash = 5, nOffset = 0, nLength = 1, DupFlag = 0\<rparr>" 5]
    ht_init_inv [of 8] by simp

text \<open>
  C13: the sub-chunks of the base that \<open>Chunking_v3\<close> records lie inside the stretch it is
  given, and it consumes no more than that stretch; a sub-chunk of the input is non-empty,
  never longer than what is left, and only the last one is shorter than \<open>STRMIN + 1\<close>.
\<close>

theorem chunking_bounds:
  "(\<forall>r \<in> set (fst (Chunking_v3 data len num)). nOffset r + nLength r \<le> snd (Chunking_v3 data len num)) \<and>
   snd (Chunking_v3 data len num) \<le> len \<and> chunk_gear p n \<le> n \<and> (0 < n \<longrightarrow> 0 < chunk_gear p n) \<and>
   (chunk_gear p n \<noteq> n \<longrightarrow> STRMIN < chunk_gear p n \<and> chunk_gear p n \<le> STRMAX + 1)"
  using Chunking_v3_records Chunking_v3_bytes chunk_gear_le chunk_gear_pos chunk_gear_min [of n p]
  by (cases "STRMAX < n") (auto simp: chunk_gear_def [of p n])

theorem chunking_bounds_witness:
  "nOffset (hd (fst (Chunking_v3 [1, 2, 3] 3 1))) + nLength (hd (fst (Chunking_v3 [1, 2, 3] 3 1)))
     \<le> snd (Chunking_v3 [1, 2, 3] 3 1) \<and> 0 < chunk_gear [1, 2, 3] 3"
proof -
  have "hd (fst (Chunking_v3 [1, 2, 3] 3 1)) \<in> set (fst (Chunking_v3 [1, 2, 3] 3 1))"
    using length_Chunking_v3 [of "[1, 2, 3]" 3 1] by (intro hd_in_set) auto
  with chunking_bounds [of "[1, 2, 3]" 3 1 "[1, 2, 3]" 3] show ?thesis by auto
qed

end
