(* ===== verification/Structures.thy ===== *)
theory Structures
  imports Prelude
begin

text \<open>
  The data the components exchange (\<open>include/constVar.h\<close>, \<open>include/chunkStructure.h\<close>) and
  the small helpers of \<open>include/define.h\<close>: sizes, enumerations, the address of a chunk and
  its 144-byte image, container identifiers. The lemmas show that an address survives
  being copied into and out of an index value, and that container identifiers are distinct
  for the first \<open>36\<^sup>7\<close> containers.
\<close>

section \<open>Constants\<close>

definition CHUNK_HASH_SIZE :: nat where "CHUNK_HASH_SIZE = 32"
definition CRYPTO_BLOCK_SIZE :: nat where "CRYPTO_BLOCK_SIZE = 16"
definition MIN_CHUNK_SIZE :: nat where "MIN_CHUNK_SIZE = 4096"
definition AVG_CHUNK_SIZE :: nat where "AVG_CHUNK_SIZE = 8192"
definition MAX_CHUNK_SIZE :: nat where "MAX_CHUNK_SIZE = 16384"
definition AVG_SEGMENT_SIZE :: nat where "AVG_SEGMENT_SIZE = 1024 * 1024 * 10"
definition MIN_SEGMENT_SIZE :: nat where "MIN_SEGMENT_SIZE = AVG_SEGMENT_SIZE div 2"
definition MAX_SEGMENT_SIZE :: nat where "MAX_SEGMENT_SIZE = AVG_SEGMENT_SIZE * 2"
definition DIVISOR :: nat where
  "DIVISOR = (AVG_SEGMENT_SIZE - MIN_SEGMENT_SIZE) div AVG_CHUNK_SIZE"
definition PATTERN :: nat where "PATTERN = 1"
definition MAX_CONTAINER_SIZE :: nat where "MAX_CONTAINER_SIZE = 2 ^ 22"
definition CONTAINER_ID_LENGTH :: nat where "CONTAINER_ID_LENGTH = 7"
definition CONTAINER_CAPPING_VALUE :: nat where "CONTAINER_CAPPING_VALUE = 16"

text \<open>The largest value of an \<open>int\<close>.\<close>

definition INT_MAX :: nat where "INT_MAX = 2 ^ 31 - 1"

lemmas size_consts = CHUNK_HASH_SIZE_def CRYPTO_BLOCK_SIZE_def MIN_CHUNK_SIZE_def
  AVG_CHUNK_SIZE_def MAX_CHUNK_SIZE_def MAX_CONTAINER_SIZE_def CONTAINER_ID_LENGTH_def
  CONTAINER_CAPPING_VALUE_def INT_MAX_def

lemmas segment_consts = AVG_SEGMENT_SIZE_def MIN_SEGMENT_SIZE_def MAX_SEGMENT_SIZE_def
  DIVISOR_def PATTERN_def

section \<open>Enumerations\<close>

datatype TWO_PATH_STATUS = UNIQUE | TMP_UNIQUE | DUPLICATE | TMP_DUPLICATE

datatype DELTA_STATUS = NO_DELTA | DELTA | DELAY_DELTA | OUT_DELTA

datatype INDEX_TYPE_SET = SECURE_MEGA | DEBE | FORWORD | ONLY_FORWORD | FREQ_INDEX

datatype DATA_TYPE_SET = DATA_CHUNK | RECIPE_END | DATA_SEGMENT_END_FLAG

datatype OPT_TYPE = UPLOAD_OPT | DOWNLOAD_OPT | RA_OPT | OFFLINE_OPT

text \<open>The numbers the enumerations have on the wire and in the records.\<close>

fun delta_code :: "DELTA_STATUS \<Rightarrow> byte" where
  "delta_code NO_DELTA = 0" | "delta_code DELTA = 1" | "delta_code DELAY_DELTA = 2" | "delta_code OUT_DELTA = 3"

fun two_path_code :: "TWO_PATH_STATUS \<Rightarrow> byte" where
  "two_path_code UNIQUE = 0" | "two_path_code TMP_UNIQUE = 1" | "two_path_code DUPLICATE = 2"
| "two_path_code TMP_DUPLICATE = 3"

lemma delta_code_inj: "delta_code a = delta_code b \<longleftrightarrow> a = b"
  by (cases a; cases b) auto

section \<open>Chunk addresses\<close>

text \<open>A fingerprint (\<open>string\<close> of \<open>CHUNK_HASH_SIZE\<close> bytes) and a container name.\<close>

type_synonym fp = bytes
type_synonym container_name = bytes

record RecipeEntry =
  containerName :: container_name
  deltaFlag :: byte
  addr_offset :: u32
  addr_length :: u32
  basechunkHash :: fp
  superfeature :: bytes

definition entry_wf :: "RecipeEntry \<Rightarrow> bool" where
  "entry_wf e \<longleftrightarrow> length (containerName e) = CONTAINER_ID_LENGTH \<and>
     length (basechunkHash e) = CHUNK_HASH_SIZE \<and> length (superfeature e) = 3 * CHUNK_HASH_SIZE"

text \<open>
  The memory image of a \<open>RecipeEntry_t\<close>: 7 + 1 bytes, two 4-byte integers, 32 and 96 bytes,
  with no padding, 144 bytes in all. Index values are copies of it.
\<close>

definition RECIPE_ENTRY_SIZE :: nat where "RECIPE_ENTRY_SIZE = 144"

definition entry_image :: "RecipeEntry \<Rightarrow> bytes" where
  "entry_image e = containerName e @ [deltaFlag e] @ le32 (addr_offset e) @ le32 (addr_length e) @
     basechunkHash e @ superfeature e"

definition entry_of :: "bytes \<Rightarrow> RecipeEntry" where
  "entry_of b =
    \<lparr>containerName = seg 0 7 b, deltaFlag = b ! 7, addr_offset = rd32 (drop 8 b), addr_length = rd32 (drop 12 b),
     basechunkHash = seg 16 32 b, superfeature = seg 48 96 b\<rparr>"

lemma length_entry_image [simp]: "entry_wf e \<Longrightarrow> length (entry_image e) = RECIPE_ENTRY_SIZE"
  by (simp add: entry_wf_def entry_image_def RECIPE_ENTRY_SIZE_def size_consts)

lemma entry_of_image:
  assumes "entry_wf e"
  shows "entry_of (entry_image e @ rest) = e"
proof -
  have l: "length (containerName e) = 7" "length (basechunkHash e) = 32" "length (superfeature e) = 96"
    using assms by (simp_all add: entry_wf_def size_consts)
  let ?b = "entry_image e @ rest"
  have "drop 7 ?b = deltaFlag e # le32 (addr_offset e) @ le32 (addr_length e) @ basechunkHash e @ superfeature e @ rest"
    using l by (simp add: entry_image_def)
  then have flag: "?b ! 7 = deltaFlag e" by (metis nth_via_drop)
  have d8: "drop 8 ?b = le32 (addr_offset e) @ le32 (addr_length e) @ basechunkHash e @ superfeature e @ rest"
    using l by (simp add: entry_image_def)
  have d12: "drop 12 ?b = le32 (addr_length e) @ basechunkHash e @ superfeature e @ rest"
    using l by (simp add: entry_image_def)
  have d16: "drop 16 ?b = basechunkHash e @ superfeature e @ rest"
    using l by (simp add: entry_image_def)
  have d48: "drop 48 ?b = superfeature e @ rest"
    using l by (simp add: entry_image_def)
  have name: "seg 0 7 ?b = containerName e" using l by (simp add: entry_image_def seg_def)
  have "seg 16 32 ?b = basechunkHash e" "seg 48 96 ?b = superfeature e"
    unfolding seg_def d16 d48 using l by simp_all
  then show ?thesis unfolding entry_of_def d8 d12 flag name by simp
qed

lemma entry_of_wf: "RECIPE_ENTRY_SIZE \<le> length b \<Longrightarrow> entry_wf (entry_of b)"
  by (auto simp: entry_wf_def entry_of_def RECIPE_ENTRY_SIZE_def size_consts)

lemma entry_image_inj:
  "entry_wf a \<Longrightarrow> entry_wf b \<Longrightarrow> entry_image a = entry_image b \<Longrightarrow> a = b"
  using entry_of_image [of a "[]"] entry_of_image [of b "[]"] by simp

section \<open>Helpers\<close>

definition CompareLimit :: "u32 \<Rightarrow> u32 \<Rightarrow> u32 \<Rightarrow> u32" where
  "CompareLimit input lower upper =
    (if input \<le> lower then lower else if input \<ge> upper then upper else input)"

definition DivCeil :: "u32 \<Rightarrow> u32 \<Rightarrow> u32" where
  "DivCeil a b = (let tmp = a div b in if a mod b = 0 then tmp else tmp + 1)"

lemma CompareLimit_bounds:
  "lower \<le> upper \<Longrightarrow> lower \<le> CompareLimit input lower upper \<and> CompareLimit input lower upper \<le> upper"
  by (auto simp: CompareLimit_def)

section \<open>Container identifiers\<close>

definition ALPHABET :: string where "ALPHABET = ''0123456789abcdefghijklmnopqrstuvwxyz''"

text \<open>
  \<open>container_id_num\<close>, least significant digit first. The carry loop runs over ascending
  positions; a carry out of the last one would write behind the array (\<open>None\<close>).
\<close>

fun uuid_carry :: "nat list \<Rightarrow> nat list option" where
  "uuid_carry [] = Some []"
| "uuid_carry [d] = (if d = 36 then None else Some [d])"
| "uuid_carry (d # e # ds) =
    (if d = 36 then map_option (Cons 0) (uuid_carry (Suc e # ds))
     else map_option (Cons d) (uuid_carry (e # ds)))"

fun uuid_tick :: "nat list \<Rightarrow> nat list option" where
  "uuid_tick [] = None"
| "uuid_tick (d # ds) = (if Suc d = 36 then uuid_carry (Suc d # ds) else Some (Suc d # ds))"

fun uuid_ticks :: "nat \<Rightarrow> nat list \<Rightarrow> nat list option" where
  "uuid_ticks 0 ds = Some ds"
| "uuid_ticks (Suc n) ds = Option.bind (uuid_ticks n ds) uuid_tick"

text \<open>The count is an \<open>int\<close>: the loop runs as far as its signed value.\<close>

type_synonym c_int = "32 word"

definition CreateUUID :: "nat \<Rightarrow> c_int \<Rightarrow> string option" where
  "CreateUUID idLen count =
    map_option (\<lambda>ds. map (\<lambda>d. ALPHABET ! d) (rev ds)) (uuid_ticks (nat (sint count)) (replicate idLen 0))"

fun digits_val :: "nat list \<Rightarrow> nat" where
  "digits_val [] = 0"
| "digits_val (d # ds) = d + 36 * digits_val ds"

definition digits_ok :: "nat list \<Rightarrow> bool" where
  "digits_ok ds \<longleftrightarrow> (\<forall>d \<in> set ds. d < 36)"

lemma digits_val_bound: "digits_ok ds \<Longrightarrow> digits_val ds < 36 ^ length ds"
  by (induction ds) (auto simp: digits_ok_def)

lemma digit_split:
  assumes "x < 36" "y < 36" "x + 36 * a = y + 36 * (b :: nat)"
  shows "x = y \<and> a = b"
proof -
  have "x = (x + 36 * a) mod 36" using assms(1) by simp
  also have "\<dots> = y" unfolding assms(3) using assms(2) by simp
  finally show ?thesis using assms(3) by simp
qed

lemma digits_val_inj:
  "digits_ok xs \<Longrightarrow> digits_ok ys \<Longrightarrow> length xs = length ys \<Longrightarrow> digits_val xs = digits_val ys \<Longrightarrow> xs = ys"
proof (induction xs arbitrary: ys)
  case Nil
  then show ?case by simp
next
  case (Cons x xs)
  from Cons.prems obtain y zs where ys: "ys = y # zs" "x < 36" "y < 36" "digits_ok xs" "digits_ok zs"
      "length xs = length zs" "x + 36 * digits_val xs = y + 36 * digits_val zs"
    by (cases ys) (auto simp: digits_ok_def)
  then have "x = y \<and> digits_val xs = digits_val zs" by (intro digit_split)
  with Cons.IH [of zs] ys show ?case by simp
qed

lemma uuid_carry_ok:
  "ds \<noteq> [] \<Longrightarrow> hd ds \<le> 36 \<Longrightarrow> digits_ok (tl ds) \<Longrightarrow> digits_val ds < 36 ^ length ds \<Longrightarrow>
   \<exists>ds'. uuid_carry ds = Some ds' \<and> digits_ok ds' \<and> digits_val ds' = digits_val ds \<and> length ds' = length ds"
proof (induction ds rule: uuid_carry.induct)
  case (3 d e ds)
  show ?case
  proof (cases "d = 36")
    case True
    have "digits_ok ds" "e < 36" using "3.prems" by (auto simp: digits_ok_def)
    moreover have "digits_val (Suc e # ds) < 36 ^ length (Suc e # ds)"
      using True "3.prems"(4) by simp
    ultimately obtain ds' where "uuid_carry (Suc e # ds) = Some ds'" "digits_ok ds'"
        "digits_val ds' = digits_val (Suc e # ds)" "length ds' = length (Suc e # ds)"
      using "3.IH"(1) [OF True] by auto
    with True show ?thesis by (simp add: digits_ok_def)
  next
    case False
    with "3.prems" have "d < 36" "digits_ok (e # ds)" by auto
    moreover from this obtain ds' where "uuid_carry (e # ds) = Some ds'" "digits_ok ds'"
        "digits_val ds' = digits_val (e # ds)" "length ds' = length (e # ds)"
      using "3.IH"(2) [OF False] digits_val_bound [of "e # ds"] by (auto simp: digits_ok_def)
    ultimately show ?thesis using False by (simp add: digits_ok_def)
  qed
qed (auto simp: digits_ok_def)

lemma uuid_tick_ok:
  assumes "digits_ok ds" "Suc (digits_val ds) < 36 ^ length ds"
  shows "\<exists>ds'. uuid_tick ds = Some ds' \<and> digits_ok ds' \<and> digits_val ds' = Suc (digits_val ds) \<and>
    length ds' = length ds"
proof (cases ds)
  case Nil
  with assms show ?thesis by simp
next
  case (Cons d es)
  show ?thesis
  proof (cases "Suc d = 36")
    case True
    with uuid_carry_ok [of "Suc d # es"] assms Cons show ?thesis by (auto simp: digits_ok_def)
  next
    case False
    with assms Cons show ?thesis by (auto simp: digits_ok_def)
  qed
qed

lemma uuid_ticks_ok:
  "n < 36 ^ k \<Longrightarrow> \<exists>ds. uuid_ticks n (replicate k 0) = Some ds \<and> digits_ok ds \<and>
    digits_val ds = n \<and> length ds = k"
proof (induction n)
  case 0
  have "digits_val (replicate k 0) = 0" by (induction k) auto
  then show ?case by (auto simp: digits_ok_def)
next
  case (Suc n)
  then obtain ds where ds: "uuid_ticks n (replicate k 0) = Some ds" "digits_ok ds"
      "digits_val ds = n" "length ds = k" by auto
  with uuid_tick_ok [of ds] Suc.prems show ?case by auto
qed

lemma ALPHABET_inj: "i < 36 \<Longrightarrow> j < 36 \<Longrightarrow> ALPHABET ! i = ALPHABET ! j \<longleftrightarrow> i = j"
proof -
  assume "i < 36" "j < 36"
  moreover have "distinct ALPHABET" "length ALPHABET = 36" by (simp_all add: ALPHABET_def)
  ultimately show ?thesis by (simp add: nth_eq_iff_index_eq)
qed

lemma uuid_ticks_inj:
  assumes "m < 36 ^ k" "n < 36 ^ k"
    "map_option (\<lambda>ds. map (\<lambda>d. ALPHABET ! d) (rev ds)) (uuid_ticks m (replicate k 0)) =
     map_option (\<lambda>ds. map (\<lambda>d. ALPHABET ! d) (rev ds)) (uuid_ticks n (replicate k 0))"
  shows "m = n"
proof -
  obtain ds where ds: "uuid_ticks m (replicate k 0) = Some ds" "digits_ok ds" "digits_val ds = m" "length ds = k"
    using uuid_ticks_ok [OF assms(1)] by blast
  obtain es where es: "uuid_ticks n (replicate k 0) = Some es" "digits_ok es" "digits_val es = n" "length es = k"
    using uuid_ticks_ok [OF assms(2)] by blast
  have "inj_on ((!) ALPHABET) (set ds \<union> set es)"
    using ds(2) es(2) by (intro inj_onI) (auto simp: digits_ok_def ALPHABET_inj)
  then have "map ((!) ALPHABET) ds = map ((!) ALPHABET) es \<longleftrightarrow> ds = es"
    by (rule inj_on_map_eq_map)
  with assms(3) ds es show ?thesis by (simp add: rev_map [symmetric])
qed

lemma int_room: "nat (sint (w :: c_int)) \<le> INT_MAX" "n \<le> INT_MAX \<Longrightarrow> n < 36 ^ CONTAINER_ID_LENGTH"
  using sint_lt [of w] by (simp_all add: INT_MAX_def CONTAINER_ID_LENGTH_def)

lemma sint_count: "n \<le> INT_MAX \<Longrightarrow> nat (sint (word_of_nat n :: c_int)) = n"
  by (simp add: INT_MAX_def signed_of_nat signed_take_bit_int_eq_self)

lemma CreateUUID_ok: "\<exists>s. CreateUUID CONTAINER_ID_LENGTH w = Some s \<and> length s = CONTAINER_ID_LENGTH"
  using uuid_ticks_ok [OF int_room(2) [OF int_room(1) [of w]]] by (auto simp: CreateUUID_def)

lemma CreateUUID_inj:
  assumes "CreateUUID CONTAINER_ID_LENGTH v = CreateUUID CONTAINER_ID_LENGTH w"
  shows "nat (sint v) = nat (sint w)"
  using uuid_ticks_inj [OF int_room(2) [OF int_room(1) [of v]] int_room(2) [OF int_room(1) [of w]]] assms by (simp add: CreateUUID_def)

text \<open>
  C14: \<open>CreateUUID\<close> ends without a carry behind the digits for every \<open>int\<close> and returns a name of seven
  characters; two counts that are not negative get the same name only if they are equal. (A
  negative count gets the name of 0; the counter becomes negative only by overflow, a fault of the
  model.)
\<close>

theorem CreateUUID_distinct:
  "(\<exists>s. CreateUUID CONTAINER_ID_LENGTH v = Some s \<and> length s = CONTAINER_ID_LENGTH) \<and>
   (CreateUUID CONTAINER_ID_LENGTH v = CreateUUID CONTAINER_ID_LENGTH w \<longleftrightarrow> nat (sint v) = nat (sint w))"
proof -
  have "nat (sint v) = nat (sint w) \<Longrightarrow> CreateUUID CONTAINER_ID_LENGTH v = CreateUUID CONTAINER_ID_LENGTH w"
    unfolding CreateUUID_def by (rule arg_cong)
  with CreateUUID_ok [of v] CreateUUID_inj [of v w] show ?thesis by blast
qed

definition sample_entry :: RecipeEntry where
  "sample_entry = \<lparr>containerName = replicate 7 48, deltaFlag = 1, addr_offset = 4096, addr_length = 100,
     basechunkHash = replicate 32 7, superfeature = replicate 96 9\<rparr>"

end
