(* ===== verification/EntryHeap.thy ===== *)
theory EntryHeap
  imports Structures
begin

text \<open>
  The index of frequent chunks (\<open>ecallEntryHeap.cc\<close>, \<open>ecallEntryHeap.h\<close>): a binary min-heap on
  chunk frequencies whose nodes are iterators into a hash map, each map item holding its
  own position in the heap. An iterator is modelled by its key; \<open>SetHeapSize\<close> reserves the
  map so that insertions do not invalidate iterators. Accesses outside the vector, which
  are undefined in C++, are \<open>None\<close>.

  The lemmas show heap order and the positions are kept by every operation and what each
  operation does to the contents; the locale \<open>freq_queue\<close> is what the deduplication
  indexes rely on.
\<close>

record HeapItem =
  address :: RecipeEntry
  chunkFreq :: u32
  hidx :: nat

record EntryHeap =
  h_heap :: "fp list"
  h_index :: "fp \<rightharpoonup> HeapItem"

section \<open>Operations\<close>

definition CompFreq :: "u32 \<Rightarrow> u32 \<Rightarrow> bool" where
  "CompFreq freq1 freq2 \<longleftrightarrow> freq1 < freq2"

definition ParentIdx :: "nat \<Rightarrow> nat" where "ParentIdx i = (i - 1) div 2"
definition ChildIdx :: "nat \<Rightarrow> nat" where "ChildIdx i = i * 2 + 1"

definition freq_at :: "EntryHeap \<Rightarrow> nat \<Rightarrow> u32" where
  "freq_at h i = chunkFreq (the (h_index h (h_heap h ! i)))"

definition set_idx :: "EntryHeap \<Rightarrow> nat \<Rightarrow> nat \<Rightarrow> EntryHeap" where
  "set_idx h i v =
    (let k = h_heap h ! i in h\<lparr>h_index := (h_index h)(k \<mapsto> (the (h_index h k))\<lparr>hidx := v\<rparr>)\<rparr>)"

definition swap_at :: "EntryHeap \<Rightarrow> nat \<Rightarrow> nat \<Rightarrow> EntryHeap" where
  "swap_at h i j = h\<lparr>h_heap := (h_heap h)[i := h_heap h ! j, j := h_heap h ! i]\<rparr>"

lemma length_set_swap [simp]:
  "length (h_heap (set_idx h i v)) = length (h_heap h)" "length (h_heap (swap_at h i j)) = length (h_heap h)"
  by (simp_all add: set_idx_def swap_at_def Let_def)

function SwapUp :: "EntryHeap \<Rightarrow> nat \<Rightarrow> EntryHeap \<times> nat" where
  "SwapUp h i =
    (let parent = ParentIdx i in
     if i > 0 \<and> CompFreq (freq_at h i) (freq_at h parent)
     then SwapUp (set_idx (swap_at h i parent) i i) parent
     else (h, i))"
  by pat_completeness auto
termination
  by (relation "measure snd") (auto simp: ParentIdx_def)

function SwapDown :: "EntryHeap \<Rightarrow> nat \<Rightarrow> EntryHeap \<times> nat" where
  "SwapDown h i =
    (let child = ChildIdx i in
     if child < length (h_heap h) then
       let child' = (if child + 1 < length (h_heap h) \<and> CompFreq (freq_at h (child + 1)) (freq_at h child)
                     then child + 1 else child)
       in if \<not> CompFreq (freq_at h child') (freq_at h i) then (h, i)
          else SwapDown (set_idx (swap_at h child' i) i i) child'
     else (h, i))"
  by pat_completeness auto
termination
  by (relation "measure (\<lambda>(h, i). length (h_heap h) - i)") (auto simp: ChildIdx_def)

declare SwapUp.simps [simp del] SwapDown.simps [simp del]

definition TopEntry :: "EntryHeap \<Rightarrow> u32 option" where
  "TopEntry h = (if h_heap h = [] then None else Some (freq_at h 0))"

definition Size :: "EntryHeap \<Rightarrow> nat" where "Size h = length (h_heap h)"

definition Pop :: "EntryHeap \<Rightarrow> EntryHeap option" where
  "Pop h =
    (if h_heap h = [] then None
     else
       let t = h_heap h ! 0;
           h1 = h\<lparr>h_heap := butlast ((h_heap h)[0 := last (h_heap h)]), h_index := (h_index h)(t := None)\<rparr>;
           (h2, i) = SwapDown h1 0
       in if i < length (h_heap h2) then Some (set_idx h2 i i) else None)"

definition heap_insert :: "EntryHeap \<Rightarrow> fp \<Rightarrow> HeapItem \<Rightarrow> EntryHeap" where
  "heap_insert h key v =
    h\<lparr>h_heap := h_heap h @ [key],
      h_index := (if key \<in> dom (h_index h) then h_index h else (h_index h)(key \<mapsto> v))\<rparr>"

definition Add :: "EntryHeap \<Rightarrow> fp \<Rightarrow> HeapItem \<Rightarrow> EntryHeap" where
  "Add h key v =
    (let h1 = heap_insert h key v;
         (h2, i) = SwapUp h1 (length (h_heap h1) - 1)
     in h2\<lparr>h_index := (h_index h2)(key \<mapsto> (the (h_index h2 key))\<lparr>hidx := i\<rparr>)\<rparr>)"

text \<open>\<open>_index[key]\<close> inserts a zero item when the key is missing.\<close>

definition zero_item :: HeapItem where
  "zero_item = \<lparr>address = \<lparr>containerName = replicate 7 0, deltaFlag = 0, addr_offset = 0, addr_length = 0,
      basechunkHash = replicate 32 0, superfeature = replicate 96 0\<rparr>, chunkFreq = 0, hidx = 0\<rparr>"

definition index_get :: "EntryHeap \<Rightarrow> fp \<Rightarrow> EntryHeap" where
  "index_get h key =
    (if key \<in> dom (h_index h) then h else h\<lparr>h_index := (h_index h)(key \<mapsto> zero_item)\<rparr>)"

definition Update :: "EntryHeap \<Rightarrow> fp \<Rightarrow> u32 \<Rightarrow> EntryHeap option" where
  "Update h key freq =
    (let h0 = index_get h key; i = hidx (the (h_index h0 key)) in
     if i < length (h_heap h0) then
       let k = h_heap h0 ! i;
           h1 = h0\<lparr>h_index := (h_index h0)(k \<mapsto> (the (h_index h0 k))\<lparr>chunkFreq := freq\<rparr>)\<rparr>;
           (h2, j) = SwapUp h1 i;
           (h3, m) = SwapDown h2 j
       in Some (h3\<lparr>h_index := (h_index h3)(key \<mapsto> (the (h_index h3 key))\<lparr>hidx := m\<rparr>)\<rparr>)
     else None)"

definition Contains :: "EntryHeap \<Rightarrow> fp \<Rightarrow> bool" where
  "Contains h key \<longleftrightarrow> key \<in> dom (h_index h)"

definition GetPriority :: "EntryHeap \<Rightarrow> fp \<Rightarrow> EntryHeap \<times> HeapItem" where
  "GetPriority h key = (let h' = index_get h key in (h', the (h_index h' key)))"

section \<open>Heap order on positions\<close>

definition edge :: "(nat \<Rightarrow> 'a::linorder) \<Rightarrow> nat \<Rightarrow> bool" where
  "edge f c \<longleftrightarrow> f (ParentIdx c) \<le> f c"

definition heap_ord :: "nat \<Rightarrow> (nat \<Rightarrow> 'a::linorder) \<Rightarrow> bool" where
  "heap_ord n f \<longleftrightarrow> (\<forall>c. 0 < c \<and> c < n \<longrightarrow> edge f c)"

definition kids :: "nat \<Rightarrow> (nat \<Rightarrow> 'a::linorder) \<Rightarrow> nat \<Rightarrow> bool" where
  "kids n f i \<longleftrightarrow> (\<forall>c. 0 < c \<and> c < n \<and> ParentIdx c = i \<longrightarrow> f i \<le> f c)"

text \<open>Order holds except on the edges at \<open>i\<close>, and the edges skipping \<open>i\<close> hold.\<close>

definition almost :: "nat \<Rightarrow> (nat \<Rightarrow> 'a::linorder) \<Rightarrow> nat \<Rightarrow> bool" where
  "almost n f i \<longleftrightarrow>
     (\<forall>c. 0 < c \<and> c < n \<and> c \<noteq> i \<and> ParentIdx c \<noteq> i \<longrightarrow> edge f c) \<and>
     (0 < i \<longrightarrow> (\<forall>c. 0 < c \<and> c < n \<and> ParentIdx c = i \<longrightarrow> f (ParentIdx i) \<le> f c))"

lemma ParentIdx_less: "0 < c \<Longrightarrow> ParentIdx c < c"
  by (auto simp: ParentIdx_def)

lemma ParentIdx_iff: "0 < c \<and> ParentIdx c = i \<longleftrightarrow> c = 2 * i + 1 \<or> c = 2 * i + 2"
  by (auto simp: ParentIdx_def)

lemma almost_up:
  assumes a: "almost n f i" and i: "0 < i" "i < n" and lt: "f i < f (ParentIdx i)"
  defines "p \<equiv> ParentIdx i"
  shows "almost n (f(i := f p, p := f i)) p" "kids n (f(i := f p, p := f i)) p"
proof -
  let ?f = "f(i := f p, p := f i)"
  have p: "p < i" using i by (simp add: p_def ParentIdx_less)
  have sib: "f p \<le> ?f c" if "0 < c" "c < n" "ParentIdx c = p" for c
    using a that p ParentIdx_less [OF that(1)] by (cases "c = i") (auto simp: almost_def edge_def)
  have fp: "?f p \<le> f p" using lt by (simp add: p_def)
  show "kids n ?f p" unfolding kids_def
  proof (intro allI impI, elim conjE)
    fix c
    assume "0 < c" "c < n" "ParentIdx c = p"
    from fp sib [OF this] show "?f p \<le> ?f c" by (rule order_trans)
  qed
  have "edge ?f c" if "0 < c" "c < n" "c \<noteq> p" "ParentIdx c \<noteq> p" for c
  proof -
    have ci: "c \<noteq> i" using that(4) by (auto simp: p_def)
    show ?thesis
    proof (cases "ParentIdx c = i")
      case True
      then have "f p \<le> f c" using a i that by (auto simp: almost_def p_def)
      with True ci that p show ?thesis by (simp add: edge_def)
    next
      case False
      then have "f (ParentIdx c) \<le> f c" using a ci that by (auto simp: almost_def edge_def)
      with False ci that show ?thesis by (simp add: edge_def)
    qed
  qed
  moreover have "?f (ParentIdx p) \<le> ?f c" if "0 < p" "0 < c" "c < n" "ParentIdx c = p" for c
  proof -
    have "f (ParentIdx p) \<le> f p"
      using a p that(1) i ParentIdx_less [OF that(1)] by (auto simp: almost_def edge_def)
    with sib [OF that(2-4)] ParentIdx_less [OF that(1)] p show ?thesis by auto
  qed
  ultimately show "almost n ?f p" by (auto simp: almost_def)
qed

definition down :: "nat \<Rightarrow> (nat \<Rightarrow> 'a::linorder) \<Rightarrow> nat \<Rightarrow> bool" where
  "down n f i \<longleftrightarrow> almost n f i \<and> (0 < i \<and> i < n \<longrightarrow> edge f i)"

lemma down_heap:
  assumes "down n f i" "kids n f i"
  shows "heap_ord n f"
proof -
  have "edge f c" if "0 < c" "c < n" for c
    using assms that by (cases "c = i"; cases "ParentIdx c = i") (auto simp: down_def almost_def kids_def edge_def)
  then show ?thesis by (simp add: heap_ord_def)
qed

lemma down_step:
  assumes d: "down n f i" and c: "0 < c" "c < n" "ParentIdx c = i" and lt: "f c < f i"
    and least: "\<And>d. 0 < d \<Longrightarrow> d < n \<Longrightarrow> ParentIdx d = i \<Longrightarrow> f c \<le> f d"
  shows "down n (f(c := f i, i := f c)) c"
proof -
  let ?f = "f(c := f i, i := f c)"
  have ic: "i < c" using c ParentIdx_less by blast
  have e: "edge ?f x" if "0 < x" "x < n" "ParentIdx x \<noteq> c" for x
  proof (cases "x = c \<or> ParentIdx x = i")
    case True
    then show ?thesis using that c lt least [of x] ic ParentIdx_less [OF that(1)] by (auto simp: edge_def)
  next
    case False
    then show ?thesis
      using d that c ic ParentIdx_less [OF that(1)] by (auto simp: down_def almost_def edge_def)
  qed
  have "f c \<le> f x" if "0 < x" "x < n" "ParentIdx x = c" for x
    using d that c ic ParentIdx_less [OF that(1)] by (auto simp: down_def almost_def edge_def)
  then have "?f (ParentIdx c) \<le> ?f x" if "0 < x" "x < n" "ParentIdx x = c" for x
    using that c ic ParentIdx_less [OF that(1)] by auto
  with e c show ?thesis
    using ParentIdx_less [OF c(1)] by (auto simp: down_def almost_def)
qed

lemma heap_ord_min: "heap_ord n f \<Longrightarrow> i < n \<Longrightarrow> f 0 \<le> f i"
proof (induction i rule: less_induct)
  case (less i)
  show ?case
  proof (cases "i = 0")
    case False
    with less have "f 0 \<le> f (ParentIdx i)" using ParentIdx_less [of i] by simp
    with less.prems False show ?thesis by (force simp: heap_ord_def edge_def)
  qed simp
qed

section \<open>Swapping\<close>

lemma freq_at_set_idx [simp]: "freq_at (set_idx h i v) = freq_at h"
  by (auto simp: freq_at_def set_idx_def Let_def fun_eq_iff)

lemma freq_at_swap:
  "i < length (h_heap h) \<Longrightarrow> j < length (h_heap h) \<Longrightarrow>
   freq_at (swap_at h i j) = (freq_at h)(i := freq_at h j, j := freq_at h i)"
  by (auto simp: freq_at_def swap_at_def fun_eq_iff nth_list_update)

text \<open>The abstraction: what is stored under each key, positions left out.\<close>

definition contents :: "EntryHeap \<Rightarrow> fp \<rightharpoonup> RecipeEntry \<times> u32" where
  "contents h = map_option (\<lambda>it. (address it, chunkFreq it)) \<circ> h_index h"

definition keys_ok :: "EntryHeap \<Rightarrow> bool" where
  "keys_ok h \<longleftrightarrow> distinct (h_heap h) \<and> set (h_heap h) = dom (h_index h)"

definition pos_ok :: "EntryHeap \<Rightarrow> nat \<Rightarrow> bool" where
  "pos_ok h i \<longleftrightarrow> (\<forall>j < length (h_heap h). j \<noteq> i \<longrightarrow> hidx (the (h_index h (h_heap h ! j))) = j)"

definition heap_inv :: "EntryHeap \<Rightarrow> bool" where
  "heap_inv h \<longleftrightarrow> keys_ok h \<and> pos_ok h (length (h_heap h)) \<and> heap_ord (length (h_heap h)) (freq_at h)"

text \<open>What a run of swaps that stops at \<open>j\<close> keeps.\<close>

definition sifted :: "EntryHeap \<Rightarrow> EntryHeap \<Rightarrow> nat \<Rightarrow> bool" where
  "sifted h h' j \<longleftrightarrow> length (h_heap h') = length (h_heap h) \<and> keys_ok h' \<and> pos_ok h' j \<and>
     contents h' = contents h \<and> j < length (h_heap h')"

lemma sift_swap:
  assumes k: "keys_ok h" "pos_ok h i" and ij: "i < length (h_heap h)" "j < length (h_heap h)" "i \<noteq> j"
  shows "sifted h (set_idx (swap_at h i j) i i) j \<and>
    h_heap (set_idx (swap_at h i j) i i) ! j = h_heap h ! i"
proof -
  let ?xs = "h_heap h" let ?ys = "?xs[i := ?xs ! j, j := ?xs ! i]"
  have d: "distinct ?ys" "set ?ys = set ?xs"
    using k(1) ij by (simp_all add: keys_ok_def distinct_swap set_swap)
  have ysi: "?ys ! i = ?xs ! j" "?ys ! j = ?xs ! i" using ij by (simp_all add: nth_list_update)
  let ?k = "?xs ! j"
  have kin: "?k \<in> dom (h_index h)" using k(1) ij nth_mem [of j ?xs] by (simp add: keys_ok_def)
  have h': "set_idx (swap_at h i j) i i =
      h\<lparr>h_heap := ?ys, h_index := (h_index h)(?k \<mapsto> (the (h_index h ?k))\<lparr>hidx := i\<rparr>)\<rparr>"
    using ysi by (simp add: set_idx_def swap_at_def Let_def)
  have "hidx (the (((h_index h)(?k \<mapsto> (the (h_index h ?k))\<lparr>hidx := i\<rparr>)) (?ys ! m))) = m"
    if "m < length ?xs" "m \<noteq> j" for m
  proof (cases "m = i")
    case False
    then have "?ys ! m = ?xs ! m" "?xs ! m \<noteq> ?k"
      using that ij k(1) by (simp_all add: keys_ok_def nth_eq_iff_index_eq)
    then show ?thesis using k(2) that False by (simp add: pos_ok_def)
  qed (simp add: ysi)
  moreover have "contents (set_idx (swap_at h i j) i i) = contents h"
    using kin by (auto simp: contents_def h' fun_eq_iff)
  ultimately show ?thesis
    using d k(1) ij kin ysi by (auto simp: sifted_def keys_ok_def pos_ok_def h' insert_absorb)
qed

lemma sifted_trans: "sifted h h' i \<Longrightarrow> sifted h' h'' j \<Longrightarrow> sifted h h'' j"
  by (simp add: sifted_def)

lemma sifted_refl: "keys_ok h \<Longrightarrow> pos_ok h i \<Longrightarrow> i < length (h_heap h) \<Longrightarrow> sifted h h i"
  by (simp add: sifted_def)

lemma SwapUp_ok:
  assumes "keys_ok h" "pos_ok h i" "i < length (h_heap h)" "almost (length (h_heap h)) (freq_at h) i"
  shows "case SwapUp h i of (h', j) \<Rightarrow> sifted h h' j \<and> h_heap h' ! j = h_heap h ! i \<and>
    down (length (h_heap h)) (freq_at h') j \<and>
    (kids (length (h_heap h)) (freq_at h) i \<longrightarrow> kids (length (h_heap h)) (freq_at h') j)"
  using assms
proof (induction h i rule: SwapUp.induct)
  case (1 h i)
  let ?p = "ParentIdx i" and ?n = "length (h_heap h)"
  show ?case
  proof (cases "i > 0 \<and> CompFreq (freq_at h i) (freq_at h ?p)")
    case True
    let ?h = "set_idx (swap_at h i ?p) i i"
    have p: "?p < i" "?p < ?n" using True "1.prems"(3) ParentIdx_less [of i] by auto
    have s: "sifted h ?h ?p" "h_heap ?h ! ?p = h_heap h ! i"
      using sift_swap [of h i ?p] "1.prems" p by auto
    have f: "freq_at ?h = (freq_at h)(i := freq_at h ?p, ?p := freq_at h i)"
      using "1.prems"(3) p by (simp add: freq_at_swap)
    have "almost ?n (freq_at ?h) ?p" "kids ?n (freq_at ?h) ?p"
      unfolding f using True "1.prems" by (auto intro!: almost_up simp: CompFreq_def)
    with "1.IH" [OF refl True] s p have "case SwapUp ?h ?p of (h', j) \<Rightarrow> sifted ?h h' j \<and>
        h_heap h' ! j = h_heap ?h ! ?p \<and> down ?n (freq_at h') j \<and> kids ?n (freq_at h') j"
      by (auto simp: sifted_def split: prod.splits)
    with s True show ?thesis
      by (subst SwapUp.simps) (auto simp: Let_def split: prod.splits intro: sifted_trans)
  next
    case False
    then have "SwapUp h i = (h, i)" by (subst SwapUp.simps) (auto simp: Let_def)
    moreover have "down ?n (freq_at h) i"
      using False "1.prems"(4) by (auto simp: down_def edge_def CompFreq_def)
    ultimately show ?thesis using "1.prems" by (simp add: sifted_refl)
  qed
qed

lemma SwapDown_ok:
  assumes "keys_ok h" "pos_ok h i" "i < length (h_heap h)" "down (length (h_heap h)) (freq_at h) i"
  shows "case SwapDown h i of (h', j) \<Rightarrow> sifted h h' j \<and> h_heap h' ! j = h_heap h ! i \<and>
    heap_ord (length (h_heap h)) (freq_at h')"
  using assms
proof (induction h i rule: SwapDown.induct)
  case (1 h i)
  let ?n = "length (h_heap h)" and ?c = "ChildIdx i"
  define c where "c = (if ?c + 1 < ?n \<and> CompFreq (freq_at h (?c + 1)) (freq_at h ?c) then ?c + 1 else ?c)"
  have c: "0 < c" "ParentIdx c = i" by (auto simp: c_def ParentIdx_def ChildIdx_def)
  have least: "freq_at h c \<le> freq_at h d" if "0 < d" "d < ?n" "ParentIdx d = i" for d
  proof -
    have "d = ?c \<or> d = ?c + 1" using that ParentIdx_iff [of d i] by (auto simp: ChildIdx_def)
    then show ?thesis using that(2) by (auto simp: c_def CompFreq_def)
  qed
  show ?case
  proof (cases "?c < ?n \<and> CompFreq (freq_at h c) (freq_at h i)")
    case True
    then have cn: "c < ?n" by (auto simp: c_def)
    let ?h = "set_idx (swap_at h c i) i i"
    have ci: "i < c" using c ParentIdx_less by blast
    have "swap_at h c i = swap_at h i c" using ci by (simp add: swap_at_def list_update_swap)
    then have s: "sifted h ?h c" "h_heap ?h ! c = h_heap h ! i"
      using sift_swap [of h i c] "1.prems" ci cn by auto
    have f: "freq_at ?h = (freq_at h)(c := freq_at h i, i := freq_at h c)"
      using "1.prems"(3) cn by (simp add: freq_at_swap)
    have "down ?n (freq_at ?h) c"
      unfolding f using True "1.prems" cn c least by (intro down_step) (auto simp: CompFreq_def)
    with "1.IH" [OF refl] True s cn have "case SwapDown ?h c of (h', j) \<Rightarrow> sifted ?h h' j \<and>
        h_heap h' ! j = h_heap ?h ! c \<and> heap_ord ?n (freq_at h')"
      unfolding c_def [symmetric] by (auto simp: sifted_def split: prod.splits)
    moreover have "SwapDown h i = SwapDown ?h c"
      using True unfolding SwapDown.simps [of h i] Let_def c_def [symmetric] by simp
    ultimately show ?thesis using s by (auto split: prod.splits intro: sifted_trans)
  next
    case False
    then have "SwapDown h i = (h, i)"
      unfolding SwapDown.simps [of h i] Let_def c_def [symmetric] by auto
    moreover have "kids ?n (freq_at h) i"
    proof -
      have "freq_at h i \<le> freq_at h d" if "0 < d" "d < ?n" "ParentIdx d = i" for d
      proof -
        have "?c < ?n" using that ParentIdx_iff [of d i] by (auto simp: ChildIdx_def)
        with False least [OF that] show ?thesis by (auto simp: CompFreq_def)
      qed
      then show ?thesis by (simp add: kids_def)
    qed
    ultimately show ?thesis using "1.prems" by (simp add: sifted_refl down_heap)
  qed
qed

section \<open>What the operations do\<close>

text \<open>Writing the position of the sifted element completes the invariant.\<close>

lemma settle:
  assumes s: "sifted h h' j" and o: "heap_ord (length (h_heap h)) (freq_at h')" and k: "h_heap h' ! j = key"
  shows "heap_inv (h'\<lparr>h_index := (h_index h')(key \<mapsto> (the (h_index h' key))\<lparr>hidx := j\<rparr>)\<rparr>)"
    "contents (h'\<lparr>h_index := (h_index h')(key \<mapsto> (the (h_index h' key))\<lparr>hidx := j\<rparr>)\<rparr>) = contents h"
proof -
  let ?h = "h'\<lparr>h_index := (h_index h')(key \<mapsto> (the (h_index h' key))\<lparr>hidx := j\<rparr>)\<rparr>"
  have kin: "key \<in> dom (h_index h')"
    using s k nth_mem [of j "h_heap h'"] by (auto simp: sifted_def keys_ok_def)
  have f: "freq_at ?h = freq_at h'" by (auto simp: freq_at_def fun_eq_iff)
  have "hidx (the (h_index ?h (h_heap h' ! m))) = m" if "m < length (h_heap h')" for m
    using s k that by (cases "m = j") (auto simp: sifted_def keys_ok_def pos_ok_def nth_eq_iff_index_eq)
  moreover have "keys_ok ?h" using s kin by (auto simp: sifted_def keys_ok_def)
  ultimately show "heap_inv ?h" using s o f by (auto simp: heap_inv_def pos_ok_def sifted_def)
  have "contents ?h = contents h'" using kin by (auto simp: contents_def fun_eq_iff)
  then show "contents ?h = contents h" using s by (simp add: sifted_def)
qed

lemma Add_ok:
  assumes h: "heap_inv h" and new: "key \<notin> dom (h_index h)"
  shows "heap_inv (Add h key v)" "contents (Add h key v) = (contents h)(key \<mapsto> (address v, chunkFreq v))"
    "length (h_heap (Add h key v)) = Suc (length (h_heap h))"
proof -
  let ?n = "length (h_heap h)" and ?h1 = "heap_insert h key v"
  have h1: "h_heap ?h1 = h_heap h @ [key]" "h_index ?h1 = (h_index h)(key \<mapsto> v)"
    using new by (simp_all add: heap_insert_def)
  have keyn: "h_heap h ! j \<noteq> key" if "j < ?n" for j
    using h new nth_mem [OF that] by (auto simp: heap_inv_def keys_ok_def)
  have f: "freq_at ?h1 j = freq_at h j" if "j < ?n" for j
    using keyn [OF that] that by (simp add: freq_at_def h1 nth_append)
  have k1: "keys_ok ?h1" "pos_ok ?h1 ?n"
    using h new keyn by (auto simp: heap_inv_def keys_ok_def pos_ok_def h1 nth_append)
  have no_kids: "\<not> (c < Suc ?n \<and> 0 < c \<and> ParentIdx c = ?n)" for c
    using ParentIdx_less [of c] by auto
  have "edge (freq_at ?h1) c" if "0 < c" "c < Suc ?n" "c \<noteq> ?n" for c
  proof -
    have "c < ?n" "ParentIdx c < ?n" using that ParentIdx_less [OF that(1)] by auto
    with h that f show ?thesis by (auto simp: heap_inv_def heap_ord_def edge_def)
  qed
  then have "almost (length (h_heap ?h1)) (freq_at ?h1) ?n" "kids (length (h_heap ?h1)) (freq_at ?h1) ?n"
    using no_kids by (auto simp: almost_def kids_def h1)
  moreover obtain h2 j where r: "SwapUp ?h1 ?n = (h2, j)" by (cases "SwapUp ?h1 ?n")
  ultimately have s: "sifted ?h1 h2 j" "h_heap h2 ! j = key" "down (length (h_heap ?h1)) (freq_at h2) j"
      "kids (length (h_heap ?h1)) (freq_at h2) j"
    using SwapUp_ok [OF k1] by (simp_all add: h1)
  have A: "Add h key v = h2\<lparr>h_index := (h_index h2)(key \<mapsto> (the (h_index h2 key))\<lparr>hidx := j\<rparr>)\<rparr>"
    using r by (simp add: Add_def Let_def h1(1))
  show "heap_inv (Add h key v)" unfolding A using settle(1) [OF s(1) down_heap [OF s(3,4)] s(2)] .
  show "contents (Add h key v) = (contents h)(key \<mapsto> (address v, chunkFreq v))"
    unfolding A using settle(2) [OF s(1) down_heap [OF s(3,4)] s(2)]
    by (auto simp: contents_def h1 fun_eq_iff)
  show "length (h_heap (Add h key v)) = Suc ?n" using s(1) by (simp add: A sifted_def h1)
qed

lemma Update_ok:
  assumes h: "heap_inv h" and key: "contents h key = Some (a, f)"
  shows "\<exists>h'. Update h key g = Some h' \<and> heap_inv h' \<and> contents h' = (contents h)(key \<mapsto> (a, g)) \<and>
    length (h_heap h') = length (h_heap h)"
proof -
  let ?n = "length (h_heap h)"
  from key obtain it where it: "h_index h key = Some it" "address it = a"
    by (auto simp: contents_def)
  then have "key \<in> set (h_heap h)" using h by (auto simp: heap_inv_def keys_ok_def)
  then obtain i where i: "i < ?n" "h_heap h ! i = key" by (auto simp: in_set_conv_nth)
  then have hi: "hidx it = i" using h it by (auto simp: heap_inv_def pos_ok_def)
  have h0: "index_get h key = h" using it by (simp add: index_get_def dom_def)
  define h1 where "h1 = h\<lparr>h_index := (h_index h)(key \<mapsto> it\<lparr>chunkFreq := g\<rparr>)\<rparr>"
  have f1: "freq_at h1 j = freq_at h j" if "j < ?n" "j \<noteq> i" for j
    using h i that by (auto simp: freq_at_def h1_def heap_inv_def keys_ok_def nth_eq_iff_index_eq)
  have "dom (h_index h1) = dom (h_index h)" using it by (auto simp: h1_def)
  then have k1: "keys_ok h1" "length (h_heap h1) = ?n"
    using h by (simp_all add: heap_inv_def keys_ok_def h1_def)
  have p1: "pos_ok h1 i"
    unfolding pos_ok_def
  proof (intro allI impI)
    fix j
    assume j: "j < length (h_heap h1)" "j \<noteq> i"
    then have "h_heap h ! j \<noteq> key"
      using h i by (auto simp: heap_inv_def keys_ok_def h1_def nth_eq_iff_index_eq)
    with h j show "hidx (the (h_index h1 (h_heap h1 ! j))) = j"
      by (simp add: heap_inv_def pos_ok_def h1_def)
  qed
  have ho: "freq_at h (ParentIdx c) \<le> freq_at h c" if "0 < c" "c < ?n" for c
    using h that by (simp add: heap_inv_def heap_ord_def edge_def)
  have "almost ?n (freq_at h1) i"
    unfolding almost_def edge_def
  proof (intro conjI allI impI)
    fix c
    assume c: "0 < c \<and> c < ?n \<and> c \<noteq> i \<and> ParentIdx c \<noteq> i"
    then have "ParentIdx c < ?n" using ParentIdx_less [of c] by simp
    with c ho [of c] show "freq_at h1 (ParentIdx c) \<le> freq_at h1 c" by (simp add: f1)
  next
    fix c
    assume c: "0 < i" "0 < c \<and> c < ?n \<and> ParentIdx c = i"
    then have "i < c" "ParentIdx i < i" using ParentIdx_less [of c] ParentIdx_less [of i] by auto
    with c ho [of c] ho [of i] i show "freq_at h1 (ParentIdx i) \<le> freq_at h1 c" by (simp add: f1)
  qed
  moreover obtain h2 j where r2: "SwapUp h1 i = (h2, j)" by (cases "SwapUp h1 i")
  ultimately have s2: "sifted h1 h2 j" "h_heap h2 ! j = key" "down ?n (freq_at h2) j"
    using SwapUp_ok [OF k1(1) p1] i k1(2) by (simp_all add: h1_def)
  obtain h3 m where r3: "SwapDown h2 j = (h3, m)" by (cases "SwapDown h2 j")
  with s2 SwapDown_ok [of h2 j] k1(2) have s3: "sifted h2 h3 m" "h_heap h3 ! m = key" "heap_ord ?n (freq_at h3)"
    by (auto simp: sifted_def)
  let ?h = "h3\<lparr>h_index := (h_index h3)(key \<mapsto> (the (h_index h3 key))\<lparr>hidx := m\<rparr>)\<rparr>"
  have "Update h key g = Some ?h"
    using h0 it hi i r2 r3 by (simp add: Update_def Let_def h1_def)
  moreover have s: "sifted h1 h3 m" using sifted_trans [OF s2(1) s3(1)] .
  moreover have "contents h1 = (contents h)(key \<mapsto> (a, g))"
    using it by (auto simp: contents_def h1_def fun_eq_iff)
  ultimately show ?thesis
    using settle [OF s _ s3(2)] s3(3) k1(2) by (auto simp: sifted_def)
qed

lemma Pop_ok:
  assumes h: "heap_inv h" and n: "2 \<le> length (h_heap h)"
  shows "\<exists>h'. Pop h = Some h' \<and> heap_inv h' \<and> contents h' = (contents h)(h_heap h ! 0 := None) \<and>
    length (h_heap h') = length (h_heap h) - 1"
proof -
  let ?xs = "h_heap h" let ?n = "length ?xs" let ?t = "?xs ! 0"
  let ?ys = "butlast (?xs[0 := last ?xs])"
  define h1 where "h1 = h\<lparr>h_heap := ?ys, h_index := (h_index h)(?t := None)\<rparr>"
  have len: "length ?ys = ?n - 1" by simp
  have ys: "?ys ! j = (if j = 0 then ?xs ! (?n - 1) else ?xs ! j)" if "j < ?n - 1" for j
    using that n by (cases ?xs) (auto simp: nth_butlast nth_list_update last_conv_nth)
  have d: "distinct ?xs" "set ?xs = dom (h_index h)" using h by (simp_all add: heap_inv_def keys_ok_def)
  have "?xs ! k \<noteq> ?t" if "0 < k" "k < ?n" for k
    using nth_eq_iff_index_eq [OF d(1), of k 0] that by (cases "?xs = []") auto
  then have nt: "?ys ! j \<noteq> ?t" if "j < ?n - 1" for j
    using ys [OF that] that n by auto
  have "set ?ys = set ?xs - {?t}"
  proof -
    have "?xs = ?t # tl ?xs" using n by (cases ?xs) auto
    moreover obtain zs z where tl: "tl ?xs = zs @ [z]" using n by (cases "tl ?xs" rule: rev_cases) (cases ?xs; auto)+
    ultimately have xs: "?xs = ?t # zs @ [z]" by simp
    have "?ys = z # zs" by (subst (1 2) xs) (simp add: butlast_append)
    then show ?thesis using d(1) by (subst (2) xs, subst (asm) xs) auto
  qed
  moreover have "distinct ?ys"
    using ys d(1) by (auto simp: distinct_conv_nth len nth_eq_iff_index_eq)
  ultimately have k1: "keys_ok h1" using d(2) by (auto simp: keys_ok_def h1_def)
  have p1: "pos_ok h1 0"
    unfolding pos_ok_def
  proof (intro allI impI)
    fix j
    assume "j < length (h_heap h1)" "j \<noteq> 0"
    then have j: "j < ?n - 1" "h_heap h1 ! j = ?xs ! j" "?xs ! j \<noteq> ?t"
      using ys [of j] nt [of j] by (simp_all add: h1_def)
    with h show "hidx (the (h_index h1 (h_heap h1 ! j))) = j"
      by (simp add: heap_inv_def pos_ok_def h1_def)
  qed
  have f1: "freq_at h1 j = freq_at h j" if "0 < j" "j < ?n - 1" for j
    using ys [OF that(2)] nt [OF that(2)] that by (simp add: freq_at_def h1_def)
  have "down (?n - 1) (freq_at h1) 0"
    unfolding down_def almost_def edge_def
  proof (intro conjI allI impI; (elim conjE)?)
    fix c
    assume c: "0 < c" "c < ?n - 1" "c \<noteq> 0" "ParentIdx c \<noteq> 0"
    then have "ParentIdx c < ?n - 1" "freq_at h (ParentIdx c) \<le> freq_at h c"
      using ParentIdx_less [of c] h by (auto simp: heap_inv_def heap_ord_def edge_def)
    with c show "freq_at h1 (ParentIdx c) \<le> freq_at h1 c" by (simp add: f1)
  qed simp_all
  moreover obtain h2 j where r: "SwapDown h1 0 = (h2, j)" by (cases "SwapDown h1 0")
  moreover have l1: "length (h_heap h1) = ?n - 1" by (simp add: h1_def)
  ultimately have s: "sifted h1 h2 j" "heap_ord (length (h_heap h1)) (freq_at h2)"
    using SwapDown_ok [OF k1 p1] n by auto
  have "Pop h = Some (set_idx h2 j j)"
    using n r s(1) by (auto simp: Pop_def Let_def h1_def sifted_def)
  moreover have "set_idx h2 j j = h2\<lparr>h_index := (h_index h2)(h_heap h2 ! j \<mapsto> (the (h_index h2 (h_heap h2 ! j)))\<lparr>hidx := j\<rparr>)\<rparr>"
    by (simp add: set_idx_def Let_def)
  moreover have "contents h1 = (contents h)(?t := None)"
    by (auto simp: contents_def h1_def fun_eq_iff)
  ultimately show ?thesis
    using settle [OF s refl] s(1) l1 by (simp add: sifted_def)
qed

text \<open>The only element of a heap cannot be popped: the code then writes to an empty vector.\<close>

lemma Pop_last: "length (h_heap h) = 1 \<Longrightarrow> Pop h = None"
  by (cases "h_heap h") (auto simp: Pop_def Let_def SwapDown.simps [of _ 0])

lemma Top_min:
  assumes h: "heap_inv h" and k: "contents h key = Some (a, f)"
  shows "\<exists>m. TopEntry h = Some m \<and> m \<le> f"
proof -
  from k obtain it where it: "h_index h key = Some it" "chunkFreq it = f" by (auto simp: contents_def)
  then have "key \<in> set (h_heap h)" using h by (auto simp: heap_inv_def keys_ok_def)
  then obtain i where i: "i < length (h_heap h)" "h_heap h ! i = key" by (auto simp: in_set_conv_nth)
  then have "freq_at h 0 \<le> freq_at h i" using h by (intro heap_ord_min) (auto simp: heap_inv_def)
  with i it show ?thesis by (auto simp: TopEntry_def freq_at_def)
qed

lemma Top_elem:
  assumes h: "heap_inv h" and n: "h_heap h \<noteq> []"
  shows "\<exists>a. contents h (h_heap h ! 0) = Some (a, freq_at h 0)"
proof -
  have "h_heap h ! 0 \<in> dom (h_index h)" using h n nth_mem [of 0 "h_heap h"] by (auto simp: heap_inv_def keys_ok_def)
  then show ?thesis by (auto simp: contents_def freq_at_def)
qed

lemma heap_card: "heap_inv h \<Longrightarrow> card (dom (contents h)) = Size h \<and> finite (dom (contents h))"
proof -
  assume h: "heap_inv h"
  have "dom (contents h) = set (h_heap h)"
    using h by (auto simp: contents_def heap_inv_def keys_ok_def dom_def)
  moreover have "card (set (h_heap h)) = length (h_heap h)"
    using h by (intro distinct_card) (simp add: heap_inv_def keys_ok_def)
  ultimately show ?thesis by (simp add: Size_def)
qed

section \<open>What the indexes rely on\<close>

locale freq_queue =
  fixes inv :: "'h \<Rightarrow> bool"
    and items :: "'h \<Rightarrow> fp \<rightharpoonup> RecipeEntry \<times> u32"
    and size_of :: "'h \<Rightarrow> nat"
    and top :: "'h \<Rightarrow> u32 option"
    and pop :: "'h \<Rightarrow> 'h option"
    and ins :: "'h \<Rightarrow> fp \<Rightarrow> HeapItem \<Rightarrow> 'h"
    and upd :: "'h \<Rightarrow> fp \<Rightarrow> u32 \<Rightarrow> 'h option"
  assumes card_items: "inv h \<Longrightarrow> card (dom (items h)) = size_of h"
    and finite_items: "inv h \<Longrightarrow> finite (dom (items h))"
    and top_least: "inv h \<Longrightarrow> items h k = Some (a, f) \<Longrightarrow> \<exists>m. top h = Some m \<and> m \<le> f"
    and pop_min: "inv h \<Longrightarrow> 2 \<le> size_of h \<Longrightarrow>
      \<exists>h' k a m. pop h = Some h' \<and> inv h' \<and> top h = Some m \<and> items h k = Some (a, m) \<and>
        items h' = (items h)(k := None)"
    and ins_new: "inv h \<Longrightarrow> k \<notin> dom (items h) \<Longrightarrow>
      inv (ins h k v) \<and> items (ins h k v) = (items h)(k \<mapsto> (address v, chunkFreq v))"
    and upd_old: "inv h \<Longrightarrow> items h k = Some (a, f) \<Longrightarrow>
      \<exists>h'. upd h k g = Some h' \<and> inv h' \<and> items h' = (items h)(k \<mapsto> (a, g))"
begin

text \<open>A key with a frequency below the top is not stored: the lookup can be skipped.\<close>

lemma below_top_absent: "inv h \<Longrightarrow> top h = Some m \<Longrightarrow> items h k = Some (a, f) \<Longrightarrow> m \<le> f"
  using top_least by fastforce

text \<open>Making room and inserting: one least frequent item goes, everything else stays.\<close>

lemma replace_min:
  assumes "inv h" "2 \<le> size_of h" "k \<notin> dom (items h)"
  shows "\<exists>h' e a m. pop h = Some h' \<and> items h e = Some (a, m) \<and> top h = Some m \<and>
    inv (ins h' k v) \<and> items (ins h' k v) = (items h)(e := None, k \<mapsto> (address v, chunkFreq v)) \<and>
    size_of (ins h' k v) = size_of h"
proof -
  from pop_min [OF assms(1,2)] obtain h' e a m where p: "pop h = Some h'" "inv h'" "top h = Some m"
      "items h e = Some (a, m)" "items h' = (items h)(e := None)" by blast
  have k: "k \<notin> dom (items h')" using assms(3) p by auto
  note i = ins_new [OF p(2) k, of v]
  have "dom (items (ins h' k v)) = insert k (dom (items h) - {e})"
    using i p by auto
  moreover have e: "e \<in> dom (items h)" using p(4) by auto
  moreover from e finite_items [OF assms(1)] have "0 < card (dom (items h))" by (auto simp: card_gt_0_iff)
  ultimately have "card (dom (items (ins h' k v))) = card (dom (items h))"
    using assms(3) finite_items [OF assms(1)] by simp
  then have "size_of (ins h' k v) = size_of h"
    using card_items [of "ins h' k v"] card_items [OF assms(1)] i by metis
  with p i show ?thesis by auto
qed

lemma size_ins: "inv h \<Longrightarrow> k \<notin> dom (items h) \<Longrightarrow> size_of (ins h k v) = Suc (size_of h)"
  using ins_new [of h k v] card_items [of h] card_items [of "ins h k v"] finite_items [of h] by simp

lemma size_upd: "inv h \<Longrightarrow> items h k = Some (a, f) \<Longrightarrow> upd h k g = Some h' \<Longrightarrow> size_of h' = size_of h"
  using upd_old [of h k a f g] card_items [of h] card_items [of h'] by (auto simp: insert_absorb domI)

end

interpretation eh: freq_queue heap_inv contents Size TopEntry Pop Add Update
proof
  fix h assume h: "heap_inv h" "2 \<le> Size h"
  then have "TopEntry h = Some (freq_at h 0)" "h_heap h \<noteq> []" by (auto simp: TopEntry_def Size_def)
  with Pop_ok [OF h(1)] Top_elem [OF h(1)] h(2) show "\<exists>h' k a m. Pop h = Some h' \<and> heap_inv h' \<and>
      TopEntry h = Some m \<and> contents h k = Some (a, m) \<and> contents h' = (contents h)(k := None)"
    by (auto simp: Size_def)
next
  fix h k v assume "heap_inv h" "k \<notin> dom (contents h)"
  then show "heap_inv (Add h k v) \<and> contents (Add h k v) = (contents h)(k \<mapsto> (address v, chunkFreq v))"
    by (intro conjI Add_ok) (auto simp: contents_def)
next
  fix h k a f g assume "heap_inv h" "contents h k = Some (a, f)"
  from Update_ok [OF this, of g] show "\<exists>h'. Update h k g = Some h' \<and> heap_inv h' \<and>
      contents h' = (contents h)(k \<mapsto> (a, g))" by blast
qed (simp_all add: heap_card Top_min)

section \<open>Keeping the most frequent chunks\<close>

text \<open>\<open>CheckIfAddToHeap\<close> and \<open>AddChunkToHeap\<close> of the indexes; \<open>topThreshold\<close> is the capacity.\<close>

definition CheckIfAddToHeap :: "nat \<Rightarrow> EntryHeap \<Rightarrow> u32 \<Rightarrow> bool option" where
  "CheckIfAddToHeap topThreshold h freq =
    (if Size h < topThreshold then Some True
     else case TopEntry h of None \<Rightarrow> None | Some currentMin \<Rightarrow> Some (freq \<ge> currentMin))"

definition AddChunkToHeap :: "nat \<Rightarrow> EntryHeap \<Rightarrow> u32 \<Rightarrow> RecipeEntry \<Rightarrow> fp \<Rightarrow> EntryHeap option" where
  "AddChunkToHeap topThreshold h freq chunkAddr chunkFp =
    Option.bind (if Size h = topThreshold then Pop h else Some h)
      (\<lambda>h1. Some (Add h1 chunkFp \<lparr>address = chunkAddr, chunkFreq = freq, hidx = 0\<rparr>))"

text \<open>The loop body of the last phase of a batch, for one chunk.\<close>

definition offer_chunk :: "nat \<Rightarrow> EntryHeap \<Rightarrow> u32 \<Rightarrow> RecipeEntry \<Rightarrow> fp \<Rightarrow> EntryHeap option" where
  "offer_chunk topThreshold h freq addr key =
    Option.bind (CheckIfAddToHeap topThreshold h freq) (\<lambda>add.
      if add then
        if Contains h key then Update h key freq else AddChunkToHeap topThreshold h freq addr key
      else Some h)"

lemma Contains_iff: "Contains h key \<longleftrightarrow> key \<in> dom (contents h)"
  by (auto simp: Contains_def contents_def)

text \<open>
  What offering a chunk does to the contents: nothing, because it is rarer than everything
  stored; its frequency is new; or it replaces a rarest one.
\<close>

definition offered :: "EntryHeap \<Rightarrow> u32 \<Rightarrow> RecipeEntry \<Rightarrow> fp \<Rightarrow> EntryHeap \<Rightarrow> bool" where
  "offered h freq addr key h' \<longleftrightarrow>
    h' = h \<and> (\<forall>k a f. contents h k = Some (a, f) \<longrightarrow> freq < f) \<or>
    (\<exists>a. contents h' = (contents h)(key \<mapsto> (a, freq)) \<and> (a = addr \<or> (\<exists>f. contents h key = Some (a, f)))) \<or>
    (\<exists>e a m. contents h e = Some (a, m) \<and> m \<le> freq \<and> (\<forall>k b f. contents h k = Some (b, f) \<longrightarrow> m \<le> f) \<and>
       contents h' = (contents h)(e := None, key \<mapsto> (addr, freq)))"

lemma Update_offered:
  assumes "heap_inv h" "contents h key = Some (a, f)"
  shows "\<exists>h'. Update h key freq = Some h' \<and> heap_inv h' \<and> Size h' = Size h \<and> offered h freq addr key h'"
proof -
  obtain h' where "Update h key freq = Some h'" "heap_inv h'" "contents h' = (contents h)(key \<mapsto> (a, freq))"
    using eh.upd_old [OF assms, of freq] by blast
  with assms eh.size_upd [OF assms] show ?thesis unfolding offered_def by blast
qed

lemma offer_room:
  assumes "heap_inv h" "Size h < topThreshold"
  shows "\<exists>h'. offer_chunk topThreshold h freq addr key = Some h' \<and> heap_inv h' \<and> Size h' \<le> topThreshold \<and> offered h freq addr key h'"
proof -
  let ?v = "\<lparr>address = addr, chunkFreq = freq, hidx = 0\<rparr>"
  have off: "offer_chunk topThreshold h freq addr key =
      (if key \<in> dom (contents h) then Update h key freq else Some (Add h key ?v))"
    using assms(2) by (simp add: offer_chunk_def CheckIfAddToHeap_def AddChunkToHeap_def Contains_iff)
  show ?thesis
  proof (cases "contents h key")
    case None
    then have "key \<notin> dom (contents h)" by auto
    with eh.ins_new [OF assms(1) this, of ?v] eh.size_ins [OF assms(1) this, of ?v] off assms(2) show ?thesis
      by (auto simp: offered_def)
  next
    case (Some af)
    then obtain a f where af: "contents h key = Some (a, f)" by (cases af) auto
    with Update_offered [OF assms(1) af, of freq addr] off assms(2) show ?thesis by auto
  qed
qed

lemma offer_full:
  assumes "heap_inv h" "2 \<le> topThreshold" "Size h = topThreshold"
  shows "\<exists>h'. offer_chunk topThreshold h freq addr key = Some h' \<and> heap_inv h' \<and> Size h' \<le> topThreshold \<and> offered h freq addr key h'"
proof -
  let ?v = "\<lparr>address = addr, chunkFreq = freq, hidx = 0\<rparr>"
  have two: "2 \<le> Size h" using assms(2,3) by simp
  from eh.pop_min [OF assms(1) two] obtain k0 a0 m where top: "TopEntry h = Some m" "contents h k0 = Some (a0, m)"
    by blast
  note low = eh.below_top_absent [OF assms(1) top(1)]
  consider (rare) "\<not> m \<le> freq" | (new) "m \<le> freq" "contents h key = None" | (old) a f where "m \<le> freq" "contents h key = Some (a, f)"
    by (cases "contents h key") auto
  then show ?thesis
  proof cases
    case rare
    with assms(3) top low have "offer_chunk topThreshold h freq addr key = Some h"
      by (simp add: offer_chunk_def CheckIfAddToHeap_def)
    moreover have "offered h freq addr key h" unfolding offered_def using rare low by (meson leI order_trans)
    ultimately show ?thesis using assms by auto
  next
    case new
    then have "key \<notin> dom (contents h)" by auto
    from eh.replace_min [OF assms(1) two this, of ?v] top(1) obtain h1 e a where
      r: "Pop h = Some h1" "contents h e = Some (a, m)" "heap_inv (Add h1 key ?v)"
        "contents (Add h1 key ?v) = (contents h)(e := None, key \<mapsto> (addr, freq))" "Size (Add h1 key ?v) = Size h"
      by auto
    have "offer_chunk topThreshold h freq addr key = Some (Add h1 key ?v)"
      using new assms(3) top(1) r(1) by (auto simp: offer_chunk_def CheckIfAddToHeap_def AddChunkToHeap_def Contains_iff)
    moreover have "offered h freq addr key (Add h1 key ?v)" unfolding offered_def using r(2,4) new(1) low by blast
    ultimately show ?thesis using r(3,5) assms(3) by auto
  next
    case (old a f)
    then have "offer_chunk topThreshold h freq addr key = Update h key freq"
      using assms(3) top(1) by (auto simp: offer_chunk_def CheckIfAddToHeap_def Contains_iff)
    with Update_offered [OF assms(1) old(2), of freq addr] assms(3) show ?thesis by auto
  qed
qed

lemma offer_chunk_ok:
  assumes "heap_inv h" "2 \<le> topThreshold" "Size h \<le> topThreshold"
  shows "\<exists>h'. offer_chunk topThreshold h freq addr key = Some h' \<and> heap_inv h' \<and> Size h' \<le> topThreshold \<and> offered h freq addr key h'"
  using offer_room [OF assms(1)] offer_full [OF assms(1,2)] assms(3) by (cases "Size h = topThreshold") auto

text \<open>
  C15: offering a chunk to a heap of capacity at least two succeeds and keeps the heap
  invariant and the capacity. Afterwards the chunk is stored with its new frequency, or it
  was less frequent than everything stored and nothing changed; the only other item that
  may have gone is a least frequent one, and it was no more frequent than the new one.
\<close>

theorem offer_chunk_correct:
  assumes "heap_inv h" "2 \<le> topThreshold" "Size h \<le> topThreshold"
  shows "\<exists>h'. offer_chunk topThreshold h freq addr key = Some h' \<and> heap_inv h' \<and> Size h' \<le> topThreshold \<and>
    (h' = h \<and> (\<forall>k a f. contents h k = Some (a, f) \<longrightarrow> freq < f) \<or>
     (\<exists>a. contents h' = (contents h)(key \<mapsto> (a, freq))) \<or>
     (\<exists>e a m. contents h e = Some (a, m) \<and> m \<le> freq \<and> (\<forall>k b f. contents h k = Some (b, f) \<longrightarrow> m \<le> f) \<and>
        contents h' = (contents h)(e := None, key \<mapsto> (addr, freq))))"
  using offer_chunk_ok [OF assms, of freq addr key] unfolding offered_def by blast

definition empty_heap :: EntryHeap where "empty_heap = \<lparr>h_heap = [], h_index = Map.empty\<rparr>"

lemma empty_heap_simps [simp]: "h_heap empty_heap = []" "h_index empty_heap = Map.empty"
  by (simp_all add: empty_heap_def)

lemma empty_heap_inv: "heap_inv empty_heap"
  by (simp add: heap_inv_def empty_heap_def keys_ok_def pos_ok_def heap_ord_def)

theorem offer_chunk_correct_witness:
  "\<exists>h'. offer_chunk 2 empty_heap 5 sample_entry [1] = Some h' \<and> heap_inv h' \<and> contents h' [1] \<noteq> None"
proof -
  obtain h' where "offer_chunk 2 empty_heap 5 sample_entry [1] = Some h'" "heap_inv h'"
    "h' = empty_heap \<or> (\<exists>a. contents h' = (contents empty_heap)([1] \<mapsto> (a, 5))) \<or>
     (\<exists>e a m. contents empty_heap e = Some (a, m))"
    using offer_chunk_correct [of empty_heap 2 5 sample_entry "[1]"] empty_heap_inv
    by (fastforce simp: Size_def empty_heap_def)
  moreover have "contents empty_heap e = None" for e by (simp add: contents_def empty_heap_def)
  moreover have "offer_chunk 2 empty_heap 5 sample_entry [1] \<noteq> Some empty_heap"
    by (simp add: offer_chunk_def CheckIfAddToHeap_def AddChunkToHeap_def Size_def empty_heap_def Contains_def
        Add_def heap_insert_def Let_def SwapUp.simps [of _ 0])
  ultimately show ?thesis by auto
qed

end
