(* ===== verification/CMSketch.thy ===== *)
theory CMSketch
  imports Structures
begin

text \<open>
  The count-min sketch of chunk frequencies (\<open>ecallCMSketch.cc\<close>). The rows are indexed by
  the 32-bit words of the chunk hash itself. Counters are \<open>uint32_t\<close> and wrap; while fewer
  than \<open>2\<^sup>3\<^sup>2\<close> chunks have been counted, an estimate is at least the true count and at most
  the number of all counted chunks, and it only grows.
\<close>

record CMSketch =
  cm_width :: nat
  cm_depth :: nat
  cm_total :: u64
  counterArray :: "u32 list list"

definition cm_init :: "nat \<Rightarrow> nat \<Rightarrow> CMSketch" where
  "cm_init width depth =
    \<lparr>cm_width = width, cm_depth = depth, cm_total = 0, counterArray = replicate depth (replicate width 0)\<rparr>"

text \<open>\<open>chunkHashPtr[i] % width_\<close>.\<close>

definition cm_pos :: "CMSketch \<Rightarrow> fp \<Rightarrow> nat \<Rightarrow> nat" where
  "cm_pos s chunkHash i = unat (rd32 (drop (4 * i) chunkHash)) mod cm_width s"

definition cm_Estimate :: "CMSketch \<Rightarrow> fp \<Rightarrow> u32" where
  "cm_Estimate s chunkHash =
    fold (\<lambda>i minVal. min minVal (counterArray s ! i ! cm_pos s chunkHash i)) [0..<cm_depth s] (- 1)"

definition cm_TotalCount :: "CMSketch \<Rightarrow> u64" where
  "cm_TotalCount s = cm_total s"

definition cm_Update :: "CMSketch \<Rightarrow> fp \<Rightarrow> u32 \<Rightarrow> CMSketch" where
  "cm_Update s chunkHash count =
    s\<lparr>cm_total := cm_total s + ucast count,
      counterArray := fold (\<lambda>i a. a[i := (a ! i)[cm_pos s chunkHash i := a ! i ! cm_pos s chunkHash i + count]])
        [0..<cm_depth s] (counterArray s)\<rparr>"

definition cm_ClearUp :: "CMSketch \<Rightarrow> CMSketch" where
  "cm_ClearUp s = s\<lparr>counterArray := map (map (\<lambda>_. 0)) (counterArray s)\<rparr>"

section \<open>What the counters hold\<close>

definition cm_wf :: "CMSketch \<Rightarrow> bool" where
  "cm_wf s \<longleftrightarrow> 0 < cm_width s \<and> 0 < cm_depth s \<and> length (counterArray s) = cm_depth s \<and>
     (\<forall>i < cm_depth s. length (counterArray s ! i) = cm_width s)"

lemma cm_pos_lt: "cm_wf s \<Longrightarrow> cm_pos s h i < cm_width s"
  by (simp add: cm_wf_def cm_pos_def)

lemma fold_rows:
  "n \<le> length a \<Longrightarrow>
   length (fold (\<lambda>i a. a[i := (a ! i)[p i := a ! i ! p i + c]]) [0..<n] a) = length a \<and>
   (\<forall>j < length a. fold (\<lambda>i a. a[i := (a ! i)[p i := a ! i ! p i + c]]) [0..<n] a ! j =
     (if j < n then (a ! j)[p j := a ! j ! p j + c] else a ! j))"
  by (induction n) (auto simp: nth_list_update less_Suc_eq)

lemma cm_Update_wf: "cm_wf s \<Longrightarrow> cm_wf (cm_Update s h c)"
  using fold_rows [of "cm_depth s" "counterArray s" "cm_pos s h" c]
  by (auto simp: cm_wf_def cm_Update_def)

lemma cm_Update_frame [simp]:
  "cm_width (cm_Update s h c) = cm_width s" "cm_depth (cm_Update s h c) = cm_depth s"
  "cm_pos (cm_Update s h c) = cm_pos s"
  by (simp_all add: cm_Update_def cm_pos_def fun_eq_iff)

lemma cm_Update_counter:
  assumes "cm_wf s" "i < cm_depth s" "p < cm_width s"
  shows "counterArray (cm_Update s h c) ! i ! p =
    counterArray s ! i ! p + (if cm_pos s h i = p then c else 0)"
  using assms fold_rows [of "cm_depth s" "counterArray s" "cm_pos s h" c]
  by (auto simp: cm_wf_def cm_Update_def nth_list_update)

section \<open>Estimates\<close>

lemma fold_min_le:
  fixes f :: "nat \<Rightarrow> 'a::linorder"
  shows "fold (\<lambda>i m. min m (f i)) xs m0 \<le> m0" "x \<in> set xs \<Longrightarrow> fold (\<lambda>i m. min m (f i)) xs m0 \<le> f x"
proof -
  have "fold (\<lambda>i m. min m (f i)) xs m0 \<le> m0 \<and> (\<forall>x \<in> set xs. fold (\<lambda>i m. min m (f i)) xs m0 \<le> f x)"
  proof (induction xs arbitrary: m0)
    case (Cons y ys)
    from Cons.IH [of "min m0 (f y)"] show ?case by auto
  qed simp
  then show "fold (\<lambda>i m. min m (f i)) xs m0 \<le> m0"
      "x \<in> set xs \<Longrightarrow> fold (\<lambda>i m. min m (f i)) xs m0 \<le> f x" by auto
qed

lemma fold_min_ge:
  fixes f :: "nat \<Rightarrow> 'a::linorder"
  shows "b \<le> m0 \<Longrightarrow> (\<And>x. x \<in> set xs \<Longrightarrow> b \<le> f x) \<Longrightarrow> b \<le> fold (\<lambda>i m. min m (f i)) xs m0"
  by (induction xs arbitrary: m0) auto

lemma word_max: "(w :: u32) \<le> - 1"
  by simp

lemma cm_Estimate_le: "i < cm_depth s \<Longrightarrow> cm_Estimate s h \<le> counterArray s ! i ! cm_pos s h i"
  unfolding cm_Estimate_def by (rule fold_min_le(2)) simp

lemma cm_Estimate_ge:
  "(\<And>i. i < cm_depth s \<Longrightarrow> b \<le> counterArray s ! i ! cm_pos s h i) \<Longrightarrow> b \<le> cm_Estimate s h"
  unfolding cm_Estimate_def by (rule fold_min_ge) simp_all

text \<open>The load of a counter: how often the updates so far hit it.\<close>

definition cm_load :: "CMSketch \<Rightarrow> fp list \<Rightarrow> nat \<Rightarrow> nat \<Rightarrow> nat" where
  "cm_load s hs i p = length (filter (\<lambda>h. cm_pos s h i = p) hs)"

definition cm_counts :: "CMSketch \<Rightarrow> fp list \<Rightarrow> bool" where
  "cm_counts s hs \<longleftrightarrow> cm_wf s \<and> length hs < 2 ^ 32 \<and>
     (\<forall>i < cm_depth s. \<forall>p < cm_width s. unat (counterArray s ! i ! p) = cm_load s hs i p)"

lemma cm_counts_init: "0 < w \<Longrightarrow> 0 < d \<Longrightarrow> cm_counts (cm_init w d) []"
  by (simp add: cm_counts_def cm_wf_def cm_init_def cm_load_def)

lemma cm_counts_Update:
  assumes s: "cm_counts s hs" and n: "length (h # hs) < 2 ^ 32"
  shows "cm_counts (cm_Update s h 1) (h # hs)"
proof -
  have wf: "cm_wf s" using s by (simp add: cm_counts_def)
  have "unat (counterArray (cm_Update s h 1) ! i ! p) = cm_load s (h # hs) i p"
    if "i < cm_depth s" "p < cm_width s" for i p
  proof -
    have l: "unat (counterArray s ! i ! p) = cm_load s hs i p" using s that by (simp add: cm_counts_def)
    have "cm_load s hs i p < 2 ^ 32 - 1"
      using n le_less_trans [OF length_filter_le, of hs "2 ^ 32 - 1"] by (simp add: cm_load_def)
    then have "unat (counterArray s ! i ! p + 1) = cm_load s hs i p + 1"
      using l by (subst unat_add_lem [THEN iffD1]) simp_all
    with l that wf show ?thesis by (simp add: cm_Update_counter cm_load_def)
  qed
  with wf n show ?thesis by (simp add: cm_counts_def cm_Update_wf cm_load_def)
qed

lemma cm_counts_fold:
  "cm_counts s hs \<Longrightarrow> length (hs' @ hs) < 2 ^ 32 \<Longrightarrow>
   cm_counts (fold (\<lambda>h s. cm_Update s h 1) (rev hs') s) (hs' @ hs)"
proof (induction hs')
  case (Cons h hs')
  then show ?case by (simp add: cm_counts_Update)
qed simp

lemma cm_Estimate_bounds:
  assumes "cm_counts s hs"
  shows "count_list hs h \<le> unat (cm_Estimate s h)" "unat (cm_Estimate s h) \<le> length hs"
proof -
  have wf: "cm_wf s" and n: "length hs < 2 ^ 32" using assms by (simp_all add: cm_counts_def)
  have c: "unat (counterArray s ! i ! cm_pos s h i) = cm_load s hs i (cm_pos s h i)" if "i < cm_depth s" for i
    using assms that cm_pos_lt [OF wf] by (simp add: cm_counts_def)
  have cl: "count_list hs h \<le> cm_load s hs i (cm_pos s h i)" for i
    unfolding cm_load_def by (induction hs) auto
  have small: "count_list hs h < 2 ^ 32" using n count_le_length [of hs h] by simp
  then have "word_of_nat (count_list hs h) \<le> counterArray s ! i ! cm_pos s h i" if "i < cm_depth s" for i
    using c [OF that] cl [of i] by (simp add: word_le_nat_alt unat_of_nat_small)
  then have "word_of_nat (count_list hs h) \<le> cm_Estimate s h" by (rule cm_Estimate_ge)
  with small show "count_list hs h \<le> unat (cm_Estimate s h)" by (simp add: word_le_nat_alt unat_of_nat_small)
  have d: "0 < cm_depth s" using wf by (simp add: cm_wf_def)
  have "unat (cm_Estimate s h) \<le> cm_load s hs 0 (cm_pos s h 0)"
    using cm_Estimate_le [OF d, of h] c [OF d] by (simp add: word_le_nat_alt)
  also have "\<dots> \<le> length hs" by (simp add: cm_load_def)
  finally show "unat (cm_Estimate s h) \<le> length hs" .
qed

text \<open>Counting another chunk never lowers an estimate, and it is at least one for that chunk.\<close>

lemma cm_Estimate_mono:
  assumes s: "cm_counts s hs" and n: "length (h # hs) < 2 ^ 32"
  shows "cm_Estimate s h' \<le> cm_Estimate (cm_Update s h 1) h'"
proof (rule cm_Estimate_ge, simp)
  fix i
  assume i: "i < cm_depth s"
  have s': "cm_counts (cm_Update s h 1) (h # hs)" using s n by (rule cm_counts_Update)
  have p: "cm_pos s h' i < cm_width s" using s by (simp add: cm_counts_def cm_pos_lt)
  have "cm_Estimate s h' \<le> counterArray s ! i ! cm_pos s h' i" using i by (rule cm_Estimate_le)
  also have "\<dots> \<le> counterArray (cm_Update s h 1) ! i ! cm_pos s h' i"
    using s s' i p by (simp add: cm_counts_def word_le_nat_alt cm_load_def)
  finally show "cm_Estimate s h' \<le> counterArray (cm_Update s h 1) ! i ! cm_pos s h' i" .
qed

text \<open>
  C16: after counting fewer than \<open>2\<^sup>3\<^sup>2\<close> chunks one by one with a fresh sketch, the estimate
  for a chunk is at least the number of times it was counted and at most the number of
  chunks counted: the sketch never underestimates and its counters do not wrap.
\<close>

theorem cm_Estimate_correct:
  assumes "0 < width" "0 < depth" "length hs < 2 ^ 32"
  shows "let s = fold (\<lambda>h s. cm_Update s h 1) hs (cm_init width depth) in
    count_list hs h \<le> unat (cm_Estimate s h) \<and> unat (cm_Estimate s h) \<le> length hs"
proof -
  have "cm_counts (fold (\<lambda>h s. cm_Update s h 1) (rev (rev hs)) (cm_init width depth)) (rev hs @ [])"
    using assms by (intro cm_counts_fold cm_counts_init) simp_all
  from cm_Estimate_bounds [OF this, of h] show ?thesis by (simp add: Let_def count_list_rev)
qed

theorem cm_Estimate_correct_witness:
  "let s = fold (\<lambda>h s. cm_Update s h 1) [replicate 32 1, replicate 32 2, replicate 32 1] (cm_init 5 4) in
    2 \<le> unat (cm_Estimate s (replicate 32 1)) \<and> unat (cm_Estimate s (replicate 32 1)) \<le> 3"
proof -
  have "count_list [replicate 32 1, replicate 32 2, replicate 32 1] (replicate 32 (1 :: byte)) = 2"
    by (simp add: replicate_eq_replicate)
  then show ?thesis
    using cm_Estimate_correct [of 5 4 "[replicate 32 1, replicate 32 2, replicate 32 1]" "replicate 32 1"]
    by (simp only: Let_def) simp
qed

end
