(* ===== verification/Storage.thy ===== *)
theory Storage
  imports Structures
begin

text \<open>
  The storage core inside the enclave (\<open>ecallStorage.cc\<close>) with the two OCalls that hand a
  full container to the writer (\<open>storeOCall.cc\<close>), the container slots of a client
  (\<open>clientVar.cc\<close>) and the writer itself (\<open>dataWriter.cc\<close>). The lemmas show that no save
  writes outside a container and that a chunk can be read back at the address its save
  returned, whatever is saved afterwards.
\<close>

section \<open>Faults and buffers\<close>

text \<open>
  What the code does not survive: a write or read outside a buffer, an overflow of the counter of
  container identifiers (or of their digits), a read of a local variable that was never assigned, and
  \<open>exit\<close> (\<open>Ocall_SGX_Exit_Error\<close>).
\<close>

datatype fault = WriteOutside | ReadOutside | UuidOverflow | UninitLocal | ExitFailure

text \<open>
  A buffer of \<open>cap\<close> bytes is the list of its bytes up to the last one written; a \<open>memcpy\<close>
  behind that leaves a gap of unspecified bytes, here zeros.
\<close>

definition memcpyE :: "nat \<Rightarrow> bytes \<Rightarrow> nat \<Rightarrow> bytes \<Rightarrow> fault + bytes" where
  "memcpyE cap b off d =
    (if off + length d \<le> cap then Inr (put (b @ replicate (off - length b) 0) off d) else Inl WriteOutside)"

lemma memcpyE_ok:
  "off + length d \<le> cap \<Longrightarrow> off \<le> length b \<Longrightarrow> memcpyE cap b off d = Inr (put b off d)"
  by (simp add: memcpyE_def)

lemma memcpyE_next:
  assumes "off \<le> length b" "off' = off + length x" "off' + length y \<le> cap"
  shows "memcpyE cap (put b off x) off' y = Inr (put b off (x @ y))"
proof -
  have "off' \<le> length (put b off x)" using put_length_le [OF assms(1), of x] assms(2) by simp
  then show ?thesis using assms by (simp add: memcpyE_ok put_put)
qed

section \<open>State\<close>

record InContainer =
  ic_buf :: bytes
  curSize :: u32

record Container =
  containerID :: container_name
  ct_delta :: bool
  ct_body :: bytes
  currentSize :: u32

text \<open>
  The in-enclave containers and the current IV of a client, its container slots outside the
  enclave, the queue to the writer, the global container counter and the statistics.
\<close>

record store_st =
  inContainer :: InContainer
  deltainContainer :: InContainer
  client_iv :: bytes
  curContainer :: Container
  curDeltaContainer :: Container
  inputMQ :: "Container list"
  con_times :: nat
  writtenDataSize :: u64
  writtenChunkNum :: u64

text \<open>
  The next identifier. The counter \<open>con_times\<close> is an \<open>int\<close> that starts at 1 and is incremented for
  every identifier; it is modelled as the number it stands for, and there is no next identifier where
  the increment would overflow.
\<close>

definition uuid_bytes :: "nat \<Rightarrow> container_name option" where
  "uuid_bytes n = (if INT_MAX \<le> n then None else map_option (map of_char) (CreateUUID CONTAINER_ID_LENGTH (word_of_nat n)))"

definition new_uuid :: "'a store_st_scheme \<Rightarrow> fault + container_name \<times> 'a store_st_scheme" where
  "new_uuid st =
    (case uuid_bytes (con_times st) of
       None \<Rightarrow> Inl UuidOverflow
     | Some u \<Rightarrow> Inr (u, st\<lparr>con_times := Suc (con_times st)\<rparr>))"

text \<open>\<open>ClientVar::InitUploadBuffer\<close>: a fresh identifier for each of the two slots.\<close>

definition InitUploadBuffer :: "'a store_st_scheme \<Rightarrow> fault + 'a store_st_scheme" where
  "InitUploadBuffer st =
    bindE (new_uuid st) (\<lambda>(u, st1).
    bindE (new_uuid (st1\<lparr>curContainer := (curContainer st1)\<lparr>containerID := u, currentSize := 0\<rparr>\<rparr>)) (\<lambda>(v, st2).
      Inr (st2\<lparr>curDeltaContainer := (curDeltaContainer st2)\<lparr>containerID := v, currentSize := 0\<rparr>\<rparr>)))"

section \<open>Handing over a container\<close>

definition Ocall_WriteContainer :: "'a store_st_scheme \<Rightarrow> fault + 'a store_st_scheme" where
  "Ocall_WriteContainer st =
    (let full = (curContainer st)\<lparr>ct_delta := False\<rparr>
     in bindE (new_uuid (st\<lparr>inputMQ := inputMQ st @ [full]\<rparr>)) (\<lambda>(u, st1).
          Inr (st1\<lparr>curContainer := full\<lparr>containerID := u, currentSize := 0\<rparr>\<rparr>)))"

definition Ocall_WriteDeltaContainer :: "'a store_st_scheme \<Rightarrow> fault + 'a store_st_scheme" where
  "Ocall_WriteDeltaContainer st =
    (let full = (curDeltaContainer st)\<lparr>ct_delta := True\<rparr>
     in bindE (new_uuid (st\<lparr>inputMQ := inputMQ st @ [full]\<rparr>)) (\<lambda>(u, st1).
          Inr (st1\<lparr>curDeltaContainer := full\<lparr>containerID := u, currentSize := 0\<rparr>\<rparr>)))"

text \<open>\<open>memcpy(outContainer->body, inContainer->buf, curSize)\<close> with its \<open>currentSize\<close>.\<close>

definition dump_container :: "InContainer \<Rightarrow> Container \<Rightarrow> fault + Container" where
  "dump_container ic out =
    bindE (memcpyE MAX_CONTAINER_SIZE (ct_body out) 0 (take (unat (curSize ic)) (ic_buf ic))) (\<lambda>b.
      Inr (out\<lparr>ct_body := b, currentSize := curSize ic\<rparr>))"

section \<open>Saving a chunk\<close>

definition count_written :: "u32 \<Rightarrow> 'a store_st_scheme \<Rightarrow> 'a store_st_scheme" where
  "count_written chunkSize st = st\<lparr>writtenDataSize := writtenDataSize st + ucast chunkSize,
     writtenChunkNum := writtenChunkNum st + 1\<rparr>"

text \<open>\<open>SaveChunk\<close> (the DEBE index): content and IV only.\<close>

definition place_plain ::
  "bytes \<Rightarrow> RecipeEntry \<Rightarrow> u32 \<Rightarrow> 'a store_st_scheme \<Rightarrow> fault + RecipeEntry \<times> 'a store_st_scheme" where
  "place_plain chunkData chunkAddr saveOffset st =
    (let chunkSize = word_of_nat (length chunkData) :: u32
     in bindE (memcpyE MAX_CONTAINER_SIZE (ic_buf (inContainer st)) (unat saveOffset) chunkData) (\<lambda>b1.
        bindE (memcpyE MAX_CONTAINER_SIZE b1 (unat (saveOffset + chunkSize)) (take CRYPTO_BLOCK_SIZE (client_iv st))) (\<lambda>b2.
          Inr (chunkAddr\<lparr>containerName := containerID (curContainer st), addr_offset := saveOffset\<rparr>,
            count_written chunkSize (st\<lparr>inContainer := \<lparr>ic_buf = b2,
              curSize = curSize (inContainer st) + chunkSize + word_of_nat CRYPTO_BLOCK_SIZE\<rparr>\<rparr>)))))"

definition SaveChunk ::
  "bytes \<Rightarrow> RecipeEntry \<Rightarrow> 'a store_st_scheme \<Rightarrow> fault + RecipeEntry \<times> 'a store_st_scheme" where
  "SaveChunk chunkData chunkAddr st =
    (let chunkSize = word_of_nat (length chunkData) :: u32;
         addr1 = chunkAddr\<lparr>addr_length := chunkSize\<rparr>;
         saveOffset = curSize (inContainer st)
     in if word_of_nat CRYPTO_BLOCK_SIZE + chunkSize + saveOffset < word_of_nat MAX_CONTAINER_SIZE then
          place_plain chunkData addr1 saveOffset st
        else
          bindE (dump_container (inContainer st) (curContainer st)) (\<lambda>out.
          bindE (Ocall_WriteContainer (st\<lparr>curContainer := out, inContainer := (inContainer st)\<lparr>curSize := 0\<rparr>\<rparr>)) (\<lambda>st1.
            place_plain chunkData addr1 0 st1)))"

text \<open>The five copies of a chunk with its metadata: address, fingerprint, super-features, content, IV.\<close>

definition pack_chunk :: "RecipeEntry \<Rightarrow> fp \<Rightarrow> bytes \<Rightarrow> bytes \<Rightarrow> bytes \<Rightarrow> bytes \<Rightarrow> nat \<Rightarrow> fault + bytes" where
  "pack_chunk chunkAddr chunkfp chunksf chunkData iv buf writeOffset =
    bindE (memcpyE MAX_CONTAINER_SIZE buf writeOffset (entry_image chunkAddr)) (\<lambda>b1.
    bindE (memcpyE MAX_CONTAINER_SIZE b1 (writeOffset + RECIPE_ENTRY_SIZE) (take CHUNK_HASH_SIZE chunkfp)) (\<lambda>b2.
    bindE (memcpyE MAX_CONTAINER_SIZE b2 (writeOffset + RECIPE_ENTRY_SIZE + CHUNK_HASH_SIZE)
             (take (3 * CHUNK_HASH_SIZE) chunksf)) (\<lambda>b3.
    bindE (memcpyE MAX_CONTAINER_SIZE b3 (writeOffset + RECIPE_ENTRY_SIZE + 4 * CHUNK_HASH_SIZE) chunkData) (\<lambda>b4.
      memcpyE MAX_CONTAINER_SIZE b4 (writeOffset + RECIPE_ENTRY_SIZE + 4 * CHUNK_HASH_SIZE + length chunkData)
        (take CRYPTO_BLOCK_SIZE iv)))))"

text \<open>
  The guard: the first four terms are added as \<open>uint32_t\<close>, \<open>sizeof\<close> makes the last addition
  and the comparison 64 bits wide.
\<close>

definition chunk_fits :: "u32 \<Rightarrow> u32 \<Rightarrow> bool" where
  "chunk_fits chunkSize saveOffset \<longleftrightarrow>
     (ucast (word_of_nat CRYPTO_BLOCK_SIZE + chunkSize + saveOffset + word_of_nat (4 * CHUNK_HASH_SIZE) :: u32) :: u64) +
       word_of_nat RECIPE_ENTRY_SIZE < word_of_nat MAX_CONTAINER_SIZE"

definition grown_size :: "u32 \<Rightarrow> u32 \<Rightarrow> u32" where
  "grown_size sz chunkSize = sz + chunkSize + word_of_nat CRYPTO_BLOCK_SIZE +
     word_of_nat (4 * CHUNK_HASH_SIZE) + word_of_nat RECIPE_ENTRY_SIZE"

text \<open>Placing a chunk at an offset of the current base or delta container.\<close>

definition place_base ::
  "bytes \<Rightarrow> RecipeEntry \<Rightarrow> bytes \<Rightarrow> fp \<Rightarrow> u32 \<Rightarrow> 'a store_st_scheme \<Rightarrow> fault + RecipeEntry \<times> 'a store_st_scheme" where
  "place_base chunkData chunkAddr chunksf chunkfp saveOffset st =
    (let chunkSize = word_of_nat (length chunkData) :: u32;
         addr = chunkAddr\<lparr>addr_offset := saveOffset, containerName := containerID (curContainer st)\<rparr>
     in bindE (pack_chunk addr chunkfp chunksf chunkData (client_iv st) (ic_buf (inContainer st)) (unat saveOffset)) (\<lambda>b.
          Inr (addr, count_written chunkSize (st\<lparr>inContainer :=
            \<lparr>ic_buf = b, curSize = grown_size (curSize (inContainer st)) chunkSize\<rparr>\<rparr>))))"

definition place_delta ::
  "bytes \<Rightarrow> RecipeEntry \<Rightarrow> bytes \<Rightarrow> fp \<Rightarrow> u32 \<Rightarrow> 'a store_st_scheme \<Rightarrow> fault + RecipeEntry \<times> 'a store_st_scheme" where
  "place_delta chunkData chunkAddr chunksf chunkfp saveOffset st =
    (let chunkSize = word_of_nat (length chunkData) :: u32;
         addr = chunkAddr\<lparr>addr_offset := saveOffset, containerName := containerID (curDeltaContainer st)\<rparr>
     in bindE (pack_chunk addr chunkfp chunksf chunkData (client_iv st) (ic_buf (deltainContainer st)) (unat saveOffset)) (\<lambda>b.
          Inr (addr, count_written chunkSize (st\<lparr>deltainContainer :=
            \<lparr>ic_buf = b, curSize = grown_size (curSize (deltainContainer st)) chunkSize\<rparr>\<rparr>))))"

definition SavebaseChunk ::
  "bytes \<Rightarrow> RecipeEntry \<Rightarrow> bytes \<Rightarrow> fp \<Rightarrow> 'a store_st_scheme \<Rightarrow> fault + RecipeEntry \<times> 'a store_st_scheme" where
  "SavebaseChunk chunkData chunkAddr chunksf chunkfp st =
    (let chunkSize = word_of_nat (length chunkData) :: u32;
         addr1 = chunkAddr\<lparr>addr_length := chunkSize, superfeature := take (3 * CHUNK_HASH_SIZE) chunksf\<rparr>;
         saveOffset = curSize (inContainer st)
     in if chunk_fits chunkSize saveOffset then place_base chunkData addr1 chunksf chunkfp saveOffset st
        else
          bindE (dump_container (inContainer st) (curContainer st)) (\<lambda>out.
          bindE (Ocall_WriteContainer (st\<lparr>curContainer := out, inContainer := (inContainer st)\<lparr>curSize := 0\<rparr>\<rparr>)) (\<lambda>st1.
            place_base chunkData addr1 chunksf chunkfp 0 st1)))"

definition SavedeltaChunk ::
  "bytes \<Rightarrow> RecipeEntry \<Rightarrow> bytes \<Rightarrow> fp \<Rightarrow> 'a store_st_scheme \<Rightarrow> fault + RecipeEntry \<times> 'a store_st_scheme" where
  "SavedeltaChunk chunkData chunkAddr chunksf chunkfp st =
    (let chunkSize = word_of_nat (length chunkData) :: u32;
         addr1 = chunkAddr\<lparr>addr_length := chunkSize\<rparr>;
         saveOffset = curSize (deltainContainer st)
     in if chunk_fits chunkSize saveOffset then place_delta chunkData addr1 chunksf chunkfp saveOffset st
        else
          bindE (dump_container (deltainContainer st) (curDeltaContainer st)) (\<lambda>out.
          bindE (Ocall_WriteDeltaContainer (st\<lparr>curDeltaContainer := out, deltainContainer := (deltainContainer st)\<lparr>curSize := 0\<rparr>\<rparr>)) (\<lambda>st1.
            place_delta chunkData addr1 chunksf chunkfp 0 st1)))"

section \<open>The writer\<close>

text \<open>
  Container files by their path. \<open>containerNameTail\<close> is the suffix of the configuration.
\<close>

type_synonym disk = "string \<rightharpoonup> bytes"

definition name_string :: "container_name \<Rightarrow> string" where
  "name_string n = map (\<lambda>b. char_of (unat b)) n"

definition base_path :: "string \<Rightarrow> container_name \<Rightarrow> string" where
  "base_path containerNameTail n = ''Base-Containers/'' @ name_string n @ containerNameTail"

definition delta_path :: "string \<Rightarrow> container_name \<Rightarrow> string" where
  "delta_path containerNameTail n = ''Delta-Containers/'' @ name_string n @ containerNameTail"

definition fileFullName :: "string \<Rightarrow> Container \<Rightarrow> string" where
  "fileFullName containerNameTail c =
    (if ct_delta c then delta_path containerNameTail (containerID c) else base_path containerNameTail (containerID c))"

text \<open>
  The steps of a save, as another thread sees them on the disk: \<open>fopen\<close> with mode \<open>wb\<close> leaves an empty
  file, \<open>fwrite\<close> and \<open>fclose\<close> fill it from the front, in pieces of any size.
\<close>

definition fopen_wb :: "string \<Rightarrow> Container \<Rightarrow> disk \<Rightarrow> disk" where
  "fopen_wb containerNameTail c d = d(fileFullName containerNameTail c \<mapsto> [])"

definition fwrite_upto :: "string \<Rightarrow> Container \<Rightarrow> nat \<Rightarrow> disk \<Rightarrow> disk" where
  "fwrite_upto containerNameTail c k d =
    d(fileFullName containerNameTail c \<mapsto> take k (take (unat (currentSize c)) (ct_body c)))"

definition SaveToFile :: "string \<Rightarrow> Container \<Rightarrow> disk \<Rightarrow> disk" where
  "SaveToFile containerNameTail c d =
    fwrite_upto containerNameTail c (unat (currentSize c)) (fopen_wb containerNameTail c d)"

lemma SaveToFile_eq:
  "SaveToFile t c d = d((if ct_delta c then delta_path t (containerID c) else base_path t (containerID c))
     \<mapsto> take (unat (currentSize c)) (ct_body c))"
  by (simp add: SaveToFile_def fwrite_upto_def fopen_wb_def fileFullName_def)

text \<open>\<open>DataWriter::Run\<close> until the queue is done and empty: every container in the order of the queue.\<close>

definition DataWriter_Run :: "string \<Rightarrow> Container list \<Rightarrow> disk \<Rightarrow> disk" where
  "DataWriter_Run containerNameTail mq d = fold (SaveToFile containerNameTail) mq d"

section \<open>Placing one chunk\<close>

text \<open>The bytes of a chunk with its metadata, as they lie in a container.\<close>

definition chunk_record :: "RecipeEntry \<Rightarrow> fp \<Rightarrow> bytes \<Rightarrow> bytes \<Rightarrow> bytes \<Rightarrow> bytes" where
  "chunk_record addr chunkfp chunksf chunkData iv = entry_image addr @ chunkfp @ chunksf @ chunkData @ iv"

definition META_SIZE :: nat where "META_SIZE = RECIPE_ENTRY_SIZE + 4 * CHUNK_HASH_SIZE + CRYPTO_BLOCK_SIZE"

lemmas meta_consts = META_SIZE_def RECIPE_ENTRY_SIZE_def size_consts

definition meta_ok :: "fp \<Rightarrow> bytes \<Rightarrow> bytes \<Rightarrow> bool" where
  "meta_ok chunkfp chunksf iv \<longleftrightarrow> length chunkfp = CHUNK_HASH_SIZE \<and> length chunksf = 3 * CHUNK_HASH_SIZE \<and>
     length iv = CRYPTO_BLOCK_SIZE"

lemma length_chunk_record [simp]:
  "entry_wf addr \<Longrightarrow> meta_ok f sf iv \<Longrightarrow> length (chunk_record addr f sf d iv) = META_SIZE + length d"
  by (simp add: chunk_record_def meta_ok_def META_SIZE_def)

lemma pack_chunk_ok:
  assumes "entry_wf addr" "meta_ok f sf iv" "off \<le> length buf" "off + META_SIZE + length d \<le> MAX_CONTAINER_SIZE"
  shows "pack_chunk addr f sf d iv buf off = Inr (put buf off (chunk_record addr f sf d iv))"
proof -
  have l: "length (entry_image addr) = 144" "length f = 32" "length sf = 96" "length iv = 16"
    using assms(1,2) by (simp_all add: meta_ok_def meta_consts)
  have cap: "off + 288 + length d \<le> MAX_CONTAINER_SIZE" using assms(4) by (simp add: meta_consts)
  show ?thesis
    using l cap assms(3)
    by (simp add: pack_chunk_def memcpyE_ok memcpyE_next chunk_record_def RECIPE_ENTRY_SIZE_def CHUNK_HASH_SIZE_def
        CRYPTO_BLOCK_SIZE_def del: length_entry_image)
qed

text \<open>With sizes below \<open>2\<^sup>3\<^sup>1\<close> the guard and the new size are the mathematical ones.\<close>

lemma chunk_fits_iff:
  assumes "k < 2 ^ 31" "unat off \<le> MAX_CONTAINER_SIZE"
  shows "chunk_fits (word_of_nat k) off \<longleftrightarrow> unat off + META_SIZE + k < MAX_CONTAINER_SIZE"
proof -
  let ?n = "unat off + k + 144"
  have n: "?n < 2 ^ 32" using assms by (simp add: MAX_CONTAINER_SIZE_def)
  have "word_of_nat CRYPTO_BLOCK_SIZE + word_of_nat k + off + word_of_nat (4 * CHUNK_HASH_SIZE) = (word_of_nat ?n :: u32)"
    by (simp add: size_consts)
  then have "chunk_fits (word_of_nat k) off \<longleftrightarrow>
      (ucast (word_of_nat ?n :: u32) :: u64) + word_of_nat RECIPE_ENTRY_SIZE < word_of_nat MAX_CONTAINER_SIZE"
    unfolding chunk_fits_def by (simp only:)
  also have "(ucast (word_of_nat ?n :: u32) :: u64) = word_of_nat ?n"
  proof -
    have "unat (word_of_nat ?n :: u32) = ?n" using n by (intro unat_of_nat_small) simp
    then show ?thesis by (metis of_nat_unat)
  qed
  also have "(word_of_nat ?n :: u64) + word_of_nat RECIPE_ENTRY_SIZE = word_of_nat (?n + RECIPE_ENTRY_SIZE)" by simp
  also have "\<dots> < word_of_nat MAX_CONTAINER_SIZE \<longleftrightarrow> ?n + RECIPE_ENTRY_SIZE < MAX_CONTAINER_SIZE"
  proof -
    have "unat (word_of_nat (?n + RECIPE_ENTRY_SIZE) :: u64) = ?n + RECIPE_ENTRY_SIZE"
      using n by (intro unat_of_nat_small) (simp add: RECIPE_ENTRY_SIZE_def)
    moreover have "unat (word_of_nat MAX_CONTAINER_SIZE :: u64) = MAX_CONTAINER_SIZE"
      by (intro unat_of_nat_small) (simp add: MAX_CONTAINER_SIZE_def)
    ultimately show ?thesis by (simp only: word_less_nat_alt)
  qed
  finally show ?thesis by (simp add: meta_consts)
qed

lemma grown_size_eq:
  assumes "unat sz + META_SIZE + k < 2 ^ 32"
  shows "unat (grown_size sz (word_of_nat k)) = unat sz + META_SIZE + k"
proof -
  have "grown_size sz (word_of_nat k) = word_of_nat (unat sz + META_SIZE + k)"
    by (simp add: grown_size_def meta_consts)
  then show ?thesis using assms unat_of_nat_small [of "unat sz + META_SIZE + k", where ?'a = 32] by (simp only:) simp
qed

section \<open>What a container holds\<close>

text \<open>
  The bytes that can be read under a container name: in the two in-enclave containers, else
  in the queue to the writer.
\<close>

definition ic_bytes :: "InContainer \<Rightarrow> bytes" where
  "ic_bytes ic = take (unat (curSize ic)) (ic_buf ic)"

definition ct_bytes :: "Container \<Rightarrow> bytes" where
  "ct_bytes c = take (unat (currentSize c)) (ct_body c)"

definition container_bytes :: "'a store_st_scheme \<Rightarrow> container_name \<Rightarrow> bytes option" where
  "container_bytes st n =
    (if n = containerID (curContainer st) then Some (ic_bytes (inContainer st))
     else if n = containerID (curDeltaContainer st) then Some (ic_bytes (deltainContainer st))
     else map_option ct_bytes (find (\<lambda>c. containerID c = n) (inputMQ st)))"

definition fetch :: "'a store_st_scheme \<Rightarrow> RecipeEntry \<Rightarrow> nat \<Rightarrow> bytes option" where
  "fetch st a n =
    Option.bind (container_bytes st (containerName a)) (\<lambda>c.
      if unat (addr_offset a) + n \<le> length c then Some (seg (unat (addr_offset a)) n c) else None)"

definition used_names :: "nat \<Rightarrow> container_name set" where
  "used_names k = {u. \<exists>n < k. uuid_bytes n = Some u}"

definition ic_ok :: "InContainer \<Rightarrow> bool" where
  "ic_ok ic \<longleftrightarrow> unat (curSize ic) \<le> length (ic_buf ic) \<and> unat (curSize ic) < MAX_CONTAINER_SIZE"

definition store_names :: "'a store_st_scheme \<Rightarrow> container_name list" where
  "store_names st = containerID (curContainer st) # containerID (curDeltaContainer st) # map containerID (inputMQ st)"

definition store_inv :: "'a store_st_scheme \<Rightarrow> bool" where
  "store_inv st \<longleftrightarrow> ic_ok (inContainer st) \<and> ic_ok (deltainContainer st) \<and>
     distinct (store_names st) \<and> set (store_names st) \<subseteq> used_names (con_times st) \<and>
     length (client_iv st) = CRYPTO_BLOCK_SIZE \<and>
     currentSize (curContainer st) = 0 \<and> currentSize (curDeltaContainer st) = 0"

definition extends :: "'a store_st_scheme \<Rightarrow> 'a store_st_scheme \<Rightarrow> bool" where
  "extends st st' \<longleftrightarrow> (\<forall>n c. container_bytes st n = Some c \<longrightarrow> (\<exists>d. container_bytes st' n = Some (c @ d)))"

lemma extends_refl: "extends st st"
  by (auto simp: extends_def intro: exI [of _ "[]"])

lemma extends_trans: "extends a b \<Longrightarrow> extends b c \<Longrightarrow> extends a c"
  by (fastforce simp: extends_def)

lemma fetch_mono: "extends st st' \<Longrightarrow> fetch st a n = Some d \<Longrightarrow> fetch st' a n = Some d"
  by (fastforce simp: extends_def fetch_def bind_eq_Some_conv seg_append_left split: if_splits)

section \<open>Fresh names\<close>

lemma char_of_byte: "char_of (unat (of_char c :: byte)) = c"
proof -
  have "(of_nat (of_char c) :: byte) = of_char c" by (rule of_nat_of_char)
  moreover have "(of_char c :: nat) < 2 ^ LENGTH(8)" using nat_of_char_less_256 [of c] by simp
  ultimately have "unat (of_char c :: byte) = of_char c" using unat_of_nat_small by metis
  then show ?thesis by simp
qed

lemma of_char_inj: "inj (of_char :: char \<Rightarrow> byte)"
  by (rule inj_onI) (metis char_of_byte)

lemma uuid_bytes_ok:
  assumes "n < INT_MAX"
  shows "\<exists>u. uuid_bytes n = Some u \<and> u \<notin> used_names n \<and> length u = CONTAINER_ID_LENGTH"
proof -
  obtain s where s: "CreateUUID CONTAINER_ID_LENGTH (word_of_nat n) = Some s" "length s = CONTAINER_ID_LENGTH"
    using CreateUUID_ok by blast
  have "map of_char s \<notin> used_names n"
  proof
    assume "map of_char s \<in> used_names n"
    then obtain m t where m: "m < n" "CreateUUID CONTAINER_ID_LENGTH (word_of_nat m) = Some t" "map of_char t = (map of_char s :: bytes)"
      using assms by (auto simp: used_names_def uuid_bytes_def split: if_splits)
    then have "t = s" using inj_mapI [OF of_char_inj] by (simp add: inj_def)
    then show False using CreateUUID_inj [of "word_of_nat m" "word_of_nat n"] m s assms by (simp add: sint_count)
  qed
  then show ?thesis using s assms by (simp add: uuid_bytes_def)
qed

lemma used_names_Suc: "uuid_bytes n = Some u \<Longrightarrow> used_names (Suc n) = insert u (used_names n)"
  by (auto simp: used_names_def less_Suc_eq)

lemma used_names_length: "u \<in> used_names k \<Longrightarrow> k \<le> INT_MAX \<Longrightarrow> length u = CONTAINER_ID_LENGTH"
proof -
  assume "u \<in> used_names k" "k \<le> INT_MAX"
  then obtain n where "n < INT_MAX" "uuid_bytes n = Some u"
    by (auto simp: used_names_def dest: less_le_trans)
  with uuid_bytes_ok [of n] show ?thesis by auto
qed

section \<open>Appending and handing over\<close>

lemmas store_simps = store_inv_def store_names_def extends_def container_bytes_def ic_bytes_def ct_bytes_def

definition append_ic :: "InContainer \<Rightarrow> bytes \<Rightarrow> u32 \<Rightarrow> InContainer" where
  "append_ic ic r sz = \<lparr>ic_buf = put (ic_buf ic) (unat (curSize ic)) r, curSize = sz\<rparr>"

lemma append_ic_ok:
  assumes "ic_ok ic" "unat sz = unat (curSize ic) + length r" "unat sz < MAX_CONTAINER_SIZE"
  shows "ic_ok (append_ic ic r sz) \<and> ic_bytes (append_ic ic r sz) = ic_bytes ic @ r"
  using assms put_length_le [of "unat (curSize ic)" "ic_buf ic" r]
  by (simp add: ic_ok_def ic_bytes_def append_ic_def take_put)

text \<open>Two states that differ in the contents of the in-enclave containers only.\<close>

definition same_slots :: "'a store_st_scheme \<Rightarrow> 'a store_st_scheme \<Rightarrow> bool" where
  "same_slots st st' \<longleftrightarrow> curContainer st' = curContainer st \<and> curDeltaContainer st' = curDeltaContainer st \<and>
     inputMQ st' = inputMQ st \<and> con_times st' = con_times st \<and> client_iv st' = client_iv st"

lemma append_base:
  assumes "store_inv st" "same_slots st st'" "inContainer st' = append_ic (inContainer st) r sz"
    "deltainContainer st' = deltainContainer st"
    "unat sz = unat (curSize (inContainer st)) + length r" "unat sz < MAX_CONTAINER_SIZE"
  shows "store_inv st' \<and> extends st st' \<and>
    container_bytes st' (containerID (curContainer st)) = Some (ic_bytes (inContainer st) @ r)"
  using assms append_ic_ok [of "inContainer st" sz r]
  by (auto simp: store_inv_def store_names_def extends_def container_bytes_def same_slots_def)

lemma append_delta:
  assumes "store_inv st" "same_slots st st'" "deltainContainer st' = append_ic (deltainContainer st) r sz"
    "inContainer st' = inContainer st"
    "unat sz = unat (curSize (deltainContainer st)) + length r" "unat sz < MAX_CONTAINER_SIZE"
  shows "store_inv st' \<and> extends st st' \<and>
    container_bytes st' (containerID (curDeltaContainer st)) = Some (ic_bytes (deltainContainer st) @ r)"
  using assms append_ic_ok [of "deltainContainer st" sz r]
  by (auto simp: store_inv_def store_names_def extends_def container_bytes_def same_slots_def)

lemma dump_container_ok:
  assumes "ic_ok ic"
  shows "\<exists>b. dump_container ic out = Inr (out\<lparr>ct_body := b, currentSize := curSize ic\<rparr>) \<and>
    take (unat (curSize ic)) b = ic_bytes ic"
  using assms
  by (intro exI [of _ "put (ct_body out) 0 (take (unat (curSize ic)) (ic_buf ic))"])
    (simp add: dump_container_def memcpyE_ok ic_ok_def ic_bytes_def take_put)

lemma find_append: "find P (xs @ ys) = (case find P xs of None \<Rightarrow> find P ys | Some x \<Rightarrow> Some x)"
  by (induction xs) auto

lemma find_containerID_None: "find (\<lambda>c. containerID c = n) cs = None \<longleftrightarrow> n \<notin> containerID ` set cs"
  by (auto simp: find_None_iff image_iff)

lemma container_bytes_known: "container_bytes st n = Some c \<Longrightarrow> n \<in> set (store_names st)"
  by (auto simp: container_bytes_def store_names_def find_Some_iff split: if_splits)

lemma rotate_base:
  assumes "store_inv st" "con_times st < INT_MAX"
  shows "\<exists>out st1. dump_container (inContainer st) (curContainer st) = Inr out \<and>
    Ocall_WriteContainer (st\<lparr>curContainer := out, inContainer := (inContainer st)\<lparr>curSize := 0\<rparr>\<rparr>) = Inr st1 \<and>
    store_inv st1 \<and> extends st st1 \<and> curSize (inContainer st1) = 0 \<and> con_times st1 = Suc (con_times st) \<and>
    client_iv st1 = client_iv st \<and> store_st.more st1 = store_st.more st"
proof -
  let ?ic = "inContainer st" and ?c = "curContainer st"
  obtain b where b: "dump_container ?ic ?c = Inr (?c\<lparr>ct_body := b, currentSize := curSize ?ic\<rparr>)"
      "take (unat (curSize ?ic)) b = ic_bytes ?ic"
    using dump_container_ok [of ?ic ?c] assms(1) by (auto simp: store_inv_def)
  obtain u where u: "uuid_bytes (con_times st) = Some u" "u \<notin> used_names (con_times st)"
    using uuid_bytes_ok [OF assms(2)] by blast
  let ?full = "?c\<lparr>ct_body := b, currentSize := curSize ?ic, ct_delta := False\<rparr>"
  let ?st1 = "st\<lparr>inContainer := ?ic\<lparr>curSize := 0\<rparr>, inputMQ := inputMQ st @ [?full],
      con_times := Suc (con_times st), curContainer := ?full\<lparr>containerID := u, currentSize := 0\<rparr>\<rparr>"
  have "Ocall_WriteContainer (st\<lparr>curContainer := ?c\<lparr>ct_body := b, currentSize := curSize ?ic\<rparr>, inContainer := ?ic\<lparr>curSize := 0\<rparr>\<rparr>) = Inr ?st1"
    using u by (simp add: Ocall_WriteContainer_def new_uuid_def Let_def)
  moreover have "store_inv ?st1"
    using assms(1) u used_names_Suc [OF u(1)]
    by (auto simp: store_inv_def store_names_def ic_ok_def MAX_CONTAINER_SIZE_def)
  moreover have "extends st ?st1"
    unfolding extends_def
  proof (intro allI impI)
    fix n c
    assume c: "container_bytes st n = Some c"
    have inv: "distinct (store_names st)" "set (store_names st) \<subseteq> used_names (con_times st)"
      using assms(1) by (simp_all add: store_inv_def)
    have "n \<noteq> u" using container_bytes_known [OF c] u(2) inv(2) by auto
    moreover have "find (\<lambda>x. containerID x = containerID ?c) (inputMQ st) = None"
      using inv(1) by (auto simp: find_containerID_None store_names_def)
    ultimately have "container_bytes ?st1 n = Some c"
      using c inv b(2) u(2) by (auto simp: container_bytes_def store_names_def find_append ct_bytes_def split: if_splits)
    then show "\<exists>d. container_bytes ?st1 n = Some (c @ d)" by simp
  qed
  ultimately show ?thesis using b(1) by auto
qed

lemma rotate_delta:
  assumes "store_inv st" "con_times st < INT_MAX"
  shows "\<exists>out st1. dump_container (deltainContainer st) (curDeltaContainer st) = Inr out \<and>
    Ocall_WriteDeltaContainer (st\<lparr>curDeltaContainer := out, deltainContainer := (deltainContainer st)\<lparr>curSize := 0\<rparr>\<rparr>) = Inr st1 \<and>
    store_inv st1 \<and> extends st st1 \<and> curSize (deltainContainer st1) = 0 \<and> con_times st1 = Suc (con_times st) \<and>
    client_iv st1 = client_iv st \<and> store_st.more st1 = store_st.more st"
proof -
  let ?ic = "deltainContainer st" and ?c = "curDeltaContainer st"
  obtain b where b: "dump_container ?ic ?c = Inr (?c\<lparr>ct_body := b, currentSize := curSize ?ic\<rparr>)"
      "take (unat (curSize ?ic)) b = ic_bytes ?ic"
    using dump_container_ok [of ?ic ?c] assms(1) by (auto simp: store_inv_def)
  obtain u where u: "uuid_bytes (con_times st) = Some u" "u \<notin> used_names (con_times st)"
    using uuid_bytes_ok [OF assms(2)] by blast
  let ?full = "?c\<lparr>ct_body := b, currentSize := curSize ?ic, ct_delta := True\<rparr>"
  let ?st1 = "st\<lparr>deltainContainer := ?ic\<lparr>curSize := 0\<rparr>, inputMQ := inputMQ st @ [?full],
      con_times := Suc (con_times st), curDeltaContainer := ?full\<lparr>containerID := u, currentSize := 0\<rparr>\<rparr>"
  have "Ocall_WriteDeltaContainer (st\<lparr>curDeltaContainer := ?c\<lparr>ct_body := b, currentSize := curSize ?ic\<rparr>, deltainContainer := ?ic\<lparr>curSize := 0\<rparr>\<rparr>) = Inr ?st1"
    using u by (simp add: Ocall_WriteDeltaContainer_def new_uuid_def Let_def)
  moreover have "store_inv ?st1"
    using assms(1) u used_names_Suc [OF u(1)]
    by (auto simp: store_inv_def store_names_def ic_ok_def MAX_CONTAINER_SIZE_def)
  moreover have "extends st ?st1"
    unfolding extends_def
  proof (intro allI impI)
    fix n c
    assume c: "container_bytes st n = Some c"
    have inv: "distinct (store_names st)" "set (store_names st) \<subseteq> used_names (con_times st)"
      using assms(1) by (simp_all add: store_inv_def)
    have "n \<noteq> u" using container_bytes_known [OF c] u(2) inv(2) by auto
    moreover have "find (\<lambda>x. containerID x = containerID ?c) (inputMQ st) = None"
      using inv(1) by (auto simp: find_containerID_None store_names_def)
    ultimately have "container_bytes ?st1 n = Some c"
      using c inv b(2) u(2) by (auto simp: container_bytes_def store_names_def find_append ct_bytes_def split: if_splits)
    then show "\<exists>d. container_bytes ?st1 n = Some (c @ d)" by simp
  qed
  ultimately show ?thesis using b(1) by auto
qed

section \<open>Saves are found again\<close>

text \<open>
  What a save promises: it succeeds, keeps the invariant and everything saved before, and
  the record can be fetched at the address it returns. At most one container is used up.
\<close>

definition saved :: "'a store_st_scheme \<Rightarrow> RecipeEntry \<Rightarrow> bytes \<Rightarrow> 'a store_st_scheme \<Rightarrow> bool" where
  "saved st a r st' \<longleftrightarrow> store_inv st' \<and> extends st st' \<and> fetch st' a (length r) = Some r \<and>
     con_times st' \<le> Suc (con_times st) \<and> client_iv st' = client_iv st \<and>
     length (containerName a) = CONTAINER_ID_LENGTH \<and> store_st.more st' = store_st.more st"

lemma saved_via: "extends st st1 \<Longrightarrow> con_times st1 \<le> Suc (con_times st) \<Longrightarrow> client_iv st1 = client_iv st \<Longrightarrow>
  store_st.more st1 = store_st.more st \<Longrightarrow> con_times st' = con_times st1 \<Longrightarrow> saved st1 a r st' \<Longrightarrow> saved st a r st'"
  by (auto simp: saved_def intro: extends_trans)

lemma saved_base:
  assumes "store_inv st" "con_times st \<le> INT_MAX"
    "unat sz = unat (curSize (inContainer st)) + length r" "unat sz < MAX_CONTAINER_SIZE"
    "containerName a = containerID (curContainer st)" "addr_offset a = curSize (inContainer st)"
    "same_slots st st'" "inContainer st' = append_ic (inContainer st) r sz" "deltainContainer st' = deltainContainer st"
    "store_st.more st' = store_st.more st"
  shows "saved st a r st'"
proof -
  have "store_inv st' \<and> extends st st' \<and> container_bytes st' (containerName a) = Some (ic_bytes (inContainer st) @ r)"
    using append_base [OF assms(1,7,8,9,3,4)] assms(5) by simp
  moreover have "length (ic_bytes (inContainer st)) = unat (addr_offset a)"
    using assms(1,6) by (simp add: store_inv_def ic_ok_def ic_bytes_def)
  moreover have "length (containerName a) = CONTAINER_ID_LENGTH"
    using assms(1,2,5) used_names_length by (auto simp: store_inv_def store_names_def)
  ultimately show ?thesis
    using assms(7,10) by (simp add: saved_def fetch_def same_slots_def seg_append_right seg_def)
qed

lemma saved_delta:
  assumes "store_inv st" "con_times st \<le> INT_MAX"
    "unat sz = unat (curSize (deltainContainer st)) + length r" "unat sz < MAX_CONTAINER_SIZE"
    "containerName a = containerID (curDeltaContainer st)" "addr_offset a = curSize (deltainContainer st)"
    "same_slots st st'" "deltainContainer st' = append_ic (deltainContainer st) r sz" "inContainer st' = inContainer st"
    "store_st.more st' = store_st.more st"
  shows "saved st a r st'"
proof -
  have "store_inv st' \<and> extends st st' \<and> container_bytes st' (containerName a) = Some (ic_bytes (deltainContainer st) @ r)"
    using append_delta [OF assms(1,7,8,9,3,4)] assms(5) by simp
  moreover have "length (ic_bytes (deltainContainer st)) = unat (addr_offset a)"
    using assms(1,6) by (simp add: store_inv_def ic_ok_def ic_bytes_def)
  moreover have "length (containerName a) = CONTAINER_ID_LENGTH"
    using assms(1,2,5) used_names_length by (auto simp: store_inv_def store_names_def)
  ultimately show ?thesis
    using assms(7,10) by (simp add: saved_def fetch_def same_slots_def seg_append_right seg_def)
qed

text \<open>The fields of an address that a save does not set.\<close>

lemma place_base_ok:
  assumes "store_inv st" "con_times st \<le> INT_MAX" "meta_ok f sf (client_iv st)"
    "length (basechunkHash a) = CHUNK_HASH_SIZE" "length (superfeature a) = 3 * CHUNK_HASH_SIZE"
    "unat (curSize (inContainer st)) + META_SIZE + length d < MAX_CONTAINER_SIZE"
  shows "\<exists>a' st'. place_base d a sf f (curSize (inContainer st)) st = Inr (a', st') \<and>
    saved st a' (chunk_record a' f sf d (client_iv st)) st' \<and> con_times st' = con_times st \<and>
    a' = a\<lparr>addr_offset := addr_offset a', containerName := containerName a'\<rparr>"
proof -
  let ?off = "curSize (inContainer st)"
  let ?a = "a\<lparr>addr_offset := ?off, containerName := containerID (curContainer st)\<rparr>"
  let ?r = "chunk_record ?a f sf d (client_iv st)" and ?sz = "grown_size ?off (word_of_nat (length d))"
  have wf: "entry_wf ?a"
    using assms(1,2,4,5) used_names_length by (auto simp: entry_wf_def store_inv_def store_names_def)
  have off: "unat ?off \<le> length (ic_buf (inContainer st))" using assms(1) by (simp add: store_inv_def ic_ok_def)
  have sz: "unat ?sz = unat ?off + length ?r" "unat ?sz < MAX_CONTAINER_SIZE"
    using assms(6) grown_size_eq [of ?off "length d"] wf assms(3) by (simp_all add: MAX_CONTAINER_SIZE_def)
  have "place_base d a sf f ?off st = Inr (?a, count_written (word_of_nat (length d))
      (st\<lparr>inContainer := append_ic (inContainer st) ?r ?sz\<rparr>))"
    using pack_chunk_ok [OF wf assms(3) off] assms(6) by (simp add: place_base_def Let_def append_ic_def)
  moreover have "saved st ?a ?r (count_written (word_of_nat (length d)) (st\<lparr>inContainer := append_ic (inContainer st) ?r ?sz\<rparr>))"
    using assms(1,2) sz by (intro saved_base) (simp_all add: same_slots_def count_written_def)
  ultimately show ?thesis by (simp add: count_written_def)
qed

lemma place_delta_ok:
  assumes "store_inv st" "con_times st \<le> INT_MAX" "meta_ok f sf (client_iv st)"
    "length (basechunkHash a) = CHUNK_HASH_SIZE" "length (superfeature a) = 3 * CHUNK_HASH_SIZE"
    "unat (curSize (deltainContainer st)) + META_SIZE + length d < MAX_CONTAINER_SIZE"
  shows "\<exists>a' st'. place_delta d a sf f (curSize (deltainContainer st)) st = Inr (a', st') \<and>
    saved st a' (chunk_record a' f sf d (client_iv st)) st' \<and> con_times st' = con_times st \<and>
    a' = a\<lparr>addr_offset := addr_offset a', containerName := containerName a'\<rparr>"
proof -
  let ?off = "curSize (deltainContainer st)"
  let ?a = "a\<lparr>addr_offset := ?off, containerName := containerID (curDeltaContainer st)\<rparr>"
  let ?r = "chunk_record ?a f sf d (client_iv st)" and ?sz = "grown_size ?off (word_of_nat (length d))"
  have wf: "entry_wf ?a"
    using assms(1,2,4,5) used_names_length by (auto simp: entry_wf_def store_inv_def store_names_def)
  have off: "unat ?off \<le> length (ic_buf (deltainContainer st))" using assms(1) by (simp add: store_inv_def ic_ok_def)
  have sz: "unat ?sz = unat ?off + length ?r" "unat ?sz < MAX_CONTAINER_SIZE"
    using assms(6) grown_size_eq [of ?off "length d"] wf assms(3) by (simp_all add: MAX_CONTAINER_SIZE_def)
  have "place_delta d a sf f ?off st = Inr (?a, count_written (word_of_nat (length d))
      (st\<lparr>deltainContainer := append_ic (deltainContainer st) ?r ?sz\<rparr>))"
    using pack_chunk_ok [OF wf assms(3) off] assms(6) by (simp add: place_delta_def Let_def append_ic_def)
  moreover have "saved st ?a ?r (count_written (word_of_nat (length d)) (st\<lparr>deltainContainer := append_ic (deltainContainer st) ?r ?sz\<rparr>))"
    using assms(1,2) sz by (intro saved_delta) (simp_all add: same_slots_def count_written_def)
  ultimately show ?thesis by (simp add: count_written_def)
qed

lemma SavebaseChunk_ok:
  assumes "store_inv st" "con_times st < INT_MAX" "meta_ok f sf (client_iv st)"
    "length (basechunkHash a) = CHUNK_HASH_SIZE" "META_SIZE + length d < MAX_CONTAINER_SIZE"
  shows "\<exists>a' st'. SavebaseChunk d a sf f st = Inr (a', st') \<and> saved st a' (chunk_record a' f sf d (client_iv st)) st' \<and>
    a' = a\<lparr>addr_length := word_of_nat (length d), superfeature := sf, addr_offset := addr_offset a',
      containerName := containerName a'\<rparr>"
proof -
  let ?a = "a\<lparr>addr_length := word_of_nat (length d), superfeature := take (3 * CHUNK_HASH_SIZE) sf\<rparr>"
  have sf: "take (3 * CHUNK_HASH_SIZE) sf = sf" "length sf = 3 * CHUNK_HASH_SIZE" using assms(3) by (simp_all add: meta_ok_def)
  have fits: "chunk_fits (word_of_nat (length d)) (curSize (inContainer st)) \<longleftrightarrow>
      unat (curSize (inContainer st)) + META_SIZE + length d < MAX_CONTAINER_SIZE"
    using assms(1,5) by (intro chunk_fits_iff) (auto simp: store_inv_def ic_ok_def MAX_CONTAINER_SIZE_def)
  show ?thesis
  proof (cases "chunk_fits (word_of_nat (length d)) (curSize (inContainer st))")
    case True
    with place_base_ok [of st f sf ?a d] assms fits sf show ?thesis by (auto simp: SavebaseChunk_def Let_def)
  next
    case False
    obtain out st1 where st1: "dump_container (inContainer st) (curContainer st) = Inr out"
        "Ocall_WriteContainer (st\<lparr>curContainer := out, inContainer := (inContainer st)\<lparr>curSize := 0\<rparr>\<rparr>) = Inr st1"
        "store_inv st1" "extends st st1" "curSize (inContainer st1) = 0" "con_times st1 = Suc (con_times st)"
        "client_iv st1 = client_iv st" "store_st.more st1 = store_st.more st"
      using rotate_base [OF assms(1,2)] by blast
    from place_base_ok [of st1 f sf ?a d] assms sf st1 obtain a' st' where
        "place_base d ?a sf f 0 st1 = Inr (a', st')" "saved st1 a' (chunk_record a' f sf d (client_iv st)) st'"
        "con_times st' = con_times st1" "a' = ?a\<lparr>addr_offset := addr_offset a', containerName := containerName a'\<rparr>"
      by auto
    moreover from this st1 have "saved st a' (chunk_record a' f sf d (client_iv st)) st'"
      by (intro saved_via [of st st1]) simp_all
    ultimately show ?thesis using False st1 sf by (auto simp: SavebaseChunk_def Let_def)
  qed
qed

lemma SavedeltaChunk_ok:
  assumes "store_inv st" "con_times st < INT_MAX" "meta_ok f sf (client_iv st)"
    "length (basechunkHash a) = CHUNK_HASH_SIZE" "length (superfeature a) = 3 * CHUNK_HASH_SIZE"
    "META_SIZE + length d < MAX_CONTAINER_SIZE"
  shows "\<exists>a' st'. SavedeltaChunk d a sf f st = Inr (a', st') \<and> saved st a' (chunk_record a' f sf d (client_iv st)) st' \<and>
    a' = a\<lparr>addr_length := word_of_nat (length d), addr_offset := addr_offset a', containerName := containerName a'\<rparr>"
proof -
  let ?a = "a\<lparr>addr_length := word_of_nat (length d)\<rparr>"
  have fits: "chunk_fits (word_of_nat (length d)) (curSize (deltainContainer st)) \<longleftrightarrow>
      unat (curSize (deltainContainer st)) + META_SIZE + length d < MAX_CONTAINER_SIZE"
    using assms(1,6) by (intro chunk_fits_iff) (auto simp: store_inv_def ic_ok_def MAX_CONTAINER_SIZE_def)
  show ?thesis
  proof (cases "chunk_fits (word_of_nat (length d)) (curSize (deltainContainer st))")
    case True
    with place_delta_ok [of st f sf ?a d] assms fits show ?thesis by (auto simp: SavedeltaChunk_def Let_def)
  next
    case False
    obtain out st1 where st1: "dump_container (deltainContainer st) (curDeltaContainer st) = Inr out"
        "Ocall_WriteDeltaContainer (st\<lparr>curDeltaContainer := out, deltainContainer := (deltainContainer st)\<lparr>curSize := 0\<rparr>\<rparr>) = Inr st1"
        "store_inv st1" "extends st st1" "curSize (deltainContainer st1) = 0" "con_times st1 = Suc (con_times st)"
        "client_iv st1 = client_iv st" "store_st.more st1 = store_st.more st"
      using rotate_delta [OF assms(1,2)] by blast
    from place_delta_ok [of st1 f sf ?a d] assms st1 obtain a' st' where
        "place_delta d ?a sf f 0 st1 = Inr (a', st')" "saved st1 a' (chunk_record a' f sf d (client_iv st)) st'"
        "con_times st' = con_times st1" "a' = ?a\<lparr>addr_offset := addr_offset a', containerName := containerName a'\<rparr>"
      by auto
    moreover from this st1 have "saved st a' (chunk_record a' f sf d (client_iv st)) st'"
      by (intro saved_via [of st st1]) simp_all
    ultimately show ?thesis using False st1 by (auto simp: SavedeltaChunk_def Let_def)
  qed
qed

text \<open>The plain layout of \<open>SaveChunk\<close>.\<close>

lemma place_plain_ok:
  assumes "store_inv st" "con_times st \<le> INT_MAX"
    "unat (curSize (inContainer st)) + CRYPTO_BLOCK_SIZE + length d < MAX_CONTAINER_SIZE"
  shows "\<exists>a' st'. place_plain d a (curSize (inContainer st)) st = Inr (a', st') \<and>
    saved st a' (d @ client_iv st) st' \<and> con_times st' = con_times st \<and>
    a' = a\<lparr>containerName := containerName a', addr_offset := addr_offset a'\<rparr>"
proof -
  let ?off = "curSize (inContainer st)"
  let ?a = "a\<lparr>containerName := containerID (curContainer st), addr_offset := ?off\<rparr>"
  let ?r = "d @ client_iv st" and ?sz = "?off + word_of_nat (length d) + word_of_nat CRYPTO_BLOCK_SIZE"
  have iv: "length (client_iv st) = CRYPTO_BLOCK_SIZE" and off: "unat ?off \<le> length (ic_buf (inContainer st))"
    using assms(1) by (simp_all add: store_inv_def ic_ok_def)
  have mid: "unat (?off + word_of_nat (length d)) = unat ?off + length d"
  proof -
    have "?off + word_of_nat (length d) = word_of_nat (unat ?off + length d)" by simp
    then show ?thesis using assms(3) unat_of_nat_small [of "unat ?off + length d", where ?'a = 32]
      by (simp only:) (simp add: MAX_CONTAINER_SIZE_def)
  qed
  have sz: "unat ?sz = unat ?off + length ?r" "unat ?sz < MAX_CONTAINER_SIZE"
  proof -
    have "?sz = word_of_nat (unat ?off + length d + CRYPTO_BLOCK_SIZE)" by simp
    then show "unat ?sz = unat ?off + length ?r"
      using assms(3) iv unat_of_nat_small [of "unat ?off + length d + CRYPTO_BLOCK_SIZE", where ?'a = 32]
      by (simp only:) (simp add: MAX_CONTAINER_SIZE_def)
    then show "unat ?sz < MAX_CONTAINER_SIZE" using assms(3) iv by simp
  qed
  have "place_plain d a ?off st = Inr (?a, count_written (word_of_nat (length d))
      (st\<lparr>inContainer := append_ic (inContainer st) ?r ?sz\<rparr>))"
    using assms(3) iv off mid by (simp add: place_plain_def Let_def append_ic_def memcpyE_ok memcpyE_next)
  moreover have "saved st ?a ?r (count_written (word_of_nat (length d)) (st\<lparr>inContainer := append_ic (inContainer st) ?r ?sz\<rparr>))"
    using assms(1,2) sz by (intro saved_base) (simp_all add: same_slots_def count_written_def)
  ultimately show ?thesis by (simp add: count_written_def)
qed

lemma plain_fits_iff:
  assumes "k < 2 ^ 31" "unat off \<le> MAX_CONTAINER_SIZE"
  shows "word_of_nat CRYPTO_BLOCK_SIZE + word_of_nat k + off < (word_of_nat MAX_CONTAINER_SIZE :: u32) \<longleftrightarrow>
    unat off + CRYPTO_BLOCK_SIZE + k < MAX_CONTAINER_SIZE"
proof -
  have "word_of_nat CRYPTO_BLOCK_SIZE + word_of_nat k + off = (word_of_nat (unat off + CRYPTO_BLOCK_SIZE + k) :: u32)"
    by simp
  moreover have "unat (word_of_nat (unat off + CRYPTO_BLOCK_SIZE + k) :: u32) = unat off + CRYPTO_BLOCK_SIZE + k"
    using assms by (intro unat_of_nat_small) (simp add: size_consts)
  moreover have "unat (word_of_nat MAX_CONTAINER_SIZE :: u32) = MAX_CONTAINER_SIZE"
    by (intro unat_of_nat_small) (simp add: MAX_CONTAINER_SIZE_def)
  ultimately show ?thesis by (simp only: word_less_nat_alt)
qed

lemma SaveChunk_ok:
  assumes "store_inv st" "con_times st < INT_MAX" "CRYPTO_BLOCK_SIZE + length d < MAX_CONTAINER_SIZE"
  shows "\<exists>a' st'. SaveChunk d a st = Inr (a', st') \<and> saved st a' (d @ client_iv st) st' \<and>
    a' = a\<lparr>addr_length := word_of_nat (length d), containerName := containerName a', addr_offset := addr_offset a'\<rparr>"
proof -
  let ?a = "a\<lparr>addr_length := word_of_nat (length d)\<rparr>"
  let ?fits = "word_of_nat CRYPTO_BLOCK_SIZE + word_of_nat (length d) + curSize (inContainer st) < (word_of_nat MAX_CONTAINER_SIZE :: u32)"
  have fits: "?fits \<longleftrightarrow> unat (curSize (inContainer st)) + CRYPTO_BLOCK_SIZE + length d < MAX_CONTAINER_SIZE"
    using assms(1,3) by (intro plain_fits_iff) (auto simp: store_inv_def ic_ok_def MAX_CONTAINER_SIZE_def)
  show ?thesis
  proof (cases ?fits)
    case True
    with place_plain_ok [of st d ?a] assms fits show ?thesis by (auto simp: SaveChunk_def Let_def)
  next
    case False
    obtain out st1 where st1: "dump_container (inContainer st) (curContainer st) = Inr out"
        "Ocall_WriteContainer (st\<lparr>curContainer := out, inContainer := (inContainer st)\<lparr>curSize := 0\<rparr>\<rparr>) = Inr st1"
        "store_inv st1" "extends st st1" "curSize (inContainer st1) = 0" "con_times st1 = Suc (con_times st)"
        "client_iv st1 = client_iv st" "store_st.more st1 = store_st.more st"
      using rotate_base [OF assms(1,2)] by blast
    from place_plain_ok [of st1 d ?a] assms st1 obtain a' st' where
        "place_plain d ?a 0 st1 = Inr (a', st')" "saved st1 a' (d @ client_iv st) st'"
        "con_times st' = con_times st1" "a' = ?a\<lparr>containerName := containerName a', addr_offset := addr_offset a'\<rparr>"
      by auto
    moreover from this st1 have "saved st a' (d @ client_iv st) st'"
      by (intro saved_via [of st st1]) simp_all
    ultimately show ?thesis using False st1 by (auto simp: SaveChunk_def Let_def)
  qed
qed

section \<open>The contract of the chunk store\<close>

text \<open>
  What the indexes rely on. A state has room for some more saves and a current key (the IV);
  a save of an acceptable chunk succeeds, uses at most one unit of room, is found at the
  address it returns, and loses nothing.
\<close>

locale chunk_store =
  fixes inv :: "'s \<Rightarrow> bool" and room :: "'s \<Rightarrow> nat" and key :: "'s \<Rightarrow> 'k"
    and ok :: "'k \<Rightarrow> 'c \<Rightarrow> bool" and save :: "'c \<Rightarrow> 's \<Rightarrow> fault + 'a \<times> 's"
    and look :: "'s \<Rightarrow> 'a \<Rightarrow> 'd option" and payload :: "'k \<Rightarrow> 'c \<Rightarrow> 'd"
  assumes save_ok: "inv s \<Longrightarrow> ok (key s) c \<Longrightarrow> 0 < room s \<Longrightarrow> \<exists>a s'. save c s = Inr (a, s') \<and>
      inv s' \<and> key s' = key s \<and> room s \<le> Suc (room s') \<and> look s' a = Some (payload (key s) c)"
    and save_keeps: "inv s \<Longrightarrow> ok (key s) c \<Longrightarrow> 0 < room s \<Longrightarrow> save c s = Inr (a, s') \<Longrightarrow>
      look s b = Some d \<Longrightarrow> look s' b = Some d"
begin

lemma saves_ok:
  "inv s \<Longrightarrow> \<forall>c \<in> set cs. ok (key s) c \<Longrightarrow> length cs \<le> room s \<Longrightarrow>
    \<exists>as s'. mapS save cs s = Inr (as, s') \<and> inv s' \<and> room s \<le> length cs + room s' \<and>
      map (look s') as = map (\<lambda>c. Some (payload (key s) c)) cs \<and>
      (\<forall>b d. look s b = Some d \<longrightarrow> look s' b = Some d)"
proof (induction cs arbitrary: s)
  case (Cons c cs)
  then have r: "inv s" "ok (key s) c" "0 < room s" by auto
  obtain a s1 where s1: "save c s = Inr (a, s1)" "inv s1" "key s1 = key s" "room s \<le> Suc (room s1)"
      "look s1 a = Some (payload (key s) c)"
    using save_ok [OF r] by blast
  have "\<exists>as s'. mapS save cs s1 = Inr (as, s') \<and> inv s' \<and> room s1 \<le> length cs + room s' \<and> map (look s') as = map (\<lambda>c. Some (payload (key s) c)) cs \<and>
      (\<forall>b d. look s1 b = Some d \<longrightarrow> look s' b = Some d)"
    using Cons.IH [OF s1(2)] Cons.prems(2,3) s1(3,4) by simp
  then obtain as s' where s': "mapS save cs s1 = Inr (as, s')" "inv s'" "room s1 \<le> length cs + room s'"
      "map (look s') as = map (\<lambda>c. Some (payload (key s) c)) cs" "\<forall>b d. look s1 b = Some d \<longrightarrow> look s' b = Some d"
    by blast
  have "\<forall>b d. look s b = Some d \<longrightarrow> look s' b = Some d" using save_keeps [OF r s1(1)] s'(5) by blast
  with s1 s' show ?case by simp
qed simp

end

text \<open>
  The branch of \<open>ProcessSheUniqueChunk\<close> that separates base chunks from delta chunks, and the
  way the restore path reads a chunk: content behind address, fingerprint and features, IV behind
  the content.
\<close>

type_synonym save_req = "bytes \<times> RecipeEntry \<times> bytes \<times> fp"

definition save_separate :: "save_req \<Rightarrow> 'a store_st_scheme \<Rightarrow> fault + RecipeEntry \<times> 'a store_st_scheme" where
  "save_separate q st =
    (case q of (chunkData, chunkAddr, chunksf, chunkfp) \<Rightarrow>
       if deltaFlag chunkAddr = delta_code NO_DELTA then SavebaseChunk chunkData chunkAddr chunksf chunkfp st
       else SavedeltaChunk chunkData chunkAddr chunksf chunkfp st)"

definition read_chunk :: "bytes \<Rightarrow> u32 \<Rightarrow> u32 \<Rightarrow> (bytes \<times> bytes) option" where
  "read_chunk container off n =
    (let p = unat off + RECIPE_ENTRY_SIZE + 4 * CHUNK_HASH_SIZE
     in if p + unat n + CRYPTO_BLOCK_SIZE \<le> length container
        then Some (seg p (unat n) container, seg (p + unat n) CRYPTO_BLOCK_SIZE container) else None)"

definition look_chunk :: "'a store_st_scheme \<Rightarrow> RecipeEntry \<Rightarrow> (bytes \<times> bytes) option" where
  "look_chunk st a = Option.bind (container_bytes st (containerName a)) (\<lambda>c. read_chunk c (addr_offset a) (addr_length a))"

definition store_room :: "'a store_st_scheme \<Rightarrow> nat" where
  "store_room st = INT_MAX - con_times st"

definition req_ok :: "bytes \<Rightarrow> save_req \<Rightarrow> bool" where
  "req_ok iv q \<longleftrightarrow> (case q of (d, a, sf, f) \<Rightarrow> meta_ok f sf iv \<and> length (basechunkHash a) = CHUNK_HASH_SIZE \<and>
     length (superfeature a) = 3 * CHUNK_HASH_SIZE \<and> META_SIZE + length d < MAX_CONTAINER_SIZE)"

lemma read_chunk_append: "read_chunk c off n = Some r \<Longrightarrow> read_chunk (c @ d) off n = Some r"
  by (auto simp: read_chunk_def Let_def seg_append_left split: if_splits)

lemma look_chunk_mono: "extends st st' \<Longrightarrow> look_chunk st a = Some r \<Longrightarrow> look_chunk st' a = Some r"
  by (fastforce simp: look_chunk_def extends_def bind_eq_Some_conv intro: read_chunk_append)

lemma look_chunk_record:
  assumes "fetch st a (length r) = Some r" "r = chunk_record a f sf d iv" "entry_wf a" "meta_ok f sf iv"
    "unat (addr_length a) = length d"
  shows "look_chunk st a = Some (d, iv)"
proof -
  from assms(1) obtain c where c: "container_bytes st (containerName a) = Some c"
      "unat (addr_offset a) + length r \<le> length c" "seg (unat (addr_offset a)) (length r) c = r"
    by (auto simp: fetch_def bind_eq_Some_conv split: if_splits)
  let ?o = "unat (addr_offset a)" and ?pre = "entry_image a @ f @ sf"
  have l: "length ?pre = 272" "length iv = 16" "length r = 288 + length d"
    using assms(2,3,4) by (simp_all add: meta_ok_def meta_consts)
  have at: "seg (?o + i) n c = seg i n r" if "i + n \<le> length r" for i n
  proof -
    have "seg i n r = seg i n (seg ?o (length r) c)" using c(3) by simp
    also have "\<dots> = seg (?o + i) n c" using that by (simp add: seg_def take_drop add.commute min_absorb1)
    finally show ?thesis by simp
  qed
  have "seg (?o + 272) (length d) c = d" "seg (?o + (272 + length d)) 16 c = iv"
    using at [of 272 "length d"] at [of "272 + length d" 16] l assms(2)
    by (simp_all add: chunk_record_def seg_append_right seg_def)
  then show ?thesis
    using c l(3) assms(5) by (simp add: look_chunk_def read_chunk_def meta_consts Let_def add.assoc)
qed

lemma save_separate_ok:
  assumes "store_inv st" "con_times st < INT_MAX" "req_ok (client_iv st) (d, a, sf, f)"
  shows "\<exists>a' st'. save_separate (d, a, sf, f) st = Inr (a', st') \<and> saved st a' (chunk_record a' f sf d (client_iv st)) st' \<and>
    entry_wf a' \<and> unat (addr_length a') = length d \<and> deltaFlag a' = deltaFlag a \<and> basechunkHash a' = basechunkHash a \<and>
    look_chunk st' a' = Some (d, client_iv st)"
proof -
  have ok: "meta_ok f sf (client_iv st)" "length (basechunkHash a) = CHUNK_HASH_SIZE"
      "length (superfeature a) = 3 * CHUNK_HASH_SIZE" "META_SIZE + length d < MAX_CONTAINER_SIZE"
    using assms(3) by (simp_all add: req_ok_def)
  have len: "unat (word_of_nat (length d) :: u32) = length d"
    using ok(4) by (intro unat_of_nat_small) (simp add: MAX_CONTAINER_SIZE_def)
  obtain a' st' where s: "save_separate (d, a, sf, f) st = Inr (a', st')"
      "saved st a' (chunk_record a' f sf d (client_iv st)) st'" "addr_length a' = word_of_nat (length d)"
      "deltaFlag a' = deltaFlag a" "basechunkHash a' = basechunkHash a" "length (superfeature a') = 3 * CHUNK_HASH_SIZE"
  proof (cases "deltaFlag a = delta_code NO_DELTA")
    case True
    obtain a' st' where b: "SavebaseChunk d a sf f st = Inr (a', st')" "saved st a' (chunk_record a' f sf d (client_iv st)) st'"
        "a' = a\<lparr>addr_length := word_of_nat (length d), superfeature := sf, addr_offset := addr_offset a',
          containerName := containerName a'\<rparr>"
      using SavebaseChunk_ok [OF assms(1,2) ok(1,2,4)] by blast
    have "addr_length a' = word_of_nat (length d)" "deltaFlag a' = deltaFlag a"
        "basechunkHash a' = basechunkHash a" "superfeature a' = sf"
      using arg_cong [OF b(3), of addr_length] arg_cong [OF b(3), of deltaFlag] arg_cong [OF b(3), of basechunkHash]
        arg_cong [OF b(3), of superfeature] by simp_all
    then show thesis using that b(1,2) True ok(1) by (simp add: save_separate_def meta_ok_def)
  next
    case False
    obtain a' st' where b: "SavedeltaChunk d a sf f st = Inr (a', st')" "saved st a' (chunk_record a' f sf d (client_iv st)) st'"
        "a' = a\<lparr>addr_length := word_of_nat (length d), addr_offset := addr_offset a', containerName := containerName a'\<rparr>"
      using SavedeltaChunk_ok [OF assms(1,2) ok] by blast
    have "addr_length a' = word_of_nat (length d)" "deltaFlag a' = deltaFlag a"
        "basechunkHash a' = basechunkHash a" "superfeature a' = superfeature a"
      using arg_cong [OF b(3), of addr_length] arg_cong [OF b(3), of deltaFlag] arg_cong [OF b(3), of basechunkHash]
        arg_cong [OF b(3), of superfeature] by simp_all
    then show thesis using that b(1,2) False ok(3) by (simp add: save_separate_def)
  qed
  moreover have wf: "entry_wf a'" using s ok(2) by (simp add: entry_wf_def saved_def)
  moreover have "look_chunk st' a' = Some (d, client_iv st)"
    using s(2,3) wf ok(1) len by (intro look_chunk_record) (auto simp: saved_def)
  ultimately show ?thesis using len by auto
qed

interpretation es: chunk_store store_inv store_room client_iv req_ok save_separate look_chunk
  "\<lambda>iv q. (fst q, iv)"
proof
  fix s :: "'a store_st_scheme" and c :: save_req
  assume s: "store_inv s" "req_ok (client_iv s) c" "0 < store_room s"
  obtain d a sf f where c: "c = (d, a, sf, f)" by (cases c)
  have room: "con_times s < INT_MAX" using s(3) by (simp add: store_room_def)
  show "\<exists>a s'. save_separate c s = Inr (a, s') \<and> store_inv s' \<and> client_iv s' = client_iv s \<and>
      store_room s \<le> Suc (store_room s') \<and> look_chunk s' a = Some (fst c, client_iv s)"
    using save_separate_ok [OF s(1) room] s(2) by (fastforce simp: c saved_def store_room_def)
  show "save_separate c s = Inr (a', s') \<Longrightarrow> look_chunk s b = Some r \<Longrightarrow> look_chunk s' b = Some r" for a' s' b r
    using save_separate_ok [OF s(1) room] s(2) look_chunk_mono [of s s' b r] by (fastforce simp: c saved_def)
qed

text \<open>
  C18: any sequence of base and delta chunks can be saved. No save writes outside a container,
  and at the end every chunk is read back, content and IV, at the address its save returned,
  and so is every chunk stored before.
\<close>

theorem saves_read_back:
  assumes "store_inv st" "\<forall>q \<in> set qs. req_ok (client_iv st) q" "con_times st + length qs \<le> INT_MAX"
  shows "\<exists>as st'. mapS save_separate qs st = Inr (as, st') \<and> store_inv st' \<and>
    map (look_chunk st') as = map (\<lambda>q. Some (fst q, client_iv st)) qs \<and>
    (\<forall>b r. look_chunk st b = Some r \<longrightarrow> look_chunk st' b = Some r)"
proof -
  have "length qs \<le> store_room st" using assms(3) by (simp add: store_room_def)
  from es.saves_ok [OF assms(1,2) this] show ?thesis by blast
qed

definition empty_ct :: Container where
  "empty_ct = \<lparr>containerID = [], ct_delta = False, ct_body = [], currentSize = 0\<rparr>"

definition fresh_store :: store_st where
  "fresh_store = \<lparr>inContainer = \<lparr>ic_buf = [], curSize = 0\<rparr>, deltainContainer = \<lparr>ic_buf = [], curSize = 0\<rparr>,
     client_iv = replicate 16 0, curContainer = empty_ct, curDeltaContainer = empty_ct, inputMQ = [],
     con_times = 1, writtenDataSize = 0, writtenChunkNum = 0\<rparr>"

text \<open>A client starts with two fresh containers.\<close>

lemma InitUploadBuffer_inv:
  assumes "Suc (con_times st) < INT_MAX" "ic_ok (inContainer st)" "ic_ok (deltainContainer st)"
    "length (client_iv st) = CRYPTO_BLOCK_SIZE" "inputMQ st = []"
  shows "\<exists>st'. InitUploadBuffer st = Inr st' \<and> store_inv st' \<and> con_times st' = con_times st + 2 \<and>
    client_iv st' = client_iv st \<and> store_st.more st' = store_st.more st"
proof -
  obtain u where u: "uuid_bytes (con_times st) = Some u" "u \<notin> used_names (con_times st)"
    using uuid_bytes_ok [of "con_times st"] assms(1) by auto
  obtain v where v: "uuid_bytes (Suc (con_times st)) = Some v" "v \<notin> used_names (Suc (con_times st))"
    using uuid_bytes_ok [of "Suc (con_times st)"] assms(1) by auto
  have "used_names (Suc (Suc (con_times st))) = insert v (insert u (used_names (con_times st)))"
    using used_names_Suc [OF u(1)] used_names_Suc [OF v(1)] by simp
  moreover have "u \<noteq> v" using v(2) used_names_Suc [OF u(1)] by auto
  ultimately show ?thesis
    using u(1) v(1) assms by (simp add: InitUploadBuffer_def new_uuid_def store_inv_def store_names_def)
qed

definition sample_reqs :: "save_req list" where
  "sample_reqs = [([1, 2, 3], sample_entry\<lparr>deltaFlag := 0\<rparr>, replicate 96 5, replicate 32 6),
     ([4], sample_entry, replicate 96 7, replicate 32 8)]"

lemma sample_reqs_ok: "q \<in> set sample_reqs \<Longrightarrow> req_ok (replicate 16 0) q"
  by (auto simp: sample_reqs_def req_ok_def meta_ok_def sample_entry_def meta_consts)

theorem saves_read_back_witness:
  "\<exists>st as st'. InitUploadBuffer fresh_store = Inr st \<and> mapS save_separate sample_reqs st = Inr (as, st') \<and>
    map (look_chunk st') as = [Some ([1, 2, 3], replicate 16 0), Some ([4], replicate 16 0)]"
proof -
  obtain st where st: "InitUploadBuffer fresh_store = Inr st" "store_inv st" "con_times st = 3" "client_iv st = replicate 16 0"
    using InitUploadBuffer_inv [of fresh_store]
    by (auto simp: fresh_store_def ic_ok_def size_consts)
  have "con_times st + length sample_reqs \<le> INT_MAX"
    using st(3) by (simp add: sample_reqs_def INT_MAX_def)
  with saves_read_back [of st sample_reqs] st sample_reqs_ok show ?thesis
    by (auto simp: sample_reqs_def)
qed

section \<open>Reading containers from disk\<close>

text \<open>
  The way a container is read for a restore: the base directory first, then the delta
  directory, else the server exits.
\<close>

definition read_container :: "string \<Rightarrow> disk \<Rightarrow> container_name \<Rightarrow> fault + bytes" where
  "read_container containerNameTail d n =
    (case d (base_path containerNameTail n) of
       Some b \<Rightarrow> Inr b
     | None \<Rightarrow> (case d (delta_path containerNameTail n) of Some b \<Rightarrow> Inr b | None \<Rightarrow> Inl ExitFailure))"

lemma name_string_inj: "name_string a = name_string b \<longleftrightarrow> a = b"
proof
  have inj: "inj (\<lambda>b :: byte. char_of (unat b) :: char)"
  proof (rule injI)
    fix x y :: byte
    assume "char_of (unat x) = (char_of (unat y) :: char)"
    then have "of_char (char_of (unat x)) = (of_char (char_of (unat y)) :: nat)" by simp
    then have "unat x = unat y" using unat_byte_bound [of x] unat_byte_bound [of y] by (simp add: of_char_of)
    then show "x = y" by (rule unsigned_word_eqI)
  qed
  assume "name_string a = name_string b"
  then show "a = b" using inj_mapI [OF inj] by (simp add: name_string_def inj_def)
qed simp

lemma path_simps [simp]:
  "base_path t a = base_path t b \<longleftrightarrow> a = b" "delta_path t a = delta_path t b \<longleftrightarrow> a = b"
  "base_path t a \<noteq> delta_path t b" "delta_path t a \<noteq> base_path t b"
  by (simp_all add: base_path_def delta_path_def name_string_inj)

lemma SaveToFile_other:
  "n \<noteq> containerID c \<Longrightarrow> read_container t (SaveToFile t c d) n = read_container t d n"
  by (auto simp: read_container_def SaveToFile_eq Let_def split: option.splits)

lemma DataWriter_other:
  "n \<notin> containerID ` set mq \<Longrightarrow> read_container t (DataWriter_Run t mq d) n = read_container t d n"
  by (induction mq arbitrary: d) (simp_all add: DataWriter_Run_def SaveToFile_other)

lemma DataWriter_reads:
  assumes "distinct (map containerID mq)" "c \<in> set mq" "d (base_path t (containerID c)) = None"
  shows "read_container t (DataWriter_Run t mq d) (containerID c) = Inr (ct_bytes c)"
  using assms
proof (induction mq arbitrary: d)
  case (Cons x mq)
  show ?case
  proof (cases "x = c")
    case True
    then have "containerID c \<notin> containerID ` set mq" using Cons.prems(1) by simp
    then have "read_container t (DataWriter_Run t mq (SaveToFile t c d)) (containerID c) =
        read_container t (SaveToFile t c d) (containerID c)" by (rule DataWriter_other)
    also have "\<dots> = Inr (ct_bytes c)"
      using Cons.prems(3) by (simp add: read_container_def SaveToFile_eq ct_bytes_def Let_def)
    finally show ?thesis using True by (simp add: DataWriter_Run_def)
  next
    case False
    then have "c \<in> set mq" using Cons.prems(2) by simp
    then have "containerID c \<noteq> containerID x" using Cons.prems(1) by (metis distinct.simps(2) image_eqI list.simps(9) set_map)
    then have "SaveToFile t x d (base_path t (containerID c)) = None"
      using Cons.prems(3) by (simp add: SaveToFile_eq Let_def)
    with Cons False show ?thesis by (simp add: DataWriter_Run_def)
  qed
qed simp

section \<open>How the store grows\<close>

text \<open>
  What a save can do to the names: the queue gets longer by containers that were current or are
  new, and a current container has a name it had before or a new one.
\<close>

definition cur_names :: "'a store_st_scheme \<Rightarrow> container_name set" where
  "cur_names st = {containerID (curContainer st), containerID (curDeltaContainer st)}"

definition new_names :: "nat \<Rightarrow> nat \<Rightarrow> container_name set" where
  "new_names a b = {n. \<exists>j. a \<le> j \<and> j < b \<and> uuid_bytes j = Some n}"

definition grows :: "'a store_st_scheme \<Rightarrow> 'a store_st_scheme \<Rightarrow> bool" where
  "grows st st' \<longleftrightarrow> con_times st \<le> con_times st' \<and> cur_names st' \<subseteq> cur_names st \<union> new_names (con_times st) (con_times st') \<and>
     (\<exists>qs. inputMQ st' = inputMQ st @ qs \<and> containerID ` set qs \<subseteq> cur_names st \<union> new_names (con_times st) (con_times st'))"

lemma grows_refl: "grows st st"
  by (simp add: grows_def)

lemma new_names_mono: "a \<le> b \<Longrightarrow> c \<le> d \<Longrightarrow> new_names b c \<subseteq> new_names a d"
proof
  fix n
  assume "a \<le> b" "c \<le> d" "n \<in> new_names b c"
  then obtain j where "b \<le> j" "j < c" "uuid_bytes j = Some n" by (auto simp: new_names_def)
  with \<open>a \<le> b\<close> \<open>c \<le> d\<close> have "a \<le> j \<and> j < d \<and> uuid_bytes j = Some n" by simp
  then show "n \<in> new_names a d" unfolding new_names_def by blast
qed

lemma new_names_Suc: "uuid_bytes a = Some n \<Longrightarrow> n \<in> new_names a (Suc a)"
  by (auto simp: new_names_def)

lemma grows_trans:
  assumes "grows a b" "grows b c"
  shows "grows a c"
proof -
  obtain qs rs where q: "inputMQ b = inputMQ a @ qs" "containerID ` set qs \<subseteq> cur_names a \<union> new_names (con_times a) (con_times b)"
      "inputMQ c = inputMQ b @ rs" "containerID ` set rs \<subseteq> cur_names b \<union> new_names (con_times b) (con_times c)"
    using assms by (auto simp: grows_def)
  let ?ac = "cur_names a \<union> new_names (con_times a) (con_times c)"
  have n: "new_names (con_times a) (con_times b) \<subseteq> ?ac" "new_names (con_times b) (con_times c) \<subseteq> ?ac"
    using assms new_names_mono [of "con_times a"] by (auto simp: grows_def)
  have b: "cur_names b \<subseteq> ?ac" "cur_names c \<subseteq> cur_names b \<union> new_names (con_times b) (con_times c)"
    using assms n(1) by (auto simp: grows_def)
  have c: "cur_names c \<subseteq> ?ac" using b n(2) by blast
  have "containerID ` set (qs @ rs) \<subseteq> ?ac" using q(2,4) n b(1) unfolding set_append image_Un by blast
  moreover have "inputMQ c = inputMQ a @ qs @ rs" using q by simp
  moreover note c
  moreover have "con_times a \<le> con_times c" using assms by (simp add: grows_def)
  ultimately show ?thesis unfolding grows_def by blast
qed

lemma Ocall_WriteContainer_grows: "Ocall_WriteContainer st = Inr st' \<Longrightarrow> grows st st'"
  by (auto simp: Ocall_WriteContainer_def new_uuid_def Let_def grows_def cur_names_def bindE_Inr_iff new_names_Suc split: option.splits)

lemma Ocall_WriteDeltaContainer_grows: "Ocall_WriteDeltaContainer st = Inr st' \<Longrightarrow> grows st st'"
  by (auto simp: Ocall_WriteDeltaContainer_def new_uuid_def Let_def grows_def cur_names_def bindE_Inr_iff new_names_Suc split: option.splits)

text \<open>Changes of the buffers alone.\<close>

definition same_names :: "'a store_st_scheme \<Rightarrow> 'a store_st_scheme \<Rightarrow> bool" where
  "same_names st st' \<longleftrightarrow> inputMQ st' = inputMQ st \<and> con_times st' = con_times st \<and> cur_names st' = cur_names st"

lemma grows_same_left: "same_names st st1 \<Longrightarrow> grows st1 st' \<Longrightarrow> grows st st'"
  by (simp add: same_names_def grows_def)

lemma grows_same_right: "grows st st1 \<Longrightarrow> same_names st1 st' \<Longrightarrow> grows st st'"
  by (simp add: same_names_def grows_def)

lemma place_base_names: "place_base d a sf f off st = Inr (a', st') \<Longrightarrow> same_names st st'"
  by (auto simp: place_base_def Let_def bindE_Inr_iff same_names_def cur_names_def count_written_def)

lemma place_delta_names: "place_delta d a sf f off st = Inr (a', st') \<Longrightarrow> same_names st st'"
  by (auto simp: place_delta_def Let_def bindE_Inr_iff same_names_def cur_names_def count_written_def)

lemma dump_container_ID: "dump_container ic c = Inr c' \<Longrightarrow> containerID c' = containerID c"
  by (auto simp: dump_container_def bindE_Inr_iff)

lemma SavebaseChunk_grows:
  assumes "SavebaseChunk d a sf f st = Inr (a', st')"
  shows "grows st st'"
proof (cases "chunk_fits (word_of_nat (length d)) (curSize (inContainer st))")
  case True
  with assms show ?thesis
    by (auto simp: SavebaseChunk_def Let_def dest!: place_base_names intro: grows_same_right [OF grows_refl])
next
  case False
  with assms obtain out st1 where s: "dump_container (inContainer st) (curContainer st) = Inr out"
      "Ocall_WriteContainer (st\<lparr>curContainer := out, inContainer := (inContainer st)\<lparr>curSize := 0\<rparr>\<rparr>) = Inr st1"
      "same_names st1 st'"
    by (auto simp: SavebaseChunk_def Let_def bindE_Inr_iff dest!: place_base_names)
  have "same_names st (st\<lparr>curContainer := out, inContainer := (inContainer st)\<lparr>curSize := 0\<rparr>\<rparr>)"
    using dump_container_ID [OF s(1)] by (simp add: same_names_def cur_names_def)
  from grows_same_right [OF grows_same_left [OF this Ocall_WriteContainer_grows [OF s(2)]] s(3)] show ?thesis .
qed

lemma SavedeltaChunk_grows:
  assumes "SavedeltaChunk d a sf f st = Inr (a', st')"
  shows "grows st st'"
proof (cases "chunk_fits (word_of_nat (length d)) (curSize (deltainContainer st))")
  case True
  with assms show ?thesis
    by (auto simp: SavedeltaChunk_def Let_def dest!: place_delta_names intro: grows_same_right [OF grows_refl])
next
  case False
  with assms obtain out st1 where s: "dump_container (deltainContainer st) (curDeltaContainer st) = Inr out"
      "Ocall_WriteDeltaContainer (st\<lparr>curDeltaContainer := out, deltainContainer := (deltainContainer st)\<lparr>curSize := 0\<rparr>\<rparr>) = Inr st1"
      "same_names st1 st'"
    by (auto simp: SavedeltaChunk_def Let_def bindE_Inr_iff dest!: place_delta_names)
  have "same_names st (st\<lparr>curDeltaContainer := out, deltainContainer := (deltainContainer st)\<lparr>curSize := 0\<rparr>\<rparr>)"
    using dump_container_ID [OF s(1)] by (simp add: same_names_def cur_names_def)
  from grows_same_right [OF grows_same_left [OF this Ocall_WriteDeltaContainer_grows [OF s(2)]] s(3)] show ?thesis .
qed

lemma save_separate_grows: "save_separate q st = Inr (a', st') \<Longrightarrow> grows st st'"
  by (auto simp: save_separate_def split: prod.splits if_splits intro: SavebaseChunk_grows SavedeltaChunk_grows)

section \<open>Everything readable, with the files\<close>

definition files_of :: "string \<Rightarrow> disk \<Rightarrow> container_name \<Rightarrow> bytes option" where
  "files_of t d n = (case read_container t d n of Inl e \<Rightarrow> None | Inr f \<Rightarrow> Some f)"

definition world :: "string \<Rightarrow> disk \<Rightarrow> 'a store_st_scheme \<Rightarrow> container_name \<Rightarrow> bytes option" where
  "world t d st n = (case container_bytes st n of None \<Rightarrow> files_of t d n | Some b \<Rightarrow> Some b)"

text \<open>
  The files agree with the containers of the client that were handed over; no current and no
  future container has a file.
\<close>

definition disk_inv :: "string \<Rightarrow> disk \<Rightarrow> 'a store_st_scheme \<Rightarrow> bool" where
  "disk_inv t d st \<longleftrightarrow> (\<forall>n \<in> cur_names st. files_of t d n = None) \<and>
     (\<forall>j n. con_times st \<le> j \<longrightarrow> j < INT_MAX \<longrightarrow> uuid_bytes j = Some n \<longrightarrow> files_of t d n = None) \<and>
     (\<forall>n f b. files_of t d n = Some f \<longrightarrow> container_bytes st n = Some b \<longrightarrow> b = f)"

lemma container_bytes_queue:
  "n \<notin> cur_names st \<Longrightarrow> container_bytes st n = map_option ct_bytes (find (\<lambda>c. containerID c = n) (inputMQ st))"
  by (simp add: container_bytes_def cur_names_def)

lemma grows_queue:
  assumes "grows st st'" "n \<notin> cur_names st" "n \<notin> new_names (con_times st) (con_times st')"
  shows "n \<notin> cur_names st' \<and> container_bytes st' n = container_bytes st n"
proof -
  obtain qs where q: "inputMQ st' = inputMQ st @ qs" "containerID ` set qs \<subseteq> cur_names st \<union> new_names (con_times st) (con_times st')"
    using assms(1) by (auto simp: grows_def)
  have n: "n \<notin> cur_names st'" using assms by (auto simp: grows_def)
  have "find (\<lambda>c. containerID c = n) qs = None" using q(2) assms(2,3) by (auto simp: find_containerID_None)
  with q(1) n assms(2) show ?thesis by (auto simp: container_bytes_queue find_append split: option.splits)
qed

lemma new_no_file:
  "disk_inv t d st \<Longrightarrow> k \<le> INT_MAX \<Longrightarrow> n \<in> new_names (con_times st) k \<Longrightarrow> files_of t d n = None"
  by (auto simp: disk_inv_def new_names_def)

lemma disk_inv_grows:
  assumes "disk_inv t d st" "grows st st'" "con_times st' \<le> INT_MAX"
  shows "disk_inv t d st'"
proof -
  have new: "files_of t d n = None" if "n \<in> cur_names st \<union> new_names (con_times st) (con_times st')" for n
    using that assms(1) new_no_file [OF assms(1,3)] unfolding disk_inv_def by blast
  have "b = f" if "files_of t d n = Some f" "container_bytes st' n = Some b" for n f b
  proof -
    have "n \<notin> cur_names st" "n \<notin> new_names (con_times st) (con_times st')" using that(1) new [of n] by auto
    from grows_queue [OF assms(2) this] that assms(1) show ?thesis by (auto simp: disk_inv_def)
  qed
  moreover have "con_times st \<le> con_times st'" "cur_names st' \<subseteq> cur_names st \<union> new_names (con_times st) (con_times st')"
    using assms(2) by (simp_all add: grows_def)
  ultimately show ?thesis using assms(1) new unfolding disk_inv_def by (meson order_trans subsetD)
qed

text \<open>A longer store: what could be read can be read at the same place. An empty container holds nothing.\<close>

definition world_le :: "(container_name \<Rightarrow> bytes option) \<Rightarrow> (container_name \<Rightarrow> bytes option) \<Rightarrow> bool" where
  "world_le w w' \<longleftrightarrow> (\<forall>n b. w n = Some b \<longrightarrow> b \<noteq> [] \<longrightarrow> (\<exists>r. w' n = Some (b @ r)))"

lemma world_le_refl: "world_le w w"
  by (auto simp: world_le_def)

lemma world_le_trans: "world_le a b \<Longrightarrow> world_le b c \<Longrightarrow> world_le a c"
  by (fastforce simp: world_le_def)

lemma world_grows:
  assumes "disk_inv t d st" "grows st st'" "extends st st'" "con_times st' \<le> INT_MAX"
  shows "world_le (world t d st) (world t d st')"
  unfolding world_le_def
proof (intro allI impI)
  fix n b
  assume b: "world t d st n = Some b"
  show "\<exists>r. world t d st' n = Some (b @ r)"
  proof (cases "container_bytes st n")
    case (Some c)
    then obtain r where "container_bytes st' n = Some (c @ r)" using assms(3) by (auto simp: extends_def)
    with Some b show ?thesis by (auto simp: world_def)
  next
    case None
    then have f: "files_of t d n = Some b" using b by (simp add: world_def)
    have "n \<notin> cur_names st" using None by (auto simp: cur_names_def container_bytes_def split: if_splits)
    moreover have "n \<notin> new_names (con_times st) (con_times st')" using f new_no_file [OF assms(1,4), of n] by auto
    ultimately have "container_bytes st' n = None" using grows_queue [OF assms(2)] None by metis
    with f show ?thesis by (simp add: world_def)
  qed
qed

text \<open>The writer saves a container of the queue: nothing changes for a reader.\<close>

lemma find_ID:
  "distinct (map containerID q) \<Longrightarrow> c \<in> set q \<Longrightarrow> find (\<lambda>x. containerID x = containerID c) q = Some c"
  by (induction q) (auto simp: image_iff)

lemma queue_bytes:
  assumes "store_inv st" "c \<in> set (inputMQ st)"
  shows "container_bytes st (containerID c) = Some (ct_bytes c)" "containerID c \<notin> cur_names st"
    "containerID c \<in> used_names (con_times st)"
proof -
  have c: "containerID c \<in> containerID ` set (inputMQ st)" using assms(2) by (rule imageI)
  have d: "distinct (map containerID (inputMQ st))" "containerID c \<notin> cur_names st"
    using assms(1) c by (auto simp: store_inv_def store_names_def cur_names_def simp del: image_iff)
  have "find (\<lambda>x. containerID x = containerID c) (inputMQ st) = Some c"
    using d(1) assms(2) by (rule find_ID)
  with d(2) show "container_bytes st (containerID c) = Some (ct_bytes c)" by (simp add: container_bytes_queue)
  show "containerID c \<notin> cur_names st" by (rule d(2))
  show "containerID c \<in> used_names (con_times st)" using assms by (auto simp: store_inv_def store_names_def)
qed

lemma files_of_saved:
  "files_of t (SaveToFile t c d) n =
    (if n = containerID c \<and> (\<not> ct_delta c \<or> d (base_path t n) = None) then Some (ct_bytes c) else files_of t d n)"
  by (auto simp: files_of_def read_container_def SaveToFile_eq ct_bytes_def Let_def split: option.splits)

lemma used_not_new:
  assumes "n \<in> used_names k" "k \<le> j" "j < INT_MAX"
  shows "uuid_bytes j \<noteq> Some n"
proof -
  have "n \<in> used_names j" using assms(1,2) by (auto simp: used_names_def dest: order_less_le_trans)
  with uuid_bytes_ok [OF assms(3)] show ?thesis by auto
qed

lemma world_write:
  assumes "store_inv st" "disk_inv t d st" "c \<in> set (inputMQ st)"
  shows "disk_inv t (SaveToFile t c d) st" "world t (SaveToFile t c d) st = world t d st"
proof -
  note c = queue_bytes [OF assms(1,3)]
  have "files_of t (SaveToFile t c d) n = None" if "con_times st \<le> j" "j < INT_MAX" "uuid_bytes j = Some n" for j n
    using that used_not_new [OF c(3), of j] assms(2) by (auto simp: files_of_saved disk_inv_def)
  moreover have "b = f" if "files_of t (SaveToFile t c d) n = Some f" "container_bytes st n = Some b" for n f b
    using that assms(2) c(1) by (auto simp: files_of_saved disk_inv_def split: if_splits)
  moreover have "files_of t (SaveToFile t c d) n = None" if "n \<in> cur_names st" for n
    using that assms(2) c(2) by (auto simp: files_of_saved disk_inv_def)
  ultimately show "disk_inv t (SaveToFile t c d) st" unfolding disk_inv_def by blast
  show "world t (SaveToFile t c d) st = world t d st"
    using c(1) by (intro ext) (auto simp: world_def files_of_saved split: option.splits)
qed

end
