(* ===== verification/Crypto.thy ===== *)
theory Crypto
  imports Storage
begin

text \<open>
  The crypto classes of the enclave (\<open>ecallEnc.cc\<close>) and of the client (\<open>cryptoPrimitive.cc\<close>).
  OpenSSL is a parameter: a record of the EVP calls the classes make. The classes choose the
  cipher, the IV and the additional data, check the output sizes and combine the calls. The
  lemmas show that, with the documented behaviour of OpenSSL, every decryption inverts its
  encryption and what one side encrypts under a session key the other side decrypts.
\<close>

section \<open>OpenSSL\<close>

datatype ENCRYPT_SET = AES_256_GCM | AES_128_GCM | AES_256_CFB | AES_128_CFB

datatype HASH_SET = SHA_256 | MD5 | SHA_1

datatype evp_cipher = EVP_aes_128_cfb | EVP_aes_256_cfb | EVP_aes_128_gcm | EVP_aes_256_gcm | EVP_aes_256_cbc

text \<open>
  The digest of a message, and encryption and decryption of a message under a cipher, key, IV
  and additional data: the bytes written by the \<open>Update\<close> call and by the \<open>Final\<close> call. \<open>None\<close>:
  an initialisation or update call whose result the code checks reports failure.
\<close>

record evp =
  evp_digest :: "HASH_SET \<Rightarrow> bytes \<Rightarrow> bytes option"
  evp_enc :: "evp_cipher \<Rightarrow> bytes \<Rightarrow> bytes \<Rightarrow> bytes \<Rightarrow> bytes \<Rightarrow> (bytes \<times> bytes) option"
  evp_dec :: "evp_cipher \<Rightarrow> bytes \<Rightarrow> bytes \<Rightarrow> bytes \<Rightarrow> bytes \<Rightarrow> (bytes \<times> bytes) option"

fun hash_size :: "HASH_SET \<Rightarrow> nat" where
  "hash_size SHA_1 = 20" | "hash_size SHA_256 = 32" | "hash_size MD5 = 16"

text \<open>
  Documented behaviour. Digests have their fixed size. CFB and GCM process a message of any
  length, CBC without padding one of whole blocks; the output has the length of the input,
  \<open>Final\<close> adds nothing, and decryption with the same parameters gives the input back.
\<close>

definition evp_ok :: "evp \<Rightarrow> bool" where
  "evp_ok X \<longleftrightarrow> (\<forall>t m. \<exists>h. evp_digest X t m = Some h \<and> length h = hash_size t) \<and>
     (\<forall>c k iv aad m. c \<noteq> EVP_aes_256_cbc \<or> CRYPTO_BLOCK_SIZE dvd length m \<longrightarrow>
        (\<exists>e. evp_enc X c k iv aad m = Some (e, []) \<and> length e = length m \<and> evp_dec X c k iv aad e = Some (m, [])))"

definition evp_out :: "(bytes \<times> bytes) option \<Rightarrow> nat \<Rightarrow> fault + bytes" where
  "evp_out r dataSize =
    (case r of None \<Rightarrow> Inl ExitFailure
     | Some (u, f) \<Rightarrow> if length u + length f \<noteq> dataSize then Inl ExitFailure else Inr (u @ f))"

section \<open>The enclave side\<close>

definition ecall_gcm_aad :: bytes where
  "ecall_gcm_aad = [0x4d, 0x23, 0xc3, 0xce, 0xc3, 0x34, 0xb4, 0x9b, 0xdb, 0x37, 0x0c, 0x43, 0x7f, 0xec, 0x78, 0xde]"

definition CIPHER_TYPE :: ENCRYPT_SET where "CIPHER_TYPE = AES_256_GCM"
definition HASH_TYPE :: HASH_SET where "HASH_TYPE = SHA_256"

text \<open>The zero IV of the constructor.\<close>

definition zero_iv :: bytes where "zero_iv = replicate CRYPTO_BLOCK_SIZE 0"

definition GenerateHash :: "evp \<Rightarrow> HASH_SET \<Rightarrow> bytes \<Rightarrow> fault + bytes" where
  "GenerateHash X hashType dataBuffer =
    (case evp_digest X hashType dataBuffer of None \<Rightarrow> Inl ExitFailure
     | Some h \<Rightarrow> if length h \<noteq> hash_size hashType then Inl ExitFailure else Inr h)"

definition EncryptWithKeyIV :: "evp \<Rightarrow> ENCRYPT_SET \<Rightarrow> bytes \<Rightarrow> bytes \<Rightarrow> bytes \<Rightarrow> fault + bytes" where
  "EncryptWithKeyIV X cipherType key iv dataBuffer =
    evp_out
      (case cipherType of
         AES_128_CFB \<Rightarrow> evp_enc X EVP_aes_128_cfb key iv [] dataBuffer
       | AES_256_CFB \<Rightarrow> evp_enc X EVP_aes_256_cfb key iv [] dataBuffer
       | AES_256_GCM \<Rightarrow> evp_enc X EVP_aes_256_gcm key iv ecall_gcm_aad dataBuffer
       | AES_128_GCM \<Rightarrow> evp_enc X EVP_aes_128_gcm key iv ecall_gcm_aad dataBuffer)
      (length dataBuffer)"

definition DecryptionWithKeyIV :: "evp \<Rightarrow> ENCRYPT_SET \<Rightarrow> bytes \<Rightarrow> bytes \<Rightarrow> bytes \<Rightarrow> fault + bytes" where
  "DecryptionWithKeyIV X cipherType key iv ciphertext =
    evp_out
      (case cipherType of
         AES_128_CFB \<Rightarrow> evp_dec X EVP_aes_128_cfb key iv [] ciphertext
       | AES_256_CFB \<Rightarrow> evp_dec X EVP_aes_256_cfb key iv [] ciphertext
       | AES_128_GCM \<Rightarrow> evp_dec X EVP_aes_128_gcm key iv ecall_gcm_aad ciphertext
       | AES_256_GCM \<Rightarrow> evp_dec X EVP_aes_256_gcm key iv ecall_gcm_aad ciphertext)
      (length ciphertext)"

text \<open>The variants without an IV argument use the object's own, always zero.\<close>

definition EncryptWithKey :: "evp \<Rightarrow> ENCRYPT_SET \<Rightarrow> bytes \<Rightarrow> bytes \<Rightarrow> fault + bytes" where
  "EncryptWithKey X cipherType key dataBuffer =
    evp_out
      (case cipherType of
         AES_128_CFB \<Rightarrow> evp_enc X EVP_aes_128_cfb key zero_iv [] dataBuffer
       | AES_256_CFB \<Rightarrow> evp_enc X EVP_aes_256_cfb key zero_iv [] dataBuffer
       | AES_256_GCM \<Rightarrow> evp_enc X EVP_aes_256_gcm key zero_iv ecall_gcm_aad dataBuffer
       | AES_128_GCM \<Rightarrow> evp_enc X EVP_aes_128_gcm key zero_iv ecall_gcm_aad dataBuffer)
      (length dataBuffer)"

definition DecryptWithKey :: "evp \<Rightarrow> ENCRYPT_SET \<Rightarrow> bytes \<Rightarrow> bytes \<Rightarrow> fault + bytes" where
  "DecryptWithKey X cipherType key ciphertext =
    evp_out
      (case cipherType of
         AES_128_CFB \<Rightarrow> evp_dec X EVP_aes_128_cfb key zero_iv [] ciphertext
       | AES_256_CFB \<Rightarrow> evp_dec X EVP_aes_256_cfb key zero_iv [] ciphertext
       | AES_128_GCM \<Rightarrow> evp_dec X EVP_aes_128_gcm key zero_iv ecall_gcm_aad ciphertext
       | AES_256_GCM \<Rightarrow> evp_dec X EVP_aes_256_gcm key zero_iv ecall_gcm_aad ciphertext)
      (length ciphertext)"

definition SessionKeyEnc :: "evp \<Rightarrow> bytes \<Rightarrow> bytes \<Rightarrow> fault + bytes" where
  "SessionKeyEnc X sessionKey dataBuffer =
    evp_out (evp_enc X EVP_aes_128_gcm sessionKey zero_iv ecall_gcm_aad dataBuffer) (length dataBuffer)"

definition SessionKeyDec :: "evp \<Rightarrow> bytes \<Rightarrow> bytes \<Rightarrow> fault + bytes" where
  "SessionKeyDec X sessionKey ciphertext =
    evp_out (evp_dec X EVP_aes_128_gcm sessionKey zero_iv ecall_gcm_aad ciphertext) (length ciphertext)"

definition AESCBCEnc :: "evp \<Rightarrow> bytes \<Rightarrow> bytes \<Rightarrow> fault + bytes" where
  "AESCBCEnc X key dataBuffer = evp_out (evp_enc X EVP_aes_256_cbc key zero_iv [] dataBuffer) (length dataBuffer)"

definition AESCBCDec :: "evp \<Rightarrow> bytes \<Rightarrow> bytes \<Rightarrow> fault + bytes" where
  "AESCBCDec X key ciphertext = evp_out (evp_dec X EVP_aes_256_cbc key zero_iv [] ciphertext) (length ciphertext)"

text \<open>\<open>reverseBytes\<close>: two pointers that meet in the middle; \<open>n\<close> counts the swaps left.\<close>

fun swap_ends :: "nat \<Rightarrow> nat \<Rightarrow> nat \<Rightarrow> bytes \<Rightarrow> bytes" where
  "swap_ends 0 lo hi b = b"
| "swap_ends (Suc n) lo hi b =
    (if lo < hi then swap_ends n (Suc lo) (hi - 1) (b[lo := b ! hi, hi := b ! lo]) else b)"

definition reverseBytes :: "bytes \<Rightarrow> bytes" where
  "reverseBytes b = (if b = [] then b else swap_ends (length b) 0 (length b - 1) b)"

definition IndexAESCMCEnc :: "evp \<Rightarrow> bytes \<Rightarrow> bytes \<Rightarrow> fault + bytes" where
  "IndexAESCMCEnc X key dataBuffer = bindE (AESCBCEnc X key dataBuffer) (\<lambda>tmp. AESCBCEnc X key (reverseBytes tmp))"

definition IndexAESCMCDec :: "evp \<Rightarrow> bytes \<Rightarrow> bytes \<Rightarrow> fault + bytes" where
  "IndexAESCMCDec X key ciphertext = bindE (AESCBCDec X key ciphertext) (\<lambda>tmp. AESCBCDec X key (reverseBytes tmp))"

section \<open>The client side\<close>

definition gcm_aad :: bytes where
  "gcm_aad = [0x4d, 0x23, 0xc3, 0xce, 0xc3, 0x34, 0xb4, 0x9b, 0xdb, 0x37, 0x0c, 0x43, 0x7f, 0xec, 0x78, 0xde]"

definition client_GenerateHash :: "evp \<Rightarrow> HASH_SET \<Rightarrow> bytes \<Rightarrow> fault + bytes" where
  "client_GenerateHash X hashType dataBuffer =
    (case evp_digest X hashType dataBuffer of None \<Rightarrow> Inl ExitFailure
     | Some h \<Rightarrow> if length h \<noteq> hash_size hashType then Inl ExitFailure else Inr h)"

definition client_EncryptWithKey :: "evp \<Rightarrow> ENCRYPT_SET \<Rightarrow> bytes \<Rightarrow> bytes \<Rightarrow> fault + bytes" where
  "client_EncryptWithKey X cipherType key dataBuffer =
    evp_out
      (case cipherType of
         AES_128_CFB \<Rightarrow> evp_enc X EVP_aes_128_cfb key zero_iv [] dataBuffer
       | AES_256_CFB \<Rightarrow> evp_enc X EVP_aes_256_cfb key zero_iv [] dataBuffer
       | AES_256_GCM \<Rightarrow> evp_enc X EVP_aes_256_gcm key zero_iv gcm_aad dataBuffer
       | AES_128_GCM \<Rightarrow> evp_enc X EVP_aes_128_gcm key zero_iv gcm_aad dataBuffer)
      (length dataBuffer)"

definition client_DecryptWithKey :: "evp \<Rightarrow> ENCRYPT_SET \<Rightarrow> bytes \<Rightarrow> bytes \<Rightarrow> fault + bytes" where
  "client_DecryptWithKey X cipherType key ciphertext =
    evp_out
      (case cipherType of
         AES_128_CFB \<Rightarrow> evp_dec X EVP_aes_128_cfb key zero_iv [] ciphertext
       | AES_256_CFB \<Rightarrow> evp_dec X EVP_aes_256_cfb key zero_iv [] ciphertext
       | AES_128_GCM \<Rightarrow> evp_dec X EVP_aes_128_gcm key zero_iv gcm_aad ciphertext
       | AES_256_GCM \<Rightarrow> evp_dec X EVP_aes_256_gcm key zero_iv gcm_aad ciphertext)
      (length ciphertext)"

definition client_SessionKeyEnc :: "evp \<Rightarrow> bytes \<Rightarrow> bytes \<Rightarrow> fault + bytes" where
  "client_SessionKeyEnc X sessionKey dataBuffer =
    evp_out (evp_enc X EVP_aes_128_gcm sessionKey zero_iv gcm_aad dataBuffer) (length dataBuffer)"

definition client_SessionKeyDec :: "evp \<Rightarrow> bytes \<Rightarrow> bytes \<Rightarrow> fault + bytes" where
  "client_SessionKeyDec X sessionKey ciphertext =
    evp_out (evp_dec X EVP_aes_128_gcm sessionKey zero_iv gcm_aad ciphertext) (length ciphertext)"

section \<open>Round trips\<close>

lemma evp_stream:
  assumes "evp_ok X" "c \<noteq> EVP_aes_256_cbc \<or> CRYPTO_BLOCK_SIZE dvd length m"
  shows "\<exists>e. evp_out (evp_enc X c k iv aad m) (length m) = Inr e \<and> length e = length m \<and>
    evp_out (evp_dec X c k iv aad e) (length e) = Inr m"
proof -
  obtain e where "evp_enc X c k iv aad m = Some (e, [])" "length e = length m" "evp_dec X c k iv aad e = Some (m, [])"
    using assms unfolding evp_ok_def by metis
  then show ?thesis by (simp add: evp_out_def)
qed

lemma EncryptWithKeyIV_ok:
  assumes "evp_ok X"
  shows "\<exists>e. EncryptWithKeyIV X t key iv m = Inr e \<and> length e = length m \<and> DecryptionWithKeyIV X t key iv e = Inr m"
  using evp_stream [OF assms, of _ m]
  by (cases t) (simp_all add: EncryptWithKeyIV_def DecryptionWithKeyIV_def)

lemma EncryptWithKey_ok:
  assumes "evp_ok X"
  shows "\<exists>e. EncryptWithKey X t key m = Inr e \<and> length e = length m \<and> DecryptWithKey X t key e = Inr m"
  using evp_stream [OF assms, of _ m] by (cases t) (simp_all add: EncryptWithKey_def DecryptWithKey_def)

lemma client_EncryptWithKey_ok:
  assumes "evp_ok X"
  shows "\<exists>e. client_EncryptWithKey X t key m = Inr e \<and> length e = length m \<and> client_DecryptWithKey X t key e = Inr m"
  using evp_stream [OF assms, of _ m] by (cases t) (simp_all add: client_EncryptWithKey_def client_DecryptWithKey_def)

lemma aad_agree: "gcm_aad = ecall_gcm_aad"
  by (simp add: gcm_aad_def ecall_gcm_aad_def)

lemma session_up:
  assumes "evp_ok X"
  shows "\<exists>e. client_SessionKeyEnc X k m = Inr e \<and> length e = length m \<and> SessionKeyDec X k e = Inr m"
  using evp_stream [OF assms, of EVP_aes_128_gcm m] by (simp add: client_SessionKeyEnc_def SessionKeyDec_def aad_agree)

lemma session_down:
  assumes "evp_ok X"
  shows "\<exists>e. SessionKeyEnc X k m = Inr e \<and> length e = length m \<and> client_SessionKeyDec X k e = Inr m"
  using evp_stream [OF assms, of EVP_aes_128_gcm m] by (simp add: SessionKeyEnc_def client_SessionKeyDec_def aad_agree)

lemma session_same:
  assumes "evp_ok X"
  shows "\<exists>e. SessionKeyEnc X k m = Inr e \<and> length e = length m \<and> SessionKeyDec X k e = Inr m"
    "\<exists>e. client_SessionKeyEnc X k m = Inr e \<and> length e = length m \<and> client_SessionKeyDec X k e = Inr m"
  using evp_stream [OF assms, of EVP_aes_128_gcm m]
  by (simp_all add: SessionKeyEnc_def SessionKeyDec_def client_SessionKeyEnc_def client_SessionKeyDec_def)

lemma AESCBC_ok:
  assumes "evp_ok X" "CRYPTO_BLOCK_SIZE dvd length m"
  shows "\<exists>e. AESCBCEnc X k m = Inr e \<and> length e = length m \<and> AESCBCDec X k e = Inr m"
  using evp_stream [OF assms(1), of EVP_aes_256_cbc m] assms(2) by (simp add: AESCBCEnc_def AESCBCDec_def)

lemma swap_ends_nth:
  "hi < length b \<Longrightarrow> hi \<le> lo + n \<Longrightarrow> i < length b \<Longrightarrow>
    swap_ends n lo hi b ! i = (if lo \<le> i \<and> i \<le> hi then b ! (lo + hi - i) else b ! i)"
proof (induction n lo hi b arbitrary: i rule: swap_ends.induct)
  case (1 lo hi b)
  then have "lo \<le> i \<and> i \<le> hi \<longrightarrow> i = lo \<and> hi = lo" by auto
  then show ?case by auto
next
  case (2 n lo hi b)
  show ?case
  proof (cases "lo < hi")
    case True
    let ?b = "b[lo := b ! hi, hi := b ! lo]"
    have "swap_ends n (Suc lo) (hi - 1) ?b ! i =
        (if Suc lo \<le> i \<and> i \<le> hi - 1 then ?b ! (Suc lo + (hi - 1) - i) else ?b ! i)"
      using 2 True by (intro "2.IH") auto
    moreover have "Suc lo + (hi - 1) - i = lo + hi - i" using True by auto
    ultimately show ?thesis using True "2.prems" by (auto simp: nth_list_update)
  next
    case False
    then have "lo + hi - i = i" if "lo \<le> i" "i \<le> hi" using that by auto
    then show ?thesis using False by simp
  qed
qed

lemma length_swap_ends [simp]: "length (swap_ends n lo hi b) = length b"
  by (induction n lo hi b rule: swap_ends.induct) auto

lemma reverseBytes_rev: "reverseBytes b = rev b"
proof (cases "b = []")
  case False
  then show ?thesis
    by (intro nth_equalityI) (auto simp: reverseBytes_def rev_nth swap_ends_nth)
qed (simp add: reverseBytes_def)

lemma IndexAESCMC_ok:
  assumes "evp_ok X" "CRYPTO_BLOCK_SIZE dvd length m"
  shows "\<exists>e. IndexAESCMCEnc X k m = Inr e \<and> length e = length m \<and> IndexAESCMCDec X k e = Inr m"
proof -
  obtain e1 where e1: "AESCBCEnc X k m = Inr e1" "length e1 = length m" "AESCBCDec X k e1 = Inr m"
    using AESCBC_ok [OF assms] by blast
  then obtain e where "AESCBCEnc X k (rev e1) = Inr e" "length e = length m" "AESCBCDec X k e = Inr (rev e1)"
    using AESCBC_ok [OF assms(1), of "rev e1"] assms(2) by auto
  with e1 show ?thesis by (auto simp: IndexAESCMCEnc_def IndexAESCMCDec_def reverseBytes_rev)
qed

lemma GenerateHash_ok:
  assumes "evp_ok X"
  shows "\<exists>h. GenerateHash X t m = Inr h \<and> length h = hash_size t"
proof -
  obtain h where "evp_digest X t m = Some h" "length h = hash_size t" using assms unfolding evp_ok_def by blast
  then show ?thesis by (simp add: GenerateHash_def)
qed

lemma client_GenerateHash_eq: "client_GenerateHash = GenerateHash"
  by (intro ext) (simp add: client_GenerateHash_def GenerateHash_def)

text \<open>
  C19: with the documented behaviour of OpenSSL, no call exits, ciphertexts have the length of
  their plaintexts, and every decryption inverts its encryption: the enclave's for chunks and recipes, with
  and without an IV argument, the client's, the CBC encryption of addresses and the index-key
  encryption (two CBC passes around a reversal), both on whole blocks, and the session-key
  encryption on each side and across the two sides in both directions.
\<close>

theorem crypto_roundtrips:
  assumes "evp_ok X" "CRYPTO_BLOCK_SIZE dvd length b"
  shows "(\<exists>e. EncryptWithKeyIV X t key iv m = Inr e \<and> length e = length m \<and> DecryptionWithKeyIV X t key iv e = Inr m) \<and>
    (\<exists>e. EncryptWithKey X t key m = Inr e \<and> length e = length m \<and> DecryptWithKey X t key e = Inr m) \<and>
    (\<exists>e. client_EncryptWithKey X t key m = Inr e \<and> length e = length m \<and> client_DecryptWithKey X t key e = Inr m) \<and>
    (\<exists>e. AESCBCEnc X key b = Inr e \<and> length e = length b \<and> AESCBCDec X key e = Inr b) \<and>
    (\<exists>e. IndexAESCMCEnc X key b = Inr e \<and> length e = length b \<and> IndexAESCMCDec X key e = Inr b) \<and>
    (\<exists>e. SessionKeyEnc X key m = Inr e \<and> length e = length m \<and> SessionKeyDec X key e = Inr m \<and> client_SessionKeyDec X key e = Inr m) \<and>
    (\<exists>e. client_SessionKeyEnc X key m = Inr e \<and> length e = length m \<and> client_SessionKeyDec X key e = Inr m \<and> SessionKeyDec X key e = Inr m)"
proof -
  note ok = EncryptWithKeyIV_ok [OF assms(1)] EncryptWithKey_ok [OF assms(1)] client_EncryptWithKey_ok [OF assms(1)] AESCBC_ok [OF assms] IndexAESCMC_ok [OF assms]
  have "\<exists>e. SessionKeyEnc X key m = Inr e \<and> length e = length m \<and> SessionKeyDec X key e = Inr m \<and> client_SessionKeyDec X key e = Inr m"
    using session_same(1) [OF assms(1), of key m] session_down [OF assms(1), of key m] by force
  moreover have "\<exists>e. client_SessionKeyEnc X key m = Inr e \<and> length e = length m \<and> client_SessionKeyDec X key e = Inr m \<and> SessionKeyDec X key e = Inr m"
    using session_same(2) [OF assms(1), of key m] session_up [OF assms(1), of key m] by force
  ultimately show ?thesis by (intro conjI ok)
qed

text \<open>A cipher that adds the first key byte to every byte, for examples.\<close>

definition shift_bytes :: "byte \<Rightarrow> bytes \<Rightarrow> bytes" where
  "shift_bytes k m = map ((+) k) m"

definition toy_evp :: evp where
  "toy_evp = \<lparr>evp_digest = (\<lambda>t m. Some (take (hash_size t) (m @ replicate (hash_size t) 0))),
     evp_enc = (\<lambda>c k iv aad m. Some (shift_bytes (hd (k @ [0])) m, [])),
     evp_dec = (\<lambda>c k iv aad m. Some (shift_bytes (- hd (k @ [0])) m, []))\<rparr>"

lemma shift_bytes_inv: "shift_bytes (- k) (shift_bytes k m) = m"
  by (simp add: shift_bytes_def map_idI)

lemma length_shift_bytes [simp]: "length (shift_bytes k m) = length m"
  by (simp add: shift_bytes_def)

lemma toy_evp_ok: "evp_ok toy_evp"
  by (auto simp: evp_ok_def toy_evp_def shift_bytes_inv)

theorem crypto_roundtrips_witness:
  "EncryptWithKeyIV toy_evp AES_256_GCM [3] [] [1, 2] = Inr [4, 5] \<and>
   (\<exists>e. client_SessionKeyEnc toy_evp [3] [1, 2] = Inr e \<and> SessionKeyDec toy_evp [3] e = Inr [1, 2]) \<and>
   (\<exists>e. IndexAESCMCEnc toy_evp [3] (replicate 32 1) = Inr e \<and> IndexAESCMCDec toy_evp [3] e = Inr (replicate 32 1))"
proof -
  have "EncryptWithKeyIV toy_evp AES_256_GCM [3] [] [1, 2] = Inr [4, 5]"
    by (simp add: EncryptWithKeyIV_def toy_evp_def shift_bytes_def evp_out_def)
  moreover have "CRYPTO_BLOCK_SIZE dvd length (replicate 32 (1 :: byte))" by (simp add: CRYPTO_BLOCK_SIZE_def)
  ultimately show ?thesis
    using crypto_roundtrips [OF toy_evp_ok, of "replicate 32 1" AES_256_GCM "[3]" "[]" "[1, 2]"] by blast
qed

end
