(* ===== verification/SuperFeature.thy ===== *)
theory SuperFeature
  imports Crypto
begin

text \<open>
  The super-features of a chunk (\<open>getSF2\<close>, \<open>ecallFreqIndex.cc\<close>): a rolling hash over windows of
  48 bytes, the largest value in each of twelve sub-chunks, and three digests of four of these
  each. The lemmas show that the rolling update computes the polynomial of every window and
  that the result depends on the chunk alone once it has 576 bytes.
\<close>

definition WINDOW_SIZE :: nat where "WINDOW_SIZE = 48"
definition SF_NUM :: nat where "SF_NUM = 3"
definition FEATURE_NUM :: nat where "FEATURE_NUM = 12"
definition MODULUS :: int where "MODULUS = 1000000007"

text \<open>Reading \<open>ptr[j]\<close> of the buffer that starts with the chunk.\<close>

definition rd :: "bytes \<Rightarrow> nat \<Rightarrow> fault + int" where
  "rd ptr j = (if j < length ptr then Inr (uint (ptr ! j)) else Inl ReadOutside)"

text \<open>
  The fingerprint is an \<open>int64_t\<close>; it stays below \<open>MOD\<close> in absolute value before it is
  multiplied by \<open>A = 37\<close>, so that no operation leaves the range of the type.
\<close>

definition Apower :: int where
  "Apower = fold (\<lambda>i a. (a * 37) mod MODULUS) [0..<WINDOW_SIZE - 1] 1"

function add_mod :: "int \<Rightarrow> int" where
  "add_mod f = (if f < 0 then add_mod (f + MODULUS) else f)"
  by pat_completeness auto

termination add_mod
  by (relation "measure (\<lambda>f. nat (- f))") (auto simp: MODULUS_def)

declare add_mod.simps [simp del]

definition first_window :: "bytes \<Rightarrow> nat \<Rightarrow> fault + int" where
  "first_window ptr start = foldE (\<lambda>j f. bindE (rd ptr j) (\<lambda>v. Inr ((f * 37 + v) mod MODULUS))) [start..<start + WINDOW_SIZE] 0"

text \<open>One turn of the second loop, with the maximum so far and the fingerprint of the window at \<open>j\<close>.\<close>

definition roll :: "bytes \<Rightarrow> nat \<Rightarrow> nat \<Rightarrow> int \<times> int \<Rightarrow> fault + int \<times> int" where
  "roll ptr end_ix j s =
    (case s of (feature, f) \<Rightarrow>
       let feature' = (if f > feature then f else feature)
       in bindE (rd ptr j) (\<lambda>v.
          let f1 = add_mod (f - (v * Apower) mod MODULUS)
          in if j \<noteq> end_ix - WINDOW_SIZE
             then bindE (rd ptr (j + WINDOW_SIZE)) (\<lambda>w. Inr (feature', (f1 * 37 + w) mod MODULUS))
             else Inr (feature', f1)))"

definition subchunkIndex :: "nat \<Rightarrow> nat \<Rightarrow> nat" where
  "subchunkIndex chunkSize i = chunkSize * i div FEATURE_NUM"

definition feature_of :: "bytes \<Rightarrow> nat \<Rightarrow> nat \<Rightarrow> fault + int" where
  "feature_of ptr start end_ix =
    bindE (first_window ptr start) (\<lambda>f.
    bindE (foldE (roll ptr end_ix) [start..<end_ix + 1 - WINDOW_SIZE] (0, f)) (\<lambda>s. Inr (fst s)))"

text \<open>\<open>std::sort\<close> on every group of \<open>SF_NUM\<close> features.\<close>

definition sort_groups :: "int list \<Rightarrow> int list" where
  "sort_groups fs = concat (map (\<lambda>i. sort (seg (i * SF_NUM) SF_NUM fs)) [0..<FEATURE_NUM div SF_NUM])"

definition sf_bytes :: "int list \<Rightarrow> nat \<Rightarrow> bytes" where
  "sf_bytes fs i = concat (map (\<lambda>j. le64 (word_of_int (fs ! (j * SF_NUM + i)))) [0..<FEATURE_NUM div SF_NUM])"

definition getSF2 :: "evp \<Rightarrow> bytes \<Rightarrow> nat \<Rightarrow> fault + bytes" where
  "getSF2 X ptr chunkSize =
    bindE (mapE (\<lambda>i. feature_of ptr (subchunkIndex chunkSize i) (subchunkIndex chunkSize (Suc i))) [0..<FEATURE_NUM]) (\<lambda>fs.
    bindE (mapE (\<lambda>i. GenerateHash X HASH_TYPE (sf_bytes (sort_groups fs) i)) [0..<SF_NUM]) (\<lambda>hs.
      Inr (concat hs)))"

section \<open>The polynomial of a window\<close>

text \<open>The reference: a window is a number in base 37 modulo \<open>MOD\<close>.\<close>

fun poly :: "bytes \<Rightarrow> int" where
  "poly [] = 0"
| "poly (b # bs) = uint b * 37 ^ length bs + poly bs"

definition window_hash :: "bytes \<Rightarrow> nat \<Rightarrow> int" where
  "window_hash ptr j = poly (seg j WINDOW_SIZE ptr) mod MODULUS"

definition spec_feature :: "bytes \<Rightarrow> nat \<Rightarrow> nat \<Rightarrow> int" where
  "spec_feature ptr start end_ix =
    (if start + WINDOW_SIZE \<le> end_ix then Max (window_hash ptr ` {start..end_ix - WINDOW_SIZE}) else 0)"

lemma poly_snoc: "poly (bs @ [b]) = poly bs * 37 + uint b"
  by (induction bs) (simp_all add: distrib_right)

lemma Apower_eq: "Apower = 37 ^ (WINDOW_SIZE - 1) mod MODULUS"
  by code_simp

lemma add_mod_eq: "0 \<le> a \<Longrightarrow> a < MODULUS \<Longrightarrow> 0 \<le> b \<Longrightarrow> b < MODULUS \<Longrightarrow> add_mod (a - b) = (a - b) mod MODULUS"
proof (cases "a < b")
  case True
  assume "0 \<le> a" "b < MODULUS"
  with True have "add_mod (a - b) = a - b + MODULUS"
    by (subst add_mod.simps, subst add_mod.simps) auto
  also have "\<dots> = (a - b + MODULUS) mod MODULUS" using True \<open>0 \<le> a\<close> \<open>b < MODULUS\<close> by (intro mod_pos_pos_trivial [symmetric]) simp_all
  finally show ?thesis by simp
next
  case False
  assume "0 \<le> b" "a < MODULUS"
  with False show ?thesis by (subst add_mod.simps) (simp add: mod_pos_pos_trivial)
qed

lemma horner_mod: "(x mod MODULUS * 37 + u) mod MODULUS = (x * 37 + u) mod MODULUS"
  by (metis mod_add_left_eq mod_mult_left_eq)

lemma rd_ok: "j < length ptr \<Longrightarrow> rd ptr j = Inr (uint (ptr ! j))"
  by (simp add: rd_def)

lemma seg_snoc: "j + n < length b \<Longrightarrow> seg j (Suc n) b = seg j n b @ [b ! (j + n)]"
  by (simp add: seg_def take_Suc_conv_app_nth)

lemma seg_cons: "j < length b \<Longrightarrow> seg j (Suc n) b = b ! j # seg (Suc j) n b"
  by (simp add: seg_def Cons_nth_drop_Suc flip: take_Suc_Cons)

lemma first_window_ok:
  assumes "start + WINDOW_SIZE \<le> length ptr"
  shows "first_window ptr start = Inr (window_hash ptr start)"
proof -
  have "foldE (\<lambda>j f. bindE (rd ptr j) (\<lambda>v. Inr ((f * 37 + v) mod MODULUS))) [start..<start + n] 0 =
      Inr (poly (seg start n ptr) mod MODULUS)" if "start + n \<le> length ptr" for n
    using that
    by (induction n) (simp_all add: foldE_append rd_ok seg_snoc poly_snoc horner_mod)
  from this [OF assms] show ?thesis by (simp add: first_window_def window_hash_def)
qed

lemma window_hash_next:
  assumes "j + WINDOW_SIZE < length ptr"
  shows "window_hash ptr (Suc j) = ((window_hash ptr j - uint (ptr ! j) * Apower) * 37 + uint (ptr ! (j + WINDOW_SIZE))) mod MODULUS"
proof -
  let ?m = "seg (Suc j) (WINDOW_SIZE - 1) ptr"
  have w: "WINDOW_SIZE = Suc (WINDOW_SIZE - 1)" "length ?m = WINDOW_SIZE - 1"
    using assms by (simp_all add: WINDOW_SIZE_def)
  have a: "seg j WINDOW_SIZE ptr = ptr ! j # ?m" using seg_cons [of j ptr "WINDOW_SIZE - 1"] assms w(1) by simp
  have b: "seg (Suc j) WINDOW_SIZE ptr = ?m @ [ptr ! (j + WINDOW_SIZE)]"
    using seg_snoc [of "Suc j" "WINDOW_SIZE - 1" ptr] assms w(1) by simp
  have "window_hash ptr (Suc j) = (poly ?m * 37 + uint (ptr ! (j + WINDOW_SIZE))) mod MODULUS"
    unfolding window_hash_def b poly_snoc ..
  also have "poly ?m = poly (seg j WINDOW_SIZE ptr) - uint (ptr ! j) * 37 ^ (WINDOW_SIZE - 1)"
    unfolding a by (simp only: poly.simps w(2) add_diff_cancel_left')
  also have "((poly (seg j WINDOW_SIZE ptr) - uint (ptr ! j) * 37 ^ (WINDOW_SIZE - 1)) * 37 + uint (ptr ! (j + WINDOW_SIZE))) mod MODULUS =
      ((window_hash ptr j - uint (ptr ! j) * Apower) * 37 + uint (ptr ! (j + WINDOW_SIZE))) mod MODULUS"
    unfolding window_hash_def Apower_eq
    by (subst (1 2) horner_mod [symmetric]) (metis mod_diff_eq mod_diff_left_eq mod_mult_right_eq)
  finally show ?thesis .
qed

lemma window_hash_range: "0 \<le> window_hash ptr j" "window_hash ptr j < MODULUS"
  by (simp_all add: window_hash_def MODULUS_def)

lemma roll_ok:
  assumes "j + WINDOW_SIZE \<le> end_ix" "end_ix \<le> length ptr"
  shows "\<exists>f. roll ptr end_ix j (m, window_hash ptr j) = Inr (max m (window_hash ptr j), f) \<and>
    (j + WINDOW_SIZE < end_ix \<longrightarrow> f = window_hash ptr (Suc j))"
proof -
  have j: "rd ptr j = Inr (uint (ptr ! j))" using assms by (intro rd_ok) (simp add: WINDOW_SIZE_def)
  have "add_mod (window_hash ptr j - uint (ptr ! j) * Apower mod MODULUS) =
      (window_hash ptr j - uint (ptr ! j) * Apower mod MODULUS) mod MODULUS"
    using window_hash_range [of ptr j] by (intro add_mod_eq) (simp_all add: MODULUS_def)
  also have "\<dots> = (window_hash ptr j - uint (ptr ! j) * Apower) mod MODULUS" by (rule mod_diff_right_eq)
  finally have a: "add_mod (window_hash ptr j - uint (ptr ! j) * Apower mod MODULUS) = \<dots>" .
  show ?thesis
  proof (cases "j + WINDOW_SIZE < end_ix")
    case True
    then have "rd ptr (j + WINDOW_SIZE) = Inr (uint (ptr ! (j + WINDOW_SIZE)))" "j \<noteq> end_ix - WINDOW_SIZE"
      using assms by (auto intro: rd_ok)
    moreover have "window_hash ptr (Suc j) = ((window_hash ptr j - uint (ptr ! j) * Apower) mod MODULUS * 37 +
        uint (ptr ! (j + WINDOW_SIZE))) mod MODULUS"
      using window_hash_next [of j ptr] True assms by (simp only: horner_mod)
    ultimately show ?thesis using j a by (auto simp: roll_def Let_def max_def)
  next
    case False
    with assms(1) have "j = end_ix - WINDOW_SIZE" by simp
    with j a False show ?thesis by (auto simp: roll_def Let_def max_def)
  qed
qed

text \<open>The loop finds the largest window of a sub-chunk.\<close>

lemma roll_loop:
  assumes "start + WINDOW_SIZE \<le> end_ix" "end_ix \<le> length ptr" "start + k \<le> end_ix + 1 - WINDOW_SIZE"
  shows "\<exists>f. foldE (roll ptr end_ix) [start..<start + k] (0, window_hash ptr start) =
      Inr (Max (insert 0 (window_hash ptr ` {start..<start + k})), f) \<and>
    (start + k + WINDOW_SIZE \<le> end_ix \<longrightarrow> f = window_hash ptr (start + k))"
  using assms(3)
proof (induction k)
  case (Suc k)
  then obtain f where f: "foldE (roll ptr end_ix) [start..<start + k] (0, window_hash ptr start) =
        Inr (Max (insert 0 (window_hash ptr ` {start..<start + k})), f)" "f = window_hash ptr (start + k)"
    by auto
  have "{start..<start + Suc k} = insert (start + k) {start..<start + k}" by auto
  then have "Max (insert 0 (window_hash ptr ` {start..<start + Suc k})) =
      max (Max (insert 0 (window_hash ptr ` {start..<start + k}))) (window_hash ptr (start + k))"
    by (simp add: insert_commute [of 0] max.commute)
  moreover have "start + k + WINDOW_SIZE \<le> end_ix" using Suc.prems by simp
  from roll_ok [OF this assms(2)] obtain g where
      "roll ptr end_ix (start + k) (Max (insert 0 (window_hash ptr ` {start..<start + k})), window_hash ptr (start + k)) =
        Inr (max (Max (insert 0 (window_hash ptr ` {start..<start + k}))) (window_hash ptr (start + k)), g)"
      "start + k + WINDOW_SIZE < end_ix \<longrightarrow> g = window_hash ptr (Suc (start + k))"
    by blast
  ultimately show ?case using f by (auto simp: foldE_append)
qed simp

lemma feature_of_ok:
  assumes "start + WINDOW_SIZE \<le> length ptr" "end_ix \<le> length ptr"
  shows "feature_of ptr start end_ix = Inr (spec_feature ptr start end_ix)"
proof (cases "start + WINDOW_SIZE \<le> end_ix")
  case True
  let ?k = "end_ix + 1 - WINDOW_SIZE - start"
  have k: "start + ?k = end_ix + 1 - WINDOW_SIZE" "{start..<end_ix + 1 - WINDOW_SIZE} = {start..end_ix - WINDOW_SIZE}"
    using True by auto
  have "Max (insert 0 (window_hash ptr ` {start..end_ix - WINDOW_SIZE})) = Max (window_hash ptr ` {start..end_ix - WINDOW_SIZE})"
  proof -
    have "window_hash ptr start \<le> Max (window_hash ptr ` {start..end_ix - WINDOW_SIZE})" using True by (intro Max_ge) auto
    then have "0 \<le> Max (window_hash ptr ` {start..end_ix - WINDOW_SIZE})"
      using window_hash_range(1) [of ptr start] by (rule order_trans [rotated])
    then show ?thesis using True by (subst Max_insert) (auto simp: max_absorb2)
  qed
  with roll_loop [OF True assms(2), of ?k] show ?thesis
    using True first_window_ok [OF assms(1)] unfolding k by (auto simp: feature_of_def spec_feature_def)
next
  case False
  then show ?thesis using first_window_ok [OF assms(1)] by (simp add: feature_of_def spec_feature_def)
qed

text \<open>A feature depends on its sub-chunk only.\<close>

lemma spec_feature_prefix: "end_ix \<le> length c \<Longrightarrow> spec_feature (c @ r) start end_ix = spec_feature c start end_ix"
proof -
  assume "end_ix \<le> length c"
  then have "window_hash (c @ r) j = window_hash c j" if "j \<in> {start..end_ix - WINDOW_SIZE}" "start + WINDOW_SIZE \<le> end_ix" for j
    using that by (auto simp: window_hash_def seg_append_left)
  then show ?thesis by (simp add: spec_feature_def cong: image_cong_simp)
qed

lemma subchunkIndex_le: "i \<le> FEATURE_NUM \<Longrightarrow> subchunkIndex n i \<le> n"
proof -
  assume "i \<le> FEATURE_NUM"
  then have "n * i div FEATURE_NUM \<le> n * FEATURE_NUM div FEATURE_NUM" by (intro div_le_mono) simp
  then show ?thesis by (simp add: subchunkIndex_def FEATURE_NUM_def)
qed

lemma subchunk_wide: "12 * WINDOW_SIZE \<le> n \<Longrightarrow> subchunkIndex n i + WINDOW_SIZE \<le> subchunkIndex n (Suc i)"
proof -
  assume n: "12 * WINDOW_SIZE \<le> n"
  have "subchunkIndex n i + WINDOW_SIZE = (n * i + 12 * WINDOW_SIZE) div 12"
    by (simp add: subchunkIndex_def FEATURE_NUM_def)
  also have "\<dots> \<le> (n * i + n) div 12" using n by (intro div_le_mono) simp
  also have "\<dots> = subchunkIndex n (Suc i)" by (simp add: subchunkIndex_def FEATURE_NUM_def add.commute)
  finally show ?thesis .
qed

definition spec_features :: "bytes \<Rightarrow> int list" where
  "spec_features chunk = map (\<lambda>i. spec_feature chunk (subchunkIndex (length chunk) i) (subchunkIndex (length chunk) (Suc i))) [0..<FEATURE_NUM]"

lemma features_ok:
  assumes "12 * WINDOW_SIZE \<le> length chunk \<or> WINDOW_SIZE \<le> length rest"
  shows "mapE (\<lambda>i. feature_of (chunk @ rest) (subchunkIndex (length chunk) i) (subchunkIndex (length chunk) (Suc i))) [0..<FEATURE_NUM] =
    Inr (spec_features chunk)"
  unfolding spec_features_def
proof (rule mapE_Inr)
  fix i
  let ?n = "length chunk"
  assume "i \<in> set [0..<FEATURE_NUM]"
  then have le: "subchunkIndex ?n i \<le> ?n" "subchunkIndex ?n (Suc i) \<le> ?n" "i < FEATURE_NUM" by (auto intro: subchunkIndex_le)
  then have "subchunkIndex ?n i + WINDOW_SIZE \<le> length (chunk @ rest)"
    using assms subchunk_wide [of ?n i] by auto
  from feature_of_ok [OF this] le show "feature_of (chunk @ rest) (subchunkIndex ?n i) (subchunkIndex ?n (Suc i)) =
      Inr (spec_feature chunk (subchunkIndex ?n i) (subchunkIndex ?n (Suc i)))" by (simp add: spec_feature_prefix)
qed

lemma digests_ok:
  assumes "evp_ok X"
  shows "\<exists>hs. mapE (\<lambda>i. GenerateHash X HASH_TYPE (b i)) [0..<SF_NUM] = Inr hs \<and> length (concat hs) = 3 * CHUNK_HASH_SIZE"
proof -
  have h: "\<exists>h. GenerateHash X HASH_TYPE m = Inr h \<and> length h = CHUNK_HASH_SIZE" for m
    using GenerateHash_ok [OF assms, of HASH_TYPE m] by (auto simp: HASH_TYPE_def CHUNK_HASH_SIZE_def)
  obtain h0 h1 h2 where "GenerateHash X HASH_TYPE (b 0) = Inr h0" "GenerateHash X HASH_TYPE (b 1) = Inr h1"
      "GenerateHash X HASH_TYPE (b 2) = Inr h2" "length h0 = CHUNK_HASH_SIZE" "length h1 = CHUNK_HASH_SIZE" "length h2 = CHUNK_HASH_SIZE"
    using h by metis
  moreover have "[0..<SF_NUM] = [0, 1, 2]" by (simp add: SF_NUM_def upt_rec)
  ultimately show ?thesis by simp
qed

text \<open>The super-features of a chunk as a function of its content.\<close>

definition sf_of :: "evp \<Rightarrow> bytes \<Rightarrow> bytes" where
  "sf_of X chunk =
    (case mapE (\<lambda>i. GenerateHash X HASH_TYPE (sf_bytes (sort_groups (spec_features chunk)) i)) [0..<SF_NUM] of
       Inr hs \<Rightarrow> concat hs | Inl e \<Rightarrow> [])"

lemma getSF2_ok:
  assumes "evp_ok X" "12 * WINDOW_SIZE \<le> length chunk \<or> WINDOW_SIZE \<le> length rest"
  shows "getSF2 X (chunk @ rest) (length chunk) = Inr (sf_of X chunk)" "length (sf_of X chunk) = 3 * CHUNK_HASH_SIZE"
  using digests_ok [OF assms(1), of "sf_bytes (sort_groups (spec_features chunk))"] features_ok [OF assms(2)]
  by (auto simp: getSF2_def sf_of_def)

text \<open>
  C25: super-features. For a chunk in a buffer that reaches at least 48 bytes behind it, or of
  at least 576 bytes, \<open>getSF2\<close> reads only inside the buffer and returns three digests of the
  sorted features of the chunk, where a feature is the largest window polynomial of its
  sub-chunk; nothing behind the chunk matters.
\<close>

theorem getSF2_correct:
  assumes "evp_ok X" "12 * WINDOW_SIZE \<le> length chunk \<or> WINDOW_SIZE \<le> length rest"
  shows "\<exists>hs. mapE (\<lambda>i. GenerateHash X HASH_TYPE (sf_bytes (sort_groups (spec_features chunk)) i)) [0..<SF_NUM] = Inr hs \<and>
    getSF2 X (chunk @ rest) (length chunk) = Inr (concat hs) \<and> length (concat hs) = 3 * CHUNK_HASH_SIZE"
  using digests_ok [OF assms(1), of "sf_bytes (sort_groups (spec_features chunk))"] features_ok [OF assms(2)]
  by (auto simp: getSF2_def)

theorem getSF2_correct_witness:
  "\<exists>hs. getSF2 toy_evp ([1, 2, 3] @ replicate 60 7) 3 = Inr (concat hs) \<and> length (concat hs) = 96"
  using getSF2_correct [of toy_evp "[1, 2, 3]" "replicate 60 7"] toy_evp_ok by (auto simp: WINDOW_SIZE_def CHUNK_HASH_SIZE_def numeral_3_eq_3)

end
