(* ===== verification/Upload.thy ===== *)
theory Upload
  imports Crypto
begin

text \<open>
  What the indexes share (\<open>enclaveBase.cc\<close>): compressing, encrypting and storing a unique
  chunk, the file recipe, segments, and the end of an upload (\<open>ProcessTailBatch\<close>, the tail of
  \<open>DataReceiver::Run\<close>). The lemmas show that IVs do not repeat, that a stored chunk decrypts to
  what was encrypted, and that the recipe file decrypts, batch by batch, to the fingerprints of
  the upload in order.
\<close>

section \<open>The enclave's environment\<close>

text \<open>
  OpenSSL and LZ4 as parameters, the keys, and the configuration. \<open>lz4_compress m cap\<close> is
  \<open>LZ4_compress_fast\<close> into a buffer of \<open>cap\<close> bytes (\<open>None\<close>: it returns 0),
  \<open>lz4_decompress c cap\<close> is \<open>LZ4_decompress_safe\<close> (\<open>None\<close>: a negative result).
\<close>

record enclave =
  ssl :: evp
  lz4_compress :: "bytes \<Rightarrow> nat \<Rightarrow> bytes option"
  lz4_decompress :: "bytes \<Rightarrow> nat \<Rightarrow> bytes option"
  enclaveKey :: bytes
  indexQueryKey :: bytes
  masterKey :: bytes
  sessionKey :: bytes
  sendChunkBatchSize :: nat
  sendRecipeBatchSize :: nat
  topThreshold :: nat

text \<open>
  Documented behaviour of LZ4: the compressed block is not empty, fits the buffer, and
  decompresses, into any buffer that is large enough, to the original; decompression never
  writes more than the capacity it is given.
\<close>

definition lz4_ok :: "enclave \<Rightarrow> bool" where
  "lz4_ok E \<longleftrightarrow> (\<forall>m cap c. lz4_compress E m cap = Some c \<longrightarrow> c \<noteq> [] \<and> length c \<le> cap \<and>
     (\<forall>n \<ge> length m. lz4_decompress E c n = Some m)) \<and>
     (\<forall>c n m. lz4_decompress E c n = Some m \<longrightarrow> length m \<le> n)"

text \<open>The fingerprint buffer of a recipe.\<close>

record Recipe =
  recipeNum :: nat
  entryFpList :: bytes

record up_st = store_st +
  inRecipe :: Recipe
  recipeFile :: bytes
  compressedDataSize :: u64
  onlineCompress_size :: u64
  onlineBackupSize :: u64
  Inline_Ocall :: u64
  Inline_RecipeOcall :: u64

section \<open>Initialisation vectors\<close>

text \<open>\<open>PickNewIV\<close> increments the first eight bytes of the IV as a 64-bit integer.\<close>

definition next_iv :: "bytes \<Rightarrow> bytes" where
  "next_iv iv = le64 (rd64 iv + 1) @ drop 8 iv"

definition PickNewIV :: "'a store_st_scheme \<Rightarrow> 'a store_st_scheme" where
  "PickNewIV st = st\<lparr>client_iv := next_iv (client_iv st)\<rparr>"

lemma length_next_iv [simp]: "length iv = CRYPTO_BLOCK_SIZE \<Longrightarrow> length (next_iv iv) = CRYPTO_BLOCK_SIZE"
  by (simp add: next_iv_def size_consts)

lemma rd64_next_iv: "rd64 (next_iv iv) = rd64 iv + 1"
  by (simp add: next_iv_def)

lemma rd64_iter: "rd64 ((next_iv ^^ n) iv) = rd64 iv + word_of_nat n"
  by (induction n) (simp_all add: rd64_next_iv)

lemma iter_iv_inj:
  assumes "m < 2 ^ 64" "n < 2 ^ 64" "(next_iv ^^ m) iv = (next_iv ^^ n) iv"
  shows "m = n"
proof -
  have "(word_of_nat m :: u64) = word_of_nat n"
    using rd64_iter [of m iv] rd64_iter [of n iv] assms(3) by simp
  then have "unat (word_of_nat m :: u64) = unat (word_of_nat n :: u64)" by (rule arg_cong)
  moreover have "unat (word_of_nat m :: u64) = m" using assms(1) by (intro unat_of_nat_small) simp
  moreover have "unat (word_of_nat n :: u64) = n" using assms(2) by (intro unat_of_nat_small) simp
  ultimately show ?thesis by simp
qed

section \<open>Unique chunks\<close>

text \<open>
  Encryption of a chunk, compressed if that succeeds. The compressed bytes and the ciphertext
  go to stack buffers of \<open>MAX_CHUNK_SIZE\<close> bytes.
\<close>

definition count_stored :: "nat \<Rightarrow> 'a up_st_scheme \<Rightarrow> 'a up_st_scheme" where
  "count_stored n st = st\<lparr>compressedDataSize := compressedDataSize st + word_of_nat n,
     onlineCompress_size := onlineCompress_size st + word_of_nat n,
     onlineBackupSize := onlineBackupSize st + word_of_nat n\<rparr>"

definition seal_chunk :: "enclave \<Rightarrow> bytes option \<Rightarrow> bytes \<Rightarrow> 'a up_st_scheme \<Rightarrow> fault + bytes \<times> 'a up_st_scheme" where
  "seal_chunk E compressed chunkBuffer st =
    (let plain = (case compressed of Some c \<Rightarrow> c | None \<Rightarrow> chunkBuffer)
     in if MAX_CHUNK_SIZE < length plain then Inl WriteOutside
        else bindE (EncryptWithKeyIV (ssl E) CIPHER_TYPE (enclaveKey E) (client_iv st) plain) (\<lambda>c.
          Inr (c, count_stored (length plain) st)))"

definition ProcessUniqueChunk ::
  "enclave \<Rightarrow> RecipeEntry \<Rightarrow> bytes \<Rightarrow> 'a up_st_scheme \<Rightarrow> fault + RecipeEntry \<times> 'a up_st_scheme" where
  "ProcessUniqueChunk E chunkAddr chunkBuffer st =
    bindE (seal_chunk E (lz4_compress E chunkBuffer (length chunkBuffer)) chunkBuffer (PickNewIV st)) (\<lambda>(cipher, st1).
      SaveChunk cipher chunkAddr st1)"

text \<open>Only chunks that are not deltas are compressed; \<open>save_separate\<close> chooses the container.\<close>

definition ProcessSheUniqueChunk ::
  "enclave \<Rightarrow> RecipeEntry \<Rightarrow> bytes \<Rightarrow> bytes \<Rightarrow> fp \<Rightarrow> 'a up_st_scheme \<Rightarrow> fault + RecipeEntry \<times> 'a up_st_scheme" where
  "ProcessSheUniqueChunk E chunkAddr chunkBuffer chunksf chunkfp st =
    bindE (seal_chunk E (if deltaFlag chunkAddr = delta_code NO_DELTA
                         then lz4_compress E chunkBuffer (length chunkBuffer) else None)
             chunkBuffer (PickNewIV st)) (\<lambda>(cipher, st1).
      save_separate (cipher, chunkAddr, chunksf, chunkfp) st1)"

section \<open>The file recipe\<close>

text \<open>
  \<open>UpdateFileRecipe\<close>: append a fingerprint, and when the batch is full encrypt it and hand it
  to \<open>Ocall_UpdateFileRecipe\<close>, which appends it to the recipe file.
\<close>

definition Ocall_UpdateFileRecipe :: "bytes \<Rightarrow> nat \<Rightarrow> 'a up_st_scheme \<Rightarrow> 'a up_st_scheme" where
  "Ocall_UpdateFileRecipe entryFps num st = st\<lparr>recipeFile := recipeFile st @ take (num * CHUNK_HASH_SIZE) entryFps\<rparr>"

definition flush_recipe :: "enclave \<Rightarrow> 'a up_st_scheme \<Rightarrow> fault + 'a up_st_scheme" where
  "flush_recipe E st =
    (let r = inRecipe st
     in bindE (EncryptWithKey (ssl E) CIPHER_TYPE (masterKey E) (take (recipeNum r * CHUNK_HASH_SIZE) (entryFpList r))) (\<lambda>c.
          Inr ((Ocall_UpdateFileRecipe c (recipeNum r) st)\<lparr>inRecipe := r\<lparr>recipeNum := 0\<rparr>\<rparr>)))"

definition UpdateFileRecipe :: "enclave \<Rightarrow> fp \<Rightarrow> 'a up_st_scheme \<Rightarrow> fault + 'a up_st_scheme" where
  "UpdateFileRecipe E chunkfp st =
    (let r = inRecipe st
     in bindE (memcpyE (sendRecipeBatchSize E * CHUNK_HASH_SIZE) (entryFpList r) (recipeNum r * CHUNK_HASH_SIZE)
                 (take CHUNK_HASH_SIZE chunkfp)) (\<lambda>b.
        let st1 = st\<lparr>inRecipe := \<lparr>recipeNum = Suc (recipeNum r), entryFpList = b\<rparr>\<rparr>
        in if Suc (recipeNum r) mod sendRecipeBatchSize E = 0 then
             bindE (flush_recipe E st1) (\<lambda>st2. Inr (st2\<lparr>Inline_Ocall := Inline_Ocall st2 + 1,
               Inline_RecipeOcall := Inline_RecipeOcall st2 + 1\<rparr>))
           else Inr st1))"

section \<open>The end of an upload\<close>

definition ProcessTailBatch :: "enclave \<Rightarrow> 'a up_st_scheme \<Rightarrow> fault + 'a up_st_scheme" where
  "ProcessTailBatch E st =
    bindE (if recipeNum (inRecipe st) \<noteq> 0 then flush_recipe E st else Inr st) (\<lambda>st1.
    bindE (if curSize (inContainer st1) \<noteq> 0
           then bindE (dump_container (inContainer st1) (curContainer st1)) (\<lambda>c. Inr (st1\<lparr>curContainer := c\<rparr>))
           else Inr st1) (\<lambda>st2.
    if curSize (deltainContainer st2) \<noteq> 0
    then bindE (dump_container (deltainContainer st2) (curDeltaContainer st2)) (\<lambda>c. Inr (st2\<lparr>curDeltaContainer := c\<rparr>))
    else Inr st2))"

text \<open>After the last message \<open>DataReceiver::Run\<close> hands over the two current containers.\<close>

definition finish_upload :: "'a store_st_scheme \<Rightarrow> fault + 'a store_st_scheme" where
  "finish_upload st =
    bindE (if currentSize (curContainer st) \<noteq> 0 then Ocall_WriteContainer st else Inr st) (\<lambda>st1.
    if currentSize (curDeltaContainer st1) \<noteq> 0 then Ocall_WriteDeltaContainer st1 else Inr st1)"

section \<open>Segments\<close>

record Segment =
  chunkNum :: u32
  segmentSize :: u32
  minHashVal :: u32

definition maxSegmentChunkNum :: u32 where
  "maxSegmentChunkNum = word_of_nat (MAX_SEGMENT_SIZE div MIN_CHUNK_SIZE)"

definition IsEndOfSegment :: "u32 \<Rightarrow> u32 \<Rightarrow> Segment \<Rightarrow> bool" where
  "IsEndOfSegment chunkHashVal chunkSize segment =
    (if chunkNum segment + 1 > maxSegmentChunkNum then True
     else if segmentSize segment + chunkSize < word_of_nat MIN_SEGMENT_SIZE then False
     else if segmentSize segment + chunkSize > word_of_nat MAX_SEGMENT_SIZE then True
     else chunkHashVal mod word_of_nat DIVISOR = word_of_nat PATTERN)"

definition ConvertHashToValue :: "fp \<Rightarrow> u32" where
  "ConvertHashToValue inputHash = fold (\<lambda>i v. v + ucast (inputHash ! i)) [0..<CHUNK_HASH_SIZE] 0"

definition ResetCurrentSegment :: "Segment \<Rightarrow> Segment" where
  "ResetCurrentSegment segment = segment\<lparr>chunkNum := 0, minHashVal := - 1, segmentSize := 0\<rparr>"

section \<open>Stored chunks decrypt to what was encrypted\<close>

definition plain_of :: "bytes option \<Rightarrow> bytes \<Rightarrow> bytes" where
  "plain_of compressed chunk = (case compressed of Some c \<Rightarrow> c | None \<Rightarrow> chunk)"

lemma seal_chunk_ok:
  assumes "evp_ok (ssl E)" "length (plain_of z chunk) \<le> MAX_CHUNK_SIZE"
  shows "\<exists>c. seal_chunk E z chunk st = Inr (c, count_stored (length (plain_of z chunk)) st) \<and>
    length c = length (plain_of z chunk) \<and>
    DecryptionWithKeyIV (ssl E) CIPHER_TYPE (enclaveKey E) (client_iv st) c = Inr (plain_of z chunk)"
proof -
  obtain c where "EncryptWithKeyIV (ssl E) CIPHER_TYPE (enclaveKey E) (client_iv st) (plain_of z chunk) = Inr c"
      "length c = length (plain_of z chunk)"
      "DecryptionWithKeyIV (ssl E) CIPHER_TYPE (enclaveKey E) (client_iv st) c = Inr (plain_of z chunk)"
    using EncryptWithKeyIV_ok [OF assms(1)] by metis
  then show ?thesis using assms(2) by (simp add: seal_chunk_def plain_of_def Let_def)
qed

lemma lz4_okD:
  assumes "lz4_ok E"
  shows "lz4_compress E m cap = Some c \<Longrightarrow> c \<noteq> []" "lz4_compress E m cap = Some c \<Longrightarrow> length c \<le> cap"
    "lz4_compress E m cap = Some c \<Longrightarrow> length m \<le> n \<Longrightarrow> lz4_decompress E c n = Some m"
    "lz4_decompress E c n = Some m \<Longrightarrow> length m \<le> n"
  using assms unfolding lz4_ok_def by blast+

lemma lz4_short: "lz4_ok E \<Longrightarrow> length chunk \<le> n \<Longrightarrow> length (plain_of (lz4_compress E chunk (length chunk)) chunk) \<le> n"
  using lz4_okD(2) [of E chunk "length chunk"]
  by (cases "lz4_compress E chunk (length chunk)") (auto simp: plain_of_def intro: order_trans)

lemma store_frame:
  "store_inv (count_stored n (PickNewIV st)) \<longleftrightarrow> store_inv (PickNewIV st)"
  "look_chunk (count_stored n st) = look_chunk st" "look_chunk (PickNewIV st) = look_chunk st"
  "con_times (count_stored n st) = con_times st" "client_iv (count_stored n st) = client_iv st"
  "con_times (PickNewIV st) = con_times st" "client_iv (PickNewIV st) = next_iv (client_iv st)"
  "extends (count_stored n (PickNewIV st)) st' \<longleftrightarrow> extends st st'"
  by (simp_all add: count_stored_def PickNewIV_def store_inv_def store_names_def fun_eq_iff look_chunk_def
      container_bytes_def extends_def)

lemma PickNewIV_inv: "store_inv st \<Longrightarrow> store_inv (PickNewIV st)"
  by (simp add: PickNewIV_def store_inv_def store_names_def)

text \<open>
  A chunk lies at an address: the bytes there decrypt, under the IV behind them, to \<open>p\<close>.
\<close>

definition holds_plain :: "enclave \<Rightarrow> 'a store_st_scheme \<Rightarrow> RecipeEntry \<Rightarrow> bytes \<Rightarrow> bool" where
  "holds_plain E st a p \<longleftrightarrow>
    (\<exists>c iv. look_chunk st a = Some (c, iv) \<and> length c = length p \<and>
      DecryptionWithKeyIV (ssl E) CIPHER_TYPE (enclaveKey E) iv c = Inr p)"

lemma holds_plain_mono: "extends st st' \<Longrightarrow> holds_plain E st a p \<Longrightarrow> holds_plain E st' a p"
  unfolding holds_plain_def using look_chunk_mono by blast

lemma up_more:
  fixes a b :: "'a up_st_scheme"
  assumes "store_st.more a = store_st.more b"
  shows "inRecipe a = inRecipe b" "recipeFile a = recipeFile b"
  using assms by (cases a, cases b, simp)+

lemma ProcessSheUniqueChunk_ok:
  assumes "evp_ok (ssl E)" "lz4_ok E" "store_inv st" "con_times st < INT_MAX"
    "length chunk \<le> MAX_CHUNK_SIZE" "length f = CHUNK_HASH_SIZE" "length sf = 3 * CHUNK_HASH_SIZE"
    "length (basechunkHash a) = CHUNK_HASH_SIZE" "length (superfeature a) = 3 * CHUNK_HASH_SIZE"
  defines "z \<equiv> (if deltaFlag a = delta_code NO_DELTA then lz4_compress E chunk (length chunk) else None)"
  shows "\<exists>a' st'. ProcessSheUniqueChunk E a chunk sf f st = Inr (a', st') \<and> store_inv st' \<and> extends st st' \<and>
    con_times st' \<le> Suc (con_times st) \<and> client_iv st' = next_iv (client_iv st) \<and>
    entry_wf a' \<and> deltaFlag a' = deltaFlag a \<and> basechunkHash a' = basechunkHash a \<and>
    inRecipe st' = inRecipe st \<and> recipeFile st' = recipeFile st \<and> holds_plain E st' a' (plain_of z chunk)"
proof -
  let ?p = "plain_of z chunk" and ?st1 = "PickNewIV st"
  have len: "length ?p \<le> MAX_CHUNK_SIZE"
    using lz4_short [OF assms(2,5)] assms(5) by (simp add: z_def plain_of_def split: option.splits)
  obtain c where c: "seal_chunk E z chunk ?st1 = Inr (c, count_stored (length ?p) ?st1)" "length c = length ?p"
      "DecryptionWithKeyIV (ssl E) CIPHER_TYPE (enclaveKey E) (next_iv (client_iv st)) c = Inr ?p"
    using seal_chunk_ok [OF assms(1) len, of ?st1] by (auto simp: store_frame)
  let ?st2 = "count_stored (length ?p) ?st1"
  have inv: "store_inv ?st2" using assms(3) PickNewIV_inv store_frame by blast
  have "req_ok (client_iv ?st2) (c, a, sf, f)"
    using assms(3,6-9) c(2) len
    by (simp add: req_ok_def meta_ok_def store_frame store_inv_def) (simp add: meta_consts)
  then obtain a' st' where s: "save_separate (c, a, sf, f) ?st2 = Inr (a', st')"
      "saved ?st2 a' (chunk_record a' f sf c (client_iv ?st2)) st'" "entry_wf a'" "deltaFlag a' = deltaFlag a"
      "basechunkHash a' = basechunkHash a" "look_chunk st' a' = Some (c, next_iv (client_iv st))"
    using save_separate_ok [OF inv, of c a sf f] assms(4) by (auto simp: store_frame)
  have "ProcessSheUniqueChunk E a chunk sf f st = Inr (a', st')"
    using c(1) s(1) by (simp add: ProcessSheUniqueChunk_def z_def)
  moreover have "inRecipe st' = inRecipe st \<and> recipeFile st' = recipeFile st"
    using s(2) up_more [of st' ?st2] by (simp add: saved_def count_stored_def PickNewIV_def)
  ultimately show ?thesis
    using s c by (auto simp: saved_def store_frame holds_plain_def)
qed

section \<open>The recipe file\<close>

text \<open>
  Reading a recipe (\<open>EnclaveRecvDecoder::Run\<close> with the decryption at the head of
  \<open>ProcRecipeBatch\<close>): \<open>sendRecipeBatchSize\<close> fingerprints at a time until nothing is read.
\<close>

function read_recipe :: "enclave \<Rightarrow> bytes \<Rightarrow> fault + bytes" where
  "read_recipe E file =
    (let n = CHUNK_HASH_SIZE * sendRecipeBatchSize E; batch = take n file
     in if length batch = 0 then Inr []
        else bindE (DecryptWithKey (ssl E) CIPHER_TYPE (masterKey E) (take (length batch div CHUNK_HASH_SIZE * CHUNK_HASH_SIZE) batch)) (\<lambda>p.
             bindE (read_recipe E (drop n file)) (\<lambda>r. Inr (p @ r))))"
  by pat_completeness auto

termination read_recipe
  by (relation "measure (\<lambda>(E, file). length file)") auto

declare read_recipe.simps [simp del]

lemma read_recipe_Nil [simp]: "read_recipe E [] = Inr []"
  by (simp add: read_recipe.simps)

lemma read_recipe_append:
  assumes "CHUNK_HASH_SIZE * sendRecipeBatchSize E dvd length rf" "0 < sendRecipeBatchSize E"
    "read_recipe E rf = Inr q" "DecryptWithKey (ssl E) CIPHER_TYPE (masterKey E) c = Inr p"
    "c \<noteq> []" "CHUNK_HASH_SIZE dvd length c" "length c \<le> CHUNK_HASH_SIZE * sendRecipeBatchSize E"
  shows "read_recipe E (rf @ c) = Inr (q @ p)"
  using assms(1,3)
proof (induction "length rf" arbitrary: rf q rule: less_induct)
  case less
  let ?n = "CHUNK_HASH_SIZE * sendRecipeBatchSize E"
  have c: "length c div CHUNK_HASH_SIZE * CHUNK_HASH_SIZE = length c" using assms(6) by simp
  show ?case
  proof (cases "rf = []")
    case True
    moreover have "CHUNK_HASH_SIZE \<noteq> 0" by (simp add: CHUNK_HASH_SIZE_def)
    ultimately show ?thesis using less.prems(2) assms(2,4,5,7) c by (simp add: read_recipe.simps [of E c] Let_def)
  next
    case False
    have pos: "0 < ?n" using assms(2) by (simp add: CHUNK_HASH_SIZE_def)
    have le: "?n \<le> length rf" using less.prems(1) False by (simp add: dvd_imp_le)
    then have m: "length (take ?n rf) = ?n" "length (take ?n (rf @ c)) = ?n" "?n div CHUNK_HASH_SIZE * CHUNK_HASH_SIZE = ?n"
      by simp_all
    obtain p1 r where dec: "DecryptWithKey (ssl E) CIPHER_TYPE (masterKey E) (take ?n rf) = Inr p1"
        "read_recipe E (drop ?n rf) = Inr r" "q = p1 @ r"
      using less.prems(2) pos unfolding read_recipe.simps [of E rf] Let_def m by (auto simp: bindE_Inr_iff)
    have "read_recipe E (drop ?n rf @ c) = Inr (r @ p)"
      using le pos less.prems(1) dec(2) False by (intro less.hyps) (auto simp: dvd_diff_nat)
    then show ?thesis
      using le pos dec unfolding read_recipe.simps [of E "rf @ c"] Let_def m by simp
  qed
qed

text \<open>The recipe after the fingerprints \<open>fs\<close>: whole batches in the file, the rest in the buffer.\<close>

definition recipe_inv :: "enclave \<Rightarrow> fp list \<Rightarrow> 'a up_st_scheme \<Rightarrow> bool" where
  "recipe_inv E fs st \<longleftrightarrow> 0 < sendRecipeBatchSize E \<and> (\<forall>f \<in> set fs. length f = CHUNK_HASH_SIZE) \<and>
     (\<exists>full rest. fs = full @ rest \<and> length rest = recipeNum (inRecipe st) \<and> length rest < sendRecipeBatchSize E \<and>
        length (entryFpList (inRecipe st)) \<ge> length rest * CHUNK_HASH_SIZE \<and>
        take (length rest * CHUNK_HASH_SIZE) (entryFpList (inRecipe st)) = concat rest \<and>
        CHUNK_HASH_SIZE * sendRecipeBatchSize E dvd length (recipeFile st) \<and>
        read_recipe E (recipeFile st) = Inr (concat full))"

lemma length_concat_fps: "\<forall>f \<in> set fs. length f = n \<Longrightarrow> length (concat fs) = length fs * n"
  by (induction fs) auto

lemma flush_recipe_ok:
  assumes "evp_ok (ssl E)" "0 < sendRecipeBatchSize E" "rest \<noteq> []" "\<forall>f \<in> set rest. length f = CHUNK_HASH_SIZE"
    "length rest = recipeNum (inRecipe st)" "length rest \<le> sendRecipeBatchSize E"
    "take (length rest * CHUNK_HASH_SIZE) (entryFpList (inRecipe st)) = concat rest"
    "CHUNK_HASH_SIZE * sendRecipeBatchSize E dvd length (recipeFile st)" "read_recipe E (recipeFile st) = Inr (concat full)"
  shows "\<exists>c. flush_recipe E st = Inr (st\<lparr>recipeFile := recipeFile st @ c, inRecipe := (inRecipe st)\<lparr>recipeNum := 0\<rparr>\<rparr>) \<and>
    length c = length rest * CHUNK_HASH_SIZE \<and> read_recipe E (recipeFile st @ c) = Inr (concat (full @ rest))"
proof -
  have len: "length (concat rest) = length rest * CHUNK_HASH_SIZE" using assms(4) by (rule length_concat_fps)
  obtain c where c: "EncryptWithKey (ssl E) CIPHER_TYPE (masterKey E) (concat rest) = Inr c" "length c = length (concat rest)"
      "DecryptWithKey (ssl E) CIPHER_TYPE (masterKey E) c = Inr (concat rest)"
    using EncryptWithKey_ok [OF assms(1)] by metis
  have "read_recipe E (recipeFile st @ c) = Inr (concat full @ concat rest)"
    using assms(2,3,6,8,9) c len by (intro read_recipe_append) (auto simp: CHUNK_HASH_SIZE_def)
  then show ?thesis
    using assms(5,7) c len by (intro exI [of _ c]) (simp add: flush_recipe_def Ocall_UpdateFileRecipe_def Let_def)
qed

lemma UpdateFileRecipe_ok:
  assumes "evp_ok (ssl E)" "recipe_inv E fs st" "length f = CHUNK_HASH_SIZE"
  shows "\<exists>st'. UpdateFileRecipe E f st = Inr st' \<and> recipe_inv E (fs @ [f]) st' \<and>
    store_st.truncate st' = store_st.truncate st"
proof -
  let ?B = "sendRecipeBatchSize E" and ?r = "inRecipe st"
  obtain full rest where r: "fs = full @ rest" "length rest = recipeNum ?r" "length rest < ?B" "0 < ?B"
      "\<forall>f \<in> set fs. length f = CHUNK_HASH_SIZE"
      "length (entryFpList ?r) \<ge> length rest * CHUNK_HASH_SIZE"
      "take (length rest * CHUNK_HASH_SIZE) (entryFpList ?r) = concat rest"
      "CHUNK_HASH_SIZE * ?B dvd length (recipeFile st)" "read_recipe E (recipeFile st) = Inr (concat full)"
    using assms(2) by (auto simp: recipe_inv_def)
  let ?b = "put (entryFpList ?r) (length rest * CHUNK_HASH_SIZE) f"
  have "Suc (length rest) * CHUNK_HASH_SIZE \<le> ?B * CHUNK_HASH_SIZE" using r(3) by (intro mult_le_mono1) simp
  then have cpy: "memcpyE (?B * CHUNK_HASH_SIZE) (entryFpList ?r) (length rest * CHUNK_HASH_SIZE) f = Inr ?b"
    using r(6) assms(3) by (intro memcpyE_ok) simp_all
  let ?st1 = "st\<lparr>inRecipe := \<lparr>recipeNum = Suc (length rest), entryFpList = ?b\<rparr>\<rparr>" and ?rest = "rest @ [f]"
  have b: "take (length ?rest * CHUNK_HASH_SIZE) ?b = concat ?rest" "length ?rest * CHUNK_HASH_SIZE \<le> length ?b"
    using r(6,7) assms(3) put_length_le [OF r(6), of f] by (simp_all add: take_put add.commute)
  have wf: "\<forall>f \<in> set ?rest. length f = CHUNK_HASH_SIZE" using r(1,5) assms(3) by auto
  show ?thesis
  proof (cases "Suc (length rest) mod ?B = 0")
    case True
    then have B: "length ?rest = ?B" using r(3) by (simp add: mod_eq_0_iff_dvd) (metis Suc_leI dvd_imp_le le_antisym zero_less_Suc)
    obtain c where c: "flush_recipe E ?st1 = Inr (?st1\<lparr>recipeFile := recipeFile st @ c, inRecipe := (inRecipe ?st1)\<lparr>recipeNum := 0\<rparr>\<rparr>)"
        "length c = length ?rest * CHUNK_HASH_SIZE" "read_recipe E (recipeFile st @ c) = Inr (concat (full @ ?rest))"
      using flush_recipe_ok [OF assms(1) r(4), of ?rest ?st1 full] wf B b(1) r(8,9) by (auto simp del: mult_Suc)
    have "length c = CHUNK_HASH_SIZE * ?B" using c(2) B by (simp only: mult.commute)
    then have "CHUNK_HASH_SIZE * ?B dvd length (recipeFile st @ c)" using r(8) by simp
    moreover have "UpdateFileRecipe E f st = Inr (?st1\<lparr>recipeFile := recipeFile st @ c, inRecipe := (inRecipe ?st1)\<lparr>recipeNum := 0\<rparr>,
        Inline_Ocall := Inline_Ocall st + 1, Inline_RecipeOcall := Inline_RecipeOcall st + 1\<rparr>)"
      using True cpy c(1) r(2) assms(3) by (simp add: UpdateFileRecipe_def Let_def del: mult_Suc)
    ultimately show ?thesis
      using c(3) r(1,4,5) assms(3)
      by (auto simp: recipe_inv_def store_st.defs intro!: exI [of _ "full @ ?rest"] simp del: length_append)
  next
    case False
    have "length ?rest < ?B" using False r(3) by (cases "Suc (length rest) = ?B") auto
    then have "recipe_inv E (fs @ [f]) ?st1"
      using b r assms(3) unfolding recipe_inv_def by (intro conjI exI [of _ full] exI [of _ ?rest]) auto
    moreover have "UpdateFileRecipe E f st = Inr ?st1"
      using False cpy r(2) assms(3) by (simp add: UpdateFileRecipe_def Let_def)
    ultimately show ?thesis by (simp add: store_st.defs)
  qed
qed

lemma tail_recipe:
  assumes "evp_ok (ssl E)" "recipe_inv E fs st1" "ic_ok (inContainer st1)" "ic_ok (deltainContainer st1)"
  shows "\<exists>st2. ProcessTailBatch E st1 = Inr st2 \<and> read_recipe E (recipeFile st2) = Inr (concat fs)"
proof -
  obtain full rest where r: "fs = full @ rest" "length rest = recipeNum (inRecipe st1)" "length rest < sendRecipeBatchSize E"
      "take (length rest * CHUNK_HASH_SIZE) (entryFpList (inRecipe st1)) = concat rest"
      "CHUNK_HASH_SIZE * sendRecipeBatchSize E dvd length (recipeFile st1)" "read_recipe E (recipeFile st1) = Inr (concat full)"
    using assms(2) by (auto simp: recipe_inv_def)
  have "\<exists>st'. (if recipeNum (inRecipe st1) \<noteq> 0 then flush_recipe E st1 else Inr st1) = Inr st' \<and>
      read_recipe E (recipeFile st') = Inr (concat fs) \<and> ic_ok (inContainer st') \<and> ic_ok (deltainContainer st')"
  proof (cases "rest = []")
    case True
    with r assms(3,4) show ?thesis by simp
  next
    case False
    have "\<forall>f \<in> set rest. length f = CHUNK_HASH_SIZE" using assms(2) r(1) by (auto simp: recipe_inv_def)
    from flush_recipe_ok [OF assms(1) _ False this r(2) _ r(4,5,6)] r(1,2,3) False assms show ?thesis by (auto simp: recipe_inv_def)
  qed
  then obtain st' where st': "(if recipeNum (inRecipe st1) \<noteq> 0 then flush_recipe E st1 else Inr st1) = Inr st'"
      "read_recipe E (recipeFile st') = Inr (concat fs)" "ic_ok (inContainer st')" "ic_ok (deltainContainer st')" by blast
  obtain b where b: "dump_container (inContainer st') (curContainer st') =
      Inr ((curContainer st')\<lparr>ct_body := b, currentSize := curSize (inContainer st')\<rparr>)"
    using dump_container_ok [OF st'(3)] by blast
  obtain d where d: "dump_container (deltainContainer st') (curDeltaContainer st') =
      Inr ((curDeltaContainer st')\<lparr>ct_body := d, currentSize := curSize (deltainContainer st')\<rparr>)"
    using dump_container_ok [OF st'(4)] by blast
  show ?thesis using st'(1,2) b d by (auto simp: ProcessTailBatch_def)
qed

text \<open>
  C22: the file recipe. After the fingerprints \<open>fs\<close> of an upload have been recorded one by one
  and the tail batch has been processed, reading the recipe file back, batch by batch, gives
  exactly those fingerprints in order, and no write leaves the fingerprint buffer.
\<close>

theorem recipe_roundtrip:
  assumes "evp_ok (ssl E)" "0 < sendRecipeBatchSize E" "\<forall>f \<in> set fs. length f = CHUNK_HASH_SIZE"
    "recipeNum (inRecipe st) = 0" "recipeFile st = []" "ic_ok (inContainer st)" "ic_ok (deltainContainer st)"
  shows "\<exists>st1 st2. foldE (UpdateFileRecipe E) fs st = Inr st1 \<and> ProcessTailBatch E st1 = Inr st2 \<and>
    read_recipe E (recipeFile st2) = Inr (concat fs)"
proof -
  have pre: "\<exists>st'. foldE (UpdateFileRecipe E) gs st = Inr st' \<and> recipe_inv E gs st' \<and> store_st.truncate st' = store_st.truncate st"
    if "gs \<in> {g. \<exists>h. fs = g @ h}" for gs
    using that
  proof (induction gs rule: rev_induct)
    case Nil
    then show ?case using assms by (auto simp: recipe_inv_def)
  next
    case (snoc f gs)
    then obtain st' where "foldE (UpdateFileRecipe E) gs st = Inr st'" "recipe_inv E gs st'"
        "store_st.truncate st' = store_st.truncate st" by auto
    moreover have "length f = CHUNK_HASH_SIZE" using snoc.prems assms(3) by auto
    ultimately show ?case using UpdateFileRecipe_ok [OF assms(1)] by (fastforce simp: foldE_append)
  qed
  obtain st1 where st1: "foldE (UpdateFileRecipe E) fs st = Inr st1" "recipe_inv E fs st1"
      "store_st.truncate st1 = store_st.truncate st" using pre [of fs] by auto
  have ic: "ic_ok (inContainer st1)" "ic_ok (deltainContainer st1)"
    using st1(3) assms(6,7) by (simp_all add: store_st.defs)
  from tail_recipe [OF assms(1) st1(2) ic] st1(1) show ?thesis by blast
qed

definition toy_enclave :: enclave where
  "toy_enclave = \<lparr>ssl = toy_evp, lz4_compress = (\<lambda>m cap. None), lz4_decompress = (\<lambda>c cap. None), enclaveKey = [1],
     indexQueryKey = [2], masterKey = [3], sessionKey = [4], sendChunkBatchSize = 128, sendRecipeBatchSize = 2,
     topThreshold = 4\<rparr>"

definition fresh_up :: up_st where
  "fresh_up = store_st.extend fresh_store
     \<lparr>inRecipe = \<lparr>recipeNum = 0, entryFpList = []\<rparr>, recipeFile = [], compressedDataSize = 0, onlineCompress_size = 0,
      onlineBackupSize = 0, Inline_Ocall = 0, Inline_RecipeOcall = 0\<rparr>"

theorem recipe_roundtrip_witness:
  "\<exists>st1 st2. foldE (UpdateFileRecipe toy_enclave) [replicate 32 1, replicate 32 2, replicate 32 3] fresh_up = Inr st1 \<and>
    ProcessTailBatch toy_enclave st1 = Inr st2 \<and>
    read_recipe toy_enclave (recipeFile st2) = Inr (concat [replicate 32 1, replicate 32 2, replicate 32 3])"
  by (rule recipe_roundtrip)
    (simp_all add: toy_enclave_def toy_evp_ok fresh_up_def store_st.defs fresh_store_def ic_ok_def size_consts)

section \<open>Durability\<close>

text \<open>What is in the writer's queue at the end of an upload.\<close>

definition handed_over :: "InContainer \<Rightarrow> container_name \<Rightarrow> Container list \<Rightarrow> bool" where
  "handed_over ic n cs \<longleftrightarrow>
    (if curSize ic = 0 then cs = [] else \<exists>c. cs = [c] \<and> containerID c = n \<and> ct_bytes c = ic_bytes ic)"

lemma new_uuid_ok: "con_times st < INT_MAX \<Longrightarrow> \<exists>u. new_uuid st = Inr (u, st\<lparr>con_times := Suc (con_times st)\<rparr>)"
  using uuid_bytes_ok [of "con_times st"] by (auto simp: new_uuid_def)

lemma tail_containers:
  assumes "evp_ok (ssl E)" "ic_ok (inContainer st)" "ic_ok (deltainContainer st)"
    "currentSize (curContainer st) = 0" "currentSize (curDeltaContainer st) = 0"
  shows "\<exists>st1 c d. ProcessTailBatch E st = Inr st1 \<and> inputMQ st1 = inputMQ st \<and> con_times st1 = con_times st \<and>
    curContainer st1 = c \<and> curDeltaContainer st1 = d \<and>
    containerID c = containerID (curContainer st) \<and> containerID d = containerID (curDeltaContainer st) \<and>
    currentSize c = curSize (inContainer st) \<and> currentSize d = curSize (deltainContainer st) \<and>
    ct_bytes c = ic_bytes (inContainer st) \<and> ct_bytes d = ic_bytes (deltainContainer st) \<and>
    inContainer st1 = inContainer st \<and> deltainContainer st1 = deltainContainer st \<and> client_iv st1 = client_iv st"
proof -
  let ?r = "inRecipe st"
  obtain e where e: "EncryptWithKey (ssl E) CIPHER_TYPE (masterKey E) (take (recipeNum ?r * CHUNK_HASH_SIZE) (entryFpList ?r)) = Inr e"
    using EncryptWithKey_ok [OF assms(1)] by metis
  obtain st' where st': "(if recipeNum ?r \<noteq> 0 then flush_recipe E st else Inr st) = Inr st'"
      "store_st.truncate st' = store_st.truncate st"
    using e by (cases "recipeNum ?r = 0") (auto simp: flush_recipe_def Ocall_UpdateFileRecipe_def Let_def store_st.defs)
  have same: "inContainer st' = inContainer st" "deltainContainer st' = deltainContainer st" "curContainer st' = curContainer st"
      "curDeltaContainer st' = curDeltaContainer st" "inputMQ st' = inputMQ st" "con_times st' = con_times st" "client_iv st' = client_iv st"
    using st'(2) by (simp_all add: store_st.defs)
  obtain b where b: "dump_container (inContainer st) (curContainer st) =
        Inr ((curContainer st)\<lparr>ct_body := b, currentSize := curSize (inContainer st)\<rparr>)"
      "take (unat (curSize (inContainer st))) b = ic_bytes (inContainer st)"
    using dump_container_ok [OF assms(2)] by blast
  obtain d where d: "dump_container (deltainContainer st) (curDeltaContainer st) =
        Inr ((curDeltaContainer st)\<lparr>ct_body := d, currentSize := curSize (deltainContainer st)\<rparr>)"
      "take (unat (curSize (deltainContainer st))) d = ic_bytes (deltainContainer st)"
    using dump_container_ok [OF assms(3)] by blast
  show ?thesis
    using st'(1) same b d assms(4,5)
    by (cases "curSize (inContainer st) = 0"; cases "curSize (deltainContainer st) = 0")
      (simp_all add: ProcessTailBatch_def ct_bytes_def ic_bytes_def)
qed

lemma hand_base:
  assumes "con_times st < INT_MAX"
  shows "\<exists>st'. Ocall_WriteContainer st = Inr st' \<and> inputMQ st' = inputMQ st @ [(curContainer st)\<lparr>ct_delta := False\<rparr>] \<and>
    con_times st' = Suc (con_times st) \<and> curDeltaContainer st' = curDeltaContainer st"
  using uuid_bytes_ok [OF assms] by (auto simp: Ocall_WriteContainer_def new_uuid_def Let_def)

lemma hand_delta:
  assumes "con_times st < INT_MAX"
  shows "\<exists>st'. Ocall_WriteDeltaContainer st = Inr st' \<and> inputMQ st' = inputMQ st @ [(curDeltaContainer st)\<lparr>ct_delta := True\<rparr>]"
  using uuid_bytes_ok [OF assms] by (auto simp: Ocall_WriteDeltaContainer_def new_uuid_def Let_def)

lemma finish_upload_ok:
  assumes "con_times st + 2 \<le> INT_MAX"
  shows "\<exists>st'. finish_upload st = Inr st' \<and> inputMQ st' = inputMQ st @
    (if currentSize (curContainer st) = 0 then [] else [(curContainer st)\<lparr>ct_delta := False\<rparr>]) @
    (if currentSize (curDeltaContainer st) = 0 then [] else [(curDeltaContainer st)\<lparr>ct_delta := True\<rparr>])"
proof -
  obtain st1 where st1: "(if currentSize (curContainer st) \<noteq> 0 then Ocall_WriteContainer st else Inr st) = Inr st1"
      "inputMQ st1 = inputMQ st @ (if currentSize (curContainer st) = 0 then [] else [(curContainer st)\<lparr>ct_delta := False\<rparr>])"
      "con_times st1 \<le> Suc (con_times st)" "curDeltaContainer st1 = curDeltaContainer st"
    using hand_base [of st] assms by (cases "currentSize (curContainer st) = 0") auto
  have "con_times st1 < INT_MAX" using st1(3) assms by simp
  from hand_delta [OF this] st1 show ?thesis by (auto simp: finish_upload_def)
qed

lemma finished_containers:
  assumes "evp_ok (ssl E)" "store_inv st" "con_times st + 2 \<le> INT_MAX"
  shows "\<exists>st1 st2 cs ds. ProcessTailBatch E st = Inr st1 \<and> finish_upload st1 = Inr st2 \<and>
    inputMQ st2 = inputMQ st @ cs @ ds \<and> handed_over (inContainer st) (containerID (curContainer st)) cs \<and>
    handed_over (deltainContainer st) (containerID (curDeltaContainer st)) ds"
proof -
  obtain st1 c d where st1: "ProcessTailBatch E st = Inr st1" "inputMQ st1 = inputMQ st" "con_times st1 = con_times st"
      "curContainer st1 = c" "curDeltaContainer st1 = d"
      "containerID c = containerID (curContainer st)" "containerID d = containerID (curDeltaContainer st)"
      "currentSize c = curSize (inContainer st)" "currentSize d = curSize (deltainContainer st)"
      "ct_bytes c = ic_bytes (inContainer st)" "ct_bytes d = ic_bytes (deltainContainer st)"
    using tail_containers [OF assms(1), of st] assms(2) unfolding store_inv_def by blast
  have "con_times st1 + 2 \<le> INT_MAX" using st1(3) assms(3) by simp
  from finish_upload_ok [OF this] obtain st2 where st2: "finish_upload st1 = Inr st2" "inputMQ st2 = inputMQ st @
      (if currentSize c = 0 then [] else [c\<lparr>ct_delta := False\<rparr>]) @ (if currentSize d = 0 then [] else [d\<lparr>ct_delta := True\<rparr>])"
    using st1(2,4,5) by auto
  have "handed_over (inContainer st) (containerID (curContainer st)) (if currentSize c = 0 then [] else [c\<lparr>ct_delta := False\<rparr>])"
      "handed_over (deltainContainer st) (containerID (curDeltaContainer st)) (if currentSize d = 0 then [] else [d\<lparr>ct_delta := True\<rparr>])"
    using st1(6-11) by (simp_all add: handed_over_def ct_bytes_def)
  with st1(1) st2 show ?thesis by blast
qed

text \<open>Whatever can be read before the end is in the queue after it.\<close>

lemma handed_over_ids: "handed_over ic n cs \<Longrightarrow> map containerID cs = (if curSize ic = 0 then [] else [n])"
  by (auto simp: handed_over_def split: if_splits)

lemma queue_holds:
  assumes "store_inv st" "container_bytes st n = Some b" "b \<noteq> []"
    "handed_over (inContainer st) (containerID (curContainer st)) cs"
    "handed_over (deltainContainer st) (containerID (curDeltaContainer st)) ds"
  shows "distinct (map containerID (inputMQ st @ cs @ ds)) \<and>
    (\<exists>c \<in> set (inputMQ st @ cs @ ds). containerID c = n \<and> ct_bytes c = b)"
proof -
  have "distinct (map containerID (inputMQ st @ cs @ ds))"
    using assms(1) handed_over_ids [OF assms(4)] handed_over_ids [OF assms(5)] by (auto simp: store_inv_def store_names_def)
  moreover have "curSize ic \<noteq> 0" if "ic_bytes ic = b" for ic using that assms(3) by (auto simp: ic_bytes_def)
  ultimately show ?thesis
    using assms(2,4,5) by (auto simp: container_bytes_def handed_over_def find_Some_iff split: if_splits)
qed

text \<open>
  C23: durability of an upload. After the tail batch, the hand-over of the last containers and
  the writer's run, every chunk that could be read from the client's containers is read from
  disk, content and IV, at the same address, provided no base container file of one of the
  client's names existed before. (Names are not used twice while the server runs, but the counter they are
  made from starts again with the server, so that after a restart such files can exist.)
\<close>

theorem upload_durable:
  assumes "evp_ok (ssl E)" "store_inv st" "con_times st + 2 \<le> INT_MAX"
    "\<forall>n \<in> set (store_names st). d (base_path t n) = None"
  shows "\<exists>st1 st2. ProcessTailBatch E st = Inr st1 \<and> finish_upload st1 = Inr st2 \<and>
    (\<forall>a r. look_chunk st a = Some r \<longrightarrow>
      (\<exists>b. read_container t (DataWriter_Run t (inputMQ st2) d) (containerName a) = Inr b \<and>
        read_chunk b (addr_offset a) (addr_length a) = Some r))"
proof -
  obtain st1 st2 cs ds where f: "ProcessTailBatch E st = Inr st1" "finish_upload st1 = Inr st2"
      "inputMQ st2 = inputMQ st @ cs @ ds" "handed_over (inContainer st) (containerID (curContainer st)) cs"
      "handed_over (deltainContainer st) (containerID (curDeltaContainer st)) ds"
    using finished_containers [OF assms(1,2,3)] by blast
  have "\<exists>b. read_container t (DataWriter_Run t (inputMQ st2) d) (containerName a) = Inr b \<and>
      read_chunk b (addr_offset a) (addr_length a) = Some r" if look: "look_chunk st a = Some r" for a r
  proof -
    obtain b where b: "container_bytes st (containerName a) = Some b" "read_chunk b (addr_offset a) (addr_length a) = Some r"
      using look unfolding look_chunk_def by (cases "container_bytes st (containerName a)") simp_all
    then have "b \<noteq> []" by (auto simp: read_chunk_def size_consts split: if_splits)
    from queue_holds [OF assms(2) b(1) this f(4,5)] obtain c where
        c: "distinct (map containerID (inputMQ st2))" "c \<in> set (inputMQ st2)" "containerID c = containerName a" "ct_bytes c = b"
      using f(3) by auto
    have "d (base_path t (containerID c)) = None" using assms(4) container_bytes_known [OF b(1)] c(3) by simp
    from DataWriter_reads [OF c(1,2), of d t, OF this] c(3,4) b(2) show ?thesis by auto
  qed
  with f(1,2) show ?thesis by auto
qed

theorem upload_durable_witness:
  "\<exists>st as st' st1 st2 b. InitUploadBuffer fresh_up = Inr st \<and> mapS save_separate sample_reqs st = Inr (as, st') \<and>
    ProcessTailBatch toy_enclave st' = Inr st1 \<and> finish_upload st1 = Inr st2 \<and>
    read_container ''.c'' (DataWriter_Run ''.c'' (inputMQ st2) Map.empty) (containerName (hd as)) = Inr b \<and>
    read_chunk b (addr_offset (hd as)) (addr_length (hd as)) = Some ([1, 2, 3], replicate 16 0)"
proof -
  obtain st where st: "InitUploadBuffer fresh_up = Inr st" "store_inv st" "con_times st = 3" "client_iv st = replicate 16 0"
    using InitUploadBuffer_inv [of fresh_up]
    by (auto simp: fresh_up_def store_st.defs fresh_store_def ic_ok_def size_consts)
  have room: "length sample_reqs \<le> store_room st"
    using st(3) by (simp add: sample_reqs_def INT_MAX_def store_room_def)
  obtain as st' where s: "mapS save_separate sample_reqs st = Inr (as, st')" "store_inv st'" "con_times st' \<le> 5"
      "map (look_chunk st') as = [Some ([1, 2, 3], replicate 16 0), Some ([4], replicate 16 0)]"
    using es.saves_ok [OF st(2) _ room] st(3,4) sample_reqs_ok
    by (fastforce simp: sample_reqs_def store_room_def INT_MAX_def)
  have h: "look_chunk st' (hd as) = Some ([1, 2, 3], replicate 16 0)" using s(4) by (cases as) auto
  have "con_times st' + 2 \<le> INT_MAX" using s(3) by (simp add: INT_MAX_def)
  from upload_durable [OF _ s(2) this, of toy_enclave Map.empty "''.c''"] h st(1) s(1) show ?thesis
    by (auto simp: toy_enclave_def toy_evp_ok)
qed

end
