(* ===== verification/Database.thy ===== *)
theory Database
  imports Storage
begin

text \<open>
  The index outside the enclave: \<open>InMemoryDatabase\<close> (\<open>inMemoryDatabase.cc\<close>), a map from
  encrypted fingerprints to encrypted chunk addresses, three maps from super-features to the
  fingerprints of base chunks, and the map from base to delta chunks. The lemmas give the
  contract of a key-value index and show that what the destructor writes is what \<open>OpenDB\<close> loads.
\<close>

section \<open>State and operations\<close>

text \<open>\<open>sfObj i\<close> is the \<open>i\<close>-th of the three super-feature maps.\<close>

record InMemoryDatabase =
  indexObj :: "bytes \<rightharpoonup> bytes"
  sfObj :: "nat \<Rightarrow> bytes \<rightharpoonup> bytes list"
  delta_index :: "bytes \<rightharpoonup> bytes list"
  local_tmp_map :: "bytes \<rightharpoonup> bytes"
  skipMap :: "bytes \<rightharpoonup> bytes list"

definition Query :: "bytes \<Rightarrow> InMemoryDatabase \<Rightarrow> bytes option" where
  "Query key db = indexObj db key"

definition Insert :: "bytes \<Rightarrow> bytes \<Rightarrow> InMemoryDatabase \<Rightarrow> InMemoryDatabase" where
  "Insert key val db = db\<lparr>indexObj := (indexObj db)(key \<mapsto> val)\<rparr>"

definition InsertBuffer :: "bytes \<Rightarrow> bytes \<Rightarrow> nat \<Rightarrow> InMemoryDatabase \<Rightarrow> InMemoryDatabase" where
  "InsertBuffer key buffer bufferSize db = db\<lparr>indexObj := (indexObj db)(key \<mapsto> take bufferSize buffer)\<rparr>"

definition InsertBothBuffer :: "bytes \<Rightarrow> nat \<Rightarrow> bytes \<Rightarrow> nat \<Rightarrow> InMemoryDatabase \<Rightarrow> InMemoryDatabase" where
  "InsertBothBuffer key keySize buffer bufferSize db =
    db\<lparr>indexObj := (indexObj db)(take keySize key \<mapsto> take bufferSize buffer)\<rparr>"

definition QueryBuffer :: "bytes \<Rightarrow> nat \<Rightarrow> InMemoryDatabase \<Rightarrow> bytes option" where
  "QueryBuffer key keySize db = indexObj db (take keySize key)"

definition push_back :: "bytes \<Rightarrow> bytes \<Rightarrow> (bytes \<rightharpoonup> bytes list) \<Rightarrow> (bytes \<rightharpoonup> bytes list)" where
  "push_back k v m = m(k \<mapsto> (case m k of None \<Rightarrow> [] | Some vs \<Rightarrow> vs) @ [v])"

text \<open>\<open>InsertSF\<close>: \<open>updateflag\<close> 0 appends, 1 replaces, 2 erases; any other value changes nothing.\<close>

definition insert_sf1 :: "byte \<Rightarrow> bytes \<Rightarrow> bytes \<Rightarrow> (bytes \<rightharpoonup> bytes list) \<Rightarrow> (bytes \<rightharpoonup> bytes list)" where
  "insert_sf1 updateflag k v m =
    (if updateflag = 0 then push_back k v m
     else if updateflag = 1 then push_back k v (m(k := None))
     else if updateflag = 2 then m(k := None)
     else m)"

definition InsertSF :: "bytes \<Rightarrow> bytes \<Rightarrow> byte \<Rightarrow> InMemoryDatabase \<Rightarrow> InMemoryDatabase" where
  "InsertSF key buffer updateflag db =
    db\<lparr>sfObj := fold (\<lambda>i sf. sf(i := insert_sf1 updateflag (seg (i * CHUNK_HASH_SIZE) CHUNK_HASH_SIZE key)
         (take CHUNK_HASH_SIZE buffer) (sf i))) [0..<3] (sfObj db)\<rparr>"

text \<open>The first of the three features that is known decides; \<open>front()\<close> of an empty vector is a fault.\<close>

fun query_sf :: "nat list \<Rightarrow> bytes \<Rightarrow> InMemoryDatabase \<Rightarrow> fault + bytes option" where
  "query_sf [] key db = Inr None"
| "query_sf (i # js) key db =
    (case sfObj db i (seg (i * CHUNK_HASH_SIZE) CHUNK_HASH_SIZE key) of
       None \<Rightarrow> query_sf js key db
     | Some [] \<Rightarrow> Inl ReadOutside
     | Some (v # vs) \<Rightarrow> Inr (Some v))"

definition QuerySF :: "bytes \<Rightarrow> InMemoryDatabase \<Rightarrow> fault + bytes option" where
  "QuerySF key db = query_sf [0..<3] key db"

definition InsertDeltaIndex :: "bytes \<Rightarrow> bytes \<Rightarrow> InMemoryDatabase \<Rightarrow> InMemoryDatabase" where
  "InsertDeltaIndex baseChunkFp deltaChunkFp db = db\<lparr>delta_index := push_back baseChunkFp deltaChunkFp (delta_index db)\<rparr>"

definition QueryDeltaIndex :: "bytes \<Rightarrow> InMemoryDatabase \<Rightarrow> bytes list option \<times> InMemoryDatabase" where
  "QueryDeltaIndex baseChunkFp db =
    (case delta_index db baseChunkFp of
       None \<Rightarrow> (None, db)
     | Some r \<Rightarrow> (Some r, db\<lparr>delta_index := (delta_index db)(baseChunkFp := None)\<rparr>))"

section \<open>The contract of a key-value index\<close>

locale kv_index =
  fixes get :: "'s \<Rightarrow> 'k \<Rightarrow> 'v option" and ins :: "'k \<Rightarrow> 'v \<Rightarrow> 's \<Rightarrow> 's"
  assumes get_ins: "get (ins k v s) k' = (if k' = k then Some v else get s k')"
begin

lemma get_fold: "get (fold (\<lambda>(k, v). ins k v) kvs s) k = (case map_of (rev kvs) k of None \<Rightarrow> get s k | Some v \<Rightarrow> Some v)"
  by (induction kvs arbitrary: s) (auto simp: get_ins map_add_def split: option.splits)

lemma get_fold_distinct:
  "distinct (map fst kvs) \<Longrightarrow> (k, v) \<in> set kvs \<Longrightarrow> get (fold (\<lambda>(k, v). ins k v) kvs s) k = Some v"
proof -
  assume "distinct (map fst kvs)" "(k, v) \<in> set kvs"
  then have "map_of (rev kvs) k = Some v" by (intro map_of_is_SomeI) (simp_all add: rev_map [symmetric])
  then show ?thesis by (simp add: get_fold)
qed

lemma get_fold_other: "k \<notin> fst ` set kvs \<Longrightarrow> get (fold (\<lambda>(k, v). ins k v) kvs s) k = get s k"
proof -
  assume "k \<notin> fst ` set kvs"
  then have "map_of (rev kvs) k = None" by (simp add: map_of_eq_None_iff)
  then show ?thesis by (simp add: get_fold)
qed

end

text \<open>The two spellings the program uses: whole strings, and buffers with their lengths.\<close>

interpretation kv: kv_index "\<lambda>db k. Query k db" Insert
  by unfold_locales (simp add: Query_def Insert_def)

interpretation fpi: kv_index "\<lambda>db k. QueryBuffer k (length k) db"
  "\<lambda>k v. InsertBothBuffer k (length k) v (length v)"
  by unfold_locales (simp add: QueryBuffer_def InsertBothBuffer_def)

section \<open>Super-features\<close>

lemma InsertSF_sfObj:
  "sfObj (InsertSF key buffer updateflag db) i =
    (if i < 3 then insert_sf1 updateflag (seg (i * CHUNK_HASH_SIZE) CHUNK_HASH_SIZE key) (take CHUNK_HASH_SIZE buffer) (sfObj db i)
     else sfObj db i)"
  by (auto simp: InsertSF_def upt_rec numeral_eq_Suc less_Suc_eq)

definition sf_wf :: "InMemoryDatabase \<Rightarrow> bool" where
  "sf_wf db \<longleftrightarrow> (\<forall>i < 3. \<forall>k. sfObj db i k \<noteq> Some [])"

lemma InsertSF_wf: "sf_wf db \<Longrightarrow> sf_wf (InsertSF key buffer updateflag db)"
  by (auto simp: sf_wf_def InsertSF_sfObj insert_sf1_def push_back_def)

lemma query_sf_ok:
  assumes "sf_wf db" "set js \<subseteq> {0..<3}"
  shows "\<exists>r. query_sf js key db = Inr r \<and>
    (r = None \<longleftrightarrow> (\<forall>i \<in> set js. sfObj db i (seg (i * CHUNK_HASH_SIZE) CHUNK_HASH_SIZE key) = None)) \<and>
    (\<forall>v. r = Some v \<longrightarrow> (\<exists>i \<in> set js. \<exists>vs. sfObj db i (seg (i * CHUNK_HASH_SIZE) CHUNK_HASH_SIZE key) = Some (v # vs)))"
  using assms(2)
proof (induction js)
  case (Cons i js)
  show ?case
  proof (cases "sfObj db i (seg (i * CHUNK_HASH_SIZE) CHUNK_HASH_SIZE key)")
    case None
    with Cons show ?thesis by auto
  next
    case (Some vs)
    moreover have "vs \<noteq> []" using Some Cons.prems assms(1) by (auto simp: sf_wf_def)
    ultimately show ?thesis by (cases vs) auto
  qed
qed simp

text \<open>
  C20: a base chunk whose super-features were inserted is found again through any one of the
  three features, unless an earlier feature of the query is already known; the answer is the
  fingerprint inserted first for that feature, and querying never reads an empty list.
\<close>

theorem QuerySF_after_insert:
  assumes "sf_wf db" "i < 3" "length f = CHUNK_HASH_SIZE"
    "seg (i * CHUNK_HASH_SIZE) CHUNK_HASH_SIZE q = seg (i * CHUNK_HASH_SIZE) CHUNK_HASH_SIZE sf"
    "\<forall>j < i. sfObj (InsertSF sf f 0 db) j (seg (j * CHUNK_HASH_SIZE) CHUNK_HASH_SIZE q) = None"
  shows "sf_wf (InsertSF sf f 0 db) \<and>
    QuerySF q (InsertSF sf f 0 db) =
      Inr (Some (case sfObj db i (seg (i * CHUNK_HASH_SIZE) CHUNK_HASH_SIZE sf) of None \<Rightarrow> f | Some vs \<Rightarrow> hd vs))"
proof -
  let ?db = "InsertSF sf f 0 db"
  have wf: "sf_wf ?db" by (rule InsertSF_wf [OF assms(1)])
  have ne: "vs \<noteq> []" if "sfObj db i k = Some vs" for k vs using that assms(1,2) by (auto simp: sf_wf_def)
  have skip: "query_sf [j..<3] q ?db = query_sf [i..<3] q ?db" if "j \<le> i" for j
    using that
  proof (induction j rule: inc_induct)
    case (step j)
    then have "[j..<3] = j # [Suc j..<3]" using assms(2) by (simp add: upt_conv_Cons)
    with step assms(5) show ?case by simp
  qed simp
  have "sfObj ?db i (seg (i * CHUNK_HASH_SIZE) CHUNK_HASH_SIZE q) =
      Some ((case sfObj db i (seg (i * CHUNK_HASH_SIZE) CHUNK_HASH_SIZE sf) of None \<Rightarrow> [] | Some vs \<Rightarrow> vs) @ [f])"
    using assms(2,3,4) by (simp add: InsertSF_sfObj insert_sf1_def push_back_def)
  moreover have "[i..<3] = i # [Suc i..<3]" using assms(2) by (simp add: upt_conv_Cons)
  ultimately have "query_sf [i..<3] q ?db =
      Inr (Some (case sfObj db i (seg (i * CHUNK_HASH_SIZE) CHUNK_HASH_SIZE sf) of None \<Rightarrow> f | Some vs \<Rightarrow> hd vs))"
    using ne by (auto simp: append_eq_Cons_conv split: option.splits list.splits)
  then show ?thesis using skip [of 0] wf by (simp add: QuerySF_def)
qed

definition empty_db :: InMemoryDatabase where
  "empty_db = \<lparr>indexObj = Map.empty, sfObj = (\<lambda>i. Map.empty), delta_index = Map.empty, local_tmp_map = Map.empty,
     skipMap = Map.empty\<rparr>"

theorem QuerySF_after_insert_witness:
  "QuerySF (replicate 32 9 @ replicate 32 2 @ replicate 32 3)
     (InsertSF (replicate 32 1 @ replicate 32 2 @ replicate 32 3) (replicate 32 7) 0 empty_db) = Inr (Some (replicate 32 7))"
  using QuerySF_after_insert [of empty_db 1 "replicate 32 7" "replicate 32 9 @ replicate 32 2 @ replicate 32 3"
      "replicate 32 1 @ replicate 32 2 @ replicate 32 3"]
  by (simp add: sf_wf_def empty_db_def CHUNK_HASH_SIZE_def seg_def InsertSF_sfObj insert_sf1_def push_back_def)

section \<open>Persistence\<close>

text \<open>
  An input file stream: the bytes not yet read and the end-of-file flag. A read that comes up
  short sets the flag and leaves the rest of the target as it was; a stream at its end reads
  nothing.
\<close>

record istream =
  is_rest :: bytes
  is_eof :: bool

definition sread :: "bytes \<Rightarrow> istream \<Rightarrow> bytes \<times> istream" where
  "sread target s =
    (if is_eof s then (target, s)
     else let got = take (length target) (is_rest s)
          in (got @ drop (length got) target,
              \<lparr>is_rest = drop (length target) (is_rest s), is_eof = length (is_rest s) < length target\<rparr>))"

text \<open>\<open>string::resize (n, 0)\<close> keeps the first characters.\<close>

definition resize :: "nat \<Rightarrow> bytes \<Rightarrow> bytes" where
  "resize n b = take n b @ replicate (n - length b) 0"

text \<open>A length as a 4-byte \<open>int\<close> followed by the bytes.\<close>

definition framed :: "bytes \<Rightarrow> bytes" where
  "framed b = le32 (word_of_nat (length b)) @ b"

text \<open>
  The destructor. An \<open>unordered_map\<close> is iterated in an order the library chooses: \<open>ks\<close> and
  \<open>sks i\<close> are the keys in that order.
\<close>

definition dump_index :: "bytes list \<Rightarrow> InMemoryDatabase \<Rightarrow> bytes" where
  "dump_index ks db = concat (map (\<lambda>k. framed k @ framed (the (indexObj db k))) ks)"

definition dump_sf :: "(nat \<Rightarrow> bytes list) \<Rightarrow> InMemoryDatabase \<Rightarrow> bytes" where
  "dump_sf sks db =
    concat (map (\<lambda>i. concat (map (\<lambda>k. concat (map (\<lambda>v. le32 (word_of_nat i) @ framed k @ framed v)
      (the (sfObj db i k)))) (sks i))) [0..<3])"

lemma sread_rest: "length (is_rest (snd (sread t s))) \<le> length (is_rest s)"
  by (simp add: sread_def Let_def)

lemma sread_eof_mono: "is_eof s \<Longrightarrow> is_eof (snd (sread t s))"
  by (simp add: sread_def)

lemma sread_consumes: "t \<noteq> [] \<Longrightarrow> \<not> is_eof (snd (sread t s)) \<Longrightarrow> length (is_rest (snd (sread t s))) < length (is_rest s)"
  by (cases t) (auto simp: sread_def Let_def split: if_splits)

lemma sread4:
  assumes "(a1, s1) = sread t1 s" "(a2, s2) = sread t2 s1" "(a3, s3) = sread t3 s2" "(a4, s4) = sread t4 s3"
    "\<not> is_eof s4" "t1 \<noteq> []"
  shows "length (is_rest s4) < length (is_rest s)"
proof -
  have s: "s1 = snd (sread t1 s)" "s2 = snd (sread t2 s1)" "s3 = snd (sread t3 s2)" "s4 = snd (sread t4 s3)"
    using assms(1-4) by (metis snd_conv)+
  have "\<not> is_eof s1" using assms(5) sread_eof_mono s by metis
  then have "length (is_rest s1) < length (is_rest s)" using sread_consumes [OF assms(6)] s(1) by simp
  moreover have "length (is_rest s4) \<le> length (is_rest s3)" "length (is_rest s3) \<le> length (is_rest s2)"
      "length (is_rest s2) \<le> length (is_rest s1)"
    using s sread_rest by simp_all
  ultimately show ?thesis by simp
qed

lemma le32_not_Nil: "le32 w \<noteq> []"
  by (metis length_le32 list.size(3) zero_neq_numeral)

text \<open>
  The loops of \<open>OpenDB\<close>. One turn reads a key and a value, each behind its length; \<open>key\<close>,
  \<open>val\<close> are the strings of the previous turn. A length of zero (a failed read leaves the zero
  of the declaration) ends the loop, a negative one makes \<open>resize\<close> throw.
\<close>

definition read_item :: "bytes \<Rightarrow> bytes \<Rightarrow> istream \<Rightarrow> fault + (bytes \<times> bytes \<times> istream) option" where
  "read_item key val s =
    (let (szb, s1) = sread (le32 0) s; n = rd32 szb
     in if n = 0 then Inr None else if 2 ^ 31 \<le> n then Inl ExitFailure
        else let (key', s2) = sread (resize (unat n) key) s1;
                 (szb', s3) = sread szb s2; n' = rd32 szb'
             in if 2 ^ 31 \<le> n' then Inl ExitFailure
                else let (val', s4) = sread (resize (unat n') val) s3 in Inr (Some (key', val', s4)))"

lemma read_item_shorter:
  assumes "read_item key val s = Inr (Some (k, v, s'))" "\<not> is_eof s'"
  shows "length (is_rest s') < length (is_rest s)"
proof -
  obtain a1 s1 a2 s2 a3 s3 where "(a1, s1) = sread (le32 0) s" "(a2, s2) = sread (resize (unat (rd32 a1)) key) s1"
      "(a3, s3) = sread a1 s2" "(v, s') = sread (resize (unat (rd32 a3)) val) s3"
    using assms(1) by (auto simp: read_item_def Let_def split: if_splits prod.splits)
  then show ?thesis using assms(2) by (rule sread4) (rule le32_not_Nil)
qed

function load_index :: "bytes \<Rightarrow> bytes \<Rightarrow> istream \<Rightarrow> (bytes \<rightharpoonup> bytes) \<Rightarrow> fault + (bytes \<rightharpoonup> bytes)" where
  "load_index key val s m =
    (case read_item key val s of
       Inl e \<Rightarrow> Inl e
     | Inr None \<Rightarrow> Inr m
     | Inr (Some (key', val', s')) \<Rightarrow>
         let m' = (if m key' = None then m(key' \<mapsto> val') else m)
         in if is_eof s' then Inr m' else load_index key' val' s' m')"
  by pat_completeness auto

termination load_index
  by (relation "measure (\<lambda>(key, val, s, m). length (is_rest s))") (auto dest: read_item_shorter)

text \<open>In the super-feature file every item is preceded by the number of its map.\<close>

function load_sf :: "bytes \<Rightarrow> bytes \<Rightarrow> bytes \<Rightarrow> istream \<Rightarrow> (nat \<Rightarrow> bytes \<rightharpoonup> bytes list) \<Rightarrow> fault + (nat \<Rightarrow> bytes \<rightharpoonup> bytes list)" where
  "load_sf ver key val s sf =
    (let (ver', s0) = sread ver s
     in case read_item key val s0 of
          Inl e \<Rightarrow> Inl e
        | Inr None \<Rightarrow> Inr sf
        | Inr (Some (key', val', s')) \<Rightarrow>
            if 3 \<le> rd32 ver' then Inl WriteOutside
            else let i = unat (rd32 ver'); sf' = sf(i := push_back key' val' (sf i))
                 in if is_eof s' then Inr sf' else load_sf ver' key' val' s' sf')"
  by pat_completeness auto

lemma load_sf_shorter:
  assumes "(v, s0) = sread ver s" "read_item key val s0 = Inr (Some (k, va, s'))" "\<not> is_eof s'"
  shows "length (is_rest s') < length (is_rest s)"
  using read_item_shorter [OF assms(2,3)] sread_rest [of ver s] assms(1) by (metis order_less_le_trans snd_conv)

termination load_sf
  by (relation "measure (\<lambda>(ver, key, val, s, sf). length (is_rest s))") (auto dest: load_sf_shorter)

text \<open>\<open>OpenDB\<close>; a file that cannot be opened or is empty loads nothing.\<close>

definition open_stream :: "bytes \<Rightarrow> istream" where
  "open_stream b = \<lparr>is_rest = b, is_eof = False\<rparr>"

definition OpenDB :: "bytes option \<Rightarrow> bytes option \<Rightarrow> fault + InMemoryDatabase" where
  "OpenDB dbFile sfdbFile =
    bindE (case dbFile of None \<Rightarrow> Inr Map.empty
           | Some b \<Rightarrow> if length b = 0 then Inr Map.empty else load_index [] [] (open_stream b) Map.empty) (\<lambda>m.
    bindE (case sfdbFile of None \<Rightarrow> Inr (\<lambda>i. Map.empty)
           | Some b \<Rightarrow> if length b = 0 then Inr (\<lambda>i. Map.empty)
                       else load_sf (le32 0) [] [] (open_stream b) (\<lambda>i. Map.empty)) (\<lambda>sf.
      Inr (empty_db\<lparr>indexObj := m, sfObj := sf\<rparr>)))"

section \<open>The round trip\<close>

definition storable :: "bytes \<Rightarrow> bool" where
  "storable b \<longleftrightarrow> length b < 2 ^ 31"

lemma sread_exact: "length t = length x \<Longrightarrow> sread t \<lparr>is_rest = x @ r, is_eof = False\<rparr> = (x, \<lparr>is_rest = r, is_eof = False\<rparr>)"
  by (simp add: sread_def)

lemma length_resize [simp]: "length (resize n b) = n"
  by (simp add: resize_def)

lemma size_word:
  assumes "storable b"
  shows "unat (word_of_nat (length b) :: u32) = length b" "\<not> (2 ^ 31 :: u32) \<le> word_of_nat (length b)"
    "(word_of_nat (length b) :: u32) = 0 \<longleftrightarrow> b = []"
proof -
  show u: "unat (word_of_nat (length b) :: u32) = length b"
    using assms by (intro unat_of_nat_small) (simp add: storable_def)
  show "\<not> (2 ^ 31 :: u32) \<le> word_of_nat (length b)"
    using assms unfolding word_le_nat_alt u by (simp add: storable_def)
  show "(word_of_nat (length b) :: u32) = 0 \<longleftrightarrow> b = []"
  proof
    assume "(word_of_nat (length b) :: u32) = 0"
    then have "unat (word_of_nat (length b) :: u32) = 0" by (simp only: unat_0)
    then show "b = []" using u by simp
  qed simp
qed

lemma read_item_framed:
  assumes "storable k" "storable v" "k \<noteq> []"
  shows "read_item key val \<lparr>is_rest = framed k @ framed v @ r, is_eof = False\<rparr> =
    Inr (Some (k, v, \<lparr>is_rest = r, is_eof = False\<rparr>))"
  using assms size_word [OF assms(1)] size_word [OF assms(2)]
  by (simp add: read_item_def framed_def sread_exact Let_def)

lemma read_item_end: "read_item key val \<lparr>is_rest = [], is_eof = False\<rparr> = Inr None"
  by (simp add: read_item_def sread_def Let_def rd32_le32_Nil)

lemma load_index_items:
  assumes "\<forall>k \<in> set ks. storable k \<and> k \<noteq> [] \<and> storable (f k)" "distinct ks" "set ks \<inter> dom m = {}"
  shows "load_index key val \<lparr>is_rest = concat (map (\<lambda>k. framed k @ framed (f k)) ks), is_eof = False\<rparr> m =
    Inr (\<lambda>k. if k \<in> set ks then Some (f k) else m k)"
  using assms
proof (induction ks arbitrary: key val m)
  case Nil
  then show ?case by (simp add: read_item_end)
next
  case (Cons k ks)
  have "m k = None" using Cons.prems(3) by auto
  moreover have "load_index k (f k) \<lparr>is_rest = concat (map (\<lambda>k. framed k @ framed (f k)) ks), is_eof = False\<rparr> (m(k \<mapsto> f k)) =
      Inr (\<lambda>x. if x \<in> set ks then Some (f x) else (m(k \<mapsto> f k)) x)"
    using Cons.prems by (intro Cons.IH) (auto split: if_splits)
  ultimately show ?case
    using Cons.prems read_item_framed [of k "f k" key val] by (simp add: fun_eq_iff del: load_index.simps) (auto simp: fun_eq_iff)
qed

text \<open>The super-feature items in file order, and what a sequence of them adds to a list.\<close>

definition sf_items :: "(nat \<Rightarrow> bytes list) \<Rightarrow> InMemoryDatabase \<Rightarrow> (nat \<times> bytes \<times> bytes) list" where
  "sf_items sks db = concat (map (\<lambda>i. concat (map (\<lambda>k. map (\<lambda>v. (i, k, v)) (the (sfObj db i k))) (sks i))) [0..<3])"

definition sf_push :: "nat \<times> bytes \<times> bytes \<Rightarrow> (nat \<Rightarrow> bytes \<rightharpoonup> bytes list) \<Rightarrow> (nat \<Rightarrow> bytes \<rightharpoonup> bytes list)" where
  "sf_push = (\<lambda>(i, k, v) sf. sf(i := push_back k v (sf i)))"

definition sf_vals :: "nat \<Rightarrow> bytes \<Rightarrow> (nat \<times> bytes \<times> bytes) list \<Rightarrow> bytes list" where
  "sf_vals i k items = map (snd \<circ> snd) (filter (\<lambda>(i', k', v). i' = i \<and> k' = k) items)"

lemma concat_concat_map: "concat (concat (map f xs)) = concat (map (\<lambda>x. concat (f x)) xs)"
  by (induction xs) auto

lemma dump_sf_items:
  "dump_sf sks db = concat (map (\<lambda>(i, k, v). le32 (word_of_nat i) @ framed k @ framed v) (sf_items sks db))"
  unfolding dump_sf_def sf_items_def by (simp add: map_concat concat_concat_map comp_def)

lemma load_sf_items:
  assumes "\<forall>(i, k, v) \<in> set items. i < 3 \<and> storable k \<and> k \<noteq> [] \<and> storable v" "length ver = 4"
  shows "load_sf ver key val
      \<lparr>is_rest = concat (map (\<lambda>(i, k, v). le32 (word_of_nat i) @ framed k @ framed v) items), is_eof = False\<rparr> sf =
    Inr (fold sf_push items sf)"
  using assms
proof (induction items arbitrary: ver key val sf)
  case Nil
  then have "sread ver \<lparr>is_rest = [], is_eof = False\<rparr> = (ver, \<lparr>is_rest = [], is_eof = True\<rparr>)"
    by (simp add: sread_def)
  moreover have "read_item key val \<lparr>is_rest = [], is_eof = True\<rparr> = Inr None"
    by (simp add: read_item_def sread_def Let_def)
  ultimately show ?case by simp
next
  case (Cons x items)
  obtain i k v where x: "x = (i, k, v)" by (cases x)
  let ?r = "concat (map (\<lambda>(i, k, v). le32 (word_of_nat i) @ framed k @ framed v) items)"
  have ok: "i < 3" "storable k" "k \<noteq> []" "storable v" using Cons.prems(1) x by auto
  have i: "\<not> (3 :: u32) \<le> word_of_nat i" "unat (word_of_nat i :: u32) = i"
  proof -
    show "unat (word_of_nat i :: u32) = i" using ok(1) by (intro unat_of_nat_small) simp
    then show "\<not> (3 :: u32) \<le> word_of_nat i" using ok(1) by (simp add: word_le_nat_alt)
  qed
  have "load_sf ver key val \<lparr>is_rest = le32 (word_of_nat i) @ framed k @ framed v @ ?r, is_eof = False\<rparr> sf =
      load_sf (le32 (word_of_nat i)) k v \<lparr>is_rest = ?r, is_eof = False\<rparr> (sf_push x sf)"
    using Cons.prems(2) i read_item_framed [OF ok(2,4,3), of key val ?r]
    by (subst load_sf.simps) (simp add: sread_exact x sf_push_def Let_def)
  also have "\<dots> = Inr (fold sf_push items (sf_push x sf))"
    using Cons.prems(1) by (intro Cons.IH) auto
  finally show ?case by (simp add: x)
qed

lemma fold_sf_push:
  "fold sf_push items sf i k =
    (if sf_vals i k items = [] then sf i k
     else Some ((case sf i k of None \<Rightarrow> [] | Some vs \<Rightarrow> vs) @ sf_vals i k items))"
proof (induction items arbitrary: sf)
  case (Cons x items)
  obtain i' k' v where x: "x = (i', k', v)" by (cases x)
  have push: "sf_push x sf i k = (if i' = i \<and> k' = k then Some ((case sf i k of None \<Rightarrow> [] | Some vs \<Rightarrow> vs) @ [v]) else sf i k)"
    by (simp add: x sf_push_def push_back_def)
  have vals: "sf_vals i k (x # items) = (if i' = i \<and> k' = k then v # sf_vals i k items else sf_vals i k items)"
    by (simp add: x sf_vals_def)
  show ?case unfolding fold_simps comp_apply Cons.IH push vals by auto
qed (simp add: sf_vals_def)

lemma sf_vals_append: "sf_vals i k (xs @ ys) = sf_vals i k xs @ sf_vals i k ys"
  by (simp add: sf_vals_def)

lemma sf_vals_block: "sf_vals i k (map (\<lambda>v. (i', k', v)) vs) = (if i' = i \<and> k' = k then vs else [])"
  by (induction vs) (auto simp: sf_vals_def)

lemma sf_vals_keys:
  "distinct ks \<Longrightarrow> sf_vals i k (concat (map (\<lambda>k. map (\<lambda>v. (i', k, v)) (f k)) ks)) =
    (if i' = i \<and> k \<in> set ks then f k else [])"
  by (induction ks) (auto simp: sf_vals_append sf_vals_block sf_vals_def [of _ _ "[]"])

lemma sf_vals_items:
  assumes "\<forall>i < 3. distinct (sks i)" "i < 3"
  shows "sf_vals i k (sf_items sks db) = (if k \<in> set (sks i) then the (sfObj db i k) else [])"
proof -
  have "[0..<3] = [0, 1, 2 :: nat]" by (simp add: upt_rec)
  moreover have "i = 0 \<or> i = 1 \<or> i = 2" using assms(2) by auto
  ultimately show ?thesis using assms(1) by (auto simp: sf_items_def sf_vals_append sf_vals_keys sf_vals_def [of _ _ "[]"])
qed

text \<open>What the file format can represent: keys are not empty, and sizes fit an \<open>int\<close>.\<close>

definition db_storable :: "InMemoryDatabase \<Rightarrow> bool" where
  "db_storable db \<longleftrightarrow> (\<forall>k v. indexObj db k = Some v \<longrightarrow> storable k \<and> k \<noteq> [] \<and> storable v) \<and>
     (\<forall>i < 3. \<forall>k vs. sfObj db i k = Some vs \<longrightarrow> storable k \<and> k \<noteq> [] \<and> vs \<noteq> [] \<and> (\<forall>v \<in> set vs. storable v))"

text \<open>
  C21: closing and reopening the database restores the fingerprint index and the three
  super-feature indexes, whatever order the hash maps are iterated in. The map from base to
  delta chunks is not written and comes back empty.
\<close>

theorem OpenDB_restores:
  assumes "db_storable db" "distinct ks" "set ks = dom (indexObj db)"
    "\<forall>i < 3. distinct (sks i) \<and> set (sks i) = dom (sfObj db i)"
  shows "\<exists>db'. OpenDB (Some (dump_index ks db)) (Some (dump_sf sks db)) = Inr db' \<and>
    indexObj db' = indexObj db \<and> (\<forall>i < 3. sfObj db' i = sfObj db i) \<and> delta_index db' = Map.empty"
proof -
  let ?f = "\<lambda>k. the (indexObj db k)" and ?items = "sf_items sks db"
  have keys: "\<forall>k \<in> set ks. storable k \<and> k \<noteq> [] \<and> storable (?f k)"
    using assms(1,3) by (auto simp: db_storable_def)
  have "(\<lambda>k. if k \<in> set ks then Some (?f k) else None) = indexObj db"
    using assms(3) by (auto simp: fun_eq_iff)
  then have idx: "load_index [] [] (open_stream (dump_index ks db)) Map.empty = Inr (indexObj db)"
    using load_index_items [OF keys assms(2), of Map.empty "[]" "[]"] by (simp add: dump_index_def open_stream_def)
  have "\<forall>(i, k, v) \<in> set ?items. i < 3 \<and> storable k \<and> k \<noteq> [] \<and> storable v"
    using assms(1,4) by (fastforce simp: db_storable_def sf_items_def)
  then have sf: "load_sf (le32 0) [] [] (open_stream (dump_sf sks db)) (\<lambda>i. Map.empty) = Inr (fold sf_push ?items (\<lambda>i. Map.empty))"
    by (simp add: dump_sf_items open_stream_def load_sf_items del: load_sf.simps)
  have "fold sf_push ?items (\<lambda>i. Map.empty) i k = sfObj db i k" if "i < 3" for i k
  proof -
    have "sf_vals i k ?items = (if k \<in> dom (sfObj db i) then the (sfObj db i k) else [])"
      using sf_vals_items [of sks i k db] assms(4) that by simp
    then show ?thesis using assms(1) that by (cases "sfObj db i k") (auto simp: fold_sf_push db_storable_def)
  qed
  moreover have "fold sf_push ?items (\<lambda>i. Map.empty) = (\<lambda>i. Map.empty)" if "dump_sf sks db = []"
  proof -
    have "?items = []" using that by (cases ?items) (auto simp: dump_sf_items le32_not_Nil split: prod.splits)
    then show ?thesis by simp
  qed
  moreover have "indexObj db = Map.empty" if "dump_index ks db = []"
    using that assms(3) by (auto simp: dump_index_def framed_def le32_not_Nil)
  ultimately show ?thesis using idx sf by (auto simp: OpenDB_def empty_db_def fun_eq_iff del: load_sf.simps load_index.simps)
qed

definition sample_db :: InMemoryDatabase where
  "sample_db = empty_db\<lparr>indexObj := [[1] \<mapsto> [2, 3], [4] \<mapsto> []], sfObj := (\<lambda>i. if i = 1 then [[5] \<mapsto> [[6], [7]]] else Map.empty),
     delta_index := [[1] \<mapsto> [[2]]]\<rparr>"

theorem OpenDB_restores_witness:
  "\<exists>db'. OpenDB (Some (dump_index [[4], [1]] sample_db)) (Some (dump_sf (\<lambda>i. if i = 1 then [[5]] else []) sample_db)) = Inr db' \<and>
    indexObj db' = indexObj sample_db \<and> (\<forall>i < 3. sfObj db' i = sfObj sample_db i) \<and> delta_index db' = Map.empty"
  by (rule OpenDB_restores) (auto simp: sample_db_def db_storable_def storable_def split: if_splits)

end
