(* ===== verification/Cache.thy ===== *)
theory Cache
  imports Storage
begin

text \<open>
  The LRU cache (\<open>lruCache.h\<close>) and the two container caches built on it: the one the server
  restores through (\<open>readCache.cc\<close>, with \<open>GetReqContainers\<close> of \<open>enclaveRecvDecoder.cc\<close>) and
  the one inside the enclave (\<open>ecallinContainercache.cc\<close>). The lemmas show that a container
  that is found in a cache is the one that was read from disk, through any number of
  evictions.
\<close>

section \<open>The LRU cache\<close>

text \<open>
  \<open>keys_\<close> is the list of nodes, the most recently used first; \<open>cache_\<close> maps every key to its
  node, so that a lookup in it is \<^const>\<open>map_of\<close> on the list.
\<close>

record ('k, 'v) lru =
  lru_keys :: "('k \<times> 'v) list"
  lru_maxSize :: nat
  lru_elasticity :: nat

definition lru_new :: "nat \<Rightarrow> nat \<Rightarrow> ('k, 'v) lru" where
  "lru_new maxSize elasticity = \<lparr>lru_keys = [], lru_maxSize = maxSize, lru_elasticity = elasticity\<rparr>"

definition lru_size :: "('k, 'v) lru \<Rightarrow> nat" where
  "lru_size c = length (lru_keys c)"

definition lru_contains :: "'k \<Rightarrow> ('k, 'v) lru \<Rightarrow> bool" where
  "lru_contains k c \<longleftrightarrow> map_of (lru_keys c) k \<noteq> None"

text \<open>\<open>keys_.splice\<close>: the node of a key, with its value, moves to the front.\<close>

definition lru_splice :: "'k \<Rightarrow> 'v \<Rightarrow> ('k, 'v) lru \<Rightarrow> ('k, 'v) lru" where
  "lru_splice k v c = c\<lparr>lru_keys := (k, v) # filter (\<lambda>p. fst p \<noteq> k) (lru_keys c)\<rparr>"

function prune_loop :: "nat \<Rightarrow> ('k \<times> 'v) list \<Rightarrow> ('k \<times> 'v) list" where
  "prune_loop m ks = (if length ks > m then prune_loop m (butlast ks) else ks)"
  by pat_completeness auto

termination prune_loop
  by (relation "measure (\<lambda>(m, ks). length ks)") auto

declare prune_loop.simps [simp del]

definition lru_prune :: "('k, 'v) lru \<Rightarrow> ('k, 'v) lru" where
  "lru_prune c =
    (let maxAllowed = lru_maxSize c + lru_elasticity c
     in if lru_maxSize c = 0 \<or> lru_size c < maxAllowed then c
        else c\<lparr>lru_keys := prune_loop (lru_maxSize c) (lru_keys c)\<rparr>)"

definition lru_insert :: "'k \<Rightarrow> 'v \<Rightarrow> ('k, 'v) lru \<Rightarrow> ('k, 'v) lru" where
  "lru_insert k v c =
    (if lru_contains k c then lru_splice k v c else lru_prune (c\<lparr>lru_keys := (k, v) # lru_keys c\<rparr>))"

definition lru_get :: "'k \<Rightarrow> ('k, 'v) lru \<Rightarrow> ('v \<times> ('k, 'v) lru) option" where
  "lru_get k c = (case map_of (lru_keys c) k of None \<Rightarrow> None | Some v \<Rightarrow> Some (v, lru_splice k v c))"

definition lru_remove :: "'k \<Rightarrow> ('k, 'v) lru \<Rightarrow> bool \<times> ('k, 'v) lru" where
  "lru_remove k c =
    (if lru_contains k c then (True, c\<lparr>lru_keys := filter (\<lambda>p. fst p \<noteq> k) (lru_keys c)\<rparr>) else (False, c))"

text \<open>The value of the least recently used key; of an empty list, \<open>back\<close> is undefined.\<close>

definition pruneValue :: "('k, 'v) lru \<Rightarrow> 'v option" where
  "pruneValue c = (if lru_keys c = [] then None else map_of (lru_keys c) (fst (last (lru_keys c))))"

lemma prune_loop_take: "prune_loop m ks = take m ks"
proof (induction m ks rule: prune_loop.induct)
  case (1 m ks)
  then show ?case
    by (subst prune_loop.simps) (auto simp: butlast_conv_take min_def)
qed

section \<open>The container caches\<close>

text \<open>An LRU cache from names to slots of a pool of buffers.\<close>

record pool_cache =
  slotCache :: "(container_name, nat) lru"
  containerPool :: "bytes list"
  cacheSize :: nat
  currentIndex :: nat

text \<open>The capacity of the server's LRU cache is fixed at 64, the pool is as large as the configuration says.\<close>

definition ReadCache_new :: "nat \<Rightarrow> pool_cache" where
  "ReadCache_new readCacheSize = \<lparr>slotCache = lru_new 64 0, containerPool = replicate readCacheSize [],
     cacheSize = readCacheSize, currentIndex = 0\<rparr>"

definition CACHE_SIZE :: nat where "CACHE_SIZE = 10"

definition InContainercache_new :: pool_cache where
  "InContainercache_new = \<lparr>slotCache = lru_new CACHE_SIZE 0, containerPool = replicate CACHE_SIZE [],
     cacheSize = CACHE_SIZE, currentIndex = 0\<rparr>"

definition ExistsInCache :: "container_name \<Rightarrow> pool_cache \<Rightarrow> bool" where
  "ExistsInCache name c = lru_contains name (slotCache c)"

text \<open>A key that is not found throws, and nothing catches it.\<close>

definition ReadFromCache :: "container_name \<Rightarrow> pool_cache \<Rightarrow> fault + bytes \<times> pool_cache" where
  "ReadFromCache name c =
    (case lru_get name (slotCache c) of
       None \<Rightarrow> Inl ExitFailure
     | Some (i, l) \<Rightarrow> if i < length (containerPool c) then Inr (containerPool c ! i, c\<lparr>slotCache := l\<rparr>) else Inl ReadOutside)"

definition pool_write :: "nat \<Rightarrow> bytes \<Rightarrow> pool_cache \<Rightarrow> fault + pool_cache" where
  "pool_write i data c =
    (if i < length (containerPool c)
     then bindE (memcpyE MAX_CONTAINER_SIZE (containerPool c ! i) 0 data) (\<lambda>b. Inr (c\<lparr>containerPool := (containerPool c)[i := b]\<rparr>))
     else Inl WriteOutside)"

definition InsertToCache :: "container_name \<Rightarrow> bytes \<Rightarrow> pool_cache \<Rightarrow> fault + pool_cache" where
  "InsertToCache name data c =
    (if lru_size (slotCache c) + 1 > cacheSize c then
       (case pruneValue (slotCache c) of
          None \<Rightarrow> Inl ReadOutside
        | Some replaceIndex \<Rightarrow> bindE (pool_write replaceIndex data c) (\<lambda>c1.
            Inr (c1\<lparr>slotCache := lru_insert name replaceIndex (slotCache c1)\<rparr>)))
     else bindE (pool_write (currentIndex c) data c) (\<lambda>c1.
            Inr (c1\<lparr>slotCache := lru_insert name (currentIndex c1) (slotCache c1), currentIndex := Suc (currentIndex c1)\<rparr>)))"

text \<open>
  The enclave's cache copies the whole source buffer of \<open>MAX_CONTAINER_SIZE\<close> bytes, whatever
  length it is given; the bytes behind those ever written are unspecified.
\<close>

definition pool_replace :: "nat \<Rightarrow> bytes \<Rightarrow> pool_cache \<Rightarrow> fault + pool_cache" where
  "pool_replace i data c =
    (if i < length (containerPool c) \<and> length data \<le> MAX_CONTAINER_SIZE
     then Inr (c\<lparr>containerPool := (containerPool c)[i := data]\<rparr>) else Inl WriteOutside)"

definition InsertToCache_Offline :: "container_name \<Rightarrow> bytes \<Rightarrow> pool_cache \<Rightarrow> fault + pool_cache" where
  "InsertToCache_Offline name data c =
    (if lru_size (slotCache c) + 1 > cacheSize c then
       (case pruneValue (slotCache c) of
          None \<Rightarrow> Inl ReadOutside
        | Some replaceIndex \<Rightarrow> bindE (pool_replace replaceIndex data c) (\<lambda>c1.
            Inr (c1\<lparr>slotCache := lru_insert name replaceIndex (slotCache c1)\<rparr>)))
     else bindE (pool_replace (currentIndex c) data c) (\<lambda>c1.
            Inr (c1\<lparr>slotCache := lru_insert name (currentIndex c1) (slotCache c1), currentIndex := Suc (currentIndex c1)\<rparr>)))"

section \<open>What a cache holds\<close>

definition cache_look :: "pool_cache \<Rightarrow> container_name \<Rightarrow> bytes option" where
  "cache_look c n = map_option (nth (containerPool c)) (map_of (lru_keys (slotCache c)) n)"

text \<open>
  The LRU cache is as large as the pool, keys and slots are distinct, and the slots in use are
  those below \<open>currentIndex\<close>.
\<close>

definition cache_inv :: "pool_cache \<Rightarrow> bool" where
  "cache_inv c \<longleftrightarrow> 0 < cacheSize c \<and> lru_maxSize (slotCache c) = cacheSize c \<and> lru_elasticity (slotCache c) = 0 \<and>
     length (containerPool c) = cacheSize c \<and> distinct (map fst (lru_keys (slotCache c))) \<and>
     distinct (map snd (lru_keys (slotCache c))) \<and> snd ` set (lru_keys (slotCache c)) = {..<currentIndex c} \<and>
     currentIndex c \<le> cacheSize c"

lemma cache_inv_new: "cache_inv (ReadCache_new 64)" "cache_inv InContainercache_new"
  by (simp_all add: cache_inv_def ReadCache_new_def InContainercache_new_def lru_new_def CACHE_SIZE_def)

lemma cache_inv_length: "cache_inv c \<Longrightarrow> length (lru_keys (slotCache c)) = currentIndex c"
  by (metis cache_inv_def card_lessThan distinct_card length_map list.set_map)

lemma map_of_filter_ne: "x \<noteq> k \<Longrightarrow> map_of (filter (\<lambda>p. fst p \<noteq> k) xs) x = map_of xs x"
  by (induction xs) auto

lemma map_of_splice: "map_of xs k = Some v \<Longrightarrow> map_of ((k, v) # filter (\<lambda>p. fst p \<noteq> k) xs) = map_of xs"
  by (rule ext) (auto simp: map_of_filter_ne)

lemma set_splice:
  assumes "distinct (map fst xs)" "map_of xs k = Some v"
  shows "set ((k, v) # filter (\<lambda>p. fst p \<noteq> k) xs) = set xs"
proof -
  have "p = (k, v)" if "p \<in> set xs" "fst p = k" for p
    using map_of_is_SomeI [OF assms(1), of k "snd p"] that assms(2) by (cases p) auto
  with map_of_SomeD [OF assms(2)] show ?thesis unfolding set_eq_iff by (fastforce simp only: list.set set_filter)
qed

lemma distinct_splice:
  assumes "distinct (map fst xs)" "distinct (map snd xs)" "map_of xs k = Some v"
  shows "distinct (map fst ((k, v) # filter (\<lambda>p. fst p \<noteq> k) xs))" "distinct (map snd ((k, v) # filter (\<lambda>p. fst p \<noteq> k) xs))"
proof -
  let ?ys = "(k, v) # filter (\<lambda>p. fst p \<noteq> k) xs"
  show 1: "distinct (map fst ?ys)" using assms(1) by (auto simp: distinct_map_filter)
  have "distinct xs" "distinct ?ys" using assms(1) 1 by (auto simp: distinct_map)
  moreover have "inj_on snd (set ?ys)"
    using assms(2) unfolding set_splice [OF assms(1,3)] distinct_map by blast
  ultimately show "distinct (map snd ?ys)" unfolding distinct_map by blast
qed

lemma splice_inv:
  assumes "cache_inv c" "map_of (lru_keys (slotCache c)) k = Some i"
  shows "cache_inv (c\<lparr>slotCache := lru_splice k i (slotCache c)\<rparr>)"
    "cache_look (c\<lparr>slotCache := lru_splice k i (slotCache c)\<rparr>) = cache_look c"
proof -
  let ?xs = "lru_keys (slotCache c)"
  have d: "distinct (map fst ?xs)" "distinct (map snd ?xs)" using assms(1) by (simp_all add: cache_inv_def)
  show "cache_inv (c\<lparr>slotCache := lru_splice k i (slotCache c)\<rparr>)"
    using assms(1) distinct_splice [OF d assms(2)] set_splice [OF d(1) assms(2)]
    by (simp add: cache_inv_def lru_splice_def)
  show "cache_look (c\<lparr>slotCache := lru_splice k i (slotCache c)\<rparr>) = cache_look c"
    using map_of_splice [OF assms(2)] by (simp add: fun_eq_iff cache_look_def lru_splice_def)
qed

text \<open>Reading a cached container.\<close>

lemma ReadFromCache_ok:
  assumes "cache_inv c" "cache_look c n = Some b"
  shows "\<exists>c'. ReadFromCache n c = Inr (b, c') \<and> cache_inv c' \<and> cache_look c' = cache_look c"
proof -
  obtain i where i: "map_of (lru_keys (slotCache c)) n = Some i" "b = containerPool c ! i"
    using assms(2) by (auto simp: cache_look_def)
  have "i \<in> snd ` set (lru_keys (slotCache c))" using map_of_SomeD [OF i(1)] by force
  then have "i < length (containerPool c)" using assms(1) by (auto simp: cache_inv_def)
  then have "ReadFromCache n c = Inr (b, c\<lparr>slotCache := lru_splice n i (slotCache c)\<rparr>)"
    using i by (simp add: ReadFromCache_def lru_get_def)
  with splice_inv [OF assms(1) i(1)] show ?thesis by auto
qed

text \<open>
  Inserting a new container: into the slot of the evicted one, or into a fresh slot. What the
  slot holds afterwards is \<open>b\<close>.
\<close>

definition keeps_others :: "container_name \<Rightarrow> bytes \<Rightarrow> pool_cache \<Rightarrow> pool_cache \<Rightarrow> bool" where
  "keeps_others n b c c' \<longleftrightarrow> cache_inv c' \<and> cache_look c' n = Some b \<and>
     (\<forall>m. m \<noteq> n \<longrightarrow> cache_look c' m = None \<or> cache_look c' m = cache_look c m)"

lemma nth_update_other:
  "(\<And>j. r = Some j \<Longrightarrow> i \<noteq> j) \<Longrightarrow> map_option ((!) (ys[i := b])) r = map_option ((!) ys) r"
  by (cases r) auto

lemma evict_ok:
  assumes "cache_inv c" "cache_look c n = None" "cacheSize c < lru_size (slotCache c) + 1"
  shows "\<exists>i. pruneValue (slotCache c) = Some i \<and> i < length (containerPool c) \<and>
    keeps_others n b c (c\<lparr>containerPool := (containerPool c)[i := b], slotCache := lru_insert n i (slotCache c)\<rparr>)"
proof -
  let ?ks = "lru_keys (slotCache c)"
  have inv: "0 < cacheSize c" "lru_maxSize (slotCache c) = cacheSize c" "lru_elasticity (slotCache c) = 0"
      "length (containerPool c) = cacheSize c" "distinct (map fst ?ks)" "distinct (map snd ?ks)"
      "snd ` set ?ks = {..<currentIndex c}" "currentIndex c \<le> cacheSize c"
    using assms(1) by (simp_all add: cache_inv_def)
  have len: "length ?ks = cacheSize c" "currentIndex c = cacheSize c"
    using cache_inv_length [OF assms(1)] assms(3) inv(8) by (simp_all add: lru_size_def)
  then have "?ks \<noteq> []" using inv(1) by auto
  then obtain xs k i where ks: "?ks = xs @ [(k, i)]" by (metis append_butlast_last_id prod.collapse)
  have new: "n \<notin> fst ` set ?ks" using assms(2) by (auto simp: cache_look_def map_of_eq_None_iff)
  have p: "pruneValue (slotCache c) = Some i" using inv(5) by (simp add: pruneValue_def ks map_of_eq_None_iff [symmetric] map_add_def)
  have i: "i < length (containerPool c)" using inv(4,7) len(2) ks by auto
  have "take (cacheSize c) ((n, i) # xs @ [(k, i)]) = (n, i) # xs" using len(1) by (simp add: ks flip: len(1))
  then have "lru_insert n i (slotCache c) = (slotCache c)\<lparr>lru_keys := (n, i) # xs\<rparr>"
    using new len(1) inv(1-3) ks
    by (auto simp: lru_insert_def lru_contains_def map_of_eq_None_iff lru_prune_def lru_size_def prune_loop_take Let_def)
  moreover have "cache_inv (c\<lparr>containerPool := (containerPool c)[i := b], slotCache := (slotCache c)\<lparr>lru_keys := (n, i) # xs\<rparr>\<rparr>)"
    using inv new ks by (simp add: cache_inv_def insert_commute)
  moreover have "map_of xs m = None \<or> map_of ?ks m = map_of xs m" for m by (cases "map_of xs m") (auto simp: ks map_add_def)
  moreover have "map_option ((!) ((containerPool c)[i := b])) (map_of xs m) = map_option ((!) (containerPool c)) (map_of xs m)" for m
    using inv(6) by (intro nth_update_other) (force simp: ks dest: map_of_SomeD)
  ultimately have "keeps_others n b c (c\<lparr>containerPool := (containerPool c)[i := b], slotCache := lru_insert n i (slotCache c)\<rparr>)"
    using i unfolding keeps_others_def cache_look_def by (simp, metis)
  with p i show ?thesis by blast
qed

lemma fresh_ok:
  assumes "cache_inv c" "cache_look c n = None" "\<not> cacheSize c < lru_size (slotCache c) + 1"
  shows "currentIndex c < length (containerPool c) \<and>
    keeps_others n b c (c\<lparr>containerPool := (containerPool c)[currentIndex c := b],
      slotCache := lru_insert n (currentIndex c) (slotCache c), currentIndex := Suc (currentIndex c)\<rparr>)"
proof -
  let ?ks = "lru_keys (slotCache c)" and ?i = "currentIndex c"
  have inv: "0 < cacheSize c" "lru_maxSize (slotCache c) = cacheSize c" "lru_elasticity (slotCache c) = 0"
      "length (containerPool c) = cacheSize c" "distinct (map fst ?ks)" "distinct (map snd ?ks)"
      "snd ` set ?ks = {..<currentIndex c}" "currentIndex c \<le> cacheSize c"
    using assms(1) by (simp_all add: cache_inv_def)
  have len: "length ?ks = ?i" "?i < cacheSize c"
    using cache_inv_length [OF assms(1)] assms(3) by (simp_all add: lru_size_def)
  have new: "n \<notin> fst ` set ?ks" using assms(2) by (auto simp: cache_look_def map_of_eq_None_iff)
  have free: "?i \<notin> snd ` set ?ks" using inv(7) by simp
  have "lru_insert n ?i (slotCache c) = (slotCache c)\<lparr>lru_keys := (n, ?i) # ?ks\<rparr>"
    using new len inv(1-3)
    by (auto simp: lru_insert_def lru_contains_def map_of_eq_None_iff lru_prune_def lru_size_def prune_loop_take Let_def)
  moreover have "cache_inv (c\<lparr>containerPool := (containerPool c)[?i := b], slotCache := (slotCache c)\<lparr>lru_keys := (n, ?i) # ?ks\<rparr>,
      currentIndex := Suc ?i\<rparr>)"
    using inv new len free by (simp add: cache_inv_def lessThan_Suc)
  moreover have "map_option ((!) ((containerPool c)[?i := b])) (map_of ?ks m) = map_option ((!) (containerPool c)) (map_of ?ks m)" for m
    using free by (intro nth_update_other) (force dest: map_of_SomeD)
  ultimately show ?thesis
    using inv(4) len(2) by (simp add: keeps_others_def cache_look_def)
qed

lemma InsertToCache_ok:
  assumes "cache_inv c" "cache_look c n = None" "length d \<le> MAX_CONTAINER_SIZE"
  shows "\<exists>c' b. InsertToCache n d c = Inr c' \<and> keeps_others n b c c' \<and> take (length d) b = d"
proof (cases "cacheSize c < lru_size (slotCache c) + 1")
  case True
  obtain i where i: "pruneValue (slotCache c) = Some i" "i < length (containerPool c)" using evict_ok [OF assms(1,2) True] by blast
  have "keeps_others n (put (containerPool c ! i) 0 d) c (c\<lparr>containerPool := (containerPool c)[i := put (containerPool c ! i) 0 d],
      slotCache := lru_insert n i (slotCache c)\<rparr>)"
    using evict_ok [OF assms(1,2) True] i(1) by force
  moreover have "take (length d) (put (containerPool c ! i) 0 d) = d" by (simp add: buf_simps)
  ultimately show ?thesis using i True assms(3) by (auto simp: InsertToCache_def pool_write_def memcpyE_def)
next
  case False
  have "take (length d) (put (containerPool c ! currentIndex c) 0 d) = d" by (simp add: buf_simps)
  with fresh_ok [OF assms(1,2) False, of "put (containerPool c ! currentIndex c) 0 d"] assms(3) False show ?thesis
    by (auto simp: InsertToCache_def pool_write_def memcpyE_def)
qed

lemma InsertToCache_Offline_ok:
  assumes "cache_inv c" "cache_look c n = None" "length d \<le> MAX_CONTAINER_SIZE"
  shows "\<exists>c' b. InsertToCache_Offline n d c = Inr c' \<and> keeps_others n b c c' \<and> take (length d) b = d"
proof (cases "cacheSize c < lru_size (slotCache c) + 1")
  case True
  with evict_ok [OF assms(1,2) True, of d] assms(3) show ?thesis
    by (auto simp: InsertToCache_Offline_def pool_replace_def intro!: exI [of _ d])
next
  case False
  with fresh_ok [OF assms(1,2) False, of d] assms(3) show ?thesis
    by (auto simp: InsertToCache_Offline_def pool_replace_def intro!: exI [of _ d])
qed

text \<open>
  The server's cache is only right for a configured size of 64: with a smaller pool the slot
  of the least recently used container is overwritten while its name stays in the LRU cache,
  and reading that name returns another container.
\<close>

lemma ReadCache_small_pool:
  "bindE (InsertToCache [1] [10] (ReadCache_new 1)) (\<lambda>c1. bindE (InsertToCache [2] [20] c1) (\<lambda>c2.
     bindE (ReadFromCache [1] c2) (\<lambda>(b, c3). Inr (ExistsInCache [1] c2, b)))) = Inr (True, [20])"
  by code_simp

section \<open>The interface of a container cache\<close>

text \<open>
  What the restore path and the delta search rely on: a cache says what it holds, returns it,
  and an insertion of an absent name keeps the new content and at most forgets others.
\<close>

locale container_cache =
  fixes inv :: "'c \<Rightarrow> bool" and look :: "'c \<Rightarrow> container_name \<Rightarrow> bytes option"
    and exists_in :: "container_name \<Rightarrow> 'c \<Rightarrow> bool" and read_from :: "container_name \<Rightarrow> 'c \<Rightarrow> fault + bytes \<times> 'c"
    and insert_to :: "container_name \<Rightarrow> bytes \<Rightarrow> 'c \<Rightarrow> fault + 'c"
  assumes exists_iff: "inv c \<Longrightarrow> exists_in n c \<longleftrightarrow> look c n \<noteq> None"
    and read_ok: "inv c \<Longrightarrow> look c n = Some b \<Longrightarrow> \<exists>c'. read_from n c = Inr (b, c') \<and> inv c' \<and> look c' = look c"
    and insert_ok: "inv c \<Longrightarrow> look c n = None \<Longrightarrow> length d \<le> MAX_CONTAINER_SIZE \<Longrightarrow>
      \<exists>c' b. insert_to n d c = Inr c' \<and> inv c' \<and> look c' n = Some b \<and> take (length d) b = d \<and>
        (\<forall>m. m \<noteq> n \<longrightarrow> look c' m = None \<or> look c' m = look c m)"
begin

definition agrees :: "(container_name \<Rightarrow> bytes option) \<Rightarrow> 'c \<Rightarrow> bool" where
  "agrees files c \<longleftrightarrow> inv c \<and> (\<forall>n b. look c n = Some b \<longrightarrow> (\<exists>f. files n = Some f \<and> take (length f) b = f))"

lemma agrees_mono:
  assumes "agrees files c" "\<And>n f. files n = Some f \<Longrightarrow> files' n = Some f"
  shows "agrees files' c"
  using assms unfolding agrees_def by blast

lemma hit:
  assumes "agrees files c" "exists_in n c"
  shows "\<exists>b c' f. read_from n c = Inr (b, c') \<and> agrees files c' \<and> files n = Some f \<and> take (length f) b = f"
proof -
  obtain b where b: "look c n = Some b" using assms exists_iff by (auto simp: agrees_def)
  obtain c' where c': "read_from n c = Inr (b, c')" "inv c'" "look c' = look c"
    using read_ok [OF _ b] assms(1) by (auto simp: agrees_def)
  with assms(1) b show ?thesis by (auto simp: agrees_def)
qed

lemma miss:
  assumes "agrees files c" "\<not> exists_in n c" "files n = Some f" "length d \<le> MAX_CONTAINER_SIZE" "take (length f) d = f"
  shows "\<exists>c'. insert_to n d c = Inr c' \<and> agrees files c'"
proof -
  have "inv c" "look c n = None" using assms(1,2) exists_iff by (auto simp: agrees_def)
  from insert_ok [OF this assms(4)] obtain c' b where c': "insert_to n d c = Inr c'" "inv c'" "look c' n = Some b"
      "take (length d) b = d" "\<forall>m. m \<noteq> n \<longrightarrow> look c' m = None \<or> look c' m = look c m"
    by blast
  have "length f \<le> length d" using assms(5) by (metis length_take min.cobounded1 min.commute)
  then have b: "take (length f) b = f" using c'(4) assms(5) by (metis take_take min.absorb1)
  have "\<exists>f. files m = Some f \<and> take (length f) b' = f" if "look c' m = Some b'" for m b'
  proof (cases "m = n")
    case True
    with that c'(3) b assms(3) show ?thesis by auto
  next
    case False
    with that c'(5) have "look c m = Some b'" by force
    with assms(1) show ?thesis by (simp add: agrees_def)
  qed
  with c'(1,2) show ?thesis by (auto simp: agrees_def)
qed

end

lemma ExistsInCache_iff: "ExistsInCache n c \<longleftrightarrow> cache_look c n \<noteq> None"
  by (simp add: ExistsInCache_def lru_contains_def cache_look_def)

interpretation rc: container_cache cache_inv cache_look ExistsInCache ReadFromCache InsertToCache
proof
  fix c n and d :: bytes
  assume "cache_inv c" "cache_look c n = None" "length d \<le> MAX_CONTAINER_SIZE"
  from InsertToCache_ok [OF this] show "\<exists>c' b. InsertToCache n d c = Inr c' \<and> cache_inv c' \<and> cache_look c' n = Some b \<and>
      take (length d) b = d \<and> (\<forall>m. m \<noteq> n \<longrightarrow> cache_look c' m = None \<or> cache_look c' m = cache_look c m)"
    unfolding keeps_others_def by blast
qed (use ReadFromCache_ok in \<open>simp_all add: ExistsInCache_iff\<close>)

interpretation inc: container_cache cache_inv cache_look ExistsInCache ReadFromCache InsertToCache_Offline
proof
  fix c n and d :: bytes
  assume "cache_inv c" "cache_look c n = None" "length d \<le> MAX_CONTAINER_SIZE"
  from InsertToCache_Offline_ok [OF this] show "\<exists>c' b. InsertToCache_Offline n d c = Inr c' \<and> cache_inv c' \<and>
      cache_look c' n = Some b \<and> take (length d) b = d \<and>
      (\<forall>m. m \<noteq> n \<longrightarrow> cache_look c' m = None \<or> cache_look c' m = cache_look c m)"
    unfolding keeps_others_def by blast
qed (use ReadFromCache_ok in \<open>simp_all add: ExistsInCache_iff\<close>)

section \<open>Fetching the containers of a restore\<close>

record req_st =
  containerArray :: "bytes list"
  containerCache :: pool_cache
  cacheHits :: nat
  readFromContainerFileNum :: u64

text \<open>
  One turn of the loop of \<open>GetReqContainers\<close>. A hit copies \<open>MAX_CONTAINER_SIZE\<close> bytes of the
  cached buffer; a miss reads the file into the slot and inserts it.
\<close>

definition get_container :: "string \<Rightarrow> disk \<Rightarrow> bytes \<Rightarrow> nat \<Rightarrow> req_st \<Rightarrow> fault + req_st" where
  "get_container containerNameTail d idBuffer i st =
    (let name = seg (i * CONTAINER_ID_LENGTH) CONTAINER_ID_LENGTH idBuffer
     in if length (containerArray st) \<le> i then Inl WriteOutside
        else if ExistsInCache name (containerCache st) then
          bindE (ReadFromCache name (containerCache st)) (\<lambda>(b, c).
            Inr (st\<lparr>containerArray := (containerArray st)[i := b], containerCache := c, cacheHits := Suc (cacheHits st)\<rparr>))
        else
          bindE (read_container containerNameTail d name) (\<lambda>f.
          bindE (memcpyE MAX_CONTAINER_SIZE (containerArray st ! i) 0 f) (\<lambda>b.
          bindE (InsertToCache name f (containerCache st)) (\<lambda>c.
            Inr (st\<lparr>containerArray := (containerArray st)[i := b], containerCache := c,
              readFromContainerFileNum := readFromContainerFileNum st + 1\<rparr>)))))"

definition GetReqContainers :: "string \<Rightarrow> disk \<Rightarrow> bytes \<Rightarrow> nat \<Rightarrow> req_st \<Rightarrow> fault + req_st" where
  "GetReqContainers containerNameTail d idBuffer idNum st =
    foldE (get_container containerNameTail d idBuffer) [0..<idNum] st"

lemma get_container_ok:
  assumes "rc.agrees (files_of t d) (containerCache st)" "i < length (containerArray st)"
    "files_of t d (seg (i * CONTAINER_ID_LENGTH) CONTAINER_ID_LENGTH ids) = Some f" "length f \<le> MAX_CONTAINER_SIZE"
  shows "\<exists>st' b. get_container t d ids i st = Inr st' \<and> rc.agrees (files_of t d) (containerCache st') \<and>
    containerArray st' = (containerArray st)[i := b] \<and> take (length f) b = f"
proof (cases "ExistsInCache (seg (i * CONTAINER_ID_LENGTH) CONTAINER_ID_LENGTH ids) (containerCache st)")
  case True
  from rc.hit [OF assms(1) True] assms(2,3) True show ?thesis by (auto simp: get_container_def Let_def)
next
  case False
  have r: "read_container t d (seg (i * CONTAINER_ID_LENGTH) CONTAINER_ID_LENGTH ids) = Inr f"
    using assms(3) by (simp add: files_of_def split: sum.splits)
  have "take (length f) (put (containerArray st ! i) 0 f) = f" by (simp add: buf_simps)
  with rc.miss [OF assms(1) False assms(3,4)] r False assms(2,4) show ?thesis
    by (auto simp: get_container_def Let_def memcpyE_def)
qed

lemma GetReqContainers_ok:
  assumes "rc.agrees (files_of t d) (containerCache st)" "idNum \<le> length (containerArray st)"
    "\<forall>i < idNum. \<exists>f. files_of t d (seg (i * CONTAINER_ID_LENGTH) CONTAINER_ID_LENGTH ids) = Some f \<and> length f \<le> MAX_CONTAINER_SIZE"
  shows "k \<le> idNum \<Longrightarrow> \<exists>st'. GetReqContainers t d ids k st = Inr st' \<and> rc.agrees (files_of t d) (containerCache st') \<and>
    length (containerArray st') = length (containerArray st) \<and>
    (\<forall>i < k. \<forall>f. files_of t d (seg (i * CONTAINER_ID_LENGTH) CONTAINER_ID_LENGTH ids) = Some f \<longrightarrow>
       take (length f) (containerArray st' ! i) = f)"
proof (induction k)
  case 0
  then show ?case using assms(1) by (simp add: GetReqContainers_def)
next
  case (Suc k)
  let ?F = "files_of t d" and ?id = "\<lambda>i. seg (i * CONTAINER_ID_LENGTH) CONTAINER_ID_LENGTH ids"
  obtain st1 where st1: "GetReqContainers t d ids k st = Inr st1" "rc.agrees ?F (containerCache st1)"
      "length (containerArray st1) = length (containerArray st)"
      "\<forall>i < k. \<forall>f. ?F (?id i) = Some f \<longrightarrow> take (length f) (containerArray st1 ! i) = f"
    using Suc by auto
  obtain f where f: "?F (?id k) = Some f" "length f \<le> MAX_CONTAINER_SIZE" using assms(3) [rule_format, of k] Suc.prems by (auto simp: Suc_le_eq)
  have "k < length (containerArray st1)" using assms(2) Suc.prems st1(3) by simp
  from get_container_ok [OF st1(2) this f] obtain st2 b where
      st2: "get_container t d ids k st1 = Inr st2" "rc.agrees ?F (containerCache st2)"
        "containerArray st2 = (containerArray st1)[k := b]" "take (length f) b = f"
    by blast
  have "take (length g) (containerArray st2 ! i) = g" if "i < Suc k" "?F (?id i) = Some g" for i g
    using that st1(3,4) st2(3,4) f(1) assms(2) Suc.prems by (cases "i = k") auto
  with st1 st2 show ?case by (auto simp: GetReqContainers_def foldE_append)
qed

text \<open>
  C24: the containers of a restore. With a configured cache of 64 containers,
  whatever was cached and evicted before, \<open>GetReqContainers\<close> does not fail, and slot \<open>i\<close> then
  starts with the content of the file of the \<open>i\<close>-th requested container; the cache still agrees
  with the disk. \<open>agrees\<close> includes the well-formedness of the cache, which a new
  cache has and every call keeps.
\<close>

theorem GetReqContainers_correct:
  assumes "cache_inv (containerCache st)"
    "\<forall>n b. cache_look (containerCache st) n = Some b \<longrightarrow> (\<exists>f. files_of t d n = Some f \<and> take (length f) b = f)"
    "idNum \<le> length (containerArray st)"
    "\<forall>i < idNum. \<exists>f. files_of t d (seg (i * CONTAINER_ID_LENGTH) CONTAINER_ID_LENGTH ids) = Some f \<and> length f \<le> MAX_CONTAINER_SIZE"
  shows "\<exists>st'. GetReqContainers t d ids idNum st = Inr st' \<and> cache_inv (containerCache st') \<and>
    (\<forall>n b. cache_look (containerCache st') n = Some b \<longrightarrow> (\<exists>f. files_of t d n = Some f \<and> take (length f) b = f)) \<and>
    length (containerArray st') = length (containerArray st) \<and>
    (\<forall>i < idNum. \<forall>f. files_of t d (seg (i * CONTAINER_ID_LENGTH) CONTAINER_ID_LENGTH ids) = Some f \<longrightarrow>
       take (length f) (containerArray st' ! i) = f)"
  using GetReqContainers_ok [of t d st idNum ids idNum] assms unfolding rc.agrees_def by auto

definition sample_disk :: disk where
  "sample_disk = [base_path ''.c'' (replicate 7 65) \<mapsto> [1, 2], delta_path ''.c'' (replicate 7 66) \<mapsto> [3]]"

definition sample_req :: req_st where
  "sample_req = \<lparr>containerArray = [[], [9, 9, 9], []], containerCache = ReadCache_new 64, cacheHits = 0, readFromContainerFileNum = 0\<rparr>"

theorem GetReqContainers_correct_witness:
  "\<exists>st'. GetReqContainers ''.c'' sample_disk (replicate 7 65 @ replicate 7 66 @ replicate 7 65) 3 sample_req = Inr st' \<and>
    take 2 (containerArray st' ! 0) = [1, 2] \<and> take 1 (containerArray st' ! 1) = [3] \<and> take 2 (containerArray st' ! 2) = [1, 2]"
proof -
  let ?ids = "replicate 7 65 @ replicate 7 66 @ replicate 7 65 :: bytes"
  have f: "files_of ''.c'' sample_disk (seg (0 * CONTAINER_ID_LENGTH) CONTAINER_ID_LENGTH ?ids) = Some [1, 2]"
      "files_of ''.c'' sample_disk (seg (1 * CONTAINER_ID_LENGTH) CONTAINER_ID_LENGTH ?ids) = Some [3]"
      "files_of ''.c'' sample_disk (seg (2 * CONTAINER_ID_LENGTH) CONTAINER_ID_LENGTH ?ids) = Some [1, 2]"
    by (code_simp, code_simp, code_simp)
  have three: "(\<forall>i < 3. P i) \<longleftrightarrow> P 0 \<and> P 1 \<and> P 2" for P :: "nat \<Rightarrow> bool"
    by (auto simp: numeral_3_eq_3 numeral_2_eq_2 less_Suc_eq)
  have "\<forall>i < 3. \<exists>f. files_of ''.c'' sample_disk (seg (i * CONTAINER_ID_LENGTH) CONTAINER_ID_LENGTH ?ids) = Some f \<and>
      length f \<le> MAX_CONTAINER_SIZE"
    unfolding three using f by (simp add: MAX_CONTAINER_SIZE_def)
  from GetReqContainers_correct [OF _ _ _ this, of sample_req] obtain st' where
      st': "GetReqContainers ''.c'' sample_disk ?ids 3 sample_req = Inr st'"
        "\<forall>i < 3. \<forall>f. files_of ''.c'' sample_disk (seg (i * CONTAINER_ID_LENGTH) CONTAINER_ID_LENGTH ?ids) = Some f \<longrightarrow>
           take (length f) (containerArray st' ! i) = f"
    using cache_inv_new(1) by (auto simp: sample_req_def cache_look_def ReadCache_new_def lru_new_def)
  from st'(2) f have "take 2 (containerArray st' ! 0) = [1, 2]" "take 1 (containerArray st' ! 1) = [3]" "take 2 (containerArray st' ! 2) = [1, 2]"
    unfolding three by (simp_all add: numeral_2_eq_2)
  with st'(1) show ?thesis by blast
qed

end
