(* ===== verification/OutIndex.thy ===== *)
theory OutIndex
  imports Database Cache
begin

text \<open>
  The OCalls of \<open>storeOCall.cc\<close> through which the enclave asks and updates the index outside:
  fingerprints, similar chunks, containers of base chunks, the map of deltas, and the pairs
  left to the offline pass. The lemmas say which keys a query finds and what an update adds.
\<close>

section \<open>Query entries\<close>

text \<open>
  \<open>OutQueryEntry_t\<close>. The two addresses are kept as their 144 bytes, since they hold ciphertext
  for a part of the time; \<open>o_container\<close> is what \<open>containerbuffer\<close> points to when it is read.
\<close>

record OutQueryEntry =
  o_dedupFlag :: byte
  o_deltaFlag :: byte
  o_offlineFlag :: byte
  o_chunkHash :: fp
  o_chunkAddr :: bytes
  o_superfeature :: bytes
  o_container :: bytes
  o_containersize :: nat
  o_basechunkAddr :: bytes

text \<open>The field \<open>basechunkHash\<close> of an address given as bytes.\<close>

definition addr_base :: "bytes \<Rightarrow> fp" where
  "addr_base a = seg 16 CHUNK_HASH_SIZE a"

definition set_addr_base :: "bytes \<Rightarrow> fp \<Rightarrow> bytes" where
  "set_addr_base a h = put a 16 (take CHUNK_HASH_SIZE h)"

text \<open>The loops run over the first \<open>queryNum\<close> entries.\<close>

definition first_entries :: "nat \<Rightarrow> ('a \<Rightarrow> 'a) \<Rightarrow> 'a list \<Rightarrow> 'a list" where
  "first_entries n f es = map f (take n es) @ drop n es"

section \<open>Fingerprints\<close>

definition query_entry :: "InMemoryDatabase \<Rightarrow> OutQueryEntry \<Rightarrow> OutQueryEntry" where
  "query_entry db e =
    (case QueryBuffer (o_chunkHash e) CHUNK_HASH_SIZE db of
       Some a \<Rightarrow> e\<lparr>o_dedupFlag := two_path_code DUPLICATE, o_chunkAddr := take RECIPE_ENTRY_SIZE a\<rparr>
     | None \<Rightarrow> e\<lparr>o_dedupFlag := two_path_code UNIQUE\<rparr>)"

definition Ocall_QueryOutIndex :: "InMemoryDatabase \<Rightarrow> nat \<Rightarrow> OutQueryEntry list \<Rightarrow> OutQueryEntry list" where
  "Ocall_QueryOutIndex db queryNum es = first_entries queryNum (query_entry db) es"

definition update_entry :: "OutQueryEntry \<Rightarrow> InMemoryDatabase \<Rightarrow> InMemoryDatabase" where
  "update_entry e db =
    (if o_dedupFlag e = two_path_code UNIQUE then
       let db1 = InsertBothBuffer (o_chunkHash e) CHUNK_HASH_SIZE (o_chunkAddr e) RECIPE_ENTRY_SIZE db
       in if o_deltaFlag e = delta_code NO_DELTA \<and> o_offlineFlag e = 0
          then InsertSF (o_superfeature e) (o_chunkHash e) 0 db1 else db1
     else db)"

definition Ocall_UpdateOutIndex :: "nat \<Rightarrow> OutQueryEntry list \<Rightarrow> InMemoryDatabase \<Rightarrow> InMemoryDatabase" where
  "Ocall_UpdateOutIndex queryNum es db = fold update_entry (take queryNum es) db"

text \<open>The addresses of a batch of fingerprints, one behind the other; a missing one is left as zeros.\<close>

fun Ocall_ReadIndexStoreBatch :: "nat \<Rightarrow> bytes \<Rightarrow> InMemoryDatabase \<Rightarrow> bytes" where
  "Ocall_ReadIndexStoreBatch 0 key db = []"
| "Ocall_ReadIndexStoreBatch (Suc recipeNum) key db =
    (case QueryBuffer key CHUNK_HASH_SIZE db of Some v \<Rightarrow> v | None \<Rightarrow> replicate RECIPE_ENTRY_SIZE 0) @
      Ocall_ReadIndexStoreBatch recipeNum (drop CHUNK_HASH_SIZE key) db"

definition Ocall_QueryBaseIndex :: "InMemoryDatabase \<Rightarrow> nat \<Rightarrow> OutQueryEntry list \<Rightarrow> OutQueryEntry list" where
  "Ocall_QueryBaseIndex db queryNum es =
    first_entries queryNum (\<lambda>e. case QueryBuffer (o_chunkHash e) CHUNK_HASH_SIZE db of
        Some a \<Rightarrow> e\<lparr>o_chunkAddr := take RECIPE_ENTRY_SIZE a\<rparr> | None \<Rightarrow> e) es"

section \<open>Similar chunks\<close>

definition query_base :: "InMemoryDatabase \<Rightarrow> OutQueryEntry \<Rightarrow> fault + OutQueryEntry" where
  "query_base db e =
    (if o_dedupFlag e = two_path_code UNIQUE \<and> o_deltaFlag e = delta_code NO_DELTA then
       bindE (QuerySF (o_superfeature e) db) (\<lambda>r.
         Inr (case r of
           None \<Rightarrow> e
         | Some h \<Rightarrow>
             let e1 = e\<lparr>o_chunkAddr := set_addr_base (o_chunkAddr e) h, o_deltaFlag := delta_code OUT_DELTA\<rparr>
             in (case QueryBuffer (addr_base (o_chunkAddr e1)) CHUNK_HASH_SIZE db of
                   Some a \<Rightarrow> e1\<lparr>o_basechunkAddr := take RECIPE_ENTRY_SIZE a\<rparr> | None \<Rightarrow> e1)))
     else Inr e)"

definition Ocall_QueryOutBasechunk :: "InMemoryDatabase \<Rightarrow> nat \<Rightarrow> OutQueryEntry list \<Rightarrow> fault + OutQueryEntry list" where
  "Ocall_QueryOutBasechunk db queryNum es = bindE (mapE (query_base db) (take queryNum es)) (\<lambda>l. Inr (l @ drop queryNum es))"

text \<open>
  The container of a base chunk is read from disk into a buffer shared by all clients; a file
  that is not there yet makes the chunk an ordinary one. The two branches of the code, for
  \<open>OUT_DELTA\<close> and \<open>DELTA\<close>, do the same.
\<close>

definition Ocall_getRefContainer :: "string \<Rightarrow> disk \<Rightarrow> bytes \<Rightarrow> OutQueryEntry \<Rightarrow> fault + OutQueryEntry \<times> bytes" where
  "Ocall_getRefContainer t d tmpOcallcontainer e =
    (if o_deltaFlag e = delta_code OUT_DELTA \<or> o_deltaFlag e = delta_code DELTA then
       (case d (base_path t (containerName (entry_of (o_basechunkAddr e)))) of
          None \<Rightarrow> Inr (e\<lparr>o_deltaFlag := delta_code NO_DELTA\<rparr>, tmpOcallcontainer)
        | Some f \<Rightarrow> bindE (memcpyE MAX_CONTAINER_SIZE tmpOcallcontainer 0 f) (\<lambda>b.
            Inr (e\<lparr>o_container := b, o_containersize := length f, o_deltaFlag := delta_code DELTA\<rparr>, b)))
     else Inr (e, tmpOcallcontainer))"

section \<open>Deltas and pairs for the offline pass\<close>

text \<open>\<open>process_buffer\<close> and \<open>test_buffer\<close> hold pairs of fingerprints.\<close>

definition pair_at :: "bytes \<Rightarrow> nat \<Rightarrow> fp \<times> fp" where
  "pair_at buf i = (seg (2 * i * CHUNK_HASH_SIZE) CHUNK_HASH_SIZE buf, seg ((2 * i + 1) * CHUNK_HASH_SIZE) CHUNK_HASH_SIZE buf)"

definition Ocall_UpdateDeltaIndex :: "bytes \<Rightarrow> nat \<Rightarrow> InMemoryDatabase \<Rightarrow> InMemoryDatabase" where
  "Ocall_UpdateDeltaIndex buf chunkNum db = fold (\<lambda>i. InsertDeltaIndex (fst (pair_at buf i)) (snd (pair_at buf i))) [0..<chunkNum] db"

text \<open>
  A new base for an old one; a base that was already to be replaced remembers the earlier
  replacement in \<open>skipMap\<close>.
\<close>

definition local_insert :: "fp \<times> fp \<Rightarrow> InMemoryDatabase \<Rightarrow> InMemoryDatabase" where
  "local_insert p db =
    (case p of (old, new) \<Rightarrow>
       let db1 = (case local_tmp_map db old of None \<Rightarrow> db | Some v \<Rightarrow> db\<lparr>skipMap := push_back old v (skipMap db)\<rparr>)
       in db1\<lparr>local_tmp_map := (local_tmp_map db1)(old \<mapsto> new)\<rparr>)"

definition Ocall_LocalInsert :: "bytes \<Rightarrow> nat \<Rightarrow> InMemoryDatabase \<Rightarrow> InMemoryDatabase" where
  "Ocall_LocalInsert buf chunkNum db = fold (\<lambda>i. local_insert (pair_at buf i)) [0..<chunkNum] db"

section \<open>What queries and updates do\<close>

lemma length_first_entries [simp]: "length (first_entries n f es) = length es"
  by (simp add: first_entries_def)

lemma first_entries_nth: "i < length es \<Longrightarrow> first_entries n f es ! i = (if i < n then f (es ! i) else es ! i)"
  by (auto simp: first_entries_def nth_append min_def)

definition key_ok :: "OutQueryEntry \<Rightarrow> bool" where
  "key_ok e \<longleftrightarrow> length (o_chunkHash e) = CHUNK_HASH_SIZE \<and> length (o_chunkAddr e) = RECIPE_ENTRY_SIZE"

lemma QueryBuffer_key: "length k = CHUNK_HASH_SIZE \<Longrightarrow> QueryBuffer k CHUNK_HASH_SIZE db = indexObj db k"
  by (simp add: QueryBuffer_def)

lemma update_entry_index:
  "key_ok e \<Longrightarrow> indexObj (update_entry e db) =
    (if o_dedupFlag e = two_path_code UNIQUE then (indexObj db)(o_chunkHash e \<mapsto> o_chunkAddr e) else indexObj db)"
  by (simp add: update_entry_def key_ok_def InsertBothBuffer_def InsertSF_def Let_def)

lemma update_entry_sf:
  "sfObj (update_entry e db) =
    (if o_dedupFlag e = two_path_code UNIQUE \<and> o_deltaFlag e = delta_code NO_DELTA \<and> o_offlineFlag e = 0
     then sfObj (InsertSF (o_superfeature e) (o_chunkHash e) 0 db) else sfObj db)"
  by (simp add: update_entry_def InsertBothBuffer_def InsertSF_def Let_def)

text \<open>The index after an update: a new key, or an old one.\<close>

lemma fold_update_index:
  assumes "\<forall>e \<in> set es. key_ok e" "distinct (map o_chunkHash es)"
  shows "indexObj (fold update_entry es db) k =
    (case find (\<lambda>e. o_chunkHash e = k \<and> o_dedupFlag e = two_path_code UNIQUE) es of
       None \<Rightarrow> indexObj db k | Some e \<Rightarrow> Some (o_chunkAddr e))"
  using assms
proof (induction es arbitrary: db)
  case (Cons e es)
  have rest: "find (\<lambda>x. o_chunkHash x = o_chunkHash e \<and> o_dedupFlag x = two_path_code UNIQUE) es = None"
    using Cons.prems(2) by (auto simp: find_None_iff image_iff)
  have "indexObj (fold update_entry es (update_entry e db)) k =
      (case find (\<lambda>e. o_chunkHash e = k \<and> o_dedupFlag e = two_path_code UNIQUE) es of
         None \<Rightarrow> indexObj (update_entry e db) k | Some e \<Rightarrow> Some (o_chunkAddr e))"
    using Cons by auto
  then show ?case using Cons.prems(1) rest by (auto simp: update_entry_index split: option.splits)
qed simp

end
