(* ===== verification/FreqIndex.thy ===== *)
theory FreqIndex
  imports EDeltaCorrect EntryHeap CMSketch SuperFeature Upload OutIndex
begin

text \<open>
  The index of ShieldReduce (\<open>ecallFreqIndex.cc\<close>): one batch of chunks through hashing, the
  frequency sketch, the in-enclave index, the index outside, similarity detection, delta
  compression and storage. The phases of \<open>ProcessOneBatch\<close> are separate definitions in the
  order of the code.
\<close>

section \<open>State\<close>

record InQueryEntry =
  i_dedupFlag :: byte
  i_deltaFlag :: byte
  i_chunkHash :: fp
  i_chunkAddr :: RecipeEntry
  i_chunkFreq :: u32
  i_chunkSize :: u32
  i_superfeature :: bytes
  i_basechunkAddr :: RecipeEntry

record freq_stats =
  insideDedupChunkNum :: u64
  insideDedupDataSize :: u64
  uniqueChunkNum :: u64
  uniqueDataSize :: u64
  logicalChunkNum :: u64
  logicalDataSize :: u64
  baseChunkNum :: u64
  baseDataSize :: u64
  lz4SaveSize :: u64
  deltaChunkNum :: u64
  deltaDataSize :: u64
  DeltaSaveSize :: u64
  Inline_FPOcall :: u64
  Inline_SFOcall :: u64
  Inline_LoadOcall :: u64
  Inline_DeltaOcall :: u64
  Inline_LocalOcall :: u64
  need_load_container_num :: u64
  inline_batch_num :: u64

text \<open>
  The client inside and outside the enclave (\<open>up\<close> with its containers and recipe, the buffers
  of a batch), the index inside the enclave, and the world outside: index, container files (\<open>cdisk\<close>: those
  whose save has ended), the number of containers the writer has saved, and, while it saves the
  next one, how many of its bytes have reached the file. Every counter of \<open>freq_stats\<close> is a statistic
  that no decision depends on. Left out are \<open>_inlineDeltaChunkNum\<close> and \<open>_Online_DeltaSaveSize\<close>,
  which always grow with \<open>_deltaChunkNum\<close> and \<open>_DeltaSaveSize\<close>, the sum \<open>_Inline_Ocall\<close> of the
  OCall counters, \<open>batch_out_times\<close> and the number of similar chunks.
\<close>

record freq_st =
  up :: up_st
  recvBuffer :: bytes
  inQueryBase :: "InQueryEntry list"
  outQueryBase :: "OutQueryEntry list"
  queryNum :: nat
  currNum :: nat
  localIndex :: "fp \<rightharpoonup> nat"
  cmSketch :: CMSketch
  insideDedupIndex :: EntryHeap
  inContainercache :: pool_cache
  psHTable2 :: htable
  deltaBuffer :: bytes
  process_buffer :: bytes
  test_buffer :: bytes
  Forward_Flag :: bool
  outdb :: InMemoryDatabase
  cdisk :: disk
  savedNum :: nat
  writing :: "nat option"
  tmpOcallcontainer :: bytes
  stats :: freq_stats

text \<open>
  The writer thread takes the next container of the queue and saves it in steps: it opens the file,
  some bytes reach it, some more, it closes the file. A step that is not due changes nothing (the
  writer waits). While a save is under way, a reader finds the front part of the container.
\<close>

datatype writer_act = Fopen | Fwrite nat | Fclose

definition half_saved :: "freq_st \<Rightarrow> (Container \<times> nat) option" where
  "half_saved st =
    (if savedNum st < length (inputMQ (up st)) then map_option (\<lambda>k. (inputMQ (up st) ! savedNum st, k)) (writing st) else None)"

definition disk_now :: "string \<Rightarrow> freq_st \<Rightarrow> disk" where
  "disk_now t st =
    (case half_saved st of None \<Rightarrow> cdisk st | Some (c, k) \<Rightarrow> fwrite_upto t c k (fopen_wb t c (cdisk st)))"

definition writer_step :: "string \<Rightarrow> writer_act \<Rightarrow> freq_st \<Rightarrow> freq_st" where
  "writer_step t act st =
    (case half_saved st of
       None \<Rightarrow> (if act = Fopen \<and> savedNum st < length (inputMQ (up st)) then st\<lparr>writing := Some 0\<rparr> else st)
     | Some (c, k) \<Rightarrow>
         (case act of
            Fopen \<Rightarrow> st
          | Fwrite n \<Rightarrow> st\<lparr>writing := Some (k + n)\<rparr>
          | Fclose \<Rightarrow> st\<lparr>cdisk := SaveToFile t c (cdisk st), savedNum := Suc (savedNum st), writing := None\<rparr>))"

text \<open>What the writer does before chunk \<open>i\<close> is processed; the scheduler may depend on everything.\<close>

type_synonym schedule = "nat \<Rightarrow> freq_st \<Rightarrow> writer_act list"

definition writer_run :: "string \<Rightarrow> schedule \<Rightarrow> nat \<Rightarrow> freq_st \<Rightarrow> freq_st" where
  "writer_run t w i st = fold (writer_step t) (w i st) st"

section \<open>Hashing and counting\<close>

text \<open>Each chunk of a batch is a 4-byte size and the content.\<close>

fun hash_entries :: "enclave \<Rightarrow> bytes \<Rightarrow> nat \<Rightarrow> InQueryEntry list \<Rightarrow> fault + InQueryEntry list" where
  "hash_entries E recv off [] = Inr []"
| "hash_entries E recv off (e # es) =
    (let sz = rd32 (drop off recv)
     in if length recv < off + 4 + unat sz then Inl ReadOutside
        else bindE (GenerateHash (ssl E) HASH_TYPE (seg (off + 4) (unat sz) recv)) (\<lambda>h.
             bindE (hash_entries E recv (off + 4 + unat sz) es) (\<lambda>es'.
               Inr (e\<lparr>i_chunkSize := sz, i_chunkHash := h\<rparr> # es'))))"

fun count_entries :: "CMSketch \<Rightarrow> InQueryEntry list \<Rightarrow> InQueryEntry list \<times> CMSketch" where
  "count_entries s [] = ([], s)"
| "count_entries s (e # es) =
    (let s1 = cm_Update s (i_chunkHash e) 1; (es', s2) = count_entries s1 es
     in (e\<lparr>i_chunkFreq := cm_Estimate s1 (i_chunkHash e)\<rparr> # es', s2))"

section \<open>The top-k index\<close>

text \<open>
  Entries and query buffer, number of queries, local index. \<open>GetPriority\<close> is only called for a
  key the heap contains and then changes nothing.
\<close>

type_synonym topk_st = "InQueryEntry list \<times> OutQueryEntry list \<times> nat \<times> (fp \<rightharpoonup> nat)"

definition min_freq :: "nat \<Rightarrow> EntryHeap \<Rightarrow> u32 option" where
  "min_freq topK h = (if Size h = topK then TopEntry h else Some 0)"

definition to_out_query :: "enclave \<Rightarrow> nat \<Rightarrow> topk_st \<Rightarrow> fault + topk_st" where
  "to_out_query E i s =
    (case s of (iq, oq, num, loc) \<Rightarrow>
       let e = iq ! i
       in if length oq \<le> num then Inl WriteOutside
          else bindE (IndexAESCMCEnc (ssl E) (indexQueryKey E) (i_chunkHash e)) (\<lambda>c.
            Inr (iq[i := e\<lparr>i_dedupFlag := two_path_code UNIQUE, i_chunkAddr := (i_chunkAddr e)\<lparr>addr_offset := word_of_nat num\<rparr>\<rparr>],
                 oq[num := (oq ! num)\<lparr>o_chunkHash := c\<rparr>], Suc num, loc(i_chunkHash e \<mapsto> i))))"

definition local_duplicate :: "nat \<Rightarrow> nat \<Rightarrow> InQueryEntry list \<Rightarrow> fault + InQueryEntry list" where
  "local_duplicate i off iq =
    (let e = iq ! i; found = iq ! off;
         mark = (\<lambda>f. (iq[i := e\<lparr>i_dedupFlag := two_path_code f, i_chunkAddr := (i_chunkAddr e)\<lparr>addr_offset := word_of_nat off\<rparr>\<rparr>])
                  [off := found\<lparr>i_chunkFreq := i_chunkFreq e\<rparr>])
     in if i_dedupFlag found = two_path_code UNIQUE then Inr (mark TMP_UNIQUE)
        else if i_dedupFlag found = two_path_code DUPLICATE then Inr (mark TMP_DUPLICATE)
        else Inl ExitFailure)"

definition topk_step :: "enclave \<Rightarrow> EntryHeap \<Rightarrow> u32 \<Rightarrow> nat \<Rightarrow> topk_st \<Rightarrow> fault + topk_st" where
  "topk_step E h minFreq i s =
    (case s of (iq, oq, num, loc) \<Rightarrow>
       let e = iq ! i; key = i_chunkHash e
       in case loc key of
            Some off \<Rightarrow> bindE (local_duplicate i off iq) (\<lambda>iq'. Inr (iq', oq, num, loc))
          | None \<Rightarrow>
              if i_chunkFreq e < minFreq then to_out_query E i s
              else if Contains h key then
                Inr (iq[i := e\<lparr>i_dedupFlag := two_path_code DUPLICATE, i_chunkAddr := address (snd (GetPriority h key))\<rparr>],
                     oq, num, loc(key \<mapsto> i))
              else to_out_query E i s)"

section \<open>Super-features and similar chunks\<close>

text \<open>
  The super-features of the chunks that are unique inside and outside. Three threads share the
  work; they write to different entries, and the ranges of \<open>GetSFTask\<close> cover the list.
\<close>

fun sf_entries :: "evp \<Rightarrow> bytes \<Rightarrow> nat \<Rightarrow> InQueryEntry list \<Rightarrow> OutQueryEntry list \<Rightarrow> fault + InQueryEntry list" where
  "sf_entries X recv off [] oq = Inr []"
| "sf_entries X recv off (e # es) oq =
    (let next = off + 4 + unat (i_chunkSize e)
     in if i_dedupFlag e = two_path_code UNIQUE then
          (case oq of [] \<Rightarrow> Inl ReadOutside
           | o1 # os \<Rightarrow>
               if o_dedupFlag o1 = two_path_code UNIQUE then
                 bindE (getSF2 X (drop (off + 4) recv) (unat (i_chunkSize e))) (\<lambda>sf.
                 bindE (sf_entries X recv next es os) (\<lambda>es'. Inr (e\<lparr>i_superfeature := sf\<rparr> # es')))
               else bindE (sf_entries X recv next es os) (\<lambda>es'. Inr (e # es')))
        else bindE (sf_entries X recv next es oq) (\<lambda>es'. Inr (e # es')))"

fun OutEntrySFGet :: "InQueryEntry list \<Rightarrow> OutQueryEntry list \<Rightarrow> OutQueryEntry list" where
  "OutEntrySFGet [] oq = oq"
| "OutEntrySFGet (e # es) oq =
    (if i_dedupFlag e = two_path_code UNIQUE then
       (case oq of [] \<Rightarrow> []
        | o1 # os \<Rightarrow>
            (if o_dedupFlag o1 = two_path_code UNIQUE
             then o1\<lparr>o_deltaFlag := delta_code NO_DELTA, o_offlineFlag := 0, o_superfeature := i_superfeature e\<rparr> else o1)
            # OutEntrySFGet es os)
     else OutEntrySFGet es oq)"

definition EntryLoad ::
  "enclave \<Rightarrow> InQueryEntry \<Rightarrow> OutQueryEntry \<Rightarrow> container_name list \<Rightarrow> fault + InQueryEntry \<times> OutQueryEntry \<times> container_name list" where
  "EntryLoad E e o1 ids =
    (if o_deltaFlag o1 = delta_code OUT_DELTA then
       bindE (AESCBCDec (ssl E) (indexQueryKey E) (o_basechunkAddr o1)) (\<lambda>p.
         Inr (e\<lparr>i_chunkAddr := (i_chunkAddr e)\<lparr>basechunkHash := addr_base (o_chunkAddr o1)\<rparr>, i_basechunkAddr := entry_of p\<rparr>,
              o1\<lparr>o_basechunkAddr := p\<rparr>, List.insert (containerName (entry_of p)) ids))
     else Inr (e, o1, ids))"

fun load_entries ::
  "enclave \<Rightarrow> InQueryEntry list \<Rightarrow> OutQueryEntry list \<Rightarrow> container_name list \<Rightarrow>
    fault + InQueryEntry list \<times> OutQueryEntry list \<times> container_name list" where
  "load_entries E [] oq ids = Inr ([], oq, ids)"
| "load_entries E (e # es) oq ids =
    (if i_dedupFlag e = two_path_code UNIQUE then
       (case oq of [] \<Rightarrow> Inl ReadOutside
        | o1 # os \<Rightarrow>
            bindE (if o_dedupFlag o1 = two_path_code UNIQUE then EntryLoad E e o1 ids else Inr (e, o1, ids)) (\<lambda>(e', o', ids').
            bindE (load_entries E es os ids') (\<lambda>(es', os', ids''). Inr (e' # es', o' # os', ids''))))
     else bindE (load_entries E es oq ids) (\<lambda>(es', oq', ids'). Inr (e # es', oq', ids')))"

text \<open>
  A batch with many base containers is left to the offline pass: more than \<open>OFFLINE_THRESHOLD\<close>
  (0.03, truncated to an integer) per chunk, or never in forward mode.
\<close>

definition offline_threshold :: "bool \<Rightarrow> nat \<Rightarrow> nat" where
  "offline_threshold forward itemNum = (if forward then itemNum * 128 else itemNum * 3 div 100)"

definition LocalChecker :: "enclave \<Rightarrow> nat \<Rightarrow> freq_st \<Rightarrow> fault + bool \<times> freq_st" where
  "LocalChecker E itemNum st =
    bindE (load_entries E (take itemNum (inQueryBase st)) (outQueryBase st) []) (\<lambda>(es, oq, ids).
      Inr (offline_threshold (Forward_Flag st) itemNum < length ids,
           st\<lparr>inQueryBase := es @ drop itemNum (inQueryBase st), outQueryBase := oq,
             stats := (stats st)\<lparr>need_load_container_num := need_load_container_num (stats st) + word_of_nat (length ids),
               inline_batch_num := inline_batch_num (stats st) + 1\<rparr>\<rparr>))"

section \<open>Delta compression\<close>

text \<open>
  Whether a delta against a similar chunk is made now. \<open>e\<close> and \<open>o1\<close> are the entries of the
  chunk, \<open>o1\<close> the one at \<open>currNum\<close>. The first test is left over from debugging.
\<close>

definition marked_hash :: "fp \<Rightarrow> bool" where
  "marked_hash h \<longleftrightarrow> h ! 0 = 161 \<and> h ! 1 = 77 \<and> h ! 2 = 140"

definition base_from_cache ::
  "InQueryEntry \<Rightarrow> OutQueryEntry \<Rightarrow> freq_st \<Rightarrow> fault + InQueryEntry \<times> OutQueryEntry \<times> freq_st" where
  "base_from_cache e o1 st =
    bindE (ReadFromCache (containerName (entry_of (o_basechunkAddr o1))) (inContainercache st)) (\<lambda>(b, c).
      Inr (e\<lparr>i_chunkAddr := (i_chunkAddr e)\<lparr>basechunkHash := addr_base (o_chunkAddr o1)\<rparr>\<rparr>,
           o1\<lparr>o_container := b, o_deltaFlag := delta_code DELTA\<rparr>, st\<lparr>inContainercache := c\<rparr>))"

definition fetch_base :: "string \<Rightarrow> OutQueryEntry \<Rightarrow> freq_st \<Rightarrow> fault + OutQueryEntry \<times> freq_st" where
  "fetch_base t o1 st =
    (if o_deltaFlag o1 = delta_code OUT_DELTA then
       bindE (Ocall_getRefContainer t (disk_now t st) (tmpOcallcontainer st) o1) (\<lambda>(o2, b).
         Inr (o2, st\<lparr>tmpOcallcontainer := b, stats := (stats st)\<lparr>Inline_LoadOcall := Inline_LoadOcall (stats st) + 1\<rparr>\<rparr>))
     else Inr (o1, st))"

definition cache_base ::
  "InQueryEntry \<Rightarrow> OutQueryEntry \<Rightarrow> freq_st \<Rightarrow> fault + InQueryEntry \<times> OutQueryEntry \<times> freq_st" where
  "cache_base e o1 st =
    (let name = containerName (entry_of (o_basechunkAddr o1))
     in if o_deltaFlag o1 = delta_code DELTA \<and> \<not> ExistsInCache name (inContainercache st) then
          bindE (InsertToCache_Offline name (o_container o1) (inContainercache st)) (\<lambda>c.
            Inr (e\<lparr>i_chunkAddr := (i_chunkAddr e)\<lparr>basechunkHash := addr_base (o_chunkAddr o1)\<rparr>\<rparr>, o1, st\<lparr>inContainercache := c\<rparr>))
        else Inr (e, o1, st))"

definition base_from_disk ::
  "string \<Rightarrow> InQueryEntry \<Rightarrow> OutQueryEntry \<Rightarrow> freq_st \<Rightarrow> fault + InQueryEntry \<times> OutQueryEntry \<times> freq_st" where
  "base_from_disk t e o1 st = bindE (fetch_base t o1 st) (\<lambda>(o2, st1). cache_base e o2 st1)"

definition OfflinedeltaTure ::
  "string \<Rightarrow> bool \<Rightarrow> InQueryEntry \<Rightarrow> OutQueryEntry \<Rightarrow> (fp \<times> fp) list \<Rightarrow> freq_st \<Rightarrow>
    fault + InQueryEntry \<times> OutQueryEntry \<times> (fp \<times> fp) list \<times> freq_st" where
  "OfflinedeltaTure t Local_Flag e o1 basemap st =
    (if marked_hash (i_chunkHash e) then Inr (e, o1\<lparr>o_deltaFlag := delta_code NO_DELTA\<rparr>, basemap, st)
     else if Local_Flag \<and> o_deltaFlag o1 = delta_code OUT_DELTA then
       Inr (e, o1\<lparr>o_deltaFlag := delta_code NO_DELTA, o_offlineFlag := 1\<rparr>,
            basemap @ [(addr_base (o_chunkAddr o1), o_chunkHash o1)], st)
     else if o_deltaFlag o1 = delta_code OUT_DELTA \<and>
             ExistsInCache (containerName (entry_of (o_basechunkAddr o1))) (inContainercache st) then
       bindE (base_from_cache e o1 st) (\<lambda>(e', o', st'). Inr (e', o', basemap, st'))
     else bindE (base_from_disk t e o1 st) (\<lambda>(e', o', st'). Inr (e', o', basemap, st')))"

text \<open>The text a stored chunk stands for when it serves as a base.\<close>

definition unlz :: "enclave \<Rightarrow> bytes \<Rightarrow> bytes" where
  "unlz E p = (case lz4_decompress E p MAX_CHUNK_SIZE of None \<Rightarrow> p | Some x \<Rightarrow> if x = [] then p else x)"

definition of_edelta :: "edelta_error + 'a \<Rightarrow> fault + 'a" where
  "of_edelta r = (case r of Inr x \<Rightarrow> Inr x | Inl e \<Rightarrow> Inl UninitLocal)"

text \<open>\<open>ProcessDeltachunk\<close> with \<open>ed3_encode\<close>. The scratch buffers have twice \<open>MAX_CHUNK_SIZE\<close> bytes.\<close>

definition ProcessDeltachunk ::
  "enclave \<Rightarrow> InQueryEntry \<Rightarrow> OutQueryEntry \<Rightarrow> bytes \<Rightarrow> freq_st \<Rightarrow> fault + bytes \<times> InQueryEntry \<times> OutQueryEntry \<times> freq_st" where
  "ProcessDeltachunk E e o1 chunk st =
    (let ba = i_basechunkAddr e
     in if 2 * MAX_CHUNK_SIZE < unat (addr_length ba) then Inl WriteOutside
        else case read_chunk (o_container o1) (addr_offset ba) (addr_length ba) of
          None \<Rightarrow> Inl ReadOutside
        | Some (c, iv) \<Rightarrow>
            bindE (DecryptionWithKeyIV (ssl E) CIPHER_TYPE (enclaveKey E) iv c) (\<lambda>p.
            bindE (of_edelta (EDeltaEncode chunk (unlz E p) (deltaBuffer st) (psHTable2 st))) (\<lambda>(d, ht).
              let flag = (if length d \<ge> length chunk then delta_code NO_DELTA else o_deltaFlag o1)
              in Inr (d, e\<lparr>i_chunkAddr := (i_chunkAddr e)\<lparr>deltaFlag := flag\<rparr>\<rparr>, o1\<lparr>o_deltaFlag := flag\<rparr>,
                   st\<lparr>psHTable2 := ht, deltaBuffer := put (deltaBuffer st) 0 d\<rparr>))))"

section \<open>One chunk\<close>

text \<open>The state of the main loop: everything, the read offset, the pairs of base and delta, the pairs for the offline pass.\<close>

record loop_st =
  fst_st :: freq_st
  currentOffset :: nat
  processNum :: nat
  batch_basemap :: "(fp \<times> fp) list"

definition PROCESS_BUFFER_SIZE :: nat where "PROCESS_BUFFER_SIZE = 100000 * CHUNK_HASH_SIZE"

definition save_delta ::
  "enclave \<Rightarrow> bytes \<Rightarrow> nat \<Rightarrow> InQueryEntry \<Rightarrow> OutQueryEntry \<Rightarrow> loop_st \<Rightarrow> fault + InQueryEntry \<times> OutQueryEntry \<times> loop_st" where
  "save_delta E delta chunkSize e o1 ls =
    (let st = fst_st ls
     in bindE (ProcessSheUniqueChunk E (i_chunkAddr e) delta (i_superfeature e) (o_chunkHash o1) (up st)) (\<lambda>(a, u).
        bindE (memcpyE PROCESS_BUFFER_SIZE (process_buffer st) (2 * processNum ls * CHUNK_HASH_SIZE)
                 (addr_base (o_chunkAddr o1) @ o_chunkHash o1)) (\<lambda>b.
          let saved = word_of_nat chunkSize - ucast (addr_length a) :: u64; s = stats st
          in Inr (e\<lparr>i_chunkAddr := a\<rparr>, o1\<lparr>o_deltaFlag := delta_code DELTA\<rparr>,
               ls\<lparr>processNum := Suc (processNum ls), fst_st := st\<lparr>up := u, process_buffer := b,
                 stats := s\<lparr>deltaChunkNum := deltaChunkNum s + 1, deltaDataSize := deltaDataSize s + ucast (addr_length a),
                   DeltaSaveSize := DeltaSaveSize s + saved\<rparr>\<rparr>\<rparr>))))"

definition save_base ::
  "enclave \<Rightarrow> bytes \<Rightarrow> InQueryEntry \<Rightarrow> OutQueryEntry \<Rightarrow> loop_st \<Rightarrow> fault + InQueryEntry \<times> OutQueryEntry \<times> loop_st" where
  "save_base E chunk e o1 ls =
    (let st = fst_st ls; s = stats st
     in bindE (ProcessSheUniqueChunk E (i_chunkAddr e) chunk (i_superfeature e) (o_chunkHash o1) (up st)) (\<lambda>(a, u).
          Inr (e\<lparr>i_chunkAddr := a\<rparr>, o1\<lparr>o_deltaFlag := delta_code NO_DELTA\<rparr>,
               ls\<lparr>fst_st := st\<lparr>up := u,
                 stats := s\<lparr>baseChunkNum := baseChunkNum s + 1, baseDataSize := baseDataSize s + ucast (addr_length a),
                   lz4SaveSize := lz4SaveSize s + (word_of_nat (length chunk) - ucast (addr_length a))\<rparr>\<rparr>\<rparr>)))"

text \<open>A chunk that is unique inside and outside.\<close>

definition store_unique ::
  "enclave \<Rightarrow> string \<Rightarrow> bool \<Rightarrow> bytes \<Rightarrow> InQueryEntry \<Rightarrow> OutQueryEntry \<Rightarrow> loop_st \<Rightarrow> fault + InQueryEntry \<times> OutQueryEntry \<times> loop_st" where
  "store_unique E t Local_Flag chunk e o1 ls =
    (let e1 = e\<lparr>i_deltaFlag := delta_code NO_DELTA, i_chunkAddr := (i_chunkAddr e)\<lparr>deltaFlag := delta_code NO_DELTA\<rparr>\<rparr>
     in bindE (OfflinedeltaTure t Local_Flag e1 o1 (batch_basemap ls) (fst_st ls)) (\<lambda>(e2, o2, bm, st2).
        bindE (if o_deltaFlag o2 = delta_code DELTA then ProcessDeltachunk E e2 o2 chunk st2
               else Inr ([], e2, o2, st2)) (\<lambda>(delta, e3, o3, st3).
        let ls3 = ls\<lparr>fst_st := st3, batch_basemap := bm\<rparr>
        in bindE (if deltaFlag (i_chunkAddr e3) = delta_code DELTA then save_delta E delta (length chunk) e3 o3 ls3
                  else if deltaFlag (i_chunkAddr e3) = delta_code NO_DELTA then save_base E chunk e3 o3 ls3
                  else Inr (e3, o3, ls3)) (\<lambda>(e4, o4, ls4).
           bindE (AESCBCEnc (ssl E) (indexQueryKey E) (entry_image (i_chunkAddr e4))) (\<lambda>c.
             let st4 = fst_st ls4; s = stats st4
             in Inr (e4, o4\<lparr>o_chunkAddr := c\<rparr>, ls4\<lparr>fst_st := st4\<lparr>stats := s\<lparr>uniqueChunkNum := uniqueChunkNum s + 1,
                  uniqueDataSize := uniqueDataSize s + word_of_nat (length chunk)\<rparr>\<rparr>\<rparr>))))))"

text \<open>
  The body of the loop is the same in every index that keeps super-features; the indexes differ
  in how they store a chunk that is unique inside and outside.
\<close>

type_synonym storer = "bytes \<Rightarrow> InQueryEntry \<Rightarrow> OutQueryEntry \<Rightarrow> loop_st \<Rightarrow> fault + InQueryEntry \<times> OutQueryEntry \<times> loop_st"

definition out_unique :: "enclave \<Rightarrow> storer \<Rightarrow> bytes \<Rightarrow> nat \<Rightarrow> loop_st \<Rightarrow> fault + loop_st" where
  "out_unique E store chunk i ls =
    (let st = fst_st ls; k = currNum st; e = inQueryBase st ! i; o1 = outQueryBase st ! k
     in if length (outQueryBase st) \<le> k then Inl ReadOutside
        else bindE
          (if o_dedupFlag o1 = two_path_code DUPLICATE then
             bindE (AESCBCDec (ssl E) (indexQueryKey E) (o_chunkAddr o1)) (\<lambda>p. Inr (e\<lparr>i_chunkAddr := entry_of p\<rparr>, o1, ls))
           else if o_dedupFlag o1 = two_path_code UNIQUE then store chunk e o1 ls
           else Inl ExitFailure) (\<lambda>(e', o', ls').
           let st' = fst_st ls'
           in Inr (ls'\<lparr>fst_st := st'\<lparr>inQueryBase := (inQueryBase st')[i := e'], outQueryBase := (outQueryBase st')[k := o'],
                currNum := Suc k\<rparr>\<rparr>)))"

text \<open>
  The body of the main loop for chunk \<open>i\<close>, after what the writer did meanwhile. A chunk reads at most one
  file, before anything is handed to the writer; a file only grows while it is read, and the reader
  asks for its size first, so that every interleaving of the two threads shows the reader what some
  schedule of this form shows it. The address string handed to \<open>UpdateFileRecipe\<close> is not used there.
\<close>

definition count_inside :: "nat \<Rightarrow> loop_st \<Rightarrow> loop_st" where
  "count_inside chunkSize ls =
    (let st = fst_st ls; s = stats st
     in ls\<lparr>fst_st := st\<lparr>stats := s\<lparr>insideDedupChunkNum := insideDedupChunkNum s + 1,
          insideDedupDataSize := insideDedupDataSize s + word_of_nat chunkSize\<rparr>\<rparr>\<rparr>)"

definition process_chunk :: "enclave \<Rightarrow> string \<Rightarrow> schedule \<Rightarrow> storer \<Rightarrow> nat \<Rightarrow> loop_st \<Rightarrow> fault + loop_st" where
  "process_chunk E t w store i ls0 =
    (let ls = ls0\<lparr>fst_st := writer_run t w i (fst_st ls0)\<rparr>;
         st = fst_st ls; e = inQueryBase st ! i; sz = unat (i_chunkSize e);
         chunk = seg (currentOffset ls + 4) sz (recvBuffer st); flag = i_dedupFlag e
     in bindE
          (if flag = two_path_code DUPLICATE \<or> flag = two_path_code TMP_DUPLICATE \<or> flag = two_path_code TMP_UNIQUE
           then Inr (count_inside sz ls)
           else if flag = two_path_code UNIQUE then out_unique E store chunk i ls
           else Inl ExitFailure) (\<lambda>ls1.
        bindE (UpdateFileRecipe E (i_chunkHash e) (up (fst_st ls1))) (\<lambda>u.
          let st1 = fst_st ls1; s = stats st1
          in Inr (ls1\<lparr>currentOffset := currentOffset ls + 4 + sz,
               fst_st := st1\<lparr>up := u, stats := s\<lparr>logicalDataSize := logicalDataSize s + word_of_nat sz,
                 logicalChunkNum := logicalChunkNum s + 1\<rparr>\<rparr>\<rparr>))))"

section \<open>After the main loop\<close>

definition TEST_BUFFER_SIZE :: nat where "TEST_BUFFER_SIZE = 8000 * CHUNK_HASH_SIZE"

definition record_pairs :: "bool \<Rightarrow> loop_st \<Rightarrow> fault + freq_st" where
  "record_pairs Local_Flag ls =
    (let st = fst_st ls; s = stats st
     in if \<not> Local_Flag then
          Inr (if processNum ls > 0
               then st\<lparr>outdb := Ocall_UpdateDeltaIndex (process_buffer st) (processNum ls) (outdb st),
                 stats := s\<lparr>Inline_DeltaOcall := Inline_DeltaOcall s + 1\<rparr>\<rparr>
               else st)
        else
          bindE (memcpyE TEST_BUFFER_SIZE (test_buffer st) 0 (concat (map (\<lambda>(a, b). a @ b) (batch_basemap ls)))) (\<lambda>b.
            Inr (if length (batch_basemap ls) > 0
                 then st\<lparr>test_buffer := b, outdb := Ocall_LocalInsert b (length (batch_basemap ls)) (outdb st),
                   stats := s\<lparr>Inline_LocalOcall := Inline_LocalOcall s + 1\<rparr>\<rparr>
                 else st\<lparr>test_buffer := b\<rparr>)))"

fun offer_entries :: "nat \<Rightarrow> InQueryEntry list \<Rightarrow> EntryHeap \<Rightarrow> fault + EntryHeap" where
  "offer_entries topK [] h = Inr h"
| "offer_entries topK (e # es) h =
    (if i_dedupFlag e = two_path_code UNIQUE \<or> i_dedupFlag e = two_path_code DUPLICATE then
       (case offer_chunk topK h (i_chunkFreq e) (i_chunkAddr e) (i_chunkHash e) of
          None \<Rightarrow> Inl ReadOutside | Some h' \<Rightarrow> offer_entries topK es h')
     else offer_entries topK es h)"

section \<open>One batch\<close>

text \<open>Decryption, hashing and the sketch.\<close>

definition receive_batch :: "enclave \<Rightarrow> bytes \<Rightarrow> nat \<Rightarrow> freq_st \<Rightarrow> fault + freq_st" where
  "receive_batch E dataBuffer itemNum st =
    bindE (SessionKeyDec (ssl E) (sessionKey E) dataBuffer) (\<lambda>plain.
    if length (inQueryBase st) < itemNum \<or> length (recvBuffer st) < length plain then Inl WriteOutside
    else let recv = put (recvBuffer st) 0 plain
         in bindE (hash_entries E recv 0 (take itemNum (inQueryBase st))) (\<lambda>es.
              let (es', sk) = count_entries (cmSketch st) es
              in Inr (st\<lparr>recvBuffer := recv, inQueryBase := es' @ drop itemNum (inQueryBase st), cmSketch := sk\<rparr>)))"

definition check_topk :: "enclave \<Rightarrow> nat \<Rightarrow> freq_st \<Rightarrow> fault + nat \<times> freq_st" where
  "check_topk E itemNum st =
    (case min_freq (topThreshold E) (insideDedupIndex st) of
       None \<Rightarrow> Inl ReadOutside
     | Some minFreq \<Rightarrow>
         bindE (foldE (topk_step E (insideDedupIndex st) minFreq) [0..<itemNum]
                  (inQueryBase st, outQueryBase st, 0, localIndex st)) (\<lambda>(iq, oq, num, loc).
           Inr (num, st\<lparr>inQueryBase := iq, outQueryBase := oq, localIndex := loc\<rparr>)))"

definition find_similar :: "enclave \<Rightarrow> nat \<Rightarrow> nat \<Rightarrow> freq_st \<Rightarrow> fault + freq_st" where
  "find_similar E itemNum outQueryNum st =
    (let st1 = (if outQueryNum \<noteq> 0 then st\<lparr>queryNum := outQueryNum, outQueryBase := Ocall_QueryOutIndex (outdb st) outQueryNum (outQueryBase st)\<rparr>
                else st)
     in bindE (sf_entries (ssl E) (recvBuffer st1) 0 (take itemNum (inQueryBase st1)) (outQueryBase st1)) (\<lambda>es.
        let oq = OutEntrySFGet es (outQueryBase st1)
        in bindE (Ocall_QueryOutBasechunk (outdb st1) (queryNum st1) oq) (\<lambda>oq'.
             Inr (st1\<lparr>inQueryBase := es @ drop itemNum (inQueryBase st1), outQueryBase := oq'\<rparr>))))"

text \<open>The counters of the two OCalls.\<close>

definition count_queries :: "nat \<Rightarrow> freq_st \<Rightarrow> freq_st" where
  "count_queries outQueryNum st =
    (let s = stats st
     in if outQueryNum \<noteq> 0 then st\<lparr>stats := s\<lparr>Inline_FPOcall := Inline_FPOcall s + 1, Inline_SFOcall := Inline_SFOcall s + 1\<rparr>\<rparr> else st)"

definition ProcessOneBatch :: "enclave \<Rightarrow> string \<Rightarrow> schedule \<Rightarrow> bytes \<Rightarrow> nat \<Rightarrow> freq_st \<Rightarrow> fault + freq_st" where
  "ProcessOneBatch E t w dataBuffer itemNum st0 =
    bindE (receive_batch E dataBuffer itemNum st0) (\<lambda>st1.
    bindE (check_topk E itemNum st1) (\<lambda>(outQueryNum, st2).
    bindE (find_similar E itemNum outQueryNum st2) (\<lambda>st3.
    bindE (LocalChecker E itemNum (count_queries outQueryNum st3)) (\<lambda>(Local_Flag, st4).
    bindE (foldE (process_chunk E t w (store_unique E t Local_Flag)) [0..<itemNum]
             \<lparr>fst_st = st4, currentOffset = 0, processNum = 0, batch_basemap = []\<rparr>) (\<lambda>ls.
    bindE (record_pairs Local_Flag ls) (\<lambda>st5.
    bindE (offer_entries (topThreshold E) (take itemNum (inQueryBase st5)) (insideDedupIndex st5)) (\<lambda>h.
      Inr (st5\<lparr>insideDedupIndex := h, queryNum := outQueryNum, currNum := 0, localIndex := Map.empty\<rparr>))))))))"

text \<open>The untrusted caller updates the index outside after the enclave returns.\<close>

definition update_outside :: "freq_st \<Rightarrow> freq_st" where
  "update_outside st =
    (if queryNum st \<noteq> 0 then st\<lparr>outdb := Ocall_UpdateOutIndex (queryNum st) (outQueryBase st) (outdb st)\<rparr> else st)"

definition EnclaveIndex_ProcessOneBatch ::
  "enclave \<Rightarrow> string \<Rightarrow> schedule \<Rightarrow> bytes \<Rightarrow> nat \<Rightarrow> freq_st \<Rightarrow> fault + freq_st" where
  "EnclaveIndex_ProcessOneBatch E t w dataBuffer itemNum st =
    bindE (ProcessOneBatch E t w dataBuffer itemNum st) (\<lambda>st'. Inr (update_outside st'))"

end
