(* ===== verification/FreqSpec.thy ===== *)
theory FreqSpec
  imports FreqIndex
begin

text \<open>
  What the index of ShieldReduce promises: every chunk that was ever uploaded is found through
  its fingerprint and can be rebuilt from the containers, as a base chunk or as a delta against
  one. The definitions here are the specification; \<open>FreqPhases\<close>, \<open>FreqLoop\<close> and \<open>FreqCorrect\<close>
  prove that \<open>ProcessOneBatch\<close> keeps it.
\<close>

lemma two_path_code_inj [simp]: "two_path_code a = two_path_code b \<longleftrightarrow> a = b"
  by (cases a; cases b) simp_all

declare two_path_code.simps [simp del] delta_code.simps [simp del] delta_code_inj [simp]

section \<open>Fingerprints and index keys\<close>

definition hashfp :: "enclave \<Rightarrow> bytes \<Rightarrow> fp" where
  "hashfp E m = (case GenerateHash (ssl E) HASH_TYPE m of Inr h \<Rightarrow> h | Inl e \<Rightarrow> [])"

definition fpkey :: "enclave \<Rightarrow> fp \<Rightarrow> fp" where
  "fpkey E h = (case IndexAESCMCEnc (ssl E) (indexQueryKey E) h of Inr c \<Rightarrow> c | Inl e \<Rightarrow> [])"

definition keyof :: "enclave \<Rightarrow> bytes \<Rightarrow> fp" where
  "keyof E m = fpkey E (hashfp E m)"

lemma hashfp_ok:
  assumes "evp_ok (ssl E)"
  shows "GenerateHash (ssl E) HASH_TYPE m = Inr (hashfp E m)" "length (hashfp E m) = CHUNK_HASH_SIZE"
  using GenerateHash_ok [OF assms, of HASH_TYPE m] by (auto simp: hashfp_def HASH_TYPE_def CHUNK_HASH_SIZE_def)

lemma fpkey_ok:
  assumes "evp_ok (ssl E)" "length h = CHUNK_HASH_SIZE"
  shows "IndexAESCMCEnc (ssl E) (indexQueryKey E) h = Inr (fpkey E h)" "length (fpkey E h) = CHUNK_HASH_SIZE"
    "IndexAESCMCDec (ssl E) (indexQueryKey E) (fpkey E h) = Inr h"
proof -
  have "CRYPTO_BLOCK_SIZE dvd length h" using assms(2) by (simp add: size_consts)
  from IndexAESCMC_ok [OF assms(1) this, of "indexQueryKey E"] obtain c where
      "IndexAESCMCEnc (ssl E) (indexQueryKey E) h = Inr c" "length c = length h"
      "IndexAESCMCDec (ssl E) (indexQueryKey E) c = Inr h" by blast
  then show "IndexAESCMCEnc (ssl E) (indexQueryKey E) h = Inr (fpkey E h)" "length (fpkey E h) = CHUNK_HASH_SIZE"
    "IndexAESCMCDec (ssl E) (indexQueryKey E) (fpkey E h) = Inr h" using assms(2) by (simp_all add: fpkey_def)
qed

lemma fpkey_inj:
  assumes "evp_ok (ssl E)" "length a = CHUNK_HASH_SIZE" "length b = CHUNK_HASH_SIZE" "fpkey E a = fpkey E b"
  shows "a = b"
proof -
  have "Inr a = IndexAESCMCDec (ssl E) (indexQueryKey E) (fpkey E a)" using fpkey_ok(3) [OF assms(1,2)] by (rule sym)
  also have "\<dots> = Inr b" unfolding assms(4) by (rule fpkey_ok(3) [OF assms(1,3)])
  finally show ?thesis by simp
qed

lemma length_keyof: "evp_ok (ssl E) \<Longrightarrow> length (keyof E m) = CHUNK_HASH_SIZE"
  by (simp add: keyof_def fpkey_ok hashfp_ok)

lemma keyof_inj:
  assumes "evp_ok (ssl E)" "inj_on (hashfp E) C"
  shows "inj_on (keyof E) C"
proof (rule inj_onI)
  fix x y
  assume "x \<in> C" "y \<in> C" "keyof E x = keyof E y"
  moreover from this have "hashfp E x = hashfp E y"
    using fpkey_inj [OF assms(1)] hashfp_ok(2) [OF assms(1)] unfolding keyof_def by blast
  ultimately show "x = y" using assms(2) by (simp add: inj_on_def)
qed

lemma AESCBCDec_length: "AESCBCDec X k c = Inr p \<Longrightarrow> length p = length c"
  by (auto simp: AESCBCDec_def evp_out_def split: option.splits if_splits)

section \<open>Chunks in containers\<close>

text \<open>The bytes that are encrypted for a base chunk, and the text a base stands for in a delta.\<close>

definition plain_for :: "enclave \<Rightarrow> bytes \<Rightarrow> bytes" where
  "plain_for E m = plain_of (lz4_compress E m (length m)) m"

definition base_text :: "enclave \<Rightarrow> bytes \<Rightarrow> bytes" where
  "base_text E m = unlz E (plain_for E m)"

lemma length_plain_for: "lz4_ok E \<Longrightarrow> length m \<le> MAX_CHUNK_SIZE \<Longrightarrow> length (plain_for E m) \<le> MAX_CHUNK_SIZE"
  using lz4_short by (simp add: plain_for_def)

lemma length_base_text:
  assumes "lz4_ok E" "length m \<le> MAX_CHUNK_SIZE"
  shows "length (base_text E m) \<le> MAX_CHUNK_SIZE"
  using length_plain_for [OF assms] lz4_okD(4) [OF assms(1)]
  by (auto simp: base_text_def unlz_def split: option.splits)

text \<open>Where compression succeeded, the text of a base is the chunk itself.\<close>

lemma base_text_compressed:
  assumes "lz4_ok E" "lz4_compress E m (length m) = Some c" "length m \<le> MAX_CHUNK_SIZE" "m \<noteq> []"
  shows "base_text E m = m"
  using lz4_okD(3) [OF assms(1,2,3)] assms(2,4) by (simp add: base_text_def plain_for_def plain_of_def unlz_def)

text \<open>\<open>w\<close> gives the content of every container, in the enclave, in the queue or on disk.\<close>

definition stored :: "enclave \<Rightarrow> (container_name \<Rightarrow> bytes option) \<Rightarrow> RecipeEntry \<Rightarrow> bytes \<Rightarrow> bool" where
  "stored E w a p \<longleftrightarrow>
    (\<exists>b c iv. w (containerName a) = Some b \<and> read_chunk b (addr_offset a) (addr_length a) = Some (c, iv) \<and>
       length c = length p \<and> DecryptionWithKeyIV (ssl E) CIPHER_TYPE (enclaveKey E) iv c = Inr p)"

lemma read_chunk_Nil: "read_chunk [] off n = None"
  by (simp add: read_chunk_def size_consts)

lemma stored_mono: "world_le w w' \<Longrightarrow> stored E w a p \<Longrightarrow> stored E w' a p"
  unfolding stored_def world_le_def by (metis read_chunk_append read_chunk_Nil option.distinct(1))

lemma stored_world: "holds_plain E st a p \<Longrightarrow> stored E (world t d st) a p"
  by (auto simp: holds_plain_def stored_def look_chunk_def world_def bind_eq_Some_conv)

lemma read_chunk_length: "read_chunk b off n = Some (c, iv) \<Longrightarrow> length c = unat n"
  by (auto simp: read_chunk_def Let_def split: if_splits)

lemma stored_read:
  assumes "stored E w a p" "w (containerName a) = Some f" "take (length f) b = f"
  shows "\<exists>c iv. read_chunk b (addr_offset a) (addr_length a) = Some (c, iv) \<and> unat (addr_length a) = length p \<and>
    DecryptionWithKeyIV (ssl E) CIPHER_TYPE (enclaveKey E) iv c = Inr p"
proof -
  obtain c iv where c: "read_chunk f (addr_offset a) (addr_length a) = Some (c, iv)" "length c = length p"
      "DecryptionWithKeyIV (ssl E) CIPHER_TYPE (enclaveKey E) iv c = Inr p"
    using assms(1,2) by (auto simp: stored_def)
  have "b = f @ drop (length f) b" using assms(3) by (metis append_take_drop_id)
  then have "read_chunk b (addr_offset a) (addr_length a) = Some (c, iv)" using read_chunk_append [OF c(1)] by metis
  with c read_chunk_length [OF c(1)] show ?thesis by auto
qed

section \<open>The index\<close>

definition addr_at :: "enclave \<Rightarrow> InMemoryDatabase \<Rightarrow> fp \<Rightarrow> RecipeEntry \<Rightarrow> bool" where
  "addr_at E db k a \<longleftrightarrow> entry_wf a \<and>
    (\<exists>v. indexObj db k = Some v \<and> AESCBCDec (ssl E) (indexQueryKey E) v = Inr (entry_image a))"

definition base_chunk :: "enclave \<Rightarrow> (container_name \<Rightarrow> bytes option) \<Rightarrow> RecipeEntry \<Rightarrow> bytes \<Rightarrow> bool" where
  "base_chunk E w a m \<longleftrightarrow> deltaFlag a = delta_code NO_DELTA \<and> stored E w a (plain_for E m)"

definition base_at :: "enclave \<Rightarrow> (container_name \<Rightarrow> bytes option) \<Rightarrow> InMemoryDatabase \<Rightarrow> bytes \<Rightarrow> bool" where
  "base_at E w db m \<longleftrightarrow> (\<exists>a. addr_at E db (keyof E m) a \<and> base_chunk E w a m)"

text \<open>A delta names its base by the index key; the base is one of the chunks \<open>S\<close>. It is not longer than the chunk.\<close>

definition delta_chunk ::
  "enclave \<Rightarrow> bytes set \<Rightarrow> (container_name \<Rightarrow> bytes option) \<Rightarrow> InMemoryDatabase \<Rightarrow> RecipeEntry \<Rightarrow> bytes \<Rightarrow> bool" where
  "delta_chunk E S w db a m \<longleftrightarrow> deltaFlag a = delta_code DELTA \<and>
    (\<exists>mb \<in> S. \<exists>d. basechunkHash a = keyof E mb \<and> base_at E w db mb \<and> stored E w a d \<and>
       length d \<le> length m \<and> EDeltaDecode d (length d) (base_text E mb) = Inr m)"

definition chunk_at ::
  "enclave \<Rightarrow> bytes set \<Rightarrow> (container_name \<Rightarrow> bytes option) \<Rightarrow> InMemoryDatabase \<Rightarrow> bytes \<Rightarrow> bool" where
  "chunk_at E S w db m \<longleftrightarrow>
    (\<exists>a. addr_at E db (keyof E m) a \<and> (base_chunk E w a m \<or> delta_chunk E S w db a m))"

definition db_inv :: "enclave \<Rightarrow> bytes set \<Rightarrow> (container_name \<Rightarrow> bytes option) \<Rightarrow> InMemoryDatabase \<Rightarrow> bool" where
  "db_inv E S w db \<longleftrightarrow> dom (indexObj db) = keyof E ` S \<and> (\<forall>m \<in> S. chunk_at E S w db m) \<and> sf_wf db \<and>
    (\<forall>i < 3. \<forall>k vs. sfObj db i k = Some vs \<longrightarrow> (\<forall>v \<in> set vs. \<exists>m \<in> S. v = keyof E m \<and> base_at E w db m))"

definition db_le :: "InMemoryDatabase \<Rightarrow> InMemoryDatabase \<Rightarrow> bool" where
  "db_le db db' \<longleftrightarrow> indexObj db \<subseteq>\<^sub>m indexObj db'"

lemma addr_at_mono: "db_le db db' \<Longrightarrow> addr_at E db k a \<Longrightarrow> addr_at E db' k a"
  unfolding addr_at_def db_le_def map_le_def by (metis domI)

lemma base_at_mono: "world_le w w' \<Longrightarrow> db_le db db' \<Longrightarrow> base_at E w db m \<Longrightarrow> base_at E w' db' m"
  unfolding base_at_def base_chunk_def by (meson addr_at_mono stored_mono)

lemma base_chunk_mono: "world_le w w' \<Longrightarrow> base_chunk E w a m \<Longrightarrow> base_chunk E w' a m"
  unfolding base_chunk_def using stored_mono by blast

lemma delta_chunk_mono:
  assumes "world_le w w'" "db_le db db'" "S \<subseteq> S'" "delta_chunk E S w db a m"
  shows "delta_chunk E S' w' db' a m"
proof -
  obtain mb d where "mb \<in> S" "basechunkHash a = keyof E mb" "base_at E w db mb" "stored E w a d" "length d \<le> length m"
      "EDeltaDecode d (length d) (base_text E mb) = Inr m" "deltaFlag a = delta_code DELTA"
    using assms(4) by (auto simp: delta_chunk_def)
  moreover have "base_at E w' db' mb" "stored E w' a d"
    using base_at_mono [OF assms(1,2)] stored_mono [OF assms(1)] calculation by blast+
  ultimately show ?thesis using assms(3) by (auto simp: delta_chunk_def)
qed

lemma chunk_at_mono:
  assumes "world_le w w'" "db_le db db'" "S \<subseteq> S'" "chunk_at E S w db m"
  shows "chunk_at E S' w' db' m"
  using assms(4) addr_at_mono [OF assms(2)] base_chunk_mono [OF assms(1)] delta_chunk_mono [OF assms(1-3)]
  unfolding chunk_at_def by blast

lemma db_le_refl [simp]: "db_le db db"
  by (simp add: db_le_def)

lemma db_inv_mono: "world_le w w' \<Longrightarrow> db_inv E S w db \<Longrightarrow> db_inv E S w' db"
  unfolding db_inv_def by (meson base_at_mono chunk_at_mono db_le_refl order_refl)

text \<open>What holds of the fingerprint index alone, however the chunks are stored.\<close>

definition index_ok :: "enclave \<Rightarrow> bytes set \<Rightarrow> InMemoryDatabase \<Rightarrow> bool" where
  "index_ok E S db \<longleftrightarrow> dom (indexObj db) = keyof E ` S \<and> (\<forall>m \<in> S. \<exists>a. addr_at E db (keyof E m) a)"

lemma db_inv_index: "db_inv E S w db \<Longrightarrow> index_ok E S db"
  unfolding db_inv_def index_ok_def chunk_at_def by blast

lemma index_dup:
  assumes "index_ok E S db" "inj_on (keyof E) (insert m S)"
  shows "indexObj db (keyof E m) \<noteq> None \<longleftrightarrow> m \<in> S"
proof -
  have "keyof E m \<in> keyof E ` S \<longleftrightarrow> m \<in> S" using assms(2) by (auto simp: inj_on_def)
  then show ?thesis using assms(1) unfolding index_ok_def by (auto simp: domIff)
qed

lemma index_length:
  assumes "index_ok E S db" "indexObj db k = Some v"
  shows "length v = RECIPE_ENTRY_SIZE"
proof -
  obtain m where m: "m \<in> S" "k = keyof E m" using assms unfolding index_ok_def by (metis domI imageE)
  then obtain a where "addr_at E db k a" using assms(1) unfolding index_ok_def by blast
  then have "AESCBCDec (ssl E) (indexQueryKey E) v = Inr (entry_image a)" "entry_wf a"
    using assms(2) by (auto simp: addr_at_def)
  with AESCBCDec_length [OF this(1)] show ?thesis by simp
qed

lemmas index_value = index_length [OF db_inv_index]

end
