(* ===== verification/FreqPhases.thy ===== *)
theory FreqPhases
  imports FreqSpec
begin

text \<open>
  The phases of \<open>ProcessOneBatch\<close> before the main loop: what hashing, the top-k index, the
  queries outside and the loading of base addresses leave in the entries of a batch.
\<close>

section \<open>Entries of a batch\<close>

text \<open>A batch is sent as one frame per chunk.\<close>

definition frame :: "bytes \<Rightarrow> bytes" where
  "frame m = le32 (word_of_nat (length m)) @ m"

definition frames :: "bytes list \<Rightarrow> bytes" where
  "frames ms = concat (map frame ms)"

definition chunk_ok :: "bytes \<Rightarrow> bool" where
  "chunk_ok m \<longleftrightarrow> m \<noteq> [] \<and> length m \<le> MAX_CHUNK_SIZE"

definition sane :: "RecipeEntry \<Rightarrow> bool" where
  "sane a \<longleftrightarrow> length (basechunkHash a) = CHUNK_HASH_SIZE \<and> length (superfeature a) = 3 * CHUNK_HASH_SIZE"

definition entry_for :: "enclave \<Rightarrow> bytes \<Rightarrow> InQueryEntry \<Rightarrow> bool" where
  "entry_for E m e \<longleftrightarrow> i_chunkHash e = hashfp E m \<and> i_chunkSize e = word_of_nat (length m) \<and> sane (i_chunkAddr e)"

lemma frames_simps [simp]: "frames [] = []" "frames (m # ms) = frame m @ frames ms" "frames (xs @ ys) = frames xs @ frames ys"
  by (simp_all add: frames_def)

lemma length_frame [simp]: "length (frame m) = 4 + length m"
  by (simp add: frame_def)

lemma chunk_size_word: "chunk_ok m \<Longrightarrow> unat (word_of_nat (length m) :: u32) = length m"
  by (simp add: chunk_ok_def unat_of_nat_small size_consts)

lemma length_frames: "\<forall>m \<in> set ms. chunk_ok m \<Longrightarrow> length (frames ms) \<le> length ms * (4 + MAX_CHUNK_SIZE)"
  by (induction ms) (auto simp: chunk_ok_def)

lemma entry_wf_sane: "entry_wf a \<Longrightarrow> sane a"
  by (simp add: entry_wf_def sane_def)

section \<open>Hashing and counting\<close>

lemma hash_entries_ok:
  assumes "evp_ok (ssl E)"
  shows "\<forall>m \<in> set ms. chunk_ok m \<Longrightarrow> length es = length ms \<Longrightarrow> recv = pre @ frames ms @ post \<Longrightarrow>
    hash_entries E recv (length pre) es =
      Inr (map2 (\<lambda>m e. e\<lparr>i_chunkSize := word_of_nat (length m), i_chunkHash := hashfp E m\<rparr>) ms es)"
proof (induction ms arbitrary: es pre)
  case (Cons m ms)
  obtain e es' where es: "es = e # es'" using Cons.prems(2) by (cases es) auto
  have sz: "unat (word_of_nat (length m) :: u32) = length m" using Cons.prems(1) by (intro chunk_size_word) simp
  have d: "drop (length pre) recv = frame m @ frames ms @ post" using Cons.prems(3) by simp
  then have r: "rd32 (drop (length pre) recv) = word_of_nat (length m)" by (simp add: frame_def)
  have "seg (length pre + 4) (length m) recv = m" using Cons.prems(3) by (simp add: seg_def frame_def)
  moreover have "hash_entries E recv (length (pre @ frame m)) es' =
      Inr (map2 (\<lambda>m e. e\<lparr>i_chunkSize := word_of_nat (length m), i_chunkHash := hashfp E m\<rparr>) ms es')"
    using Cons.prems es by (intro Cons.IH) auto
  moreover have "length pre + 4 + length m \<le> length recv" using Cons.prems(3) by simp
  ultimately show ?case using r sz hashfp_ok(1) [OF assms] by (simp add: es Let_def add.assoc)
qed simp

lemma count_entries_frame:
  "list_all2 (\<lambda>e e'. \<exists>f. e' = e\<lparr>i_chunkFreq := f\<rparr>) es (fst (count_entries s es))"
  by (induction es arbitrary: s) (simp_all add: Let_def case_prod_unfold, metis)

lemma receive_batch_ok:
  assumes "evp_ok (ssl E)" "SessionKeyDec (ssl E) (sessionKey E) dataBuffer = Inr (frames ms)" "\<forall>m \<in> set ms. chunk_ok m"
    "length ms \<le> length (inQueryBase st)" "length (frames ms) \<le> length (recvBuffer st)"
    "\<forall>e \<in> set (inQueryBase st). sane (i_chunkAddr e)"
  shows "\<exists>iq sk. receive_batch E dataBuffer (length ms) st =
      Inr (st\<lparr>recvBuffer := frames ms @ drop (length (frames ms)) (recvBuffer st), inQueryBase := iq, cmSketch := sk\<rparr>) \<and>
    length iq = length (inQueryBase st) \<and> list_all2 (entry_for E) ms (take (length ms) iq) \<and> (\<forall>e \<in> set iq. sane (i_chunkAddr e))"
proof -
  let ?n = "length ms" and ?recv = "frames ms @ drop (length (frames ms)) (recvBuffer st)"
  let ?es = "map2 (\<lambda>m e. e\<lparr>i_chunkSize := word_of_nat (length m), i_chunkHash := hashfp E m\<rparr>) ms (take ?n (inQueryBase st))"
  obtain es' sk where c: "count_entries (cmSketch st) ?es = (es', sk)" by force
  have l: "list_all2 (\<lambda>e e'. \<exists>f. e' = e\<lparr>i_chunkFreq := f\<rparr>) ?es es'" using count_entries_frame [of ?es "cmSketch st"] c by simp
  have "hash_entries E ?recv 0 (take ?n (inQueryBase st)) = Inr ?es"
    using hash_entries_ok [OF assms(1,3), of "take ?n (inQueryBase st)" ?recv "[]"] assms(4) by simp
  then have "receive_batch E dataBuffer ?n st = Inr (st\<lparr>recvBuffer := ?recv,
      inQueryBase := es' @ drop ?n (inQueryBase st), cmSketch := sk\<rparr>)"
    using assms(2,4,5) c by (simp add: receive_batch_def put_def Let_def)
  moreover have len: "length es' = ?n" using list_all2_lengthD [OF l] assms(4) by simp
  moreover have e: "list_all2 (entry_for E) ms es'"
  proof (rule list_all2_all_nthI)
    fix i
    assume i: "i < length ms"
    then have "take ?n (inQueryBase st) ! i \<in> set (inQueryBase st)" using assms(4) by simp
    then have "sane (i_chunkAddr (take ?n (inQueryBase st) ! i))" using assms(6) by blast
    with i list_all2_nthD [OF l, of i] assms(4) show "entry_for E (ms ! i) (es' ! i)" by (auto simp: entry_for_def)
  qed (simp add: len)
  moreover have "\<forall>e \<in> set (es' @ drop ?n (inQueryBase st)). sane (i_chunkAddr e)"
    using e assms(6) by (auto simp: list_all2_conv_all_nth in_set_conv_nth entry_for_def dest: in_set_dropD)
  ultimately show ?thesis using assms(4) by (intro exI [of _ "es' @ drop ?n (inQueryBase st)"] exI [of _ sk]) simp
qed

section \<open>The top-k index\<close>

definition main_flag :: "byte \<Rightarrow> bool" where
  "main_flag f \<longleftrightarrow> f = two_path_code UNIQUE \<or> f = two_path_code DUPLICATE"

definition tmp_flag :: "byte \<Rightarrow> bool" where
  "tmp_flag f \<longleftrightarrow> f = two_path_code TMP_UNIQUE \<or> f = two_path_code TMP_DUPLICATE"

lemma flag_simps [simp]: "main_flag (two_path_code UNIQUE)" "main_flag (two_path_code DUPLICATE)"
    "\<not> main_flag (two_path_code TMP_UNIQUE)" "\<not> main_flag (two_path_code TMP_DUPLICATE)"
    "tmp_flag (two_path_code TMP_UNIQUE)" "tmp_flag (two_path_code TMP_DUPLICATE)"
  by (simp_all add: main_flag_def tmp_flag_def)

definition tagged :: "InQueryEntry list \<Rightarrow> (byte \<times> fp) list" where
  "tagged es = map (\<lambda>e. (i_dedupFlag e, i_chunkHash e)) es"

lemma tagged_step:
  "i < length iq \<Longrightarrow> tagged (take (Suc i) (iq[i := e])) = tagged (take i iq) @ [(i_dedupFlag e, i_chunkHash e)]"
  by (simp add: tagged_def take_Suc_conv_app_nth)

lemma tagged_freq: "j < length es \<Longrightarrow> tagged (es[j := (es ! j)\<lparr>i_chunkFreq := f\<rparr>]) = tagged es"
  by (simp add: tagged_def list_eq_iff_nth_eq nth_list_update)

text \<open>What is known about the tags of the entries classified so far.\<close>

definition tags_ok :: "EntryHeap \<Rightarrow> (byte \<times> fp) list \<Rightarrow> bool" where
  "tags_ok h fs \<longleftrightarrow> distinct (map snd (filter (main_flag \<circ> fst) fs)) \<and>
     (\<forall>p \<in> set fs. main_flag (fst p) \<or> tmp_flag (fst p) \<and> (\<exists>q \<in> set fs. main_flag (fst q) \<and> snd q = snd p)) \<and>
     (\<forall>p \<in> set fs. fst p = two_path_code DUPLICATE \<longrightarrow> snd p \<in> dom (contents h))"

definition loc_ok :: "(byte \<times> fp) list \<Rightarrow> (fp \<rightharpoonup> nat) \<Rightarrow> bool" where
  "loc_ok fs loc \<longleftrightarrow> (\<forall>k j. loc k = Some j \<longrightarrow> j < length fs \<and> main_flag (fst (fs ! j)) \<and> snd (fs ! j) = k) \<and>
     (\<forall>p \<in> set fs. main_flag (fst p) \<longrightarrow> loc (snd p) \<noteq> None)"

definition keys_of :: "enclave \<Rightarrow> (byte \<times> fp) list \<Rightarrow> fp list" where
  "keys_of E fs = map (\<lambda>p. fpkey E (snd p)) (filter (\<lambda>p. fst p = two_path_code UNIQUE) fs)"

lemma tags_dup:
  assumes "tags_ok h fs" "loc_ok fs loc" "loc k = Some j" "tmp_flag f"
  shows "tags_ok h (fs @ [(f, k)])" "loc_ok (fs @ [(f, k)]) loc" "keys_of E (fs @ [(f, k)]) = keys_of E fs"
proof -
  have f: "\<not> main_flag f" "f \<noteq> two_path_code UNIQUE" "f \<noteq> two_path_code DUPLICATE" using assms(4) by (auto simp: tmp_flag_def)
  have j: "fs ! j \<in> set fs" "main_flag (fst (fs ! j))" "snd (fs ! j) = k" using assms(2,3) by (auto simp: loc_ok_def)
  then have "\<exists>q \<in> set fs. main_flag (fst q) \<and> snd q = k" by blast
  with assms(1,4) f show "tags_ok h (fs @ [(f, k)])" unfolding tags_ok_def by auto
  show "loc_ok (fs @ [(f, k)]) loc" using assms(2) f unfolding loc_ok_def by (auto simp: nth_append less_Suc_eq)
  show "keys_of E (fs @ [(f, k)]) = keys_of E fs" using f by (simp add: keys_of_def)
qed

lemma tags_new:
  assumes "tags_ok h fs" "loc_ok fs loc" "loc k = None" "main_flag f" "f = two_path_code DUPLICATE \<Longrightarrow> k \<in> dom (contents h)"
  shows "tags_ok h (fs @ [(f, k)])" "loc_ok (fs @ [(f, k)]) (loc(k \<mapsto> length fs))"
proof -
  have "k \<notin> snd ` set (filter (main_flag \<circ> fst) fs)" using assms(2,3) by (auto simp: loc_ok_def)
  with assms(1,4,5) show "tags_ok h (fs @ [(f, k)])" unfolding tags_ok_def by auto
  show "loc_ok (fs @ [(f, k)]) (loc(k \<mapsto> length fs))"
    using assms(2,4) unfolding loc_ok_def by (auto simp: nth_append less_SucI split: if_splits)
qed

text \<open>The state of the loop after \<open>i\<close> chunks.\<close>

definition topk_inv :: "enclave \<Rightarrow> EntryHeap \<Rightarrow> bytes list \<Rightarrow> nat \<Rightarrow> nat \<Rightarrow> topk_st \<Rightarrow> bool" where
  "topk_inv E h ms N i s \<longleftrightarrow> (case s of (iq, oq, num, loc) \<Rightarrow>
     length iq = N \<and> length oq = N \<and> (\<forall>e \<in> set iq. sane (i_chunkAddr e)) \<and>
     (\<forall>x \<in> set oq. length (o_chunkAddr x) = RECIPE_ENTRY_SIZE) \<and> list_all2 (entry_for E) ms (take (length ms) iq) \<and>
     num \<le> i \<and> map o_chunkHash (take num oq) = keys_of E (tagged (take i iq)) \<and>
     tags_ok h (tagged (take i iq)) \<and> loc_ok (tagged (take i iq)) loc)"

lemma entry_for_update:
  assumes "list_all2 P ms (take n iq)" "j < length ms \<Longrightarrow> P (ms ! j) (iq ! j) \<Longrightarrow> P (ms ! j) e"
  shows "list_all2 P ms (take n (iq[j := e]))"
proof (rule list_all2_all_nthI)
  fix i
  assume i: "i < length ms"
  then have "P (ms ! i) (iq ! i)" using assms(1) by (auto simp: list_all2_conv_all_nth)
  with i assms show "P (ms ! i) (take n (iq[j := e]) ! i)"
    by (cases "i = j") (auto simp: list_all2_conv_all_nth)
qed (use assms(1) in \<open>simp add: list_all2_conv_all_nth\<close>)

lemma sane_update: "\<forall>e \<in> set iq. sane (i_chunkAddr e) \<Longrightarrow> sane (i_chunkAddr e') \<Longrightarrow> \<forall>e \<in> set (iq[j := e']). sane (i_chunkAddr e)"
  using set_update_subset_insert [of iq j e'] by auto

lemma sane_offset [simp]: "sane (a\<lparr>addr_offset := x\<rparr>) = sane a"
  by (simp add: sane_def)

definition heap_sane :: "EntryHeap \<Rightarrow> bool" where
  "heap_sane h \<longleftrightarrow> (\<forall>k a f. contents h k = Some (a, f) \<longrightarrow> sane a)"

lemma heap_address:
  "Contains h key \<Longrightarrow> \<exists>f. contents h key = Some (address (snd (GetPriority h key)), f)"
  by (auto simp: Contains_def contents_def GetPriority_def index_get_def Let_def split: option.splits)

lemma to_out_query_ok:
  assumes "evp_ok (ssl E)" "topk_inv E h ms N i (iq, oq, num, loc)" "i < length ms" "length ms \<le> N" "loc (i_chunkHash (iq ! i)) = None"
  shows "\<exists>s'. to_out_query E i (iq, oq, num, loc) = Inr s' \<and> topk_inv E h ms N (Suc i) s'"
proof -
  let ?e = "iq ! i" and ?k = "i_chunkHash (iq ! i)" and ?fs = "tagged (take i iq)"
  let ?e' = "?e\<lparr>i_dedupFlag := two_path_code UNIQUE, i_chunkAddr := (i_chunkAddr ?e)\<lparr>addr_offset := word_of_nat num\<rparr>\<rparr>"
  note t = assms(2) [unfolded topk_inv_def split]
  have iN: "i < length iq" "num < length oq" "length ?fs = i" using t assms(3,4) by (auto simp: tagged_def)
  have "entry_for E (ms ! i) ?e" using t assms(3) by (auto simp: list_all2_conv_all_nth)
  then have "length ?k = CHUNK_HASH_SIZE" using hashfp_ok [OF assms(1)] by (simp add: entry_for_def)
  note k = fpkey_ok [OF assms(1) this]
  let ?oq = "oq[num := (oq ! num)\<lparr>o_chunkHash := fpkey E ?k\<rparr>]"
  have "to_out_query E i (iq, oq, num, loc) = Inr (iq[i := ?e'], ?oq, Suc num, loc(?k \<mapsto> i))"
    using iN k(1) by (simp add: to_out_query_def Let_def)
  moreover have "map o_chunkHash (take (Suc num) ?oq) = keys_of E (?fs @ [(two_path_code UNIQUE, ?k)])"
    using t iN by (simp add: take_Suc_conv_app_nth keys_of_def)
  moreover have "list_all2 (entry_for E) ms (take (length ms) (iq[i := ?e']))"
    using t by (intro entry_for_update) (auto simp: entry_for_def)
  moreover have "\<forall>x \<in> set ?oq. length (o_chunkAddr x) = RECIPE_ENTRY_SIZE"
    using t iN set_update_subset_insert [of oq num "(oq ! num)\<lparr>o_chunkHash := fpkey E ?k\<rparr>"] by fastforce
  moreover have "\<forall>e \<in> set (iq[i := ?e']). sane (i_chunkAddr e)" using t iN by (intro sane_update) auto
  moreover note tags_new [of h ?fs loc ?k "two_path_code UNIQUE"]
  ultimately show ?thesis using t iN assms(5) by (simp add: topk_inv_def tagged_step)
qed

lemma topk_step_ok:
  assumes "evp_ok (ssl E)" "topk_inv E h ms N i s" "i < length ms" "length ms \<le> N"
    "heap_sane h"
  shows "\<exists>s'. topk_step E h minFreq i s = Inr s' \<and> topk_inv E h ms N (Suc i) s'"
proof -
  obtain iq oq num loc where s: "s = (iq, oq, num, loc)" by (cases s)
  let ?e = "iq ! i" and ?k = "i_chunkHash (iq ! i)" and ?fs = "tagged (take i iq)"
  note t = assms(2) [unfolded s topk_inv_def split]
  have iN: "i < length iq" "length ?fs = i" using t assms(3,4) by (auto simp: tagged_def)
  consider (dup) j where "loc ?k = Some j" | (out) "loc ?k = None" "i_chunkFreq ?e < minFreq \<or> \<not> Contains h ?k"
    | (heap) "loc ?k = None" "\<not> i_chunkFreq ?e < minFreq" "Contains h ?k"
    by (cases "loc ?k") auto
  then show ?thesis
  proof cases
    case (dup j)
    then have j: "j < length ?fs" "main_flag (fst (?fs ! j))" using t unfolding loc_ok_def by blast+
    then have j: "j < i" "main_flag (i_dedupFlag (iq ! j))" using iN by (simp_all add: tagged_def)
    define f where "f = (if i_dedupFlag (iq ! j) = two_path_code UNIQUE then TMP_UNIQUE else TMP_DUPLICATE)"
    let ?e' = "?e\<lparr>i_dedupFlag := two_path_code f, i_chunkAddr := (i_chunkAddr ?e)\<lparr>addr_offset := word_of_nat j\<rparr>\<rparr>"
    let ?iq = "iq[i := ?e']"
    let ?iq' = "?iq[j := (?iq ! j)\<lparr>i_chunkFreq := i_chunkFreq ?e\<rparr>]"
    have f: "tmp_flag (two_path_code f)" by (simp add: f_def)
    have step: "topk_step E h minFreq i s = Inr (?iq', oq, num, loc)"
      using dup j(1) j(2) iN by (auto simp: s topk_step_def local_duplicate_def f_def main_flag_def Let_def)
    have tag: "tagged (take (Suc i) ?iq') = ?fs @ [(two_path_code f, ?k)]"
      using tagged_freq [of j "take (Suc i) ?iq" "i_chunkFreq ?e"] tagged_step [of i iq ?e'] iN j(1)
      by (simp add: take_update_swap)
    have "list_all2 (entry_for E) ms (take (length ms) ?iq)" using t by (intro entry_for_update) (auto simp: entry_for_def)
    then have all: "list_all2 (entry_for E) ms (take (length ms) ?iq')" by (rule entry_for_update) (auto simp: entry_for_def)
    have sn: "\<forall>e \<in> set ?iq. sane (i_chunkAddr e)" using t iN by (intro sane_update) auto
    then have "\<forall>e \<in> set ?iq'. sane (i_chunkAddr e)" using iN j(1) t by (intro sane_update [of ?iq]) simp_all
    then show ?thesis
      using step tag all t tags_dup [of h ?fs loc ?k j "two_path_code f"] dup f by (simp add: topk_inv_def)
  next
    case out
    with to_out_query_ok [OF assms(1) assms(2) [unfolded s] assms(3,4)] show ?thesis
      by (auto simp: s topk_step_def Let_def)
  next
    case heap
    let ?a = "address (snd (GetPriority h ?k))"
    let ?e' = "?e\<lparr>i_dedupFlag := two_path_code DUPLICATE, i_chunkAddr := ?a\<rparr>"
    have a: "sane ?a" "?k \<in> dom (contents h)" using heap_address [OF heap(3)] assms(5) unfolding heap_sane_def by blast+
    have "topk_step E h minFreq i s = Inr (iq[i := ?e'], oq, num, loc(?k \<mapsto> i))"
      using heap by (simp add: s topk_step_def Let_def)
    moreover have "list_all2 (entry_for E) ms (take (length ms) (iq[i := ?e']))"
      using t a by (intro entry_for_update) (auto simp: entry_for_def)
    moreover have "\<forall>e \<in> set (iq[i := ?e']). sane (i_chunkAddr e)" using t a by (intro sane_update) auto
    moreover have "keys_of E (?fs @ [(two_path_code DUPLICATE, ?k)]) = keys_of E ?fs" by (simp add: keys_of_def)
    moreover note tags_new [of h ?fs loc ?k "two_path_code DUPLICATE"]
    ultimately show ?thesis using t iN heap(1) a by (simp add: topk_inv_def tagged_step)
  qed
qed

lemma topk_loop:
  assumes "evp_ok (ssl E)" "topk_inv E h ms N 0 s" "length ms \<le> N" "heap_sane h"
  shows "i \<le> length ms \<Longrightarrow> \<exists>s'. foldE (topk_step E h minFreq) [0..<i] s = Inr s' \<and> topk_inv E h ms N i s'"
proof (induction i)
  case (Suc i)
  then obtain s' where s': "foldE (topk_step E h minFreq) [0..<i] s = Inr s'" "topk_inv E h ms N i s'" by auto
  from topk_step_ok [OF assms(1) s'(2) _ assms(3,4), where minFreq = minFreq] Suc.prems s'(1) show ?case by (auto simp: foldE_append)
qed (use assms(2) in auto)

section \<open>The classified batch\<close>

definition batch_entry :: "enclave \<Rightarrow> bytes \<Rightarrow> InQueryEntry \<Rightarrow> bool" where
  "batch_entry E m e \<longleftrightarrow> entry_for E m e \<and> (main_flag (i_dedupFlag e) \<or> tmp_flag (i_dedupFlag e))"

text \<open>The chunks that are asked outside.\<close>

definition news :: "bytes list \<Rightarrow> InQueryEntry list \<Rightarrow> bytes list" where
  "news ms es = map fst (filter (\<lambda>p. i_dedupFlag (snd p) = two_path_code UNIQUE) (zip ms es))"

text \<open>The entries inside and the query entries outside, which are taken one by one for the unique entries inside.\<close>

fun paired :: "enclave \<Rightarrow> (bytes \<Rightarrow> InQueryEntry \<Rightarrow> OutQueryEntry \<Rightarrow> bool) \<Rightarrow> bytes list \<Rightarrow> InQueryEntry list \<Rightarrow> OutQueryEntry list \<Rightarrow> bool" where
  "paired E P [] [] oq \<longleftrightarrow> True"
| "paired E P (m # ms) (e # es) oq \<longleftrightarrow> batch_entry E m e \<and>
    (if i_dedupFlag e = two_path_code UNIQUE
     then (case oq of [] \<Rightarrow> False | x # xs \<Rightarrow> P m e x \<and> paired E P ms es xs) else paired E P ms es oq)"
| "paired E P ms es oq \<longleftrightarrow> False"

lemma news_simps [simp]: "news [] es = []"
  "news (m # ms) (e # es) = (if i_dedupFlag e = two_path_code UNIQUE then m # news ms es else news ms es)"
  by (simp_all add: news_def)

lemma keys_news: "list_all2 (entry_for E) ms es \<Longrightarrow> keys_of E (tagged es) = map (keyof E) (news ms es)"
  by (induction rule: list_all2_induct) (auto simp: keys_of_def tagged_def entry_for_def keyof_def news_def)

lemma paired_intro:
  assumes "list_all2 (batch_entry E) ms es" "map o_chunkHash (take (length (news ms es)) oq) = map (keyof E) (news ms es)"
    "\<forall>x \<in> set oq. L x"
  shows "paired E (\<lambda>m e x. o_chunkHash x = keyof E m \<and> L x) ms es oq"
  using assms
proof (induction arbitrary: oq rule: list_all2_induct)
  case (Cons m ms e es)
  then show ?case by (cases oq) (auto simp: news_def)
qed simp

lemma paired_entries: "paired E P ms es oq \<Longrightarrow> list_all2 (batch_entry E) ms es"
  by (induction E P ms es oq rule: paired.induct) (auto split: if_splits list.splits)

lemma paired_news: "paired E P ms es oq \<Longrightarrow> length (news ms es) \<le> length oq"
  by (induction E P ms es oq rule: paired.induct) (auto split: if_splits list.splits)

lemma first_entries_Cons: "first_entries n f (x # xs) = (if n = 0 then x # xs else f x # first_entries (n - 1) f xs)"
  by (cases n) (simp_all add: first_entries_def)

lemma paired_first:
  "paired E P ms es oq \<Longrightarrow> length (news ms es) \<le> q \<Longrightarrow> (\<And>m e x. m \<in> set ms \<Longrightarrow> P m e x \<Longrightarrow> Q m e (f x)) \<Longrightarrow>
    paired E Q ms es (first_entries q f oq)"
proof (induction E P ms es oq arbitrary: q rule: paired.induct)
  case (2 E P m ms e es oq)
  show ?case
  proof (cases "i_dedupFlag e = two_path_code UNIQUE")
    case True
    with 2 obtain x xs where oq: "oq = x # xs" by (auto split: list.splits)
    with True 2 show ?thesis by (auto simp: first_entries_Cons)
  next
    case False
    with 2 show ?thesis by simp
  qed
qed simp_all

lemma first_entries_all:
  "\<forall>x \<in> set oq. L x \<Longrightarrow> (\<And>x. L x \<Longrightarrow> L (f x)) \<Longrightarrow> \<forall>x \<in> set (first_entries q f oq). L x"
  by (auto simp: first_entries_def dest: in_set_takeD in_set_dropD)

lemma tags_news:
  assumes "evp_ok (ssl E)" "tags_ok h (tagged es)" "list_all2 (entry_for E) ms es" "dom (contents h) \<subseteq> hashfp E ` S"
    "inj_on (hashfp E) (S \<union> set ms)"
  shows "distinct (news ms es)" "set ms \<subseteq> S \<union> set (news ms es)"
proof -
  let ?fs = "tagged es" and ?u = "\<lambda>p :: byte \<times> fp. fst p = two_path_code UNIQUE"
  have snds: "map snd (filter ?u ?fs) = map (hashfp E) (news ms es)"
    using assms(3) by (induction rule: list_all2_induct) (auto simp: tagged_def entry_for_def news_def)
  have "distinct (map snd (filter (main_flag \<circ> fst) ?fs))" using assms(2) by (simp add: tags_ok_def)
  then have "distinct (map snd (filter ?u (filter (main_flag \<circ> fst) ?fs)))" by (rule distinct_map_filter)
  moreover have "filter ?u (filter (main_flag \<circ> fst) ?fs) = filter ?u ?fs"
    unfolding filter_filter by (rule filter_cong) (auto simp: main_flag_def)
  ultimately have "distinct (map snd (filter ?u ?fs))" by simp
  then show "distinct (news ms es)" unfolding snds by (simp add: distinct_map)
  have idx: "length es = length ms" "\<And>j. j < length ms \<Longrightarrow> i_chunkHash (es ! j) = hashfp E (ms ! j)"
    using assms(3) by (auto simp: list_all2_conv_all_nth entry_for_def)
  have main: "ms ! j \<in> S \<union> set (news ms es)" if "j < length ms" "main_flag (i_dedupFlag (es ! j))" for j
  proof (cases "i_dedupFlag (es ! j) = two_path_code UNIQUE")
    case True
    have "(ms ! j, es ! j) \<in> set (zip ms es)" using that(1) idx(1) by (auto simp: set_zip)
    with True show ?thesis by (force simp: news_def)
  next
    case False
    then have dup: "i_dedupFlag (es ! j) = two_path_code DUPLICATE" using that(2) by (simp add: main_flag_def)
    have "?fs ! j \<in> set ?fs" using that(1) idx(1) by (intro nth_mem) (simp add: tagged_def)
    moreover have "fst (?fs ! j) = two_path_code DUPLICATE" "snd (?fs ! j) = hashfp E (ms ! j)"
      using dup that(1) idx by (auto simp: tagged_def)
    ultimately have "hashfp E (ms ! j) \<in> dom (contents h)" using assms(2) by (auto simp: tags_ok_def)
    then obtain m where "m \<in> S" "hashfp E m = hashfp E (ms ! j)" using assms(4) by auto
    then show ?thesis using assms(5) that(1) by (metis UnI1 UnI2 inj_onD nth_mem)
  qed
  show "set ms \<subseteq> S \<union> set (news ms es)"
  proof
    fix m
    assume "m \<in> set ms"
    then obtain j where j: "j < length ms" "m = ms ! j" by (auto simp: in_set_conv_nth)
    show "m \<in> S \<union> set (news ms es)"
    proof (cases "main_flag (i_dedupFlag (es ! j))")
      case True
      with main j show ?thesis by blast
    next
      case False
      have "?fs ! j \<in> set ?fs" using j(1) idx(1) by (intro nth_mem) (simp add: tagged_def)
      moreover have "\<not> main_flag (fst (?fs ! j))" "snd (?fs ! j) = hashfp E m" using False j idx by (auto simp: tagged_def)
      ultimately obtain q where "q \<in> set ?fs" "main_flag (fst q)" "snd q = hashfp E m" using assms(2) by (fastforce simp: tags_ok_def)
      then obtain l where l: "l < length ms" "main_flag (i_dedupFlag (es ! l))" "hashfp E (ms ! l) = hashfp E m"
        using idx by (auto simp: tagged_def in_set_conv_nth)
      then have "ms ! l = m" using assms(5) j by (metis UnI2 inj_onD nth_mem)
      with main [OF l(1,2)] show ?thesis by simp
    qed
  qed
qed

lemma batch_entries:
  "list_all2 (entry_for E) ms es \<Longrightarrow> \<forall>e \<in> set es. main_flag (i_dedupFlag e) \<or> tmp_flag (i_dedupFlag e) \<Longrightarrow>
    list_all2 (batch_entry E) ms es"
  by (induction rule: list_all2_induct) (auto simp: batch_entry_def)

lemma min_freq_ok: "2 \<le> topK \<Longrightarrow> \<exists>f. min_freq topK h = Some f"
  by (cases "Size h = topK") (auto simp: min_freq_def TopEntry_def Size_def)

lemma check_topk_ok:
  assumes "evp_ok (ssl E)" "heap_sane (insideDedupIndex st)" "2 \<le> topThreshold E" "localIndex st = Map.empty"
    "length (inQueryBase st) = N" "length (outQueryBase st) = N" "length ms \<le> N"
    "\<forall>e \<in> set (inQueryBase st). sane (i_chunkAddr e)" "\<forall>x \<in> set (outQueryBase st). length (o_chunkAddr x) = RECIPE_ENTRY_SIZE"
    "list_all2 (entry_for E) ms (take (length ms) (inQueryBase st))"
    "dom (contents (insideDedupIndex st)) \<subseteq> hashfp E ` S" "inj_on (hashfp E) (S \<union> set ms)"
  shows "\<exists>num iq oq loc. check_topk E (length ms) st = Inr (num, st\<lparr>inQueryBase := iq, outQueryBase := oq, localIndex := loc\<rparr>) \<and>
    length iq = N \<and> length oq = N \<and> (\<forall>e \<in> set iq. sane (i_chunkAddr e)) \<and>
    (\<forall>x \<in> set oq. length (o_chunkAddr x) = RECIPE_ENTRY_SIZE) \<and> num = length (news ms (take (length ms) iq)) \<and>
    paired E (\<lambda>m e x. o_chunkHash x = keyof E m \<and> length (o_chunkAddr x) = RECIPE_ENTRY_SIZE) ms (take (length ms) iq) oq \<and>
    distinct (news ms (take (length ms) iq)) \<and> set ms \<subseteq> S \<union> set (news ms (take (length ms) iq))"
proof -
  let ?h = "insideDedupIndex st"
  obtain f where f: "min_freq (topThreshold E) ?h = Some f"
    using min_freq_ok [OF assms(3)] by blast
  have "topk_inv E ?h ms N 0 (inQueryBase st, outQueryBase st, 0, localIndex st)"
    using assms(4-10) by (simp add: topk_inv_def keys_of_def tagged_def tags_ok_def loc_ok_def)
  from topk_loop [OF assms(1) this assms(7,2), of "length ms" f] obtain s where
      s: "foldE (topk_step E ?h f) [0..<length ms] (inQueryBase st, outQueryBase st, 0, localIndex st) = Inr s"
        "topk_inv E ?h ms N (length ms) s" by auto
  obtain iq oq num loc where p: "s = (iq, oq, num, loc)" by (cases s)
  let ?es = "take (length ms) iq"
  note t = s(2) [unfolded p topk_inv_def split]
  note k = keys_news [of E ms ?es]
  have num: "num = length (news ms ?es)" using t k assms(7) by (metis length_map length_take min.absorb2 order_trans)
  have "list_all2 (batch_entry E) ms ?es"
    using t by (intro batch_entries) (auto simp: tags_ok_def tagged_def)
  from paired_intro [OF this, of oq "\<lambda>x. length (o_chunkAddr x) = RECIPE_ENTRY_SIZE"] t k num
  have "paired E (\<lambda>m e x. o_chunkHash x = keyof E m \<and> length (o_chunkAddr x) = RECIPE_ENTRY_SIZE) ms ?es oq" by simp
  moreover have "check_topk E (length ms) st = Inr (num, st\<lparr>inQueryBase := iq, outQueryBase := oq, localIndex := loc\<rparr>)"
    using f s(1) by (simp add: check_topk_def p)
  moreover note tags_news [OF assms(1) _ _ assms(11,12)]
  ultimately show ?thesis using t num by blast
qed

end
