(* ===== verification/FreqSimilar.thy ===== *)
theory FreqSimilar
  imports FreqPhases
begin

text \<open>
  The phases of \<open>ProcessOneBatch\<close> that talk to the index outside: the query of fingerprints,
  super-features, the query of similar base chunks, and the loading of base addresses
  (\<open>LocalChecker\<close>). At the end every unique chunk of the batch is known to be a duplicate, a
  chunk without similar base, or a chunk with the address of a stored base.
\<close>

section \<open>What an answered query says\<close>

definition asked ::
  "enclave \<Rightarrow> bytes set \<Rightarrow> InMemoryDatabase \<Rightarrow> (bytes \<Rightarrow> InQueryEntry \<Rightarrow> OutQueryEntry \<Rightarrow> bool) \<Rightarrow>
    bytes \<Rightarrow> InQueryEntry \<Rightarrow> OutQueryEntry \<Rightarrow> bool" where
  "asked E S db D m e x \<longleftrightarrow> o_chunkHash x = keyof E m \<and> length (o_chunkAddr x) = RECIPE_ENTRY_SIZE \<and>
    (if m \<in> S then o_dedupFlag x = two_path_code DUPLICATE \<and> indexObj db (keyof E m) = Some (o_chunkAddr x)
     else o_dedupFlag x = two_path_code UNIQUE \<and> D m e x)"

lemma query_entry_ok:
  assumes "evp_ok (ssl E)" "index_ok E S db" "inj_on (hashfp E) (insert m S)"
    "o_chunkHash x = keyof E m" "length (o_chunkAddr x) = RECIPE_ENTRY_SIZE"
  shows "asked E S db (\<lambda>m e x. True) m e (query_entry db x)"
proof -
  have q: "QueryBuffer (o_chunkHash x) CHUNK_HASH_SIZE db = indexObj db (keyof E m)"
    using assms(4) by (simp add: QueryBuffer_key length_keyof [OF assms(1)])
  note dup = index_dup [OF assms(2) keyof_inj [OF assms(1,3)]]
  show ?thesis
  proof (cases "indexObj db (keyof E m)")
    case None
    with dup q assms(4,5) show ?thesis by (simp add: asked_def query_entry_def)
  next
    case (Some v)
    with dup q assms(4) index_length [OF assms(2) Some] show ?thesis by (simp add: asked_def query_entry_def)
  qed
qed

lemma query_entry_length:
  assumes "index_ok E S db" "length (o_chunkAddr x) = RECIPE_ENTRY_SIZE"
  shows "length (o_chunkAddr (query_entry db x)) = RECIPE_ENTRY_SIZE"
  using assms index_length [OF assms(1)] by (auto simp: query_entry_def QueryBuffer_def split: option.splits)

lemma queried_ok:
  assumes "evp_ok (ssl E)" "index_ok E S db" "inj_on (hashfp E) (S \<union> set ms)"
    "\<forall>x \<in> set oq. length (o_chunkAddr x) = RECIPE_ENTRY_SIZE"
    "paired E (\<lambda>m e x. o_chunkHash x = keyof E m \<and> length (o_chunkAddr x) = RECIPE_ENTRY_SIZE) ms es oq" "num = length (news ms es)"
  shows "paired E (asked E S db (\<lambda>m e x. True)) ms es (Ocall_QueryOutIndex db num oq)"
    "\<forall>x \<in> set (Ocall_QueryOutIndex db num oq). length (o_chunkAddr x) = RECIPE_ENTRY_SIZE"
proof -
  have "asked E S db (\<lambda>m e x. True) m e (query_entry db x)"
    if "m \<in> set ms" "o_chunkHash x = keyof E m \<and> length (o_chunkAddr x) = RECIPE_ENTRY_SIZE" for m e x
    using that inj_on_subset [OF assms(3)] by (intro query_entry_ok [OF assms(1,2)]) auto
  with assms(6) show "paired E (asked E S db (\<lambda>m e x. True)) ms es (Ocall_QueryOutIndex db num oq)"
    unfolding Ocall_QueryOutIndex_def by (intro paired_first [OF assms(5)]) auto
  show "\<forall>x \<in> set (Ocall_QueryOutIndex db num oq). length (o_chunkAddr x) = RECIPE_ENTRY_SIZE"
    unfolding Ocall_QueryOutIndex_def by (rule first_entries_all [OF assms(4) query_entry_length [OF assms(2)]])
qed

section \<open>Super-features\<close>

lemma chunk_sf:
  assumes "evp_ok X" "chunk_ok m" "4 + MAX_CHUNK_SIZE \<le> length (frame m @ rest)"
  shows "getSF2 X (m @ rest) (length m) = Inr (sf_of X m)" "length (sf_of X m) = 3 * CHUNK_HASH_SIZE"
proof -
  have "12 * WINDOW_SIZE \<le> length m \<or> WINDOW_SIZE \<le> length rest"
    using assms(2,3) by (simp add: chunk_ok_def WINDOW_SIZE_def size_consts) linarith
  from getSF2_ok [OF assms(1) this] show "getSF2 X (m @ rest) (length m) = Inr (sf_of X m)" "length (sf_of X m) = 3 * CHUNK_HASH_SIZE"
    by simp_all
qed

lemma sf_entries_ok:
  assumes "evp_ok (ssl E)"
  shows "paired E (asked E S db (\<lambda>m e x. True)) ms es oq \<Longrightarrow> \<forall>m \<in> set ms. chunk_ok m \<Longrightarrow> recv = pre @ frames ms @ post \<Longrightarrow>
    length ms * (4 + MAX_CHUNK_SIZE) \<le> length (frames ms @ post) \<Longrightarrow>
    \<exists>es'. sf_entries (ssl E) recv (length pre) es oq = Inr es' \<and> news ms es' = news ms es \<and>
      paired E (asked E S db (\<lambda>m e x. i_superfeature e = sf_of (ssl E) m)) ms es' oq"
proof (induction ms arbitrary: es oq pre)
  case Nil
  then show ?case by (cases es) auto
next
  case (Cons m ms)
  let ?P = "\<lambda>m e x. True" and ?Q = "\<lambda>m e x. i_superfeature e = sf_of (ssl E) m"
  obtain e es1 where es: "es = e # es1" using Cons.prems(1) by (cases es) auto
  have be: "batch_entry E m e" using Cons.prems(1) es by simp
  then have sz: "unat (i_chunkSize e) = length m"
    using Cons.prems(2) by (simp add: batch_entry_def entry_for_def chunk_size_word)
  have rest: "recv = (pre @ frame m) @ frames ms @ post" "\<forall>m \<in> set ms. chunk_ok m" "length m \<le> MAX_CHUNK_SIZE"
    using Cons.prems(2,3) by (auto simp: chunk_ok_def)
  have room: "length ms * (4 + MAX_CHUNK_SIZE) \<le> length (frames ms @ post)" using Cons.prems(4) rest(3) by simp
  have nxt: "length pre + 4 + unat (i_chunkSize e) = length (pre @ frame m)" using sz by simp
  show ?case
  proof (cases "i_dedupFlag e = two_path_code UNIQUE")
    case False
    then have "paired E (asked E S db ?P) ms es1 oq" using Cons.prems(1) es by simp
    from Cons.IH [OF this rest(2,1) room] obtain es' where "sf_entries (ssl E) recv (length (pre @ frame m)) es1 oq = Inr es'"
        "news ms es' = news ms es1" "paired E (asked E S db ?Q) ms es' oq" by blast
    with False be show ?thesis by (simp add: es nxt Let_def del: length_append)
  next
    case True
    then obtain x xs where oq: "oq = x # xs" "asked E S db ?P m e x" "paired E (asked E S db ?P) ms es1 xs"
      using Cons.prems(1) es by (auto split: list.splits)
    from Cons.IH [OF oq(3) rest(2,1) room] obtain es' where es': "sf_entries (ssl E) recv (length (pre @ frame m)) es1 xs = Inr es'"
        "news ms es' = news ms es1" "paired E (asked E S db ?Q) ms es' xs" by blast
    have "drop (length pre + 4) recv = m @ frames ms @ post" using rest(1) by (simp add: frame_def)
    moreover have "4 + MAX_CHUNK_SIZE \<le> length (frame m @ frames ms @ post)" using Cons.prems(4) by simp
    ultimately have sf: "getSF2 (ssl E) (drop (length pre + 4) recv) (unat (i_chunkSize e)) = Inr (sf_of (ssl E) m)"
      using chunk_sf [OF assms, of m "frames ms @ post"] Cons.prems(2) sz by simp
    show ?thesis
    proof (cases "m \<in> S")
      case dup: True
      then have "o_dedupFlag x \<noteq> two_path_code UNIQUE" "asked E S db ?Q m e x" using oq(2) by (simp_all add: asked_def)
      with True es' be oq(1) show ?thesis by (simp add: es nxt Let_def del: length_append)
    next
      case new: False
      let ?e = "e\<lparr>i_superfeature := sf_of (ssl E) m\<rparr>"
      have "batch_entry E m ?e" using be by (simp add: batch_entry_def entry_for_def)
      moreover have "o_dedupFlag x = two_path_code UNIQUE" "asked E S db ?Q m ?e x" using new oq(2) by (simp_all add: asked_def)
      ultimately show ?thesis using True es' oq(1) sf by (simp add: es nxt Let_def del: length_append)
    qed
  qed
qed

definition fresh_query :: "enclave \<Rightarrow> bytes \<Rightarrow> InQueryEntry \<Rightarrow> OutQueryEntry \<Rightarrow> bool" where
  "fresh_query E m e x \<longleftrightarrow> i_superfeature e = sf_of (ssl E) m \<and> o_superfeature x = sf_of (ssl E) m \<and> o_offlineFlag x = 0 \<and>
     o_deltaFlag x = delta_code NO_DELTA"

lemma OutEntrySFGet_ok:
  "paired E (asked E S db (\<lambda>m e x. i_superfeature e = sf_of (ssl E) m)) ms es oq \<Longrightarrow>
    paired E (asked E S db (fresh_query E)) ms es (OutEntrySFGet es oq)"
  by (induction E "asked E S db (\<lambda>m e x. i_superfeature e = sf_of (ssl E) m)" ms es oq rule: paired.induct)
    (auto simp: asked_def fresh_query_def split: list.splits if_splits)

lemma OutEntrySFGet_frame:
  "length (OutEntrySFGet es oq) = length oq" "\<forall>x \<in> set oq. length (o_chunkAddr x) = n \<Longrightarrow> \<forall>x \<in> set (OutEntrySFGet es oq). length (o_chunkAddr x) = n"
  by (induction es oq rule: OutEntrySFGet.induct) (auto split: list.splits)

section \<open>Similar chunks\<close>

text \<open>The field of an address in bytes.\<close>

lemma addr_base_set:
  assumes "length a = RECIPE_ENTRY_SIZE" "length h = CHUNK_HASH_SIZE"
  shows "addr_base (set_addr_base a h) = h" "length (set_addr_base a h) = RECIPE_ENTRY_SIZE"
  using assms by (simp_all add: addr_base_def set_addr_base_def buf_simps RECIPE_ENTRY_SIZE_def CHUNK_HASH_SIZE_def)

lemma QuerySF_base:
  assumes "db_inv E S w db"
  shows "\<exists>r. QuerySF key db = Inr r \<and> (\<forall>v. r = Some v \<longrightarrow> (\<exists>m \<in> S. v = keyof E m \<and> base_at E w db m))"
proof -
  have "sf_wf db" using assms by (simp add: db_inv_def)
  from query_sf_ok [OF this, of "[0..<3]" key] obtain r where r: "QuerySF key db = Inr r"
      "\<forall>v. r = Some v \<longrightarrow> (\<exists>i \<in> set [0..<3]. \<exists>vs. sfObj db i (seg (i * CHUNK_HASH_SIZE) CHUNK_HASH_SIZE key) = Some (v # vs))"
    by (auto simp: QuerySF_def)
  have "\<exists>m \<in> S. v = keyof E m \<and> base_at E w db m" if v: "r = Some v" for v
  proof -
    obtain i vs where "i < 3" "sfObj db i (seg (i * CHUNK_HASH_SIZE) CHUNK_HASH_SIZE key) = Some (v # vs)" using r(2) v by auto
    with assms show ?thesis unfolding db_inv_def by (metis list.set_intros(1))
  qed
  with r(1) show ?thesis by blast
qed

definition similar_entry :: "InMemoryDatabase \<Rightarrow> OutQueryEntry \<Rightarrow> OutQueryEntry" where
  "similar_entry db x = (case query_base db x of Inr y \<Rightarrow> y | Inl e \<Rightarrow> x)"

lemma query_base_total:
  assumes "db_inv E S w db"
  shows "query_base db x = Inr (similar_entry db x)"
proof -
  obtain r where "QuerySF (o_superfeature x) db = Inr r" using QuerySF_base [OF assms] by blast
  then show ?thesis by (simp add: similar_entry_def query_base_def)
qed

definition similar_query ::
  "enclave \<Rightarrow> bytes set \<Rightarrow> (container_name \<Rightarrow> bytes option) \<Rightarrow> InMemoryDatabase \<Rightarrow> bytes \<Rightarrow> InQueryEntry \<Rightarrow> OutQueryEntry \<Rightarrow> bool" where
  "similar_query E S w db m e x \<longleftrightarrow> i_superfeature e = sf_of (ssl E) m \<and> o_superfeature x = sf_of (ssl E) m \<and> o_offlineFlag x = 0 \<and>
     (o_deltaFlag x = delta_code NO_DELTA \<or>
      o_deltaFlag x = delta_code OUT_DELTA \<and> (\<exists>mb \<in> S. addr_base (o_chunkAddr x) = keyof E mb \<and> base_at E w db mb \<and>
        indexObj db (keyof E mb) = Some (o_basechunkAddr x)))"

lemma similar_entry_ok:
  assumes "evp_ok (ssl E)" "db_inv E S w db" "asked E S db (fresh_query E) m e x"
  shows "asked E S db (similar_query E S w db) m e (similar_entry db x)"
proof (cases "m \<in> S")
  case True
  then have "o_dedupFlag x \<noteq> two_path_code UNIQUE" using assms(3) by (simp add: asked_def)
  then show ?thesis using True assms(3) by (simp add: asked_def similar_entry_def query_base_def)
next
  case False
  then have x: "o_dedupFlag x = two_path_code UNIQUE" "fresh_query E m e x" "length (o_chunkAddr x) = RECIPE_ENTRY_SIZE"
      "o_chunkHash x = keyof E m" using assms(3) by (simp_all add: asked_def)
  obtain r where r: "QuerySF (o_superfeature x) db = Inr r" "\<forall>v. r = Some v \<longrightarrow> (\<exists>m \<in> S. v = keyof E m \<and> base_at E w db m)"
    using QuerySF_base [OF assms(2)] by blast
  show ?thesis
  proof (cases r)
    case None
    with False x r show ?thesis by (simp add: asked_def similar_entry_def query_base_def fresh_query_def similar_query_def)
  next
    case (Some v)
    then obtain mb where mb: "mb \<in> S" "v = keyof E mb" "base_at E w db mb" using r(2) by blast
    then obtain b where b: "indexObj db (keyof E mb) = Some b" by (auto simp: base_at_def addr_at_def)
    note l = addr_base_set [OF x(3) length_keyof [OF assms(1)], of mb]
    let ?y = "x\<lparr>o_chunkAddr := set_addr_base (o_chunkAddr x) (keyof E mb), o_deltaFlag := delta_code OUT_DELTA, o_basechunkAddr := b\<rparr>"
    have "similar_entry db x = ?y"
      using x(1,2) r(1) Some mb(2) b l index_value [OF assms(2) b]
      by (simp add: similar_entry_def query_base_def fresh_query_def Let_def QueryBuffer_key length_keyof [OF assms(1)])
    then show ?thesis using False x l mb b by (auto simp: asked_def similar_query_def fresh_query_def)
  qed
qed

lemma similar_entry_length:
  assumes "db_inv E S w db" "evp_ok (ssl E)" "length (o_chunkAddr x) = RECIPE_ENTRY_SIZE"
  shows "length (o_chunkAddr (similar_entry db x)) = RECIPE_ENTRY_SIZE"
proof -
  obtain r where r: "QuerySF (o_superfeature x) db = Inr r" "\<forall>v. r = Some v \<longrightarrow> (\<exists>m \<in> S. v = keyof E m \<and> base_at E w db m)"
    using QuerySF_base [OF assms(1)] by blast
  then have "length v = CHUNK_HASH_SIZE" if "r = Some v" for v using that length_keyof [OF assms(2)] by blast
  with r(1) assms(3) addr_base_set show ?thesis
    by (auto simp: similar_entry_def query_base_def Let_def split: option.splits)
qed

text \<open>The whole phase. The entries behind the batch may be stale; nothing depends on them.\<close>

lemma find_similar_ok:
  assumes "evp_ok (ssl E)" "db_inv E S w (outdb st)" "inj_on (hashfp E) (S \<union> set ms)" "\<forall>m \<in> set ms. chunk_ok m"
    "recvBuffer st = frames ms @ post" "length ms * (4 + MAX_CHUNK_SIZE) \<le> length (recvBuffer st)"
    "\<forall>x \<in> set (outQueryBase st). length (o_chunkAddr x) = RECIPE_ENTRY_SIZE"
    "paired E (\<lambda>m e x. o_chunkHash x = keyof E m \<and> length (o_chunkAddr x) = RECIPE_ENTRY_SIZE) ms
       (take (length ms) (inQueryBase st)) (outQueryBase st)"
    "num = length (news ms (take (length ms) (inQueryBase st)))" "length ms \<le> length (inQueryBase st)"
  shows "\<exists>es oq q. find_similar E (length ms) num st =
      Inr (st\<lparr>inQueryBase := es @ drop (length ms) (inQueryBase st), outQueryBase := oq, queryNum := q\<rparr>) \<and>
    length es = length ms \<and> length oq = length (outQueryBase st) \<and> news ms es = news ms (take (length ms) (inQueryBase st)) \<and>
    (\<forall>x \<in> set oq. length (o_chunkAddr x) = RECIPE_ENTRY_SIZE) \<and> paired E (asked E S (outdb st) (similar_query E S w (outdb st))) ms es oq"
proof -
  let ?db = "outdb st" and ?es = "take (length ms) (inQueryBase st)" and ?oq = "outQueryBase st"
  define st1 where "st1 = (if num \<noteq> 0 then st\<lparr>queryNum := num, outQueryBase := Ocall_QueryOutIndex ?db num ?oq\<rparr> else st)"
  define oq1 where "oq1 = Ocall_QueryOutIndex ?db num ?oq"
  have st1: "outQueryBase st1 = oq1" "inQueryBase st1 = inQueryBase st" "recvBuffer st1 = recvBuffer st" "outdb st1 = ?db" "num \<le> queryNum st1"
    by (auto simp: st1_def oq1_def Ocall_QueryOutIndex_def first_entries_def)
  have more: "st1\<lparr>inQueryBase := a, outQueryBase := b\<rparr> = st\<lparr>inQueryBase := a, outQueryBase := b, queryNum := queryNum st1\<rparr>" for a b
    by (simp add: st1_def)
  note q1 = queried_ok [OF assms(1) db_inv_index [OF assms(2)] assms(3,7,8,9), folded oq1_def]
  note p1 = q1(1) and l1 = q1(2)
  from sf_entries_ok [OF assms(1) p1 assms(4), of "recvBuffer st" "[]" post] assms(5,6) obtain es where
      es: "sf_entries (ssl E) (recvBuffer st) 0 ?es oq1 = Inr es" "news ms es = news ms ?es"
        "paired E (asked E S ?db (\<lambda>m e x. i_superfeature e = sf_of (ssl E) m)) ms es oq1" by auto
  let ?oq2 = "OutEntrySFGet es oq1" and ?q = "queryNum st1"
  let ?oq3 = "first_entries ?q (similar_entry ?db) ?oq2"
  have "Ocall_QueryOutBasechunk ?db ?q ?oq2 = Inr ?oq3"
    using mapE_Inr [of "take ?q ?oq2" "query_base ?db" "similar_entry ?db"] query_base_total [OF assms(2)]
    by (simp add: Ocall_QueryOutBasechunk_def first_entries_def)
  then have run: "find_similar E (length ms) num st = Inr (st1\<lparr>inQueryBase := es @ drop (length ms) (inQueryBase st), outQueryBase := ?oq3\<rparr>)"
    using es(1) st1 unfolding find_similar_def Let_def st1_def [symmetric] by simp
  have "paired E (asked E S ?db (similar_query E S w ?db)) ms es ?oq3"
    using similar_entry_ok [OF assms(1,2)] st1(5) es(2) assms(9)
    by (intro paired_first [OF OutEntrySFGet_ok [OF es(3)]]) auto
  moreover have "\<forall>x \<in> set ?oq3. length (o_chunkAddr x) = RECIPE_ENTRY_SIZE"
    by (rule first_entries_all [OF OutEntrySFGet_frame(2) [OF l1] similar_entry_length [OF assms(2,1)]])
  moreover have "length es = length ms" using paired_entries [OF es(3)] by (simp add: list_all2_lengthD)
  moreover have "length ?oq3 = length ?oq" by (simp add: OutEntrySFGet_frame oq1_def Ocall_QueryOutIndex_def)
  ultimately show ?thesis using run more es(2) by metis
qed

section \<open>Base addresses\<close>

definition loaded_query ::
  "enclave \<Rightarrow> bytes set \<Rightarrow> (container_name \<Rightarrow> bytes option) \<Rightarrow> InMemoryDatabase \<Rightarrow> bytes \<Rightarrow> InQueryEntry \<Rightarrow> OutQueryEntry \<Rightarrow> bool" where
  "loaded_query E S w db m e x \<longleftrightarrow> i_superfeature e = sf_of (ssl E) m \<and> o_superfeature x = sf_of (ssl E) m \<and> o_offlineFlag x = 0 \<and>
     (o_deltaFlag x = delta_code NO_DELTA \<or>
      o_deltaFlag x = delta_code OUT_DELTA \<and> (\<exists>mb \<in> S. addr_base (o_chunkAddr x) = keyof E mb \<and> base_at E w db mb \<and>
        entry_wf (i_basechunkAddr e) \<and> base_chunk E w (i_basechunkAddr e) mb \<and> o_basechunkAddr x = entry_image (i_basechunkAddr e) \<and>
        basechunkHash (i_chunkAddr e) = keyof E mb))"

lemma EntryLoad_ok:
  assumes "evp_ok (ssl E)" "batch_entry E m e" "asked E S db (similar_query E S w db) m e x" "m \<notin> S"
  shows "\<exists>e' x' ids'. EntryLoad E e x ids = Inr (e', x', ids') \<and> batch_entry E m e' \<and> i_dedupFlag e' = i_dedupFlag e \<and>
    asked E S db (loaded_query E S w db) m e' x'"
proof (cases "o_deltaFlag x = delta_code OUT_DELTA")
  case False
  then show ?thesis using assms by (auto simp: EntryLoad_def asked_def similar_query_def loaded_query_def)
next
  case True
  have x: "similar_query E S w db m e x" using assms(3,4) by (simp add: asked_def)
  with True obtain mb where mb: "mb \<in> S" "addr_base (o_chunkAddr x) = keyof E mb" "base_at E w db mb"
      "indexObj db (keyof E mb) = Some (o_basechunkAddr x)" by (auto simp: similar_query_def)
  then obtain a where a: "entry_wf a" "AESCBCDec (ssl E) (indexQueryKey E) (o_basechunkAddr x) = Inr (entry_image a)"
      "base_chunk E w a mb" by (auto simp: base_at_def addr_at_def)
  have of_im: "entry_of (entry_image a) = a" using entry_of_image [OF a(1), of "[]"] by simp
  let ?e = "e\<lparr>i_chunkAddr := (i_chunkAddr e)\<lparr>basechunkHash := keyof E mb\<rparr>, i_basechunkAddr := a\<rparr>"
  have "batch_entry E m ?e"
    using assms(2) length_keyof [OF assms(1)] by (simp add: batch_entry_def entry_for_def sane_def)
  moreover have "asked E S db (loaded_query E S w db) m ?e (x\<lparr>o_basechunkAddr := entry_image a\<rparr>)"
    using x True mb a assms(3,4) by (auto simp: asked_def similar_query_def loaded_query_def)
  ultimately show ?thesis using True a(2) mb(2) of_im by (simp add: EntryLoad_def)
qed

lemma load_entries_ok:
  assumes "evp_ok (ssl E)"
  shows "paired E (asked E S db (similar_query E S w db)) ms es oq \<Longrightarrow> \<forall>x \<in> set oq. length (o_chunkAddr x) = RECIPE_ENTRY_SIZE \<Longrightarrow>
    \<exists>es' oq' ids'. load_entries E es oq ids = Inr (es', oq', ids') \<and> news ms es' = news ms es \<and> length oq' = length oq \<and>
      (\<forall>x \<in> set oq'. length (o_chunkAddr x) = RECIPE_ENTRY_SIZE) \<and> paired E (asked E S db (loaded_query E S w db)) ms es' oq'"
proof (induction ms arbitrary: es oq ids)
  case Nil
  then show ?case by (cases es) auto
next
  case (Cons m ms)
  let ?P = "asked E S db (similar_query E S w db)" and ?Q = "asked E S db (loaded_query E S w db)"
  obtain e es1 where es: "es = e # es1" using Cons.prems(1) by (cases es) auto
  have be: "batch_entry E m e" using Cons.prems(1) es by simp
  show ?case
  proof (cases "i_dedupFlag e = two_path_code UNIQUE")
    case False
    then have "paired E ?P ms es1 oq" using Cons.prems(1) es by simp
    from Cons.IH [OF this Cons.prems(2), of ids] obtain es' oq' ids' where "load_entries E es1 oq ids = Inr (es', oq', ids')"
        "news ms es' = news ms es1" "length oq' = length oq" "\<forall>x \<in> set oq'. length (o_chunkAddr x) = RECIPE_ENTRY_SIZE"
        "paired E ?Q ms es' oq'" by blast
    with False be show ?thesis by (simp add: es)
  next
    case True
    then obtain x xs where oq: "oq = x # xs" "?P m e x" "paired E ?P ms es1 xs"
      using Cons.prems(1) es by (auto split: list.splits)
    have "\<exists>e' x' ids'. (if o_dedupFlag x = two_path_code UNIQUE then EntryLoad E e x ids else Inr (e, x, ids)) = Inr (e', x', ids') \<and>
        batch_entry E m e' \<and> i_dedupFlag e' = i_dedupFlag e \<and> ?Q m e' x'"
    proof (cases "m \<in> S")
      case dup: True
      then have "o_dedupFlag x \<noteq> two_path_code UNIQUE" "?Q m e x" using oq(2) by (simp_all add: asked_def)
      with be show ?thesis by auto
    next
      case new: False
      then have "o_dedupFlag x = two_path_code UNIQUE" using oq(2) by (simp add: asked_def)
      with EntryLoad_ok [OF assms be oq(2) new, of ids] show ?thesis by simp
    qed
    then obtain e' x' ids1 where
        x': "(if o_dedupFlag x = two_path_code UNIQUE then EntryLoad E e x ids else Inr (e, x, ids)) = Inr (e', x', ids1)"
          "batch_entry E m e'" "i_dedupFlag e' = i_dedupFlag e" "?Q m e' x'" by blast
    obtain es' oq' ids' where r: "load_entries E es1 xs ids1 = Inr (es', oq', ids')" "news ms es' = news ms es1" "length oq' = length xs"
        "\<forall>x \<in> set oq'. length (o_chunkAddr x) = RECIPE_ENTRY_SIZE" "paired E ?Q ms es' oq'"
      using Cons.IH [OF oq(3), of ids1] Cons.prems(2) oq(1) by auto
    have "length (o_chunkAddr x') = RECIPE_ENTRY_SIZE" using x'(4) by (simp add: asked_def)
    with True oq(1) r x' show ?thesis by (simp add: es)
  qed
qed

end
