(* ===== verification/FreqWorld.thy ===== *)
theory FreqWorld
  imports FreqSimilar
begin

text \<open>
  The containers during a batch: the writer thread saves some of them, the enclave adds chunks
  and hands containers over, the cache keeps copies of files. Whatever is readable stays
  readable at its address.
\<close>

section \<open>The invariant of the stored data\<close>

definition sworld :: "string \<Rightarrow> freq_st \<Rightarrow> container_name \<Rightarrow> bytes option" where
  "sworld t st = world t (cdisk st) (up st)"

text \<open>The writer has saved the first \<open>savedNum\<close> containers of the queue.\<close>

definition saved_inv :: "string \<Rightarrow> disk \<Rightarrow> nat \<Rightarrow> Container list \<Rightarrow> bool" where
  "saved_inv t d k q \<longleftrightarrow> k \<le> length q \<and> (\<forall>i < k. files_of t d (containerID (q ! i)) \<noteq> None)"

definition disk_ok :: "string \<Rightarrow> freq_st \<Rightarrow> bool" where
  "disk_ok t st \<longleftrightarrow> store_inv (up st) \<and> disk_inv t (cdisk st) (up st) \<and>
     inc.agrees (files_of t (cdisk st)) (inContainercache st) \<and>
     (\<forall>p f. cdisk st p = Some f \<longrightarrow> length f \<le> MAX_CONTAINER_SIZE) \<and>
     (\<forall>c \<in> set (inputMQ (up st)). length (ct_bytes c) \<le> MAX_CONTAINER_SIZE) \<and>
     length (tmpOcallcontainer st) \<le> MAX_CONTAINER_SIZE \<and> saved_inv t (cdisk st) (savedNum st) (inputMQ (up st))"

lemma saved_inv_append: "saved_inv t d k q \<Longrightarrow> saved_inv t d k (q @ r)"
  by (simp add: saved_inv_def nth_append)

lemma disk_okD:
  assumes "disk_ok t st"
  shows "store_inv (up st)" "disk_inv t (cdisk st) (up st)" "inc.agrees (files_of t (cdisk st)) (inContainercache st)"
    "\<And>p f. cdisk st p = Some f \<Longrightarrow> length f \<le> MAX_CONTAINER_SIZE"
    "\<And>c. c \<in> set (inputMQ (up st)) \<Longrightarrow> length (ct_bytes c) \<le> MAX_CONTAINER_SIZE"
    "length (tmpOcallcontainer st) \<le> MAX_CONTAINER_SIZE" "saved_inv t (cdisk st) (savedNum st) (inputMQ (up st))"
  using assms by (auto simp: disk_ok_def)

lemma file_world:
  assumes "disk_ok t st" "files_of t (cdisk st) n = Some f"
  shows "sworld t st n = Some f"
  using disk_okD(2) [OF assms(1)] assms(2) by (auto simp: disk_inv_def sworld_def world_def split: option.splits)

section \<open>The writer\<close>

lemma files_kept:
  assumes "store_inv st" "disk_inv t d st" "c \<in> set (inputMQ st)" "files_of t d n = Some f"
  shows "files_of t (SaveToFile t c d) n = Some f"
proof (cases "n = containerID c")
  case True
  have "f = ct_bytes c" using assms(2,4) queue_bytes(1) [OF assms(1,3)] True unfolding disk_inv_def by metis
  with assms(4) show ?thesis by (simp add: files_of_saved)
qed (use assms(4) in \<open>simp add: files_of_saved\<close>)

lemma SaveToFile_sizes:
  "\<forall>p f. d p = Some f \<longrightarrow> length f \<le> k \<Longrightarrow> length (ct_bytes c) \<le> k \<Longrightarrow> SaveToFile t c d p = Some f \<Longrightarrow> length f \<le> k"
  by (auto simp: SaveToFile_eq ct_bytes_def split: if_splits)

lemma SaveToFile_exists: "files_of t (SaveToFile t c d) (containerID c) \<noteq> None"
  by (auto simp: files_of_saved) (auto simp: files_of_def read_container_def split: option.splits)

lemma saved_inv_step:
  assumes "saved_inv t d k q" "k < length q" "\<And>n f. files_of t d n = Some f \<Longrightarrow> files_of t (SaveToFile t (q ! k) d) n = Some f"
  shows "saved_inv t (SaveToFile t (q ! k) d) (Suc k) q"
proof -
  have "files_of t (SaveToFile t (q ! k) d) (containerID (q ! i)) \<noteq> None" if "i < Suc k" for i
  proof (cases "i = k")
    case True
    then show ?thesis by (simp only: SaveToFile_exists not_False_eq_True)
  next
    case False
    with that have "i < k" by simp
    with assms(1) obtain f where "files_of t d (containerID (q ! i)) = Some f" unfolding saved_inv_def by blast
    from assms(3) [OF this] show ?thesis by simp
  qed
  with assms(2) show ?thesis by (simp add: saved_inv_def)
qed

lemma half_saved_queue: "half_saved st = Some (c, k) \<Longrightarrow> c = inputMQ (up st) ! savedNum st \<and> savedNum st < length (inputMQ (up st))"
  by (auto simp: half_saved_def split: if_splits)

text \<open>What a step of the writer leaves behind: the queue is as it was, and what is stored too.\<close>

definition writer_frame :: "string \<Rightarrow> freq_st \<Rightarrow> freq_st \<Rightarrow> bool" where
  "writer_frame t st st' \<longleftrightarrow> (\<exists>d k h. st' = st\<lparr>cdisk := d, savedNum := k, writing := h\<rparr>) \<and> disk_ok t st' \<and> sworld t st' = sworld t st"

lemma writer_frame_same: "disk_ok t st \<Longrightarrow> writer_frame t st (st\<lparr>writing := h\<rparr>)"
  unfolding writer_frame_def
  by (intro conjI exI [of _ "cdisk st"] exI [of _ "savedNum st"] exI [of _ h]) (simp_all add: disk_ok_def sworld_def)

lemma writer_frame_refl: "disk_ok t st \<Longrightarrow> writer_frame t st st"
  using writer_frame_same [of t st "writing st"] by simp

lemma writer_frame_trans:
  assumes "writer_frame t a b" "writer_frame t b c"
  shows "writer_frame t a c"
proof -
  obtain d k h where "b = a\<lparr>cdisk := d, savedNum := k, writing := h\<rparr>" using assms(1) by (auto simp: writer_frame_def)
  moreover obtain d' k' h' where "c = b\<lparr>cdisk := d', savedNum := k', writing := h'\<rparr>" using assms(2) by (auto simp: writer_frame_def)
  ultimately have "c = a\<lparr>cdisk := d', savedNum := k', writing := h'\<rparr>" by simp
  with assms show ?thesis by (auto simp: writer_frame_def)
qed

lemma writer_close_ok:
  assumes "disk_ok t st" "half_saved st = Some (c, k)"
  shows "writer_frame t st (st\<lparr>cdisk := SaveToFile t c (cdisk st), savedNum := Suc (savedNum st), writing := None\<rparr>)"
proof -
  have q: "c = inputMQ (up st) ! savedNum st" "savedNum st < length (inputMQ (up st))" using half_saved_queue [OF assms(2)] by simp_all
  have c: "c \<in> set (inputMQ (up st))" using q by simp
  note d = disk_okD [OF assms(1)]
  note w = world_write [OF d(1,2) c]
  have "inc.agrees (files_of t (SaveToFile t c (cdisk st))) (inContainercache st)"
    using files_kept [OF d(1,2) c] by (rule inc.agrees_mono [OF d(3)])
  moreover have "saved_inv t (SaveToFile t c (cdisk st)) (Suc (savedNum st)) (inputMQ (up st))"
    using d(7) q(2) files_kept [OF d(1,2) c] unfolding q(1) by (intro saved_inv_step) auto
  ultimately have "disk_ok t (st\<lparr>cdisk := SaveToFile t c (cdisk st), savedNum := Suc (savedNum st), writing := None\<rparr>)"
    using d(1-6) w(1) SaveToFile_sizes [of "cdisk st" MAX_CONTAINER_SIZE c t] c unfolding disk_ok_def by auto
  moreover have "sworld t (st\<lparr>cdisk := SaveToFile t c (cdisk st), savedNum := Suc (savedNum st), writing := None\<rparr>) = sworld t st"
    using w(2) by (simp add: sworld_def)
  ultimately show ?thesis unfolding writer_frame_def by blast
qed

lemma writer_step_ok:
  assumes "disk_ok t st"
  shows "writer_frame t st (writer_step t act st)"
proof (cases "half_saved st")
  case None
  then show ?thesis using writer_frame_refl [OF assms] writer_frame_same [OF assms] by (simp add: writer_step_def)
next
  case (Some p)
  obtain c k where "p = (c, k)" by fastforce
  with Some show ?thesis using writer_frame_refl [OF assms] writer_frame_same [OF assms] writer_close_ok [OF assms]
    by (cases act) (auto simp: writer_step_def)
qed

lemma writer_steps_ok: "disk_ok t st \<Longrightarrow> writer_frame t st (fold (writer_step t) acts st)"
proof (induction acts arbitrary: st)
  case (Cons a acts)
  note f = writer_step_ok [OF Cons.prems, of a]
  then have "disk_ok t (writer_step t a st)" by (simp add: writer_frame_def)
  from writer_frame_trans [OF f Cons.IH [OF this]] show ?case by simp
qed (simp add: writer_frame_refl)

text \<open>
  What the enclave relies on: the file it reads is not the one that is being saved. A file in
  \<open>Base-Containers\<close> is then on the disk as a whole or not at all.
\<close>

definition untorn :: "OutQueryEntry \<Rightarrow> freq_st \<Rightarrow> bool" where
  "untorn x st \<longleftrightarrow> o_deltaFlag x = delta_code OUT_DELTA \<longrightarrow> (case half_saved st of None \<Rightarrow> True | Some (c, k) \<Rightarrow> containerID c \<noteq> containerName (entry_of (o_basechunkAddr x)))"

lemma disk_now_untorn:
  "untorn x st \<Longrightarrow> o_deltaFlag x = delta_code OUT_DELTA \<Longrightarrow> disk_now t st (base_path t (containerName (entry_of (o_basechunkAddr x)))) =
     cdisk st (base_path t (containerName (entry_of (o_basechunkAddr x))))"
  by (auto simp: untorn_def disk_now_def fwrite_upto_def fopen_wb_def fileFullName_def split: option.splits)

definition relies :: "(OutQueryEntry \<Rightarrow> freq_st \<Rightarrow> bool) \<Rightarrow> string \<Rightarrow> schedule \<Rightarrow> bool" where
  "relies calm t w \<longleftrightarrow> (\<forall>i st. calm (outQueryBase (writer_run t w i st) ! currNum (writer_run t w i st)) (writer_run t w i st))"

text \<open>Any schedule can be made one to rely on, by waiting for the end of the save.\<close>

definition patient :: "string \<Rightarrow> schedule \<Rightarrow> schedule" where
  "patient t w i st = w i st @
    (let st' = writer_run t w i st in if untorn (outQueryBase st' ! currNum st') st' then [] else [Fclose])"

lemma untorn_closed: "untorn x (writer_step t Fclose st)"
  by (auto simp: untorn_def writer_step_def half_saved_def split: option.splits if_splits)

lemma patient_relies: "relies untorn t (patient t w)"
  unfolding relies_def
proof (intro allI)
  fix i st
  let ?st = "writer_run t w i st"
  show "untorn (outQueryBase (writer_run t (patient t w) i st) ! currNum (writer_run t (patient t w) i st)) (writer_run t (patient t w) i st)"
  proof (cases "untorn (outQueryBase ?st ! currNum ?st) ?st")
    case True
    then have "writer_run t (patient t w) i st = ?st" by (simp add: writer_run_def patient_def Let_def)
    with True show ?thesis by simp
  next
    case False
    then have "writer_run t (patient t w) i st = writer_step t Fclose ?st" by (simp add: writer_run_def patient_def Let_def)
    then show ?thesis by (simp only: untorn_closed)
  qed
qed

section \<open>Storing a chunk\<close>

lemma same_store:
  assumes "store_st.truncate u' = store_st.truncate u"
  shows "store_inv u' = store_inv u" "container_bytes u' = container_bytes u" "disk_inv t d u' = disk_inv t d u" "con_times u' = con_times u"
    "inputMQ u' = inputMQ u" "world t d u' = world t d u"
proof -
  have f: "inContainer u' = inContainer u" "deltainContainer u' = deltainContainer u" "curContainer u' = curContainer u"
      "curDeltaContainer u' = curDeltaContainer u" "inputMQ u' = inputMQ u" "con_times u' = con_times u" "client_iv u' = client_iv u"
    using assms by (auto simp: store_st.defs)
  show "store_inv u' = store_inv u" "con_times u' = con_times u" "inputMQ u' = inputMQ u"
    by (simp_all add: f store_inv_def store_names_def)
  show c: "container_bytes u' = container_bytes u" by (simp add: f fun_eq_iff container_bytes_def)
  show "disk_inv t d u' = disk_inv t d u" "world t d u' = world t d u"
    by (simp_all add: c f disk_inv_def cur_names_def world_def fun_eq_iff)
qed

lemma disk_ok_same:
  assumes "disk_ok t st" "store_st.truncate u = store_st.truncate (up st)"
  shows "disk_ok t (st\<lparr>up := u\<rparr>)" "sworld t (st\<lparr>up := u\<rparr>) = sworld t st"
  using assms same_store [OF assms(2)] by (simp_all add: disk_ok_def sworld_def)

text \<open>Containers are handed over with the size they have in the enclave.\<close>

definition small_queue :: "'a store_st_scheme \<Rightarrow> bool" where
  "small_queue st \<longleftrightarrow> (\<forall>c \<in> set (inputMQ st). length (ct_bytes c) \<le> MAX_CONTAINER_SIZE)"

lemma small_write:
  "small_queue st \<Longrightarrow> unat (currentSize (curContainer st)) \<le> MAX_CONTAINER_SIZE \<Longrightarrow> Ocall_WriteContainer st = Inr st' \<Longrightarrow> small_queue st'"
  "small_queue st \<Longrightarrow> unat (currentSize (curDeltaContainer st)) \<le> MAX_CONTAINER_SIZE \<Longrightarrow> Ocall_WriteDeltaContainer st = Inr st' \<Longrightarrow> small_queue st'"
  by (auto simp: small_queue_def Ocall_WriteContainer_def Ocall_WriteDeltaContainer_def new_uuid_def ct_bytes_def Let_def bindE_Inr_iff
      split: option.splits)

lemma dump_size: "dump_container ic c0 = Inr c \<Longrightarrow> currentSize c = curSize ic"
  by (auto simp: dump_container_def bindE_Inr_iff)

lemma small_same: "small_queue st \<Longrightarrow> same_names st st' \<Longrightarrow> small_queue st'"
  by (simp add: small_queue_def same_names_def)

lemma SavebaseChunk_small:
  assumes "small_queue st" "unat (curSize (inContainer st)) \<le> MAX_CONTAINER_SIZE" "SavebaseChunk d a0 sf f st = Inr (a, st')"
  shows "small_queue st'"
proof (cases "chunk_fits (word_of_nat (length d)) (curSize (inContainer st))")
  case True
  with assms(3) have "same_names st st'" by (auto simp: SavebaseChunk_def Let_def dest: place_base_names)
  with assms(1) show ?thesis by (rule small_same)
next
  case False
  with assms(3) obtain c st1 where s: "dump_container (inContainer st) (curContainer st) = Inr c"
      "Ocall_WriteContainer (st\<lparr>curContainer := c, inContainer := (inContainer st)\<lparr>curSize := 0\<rparr>\<rparr>) = Inr st1"
      "same_names st1 st'"
    by (auto simp: SavebaseChunk_def Let_def bindE_Inr_iff dest: place_base_names)
  have "small_queue (st\<lparr>curContainer := c, inContainer := (inContainer st)\<lparr>curSize := 0\<rparr>\<rparr>)"
    using assms(1) by (simp add: small_queue_def)
  from small_write(1) [OF this _ s(2)] dump_size [OF s(1)] assms(2) have "small_queue st1" by simp
  then show ?thesis using s(3) by (rule small_same)
qed

lemma SavedeltaChunk_small:
  assumes "small_queue st" "unat (curSize (deltainContainer st)) \<le> MAX_CONTAINER_SIZE" "SavedeltaChunk d a0 sf f st = Inr (a, st')"
  shows "small_queue st'"
proof (cases "chunk_fits (word_of_nat (length d)) (curSize (deltainContainer st))")
  case True
  with assms(3) have "same_names st st'" by (auto simp: SavedeltaChunk_def Let_def dest: place_delta_names)
  with assms(1) show ?thesis by (rule small_same)
next
  case False
  with assms(3) obtain c st1 where s: "dump_container (deltainContainer st) (curDeltaContainer st) = Inr c"
      "Ocall_WriteDeltaContainer (st\<lparr>curDeltaContainer := c, deltainContainer := (deltainContainer st)\<lparr>curSize := 0\<rparr>\<rparr>) = Inr st1"
      "same_names st1 st'"
    by (auto simp: SavedeltaChunk_def Let_def bindE_Inr_iff dest: place_delta_names)
  have "small_queue (st\<lparr>curDeltaContainer := c, deltainContainer := (deltainContainer st)\<lparr>curSize := 0\<rparr>\<rparr>)"
    using assms(1) by (simp add: small_queue_def)
  from small_write(2) [OF this _ s(2)] dump_size [OF s(1)] assms(2) have "small_queue st1" by simp
  then show ?thesis using s(3) by (rule small_same)
qed

lemma save_separate_small:
  assumes "store_inv st" "small_queue st" "save_separate q st = Inr (a, st')"
  shows "small_queue st'"
  using assms
  by (auto simp: save_separate_def store_inv_def ic_ok_def split: prod.splits if_splits
      elim: SavebaseChunk_small [rotated 2] SavedeltaChunk_small [rotated 2])

text \<open>A stored chunk, with everything that was readable before.\<close>

lemma seal_frame:
  "seal_chunk E z chunk st = Inr (c, st1) \<Longrightarrow> st1 = count_stored (length (plain_of z chunk)) st"
  by (auto simp: seal_chunk_def plain_of_def Let_def bindE_Inr_iff split: if_splits)

lemma ProcessShe_frame:
  assumes "ProcessSheUniqueChunk E a chunk sf f st = Inr (a', st')" "store_inv st" "small_queue st"
  shows "grows st st'" "small_queue st'"
proof -
  obtain c z where s: "save_separate (c, a, sf, f) (count_stored z (PickNewIV st)) = Inr (a', st')"
    using assms(1) unfolding ProcessSheUniqueChunk_def by (auto simp: bindE_Inr_iff dest!: seal_frame)
  let ?st1 = "count_stored z (PickNewIV st)"
  have "same_names st ?st1" by (simp add: same_names_def cur_names_def count_stored_def PickNewIV_def)
  then show "grows st st'" by (rule grows_same_left [OF _ save_separate_grows [OF s]])
  have "store_inv ?st1" using assms(2) PickNewIV_inv store_frame by blast
  moreover have "small_queue ?st1" using assms(3) by (simp add: small_queue_def count_stored_def PickNewIV_def)
  ultimately show "small_queue st'" by (rule save_separate_small [OF _ _ s])
qed

lemma store_chunk_ok:
  assumes "evp_ok (ssl E)" "lz4_ok E" "disk_ok t st" "con_times (up st) < INT_MAX"
    "length chunk \<le> MAX_CHUNK_SIZE" "length f = CHUNK_HASH_SIZE" "length sf = 3 * CHUNK_HASH_SIZE" "sane a"
  defines "z \<equiv> (if deltaFlag a = delta_code NO_DELTA then lz4_compress E chunk (length chunk) else None)"
  shows "\<exists>a' u. ProcessSheUniqueChunk E a chunk sf f (up st) = Inr (a', u) \<and> disk_ok t (st\<lparr>up := u\<rparr>) \<and>
    world_le (sworld t st) (sworld t (st\<lparr>up := u\<rparr>)) \<and> con_times u \<le> Suc (con_times (up st)) \<and>
    entry_wf a' \<and> deltaFlag a' = deltaFlag a \<and> basechunkHash a' = basechunkHash a \<and>
    inRecipe u = inRecipe (up st) \<and> recipeFile u = recipeFile (up st) \<and>
    stored E (sworld t (st\<lparr>up := u\<rparr>)) a' (plain_of z chunk)"
proof -
  note d = disk_okD [OF assms(3)]
  obtain a' u where s: "ProcessSheUniqueChunk E a chunk sf f (up st) = Inr (a', u)" "store_inv u" "extends (up st) u"
      "con_times u \<le> Suc (con_times (up st))" "entry_wf a'" "deltaFlag a' = deltaFlag a" "basechunkHash a' = basechunkHash a"
      "inRecipe u = inRecipe (up st)" "recipeFile u = recipeFile (up st)" "holds_plain E u a' (plain_of z chunk)"
    using ProcessSheUniqueChunk_ok [OF assms(1,2) d(1) assms(4,5,6,7), of a] assms(8) by (auto simp: sane_def z_def)
  have q: "small_queue (up st)" using d(5) by (simp add: small_queue_def)
  note g = ProcessShe_frame [OF s(1) d(1) q]
  have room: "con_times u \<le> INT_MAX" using s(4) assms(4) by simp
  have "disk_ok t (st\<lparr>up := u\<rparr>)"
    using d s(2) g(2) disk_inv_grows [OF d(2) g(1) room] saved_inv_append [OF d(7)] g(1)
    by (auto simp: disk_ok_def small_queue_def grows_def)
  moreover have "world_le (sworld t st) (sworld t (st\<lparr>up := u\<rparr>))"
    using world_grows [OF d(2) g(1) s(3) room] by (simp add: sworld_def)
  moreover have "stored E (sworld t (st\<lparr>up := u\<rparr>)) a' (plain_of z chunk)"
    unfolding sworld_def using stored_world [OF s(10)] by simp
  ultimately show ?thesis using s by blast
qed

end
