(* ===== verification/FreqLoop.thy ===== *)
theory FreqLoop
  imports FreqWorld
begin

text \<open>
  The main loop of \<open>ProcessOneBatch\<close>: for a chunk that is unique inside and outside, whether a
  delta is made, the delta itself, and the storing; then the body for every kind of chunk and the
  loop over the batch.
\<close>

section \<open>What a step of the loop keeps\<close>

definition ht_ok :: "freq_st \<Rightarrow> bool" where
  "ht_ok st \<longleftrightarrow> ht_inv (psHTable2 st) \<and> ht_items (psHTable2 st) = {}"

definition env where
  "env st = (recvBuffer st, outdb st, insideDedupIndex st, inQueryBase st, outQueryBase st, currNum st,
     inRecipe (up st), recipeFile (up st), uniqueChunkNum (stats st), logicalChunkNum (stats st))"

definition keeps :: "string \<Rightarrow> nat \<Rightarrow> freq_st \<Rightarrow> freq_st \<Rightarrow> bool" where
  "keeps t k st st' \<longleftrightarrow> disk_ok t st' \<and> ht_ok st' \<and> world_le (sworld t st) (sworld t st') \<and> env st' = env st \<and>
     con_times (up st') \<le> con_times (up st) + k"

lemma keeps_refl: "disk_ok t st \<Longrightarrow> ht_ok st \<Longrightarrow> keeps t 0 st st"
  by (simp add: keeps_def world_le_refl)

lemma keeps_trans: "keeps t j a b \<Longrightarrow> keeps t k b c \<Longrightarrow> keeps t (j + k) a c"
  unfolding keeps_def using world_le_trans by fastforce

lemma keeps_writer: "disk_ok t st \<Longrightarrow> ht_ok st \<Longrightarrow> keeps t 0 st (writer_run t w i st)"
  using writer_steps_ok [of t st "w i st"] by (auto simp: keeps_def writer_run_def writer_frame_def env_def ht_ok_def world_le_refl)

section \<open>Whether a delta is made\<close>

definition delta_ready ::
  "enclave \<Rightarrow> bytes set \<Rightarrow> (container_name \<Rightarrow> bytes option) \<Rightarrow> InMemoryDatabase \<Rightarrow> InQueryEntry \<Rightarrow> OutQueryEntry \<Rightarrow> bool" where
  "delta_ready E S w db e x \<longleftrightarrow>
    (\<exists>mb \<in> S. base_at E w db mb \<and> basechunkHash (i_chunkAddr e) = keyof E mb \<and>
      (\<exists>c iv. read_chunk (o_container x) (addr_offset (i_basechunkAddr e)) (addr_length (i_basechunkAddr e)) = Some (c, iv) \<and>
         unat (addr_length (i_basechunkAddr e)) = length (plain_for E mb) \<and>
         DecryptionWithKeyIV (ssl E) CIPHER_TYPE (enclaveKey E) iv c = Inr (plain_for E mb)))"

definition decided ::
  "enclave \<Rightarrow> bytes set \<Rightarrow> (container_name \<Rightarrow> bytes option) \<Rightarrow> InMemoryDatabase \<Rightarrow> bytes \<Rightarrow> InQueryEntry \<Rightarrow> OutQueryEntry \<Rightarrow> bool" where
  "decided E S w db m e x \<longleftrightarrow> entry_for E m e \<and> i_dedupFlag e = two_path_code UNIQUE \<and>
     deltaFlag (i_chunkAddr e) = delta_code NO_DELTA \<and> i_superfeature e = sf_of (ssl E) m \<and>
     o_chunkHash x = keyof E m \<and> length (o_chunkAddr x) = RECIPE_ENTRY_SIZE \<and> o_dedupFlag x = two_path_code UNIQUE \<and>
     o_superfeature x = sf_of (ssl E) m \<and>
     (o_deltaFlag x = delta_code NO_DELTA \<or> o_deltaFlag x = delta_code DELTA \<and> delta_ready E S w db e x)"

text \<open>A chunk before the decision, in the world \<open>w\<close>.\<close>

definition undecided ::
  "enclave \<Rightarrow> bytes set \<Rightarrow> (container_name \<Rightarrow> bytes option) \<Rightarrow> InMemoryDatabase \<Rightarrow> bytes \<Rightarrow> InQueryEntry \<Rightarrow> OutQueryEntry \<Rightarrow> bool" where
  "undecided E S w db m e x \<longleftrightarrow> entry_for E m e \<and> i_dedupFlag e = two_path_code UNIQUE \<and>
     deltaFlag (i_chunkAddr e) = delta_code NO_DELTA \<and>
     o_chunkHash x = keyof E m \<and> length (o_chunkAddr x) = RECIPE_ENTRY_SIZE \<and> o_dedupFlag x = two_path_code UNIQUE \<and>
     loaded_query E S w db m e x"

lemma undecided_mono:
  assumes "world_le w w'" "undecided E S w db m e x"
  shows "undecided E S w' db m e x"
proof -
  have "base_at E w db mb \<Longrightarrow> base_at E w' db mb" for mb by (rule base_at_mono [OF assms(1) db_le_refl])
  moreover have "base_chunk E w a mb \<Longrightarrow> base_chunk E w' a mb" for a mb
    unfolding base_chunk_def using stored_mono [OF assms(1)] by blast
  ultimately show ?thesis using assms(2) unfolding undecided_def loaded_query_def by blast
qed

lemma base_readable:
  assumes "undecided E S (sworld t st) db m e x" "o_deltaFlag x = delta_code OUT_DELTA" "disk_ok t st"
    "files_of t (cdisk st) (containerName (entry_of (o_basechunkAddr x))) = Some f" "take (length f) b = f"
  shows "\<exists>mb \<in> S. delta_ready E S (sworld t st) db
    (e\<lparr>i_chunkAddr := (i_chunkAddr e)\<lparr>basechunkHash := addr_base (o_chunkAddr x)\<rparr>\<rparr>) (x\<lparr>o_container := b\<rparr>) \<and>
    addr_base (o_chunkAddr x) = keyof E mb"
proof -
  obtain mb where mb: "mb \<in> S" "addr_base (o_chunkAddr x) = keyof E mb" "base_at E (sworld t st) db mb" "entry_wf (i_basechunkAddr e)"
      "stored E (sworld t st) (i_basechunkAddr e) (plain_for E mb)" "o_basechunkAddr x = entry_image (i_basechunkAddr e)"
    using assms(1,2) by (auto simp: undecided_def loaded_query_def base_chunk_def)
  have "entry_of (o_basechunkAddr x) = i_basechunkAddr e" using entry_of_image [OF mb(4), of "[]"] mb(6) by simp
  then have "sworld t st (containerName (i_basechunkAddr e)) = Some f" using file_world [OF assms(3,4)] by simp
  from stored_read [OF mb(5) this assms(5)] mb show ?thesis by (auto simp: delta_ready_def)
qed

definition offline_done ::
  "enclave \<Rightarrow> bytes set \<Rightarrow> string \<Rightarrow> bytes \<Rightarrow> (fp \<times> fp) list \<Rightarrow> freq_st \<Rightarrow> fault + InQueryEntry \<times> OutQueryEntry \<times> (fp \<times> fp) list \<times> freq_st \<Rightarrow> bool" where
  "offline_done E S t m bm st r \<longleftrightarrow>
    (\<exists>e' x' ps st'. r = Inr (e', x', bm @ ps, st') \<and> keeps t 0 st st' \<and> decided E S (sworld t st') (outdb st) m e' x' \<and>
       length ps \<le> 1 \<and> (\<forall>(a, b) \<in> set ps. length a = CHUNK_HASH_SIZE \<and> length b = CHUNK_HASH_SIZE))"

lemma offline_doneI:
  "r = Inr (e', x', bm @ ps, st') \<Longrightarrow> keeps t 0 st st' \<Longrightarrow> decided E S (sworld t st') (outdb st) m e' x' \<Longrightarrow> length ps \<le> 1 \<Longrightarrow>
    (\<forall>(a, b) \<in> set ps. length a = CHUNK_HASH_SIZE \<and> length b = CHUNK_HASH_SIZE) \<Longrightarrow> offline_done E S t m bm st r"
  by (auto simp: offline_done_def)

lemma undecided_no_delta:
  "undecided E S w db m e x \<Longrightarrow> decided E S w db m e (x\<lparr>o_deltaFlag := delta_code NO_DELTA, o_offlineFlag := f\<rparr>)"
  "undecided E S w db m e x \<Longrightarrow> decided E S w db m e (x\<lparr>o_deltaFlag := delta_code NO_DELTA\<rparr>)"
  by (auto simp: undecided_def decided_def loaded_query_def)

lemma undecided_delta:
  assumes "undecided E S w db m e x" "evp_ok (ssl E)" "addr_base (o_chunkAddr x) = keyof E mb"
    "delta_ready E S w db (e\<lparr>i_chunkAddr := (i_chunkAddr e)\<lparr>basechunkHash := addr_base (o_chunkAddr x)\<rparr>\<rparr>) y"
    "o_chunkHash y = o_chunkHash x" "o_chunkAddr y = o_chunkAddr x" "o_dedupFlag y = o_dedupFlag x"
    "o_superfeature y = o_superfeature x" "o_deltaFlag y = delta_code DELTA"
  shows "decided E S w db m (e\<lparr>i_chunkAddr := (i_chunkAddr e)\<lparr>basechunkHash := addr_base (o_chunkAddr x)\<rparr>\<rparr>) y"
  using assms length_keyof [OF assms(2), of mb]
  by (auto simp: undecided_def decided_def loaded_query_def entry_for_def sane_def)

lemma base_from_cache_ok:
  assumes "evp_ok (ssl E)" "undecided E S (sworld t st) (outdb st) m e x" "o_deltaFlag x = delta_code OUT_DELTA" "disk_ok t st" "ht_ok st"
    "ExistsInCache (containerName (entry_of (o_basechunkAddr x))) (inContainercache st)"
  shows "\<exists>e' x' st'. base_from_cache e x st = Inr (e', x', st') \<and> keeps t 0 st st' \<and> decided E S (sworld t st') (outdb st) m e' x'"
proof -
  let ?n = "containerName (entry_of (o_basechunkAddr x))"
  let ?e = "e\<lparr>i_chunkAddr := (i_chunkAddr e)\<lparr>basechunkHash := addr_base (o_chunkAddr x)\<rparr>\<rparr>"
  obtain b c f where h: "ReadFromCache ?n (inContainercache st) = Inr (b, c)" "inc.agrees (files_of t (cdisk st)) c"
      "files_of t (cdisk st) ?n = Some f" "take (length f) b = f"
    using inc.hit [OF disk_okD(3) [OF assms(4)] assms(6)] by blast
  obtain mb where mb: "delta_ready E S (sworld t st) (outdb st) ?e (x\<lparr>o_container := b\<rparr>)" "addr_base (o_chunkAddr x) = keyof E mb"
    using base_readable [OF assms(2,3,4) h(3,4)] by blast
  let ?st = "st\<lparr>inContainercache := c\<rparr>" and ?x = "x\<lparr>o_container := b, o_deltaFlag := delta_code DELTA\<rparr>"
  have w: "sworld t ?st = sworld t st" by (simp add: sworld_def)
  have "keeps t 0 st ?st"
    using assms(4,5) h(2) by (simp add: keeps_def disk_ok_def ht_ok_def env_def sworld_def world_le_refl)
  moreover have "decided E S (sworld t ?st) (outdb st) m ?e ?x"
    unfolding w using undecided_delta [OF assms(2,1) mb(2), of ?x] mb(1) by (simp add: delta_ready_def)
  ultimately show ?thesis using h(1) by (simp add: base_from_cache_def)
qed

lemma base_from_disk_ok:
  assumes "evp_ok (ssl E)" "undecided E S (sworld t st) (outdb st) m e x" "o_deltaFlag x = delta_code OUT_DELTA" "disk_ok t st" "ht_ok st"
    "\<not> ExistsInCache (containerName (entry_of (o_basechunkAddr x))) (inContainercache st)" "untorn x st"
  shows "\<exists>e' x' st'. base_from_disk t e x st = Inr (e', x', st') \<and> keeps t 0 st st' \<and> decided E S (sworld t st') (outdb st) m e' x'"
proof -
  let ?n = "containerName (entry_of (o_basechunkAddr x))" and ?d = "cdisk st"
  let ?e = "e\<lparr>i_chunkAddr := (i_chunkAddr e)\<lparr>basechunkHash := addr_base (o_chunkAddr x)\<rparr>\<rparr>"
  let ?s = "(stats st)\<lparr>Inline_LoadOcall := Inline_LoadOcall (stats st) + 1\<rparr>"
  note d = disk_okD [OF assms(4)]
  note now = disk_now_untorn [OF assms(7,3), of t]
  show ?thesis
  proof (cases "?d (base_path t ?n)")
    case None
    let ?st = "st\<lparr>tmpOcallcontainer := tmpOcallcontainer st, stats := ?s\<rparr>"
    have "base_from_disk t e x st = Inr (e, x\<lparr>o_deltaFlag := delta_code NO_DELTA\<rparr>, ?st)"
      using None assms(3) by (simp add: base_from_disk_def fetch_base_def cache_base_def Ocall_getRefContainer_def now Let_def)
    moreover have "keeps t 0 st ?st"
      using assms(4,5) by (simp add: keeps_def disk_ok_def ht_ok_def env_def sworld_def world_le_refl)
    moreover have "sworld t ?st = sworld t st" by (simp add: sworld_def)
    ultimately show ?thesis using undecided_no_delta(2) [OF assms(2)] by auto
  next
    case (Some f)
    let ?b = "put (tmpOcallcontainer st) 0 f"
    have f: "length f \<le> MAX_CONTAINER_SIZE" using d(4) Some by blast
    have fl: "files_of t ?d ?n = Some f" using Some by (simp add: files_of_def read_container_def)
    have b: "take (length f) ?b = f" "length ?b \<le> MAX_CONTAINER_SIZE" using f d(6) by (simp_all add: buf_simps)
    obtain c where c: "InsertToCache_Offline ?n ?b (inContainercache st) = Inr c" "inc.agrees (files_of t ?d) c"
      using inc.miss [OF d(3) assms(6) fl b(2,1)] by blast
    obtain mb where mb: "delta_ready E S (sworld t st) (outdb st) ?e (x\<lparr>o_container := ?b\<rparr>)" "addr_base (o_chunkAddr x) = keyof E mb"
      using base_readable [OF assms(2,3,4) fl b(1)] by blast
    let ?st = "st\<lparr>tmpOcallcontainer := ?b, stats := ?s, inContainercache := c\<rparr>"
    let ?x = "x\<lparr>o_container := ?b, o_containersize := length f, o_deltaFlag := delta_code DELTA\<rparr>"
    have "memcpyE MAX_CONTAINER_SIZE (tmpOcallcontainer st) 0 f = Inr ?b" using f by (simp add: memcpyE_ok)
    then have "base_from_disk t e x st = Inr (?e, ?x, ?st)"
      using Some assms(3,6) c(1)
      by (simp add: base_from_disk_def fetch_base_def cache_base_def Ocall_getRefContainer_def now Let_def)
    moreover have "keeps t 0 st ?st"
      using assms(4,5) b(2) c(2) by (simp add: keeps_def disk_ok_def ht_ok_def env_def sworld_def world_le_refl)
    moreover have "sworld t ?st = sworld t st" by (simp add: sworld_def)
    moreover have "decided E S (sworld t st) (outdb st) m ?e ?x"
      using undecided_delta [OF assms(2,1) mb(2), of ?x] mb(1) by (simp add: delta_ready_def)
    ultimately show ?thesis by auto
  qed
qed

lemma OfflinedeltaTure_ok:
  assumes "evp_ok (ssl E)" "undecided E S (sworld t st) (outdb st) m e x" "disk_ok t st" "ht_ok st" "untorn x st"
  shows "offline_done E S t m bm st (OfflinedeltaTure t Local_Flag e x bm st)"
proof -
  let ?n = "containerName (entry_of (o_basechunkAddr x))"
  note k = keeps_refl [OF assms(3,4)]
  have flags: "o_deltaFlag x = delta_code NO_DELTA \<or> o_deltaFlag x = delta_code OUT_DELTA"
    using assms(2) by (auto simp: undecided_def loaded_query_def)
  have len: "length (o_chunkHash x) = CHUNK_HASH_SIZE" "length (addr_base (o_chunkAddr x)) = CHUNK_HASH_SIZE"
    using assms(2) length_keyof [OF assms(1)] by (auto simp: undecided_def addr_base_def RECIPE_ENTRY_SIZE_def CHUNK_HASH_SIZE_def)
  consider (marked) "marked_hash (i_chunkHash e)"
    | (local) "\<not> marked_hash (i_chunkHash e)" "Local_Flag" "o_deltaFlag x = delta_code OUT_DELTA"
    | (none) "\<not> marked_hash (i_chunkHash e)" "o_deltaFlag x = delta_code NO_DELTA"
    | (cached) "\<not> marked_hash (i_chunkHash e)" "\<not> Local_Flag" "o_deltaFlag x = delta_code OUT_DELTA" "ExistsInCache ?n (inContainercache st)"
    | (disk) "\<not> marked_hash (i_chunkHash e)" "\<not> Local_Flag" "o_deltaFlag x = delta_code OUT_DELTA" "\<not> ExistsInCache ?n (inContainercache st)"
    using flags by blast
  then show ?thesis
  proof cases
    case marked
    with k undecided_no_delta(2) [OF assms(2)] show ?thesis
      by (intro offline_doneI [where ps = "[]"]) (simp_all add: OfflinedeltaTure_def)
  next
    case local
    with k undecided_no_delta(1) [OF assms(2)] len show ?thesis
      by (intro offline_doneI [where ps = "[(addr_base (o_chunkAddr x), o_chunkHash x)]"]) (simp_all add: OfflinedeltaTure_def)
  next
    case none
    then have "OfflinedeltaTure t Local_Flag e x bm st = Inr (e, x, bm @ [], st)"
      by (simp add: OfflinedeltaTure_def base_from_disk_def fetch_base_def cache_base_def Let_def)
    moreover have "decided E S (sworld t st) (outdb st) m e x"
      using assms(2) none by (auto simp: undecided_def decided_def loaded_query_def)
    ultimately show ?thesis using k by (intro offline_doneI [where ps = "[]"]) simp_all
  next
    case cached
    from base_from_cache_ok [OF assms(1,2) cached(3) assms(3,4) cached(4)] obtain e' x' st' where
      "base_from_cache e x st = Inr (e', x', st')" "keeps t 0 st st'" "decided E S (sworld t st') (outdb st) m e' x'" by blast
    with cached show ?thesis by (intro offline_doneI [where ps = "[]"]) (simp_all add: OfflinedeltaTure_def)
  next
    case disk
    from base_from_disk_ok [OF assms(1,2) disk(3) assms(3,4) disk(4) assms(5)] obtain e' x' st' where
      "base_from_disk t e x st = Inr (e', x', st')" "keeps t 0 st st'" "decided E S (sworld t st') (outdb st) m e' x'" by blast
    with disk show ?thesis by (intro offline_doneI [where ps = "[]"]) (simp_all add: OfflinedeltaTure_def)
  qed
qed

section \<open>The delta\<close>

definition delta_of :: "enclave \<Rightarrow> bytes set \<Rightarrow> (container_name \<Rightarrow> bytes option) \<Rightarrow> InMemoryDatabase \<Rightarrow> fp \<Rightarrow> bytes \<Rightarrow> bytes \<Rightarrow> bool" where
  "delta_of E S w db h m d \<longleftrightarrow>
    (\<exists>mb \<in> S. h = keyof E mb \<and> base_at E w db mb \<and> EDeltaDecode d (length d) (base_text E mb) = Inr m)"

lemma ProcessDeltachunk_ok:
  assumes "evp_ok (ssl E)" "lz4_ok E" "chunk_ok m" "\<forall>mb \<in> S. chunk_ok mb \<and> starts_paced m (base_text E mb)"
    "delta_ready E S (sworld t st) (outdb st) e x" "o_deltaFlag x = delta_code DELTA" "disk_ok t st" "ht_ok st"
  shows "\<exists>d flag st'. ProcessDeltachunk E e x m st =
      Inr (d, e\<lparr>i_chunkAddr := (i_chunkAddr e)\<lparr>deltaFlag := flag\<rparr>\<rparr>, x\<lparr>o_deltaFlag := flag\<rparr>, st') \<and>
    flag = delta_code (if length d \<ge> length m then NO_DELTA else DELTA) \<and> keeps t 0 st st' \<and> sworld t st' = sworld t st \<and>
    delta_of E S (sworld t st) (outdb st) (basechunkHash (i_chunkAddr e)) m d"
proof -
  obtain mb c iv where mb: "mb \<in> S" "base_at E (sworld t st) (outdb st) mb" "basechunkHash (i_chunkAddr e) = keyof E mb"
      "read_chunk (o_container x) (addr_offset (i_basechunkAddr e)) (addr_length (i_basechunkAddr e)) = Some (c, iv)"
      "unat (addr_length (i_basechunkAddr e)) = length (plain_for E mb)"
      "DecryptionWithKeyIV (ssl E) CIPHER_TYPE (enclaveKey E) iv c = Inr (plain_for E mb)"
    using assms(5) by (auto simp: delta_ready_def)
  have len: "length (plain_for E mb) \<le> MAX_CHUNK_SIZE" "length (base_text E mb) < 2 ^ 31" "length m < 2 ^ 31" "m \<noteq> []"
    using assms(2,3,4) mb(1) length_plain_for [of E mb] length_base_text [of E mb]
    by (auto simp: chunk_ok_def size_consts)
  obtain us ht where us: "EDeltaEncode m (base_text E mb) (deltaBuffer st) (psHTable2 st) = Inr (enc_script us, ht)"
      "us \<noteq> []" "list_all (unit_ok (base_text E mb)) us" "run_script (base_text E mb) us = m" "ht_inv ht" "ht_items ht = {}"
    using EDeltaEncode_spec [of m "base_text E mb" "psHTable2 st" "deltaBuffer st"] len assms(4,8) mb(1) by (auto simp: ht_ok_def)
  let ?d = "enc_script us" and ?st = "st\<lparr>psHTable2 := ht, deltaBuffer := put (deltaBuffer st) 0 (enc_script us)\<rparr>"
  let ?f = "delta_code (if length ?d \<ge> length m then NO_DELTA else DELTA)"
  have dec: "EDeltaDecode ?d (length ?d) (base_text E mb) = Inr m" using decode_script [OF us(2,3)] us(4) by simp
  have "\<not> 2 * MAX_CHUNK_SIZE < unat (addr_length (i_basechunkAddr e))" using mb(5) len(1) by simp
  then have "ProcessDeltachunk E e x m st = Inr (?d, e\<lparr>i_chunkAddr := (i_chunkAddr e)\<lparr>deltaFlag := ?f\<rparr>\<rparr>, x\<lparr>o_deltaFlag := ?f\<rparr>, ?st)"
    using mb(4,6) us(1) assms(6) by (simp add: ProcessDeltachunk_def base_text_def of_edelta_def Let_def)
  moreover have "keeps t 0 st ?st"
    using assms(7) us(5,6) by (simp add: keeps_def disk_ok_def ht_ok_def env_def sworld_def world_le_refl)
  moreover have "sworld t ?st = sworld t st" by (simp add: sworld_def)
  ultimately show ?thesis using mb(1-3) dec unfolding delta_of_def by blast
qed

section \<open>Storing a unique chunk\<close>

text \<open>What a processed query entry says.\<close>

definition kept_at :: "enclave \<Rightarrow> bytes set \<Rightarrow> (container_name \<Rightarrow> bytes option) \<Rightarrow> InMemoryDatabase \<Rightarrow> bytes \<Rightarrow> RecipeEntry \<Rightarrow> byte \<Rightarrow> bool" where
  "kept_at E S w db m a flag \<longleftrightarrow> entry_wf a \<and>
    (base_chunk E w a m \<and> flag = delta_code NO_DELTA \<or> delta_chunk E S w db a m \<and> flag = delta_code DELTA)"

definition finished :: "enclave \<Rightarrow> bytes set \<Rightarrow> (container_name \<Rightarrow> bytes option) \<Rightarrow> InMemoryDatabase \<Rightarrow> bytes \<Rightarrow> OutQueryEntry \<Rightarrow> bool" where
  "finished E S w db m x \<longleftrightarrow> o_chunkHash x = keyof E m \<and> length (o_chunkAddr x) = RECIPE_ENTRY_SIZE \<and>
    (if m \<in> S then o_dedupFlag x = two_path_code DUPLICATE
     else o_dedupFlag x = two_path_code UNIQUE \<and> o_superfeature x = sf_of (ssl E) m \<and>
       (\<exists>a. AESCBCDec (ssl E) (indexQueryKey E) (o_chunkAddr x) = Inr (entry_image a) \<and> kept_at E S w db m a (o_deltaFlag x)))"

text \<open>The part of it that does not depend on how chunks are stored.\<close>

definition marked_entry :: "enclave \<Rightarrow> bytes set \<Rightarrow> bytes \<Rightarrow> OutQueryEntry \<Rightarrow> bool" where
  "marked_entry E S m x \<longleftrightarrow> o_chunkHash x = keyof E m \<and> length (o_chunkAddr x) = RECIPE_ENTRY_SIZE \<and>
    o_dedupFlag x = two_path_code (if m \<in> S then DUPLICATE else UNIQUE)"

lemma finished_marked: "finished E S w db m x \<Longrightarrow> marked_entry E S m x"
  by (auto simp: finished_def marked_entry_def split: if_splits)

lemma finished_dup: "m \<in> S \<Longrightarrow> marked_entry E S m x \<Longrightarrow> finished E S w db m x"
  by (simp add: finished_def marked_entry_def)

lemma kept_at_mono:
  assumes "world_le w w'" "kept_at E S w db m a flag"
  shows "kept_at E S w' db m a flag"
  using assms(2) base_chunk_mono [OF assms(1)] delta_chunk_mono [OF assms(1) db_le_refl order_refl]
  unfolding kept_at_def by blast

lemma finished_mono:
  assumes "world_le w w'" "finished E S w db m x"
  shows "finished E S w' db m x"
proof (cases "m \<in> S")
  case True
  then show ?thesis using assms(2) by (simp add: finished_def)
next
  case False
  then obtain a where "AESCBCDec (ssl E) (indexQueryKey E) (o_chunkAddr x) = Inr (entry_image a)" "kept_at E S w db m a (o_deltaFlag x)"
    using assms(2) by (auto simp: finished_def)
  with kept_at_mono [OF assms(1) this(2)] False assms(2) show ?thesis by (auto simp: finished_def)
qed

text \<open>The results of the two ways of storing: an address, the query entry, and what the loop counts.\<close>

definition saved_chunk ::
  "enclave \<Rightarrow> bytes set \<Rightarrow> string \<Rightarrow> bytes \<Rightarrow> InQueryEntry \<Rightarrow> OutQueryEntry \<Rightarrow> loop_st \<Rightarrow>
    fault + InQueryEntry \<times> OutQueryEntry \<times> loop_st \<Rightarrow> bool" where
  "saved_chunk E S t m e x ls r \<longleftrightarrow>
    (\<exists>a flag ls'. r = Inr (e\<lparr>i_chunkAddr := a\<rparr>, x\<lparr>o_deltaFlag := flag\<rparr>, ls') \<and> keeps t 1 (fst_st ls) (fst_st ls') \<and>
       kept_at E S (sworld t (fst_st ls')) (outdb (fst_st ls)) m a flag \<and> processNum ls' \<le> Suc (processNum ls) \<and>
       batch_basemap ls' = batch_basemap ls \<and> currentOffset ls' = currentOffset ls)"

lemma save_base_ok:
  assumes "evp_ok (ssl E)" "lz4_ok E" "chunk_ok m" "disk_ok t (fst_st ls)" "ht_ok (fst_st ls)"
    "con_times (up (fst_st ls)) < INT_MAX" "length (o_chunkHash x) = CHUNK_HASH_SIZE"
    "length (i_superfeature e) = 3 * CHUNK_HASH_SIZE" "sane (i_chunkAddr e)" "deltaFlag (i_chunkAddr e) = delta_code NO_DELTA"
  shows "saved_chunk E S t m e x ls (save_base E m e x ls)"
proof -
  let ?st = "fst_st ls"
  obtain a u where s: "ProcessSheUniqueChunk E (i_chunkAddr e) m (i_superfeature e) (o_chunkHash x) (up ?st) = Inr (a, u)"
      "disk_ok t (?st\<lparr>up := u\<rparr>)" "world_le (sworld t ?st) (sworld t (?st\<lparr>up := u\<rparr>))" "con_times u \<le> Suc (con_times (up ?st))"
      "entry_wf a" "deltaFlag a = delta_code NO_DELTA" "inRecipe u = inRecipe (up ?st)" "recipeFile u = recipeFile (up ?st)"
      "stored E (sworld t (?st\<lparr>up := u\<rparr>)) a (plain_for E m)"
    using store_chunk_ok [OF assms(1,2,4,6) _ assms(7,8,9), of m] assms(3,10) by (auto simp: chunk_ok_def plain_for_def)
  obtain sts where r: "save_base E m e x ls = Inr (e\<lparr>i_chunkAddr := a\<rparr>, x\<lparr>o_deltaFlag := delta_code NO_DELTA\<rparr>,
      ls\<lparr>fst_st := ?st\<lparr>up := u, stats := sts\<rparr>\<rparr>)" "uniqueChunkNum sts = uniqueChunkNum (stats ?st)" "logicalChunkNum sts = logicalChunkNum (stats ?st)"
    using s(1) by (simp add: save_base_def Let_def)
  let ?ls = "ls\<lparr>fst_st := ?st\<lparr>up := u, stats := sts\<rparr>\<rparr>"
  have w: "sworld t (?st\<lparr>up := u, stats := sts\<rparr>) = sworld t (?st\<lparr>up := u\<rparr>)" by (simp add: sworld_def)
  have "keeps t 1 ?st (fst_st ?ls)"
    using assms(5) s r(2,3) by (simp add: keeps_def w) (simp add: disk_ok_def ht_ok_def env_def)
  moreover have "kept_at E S (sworld t (fst_st ?ls)) (outdb ?st) m a (delta_code NO_DELTA)"
    using s(5,6,9) by (simp add: w kept_at_def base_chunk_def)
  ultimately show ?thesis unfolding saved_chunk_def r(1) by (intro exI [of _ a] exI [of _ "delta_code NO_DELTA"] exI [of _ ?ls]) simp
qed

lemma save_delta_ok:
  assumes "evp_ok (ssl E)" "lz4_ok E" "length d \<le> MAX_CHUNK_SIZE" "disk_ok t (fst_st ls)" "ht_ok (fst_st ls)"
    "con_times (up (fst_st ls)) < INT_MAX" "length (o_chunkHash x) = CHUNK_HASH_SIZE"
    "length (o_chunkAddr x) = RECIPE_ENTRY_SIZE"
    "length (i_superfeature e) = 3 * CHUNK_HASH_SIZE" "sane (i_chunkAddr e)" "deltaFlag (i_chunkAddr e) = delta_code DELTA"
    "delta_of E S (sworld t (fst_st ls)) (outdb (fst_st ls)) (basechunkHash (i_chunkAddr e)) m d" "processNum ls < 50000" "length d < length m"
  shows "saved_chunk E S t m e x ls (save_delta E d n e x ls)"
proof -
  let ?st = "fst_st ls"
  obtain a u where s: "ProcessSheUniqueChunk E (i_chunkAddr e) d (i_superfeature e) (o_chunkHash x) (up ?st) = Inr (a, u)"
      "disk_ok t (?st\<lparr>up := u\<rparr>)" "world_le (sworld t ?st) (sworld t (?st\<lparr>up := u\<rparr>))" "con_times u \<le> Suc (con_times (up ?st))"
      "entry_wf a" "deltaFlag a = delta_code DELTA" "basechunkHash a = basechunkHash (i_chunkAddr e)"
      "inRecipe u = inRecipe (up ?st)" "recipeFile u = recipeFile (up ?st)" "stored E (sworld t (?st\<lparr>up := u\<rparr>)) a d"
    using store_chunk_ok [OF assms(1,2,4,6,3,7,9,10)] assms(11) by (auto simp: plain_of_def)
  have "length (addr_base (o_chunkAddr x)) = CHUNK_HASH_SIZE"
    using assms(8) by (simp add: addr_base_def RECIPE_ENTRY_SIZE_def CHUNK_HASH_SIZE_def)
  then obtain b where b: "memcpyE PROCESS_BUFFER_SIZE (process_buffer ?st) (2 * processNum ls * CHUNK_HASH_SIZE)
      (addr_base (o_chunkAddr x) @ o_chunkHash x) = Inr b"
    using assms(7,13) by (simp add: memcpyE_def PROCESS_BUFFER_SIZE_def CHUNK_HASH_SIZE_def)
  obtain sts where r: "save_delta E d n e x ls = Inr (e\<lparr>i_chunkAddr := a\<rparr>, x\<lparr>o_deltaFlag := delta_code DELTA\<rparr>,
      ls\<lparr>processNum := Suc (processNum ls), fst_st := ?st\<lparr>up := u, process_buffer := b, stats := sts\<rparr>\<rparr>)"
      "uniqueChunkNum sts = uniqueChunkNum (stats ?st)" "logicalChunkNum sts = logicalChunkNum (stats ?st)"
    using s(1) b by (simp add: save_delta_def Let_def)
  let ?ls = "ls\<lparr>processNum := Suc (processNum ls), fst_st := ?st\<lparr>up := u, process_buffer := b, stats := sts\<rparr>\<rparr>"
  have w: "sworld t (?st\<lparr>up := u, process_buffer := b, stats := sts\<rparr>) = sworld t (?st\<lparr>up := u\<rparr>)" by (simp add: sworld_def)
  have "keeps t 1 ?st (fst_st ?ls)"
    using assms(5) s r(2,3) by (simp add: keeps_def w) (simp add: disk_ok_def ht_ok_def env_def)
  moreover have "kept_at E S (sworld t (fst_st ?ls)) (outdb ?st) m a (delta_code DELTA)"
    using s(5,6,7,10) assms(12) less_imp_le [OF assms(14)] base_at_mono [OF s(3) db_le_refl] by (auto simp: w kept_at_def delta_chunk_def delta_of_def)
  ultimately show ?thesis unfolding saved_chunk_def r(1) by (intro exI [of _ a] exI [of _ "delta_code DELTA"] exI [of _ ?ls]) simp
qed

text \<open>The fields of the two entries that do not depend on the decision.\<close>

definition marked_unique :: "enclave \<Rightarrow> bytes \<Rightarrow> InQueryEntry \<Rightarrow> OutQueryEntry \<Rightarrow> bool" where
  "marked_unique E m e x \<longleftrightarrow> entry_for E m e \<and> i_dedupFlag e = two_path_code UNIQUE \<and> i_superfeature e = sf_of (ssl E) m \<and>
     o_chunkHash x = keyof E m \<and> length (o_chunkAddr x) = RECIPE_ENTRY_SIZE \<and> o_dedupFlag x = two_path_code UNIQUE \<and>
     o_superfeature x = sf_of (ssl E) m"

lemma marked_uniqueD:
  assumes "marked_unique E m e x" "evp_ok (ssl E)"
  shows "sane (i_chunkAddr e)" "length (o_chunkHash x) = CHUNK_HASH_SIZE" "length (o_chunkAddr x) = RECIPE_ENTRY_SIZE"
    "length (i_superfeature e) = 3 * CHUNK_HASH_SIZE"
proof -
  have "length (sf_of (ssl E) m) = 3 * CHUNK_HASH_SIZE" using getSF2_ok(2) [OF assms(2), of m "replicate WINDOW_SIZE 0"] by simp
  then show "sane (i_chunkAddr e)" "length (o_chunkHash x) = CHUNK_HASH_SIZE" "length (o_chunkAddr x) = RECIPE_ENTRY_SIZE"
    "length (i_superfeature e) = 3 * CHUNK_HASH_SIZE"
    using assms(1) length_keyof [OF assms(2)] by (simp_all add: marked_unique_def entry_for_def)
qed

text \<open>The outcome of the compression: the chunk itself, or a delta that is shorter.\<close>

definition compressed ::
  "enclave \<Rightarrow> bytes set \<Rightarrow> (container_name \<Rightarrow> bytes option) \<Rightarrow> InMemoryDatabase \<Rightarrow> bytes \<Rightarrow> bytes \<Rightarrow> InQueryEntry \<Rightarrow> bool" where
  "compressed E S w db m delta e \<longleftrightarrow> deltaFlag (i_chunkAddr e) = delta_code NO_DELTA \<or>
     deltaFlag (i_chunkAddr e) = delta_code DELTA \<and> length delta < length m \<and> delta_of E S w db (basechunkHash (i_chunkAddr e)) m delta"

lemma compress_ok:
  assumes "evp_ok (ssl E)" "lz4_ok E" "chunk_ok m" "\<forall>mb \<in> S. chunk_ok mb \<and> starts_paced m (base_text E mb)"
    "decided E S (sworld t st) (outdb st) m e x" "disk_ok t st" "ht_ok st"
  shows "\<exists>delta e' x' st'. (if o_deltaFlag x = delta_code DELTA then ProcessDeltachunk E e x m st else Inr ([], e, x, st)) =
      Inr (delta, e', x', st') \<and> keeps t 0 st st' \<and> marked_unique E m e' x' \<and> compressed E S (sworld t st') (outdb st') m delta e'"
proof -
  have mu: "marked_unique E m e x" using assms(5) by (simp add: decided_def marked_unique_def)
  have nd: "deltaFlag (i_chunkAddr e) = delta_code NO_DELTA" using assms(5) by (simp add: decided_def)
  show ?thesis
  proof (cases "o_deltaFlag x = delta_code DELTA")
    case False
    with mu nd keeps_refl [OF assms(6,7)] show ?thesis by (auto simp: compressed_def)
  next
    case True
    then have "delta_ready E S (sworld t st) (outdb st) e x" using assms(5) by (simp add: decided_def)
    from ProcessDeltachunk_ok [OF assms(1-4) this True assms(6,7)] obtain d flag st' where
        p: "ProcessDeltachunk E e x m st = Inr (d, e\<lparr>i_chunkAddr := (i_chunkAddr e)\<lparr>deltaFlag := flag\<rparr>\<rparr>, x\<lparr>o_deltaFlag := flag\<rparr>, st')"
          "flag = delta_code (if length d \<ge> length m then NO_DELTA else DELTA)" "keeps t 0 st st'" "sworld t st' = sworld t st"
          "delta_of E S (sworld t st) (outdb st) (basechunkHash (i_chunkAddr e)) m d" by blast
    let ?e = "e\<lparr>i_chunkAddr := (i_chunkAddr e)\<lparr>deltaFlag := flag\<rparr>\<rparr>" and ?x = "x\<lparr>o_deltaFlag := flag\<rparr>"
    have "marked_unique E m ?e ?x" using mu by (simp add: marked_unique_def entry_for_def sane_def)
    moreover have "outdb st' = outdb st" using p(3) by (simp add: keeps_def env_def)
    then have "compressed E S (sworld t st') (outdb st') m d ?e" using p(2,4,5) by (auto simp: compressed_def)
    ultimately show ?thesis using True p(1,3) by auto
  qed
qed

definition save_decided where
  "save_decided E delta m e x ls =
    (if deltaFlag (i_chunkAddr e) = delta_code DELTA then save_delta E delta (length m) e x ls
     else if deltaFlag (i_chunkAddr e) = delta_code NO_DELTA then save_base E m e x ls else Inr (e, x, ls))"

lemma save_decided_ok:
  assumes "evp_ok (ssl E)" "lz4_ok E" "chunk_ok m" "disk_ok t (fst_st ls)" "ht_ok (fst_st ls)"
    "con_times (up (fst_st ls)) < INT_MAX" "processNum ls < 50000" "marked_unique E m e x"
    "compressed E S (sworld t (fst_st ls)) (outdb (fst_st ls)) m delta e"
  shows "saved_chunk E S t m e x ls (save_decided E delta m e x ls)"
proof (cases "deltaFlag (i_chunkAddr e) = delta_code NO_DELTA")
  case True
  then show ?thesis
    using save_base_ok [OF assms(1-6), of x e S] marked_uniqueD [OF assms(8,1)] by (simp add: save_decided_def)
next
  case False
  then have d: "deltaFlag (i_chunkAddr e) = delta_code DELTA" "length delta < length m"
      "delta_of E S (sworld t (fst_st ls)) (outdb (fst_st ls)) (basechunkHash (i_chunkAddr e)) m delta"
    using assms(9) by (simp_all add: compressed_def)
  then have "length delta \<le> MAX_CHUNK_SIZE" using assms(3) by (simp add: chunk_ok_def)
  then show ?thesis
    using save_delta_ok [OF assms(1,2) _ assms(4-6), of delta x e S m "length m"] marked_uniqueD [OF assms(8,1)] d assms(7)
    by (simp add: save_decided_def)
qed

definition count_unique :: "nat \<Rightarrow> freq_st \<Rightarrow> freq_st" where
  "count_unique n st = st\<lparr>stats := (stats st)\<lparr>uniqueChunkNum := uniqueChunkNum (stats st) + 1,
     uniqueDataSize := uniqueDataSize (stats st) + word_of_nat n\<rparr>\<rparr>"

definition pairs_ok :: "(fp \<times> fp) list \<Rightarrow> bool" where
  "pairs_ok ps \<longleftrightarrow> (\<forall>(a, b) \<in> set ps. length a = CHUNK_HASH_SIZE \<and> length b = CHUNK_HASH_SIZE)"

text \<open>
  What storing a chunk that is unique inside and outside may rely on, and what it has to achieve:
  the query entry leads to the chunk, nothing readable is lost, at most one container identifier is
  used and at most one pair is left to the offline pass. \<open>qry\<close> says what is known of the two entries
  before and \<open>fin\<close> what the query entry has to say afterwards.
\<close>

type_synonym query_spec =
  "enclave \<Rightarrow> bytes set \<Rightarrow> (container_name \<Rightarrow> bytes option) \<Rightarrow> InMemoryDatabase \<Rightarrow> bytes \<Rightarrow> InQueryEntry \<Rightarrow> OutQueryEntry \<Rightarrow> bool"

type_synonym entry_spec =
  "enclave \<Rightarrow> bytes set \<Rightarrow> (container_name \<Rightarrow> bytes option) \<Rightarrow> InMemoryDatabase \<Rightarrow> bytes \<Rightarrow> OutQueryEntry \<Rightarrow> bool"

definition store_pre ::
  "query_spec \<Rightarrow> enclave \<Rightarrow> bytes set \<Rightarrow> string \<Rightarrow> bytes \<Rightarrow> InQueryEntry \<Rightarrow> OutQueryEntry \<Rightarrow> loop_st \<Rightarrow> bool" where
  "store_pre qry E S t m e x ls \<longleftrightarrow> chunk_ok m \<and> m \<notin> S \<and>
     asked E S (outdb (fst_st ls)) (qry E S (sworld t (fst_st ls)) (outdb (fst_st ls))) m e x \<and>
     entry_for E m e \<and> i_dedupFlag e = two_path_code UNIQUE \<and> disk_ok t (fst_st ls) \<and> ht_ok (fst_st ls) \<and>
     con_times (up (fst_st ls)) < INT_MAX \<and> processNum ls < 50000"

definition store_post ::
  "entry_spec \<Rightarrow> enclave \<Rightarrow> bytes set \<Rightarrow> string \<Rightarrow> bytes \<Rightarrow> loop_st \<Rightarrow> fault + InQueryEntry \<times> OutQueryEntry \<times> loop_st \<Rightarrow> bool" where
  "store_post fin E S t m ls r \<longleftrightarrow>
    (\<exists>e' x' ps ls' st'. r = Inr (e', x', ls') \<and> keeps t 1 (fst_st ls) st' \<and>
       fst_st ls' = count_unique (length m) st' \<and> fin E S (sworld t st') (outdb (fst_st ls)) m x' \<and>
       entry_for E m e' \<and> i_dedupFlag e' = two_path_code UNIQUE \<and> processNum ls' \<le> Suc (processNum ls) \<and>
       batch_basemap ls' = batch_basemap ls @ ps \<and> length ps \<le> 1 \<and> pairs_ok ps \<and> currentOffset ls' = currentOffset ls)"

lemma store_preD:
  assumes "store_pre qry E S t m e x ls"
  shows "chunk_ok m" "m \<notin> S" "asked E S (outdb (fst_st ls)) (qry E S (sworld t (fst_st ls)) (outdb (fst_st ls))) m e x"
    "entry_for E m e" "i_dedupFlag e = two_path_code UNIQUE" "disk_ok t (fst_st ls)" "ht_ok (fst_st ls)"
    "con_times (up (fst_st ls)) < INT_MAX" "processNum ls < 50000"
  using assms unfolding store_pre_def by blast+

text \<open>Both flags are cleared before the decision.\<close>

definition no_delta :: "InQueryEntry \<Rightarrow> InQueryEntry" where
  "no_delta e = e\<lparr>i_deltaFlag := delta_code NO_DELTA, i_chunkAddr := (i_chunkAddr e)\<lparr>deltaFlag := delta_code NO_DELTA\<rparr>\<rparr>"

lemma store_undecided:
  "store_pre loaded_query E S t m e x ls \<Longrightarrow> undecided E S (sworld t (fst_st ls)) (outdb (fst_st ls)) m (no_delta e) x"
  by (auto simp: store_pre_def no_delta_def undecided_def asked_def entry_for_def sane_def loaded_query_def)

text \<open>The end of the storing: the encrypted address goes to the query entry, the chunk is counted.\<close>

definition seal_entry where
  "seal_entry E n r =
    bindE r (\<lambda>(e4, o4, ls4).
    bindE (AESCBCEnc (ssl E) (indexQueryKey E) (entry_image (i_chunkAddr e4))) (\<lambda>c.
      Inr (e4, o4\<lparr>o_chunkAddr := c\<rparr>, ls4\<lparr>fst_st := count_unique n (fst_st ls4)\<rparr>)))"

lemma seal_entry_ok:
  assumes "evp_ok (ssl E)" "m \<notin> S" "keeps t 0 (fst_st ls) (fst_st lt)" "marked_unique E m e3 x3"
    "saved_chunk E S t m e3 x3 lt r" "batch_basemap lt = batch_basemap ls @ ps" "length ps \<le> 1" "pairs_ok ps"
    "processNum lt = processNum ls" "currentOffset lt = currentOffset ls"
  shows "store_post finished E S t m ls (seal_entry E (length m) r)"
proof -
  let ?st = "fst_st ls"
  have db: "outdb (fst_st lt) = outdb ?st" using assms(3) by (simp add: keeps_def env_def)
  obtain a flag ls4 where
      s: "r = Inr (e3\<lparr>i_chunkAddr := a\<rparr>, x3\<lparr>o_deltaFlag := flag\<rparr>, ls4)" "keeps t 1 (fst_st lt) (fst_st ls4)"
        "kept_at E S (sworld t (fst_st ls4)) (outdb ?st) m a flag" "processNum ls4 \<le> Suc (processNum ls)"
        "batch_basemap ls4 = batch_basemap ls @ ps" "currentOffset ls4 = currentOffset ls"
    using assms(5,6,9,10) by (auto simp: saved_chunk_def db)
  have a: "entry_wf a" using s(3) by (simp add: kept_at_def)
  then have "CRYPTO_BLOCK_SIZE dvd length (entry_image a)" by (simp add: RECIPE_ENTRY_SIZE_def CRYPTO_BLOCK_SIZE_def)
  from AESCBC_ok [OF assms(1) this, of "indexQueryKey E"] a obtain v where
      v: "AESCBCEnc (ssl E) (indexQueryKey E) (entry_image a) = Inr v" "length v = RECIPE_ENTRY_SIZE"
        "AESCBCDec (ssl E) (indexQueryKey E) v = Inr (entry_image a)" by auto
  let ?x = "x3\<lparr>o_deltaFlag := flag, o_chunkAddr := v\<rparr>" and ?e = "e3\<lparr>i_chunkAddr := a\<rparr>"
  have "seal_entry E (length m) r = Inr (?e, ?x, ls4\<lparr>fst_st := count_unique (length m) (fst_st ls4)\<rparr>)"
    using s(1) v(1) by (simp add: seal_entry_def)
  moreover have "keeps t 1 ?st (fst_st ls4)" using keeps_trans [OF assms(3) s(2)] by simp
  moreover have "finished E S (sworld t (fst_st ls4)) (outdb ?st) m ?x"
    using assms(2,4) v s(3) by (auto simp: finished_def marked_unique_def)
  moreover have "entry_for E m ?e" "i_dedupFlag ?e = two_path_code UNIQUE"
    using assms(4) entry_wf_sane [OF a] by (simp_all add: marked_unique_def entry_for_def)
  ultimately show ?thesis using s(4-6) assms(7,8) unfolding store_post_def
    by (intro exI [of _ ?e] exI [of _ ?x] exI [of _ ps] exI [of _ "ls4\<lparr>fst_st := count_unique (length m) (fst_st ls4)\<rparr>"] exI [of _ "fst_st ls4"]) simp
qed

text \<open>A delta against any chunk in the index starts paced.\<close>

definition paced :: "enclave \<Rightarrow> bytes set \<Rightarrow> bytes \<Rightarrow> bool" where
  "paced E S m \<longleftrightarrow> (\<forall>mb \<in> S. chunk_ok mb \<and> starts_paced m (base_text E mb))"

lemma store_unique_ok:
  assumes "evp_ok (ssl E)" "lz4_ok E" "paced E S m" "untorn x (fst_st ls)" "store_pre loaded_query E S t m e x ls"
  shows "store_post finished E S t m ls (store_unique E t Local_Flag m e x ls)"
proof -
  let ?st = "fst_st ls"
  note p = store_preD [OF assms(5)]
  from OfflinedeltaTure_ok [OF assms(1) store_undecided [OF assms(5)] p(6,7) assms(4), of "batch_basemap ls" Local_Flag] obtain e2 x2 ps st2 where
      o: "OfflinedeltaTure t Local_Flag (no_delta e) x (batch_basemap ls) ?st = Inr (e2, x2, batch_basemap ls @ ps, st2)" "keeps t 0 ?st st2"
        "decided E S (sworld t st2) (outdb ?st) m e2 x2" "length ps \<le> 1" "pairs_ok ps"
    by (auto simp: offline_done_def pairs_ok_def)
  have st2: "disk_ok t st2" "ht_ok st2" "outdb st2 = outdb ?st" using o(2) by (auto simp: keeps_def env_def)
  from compress_ok [OF assms(1,2) p(1) assms(3) [unfolded paced_def] _ st2(1,2)] o(3) st2(3) obtain delta e3 x3 st3 where
      c: "(if o_deltaFlag x2 = delta_code DELTA then ProcessDeltachunk E e2 x2 m st2 else Inr ([], e2, x2, st2)) = Inr (delta, e3, x3, st3)"
        "keeps t 0 st2 st3" "marked_unique E m e3 x3" "compressed E S (sworld t st3) (outdb st3) m delta e3"
    by metis
  let ?ls3 = "ls\<lparr>fst_st := st3, batch_basemap := batch_basemap ls @ ps\<rparr>"
  have k: "keeps t 0 ?st st3" using keeps_trans [OF o(2) c(2)] by simp
  then have st3: "disk_ok t st3" "ht_ok st3" "con_times (up st3) < INT_MAX" using p(8) by (auto simp: keeps_def)
  have "saved_chunk E S t m e3 x3 ?ls3 (save_decided E delta m e3 x3 ?ls3)"
    using st3 p(9) c(3,4) by (intro save_decided_ok [OF assms(1,2) p(1)]) simp_all
  then have "store_post finished E S t m ls (seal_entry E (length m) (save_decided E delta m e3 x3 ?ls3))"
    using k o(4,5) by (intro seal_entry_ok [OF assms(1) p(2) _ c(3), where lt = ?ls3]) simp_all
  moreover have "store_unique E t Local_Flag m e x ls = seal_entry E (length m) (save_decided E delta m e3 x3 ?ls3)"
    using o(1) c(1) unfolding store_unique_def save_decided_def no_delta_def seal_entry_def by (simp add: Let_def count_unique_def)
  ultimately show ?thesis by simp
qed

section \<open>One chunk\<close>

lemma loaded_query_mono:
  assumes "world_le w w'" "loaded_query E S w db m e x"
  shows "loaded_query E S w' db m e x"
proof -
  have "base_at E w db mb \<Longrightarrow> base_at E w' db mb" for mb by (rule base_at_mono [OF assms(1) db_le_refl])
  moreover have "base_chunk E w a mb \<Longrightarrow> base_chunk E w' a mb" for a mb by (rule base_chunk_mono [OF assms(1)])
  ultimately show ?thesis using assms(2) unfolding loaded_query_def by blast
qed

text \<open>
  The interface between the loop over a batch and the indexes. An index says what it knows of the
  entries of a chunk before and after the storing; both stay true when containers grow. A
  storer is a way of storing a chunk that does what \<open>store_post\<close> asks for, for chunks that meet the
  condition \<open>ok\<close>, while the writer meets the condition \<open>calm\<close>. The loop is verified once for all of them.
\<close>

locale entry_contract =
  fixes qry :: query_spec and fin :: entry_spec
  assumes qry_mono: "world_le w w' \<Longrightarrow> qry E S w db m e x \<Longrightarrow> qry E S w' db m e x"
    and fin_mono: "world_le w w' \<Longrightarrow> fin E S w db m x \<Longrightarrow> fin E S w' db m x"
    and fin_marked: "fin E S w db m x \<Longrightarrow> marked_entry E S m x"
    and fin_dup: "m \<in> S \<Longrightarrow> marked_entry E S m x \<Longrightarrow> fin E S w db m x"
begin

lemma asked_mono: "world_le w w' \<Longrightarrow> asked E S db (qry E S w db) m e x \<Longrightarrow> asked E S db (qry E S w' db) m e x"
  using qry_mono by (auto simp: asked_def split: if_splits)

lemma all_fin_mono: "world_le w w' \<Longrightarrow> list_all2 (fin E S w db) dn xs \<Longrightarrow> list_all2 (fin E S w' db) dn xs"
  by (erule list_all2_mono) (rule fin_mono)

lemma fin_length: "fin E S w db m x \<Longrightarrow> length (o_chunkAddr x) = RECIPE_ENTRY_SIZE"
  using fin_marked by (simp add: marked_entry_def)

end

locale unique_storer = entry_contract +
  fixes ok :: "enclave \<Rightarrow> bytes set \<Rightarrow> bytes \<Rightarrow> bool" and calm :: "OutQueryEntry \<Rightarrow> freq_st \<Rightarrow> bool"
    and store :: "enclave \<Rightarrow> string \<Rightarrow> storer"
  assumes store_ok: "evp_ok (ssl E) \<Longrightarrow> lz4_ok E \<Longrightarrow> ok E S m \<Longrightarrow> calm x (fst_st ls) \<Longrightarrow> store_pre qry E S t m e x ls \<Longrightarrow>
    store_post fin E S t m ls (store E t m e x ls)"
begin

lemma out_unique_ok:
  assumes "evp_ok (ssl E)" "lz4_ok E" "chunk_ok m" "ok E S m" "index_ok E S (outdb (fst_st ls))"
    "asked E S (outdb (fst_st ls)) (qry E S (sworld t (fst_st ls)) (outdb (fst_st ls))) m
       (inQueryBase (fst_st ls) ! i) (outQueryBase (fst_st ls) ! currNum (fst_st ls))"
    "entry_for E m (inQueryBase (fst_st ls) ! i)" "i_dedupFlag (inQueryBase (fst_st ls) ! i) = two_path_code UNIQUE"
    "disk_ok t (fst_st ls)" "ht_ok (fst_st ls)" "con_times (up (fst_st ls)) < INT_MAX" "processNum ls < 50000"
    "currNum (fst_st ls) < length (outQueryBase (fst_st ls))"
    "calm (outQueryBase (fst_st ls) ! currNum (fst_st ls)) (fst_st ls)"
  shows "\<exists>e' x' ps ls' st'. out_unique E (store E t) m i ls = Inr ls' \<and> keeps t 1 (fst_st ls) st' \<and>
    fst_st ls' = (if m \<in> S then st' else count_unique (length m) st')
      \<lparr>inQueryBase := (inQueryBase (fst_st ls))[i := e'], outQueryBase := (outQueryBase (fst_st ls))[currNum (fst_st ls) := x'],
       currNum := Suc (currNum (fst_st ls))\<rparr> \<and>
    fin E S (sworld t st') (outdb (fst_st ls)) m x' \<and> entry_for E m e' \<and> i_dedupFlag e' = two_path_code UNIQUE \<and>
    processNum ls' \<le> Suc (processNum ls) \<and> batch_basemap ls' = batch_basemap ls @ ps \<and> length ps \<le> 1 \<and> pairs_ok ps \<and>
    currentOffset ls' = currentOffset ls"
proof -
  let ?st = "fst_st ls"
  let ?k = "currNum ?st" and ?e = "inQueryBase ?st ! i"
  let ?x = "outQueryBase ?st ! ?k"
  show ?thesis
  proof (cases "m \<in> S")
    case True
    then have x: "o_dedupFlag ?x = two_path_code DUPLICATE" "indexObj (outdb ?st) (keyof E m) = Some (o_chunkAddr ?x)"
        "o_chunkHash ?x = keyof E m" "length (o_chunkAddr ?x) = RECIPE_ENTRY_SIZE"
      using assms(6) by (simp_all add: asked_def)
    obtain a where a: "addr_at E (outdb ?st) (keyof E m) a" using assms(5) True unfolding index_ok_def by blast
    then have dec: "AESCBCDec (ssl E) (indexQueryKey E) (o_chunkAddr ?x) = Inr (entry_image a)" "entry_wf a"
      using x(2) by (auto simp: addr_at_def)
    have im: "entry_of (entry_image a) = a" using entry_of_image [OF dec(2), of "[]"] by simp
    let ?e' = "?e\<lparr>i_chunkAddr := a\<rparr>"
    let ?ls = "ls\<lparr>fst_st := ?st\<lparr>inQueryBase := (inQueryBase ?st)[i := ?e'], outQueryBase := (outQueryBase ?st)[?k := ?x], currNum := Suc ?k\<rparr>\<rparr>"
    have "out_unique E (store E t) m i ls = Inr ?ls"
      using assms(13) x(1) dec(1) im by (simp add: out_unique_def Let_def)
    moreover have "fin E S (sworld t ?st) (outdb ?st) m ?x" using x True by (intro fin_dup) (simp_all add: marked_entry_def)
    moreover have "entry_for E m ?e'" using assms(7) entry_wf_sane [OF dec(2)] by (simp add: entry_for_def)
    moreover have "keeps t 1 ?st ?st" using assms(9,10) by (simp add: keeps_def world_le_refl)
    ultimately show ?thesis
      using True assms(8) by (intro exI [of _ ?e'] exI [of _ ?x] exI [of _ "[]"] exI [of _ ?ls] exI [of _ ?st]) (simp add: pairs_ok_def)
  next
    case False
    have "store_pre qry E S t m ?e ?x ls" using assms(3,6-12) False by (simp add: store_pre_def)
    from store_ok [OF assms(1,2,4,14) this] obtain e' x' ps ls' st' where
        s: "store E t m ?e ?x ls = Inr (e', x', ls')" "keeps t 1 ?st st'" "fst_st ls' = count_unique (length m) st'"
          "fin E S (sworld t st') (outdb ?st) m x'" "entry_for E m e'" "i_dedupFlag e' = two_path_code UNIQUE"
          "processNum ls' \<le> Suc (processNum ls)" "batch_basemap ls' = batch_basemap ls @ ps" "length ps \<le> 1" "pairs_ok ps"
          "currentOffset ls' = currentOffset ls" unfolding store_post_def by blast
    have frame: "inQueryBase (fst_st ls') = inQueryBase ?st" "outQueryBase (fst_st ls') = outQueryBase ?st"
      using s(2,3) by (simp_all add: keeps_def env_def count_unique_def)
    have u: "o_dedupFlag ?x = two_path_code UNIQUE" using False assms(6) by (simp add: asked_def)
    let ?ls = "ls'\<lparr>fst_st := (fst_st ls')\<lparr>inQueryBase := (inQueryBase ?st)[i := e'], outQueryBase := (outQueryBase ?st)[?k := x'], currNum := Suc ?k\<rparr>\<rparr>"
    have "out_unique E (store E t) m i ls = Inr ?ls"
      using assms(13) u s(1) frame by (simp add: out_unique_def Let_def)
    then show ?thesis
      using False s by (intro exI [of _ e'] exI [of _ x'] exI [of _ ps] exI [of _ ?ls] exI [of _ st']) simp
  qed
qed

end

interpretation freq: unique_storer loaded_query finished paced untorn "\<lambda>E t. store_unique E t Local_Flag" for Local_Flag
  by unfold_locales (fact loaded_query_mono finished_mono finished_marked finished_dup store_unique_ok)+

end
