(* ===== verification/FreqBatch.thy ===== *)
theory FreqBatch
  imports FreqLoop
begin

text \<open>
  The main loop over a batch: its invariant, the body, and the loop.
\<close>

section \<open>The loop invariant\<close>

text \<open>What is fixed when the loop starts.\<close>

record loop_ctx =
  c_world :: "container_name \<Rightarrow> bytes option"
  c_db :: InMemoryDatabase
  c_heap :: EntryHeap
  c_recv :: bytes
  c_news :: "bytes list"
  c_fps :: "fp list"
  c_times :: nat
  c_unique :: u64
  c_logical :: u64
  c_size :: nat

text \<open>The entries after \<open>i\<close> chunks: \<open>dn\<close> are the chunks asked outside that are done.\<close>

definition done_inv :: "entry_spec \<Rightarrow> enclave \<Rightarrow> bytes set \<Rightarrow> string \<Rightarrow> loop_ctx \<Rightarrow> bytes list \<Rightarrow> nat \<Rightarrow> freq_st \<Rightarrow> bytes list \<Rightarrow> bool" where
  "done_inv fin E S t C ms i st dn \<longleftrightarrow> length dn = currNum st \<and>
     list_all2 (fin E S (sworld t st) (c_db C)) dn (take (currNum st) (outQueryBase st)) \<and>
     dn @ news (drop i ms) (drop i (take (length ms) (inQueryBase st))) = c_news C \<and>
     uniqueChunkNum (stats st) = c_unique C + word_of_nat (length (filter (\<lambda>m. m \<notin> S) dn))"

definition frame_inv :: "string \<Rightarrow> loop_ctx \<Rightarrow> freq_st \<Rightarrow> bool" where
  "frame_inv t C st \<longleftrightarrow> disk_ok t st \<and> ht_ok st \<and> world_le (c_world C) (sworld t st) \<and>
     recvBuffer st = c_recv C \<and> outdb st = c_db C \<and> insideDedupIndex st = c_heap C"

definition count_inv :: "loop_ctx \<Rightarrow> nat \<Rightarrow> freq_st \<Rightarrow> nat \<Rightarrow> (fp \<times> fp) list \<Rightarrow> bool" where
  "count_inv C i st pn bm \<longleftrightarrow> pn \<le> i \<and> length bm \<le> i \<and> pairs_ok bm \<and> con_times (up st) \<le> c_times C + i"

definition list_inv :: "enclave \<Rightarrow> loop_ctx \<Rightarrow> bytes list \<Rightarrow> InQueryEntry list \<Rightarrow> OutQueryEntry list \<Rightarrow> bool" where
  "list_inv E C ms iq oq \<longleftrightarrow> length iq = c_size C \<and> length oq = c_size C \<and>
     (\<forall>e \<in> set iq. sane (i_chunkAddr e)) \<and> (\<forall>x \<in> set oq. length (o_chunkAddr x) = RECIPE_ENTRY_SIZE) \<and>
     list_all2 (entry_for E) ms (take (length ms) iq)"

definition todo_inv :: "query_spec \<Rightarrow> enclave \<Rightarrow> bytes set \<Rightarrow> loop_ctx \<Rightarrow> bytes list \<Rightarrow> nat \<Rightarrow> InQueryEntry list \<Rightarrow> OutQueryEntry list \<Rightarrow> bool" where
  "todo_inv qry E S C ms i iq oq \<longleftrightarrow>
     paired E (asked E S (c_db C) (qry E S (c_world C) (c_db C))) (drop i ms) (drop i (take (length ms) iq)) oq"

definition ent_inv ::
  "query_spec \<Rightarrow> entry_spec \<Rightarrow> enclave \<Rightarrow> bytes set \<Rightarrow> string \<Rightarrow> loop_ctx \<Rightarrow> bytes list \<Rightarrow> nat \<Rightarrow> freq_st \<Rightarrow> nat \<Rightarrow> (fp \<times> fp) list \<Rightarrow> bool" where
  "ent_inv qry fin E S t C ms i st pn bm \<longleftrightarrow> frame_inv t C st \<and> count_inv C i st pn bm \<and> list_inv E C ms (inQueryBase st) (outQueryBase st) \<and>
     todo_inv qry E S C ms i (inQueryBase st) (drop (currNum st) (outQueryBase st)) \<and> (\<exists>dn. done_inv fin E S t C ms i st dn)"

definition rec_inv :: "enclave \<Rightarrow> loop_ctx \<Rightarrow> bytes list \<Rightarrow> nat \<Rightarrow> freq_st \<Rightarrow> nat \<Rightarrow> bool" where
  "rec_inv E C ms i st off \<longleftrightarrow> recipe_inv E (c_fps C @ map (hashfp E) (take i ms)) (up st) \<and>
     off = length (frames (take i ms)) \<and> logicalChunkNum (stats st) = c_logical C + word_of_nat i"

definition loop_inv :: "query_spec \<Rightarrow> entry_spec \<Rightarrow> enclave \<Rightarrow> bytes set \<Rightarrow> string \<Rightarrow> loop_ctx \<Rightarrow> bytes list \<Rightarrow> nat \<Rightarrow> loop_st \<Rightarrow> bool" where
  "loop_inv qry fin E S t C ms i ls \<longleftrightarrow> ent_inv qry fin E S t C ms i (fst_st ls) (processNum ls) (batch_basemap ls) \<and>
     rec_inv E C ms i (fst_st ls) (currentOffset ls)"

lemma recipe_inv_cong:
  "inRecipe u' = inRecipe u \<Longrightarrow> recipeFile u' = recipeFile u \<Longrightarrow> recipe_inv E fs u' = recipe_inv E fs u"
  by (simp add: recipe_inv_def)

context entry_contract
begin

text \<open>A state with the same entries and counters, in which nothing readable was lost.\<close>

lemma ent_inv_step:
  assumes "ent_inv qry fin E S t C ms i st pn bm" "disk_ok t st'" "ht_ok st'" "world_le (sworld t st) (sworld t st')"
    "recvBuffer st' = recvBuffer st" "outdb st' = outdb st" "insideDedupIndex st' = insideDedupIndex st"
    "inQueryBase st' = inQueryBase st" "outQueryBase st' = outQueryBase st" "currNum st' = currNum st"
    "uniqueChunkNum (stats st') = uniqueChunkNum (stats st)" "con_times (up st') \<le> con_times (up st)"
  shows "ent_inv qry fin E S t C ms i st' pn bm"
proof -
  have "frame_inv t C st'"
    using assms(1-7) world_le_trans [of "c_world C" "sworld t st" "sworld t st'"] by (simp add: ent_inv_def frame_inv_def)
  moreover have "count_inv C i st' pn bm" using assms(1,12) by (simp add: ent_inv_def count_inv_def)
  moreover obtain dn where "done_inv fin E S t C ms i st dn" using assms(1) by (auto simp: ent_inv_def)
  then have "done_inv fin E S t C ms i st' dn"
    using assms(8-11) all_fin_mono [OF assms(4)] by (simp add: done_inv_def)
  ultimately show ?thesis using assms(1) unfolding ent_inv_def assms(8-10) by blast
qed

lemma loop_inv_keeps:
  assumes "loop_inv qry fin E S t C ms i ls" "keeps t 0 (fst_st ls) st"
  shows "loop_inv qry fin E S t C ms i (ls\<lparr>fst_st := st\<rparr>)"
proof -
  have k: "disk_ok t st" "ht_ok st" "world_le (sworld t (fst_st ls)) (sworld t st)" "env st = env (fst_st ls)"
      "con_times (up st) \<le> con_times (up (fst_st ls))" using assms(2) by (simp_all add: keeps_def)
  have ent: "ent_inv qry fin E S t C ms i (fst_st ls) (processNum ls) (batch_basemap ls)" using assms(1) by (simp add: loop_inv_def)
  have ev: "recvBuffer st = recvBuffer (fst_st ls)" "outdb st = outdb (fst_st ls)" "insideDedupIndex st = insideDedupIndex (fst_st ls)"
      "inQueryBase st = inQueryBase (fst_st ls)" "outQueryBase st = outQueryBase (fst_st ls)" "currNum st = currNum (fst_st ls)"
      "uniqueChunkNum (stats st) = uniqueChunkNum (stats (fst_st ls))"
    using k(4) by (simp_all add: env_def)
  have "ent_inv qry fin E S t C ms i st (processNum ls) (batch_basemap ls)"
    by (rule ent_inv_step [OF ent k(1-3) ev k(5)])
  moreover have "recipe_inv E fs (up st) = recipe_inv E fs (up (fst_st ls))" "logicalChunkNum (stats st) = logicalChunkNum (stats (fst_st ls))" for fs
    using k(4) by (simp_all add: env_def recipe_inv_def)
  then have "rec_inv E C ms i st (currentOffset ls)" using assms(1) by (simp add: loop_inv_def rec_inv_def)
  ultimately show ?thesis by (simp add: loop_inv_def)
qed

end

section \<open>The body\<close>

definition chunk_case where
  "chunk_case E store chunk i ls =
    (let e = inQueryBase (fst_st ls) ! i; flag = i_dedupFlag e
     in if flag = two_path_code DUPLICATE \<or> flag = two_path_code TMP_DUPLICATE \<or> flag = two_path_code TMP_UNIQUE
        then Inr (count_inside (unat (i_chunkSize e)) ls)
        else if flag = two_path_code UNIQUE then out_unique E store chunk i ls
        else Inl ExitFailure)"

definition same_recipe :: "freq_st \<Rightarrow> freq_st \<Rightarrow> bool" where
  "same_recipe st st' \<longleftrightarrow> inRecipe (up st') = inRecipe (up st) \<and> recipeFile (up st') = recipeFile (up st) \<and>
     logicalChunkNum (stats st') = logicalChunkNum (stats st)"

lemma drop_take_nth: "i < n \<Longrightarrow> n \<le> length xs \<Longrightarrow> drop i (take n xs) = xs ! i # drop (Suc i) (take n xs)"
  by (metis Cons_nth_drop_Suc length_take min.absorb2 nth_take)

text \<open>The next chunk, its entry, and the rest.\<close>

lemma todo_next:
  assumes "todo_inv qry E S C ms i iq oq" "i < length ms" "length ms \<le> length iq"
  shows "batch_entry E (ms ! i) (iq ! i)"
    "i_dedupFlag (iq ! i) \<noteq> two_path_code UNIQUE \<Longrightarrow> todo_inv qry E S C ms (Suc i) iq oq"
    "i_dedupFlag (iq ! i) = two_path_code UNIQUE \<Longrightarrow> \<exists>x xs. oq = x # xs \<and> todo_inv qry E S C ms (Suc i) iq xs \<and>
       asked E S (c_db C) (qry E S (c_world C) (c_db C)) (ms ! i) (iq ! i) x"
    "news (drop i ms) (drop i (take (length ms) iq)) =
       (if i_dedupFlag (iq ! i) = two_path_code UNIQUE then [ms ! i] else []) @ news (drop (Suc i) ms) (drop (Suc i) (take (length ms) iq))"
proof -
  have sp: "drop i (take (length ms) iq) = iq ! i # drop (Suc i) (take (length ms) iq)" using assms(2,3) by (rule drop_take_nth)
  have sm: "drop i ms = ms ! i # drop (Suc i) ms" using assms(2) by (rule Cons_nth_drop_Suc [symmetric])
  note t = assms(1) [unfolded todo_inv_def sp sm]
  show "batch_entry E (ms ! i) (iq ! i)" using t by simp
  show "i_dedupFlag (iq ! i) \<noteq> two_path_code UNIQUE \<Longrightarrow> todo_inv qry E S C ms (Suc i) iq oq" using t by (simp add: todo_inv_def)
  show "i_dedupFlag (iq ! i) = two_path_code UNIQUE \<Longrightarrow> \<exists>x xs. oq = x # xs \<and> todo_inv qry E S C ms (Suc i) iq xs \<and>
       asked E S (c_db C) (qry E S (c_world C) (c_db C)) (ms ! i) (iq ! i) x"
    using t by (auto simp: todo_inv_def split: list.splits)
  show "news (drop i ms) (drop i (take (length ms) iq)) =
       (if i_dedupFlag (iq ! i) = two_path_code UNIQUE then [ms ! i] else []) @ news (drop (Suc i) ms) (drop (Suc i) (take (length ms) iq))"
    by (simp add: sp sm)
qed

lemma count_inv_Suc: "count_inv C i st pn bm \<Longrightarrow> count_inv C (Suc i) st pn bm"
  by (simp add: count_inv_def)

lemma chunk_case_inside:
  assumes "ent_inv qry fin E S t C ms i (fst_st ls) (processNum ls) (batch_basemap ls)" "i < length ms" "length ms \<le> c_size C"
    "i_dedupFlag (inQueryBase (fst_st ls) ! i) \<noteq> two_path_code UNIQUE"
  shows "\<exists>ls'. chunk_case E store (ms ! i) i ls = Inr ls' \<and> currentOffset ls' = currentOffset ls \<and>
    same_recipe (fst_st ls) (fst_st ls') \<and> ent_inv qry fin E S t C ms (Suc i) (fst_st ls') (processNum ls') (batch_basemap ls')"
proof -
  let ?st = "fst_st ls" and ?ls = "count_inside (unat (i_chunkSize (inQueryBase (fst_st ls) ! i))) ls"
  note ent = assms(1) [unfolded ent_inv_def]
  have n: "length ms \<le> length (inQueryBase ?st)" using ent assms(3) by (simp add: list_inv_def)
  have td: "todo_inv qry E S C ms i (inQueryBase ?st) (drop (currNum ?st) (outQueryBase ?st))" using ent by blast
  note nx = todo_next [OF td assms(2) n]
  have run: "chunk_case E store (ms ! i) i ls = Inr ?ls"
    using nx(1) assms(4) by (auto simp: chunk_case_def batch_entry_def main_flag_def tmp_flag_def Let_def)
  have f: "processNum ?ls = processNum ls" "batch_basemap ?ls = batch_basemap ls" "inQueryBase (fst_st ?ls) = inQueryBase ?st"
      "outQueryBase (fst_st ?ls) = outQueryBase ?st" "currNum (fst_st ?ls) = currNum ?st" "sworld t (fst_st ?ls) = sworld t ?st"
      "uniqueChunkNum (stats (fst_st ?ls)) = uniqueChunkNum (stats ?st)" "currentOffset ?ls = currentOffset ls" "same_recipe ?st (fst_st ?ls)"
      "frame_inv t C (fst_st ?ls) = frame_inv t C ?st" "count_inv C (Suc i) (fst_st ?ls) = count_inv C (Suc i) ?st"
    by (simp_all add: count_inside_def Let_def sworld_def same_recipe_def frame_inv_def disk_ok_def ht_ok_def count_inv_def fun_eq_iff)
  obtain dn where "done_inv fin E S t C ms i ?st dn" using ent by blast
  then have "done_inv fin E S t C ms (Suc i) (fst_st ?ls) dn" using nx(4) assms(4) by (simp add: done_inv_def f)
  then have "ent_inv qry fin E S t C ms (Suc i) (fst_st ?ls) (processNum ?ls) (batch_basemap ?ls)"
    unfolding ent_inv_def f using ent nx(2) [OF assms(4)] count_inv_Suc by blast
  with run f(8,9) show ?thesis by blast
qed

context unique_storer
begin

lemma chunk_case_unique:
  assumes "evp_ok (ssl E)" "lz4_ok E" "chunk_ok (ms ! i)" "ok E S (ms ! i)"
    "index_ok E S (c_db C)" "ent_inv qry fin E S t C ms i (fst_st ls) (processNum ls) (batch_basemap ls)" "i < length ms" "length ms \<le> c_size C"
    "i_dedupFlag (inQueryBase (fst_st ls) ! i) = two_path_code UNIQUE" "c_times C + length ms \<le> INT_MAX" "length ms \<le> 50000"
    "calm (outQueryBase (fst_st ls) ! currNum (fst_st ls)) (fst_st ls)"
  shows "\<exists>ls'. chunk_case E (store E t) (ms ! i) i ls = Inr ls' \<and> currentOffset ls' = currentOffset ls \<and>
    same_recipe (fst_st ls) (fst_st ls') \<and> ent_inv qry fin E S t C ms (Suc i) (fst_st ls') (processNum ls') (batch_basemap ls')"
proof -
  let ?st = "fst_st ls" and ?m = "ms ! i"
  let ?k = "currNum ?st" and ?iq = "inQueryBase ?st" and ?oq = "outQueryBase ?st"
  note ent = assms(6) [unfolded ent_inv_def]
  have l: "length ms \<le> length ?iq" "length ?oq = c_size C" "length ?iq = c_size C" using ent assms(8) by (simp_all add: list_inv_def)
  have fr: "disk_ok t ?st" "ht_ok ?st" "world_le (c_world C) (sworld t ?st)" "outdb ?st = c_db C" using ent by (simp_all add: frame_inv_def)
  have ct: "con_times (up ?st) < INT_MAX" "processNum ls < 50000"
    using ent assms(7,10,11) by (simp_all add: count_inv_def)
  have td: "todo_inv qry E S C ms i ?iq (drop ?k ?oq)" using ent by blast
  note nx = todo_next [OF td assms(7) l(1)]
  obtain x xs where x: "drop ?k ?oq = x # xs" "todo_inv qry E S C ms (Suc i) ?iq xs"
      "asked E S (c_db C) (qry E S (c_world C) (c_db C)) ?m (?iq ! i) x" using nx(3) [OF assms(9)] by blast
  have k: "?k < length ?oq" using x(1) by (metis drop_all leI list.distinct(1))
  then have xk: "x = ?oq ! ?k" "xs = drop (Suc ?k) ?oq" using x(1) by (metis Cons_nth_drop_Suc list.inject)+
  have "entry_for E ?m (?iq ! i)" using nx(1) by (simp add: batch_entry_def)
  from out_unique_ok [OF assms(1-4) _ _ this assms(9) fr(1,2) ct k assms(12)] asked_mono [OF fr(3) x(3)] assms(5)
  obtain e' x' ps ls' st' where
      o: "out_unique E (store E t) ?m i ls = Inr ls'" "keeps t 1 ?st st'"
        "fst_st ls' = (if ?m \<in> S then st' else count_unique (length ?m) st')\<lparr>inQueryBase := ?iq[i := e'], outQueryBase := ?oq[?k := x'], currNum := Suc ?k\<rparr>"
        "fin E S (sworld t st') (c_db C) ?m x'" "entry_for E ?m e'" "i_dedupFlag e' = two_path_code UNIQUE"
        "processNum ls' \<le> Suc (processNum ls)" "batch_basemap ls' = batch_basemap ls @ ps" "length ps \<le> 1" "pairs_ok ps"
        "currentOffset ls' = currentOffset ls"
    unfolding fr(4) xk(1) by blast
  have st': "disk_ok t st'" "ht_ok st'" "world_le (sworld t ?st) (sworld t st')" "env st' = env ?st" "con_times (up st') \<le> con_times (up ?st) + 1"
    using o(2) by (simp_all add: keeps_def)
  have f: "sworld t (fst_st ls') = sworld t st'" "inQueryBase (fst_st ls') = ?iq[i := e']" "outQueryBase (fst_st ls') = ?oq[?k := x']"
      "currNum (fst_st ls') = Suc ?k" "up (fst_st ls') = up st'"
      "uniqueChunkNum (stats (fst_st ls')) = uniqueChunkNum (stats ?st) + (if ?m \<in> S then 0 else 1)"
      "same_recipe ?st (fst_st ls')"
    using st'(4) o(3) by (simp_all add: sworld_def count_unique_def env_def same_recipe_def)
  have "frame_inv t C (fst_st ls')"
    using ent st' world_le_trans [OF fr(3) st'(3)] f(1) o(3)
    by (auto simp: frame_inv_def disk_ok_def ht_ok_def env_def count_unique_def)
  moreover have "count_inv C (Suc i) (fst_st ls') (processNum ls') (batch_basemap ls')"
    using ent st'(5) o(7-10) by (auto simp: count_inv_def f pairs_ok_def)
  moreover have "list_inv E C ms (?iq[i := e']) (?oq[?k := x'])"
  proof -
    have "\<forall>e \<in> set (?iq[i := e']). sane (i_chunkAddr e)" using ent o(5) by (intro sane_update) (auto simp: list_inv_def entry_for_def)
    moreover have "\<forall>x \<in> set (?oq[?k := x']). length (o_chunkAddr x) = RECIPE_ENTRY_SIZE"
      using ent o(4) set_update_subset_insert [of ?oq ?k x'] by (auto simp: list_inv_def fin_length)
    moreover have "list_all2 (entry_for E) ms (take (length ms) (?iq[i := e']))"
      using ent o(5) by (intro entry_for_update) (auto simp: list_inv_def)
    ultimately show ?thesis using l by (simp add: list_inv_def)
  qed
  moreover have "drop (Suc i) (take (length ms) (?iq[i := e'])) = drop (Suc i) (take (length ms) ?iq)"
      "drop (Suc ?k) (?oq[?k := x']) = xs" "take (Suc ?k) (?oq[?k := x']) = take ?k ?oq @ [x']"
    using k xk(2) by (simp add: take_update_swap, simp, simp add: take_Suc_conv_app_nth)
  moreover from this(1,2) x(2) have "todo_inv qry E S C ms (Suc i) (?iq[i := e']) (drop (Suc ?k) (?oq[?k := x']))"
    by (simp add: todo_inv_def)
  moreover obtain dn where d: "done_inv fin E S t C ms i ?st dn" using ent by blast
  then have "list_all2 (fin E S (sworld t st') (c_db C)) dn (take ?k ?oq)"
    using all_fin_mono [OF st'(3)] by (simp add: done_inv_def)
  then have "list_all2 (fin E S (sworld t st') (c_db C)) (dn @ [?m]) (take ?k ?oq @ [x'])"
    using o(4) by (simp add: list_all2_appendI)
  ultimately have "done_inv fin E S t C ms (Suc i) (fst_st ls') (dn @ [?m])"
    using d nx(4) assms(9) unfolding done_inv_def f by simp
  moreover have "chunk_case E (store E t) ?m i ls = Inr ls'" using assms(9) o(1) by (simp add: chunk_case_def Let_def)
  moreover note \<open>frame_inv t C (fst_st ls')\<close> \<open>count_inv C (Suc i) (fst_st ls') (processNum ls') (batch_basemap ls')\<close>
    \<open>list_inv E C ms (?iq[i := e']) (?oq[?k := x'])\<close> \<open>todo_inv qry E S C ms (Suc i) (?iq[i := e']) (drop (Suc ?k) (?oq[?k := x']))\<close>
  ultimately show ?thesis using o(11) f(7) unfolding ent_inv_def f(2-4) [symmetric] by blast
qed

lemma chunk_case_ok:
  assumes "evp_ok (ssl E)" "lz4_ok E" "\<forall>m \<in> set ms. chunk_ok m \<and> ok E S m" "index_ok E S (c_db C)"
    "ent_inv qry fin E S t C ms i (fst_st ls) (processNum ls) (batch_basemap ls)" "i < length ms" "length ms \<le> c_size C"
    "c_times C + length ms \<le> INT_MAX" "length ms \<le> 50000"
    "calm (outQueryBase (fst_st ls) ! currNum (fst_st ls)) (fst_st ls)"
  shows "\<exists>ls'. chunk_case E (store E t) (ms ! i) i ls = Inr ls' \<and> currentOffset ls' = currentOffset ls \<and>
    same_recipe (fst_st ls) (fst_st ls') \<and> ent_inv qry fin E S t C ms (Suc i) (fst_st ls') (processNum ls') (batch_basemap ls')"
proof (cases "i_dedupFlag (inQueryBase (fst_st ls) ! i) = two_path_code UNIQUE")
  case True
  have "chunk_ok (ms ! i)" "ok E S (ms ! i)" using assms(3,6) by auto
  from chunk_case_unique [OF assms(1,2) this assms(4-7) True assms(8-10)] show ?thesis .
next
  case False
  from chunk_case_inside [OF assms(5-7) this] show ?thesis .
qed

end

text \<open>The end of the body: the recipe, the offset and the counters.\<close>

definition next_chunk :: "nat \<Rightarrow> up_st \<Rightarrow> loop_st \<Rightarrow> loop_st" where
  "next_chunk sz u ls =
    (let st = fst_st ls; s = stats st
     in ls\<lparr>currentOffset := currentOffset ls + 4 + sz,
          fst_st := st\<lparr>up := u, stats := s\<lparr>logicalDataSize := logicalDataSize s + word_of_nat sz, logicalChunkNum := logicalChunkNum s + 1\<rparr>\<rparr>\<rparr>)"

lemma process_chunk_eq:
  "process_chunk E t wr store i ls0 =
    (let ls = ls0\<lparr>fst_st := writer_run t wr i (fst_st ls0)\<rparr>; st = fst_st ls; e = inQueryBase st ! i; sz = unat (i_chunkSize e)
     in bindE (chunk_case E store (seg (currentOffset ls + 4) sz (recvBuffer st)) i ls) (\<lambda>ls1.
        bindE (UpdateFileRecipe E (i_chunkHash e) (up (fst_st ls1))) (\<lambda>u.
          Inr (ls1\<lparr>currentOffset := currentOffset ls + 4 + sz, fst_st := fst_st (next_chunk sz u ls1)\<rparr>))))"
  by (simp add: process_chunk_def chunk_case_def next_chunk_def Let_def)

context entry_contract
begin

lemma next_chunk_ok:
  assumes "ent_inv qry fin E S t C ms (Suc i) (fst_st ls) (processNum ls) (batch_basemap ls)" "rec_inv E C ms i (fst_st ls) (currentOffset ls)"
    "i < length ms" "store_st.truncate u = store_st.truncate (up (fst_st ls))"
    "recipe_inv E ((c_fps C @ map (hashfp E) (take i ms)) @ [hashfp E (ms ! i)]) u"
  shows "loop_inv qry fin E S t C ms (Suc i) (next_chunk (length (ms ! i)) u ls)"
proof -
  let ?st = "fst_st ls" and ?ls = "next_chunk (length (ms ! i)) u ls"
  have d: "disk_ok t ?st" "ht_ok ?st" using assms(1) by (simp_all add: ent_inv_def frame_inv_def)
  note w = disk_ok_same [OF d(1) assms(4)]
  have f: "disk_ok t (fst_st ?ls)" "ht_ok (fst_st ?ls)" "world_le (sworld t ?st) (sworld t (fst_st ?ls))"
    using w d(2) by (simp_all add: next_chunk_def Let_def disk_ok_def ht_ok_def sworld_def world_le_refl)
  have "con_times u = con_times (up ?st)" using assms(4) by (rule same_store(4))
  then have "ent_inv qry fin E S t C ms (Suc i) (fst_st ?ls) (processNum ls) (batch_basemap ls)"
    by (intro ent_inv_step [OF assms(1) f]) (simp_all add: next_chunk_def Let_def)
  moreover have "rec_inv E C ms (Suc i) (fst_st ?ls) (currentOffset ?ls)"
    using assms(2,3,5) by (simp add: rec_inv_def next_chunk_def Let_def take_Suc_conv_app_nth)
  ultimately show ?thesis by (simp add: loop_inv_def next_chunk_def Let_def)
qed

end

context unique_storer
begin

lemma process_chunk_ok:
  assumes "evp_ok (ssl E)" "lz4_ok E" "\<forall>m \<in> set ms. chunk_ok m \<and> ok E S m" "index_ok E S (c_db C)"
    "loop_inv qry fin E S t C ms i ls0" "i < length ms" "length ms \<le> c_size C"
    "c_times C + length ms \<le> INT_MAX" "length ms \<le> 50000" "c_recv C = frames ms @ post" "relies calm t wr"
  shows "\<exists>ls'. process_chunk E t wr (store E t) i ls0 = Inr ls' \<and> loop_inv qry fin E S t C ms (Suc i) ls'"
proof -
  let ?st = "writer_run t wr i (fst_st ls0)"
  let ?ls = "ls0\<lparr>fst_st := ?st\<rparr>" and ?m = "ms ! i"
  let ?e = "inQueryBase ?st ! i"
  have calm: "calm (outQueryBase ?st ! currNum ?st) ?st" using assms(11) unfolding relies_def by blast
  have d0: "disk_ok t (fst_st ls0)" "ht_ok (fst_st ls0)" using assms(5) by (simp_all add: loop_inv_def ent_inv_def frame_inv_def)
  have inv: "ent_inv qry fin E S t C ms i ?st (processNum ?ls) (batch_basemap ?ls)" "rec_inv E C ms i ?st (currentOffset ?ls)"
    using loop_inv_keeps [OF assms(5) keeps_writer [OF d0]] by (simp_all add: loop_inv_def)
  have e: "entry_for E ?m ?e" using inv(1) assms(6,7) by (auto simp: ent_inv_def list_inv_def list_all2_conv_all_nth)
  have m: "chunk_ok ?m" using assms(3,6) by simp
  have sz: "unat (i_chunkSize ?e) = length ?m" using e chunk_size_word [OF m] by (simp add: entry_for_def)
  have "ms = take i ms @ ?m # drop (Suc i) ms" using assms(6) by (simp add: Cons_nth_drop_Suc)
  then have "frames ms = frames (take i ms) @ frame ?m @ frames (drop (Suc i) ms)" by (metis frames_simps(2,3))
  moreover have "recvBuffer ?st = frames ms @ post" using inv(1) assms(10) by (simp add: ent_inv_def frame_inv_def)
  ultimately have chunk: "seg (currentOffset ?ls + 4) (length ?m) (recvBuffer ?st) = ?m"
    using inv(2) by (simp add: rec_inv_def seg_def frame_def)
  obtain ls1 where ls1: "chunk_case E (store E t) ?m i ?ls = Inr ls1" "currentOffset ls1 = currentOffset ?ls"
      "same_recipe ?st (fst_st ls1)" "ent_inv qry fin E S t C ms (Suc i) (fst_st ls1) (processNum ls1) (batch_basemap ls1)"
    using chunk_case_ok [OF assms(1-4) _ assms(6-9), of t ?ls] inv(1) calm by auto
  have "recipe_inv E (c_fps C @ map (hashfp E) (take i ms)) (up (fst_st ls1))"
    using inv(2) ls1(3) recipe_inv_cong [of "up (fst_st ls1)" "up ?st"] by (simp add: rec_inv_def same_recipe_def)
  from UpdateFileRecipe_ok [OF assms(1) this hashfp_ok(2) [OF assms(1)], of ?m] obtain u where
      u: "UpdateFileRecipe E (hashfp E ?m) (up (fst_st ls1)) = Inr u"
        "recipe_inv E ((c_fps C @ map (hashfp E) (take i ms)) @ [hashfp E ?m]) u"
        "store_st.truncate u = store_st.truncate (up (fst_st ls1))" by blast
  have "rec_inv E C ms i (fst_st ls1) (currentOffset ls1)"
    using inv(2) ls1(2,3) recipe_inv_cong [of "up (fst_st ls1)" "up ?st"] by (simp add: rec_inv_def same_recipe_def)
  from next_chunk_ok [OF ls1(4) this assms(6) u(3,2)] have "loop_inv qry fin E S t C ms (Suc i) (next_chunk (length ?m) u ls1)" .
  moreover have "i_chunkHash ?e = hashfp E ?m" using e by (simp add: entry_for_def)
  then have "process_chunk E t wr (store E t) i ls0 =
      Inr (ls1\<lparr>currentOffset := currentOffset ls0 + 4 + length ?m, fst_st := fst_st (next_chunk (length ?m) u ls1)\<rparr>)"
    using sz chunk ls1(1) u(1) by (simp add: process_chunk_eq Let_def)
  then have "process_chunk E t wr (store E t) i ls0 = Inr (next_chunk (length ?m) u ls1)"
    using ls1(2) by (simp add: next_chunk_def Let_def)
  ultimately show ?thesis by blast
qed

lemma main_loop_ok:
  assumes "evp_ok (ssl E)" "lz4_ok E" "\<forall>m \<in> set ms. chunk_ok m \<and> ok E S m" "index_ok E S (c_db C)"
    "loop_inv qry fin E S t C ms 0 ls" "length ms \<le> c_size C"
    "c_times C + length ms \<le> INT_MAX" "length ms \<le> 50000" "c_recv C = frames ms @ post" "relies calm t wr"
  shows "i \<le> length ms \<Longrightarrow> \<exists>ls'. foldE (process_chunk E t wr (store E t)) [0..<i] ls = Inr ls' \<and> loop_inv qry fin E S t C ms i ls'"
proof (induction i)
  case (Suc i)
  then obtain ls' where ls': "foldE (process_chunk E t wr (store E t)) [0..<i] ls = Inr ls'" "loop_inv qry fin E S t C ms i ls'" by auto
  from process_chunk_ok [OF assms(1-4) ls'(2) _ assms(6-10)] Suc.prems ls'(1) show ?case
    by (auto simp: foldE_append)
qed (use assms(5) in auto)

end

end
