(* ===== verification/FreqCorrect.thy ===== *)
theory FreqCorrect
  imports FreqBatch
begin

text \<open>
  The end of \<open>ProcessOneBatch\<close> (pairs for later passes, the top-k index, the index outside) and
  the theorem about a batch: it is processed without fault and every chunk ever uploaded can be
  rebuilt afterwards.
\<close>

section \<open>Pairs and the top-k index\<close>

lemma fold_InsertDeltaIndex:
  "indexObj (fold (\<lambda>i. InsertDeltaIndex (f i) (g i)) js db) = indexObj db" "sfObj (fold (\<lambda>i. InsertDeltaIndex (f i) (g i)) js db) = sfObj db"
  by (induction js arbitrary: db) (simp_all add: InsertDeltaIndex_def)

lemma local_insert_frame: "indexObj (local_insert p db) = indexObj db" "sfObj (local_insert p db) = sfObj db"
  by (simp_all add: local_insert_def Let_def split: prod.splits option.splits)

lemma fold_local_insert:
  "indexObj (fold (\<lambda>i. local_insert (f i)) js db) = indexObj db" "sfObj (fold (\<lambda>i. local_insert (f i)) js db) = sfObj db"
  by (induction js arbitrary: db) (simp_all add: local_insert_frame)

lemma length_pairs: "pairs_ok ps \<Longrightarrow> length (concat (map (\<lambda>(a, b). a @ b) ps)) = 2 * CHUNK_HASH_SIZE * length ps"
  by (induction ps) (auto simp: pairs_ok_def)

lemma record_pairs_ok:
  assumes "pairs_ok (batch_basemap ls)" "length (batch_basemap ls) \<le> 4000"
  shows "\<exists>b db s. record_pairs Local_Flag ls = Inr ((fst_st ls)\<lparr>test_buffer := b, outdb := db, stats := s\<rparr>) \<and>
    indexObj db = indexObj (outdb (fst_st ls)) \<and> sfObj db = sfObj (outdb (fst_st ls)) \<and>
    uniqueChunkNum s = uniqueChunkNum (stats (fst_st ls)) \<and> logicalChunkNum s = logicalChunkNum (stats (fst_st ls))"
proof (cases Local_Flag)
  case False
  let ?st = "fst_st ls"
  let ?db = "if processNum ls > 0 then Ocall_UpdateDeltaIndex (process_buffer ?st) (processNum ls) (outdb ?st) else outdb ?st"
  let ?s = "if processNum ls > 0 then (stats ?st)\<lparr>Inline_DeltaOcall := Inline_DeltaOcall (stats ?st) + 1\<rparr> else stats ?st"
  have "record_pairs Local_Flag ls = Inr (?st\<lparr>test_buffer := test_buffer ?st, outdb := ?db, stats := ?s\<rparr>)"
    using False by (simp add: record_pairs_def Let_def)
  moreover have "indexObj ?db = indexObj (outdb ?st)" "sfObj ?db = sfObj (outdb ?st)"
    by (simp_all add: Ocall_UpdateDeltaIndex_def fold_InsertDeltaIndex)
  moreover have "uniqueChunkNum ?s = uniqueChunkNum (stats ?st)" "logicalChunkNum ?s = logicalChunkNum (stats ?st)" by simp_all
  ultimately show ?thesis by blast
next
  case True
  let ?st = "fst_st ls" and ?ps = "batch_basemap ls"
  have "length (concat (map (\<lambda>(a, b). a @ b) ?ps)) \<le> TEST_BUFFER_SIZE"
    using length_pairs [OF assms(1)] assms(2) by (simp add: TEST_BUFFER_SIZE_def CHUNK_HASH_SIZE_def)
  then obtain b where b: "memcpyE TEST_BUFFER_SIZE (test_buffer ?st) 0 (concat (map (\<lambda>(a, b). a @ b) ?ps)) = Inr b"
    by (simp add: memcpyE_def)
  let ?db = "if length ?ps > 0 then Ocall_LocalInsert b (length ?ps) (outdb ?st) else outdb ?st"
  let ?s = "if length ?ps > 0 then (stats ?st)\<lparr>Inline_LocalOcall := Inline_LocalOcall (stats ?st) + 1\<rparr> else stats ?st"
  have "record_pairs Local_Flag ls = Inr (?st\<lparr>test_buffer := b, outdb := ?db, stats := ?s\<rparr>)"
    using True b by (simp add: record_pairs_def Let_def)
  moreover have "indexObj ?db = indexObj (outdb ?st)" "sfObj ?db = sfObj (outdb ?st)"
    by (simp_all add: Ocall_LocalInsert_def fold_local_insert)
  moreover have "uniqueChunkNum ?s = uniqueChunkNum (stats ?st)" "logicalChunkNum ?s = logicalChunkNum (stats ?st)" by simp_all
  ultimately show ?thesis by blast
qed

definition heap_ok :: "nat \<Rightarrow> fp set \<Rightarrow> EntryHeap \<Rightarrow> bool" where
  "heap_ok topK H h \<longleftrightarrow> heap_inv h \<and> Size h \<le> topK \<and> heap_sane h \<and> dom (contents h) \<subseteq> H"

lemma offered_ok:
  assumes "offered h f a k h'" "heap_sane h" "dom (contents h) \<subseteq> H" "sane a" "k \<in> H"
  shows "heap_sane h'" "dom (contents h') \<subseteq> H"
proof -
  have old: "sane b" "x \<in> H" if "contents h x = Some (b, g)" for x b g
    using that assms(2,3) by (auto simp: heap_sane_def)
  have "sane b \<and> x \<in> H" if x: "contents h' x = Some (b, g)" for x b g
    using assms(1) unfolding offered_def
  proof (elim disjE exE conjE)
    assume "h' = h"
    with x old show ?thesis by auto
  next
    fix c
    assume "contents h' = (contents h)(k \<mapsto> (c, f))" "c = a"
    with x old assms(4,5) show ?thesis by (cases "x = k") auto
  next
    fix c i
    assume "contents h' = (contents h)(k \<mapsto> (c, f))" "contents h k = Some (c, i)"
    with x old assms(4,5) show ?thesis by (cases "x = k") auto
  next
    fix e c i
    assume "contents h' = (contents h)(e := None, k \<mapsto> (a, f))"
    with x old assms(4,5) show ?thesis by (cases "x = k"; cases "x = e") auto
  qed
  then show "heap_sane h'" "dom (contents h') \<subseteq> H" by (auto simp: heap_sane_def)
qed

lemma offer_entries_ok:
  assumes "2 \<le> topK" "heap_ok topK H h" "\<forall>e \<in> set es. sane (i_chunkAddr e) \<and> i_chunkHash e \<in> H"
  shows "\<exists>h'. offer_entries topK es h = Inr h' \<and> heap_ok topK H h'"
  using assms(2,3)
proof (induction es arbitrary: h)
  case (Cons e es)
  show ?case
  proof (cases "i_dedupFlag e = two_path_code UNIQUE \<or> i_dedupFlag e = two_path_code DUPLICATE")
    case True
    have h: "heap_inv h" "Size h \<le> topK" "heap_sane h" "dom (contents h) \<subseteq> H" using Cons.prems(1) by (simp_all add: heap_ok_def)
    obtain h1 where h1: "offer_chunk topK h (i_chunkFreq e) (i_chunkAddr e) (i_chunkHash e) = Some h1" "heap_inv h1" "Size h1 \<le> topK"
        "offered h (i_chunkFreq e) (i_chunkAddr e) (i_chunkHash e) h1"
      using offer_chunk_ok [OF h(1) assms(1) h(2)] by blast
    have "heap_sane h1" "dom (contents h1) \<subseteq> H" using offered_ok [OF h1(4) h(3,4)] Cons.prems(2) by auto
    with h1 True Cons show ?thesis by (simp add: heap_ok_def)
  next
    case False
    with Cons show ?thesis by simp
  qed
qed (use assms in simp)

section \<open>The index after a batch\<close>

lemma fold_update_sf:
  assumes "sf_wf db" "\<forall>x \<in> set xs. length (o_chunkHash x) = CHUNK_HASH_SIZE"
  shows "sf_wf (fold update_entry xs db) \<and> (\<forall>i < 3. \<forall>k vs v. sfObj (fold update_entry xs db) i k = Some vs \<longrightarrow> v \<in> set vs \<longrightarrow>
    (\<exists>ws. sfObj db i k = Some ws \<and> v \<in> set ws) \<or>
    (\<exists>x \<in> set xs. o_chunkHash x = v \<and> o_dedupFlag x = two_path_code UNIQUE \<and> o_deltaFlag x = delta_code NO_DELTA))"
  using assms
proof (induction xs arbitrary: db)
  case (Cons x xs)
  let ?db = "update_entry x db"
  have "sf_wf ?db"
    using Cons.prems(1) InsertSF_wf [of "InsertBothBuffer (o_chunkHash x) CHUNK_HASH_SIZE (o_chunkAddr x) RECIPE_ENTRY_SIZE db"]
    by (simp add: update_entry_def Let_def sf_wf_def InsertBothBuffer_def)
  from Cons.IH [OF this] Cons.prems(2) have IH: "sf_wf (fold update_entry xs ?db)"
      "\<And>i k vs v. i < 3 \<Longrightarrow> sfObj (fold update_entry xs ?db) i k = Some vs \<Longrightarrow> v \<in> set vs \<Longrightarrow>
         (\<exists>ws. sfObj ?db i k = Some ws \<and> v \<in> set ws) \<or>
         (\<exists>x \<in> set xs. o_chunkHash x = v \<and> o_dedupFlag x = two_path_code UNIQUE \<and> o_deltaFlag x = delta_code NO_DELTA)"
    by auto
  have one: "(\<exists>ws. sfObj db i k = Some ws \<and> v \<in> set ws) \<or>
      o_chunkHash x = v \<and> o_dedupFlag x = two_path_code UNIQUE \<and> o_deltaFlag x = delta_code NO_DELTA"
    if "i < 3" "sfObj ?db i k = Some ws" "v \<in> set ws" for i k ws v
    using that Cons.prems(2)
    by (auto simp: update_entry_sf InsertSF_sfObj insert_sf1_def push_back_def split: if_splits option.splits)
  have "(\<exists>ws. sfObj db i k = Some ws \<and> v \<in> set ws) \<or>
      (\<exists>x \<in> set (x # xs). o_chunkHash x = v \<and> o_dedupFlag x = two_path_code UNIQUE \<and> o_deltaFlag x = delta_code NO_DELTA)"
    if "i < 3" "sfObj (fold update_entry xs ?db) i k = Some vs" "v \<in> set vs" for i k vs v
    using IH(2) [OF that] one [OF that(1)] by auto
  with IH(1) show ?case by auto
qed simp

lemma marked_keys: "list_all2 (marked_entry E S) ns xs \<Longrightarrow> map o_chunkHash xs = map (keyof E) ns"
  by (induction rule: list_all2_induct) (auto simp: marked_entry_def)

lemma updated_index:
  assumes "evp_ok (ssl E)" "list_all2 (marked_entry E S) ns xs" "distinct ns" "inj_on (keyof E) (S \<union> set ns)" "dom (indexObj db) = keyof E ` S"
  shows "db_le db (fold update_entry xs db)" "dom (indexObj (fold update_entry xs db)) = keyof E ` (S \<union> set ns)"
    "\<And>m x. (m, x) \<in> set (zip ns xs) \<Longrightarrow> m \<notin> S \<Longrightarrow> indexObj (fold update_entry xs db) (keyof E m) = Some (o_chunkAddr x)"
proof -
  let ?P = "\<lambda>k x. o_chunkHash x = k \<and> o_dedupFlag x = two_path_code UNIQUE"
  have f: "marked_entry E S m x" if "(m, x) \<in> set (zip ns xs)" for m x
    using assms(2) that by (auto simp: list_all2_iff)
  have len: "length ns = length xs" using assms(2) by (rule list_all2_lengthD)
  have in_zip: "\<exists>m. (m, x) \<in> set (zip ns xs)" if "x \<in> set xs" for x using that len by (metis in_set_impl_in_set_zip2)
  have in_zip': "\<exists>x. (m, x) \<in> set (zip ns xs)" if "m \<in> set ns" for m using that len by (metis in_set_impl_in_set_zip1)
  have keys: "\<forall>x \<in> set xs. key_ok x"
    using in_zip f length_keyof [OF assms(1)] unfolding key_ok_def marked_entry_def by metis
  have dist: "distinct (map o_chunkHash xs)"
    unfolding marked_keys [OF assms(2)] using assms(3,4) by (simp add: distinct_map inj_on_Un)
  note ix = fold_update_index [OF keys dist, of db]
  have fnd: "find (?P (keyof E m)) xs = Some x" if mx: "(m, x) \<in> set (zip ns xs)" "m \<notin> S" for m x
  proof -
    have x: "x \<in> set xs" "?P (keyof E m) x" using mx f [OF mx(1)] by (auto simp: marked_entry_def dest: set_zip_rightD)
    then have "find (?P (keyof E m)) xs \<noteq> None" by (auto simp: find_None_iff)
    then obtain y where y: "find (?P (keyof E m)) xs = Some y" by blast
    then have "y \<in> set xs" "o_chunkHash y = o_chunkHash x" using x(2) by (auto simp: find_Some_iff)
    with x(1) dist have "y = x" by (simp add: distinct_map inj_on_def)
    with y show ?thesis by simp
  qed
  then show new: "\<And>m x. (m, x) \<in> set (zip ns xs) \<Longrightarrow> m \<notin> S \<Longrightarrow> indexObj (fold update_entry xs db) (keyof E m) = Some (o_chunkAddr x)"
    unfolding ix by simp
  have not_old: "find (?P k) xs = None" if "k \<in> keyof E ` S" for k
  proof -
    have "\<not> ?P k x" if "x \<in> set xs" for x
    proof
      assume p: "?P k x"
      obtain m where m: "(m, x) \<in> set (zip ns xs)" using in_zip [OF \<open>x \<in> set xs\<close>] by blast
      with f [OF m] p have "m \<notin> S" "k = keyof E m" by (auto simp: marked_entry_def split: if_splits)
      moreover have "m \<in> set ns" using m by (rule set_zip_leftD)
      ultimately show False using \<open>k \<in> keyof E ` S\<close> assms(4) by (auto simp: inj_on_def)
    qed
    then show ?thesis by (auto simp: find_None_iff)
  qed
  show "db_le db (fold update_entry xs db)" unfolding db_le_def map_le_def ix using not_old assms(5) by auto
  show "dom (indexObj (fold update_entry xs db)) = keyof E ` (S \<union> set ns)"
  proof (rule set_eqI)
    fix k
    show "k \<in> dom (indexObj (fold update_entry xs db)) \<longleftrightarrow> k \<in> keyof E ` (S \<union> set ns)"
    proof (cases "k \<in> keyof E ` S")
      case True
      then have "k \<in> dom (indexObj db)" "indexObj (fold update_entry xs db) k = indexObj db k"
        using ix [of k] not_old assms(5) by simp_all
      with True show ?thesis by auto
    next
      case False
      then have none: "indexObj db k = None" using assms(5) by auto
      have "k \<in> keyof E ` set ns" if k: "find (?P k) xs = Some x" for x
      proof -
        have "x \<in> set xs" "o_chunkHash x = k" using k by (auto simp: find_Some_iff)
        then show ?thesis using in_zip f by (metis marked_entry_def image_eqI set_zip_leftD)
      qed
      moreover have "find (?P k) xs \<noteq> None" if k: "k \<in> keyof E ` set ns"
      proof -
        obtain m where m: "m \<in> set ns" "k = keyof E m" using k by blast
        with False have "m \<notin> S" by blast
        moreover obtain x where "(m, x) \<in> set (zip ns xs)" using in_zip' [OF m(1)] by blast
        ultimately show ?thesis using fnd [of m x] m(2) by simp
      qed
      ultimately show ?thesis using ix [of k] none False by (auto split: option.splits)
    qed
  qed
qed

lemma updated_db_inv:
  assumes "evp_ok (ssl E)" "db_inv E S w db" "list_all2 (finished E S w db) ns xs" "distinct ns" "inj_on (keyof E) (S \<union> set ns)"
  shows "db_inv E (S \<union> set ns) w (fold update_entry xs db)"
proof -
  let ?db = "fold update_entry xs db" and ?S = "S \<union> set ns"
  have dom: "dom (indexObj db) = keyof E ` S" using assms(2) by (simp add: db_inv_def)
  have mk: "list_all2 (marked_entry E S) ns xs" using assms(3) by (rule list_all2_mono) (rule finished_marked)
  note u = updated_index [OF assms(1) mk assms(4,5) dom]
  have len: "length ns = length xs" using assms(3) by (rule list_all2_lengthD)
  have f: "finished E S w db m x" if "(m, x) \<in> set (zip ns xs)" for m x
    using assms(3) that by (auto simp: list_all2_iff)
  have new: "\<exists>a. addr_at E ?db (keyof E m) a \<and> kept_at E S w db m a (o_deltaFlag x)" if mx: "(m, x) \<in> set (zip ns xs)" "m \<notin> S" for m x
    using f [OF mx(1)] mx(2) u(3) [OF mx] by (auto simp: finished_def addr_at_def kept_at_def)
  have "chunk_at E ?S w ?db m" if m: "m \<in> ?S" for m
  proof (cases "m \<in> S")
    case True
    then have "chunk_at E S w db m" using assms(2) by (simp add: db_inv_def)
    then show ?thesis using chunk_at_mono [OF world_le_refl u(1), of S ?S] by blast
  next
    case False
    then obtain x where x: "(m, x) \<in> set (zip ns xs)" using m len by (metis Un_iff in_set_impl_in_set_zip1)
    from new [OF x False] obtain a where a: "addr_at E ?db (keyof E m) a" "kept_at E S w db m a (o_deltaFlag x)" by blast
    then have "base_chunk E w a m \<or> delta_chunk E S w db a m" by (auto simp: kept_at_def)
    then have "base_chunk E w a m \<or> delta_chunk E ?S w ?db a m"
      using delta_chunk_mono [OF world_le_refl u(1), of S ?S E w a m] by blast
    with a(1) show ?thesis by (auto simp: chunk_at_def)
  qed
  moreover have "\<forall>x \<in> set xs. length (o_chunkHash x) = CHUNK_HASH_SIZE"
    using marked_keys [OF mk] length_keyof [OF assms(1)] len by (metis in_set_conv_nth length_map nth_map)
  then have sf: "sf_wf ?db" "\<And>i k vs v. i < 3 \<Longrightarrow> sfObj ?db i k = Some vs \<Longrightarrow> v \<in> set vs \<Longrightarrow>
      (\<exists>ws. sfObj db i k = Some ws \<and> v \<in> set ws) \<or>
      (\<exists>x \<in> set xs. o_chunkHash x = v \<and> o_dedupFlag x = two_path_code UNIQUE \<and> o_deltaFlag x = delta_code NO_DELTA)"
    using fold_update_sf [of db xs] assms(2) by (auto simp: db_inv_def)
  moreover have "\<exists>m \<in> ?S. v = keyof E m \<and> base_at E w ?db m" if v: "i < 3" "sfObj ?db i k = Some vs" "v \<in> set vs" for i k vs v
    using sf(2) [OF v]
  proof
    assume "\<exists>ws. sfObj db i k = Some ws \<and> v \<in> set ws"
    then obtain m where "m \<in> S" "v = keyof E m" "base_at E w db m" using assms(2) v(1) unfolding db_inv_def by blast
    then show ?thesis using base_at_mono [OF world_le_refl u(1)] by blast
  next
    assume "\<exists>x \<in> set xs. o_chunkHash x = v \<and> o_dedupFlag x = two_path_code UNIQUE \<and> o_deltaFlag x = delta_code NO_DELTA"
    then obtain x where x: "x \<in> set xs" "o_chunkHash x = v" "o_dedupFlag x = two_path_code UNIQUE" "o_deltaFlag x = delta_code NO_DELTA"
      by blast
    then obtain m where m: "(m, x) \<in> set (zip ns xs)" using len by (metis in_set_impl_in_set_zip2)
    then have mS: "m \<notin> S" "v = keyof E m" using f [OF m] x(2,3) by (auto simp: finished_def split: if_splits)
    from new [OF m mS(1)] x(4) obtain a where "addr_at E ?db (keyof E m) a" "base_chunk E w a m" by (auto simp: kept_at_def)
    then have "base_at E w ?db m" by (auto simp: base_at_def)
    with mS(2) m show ?thesis by (auto dest: set_zip_leftD)
  qed
  ultimately show ?thesis using u(2) unfolding db_inv_def by blast
qed

lemma db_inv_cong:
  assumes "indexObj db' = indexObj db" "sfObj db' = sfObj db"
  shows "db_inv E S w db' = db_inv E S w db" "finished E S w db' = finished E S w db"
proof -
  have a: "addr_at E db' k v = addr_at E db k v" for k v by (simp add: addr_at_def assms)
  then have b: "base_at E w db' m = base_at E w db m" for m by (simp add: base_at_def)
  then have d: "delta_chunk E S w db' v m = delta_chunk E S w db v m" for v m by (simp add: delta_chunk_def)
  show "db_inv E S w db' = db_inv E S w db" by (simp add: db_inv_def chunk_at_def sf_wf_def a b d assms)
  show "finished E S w db' = finished E S w db" by (simp add: fun_eq_iff finished_def kept_at_def b d)
qed

section \<open>A batch\<close>

text \<open>
  The invariant of the index between batches: \<open>S\<close> are the chunks uploaded so far and \<open>fs\<close> the
  fingerprints of the open file. The parts that every index keeps come first; \<open>dbi\<close> is what an
  index promises of the chunks it has stored.
\<close>

type_synonym index_spec =
  "enclave \<Rightarrow> bytes set \<Rightarrow> (container_name \<Rightarrow> bytes option) \<Rightarrow> InMemoryDatabase \<Rightarrow> bool"

definition buffers_ok :: "enclave \<Rightarrow> freq_st \<Rightarrow> bool" where
  "buffers_ok E st \<longleftrightarrow> length (recvBuffer st) = sendChunkBatchSize E * (4 + MAX_CHUNK_SIZE) \<and>
     length (inQueryBase st) = sendChunkBatchSize E \<and> length (outQueryBase st) = sendChunkBatchSize E \<and>
     (\<forall>e \<in> set (inQueryBase st). sane (i_chunkAddr e)) \<and> (\<forall>x \<in> set (outQueryBase st). length (o_chunkAddr x) = RECIPE_ENTRY_SIZE) \<and>
     localIndex st = Map.empty \<and> currNum st = 0"

definition index_inv :: "index_spec \<Rightarrow> enclave \<Rightarrow> string \<Rightarrow> bytes set \<Rightarrow> fp list \<Rightarrow> freq_st \<Rightarrow> bool" where
  "index_inv dbi E t S fs st \<longleftrightarrow> disk_ok t st \<and> ht_ok st \<and> dbi E S (sworld t st) (outdb st) \<and> recipe_inv E fs (up st) \<and>
     heap_ok (topThreshold E) (hashfp E ` S) (insideDedupIndex st) \<and> buffers_ok E st \<and> (\<forall>m \<in> S. chunk_ok m)"

definition freq_inv :: "enclave \<Rightarrow> string \<Rightarrow> bytes set \<Rightarrow> fp list \<Rightarrow> freq_st \<Rightarrow> bool" where
  "freq_inv E t S fs st \<longleftrightarrow> disk_ok t st \<and> ht_ok st \<and> db_inv E S (sworld t st) (outdb st) \<and> recipe_inv E fs (up st) \<and>
     heap_ok (topThreshold E) (hashfp E ` S) (insideDedupIndex st) \<and> buffers_ok E st \<and> (\<forall>m \<in> S. chunk_ok m)"

lemma freq_inv_eq: "freq_inv E t S fs st = index_inv db_inv E t S fs st"
  by (simp add: freq_inv_def index_inv_def)

definition start_ctx :: "enclave \<Rightarrow> string \<Rightarrow> fp list \<Rightarrow> bytes list \<Rightarrow> bytes list \<Rightarrow> freq_st \<Rightarrow> loop_ctx" where
  "start_ctx E t fs ms ns st =
    \<lparr>c_world = sworld t st, c_db = outdb st, c_heap = insideDedupIndex st,
     c_recv = frames ms @ drop (length (frames ms)) (recvBuffer st), c_news = ns, c_fps = fs, c_times = con_times (up st),
     c_unique = uniqueChunkNum (stats st), c_logical = logicalChunkNum (stats st), c_size = sendChunkBatchSize E\<rparr>"

lemma set_news: "set (news ms es) \<subseteq> set ms"
  by (auto simp: news_def dest: set_zip_leftD)

lemma start_loop:
  assumes "disk_ok t st" "ht_ok st" "recipe_inv E fs (up st)"
    "st4 = st\<lparr>recvBuffer := frames ms @ drop (length (frames ms)) (recvBuffer st), cmSketch := sk, localIndex := loc,
       inQueryBase := iq, outQueryBase := oq, queryNum := q, stats := s\<rparr>"
    "currNum st = 0" "uniqueChunkNum s = uniqueChunkNum (stats st)" "logicalChunkNum s = logicalChunkNum (stats st)"
    "length iq = sendChunkBatchSize E" "length oq = sendChunkBatchSize E" "\<forall>e \<in> set iq. sane (i_chunkAddr e)"
    "\<forall>x \<in> set oq. length (o_chunkAddr x) = RECIPE_ENTRY_SIZE" "news ms (take (length ms) iq) = ns"
    "paired E (asked E S (outdb st) (qry E S (sworld t st) (outdb st))) ms (take (length ms) iq) oq"
  shows "loop_inv qry fin E S t (start_ctx E t fs ms ns st) ms 0 \<lparr>fst_st = st4, currentOffset = 0, processNum = 0, batch_basemap = []\<rparr>"
proof -
  let ?C = "start_ctx E t fs ms ns st"
  have "frame_inv t ?C st4" using assms(1,2) unfolding assms(4)
    by (simp add: frame_inv_def start_ctx_def disk_ok_def ht_ok_def sworld_def world_le_refl)
  moreover have "count_inv ?C 0 st4 0 []" unfolding assms(4) by (simp add: count_inv_def start_ctx_def pairs_ok_def)
  moreover have "list_all2 (entry_for E) ms (take (length ms) iq)"
    using paired_entries [OF assms(13)] by (rule list_all2_mono) (simp add: batch_entry_def)
  then have "list_inv E ?C ms (inQueryBase st4) (outQueryBase st4)"
    using assms(8-11) unfolding assms(4) by (simp add: list_inv_def start_ctx_def)
  moreover have "todo_inv qry E S ?C ms 0 (inQueryBase st4) (drop (currNum st4) (outQueryBase st4))"
    using assms(5,13) unfolding assms(4) by (simp add: todo_inv_def start_ctx_def)
  moreover have "done_inv fin E S t ?C ms 0 st4 []" using assms(5,6,12) unfolding assms(4) by (simp add: done_inv_def start_ctx_def)
  moreover have "rec_inv E ?C ms 0 st4 0" using assms(3,7) unfolding assms(4) by (simp add: rec_inv_def start_ctx_def)
  ultimately show ?thesis unfolding loop_inv_def ent_inv_def by auto
qed

text \<open>The phases before the loop.\<close>

definition similar_batch :: "enclave \<Rightarrow> bytes set \<Rightarrow> string \<Rightarrow> freq_st \<Rightarrow> bytes list \<Rightarrow> bytes list \<Rightarrow> freq_st \<Rightarrow> bool" where
  "similar_batch E S t st ms ns st3 \<longleftrightarrow>
    (\<exists>sk loc es iq oq q. st3 = st\<lparr>recvBuffer := frames ms @ drop (length (frames ms)) (recvBuffer st), cmSketch := sk, localIndex := loc,
         inQueryBase := es @ iq, outQueryBase := oq, queryNum := q\<rparr> \<and>
       length es = length ms \<and> length (es @ iq) = sendChunkBatchSize E \<and> length oq = sendChunkBatchSize E \<and> news ms es = ns \<and>
       (\<forall>e \<in> set iq. sane (i_chunkAddr e)) \<and> (\<forall>x \<in> set oq. length (o_chunkAddr x) = RECIPE_ENTRY_SIZE) \<and>
       paired E (asked E S (outdb st) (similar_query E S (sworld t st) (outdb st))) ms es oq)"

lemma batch_classified:
  assumes "evp_ok (ssl E)" "2 \<le> topThreshold E" "index_inv dbi E t S fs st"
    "SessionKeyDec (ssl E) (sessionKey E) dataBuffer = Inr (frames ms)" "length ms \<le> sendChunkBatchSize E"
    "\<forall>m \<in> set ms. chunk_ok m" "inj_on (hashfp E) (S \<union> set ms)"
  shows "\<exists>st1 st2 sk iq oq loc. receive_batch E dataBuffer (length ms) st = Inr st1 \<and>
    check_topk E (length ms) st1 = Inr (length (news ms (take (length ms) iq)), st2) \<and>
    st2 = st\<lparr>recvBuffer := frames ms @ drop (length (frames ms)) (recvBuffer st), cmSketch := sk,
      inQueryBase := iq, outQueryBase := oq, localIndex := loc\<rparr> \<and>
    length iq = sendChunkBatchSize E \<and> length oq = sendChunkBatchSize E \<and> (\<forall>e \<in> set iq. sane (i_chunkAddr e)) \<and>
    (\<forall>x \<in> set oq. length (o_chunkAddr x) = RECIPE_ENTRY_SIZE) \<and>
    paired E (\<lambda>m e x. o_chunkHash x = keyof E m \<and> length (o_chunkAddr x) = RECIPE_ENTRY_SIZE) ms (take (length ms) iq) oq \<and>
    distinct (news ms (take (length ms) iq)) \<and> set ms \<subseteq> S \<union> set (news ms (take (length ms) iq)) \<and>
    length (frames ms) \<le> length (recvBuffer st) \<and> length ms * (4 + MAX_CHUNK_SIZE) \<le> length (recvBuffer st)"
proof -
  let ?N = "sendChunkBatchSize E" and ?recv = "frames ms @ drop (length (frames ms)) (recvBuffer st)" and ?n = "length ms"
  have i: "buffers_ok E st" "heap_sane (insideDedupIndex st)" "dom (contents (insideDedupIndex st)) \<subseteq> hashfp E ` S"
    using assms(3) by (simp_all add: index_inv_def heap_ok_def)
  note b = i(1) [unfolded buffers_ok_def]
  have fl: "length (frames ms) \<le> length (recvBuffer st)" "?n * (4 + MAX_CHUNK_SIZE) \<le> length (recvBuffer st)"
    using order_trans [OF length_frames [OF assms(6)] mult_le_mono1 [OF assms(5)]] b assms(5) by simp_all
  obtain iq1 sk where 1: "receive_batch E dataBuffer ?n st = Inr (st\<lparr>recvBuffer := ?recv, inQueryBase := iq1, cmSketch := sk\<rparr>)"
      "length iq1 = ?N" "list_all2 (entry_for E) ms (take ?n iq1)" "\<forall>e \<in> set iq1. sane (i_chunkAddr e)"
    using receive_batch_ok [OF assms(1,4,6) _ fl(1)] b assms(5) by auto
  define st1 where "st1 = st\<lparr>recvBuffer := ?recv, inQueryBase := iq1, cmSketch := sk\<rparr>"
  obtain num iq oq loc where 2: "check_topk E ?n st1 = Inr (num, st1\<lparr>inQueryBase := iq, outQueryBase := oq, localIndex := loc\<rparr>)"
      "length iq = ?N" "length oq = ?N" "\<forall>e \<in> set iq. sane (i_chunkAddr e)" "\<forall>x \<in> set oq. length (o_chunkAddr x) = RECIPE_ENTRY_SIZE"
      "num = length (news ms (take ?n iq))"
      "paired E (\<lambda>m e x. o_chunkHash x = keyof E m \<and> length (o_chunkAddr x) = RECIPE_ENTRY_SIZE) ms (take ?n iq) oq"
      "distinct (news ms (take ?n iq))" "set ms \<subseteq> S \<union> set (news ms (take ?n iq))"
    using check_topk_ok [of E st1 ?N ms S] assms(1,2,5,7) i(2,3) b 1(2-4) by (auto simp: st1_def)
  have "st1\<lparr>inQueryBase := iq, outQueryBase := oq, localIndex := loc\<rparr> =
      st\<lparr>recvBuffer := ?recv, cmSketch := sk, inQueryBase := iq, outQueryBase := oq, localIndex := loc\<rparr>" by (simp add: st1_def)
  note st2 = this
  show ?thesis
    by (rule exI [of _ st1], rule exI [of _ "st1\<lparr>inQueryBase := iq, outQueryBase := oq, localIndex := loc\<rparr>"],
        rule exI [of _ sk], rule exI [of _ iq], rule exI [of _ oq], rule exI [of _ loc])
      (use 1(1) [folded st1_def] 2(1) [unfolded 2(6)] st2 2(2-5,7-9) fl in blast)
qed

lemma batch_similar:
  assumes "evp_ok (ssl E)" "2 \<le> topThreshold E" "freq_inv E t S fs st"
    "SessionKeyDec (ssl E) (sessionKey E) dataBuffer = Inr (frames ms)" "length ms \<le> sendChunkBatchSize E"
    "\<forall>m \<in> set ms. chunk_ok m" "inj_on (hashfp E) (S \<union> set ms)"
  shows "\<exists>st1 num st2 st3 ns. receive_batch E dataBuffer (length ms) st = Inr st1 \<and>
    check_topk E (length ms) st1 = Inr (num, st2) \<and> find_similar E (length ms) num st2 = Inr st3 \<and>
    num = length ns \<and> distinct ns \<and> set ns \<subseteq> set ms \<and> set ms \<subseteq> S \<union> set ns \<and> similar_batch E S t st ms ns st3"
proof -
  let ?N = "sendChunkBatchSize E" and ?recv = "frames ms @ drop (length (frames ms)) (recvBuffer st)" and ?n = "length ms"
  have i: "db_inv E S (sworld t st) (outdb st)" using assms(3) by (simp add: freq_inv_def)
  obtain st1 st2 sk iq2 oq2 loc where 2: "receive_batch E dataBuffer ?n st = Inr st1"
      "check_topk E ?n st1 = Inr (length (news ms (take ?n iq2)), st2)"
      "st2 = st\<lparr>recvBuffer := ?recv, cmSketch := sk, inQueryBase := iq2, outQueryBase := oq2, localIndex := loc\<rparr>"
      "length iq2 = ?N" "length oq2 = ?N" "\<forall>e \<in> set iq2. sane (i_chunkAddr e)" "\<forall>x \<in> set oq2. length (o_chunkAddr x) = RECIPE_ENTRY_SIZE"
      "paired E (\<lambda>m e x. o_chunkHash x = keyof E m \<and> length (o_chunkAddr x) = RECIPE_ENTRY_SIZE) ms (take ?n iq2) oq2"
      "distinct (news ms (take ?n iq2))" "set ms \<subseteq> S \<union> set (news ms (take ?n iq2))"
      "length (frames ms) \<le> length (recvBuffer st)" "?n * (4 + MAX_CHUNK_SIZE) \<le> length (recvBuffer st)"
    using batch_classified [OF assms(1,2) assms(3) [unfolded freq_inv_eq] assms(4-7)] by blast
  let ?num = "length (news ms (take ?n iq2))"
  have p2: "outdb st2 = outdb st" "recvBuffer st2 = ?recv" "length (recvBuffer st2) = length (recvBuffer st)" "inQueryBase st2 = iq2"
      "outQueryBase st2 = oq2"
    using 2(3,11) by simp_all
  obtain es3 oq3 q where 3: "find_similar E ?n ?num st2 = Inr (st2\<lparr>inQueryBase := es3 @ drop ?n iq2, outQueryBase := oq3, queryNum := q\<rparr>)"
      "length es3 = ?n" "length oq3 = ?N" "news ms es3 = news ms (take ?n iq2)" "\<forall>x \<in> set oq3. length (o_chunkAddr x) = RECIPE_ENTRY_SIZE"
      "paired E (asked E S (outdb st) (similar_query E S (sworld t st) (outdb st))) ms es3 oq3"
    using find_similar_ok [OF assms(1), of S "sworld t st" st2 ms "drop (length (frames ms)) (recvBuffer st)" ?num,
        unfolded p2(1,4,5), OF i assms(7,6) p2(2) _ 2(7,8) refl] p2(3) 2(4,5,12) assms(5) by auto
  define st3 where "st3 = st2\<lparr>inQueryBase := es3 @ drop ?n iq2, outQueryBase := oq3, queryNum := q\<rparr>"
  have "st3 = st\<lparr>recvBuffer := ?recv, cmSketch := sk, localIndex := loc, inQueryBase := es3 @ drop ?n iq2, outQueryBase := oq3, queryNum := q\<rparr>"
    by (simp add: st3_def 2(3))
  moreover have "\<forall>e \<in> set (drop ?n iq2). sane (i_chunkAddr e)" using 2(6) by (auto dest: in_set_dropD)
  moreover have "length (es3 @ drop ?n iq2) = ?N" using 3(2) 2(4) assms(5) by simp
  ultimately have "similar_batch E S t st ms (news ms (take ?n iq2)) st3"
    unfolding similar_batch_def using 3 by blast
  then show ?thesis using 2(1,2,9,10) 3(1) [folded st3_def] set_news [of ms "take ?n iq2"] by blast
qed

text \<open>The addresses of the bases are loaded; then the loop starts.\<close>

lemma loaded_batch:
  assumes "evp_ok (ssl E)" "freq_inv E t S fs st" "similar_batch E S t st ms ns st3"
  shows "\<exists>es oq ids. load_entries E (take (length ms) (inQueryBase st3)) (outQueryBase st3) [] = Inr (es, oq, ids) \<and>
    (\<forall>s. uniqueChunkNum s = uniqueChunkNum (stats st) \<longrightarrow> logicalChunkNum s = logicalChunkNum (stats st) \<longrightarrow>
      loop_inv loaded_query fin E S t (start_ctx E t fs ms ns st) ms 0
        \<lparr>fst_st = st3\<lparr>inQueryBase := es @ drop (length ms) (inQueryBase st3), outQueryBase := oq, stats := s\<rparr>,
         currentOffset = 0, processNum = 0, batch_basemap = []\<rparr>)"
proof -
  let ?n = "length ms"
  have i: "disk_ok t st" "ht_ok st" "recipe_inv E fs (up st)" "buffers_ok E st" using assms(2) by (simp_all add: freq_inv_def)
  obtain sk loc es3 iq oq3 q where s: "st3 = st\<lparr>recvBuffer := frames ms @ drop (length (frames ms)) (recvBuffer st), cmSketch := sk,
         localIndex := loc, inQueryBase := es3 @ iq, outQueryBase := oq3, queryNum := q\<rparr>"
      "length es3 = ?n" "length (es3 @ iq) = sendChunkBatchSize E" "length oq3 = sendChunkBatchSize E" "news ms es3 = ns"
      "\<forall>e \<in> set iq. sane (i_chunkAddr e)" "\<forall>x \<in> set oq3. length (o_chunkAddr x) = RECIPE_ENTRY_SIZE"
      "paired E (asked E S (outdb st) (similar_query E S (sworld t st) (outdb st))) ms es3 oq3"
    using assms(3) unfolding similar_batch_def by blast
  obtain es oq ids where l: "load_entries E es3 oq3 [] = Inr (es, oq, ids)" "news ms es = news ms es3" "length oq = length oq3"
      "\<forall>x \<in> set oq. length (o_chunkAddr x) = RECIPE_ENTRY_SIZE" "paired E (asked E S (outdb st) (loaded_query E S (sworld t st) (outdb st))) ms es oq"
    using load_entries_ok [OF assms(1) s(8,7)] by blast
  have en: "length es = ?n" "\<forall>e \<in> set es. sane (i_chunkAddr e)"
    using paired_entries [OF l(5)] by (auto simp: list_all2_conv_all_nth in_set_conv_nth batch_entry_def entry_for_def)
  have p: "take ?n (inQueryBase st3) = es3" "drop ?n (inQueryBase st3) = iq" "outQueryBase st3 = oq3" using s(1,2) by simp_all
  have "loop_inv loaded_query fin E S t (start_ctx E t fs ms ns st) ms 0
        \<lparr>fst_st = st3\<lparr>inQueryBase := es @ iq, outQueryBase := oq, stats := x\<rparr>, currentOffset = 0, processNum = 0, batch_basemap = []\<rparr>"
    if "uniqueChunkNum x = uniqueChunkNum (stats st)" "logicalChunkNum x = logicalChunkNum (stats st)" for x
    by (rule start_loop [OF i(1-3), where iq = "es @ iq" and oq = oq and s = x and sk = sk and loc = loc and q = q])
      (use s l en that i(4) in \<open>auto simp: buffers_ok_def\<close>)
  with l(1) show ?thesis unfolding p by blast
qed

text \<open>What the loop leaves, and the phases after it.\<close>

lemma loop_done:
  assumes "loop_inv qry fin E S t (start_ctx E t fs ms ns st) ms (length ms) ls" "length ms \<le> sendChunkBatchSize E"
  shows "length ns = currNum (fst_st ls)"
    "list_all2 (fin E S (sworld t (fst_st ls)) (outdb st)) ns (take (length ns) (outQueryBase (fst_st ls)))"
    "uniqueChunkNum (stats (fst_st ls)) = uniqueChunkNum (stats st) + word_of_nat (length (filter (\<lambda>m. m \<notin> S) ns))"
proof -
  let ?C = "start_ctx E t fs ms ns st" and ?st = "fst_st ls"
  obtain dn where d: "done_inv fin E S t ?C ms (length ms) ?st dn" using assms(1) by (auto simp: loop_inv_def ent_inv_def)
  then have "dn = ns" by (simp add: done_inv_def start_ctx_def)
  with d show "length ns = currNum ?st" "list_all2 (fin E S (sworld t ?st) (outdb st)) ns (take (length ns) (outQueryBase ?st))"
    "uniqueChunkNum (stats ?st) = uniqueChunkNum (stats st) + word_of_nat (length (filter (\<lambda>m. m \<notin> S) ns))"
    by (simp_all add: done_inv_def start_ctx_def)
qed

lemma loop_entries:
  assumes "loop_inv qry fin E S t (start_ctx E t fs ms ns st) ms (length ms) ls"
  shows "\<forall>e \<in> set (take (length ms) (inQueryBase (fst_st ls))). sane (i_chunkAddr e) \<and> i_chunkHash e \<in> hashfp E ` (S \<union> set ms)"
proof -
  have "list_all2 (entry_for E) ms (take (length ms) (inQueryBase (fst_st ls)))"
    using assms by (simp add: loop_inv_def ent_inv_def list_inv_def)
  then have "\<exists>m \<in> set ms. entry_for E m e" if "e \<in> set (take (length ms) (inQueryBase (fst_st ls)))" for e
    using that by (metis list_all2_conv_all_nth in_set_conv_nth)
  then show ?thesis by (fastforce simp: entry_for_def)
qed

lemma card_new:
  assumes "distinct ns" "set ns \<subseteq> set ms" "set ms \<subseteq> S \<union> set ns"
  shows "length (filter (\<lambda>m. m \<notin> S) ns) = card (set ms - S)"
proof -
  have "set (filter (\<lambda>m. m \<notin> S) ns) = set ms - S" using assms(2,3) by auto
  with distinct_card [OF distinct_filter [OF assms(1)], of "\<lambda>m. m \<notin> S"] show ?thesis by simp
qed

lemma update_outside_eq: "update_outside st = st\<lparr>outdb := Ocall_UpdateOutIndex (queryNum st) (outQueryBase st) (outdb st)\<rparr>"
  by (simp add: update_outside_def Ocall_UpdateOutIndex_def)

text \<open>What a batch achieves: the invariant for the chunks uploaded now, with nothing lost and every chunk counted.\<close>

definition batch_done ::
  "index_spec \<Rightarrow> enclave \<Rightarrow> string \<Rightarrow> bytes set \<Rightarrow> fp list \<Rightarrow> bytes list \<Rightarrow> freq_st \<Rightarrow> freq_st \<Rightarrow> bool" where
  "batch_done dbi E t S fs ms st st' \<longleftrightarrow> index_inv dbi E t (S \<union> set ms) (fs @ map (hashfp E) ms) st' \<and> world_le (sworld t st) (sworld t st') \<and>
     con_times (up st') \<le> con_times (up st) + length ms \<and>
     uniqueChunkNum (stats st') = uniqueChunkNum (stats st) + word_of_nat (card (set ms - S)) \<and>
     logicalChunkNum (stats st') = logicalChunkNum (stats st) + word_of_nat (length ms)"

definition batch_result :: "enclave \<Rightarrow> string \<Rightarrow> bytes set \<Rightarrow> fp list \<Rightarrow> bytes list \<Rightarrow> freq_st \<Rightarrow> freq_st \<Rightarrow> bool" where
  "batch_result E t S fs ms st st' \<longleftrightarrow> freq_inv E t (S \<union> set ms) (fs @ map (hashfp E) ms) st' \<and> world_le (sworld t st) (sworld t st') \<and>
     con_times (up st') \<le> con_times (up st) + length ms \<and>
     uniqueChunkNum (stats st') = uniqueChunkNum (stats st) + word_of_nat (card (set ms - S)) \<and>
     logicalChunkNum (stats st') = logicalChunkNum (stats st) + word_of_nat (length ms)"

lemma batch_result_eq: "batch_result E t S fs ms st st' = batch_done db_inv E t S fs ms st st'"
  by (simp add: batch_result_def batch_done_def freq_inv_eq)

text \<open>
  An index as the end of a batch sees it: its promise follows from that of the entries of the batch
  when they are written to the index outside.
\<close>

locale index_contract = entry_contract +
  fixes dbi :: index_spec
  assumes dbi_index: "dbi E S w db \<Longrightarrow> index_ok E S db"
    and dbi_mono: "world_le w w' \<Longrightarrow> dbi E S w db \<Longrightarrow> dbi E S w' db"
    and dbi_cong: "indexObj db' = indexObj db \<Longrightarrow> sfObj db' = sfObj db \<Longrightarrow> dbi E S w db \<Longrightarrow> dbi E S w db'"
    and fin_cong: "indexObj db' = indexObj db \<Longrightarrow> sfObj db' = sfObj db \<Longrightarrow> fin E S w db m x \<Longrightarrow> fin E S w db' m x"
    and dbi_update: "evp_ok (ssl E) \<Longrightarrow> dbi E S w db \<Longrightarrow> list_all2 (fin E S w db) ns xs \<Longrightarrow> distinct ns \<Longrightarrow>
      inj_on (keyof E) (S \<union> set ns) \<Longrightarrow> dbi E (S \<union> set ns) w (fold update_entry xs db)"
begin

lemma batch_leave:
  assumes "evp_ok (ssl E)" "2 \<le> topThreshold E" "index_inv dbi E t S fs st" "\<forall>m \<in> set ms. chunk_ok m"
    "inj_on (hashfp E) (S \<union> set ms)" "length ms \<le> sendChunkBatchSize E" "distinct ns" "set ns \<subseteq> set ms" "set ms \<subseteq> S \<union> set ns"
    "loop_inv qry fin E S t (start_ctx E t fs ms ns st) ms (length ms) ls"
    "st5 = (fst_st ls)\<lparr>test_buffer := b, outdb := db, stats := s\<rparr>"
    "indexObj db = indexObj (outdb (fst_st ls))" "sfObj db = sfObj (outdb (fst_st ls))"
    "uniqueChunkNum s = uniqueChunkNum (stats (fst_st ls))" "logicalChunkNum s = logicalChunkNum (stats (fst_st ls))"
  shows "\<exists>h. offer_entries (topThreshold E) (take (length ms) (inQueryBase st5)) (insideDedupIndex st5) = Inr h \<and>
    batch_done dbi E t S fs ms st (update_outside (st5\<lparr>insideDedupIndex := h, queryNum := length ns, currNum := 0, localIndex := Map.empty\<rparr>))"
proof -
  let ?C = "start_ctx E t fs ms ns st" and ?l = "fst_st ls" and ?w = "sworld t (fst_st ls)" and ?S = "S \<union> set ms"
  have li: "frame_inv t ?C ?l" "count_inv ?C (length ms) ?l (processNum ls) (batch_basemap ls)" "list_inv E ?C ms (inQueryBase ?l) (outQueryBase ?l)"
      "rec_inv E ?C ms (length ms) ?l (currentOffset ls)"
    using assms(10) by (simp_all add: loop_inv_def ent_inv_def)
  have fr: "disk_ok t ?l" "ht_ok ?l" "world_le (sworld t st) ?w" "recvBuffer ?l = c_recv ?C" "outdb ?l = outdb st" "insideDedupIndex ?l = insideDedupIndex st"
    using li(1) by (simp_all add: frame_inv_def start_ctx_def)
  have inv: "dbi E S (sworld t st) (outdb st)" "heap_ok (topThreshold E) (hashfp E ` S) (insideDedupIndex st)" "buffers_ok E st" "\<forall>m \<in> S. chunk_ok m"
    using assms(3) by (simp_all add: index_inv_def)
  have r: "indexObj db = indexObj (outdb st)" "sfObj db = sfObj (outdb st)" using assms(12,13) fr(5) by simp_all
  have p: "inQueryBase st5 = inQueryBase ?l" "insideDedupIndex st5 = insideDedupIndex st" "outdb st5 = db" "up st5 = up ?l" "stats st5 = s"
      "sworld t st5 = ?w" "outQueryBase st5 = outQueryBase ?l"
    using fr(6) assms(11) by (simp_all add: sworld_def)
  have "hashfp E ` S \<subseteq> hashfp E ` ?S" by blast
  then have "heap_ok (topThreshold E) (hashfp E ` ?S) (insideDedupIndex st)" using inv(2) by (auto simp: heap_ok_def)
  from offer_entries_ok [OF assms(2) this loop_entries [OF assms(10)]] obtain h where
      h: "offer_entries (topThreshold E) (take (length ms) (inQueryBase st5)) (insideDedupIndex st5) = Inr h"
        "heap_ok (topThreshold E) (hashfp E ` ?S) h" unfolding p by blast
  let ?st' = "st5\<lparr>insideDedupIndex := h, queryNum := length ns, currNum := 0, localIndex := Map.empty\<rparr>"
  have S: "S \<union> set ns = ?S" using assms(8,9) by blast
  have "list_all2 (fin E S ?w db) ns (take (length ns) (outQueryBase ?l))"
    using loop_done(2) [OF assms(10,6)] by (rule list_all2_mono) (rule fin_cong [OF r])
  moreover have "dbi E S ?w db" using dbi_cong [OF r dbi_mono [OF fr(3) inv(1)]] .
  ultimately have "dbi E ?S ?w (Ocall_UpdateOutIndex (length ns) (outQueryBase st5) (outdb st5))"
    using dbi_update [OF assms(1)] assms(7) keyof_inj [OF assms(1,5)] S unfolding p Ocall_UpdateOutIndex_def by metis
  moreover have "recipe_inv E (fs @ map (hashfp E) ms) (up ?l)" using li(4) by (simp add: rec_inv_def start_ctx_def)
  moreover have "length (frames ms) \<le> length (recvBuffer st)"
    using order_trans [OF length_frames [OF assms(4)] mult_le_mono1 [OF assms(6)]] inv(3) by (simp add: buffers_ok_def)
  ultimately have "index_inv dbi E t ?S (fs @ map (hashfp E) ms) (?st'\<lparr>outdb := Ocall_UpdateOutIndex (length ns) (outQueryBase st5) (outdb st5)\<rparr>)"
    using fr h(2) inv(3,4) assms(4) li(3) p
    by (auto simp: index_inv_def disk_ok_def ht_ok_def sworld_def buffers_ok_def list_inv_def start_ctx_def assms(11))
  then have "index_inv dbi E t ?S (fs @ map (hashfp E) ms) (update_outside ?st')"
    by (simp add: update_outside_eq)
  moreover have "sworld t (update_outside ?st') = ?w" "up (update_outside ?st') = up ?l" "stats (update_outside ?st') = s"
    using p by (simp_all add: update_outside_def sworld_def)
  moreover have "con_times (up ?l) \<le> con_times (up st) + length ms"
      "logicalChunkNum (stats ?l) = logicalChunkNum (stats st) + word_of_nat (length ms)"
    using li(2,4) by (simp_all add: count_inv_def rec_inv_def start_ctx_def)
  ultimately have "batch_done dbi E t S fs ms st (update_outside ?st')"
    using fr(3) loop_done(3) [OF assms(10,6)] card_new [OF assms(7-9)] assms(14,15) by (simp add: batch_done_def)
  with h(1) show ?thesis by blast
qed

end

lemma db_inv_same:
  assumes "indexObj db' = indexObj db" "sfObj db' = sfObj db"
  shows "db_inv E S w db \<Longrightarrow> db_inv E S w db'" "finished E S w db m x \<Longrightarrow> finished E S w db' m x"
  using db_inv_cong [OF assms] by metis+

interpretation freq_index: index_contract loaded_query finished db_inv
  by unfold_locales (fact db_inv_index db_inv_mono db_inv_same updated_db_inv)+

text \<open>What is sent is within the limits of the enclave, and different chunks have different fingerprints.\<close>

definition batch_ok :: "enclave \<Rightarrow> bytes set \<Rightarrow> bytes list \<Rightarrow> bool" where
  "batch_ok E S ms \<longleftrightarrow> length ms \<le> sendChunkBatchSize E \<and> length ms \<le> 4000 \<and> (\<forall>m \<in> set ms. chunk_ok m) \<and>
     inj_on (hashfp E) (S \<union> set ms) \<and> (\<forall>m \<in> set ms. \<forall>mb \<in> S. starts_paced m (base_text E mb))"

lemma batch_okD:
  assumes "batch_ok E S ms"
  shows "length ms \<le> sendChunkBatchSize E" "\<forall>m \<in> set ms. chunk_ok m" "inj_on (hashfp E) (S \<union> set ms)" "length ms \<le> 4000"
    "\<forall>m \<in> set ms. chunk_ok m \<and> (\<forall>mb \<in> S. starts_paced m (base_text E mb))"
  using assms by (simp_all add: batch_ok_def)

lemma LocalChecker_eq:
  "load_entries E (take n (inQueryBase st)) (outQueryBase st) [] = Inr (es, oq, ids) \<Longrightarrow>
    \<exists>flag s. LocalChecker E n (count_queries q st) = Inr (flag, st\<lparr>inQueryBase := es @ drop n (inQueryBase st), outQueryBase := oq, stats := s\<rparr>) \<and>
      uniqueChunkNum s = uniqueChunkNum (stats st) \<and> logicalChunkNum s = logicalChunkNum (stats st)"
  by (intro exI [of _ "offline_threshold (Forward_Flag st) n < length ids"]
      exI [of _ "(stats (count_queries q st))\<lparr>need_load_container_num := need_load_container_num (stats st) + word_of_nat (length ids),
        inline_batch_num := inline_batch_num (stats st) + 1\<rparr>"])
    (simp add: LocalChecker_def count_queries_def Let_def)

lemma batch_ok_run:
  assumes "evp_ok (ssl E)" "lz4_ok E" "2 \<le> topThreshold E" "freq_inv E t S fs st"
    "SessionKeyDec (ssl E) (sessionKey E) dataBuffer = Inr (frames ms)" "batch_ok E S ms"
    "con_times (up st) + length ms \<le> INT_MAX" "relies untorn t wr"
  shows "\<exists>st'. EnclaveIndex_ProcessOneBatch E t wr dataBuffer (length ms) st = Inr st' \<and> batch_result E t S fs ms st st'"
proof -
  note ms = batch_okD [OF assms(6)]
  have S: "\<forall>m \<in> set ms. chunk_ok m \<and> paced E S m" "index_ok E S (outdb st)"
    using assms(4) ms(5) db_inv_index by (auto simp: freq_inv_def paced_def)
  obtain st1 num st2 st3 ns where pre: "receive_batch E dataBuffer (length ms) st = Inr st1"
      "check_topk E (length ms) st1 = Inr (num, st2)" "find_similar E (length ms) num st2 = Inr st3"
      "num = length ns" "distinct ns" "set ns \<subseteq> set ms" "set ms \<subseteq> S \<union> set ns" "similar_batch E S t st ms ns st3"
    using batch_similar [OF assms(1,3,4,5) ms(1-3)] by blast
  let ?C = "start_ctx E t fs ms ns st"
  obtain es oq ids where ld: "load_entries E (take (length ms) (inQueryBase st3)) (outQueryBase st3) [] = Inr (es, oq, ids)"
      "\<And>s. uniqueChunkNum s = uniqueChunkNum (stats st) \<Longrightarrow> logicalChunkNum s = logicalChunkNum (stats st) \<Longrightarrow>
        loop_inv loaded_query finished E S t ?C ms 0 \<lparr>fst_st = st3\<lparr>inQueryBase := es @ drop (length ms) (inQueryBase st3), outQueryBase := oq, stats := s\<rparr>,
         currentOffset = 0, processNum = 0, batch_basemap = []\<rparr>"
    using loaded_batch [OF assms(1,4) pre(8)] by blast
  have "stats st3 = stats st" using pre(8) by (auto simp: similar_batch_def)
  with LocalChecker_eq [OF ld(1), of num] obtain flag st4 where lc: "LocalChecker E (length ms) (count_queries num st3) = Inr (flag, st4)"
      "loop_inv loaded_query finished E S t ?C ms 0 \<lparr>fst_st = st4, currentOffset = 0, processNum = 0, batch_basemap = []\<rparr>"
    using ld(2) by metis
  have c: "c_world ?C = sworld t st" "c_db ?C = outdb st" "c_size ?C = sendChunkBatchSize E" "c_times ?C = con_times (up st)"
      "c_recv ?C = frames ms @ drop (length (frames ms)) (recvBuffer st)" by (simp_all add: start_ctx_def)
  obtain ls where ls: "foldE (process_chunk E t wr (store_unique E t flag)) [0..<length ms] \<lparr>fst_st = st4, currentOffset = 0, processNum = 0, batch_basemap = []\<rparr> = Inr ls"
      "loop_inv loaded_query finished E S t ?C ms (length ms) ls"
    using freq.main_loop_ok [OF assms(1,2) S(1) _ lc(2) _ _ _ c(5) assms(8), of "length ms" flag] S(2) assms(7) ms(1,4) unfolding c by auto
  have "pairs_ok (batch_basemap ls)" "length (batch_basemap ls) \<le> 4000"
    using ls(2) ms(4) by (simp_all add: loop_inv_def ent_inv_def count_inv_def)
  from record_pairs_ok [OF this, of flag] obtain b db s where r: "record_pairs flag ls = Inr ((fst_st ls)\<lparr>test_buffer := b, outdb := db, stats := s\<rparr>)"
      "indexObj db = indexObj (outdb (fst_st ls))" "sfObj db = sfObj (outdb (fst_st ls))"
      "uniqueChunkNum s = uniqueChunkNum (stats (fst_st ls))" "logicalChunkNum s = logicalChunkNum (stats (fst_st ls))" by blast
  from freq_index.batch_leave [OF assms(1,3) assms(4) [unfolded freq_inv_eq] ms(2,3,1) pre(5-7) ls(2) refl r(2-5), of b] obtain h where
      "offer_entries (topThreshold E) (take (length ms) (inQueryBase (fst_st ls))) (insideDedupIndex (fst_st ls)) = Inr h"
      "batch_done db_inv E t S fs ms st (update_outside ((fst_st ls)\<lparr>test_buffer := b, outdb := db, stats := s, insideDedupIndex := h,
         queryNum := length ns, currNum := 0, localIndex := Map.empty\<rparr>))" by auto
  with pre(1-4) lc(1) ls(1) r(1) show ?thesis by (simp add: EnclaveIndex_ProcessOneBatch_def ProcessOneBatch_def batch_result_eq)
qed

end
