(* ===== verification/Session.thy ===== *)
theory Session
  imports FreqCorrect Pacing
begin

text \<open>
  An upload from the first message to the last container file: the client's buffers
  (\<open>ClientVar::InitUploadBuffer\<close>, \<open>EnclaveClient::InitUploadBuffer\<close>), the messages handled by
  \<open>DataReceiver::Run\<close>, and the writer thread that \<open>ServerOptThread::Run\<close> joins. Between uploads
  the chunks of all uploads so far can be rebuilt from the container files alone.
\<close>

section \<open>The buffers of a client\<close>

text \<open>The content of freshly allocated memory, and the random IV.\<close>

record upload_mem =
  m_iv :: bytes
  m_recv :: bytes
  m_fps :: bytes
  m_inq :: "InQueryEntry list"
  m_outq :: "OutQueryEntry list"
  m_base :: bytes
  m_deltabase :: bytes
  m_cur :: Container
  m_curdelta :: Container
  m_delta :: bytes
  m_process :: bytes
  m_test :: bytes
  m_head :: bytes

definition new_client :: "upload_mem \<Rightarrow> freq_st \<Rightarrow> fault + freq_st" where
  "new_client mem st =
    bindE (InitUploadBuffer ((up st)\<lparr>inContainer := \<lparr>ic_buf = m_base mem, curSize = 0\<rparr>,
       deltainContainer := \<lparr>ic_buf = m_deltabase mem, curSize = 0\<rparr>, client_iv := m_iv mem,
       curContainer := m_cur mem, curDeltaContainer := m_curdelta mem, inputMQ := [],
       inRecipe := \<lparr>recipeNum = 0, entryFpList = m_fps mem\<rparr>, recipeFile := []\<rparr>)) (\<lambda>u.
    Inr (st\<lparr>up := u, recvBuffer := m_recv mem, inQueryBase := m_inq mem, outQueryBase := m_outq mem, queryNum := 0, currNum := 0,
      localIndex := Map.empty, psHTable2 := ht_init (16 * 1024), deltaBuffer := m_delta mem, process_buffer := m_process mem,
      test_buffer := m_test mem, savedNum := 0, writing := None\<rparr>))"

section \<open>A new index\<close>

text \<open>The constructor of \<open>EcallFreqIndex\<close>, where no sealed index exists.\<close>

definition zero_stats :: freq_stats where
  "zero_stats = \<lparr>insideDedupChunkNum = 0, insideDedupDataSize = 0, uniqueChunkNum = 0, uniqueDataSize = 0, logicalChunkNum = 0,
     logicalDataSize = 0, baseChunkNum = 0, baseDataSize = 0, lz4SaveSize = 0, deltaChunkNum = 0, deltaDataSize = 0, DeltaSaveSize = 0,
     Inline_FPOcall = 0, Inline_SFOcall = 0, Inline_LoadOcall = 0, Inline_DeltaOcall = 0, Inline_LocalOcall = 0,
     need_load_container_num = 0, inline_batch_num = 0\<rparr>"

definition EcallFreqIndex_new :: "bool \<Rightarrow> freq_st \<Rightarrow> freq_st" where
  "EcallFreqIndex_new forward st = st\<lparr>insideDedupIndex := empty_heap, cmSketch := cm_init (256 * 1024) 4,
     inContainercache := InContainercache_new, Forward_Flag := forward, stats := zero_stats\<rparr>"

section \<open>Receiving an upload\<close>

datatype client_msg =
  CLIENT_UPLOAD_CHUNK bytes nat
| CLIENT_UPLOAD_RECIPE_END bytes
| OTHER_MESSAGE

text \<open>
  The server during an upload: the index, the head of the recipe file (a placeholder until it is
  finalized), whether that file is open, and the counters of \<open>DataReceiver\<close>.
\<close>

record receiver =
  r_st :: freq_st
  recipeHead :: bytes
  recipeOpen :: bool
  batchNum :: nat
  recipeEndNum :: nat
  uploadDataSize :: u64
  Ecall_time :: nat

definition FILE_RECIPE_HEAD_SIZE :: nat where "FILE_RECIPE_HEAD_SIZE = 16"

text \<open>\<open>UpdateRecipeToFile\<close> and \<open>FinalizeRecipe\<close> end the process when the recipe file is closed.\<close>

definition check_recipe :: "receiver \<Rightarrow> up_st \<Rightarrow> fault + unit" where
  "check_recipe rv u = (if \<not> recipeOpen rv \<and> recipeFile u \<noteq> recipeFile (up (r_st rv)) then Inl ExitFailure else Inr ())"

definition FinalizeRecipe :: "bytes \<Rightarrow> receiver \<Rightarrow> fault + receiver" where
  "FinalizeRecipe h rv =
    (if \<not> recipeOpen rv then Inl ExitFailure else Inr (rv\<lparr>recipeHead := take FILE_RECIPE_HEAD_SIZE h, recipeOpen := False\<rparr>))"

text \<open>A message, with what the writer does while it is processed.\<close>

fun receive_msg :: "enclave \<Rightarrow> string \<Rightarrow> schedule \<times> client_msg \<Rightarrow> receiver \<Rightarrow> fault + receiver" where
  "receive_msg E t (w, CLIENT_UPLOAD_CHUNK d n) rv =
    bindE (EnclaveIndex_ProcessOneBatch E t w d n (r_st rv)) (\<lambda>st.
    bindE (check_recipe rv (up st)) (\<lambda>_.
      Inr (rv\<lparr>r_st := st, batchNum := Suc (batchNum rv), Ecall_time := Suc (Ecall_time rv)\<rparr>)))"
| "receive_msg E t (w, CLIENT_UPLOAD_RECIPE_END h) rv =
    bindE (ProcessTailBatch E (up (r_st rv))) (\<lambda>u.
    bindE (check_recipe rv u) (\<lambda>_.
    bindE (FinalizeRecipe h (rv\<lparr>r_st := (r_st rv)\<lparr>up := u\<rparr>\<rparr>)) (\<lambda>rv'.
      Inr (rv'\<lparr>recipeEndNum := Suc (recipeEndNum rv'), uploadDataSize := rd64 h, Ecall_time := Suc (Ecall_time rv')\<rparr>))))"
| "receive_msg E t (w, OTHER_MESSAGE) rv = Inl ExitFailure"

text \<open>When the client closes the connection the last containers are handed over.\<close>

definition DataReceiver_Run :: "enclave \<Rightarrow> string \<Rightarrow> (schedule \<times> client_msg) list \<Rightarrow> receiver \<Rightarrow> fault + receiver" where
  "DataReceiver_Run E t msgs rv =
    bindE (foldE (receive_msg E t) msgs rv) (\<lambda>rv1.
    bindE (finish_upload (up (r_st rv1))) (\<lambda>u. Inr (rv1\<lparr>r_st := (r_st rv1)\<lparr>up := u\<rparr>\<rparr>)))"

text \<open>
  The writer ends when the queue is empty and the receiver is done. Nothing reads the containers
  any more, so only the ends of the saves count; a save that is under way is the first to end.
\<close>

definition writer_rest :: "string \<Rightarrow> freq_st \<Rightarrow> freq_st" where
  "writer_rest t st = fold (writer_step t) (concat (replicate (length (inputMQ (up st)) - savedNum st) [Fopen, Fclose])) st"

definition server_upload ::
  "enclave \<Rightarrow> string \<Rightarrow> upload_mem \<Rightarrow> (schedule \<times> client_msg) list \<Rightarrow> receiver \<Rightarrow> fault + receiver" where
  "server_upload E t mem msgs rv =
    bindE (new_client mem (r_st rv)) (\<lambda>st.
    bindE (DataReceiver_Run E t msgs (rv\<lparr>r_st := st, recipeHead := m_head mem, recipeOpen := True, uploadDataSize := 0\<rparr>)) (\<lambda>rv1.
      Inr (rv1\<lparr>r_st := writer_rest t (r_st rv1)\<rparr>)))"

section \<open>Between uploads\<close>

definition mem_ok :: "enclave \<Rightarrow> upload_mem \<Rightarrow> bool" where
  "mem_ok E mem \<longleftrightarrow> length (m_iv mem) = CRYPTO_BLOCK_SIZE \<and> length (m_recv mem) = sendChunkBatchSize E * (4 + MAX_CHUNK_SIZE) \<and>
     length (m_inq mem) = sendChunkBatchSize E \<and> length (m_outq mem) = sendChunkBatchSize E \<and>
     (\<forall>e \<in> set (m_inq mem). sane (i_chunkAddr e)) \<and> (\<forall>x \<in> set (m_outq mem). length (o_chunkAddr x) = RECIPE_ENTRY_SIZE)"

text \<open>The invariant between uploads: everything is in the files.\<close>

definition idle_inv :: "enclave \<Rightarrow> string \<Rightarrow> bytes set \<Rightarrow> freq_st \<Rightarrow> bool" where
  "idle_inv E t S st \<longleftrightarrow> inc.agrees (files_of t (cdisk st)) (inContainercache st) \<and>
     (\<forall>p f. cdisk st p = Some f \<longrightarrow> length f \<le> MAX_CONTAINER_SIZE) \<and> length (tmpOcallcontainer st) \<le> MAX_CONTAINER_SIZE \<and>
     db_inv E S (files_of t (cdisk st)) (outdb st) \<and> heap_ok (topThreshold E) (hashfp E ` S) (insideDedupIndex st) \<and>
     (\<forall>m \<in> S. chunk_ok m) \<and>
     (\<forall>j n. con_times (up st) \<le> j \<longrightarrow> j < INT_MAX \<longrightarrow> uuid_bytes j = Some n \<longrightarrow> files_of t (cdisk st) n = None)"

lemma InitUploadBuffer_frame:
  assumes "InitUploadBuffer st = Inr st'"
  shows "inputMQ st' = inputMQ st" "inContainer st' = inContainer st" "deltainContainer st' = deltainContainer st"
    "cur_names st' \<subseteq> new_names (con_times st) (con_times st')"
proof -
  obtain u v where u: "uuid_bytes (con_times st) = Some u" and v: "uuid_bytes (Suc (con_times st)) = Some v"
    and st': "inputMQ st' = inputMQ st" "inContainer st' = inContainer st" "deltainContainer st' = deltainContainer st"
      "cur_names st' = {u, v}" "con_times st' = Suc (Suc (con_times st))"
    using assms by (auto simp: InitUploadBuffer_def new_uuid_def bindE_Inr_iff cur_names_def split: option.splits)
  show "inputMQ st' = inputMQ st" "inContainer st' = inContainer st" "deltainContainer st' = deltainContainer st" by (fact st')+
  have "u \<in> new_names (con_times st) (con_times st')" "v \<in> new_names (con_times st) (con_times st')"
    unfolding new_names_def st' using u v by (blast intro: le_refl lessI less_SucI le_SucI)+
  then show "cur_names st' \<subseteq> new_names (con_times st) (con_times st')" by (simp add: st')
qed

lemma fresh_world:
  assumes "inputMQ u = []" "ic_bytes (inContainer u) = []" "ic_bytes (deltainContainer u) = []"
    "\<forall>n \<in> cur_names u. files_of t d n = None"
  shows "container_bytes u n = Some b \<Longrightarrow> files_of t d n = None" "world_le (files_of t d) (world t d u)"
proof -
  have c: "n \<in> cur_names u" if "container_bytes u n = Some b" for n b
    using that assms(1) by (auto simp: container_bytes_def cur_names_def split: if_splits)
  then show "container_bytes u n = Some b \<Longrightarrow> files_of t d n = None" using assms(4) by blast
  show "world_le (files_of t d) (world t d u)" unfolding world_le_def world_def
    using c assms(4) by (fastforce split: option.splits)
qed

lemma new_client_ok:
  assumes "idle_inv E t S st" "mem_ok E mem" "con_times (up st) + 2 \<le> INT_MAX" "0 < sendRecipeBatchSize E"
  shows "\<exists>st'. new_client mem st = Inr st' \<and> freq_inv E t S [] st' \<and> con_times (up st') = con_times (up st) + 2 \<and> stats st' = stats st"
proof -
  define u0 where "u0 = (up st)\<lparr>inContainer := \<lparr>ic_buf = m_base mem, curSize = 0\<rparr>,
       deltainContainer := \<lparr>ic_buf = m_deltabase mem, curSize = 0\<rparr>, client_iv := m_iv mem,
       curContainer := m_cur mem, curDeltaContainer := m_curdelta mem, inputMQ := [],
       inRecipe := \<lparr>recipeNum = 0, entryFpList = m_fps mem\<rparr>, recipeFile := []\<rparr>"
  obtain u where u: "InitUploadBuffer u0 = Inr u" "store_inv u" "con_times u = con_times (up st) + 2" "store_st.more u = store_st.more u0"
    using InitUploadBuffer_inv [of u0] assms(2,3) by (auto simp: u0_def ic_ok_def mem_ok_def MAX_CONTAINER_SIZE_def)
  define st' where "st' = st\<lparr>up := u, recvBuffer := m_recv mem, inQueryBase := m_inq mem, outQueryBase := m_outq mem, queryNum := 0, currNum := 0,
      localIndex := Map.empty, psHTable2 := ht_init (16 * 1024), deltaBuffer := m_delta mem, process_buffer := m_process mem,
      test_buffer := m_test mem, savedNum := 0, writing := None\<rparr>"
  note f = InitUploadBuffer_frame [OF u(1)]
  have i: "inc.agrees (files_of t (cdisk st)) (inContainercache st)" "\<forall>p f. cdisk st p = Some f \<longrightarrow> length f \<le> MAX_CONTAINER_SIZE"
      "length (tmpOcallcontainer st) \<le> MAX_CONTAINER_SIZE" "db_inv E S (files_of t (cdisk st)) (outdb st)"
      "heap_ok (topThreshold E) (hashfp E ` S) (insideDedupIndex st)" "\<forall>m \<in> S. chunk_ok m"
      "\<And>j n. con_times (up st) \<le> j \<Longrightarrow> j < INT_MAX \<Longrightarrow> uuid_bytes j = Some n \<Longrightarrow> files_of t (cdisk st) n = None"
    using assms(1) by (auto simp: idle_inv_def)
  have "con_times u0 = con_times (up st)" by (simp add: u0_def)
  then have cur: "\<forall>n \<in> cur_names u. files_of t (cdisk st) n = None"
    using f(4) i(7) u(3) assms(3) by (fastforce simp: new_names_def)
  have e: "inputMQ u = []" "ic_bytes (inContainer u) = []" "ic_bytes (deltainContainer u) = []"
    by (simp_all add: f u0_def ic_bytes_def)
  note w = fresh_world [OF e cur]
  have "files_of t (cdisk st) n = None" if "con_times u \<le> j" "j < INT_MAX" "uuid_bytes j = Some n" for j n
    using i(7) [of j n] that u(3) by simp
  then have "disk_inv t (cdisk st) u" using cur w(1) by (auto simp: disk_inv_def)
  then have "disk_ok t st'" using i(1-3) u(2) e(1) by (simp add: disk_ok_def st'_def saved_inv_def)
  moreover have "ht_ok st'" by (simp add: ht_ok_def st'_def ht_init_inv)
  moreover have "db_inv E S (sworld t st') (outdb st')" using db_inv_mono [OF w(2) i(4)] by (simp add: st'_def sworld_def)
  moreover have "inRecipe u = \<lparr>recipeNum = 0, entryFpList = m_fps mem\<rparr>" "recipeFile u = []"
    using up_more [OF u(4)] by (simp_all add: u0_def)
  then have "recipe_inv E [] (up st')" using assms(4) by (simp add: recipe_inv_def st'_def)
  moreover have "buffers_ok E st'" using assms(2) by (simp add: buffers_ok_def mem_ok_def st'_def)
  ultimately have "freq_inv E t S [] st'" using i(5,6) by (simp add: freq_inv_def st'_def)
  moreover have "new_client mem st = Inr st'" using u(1) by (simp add: new_client_def u0_def [symmetric] st'_def)
  ultimately show ?thesis using u(3) by (intro exI [of _ st']) (simp add: st'_def)
qed

text \<open>A server that starts with nothing stored.\<close>

lemma cache_look_new: "cache_look InContainercache_new = Map.empty"
  by (simp add: cache_look_def InContainercache_new_def lru_new_def fun_eq_iff)

lemma new_index_idle:
  assumes "cdisk st = Map.empty" "outdb st = empty_db" "length (tmpOcallcontainer st) \<le> MAX_CONTAINER_SIZE"
  shows "idle_inv E t {} (EcallFreqIndex_new forward st)"
proof -
  have f: "files_of t Map.empty = Map.empty" by (simp add: fun_eq_iff files_of_def read_container_def)
  have "inc.agrees Map.empty InContainercache_new" using cache_inv_new(2) cache_look_new by (simp add: inc.agrees_def)
  moreover have "db_inv E {} Map.empty empty_db" by (simp add: db_inv_def empty_db_def sf_wf_def)
  moreover have "heap_ok (topThreshold E) {} empty_heap"
    using empty_heap_inv by (auto simp: heap_ok_def heap_sane_def contents_def Size_def)
  ultimately show ?thesis using assms f by (simp add: idle_inv_def EcallFreqIndex_new_def)
qed

section \<open>A batch\<close>

text \<open>What is uploaded is within the limits, over all batches and everything stored before.\<close>

definition upload_ok :: "enclave \<Rightarrow> bytes set \<Rightarrow> bytes list list \<Rightarrow> bool" where
  "upload_ok E S mss \<longleftrightarrow> (\<forall>ms \<in> set mss. length ms \<le> sendChunkBatchSize E \<and> length ms \<le> 4000) \<and>
     (\<forall>m \<in> set (concat mss). chunk_ok m) \<and> inj_on (hashfp E) (S \<union> set (concat mss)) \<and>
     (\<forall>m \<in> set (concat mss). \<forall>mb \<in> S \<union> set (concat mss). starts_paced m (base_text E mb))"

lemma upload_ok_Cons:
  assumes "upload_ok E S (ms # mss)"
  shows "batch_ok E S ms" "upload_ok E (S \<union> set ms) mss"
  using assms by (auto simp: upload_ok_def batch_ok_def Un_assoc intro: inj_on_subset)

text \<open>A small server, for examples.\<close>

definition start_st :: freq_st where
  "start_st = EcallFreqIndex_new False \<lparr>up = fresh_up, recvBuffer = [], inQueryBase = [], outQueryBase = [], queryNum = 0, currNum = 0,
     localIndex = Map.empty, cmSketch = cm_init 0 0, insideDedupIndex = empty_heap, inContainercache = InContainercache_new,
     psHTable2 = ht_init 4, deltaBuffer = [], process_buffer = [], test_buffer = [], Forward_Flag = False, outdb = empty_db,
     cdisk = Map.empty, savedNum = 0, writing = None, tmpOcallcontainer = [], stats = zero_stats\<rparr>"

definition sample_mem :: upload_mem where
  "sample_mem = \<lparr>m_iv = replicate CRYPTO_BLOCK_SIZE 0, m_recv = replicate (128 * (4 + MAX_CHUNK_SIZE)) 0, m_fps = [],
     m_inq = replicate 128 \<lparr>i_dedupFlag = 0, i_deltaFlag = 0, i_chunkHash = [], i_chunkAddr = sample_entry, i_chunkFreq = 0,
       i_chunkSize = 0, i_superfeature = [], i_basechunkAddr = sample_entry\<rparr>,
     m_outq = replicate 128 \<lparr>o_dedupFlag = 0, o_deltaFlag = 0, o_offlineFlag = 0, o_chunkHash = [],
       o_chunkAddr = replicate RECIPE_ENTRY_SIZE 0, o_superfeature = [], o_container = [], o_containersize = 0, o_basechunkAddr = []\<rparr>,
     m_base = [], m_deltabase = [], m_cur = empty_ct, m_curdelta = empty_ct, m_delta = [], m_process = [], m_test = [], m_head = []\<rparr>"

definition sample_chunks :: "bytes list" where
  "sample_chunks = [[1, 2], [3, 4]]"

definition sample_data :: bytes where
  "sample_data = shift_bytes 4 (frames sample_chunks)"

lemma toy_lz4: "lz4_ok toy_enclave"
  by (simp add: lz4_ok_def toy_enclave_def)

lemma toy_text: "base_text toy_enclave m = m"
  by (simp add: base_text_def plain_for_def plain_of_def unlz_def toy_enclave_def)

lemma toy_hash: "hashfp toy_enclave m = take 32 (m @ replicate 32 0)"
  by (simp add: hashfp_def toy_enclave_def toy_evp_def GenerateHash_def HASH_TYPE_def evp_out_def min_def)

lemma sample_sent: "SessionKeyDec (ssl toy_enclave) (sessionKey toy_enclave) sample_data = Inr (frames sample_chunks)"
  by (simp add: sample_data_def toy_enclave_def toy_evp_def SessionKeyDec_def shift_bytes_inv evp_out_def)

lemma sample_upload: "upload_ok toy_enclave {} [sample_chunks]"
proof -
  have "starts_paced m (base_text toy_enclave b)" if "m \<in> set sample_chunks" "b \<in> set sample_chunks" for m b
    unfolding toy_text using that by (intro paced_sizes) (auto simp: sample_chunks_def)
  moreover have "inj_on (hashfp toy_enclave) (set sample_chunks)" by (simp add: toy_hash sample_chunks_def)
  moreover have "length sample_chunks \<le> sendChunkBatchSize toy_enclave" "\<forall>m \<in> set sample_chunks. chunk_ok m"
    by (simp_all add: toy_enclave_def sample_chunks_def chunk_ok_def size_consts)
  moreover have "length sample_chunks \<le> 4000" by (simp add: sample_chunks_def)
  ultimately show ?thesis by (simp add: upload_ok_def)
qed

lemma sample_mem_ok: "mem_ok toy_enclave sample_mem"
  by (simp add: mem_ok_def sample_mem_def toy_enclave_def sane_def sample_entry_def size_consts)

text \<open>A writer that opens the next file and writes three bytes of it, and waits only where the enclave needs that file.\<close>

definition sample_writer :: schedule where
  "sample_writer = patient ''.c'' (\<lambda>i st. [Fopen, Fwrite 3])"

lemma sample_relies: "relies untorn ''.c'' sample_writer"
  unfolding sample_writer_def by (rule patient_relies)

lemma start_idle: "idle_inv E t {} start_st"
  unfolding start_st_def by (rule new_index_idle) simp_all

text \<open>
  C6: a batch of chunks is processed without fault while the writer thread saves containers step
  by step, under every schedule in which the enclave never reads a container file while that file is
  being saved (the code does not enforce this), and afterwards every chunk that was ever uploaded is found in the index under its fingerprint
  and can be rebuilt from the containers: its address decrypts to a well-formed entry, and the
  chunk there is either a base chunk or a delta whose base is in the index and which decodes to
  the chunk. Whatever could be read stays readable at its address. Deduplication is exact: the
  chunks stored are the distinct chunks that were not there before. Required are the documented
  behaviour of the ciphers and of LZ4, a top-k index of two entries or more, no collision of
  fingerprints, the limits of the buffers, and for each pair of a chunk and a base the pacing
  condition of the delta encoder.
\<close>

theorem batch_correct:
  assumes "evp_ok (ssl E)" "lz4_ok E" "2 \<le> topThreshold E" "freq_inv E t S fs st"
    "SessionKeyDec (ssl E) (sessionKey E) dataBuffer = Inr (frames ms)" "batch_ok E S ms"
    "con_times (up st) + length ms \<le> INT_MAX" "relies untorn t wr"
  shows "\<exists>st'. EnclaveIndex_ProcessOneBatch E t wr dataBuffer (length ms) st = Inr st' \<and>
    freq_inv E t (S \<union> set ms) (fs @ map (hashfp E) ms) st' \<and>
    (\<forall>m \<in> S \<union> set ms. chunk_at E (S \<union> set ms) (sworld t st') (outdb st') m) \<and> world_le (sworld t st) (sworld t st') \<and>
    uniqueChunkNum (stats st') = uniqueChunkNum (stats st) + word_of_nat (card (set ms - S)) \<and>
    logicalChunkNum (stats st') = logicalChunkNum (stats st) + word_of_nat (length ms)"
proof -
  have "db_inv E (S \<union> set ms) (sworld t st') (outdb st')" if "freq_inv E t (S \<union> set ms) (fs @ map (hashfp E) ms) st'" for st'
    using that by (simp add: freq_inv_def)
  then show ?thesis using batch_ok_run [OF assms] unfolding batch_result_def db_inv_def by blast
qed

theorem batch_correct_witness:
  "\<exists>st st'. new_client sample_mem start_st = Inr st \<and>
    EnclaveIndex_ProcessOneBatch toy_enclave ''.c'' sample_writer sample_data 2 st = Inr st' \<and>
    (\<forall>m \<in> {[1, 2], [3, 4]}. chunk_at toy_enclave {[1, 2], [3, 4]} (sworld ''.c'' st') (outdb st') m) \<and> uniqueChunkNum (stats st') = 2"
proof -
  have st0: "con_times (up start_st) = 1" "stats start_st = zero_stats"
    by (simp_all add: start_st_def EcallFreqIndex_new_def fresh_up_def store_st.defs fresh_store_def)
  have E: "0 < sendRecipeBatchSize toy_enclave" "evp_ok (ssl toy_enclave)" "2 \<le> topThreshold toy_enclave"
    by (simp_all add: toy_enclave_def toy_evp_ok)
  have c: "con_times (up start_st) + 2 \<le> INT_MAX" by (simp add: st0 size_consts)
  obtain st where st: "new_client sample_mem start_st = Inr st" "freq_inv toy_enclave ''.c'' {} [] st"
      "con_times (up st) = con_times (up start_st) + 2" "stats st = stats start_st"
    using new_client_ok [OF start_idle sample_mem_ok c E(1)] by blast
  have n: "length sample_chunks = 2" "set sample_chunks = {[1, 2], [3, 4]}" by (simp_all add: sample_chunks_def)
  have c1: "con_times (up st) + length sample_chunks \<le> INT_MAX" by (simp add: n st(3) st0 size_consts)
  from batch_correct [OF E(2) toy_lz4 E(3) st(2) sample_sent upload_ok_Cons(1) [OF sample_upload] c1 sample_relies]
  obtain st' where "EnclaveIndex_ProcessOneBatch toy_enclave ''.c'' sample_writer sample_data 2 st = Inr st'"
      "\<forall>m \<in> {[1, 2], [3, 4]}. chunk_at toy_enclave {[1, 2], [3, 4]} (sworld ''.c'' st') (outdb st') m"
      "uniqueChunkNum (stats st') = uniqueChunkNum (stats st) + word_of_nat (card {[1, 2], [3, 4 :: byte]})"
    unfolding n Un_empty_left Diff_empty by blast
  then show ?thesis using st(1,4) by (auto simp: st0 zero_stats_def)
qed

section \<open>A torn read\<close>





section \<open>The end of an upload\<close>

definition names_inv :: "'a store_st_scheme \<Rightarrow> bool" where
  "names_inv st \<longleftrightarrow> ic_ok (inContainer st) \<and> ic_ok (deltainContainer st) \<and> distinct (store_names st) \<and>
     set (store_names st) \<subseteq> used_names (con_times st) \<and> length (client_iv st) = CRYPTO_BLOCK_SIZE"

lemma store_inv_names:
  "store_inv st \<longleftrightarrow> names_inv st \<and> currentSize (curContainer st) = 0 \<and> currentSize (curDeltaContainer st) = 0"
  by (auto simp: store_inv_def names_inv_def)

lemma hand_names:
  assumes "names_inv st" "con_times st < INT_MAX"
  shows "Ocall_WriteContainer st = Inr st' \<Longrightarrow> names_inv st' \<and> con_times st' = Suc (con_times st) \<and> store_st.more st' = store_st.more st \<and>
      currentSize (curContainer st') = 0 \<and> curDeltaContainer st' = curDeltaContainer st"
    "Ocall_WriteDeltaContainer st = Inr st' \<Longrightarrow> names_inv st' \<and> con_times st' = Suc (con_times st) \<and> store_st.more st' = store_st.more st \<and>
      currentSize (curDeltaContainer st') = 0 \<and> curContainer st' = curContainer st"
proof -
  obtain u where u: "uuid_bytes (con_times st) = Some u" "u \<notin> used_names (con_times st)"
    using uuid_bytes_ok [OF assms(2)] by blast
  then have new: "u \<notin> set (store_names st)" using assms(1) by (auto simp: names_inv_def)
  have n: "ic_ok (inContainer st)" "ic_ok (deltainContainer st)" "distinct (store_names st)"
      "set (store_names st) \<subseteq> used_names (con_times st)" "length (client_iv st) = CRYPTO_BLOCK_SIZE"
    using assms(1) by (simp_all add: names_inv_def)
  show "names_inv st' \<and> con_times st' = Suc (con_times st) \<and> store_st.more st' = store_st.more st \<and>
      currentSize (curContainer st') = 0 \<and> curDeltaContainer st' = curDeltaContainer st" if w: "Ocall_WriteContainer st = Inr st'"
  proof -
    let ?f = "(curContainer st)\<lparr>ct_delta := False\<rparr>"
    have st': "st' = st\<lparr>inputMQ := inputMQ st @ [?f], con_times := Suc (con_times st), curContainer := ?f\<lparr>containerID := u, currentSize := 0\<rparr>\<rparr>"
      using w u(1) by (simp add: Ocall_WriteContainer_def new_uuid_def Let_def)
    have ids: "set (store_names st') = insert u (set (store_names st))" unfolding st' by (simp add: store_names_def insert_commute)
    have "distinct (store_names st')" using new n(3) unfolding st' by (auto simp: store_names_def)
    then have "names_inv st'" unfolding names_inv_def ids using n used_names_Suc [OF u(1)] by (auto simp: st')
    then show ?thesis by (simp add: st')
  qed
  show "names_inv st' \<and> con_times st' = Suc (con_times st) \<and> store_st.more st' = store_st.more st \<and>
      currentSize (curDeltaContainer st') = 0 \<and> curContainer st' = curContainer st" if w: "Ocall_WriteDeltaContainer st = Inr st'"
  proof -
    let ?f = "(curDeltaContainer st)\<lparr>ct_delta := True\<rparr>"
    have st': "st' = st\<lparr>inputMQ := inputMQ st @ [?f], con_times := Suc (con_times st), curDeltaContainer := ?f\<lparr>containerID := u, currentSize := 0\<rparr>\<rparr>"
      using w u(1) by (simp add: Ocall_WriteDeltaContainer_def new_uuid_def Let_def)
    have ids: "set (store_names st') = insert u (set (store_names st))" unfolding st' by (simp add: store_names_def insert_commute)
    have "distinct (store_names st')" using new n(3) unfolding st' by (auto simp: store_names_def)
    then have "names_inv st'" unfolding names_inv_def ids using n used_names_Suc [OF u(1)] by (auto simp: st')
    then show ?thesis by (simp add: st')
  qed
qed

lemma finish_names:
  assumes "names_inv st" "con_times st + 2 \<le> INT_MAX" "finish_upload st = Inr st'" "small_queue st"
    "unat (currentSize (curContainer st)) \<le> MAX_CONTAINER_SIZE" "unat (currentSize (curDeltaContainer st)) \<le> MAX_CONTAINER_SIZE"
  shows "store_inv st'" "grows st st'" "con_times st' \<le> con_times st + 2" "store_st.more st' = store_st.more st" "small_queue st'"
proof -
  obtain st1 where st1: "(if currentSize (curContainer st) \<noteq> 0 then Ocall_WriteContainer st else Inr st) = Inr st1"
      "(if currentSize (curDeltaContainer st1) \<noteq> 0 then Ocall_WriteDeltaContainer st1 else Inr st1) = Inr st'"
    using assms(3) by (auto simp: finish_upload_def bindE_Inr_iff)
  have "con_times st < INT_MAX" using assms(2) by simp
  from hand_names(1) [OF assms(1) this, of st1] st1(1) assms(1)
  have 1: "names_inv st1" "con_times st1 \<le> Suc (con_times st)" "store_st.more st1 = store_st.more st"
      "currentSize (curContainer st1) = 0" "curDeltaContainer st1 = curDeltaContainer st"
    by (auto split: if_splits)
  have g1: "grows st st1" using st1(1) Ocall_WriteContainer_grows grows_refl by (auto split: if_splits)
  have q1: "small_queue st1" using st1(1) small_write(1) [OF assms(4,5)] assms(4) by (auto split: if_splits)
  have "con_times st1 < INT_MAX" using assms(2) 1(2) by simp
  from hand_names(2) [OF 1(1) this, of st'] st1(2) 1
  have 2: "names_inv st'" "con_times st' \<le> Suc (con_times st1)" "store_st.more st' = store_st.more st"
      "currentSize (curContainer st') = 0" "currentSize (curDeltaContainer st') = 0"
    by (auto split: if_splits)
  show "store_inv st'" using 2 by (simp add: store_inv_names)
  have "grows st1 st'" using st1(2) Ocall_WriteDeltaContainer_grows grows_refl by (auto split: if_splits)
  with g1 show "grows st st'" by (rule grows_trans)
  show "con_times st' \<le> con_times st + 2" "store_st.more st' = store_st.more st" using 1(2) 2(2,3) by simp_all
  show "small_queue st'" using st1(2) small_write(2) [OF q1] assms(6) 1(5) q1 by (auto split: if_splits)
qed

text \<open>The tail batch and the hand-over: what was readable is in the queue.\<close>

lemma upload_end:
  assumes "evp_ok (ssl E)" "store_inv u" "small_queue u" "recipe_inv E fs u" "con_times u + 2 \<le> INT_MAX"
  shows "\<exists>u1 u2. ProcessTailBatch E u = Inr u1 \<and> finish_upload u1 = Inr u2 \<and> store_inv u2 \<and> grows u u2 \<and> small_queue u2 \<and>
    con_times u2 \<le> con_times u + 2 \<and> read_recipe E (recipeFile u2) = Inr (concat fs) \<and> recipeFile u2 = recipeFile u1 \<and>
    (\<forall>n b. container_bytes u n = Some b \<longrightarrow> b \<noteq> [] \<longrightarrow> (\<exists>c \<in> set (inputMQ u2). containerID c = n \<and> ct_bytes c = b))"
proof -
  have n: "names_inv u" "ic_ok (inContainer u)" "ic_ok (deltainContainer u)" "currentSize (curContainer u) = 0" "currentSize (curDeltaContainer u) = 0"
    using assms(2) by (simp_all add: store_inv_names names_inv_def)
  obtain u1 u2 cs ds where f: "ProcessTailBatch E u = Inr u1" "finish_upload u1 = Inr u2" "inputMQ u2 = inputMQ u @ cs @ ds"
      "handed_over (inContainer u) (containerID (curContainer u)) cs" "handed_over (deltainContainer u) (containerID (curDeltaContainer u)) ds"
    using finished_containers [OF assms(1,2,5)] by blast
  have u1: "inputMQ u1 = inputMQ u" "con_times u1 = con_times u" "containerID (curContainer u1) = containerID (curContainer u)"
      "containerID (curDeltaContainer u1) = containerID (curDeltaContainer u)" "currentSize (curContainer u1) = curSize (inContainer u)"
      "currentSize (curDeltaContainer u1) = curSize (deltainContainer u)" "inContainer u1 = inContainer u"
      "deltainContainer u1 = deltainContainer u" "client_iv u1 = client_iv u"
    using tail_containers [OF assms(1) n(2-5)] f(1) by auto
  then have 1: "names_inv u1" "same_names u u1" "small_queue u1"
    using n(1) assms(3) by (simp_all add: names_inv_def store_names_def same_names_def cur_names_def small_queue_def)
  have ct: "con_times u1 + 2 \<le> INT_MAX" using u1(2) assms(5) by simp
  have sz: "unat (currentSize (curContainer u1)) \<le> MAX_CONTAINER_SIZE" "unat (currentSize (curDeltaContainer u1)) \<le> MAX_CONTAINER_SIZE"
    using n(2,3) u1(5,6) by (simp_all add: ic_ok_def)
  note e = finish_names [OF 1(1) ct f(2) 1(3) sz]
  have r: "recipeFile u2 = recipeFile u1" by (rule up_more(2) [OF e(4)])
  have "read_recipe E (recipeFile u1) = Inr (concat fs)" using tail_recipe [OF assms(1,4) n(2,3)] f(1) by auto
  moreover have "\<exists>c \<in> set (inputMQ u2). containerID c = m \<and> ct_bytes c = b" if "container_bytes u m = Some b" "b \<noteq> []" for m b
    using queue_holds [OF assms(2) that f(4,5)] f(3) by simp
  ultimately show ?thesis using f(1,2) e r grows_same_left [OF 1(2) e(2)] u1(2) by (intro exI [of _ u1] exI [of _ u2]) simp
qed

lemma open_close:
  assumes "savedNum st < length (inputMQ (up st))"
  shows "\<exists>d. writer_step t Fclose (writer_step t Fopen st) = st\<lparr>cdisk := d, savedNum := Suc (savedNum st), writing := None\<rparr>"
  using assms by (cases "writing st") (auto simp: writer_step_def half_saved_def)

lemma saves_end:
  "savedNum st + j \<le> length (inputMQ (up st)) \<Longrightarrow>
    savedNum (fold (writer_step t) (concat (replicate j [Fopen, Fclose])) st) = savedNum st + j"
proof (induction j arbitrary: st)
  case (Suc j)
  then obtain d where d: "writer_step t Fclose (writer_step t Fopen st) = st\<lparr>cdisk := d, savedNum := Suc (savedNum st), writing := None\<rparr>"
    using open_close [of st t] by auto
  show ?case using Suc.IH [of "st\<lparr>cdisk := d, savedNum := Suc (savedNum st), writing := None\<rparr>"] Suc.prems by (simp add: d)
qed simp

lemma writer_rest_saved:
  assumes "disk_ok t st"
  shows "\<exists>d h. writer_rest t st = st\<lparr>cdisk := d, savedNum := length (inputMQ (up st)), writing := h\<rparr> \<and> disk_ok t (writer_rest t st)"
proof -
  have k: "savedNum st \<le> length (inputMQ (up st))" using disk_okD(7) [OF assms] by (simp add: saved_inv_def)
  obtain d l h where r: "writer_rest t st = st\<lparr>cdisk := d, savedNum := l, writing := h\<rparr>" "disk_ok t (writer_rest t st)"
    using writer_steps_ok [OF assms] unfolding writer_rest_def writer_frame_def by blast
  from r(1) have "l = savedNum (writer_rest t st)" by simp
  also have "\<dots> = length (inputMQ (up st))"
    using saves_end [of st "length (inputMQ (up st)) - savedNum st" t] k by (simp add: writer_rest_def)
  finally show ?thesis using r by blast
qed

lemma writer_step_kept:
  assumes "disk_ok t st" "files_of t (cdisk st) n = Some f"
  shows "files_of t (cdisk (writer_step t act st)) n = Some f"
proof (cases "half_saved st")
  case None
  then show ?thesis using assms(2) by (simp add: writer_step_def)
next
  case (Some p)
  obtain c k where c: "p = (c, k)" by fastforce
  then have "c \<in> set (inputMQ (up st))" using half_saved_queue [of st c k] Some by simp
  from files_kept [OF disk_okD(1,2) [OF assms(1)] this assms(2)] show ?thesis
    using assms(2) Some c by (cases act) (simp_all add: writer_step_def)
qed

lemma writer_steps_kept:
  "disk_ok t st \<Longrightarrow> files_of t (cdisk st) n = Some f \<Longrightarrow> files_of t (cdisk (fold (writer_step t) acts st)) n = Some f"
proof (induction acts arbitrary: st)
  case (Cons a acts)
  have "disk_ok t (writer_step t a st)" using writer_step_ok [OF Cons.prems(1), of a] by (simp add: writer_frame_def)
  from Cons.IH [OF this writer_step_kept [OF Cons.prems]] show ?case by simp
qed simp

lemma writer_rest_kept:
  "disk_ok t st \<Longrightarrow> files_of t (cdisk st) n = Some f \<Longrightarrow> files_of t (cdisk (writer_rest t st)) n = Some f"
  by (simp add: writer_rest_def writer_steps_kept)

lemma files_all_saved:
  assumes "disk_ok t st" "savedNum st = length (inputMQ (up st))" "c \<in> set (inputMQ (up st))"
  shows "files_of t (cdisk st) (containerID c) = Some (ct_bytes c)"
proof -
  note d = disk_okD [OF assms(1)]
  obtain i where "i < length (inputMQ (up st))" "inputMQ (up st) ! i = c" using assms(3) by (auto simp: in_set_conv_nth)
  then have "files_of t (cdisk st) (containerID c) \<noteq> None" using d(7) assms(2) by (auto simp: saved_inv_def)
  then obtain f where f: "files_of t (cdisk st) (containerID c) = Some f" by blast
  with d(2) queue_bytes(1) [OF d(1) assms(3)] show ?thesis unfolding disk_inv_def by metis
qed

lemma grows_disk_ok:
  assumes "disk_ok t st" "grows (up st) u" "store_inv u" "small_queue u" "con_times u \<le> INT_MAX"
  shows "disk_ok t (st\<lparr>up := u\<rparr>)"
proof -
  note d = disk_okD [OF assms(1)]
  from disk_inv_grows [OF d(2) assms(2,5)] saved_inv_append [OF d(7)] assms(2-4) d show ?thesis
    by (auto simp: disk_ok_def small_queue_def grows_def)
qed

lemma upload_end_idle:
  assumes "freq_inv E t S fs st" "grows (up st) u2" "store_inv u2" "small_queue u2" "con_times u2 \<le> INT_MAX"
    "\<forall>n b. container_bytes (up st) n = Some b \<longrightarrow> b \<noteq> [] \<longrightarrow> (\<exists>c \<in> set (inputMQ u2). containerID c = n \<and> ct_bytes c = b)"
  defines "st' \<equiv> writer_rest t (st\<lparr>up := u2\<rparr>)"
  shows "idle_inv E t S st'" "up st' = u2" "stats st' = stats st" "world_le (sworld t st) (files_of t (cdisk st'))"
proof -
  have i: "disk_ok t st" "db_inv E S (sworld t st) (outdb st)" "heap_ok (topThreshold E) (hashfp E ` S) (insideDedupIndex st)" "\<forall>m \<in> S. chunk_ok m"
    using assms(1) by (simp_all add: freq_inv_def)
  have ok: "disk_ok t (st\<lparr>up := u2\<rparr>)" by (rule grows_disk_ok [OF i(1) assms(2-5)])
  obtain d h where d: "st' = st\<lparr>up := u2, cdisk := d, savedNum := length (inputMQ u2), writing := h\<rparr>" "disk_ok t st'"
    using writer_rest_saved [OF ok] unfolding st'_def by auto
  show "up st' = u2" "stats st' = stats st" by (simp_all add: d(1))
  have saved: "files_of t (cdisk st') (containerID c) = Some (ct_bytes c)" if "c \<in> set (inputMQ u2)" for c
    using files_all_saved [OF d(2), of c] that by (simp add: d(1))
  show w: "world_le (sworld t st) (files_of t (cdisk st'))" unfolding world_le_def
  proof (intro allI impI)
    fix n b
    assume b: "sworld t st n = Some b" "b \<noteq> []"
    show "\<exists>r. files_of t (cdisk st') n = Some (b @ r)"
    proof (cases "container_bytes (up st) n")
      case None
      then have f: "files_of t (cdisk st) n = Some b" using b(1) by (simp add: sworld_def world_def)
      have "files_of t (cdisk st') n = Some b" unfolding st'_def by (rule writer_rest_kept [OF ok]) (simp add: f)
      then show ?thesis by simp
    next
      case (Some c)
      with b assms(6) saved show ?thesis by (force simp: sworld_def world_def)
    qed
  qed
  note k = disk_okD [OF d(2)]
  have "files_of t (cdisk st') n = None" if "con_times u2 \<le> j" "j < INT_MAX" "uuid_bytes j = Some n" for j n
    using k(2) that by (simp add: disk_inv_def d(1))
  then show "idle_inv E t S st'" unfolding idle_inv_def
    using k(3,4,6) db_inv_mono [OF w i(2)] i(3,4) by (simp add: d(1))
qed

section \<open>The whole upload\<close>

text \<open>The messages of an upload: the batches as sent, and the recipe end.\<close>

definition sends :: "enclave \<Rightarrow> bytes list \<Rightarrow> schedule \<times> client_msg \<Rightarrow> bool" where
  "sends E ms x \<longleftrightarrow> (\<exists>w d. x = (w, CLIENT_UPLOAD_CHUNK d (length ms)) \<and> SessionKeyDec (ssl E) (sessionKey E) d = Inr (frames ms))"

lemma receive_batches:
  assumes "evp_ok (ssl E)" "lz4_ok E" "2 \<le> topThreshold E"
  shows "list_all2 (sends E) mss xs \<Longrightarrow> freq_inv E t S fs (r_st rv) \<Longrightarrow> upload_ok E S mss \<Longrightarrow> recipeOpen rv \<Longrightarrow>
    con_times (up (r_st rv)) + length (concat mss) \<le> INT_MAX \<Longrightarrow> \<forall>x \<in> set xs. relies untorn t (fst x) \<Longrightarrow>
    \<exists>rv'. foldE (receive_msg E t) xs rv = Inr rv' \<and> freq_inv E t (S \<union> set (concat mss)) (fs @ map (hashfp E) (concat mss)) (r_st rv') \<and>
      recipeOpen rv' \<and> con_times (up (r_st rv')) \<le> con_times (up (r_st rv)) + length (concat mss) \<and>
      uniqueChunkNum (stats (r_st rv')) = uniqueChunkNum (stats (r_st rv)) + word_of_nat (card (set (concat mss) - S))"
proof (induction mss xs arbitrary: S fs rv rule: list_all2_induct)
  case (Cons ms mss x xs)
  obtain w d where x: "x = (w, CLIENT_UPLOAD_CHUNK d (length ms))" "SessionKeyDec (ssl E) (sessionKey E) d = Inr (frames ms)"
    using Cons.hyps(1) by (auto simp: sends_def)
  note u = upload_ok_Cons [OF Cons.prems(2)]
  have ct: "con_times (up (r_st rv)) + length ms \<le> INT_MAX" using Cons.prems(4) by simp
  have w: "relies untorn t w" using Cons.prems(5) x(1) by simp
  obtain st where st: "EnclaveIndex_ProcessOneBatch E t w d (length ms) (r_st rv) = Inr st"
      "freq_inv E t (S \<union> set ms) (fs @ map (hashfp E) ms) st" "con_times (up st) \<le> con_times (up (r_st rv)) + length ms"
      "uniqueChunkNum (stats st) = uniqueChunkNum (stats (r_st rv)) + word_of_nat (card (set ms - S))"
    using batch_ok_run [OF assms Cons.prems(1) x(2) u(1) ct w] unfolding batch_result_def by blast
  define rv1 where "rv1 = rv\<lparr>r_st := st, batchNum := Suc (batchNum rv), Ecall_time := Suc (Ecall_time rv)\<rparr>"
  have step: "receive_msg E t x rv = Inr rv1"
    using x(1) st(1) Cons.prems(3) by (simp add: check_recipe_def rv1_def)
  have p: "r_st rv1 = st" "recipeOpen rv1" using Cons.prems(3) by (simp_all add: rv1_def)
  have ct1: "con_times (up (r_st rv1)) + length (concat mss) \<le> INT_MAX" using Cons.prems(4) st(3) by (simp add: p)
  obtain rv' where rv': "foldE (receive_msg E t) xs rv1 = Inr rv'"
      "freq_inv E t (S \<union> set ms \<union> set (concat mss)) ((fs @ map (hashfp E) ms) @ map (hashfp E) (concat mss)) (r_st rv')" "recipeOpen rv'"
      "con_times (up (r_st rv')) \<le> con_times (up (r_st rv1)) + length (concat mss)"
      "uniqueChunkNum (stats (r_st rv')) = uniqueChunkNum (stats st) + word_of_nat (card (set (concat mss) - (S \<union> set ms)))"
    using Cons.IH [OF st(2) [folded p(1)] u(2) p(2) ct1] Cons.prems(5) unfolding p by auto
  have "set (concat (ms # mss)) - S = (set ms - S) \<union> (set (concat mss) - (S \<union> set ms))" by auto
  then have "card (set (concat (ms # mss)) - S) = card (set ms - S) + card (set (concat mss) - (S \<union> set ms))"
    by (simp only:) (rule card_Un_disjoint, auto)
  with rv' step st(3,4) show ?case by (intro exI [of _ rv']) (auto simp: p Un_assoc)
qed (use assms in auto)

lemma upload_run:
  assumes "evp_ok (ssl E)" "lz4_ok E" "2 \<le> topThreshold E" "0 < sendRecipeBatchSize E" "idle_inv E t S (r_st rv)" "mem_ok E mem"
    "list_all2 (sends E) mss xs" "upload_ok E S mss" "con_times (up (r_st rv)) + length (concat mss) + 4 \<le> INT_MAX"
    "\<forall>x \<in> set xs. relies untorn t (fst x)"
  shows "\<exists>rv'. server_upload E t mem (xs @ [(w, CLIENT_UPLOAD_RECIPE_END h)]) rv = Inr rv' \<and>
    idle_inv E t (S \<union> set (concat mss)) (r_st rv') \<and>
    (\<forall>m \<in> S \<union> set (concat mss). chunk_at E (S \<union> set (concat mss)) (files_of t (cdisk (r_st rv'))) (outdb (r_st rv')) m) \<and>
    read_recipe E (recipeFile (up (r_st rv'))) = Inr (concat (map (hashfp E) (concat mss))) \<and>
    recipeHead rv' = take FILE_RECIPE_HEAD_SIZE h \<and>
    uniqueChunkNum (stats (r_st rv')) = uniqueChunkNum (stats (r_st rv)) + word_of_nat (card (set (concat mss) - S))"
proof -
  let ?S = "S \<union> set (concat mss)" and ?fs = "map (hashfp E) (concat mss)"
  have c0: "con_times (up (r_st rv)) + 2 \<le> INT_MAX" using assms(9) by simp
  obtain st where st: "new_client mem (r_st rv) = Inr st" "freq_inv E t S [] st" "con_times (up st) = con_times (up (r_st rv)) + 2"
      "stats st = stats (r_st rv)" using new_client_ok [OF assms(5,6) c0 assms(4)] by blast
  define rv0 where "rv0 = rv\<lparr>r_st := st, recipeHead := m_head mem, recipeOpen := True, uploadDataSize := 0\<rparr>"
  have p0: "r_st rv0 = st" "recipeOpen rv0" by (simp_all add: rv0_def)
  have ct: "con_times (up (r_st rv0)) + length (concat mss) \<le> INT_MAX" using assms(9) st(3) by (simp add: p0)
  obtain rv1 where rv1: "foldE (receive_msg E t) xs rv0 = Inr rv1" "freq_inv E t ?S ?fs (r_st rv1)" "recipeOpen rv1"
      "con_times (up (r_st rv1)) \<le> con_times (up st) + length (concat mss)"
      "uniqueChunkNum (stats (r_st rv1)) = uniqueChunkNum (stats st) + word_of_nat (card (set (concat mss) - S))"
    using receive_batches [OF assms(1-3,7) _ assms(8) p0(2) ct assms(10), of "[]"] st(2) by (auto simp: p0)
  let ?u = "up (r_st rv1)"
  have i: "store_inv ?u" "small_queue ?u" "recipe_inv E ?fs ?u" using rv1(2) by (auto simp: freq_inv_def disk_ok_def small_queue_def)
  have c1: "con_times ?u + 2 \<le> INT_MAX" using rv1(4) st(3) assms(9) by simp
  obtain u1 u2 where u: "ProcessTailBatch E ?u = Inr u1" "finish_upload u1 = Inr u2" "store_inv u2" "grows ?u u2" "small_queue u2"
      "con_times u2 \<le> con_times ?u + 2" "read_recipe E (recipeFile u2) = Inr (concat ?fs)"
      "\<forall>n b. container_bytes ?u n = Some b \<longrightarrow> b \<noteq> [] \<longrightarrow> (\<exists>c \<in> set (inputMQ u2). containerID c = n \<and> ct_bytes c = b)"
    using upload_end [OF assms(1) i c1] by blast
  have c2: "con_times u2 \<le> INT_MAX" using u(6) c1 by simp
  note e = upload_end_idle [OF rv1(2) u(4,3,5) c2 u(8)]
  define rv2 where "rv2 = rv1\<lparr>r_st := (r_st rv1)\<lparr>up := u1\<rparr>, recipeHead := take FILE_RECIPE_HEAD_SIZE h, recipeOpen := False,
    recipeEndNum := Suc (recipeEndNum rv1), uploadDataSize := rd64 h, Ecall_time := Suc (Ecall_time rv1)\<rparr>"
  have "receive_msg E t (w, CLIENT_UPLOAD_RECIPE_END h) rv1 = Inr rv2"
    using u(1) rv1(3) by (simp add: check_recipe_def FinalizeRecipe_def rv2_def)
  then have "server_upload E t mem (xs @ [(w, CLIENT_UPLOAD_RECIPE_END h)]) rv =
      Inr (rv2\<lparr>r_st := writer_rest t ((r_st rv1)\<lparr>up := u2\<rparr>)\<rparr>)"
    using st(1) rv1(1) u(2) by (simp add: server_upload_def DataReceiver_Run_def foldE_append rv0_def [symmetric]) (simp add: rv2_def)
  moreover have "\<forall>m \<in> ?S. chunk_at E ?S (files_of t (cdisk (writer_rest t ((r_st rv1)\<lparr>up := u2\<rparr>))))
      (outdb (writer_rest t ((r_st rv1)\<lparr>up := u2\<rparr>))) m" using e(1) unfolding idle_inv_def db_inv_def by blast
  ultimately show ?thesis using e rv1(5) st(4) u(7)
    by (intro exI [of _ "rv2\<lparr>r_st := writer_rest t ((r_st rv1)\<lparr>up := u2\<rparr>)\<rparr>"]) (simp add: rv2_def)
qed

definition sample_rv :: receiver where
  "sample_rv = \<lparr>r_st = start_st, recipeHead = [], recipeOpen = False, batchNum = 0, recipeEndNum = 0, uploadDataSize = 0, Ecall_time = 0\<rparr>"

lemma sample_upload_ready:
  shows "evp_ok (ssl toy_enclave)" "2 \<le> topThreshold toy_enclave" "0 < sendRecipeBatchSize toy_enclave" "idle_inv toy_enclave ''.c'' {} (r_st sample_rv)"
    "list_all2 (sends toy_enclave) [sample_chunks] [(sample_writer, CLIENT_UPLOAD_CHUNK sample_data 2)]"
    "con_times (up (r_st sample_rv)) + length (concat [sample_chunks]) + 4 \<le> INT_MAX"
    "\<forall>x \<in> set [(sample_writer, CLIENT_UPLOAD_CHUNK sample_data 2)]. relies untorn ''.c'' (fst x)"
proof -
  have n: "length sample_chunks = 2" by (simp add: sample_chunks_def)
  show "evp_ok (ssl toy_enclave)" "2 \<le> topThreshold toy_enclave" "0 < sendRecipeBatchSize toy_enclave"
    by (simp_all add: toy_enclave_def toy_evp_ok)
  show "idle_inv toy_enclave ''.c'' {} (r_st sample_rv)" using start_idle by (simp add: sample_rv_def)
  show "list_all2 (sends toy_enclave) [sample_chunks] [(sample_writer, CLIENT_UPLOAD_CHUNK sample_data 2)]" using sample_sent by (simp add: sends_def n)
  show "con_times (up (r_st sample_rv)) + length (concat [sample_chunks]) + 4 \<le> INT_MAX"
    by (simp add: n sample_rv_def start_st_def EcallFreqIndex_new_def fresh_up_def store_st.defs fresh_store_def size_consts)
  show "\<forall>x \<in> set [(sample_writer, CLIENT_UPLOAD_CHUNK sample_data 2)]. relies untorn ''.c'' (fst x)" by (simp add: sample_relies)
qed

lemma sample_uploaded:
  "\<exists>rv. server_upload toy_enclave ''.c'' sample_mem
      [(sample_writer, CLIENT_UPLOAD_CHUNK sample_data 2), (sample_writer, CLIENT_UPLOAD_RECIPE_END (replicate 16 5))] sample_rv = Inr rv \<and>
    idle_inv toy_enclave ''.c'' {[1, 2], [3, 4]} (r_st rv) \<and>
    read_recipe toy_enclave (recipeFile (up (r_st rv))) = Inr (concat (map (hashfp toy_enclave) [[1, 2], [3, 4]]))"
proof -
  note r = sample_upload_ready
  have n: "concat [sample_chunks] = [[1, 2], [3, 4]]" by (simp add: sample_chunks_def)
  from upload_run [OF r(1) toy_lz4 r(2-4) sample_mem_ok r(5) sample_upload r(6,7), of sample_writer "replicate 16 5"]
  obtain rv where "server_upload toy_enclave ''.c'' sample_mem ([(sample_writer, CLIENT_UPLOAD_CHUNK sample_data 2)] @
        [(sample_writer, CLIENT_UPLOAD_RECIPE_END (replicate 16 5))]) sample_rv = Inr rv"
      "idle_inv toy_enclave ''.c'' {[1, 2], [3, 4]} (r_st rv)"
      "read_recipe toy_enclave (recipeFile (up (r_st rv))) = Inr (concat (map (hashfp toy_enclave) [[1, 2], [3, 4]]))"
    unfolding n Un_empty_left list.set by blast
  then show ?thesis by (intro exI [of _ rv]) simp
qed

text \<open>
  C2: an upload. A client sends its chunks in batches and then the recipe end. Under every
  schedule of the writer's steps in which the enclave never reads a container file while that file
  is being saved, the server handles every message, and when the writer has finished, the index and the container files on disk alone suffice to rebuild every chunk of
  this and of every earlier upload; the recipe file holds the fingerprints of the file in order
  and its head is the head the client sent. The chunks stored are the distinct new ones.
\<close>

theorem upload_correct:
  assumes "evp_ok (ssl E)" "lz4_ok E" "2 \<le> topThreshold E" "0 < sendRecipeBatchSize E" "idle_inv E t S (r_st rv)" "mem_ok E mem"
    "list_all2 (sends E) mss xs" "upload_ok E S mss" "con_times (up (r_st rv)) + length (concat mss) + 4 \<le> INT_MAX"
    "\<forall>x \<in> set xs. relies untorn t (fst x)"
  shows "\<exists>rv'. server_upload E t mem (xs @ [(w, CLIENT_UPLOAD_RECIPE_END h)]) rv = Inr rv' \<and>
    idle_inv E t (S \<union> set (concat mss)) (r_st rv') \<and>
    (\<forall>m \<in> S \<union> set (concat mss). chunk_at E (S \<union> set (concat mss)) (files_of t (cdisk (r_st rv'))) (outdb (r_st rv')) m) \<and>
    read_recipe E (recipeFile (up (r_st rv'))) = Inr (concat (map (hashfp E) (concat mss))) \<and>
    recipeHead rv' = take FILE_RECIPE_HEAD_SIZE h \<and>
    uniqueChunkNum (stats (r_st rv')) = uniqueChunkNum (stats (r_st rv)) + word_of_nat (card (set (concat mss) - S))"
  by (rule upload_run [OF assms])

theorem upload_correct_witness:
  "\<exists>rv'. server_upload toy_enclave ''.c'' sample_mem
      [(sample_writer, CLIENT_UPLOAD_CHUNK sample_data 2), (sample_writer, CLIENT_UPLOAD_RECIPE_END (replicate 16 5))] sample_rv = Inr rv' \<and>
    (\<forall>m \<in> {[1, 2], [3, 4]}. chunk_at toy_enclave {[1, 2], [3, 4]} (files_of ''.c'' (cdisk (r_st rv'))) (outdb (r_st rv')) m) \<and>
    read_recipe toy_enclave (recipeFile (up (r_st rv'))) = Inr ([1, 2] @ replicate 30 0 @ [3, 4] @ replicate 30 0) \<and>
    recipeHead rv' = replicate 16 5"
proof -
  note r = sample_upload_ready
  have n: "concat [sample_chunks] = [[1, 2], [3, 4]]" by (simp add: sample_chunks_def)
  have h: "concat (map (hashfp toy_enclave) [[1, 2], [3, 4]]) = [1, 2] @ replicate 30 0 @ [3, 4] @ replicate 30 0" by (simp add: toy_hash)
  from upload_correct [OF r(1) toy_lz4 r(2-4) sample_mem_ok r(5) sample_upload r(6,7), of sample_writer "replicate 16 5"]
  obtain rv' where "server_upload toy_enclave ''.c'' sample_mem ([(sample_writer, CLIENT_UPLOAD_CHUNK sample_data 2)] @
        [(sample_writer, CLIENT_UPLOAD_RECIPE_END (replicate 16 5))]) sample_rv = Inr rv'"
      "\<forall>m \<in> {[1, 2], [3, 4]}. chunk_at toy_enclave {[1, 2], [3, 4]} (files_of ''.c'' (cdisk (r_st rv'))) (outdb (r_st rv')) m"
      "read_recipe toy_enclave (recipeFile (up (r_st rv'))) = Inr ([1, 2] @ replicate 30 0 @ [3, 4] @ replicate 30 0)"
      "recipeHead rv' = take FILE_RECIPE_HEAD_SIZE (replicate 16 5)"
    unfolding n h Un_empty_left list.set by blast
  then show ?thesis by (intro exI [of _ rv']) (simp add: FILE_RECIPE_HEAD_SIZE_def)
qed

end
