(* ===== verification/MsgQueue.thy ===== *)
theory MsgQueue
  imports Prelude
begin

text \<open>
  The message queue between two threads (\<open>messageQueue.h\<close>) and the loop of its consumers
  (\<open>DataSender::Run\<close>, \<open>RestoreWriter::Run\<close>): the producer pushes its items, spinning while the
  queue is full, and then sets the flag \<open>done_\<close>; the consumer polls. The two threads are
  interleaved in any way. The queue of the library is a bounded first-in-first-out queue with one
  reader and one writer.
\<close>

section \<open>The two threads\<close>

datatype consumer_pc = AtCheck | AtPop | AtTest | Stopped

record ('a, 'e, 's) mq_st =
  mq_todo :: "'a list"
  mq_queue :: "'a list"
  mq_done :: bool
  jobDoneFlag :: bool
  mq_pc :: consumer_pc
  mq_acc :: "'e + 's"

definition mq_start :: "'a list \<Rightarrow> 's \<Rightarrow> ('a, 'e, 's) mq_st" where
  "mq_start items s = \<lparr>mq_todo = items, mq_queue = [], mq_done = False, jobDoneFlag = False, mq_pc = AtCheck, mq_acc = Inr s\<rparr>"

text \<open>\<open>Push\<close> tries again while the queue is full.\<close>

definition mq_Push :: "nat \<Rightarrow> 'a \<Rightarrow> 'a list \<Rightarrow> 'a list option" where
  "mq_Push cap x q = (if length q < cap then Some (q @ [x]) else None)"

definition mq_Pop :: "'a list \<Rightarrow> ('a \<times> 'a list) option" where
  "mq_Pop q = (case q of [] \<Rightarrow> None | x # q' \<Rightarrow> Some (x, q'))"

definition mq_IsEmpty :: "'a list \<Rightarrow> bool" where
  "mq_IsEmpty q \<longleftrightarrow> length q = 0"

definition producer_turn :: "nat \<Rightarrow> ('a, 'e, 's) mq_st \<Rightarrow> ('a, 'e, 's) mq_st" where
  "producer_turn cap st =
    (case mq_todo st of
       [] \<Rightarrow> st\<lparr>mq_done := True\<rparr>
     | x # xs \<Rightarrow> (case mq_Push cap x (mq_queue st) of None \<Rightarrow> st | Some q \<Rightarrow> st\<lparr>mq_todo := xs, mq_queue := q\<rparr>))"

text \<open>One statement of the consumer's loop. A handler that fails ends the process.\<close>

definition consumer_turn :: "('a \<Rightarrow> 's \<Rightarrow> 'e + 's) \<Rightarrow> ('a, 'e, 's) mq_st \<Rightarrow> ('a, 'e, 's) mq_st" where
  "consumer_turn handle st =
    (case mq_pc st of
       AtCheck \<Rightarrow> st\<lparr>jobDoneFlag := jobDoneFlag st \<or> (mq_done st \<and> mq_IsEmpty (mq_queue st)), mq_pc := AtPop\<rparr>
     | AtPop \<Rightarrow>
         (case mq_Pop (mq_queue st) of
            None \<Rightarrow> st\<lparr>mq_pc := AtTest\<rparr>
          | Some (x, q) \<Rightarrow>
              let a = bindE (mq_acc st) (handle x)
              in st\<lparr>mq_queue := q, mq_acc := a, mq_pc := (case a of Inl e \<Rightarrow> Stopped | Inr s \<Rightarrow> AtTest)\<rparr>)
     | AtTest \<Rightarrow> st\<lparr>mq_pc := (if jobDoneFlag st then Stopped else AtCheck)\<rparr>
     | Stopped \<Rightarrow> st)"

text \<open>A schedule tells for each moment whether the producer runs.\<close>

fun mq_run :: "nat \<Rightarrow> ('a \<Rightarrow> 's \<Rightarrow> 'e + 's) \<Rightarrow> (nat \<Rightarrow> bool) \<Rightarrow> nat \<Rightarrow> ('a, 'e, 's) mq_st \<Rightarrow> ('a, 'e, 's) mq_st" where
  "mq_run cap handle sched 0 st = st"
| "mq_run cap handle sched (Suc n) st =
    (let st' = mq_run cap handle sched n st in if sched n then producer_turn cap st' else consumer_turn handle st')"

inductive mq_reach :: "nat \<Rightarrow> ('a \<Rightarrow> 's \<Rightarrow> 'e + 's) \<Rightarrow> ('a, 'e, 's) mq_st \<Rightarrow> ('a, 'e, 's) mq_st \<Rightarrow> bool"
  for cap handle st0 where
  start: "mq_reach cap handle st0 st0"
| producer: "mq_reach cap handle st0 st \<Longrightarrow> mq_reach cap handle st0 (producer_turn cap st)"
| consumer: "mq_reach cap handle st0 st \<Longrightarrow> mq_reach cap handle st0 (consumer_turn handle st)"

lemma run_reach: "mq_reach cap handle st (mq_run cap handle sched n st)"
  by (induction n) (auto simp: Let_def intro: mq_reach.intros)

section \<open>Nothing is lost, repeated or reordered\<close>

definition mq_inv :: "('a \<Rightarrow> 's \<Rightarrow> 'e + 's) \<Rightarrow> 'a list \<Rightarrow> 's \<Rightarrow> ('a, 'e, 's) mq_st \<Rightarrow> bool" where
  "mq_inv handle items s st \<longleftrightarrow>
     (\<exists>seen. seen @ mq_queue st @ mq_todo st = items \<and> mq_acc st = foldE handle seen s \<and>
        (mq_done st \<longrightarrow> mq_todo st = []) \<and> (jobDoneFlag st \<longrightarrow> mq_done st \<and> mq_queue st = []) \<and>
        (mq_pc st \<noteq> Stopped \<longrightarrow> (\<exists>s'. mq_acc st = Inr s')) \<and>
        (mq_pc st = Stopped \<longrightarrow> jobDoneFlag st \<or> (\<exists>e. mq_acc st = Inl e)))"

lemma mq_start_inv: "mq_inv handle items s (mq_start items s)"
  by (auto simp: mq_inv_def mq_start_def)

lemma producer_inv:
  assumes "mq_inv handle items s st"
  shows "mq_inv handle items s (producer_turn cap st)"
proof (cases "mq_todo st")
  case Nil
  then show ?thesis using assms by (auto simp: mq_inv_def producer_turn_def)
next
  case (Cons x xs)
  show ?thesis
  proof (cases "length (mq_queue st) < cap")
    case True
    then show ?thesis using assms Cons by (auto simp: mq_inv_def producer_turn_def mq_Push_def)
  next
    case False
    then show ?thesis using assms Cons by (simp add: producer_turn_def mq_Push_def)
  qed
qed

lemma consumer_inv:
  assumes "mq_inv handle items s st"
  shows "mq_inv handle items s (consumer_turn handle st)"
proof (cases "mq_pc st")
  case AtPop
  obtain seen where seen: "seen @ mq_queue st @ mq_todo st = items" "mq_acc st = foldE handle seen s" "mq_done st \<longrightarrow> mq_todo st = []"
      "jobDoneFlag st \<longrightarrow> mq_done st \<and> mq_queue st = []" "\<exists>s'. mq_acc st = Inr s'"
    using assms AtPop unfolding mq_inv_def by (metis consumer_pc.distinct(9))
  show ?thesis
  proof (cases "mq_queue st")
    case Nil
    then show ?thesis using seen AtPop by (auto simp: mq_inv_def consumer_turn_def mq_Pop_def)
  next
    case (Cons x q)
    define a where "a = bindE (mq_acc st) (handle x)"
    define st' where "st' = st\<lparr>mq_queue := q, mq_acc := a, mq_pc := (case a of Inl e \<Rightarrow> Stopped | Inr s \<Rightarrow> AtTest)\<rparr>"
    have "consumer_turn handle st = st'" using Cons AtPop by (simp add: consumer_turn_def mq_Pop_def a_def st'_def Let_def)
    moreover have "a = foldE handle (seen @ [x]) s" using seen(2) by (cases "foldE handle seen s") (auto simp: a_def foldE_append bindE_def split: sum.splits)
    then have "mq_inv handle items s st'" unfolding mq_inv_def
      using seen(1,3,4) Cons by (intro exI [of _ "seen @ [x]"]) (auto simp: st'_def split: sum.splits)
    ultimately show ?thesis by simp
  qed
qed (use assms in \<open>auto simp: mq_inv_def consumer_turn_def mq_IsEmpty_def\<close>)

lemma reach_inv: "mq_reach cap handle st0 st \<Longrightarrow> mq_inv handle items s st0 \<Longrightarrow> mq_inv handle items s st"
  by (induction rule: mq_reach.induct) (simp_all add: producer_inv consumer_inv)

lemma stopped_result:
  assumes "mq_inv handle items s st" "mq_pc st = Stopped"
  shows "mq_acc st = foldE handle items s"
proof -
  obtain seen where seen: "seen @ mq_queue st @ mq_todo st = items" "mq_acc st = foldE handle seen s" "mq_done st \<longrightarrow> mq_todo st = []"
      "jobDoneFlag st \<longrightarrow> mq_done st \<and> mq_queue st = []" "jobDoneFlag st \<or> (\<exists>e. mq_acc st = Inl e)"
    using assms unfolding mq_inv_def by blast
  show ?thesis
  proof (cases "jobDoneFlag st")
    case True
    then show ?thesis using seen by simp
  next
    case False
    then obtain e where "foldE handle seen s = Inl e" using seen(2,5) by auto
    then have "foldE handle items s = Inl e" unfolding seen(1) [symmetric] by (simp add: foldE_append)
    with \<open>foldE handle seen s = Inl e\<close> seen(2) show ?thesis by simp
  qed
qed

section \<open>Every fair interleaving ends\<close>

definition producer_rank :: "('a, 'e, 's) mq_st \<Rightarrow> nat" where
  "producer_rank st = length (mq_todo st) + (if mq_done st then 0 else 1)"

definition consumer_rank :: "('a, 'e, 's) mq_st \<Rightarrow> nat" where
  "consumer_rank st = 3 * length (mq_queue st) +
     (case mq_pc st of Stopped \<Rightarrow> 0 | AtTest \<Rightarrow> if jobDoneFlag st then 1 else 5 | AtCheck \<Rightarrow> 4
      | AtPop \<Rightarrow> if jobDoneFlag st then 2 else if mq_queue st = [] then 6 else 3)"

definition mq_order :: "(('a, 'e, 's) mq_st \<times> ('a, 'e, 's) mq_st) set" where
  "mq_order = measures [producer_rank, consumer_rank]"

lemma producer_decr:
  assumes "mq_inv handle items s st" "producer_turn cap st \<noteq> st"
  shows "(producer_turn cap st, st) \<in> mq_order"
proof (cases "mq_todo st")
  case Nil
  then have "\<not> mq_done st" using assms(2) by (auto simp: producer_turn_def)
  then show ?thesis using Nil by (simp add: mq_order_def producer_turn_def producer_rank_def)
next
  case (Cons x xs)
  moreover have "\<not> mq_done st" using assms(1) Cons by (auto simp: mq_inv_def)
  moreover have "length (mq_queue st) < cap" using assms(2) Cons by (auto simp: producer_turn_def mq_Push_def split: if_splits)
  ultimately show ?thesis by (simp add: mq_order_def producer_turn_def producer_rank_def mq_Push_def)
qed

lemma consumer_decr:
  assumes "mq_inv handle items s st" "mq_pc st \<noteq> Stopped" "mq_queue st \<noteq> [] \<or> mq_done st"
  shows "(consumer_turn handle st, st) \<in> mq_order"
proof -
  have i: "jobDoneFlag st \<Longrightarrow> mq_done st \<and> mq_queue st = []" using assms(1) by (auto simp: mq_inv_def)
  have "producer_rank (consumer_turn handle st) = producer_rank st"
    by (auto simp: consumer_turn_def producer_rank_def Let_def split: consumer_pc.splits option.splits)
  moreover have "consumer_rank (consumer_turn handle st) < consumer_rank st"
    using assms(2,3) i by (cases "mq_pc st"; cases "mq_queue st") (auto simp: consumer_turn_def consumer_rank_def Let_def mq_IsEmpty_def mq_Pop_def split: sum.splits)
  ultimately show ?thesis by (simp add: mq_order_def)
qed

text \<open>While the queue is empty and the producer not done, only the producer makes progress.\<close>

lemma consumer_idle:
  assumes "mq_queue st = []" "\<not> mq_done st" "mq_pc st \<noteq> Stopped" "\<not> jobDoneFlag st"
  shows "mq_queue (consumer_turn handle st) = []" "\<not> mq_done (consumer_turn handle st)" "mq_pc (consumer_turn handle st) \<noteq> Stopped"
    "\<not> jobDoneFlag (consumer_turn handle st)" "producer_rank (consumer_turn handle st) = producer_rank st"
  using assms by (auto simp: consumer_turn_def producer_rank_def mq_Pop_def split: consumer_pc.splits)

definition fair :: "(nat \<Rightarrow> bool) \<Rightarrow> bool" where
  "fair sched \<longleftrightarrow> (\<forall>n. \<exists>k \<ge> n. sched k) \<and> (\<forall>n. \<exists>k \<ge> n. \<not> sched k)"

text \<open>The first moment after \<open>n\<close> at which the producer, or the consumer, runs.\<close>

lemma next_turn:
  assumes "fair sched"
  shows "\<exists>k \<ge> n. sched k = b \<and> (\<forall>j. n \<le> j \<longrightarrow> j < k \<longrightarrow> sched j = (\<not> b))"
proof -
  have ex: "\<exists>k. n \<le> k \<and> sched k = b" using assms by (cases b) (auto simp: fair_def)
  define k where "k = (LEAST k. n \<le> k \<and> sched k = b)"
  have "n \<le> k \<and> sched k = b" unfolding k_def using ex by (rule LeastI_ex)
  moreover have "sched j = (\<not> b)" if "n \<le> j" "j < k" for j using not_less_Least [of j "\<lambda>k. n \<le> k \<and> sched k = b"] that by (auto simp: k_def)
  ultimately show ?thesis by blast
qed

lemma producer_stretch:
  assumes "mq_inv handle items s (mq_run cap handle sched n st)" "\<forall>j. n \<le> j \<longrightarrow> j < n + d \<longrightarrow> sched j"
  shows "mq_run cap handle sched (n + d) st = mq_run cap handle sched n st \<or>
    (\<exists>m > n. (mq_run cap handle sched m st, mq_run cap handle sched n st) \<in> mq_order)"
  using assms(2)
proof (induction d)
  case (Suc d)
  then consider "mq_run cap handle sched (n + d) st = mq_run cap handle sched n st"
    | "\<exists>m > n. (mq_run cap handle sched m st, mq_run cap handle sched n st) \<in> mq_order" by force
  then show ?case
  proof cases
    case 1
    then have "mq_run cap handle sched (n + Suc d) st = producer_turn cap (mq_run cap handle sched n st)" using Suc.prems by simp
    then show ?thesis using producer_decr [OF assms(1), of cap] by (metis less_add_same_cancel1 zero_less_Suc)
  qed blast
qed simp

lemma idle_stretch:
  assumes "\<forall>j. n \<le> j \<longrightarrow> j < n + d \<longrightarrow> \<not> sched j"
    "mq_queue st0 = []" "\<not> mq_done st0" "mq_pc st0 \<noteq> Stopped" "\<not> jobDoneFlag st0" "st0 = mq_run cap handle sched n st"
  shows "mq_queue (mq_run cap handle sched (n + d) st) = [] \<and> \<not> mq_done (mq_run cap handle sched (n + d) st) \<and> mq_pc (mq_run cap handle sched (n + d) st) \<noteq> Stopped \<and>
    \<not> jobDoneFlag (mq_run cap handle sched (n + d) st) \<and> producer_rank (mq_run cap handle sched (n + d) st) = producer_rank st0"
  using assms(1)
proof (induction d)
  case (Suc d)
  let ?st = "mq_run cap handle sched (n + d) st"
  have ih: "mq_queue ?st = []" "\<not> mq_done ?st" "mq_pc ?st \<noteq> Stopped" "\<not> jobDoneFlag ?st" "producer_rank ?st = producer_rank st0" using Suc by auto
  moreover have "mq_run cap handle sched (n + Suc d) st = consumer_turn handle ?st" using Suc.prems by (simp add: Let_def)
  ultimately show ?case using consumer_idle [OF ih(1-4)] by simp
qed (use assms in simp)

lemma run_progress:
  assumes "fair sched" "0 < cap" "mq_inv handle items s (mq_run cap handle sched n st)" "mq_pc (mq_run cap handle sched n st) \<noteq> Stopped"
  shows "\<exists>m > n. (mq_run cap handle sched m st, mq_run cap handle sched n st) \<in> mq_order"
proof (cases "mq_queue (mq_run cap handle sched n st) \<noteq> [] \<or> mq_done (mq_run cap handle sched n st)")
  case True
  obtain k where k: "n \<le> k" "\<not> sched k" "\<forall>j. n \<le> j \<longrightarrow> j < k \<longrightarrow> sched j" using next_turn [OF assms(1), of n False] by auto
  then have "\<forall>j. n \<le> j \<longrightarrow> j < n + (k - n) \<longrightarrow> sched j" "n + (k - n) = k" by simp_all
  with producer_stretch [OF assms(3), of "k - n"] consider "mq_run cap handle sched k st = mq_run cap handle sched n st"
    | "\<exists>m > n. (mq_run cap handle sched m st, mq_run cap handle sched n st) \<in> mq_order" by auto
  then show ?thesis
  proof cases
    case 1
    then have "mq_run cap handle sched (Suc k) st = consumer_turn handle (mq_run cap handle sched n st)" using k(2) by simp
    with consumer_decr [OF assms(3,4) True] show ?thesis using k(1) by (metis le_imp_less_Suc)
  qed
next
  case False
  let ?st = "mq_run cap handle sched n st"
  have i: "mq_queue ?st = []" "\<not> mq_done ?st" "\<not> jobDoneFlag ?st" using False assms(3) by (auto simp: mq_inv_def)
  obtain k where k: "n \<le> k" "sched k" "\<forall>j. n \<le> j \<longrightarrow> j < k \<longrightarrow> \<not> sched j" using next_turn [OF assms(1), of n True] by auto
  let ?sk = "mq_run cap handle sched k st"
  have "\<forall>j. n \<le> j \<longrightarrow> j < n + (k - n) \<longrightarrow> \<not> sched j" "n + (k - n) = k" using k by simp_all
  with idle_stretch [OF _ i(1,2) assms(4) i(3) refl, of "k - n"] have s: "mq_queue ?sk = []" "\<not> mq_done ?sk" "producer_rank ?sk = producer_rank ?st" by simp_all
  have "producer_rank (producer_turn cap ?sk) < producer_rank ?sk"
    using s(1,2) assms(2) by (auto simp: producer_turn_def producer_rank_def mq_Push_def split: list.splits)
  moreover have "mq_run cap handle sched (Suc k) st = producer_turn cap ?sk" using k(2) by simp
  ultimately have "(mq_run cap handle sched (Suc k) st, ?st) \<in> mq_order" using s(3) by (simp add: mq_order_def)
  then show ?thesis using k(1) by (metis le_imp_less_Suc)
qed

lemma run_stops:
  fixes st :: "('a, 'e, 's) mq_st"
  assumes "fair sched" "0 < cap" "mq_inv handle items s st"
  shows "\<exists>m \<ge> n. mq_pc (mq_run cap handle sched m st) = Stopped"
proof -
  let ?r = "\<lambda>n. mq_run cap handle sched n st"
  have wf: "wf (mq_order :: (('a, 'e, 's) mq_st \<times> ('a, 'e, 's) mq_st) set)" by (simp add: mq_order_def)
  have "?r n = x \<Longrightarrow> \<exists>m \<ge> n. mq_pc (?r m) = Stopped" for x n
  proof (induction x arbitrary: n rule: wf_induct_rule [OF wf])
    case (1 x)
    have inv: "mq_inv handle items s (?r n)" by (rule reach_inv [OF run_reach assms(3)])
    show ?case
    proof (cases "mq_pc (?r n) = Stopped")
      case False
      then obtain m where m: "n < m" "(?r m, x) \<in> mq_order" using run_progress [OF assms(1,2) inv] 1(2) by blast
      with 1(1) [OF m(2) refl] obtain k where "k \<ge> m" "mq_pc (?r k) = Stopped" by blast
      then show ?thesis using m(1) by (meson less_imp_le order_trans)
    qed blast
  qed
  then show ?thesis by blast
qed

text \<open>A stopped consumer stays stopped.\<close>

lemma stopped_stays: "mq_pc st = Stopped \<Longrightarrow> mq_pc (producer_turn cap st) = Stopped" "mq_pc st = Stopped \<Longrightarrow> consumer_turn handle st = st"
  by (auto simp: producer_turn_def consumer_turn_def split: list.splits option.splits)

text \<open>
  C27: a producer and a consumer that share a message queue. Under every fair interleaving of the
  two threads, and whatever the size of the queue, the consumer's loop ends, and it has then
  handled exactly the items that were pushed, in their order, or has ended the process at the
  first item its handler fails on.
\<close>

theorem queue_delivers:
  assumes "fair sched" "0 < cap"
  shows "\<exists>n. mq_pc (mq_run cap handle sched n (mq_start items s)) = Stopped \<and>
    (\<forall>m \<ge> n. mq_pc (mq_run cap handle sched m (mq_start items s)) = Stopped \<and> mq_acc (mq_run cap handle sched m (mq_start items s)) = foldE handle items s)"
proof -
  let ?r = "\<lambda>n. mq_run cap handle sched n (mq_start items s)"
  obtain n where n: "mq_pc (?r n) = Stopped" using run_stops [OF assms mq_start_inv [of handle items s], of 0] by blast
  have stay: "mq_pc (?r m) = Stopped" if "n \<le> m" for m
    using that n by (induction m rule: dec_induct) (simp_all add: Let_def stopped_stays)
  have "mq_acc (?r m) = foldE handle items s" if "n \<le> m" for m
    using stopped_result [OF reach_inv [OF run_reach mq_start_inv] stay [OF that]] .
  with n stay show ?thesis by blast
qed

definition collect :: "nat \<Rightarrow> nat list \<Rightarrow> unit + nat list" where
  "collect x s = Inr (s @ [x])"

theorem queue_delivers_witness:
  "\<exists>n. mq_pc (mq_run 2 collect even n (mq_start [1, 2, 3] [])) = Stopped \<and> mq_acc (mq_run 2 collect even n (mq_start [1, 2, 3] [])) = Inr [1, 2, 3]"
proof -
  have "\<exists>k \<ge> n. even k" "\<exists>k \<ge> n. odd k" for n :: nat by (rule exI [of _ "2 * n"], simp, rule exI [of _ "Suc (2 * n)"], simp)
  then have f: "fair even" by (simp add: fair_def)
  have two: "0 < (2 :: nat)" by simp
  have "foldE collect [1, 2, 3] [] = Inr [1, 2, 3]" by (simp add: collect_def)
  with queue_delivers [OF f two, of collect "[1, 2, 3]" "[]"] show ?thesis by (metis order_refl)
qed

end
