(* ===== verification/Chunker.thy ===== *)
theory Chunker
  imports Session MsgQueue
begin

text \<open>
  Cutting a file into chunks (\<open>chunker.cc\<close>): FastCDC and fixed-size chunking with the configuration
  checks of \<open>ChunkerInit\<close>. The loops may not end for odd configurations and are partial; for every
  configuration in which a chunk fits in the read buffer they are shown to end. The file is
  the list of its bytes.
\<close>

section \<open>Configuration\<close>

definition DivCeil :: "u32 \<Rightarrow> u32 \<Rightarrow> u32" where
  "DivCeil a b = (if a mod b = 0 then a div b else a div b + 1)"

definition CompareLimit :: "u32 \<Rightarrow> u32 \<Rightarrow> u32 \<Rightarrow> u32" where
  "CompareLimit input lower upper = (if input \<le> lower then lower else if input \<ge> upper then upper else input)"

definition CalNormalSize :: "u32 \<Rightarrow> u32 \<Rightarrow> u32 \<Rightarrow> u32" where
  "CalNormalSize mn av mx =
    (let off = mn + DivCeil mn 2;
         off' = (if off > av then av else off);
         diff = av - off'
     in if diff > mx then mx else diff)"

text \<open>\<open>1 << 31\<close> wraps to the smallest \<open>int\<close>.\<close>

definition GenerateFastCDCMask :: "u32 \<Rightarrow> u32" where
  "GenerateFastCDCMask bits = push_bit (unat (CompareLimit bits 1 31)) 1 - 1"

text \<open>\<open>round (log2 n)\<close>: the number of exponents \<open>k\<close> with \<open>2 powr (k + 1/2) \<le> n\<close>.\<close>

definition round_log2 :: "u64 \<Rightarrow> u32" where
  "round_log2 n = word_of_nat (length (filter (\<lambda>k. 2 ^ (2 * k + 1) \<le> unat n * unat n) [0..<64]))"

datatype chunker_type = FIXED_SIZE_CHUNKING | FAST_CDC

record chunker =
  chunkerType :: chunker_type
  avgChunkSize :: u64
  minChunkSize :: u64
  maxChunkSize :: u64
  readSize :: u64
  normalSize :: u32
  maskS :: u32
  maskL :: u32

text \<open>The size of the read buffer is configured in megabytes.\<close>

definition ChunkerInit :: "chunker_type \<Rightarrow> u64 \<Rightarrow> u64 \<Rightarrow> u64 \<Rightarrow> u64 \<Rightarrow> fault + chunker" where
  "ChunkerInit ty av mn mx rs =
    (if mn \<ge> av \<or> mn \<ge> mx then Inl ExitFailure
     else if mx \<le> av \<or> mx \<le> mn then Inl ExitFailure
     else let bits = round_log2 av
          in Inr \<lparr>chunkerType = ty, avgChunkSize = av, minChunkSize = mn, maxChunkSize = mx, readSize = rs * (1024 * 1024),
               normalSize = (if ty = FAST_CDC then CalNormalSize (ucast mn) (ucast av) (ucast mx) else 0),
               maskS = (if ty = FAST_CDC then GenerateFastCDCMask (bits + 1) else 0),
               maskL = (if ty = FAST_CDC then GenerateFastCDCMask (bits - 1) else 0)\<rparr>)"

section \<open>Cut points\<close>

definition cdc_gear_table :: "u32 list" where
  "cdc_gear_table = [
     0x5c95c078, 0x22408989, 0x2d48a214, 0x12842087, 0x530f8afb, 0x474536b9, 0x2963b4f1, 0x44cb738b,
     0x4ea7403d, 0x4d606b6e, 0x074ec5d3, 0x3af39d18, 0x726003ca, 0x37a62a74, 0x51a2f58e, 0x7506358e,
     0x5d4ab128, 0x4d4ae17b, 0x41e85924, 0x470c36f7, 0x4741cbe1, 0x01bb7f30, 0x617c1de3, 0x2b0c3a1f,
     0x50c48f73, 0x21a82d37, 0x6095ace0, 0x419167a0, 0x3caf49b0, 0x40cea62d, 0x66bc1c66, 0x545e1dad,
     0x2bfa77cd, 0x6e85da24, 0x5fb0bdc5, 0x652cfc29, 0x3a0ae1ab, 0x2837e0f3, 0x6387b70e, 0x13176012,
     0x4362c2bb, 0x66d8f4b1, 0x37fce834, 0x2c9cd386, 0x21144296, 0x627268a8, 0x650df537, 0x2805d579,
     0x3b21ebbd, 0x7357ed34, 0x3f58b583, 0x7150ddca, 0x7362225e, 0x620a6070, 0x2c5ef529, 0x7b522466,
     0x768b78c0, 0x4b54e51e, 0x75fa07e5, 0x06a35fc6, 0x30b71024, 0x1c8626e1, 0x296ad578, 0x28d7be2e,
     0x1490a05a, 0x7cee43bd, 0x698b56e3, 0x09dc0126, 0x4ed6df6e, 0x02c1bfc7, 0x2a59ad53, 0x29c0e434,
     0x7d6c5278, 0x507940a7, 0x5ef6ba93, 0x68b6af1e, 0x46537276, 0x611bc766, 0x155c587d, 0x301ba847,
     0x2cc9dda7, 0x0a438e2c, 0x0a69d514, 0x744c72d3, 0x4f326b9b, 0x7ef34286, 0x4a0ef8a7, 0x6ae06ebe,
     0x669c5372, 0x12402dcb, 0x5feae99d, 0x76c7f4a7, 0x6abdb79c, 0x0dfaa038, 0x20e2282c, 0x730ed48b,
     0x069dac2f, 0x168ecf3e, 0x2610e61f, 0x2c512c8e, 0x15fb8c06, 0x5e62bc76, 0x69555135, 0x0adb864c,
     0x4268f914, 0x349ab3aa, 0x20edfdb2, 0x51727981, 0x37b4b3d8, 0x5dd17522, 0x6b2cbfe4, 0x5c47cf9f,
     0x30fa1ccd, 0x23dedb56, 0x13d1f50a, 0x64eddee7, 0x0820b0f7, 0x46e07308, 0x1e2d1dfd, 0x17b06c32,
     0x250036d8, 0x284dbf34, 0x68292ee0, 0x362ec87c, 0x087cb1eb, 0x76b46720, 0x104130db, 0x71966387,
     0x482dc43f, 0x2388ef25, 0x524144e1, 0x44bd834e, 0x448e7da3, 0x3fa6eaf9, 0x3cda215c, 0x3a500cf3,
     0x395cb432, 0x5195129f, 0x43945f87, 0x51862ca4, 0x56ea8ff1, 0x201034dc, 0x4d328ff5, 0x7d73a909,
     0x6234d379, 0x64cfbf9c, 0x36f6589a, 0x0a2ce98a, 0x5fe4d971, 0x03bc15c5, 0x44021d33, 0x16c1932b,
     0x37503614, 0x1acaf69d, 0x3f03b779, 0x49e61a03, 0x1f52d7ea, 0x1c6ddd5c, 0x062218ce, 0x07e7a11a,
     0x1905757a, 0x7ce00a53, 0x49f44f29, 0x4bcc70b5, 0x39feea55, 0x5242cee8, 0x3ce56b85, 0x00b81672,
     0x46beeccc, 0x3ca0ad56, 0x2396cee8, 0x78547f40, 0x6b08089b, 0x66a56751, 0x781e7e46, 0x1e2cf856,
     0x3bc13591, 0x494a4202, 0x520494d7, 0x2d87459a, 0x757555b6, 0x42284cc1, 0x1f478507, 0x75c95dff,
     0x35ff8dd7, 0x4e4757ed, 0x2e11f88c, 0x5e1b5048, 0x420e6699, 0x226b0695, 0x4d1679b4, 0x5a22646f,
     0x161d1131, 0x125c68d9, 0x1313e32e, 0x4aa85724, 0x21dc7ec1, 0x4ffa29fe, 0x72968382, 0x1ca8eef3,
     0x3f3b1c28, 0x39c2fb6c, 0x6d76493f, 0x7a22a62e, 0x789b1c2a, 0x16e0cb53, 0x7deceeeb, 0x0dc7e1c6,
     0x5c75bf3d, 0x52218333, 0x106de4d6, 0x7dc64422, 0x65590ff4, 0x2c02ec30, 0x64a9ac67, 0x59cab2e9,
     0x4a21d2f3, 0x0f616e57, 0x23b54ee8, 0x02730aaa, 0x2f3c634d, 0x7117fc6c, 0x01ac6f05, 0x5a9ed20c,
     0x158c4e2a, 0x42b699f0, 0x0c7c14b3, 0x02bd9641, 0x15ad56fc, 0x1c722f60, 0x7da1af91, 0x23e0dbcb,
     0x0e93e12b, 0x64b2791d, 0x440d2476, 0x588ea8dd, 0x4665a658, 0x7446c418, 0x1877a774, 0x5626407e,
     0x7f63bd46, 0x32d2dbd8, 0x3c790f4a, 0x772b7239, 0x6f8b2826, 0x677ff609, 0x0dc82c11, 0x23ffe354,
     0x2eac53a6, 0x16139e09, 0x0afd0dbc, 0x2a4d4237, 0x56a368c7, 0x234325e4, 0x2dce9187, 0x32e8ea7e]"

definition CDC_GEAR :: "byte \<Rightarrow> u32" where
  "CDC_GEAR b = cdc_gear_table ! unat b"

text \<open>\<open>k\<close> more positions are tried, from position \<open>i\<close>; the result is the cut or the fingerprint so far.\<close>

fun cut_loop :: "u32 \<Rightarrow> bytes \<Rightarrow> nat \<Rightarrow> nat \<Rightarrow> u32 \<Rightarrow> nat + u32" where
  "cut_loop mk src i 0 fp = Inr fp"
| "cut_loop mk src i (Suc k) fp =
    (let fp' = drop_bit 1 fp + CDC_GEAR (src ! i)
     in if fp' AND mk = 0 then Inl (Suc i) else cut_loop mk src (Suc i) k fp')"

definition CutPoint :: "chunker \<Rightarrow> bytes \<Rightarrow> nat" where
  "CutPoint c src =
    (let len = unat (word_of_nat (length src) :: u32);
         i0 = min len (unat (ucast (minChunkSize c) :: u32));
         n1 = min (unat (normalSize c)) len
     in case cut_loop (maskS c) src i0 (n1 - i0) 0 of
          Inl cp \<Rightarrow> cp
        | Inr fp \<Rightarrow>
            (let i1 = max i0 n1; n2 = min (unat (ucast (maxChunkSize c) :: u32)) len
             in case cut_loop (maskL c) src i1 (n2 - i1) fp of Inl cp \<Rightarrow> cp | Inr fp' \<Rightarrow> max i1 n2))"

section \<open>Chunks\<close>

text \<open>What the chunker puts into the queue.\<close>

datatype data_item = DataChunk bytes | RecipeEnd bytes

definition file_head :: "u64 \<Rightarrow> u64 \<Rightarrow> bytes" where
  "file_head fileSize totalChunkNum = le64 fileSize @ le64 totalChunkNum"

text \<open>
  The chunks cut from one read; the rest is read again. A chunk is copied to a buffer of
  \<open>MAX_CHUNK_SIZE\<close> bytes.
\<close>

definition put_chunk :: "nat \<Rightarrow> bytes \<Rightarrow> fault + (bytes list \<times> bytes) \<Rightarrow> fault + (bytes list \<times> bytes)" where
  "put_chunk cp rest r = bindE r (\<lambda>(cs, left). Inr (take cp rest # cs, left))"

partial_function (option) cdc_chunks :: "chunker \<Rightarrow> bool \<Rightarrow> bytes \<Rightarrow> (fault + bytes list \<times> bytes) option" where
  "cdc_chunks c eof rest =
    (if unat (maxChunkSize c) \<le> length rest \<or> (eof \<and> rest \<noteq> []) then
       (if MAX_CHUNK_SIZE < CutPoint c rest then Some (Inl WriteOutside)
        else Option.bind (cdc_chunks c eof (drop (CutPoint c rest) rest)) (\<lambda>r. Some (put_chunk (CutPoint c rest) rest r)))
     else Some (Inr ([], rest)))"

text \<open>A read sets \<open>eof\<close> where it finds fewer bytes than it asks for.\<close>

partial_function (option) cdc_file :: "chunker \<Rightarrow> bytes \<Rightarrow> (fault + bytes list) option" where
  "cdc_file c rf =
    (let buf = take (unat (readSize c)) rf; eof = length rf < unat (readSize c)
     in if buf = [] then Some (Inr [])
        else Option.bind (cdc_chunks c eof buf) (\<lambda>r.
          case r of
            Inl e \<Rightarrow> Some (Inl e)
          | Inr (cs, left) \<Rightarrow>
              if eof then Some (Inr cs)
              else Option.bind (cdc_file c (drop (length buf - length left) rf)) (\<lambda>r'. Some (bindE r' (\<lambda>cs'. Inr (cs @ cs'))))))"

text \<open>Chunks of \<open>avgChunkSize\<close> bytes, the last one of a read shorter.\<close>

partial_function (option) fix_chunks :: "chunker \<Rightarrow> bytes \<Rightarrow> (fault + bytes list \<times> bytes) option" where
  "fix_chunks c rest =
    (if rest = [] then Some (Inr ([], []))
     else let n = (if length rest > unat (avgChunkSize c) then unat (avgChunkSize c) else length rest)
          in if MAX_CHUNK_SIZE < n then Some (Inl WriteOutside)
             else Option.bind (fix_chunks c (drop n rest)) (\<lambda>r. Some (put_chunk n rest r)))"

partial_function (option) fix_file :: "chunker \<Rightarrow> bytes \<Rightarrow> (fault + bytes list) option" where
  "fix_file c rf =
    (let buf = take (unat (readSize c)) rf; eof = length rf < unat (readSize c)
     in if buf = [] then Some (Inr [])
        else Option.bind (fix_chunks c buf) (\<lambda>r.
          case r of
            Inl e \<Rightarrow> Some (Inl e)
          | Inr (cs, left) \<Rightarrow>
              if eof then Some (Inr cs)
              else Option.bind (fix_file c (drop (length buf) rf)) (\<lambda>r'. Some (bindE r' (\<lambda>cs'. Inr (cs @ cs'))))))"

text \<open>The chunks are followed by the head of the recipe.\<close>

definition with_head :: "bytes list \<Rightarrow> data_item list" where
  "with_head cs = map DataChunk cs @ [RecipeEnd (file_head (sum_list (map (\<lambda>m. word_of_nat (length m)) cs)) (word_of_nat (length cs)))]"

definition Chunking :: "chunker \<Rightarrow> bytes \<Rightarrow> (fault + data_item list) option" where
  "Chunking c rf = map_option (\<lambda>r. bindE r (\<lambda>cs. Inr (with_head cs))) (case chunkerType c of FIXED_SIZE_CHUNKING \<Rightarrow> fix_file c rf | FAST_CDC \<Rightarrow> cdc_file c rf)"

section \<open>Bounds of a cut\<close>

lemma cut_loop_bounds: "cut_loop mk src i k fp = Inl cp \<Longrightarrow> i < cp \<and> cp \<le> i + k"
  by (induction mk src i k fp rule: cut_loop.induct) (fastforce simp: Let_def split: if_splits)+

lemma unat_ucast32: "unat (x :: u64) < 2 ^ 32 \<Longrightarrow> unat (ucast x :: u32) = unat x"
  by (simp add: unsigned_ucast_eq take_bit_nat_eq_self)

text \<open>A configuration in which a chunk fits in a message and in the read buffer.\<close>

definition chunker_ok :: "chunker \<Rightarrow> bool" where
  "chunker_ok c \<longleftrightarrow> 0 < unat (avgChunkSize c) \<and> unat (minChunkSize c) < unat (maxChunkSize c) \<and> unat (avgChunkSize c) < unat (maxChunkSize c) \<and>
     unat (maxChunkSize c) \<le> MAX_CHUNK_SIZE \<and> unat (maxChunkSize c) \<le> unat (readSize c) \<and> unat (readSize c) < 2 ^ 32 \<and>
     unat (normalSize c) \<le> unat (maxChunkSize c)"

lemma CutPoint_bounds:
  assumes "chunker_ok c" "src \<noteq> []" "length src < 2 ^ 32"
  shows "0 < CutPoint c src" "CutPoint c src \<le> unat (maxChunkSize c)" "CutPoint c src \<le> length src" "min (length src) (unat (minChunkSize c)) \<le> CutPoint c src"
proof -
  let ?mn = "unat (minChunkSize c)" and ?mx = "unat (maxChunkSize c)" and ?L = "length src" and ?nm = "unat (normalSize c)"
  let ?i0 = "min ?L ?mn" and ?n1 = "min ?nm ?L"
  let ?i1 = "max ?i0 ?n1" and ?n2 = "min ?mx ?L"
  have c: "?mn < ?mx" "?mx < 2 ^ 32" "?nm \<le> ?mx" using assms(1) by (simp_all add: chunker_ok_def MAX_CHUNK_SIZE_def)
  have L: "unat (word_of_nat ?L :: u32) = ?L" using assms(3) by (simp add: unat_of_nat_small)
  have u: "unat (ucast (minChunkSize c) :: u32) = ?mn" "unat (ucast (maxChunkSize c) :: u32) = ?mx" using c by (simp_all add: unat_ucast32)
  have cut: "CutPoint c src = (case cut_loop (maskS c) src ?i0 (?n1 - ?i0) 0 of Inl cp \<Rightarrow> cp
      | Inr fp \<Rightarrow> (case cut_loop (maskL c) src ?i1 (?n2 - ?i1) fp of Inl cp \<Rightarrow> cp | Inr fp' \<Rightarrow> max ?i1 ?n2))"
    unfolding CutPoint_def L u Let_def by (rule refl)
  have pos: "0 < ?L" using assms(2) by simp
  have o: "?i0 \<le> ?n2" "?i1 \<le> ?n2" "?n1 \<le> ?n2" "?i0 \<le> ?i1" "0 < ?n2" using c pos by auto
  have "?i0 \<le> CutPoint c src \<and> CutPoint c src \<le> ?n2 \<and> 0 < CutPoint c src"
  proof (cases "cut_loop (maskS c) src ?i0 (?n1 - ?i0) 0")
    case (Inl cp)
    then have "CutPoint c src = cp" by (simp add: cut)
    then show ?thesis using cut_loop_bounds [OF Inl] o by linarith
  next
    case (Inr fp)
    show ?thesis
    proof (cases "cut_loop (maskL c) src ?i1 (?n2 - ?i1) fp")
      case (Inl cp)
      then have "CutPoint c src = cp" using Inr by (simp add: cut)
      then show ?thesis using cut_loop_bounds [OF Inl] o by linarith
    next
      case (Inr fp')
      then have "CutPoint c src = max ?i1 ?n2" using \<open>cut_loop (maskS c) src ?i0 (?n1 - ?i0) 0 = Inr fp\<close> by (simp add: cut)
      then show ?thesis using o by linarith
    qed
  qed
  then show "0 < CutPoint c src" "CutPoint c src \<le> ?mx" "CutPoint c src \<le> ?L" "?i0 \<le> CutPoint c src" by simp_all
qed

section \<open>The chunks are the file\<close>

definition sizes_ok :: "chunker \<Rightarrow> bytes list \<Rightarrow> bool" where
  "sizes_ok c cs \<longleftrightarrow> (\<forall>m \<in> set cs. m \<noteq> [] \<and> length m \<le> unat (maxChunkSize c))"

definition big_ones :: "chunker \<Rightarrow> bytes list \<Rightarrow> bool" where
  "big_ones c cs \<longleftrightarrow> (\<forall>m \<in> set cs. unat (minChunkSize c) \<le> length m)"

lemma sizes_ok_simps [simp]: "sizes_ok c []" "sizes_ok c (m # cs) \<longleftrightarrow> m \<noteq> [] \<and> length m \<le> unat (maxChunkSize c) \<and> sizes_ok c cs"
  "sizes_ok c (cs @ cs') \<longleftrightarrow> sizes_ok c cs \<and> sizes_ok c cs'" "big_ones c []" "big_ones c (m # cs) \<longleftrightarrow> unat (minChunkSize c) \<le> length m \<and> big_ones c cs"
  "big_ones c (cs @ cs') \<longleftrightarrow> big_ones c cs \<and> big_ones c cs'"
  by (auto simp: sizes_ok_def big_ones_def)

lemma cdc_chunks_ok:
  assumes "chunker_ok c"
  shows "length rest < 2 ^ 32 \<Longrightarrow> \<exists>cs left. cdc_chunks c eof rest = Some (Inr (cs, left)) \<and> rest = concat cs @ left \<and> sizes_ok c cs \<and>
    (if eof then left = [] \<and> big_ones c (butlast cs) else length left < unat (maxChunkSize c) \<and> big_ones c cs)"
proof (induction "length rest" arbitrary: rest rule: less_induct)
  case less
  let ?cp = "CutPoint c rest"
  show ?case
  proof (cases "unat (maxChunkSize c) \<le> length rest \<or> (eof \<and> rest \<noteq> [])")
    case True
    have mx: "0 < unat (maxChunkSize c)" "unat (maxChunkSize c) \<le> MAX_CHUNK_SIZE" using assms by (auto simp: chunker_ok_def)
    then have ne: "rest \<noteq> []" using True by auto
    note b = CutPoint_bounds [OF assms ne less.prems]
    have "length (drop ?cp rest) < length rest" "length (drop ?cp rest) < 2 ^ 32" using b(1) ne less.prems by auto
    from less.hyps [OF this] obtain cs left where r: "cdc_chunks c eof (drop ?cp rest) = Some (Inr (cs, left))" "drop ?cp rest = concat cs @ left" "sizes_ok c cs"
        "if eof then left = [] \<and> big_ones c (butlast cs) else length left < unat (maxChunkSize c) \<and> big_ones c cs" by blast
    have run: "cdc_chunks c eof rest = Some (Inr (take ?cp rest # cs, left))"
      using True r(1) b(2) mx(2) by (simp add: cdc_chunks.simps [of c eof rest] put_chunk_def)
    have "rest = take ?cp rest @ concat cs @ left" unfolding r(2) [symmetric] by simp
    moreover have "unat (minChunkSize c) \<le> length (take ?cp rest)" if "\<not> eof \<or> cs \<noteq> []"
    proof (cases "unat (minChunkSize c) \<le> length rest")
      case True
      then show ?thesis using b(3,4) by simp
    next
      case False
      then have "?cp = length rest" using b(3,4) by simp
      then have "cs = []" using r(2,3) by (cases cs) auto
      moreover have "unat (maxChunkSize c) \<le> length rest" using that \<open>cs = []\<close> \<open>unat (maxChunkSize c) \<le> length rest \<or> eof \<and> rest \<noteq> []\<close> by auto
      ultimately show ?thesis using False assms by (simp add: chunker_ok_def)
    qed
    ultimately show ?thesis using run r(3,4) b(1,2,3) ne by (cases eof) auto
  next
    case False
    then show ?thesis by (auto simp: cdc_chunks.simps [of c eof rest])
  qed
qed

lemma cdc_file_ok:
  assumes "chunker_ok c"
  shows "\<exists>cs. cdc_file c rf = Some (Inr cs) \<and> concat cs = rf \<and> sizes_ok c cs \<and> big_ones c (butlast cs)"
proof (induction "length rf" arbitrary: rf rule: less_induct)
  case less
  let ?n = "unat (readSize c)" and ?mx = "unat (maxChunkSize c)"
  let ?buf = "take ?n rf" and ?eof = "length rf < ?n"
  have n: "?n < 2 ^ 32" "?mx \<le> ?n" "0 < ?mx" using assms by (auto simp: chunker_ok_def)
  show ?case
  proof (cases "rf = []")
    case True
    then show ?thesis by (simp add: cdc_file.simps [of c "[]"])
  next
    case False
    then have ne: "?buf \<noteq> []" using n by simp
    have "length ?buf < 2 ^ 32" using n(1) by simp
    from cdc_chunks_ok [OF assms this, of ?eof] obtain cs left where r: "cdc_chunks c ?eof ?buf = Some (Inr (cs, left))" "?buf = concat cs @ left" "sizes_ok c cs"
        "if ?eof then left = [] \<and> big_ones c (butlast cs) else length left < ?mx \<and> big_ones c cs" by blast
    show ?thesis
    proof (cases ?eof)
      case True
      then have "cdc_file c rf = Some (Inr cs)" using r(1) ne by (simp add: cdc_file.simps [of c rf])
      then show ?thesis using True r by simp
    next
      case False
      let ?k = "length ?buf - length left"
      have k: "?k = length (concat cs)" using arg_cong [OF r(2), of length] by simp
      have "length left < length ?buf" using False r(4) n(2) by simp
      then have "length (drop ?k rf) < length rf" using False n by simp
      from less.hyps [OF this] obtain cs' where r': "cdc_file c (drop ?k rf) = Some (Inr cs')" "concat cs' = drop ?k rf" "sizes_ok c cs'" "big_ones c (butlast cs')"
        by blast
      have "take ?k rf = concat cs" using arg_cong [OF r(2), of "take ?k"] k by (simp add: min_def split: if_splits)
      then have "concat (cs @ cs') = rf" using r'(2) by simp (metis append_take_drop_id)
      moreover have "cdc_file c rf = Some (Inr (cs @ cs'))" using False ne r(1) r'(1) by (simp add: cdc_file.simps [of c rf] Let_def)
      moreover have "big_ones c (butlast (cs @ cs'))" using False r(4) r'(4) by (auto simp: butlast_append big_ones_def dest: in_set_butlastD)
      ultimately show ?thesis using r(3) r'(3) by (intro exI [of _ "cs @ cs'"]) simp
    qed
  qed
qed

lemma fix_chunks_ok:
  assumes "chunker_ok c"
  shows "\<exists>cs. fix_chunks c rest = Some (Inr (cs, [])) \<and> concat cs = rest \<and> sizes_ok c cs"
proof (induction "length rest" arbitrary: rest rule: less_induct)
  case less
  let ?n = "if length rest > unat (avgChunkSize c) then unat (avgChunkSize c) else length rest"
  have av: "0 < unat (avgChunkSize c)" "unat (avgChunkSize c) < unat (maxChunkSize c)" "unat (maxChunkSize c) \<le> MAX_CHUNK_SIZE"
    using assms by (simp_all add: chunker_ok_def)
  show ?case
  proof (cases "rest = []")
    case True
    then show ?thesis by (simp add: fix_chunks.simps [of c "[]"])
  next
    case False
    then have n: "0 < ?n" "?n \<le> length rest" "?n \<le> MAX_CHUNK_SIZE" "?n \<le> unat (maxChunkSize c)" using av by auto
    then have "length (drop ?n rest) < length rest" using False by auto
    from less.hyps [OF this] obtain cs where r: "fix_chunks c (drop ?n rest) = Some (Inr (cs, []))" "concat cs = drop ?n rest" "sizes_ok c cs" by blast
    have "fix_chunks c rest = Some (Inr (take ?n rest # cs, []))"
      unfolding fix_chunks.simps [of c rest] Let_def r(1) using False n(3) by (simp add: put_chunk_def)
    moreover have "concat (take ?n rest # cs) = rest" using r(2) by simp
    moreover have "sizes_ok c (take ?n rest # cs)" using r(3) n(1,2,4) False by simp
    ultimately show ?thesis by blast
  qed
qed

lemma fix_file_ok:
  assumes "chunker_ok c"
  shows "\<exists>cs. fix_file c rf = Some (Inr cs) \<and> concat cs = rf \<and> sizes_ok c cs"
proof (induction "length rf" arbitrary: rf rule: less_induct)
  case less
  let ?n = "unat (readSize c)"
  let ?buf = "take ?n rf"
  have n: "0 < ?n" using assms by (auto simp: chunker_ok_def)
  show ?case
  proof (cases "rf = []")
    case True
    then show ?thesis by (simp add: fix_file.simps [of c "[]"])
  next
    case False
    then have ne: "?buf \<noteq> []" using n by simp
    obtain cs where r: "fix_chunks c ?buf = Some (Inr (cs, []))" "concat cs = ?buf" "sizes_ok c cs" using fix_chunks_ok [OF assms] by blast
    show ?thesis
    proof (cases "length rf < ?n")
      case True
      then show ?thesis using r ne by (simp add: fix_file.simps [of c rf])
    next
      case False
      then have "length (drop (length ?buf) rf) < length rf" using n by simp
      from less.hyps [OF this] obtain cs' where r': "fix_file c (drop (length ?buf) rf) = Some (Inr cs')" "concat cs' = drop (length ?buf) rf" "sizes_ok c cs'" by blast
      have "fix_file c rf = Some (Inr (cs @ cs'))" using False ne r(1) r'(1) by (simp add: fix_file.simps [of c rf] Let_def)
      moreover have "concat (cs @ cs') = rf" using False r(2) r'(2) by simp
      ultimately show ?thesis using r(3) r'(3) by (intro exI [of _ "cs @ cs'"]) simp
    qed
  qed
qed

section \<open>Configurations\<close>

lemma CalNormalSize_le: "CalNormalSize mn av mx \<le> av"
proof -
  have "av - off \<le> av" if "off \<le> av" for off :: u32 using that by (simp add: word_sub_le)
  then show ?thesis by (auto simp: CalNormalSize_def Let_def not_less intro: order_trans less_imp_le)
qed

lemma ChunkerInit_ok:
  assumes "ChunkerInit ty av mn mx rs = Inr c" "unat mx \<le> MAX_CHUNK_SIZE" "0 < unat rs" "unat rs < 4096"
  shows "chunker_ok c" "maxChunkSize c = mx" "minChunkSize c = mn" "chunkerType c = ty"
proof -
  have o: "mn < av" "av < mx" using assms(1) by (auto simp: ChunkerInit_def not_le split: if_splits)
  then have u: "unat mn < unat av" "unat av < unat mx" by (simp_all add: word_less_nat_alt)
  have c: "avgChunkSize c = av" "minChunkSize c = mn" "maxChunkSize c = mx" "chunkerType c = ty" "readSize c = rs * (1024 * 1024)"
      "normalSize c = (if ty = FAST_CDC then CalNormalSize (ucast mn) (ucast av) (ucast mx) else 0)"
    using assms(1) by (auto simp: ChunkerInit_def Let_def split: if_splits)
  have "unat (CalNormalSize (ucast mn) (ucast av) (ucast mx)) \<le> unat (ucast av :: u32)" using CalNormalSize_le by (simp add: word_le_nat_alt)
  also have "\<dots> \<le> unat mx" using u(2) unat_ucast32 [of av] assms(2) by (simp add: MAX_CHUNK_SIZE_def)
  finally have "unat (normalSize c) \<le> unat mx" by (simp add: c)
  moreover have "unat rs * (1024 * 1024) < 2 ^ 64" using assms(4) by simp
  then have r: "unat (readSize c) = unat rs * (1024 * 1024)" by (simp add: c unat_word_ariths)
  then have "unat (readSize c) < 2 ^ 32" "unat mx \<le> unat (readSize c)" using assms(2-4) by (simp_all add: MAX_CHUNK_SIZE_def)
  ultimately show "chunker_ok c" using u assms(2) by (simp add: chunker_ok_def c)
  show "maxChunkSize c = mx" "minChunkSize c = mn" "chunkerType c = ty" by (simp_all add: c)
qed

lemma sum_sizes: "sum_list (map (\<lambda>m. word_of_nat (length m)) cs) = (word_of_nat (length (concat cs)) :: u64)"
  by (induction cs) simp_all

lemma Chunking_ok:
  assumes "ChunkerInit ty av mn mx rs = Inr c" "unat mx \<le> MAX_CHUNK_SIZE" "0 < unat rs" "unat rs < 4096"
  shows "\<exists>cs. Chunking c rf = Some (Inr (map DataChunk cs @ [RecipeEnd (file_head (word_of_nat (length rf)) (word_of_nat (length cs)))])) \<and>
    concat cs = rf \<and> (\<forall>m \<in> set cs. m \<noteq> [] \<and> length m \<le> unat mx) \<and> (ty = FAST_CDC \<longrightarrow> (\<forall>m \<in> set (butlast cs). unat mn \<le> length m))"
proof -
  note k = ChunkerInit_ok [OF assms]
  have "\<exists>cs. (case ty of FIXED_SIZE_CHUNKING \<Rightarrow> fix_file c rf | FAST_CDC \<Rightarrow> cdc_file c rf) = Some (Inr cs) \<and> concat cs = rf \<and> sizes_ok c cs \<and>
      (ty = FAST_CDC \<longrightarrow> big_ones c (butlast cs))"
    using fix_file_ok [OF k(1), of rf] cdc_file_ok [OF k(1), of rf] by (cases ty) auto
  then obtain cs where cs: "(case ty of FIXED_SIZE_CHUNKING \<Rightarrow> fix_file c rf | FAST_CDC \<Rightarrow> cdc_file c rf) = Some (Inr cs)" "concat cs = rf" "sizes_ok c cs"
      "ty = FAST_CDC \<longrightarrow> big_ones c (butlast cs)" by blast
  have "Chunking c rf = Some (Inr (with_head cs))" using cs(1) by (simp add: Chunking_def k(4))
  then show ?thesis using cs(2-4) by (intro exI [of _ cs]) (auto simp: with_head_def sum_sizes sizes_ok_def big_ones_def k(2,3))
qed

text \<open>
  C37: FastCDC and fixed-size chunking. With a configuration that \<open>ChunkerInit\<close> accepts, whose maximum is at
  most \<open>MAX_CHUNK_SIZE\<close> and whose read size is 1 to 4095 MB, chunking ends on every file, and the chunks put
  into the queue are the file: joined in order they give every byte once. No chunk is empty or longer than
  the maximum, FastCDC cuts only the last one shorter than the minimum, and the head behind them holds the
  size of the file and the number of the chunks. (\<open>ChunkerInit\<close> also accepts a read size of 0, with which
  no byte of the file is read, and a larger maximum, with which a chunk overruns its buffer.)
\<close>

theorem Chunking_correct:
  assumes "ChunkerInit ty av mn mx rs = Inr c" "unat mx \<le> MAX_CHUNK_SIZE" "0 < unat rs" "unat rs < 4096"
  shows "\<exists>cs. Chunking c rf = Some (Inr (map DataChunk cs @ [RecipeEnd (file_head (word_of_nat (length rf)) (word_of_nat (length cs)))])) \<and>
    concat cs = rf \<and> (\<forall>m \<in> set cs. m \<noteq> [] \<and> length m \<le> unat mx) \<and> (ty = FAST_CDC \<longrightarrow> (\<forall>m \<in> set (butlast cs). unat mn \<le> length m))"
  by (rule Chunking_ok [OF assms])

definition config_chunker :: chunker where
  "config_chunker = \<lparr>chunkerType = FAST_CDC, avgChunkSize = 8192, minChunkSize = 4096, maxChunkSize = 16384, readSize = 134217728,
     normalSize = 2048, maskS = 16383, maskL = 4095\<rparr>"

lemma config_init: "ChunkerInit FAST_CDC 8192 4096 16384 128 = Inr config_chunker"
  by code_simp

theorem Chunking_correct_witness:
  "\<exists>cs. Chunking config_chunker [1, 2, 3] = Some (Inr (map DataChunk cs @ [RecipeEnd (file_head 3 (word_of_nat (length cs)))])) \<and> concat cs = [1, 2, 3]"
proof -
  have "unat (16384 :: u64) \<le> MAX_CHUNK_SIZE" "0 < unat (128 :: u64)" "unat (128 :: u64) < 4096" by (simp_all add: MAX_CHUNK_SIZE_def)
  from Chunking_correct [OF config_init this, of "[1, 2, 3]"] show ?thesis by auto
qed

lemma unat_DivCeil2:
  fixes a :: u32
  assumes "unat a < 2 ^ 31"
  shows "unat (DivCeil a 2) = (unat a + 1) div 2"
proof -
  have m: "unat (a mod 2) = unat a mod 2" "unat (a div 2) = unat a div 2" using unat_mod [of a 2] unat_div [of a 2] by simp_all
  have z: "a mod 2 = 0 \<longleftrightarrow> unat a mod 2 = 0" using m(1) by (metis unat_eq_zero)
  have "unat (a div 2 + 1) = unat a div 2 + 1" using assms by (simp add: unat_word_ariths m)
  moreover have "unat a mod 2 = 0 \<or> unat a mod 2 = 1" by auto
  ultimately show ?thesis unfolding DivCeil_def z using m(2) by (auto simp: split: if_splits) presburger+
qed

lemma CalNormalSize_bound:
  assumes "unat mn < 2 ^ 30" "2 * unat av \<le> 5 * unat mn"
  shows "unat (CalNormalSize mn av mx) \<le> unat mn"
proof -
  let ?off = "mn + DivCeil mn 2"
  have "unat ?off = unat mn + (unat mn + 1) div 2" using assms(1) unat_DivCeil2 [of mn] by (simp add: unat_word_ariths)
  then have "unat (av - (if ?off > av then av else ?off)) \<le> unat mn"
    using assms(2) by (auto simp: not_less unat_sub)
  then show ?thesis by (auto simp: CalNormalSize_def Let_def word_less_nat_alt)
qed

text \<open>
  C38: the normal size counts from the start of the chunk, as the minimum does. Where the average
  is at most two and a half times the minimum, the normal size is not above the minimum, so the
  first loop of \<open>CutPoint\<close> never runs: cut points do not depend on the stricter mask. The
  configuration of the program (4096, 8192, 16384) is such a case.
\<close>

theorem strict_mask_unused:
  assumes "ChunkerInit FAST_CDC av mn mx rs = Inr c" "unat mx \<le> MAX_CHUNK_SIZE" "2 * unat av \<le> 5 * unat mn" "length src < 2 ^ 32"
  shows "CutPoint (c\<lparr>maskS := m\<rparr>) src = CutPoint c src"
proof -
  have o: "unat mn < unat av" "unat av < unat mx" using assms(1) by (auto simp: ChunkerInit_def not_le word_less_nat_alt split: if_splits)
  have small: "unat av < 2 ^ 14" "unat mn < 2 ^ 14" "unat mx < 2 ^ 32" using o assms(2) by (simp_all add: MAX_CHUNK_SIZE_def)
  let ?mn = "ucast mn :: u32" and ?av = "ucast av :: u32"
  have u: "unat ?mn = unat mn" "unat ?av = unat av" using small by (simp_all add: unat_ucast32)
  have c: "minChunkSize c = mn" "normalSize c = CalNormalSize ?mn ?av (ucast mx)" using assms(1) by (auto simp: ChunkerInit_def Let_def split: if_splits)
  have "unat (CalNormalSize ?mn ?av (ucast mx)) \<le> unat mn" using CalNormalSize_bound [of ?mn ?av] small(2) assms(3) by (simp add: u)
  then have "unat (normalSize c) \<le> unat (ucast (minChunkSize c) :: u32)" using u by (simp add: c)
  then have "min (unat (normalSize c)) k - min k (unat (ucast (minChunkSize c) :: u32)) = 0" for k by simp
  then show ?thesis by (simp add: CutPoint_def Let_def)
qed

theorem strict_mask_unused_witness:
  "CutPoint (config_chunker\<lparr>maskS := 0\<rparr>) [1, 2, 3] = CutPoint config_chunker [1, 2, 3]"
proof -
  have "unat (16384 :: u64) \<le> MAX_CHUNK_SIZE" "2 * unat (8192 :: u64) \<le> 5 * unat (4096 :: u64)" by (simp_all add: MAX_CHUNK_SIZE_def)
  from strict_mask_unused [OF config_init this] show ?thesis by simp
qed

end
