(* ===== verification/Restore.thy ===== *)
theory Restore
  imports Session
begin

text \<open>
  Restoring a file (\<open>ecallRecvDecoder.cc\<close>, \<open>enclaveRecvDecoder.cc\<close>): the recipe is read batch by
  batch, the addresses of its fingerprints are looked up, containers are collected until sixteen
  are needed, and then the chunks are read from them, deltas with their bases, and sent.
\<close>

section \<open>State\<close>

text \<open>An entry of the recipe inside the enclave. Its \<open>basechunkHash\<close> is written but never read and left out.\<close>

record EnclaveRecipeEntry =
  er_containerID :: nat
  er_offset :: u32
  er_length :: u32
  er_deltaFlag :: byte

datatype restore_msg =
  SERVER_RESTORE_CHUNK nat bytes
| SERVER_RESTORE_FINAL nat bytes

text \<open>
  The client inside (\<open>enclaveRecipeBuffer\<close>, \<open>baseRecipeBuffer\<close>, the chunks not yet sent) and outside
  the enclave (the identifiers of the containers, the queries for base chunks, the containers),
  and the messages sent. \<open>idCap\<close> is the number of identifiers the buffer has room for.
\<close>

record restore_st =
  idCap :: nat
  idBuffer :: bytes
  idNum :: nat
  baseQuery :: "OutQueryEntry list"
  baseQueryNum :: nat
  enclaveRecipeBuffer :: "EnclaveRecipeEntry list"
  baseRecipeBuffer :: "EnclaveRecipeEntry list"
  req :: req_st
  restoreData :: bytes
  restoreItemNum :: nat
  sent :: "restore_msg list"

definition CONTAINERARRAY_VALUE :: nat where "CONTAINERARRAY_VALUE = 50"
definition BASE_QUERY_SIZE :: nat where "BASE_QUERY_SIZE = 5"

text \<open>\<open>ClientVar::InitRestoreBuffer\<close> and \<open>EnclaveClient::InitRestoreBuffer\<close>, with the content of fresh memory.\<close>

definition InitRestoreBuffer :: "nat \<Rightarrow> bytes list \<Rightarrow> OutQueryEntry list \<Rightarrow> restore_st" where
  "InitRestoreBuffer readCacheSize slots queries =
    \<lparr>idCap = CONTAINER_CAPPING_VALUE, idBuffer = [], idNum = 0, baseQuery = take BASE_QUERY_SIZE queries, baseQueryNum = 0,
     enclaveRecipeBuffer = [], baseRecipeBuffer = [],
     req = \<lparr>containerArray = take CONTAINERARRAY_VALUE slots, containerCache = ReadCache_new readCacheSize, cacheHits = 0,
       readFromContainerFileNum = 0\<rparr>,
     restoreData = [], restoreItemNum = 0, sent = []\<rparr>"

section \<open>One chunk\<close>

text \<open>
  \<open>ed3_decode\<close>: the decoded chunk is first written to a buffer of twice the size of delta and
  base together.
\<close>

definition ed3_decode :: "bytes \<Rightarrow> bytes \<Rightarrow> fault + bytes" where
  "ed3_decode delta ref =
    bindE (of_edelta (EDeltaDecode delta (length delta) ref)) (\<lambda>m.
      if 2 * (length delta + length ref) < length m then Inl WriteOutside else Inr m)"

text \<open>The ciphertext of a chunk in a container slot, and its IV behind it; the stack buffers hold \<open>MAX_CHUNK_SIZE\<close> bytes.\<close>

definition decrypt_at :: "enclave \<Rightarrow> req_st \<Rightarrow> EnclaveRecipeEntry \<Rightarrow> fault + bytes" where
  "decrypt_at E rq r =
    (if length (containerArray rq) \<le> er_containerID r then Inl ReadOutside
     else case read_chunk (containerArray rq ! er_containerID r) (er_offset r) (er_length r) of
       None \<Rightarrow> Inl ReadOutside
     | Some (c, iv) \<Rightarrow> if MAX_CHUNK_SIZE < length c then Inl WriteOutside
         else DecryptionWithKeyIV (ssl E) CIPHER_TYPE (enclaveKey E) iv c)"

text \<open>A chunk is appended to the output as its size and its content.\<close>

definition append_chunk :: "enclave \<Rightarrow> bytes \<Rightarrow> restore_st \<Rightarrow> fault + restore_st" where
  "append_chunk E m st =
    (if sendChunkBatchSize E * (4 + MAX_CHUNK_SIZE) < length (restoreData st) + 4 + length m then Inl WriteOutside
     else Inr (st\<lparr>restoreData := restoreData st @ le32 (word_of_nat (length m)) @ m, restoreItemNum := Suc (restoreItemNum st)\<rparr>))"

text \<open>A base chunk is decompressed into the output itself, with room for \<open>MAX_CHUNK_SIZE\<close> bytes.\<close>

definition RecoverOneChunk :: "enclave \<Rightarrow> EnclaveRecipeEntry \<Rightarrow> restore_st \<Rightarrow> fault + restore_st" where
  "RecoverOneChunk E r st =
    bindE (decrypt_at E (req st) r) (\<lambda>p.
      if sendChunkBatchSize E * (4 + MAX_CHUNK_SIZE) < length (restoreData st) + 4 + MAX_CHUNK_SIZE then Inl WriteOutside
      else append_chunk E (unlz E p) st)"

definition restore_delta :: "enclave \<Rightarrow> EnclaveRecipeEntry \<Rightarrow> EnclaveRecipeEntry \<Rightarrow> restore_st \<Rightarrow> fault + restore_st" where
  "restore_delta E r rb st =
    bindE (decrypt_at E (req st) r) (\<lambda>d.
    bindE (decrypt_at E (req st) rb) (\<lambda>b.
    bindE (ed3_decode d (unlz E b)) (\<lambda>m. append_chunk E m st)))"

text \<open>One entry of the recipe; \<open>bidx\<close> counts the bases that were used.\<close>

definition restore_one :: "enclave \<Rightarrow> EnclaveRecipeEntry \<Rightarrow> nat \<times> restore_st \<Rightarrow> fault + nat \<times> restore_st" where
  "restore_one E r s =
    (let (bidx, st) = s
     in if er_deltaFlag r = delta_code DELTA then
          if length (baseRecipeBuffer st) \<le> bidx then Inl ReadOutside
          else bindE (restore_delta E r (baseRecipeBuffer st ! bidx) st) (\<lambda>st'. Inr (Suc bidx, st'))
        else bindE (RecoverOneChunk E r st) (\<lambda>st'. Inr (bidx, st')))"

text \<open>The output is encrypted with the session key and sent.\<close>

definition send_restore :: "enclave \<Rightarrow> bool \<Rightarrow> restore_st \<Rightarrow> fault + restore_st" where
  "send_restore E final st =
    bindE (SessionKeyEnc (ssl E) (sessionKey E) (restoreData st)) (\<lambda>c.
      Inr (st\<lparr>sent := sent st @ [if final then SERVER_RESTORE_FINAL (restoreItemNum st) c else SERVER_RESTORE_CHUNK (restoreItemNum st) c],
        restoreData := [], restoreItemNum := 0\<rparr>))"

section \<open>Collecting containers\<close>

text \<open>\<open>tmpContainerMap\<close> gives the number of a container that was seen in this batch of the recipe.\<close>

type_synonym con_map = "container_name \<rightharpoonup> nat"

definition add_container :: "container_name \<Rightarrow> con_map \<times> restore_st \<Rightarrow> fault + nat \<times> con_map \<times> restore_st" where
  "add_container name s =
    (let (cm, st) = s
     in case cm name of
          Some i \<Rightarrow> Inr (i, cm, st)
        | None \<Rightarrow> bindE (memcpyE (idCap st * CONTAINER_ID_LENGTH) (idBuffer st) (idNum st * CONTAINER_ID_LENGTH) name) (\<lambda>b.
            Inr (idNum st, cm(name \<mapsto> idNum st), st\<lparr>idBuffer := b, idNum := Suc (idNum st)\<rparr>)))"

text \<open>
  The addresses of the queried bases, as the index outside returns them. The tail batch also
  leaves the decrypted address in the query entry.
\<close>

definition resolve_base :: "enclave \<Rightarrow> bool \<Rightarrow> nat \<Rightarrow> con_map \<times> restore_st \<Rightarrow> fault + con_map \<times> restore_st" where
  "resolve_base E tail i s =
    (let (cm, st) = s
     in bindE (AESCBCDec (ssl E) (indexQueryKey E) (o_chunkAddr (baseQuery st ! i))) (\<lambda>p.
        let a = entry_of p;
            st1 = (if tail then st\<lparr>baseQuery := (baseQuery st)[i := (baseQuery st ! i)\<lparr>o_chunkAddr := p\<rparr>]\<rparr> else st)
        in bindE (add_container (containerName a) (cm, st1)) (\<lambda>(n, cm', st2).
             Inr (cm', st2\<lparr>baseRecipeBuffer := baseRecipeBuffer st2 @
               [\<lparr>er_containerID = n, er_offset = addr_offset a, er_length = addr_length a, er_deltaFlag = deltaFlag a\<rparr>]\<rparr>))))"

definition resolve_bases :: "enclave \<Rightarrow> InMemoryDatabase \<Rightarrow> bool \<Rightarrow> con_map \<times> restore_st \<Rightarrow> fault + con_map \<times> restore_st" where
  "resolve_bases E db tail s =
    (let (cm, st) = s
     in foldE (resolve_base E tail) [0..<baseQueryNum st]
          (cm, st\<lparr>baseQuery := Ocall_QueryBaseIndex db (baseQueryNum st) (baseQuery st)\<rparr>))"

text \<open>The base of a delta is queried; five queries at a time go to the index.\<close>

definition put_query :: "fp \<Rightarrow> nat \<Rightarrow> restore_st \<Rightarrow> restore_st" where
  "put_query basefp i st = st\<lparr>baseQuery := (baseQuery st)[i := (baseQuery st ! i)\<lparr>o_chunkHash := basefp\<rparr>], baseQueryNum := Suc i\<rparr>"

definition query_delta :: "enclave \<Rightarrow> InMemoryDatabase \<Rightarrow> fp \<Rightarrow> con_map \<times> restore_st \<Rightarrow> fault + con_map \<times> restore_st" where
  "query_delta E db basefp s =
    (let (cm, st) = s
     in if baseQueryNum st < BASE_QUERY_SIZE then Inr (cm, put_query basefp (baseQueryNum st) st)
        else bindE (resolve_bases E db False (cm, st)) (\<lambda>(cm', st'). Inr (cm', put_query basefp 0 st')))"

section \<open>A batch of the recipe\<close>

text \<open>When sixteen containers may be needed the chunks collected so far are restored.\<close>

definition restore_and_send :: "enclave \<Rightarrow> nat \<times> restore_st \<Rightarrow> EnclaveRecipeEntry \<Rightarrow> fault + nat \<times> restore_st" where
  "restore_and_send E s r =
    bindE (restore_one E r s) (\<lambda>(bidx, st).
    bindE (if restoreItemNum st mod sendChunkBatchSize E = 0 then send_restore E False st else Inr st) (\<lambda>st'. Inr (bidx, st')))"

definition restore_round :: "enclave \<Rightarrow> InMemoryDatabase \<Rightarrow> string \<Rightarrow> disk \<Rightarrow> con_map \<times> restore_st \<Rightarrow> fault + con_map \<times> restore_st" where
  "restore_round E db t d s =
    bindE (if baseQueryNum (snd s) \<noteq> 0
           then bindE (resolve_bases E db False s) (\<lambda>(cm, st). Inr (cm, st\<lparr>baseQueryNum := 0\<rparr>)) else Inr s) (\<lambda>(cm, st).
    bindE (GetReqContainers t d (idBuffer st) (idNum st) (req st)) (\<lambda>rq.
    bindE (foldE (\<lambda>r s. restore_and_send E s r) (enclaveRecipeBuffer st) (0, st\<lparr>req := rq\<rparr>)) (\<lambda>(bidx, st').
      Inr (Map.empty, st'\<lparr>idNum := 0, enclaveRecipeBuffer := [], baseRecipeBuffer := [], baseQueryNum := 0\<rparr>))))"

text \<open>One entry: its address is decrypted, its base queried, its container added.\<close>

definition proc_entry ::
  "enclave \<Rightarrow> InMemoryDatabase \<Rightarrow> string \<Rightarrow> disk \<Rightarrow> bytes \<Rightarrow> nat \<Rightarrow> con_map \<times> restore_st \<Rightarrow> fault + con_map \<times> restore_st" where
  "proc_entry E db t d fileRecipes i s =
    bindE (AESCBCDec (ssl E) (indexQueryKey E) (seg (i * RECIPE_ENTRY_SIZE) RECIPE_ENTRY_SIZE fileRecipes)) (\<lambda>p.
    let a = entry_of p
    in bindE (if deltaFlag a = delta_code DELTA then query_delta E db (basechunkHash a) s else Inr s) (\<lambda>s1.
       bindE (add_container (containerName a) s1) (\<lambda>(n, cm, st).
       let st' = st\<lparr>enclaveRecipeBuffer := enclaveRecipeBuffer st @
             [\<lparr>er_containerID = n, er_offset = addr_offset a, er_length = addr_length a, er_deltaFlag = deltaFlag a\<rparr>]\<rparr>
       in if CONTAINER_CAPPING_VALUE \<le> idNum st' + baseQueryNum st' then restore_round E db t d (cm, st') else Inr (cm, st'))))"

fun index_keys :: "enclave \<Rightarrow> nat \<Rightarrow> bytes \<Rightarrow> fault + bytes" where
  "index_keys E 0 fps = Inr []"
| "index_keys E (Suc n) fps =
    bindE (IndexAESCMCEnc (ssl E) (indexQueryKey E) (take CHUNK_HASH_SIZE fps)) (\<lambda>k.
    bindE (index_keys E n (drop CHUNK_HASH_SIZE fps)) (\<lambda>ks. Inr (k @ ks)))"

definition ProcRecipeBatch ::
  "enclave \<Rightarrow> InMemoryDatabase \<Rightarrow> string \<Rightarrow> disk \<Rightarrow> bytes \<Rightarrow> nat \<Rightarrow> restore_st \<Rightarrow> fault + restore_st" where
  "ProcRecipeBatch E db t d recipeBuffer num st =
    bindE (DecryptWithKey (ssl E) CIPHER_TYPE (masterKey E) (take (num * CHUNK_HASH_SIZE) recipeBuffer)) (\<lambda>fps.
    bindE (index_keys E num fps) (\<lambda>keys.
    bindE (foldE (proc_entry E db t d (Ocall_ReadIndexStoreBatch num keys db)) [0..<num] (Map.empty, st)) (\<lambda>(cm, st').
      Inr st')))"

section \<open>The tail batch\<close>

fun restore_tail :: "enclave \<Rightarrow> EnclaveRecipeEntry list \<Rightarrow> nat \<times> restore_st \<Rightarrow> fault + restore_st" where
  "restore_tail E [] s = Inr (snd s)"
| "restore_tail E (r # rs) s =
    bindE (restore_one E r s) (\<lambda>(bidx, st).
    bindE (if restoreItemNum st mod sendChunkBatchSize E = 0 \<or> rs = [] then send_restore E (rs = []) st else Inr st) (\<lambda>st'.
      restore_tail E rs (bidx, st')))"

definition ProcRecipeTailBatch :: "enclave \<Rightarrow> InMemoryDatabase \<Rightarrow> string \<Rightarrow> disk \<Rightarrow> restore_st \<Rightarrow> fault + restore_st" where
  "ProcRecipeTailBatch E db t d st =
    (if enclaveRecipeBuffer st \<noteq> [] then
       bindE (resolve_bases E db True (Map.empty, st)) (\<lambda>(cm, st1).
       let st2 = st1\<lparr>baseQueryNum := 0\<rparr>
       in bindE (GetReqContainers t d (idBuffer st2) (idNum st2) (req st2)) (\<lambda>rq.
          restore_tail E (enclaveRecipeBuffer st2) (0, st2\<lparr>req := rq\<rparr>)))
     else send_restore E True st)"

section \<open>The whole restore\<close>

text \<open>\<open>EnclaveRecvDecoder::Run\<close>: the recipe file behind its head is read until its end.\<close>

function recipe_loop :: "enclave \<Rightarrow> InMemoryDatabase \<Rightarrow> string \<Rightarrow> disk \<Rightarrow> bytes \<Rightarrow> restore_st \<Rightarrow> fault + restore_st" where
  "recipe_loop E db t d file st =
    (let n = CHUNK_HASH_SIZE * sendRecipeBatchSize E; readRecipeBuf = take n file
     in if readRecipeBuf = [] then Inr st
        else bindE (ProcRecipeBatch E db t d readRecipeBuf (length readRecipeBuf div CHUNK_HASH_SIZE) st) (\<lambda>st'.
             if length readRecipeBuf < n then Inr st' else recipe_loop E db t d (drop n file) st'))"
  by pat_completeness auto

termination recipe_loop
  by (relation "measure (\<lambda>(E, db, t, d, file, st). length file)") (auto simp: Let_def)

declare recipe_loop.simps [simp del]

definition RecvDecoder_Run :: "enclave \<Rightarrow> InMemoryDatabase \<Rightarrow> string \<Rightarrow> disk \<Rightarrow> bytes \<Rightarrow> restore_st \<Rightarrow> fault + restore_st" where
  "RecvDecoder_Run E db t d file st = bindE (recipe_loop E db t d file st) (ProcRecipeTailBatch E db t d)"

end
