(* ===== verification/RestoreCorrect.thy ===== *)
theory RestoreCorrect
  imports Restore
begin

text \<open>
  Restoring gives back what was uploaded: the invariants of the restore path (identifiers,
  pending entries and bases, output) and the theorem about a whole file.
\<close>

section \<open>Container identifiers\<close>

definition id_at :: "restore_st \<Rightarrow> nat \<Rightarrow> container_name" where
  "id_at st i = seg (i * CONTAINER_ID_LENGTH) CONTAINER_ID_LENGTH (idBuffer st)"

definition id_inv :: "(container_name \<Rightarrow> bytes option) \<Rightarrow> restore_st \<Rightarrow> bool" where
  "id_inv w st \<longleftrightarrow> idNum st * CONTAINER_ID_LENGTH \<le> length (idBuffer st) \<and> (\<forall>i < idNum st. w (id_at st i) \<noteq> None)"

definition map_inv :: "con_map \<Rightarrow> restore_st \<Rightarrow> bool" where
  "map_inv cm st \<longleftrightarrow> (\<forall>n i. cm n = Some i \<longrightarrow> i < idNum st \<and> id_at st i = n)"

text \<open>Identifiers are only added.\<close>

definition ids_le :: "restore_st \<Rightarrow> restore_st \<Rightarrow> bool" where
  "ids_le st st' \<longleftrightarrow> idNum st \<le> idNum st' \<and> (\<forall>i < idNum st. id_at st' i = id_at st i)"

definition er_for :: "restore_st \<Rightarrow> RecipeEntry \<Rightarrow> EnclaveRecipeEntry \<Rightarrow> bool" where
  "er_for st a r \<longleftrightarrow> er_containerID r < idNum st \<and> id_at st (er_containerID r) = containerName a \<and>
     er_offset r = addr_offset a \<and> er_length r = addr_length a \<and> er_deltaFlag r = deltaFlag a"

lemma ids_le_refl: "ids_le st st"
  by (simp add: ids_le_def)

lemma ids_le_trans: "ids_le a b \<Longrightarrow> ids_le b c \<Longrightarrow> ids_le a c"
  by (simp add: ids_le_def)

lemma er_for_mono: "ids_le st st' \<Longrightarrow> er_for st a r \<Longrightarrow> er_for st' a r"
  by (auto simp: ids_le_def er_for_def)

lemma same_ids:
  assumes "idBuffer st' = idBuffer st" "idNum st' = idNum st"
  shows "id_at st' = id_at st" "id_inv w st' = id_inv w st" "map_inv cm st' = map_inv cm st" "er_for st' = er_for st"
    "ids_le st' x = ids_le st x" "ids_le x st' = ids_le x st"
proof -
  show i: "id_at st' = id_at st" by (simp add: fun_eq_iff id_at_def assms)
  show "id_inv w st' = id_inv w st" "map_inv cm st' = map_inv cm st" "er_for st' = er_for st"
    "ids_le st' x = ids_le st x" "ids_le x st' = ids_le x st"
    by (simp_all add: id_inv_def map_inv_def er_for_def ids_le_def fun_eq_iff i assms)
qed

lemma id_at_put:
  assumes "idNum st * CONTAINER_ID_LENGTH \<le> length (idBuffer st)" "length name = CONTAINER_ID_LENGTH"
    "b = put (idBuffer st) (idNum st * CONTAINER_ID_LENGTH) name"
  shows "id_at (st\<lparr>idBuffer := b, idNum := n\<rparr>) (idNum st) = name"
    "i < idNum st \<Longrightarrow> id_at (st\<lparr>idBuffer := b, idNum := n\<rparr>) i = id_at st i"
    "Suc (idNum st) * CONTAINER_ID_LENGTH \<le> length b"
proof -
  let ?L = "CONTAINER_ID_LENGTH"
  show "id_at (st\<lparr>idBuffer := b, idNum := n\<rparr>) (idNum st) = name"
    using assms by (simp add: id_at_def seg_def put_def)
  show "id_at (st\<lparr>idBuffer := b, idNum := n\<rparr>) i = id_at st i" if "i < idNum st"
  proof -
    have "Suc i * ?L \<le> idNum st * ?L" using that by (intro mult_le_mono1) simp
    then have "i * ?L + ?L \<le> idNum st * ?L" by simp
    with assms(1) show ?thesis by (simp add: id_at_def assms(3) seg_put_before)
  qed
  show "Suc (idNum st) * ?L \<le> length b" using assms by (simp add: put_def)
qed

lemma add_container_ok:
  assumes "id_inv w st" "map_inv cm st" "length name = CONTAINER_ID_LENGTH" "w name \<noteq> None" "idNum st < idCap st"
  shows "\<exists>n cm' b k. add_container name (cm, st) = Inr (n, cm', st\<lparr>idBuffer := b, idNum := k\<rparr>) \<and>
    id_inv w (st\<lparr>idBuffer := b, idNum := k\<rparr>) \<and> map_inv cm' (st\<lparr>idBuffer := b, idNum := k\<rparr>) \<and>
    ids_le st (st\<lparr>idBuffer := b, idNum := k\<rparr>) \<and> n < k \<and> id_at (st\<lparr>idBuffer := b, idNum := k\<rparr>) n = name \<and> k \<le> Suc (idNum st)"
proof (cases "cm name")
  case (Some i)
  then have i: "i < idNum st" "id_at st i = name" using assms(2) by (auto simp: map_inv_def)
  have "st\<lparr>idBuffer := idBuffer st, idNum := idNum st\<rparr> = st" by simp
  with Some i assms(1,2) ids_le_refl [of st] show ?thesis
    by (intro exI [of _ i] exI [of _ cm] exI [of _ "idBuffer st"] exI [of _ "idNum st"]) (simp add: add_container_def)
next
  case None
  let ?L = "CONTAINER_ID_LENGTH" and ?k = "Suc (idNum st)"
  define b where "b = put (idBuffer st) (idNum st * ?L) name"
  let ?st = "st\<lparr>idBuffer := b, idNum := ?k\<rparr>"
  have sz: "idNum st * ?L \<le> length (idBuffer st)" using assms(1) by (simp add: id_inv_def)
  have "?k * ?L \<le> idCap st * ?L" using assms(5) by (intro mult_le_mono1) simp
  then have "memcpyE (idCap st * ?L) (idBuffer st) (idNum st * ?L) name = Inr b"
    using sz assms(3) unfolding b_def by (intro memcpyE_ok) simp_all
  then have run: "add_container name (cm, st) = Inr (idNum st, cm(name \<mapsto> idNum st), ?st)" using None by (simp add: add_container_def)
  note p = id_at_put [OF sz assms(3) b_def]
  have "id_inv w ?st" using assms(1,4) p by (auto simp: id_inv_def less_Suc_eq)
  moreover have "map_inv (cm(name \<mapsto> idNum st)) ?st" using assms(2) p(1,2) by (auto simp: map_inv_def less_SucI)
  moreover have "ids_le st ?st" using p(2) by (simp add: ids_le_def)
  ultimately show ?thesis using run p(1) by blast
qed

section \<open>What is located where\<close>

text \<open>The address of a chunk, and of the base of a delta, in the index and the container files.\<close>

definition located :: "enclave \<Rightarrow> bytes set \<Rightarrow> (container_name \<Rightarrow> bytes option) \<Rightarrow> InMemoryDatabase \<Rightarrow> bytes \<times> RecipeEntry \<Rightarrow> bool" where
  "located E S w db p \<longleftrightarrow> (case p of (m, a) \<Rightarrow>
     addr_at E db (keyof E m) a \<and> (base_chunk E w a m \<or> delta_chunk E S w db a m))"

definition base_of :: "enclave \<Rightarrow> bytes set \<Rightarrow> (container_name \<Rightarrow> bytes option) \<Rightarrow> InMemoryDatabase \<Rightarrow> bytes \<times> RecipeEntry \<Rightarrow> RecipeEntry \<Rightarrow> bool" where
  "base_of E S w db p ab \<longleftrightarrow> (case p of (m, a) \<Rightarrow> \<exists>mb \<in> S. \<exists>d. addr_at E db (basechunkHash a) ab \<and> basechunkHash a = keyof E mb \<and>
     base_chunk E w ab mb \<and> stored E w a d \<and> length d \<le> length m \<and> EDeltaDecode d (length d) (base_text E mb) = Inr m)"

abbreviation is_delta :: "bytes \<times> RecipeEntry \<Rightarrow> bool" where
  "is_delta p \<equiv> deltaFlag (snd p) = delta_code DELTA"

lemma located_chunk: "db_inv E S w db \<Longrightarrow> m \<in> S \<Longrightarrow> \<exists>a. located E S w db (m, a)"
  by (auto simp: db_inv_def chunk_at_def located_def)

lemma located_base: "located E S w db p \<Longrightarrow> \<not> is_delta p \<Longrightarrow> base_chunk E w (snd p) (fst p)"
  by (auto simp: located_def delta_chunk_def split: prod.splits)

lemma located_delta:
  assumes "located E S w db p" "is_delta p"
  shows "\<exists>ab. base_of E S w db p ab"
proof -
  obtain m a where p: "p = (m, a)" by (cases p)
  have "\<not> base_chunk E w a m" using assms(2) by (simp add: p base_chunk_def)
  then obtain mb d where d: "mb \<in> S" "basechunkHash a = keyof E mb" "base_at E w db mb" "stored E w a d" "length d \<le> length m"
      "EDeltaDecode d (length d) (base_text E mb) = Inr m" using assms(1) by (auto simp: p located_def delta_chunk_def)
  then obtain ab where "addr_at E db (basechunkHash a) ab" "base_chunk E w ab mb" by (auto simp: base_at_def)
  with d have "base_of E S w db (m, a) ab" unfolding base_of_def by blast
  then show ?thesis unfolding p by blast
qed

lemma located_name:
  assumes "located E S w db p"
  shows "length (containerName (snd p)) = CONTAINER_ID_LENGTH" "w (containerName (snd p)) \<noteq> None"
  using assms by (auto simp: located_def addr_at_def entry_wf_def base_chunk_def delta_chunk_def stored_def split: prod.splits)

lemma base_of_name:
  assumes "base_of E S w db p ab"
  shows "length (containerName ab) = CONTAINER_ID_LENGTH" "w (containerName ab) \<noteq> None"
  using assms by (auto simp: base_of_def addr_at_def entry_wf_def base_chunk_def stored_def split: prod.splits)

section \<open>Reading the containers\<close>

text \<open>Slot \<open>i\<close> starts with the container of identifier \<open>i\<close>.\<close>

definition slots_ok :: "(container_name \<Rightarrow> bytes option) \<Rightarrow> restore_st \<Rightarrow> bool" where
  "slots_ok w st \<longleftrightarrow> idNum st \<le> length (containerArray (req st)) \<and>
     (\<forall>i < idNum st. \<forall>f. w (id_at st i) = Some f \<longrightarrow> take (length f) (containerArray (req st) ! i) = f)"

lemma decrypt_at_ok:
  assumes "slots_ok w st" "er_for st a r" "stored E w a p" "length p \<le> MAX_CHUNK_SIZE"
  shows "decrypt_at E (req st) r = Inr p"
proof -
  let ?i = "er_containerID r"
  have r: "?i < idNum st" "id_at st ?i = containerName a" "er_offset r = addr_offset a" "er_length r = addr_length a"
    using assms(2) by (simp_all add: er_for_def)
  obtain f where f: "w (containerName a) = Some f" using assms(3) by (auto simp: stored_def)
  have s: "?i < length (containerArray (req st))" "take (length f) (containerArray (req st) ! ?i) = f"
    using assms(1) r(1,2) f by (auto simp: slots_ok_def)
  from stored_read [OF assms(3) f s(2)] obtain c iv where
      c: "read_chunk (containerArray (req st) ! ?i) (addr_offset a) (addr_length a) = Some (c, iv)" "unat (addr_length a) = length p"
        "DecryptionWithKeyIV (ssl E) CIPHER_TYPE (enclaveKey E) iv c = Inr p" by blast
  then show ?thesis using s(1) r(3,4) assms(4) read_chunk_length [OF c(1)] by (simp add: decrypt_at_def)
qed

section \<open>The output\<close>

text \<open>A message that the client decrypts to the chunks \<open>xs\<close>.\<close>

definition carries :: "enclave \<Rightarrow> bytes list \<Rightarrow> restore_msg \<Rightarrow> bool" where
  "carries E xs msg \<longleftrightarrow> length xs \<le> sendChunkBatchSize E \<and> (\<exists>c. msg = SERVER_RESTORE_CHUNK (length xs) c \<and> client_SessionKeyDec (ssl E) (sessionKey E) c = Inr (frames xs))"

definition carries_final :: "enclave \<Rightarrow> bytes list \<Rightarrow> restore_msg \<Rightarrow> bool" where
  "carries_final E xs msg \<longleftrightarrow> length xs \<le> sendChunkBatchSize E \<and> (\<exists>c. msg = SERVER_RESTORE_FINAL (length xs) c \<and> client_SessionKeyDec (ssl E) (sessionKey E) c = Inr (frames xs))"

definition out_inv :: "enclave \<Rightarrow> bytes list \<Rightarrow> restore_st \<Rightarrow> bool" where
  "out_inv E dn st \<longleftrightarrow> (\<forall>x \<in> set dn. chunk_ok x) \<and>
     (\<exists>xss xs. dn = concat xss @ xs \<and> list_all2 (carries E) xss (sent st) \<and> restoreData st = frames xs \<and>
        restoreItemNum st = length xs \<and> length xs < sendChunkBatchSize E)"

text \<open>All chunks were sent, the last ones with the final message.\<close>

definition all_sent :: "enclave \<Rightarrow> bytes list \<Rightarrow> restore_st \<Rightarrow> bool" where
  "all_sent E ms st \<longleftrightarrow> (\<exists>xss xs msgs msg. ms = concat xss @ xs \<and> sent st = msgs @ [msg] \<and> list_all2 (carries E) xss msgs \<and> carries_final E xs msg)"

definition out_le :: "restore_st \<Rightarrow> restore_st \<Rightarrow> bool" where
  "out_le st st' \<longleftrightarrow> st'\<lparr>restoreData := [], restoreItemNum := 0, sent := []\<rparr> = st\<lparr>restoreData := [], restoreItemNum := 0, sent := []\<rparr>"

lemma out_le_trans: "out_le a b \<Longrightarrow> out_le b c \<Longrightarrow> out_le a c"
  by (simp add: out_le_def)

lemma out_le_refl: "out_le st st"
  by (simp add: out_le_def)

lemma out_le_same:
  assumes "out_le st st'"
  shows "idBuffer st' = idBuffer st" "idNum st' = idNum st" "req st' = req st" "baseRecipeBuffer st' = baseRecipeBuffer st"
    "er_for st' = er_for st" "slots_ok w st' = slots_ok w st"
proof -
  note e = assms [unfolded out_le_def]
  show f: "idBuffer st' = idBuffer st" "idNum st' = idNum st" "req st' = req st" "baseRecipeBuffer st' = baseRecipeBuffer st"
    using arg_cong [OF e, of idBuffer] arg_cong [OF e, of idNum] arg_cong [OF e, of req] arg_cong [OF e, of baseRecipeBuffer] by simp_all
  show "er_for st' = er_for st" "slots_ok w st' = slots_ok w st" using same_ids [OF f(1,2)] by (simp_all add: slots_ok_def f)
qed

definition appended :: "bytes \<Rightarrow> restore_st \<Rightarrow> restore_st" where
  "appended m st = st\<lparr>restoreData := restoreData st @ frame m, restoreItemNum := Suc (restoreItemNum st)\<rparr>"

lemma out_inv_room:
  assumes "out_inv E dn st"
  shows "length (restoreData st) + 4 + MAX_CHUNK_SIZE \<le> sendChunkBatchSize E * (4 + MAX_CHUNK_SIZE)"
proof -
  obtain xss xs where x: "dn = concat xss @ xs" "restoreData st = frames xs" "length xs < sendChunkBatchSize E" "\<forall>x \<in> set dn. chunk_ok x"
    using assms by (auto simp: out_inv_def)
  have "length (frames xs) + (4 + MAX_CHUNK_SIZE) \<le> Suc (length xs) * (4 + MAX_CHUNK_SIZE)" using length_frames [of xs] x(1,4) by simp
  also have "\<dots> \<le> sendChunkBatchSize E * (4 + MAX_CHUNK_SIZE)" using x(3) by (intro mult_le_mono1) simp
  finally show ?thesis using x(2) by simp
qed

lemma append_chunk_ok:
  assumes "out_inv E dn st" "chunk_ok m"
  shows "append_chunk E m st = Inr (appended m st)"
  using out_inv_room [OF assms(1)] assms(2) by (simp add: append_chunk_def appended_def frame_def chunk_ok_def)

lemma send_restore_ok:
  assumes "evp_ok (ssl E)"
  shows "\<exists>c. send_restore E final st = Inr (st\<lparr>sent := sent st @ [if final then SERVER_RESTORE_FINAL (restoreItemNum st) c
      else SERVER_RESTORE_CHUNK (restoreItemNum st) c], restoreData := [], restoreItemNum := 0\<rparr>) \<and>
    client_SessionKeyDec (ssl E) (sessionKey E) c = Inr (restoreData st)"
  using session_down [OF assms, of "sessionKey E" "restoreData st"] by (auto simp: send_restore_def)

lemma send_full:
  assumes "evp_ok (ssl E)" "out_inv E dn st" "chunk_ok m"
  shows "\<exists>st'. (if restoreItemNum (appended m st) mod sendChunkBatchSize E = 0 then send_restore E False (appended m st) else Inr (appended m st)) = Inr st' \<and>
    out_le st st' \<and> out_inv E (dn @ [m]) st'"
proof -
  obtain xss xs where x: "dn = concat xss @ xs" "list_all2 (carries E) xss (sent st)" "restoreData st = frames xs" "restoreItemNum st = length xs"
      "length xs < sendChunkBatchSize E" "\<forall>x \<in> set dn. chunk_ok x"
    using assms(2) by (auto simp: out_inv_def)
  let ?st = "appended m st" and ?xs = "xs @ [m]"
  have a: "restoreData ?st = frames ?xs" "restoreItemNum ?st = length ?xs" "sent ?st = sent st" using x by (simp_all add: appended_def)
  have le: "out_le st ?st" by (simp add: out_le_def appended_def)
  show ?thesis
  proof (cases "length ?xs = sendChunkBatchSize E")
    case True
    then have full: "restoreItemNum ?st mod sendChunkBatchSize E = 0" by (simp only: a mod_self)
    obtain c where c: "send_restore E False ?st = Inr (?st\<lparr>sent := sent st @ [SERVER_RESTORE_CHUNK (length ?xs) c], restoreData := [], restoreItemNum := 0\<rparr>)"
        "client_SessionKeyDec (ssl E) (sessionKey E) c = Inr (frames ?xs)"
      using send_restore_ok [OF assms(1), of False ?st] by (auto simp: a)
    let ?st' = "?st\<lparr>sent := sent st @ [SERVER_RESTORE_CHUNK (length ?xs) c], restoreData := [], restoreItemNum := 0\<rparr>"
    have "list_all2 (carries E) (xss @ [?xs]) (sent ?st')" using x(2) c(2) True by (auto simp: carries_def intro!: list_all2_appendI)
    then have "out_inv E (dn @ [m]) ?st'" unfolding out_inv_def using x(1,6) assms(3) True
      by (intro conjI exI [of _ "xss @ [?xs]"] exI [of _ "[]"]) auto
    moreover have "out_le st ?st'" using le by (simp add: out_le_def)
    ultimately show ?thesis using full c(1) by (intro exI [of _ ?st']) simp
  next
    case False
    then have lt: "length ?xs < sendChunkBatchSize E" using x(5) by simp
    then have "restoreItemNum ?st mod sendChunkBatchSize E \<noteq> 0" by (simp add: a)
    moreover have "out_inv E (dn @ [m]) ?st" unfolding out_inv_def using x(1,2,6) assms(3) a lt
      by (intro conjI exI [of _ xss] exI [of _ ?xs]) auto
    ultimately show ?thesis using le by (intro exI [of _ ?st]) simp
  qed
qed

section \<open>Restoring the collected chunks\<close>

text \<open>
  What the restore path takes for granted of a chunk, at the address the index has for it: a chunk
  stored whole is not mistaken for compressed data, and a chunk stored as a delta is at most twice as long as
  the delta and its base together.
\<close>

definition clear_chunk :: "enclave \<Rightarrow> bytes set \<Rightarrow> (container_name \<Rightarrow> bytes option) \<Rightarrow> InMemoryDatabase \<Rightarrow> bytes \<Rightarrow> bool" where
  "clear_chunk E S w db m \<longleftrightarrow> chunk_ok m \<and> (\<forall>a. addr_at E db (keyof E m) a \<longrightarrow>
     (if deltaFlag a = delta_code DELTA
      then \<forall>mb \<in> S. \<forall>d. basechunkHash a = keyof E mb \<and> stored E w a d \<longrightarrow> length m \<le> 2 * (length d + length (base_text E mb))
      else base_text E m = m))"

lemma clear_chunkI:
  "chunk_ok m \<Longrightarrow> base_text E m = m \<Longrightarrow> \<forall>mb \<in> S. length m \<le> 2 * length (base_text E mb) \<Longrightarrow> clear_chunk E S w db m"
  unfolding clear_chunk_def by (fastforce split: if_splits)

definition pending :: "enclave \<Rightarrow> bytes set \<Rightarrow> (container_name \<Rightarrow> bytes option) \<Rightarrow> InMemoryDatabase \<Rightarrow> restore_st \<Rightarrow> bytes \<times> RecipeEntry \<Rightarrow> EnclaveRecipeEntry \<Rightarrow> bool" where
  "pending E S w db st p r \<longleftrightarrow> located E S w db p \<and> clear_chunk E S w db (fst p) \<and> er_for st (snd p) r"

definition base_pending :: "enclave \<Rightarrow> bytes set \<Rightarrow> (container_name \<Rightarrow> bytes option) \<Rightarrow> InMemoryDatabase \<Rightarrow> restore_st \<Rightarrow> bytes \<times> RecipeEntry \<Rightarrow> EnclaveRecipeEntry \<Rightarrow> bool" where
  "base_pending E S w db st p r \<longleftrightarrow> (\<exists>ab. base_of E S w db p ab \<and> er_for st ab r)"

lemma restore_one_ok:
  assumes "lz4_ok E" "\<forall>mb \<in> S. chunk_ok mb" "slots_ok w st" "out_inv E dn st" "pending E S w db st p r"
    "list_all2 (base_pending E S w db st) (filter is_delta (p # ps)) (drop bidx (baseRecipeBuffer st))"
  shows "\<exists>bidx'. restore_one E r (bidx, st) = Inr (bidx', appended (fst p) st) \<and>
    list_all2 (base_pending E S w db st) (filter is_delta ps) (drop bidx' (baseRecipeBuffer st))"
proof -
  obtain m a where p: "p = (m, a)" by (cases p)
  have l: "located E S w db p" "chunk_ok m" "er_for st a r" "clear_chunk E S w db m"
    using assms(5) unfolding pending_def p by (simp_all, simp add: clear_chunk_def)
  have at: "addr_at E db (keyof E m) a" using l(1) by (simp add: located_def p)
  have flag: "er_deltaFlag r = deltaFlag a" using l(3) by (simp add: er_for_def)
  show ?thesis
  proof (cases "is_delta p")
    case False
    then have "stored E w a (plain_for E m)" using located_base [OF l(1)] by (simp add: p base_chunk_def)
    then have "decrypt_at E (req st) r = Inr (plain_for E m)"
      using decrypt_at_ok [OF assms(3) l(3)] length_plain_for [OF assms(1)] l(2) by (simp add: chunk_ok_def)
    moreover have "base_text E m = m" using l(4) at False by (auto simp: clear_chunk_def p)
    ultimately have "RecoverOneChunk E r st = Inr (appended m st)"
      using out_inv_room [OF assms(4)] append_chunk_ok [OF assms(4) l(2)] by (simp add: RecoverOneChunk_def base_text_def)
    then show ?thesis using False flag assms(6) by (simp add: restore_one_def p)
  next
    case True
    then obtain rb where rb: "bidx < length (baseRecipeBuffer st)" "rb = baseRecipeBuffer st ! bidx" "base_pending E S w db st p rb"
        "list_all2 (base_pending E S w db st) (filter is_delta ps) (drop (Suc bidx) (baseRecipeBuffer st))"
      using assms(6) by (cases "bidx < length (baseRecipeBuffer st)") (auto simp: Cons_nth_drop_Suc [symmetric])
    then obtain ab mb d where b: "er_for st ab rb" "mb \<in> S" "base_chunk E w ab mb" "stored E w a d" "length d \<le> length m"
        "EDeltaDecode d (length d) (base_text E mb) = Inr m" "basechunkHash a = keyof E mb" by (auto simp: base_pending_def base_of_def p)
    have "decrypt_at E (req st) r = Inr d"
      using decrypt_at_ok [OF assms(3) l(3) b(4)] b(5) l(2) by (simp add: chunk_ok_def)
    moreover have "decrypt_at E (req st) rb = Inr (plain_for E mb)"
      using decrypt_at_ok [OF assms(3) b(1)] b(3) length_plain_for [OF assms(1), of mb] assms(2) b(2) by (simp add: base_chunk_def chunk_ok_def)
    moreover have "length m \<le> 2 * (length d + length (base_text E mb))"
      using l(4) at True b(2,4,7) unfolding clear_chunk_def p snd_conv by (metis (full_types))
    then have "ed3_decode d (unlz E (plain_for E mb)) = Inr m"
      using b(6) by (simp add: ed3_decode_def of_edelta_def base_text_def)
    ultimately have "restore_delta E r rb st = Inr (appended m st)"
      using append_chunk_ok [OF assms(4) l(2)] by (simp add: restore_delta_def)
    then show ?thesis using True flag rb by (simp add: restore_one_def p)
  qed
qed

lemma pending_same: "out_le st st' \<Longrightarrow> pending E S w db st' = pending E S w db st" "out_le st st' \<Longrightarrow> base_pending E S w db st' = base_pending E S w db st"
  by (simp_all add: fun_eq_iff pending_def base_pending_def out_le_same)

lemma restore_all_ok:
  assumes "evp_ok (ssl E)" "lz4_ok E" "\<forall>mb \<in> S. chunk_ok mb"
  shows "list_all2 (pending E S w db st) ps rs \<Longrightarrow> slots_ok w st \<Longrightarrow> out_inv E dn st \<Longrightarrow>
    list_all2 (base_pending E S w db st) (filter is_delta ps) (drop bidx (baseRecipeBuffer st)) \<Longrightarrow>
    \<exists>bidx' st'. foldE (\<lambda>r s. restore_and_send E s r) rs (bidx, st) = Inr (bidx', st') \<and> out_le st st' \<and> out_inv E (dn @ map fst ps) st'"
proof (induction ps arbitrary: rs st dn bidx)
  case Nil
  then show ?case using out_le_refl by auto
next
  case (Cons p ps)
  obtain r rs' where rs: "rs = r # rs'" "pending E S w db st p r" "list_all2 (pending E S w db st) ps rs'"
    using Cons.prems(1) by (auto simp: list_all2_Cons1)
  obtain b1 where b1: "restore_one E r (bidx, st) = Inr (b1, appended (fst p) st)"
      "list_all2 (base_pending E S w db st) (filter is_delta ps) (drop b1 (baseRecipeBuffer st))"
    using restore_one_ok [OF assms(2,3) Cons.prems(2,3) rs(2) Cons.prems(4)] by blast
  have "chunk_ok (fst p)" using rs(2) by (simp add: pending_def clear_chunk_def)
  from send_full [OF assms(1) Cons.prems(3) this] obtain st1 where
      st1: "(if restoreItemNum (appended (fst p) st) mod sendChunkBatchSize E = 0 then send_restore E False (appended (fst p) st)
          else Inr (appended (fst p) st)) = Inr st1" "out_le st st1" "out_inv E (dn @ [fst p]) st1" by blast
  have step: "restore_and_send E (bidx, st) r = Inr (b1, st1)" using b1(1) st1(1) by (simp add: restore_and_send_def)
  have "list_all2 (pending E S w db st1) ps rs'" "slots_ok w st1"
      "list_all2 (base_pending E S w db st1) (filter is_delta ps) (drop b1 (baseRecipeBuffer st1))"
    using rs(3) b1(2) Cons.prems(2) by (simp_all add: pending_same [OF st1(2)] out_le_same [OF st1(2)])
  from Cons.IH [OF this(1,2) st1(3) this(3)] obtain b2 st2 where
      "foldE (\<lambda>r s. restore_and_send E s r) rs' (b1, st1) = Inr (b2, st2)" "out_le st1 st2" "out_inv E ((dn @ [fst p]) @ map fst ps) st2" by blast
  with step rs(1) out_le_trans [OF st1(2)] show ?case by auto
qed

section \<open>The bases of deltas\<close>

text \<open>What collecting does not touch.\<close>

definition coll :: "restore_st \<Rightarrow> nat \<times> EnclaveRecipeEntry list \<times> req_st \<times> bytes \<times> nat \<times> restore_msg list" where
  "coll st = (idCap st, enclaveRecipeBuffer st, req st, restoreData st, restoreItemNum st, sent st)"

definition queried :: "enclave \<Rightarrow> bytes set \<Rightarrow> (container_name \<Rightarrow> bytes option) \<Rightarrow> InMemoryDatabase \<Rightarrow> bytes \<times> RecipeEntry \<Rightarrow> OutQueryEntry \<Rightarrow> bool" where
  "queried E S w db p e \<longleftrightarrow> located E S w db p \<and> is_delta p \<and> o_chunkHash e = basechunkHash (snd p)"

definition answered :: "enclave \<Rightarrow> bytes set \<Rightarrow> (container_name \<Rightarrow> bytes option) \<Rightarrow> InMemoryDatabase \<Rightarrow> bytes \<times> RecipeEntry \<Rightarrow> OutQueryEntry \<Rightarrow> bool" where
  "answered E S w db p e \<longleftrightarrow> (\<exists>ab. base_of E S w db p ab \<and> entry_wf ab \<and>
     AESCBCDec (ssl E) (indexQueryKey E) (o_chunkAddr e) = Inr (entry_image ab))"

lemma answered_query:
  assumes "evp_ok (ssl E)" "db_inv E S w db" "queried E S w db p e"
  shows "answered E S w db p (case QueryBuffer (o_chunkHash e) CHUNK_HASH_SIZE db of
      Some a \<Rightarrow> e\<lparr>o_chunkAddr := take RECIPE_ENTRY_SIZE a\<rparr> | None \<Rightarrow> e)"
proof -
  obtain m a where p: "p = (m, a)" by (cases p)
  obtain ab where ab: "base_of E S w db p ab" using located_delta [of E S w db p] assms(3) unfolding queried_def by blast
  then obtain mb v where v: "basechunkHash a = keyof E mb" "entry_wf ab" "indexObj db (basechunkHash a) = Some v"
      "AESCBCDec (ssl E) (indexQueryKey E) v = Inr (entry_image ab)" by (auto simp: base_of_def addr_at_def p)
  have "length v = RECIPE_ENTRY_SIZE" by (rule index_value [OF assms(2) v(3)])
  moreover have "QueryBuffer (o_chunkHash e) CHUNK_HASH_SIZE db = Some v"
    using assms(3) v(1,3) length_keyof [OF assms(1), of mb] by (simp add: queried_def p QueryBuffer_def Query_def)
  ultimately show ?thesis using ab v(2,4) by (auto simp: answered_def)
qed

lemma base_queries:
  assumes "evp_ok (ssl E)" "db_inv E S w db" "list_all2 (queried E S w db) qs (take n es)" "n \<le> length es"
  shows "list_all2 (answered E S w db) qs (take n (Ocall_QueryBaseIndex db n es))"
proof -
  let ?f = "\<lambda>e. case QueryBuffer (o_chunkHash e) CHUNK_HASH_SIZE db of Some a \<Rightarrow> e\<lparr>o_chunkAddr := take RECIPE_ENTRY_SIZE a\<rparr> | None \<Rightarrow> e"
  have "take n (Ocall_QueryBaseIndex db n es) = map ?f (take n es)"
    using assms(4) by (simp add: Ocall_QueryBaseIndex_def first_entries_def)
  with assms(3) answered_query [OF assms(1,2)] show ?thesis by (auto simp: list_all2_map2 elim!: list_all2_mono)
qed

lemma resolve_base_ok:
  assumes "id_inv w st" "map_inv cm st" "idNum st < idCap st" "answered E S w db p (baseQuery st ! i)"
  shows "\<exists>cm' st' r. resolve_base E tail i (cm, st) = Inr (cm', st') \<and> id_inv w st' \<and> map_inv cm' st' \<and> ids_le st st' \<and>
    idNum st' \<le> Suc (idNum st) \<and> coll st' = coll st \<and> baseQueryNum st' = baseQueryNum st \<and>
    length (baseQuery st') = length (baseQuery st) \<and> drop (Suc i) (baseQuery st') = drop (Suc i) (baseQuery st) \<and>
    baseRecipeBuffer st' = baseRecipeBuffer st @ [r] \<and> base_pending E S w db st' p r"
proof -
  obtain ab where ab: "base_of E S w db p ab" "entry_wf ab" "AESCBCDec (ssl E) (indexQueryKey E) (o_chunkAddr (baseQuery st ! i)) = Inr (entry_image ab)"
    using assms(4) by (auto simp: answered_def)
  have im: "entry_of (entry_image ab) = ab" using entry_of_image [OF ab(2), of "[]"] by simp
  define st1 where "st1 = (if tail then st\<lparr>baseQuery := (baseQuery st)[i := (baseQuery st ! i)\<lparr>o_chunkAddr := entry_image ab\<rparr>]\<rparr> else st)"
  have f: "idBuffer st1 = idBuffer st" "idNum st1 = idNum st" "idCap st1 = idCap st" "coll st1 = coll st" "baseQueryNum st1 = baseQueryNum st"
      "baseRecipeBuffer st1 = baseRecipeBuffer st" "length (baseQuery st1) = length (baseQuery st)"
      "drop (Suc i) (baseQuery st1) = drop (Suc i) (baseQuery st)"
    by (simp_all add: st1_def coll_def)
  note same = same_ids [OF f(1,2)]
  obtain n cm' b k where c: "add_container (containerName ab) (cm, st1) = Inr (n, cm', st1\<lparr>idBuffer := b, idNum := k\<rparr>)"
      "id_inv w (st1\<lparr>idBuffer := b, idNum := k\<rparr>)" "map_inv cm' (st1\<lparr>idBuffer := b, idNum := k\<rparr>)" "ids_le st1 (st1\<lparr>idBuffer := b, idNum := k\<rparr>)"
      "n < k" "id_at (st1\<lparr>idBuffer := b, idNum := k\<rparr>) n = containerName ab" "k \<le> Suc (idNum st1)"
    using add_container_ok [of w st1 cm "containerName ab"] assms(1-3) base_of_name [OF ab(1)] by (auto simp: same f)
  let ?r = "\<lparr>er_containerID = n, er_offset = addr_offset ab, er_length = addr_length ab, er_deltaFlag = deltaFlag ab\<rparr>"
  let ?st2 = "st1\<lparr>idBuffer := b, idNum := k\<rparr>"
  let ?st' = "?st2\<lparr>baseRecipeBuffer := baseRecipeBuffer st1 @ [?r]\<rparr>"
  have s': "idBuffer ?st' = idBuffer ?st2" "idNum ?st' = idNum ?st2" by simp_all
  note same' = same_ids [OF s']
  have "er_for ?st' ab ?r" unfolding same' using c(5,6) by (simp add: er_for_def)
  then have "base_pending E S w db ?st' p ?r" using ab(1) by (auto simp: base_pending_def)
  moreover have "resolve_base E tail i (cm, st) = Inr (cm', ?st')"
    using ab(3) im c(1) by (simp add: resolve_base_def st1_def [symmetric] Let_def)
  moreover have "id_inv w ?st'" "map_inv cm' ?st'" "ids_le st ?st'"
    using c(2-4) unfolding same' same by simp_all
  moreover have "idNum ?st' \<le> Suc (idNum st)" "coll ?st' = coll st" "baseQueryNum ?st' = baseQueryNum st" "length (baseQuery ?st') = length (baseQuery st)"
      "drop (Suc i) (baseQuery ?st') = drop (Suc i) (baseQuery st)" "baseRecipeBuffer ?st' = baseRecipeBuffer st @ [?r]"
    using c(7) f by (simp_all add: coll_def)
  ultimately show ?thesis by blast
qed

lemma base_pending_mono: "ids_le st st' \<Longrightarrow> base_pending E S w db st p r \<Longrightarrow> base_pending E S w db st' p r"
  by (auto simp: base_pending_def intro: er_for_mono)

lemma pending_mono: "ids_le st st' \<Longrightarrow> pending E S w db st p r \<Longrightarrow> pending E S w db st' p r"
  by (auto simp: pending_def intro: er_for_mono)

lemma resolve_loop:
  assumes "id_inv w st" "map_inv cm st" "idNum st + n \<le> idCap st" "list_all2 (answered E S w db) qs (take n (baseQuery st))" "n \<le> length (baseQuery st)"
  shows "i \<le> n \<Longrightarrow> \<exists>cm' st' rs. foldE (resolve_base E tail) [0..<i] (cm, st) = Inr (cm', st') \<and> id_inv w st' \<and> map_inv cm' st' \<and> ids_le st st' \<and>
    idNum st' \<le> idNum st + i \<and> coll st' = coll st \<and> baseQueryNum st' = baseQueryNum st \<and> length (baseQuery st') = length (baseQuery st) \<and>
    drop i (baseQuery st') = drop i (baseQuery st) \<and> baseRecipeBuffer st' = baseRecipeBuffer st @ rs \<and>
    list_all2 (base_pending E S w db st') (take i qs) rs"
proof (induction i)
  case 0
  then show ?case using assms(1,2) ids_le_refl by auto
next
  case (Suc i)
  then obtain cm1 st1 rs where s1: "foldE (resolve_base E tail) [0..<i] (cm, st) = Inr (cm1, st1)" "id_inv w st1" "map_inv cm1 st1" "ids_le st st1"
      "idNum st1 \<le> idNum st + i" "coll st1 = coll st" "baseQueryNum st1 = baseQueryNum st" "length (baseQuery st1) = length (baseQuery st)"
      "drop i (baseQuery st1) = drop i (baseQuery st)" "baseRecipeBuffer st1 = baseRecipeBuffer st @ rs"
      "list_all2 (base_pending E S w db st1) (take i qs) rs" by auto
  have i: "i < n" "i < length (baseQuery st)" using Suc.prems assms(5) by simp_all
  have q: "i < length qs" "answered E S w db (qs ! i) (baseQuery st ! i)"
    using assms(4) i by (auto simp: list_all2_conv_all_nth)
  have "baseQuery st1 ! i = baseQuery st ! i" using s1(8,9) i(2) by (metis hd_drop_conv_nth)
  moreover have "idNum st1 < idCap st1" using s1(5,6) assms(3) i(1) by (simp add: coll_def)
  ultimately obtain cm2 st2 r where s2: "resolve_base E tail i (cm1, st1) = Inr (cm2, st2)" "id_inv w st2" "map_inv cm2 st2" "ids_le st1 st2"
      "idNum st2 \<le> Suc (idNum st1)" "coll st2 = coll st1" "baseQueryNum st2 = baseQueryNum st1" "length (baseQuery st2) = length (baseQuery st1)"
      "drop (Suc i) (baseQuery st2) = drop (Suc i) (baseQuery st1)" "baseRecipeBuffer st2 = baseRecipeBuffer st1 @ [r]"
      "base_pending E S w db st2 (qs ! i) r"
    using resolve_base_ok [OF s1(2,3), where tail = tail] q(2) by metis
  have "list_all2 (base_pending E S w db st2) (take i qs) rs" using s1(11) by (rule list_all2_mono) (rule base_pending_mono [OF s2(4)])
  then have "list_all2 (base_pending E S w db st2) (take (Suc i) qs) (rs @ [r])"
    using q(1) s2(11) by (simp add: take_Suc_conv_app_nth list_all2_appendI)
  moreover have "drop (Suc i) (baseQuery st2) = drop (Suc i) (baseQuery st)"
    using s1(9) s2(9) by (metis drop_drop plus_1_eq_Suc)
  ultimately show ?case using s1 s2 ids_le_trans [OF s1(4) s2(4)] by (auto simp: foldE_append)
qed

lemma resolve_bases_ok:
  assumes "evp_ok (ssl E)" "db_inv E S w db" "id_inv w st" "map_inv cm st" "idNum st + baseQueryNum st \<le> idCap st"
    "list_all2 (queried E S w db) qs (take (baseQueryNum st) (baseQuery st))" "baseQueryNum st \<le> length (baseQuery st)"
  shows "\<exists>cm' st' rs. resolve_bases E db tail (cm, st) = Inr (cm', st') \<and> id_inv w st' \<and> map_inv cm' st' \<and> ids_le st st' \<and>
    idNum st' \<le> idNum st + baseQueryNum st \<and> coll st' = coll st \<and> baseQueryNum st' = baseQueryNum st \<and> length (baseQuery st') = length (baseQuery st) \<and>
    baseRecipeBuffer st' = baseRecipeBuffer st @ rs \<and> list_all2 (base_pending E S w db st') qs rs"
proof -
  let ?n = "baseQueryNum st"
  define st1 where "st1 = st\<lparr>baseQuery := Ocall_QueryBaseIndex db ?n (baseQuery st)\<rparr>"
  have f: "idBuffer st1 = idBuffer st" "idNum st1 = idNum st" "idCap st1 = idCap st" "coll st1 = coll st" "baseQueryNum st1 = ?n"
      "baseRecipeBuffer st1 = baseRecipeBuffer st"
    by (simp_all add: st1_def coll_def)
  have lq: "length (baseQuery st1) = length (baseQuery st)" by (simp add: st1_def Ocall_QueryBaseIndex_def first_entries_def)
  have "list_all2 (answered E S w db) qs (take ?n (baseQuery st1))"
    using base_queries [OF assms(1,2,6,7)] by (simp add: st1_def)
  moreover have "length qs = ?n" using assms(6,7) by (simp add: list_all2_conv_all_nth)
  ultimately show ?thesis
    using resolve_loop [of w st1 cm ?n E S db qs ?n tail] assms(3-5,7) lq f
    by (auto simp: resolve_bases_def st1_def [symmetric] same_ids [OF f(1,2)])
qed

text \<open>The bases of the deltas \<open>ds\<close> are resolved or queried.\<close>

definition bases_inv :: "enclave \<Rightarrow> bytes set \<Rightarrow> (container_name \<Rightarrow> bytes option) \<Rightarrow> InMemoryDatabase \<Rightarrow> (bytes \<times> RecipeEntry) list \<Rightarrow> restore_st \<Rightarrow> bool" where
  "bases_inv E S w db ds st \<longleftrightarrow> baseQueryNum st \<le> BASE_QUERY_SIZE \<and> length (baseQuery st) = BASE_QUERY_SIZE \<and>
     (\<exists>rs qs. ds = rs @ qs \<and> list_all2 (base_pending E S w db st) rs (baseRecipeBuffer st) \<and>
        list_all2 (queried E S w db) qs (take (baseQueryNum st) (baseQuery st)))"

lemma resolve_all:
  assumes "evp_ok (ssl E)" "db_inv E S w db" "id_inv w st" "map_inv cm st" "idNum st + baseQueryNum st \<le> idCap st" "bases_inv E S w db ds st"
  shows "\<exists>cm' st'. resolve_bases E db tail (cm, st) = Inr (cm', st') \<and> id_inv w st' \<and> map_inv cm' st' \<and> ids_le st st' \<and>
    idNum st' \<le> idNum st + baseQueryNum st \<and> coll st' = coll st \<and> length (baseQuery st') = BASE_QUERY_SIZE \<and>
    list_all2 (base_pending E S w db st') ds (baseRecipeBuffer st')"
proof -
  obtain rs qs where q: "ds = rs @ qs" "list_all2 (base_pending E S w db st) rs (baseRecipeBuffer st)"
      "list_all2 (queried E S w db) qs (take (baseQueryNum st) (baseQuery st))" "baseQueryNum st \<le> length (baseQuery st)" "length (baseQuery st) = BASE_QUERY_SIZE"
    using assms(6) by (auto simp: bases_inv_def)
  obtain cm' st' rs' where s: "resolve_bases E db tail (cm, st) = Inr (cm', st')" "id_inv w st'" "map_inv cm' st'" "ids_le st st'"
      "idNum st' \<le> idNum st + baseQueryNum st" "coll st' = coll st" "length (baseQuery st') = length (baseQuery st)"
      "baseRecipeBuffer st' = baseRecipeBuffer st @ rs'" "list_all2 (base_pending E S w db st') qs rs'"
    using resolve_bases_ok [OF assms(1-5) q(3,4)] by metis
  have "list_all2 (base_pending E S w db st') rs (baseRecipeBuffer st)" using q(2) by (rule list_all2_mono) (rule base_pending_mono [OF s(4)])
  then have "list_all2 (base_pending E S w db st') ds (baseRecipeBuffer st')" using s(8,9) q(1) by (simp add: list_all2_appendI)
  with s q(5) show ?thesis by (intro exI [of _ cm'] exI [of _ st']) simp
qed

lemma put_query_same:
  "idBuffer (put_query h i x) = idBuffer x" "idNum (put_query h i x) = idNum x" "coll (put_query h i x) = coll x"
  "baseQueryNum (put_query h i x) = Suc i" "baseRecipeBuffer (put_query h i x) = baseRecipeBuffer x" "length (baseQuery (put_query h i x)) = length (baseQuery x)"
  by (simp_all add: put_query_def coll_def)

lemma put_query_inv:
  assumes "i < BASE_QUERY_SIZE" "length (baseQuery st) = BASE_QUERY_SIZE" "located E S w db p" "is_delta p"
    "list_all2 (base_pending E S w db st) rs (baseRecipeBuffer st)" "list_all2 (queried E S w db) qs (take i (baseQuery st))"
  shows "bases_inv E S w db ((rs @ qs) @ [p]) (put_query (basechunkHash (snd p)) i st)"
proof -
  let ?st = "put_query (basechunkHash (snd p)) i st"
  have "list_all2 (queried E S w db) (qs @ [p]) (take (Suc i) (baseQuery ?st))"
    using assms by (auto simp: put_query_def take_Suc_conv_app_nth queried_def intro!: list_all2_appendI)
  moreover have "base_pending E S w db ?st = base_pending E S w db st"
    by (simp add: fun_eq_iff base_pending_def same_ids [OF put_query_same(1,2)])
  ultimately show ?thesis unfolding bases_inv_def using assms
    by (intro conjI exI [of _ rs] exI [of _ "qs @ [p]"]) (simp_all add: put_query_same)
qed

lemma query_delta_ok:
  assumes "evp_ok (ssl E)" "db_inv E S w db" "id_inv w st" "map_inv cm st" "idNum st + baseQueryNum st \<le> 15" "16 \<le> idCap st" "bases_inv E S w db ds st"
    "located E S w db p" "is_delta p"
  shows "\<exists>cm' st'. query_delta E db (basechunkHash (snd p)) (cm, st) = Inr (cm', st') \<and> id_inv w st' \<and> map_inv cm' st' \<and> ids_le st st' \<and>
    idNum st' + baseQueryNum st' \<le> 16 \<and> idNum st' \<le> 15 \<and> coll st' = coll st \<and> bases_inv E S w db (ds @ [p]) st'"
proof -
  let ?h = "basechunkHash (snd p)" and ?L = "BASE_QUERY_SIZE"
  note same = same_ids [OF put_query_same(1,2)]
  have b: "baseQueryNum st \<le> ?L" "length (baseQuery st) = ?L" using assms(7) by (simp_all add: bases_inv_def)
  show ?thesis
  proof (cases "baseQueryNum st < ?L")
    case True
    let ?st = "put_query ?h (baseQueryNum st) st"
    obtain rs qs where q: "ds = rs @ qs" "list_all2 (base_pending E S w db st) rs (baseRecipeBuffer st)"
        "list_all2 (queried E S w db) qs (take (baseQueryNum st) (baseQuery st))" using assms(7) by (auto simp: bases_inv_def)
    have "bases_inv E S w db (ds @ [p]) ?st" unfolding q(1) by (rule put_query_inv [OF True b(2) assms(8,9) q(2,3)])
    moreover have "query_delta E db ?h (cm, st) = Inr (cm, ?st)" using True by (simp add: query_delta_def)
    moreover have "id_inv w ?st" "map_inv cm ?st" "ids_le st ?st" using assms(3,4) ids_le_refl unfolding same by auto
    ultimately show ?thesis using assms(5) by (intro exI [of _ cm] exI [of _ ?st]) (simp add: put_query_same)
  next
    case False
    have cap: "idNum st + baseQueryNum st \<le> idCap st" using assms(5,6) by simp
    obtain cm' st1 where s: "resolve_bases E db False (cm, st) = Inr (cm', st1)" "id_inv w st1" "map_inv cm' st1" "ids_le st st1"
        "idNum st1 \<le> idNum st + baseQueryNum st" "coll st1 = coll st" "length (baseQuery st1) = ?L"
        "list_all2 (base_pending E S w db st1) ds (baseRecipeBuffer st1)"
      using resolve_all [OF assms(1-4) cap assms(7)] by metis
    let ?st = "put_query ?h 0 st1"
    have "bases_inv E S w db (ds @ [p]) ?st"
      using put_query_inv [OF _ s(7) assms(8,9) s(8), of 0 "[]"] by (simp add: BASE_QUERY_SIZE_def)
    moreover have "query_delta E db ?h (cm, st) = Inr (cm', ?st)" using False s(1) by (simp add: query_delta_def)
    moreover have "id_inv w ?st" "map_inv cm' ?st" "ids_le st ?st" using s(2-4) unfolding same by auto
    ultimately show ?thesis using assms(5) s(5,6) by (intro exI [of _ cm'] exI [of _ ?st]) (simp add: put_query_same)
  qed
qed

section \<open>One entry of the recipe\<close>

text \<open>
  The entries \<open>ps\<close> wait to be restored: their containers and the containers of their bases are
  identified. The containers of the cache are those of the files.
\<close>

definition pend_inv :: "enclave \<Rightarrow> bytes set \<Rightarrow> string \<Rightarrow> disk \<Rightarrow> InMemoryDatabase \<Rightarrow> con_map \<Rightarrow> (bytes \<times> RecipeEntry) list \<Rightarrow> restore_st \<Rightarrow> bool" where
  "pend_inv E S t d db cm ps st \<longleftrightarrow> id_inv (files_of t d) st \<and> map_inv cm st \<and>
     list_all2 (pending E S (files_of t d) db st) ps (enclaveRecipeBuffer st) \<and> bases_inv E S (files_of t d) db (filter is_delta ps) st \<and>
     rc.agrees (files_of t d) (containerCache (req st)) \<and> length (containerArray (req st)) = CONTAINERARRAY_VALUE"

definition sized :: "string \<Rightarrow> disk \<Rightarrow> bool" where
  "sized t d \<longleftrightarrow> (\<forall>n f. files_of t d n = Some f \<longrightarrow> length f \<le> MAX_CONTAINER_SIZE)"

lemma sized_files: "sized t d \<Longrightarrow> files_of t d n = Some f \<Longrightarrow> length f \<le> MAX_CONTAINER_SIZE"
  by (simp add: sized_def)

lemma sized_disk: "\<forall>p f. d p = Some f \<longrightarrow> length f \<le> MAX_CONTAINER_SIZE \<Longrightarrow> sized t d"
  by (auto simp: sized_def files_of_def read_container_def split: option.splits sum.splits if_splits)

lemma fetch_ok:
  assumes "sized t d" "id_inv (files_of t d) st" "rc.agrees (files_of t d) (containerCache (req st))"
    "length (containerArray (req st)) = CONTAINERARRAY_VALUE" "idNum st \<le> CONTAINERARRAY_VALUE"
  shows "\<exists>rq. GetReqContainers t d (idBuffer st) (idNum st) (req st) = Inr rq \<and> rc.agrees (files_of t d) (containerCache rq) \<and>
    length (containerArray rq) = CONTAINERARRAY_VALUE \<and> slots_ok (files_of t d) (st\<lparr>req := rq\<rparr>)"
proof -
  have "\<forall>i < idNum st. \<exists>f. files_of t d (seg (i * CONTAINER_ID_LENGTH) CONTAINER_ID_LENGTH (idBuffer st)) = Some f \<and> length f \<le> MAX_CONTAINER_SIZE"
    using assms(2) sized_files [OF assms(1)] by (fastforce simp: id_inv_def id_at_def)
  from GetReqContainers_ok [OF assms(3) _ this order_refl] obtain rq where
      "GetReqContainers t d (idBuffer st) (idNum st) (req st) = Inr rq" "rc.agrees (files_of t d) (containerCache rq)"
      "length (containerArray rq) = length (containerArray (req st))"
      "\<forall>i < idNum st. \<forall>f. files_of t d (seg (i * CONTAINER_ID_LENGTH) CONTAINER_ID_LENGTH (idBuffer st)) = Some f \<longrightarrow>
         take (length f) (containerArray rq ! i) = f" using assms(4,5) by auto
  then show ?thesis using assms(4,5) by (auto simp: slots_ok_def id_at_def)
qed

text \<open>Everything that the pending entries need is in memory.\<close>

definition ready :: "enclave \<Rightarrow> bytes set \<Rightarrow> string \<Rightarrow> disk \<Rightarrow> InMemoryDatabase \<Rightarrow> (bytes \<times> RecipeEntry) list \<Rightarrow> restore_st \<Rightarrow> bool" where
  "ready E S t d db ps st \<longleftrightarrow> list_all2 (pending E S (files_of t d) db st) ps (enclaveRecipeBuffer st) \<and> slots_ok (files_of t d) st \<and>
     list_all2 (base_pending E S (files_of t d) db st) (filter is_delta ps) (baseRecipeBuffer st) \<and>
     rc.agrees (files_of t d) (containerCache (req st)) \<and> length (containerArray (req st)) = CONTAINERARRAY_VALUE \<and> length (baseQuery st) = BASE_QUERY_SIZE"

lemma out_inv_same:
  "sent st' = sent st \<Longrightarrow> restoreData st' = restoreData st \<Longrightarrow> restoreItemNum st' = restoreItemNum st \<Longrightarrow> out_inv E dn st' = out_inv E dn st"
  by (simp add: out_inv_def)

lemma prepare_ok:
  assumes "evp_ok (ssl E)" "db_inv E S (files_of t d) db" "sized t d" "pend_inv E S t d db cm ps st"
    "idNum st + baseQueryNum st \<le> idCap st" "idNum st + baseQueryNum st \<le> CONTAINERARRAY_VALUE"
  shows "\<exists>cm1 st1 rq. resolve_bases E db tail (cm, st) = Inr (cm1, st1) \<and> coll st1 = coll st \<and>
    GetReqContainers t d (idBuffer st1) (idNum st1) (req st1) = Inr rq \<and> ready E S t d db ps (st1\<lparr>baseQueryNum := 0, req := rq\<rparr>)"
proof -
  let ?w = "files_of t d"
  have i: "id_inv ?w st" "map_inv cm st" "list_all2 (pending E S ?w db st) ps (enclaveRecipeBuffer st)" "bases_inv E S ?w db (filter is_delta ps) st"
      "rc.agrees ?w (containerCache (req st))" "length (containerArray (req st)) = CONTAINERARRAY_VALUE"
    using assms(4) by (simp_all add: pend_inv_def)
  obtain cm1 st1 where s: "resolve_bases E db tail (cm, st) = Inr (cm1, st1)" "id_inv ?w st1" "map_inv cm1 st1" "ids_le st st1"
      "idNum st1 \<le> idNum st + baseQueryNum st" "coll st1 = coll st" "length (baseQuery st1) = BASE_QUERY_SIZE"
      "list_all2 (base_pending E S ?w db st1) (filter is_delta ps) (baseRecipeBuffer st1)"
    using resolve_all [OF assms(1,2) i(1,2) assms(5) i(4)] by metis
  have c: "req st1 = req st" "enclaveRecipeBuffer st1 = enclaveRecipeBuffer st" using s(6) by (simp_all add: coll_def)
  obtain rq where rq: "GetReqContainers t d (idBuffer st1) (idNum st1) (req st1) = Inr rq" "rc.agrees ?w (containerCache rq)"
      "length (containerArray rq) = CONTAINERARRAY_VALUE" "slots_ok ?w (st1\<lparr>req := rq\<rparr>)"
    using fetch_ok [OF assms(3) s(2)] i(5,6) s(5) assms(6) by (auto simp: c)
  let ?st = "st1\<lparr>baseQueryNum := 0, req := rq\<rparr>"
  have f: "idBuffer ?st = idBuffer st1" "idNum ?st = idNum st1" by simp_all
  have "slots_ok ?w ?st" using rq(4) by (simp add: slots_ok_def id_at_def)
  moreover have "pending E S ?w db ?st = pending E S ?w db st1" "base_pending E S ?w db ?st = base_pending E S ?w db st1"
    by (simp_all add: fun_eq_iff pending_def base_pending_def same_ids [OF f])
  moreover have "list_all2 (pending E S ?w db st1) ps (enclaveRecipeBuffer st)" using i(3) by (rule list_all2_mono) (rule pending_mono [OF s(4)])
  ultimately have "ready E S t d db ps ?st" using rq(2,3) s(7,8) by (simp add: ready_def c)
  with s(1,6) rq(1) show ?thesis by blast
qed

lemma resolve_none: "baseQueryNum st = 0 \<Longrightarrow> resolve_bases E db tail (cm, st) = Inr (cm, st)"
  by (simp add: resolve_bases_def Ocall_QueryBaseIndex_def first_entries_def)

lemma out_le_fields:
  assumes "out_le st st'"
  shows "idCap st' = idCap st" "baseQuery st' = baseQuery st"
  using arg_cong [OF assms [unfolded out_le_def], of idCap] arg_cong [OF assms [unfolded out_le_def], of baseQuery] by simp_all

lemma restore_round_ok:
  assumes "evp_ok (ssl E)" "lz4_ok E" "\<forall>m \<in> S. chunk_ok m" "db_inv E S (files_of t d) db" "sized t d" "pend_inv E S t d db cm ps st"
    "idNum st + baseQueryNum st \<le> idCap st" "idNum st + baseQueryNum st \<le> CONTAINERARRAY_VALUE" "out_inv E dn st"
  shows "\<exists>st'. restore_round E db t d (cm, st) = Inr (Map.empty, st') \<and> pend_inv E S t d db Map.empty [] st' \<and> out_inv E (dn @ map fst ps) st' \<and>
    idNum st' = 0 \<and> baseQueryNum st' = 0 \<and> idCap st' = idCap st"
proof -
  obtain cm1 st1 rq where s: "resolve_bases E db False (cm, st) = Inr (cm1, st1)" "coll st1 = coll st"
      "GetReqContainers t d (idBuffer st1) (idNum st1) (req st1) = Inr rq" "ready E S t d db ps (st1\<lparr>baseQueryNum := 0, req := rq\<rparr>)"
    using prepare_ok [OF assms(1,4-8)] by metis
  define st2 where "st2 = st1\<lparr>baseQueryNum := 0, req := rq\<rparr>"
  have c: "enclaveRecipeBuffer st1 = enclaveRecipeBuffer st" "idCap st2 = idCap st" "out_inv E dn st2"
    using s(2) assms(9) out_inv_same [of st2 st] by (simp_all add: coll_def st2_def)
  have r: "list_all2 (pending E S (files_of t d) db st2) ps (enclaveRecipeBuffer st2)" "slots_ok (files_of t d) st2"
      "list_all2 (base_pending E S (files_of t d) db st2) (filter is_delta ps) (drop 0 (baseRecipeBuffer st2))"
    using s(4) by (simp_all add: ready_def st2_def [symmetric])
  obtain b st3 where s3: "foldE (\<lambda>r s. restore_and_send E s r) (enclaveRecipeBuffer st2) (0, st2) = Inr (b, st3)" "out_le st2 st3"
      "out_inv E (dn @ map fst ps) st3" using restore_all_ok [OF assms(1-3) r(1,2) c(3) r(3)] by blast
  define st' where "st' = st3\<lparr>idNum := 0, enclaveRecipeBuffer := [], baseRecipeBuffer := [], baseQueryNum := 0\<rparr>"
  have "(if baseQueryNum st \<noteq> 0 then bindE (resolve_bases E db False (cm, st)) (\<lambda>(cm, st). Inr (cm, st\<lparr>baseQueryNum := 0\<rparr>)) else Inr (cm, st)) =
      Inr (cm1, st1\<lparr>baseQueryNum := 0\<rparr>)" using s(1) resolve_none [of st E db False cm] by auto
  then have run: "restore_round E db t d (cm, st) = Inr (Map.empty, st')"
    using s(3) s3(1) by (simp add: restore_round_def st2_def st'_def)
  have "out_inv E (dn @ map fst ps) st'" using s3(3) out_inv_same [of st' st3] by (simp add: st'_def)
  moreover have "pend_inv E S t d db Map.empty [] st'"
    using s(4) out_le_same(3) [OF s3(2)] out_le_fields(2) [OF s3(2)]
    by (auto simp: pend_inv_def ready_def st2_def [symmetric] st'_def id_inv_def map_inv_def bases_inv_def)
  ultimately show ?thesis using run out_le_fields(1) [OF s3(2)] c(2) by (simp add: st'_def)
qed

lemma pend_inv_coll:
  assumes "pend_inv E S t d db cm ps st" "ids_le st st'" "coll st' = coll st"
  shows "list_all2 (pending E S (files_of t d) db st') ps (enclaveRecipeBuffer st')" "rc.agrees (files_of t d) (containerCache (req st'))"
    "length (containerArray (req st')) = CONTAINERARRAY_VALUE"
proof -
  have "list_all2 (pending E S (files_of t d) db st') ps (enclaveRecipeBuffer st)"
    using assms(1) unfolding pend_inv_def by (blast intro: list_all2_mono pending_mono [OF assms(2)])
  then show "list_all2 (pending E S (files_of t d) db st') ps (enclaveRecipeBuffer st')" "rc.agrees (files_of t d) (containerCache (req st'))"
    "length (containerArray (req st')) = CONTAINERARRAY_VALUE" using assms(1,3) by (simp_all add: pend_inv_def coll_def)
qed

text \<open>The base of an entry is queried where the entry is a delta.\<close>

lemma query_step:
  assumes "evp_ok (ssl E)" "db_inv E S (files_of t d) db" "pend_inv E S t d db cm ps st" "idNum st + baseQueryNum st \<le> 15" "16 \<le> idCap st"
    "located E S (files_of t d) db p"
  defines "ds \<equiv> if is_delta p then [p] else []"
  shows "\<exists>cm' st'. (if is_delta p then query_delta E db (basechunkHash (snd p)) (cm, st) else Inr (cm, st)) = Inr (cm', st') \<and>
    id_inv (files_of t d) st' \<and> map_inv cm' st' \<and> ids_le st st' \<and> idNum st' + baseQueryNum st' \<le> 15 + length ds \<and> idNum st' \<le> 15 \<and>
    coll st' = coll st \<and> bases_inv E S (files_of t d) db (filter is_delta ps @ ds) st'"
proof -
  have i: "id_inv (files_of t d) st" "map_inv cm st" "bases_inv E S (files_of t d) db (filter is_delta ps) st"
    using assms(3) by (simp_all add: pend_inv_def)
  show ?thesis
  proof (cases "is_delta p")
    case True
    then show ?thesis using query_delta_ok [OF assms(1,2) i(1,2) assms(4,5) i(3) assms(6)] by (simp add: ds_def)
  next
    case False
    then show ?thesis using i assms(4) ids_le_refl by (simp add: ds_def)
  qed
qed

text \<open>The container of an entry is identified and the entry is appended.\<close>

lemma enter_ok:
  assumes "pend_inv E S t d db cm0 ps st0" "id_inv (files_of t d) st" "map_inv cm st" "ids_le st0 st" "coll st = coll st0"
    "bases_inv E S (files_of t d) db (filter is_delta (ps @ [p])) st" "located E S (files_of t d) db p" "clear_chunk E S (files_of t d) db (fst p)" "idNum st < idCap st"
  shows "\<exists>n cm' st'. add_container (containerName (snd p)) (cm, st) = Inr (n, cm', st') \<and> idNum st' + baseQueryNum st' \<le> Suc (idNum st + baseQueryNum st) \<and>
    idCap st' = idCap st \<and> sent st' = sent st \<and> restoreData st' = restoreData st \<and> restoreItemNum st' = restoreItemNum st \<and>
    pend_inv E S t d db cm' (ps @ [p]) (st'\<lparr>enclaveRecipeBuffer := enclaveRecipeBuffer st' @
      [\<lparr>er_containerID = n, er_offset = addr_offset (snd p), er_length = addr_length (snd p), er_deltaFlag = deltaFlag (snd p)\<rparr>]\<rparr>)"
proof -
  let ?w = "files_of t d" and ?a = "snd p"
  obtain n cm' b k where c: "add_container (containerName ?a) (cm, st) = Inr (n, cm', st\<lparr>idBuffer := b, idNum := k\<rparr>)"
      "id_inv ?w (st\<lparr>idBuffer := b, idNum := k\<rparr>)" "map_inv cm' (st\<lparr>idBuffer := b, idNum := k\<rparr>)" "ids_le st (st\<lparr>idBuffer := b, idNum := k\<rparr>)"
      "n < k" "id_at (st\<lparr>idBuffer := b, idNum := k\<rparr>) n = containerName ?a" "k \<le> Suc (idNum st)"
    using add_container_ok [OF assms(2,3) located_name [OF assms(7)] assms(9)] by blast
  let ?r = "\<lparr>er_containerID = n, er_offset = addr_offset ?a, er_length = addr_length ?a, er_deltaFlag = deltaFlag ?a\<rparr>"
  define st1 where "st1 = st\<lparr>idBuffer := b, idNum := k\<rparr>"
  define st2 where "st2 = st1\<lparr>enclaveRecipeBuffer := enclaveRecipeBuffer st1 @ [?r]\<rparr>"
  note c = c [folded st1_def]
  have f: "idBuffer st2 = idBuffer st1" "idNum st2 = idNum st1" "idNum st1 = k" by (simp_all add: st2_def st1_def)
  note same = same_ids [OF f(1,2)]
  have pend: "pending E S ?w db st2 = pending E S ?w db st1" "base_pending E S ?w db st2 = base_pending E S ?w db st1"
    by (simp_all add: fun_eq_iff pending_def base_pending_def same)
  have k: "coll st1 = coll st" "baseQueryNum st1 = baseQueryNum st" "baseQuery st1 = baseQuery st" "baseRecipeBuffer st1 = baseRecipeBuffer st"
    by (simp_all add: st1_def coll_def)
  have "er_for st1 ?a ?r" using c(5,6) by (simp add: er_for_def f(3))
  then have new: "pending E S ?w db st1 p ?r" using assms(7,8) by (simp add: pending_def)
  obtain rs qs where q: "filter is_delta (ps @ [p]) = rs @ qs" "list_all2 (base_pending E S ?w db st) rs (baseRecipeBuffer st)"
      "list_all2 (queried E S ?w db) qs (take (baseQueryNum st) (baseQuery st))" "baseQueryNum st \<le> BASE_QUERY_SIZE" "length (baseQuery st) = BASE_QUERY_SIZE"
    using assms(6) by (auto simp: bases_inv_def)
  have "list_all2 (base_pending E S ?w db st1) rs (baseRecipeBuffer st)" using q(2) by (rule list_all2_mono) (rule base_pending_mono [OF c(4)])
  then have b1: "bases_inv E S ?w db (filter is_delta (ps @ [p])) st1" unfolding bases_inv_def k using q by blast
  note l = pend_inv_coll [OF assms(1) ids_le_trans [OF assms(4) c(4)] trans [OF k(1) assms(5)]]
  have "bases_inv E S ?w db (filter is_delta (ps @ [p])) st2" using b1 unfolding bases_inv_def pend by (simp add: st2_def)
  moreover have "list_all2 (pending E S ?w db st2) (ps @ [p]) (enclaveRecipeBuffer st2)" unfolding pend using l(1) new by (simp add: st2_def list_all2_appendI)
  ultimately have "pend_inv E S t d db cm' (ps @ [p]) st2" using c(2,3) l(2,3) unfolding pend_inv_def same by (simp add: st2_def)
  then show ?thesis using c(1,7) by (intro exI [of _ n] exI [of _ cm'] exI [of _ st1]) (simp add: st2_def st1_def)
qed

text \<open>Room for the identifiers: a delta needs one more than a base chunk.\<close>

definition id_room :: "restore_st \<Rightarrow> bytes \<times> RecipeEntry \<Rightarrow> bool" where
  "id_room st p \<longleftrightarrow> (if is_delta p then Suc CONTAINER_CAPPING_VALUE else CONTAINER_CAPPING_VALUE) \<le> idCap st"

definition recipe_loop_inv :: "enclave \<Rightarrow> bytes set \<Rightarrow> string \<Rightarrow> disk \<Rightarrow> InMemoryDatabase \<Rightarrow> nat \<Rightarrow> bytes list \<Rightarrow> con_map \<times> restore_st \<Rightarrow> bool" where
  "recipe_loop_inv E S t d db cap ms s \<longleftrightarrow> (case s of (cm, st) \<Rightarrow> idCap st = cap \<and> idNum st + baseQueryNum st < CONTAINER_CAPPING_VALUE \<and>
     (\<exists>dn ps. ms = dn @ map fst ps \<and> pend_inv E S t d db cm ps st \<and> out_inv E dn st))"

lemma proc_entry_ok:
  assumes "evp_ok (ssl E)" "lz4_ok E" "\<forall>m \<in> S. chunk_ok m" "db_inv E S (files_of t d) db" "sized t d" "recipe_loop_inv E S t d db cap ms (cm, st)"
    "located E S (files_of t d) db p" "clear_chunk E S (files_of t d) db (fst p)" "id_room st p" "entry_wf (snd p)"
    "AESCBCDec (ssl E) (indexQueryKey E) (seg (i * RECIPE_ENTRY_SIZE) RECIPE_ENTRY_SIZE recs) = Inr (entry_image (snd p))"
  shows "\<exists>s'. proc_entry E db t d recs i (cm, st) = Inr s' \<and> recipe_loop_inv E S t d db cap (ms @ [fst p]) s'"
proof -
  obtain dn ps where l: "ms = dn @ map fst ps" "pend_inv E S t d db cm ps st" "out_inv E dn st" "idCap st = cap" "idNum st + baseQueryNum st \<le> 15"
    using assms(6) by (auto simp: recipe_loop_inv_def CONTAINER_CAPPING_VALUE_def)
  have cap: "16 \<le> idCap st" "16 + length (if is_delta p then [p] else []) \<le> idCap st"
    using assms(9) by (simp_all add: id_room_def CONTAINER_CAPPING_VALUE_def split: if_splits)
  obtain cm1 st1 where s1: "(if is_delta p then query_delta E db (basechunkHash (snd p)) (cm, st) else Inr (cm, st)) = Inr (cm1, st1)"
      "id_inv (files_of t d) st1" "map_inv cm1 st1" "ids_le st st1" "idNum st1 + baseQueryNum st1 \<le> 15 + length (if is_delta p then [p] else [])"
      "idNum st1 \<le> 15" "coll st1 = coll st" "bases_inv E S (files_of t d) db (filter is_delta ps @ (if is_delta p then [p] else [])) st1"
    using query_step [OF assms(1,4) l(2,5) cap(1) assms(7)] by metis
  have b1: "bases_inv E S (files_of t d) db (filter is_delta (ps @ [p])) st1" using s1(8) by (cases "is_delta p") simp_all
  have c1: "idCap st1 = idCap st" "out_inv E dn st1" using s1(7) l(3) out_inv_same [of st1 st] by (simp_all add: coll_def)
  have "idNum st1 < idCap st1" using s1(6) cap(1) c1(1) by simp
  from enter_ok [OF l(2) s1(2-4,7) b1 assms(7,8) this] obtain n cm2 st2 where
      s2: "add_container (containerName (snd p)) (cm1, st1) = Inr (n, cm2, st2)" "idNum st2 + baseQueryNum st2 \<le> Suc (idNum st1 + baseQueryNum st1)"
        "idCap st2 = idCap st1" "sent st2 = sent st1" "restoreData st2 = restoreData st1" "restoreItemNum st2 = restoreItemNum st1"
        "pend_inv E S t d db cm2 (ps @ [p]) (st2\<lparr>enclaveRecipeBuffer := enclaveRecipeBuffer st2 @
          [\<lparr>er_containerID = n, er_offset = addr_offset (snd p), er_length = addr_length (snd p), er_deltaFlag = deltaFlag (snd p)\<rparr>]\<rparr>)"
    by metis
  define st3 where "st3 = st2\<lparr>enclaveRecipeBuffer := enclaveRecipeBuffer st2 @
    [\<lparr>er_containerID = n, er_offset = addr_offset (snd p), er_length = addr_length (snd p), er_deltaFlag = deltaFlag (snd p)\<rparr>]\<rparr>"
  have f: "idCap st3 = idCap st" "idNum st3 + baseQueryNum st3 \<le> 16 + length (if is_delta p then [p] else [])" "out_inv E dn st3"
    using s2(2-6) s1(5) c1 out_inv_same [of st3 st1] by (simp_all add: st3_def)
  have im: "entry_of (entry_image (snd p)) = snd p" using entry_of_image [OF assms(10), of "[]"] by simp
  have run: "proc_entry E db t d recs i (cm, st) = (if CONTAINER_CAPPING_VALUE \<le> idNum st3 + baseQueryNum st3
      then restore_round E db t d (cm2, st3) else Inr (cm2, st3))"
    unfolding proc_entry_def assms(11) Let_def bindE_simps im s1(1) s2(1) by (simp add: st3_def)
  show ?thesis
  proof (cases "CONTAINER_CAPPING_VALUE \<le> idNum st3 + baseQueryNum st3")
    case True
    have "idNum st3 + baseQueryNum st3 \<le> idCap st3" "idNum st3 + baseQueryNum st3 \<le> CONTAINERARRAY_VALUE"
      using f(1,2) cap(2) by (simp_all add: CONTAINERARRAY_VALUE_def split: if_splits)
    from restore_round_ok [OF assms(1-5) s2(7) [folded st3_def] this f(3)] obtain st4 where
        "restore_round E db t d (cm2, st3) = Inr (Map.empty, st4)" "pend_inv E S t d db Map.empty [] st4" "out_inv E (dn @ map fst (ps @ [p])) st4"
        "idNum st4 = 0" "baseQueryNum st4 = 0" "idCap st4 = idCap st3" by blast
    then show ?thesis using True run f(1) l(1,4)
      by (intro exI [of _ "(Map.empty, st4)"]) (auto simp: recipe_loop_inv_def CONTAINER_CAPPING_VALUE_def)
  next
    case False
    have "recipe_loop_inv E S t d db cap (ms @ [fst p]) (cm2, st3)" unfolding recipe_loop_inv_def prod.case using f(1,3) l(1,4) s2(7) [folded st3_def] False
      by (intro conjI exI [of _ dn] exI [of _ "ps @ [p]"]) simp_all
    with False run show ?thesis by simp
  qed
qed

section \<open>A batch of the recipe\<close>

lemma DecryptWithKey_length: "DecryptWithKey X t key c = Inr p \<Longrightarrow> length p = length c"
  by (cases t) (auto simp: DecryptWithKey_def evp_out_def split: option.splits if_splits)

lemma index_keys_ok:
  assumes "evp_ok (ssl E)"
  shows "index_keys E (length ms) (concat (map (hashfp E) ms)) = Inr (concat (map (keyof E) ms))"
  by (induction ms) (simp_all add: hashfp_ok(2) [OF assms] fpkey_ok(1) [OF assms] keyof_def)

lemma read_index_batch:
  assumes "evp_ok (ssl E)" "\<forall>m \<in> set ms. indexObj db (keyof E m) = Some (v m)" "\<forall>m \<in> set ms. length (v m) = RECIPE_ENTRY_SIZE"
  shows "i < length ms \<Longrightarrow> seg (i * RECIPE_ENTRY_SIZE) RECIPE_ENTRY_SIZE (Ocall_ReadIndexStoreBatch (length ms) (concat (map (keyof E) ms)) db) = v (ms ! i)"
  using assms(2,3)
proof (induction ms arbitrary: i)
  case (Cons m ms)
  have "QueryBuffer (concat (map (keyof E) (m # ms))) CHUNK_HASH_SIZE db = Some (v m)"
    using Cons.prems(2) by (simp add: QueryBuffer_def length_keyof [OF assms(1)])
  then have r: "Ocall_ReadIndexStoreBatch (length (m # ms)) (concat (map (keyof E) (m # ms))) db =
      v m @ Ocall_ReadIndexStoreBatch (length ms) (concat (map (keyof E) ms)) db" by (simp add: length_keyof [OF assms(1)])
  show ?case
  proof (cases i)
    case 0
    then show ?thesis unfolding r using Cons.prems(3) by (simp add: seg_def)
  next
    case (Suc j)
    have "seg (Suc j * RECIPE_ENTRY_SIZE) RECIPE_ENTRY_SIZE (v m @ x) = seg (j * RECIPE_ENTRY_SIZE) RECIPE_ENTRY_SIZE x" for x
      using Cons.prems(3) by (simp add: seg_def)
    then show ?thesis unfolding r using Suc Cons.IH [of j] Cons.prems by simp
  qed
qed simp

text \<open>
  What a restore relies on. The container identifiers fit in their buffer: sixteen where no
  chunk is a delta, one more otherwise.
\<close>

definition room_for :: "enclave \<Rightarrow> (container_name \<Rightarrow> bytes option) \<Rightarrow> InMemoryDatabase \<Rightarrow> nat \<Rightarrow> bytes \<Rightarrow> bool" where
  "room_for E w db cap m \<longleftrightarrow> CONTAINER_CAPPING_VALUE < cap \<or> (CONTAINER_CAPPING_VALUE = cap \<and> base_at E w db m)"

lemma located_room:
  assumes "db_inv E S w db" "m \<in> S" "room_for E w db cap m"
  shows "\<exists>a. located E S w db (m, a) \<and> (if is_delta (m, a) then Suc CONTAINER_CAPPING_VALUE else CONTAINER_CAPPING_VALUE) \<le> cap"
proof (cases "CONTAINER_CAPPING_VALUE < cap")
  case True
  then show ?thesis using located_chunk [OF assms(1,2)] by auto
next
  case False
  then obtain a where "addr_at E db (keyof E m) a" "base_chunk E w a m" "CONTAINER_CAPPING_VALUE = cap"
    using assms(3) by (auto simp: room_for_def base_at_def)
  then show ?thesis by (intro exI [of _ a]) (simp add: located_def base_chunk_def)
qed

lemma entries_ok:
  assumes "evp_ok (ssl E)" "lz4_ok E" "\<forall>m \<in> S. chunk_ok m" "db_inv E S (files_of t d) db" "sized t d"
    "\<forall>p \<in> set qs. located E S (files_of t d) db p \<and> clear_chunk E S (files_of t d) db (fst p) \<and> entry_wf (snd p) \<and>
       (if is_delta p then Suc CONTAINER_CAPPING_VALUE else CONTAINER_CAPPING_VALUE) \<le> cap"
    "\<forall>i < length qs. AESCBCDec (ssl E) (indexQueryKey E) (seg (i * RECIPE_ENTRY_SIZE) RECIPE_ENTRY_SIZE recs) = Inr (entry_image (snd (qs ! i)))"
    "recipe_loop_inv E S t d db cap ms s"
  shows "i \<le> length qs \<Longrightarrow> \<exists>s'. foldE (proc_entry E db t d recs) [0..<i] s = Inr s' \<and> recipe_loop_inv E S t d db cap (ms @ map fst (take i qs)) s'"
proof (induction i)
  case (Suc i)
  then obtain cm st where s: "foldE (proc_entry E db t d recs) [0..<i] s = Inr (cm, st)" "recipe_loop_inv E S t d db cap (ms @ map fst (take i qs)) (cm, st)" by auto
  have p: "qs ! i \<in> set qs" "i < length qs" using Suc.prems by simp_all
  have "idCap st = cap" using s(2) by (simp add: recipe_loop_inv_def)
  then have "id_room st (qs ! i)" using assms(6) p(1) by (auto simp: id_room_def)
  then obtain s' where "proc_entry E db t d recs i (cm, st) = Inr s'" "recipe_loop_inv E S t d db cap ((ms @ map fst (take i qs)) @ [fst (qs ! i)]) s'"
    using proc_entry_ok [OF assms(1-5) s(2), of "qs ! i" i recs] assms(6,7) p by blast
  then show ?case using s(1) p(2) by (simp add: foldE_append take_Suc_conv_app_nth)
qed (use assms(8) in simp)

lemma ProcRecipeBatch_ok:
  assumes "evp_ok (ssl E)" "lz4_ok E" "\<forall>m \<in> S. chunk_ok m" "db_inv E S (files_of t d) db" "sized t d"
    "\<forall>m \<in> set new. m \<in> S \<and> clear_chunk E S (files_of t d) db m \<and> room_for E (files_of t d) db cap m" "recipe_loop_inv E S t d db cap ms (Map.empty, st)"
    "DecryptWithKey (ssl E) CIPHER_TYPE (masterKey E) (take (length new * CHUNK_HASH_SIZE) buf) = Inr (concat (map (hashfp E) new))"
  shows "\<exists>st'. ProcRecipeBatch E db t d buf (length new) st = Inr st' \<and> recipe_loop_inv E S t d db cap (ms @ new) (Map.empty, st')"
proof -
  let ?w = "files_of t d"
  have "\<forall>m \<in> set new. \<exists>a. located E S ?w db (m, a) \<and> (if is_delta (m, a) then Suc CONTAINER_CAPPING_VALUE else CONTAINER_CAPPING_VALUE) \<le> cap"
    using located_room [OF assms(4)] assms(6) by blast
  then obtain f where f: "\<forall>m \<in> set new. located E S ?w db (m, f m) \<and> (if is_delta (m, f m) then Suc CONTAINER_CAPPING_VALUE else CONTAINER_CAPPING_VALUE) \<le> cap"
    by metis
  define qs where "qs = map (\<lambda>m. (m, f m)) new"
  have "\<forall>m \<in> set new. addr_at E db (keyof E m) (f m)" using f by (auto simp: located_def)
  then obtain v where v: "\<forall>m \<in> set new. indexObj db (keyof E m) = Some (v m)" "\<forall>m \<in> set new. entry_wf (f m)"
      "\<forall>m \<in> set new. AESCBCDec (ssl E) (indexQueryKey E) (v m) = Inr (entry_image (f m))" unfolding addr_at_def by metis
  have l: "\<forall>m \<in> set new. length (v m) = RECIPE_ENTRY_SIZE" using v(1) index_value [OF assms(4)] by blast
  have q: "\<forall>p \<in> set qs. located E S ?w db p \<and> clear_chunk E S (files_of t d) db (fst p) \<and> entry_wf (snd p) \<and>
      (if is_delta p then Suc CONTAINER_CAPPING_VALUE else CONTAINER_CAPPING_VALUE) \<le> cap"
    using f v(2) assms(6) by (auto simp: qs_def)
  have r: "\<forall>i < length qs. AESCBCDec (ssl E) (indexQueryKey E) (seg (i * RECIPE_ENTRY_SIZE) RECIPE_ENTRY_SIZE
      (Ocall_ReadIndexStoreBatch (length new) (concat (map (keyof E) new)) db)) = Inr (entry_image (snd (qs ! i)))"
    using read_index_batch [OF assms(1) v(1) l] v(3) by (simp add: qs_def)
  obtain s' where "foldE (proc_entry E db t d (Ocall_ReadIndexStoreBatch (length new) (concat (map (keyof E) new)) db)) [0..<length qs] (Map.empty, st) = Inr s'"
      "recipe_loop_inv E S t d db cap (ms @ map fst (take (length qs) qs)) s'"
    using entries_ok [OF assms(1-5) q r assms(7) order_refl] by blast
  then obtain cm st' where s: "foldE (proc_entry E db t d (Ocall_ReadIndexStoreBatch (length new) (concat (map (keyof E) new)) db)) [0..<length qs] (Map.empty, st) =
      Inr (cm, st')" "recipe_loop_inv E S t d db cap (ms @ map fst (take (length qs) qs)) (cm, st')"
    by (cases s') simp
  have "map fst (take (length qs) qs) = new" by (simp add: qs_def comp_def)
  then have "recipe_loop_inv E S t d db cap (ms @ new) (Map.empty, st')" using s(2) by (auto simp: recipe_loop_inv_def pend_inv_def map_inv_def)
  moreover have "length qs = length new" by (simp add: qs_def)
  ultimately show ?thesis using s(1) by (simp add: ProcRecipeBatch_def assms(8) index_keys_ok [OF assms(1)])
qed

end
