(* ===== verification/RestoreRoom.thy ===== *)
theory RestoreRoom
  imports Restore
begin

text \<open>
  The buffer of container identifiers. The run of a restore depends on its size only where it
  overruns: a run with a larger buffer tells how many bytes of it are filled, and with the buffer of
  \<open>CONTAINER_CAPPING_VALUE\<close> identifiers that the program allocates the run is the same as long as these
  fit, and ends with a write outside the buffer otherwise.
\<close>

section \<open>The same run with less room\<close>

definition ID_BYTES :: nat where "ID_BYTES = CONTAINER_CAPPING_VALUE * CONTAINER_ID_LENGTH"

abbreviation low :: "restore_st \<Rightarrow> restore_st" where
  "low st \<equiv> st\<lparr>idCap := CONTAINER_CAPPING_VALUE\<rparr>"

lemma low_upd:
  "(low st)\<lparr>baseQuery := q\<rparr> = low (st\<lparr>baseQuery := q\<rparr>)" "(low st)\<lparr>baseQueryNum := k\<rparr> = low (st\<lparr>baseQueryNum := k\<rparr>)"
  "(low st)\<lparr>idNum := k\<rparr> = low (st\<lparr>idNum := k\<rparr>)" "(low st)\<lparr>req := rq\<rparr> = low (st\<lparr>req := rq\<rparr>)"
  "(low st)\<lparr>enclaveRecipeBuffer := r\<rparr> = low (st\<lparr>enclaveRecipeBuffer := r\<rparr>)" "(low st)\<lparr>baseRecipeBuffer := r\<rparr> = low (st\<lparr>baseRecipeBuffer := r\<rparr>)"
  by simp_all

lemma low_same:
  "idBuffer (low st) = idBuffer st" "idNum (low st) = idNum st" "req (low st) = req st" "enclaveRecipeBuffer (low st) = enclaveRecipeBuffer st"
  by simp_all

text \<open>
  \<open>r\<close> is the outcome with more room and \<open>r'\<close> the one with the room of the program, from a state in which \<open>n\<close>
  bytes were filled; \<open>prj\<close> finds the state in an outcome and \<open>lo\<close> lowers the room there.
\<close>

definition lowered :: "('x \<Rightarrow> restore_st) \<Rightarrow> ('x \<Rightarrow> 'x) \<Rightarrow> nat \<Rightarrow> fault + 'x \<Rightarrow> fault + 'x \<Rightarrow> bool" where
  "lowered prj lo n r r' \<longleftrightarrow> (\<forall>x. r = Inr x \<longrightarrow> CONTAINER_CAPPING_VALUE \<le> idCap (prj x) \<and> n \<le> length (idBuffer (prj x)) \<and>
     (n \<le> ID_BYTES \<longrightarrow> r' = (if length (idBuffer (prj x)) \<le> ID_BYTES then Inr (lo x) else Inl WriteOutside)))"

abbreviation low2 :: "'b \<times> restore_st \<Rightarrow> 'b \<times> restore_st" where
  "low2 s \<equiv> (fst s, low (snd s))"

abbreviation low3 :: "'a \<times> 'b \<times> restore_st \<Rightarrow> 'a \<times> 'b \<times> restore_st" where
  "low3 s \<equiv> (fst s, low2 (snd s))"

lemma lowered_Inr:
  "CONTAINER_CAPPING_VALUE \<le> idCap (prj x) \<Longrightarrow> n = length (idBuffer (prj x)) \<Longrightarrow> y = lo x \<Longrightarrow> lowered prj lo n (Inr x) (Inr y)"
  by (simp add: lowered_def)

lemma lowered_Inl: "lowered prj lo n (Inl f) r"
  by (simp add: lowered_def)

lemma lowered_bind:
  assumes "lowered prj lo n r r'"
    "\<And>x. CONTAINER_CAPPING_VALUE \<le> idCap (prj x) \<Longrightarrow> lowered prj2 lo2 (length (idBuffer (prj x))) (f x) (g (lo x))"
  shows "lowered prj2 lo2 n (bindE r f) (bindE r' g)"
  unfolding lowered_def
proof (intro allI impI)
  fix y
  assume "bindE r f = Inr y"
  then obtain x where x: "r = Inr x" "f x = Inr y" by (auto simp: bindE_Inr_iff)
  then have c: "CONTAINER_CAPPING_VALUE \<le> idCap (prj x)" "n \<le> length (idBuffer (prj x))"
      "n \<le> ID_BYTES \<Longrightarrow> r' = (if length (idBuffer (prj x)) \<le> ID_BYTES then Inr (lo x) else Inl WriteOutside)"
    using assms(1) by (auto simp: lowered_def)
  moreover have "CONTAINER_CAPPING_VALUE \<le> idCap (prj2 y)" "length (idBuffer (prj x)) \<le> length (idBuffer (prj2 y))"
      "length (idBuffer (prj x)) \<le> ID_BYTES \<Longrightarrow> g (lo x) = (if length (idBuffer (prj2 y)) \<le> ID_BYTES then Inr (lo2 y) else Inl WriteOutside)"
    using assms(2) [OF c(1)] x(2) by (auto simp: lowered_def)
  ultimately show "CONTAINER_CAPPING_VALUE \<le> idCap (prj2 y) \<and> n \<le> length (idBuffer (prj2 y)) \<and>
      (n \<le> ID_BYTES \<longrightarrow> bindE r' g = (if length (idBuffer (prj2 y)) \<le> ID_BYTES then Inr (lo2 y) else Inl WriteOutside))" by auto
qed

text \<open>A part that does not depend on the room.\<close>

lemma lowered_same: "(\<And>x. lowered prj lo n (f x) (g x)) \<Longrightarrow> lowered prj lo n (bindE r f) (bindE r g)"
  by (cases r) (simp_all add: lowered_Inl)

lemma lowered_fold:
  assumes "\<And>c s. CONTAINER_CAPPING_VALUE \<le> idCap (prj s) \<Longrightarrow> lowered prj lo (length (idBuffer (prj s))) (f c s) (f c (lo s))"
  shows "CONTAINER_CAPPING_VALUE \<le> idCap (prj s) \<Longrightarrow> lowered prj lo (length (idBuffer (prj s))) (foldE f cs s) (foldE f cs (lo s))"
proof (induction cs arbitrary: s)
  case (Cons c cs)
  show ?case unfolding foldE.simps by (rule lowered_bind [OF assms [OF Cons.prems] Cons.IH])
qed (simp add: lowered_Inr)

section \<open>Restoring the collected chunks\<close>

text \<open>A step from a state, on its own or as a part of a pair.\<close>

definition step_low :: "(restore_st \<Rightarrow> fault + restore_st) \<Rightarrow> bool" where
  "step_low f \<longleftrightarrow> (\<forall>st. CONTAINER_CAPPING_VALUE \<le> idCap st \<longrightarrow> lowered (\<lambda>x. x) low (length (idBuffer st)) (f st) (f (low st)))"

lemma step_lowD: "step_low f \<Longrightarrow> CONTAINER_CAPPING_VALUE \<le> idCap st \<Longrightarrow> lowered (\<lambda>x. x) low (length (idBuffer st)) (f st) (f (low st))"
  by (simp add: step_low_def)

lemma step_low_pair:
  assumes "step_low f" "CONTAINER_CAPPING_VALUE \<le> idCap st"
  shows "lowered snd low2 (length (idBuffer st)) (bindE (f st) (\<lambda>st. Inr (b, st))) (bindE (f (low st)) (\<lambda>st. Inr (b, st)))"
  by (rule lowered_bind [OF step_lowD [OF assms]]) (simp add: lowered_Inr)

lemma append_chunk_low: "step_low (append_chunk E m)"
  by (simp add: step_low_def append_chunk_def lowered_Inr lowered_Inl)

lemma send_restore_low: "step_low (\<lambda>st. if P st then send_restore E final st else Inr st)" if "\<And>st. P (low st) = P st"
  by (simp add: step_low_def send_restore_def that lowered_Inr lowered_same)

lemma restore_delta_low: "step_low (restore_delta E r rb)"
  by (simp add: step_low_def restore_delta_def lowered_same step_lowD [OF append_chunk_low])

lemma RecoverOneChunk_low: "step_low (RecoverOneChunk E r)"
  unfolding step_low_def RecoverOneChunk_def by (auto intro!: lowered_same simp: lowered_Inl step_lowD [OF append_chunk_low])

lemma restore_one_low:
  assumes "CONTAINER_CAPPING_VALUE \<le> idCap (snd s)"
  shows "lowered snd low2 (length (idBuffer (snd s))) (restore_one E r s) (restore_one E r (low2 s))"
proof -
  obtain b st where s: "s = (b, st)" by (cases s)
  have "CONTAINER_CAPPING_VALUE \<le> idCap st" using assms by (simp add: s)
  from step_low_pair [OF restore_delta_low this, where b = "Suc b"] step_low_pair [OF RecoverOneChunk_low this, where b = b]
  show ?thesis by (simp add: restore_one_def s lowered_Inl)
qed

lemma restore_and_send_low:
  assumes "CONTAINER_CAPPING_VALUE \<le> idCap (snd s)"
  shows "lowered snd low2 (length (idBuffer (snd s))) (restore_and_send E s r) (restore_and_send E (low2 s) r)"
  unfolding restore_and_send_def
proof (rule lowered_bind [OF restore_one_low [OF assms]])
  fix x :: "nat \<times> restore_st"
  assume c: "CONTAINER_CAPPING_VALUE \<le> idCap (snd x)"
  obtain b st where x: "x = (b, st)" by (cases x)
  from step_low_pair [OF send_restore_low, of "\<lambda>st. restoreItemNum st mod sendChunkBatchSize E = 0" st E False b] c
  show "lowered snd low2 (length (idBuffer (snd x)))
      (case x of (bidx, st) \<Rightarrow> bindE (if restoreItemNum st mod sendChunkBatchSize E = 0 then send_restore E False st else Inr st) (\<lambda>st'. Inr (bidx, st')))
      (case low2 x of (bidx, st) \<Rightarrow> bindE (if restoreItemNum st mod sendChunkBatchSize E = 0 then send_restore E False st else Inr st) (\<lambda>st'. Inr (bidx, st')))"
    by (simp add: x)
qed

lemma restore_tail_low:
  "CONTAINER_CAPPING_VALUE \<le> idCap (snd s) \<Longrightarrow> lowered (\<lambda>x. x) low (length (idBuffer (snd s))) (restore_tail E rs s) (restore_tail E rs (low2 s))"
proof (induction rs arbitrary: s)
  case (Cons r rs)
  show ?case unfolding restore_tail.simps
  proof (rule lowered_bind [OF restore_one_low [OF Cons.prems]])
    fix x :: "nat \<times> restore_st"
    assume c: "CONTAINER_CAPPING_VALUE \<le> idCap (snd x)"
    obtain b st where x: "x = (b, st)" by (cases x)
    let ?P = "\<lambda>st. restoreItemNum st mod sendChunkBatchSize E = 0 \<or> rs = []"
    have i: "lowered (\<lambda>x. x) low (length (idBuffer st')) (restore_tail E rs (b, st')) (restore_tail E rs (b, low st'))"
      if "CONTAINER_CAPPING_VALUE \<le> idCap st'" for st' using Cons.IH [of "(b, st')"] that by simp
    from lowered_bind [OF step_lowD [OF send_restore_low, of ?P st E "rs = []"] i] c
    show "lowered (\<lambda>x. x) low (length (idBuffer (snd x)))
      (case x of (bidx, st) \<Rightarrow> bindE (if ?P st then send_restore E (rs = []) st else Inr st) (\<lambda>st'. restore_tail E rs (bidx, st')))
      (case low2 x of (bidx, st) \<Rightarrow> bindE (if ?P st then send_restore E (rs = []) st else Inr st) (\<lambda>st'. restore_tail E rs (bidx, st')))"
      by (simp add: x)
  qed
qed (simp add: lowered_Inr)

section \<open>Collecting containers\<close>

lemma add_container_low:
  assumes "CONTAINER_CAPPING_VALUE \<le> idCap (snd s)"
  shows "lowered (snd \<circ> snd) low3 (length (idBuffer (snd s))) (add_container name s) (add_container name (low2 s))"
proof -
  obtain cm st where s: "s = (cm, st)" by (cases s)
  show ?thesis
  proof (cases "cm name")
    case None
    let ?off = "idNum st * CONTAINER_ID_LENGTH"
    have "ID_BYTES \<le> idCap st * CONTAINER_ID_LENGTH" unfolding ID_BYTES_def using assms by (intro mult_le_mono1) (simp add: s)
    moreover have "length (put (idBuffer st @ replicate (?off - length (idBuffer st)) 0) ?off name) = max (length (idBuffer st)) (?off + length name)"
      by (simp add: put_def)
    ultimately show ?thesis using None assms
      by (auto simp: lowered_def add_container_def memcpyE_def ID_BYTES_def [symmetric] bindE_Inr_iff s split: if_splits)
  qed (use assms in \<open>simp add: add_container_def lowered_Inr s\<close>)
qed

lemma resolve_base_low:
  assumes "CONTAINER_CAPPING_VALUE \<le> idCap (snd s)"
  shows "lowered snd low2 (length (idBuffer (snd s))) (resolve_base E tail i s) (resolve_base E tail i (low2 s))"
proof -
  obtain cm st where s: "s = (cm, st)" by (cases s)
  define q where "q p = (if tail then st\<lparr>baseQuery := (baseQuery st)[i := (baseQuery st ! i)\<lparr>o_chunkAddr := p\<rparr>]\<rparr> else st)" for p
  have q: "(if tail then (low st)\<lparr>baseQuery := (baseQuery (low st))[i := (baseQuery (low st) ! i)\<lparr>o_chunkAddr := p\<rparr>]\<rparr> else low st) = low (q p)"
      "idCap (q p) = idCap st" "idBuffer (q p) = idBuffer st" for p
    by (simp_all add: q_def low_upd)
  have a: "lowered (snd \<circ> snd) low3 (length (idBuffer st)) (add_container n (cm, q p)) (add_container n (cm, low (q p)))" for n p
    using add_container_low [of "(cm, q p)" n] assms by (simp add: s q(2,3))
  show ?thesis unfolding resolve_base_def s Let_def prod.case fst_conv snd_conv q(1) q_def [symmetric]
    by (simp, rule lowered_same, rule lowered_bind [OF a]) (auto simp: low_upd intro!: lowered_Inr split: prod.split)
qed

lemma resolve_bases_low:
  assumes "CONTAINER_CAPPING_VALUE \<le> idCap (snd s)"
  shows "lowered snd low2 (length (idBuffer (snd s))) (resolve_bases E db tail s) (resolve_bases E db tail (low2 s))"
proof -
  obtain cm st where s: "s = (cm, st)" by (cases s)
  let ?st = "st\<lparr>baseQuery := Ocall_QueryBaseIndex db (baseQueryNum st) (baseQuery st)\<rparr>"
  show ?thesis using lowered_fold [of snd low2 "resolve_base E tail" "(cm, ?st)" "[0..<baseQueryNum st]", OF resolve_base_low] assms
    by (simp add: resolve_bases_def s low_upd)
qed

lemma query_delta_low:
  assumes "CONTAINER_CAPPING_VALUE \<le> idCap (snd s)"
  shows "lowered snd low2 (length (idBuffer (snd s))) (query_delta E db f s) (query_delta E db f (low2 s))"
proof -
  obtain cm st where s: "s = (cm, st)" by (cases s)
  have p: "put_query f i (low x) = low (put_query f i x)" "idCap (put_query f i x) = idCap x" "idBuffer (put_query f i x) = idBuffer x" for i x
    by (simp_all add: put_query_def)
  show ?thesis
  proof (cases "baseQueryNum st < BASE_QUERY_SIZE")
    case True
    then show ?thesis using assms by (simp add: query_delta_def s p lowered_Inr)
  next
    case False
    let ?next = "\<lambda>(cm', st'). Inr (cm', put_query f 0 st')"
    have "lowered snd low2 (length (idBuffer (snd s))) (bindE (resolve_bases E db False s) ?next) (bindE (resolve_bases E db False (low2 s)) ?next)"
      by (rule lowered_bind [OF resolve_bases_low [OF assms]]) (auto simp: p intro!: lowered_Inr split: prod.split)
    with False show ?thesis by (simp add: query_delta_def s)
  qed
qed

section \<open>A batch of the recipe\<close>

lemma restore_round_low:
  assumes "CONTAINER_CAPPING_VALUE \<le> idCap (snd s)"
  shows "lowered snd low2 (length (idBuffer (snd s))) (restore_round E db t d s) (restore_round E db t d (low2 s))"
proof -
  have r: "lowered snd low2 (length (idBuffer (snd s)))
      (if baseQueryNum (snd s) \<noteq> 0 then bindE (resolve_bases E db False s) (\<lambda>(cm, st). Inr (cm, st\<lparr>baseQueryNum := 0\<rparr>)) else Inr s)
      (if baseQueryNum (snd (low2 s)) \<noteq> 0 then bindE (resolve_bases E db False (low2 s)) (\<lambda>(cm, st). Inr (cm, st\<lparr>baseQueryNum := 0\<rparr>)) else Inr (low2 s))"
  proof (cases "baseQueryNum (snd s) = 0")
    case False
    let ?next = "\<lambda>(cm, st). Inr (cm, st\<lparr>baseQueryNum := 0\<rparr>)"
    have "lowered snd low2 (length (idBuffer (snd s))) (bindE (resolve_bases E db False s) ?next) (bindE (resolve_bases E db False (low2 s)) ?next)"
      by (rule lowered_bind [OF resolve_bases_low [OF assms]]) (auto simp: low_upd intro!: lowered_Inr split: prod.split)
    with False show ?thesis by simp
  qed (use assms in \<open>simp add: lowered_Inr\<close>)
  show ?thesis unfolding restore_round_def
  proof (rule lowered_bind [OF r])
    fix x :: "con_map \<times> restore_st"
    assume c: "CONTAINER_CAPPING_VALUE \<le> idCap (snd x)"
    obtain cm st where x: "x = (cm, st)" by (cases x)
    have f: "lowered snd low2 (length (idBuffer st)) (foldE (\<lambda>r s. restore_and_send E s r) (enclaveRecipeBuffer st) (0, st\<lparr>req := rq\<rparr>))
        (foldE (\<lambda>r s. restore_and_send E s r) (enclaveRecipeBuffer st) (0, low (st\<lparr>req := rq\<rparr>)))" for rq
      using lowered_fold [of snd low2 "\<lambda>r s. restore_and_send E s r" "(0, st\<lparr>req := rq\<rparr>)", OF restore_and_send_low] c by (simp add: x)
    show "lowered snd low2 (length (idBuffer (snd x)))
       (case x of (cm, st) \<Rightarrow> bindE (GetReqContainers t d (idBuffer st) (idNum st) (req st)) (\<lambda>rq.
          bindE (foldE (\<lambda>r s. restore_and_send E s r) (enclaveRecipeBuffer st) (0, st\<lparr>req := rq\<rparr>)) (\<lambda>(bidx, st').
            Inr (Map.empty, st'\<lparr>idNum := 0, enclaveRecipeBuffer := [], baseRecipeBuffer := [], baseQueryNum := 0\<rparr>))))
       (case low2 x of (cm, st) \<Rightarrow> bindE (GetReqContainers t d (idBuffer st) (idNum st) (req st)) (\<lambda>rq.
          bindE (foldE (\<lambda>r s. restore_and_send E s r) (enclaveRecipeBuffer st) (0, st\<lparr>req := rq\<rparr>)) (\<lambda>(bidx, st').
            Inr (Map.empty, st'\<lparr>idNum := 0, enclaveRecipeBuffer := [], baseRecipeBuffer := [], baseQueryNum := 0\<rparr>))))"
      unfolding x prod.case fst_conv snd_conv low_upd low_same
      by (rule lowered_same, rule lowered_bind [OF f]) (auto simp: low_upd intro!: lowered_Inr split: prod.split)
  qed
qed

lemma proc_entry_low:
  assumes "CONTAINER_CAPPING_VALUE \<le> idCap (snd s)"
  shows "lowered snd low2 (length (idBuffer (snd s))) (proc_entry E db t d recs i s) (proc_entry E db t d recs i (low2 s))"
  unfolding proc_entry_def Let_def
proof (rule lowered_same)
  fix p
  let ?a = "entry_of p"
  let ?er = "\<lambda>n. \<lparr>er_containerID = n, er_offset = addr_offset ?a, er_length = addr_length ?a, er_deltaFlag = deltaFlag ?a\<rparr>"
  let ?fin = "\<lambda>(n, cm, st). let st' = st\<lparr>enclaveRecipeBuffer := enclaveRecipeBuffer st @ [?er n]\<rparr>
     in if CONTAINER_CAPPING_VALUE \<le> idNum st' + baseQueryNum st' then restore_round E db t d (cm, st') else Inr (cm, st')"
  have q: "lowered snd low2 (length (idBuffer (snd s))) (if deltaFlag ?a = delta_code DELTA then query_delta E db (basechunkHash ?a) s else Inr s)
      (if deltaFlag ?a = delta_code DELTA then query_delta E db (basechunkHash ?a) (low2 s) else Inr (low2 s))"
    using query_delta_low [OF assms] assms by (simp add: lowered_Inr)
  have f: "lowered snd low2 (length (idBuffer ((snd \<circ> snd) x))) (?fin x) (?fin (low3 x))" if "CONTAINER_CAPPING_VALUE \<le> idCap ((snd \<circ> snd) x)" for x
  proof -
    obtain n cm st where x: "x = (n, cm, st)" by (cases x)
    define st' where "st' = st\<lparr>enclaveRecipeBuffer := enclaveRecipeBuffer st @ [?er n]\<rparr>"
    have "(low st)\<lparr>enclaveRecipeBuffer := enclaveRecipeBuffer (low st) @ [?er n]\<rparr> = low st'" by (simp add: st'_def)
    moreover have c: "CONTAINER_CAPPING_VALUE \<le> idCap st'" "idBuffer st' = idBuffer st" using that by (simp_all add: st'_def x)
    ultimately show ?thesis using restore_round_low [of "(cm, st')" E db t d]
      by (simp add: x st'_def [symmetric] Let_def lowered_Inr)
  qed
  show "lowered snd low2 (length (idBuffer (snd s)))
      (bindE (if deltaFlag ?a = delta_code DELTA then query_delta E db (basechunkHash ?a) s else Inr s) (\<lambda>s1. bindE (add_container (containerName ?a) s1)
        (\<lambda>(n, cm, st). if CONTAINER_CAPPING_VALUE \<le> idNum (st\<lparr>enclaveRecipeBuffer := enclaveRecipeBuffer st @ [?er n]\<rparr>) +
            baseQueryNum (st\<lparr>enclaveRecipeBuffer := enclaveRecipeBuffer st @ [?er n]\<rparr>)
          then restore_round E db t d (cm, st\<lparr>enclaveRecipeBuffer := enclaveRecipeBuffer st @ [?er n]\<rparr>)
          else Inr (cm, st\<lparr>enclaveRecipeBuffer := enclaveRecipeBuffer st @ [?er n]\<rparr>))))
      (bindE (if deltaFlag ?a = delta_code DELTA then query_delta E db (basechunkHash ?a) (low2 s) else Inr (low2 s)) (\<lambda>s1. bindE (add_container (containerName ?a) s1)
        (\<lambda>(n, cm, st). if CONTAINER_CAPPING_VALUE \<le> idNum (st\<lparr>enclaveRecipeBuffer := enclaveRecipeBuffer st @ [?er n]\<rparr>) +
            baseQueryNum (st\<lparr>enclaveRecipeBuffer := enclaveRecipeBuffer st @ [?er n]\<rparr>)
          then restore_round E db t d (cm, st\<lparr>enclaveRecipeBuffer := enclaveRecipeBuffer st @ [?er n]\<rparr>)
          else Inr (cm, st\<lparr>enclaveRecipeBuffer := enclaveRecipeBuffer st @ [?er n]\<rparr>))))"
    by (rule lowered_bind [OF q], rule lowered_bind [OF add_container_low f [unfolded Let_def]])
qed

lemma ProcRecipeBatch_low: "step_low (ProcRecipeBatch E db t d buf num)"
  unfolding step_low_def ProcRecipeBatch_def
proof (intro allI impI)
  fix st :: restore_st
  assume c: "CONTAINER_CAPPING_VALUE \<le> idCap st"
  have f: "lowered snd low2 (length (idBuffer st)) (foldE (proc_entry E db t d recs) [0..<num] (Map.empty, st))
      (foldE (proc_entry E db t d recs) [0..<num] (Map.empty, low st))" for recs
    using lowered_fold [of snd low2 "proc_entry E db t d recs" "(Map.empty, st)", OF proc_entry_low] c by simp
  show "lowered (\<lambda>x. x) low (length (idBuffer st))
      (bindE (DecryptWithKey (ssl E) CIPHER_TYPE (masterKey E) (take (num * CHUNK_HASH_SIZE) buf)) (\<lambda>fps. bindE (index_keys E num fps) (\<lambda>keys.
         bindE (foldE (proc_entry E db t d (Ocall_ReadIndexStoreBatch num keys db)) [0..<num] (Map.empty, st)) (\<lambda>(cm, st'). Inr st'))))
      (bindE (DecryptWithKey (ssl E) CIPHER_TYPE (masterKey E) (take (num * CHUNK_HASH_SIZE) buf)) (\<lambda>fps. bindE (index_keys E num fps) (\<lambda>keys.
         bindE (foldE (proc_entry E db t d (Ocall_ReadIndexStoreBatch num keys db)) [0..<num] (Map.empty, low st)) (\<lambda>(cm, st'). Inr st'))))"
    by (rule lowered_same, rule lowered_same, rule lowered_bind [OF f]) (auto intro: lowered_Inr split: prod.split)
qed

lemma ProcRecipeTailBatch_low: "step_low (ProcRecipeTailBatch E db t d)"
  unfolding step_low_def
proof (intro allI impI)
  fix st :: restore_st
  assume c: "CONTAINER_CAPPING_VALUE \<le> idCap st"
  show "lowered (\<lambda>x. x) low (length (idBuffer st)) (ProcRecipeTailBatch E db t d st) (ProcRecipeTailBatch E db t d (low st))"
  proof (cases "enclaveRecipeBuffer st = []")
    case True
    then show ?thesis using step_lowD [OF send_restore_low [where P = "\<lambda>st. True"] c] by (simp add: ProcRecipeTailBatch_def)
  next
    case False
    have b: "lowered snd low2 (length (idBuffer st)) (resolve_bases E db True (Map.empty, st)) (resolve_bases E db True (Map.empty, low st))"
      using resolve_bases_low [of "(Map.empty, st)"] c by simp
    let ?fin = "\<lambda>(cm, st1). bindE (GetReqContainers t d (idBuffer (st1\<lparr>baseQueryNum := 0\<rparr>)) (idNum (st1\<lparr>baseQueryNum := 0\<rparr>)) (req (st1\<lparr>baseQueryNum := 0\<rparr>)))
        (\<lambda>rq. restore_tail E (enclaveRecipeBuffer (st1\<lparr>baseQueryNum := 0\<rparr>)) (0, st1\<lparr>baseQueryNum := 0, req := rq\<rparr>))"
    have f: "lowered (\<lambda>x. x) low (length (idBuffer (snd x))) (?fin x) (?fin (low2 x))" if "CONTAINER_CAPPING_VALUE \<le> idCap (snd x)" for x :: "con_map \<times> restore_st"
    proof -
      obtain cm st1 where x: "x = (cm, st1)" by (cases x)
      have i: "lowered (\<lambda>x. x) low (length (idBuffer st1)) (restore_tail E rs (0, st1\<lparr>baseQueryNum := 0, req := rq\<rparr>))
          (restore_tail E rs (0, low (st1\<lparr>baseQueryNum := 0, req := rq\<rparr>)))" for rs rq
        using restore_tail_low [of "(0, st1\<lparr>baseQueryNum := 0, req := rq\<rparr>)"] that by (simp add: x)
      then show ?thesis unfolding x by (simp add: low_upd lowered_same)
    qed
    from lowered_bind [OF b f] False show ?thesis by (simp add: ProcRecipeTailBatch_def Let_def)
  qed
qed

section \<open>The whole restore\<close>

lemma recipe_loop_low: "step_low (recipe_loop E db t d rf)"
  unfolding step_low_def
proof (induction "length rf" arbitrary: rf rule: less_induct)
  case less
  let ?n = "CHUNK_HASH_SIZE * sendRecipeBatchSize E"
  show ?case
  proof (intro allI impI)
    fix st :: restore_st
    assume c: "CONTAINER_CAPPING_VALUE \<le> idCap st"
    show "lowered (\<lambda>x. x) low (length (idBuffer st)) (recipe_loop E db t d rf st) (recipe_loop E db t d rf (low st))"
    proof (cases "take ?n rf = []")
      case True
      then show ?thesis using c by (simp add: recipe_loop.simps [of E db t d rf] Let_def lowered_Inr)
    next
      case False
      then have "length (drop ?n rf) < length rf" by auto
      note ih = less.hyps [OF this, rule_format]
      let ?k = "length (take ?n rf) div CHUNK_HASH_SIZE"
      let ?next = "\<lambda>st'. if length (take ?n rf) < ?n then Inr st' else recipe_loop E db t d (drop ?n rf) st'"
      have i: "lowered (\<lambda>x. x) low (length (idBuffer st')) (?next st') (?next (low st'))" if "CONTAINER_CAPPING_VALUE \<le> idCap st'" for st'
        using ih [OF that] that by (simp add: lowered_Inr)
      from lowered_bind [OF step_lowD [OF ProcRecipeBatch_low c] i]
      have "lowered (\<lambda>x. x) low (length (idBuffer st)) (bindE (ProcRecipeBatch E db t d (take ?n rf) ?k st) ?next)
          (bindE (ProcRecipeBatch E db t d (take ?n rf) ?k (low st)) ?next)" .
      then show ?thesis using False unfolding recipe_loop.simps [of E db t d rf] Let_def by (simp only: if_False)
    qed
  qed
qed

lemma RecvDecoder_Run_low: "step_low (RecvDecoder_Run E db t d rf)"
  unfolding step_low_def RecvDecoder_Run_def
  by (intro allI impI lowered_bind [OF step_lowD [OF recipe_loop_low]] step_lowD [OF ProcRecipeTailBatch_low])

text \<open>
  The bytes of container identifiers that a restore collects at the same time, found with room
  for one identifier more than the program has.
\<close>

definition roomy_start :: "bytes list \<Rightarrow> OutQueryEntry list \<Rightarrow> restore_st" where
  "roomy_start slots queries = (InitRestoreBuffer 64 slots queries)\<lparr>idCap := Suc CONTAINER_CAPPING_VALUE\<rparr>"

definition id_bytes :: "enclave \<Rightarrow> InMemoryDatabase \<Rightarrow> string \<Rightarrow> disk \<Rightarrow> bytes \<Rightarrow> bytes list \<Rightarrow> OutQueryEntry list \<Rightarrow> nat" where
  "id_bytes E db t d rf slots queries =
    (case RecvDecoder_Run E db t d rf (roomy_start slots queries) of Inl _ \<Rightarrow> 0 | Inr rs \<Rightarrow> length (idBuffer rs))"

lemma restore_room:
  assumes "RecvDecoder_Run E db t d rf (roomy_start slots queries) = Inr rs"
  shows "RecvDecoder_Run E db t d rf (InitRestoreBuffer 64 slots queries) =
    (if id_bytes E db t d rf slots queries \<le> ID_BYTES then Inr (low rs) else Inl WriteOutside)"
proof -
  have "low (roomy_start slots queries) = InitRestoreBuffer 64 slots queries" "idBuffer (roomy_start slots queries) = []"
      "CONTAINER_CAPPING_VALUE \<le> idCap (roomy_start slots queries)"
    by (simp_all add: roomy_start_def InitRestoreBuffer_def)
  with step_lowD [OF RecvDecoder_Run_low, of "roomy_start slots queries" E db t d rf] assms show ?thesis
    by (simp add: lowered_def id_bytes_def)
qed

end
