(* ===== verification/RestoreProps.thy ===== *)
theory RestoreProps
  imports RestoreCorrect RestoreRoom
begin

text \<open>
  The tail batch and the loop over the recipe file, and the theorem about the restore of a file.
\<close>

section \<open>The tail batch\<close>

lemma out_inv_final:
  assumes "evp_ok (ssl E)" "out_inv E dn st"
  shows "\<exists>st'. send_restore E True st = Inr st' \<and> all_sent E dn st'"
proof -
  obtain xss xs where x: "dn = concat xss @ xs" "list_all2 (carries E) xss (sent st)" "restoreData st = frames xs" "restoreItemNum st = length xs" "length xs < sendChunkBatchSize E"
    using assms(2) by (auto simp: out_inv_def)
  obtain c where c: "send_restore E True st = Inr (st\<lparr>sent := sent st @ [SERVER_RESTORE_FINAL (length xs) c], restoreData := [], restoreItemNum := 0\<rparr>)"
      "client_SessionKeyDec (ssl E) (sessionKey E) c = Inr (frames xs)"
    using send_restore_ok [OF assms(1), of True st] x by auto
  have "all_sent E dn (st\<lparr>sent := sent st @ [SERVER_RESTORE_FINAL (length xs) c], restoreData := [], restoreItemNum := 0\<rparr>)"
    unfolding all_sent_def using x c(2)
    by (intro exI [of _ xss] exI [of _ xs] exI [of _ "sent st"] exI [of _ "SERVER_RESTORE_FINAL (length xs) c"]) (auto simp: carries_final_def)
  with c(1) show ?thesis by blast
qed

text \<open>The last chunk goes with the final message, even where the batch is full.\<close>

lemma send_last:
  assumes "evp_ok (ssl E)" "out_inv E dn st" "chunk_ok m"
  shows "\<exists>st'. send_restore E True (appended m st) = Inr st' \<and> all_sent E (dn @ [m]) st'"
proof -
  obtain xss xs where x: "dn = concat xss @ xs" "list_all2 (carries E) xss (sent st)" "restoreData st = frames xs" "restoreItemNum st = length xs" "length xs < sendChunkBatchSize E"
    using assms(2) by (auto simp: out_inv_def)
  let ?a = "appended m st" and ?xs = "xs @ [m]"
  have a: "restoreData ?a = frames ?xs" "restoreItemNum ?a = length ?xs" "sent ?a = sent st" using x by (simp_all add: appended_def)
  obtain c where c: "send_restore E True ?a = Inr (?a\<lparr>sent := sent st @ [SERVER_RESTORE_FINAL (length ?xs) c], restoreData := [], restoreItemNum := 0\<rparr>)"
      "client_SessionKeyDec (ssl E) (sessionKey E) c = Inr (frames ?xs)"
    using send_restore_ok [OF assms(1), of True ?a] by (auto simp: a)
  have "all_sent E (dn @ [m]) (?a\<lparr>sent := sent st @ [SERVER_RESTORE_FINAL (length ?xs) c], restoreData := [], restoreItemNum := 0\<rparr>)"
    unfolding all_sent_def using x(1,2,5) c(2)
    by (intro exI [of _ xss] exI [of _ ?xs] exI [of _ "sent st"] exI [of _ "SERVER_RESTORE_FINAL (length ?xs) c"]) (auto simp: carries_final_def)
  with c(1) show ?thesis by blast
qed

lemma restore_tail_ok:
  assumes "evp_ok (ssl E)" "lz4_ok E" "\<forall>m \<in> S. chunk_ok m"
  shows "list_all2 (pending E S w db st) ps rs \<Longrightarrow> slots_ok w st \<Longrightarrow> out_inv E dn st \<Longrightarrow> ps \<noteq> [] \<Longrightarrow>
    list_all2 (base_pending E S w db st) (filter is_delta ps) (drop bidx (baseRecipeBuffer st)) \<Longrightarrow>
    \<exists>st'. restore_tail E rs (bidx, st) = Inr st' \<and> all_sent E (dn @ map fst ps) st'"
proof (induction ps arbitrary: rs st dn bidx)
  case (Cons p ps)
  obtain r rs' where rs: "rs = r # rs'" "pending E S w db st p r" "list_all2 (pending E S w db st) ps rs'"
    using Cons.prems(1) by (auto simp: list_all2_Cons1)
  obtain b1 where b1: "restore_one E r (bidx, st) = Inr (b1, appended (fst p) st)"
      "list_all2 (base_pending E S w db st) (filter is_delta ps) (drop b1 (baseRecipeBuffer st))"
    using restore_one_ok [OF assms(2,3) Cons.prems(2,3) rs(2) Cons.prems(5)] by blast
  have m: "chunk_ok (fst p)" using rs(2) by (simp add: pending_def clear_chunk_def)
  show ?case
  proof (cases "ps = []")
    case True
    then have "rs' = []" using rs(3) by simp
    moreover obtain st' where "send_restore E True (appended (fst p) st) = Inr st'" "all_sent E (dn @ [fst p]) st'"
      using send_last [OF assms(1) Cons.prems(3) m] by blast
    ultimately show ?thesis using True b1(1) rs(1) by simp
  next
    case False
    then have ne: "rs' \<noteq> []" using rs(3) by auto
    obtain st1 where st1: "(if restoreItemNum (appended (fst p) st) mod sendChunkBatchSize E = 0 then send_restore E False (appended (fst p) st)
          else Inr (appended (fst p) st)) = Inr st1" "out_le st st1" "out_inv E (dn @ [fst p]) st1"
      using send_full [OF assms(1) Cons.prems(3) m] by blast
    have "list_all2 (pending E S w db st1) ps rs'" "slots_ok w st1"
        "list_all2 (base_pending E S w db st1) (filter is_delta ps) (drop b1 (baseRecipeBuffer st1))"
      using rs(3) b1(2) Cons.prems(2) by (simp_all add: pending_same [OF st1(2)] out_le_same [OF st1(2)])
    from Cons.IH [OF this(1,2) st1(3) False this(3)] obtain st' where
        "restore_tail E rs' (b1, st1) = Inr st'" "all_sent E ((dn @ [fst p]) @ map fst ps) st'" by blast
    moreover have "restore_tail E rs (bidx, st) = restore_tail E rs' (b1, st1)" 
      unfolding rs(1) restore_tail.simps b1(1) using ne st1(1) by (auto split: if_splits)
    ultimately show ?thesis by simp
  qed
qed simp

lemma ProcRecipeTailBatch_ok:
  assumes "evp_ok (ssl E)" "lz4_ok E" "\<forall>m \<in> S. chunk_ok m" "db_inv E S (files_of t d) db" "sized t d" "CONTAINER_CAPPING_VALUE \<le> cap"
    "recipe_loop_inv E S t d db cap ms (Map.empty, st)"
  shows "\<exists>st'. ProcRecipeTailBatch E db t d st = Inr st' \<and> all_sent E ms st'"
proof -
  obtain dn ps where l: "ms = dn @ map fst ps" "pend_inv E S t d db Map.empty ps st" "out_inv E dn st" "idNum st + baseQueryNum st \<le> idCap st"
      "idNum st + baseQueryNum st \<le> CONTAINERARRAY_VALUE"
    using assms(6,7) by (auto simp: recipe_loop_inv_def CONTAINER_CAPPING_VALUE_def CONTAINERARRAY_VALUE_def)
  have e: "list_all2 (pending E S (files_of t d) db st) ps (enclaveRecipeBuffer st)" using l(2) by (simp add: pend_inv_def)
  show ?thesis
  proof (cases "ps = []")
    case True
    then have "enclaveRecipeBuffer st = []" using e by simp
    then show ?thesis using True l(1) out_inv_final [OF assms(1) l(3)] by (simp add: ProcRecipeTailBatch_def)
  next
    case False
    then have ne: "enclaveRecipeBuffer st \<noteq> []" using e by auto
    obtain cm1 st1 rq where s: "resolve_bases E db True (Map.empty, st) = Inr (cm1, st1)" "coll st1 = coll st"
        "GetReqContainers t d (idBuffer st1) (idNum st1) (req st1) = Inr rq" "ready E S t d db ps (st1\<lparr>baseQueryNum := 0, req := rq\<rparr>)"
      using prepare_ok [OF assms(1,4,5) l(2,4,5)] by metis
    define st2 where "st2 = st1\<lparr>baseQueryNum := 0, req := rq\<rparr>"
    have r: "list_all2 (pending E S (files_of t d) db st2) ps (enclaveRecipeBuffer st2)" "slots_ok (files_of t d) st2"
        "list_all2 (base_pending E S (files_of t d) db st2) (filter is_delta ps) (drop 0 (baseRecipeBuffer st2))"
      using s(4) by (simp_all add: ready_def st2_def [symmetric])
    have "out_inv E dn st2" using s(2) l(3) out_inv_same [of st2 st] by (simp add: coll_def st2_def)
    from restore_tail_ok [OF assms(1-3) r(1,2) this False r(3)] obtain st' where
        "restore_tail E (enclaveRecipeBuffer st2) (0, st2) = Inr st'" "all_sent E (dn @ map fst ps) st'" by blast
    then show ?thesis using ne s(1,3) l(1) by (simp add: ProcRecipeTailBatch_def Let_def st2_def)
  qed
qed

section \<open>The loop over the recipe file\<close>

text \<open>A batch of the file is the fingerprints of some of the chunks.\<close>

lemma fps_split:
  assumes "\<forall>f \<in> set fs. length f = CHUNK_HASH_SIZE" "p @ r = concat fs" "length p = k * CHUNK_HASH_SIZE"
  shows "p = concat (take k fs)" "r = concat (drop k fs)" "k \<le> length fs"
proof -
  have l: "length (concat fs) = length fs * CHUNK_HASH_SIZE" by (rule length_concat_fps [OF assms(1)])
  have "length p + length r = length fs * CHUNK_HASH_SIZE" using arg_cong [OF assms(2), of length] l by simp
  then show k: "k \<le> length fs" using assms(3) by (simp add: CHUNK_HASH_SIZE_def)
  have "\<forall>f \<in> set (take k fs). length f = CHUNK_HASH_SIZE" using assms(1) by (auto dest: in_set_takeD)
  from length_concat_fps [OF this] have "length (concat (take k fs)) = length p" using k assms(3) by simp
  moreover have "concat (take k fs) @ concat (drop k fs) = p @ r" unfolding assms(2) concat_append [symmetric] by simp
  ultimately show "p = concat (take k fs)" "r = concat (drop k fs)" by auto
qed

lemma recipe_loop_ok:
  assumes "evp_ok (ssl E)" "lz4_ok E" "\<forall>m \<in> S. chunk_ok m" "db_inv E S (files_of t d) db" "sized t d" "0 < sendRecipeBatchSize E"
  shows "recipe_loop_inv E S t d db cap ms (Map.empty, st) \<Longrightarrow> read_recipe E rf = Inr (concat (map (hashfp E) ns)) \<Longrightarrow>
    \<forall>m \<in> set ns. m \<in> S \<and> clear_chunk E S (files_of t d) db m \<and> room_for E (files_of t d) db cap m \<Longrightarrow>
    \<exists>st'. recipe_loop E db t d rf st = Inr st' \<and> recipe_loop_inv E S t d db cap (ms @ ns) (Map.empty, st')"
proof (induction "length rf" arbitrary: rf ms ns st rule: less_induct)
  case less
  let ?n = "CHUNK_HASH_SIZE * sendRecipeBatchSize E"
  let ?k = "length (take ?n rf) div CHUNK_HASH_SIZE"
  have pos: "0 < ?n" using assms(6) by (simp add: CHUNK_HASH_SIZE_def)
  show ?case
  proof (cases "rf = []")
    case True
    then have "concat (map (hashfp E) ns) = []" using less.prems(2) by simp
    then have "hashfp E x = []" if "x \<in> set ns" for x using that by simp
    then have "ns = []" using hashfp_ok(2) [OF assms(1)] by (metis CHUNK_HASH_SIZE_def list.size(3) list.set_intros(1) neq_Nil_conv zero_neq_numeral)
    then show ?thesis using True less.prems(1) by (simp add: recipe_loop.simps [of E db t d "[]"])
  next
    case False
    then have ne0: "(length (take ?n rf) = 0) = False" using pos by simp
    obtain p r where dec: "DecryptWithKey (ssl E) CIPHER_TYPE (masterKey E) (take (?k * CHUNK_HASH_SIZE) (take ?n rf)) = Inr p"
        "read_recipe E (drop ?n rf) = Inr r" "p @ r = concat (map (hashfp E) ns)"
      using less.prems(2) ne0 unfolding read_recipe.simps [of E rf] Let_def by (simp only: if_False bindE_Inr_iff sum.inject) blast
    have lp: "length p = ?k * CHUNK_HASH_SIZE" using DecryptWithKey_length [OF dec(1)] div_times_less_eq_dividend [of "length (take ?n rf)" CHUNK_HASH_SIZE]
      unfolding length_take [of _ "take ?n rf"] by linarith
    have "\<forall>f \<in> set (map (hashfp E) ns). length f = CHUNK_HASH_SIZE" using hashfp_ok(2) [OF assms(1)] by auto
    note sp = fps_split [OF this dec(3) lp]
    let ?now = "take ?k ns"
    have k: "length ?now = ?k" using sp(3) by simp
    have in1: "\<forall>m \<in> set ?now. m \<in> S \<and> clear_chunk E S (files_of t d) db m \<and> room_for E (files_of t d) db cap m" using less.prems(3) by (auto dest: in_set_takeD)
    have in2: "\<forall>m \<in> set (drop ?k ns). m \<in> S \<and> clear_chunk E S (files_of t d) db m \<and> room_for E (files_of t d) db cap m" using less.prems(3) by (auto dest: in_set_dropD)
    obtain st1 where st1: "ProcRecipeBatch E db t d (take ?n rf) ?k st = Inr st1" "recipe_loop_inv E S t d db cap (ms @ ?now) (Map.empty, st1)"
      using ProcRecipeBatch_ok [OF assms(1-5) in1 less.prems(1), of "take ?n rf"] dec(1) sp(1) unfolding k by (auto simp: take_map)
    have ne: "take ?n rf \<noteq> []" using False pos by simp
    have rest: "read_recipe E (drop ?n rf) = Inr (concat (map (hashfp E) (drop ?k ns)))" using dec(2) sp(2) by (simp add: drop_map)
    obtain st2 where st2: "recipe_loop E db t d (drop ?n rf) st1 = Inr st2" "recipe_loop_inv E S t d db cap ((ms @ ?now) @ drop ?k ns) (Map.empty, st2)"
      using less.hyps [OF _ st1(2) rest in2] False pos by auto
    have "recipe_loop E db t d rf st = Inr st2"
    proof (cases "length (take ?n rf) < ?n")
      case True
      then have "recipe_loop E db t d (drop ?n rf) st1 = Inr st1" by (simp add: recipe_loop.simps [of E db t d "[]"])
      then show ?thesis using True ne st1(1) st2(1) unfolding recipe_loop.simps [of E db t d rf] Let_def by simp
    next
      case False
      then show ?thesis using ne st1(1) st2(1) unfolding recipe_loop.simps [of E db t d rf] Let_def by simp
    qed
    then show ?thesis using st2(2) by simp
  qed
qed

section \<open>The whole restore\<close>

lemma start_restore:
  assumes "CONTAINERARRAY_VALUE \<le> length slots" "BASE_QUERY_SIZE \<le> length queries" "0 < sendChunkBatchSize E"
  shows "recipe_loop_inv E S t d db cap [] (Map.empty, (InitRestoreBuffer 64 slots queries)\<lparr>idCap := cap\<rparr>)"
proof -
  let ?st = "(InitRestoreBuffer 64 slots queries)\<lparr>idCap := cap\<rparr>"
  have "cache_look (ReadCache_new 64) = Map.empty" by (simp add: cache_look_def ReadCache_new_def lru_new_def fun_eq_iff)
  then have "rc.agrees (files_of t d) (containerCache (req ?st))" using cache_inv_new(1) by (simp add: rc.agrees_def InitRestoreBuffer_def)
  then have "pend_inv E S t d db Map.empty [] ?st" using assms(1,2)
    by (simp add: pend_inv_def InitRestoreBuffer_def id_inv_def map_inv_def bases_inv_def)
  moreover have "out_inv E [] ?st" using assms(3) by (auto simp: out_inv_def InitRestoreBuffer_def)
  ultimately show ?thesis by (auto simp: recipe_loop_inv_def InitRestoreBuffer_def CONTAINER_CAPPING_VALUE_def)
qed

lemma restore_chunks:
  assumes "evp_ok (ssl E)" "lz4_ok E" "0 < sendRecipeBatchSize E" "0 < sendChunkBatchSize E"
    "\<forall>m \<in> S. chunk_ok m" "db_inv E S (files_of t d) db" "sized t d" "set ms \<subseteq> S"
    "read_recipe E rf = Inr (concat (map (hashfp E) ms))" "\<forall>m \<in> set ms. clear_chunk E S (files_of t d) db m"
    "CONTAINERARRAY_VALUE \<le> length slots" "BASE_QUERY_SIZE \<le> length queries"
    "\<forall>m \<in> set ms. room_for E (files_of t d) db cap m" "CONTAINER_CAPPING_VALUE \<le> cap"
  shows "\<exists>rs. RecvDecoder_Run E db t d rf ((InitRestoreBuffer 64 slots queries)\<lparr>idCap := cap\<rparr>) = Inr rs \<and> all_sent E ms rs"
proof -
  have "\<forall>m \<in> set ms. m \<in> S \<and> clear_chunk E S (files_of t d) db m \<and> room_for E (files_of t d) db cap m"
    using assms(8,10,13) by auto
  from recipe_loop_ok [OF assms(1,2,5-7,3) start_restore [OF assms(11,12,4)] assms(9) this]
  obtain rs where rs: "recipe_loop E db t d rf ((InitRestoreBuffer 64 slots queries)\<lparr>idCap := cap\<rparr>) = Inr rs"
      "recipe_loop_inv E S t d db cap ([] @ ms) (Map.empty, rs)" by blast
  then have "recipe_loop_inv E S t d db cap ms (Map.empty, rs)" by simp
  from ProcRecipeTailBatch_ok [OF assms(1,2,5-7,14) this] rs(1) show ?thesis by (auto simp: RecvDecoder_Run_def)
qed

text \<open>The outcome of a restore with the buffers of the program.\<close>

definition restores ::
  "enclave \<Rightarrow> InMemoryDatabase \<Rightarrow> string \<Rightarrow> disk \<Rightarrow> bytes \<Rightarrow> bytes list \<Rightarrow> OutQueryEntry list \<Rightarrow> bytes list \<Rightarrow> bool" where
  "restores E db t d rf slots queries ms \<longleftrightarrow> (\<exists>rs. all_sent E ms rs \<and>
     RecvDecoder_Run E db t d rf (InitRestoreBuffer 64 slots queries) =
       (if id_bytes E db t d rf slots queries \<le> ID_BYTES then Inr rs else Inl WriteOutside))"

lemma restore_exact:
  assumes "evp_ok (ssl E)" "lz4_ok E" "0 < sendRecipeBatchSize E" "0 < sendChunkBatchSize E"
    "\<forall>m \<in> S. chunk_ok m" "db_inv E S (files_of t d) db" "sized t d" "set ms \<subseteq> S"
    "read_recipe E rf = Inr (concat (map (hashfp E) ms))" "\<forall>m \<in> set ms. clear_chunk E S (files_of t d) db m"
    "CONTAINERARRAY_VALUE \<le> length slots" "BASE_QUERY_SIZE \<le> length queries"
  shows "restores E db t d rf slots queries ms"
    "\<forall>m \<in> set ms. base_at E (files_of t d) db m \<Longrightarrow> id_bytes E db t d rf slots queries \<le> ID_BYTES"
proof -
  have "\<forall>m \<in> set ms. room_for E (files_of t d) db (Suc CONTAINER_CAPPING_VALUE) m" by (simp add: room_for_def)
  from restore_chunks [OF assms this] obtain rs where rs: "RecvDecoder_Run E db t d rf (roomy_start slots queries) = Inr rs" "all_sent E ms rs"
    by (auto simp: roomy_start_def)
  have "all_sent E ms (low rs)" using rs(2) by (simp add: all_sent_def)
  with restore_room [OF rs(1)] show "restores E db t d rf slots queries ms" by (auto simp: restores_def)
  assume "\<forall>m \<in> set ms. base_at E (files_of t d) db m"
  then have "\<forall>m \<in> set ms. room_for E (files_of t d) db CONTAINER_CAPPING_VALUE m" by (simp add: room_for_def)
  from restore_chunks [OF assms this order_refl] have "\<exists>x. RecvDecoder_Run E db t d rf (InitRestoreBuffer 64 slots queries) = Inr x"
    by (auto simp: InitRestoreBuffer_def)
  with restore_room [OF rs(1)] show "id_bytes E db t d rf slots queries \<le> ID_BYTES" by (auto split: if_splits)
qed

lemma restore_sends:
  assumes "evp_ok (ssl E)" "lz4_ok E" "0 < sendRecipeBatchSize E" "0 < sendChunkBatchSize E" "idle_inv E t S st" "set ms \<subseteq> S"
    "read_recipe E rf = Inr (concat (map (hashfp E) ms))" "\<forall>m \<in> set ms. clear_chunk E S (files_of t (cdisk st)) (outdb st) m"
    "CONTAINERARRAY_VALUE \<le> length slots" "BASE_QUERY_SIZE \<le> length queries"
  shows "restores E (outdb st) t (cdisk st) rf slots queries ms"
    "\<forall>m \<in> set ms. base_at E (files_of t (cdisk st)) (outdb st) m \<Longrightarrow> id_bytes E (outdb st) t (cdisk st) rf slots queries \<le> ID_BYTES"
proof -
  have i: "db_inv E S (files_of t (cdisk st)) (outdb st)" "\<forall>m \<in> S. chunk_ok m" "sized t (cdisk st)"
    using assms(5) sized_disk [of "cdisk st" t] by (auto simp: idle_inv_def)
  note r = restore_exact [OF assms(1-4) i(2,1,3) assms(6-10)]
  show "restores E (outdb st) t (cdisk st) rf slots queries ms"
    "\<forall>m \<in> set ms. base_at E (files_of t (cdisk st)) (outdb st) m \<Longrightarrow> id_bytes E (outdb st) t (cdisk st) rf slots queries \<le> ID_BYTES"
    by (fact r)+
qed

text \<open>
  C3: a restore, with the buffers the program allocates. The recipe of a file whose chunks are stored
  gives back the chunks of the file, in their order and nothing else: every message decrypts to the
  chunks it announces and the last one is the final message. There is one exception, stated exactly: the
  buffer holds sixteen container identifiers, and where the collected containers of chunks and bases
  need a seventeenth (\<open>id_bytes\<close>), the restore writes outside this buffer. A file without deltas never
  does. Required of each chunk of the file is that, if it is stored whole, it is not taken for compressed
  data by mistake, and if it is stored as a delta, it is at most twice as long as the delta and its own
  base together (the size of the decoder's buffer).
\<close>

theorem restore_correct:
  assumes "evp_ok (ssl E)" "lz4_ok E" "0 < sendRecipeBatchSize E" "0 < sendChunkBatchSize E" "idle_inv E t S st" "set ms \<subseteq> S"
    "read_recipe E rf = Inr (concat (map (hashfp E) ms))" "\<forall>m \<in> set ms. clear_chunk E S (files_of t (cdisk st)) (outdb st) m"
    "CONTAINERARRAY_VALUE \<le> length slots" "BASE_QUERY_SIZE \<le> length queries"
  shows "\<exists>rs. RecvDecoder_Run E (outdb st) t (cdisk st) rf (InitRestoreBuffer 64 slots queries) =
      (if id_bytes E (outdb st) t (cdisk st) rf slots queries \<le> ID_BYTES then Inr rs else Inl WriteOutside) \<and> all_sent E ms rs \<and>
    ((\<forall>m \<in> set ms. base_at E (files_of t (cdisk st)) (outdb st) m) \<longrightarrow> id_bytes E (outdb st) t (cdisk st) rf slots queries \<le> ID_BYTES)"
  using restore_sends [OF assms] unfolding restores_def by blast

theorem restore_correct_witness:
  "\<exists>rv rs. server_upload toy_enclave ''.c'' sample_mem
      [(sample_writer, CLIENT_UPLOAD_CHUNK sample_data 2), (sample_writer, CLIENT_UPLOAD_RECIPE_END (replicate 16 5))] sample_rv = Inr rv \<and>
    all_sent toy_enclave [[1, 2], [3, 4]] rs \<and>
    RecvDecoder_Run toy_enclave (outdb (r_st rv)) ''.c'' (cdisk (r_st rv)) (recipeFile (up (r_st rv)))
      (InitRestoreBuffer 64 (replicate 50 []) (m_outq sample_mem)) =
    (if id_bytes toy_enclave (outdb (r_st rv)) ''.c'' (cdisk (r_st rv)) (recipeFile (up (r_st rv))) (replicate 50 []) (m_outq sample_mem) \<le> ID_BYTES
     then Inr rs else Inl WriteOutside)"
proof -
  obtain rv where rv: "server_upload toy_enclave ''.c'' sample_mem
      [(sample_writer, CLIENT_UPLOAD_CHUNK sample_data 2), (sample_writer, CLIENT_UPLOAD_RECIPE_END (replicate 16 5))] sample_rv = Inr rv"
      "idle_inv toy_enclave ''.c'' {[1, 2], [3, 4]} (r_st rv)" "read_recipe toy_enclave (recipeFile (up (r_st rv))) = Inr (concat (map (hashfp toy_enclave) [[1, 2], [3, 4]]))"
    using sample_uploaded by blast
  have E: "evp_ok (ssl toy_enclave)" "0 < sendRecipeBatchSize toy_enclave" "0 < sendChunkBatchSize toy_enclave"
    by (simp_all add: toy_enclave_def toy_evp_ok)
  have cl: "\<forall>m \<in> set [[1, 2], [3, 4]]. clear_chunk toy_enclave {[1, 2], [3, 4]} (files_of ''.c'' (cdisk (r_st rv))) (outdb (r_st rv)) m"
    by (auto intro!: clear_chunkI simp: toy_text chunk_ok_def size_consts)
  have r: "CONTAINERARRAY_VALUE \<le> length (replicate 50 [])" "BASE_QUERY_SIZE \<le> length (m_outq sample_mem)"
    by (simp_all add: CONTAINERARRAY_VALUE_def BASE_QUERY_SIZE_def sample_mem_def)
  from restore_correct [OF E(1) toy_lz4 E(2,3) rv(2) _ rv(3) cl r] rv(1) show ?thesis by auto
qed

end
