(* ===== verification/Client.thy ===== *)
theory Client
  imports Chunker RestoreProps
begin

text \<open>
  The client: sending the chunks of a file in batches (\<open>dataSender.cc\<close>), receiving the chunks of a
  restore (\<open>dataRetriever.cc\<close>) and writing them (\<open>restoreWriter.cc\<close>), and the whole path of a file to the
  server and back. The session key is the one agreed with the enclave.
\<close>

section \<open>Sending\<close>

record sender_st =
  snd_data :: bytes
  snd_num :: nat
  snd_batches :: nat
  snd_msgs :: "client_msg list"

definition DataSender_new :: sender_st where
  "DataSender_new = \<lparr>snd_data = [], snd_num = 0, snd_batches = 0, snd_msgs = []\<rparr>"

definition SendChunks :: "enclave \<Rightarrow> sender_st \<Rightarrow> fault + sender_st" where
  "SendChunks E s =
    bindE (client_SessionKeyEnc (ssl E) (sessionKey E) (snd_data s)) (\<lambda>c.
      Inr (s\<lparr>snd_msgs := snd_msgs s @ [CLIENT_UPLOAD_CHUNK c (snd_num s)], snd_num := 0, snd_data := [], snd_batches := Suc (snd_batches s)\<rparr>))"

text \<open>The send buffer has room for \<open>sendChunkBatchSize\<close> chunks with their sizes.\<close>

definition ProcessChunk :: "enclave \<Rightarrow> bytes \<Rightarrow> sender_st \<Rightarrow> fault + sender_st" where
  "ProcessChunk E m s =
    (if sendChunkBatchSize E * (4 + MAX_CHUNK_SIZE) < length (snd_data s) + 4 + length m then Inl WriteOutside
     else let s1 = s\<lparr>snd_data := snd_data s @ le32 (word_of_nat (length m)) @ m, snd_num := Suc (snd_num s)\<rparr>
          in if snd_num s1 mod sendChunkBatchSize E = 0 then SendChunks E s1 else Inr s1)"

text \<open>The head of the recipe is sent without encryption, in the same buffer.\<close>

definition ProcessRecipeEnd :: "enclave \<Rightarrow> bytes \<Rightarrow> sender_st \<Rightarrow> fault + sender_st" where
  "ProcessRecipeEnd E h s =
    bindE (if snd_num s \<noteq> 0 then SendChunks E s else Inr s) (\<lambda>s1.
      Inr (s1\<lparr>snd_data := h, snd_msgs := snd_msgs s1 @ [CLIENT_UPLOAD_RECIPE_END h]\<rparr>))"

fun sender_item :: "enclave \<Rightarrow> data_item \<Rightarrow> sender_st \<Rightarrow> fault + sender_st" where
  "sender_item E (DataChunk m) s = ProcessChunk E m s"
| "sender_item E (RecipeEnd h) s = ProcessRecipeEnd E h s"

section \<open>Receiving\<close>

record retr_st =
  rt_chunks :: "bytes list"
  totalRecvChunkNum :: u64
  totalRecvDataSize :: u64

definition DataRetriever_new :: retr_st where
  "DataRetriever_new = \<lparr>rt_chunks = [], totalRecvChunkNum = 0, totalRecvDataSize = 0\<rparr>"

fun take_chunks :: "nat \<Rightarrow> bytes \<Rightarrow> nat \<Rightarrow> fault + bytes list" where
  "take_chunks 0 dec off = Inr []"
| "take_chunks (Suc n) dec off =
    (let sz = unat (rd32 (drop off dec))
     in if length dec < off + 4 + sz then Inl ReadOutside
        else if MAX_CHUNK_SIZE < sz then Inl WriteOutside
        else bindE (take_chunks n dec (off + 4 + sz)) (\<lambda>ms. Inr (seg (off + 4) sz dec # ms)))"

definition ProcessChunkBatch :: "enclave \<Rightarrow> nat \<Rightarrow> bytes \<Rightarrow> retr_st \<Rightarrow> fault + retr_st" where
  "ProcessChunkBatch E n c rt =
    bindE (client_SessionKeyDec (ssl E) (sessionKey E) c) (\<lambda>dec.
      if sendChunkBatchSize E * (4 + MAX_CHUNK_SIZE) < length dec then Inl WriteOutside
      else bindE (take_chunks n dec 0) (\<lambda>ms.
        Inr (rt\<lparr>rt_chunks := rt_chunks rt @ ms, totalRecvDataSize := totalRecvDataSize rt + sum_list (map (\<lambda>m. word_of_nat (length m)) ms),
          totalRecvChunkNum := totalRecvChunkNum rt + word_of_nat (length ms)\<rparr>)))"

text \<open>Messages are received until the final one; where none comes the process ends.\<close>

fun recv_loop :: "enclave \<Rightarrow> restore_msg list \<Rightarrow> retr_st \<Rightarrow> fault + retr_st" where
  "recv_loop E [] rt = Inl ExitFailure"
| "recv_loop E (SERVER_RESTORE_CHUNK n c # msgs) rt = bindE (ProcessChunkBatch E n c rt) (recv_loop E msgs)"
| "recv_loop E (SERVER_RESTORE_FINAL n c # msgs) rt = ProcessChunkBatch E n c rt"

text \<open>The number of chunks is compared with the head of the recipe from the login reply.\<close>

definition DataRetriever_Run :: "enclave \<Rightarrow> bytes \<Rightarrow> restore_msg list \<Rightarrow> fault + retr_st" where
  "DataRetriever_Run E head msgs =
    bindE (recv_loop E msgs DataRetriever_new) (\<lambda>rt. if totalRecvChunkNum rt \<noteq> rd64 (drop 8 head) then Inl ExitFailure else Inr rt)"

record writer_st =
  rw_file :: bytes
  totalRecvNum :: nat
  totalWrittenSize :: nat

definition RestoreWriter_new :: writer_st where
  "RestoreWriter_new = \<lparr>rw_file = [], totalRecvNum = 0, totalWrittenSize = 0\<rparr>"

definition write_chunk :: "bytes \<Rightarrow> writer_st \<Rightarrow> fault + writer_st" where
  "write_chunk m s = Inr (s\<lparr>rw_file := rw_file s @ m, totalRecvNum := Suc (totalRecvNum s), totalWrittenSize := totalWrittenSize s + length m\<rparr>)"

section \<open>What is sent\<close>

definition uploads :: "enclave \<Rightarrow> bytes list \<Rightarrow> client_msg \<Rightarrow> bool" where
  "uploads E ms msg \<longleftrightarrow> length ms \<le> sendChunkBatchSize E \<and>
     (\<exists>c. msg = CLIENT_UPLOAD_CHUNK c (length ms) \<and> SessionKeyDec (ssl E) (sessionKey E) c = Inr (frames ms))"

definition sender_inv :: "enclave \<Rightarrow> bytes list \<Rightarrow> sender_st \<Rightarrow> bool" where
  "sender_inv E cs s \<longleftrightarrow> (\<forall>m \<in> set cs. chunk_ok m) \<and> (\<exists>mss xs. cs = concat mss @ xs \<and> list_all2 (uploads E) mss (snd_msgs s) \<and>
     snd_data s = frames xs \<and> snd_num s = length xs \<and> length xs < sendChunkBatchSize E)"

lemma SendChunks_ok:
  assumes "evp_ok (ssl E)" "snd_data s = frames xs" "snd_num s = length xs" "length xs \<le> sendChunkBatchSize E"
  shows "\<exists>msg. SendChunks E s = Inr (s\<lparr>snd_msgs := snd_msgs s @ [msg], snd_num := 0, snd_data := [], snd_batches := Suc (snd_batches s)\<rparr>) \<and> uploads E xs msg"
  using session_up [OF assms(1), of "sessionKey E" "frames xs"] assms(2-4) by (auto simp: SendChunks_def uploads_def)

lemma ProcessChunk_ok:
  assumes "evp_ok (ssl E)" "sender_inv E cs s" "chunk_ok m"
  shows "\<exists>s'. ProcessChunk E m s = Inr s' \<and> sender_inv E (cs @ [m]) s'"
proof -
  let ?B = "sendChunkBatchSize E"
  obtain mss xs where x: "cs = concat mss @ xs" "list_all2 (uploads E) mss (snd_msgs s)" "snd_data s = frames xs" "snd_num s = length xs" "length xs < ?B"
      "\<forall>m \<in> set cs. chunk_ok m" using assms(2) by (auto simp: sender_inv_def)
  define s1 where "s1 = s\<lparr>snd_data := snd_data s @ le32 (word_of_nat (length m)) @ m, snd_num := Suc (snd_num s)\<rparr>"
  have s1: "snd_data s1 = frames (xs @ [m])" "snd_num s1 = length (xs @ [m])" "snd_msgs s1 = snd_msgs s" using x by (simp_all add: s1_def frame_def)
  have "length (frames xs) + (4 + MAX_CHUNK_SIZE) \<le> Suc (length xs) * (4 + MAX_CHUNK_SIZE)" using length_frames [of xs] x(1,6) by simp
  also have "\<dots> \<le> ?B * (4 + MAX_CHUNK_SIZE)" using x(5) by (intro mult_le_mono1) simp
  finally have "\<not> ?B * (4 + MAX_CHUNK_SIZE) < length (snd_data s) + 4 + length m" using assms(3) x(3) by (simp add: chunk_ok_def)
  then have run: "ProcessChunk E m s = (if snd_num s1 mod ?B = 0 then SendChunks E s1 else Inr s1)"
    unfolding ProcessChunk_def s1_def Let_def by (simp only: if_False)
  show ?thesis
  proof (cases "length (xs @ [m]) = ?B")
    case True
    then have full: "snd_num s1 mod ?B = 0" by (simp only: s1 mod_self)
    obtain msg where msg: "SendChunks E s1 = Inr (s1\<lparr>snd_msgs := snd_msgs s1 @ [msg], snd_num := 0, snd_data := [], snd_batches := Suc (snd_batches s1)\<rparr>)"
        "uploads E (xs @ [m]) msg" using SendChunks_ok [OF assms(1) s1(1,2)] True by auto
    have "sender_inv E (cs @ [m]) (s1\<lparr>snd_msgs := snd_msgs s1 @ [msg], snd_num := 0, snd_data := [], snd_batches := Suc (snd_batches s1)\<rparr>)"
      unfolding sender_inv_def using x(1,2,5,6) assms(3) msg(2) True
      by (intro conjI exI [of _ "mss @ [xs @ [m]]"] exI [of _ "[]"]) (auto simp: s1(3) intro!: list_all2_appendI)
    then show ?thesis using run full msg(1) by simp
  next
    case False
    then have lt: "length (xs @ [m]) < ?B" using x(5) by simp
    then have "snd_num s1 mod ?B \<noteq> 0" by (simp add: s1)
    moreover have "sender_inv E (cs @ [m]) s1" unfolding sender_inv_def using x(1,2,6) assms(3) s1 lt
      by (intro conjI exI [of _ mss] exI [of _ "xs @ [m]"]) auto
    ultimately show ?thesis using run by simp
  qed
qed

lemma sender_chunks:
  assumes "evp_ok (ssl E)"
  shows "sender_inv E dn s \<Longrightarrow> \<forall>m \<in> set cs. chunk_ok m \<Longrightarrow> \<exists>s'. foldE (sender_item E) (map DataChunk cs) s = Inr s' \<and> sender_inv E (dn @ cs) s'"
proof (induction cs arbitrary: dn s)
  case (Cons m cs)
  obtain s1 where s1: "ProcessChunk E m s = Inr s1" "sender_inv E (dn @ [m]) s1" using ProcessChunk_ok [OF assms Cons.prems(1)] Cons.prems(2) by auto
  then obtain s2 where "foldE (sender_item E) (map DataChunk cs) s1 = Inr s2" "sender_inv E ((dn @ [m]) @ cs) s2"
    using Cons.IH [OF s1(2)] Cons.prems(2) by auto
  then show ?case using s1(1) by simp
qed simp

lemma sender_all:
  assumes "evp_ok (ssl E)" "0 < sendChunkBatchSize E" "\<forall>m \<in> set cs. chunk_ok m"
  shows "\<exists>s mss msgs. foldE (sender_item E) (map DataChunk cs @ [RecipeEnd h]) DataSender_new = Inr s \<and>
    snd_msgs s = msgs @ [CLIENT_UPLOAD_RECIPE_END h] \<and> concat mss = cs \<and> list_all2 (uploads E) mss msgs"
proof -
  have "sender_inv E [] DataSender_new" unfolding sender_inv_def using assms(2)
    by (intro conjI exI [of _ "[]"] exI [of _ "[]"]) (simp_all add: DataSender_new_def)
  then obtain s1 where s1: "foldE (sender_item E) (map DataChunk cs) DataSender_new = Inr s1" "sender_inv E cs s1"
    using sender_chunks [OF assms(1) _ assms(3), of "[]"] by auto
  then obtain mss xs where x: "cs = concat mss @ xs" "list_all2 (uploads E) mss (snd_msgs s1)" "snd_data s1 = frames xs" "snd_num s1 = length xs"
      "length xs \<le> sendChunkBatchSize E" by (auto simp: sender_inv_def)
  have run: "foldE (sender_item E) (map DataChunk cs @ [RecipeEnd h]) DataSender_new = ProcessRecipeEnd E h s1" using s1(1) by (simp add: foldE_append bindE_def split: sum.splits)
  show ?thesis
  proof (cases "xs = []")
    case True
    then show ?thesis unfolding run using x by (intro exI [of _ "s1\<lparr>snd_data := h, snd_msgs := snd_msgs s1 @ [CLIENT_UPLOAD_RECIPE_END h]\<rparr>"] exI [of _ mss] exI [of _ "snd_msgs s1"])
      (simp add: ProcessRecipeEnd_def)
  next
    case False
    obtain msg where msg: "SendChunks E s1 = Inr (s1\<lparr>snd_msgs := snd_msgs s1 @ [msg], snd_num := 0, snd_data := [], snd_batches := Suc (snd_batches s1)\<rparr>)"
        "uploads E xs msg" using SendChunks_ok [OF assms(1) x(3-5)] by blast
    let ?s = "s1\<lparr>snd_msgs := (snd_msgs s1 @ [msg]) @ [CLIENT_UPLOAD_RECIPE_END h], snd_num := 0, snd_data := h, snd_batches := Suc (snd_batches s1)\<rparr>"
    show ?thesis unfolding run using False x msg by (intro exI [of _ ?s] exI [of _ "mss @ [xs]"] exI [of _ "snd_msgs s1 @ [msg]"])
      (auto simp: ProcessRecipeEnd_def intro!: list_all2_appendI)
  qed
qed

section \<open>What is received\<close>

lemma take_chunks_ok: "\<forall>m \<in> set ms. chunk_ok m \<Longrightarrow> dec = pre @ frames ms \<Longrightarrow> take_chunks (length ms) dec (length pre) = Inr ms"
proof (induction ms arbitrary: pre)
  case (Cons m ms)
  have sz: "unat (word_of_nat (length m) :: u32) = length m" using Cons.prems(1) by (intro chunk_size_word) simp
  have "rd32 (drop (length pre) dec) = word_of_nat (length m)" using Cons.prems(2) by (simp add: frame_def)
  moreover have "seg (length pre + 4) (length m) dec = m" using Cons.prems(2) by (simp add: seg_def frame_def)
  moreover have "take_chunks (length ms) dec (length (pre @ frame m)) = Inr ms" using Cons.prems by (intro Cons.IH) auto
  ultimately show ?case using Cons.prems sz by (simp add: chunk_ok_def add.assoc)
qed simp

definition received :: "bytes list \<Rightarrow> retr_st \<Rightarrow> bool" where
  "received ms rt \<longleftrightarrow> rt_chunks rt = ms \<and> totalRecvChunkNum rt = word_of_nat (length ms) \<and>
     totalRecvDataSize rt = word_of_nat (length (concat ms))"

lemma ProcessChunkBatch_ok:
  assumes "client_SessionKeyDec (ssl E) (sessionKey E) c = Inr (frames xs)" "length xs \<le> sendChunkBatchSize E" "\<forall>m \<in> set xs. chunk_ok m" "received ms rt"
  shows "\<exists>rt'. ProcessChunkBatch E (length xs) c rt = Inr rt' \<and> received (ms @ xs) rt'"
proof -
  have "length (frames xs) \<le> length xs * (4 + MAX_CHUNK_SIZE)" by (rule length_frames [OF assms(3)])
  also have "\<dots> \<le> sendChunkBatchSize E * (4 + MAX_CHUNK_SIZE)" using assms(2) by (rule mult_le_mono1)
  finally have "\<not> sendChunkBatchSize E * (4 + MAX_CHUNK_SIZE) < length (frames xs)" by simp
  moreover have "take_chunks (length xs) (frames xs) 0 = Inr xs" using take_chunks_ok [OF assms(3), of "frames xs" "[]"] by simp
  ultimately show ?thesis using assms(1,4) by (simp add: ProcessChunkBatch_def received_def sum_sizes)
qed

lemma recv_loop_ok:
  assumes "carries_final E xs msg" "\<forall>m \<in> set xs. chunk_ok m"
  shows "list_all2 (carries E) xss msgs \<Longrightarrow> \<forall>m \<in> set (concat xss). chunk_ok m \<Longrightarrow> received ms rt \<Longrightarrow>
    \<exists>rt'. recv_loop E (msgs @ [msg]) rt = Inr rt' \<and> received (ms @ concat xss @ xs) rt'"
proof (induction xss msgs arbitrary: ms rt rule: list_all2_induct)
  case Nil
  obtain c where "msg = SERVER_RESTORE_FINAL (length xs) c" "client_SessionKeyDec (ssl E) (sessionKey E) c = Inr (frames xs)" "length xs \<le> sendChunkBatchSize E"
    using assms(1) by (auto simp: carries_final_def)
  with ProcessChunkBatch_ok [OF this(2,3) assms(2) Nil(2)] show ?case by simp
next
  case (Cons ys yss m0 msgs)
  obtain c where c: "m0 = SERVER_RESTORE_CHUNK (length ys) c" "client_SessionKeyDec (ssl E) (sessionKey E) c = Inr (frames ys)" "length ys \<le> sendChunkBatchSize E"
    using Cons.hyps(1) by (auto simp: carries_def)
  have "\<forall>m \<in> set ys. chunk_ok m" using Cons.prems(1) by simp
  from ProcessChunkBatch_ok [OF c(2,3) this Cons.prems(2)] obtain rt1 where
      rt1: "ProcessChunkBatch E (length ys) c rt = Inr rt1" "received (ms @ ys) rt1" by blast
  from Cons.IH [OF _ rt1(2)] Cons.prems(1) obtain rt' where "recv_loop E (msgs @ [msg]) rt1 = Inr rt'" "received ((ms @ ys) @ concat yss @ xs) rt'" by auto
  then show ?case using c(1) rt1(1) by simp
qed

lemma retrieve_ok:
  assumes "all_sent E ms rs" "\<forall>m \<in> set ms. chunk_ok m" "head = file_head z (word_of_nat (length ms))"
  shows "\<exists>rt. DataRetriever_Run E head (sent rs) = Inr rt \<and> rt_chunks rt = ms"
proof -
  obtain xss xs msgs msg where x: "ms = concat xss @ xs" "sent rs = msgs @ [msg]" "list_all2 (carries E) xss msgs" "carries_final E xs msg"
    using assms(1) by (auto simp: all_sent_def)
  have r0: "received [] DataRetriever_new" by (simp add: received_def DataRetriever_new_def)
  have ok: "\<forall>m \<in> set xs. chunk_ok m" "\<forall>m \<in> set (concat xss). chunk_ok m" using assms(2) x(1) by simp_all
  obtain rt where "recv_loop E (sent rs) DataRetriever_new = Inr rt" "received ms rt"
    using recv_loop_ok [OF x(4) ok(1) x(3) ok(2) r0] x(1,2) by auto
  moreover have "rd64 (drop 8 head) = word_of_nat (length ms)" using rd64_le64 [of _ "[]"] by (simp add: assms(3) file_head_def)
  ultimately show ?thesis by (simp add: DataRetriever_Run_def received_def)
qed

lemma write_all: "\<exists>s'. foldE write_chunk ms s = Inr s' \<and> rw_file s' = rw_file s @ concat ms"
proof (induction ms arbitrary: s)
  case (Cons m ms)
  obtain s1 where "write_chunk m s = Inr s1" "rw_file s1 = rw_file s @ m" by (simp add: write_chunk_def)
  with Cons.IH [of s1] show ?case by auto
qed simp

end
