(* ===== verification/EndToEnd.thy ===== *)
theory EndToEnd
  imports Client
begin

text \<open>
  The whole program: a file is cut into chunks, sent, deduplicated, delta compressed and stored,
  and a later restore gives back the same file. Chunker and sender, and retriever and restore writer, are
  interleaved in any fair way; the writer of the server in any way in which no file is read while it is saved.
\<close>

section \<open>Backup\<close>

text \<open>Message \<open>i\<close> reaches the server together with what its writer thread does meanwhile.\<close>

definition with_writer :: "(nat \<Rightarrow> schedule) \<Rightarrow> client_msg list \<Rightarrow> (schedule \<times> client_msg) list" where
  "with_writer wr msgs = map (\<lambda>(i, m). (wr i, m)) (enumerate 0 msgs)"

lemma with_writer_append: "with_writer wr (msgs @ [m]) = with_writer wr msgs @ [(wr (length msgs), m)]"
  by (simp add: with_writer_def enumerate_append_eq)

lemma with_writer_sends:
  assumes "list_all2 (uploads E) mss msgs"
  shows "list_all2 (sends E) mss (with_writer wr msgs)"
proof -
  have "sends E (mss ! i) (wr i, msgs ! i)" if "i < length msgs" for i
    using assms that by (auto simp: list_all2_conv_all_nth uploads_def sends_def)
  then show ?thesis using list_all2_lengthD [OF assms] by (simp add: list_all2_conv_all_nth with_writer_def nth_enumerate_eq)
qed

lemma with_writer_relies: "\<forall>i. relies untorn t (wr i) \<Longrightarrow> \<forall>x \<in> set (with_writer wr msgs). relies untorn t (fst x)"
  by (auto simp: with_writer_def)

text \<open>
  What a file must satisfy beside the limits of the configuration: no collision of fingerprints
  among its chunks and the stored ones, and the pacing condition of the delta encoder for each of its
  chunks with each possible base.
\<close>

definition file_ok :: "enclave \<Rightarrow> bytes set \<Rightarrow> bytes list \<Rightarrow> bool" where
  "file_ok E S cs \<longleftrightarrow> inj_on (hashfp E) (S \<union> set cs) \<and> (\<forall>m \<in> set cs. \<forall>mb \<in> S \<union> set cs. starts_paced m (base_text E mb))"

lemma upload_ok_batches:
  assumes "file_ok E S (concat mss)" "list_all2 (uploads E) mss msgs" "sendChunkBatchSize E \<le> 4000" "\<forall>m \<in> set (concat mss). chunk_ok m"
  shows "upload_ok E S mss"
proof -
  have "length ms \<le> sendChunkBatchSize E" if "ms \<in> set mss" for ms
    using assms(2) that by (auto simp: list_all2_conv_all_nth uploads_def in_set_conv_nth)
  then show ?thesis using assms(1,3,4) by (fastforce simp: upload_ok_def file_ok_def)
qed

text \<open>The client sends a file and the server stores it.\<close>

lemma backup_run:
  assumes "evp_ok (ssl E)" "lz4_ok E" "2 \<le> topThreshold E" "0 < sendRecipeBatchSize E" "0 < sendChunkBatchSize E" "sendChunkBatchSize E \<le> 4000"
    "idle_inv E t S (r_st rv)" "mem_ok E mem" "file_ok E S cs" "\<forall>m \<in> set cs. chunk_ok m" "con_times (up (r_st rv)) + length cs + 4 \<le> INT_MAX"
    "length h = FILE_RECIPE_HEAD_SIZE" "\<forall>i. relies untorn t (wr i)"
  shows "\<exists>s rv'. foldE (sender_item E) (map DataChunk cs @ [RecipeEnd h]) DataSender_new = Inr s \<and> server_upload E t mem (with_writer wr (snd_msgs s)) rv = Inr rv' \<and>
    idle_inv E t (S \<union> set cs) (r_st rv') \<and> read_recipe E (recipeFile (up (r_st rv'))) = Inr (concat (map (hashfp E) cs)) \<and> recipeHead rv' = h"
proof -
  obtain s mss msgs where s: "foldE (sender_item E) (map DataChunk cs @ [RecipeEnd h]) DataSender_new = Inr s"
      "snd_msgs s = msgs @ [CLIENT_UPLOAD_RECIPE_END h]" "concat mss = cs" "list_all2 (uploads E) mss msgs"
    using sender_all [OF assms(1,5,10)] by blast
  have ok: "upload_ok E S mss" using upload_ok_batches [OF _ s(4) assms(6)] assms(9,10) s(3) by simp
  have ct: "con_times (up (r_st rv)) + length (concat mss) + 4 \<le> INT_MAX" using assms(11) s(3) by simp
  from upload_run [OF assms(1-4,7,8) with_writer_sends [OF s(4), of wr] ok ct with_writer_relies [OF assms(13)], of "wr (length msgs)" h] obtain rv' where
      "server_upload E t mem (with_writer wr msgs @ [(wr (length msgs), CLIENT_UPLOAD_RECIPE_END h)]) rv = Inr rv'"
      "idle_inv E t (S \<union> set (concat mss)) (r_st rv')" "read_recipe E (recipeFile (up (r_st rv'))) = Inr (concat (map (hashfp E) (concat mss)))"
      "recipeHead rv' = take FILE_RECIPE_HEAD_SIZE h" by blast
  then have "server_upload E t mem (with_writer wr (snd_msgs s)) rv = Inr rv'" "idle_inv E t (S \<union> set cs) (r_st rv')"
      "read_recipe E (recipeFile (up (r_st rv'))) = Inr (concat (map (hashfp E) cs))" "recipeHead rv' = h"
    using assms(12) by (simp_all add: s(2,3) with_writer_append)
  with s(1) show ?thesis by blast
qed

section \<open>Restore\<close>

text \<open>The client writes what the server sent.\<close>

lemma retrieve_run:
  assumes "all_sent E cs rs" "\<forall>m \<in> set cs. chunk_ok m" "head = file_head z (word_of_nat (length cs))"
  shows "\<exists>rt s. DataRetriever_Run E head (sent rs) = Inr rt \<and> foldE write_chunk (rt_chunks rt) RestoreWriter_new = Inr s \<and> rw_file s = concat cs"
proof -
  obtain rt where "DataRetriever_Run E head (sent rs) = Inr rt" "rt_chunks rt = cs" using retrieve_ok [OF assms] by blast
  with write_all [of cs RestoreWriter_new] show ?thesis by (auto simp: RestoreWriter_new_def)
qed

section \<open>A file comes back\<close>

text \<open>The consumer at the end of a queue, whatever the interleaving.\<close>

lemma queue_result:
  assumes "fair sched" "0 < cap" "foldE handle items s0 = r"
  shows "\<exists>n. mq_pc (mq_run cap handle sched n (mq_start items s0)) = Stopped \<and> mq_acc (mq_run cap handle sched n (mq_start items s0)) = r"
proof -
  obtain n where "mq_pc (mq_run cap handle sched n (mq_start items s0)) = Stopped" using run_stops [OF assms(1,2) mq_start_inv [of handle items s0], of 0] by blast
  with stopped_result [OF reach_inv [OF run_reach mq_start_inv] this] assms(3) show ?thesis by blast
qed

text \<open>A chunk that is alone in the store is not a delta.\<close>

lemma alone_base: "db_inv E {m} w db \<Longrightarrow> base_at E w db m"
  unfolding db_inv_def chunk_at_def delta_chunk_def by (auto simp: base_at_def)

lemma sample_cut: "Chunking config_chunker [1, 2, 3, 4] = Some (Inr (with_head [[1, 2, 3, 4]]))"
proof -
  have cp: "CutPoint config_chunker [1, 2, 3, 4] = 4" by code_simp
  have "cdc_chunks config_chunker True [] = Some (Inr ([], []))" by (simp add: cdc_chunks.simps [of _ _ "[]"] config_chunker_def)
  then have "cdc_chunks config_chunker True [1, 2, 3, 4] = Some (Inr ([[1, 2, 3, 4]], []))"
    by (simp add: cdc_chunks.simps [of _ _ "[1, 2, 3, 4]"] cp put_chunk_def MAX_CHUNK_SIZE_def)
  then show ?thesis by (simp add: Chunking_def cdc_file.simps config_chunker_def)
qed

lemma even_fair: "fair even"
proof -
  have "\<exists>k \<ge> n. even k" "\<exists>k \<ge> n. odd k" for n :: nat by (rule exI [of _ "2 * n"], simp, rule exI [of _ "Suc (2 * n)"], simp)
  then show ?thesis by (simp add: fair_def)
qed

lemma sample_file_ok: "file_ok toy_enclave {} [[1, 2, 3, 4]]"
  by (simp add: file_ok_def toy_text clear_chunk_def chunk_ok_def size_consts paced_sizes)

text \<open>
  C1: a file that is backed up is restored. For FastCDC and fixed-size chunking, with a maximum of at most
  \<open>MAX_CHUNK_SIZE\<close> and a read size of 1 to 4095 MB, and every file: the client cuts the file and sends it;
  the server, in any state that earlier uploads can leave, stores it and is again in such a state; and a restore from index, containers
  and recipe, with the buffers the program allocates, gives the client the same bytes, unless more than
  sixteen container identifiers are needed at once, in which case, exactly, the restore writes outside
  their buffer (a file without deltas never needs more). Chunker and sender, and retriever and restore writer,
  run under every fair interleaving; the writer of the server under every schedule of its steps in which the
  enclave never reads a container file while that file is being saved. Required are the ciphers and LZ4 as
  documented, distinct fingerprints, the pacing condition of the delta encoder for every chunk of the file
  with every chunk stored, fewer than \<open>INT_MAX\<close> containers, and for the restore that no chunk stored whole is taken
  for compressed data and no chunk stored as a delta is more than twice as long as delta and base together.
\<close>

theorem backup_restore:
  assumes "evp_ok (ssl E)" "lz4_ok E" "2 \<le> topThreshold E" "0 < sendRecipeBatchSize E" "0 < sendChunkBatchSize E" "sendChunkBatchSize E \<le> 4000"
    "ChunkerInit ty av mn mx readMB = Inr c" "unat mx \<le> MAX_CHUNK_SIZE" "0 < unat readMB" "unat readMB < 4096"
    "idle_inv E t S (r_st rv)" "mem_ok E mem" "Chunking c rf = Some (Inr (with_head cs))" "file_ok E S cs"
    "con_times (up (r_st rv)) + length cs + 4 \<le> INT_MAX" "CONTAINERARRAY_VALUE \<le> length slots" "BASE_QUERY_SIZE \<le> length queries"
    "fair sched1" "0 < cap1" "fair sched2" "0 < cap2" "\<forall>i. relies untorn t (wr i)"
  shows "\<exists>n s rv'.
    mq_pc (mq_run cap1 (sender_item E) sched1 n (mq_start (with_head cs) DataSender_new)) = Stopped \<and>
    mq_acc (mq_run cap1 (sender_item E) sched1 n (mq_start (with_head cs) DataSender_new)) = Inr s \<and>
    server_upload E t mem (with_writer wr (snd_msgs s)) rv = Inr rv' \<and> idle_inv E t (S \<union> set cs) (r_st rv') \<and>
    (let db = outdb (r_st rv'); d = cdisk (r_st rv'); recipe = recipeFile (up (r_st rv'))
     in (\<forall>m \<in> set cs. clear_chunk E (S \<union> set cs) (files_of t d) db m) \<longrightarrow>
       (\<exists>rs rt k w. RecvDecoder_Run E db t d recipe (InitRestoreBuffer 64 slots queries) =
          (if id_bytes E db t d recipe slots queries \<le> ID_BYTES then Inr rs else Inl WriteOutside) \<and>
        DataRetriever_Run E (recipeHead rv') (sent rs) = Inr rt \<and>
        mq_pc (mq_run cap2 write_chunk sched2 k (mq_start (rt_chunks rt) RestoreWriter_new)) = Stopped \<and>
        mq_acc (mq_run cap2 write_chunk sched2 k (mq_start (rt_chunks rt) RestoreWriter_new)) = Inr w \<and> rw_file w = rf) \<and>
       ((\<forall>m \<in> set cs. base_at E (files_of t d) db m) \<longrightarrow> id_bytes E db t d recipe slots queries \<le> ID_BYTES))"
proof -
  obtain cs' where cs': "Chunking c rf = Some (Inr (map DataChunk cs' @ [RecipeEnd (file_head (word_of_nat (length rf)) (word_of_nat (length cs')))]))"
      "concat cs' = rf" "\<forall>m \<in> set cs'. m \<noteq> [] \<and> length m \<le> unat mx" using Chunking_ok [OF assms(7-10), of rf] by blast
  then have "map DataChunk cs = map DataChunk cs'" using assms(13) by (simp add: with_head_def)
  then have "cs = cs'" by (simp add: inj_map_eq_map [of DataChunk] inj_def)
  then have cs: "concat cs = rf" "\<forall>m \<in> set cs. chunk_ok m" using cs'(2,3) assms(8) by (auto simp: chunk_ok_def)
  let ?h = "file_head (sum_list (map (\<lambda>m. word_of_nat (length m)) cs)) (word_of_nat (length cs))"
  have h: "length ?h = FILE_RECIPE_HEAD_SIZE" by (simp add: file_head_def FILE_RECIPE_HEAD_SIZE_def)
  obtain s rv' where up: "foldE (sender_item E) (with_head cs) DataSender_new = Inr s" "server_upload E t mem (with_writer wr (snd_msgs s)) rv = Inr rv'"
      "idle_inv E t (S \<union> set cs) (r_st rv')" "read_recipe E (recipeFile (up (r_st rv'))) = Inr (concat (map (hashfp E) cs))" "recipeHead rv' = ?h"
    using backup_run [OF assms(1-6,11,12,14) cs(2) assms(15) h assms(22)] unfolding with_head_def by blast
  obtain n where n: "mq_pc (mq_run cap1 (sender_item E) sched1 n (mq_start (with_head cs) DataSender_new)) = Stopped"
      "mq_acc (mq_run cap1 (sender_item E) sched1 n (mq_start (with_head cs) DataSender_new)) = Inr s" using queue_result [OF assms(18,19) up(1)] by blast
  let ?db = "outdb (r_st rv')" and ?d = "cdisk (r_st rv')" and ?r = "recipeFile (up (r_st rv'))"
  have "(\<exists>rs rt k w. RecvDecoder_Run E ?db t ?d ?r (InitRestoreBuffer 64 slots queries) =
          (if id_bytes E ?db t ?d ?r slots queries \<le> ID_BYTES then Inr rs else Inl WriteOutside) \<and>
        DataRetriever_Run E (recipeHead rv') (sent rs) = Inr rt \<and>
        mq_pc (mq_run cap2 write_chunk sched2 k (mq_start (rt_chunks rt) RestoreWriter_new)) = Stopped \<and>
        mq_acc (mq_run cap2 write_chunk sched2 k (mq_start (rt_chunks rt) RestoreWriter_new)) = Inr w \<and> rw_file w = rf) \<and>
       ((\<forall>m \<in> set cs. base_at E (files_of t ?d) ?db m) \<longrightarrow> id_bytes E ?db t ?d ?r slots queries \<le> ID_BYTES)"
    if c: "\<forall>m \<in> set cs. clear_chunk E (S \<union> set cs) (files_of t ?d) ?db m"
  proof -
    note r = restore_sends [OF assms(1,2,4,5) up(3) _ up(4) c assms(16,17)]
    obtain rs where rs: "all_sent E cs rs" "RecvDecoder_Run E ?db t ?d ?r (InitRestoreBuffer 64 slots queries) =
          (if id_bytes E ?db t ?d ?r slots queries \<le> ID_BYTES then Inr rs else Inl WriteOutside)" using r(1) by (auto simp: restores_def)
    obtain rt w where re: "DataRetriever_Run E (recipeHead rv') (sent rs) = Inr rt" "foldE write_chunk (rt_chunks rt) RestoreWriter_new = Inr w" "rw_file w = concat cs"
      using retrieve_run [OF rs(1) cs(2) up(5)] by blast
    obtain k where "mq_pc (mq_run cap2 write_chunk sched2 k (mq_start (rt_chunks rt) RestoreWriter_new)) = Stopped"
        "mq_acc (mq_run cap2 write_chunk sched2 k (mq_start (rt_chunks rt) RestoreWriter_new)) = Inr w" using queue_result [OF assms(20,21) re(2)] by blast
    with rs(2) re(1,3) cs(1) r(2) show ?thesis by blast
  qed
  with n up(2,3) show ?thesis unfolding Let_def by blast
qed

theorem backup_restore_witness:
  "\<exists>n s rv' rs rt k w.
    mq_acc (mq_run 1 (sender_item toy_enclave) even n (mq_start (with_head [[1, 2, 3, 4]]) DataSender_new)) = Inr s \<and>
    server_upload toy_enclave ''.c'' sample_mem (with_writer (\<lambda>i. sample_writer) (snd_msgs s)) sample_rv = Inr rv' \<and>
    RecvDecoder_Run toy_enclave (outdb (r_st rv')) ''.c'' (cdisk (r_st rv')) (recipeFile (up (r_st rv')))
      (InitRestoreBuffer 64 (replicate 50 []) (m_outq sample_mem)) = Inr rs \<and>
    DataRetriever_Run toy_enclave (recipeHead rv') (sent rs) = Inr rt \<and>
    mq_acc (mq_run 2 write_chunk even k (mq_start (rt_chunks rt) RestoreWriter_new)) = Inr w \<and> rw_file w = [1, 2, 3, 4]"
proof -
  note r = sample_upload_ready
  have E: "0 < sendChunkBatchSize toy_enclave" "sendChunkBatchSize toy_enclave \<le> 4000" by (simp_all add: toy_enclave_def)
  have c: "unat (16384 :: u64) \<le> MAX_CHUNK_SIZE" "0 < unat (128 :: u64)" "unat (128 :: u64) < 4096" by (simp_all add: MAX_CHUNK_SIZE_def)
  have ct: "con_times (up (r_st sample_rv)) + length [[1, 2, 3, 4] :: bytes] + 4 \<le> INT_MAX"
    using r(6) by (simp add: sample_chunks_def)
  have b: "CONTAINERARRAY_VALUE \<le> length (replicate 50 ([] :: bytes))" "BASE_QUERY_SIZE \<le> length (m_outq sample_mem)" "0 < (1 :: nat)" "0 < (2 :: nat)"
    by (simp_all add: CONTAINERARRAY_VALUE_def BASE_QUERY_SIZE_def sample_mem_def)
  have w: "\<forall>i. relies untorn ''.c'' sample_writer" by (simp add: sample_relies)
  from backup_restore [OF r(1) toy_lz4 r(2,3) E config_init c r(4) sample_mem_ok sample_cut sample_file_ok ct b(1,2) even_fair b(3) even_fair b(4) w]
  obtain n s rv' where n: "mq_acc (mq_run 1 (sender_item toy_enclave) even n (mq_start (with_head [[1, 2, 3, 4]]) DataSender_new)) = Inr s"
      "server_upload toy_enclave ''.c'' sample_mem (with_writer (\<lambda>i. sample_writer) (snd_msgs s)) sample_rv = Inr rv'"
      "idle_inv toy_enclave ''.c'' {[1, 2, 3, 4]} (r_st rv')"
      and x: "let db = outdb (r_st rv'); d = cdisk (r_st rv'); recipe = recipeFile (up (r_st rv'))
     in (\<forall>m \<in> set [[1, 2, 3, 4]]. clear_chunk toy_enclave ({} \<union> set [[1, 2, 3, 4]]) (files_of ''.c'' d) db m) \<longrightarrow>
       (\<exists>rs rt k w. RecvDecoder_Run toy_enclave db ''.c'' d recipe (InitRestoreBuffer 64 (replicate 50 []) (m_outq sample_mem)) =
          (if id_bytes toy_enclave db ''.c'' d recipe (replicate 50 []) (m_outq sample_mem) \<le> ID_BYTES then Inr rs else Inl WriteOutside) \<and>
        DataRetriever_Run toy_enclave (recipeHead rv') (sent rs) = Inr rt \<and>
        mq_pc (mq_run 2 write_chunk even k (mq_start (rt_chunks rt) RestoreWriter_new)) = Stopped \<and>
        mq_acc (mq_run 2 write_chunk even k (mq_start (rt_chunks rt) RestoreWriter_new)) = Inr w \<and> rw_file w = [1, 2, 3, 4]) \<and>
       ((\<forall>m \<in> set [[1, 2, 3, 4]]. base_at toy_enclave (files_of ''.c'' d) db m) \<longrightarrow>
          id_bytes toy_enclave db ''.c'' d recipe (replicate 50 []) (m_outq sample_mem) \<le> ID_BYTES)"
    by (elim exE conjE) (simp only: Un_empty_left list.set)
  have cl: "clear_chunk toy_enclave {[1, 2, 3, 4]} (files_of ''.c'' (cdisk (r_st rv'))) (outdb (r_st rv')) [1, 2, 3, 4]"
    by (rule clear_chunkI) (simp_all add: toy_text chunk_ok_def size_consts)
  have "base_at toy_enclave (files_of ''.c'' (cdisk (r_st rv'))) (outdb (r_st rv')) [1, 2, 3, 4]"
    using n(3) by (intro alone_base) (simp add: idle_inv_def)
  with cl x have "\<exists>rs rt k w. RecvDecoder_Run toy_enclave (outdb (r_st rv')) ''.c'' (cdisk (r_st rv')) (recipeFile (up (r_st rv')))
      (InitRestoreBuffer 64 (replicate 50 []) (m_outq sample_mem)) = Inr rs \<and> DataRetriever_Run toy_enclave (recipeHead rv') (sent rs) = Inr rt \<and>
      mq_acc (mq_run 2 write_chunk even k (mq_start (rt_chunks rt) RestoreWriter_new)) = Inr w \<and> rw_file w = [1, 2, 3, 4]"
    unfolding Let_def Un_empty_left list.set ball_simps simp_thms by (elim impE conjE exE) (simp_all only: simp_thms if_True, metis)
  then obtain rs rt k w where y: "RecvDecoder_Run toy_enclave (outdb (r_st rv')) ''.c'' (cdisk (r_st rv')) (recipeFile (up (r_st rv')))
      (InitRestoreBuffer 64 (replicate 50 []) (m_outq sample_mem)) = Inr rs \<and> DataRetriever_Run toy_enclave (recipeHead rv') (sent rs) = Inr rt \<and>
      mq_acc (mq_run 2 write_chunk even k (mq_start (rt_chunks rt) RestoreWriter_new)) = Inr w \<and> rw_file w = [1, 2, 3, 4]" by (elim exE)
  show ?thesis
    by (rule exI [of _ n], rule exI [of _ s], rule exI [of _ rv'], rule exI [of _ rs], rule exI [of _ rt], rule exI [of _ k], rule exI [of _ w],
        rule conjI [OF n(1) conjI [OF n(2) y]])
qed

end
