(* ===== verification/Offline.thy ===== *)
theory Offline
  imports FreqPhases "HOL-Library.AList"
begin

text \<open>
  The offline pass (\<open>ecallOffline.cc\<close> with its OCalls in \<open>storeOCall.cc\<close>). For every pair of an old and
  a new base chunk that the uploads left behind, the deltas against the old base are encoded again
  against the new one, and the old base itself becomes a delta against the new one. The new deltas
  go to the hot container; what they replace is cut out of its containers (\<open>Update_cold_container\<close>),
  and small base containers are merged (\<open>MergeContainer\<close>). This theory holds the definitions.
\<close>

section \<open>State\<close>

record offline_stats =
  offlineCompress_size :: u64
  offlineCurrBackup_size :: u64
  offlineDeltanum :: u64
  offlineDeDeltanum :: u64
  offlineDeletenum :: u64
  Offline_DeltaSaveSize :: u64
  off_baseChunkNum :: u64
  off_baseDataSize :: u64
  off_deltaChunkNum :: u64
  off_deltaDataSize :: u64
  off_lz4SaveSize :: u64
  off_DeltaSaveSize :: u64
  offlinedeltaChunkNum :: u64

text \<open>
  The pairs of base chunks and the cold chunks that the index outside keeps (\<open>absDatabase.h\<close>), each
  with the buffer in which the OCalls hand them over. \<open>std::set\<close> is an ordered list.
\<close>

record pair_st =
  local_map :: "(fp \<times> fp) list"
  off_test :: bytes

record cold_st =
  cold_map :: "container_name \<rightharpoonup> (u32 \<times> u32) list"
  cold_container_set :: "container_name list"
  cold_container_vector :: "container_name list"
  off_out :: bytes

text \<open>
  The index outside, the container files, the one query entry and the buffers the enclave and
  the OCalls share, and the members of \<open>OFFLineBackward\<close>. The number of OCalls is not counted.
\<close>

record off_st =
  odb :: InMemoryDatabase
  pairs :: pair_st
  cold :: cold_st
  odisk :: disk
  ocall_container :: bytes
  oentry :: OutQueryEntry
  off_process :: bytes
  delta_map :: "fp \<rightharpoonup> fp list"
  hot_container :: Container
  merge_buffer :: bytes
  newDeltaBuffer :: bytes
  offline_htable :: htable
  off_times :: nat
  ostats :: offline_stats

definition Local_Batch :: nat where "Local_Batch = 100"
definition Cold_Batch :: nat where "Cold_Batch = 1"
definition OUT_BUFFER_SIZE :: nat where "OUT_BUFFER_SIZE = 4000 * CHUNK_HASH_SIZE"

section \<open>The pairs of base chunks\<close>

text \<open>
  \<open>Ocall_Localrevise\<close>. \<open>order\<close> is the iteration order of \<open>_local_tmp_map\<close>; the chunks a base
  was to be replaced by earlier are replaced by its last replacement too. \<open>ks\<close> is the order in which
  the bases leave the sort by their number of deltas.
\<close>

definition greedy_map :: "(fp \<times> fp) list \<Rightarrow> (fp \<rightharpoonup> fp list) \<Rightarrow> (fp \<rightharpoonup> fp)" where
  "greedy_map order skips =
    fold (\<lambda>(old, nw) g. fold (\<lambda>s g. g(s \<mapsto> nw)) (case skips old of None \<Rightarrow> [] | Some ss \<Rightarrow> ss) (g(old \<mapsto> nw))) order Map.empty"

definition Ocall_Localrevise :: "(fp \<times> fp) list \<Rightarrow> fp list \<Rightarrow> off_st \<Rightarrow> off_st" where
  "Ocall_Localrevise order ks st =
    (let g = greedy_map order (skipMap (odb st))
     in st\<lparr>pairs := (pairs st)\<lparr>local_map := local_map (pairs st) @ map (\<lambda>k. (k, the (g k))) ks\<rparr>,
          odb := (odb st)\<lparr>local_tmp_map := Map.empty, skipMap := Map.empty\<rparr>\<rparr>)"

definition delta_count :: "InMemoryDatabase \<Rightarrow> fp \<Rightarrow> nat" where
  "delta_count db k = (case delta_index db k of None \<Rightarrow> 0 | Some ds \<Rightarrow> length ds)"

text \<open>What \<open>std::sort\<close> and the hash table guarantee of the two orders.\<close>

definition revise_orders :: "(fp \<times> fp) list \<Rightarrow> fp list \<Rightarrow> off_st \<Rightarrow> bool" where
  "revise_orders order ks st \<longleftrightarrow>
    distinct (map fst order) \<and> map_of order = local_tmp_map (odb st) \<and>
    distinct ks \<and> set ks = dom (greedy_map order (skipMap (odb st))) \<and> sorted (map (delta_count (odb st)) ks)"

text \<open>At most \<open>Local_Batch\<close> pairs, from the back of the vector, behind their number.\<close>

definition Ocall_GetLocal :: "pair_st \<Rightarrow> fault + pair_st" where
  "Ocall_GetLocal st =
    (let num = min (length (local_map st)) Local_Batch; ps = take num (rev (local_map st))
     in bindE (memcpyE TEST_BUFFER_SIZE (off_test st) 0 (le32 (word_of_nat num) @ concat (map (\<lambda>(a, b). a @ b) ps))) (\<lambda>b.
          Inr (st\<lparr>off_test := b, local_map := take (length (local_map st) - num) (local_map st)\<rparr>)))"

definition read_local :: "bytes \<Rightarrow> (fp \<times> fp) list" where
  "read_local buf = fold (\<lambda>i m. case pair_at (drop 4 buf) i of (a, b) \<Rightarrow> AList.update a b m) [0..<unat (rd32 buf)] []"

section \<open>Queries outside\<close>

definition Ocall_OneRecipe :: "off_st \<Rightarrow> off_st" where
  "Ocall_OneRecipe st =
    (case QueryBuffer (o_chunkHash (oentry st)) CHUNK_HASH_SIZE (odb st) of
       Some a \<Rightarrow> st\<lparr>oentry := (oentry st)\<lparr>o_chunkAddr := take RECIPE_ENTRY_SIZE a\<rparr>\<rparr>
     | None \<Rightarrow> st)"

text \<open>The address of a chunk, decrypted.\<close>

definition load_recipe :: "enclave \<Rightarrow> fp \<Rightarrow> off_st \<Rightarrow> fault + RecipeEntry \<times> off_st" where
  "load_recipe E k st =
    (let st1 = Ocall_OneRecipe (st\<lparr>oentry := (oentry st)\<lparr>o_chunkHash := k\<rparr>\<rparr>)
     in bindE (AESCBCDec (ssl E) (indexQueryKey E) (o_chunkAddr (oentry st1))) (\<lambda>p. Inr (entry_of p, st1)))"

definition set_addr_name :: "container_name \<Rightarrow> off_st \<Rightarrow> off_st" where
  "set_addr_name n st = st\<lparr>oentry := (oentry st)\<lparr>o_chunkAddr := put (o_chunkAddr (oentry st)) 0 (take CONTAINER_ID_LENGTH n)\<rparr>\<rparr>"

definition addr_name :: "off_st \<Rightarrow> container_name" where
  "addr_name st = seg 0 CONTAINER_ID_LENGTH (o_chunkAddr (oentry st))"

definition Ocall_OneContainer :: "string \<Rightarrow> off_st \<Rightarrow> fault + off_st" where
  "Ocall_OneContainer t st =
    (case odisk st (base_path t (addr_name st)) of
       None \<Rightarrow> Inr (st\<lparr>oentry := (oentry st)\<lparr>o_offlineFlag := 0\<rparr>\<rparr>)
     | Some f \<Rightarrow> bindE (memcpyE MAX_CONTAINER_SIZE (ocall_container st) 0 f) (\<lambda>b.
         Inr (st\<lparr>ocall_container := b, oentry := (oentry st)\<lparr>o_container := b, o_offlineFlag := 1\<rparr>\<rparr>)))"

text \<open>A delta container that is not there leaves the buffer as it was.\<close>

definition Ocall_OneDeltaContainer :: "string \<Rightarrow> off_st \<Rightarrow> fault + off_st" where
  "Ocall_OneDeltaContainer t st =
    (case odisk st (delta_path t (addr_name st)) of
       None \<Rightarrow> Inr st
     | Some f \<Rightarrow> bindE (memcpyE MAX_CONTAINER_SIZE (ocall_container st) 0 f) (\<lambda>b.
         Inr (st\<lparr>ocall_container := b, oentry := (oentry st)\<lparr>o_container := b\<rparr>\<rparr>)))"

text \<open>The features of the entry: those of an old base are erased, those of a new one replaced.\<close>

definition Ocall_OFFline_updateIndex :: "nat \<Rightarrow> off_st \<Rightarrow> off_st" where
  "Ocall_OFFline_updateIndex keySize st =
    st\<lparr>odb := InsertSF (o_superfeature (oentry st)) (o_chunkHash (oentry st)) (if keySize = 0 then 2 else 1) (odb st)\<rparr>"

definition update_sf :: "nat \<Rightarrow> RecipeEntry \<Rightarrow> off_st \<Rightarrow> off_st" where
  "update_sf keySize r st = Ocall_OFFline_updateIndex keySize (st\<lparr>oentry := (oentry st)\<lparr>o_superfeature := superfeature r\<rparr>\<rparr>)"

text \<open>The deltas of a base, behind its fingerprint; the index forgets them.\<close>

definition clear_process :: "off_st \<Rightarrow> off_st" where
  "clear_process st = st\<lparr>off_process := put (off_process st) 0 (replicate (1000 * CHUNK_HASH_SIZE) 0)\<rparr>"

definition Ocall_QueryDeltaIndex :: "off_st \<Rightarrow> fault + nat \<times> off_st" where
  "Ocall_QueryDeltaIndex st =
    (case QueryDeltaIndex (seg 0 CHUNK_HASH_SIZE (off_process st)) (odb st) of
       (None, db) \<Rightarrow> Inr (0, st\<lparr>odb := db\<rparr>)
     | (Some ds, db) \<Rightarrow> bindE (memcpyE PROCESS_BUFFER_SIZE (off_process st) CHUNK_HASH_SIZE (concat ds)) (\<lambda>b.
         Inr (length ds, st\<lparr>odb := db, off_process := b\<rparr>)))"

definition query_deltas :: "fp \<Rightarrow> off_st \<Rightarrow> fault + fp list \<times> off_st" where
  "query_deltas k st =
    (let st1 = clear_process st
     in bindE (memcpyE PROCESS_BUFFER_SIZE (off_process st1) 0 k) (\<lambda>b.
        bindE (Ocall_QueryDeltaIndex (st1\<lparr>off_process := b\<rparr>)) (\<lambda>(n, st2).
          Inr (map (\<lambda>i. seg ((i + 1) * CHUNK_HASH_SIZE) CHUNK_HASH_SIZE (off_process st2)) [0..<n], st2))))"

definition record_delta :: "fp \<Rightarrow> fp \<Rightarrow> off_st \<Rightarrow> fault + off_st" where
  "record_delta base k st =
    (let st1 = clear_process st
     in bindE (memcpyE PROCESS_BUFFER_SIZE (off_process st1) 0 (base @ k)) (\<lambda>b.
          Inr (st1\<lparr>off_process := b, odb := Ocall_UpdateDeltaIndex b 1 (odb st1)\<rparr>)))"

definition UpdateIndexStore :: "fp \<Rightarrow> bytes \<Rightarrow> off_st \<Rightarrow> off_st" where
  "UpdateIndexStore k v st = st\<lparr>odb := InsertBothBuffer k (length k) v RECIPE_ENTRY_SIZE (odb st)\<rparr>"

section \<open>The cold chunks\<close>

text \<open>The order of strings, and insertion into the ordered set.\<close>

fun name_less :: "container_name \<Rightarrow> container_name \<Rightarrow> bool" where
  "name_less xs [] = False"
| "name_less [] (y # ys) = True"
| "name_less (x # xs) (y # ys) = (x < y \<or> x = y \<and> name_less xs ys)"

definition set_insert :: "container_name \<Rightarrow> container_name list \<Rightarrow> container_name list" where
  "set_insert n ns = (if n \<in> set ns then ns
     else takeWhile (\<lambda>x. name_less x n) ns @ n # dropWhile (\<lambda>x. name_less x n) ns)"

definition Ocall_ColdInsert :: "cold_st \<Rightarrow> cold_st" where
  "Ocall_ColdInsert st =
    (let n = seg 0 CONTAINER_ID_LENGTH (off_out st); p = (rd32 (drop 7 (off_out st)), rd32 (drop 11 (off_out st)))
     in st\<lparr>cold_map := (cold_map st)(n \<mapsto> (case cold_map st n of None \<Rightarrow> [] | Some ps \<Rightarrow> ps) @ [p]),
          cold_container_set := set_insert n (cold_container_set st)\<rparr>)"

definition cold_insert :: "container_name \<Rightarrow> u32 \<times> u32 \<Rightarrow> off_st \<Rightarrow> fault + off_st" where
  "cold_insert n p st =
    bindE (memcpyE OUT_BUFFER_SIZE (off_out (cold st)) 0 (take CONTAINER_ID_LENGTH n @ le32 (fst p) @ le32 (snd p))) (\<lambda>b.
      Inr (st\<lparr>cold := Ocall_ColdInsert ((cold st)\<lparr>off_out := b\<rparr>)\<rparr>))"

definition Ocall_Coldrevise :: "cold_st \<Rightarrow> cold_st" where
  "Ocall_Coldrevise st = st\<lparr>cold_container_vector := cold_container_vector st @ cold_container_set st, cold_container_set := []\<rparr>"

text \<open>At most \<open>Cold_Batch\<close> containers from the back of the vector, each with its cold chunks.\<close>

definition cold_pairs :: "cold_st \<Rightarrow> container_name \<Rightarrow> (u32 \<times> u32) list" where
  "cold_pairs st n = (case cold_map st n of None \<Rightarrow> [] | Some ps \<Rightarrow> rev ps)"

definition cold_image :: "container_name \<Rightarrow> (u32 \<times> u32) list \<Rightarrow> bytes" where
  "cold_image n ps = n @ le32 (word_of_nat (length ps)) @ concat (map (\<lambda>(a, b). le32 a @ le32 b) ps)"

definition Ocall_GetCold :: "cold_st \<Rightarrow> fault + cold_st" where
  "Ocall_GetCold st =
    (let v = cold_container_vector st; num = min (length v) Cold_Batch; ns = take num (rev v)
     in bindE (memcpyE OUT_BUFFER_SIZE (off_out st) 0
                 (le32 (word_of_nat num) @ concat (map (\<lambda>n. cold_image n (cold_pairs st n)) ns))) (\<lambda>b.
          Inr (st\<lparr>off_out := b, cold_container_vector := take (length v - num) v,
            cold_map := (\<lambda>n. if n \<in> set ns then None else cold_map st n)\<rparr>)))"

fun parse_pairs :: "nat \<Rightarrow> bytes \<Rightarrow> (u32 \<times> u32) list" where
  "parse_pairs 0 b = []"
| "parse_pairs (Suc k) b = (rd32 b, rd32 (drop 4 b)) # parse_pairs k (drop 8 b)"

text \<open>
  The containers of a batch with their cold chunks. A batch has one container, so the order in
  which the enclave walks its hash table is this one.
\<close>

fun parse_cold :: "nat \<Rightarrow> bytes \<Rightarrow> (container_name \<times> (u32 \<times> u32) list) list" where
  "parse_cold 0 b = []"
| "parse_cold (Suc k) b =
    (let num = unat (rd32 (drop CONTAINER_ID_LENGTH b))
     in (take CONTAINER_ID_LENGTH b, parse_pairs num (drop (CONTAINER_ID_LENGTH + 4) b)) #
        parse_cold k (drop (CONTAINER_ID_LENGTH + 4 + 8 * num) b))"

section \<open>Chunks of a container\<close>

text \<open>Reading \<open>n\<close> bytes of a container into a buffer of \<open>cap\<close> bytes.\<close>

definition read_at :: "nat \<Rightarrow> bytes \<Rightarrow> nat \<Rightarrow> nat \<Rightarrow> fault + bytes" where
  "read_at cap c p n = (if length c < p + n then Inl ReadOutside else if cap < n then Inl WriteOutside else Inr (seg p n c))"

definition GetChunk_FP :: "bytes \<Rightarrow> RecipeEntry \<Rightarrow> fault + bytes" where
  "GetChunk_FP c r = read_at CHUNK_HASH_SIZE c (unat (addr_offset r) + RECIPE_ENTRY_SIZE) CHUNK_HASH_SIZE"

definition GetChunk_SF :: "bytes \<Rightarrow> RecipeEntry \<Rightarrow> fault + bytes" where
  "GetChunk_SF c r = read_at (3 * CHUNK_HASH_SIZE) c (unat (addr_offset r) + RECIPE_ENTRY_SIZE + CHUNK_HASH_SIZE) (3 * CHUNK_HASH_SIZE)"

definition GetChunk_content_buffer :: "bytes \<Rightarrow> RecipeEntry \<Rightarrow> fault + bytes" where
  "GetChunk_content_buffer c r =
    read_at MAX_CHUNK_SIZE c (unat (addr_offset r) + RECIPE_ENTRY_SIZE + 4 * CHUNK_HASH_SIZE) (unat (addr_length r))"

definition GetChunk_IV :: "bytes \<Rightarrow> RecipeEntry \<Rightarrow> fault + bytes" where
  "GetChunk_IV c r =
    read_at CRYPTO_BLOCK_SIZE c (unat (addr_offset r) + RECIPE_ENTRY_SIZE + 4 * CHUNK_HASH_SIZE + unat (addr_length r)) CRYPTO_BLOCK_SIZE"

text \<open>Where a chunk lies and how long it is with its metadata.\<close>

definition cold_pair :: "RecipeEntry \<Rightarrow> u32 \<times> u32" where
  "cold_pair r = (addr_offset r, addr_length r + word_of_nat (4 * CHUNK_HASH_SIZE + RECIPE_ENTRY_SIZE + CRYPTO_BLOCK_SIZE))"

definition open_chunk :: "enclave \<Rightarrow> bytes \<Rightarrow> RecipeEntry \<Rightarrow> fault + bytes \<times> bytes" where
  "open_chunk E c r =
    bindE (GetChunk_content_buffer c r) (\<lambda>x.
    bindE (GetChunk_IV c r) (\<lambda>iv.
    bindE (DecryptionWithKeyIV (ssl E) CIPHER_TYPE (enclaveKey E) iv x) (\<lambda>p. Inr (p, iv))))"

text \<open>Only a negative result means that the chunk was not compressed.\<close>

definition unlz_off :: "enclave \<Rightarrow> bytes \<Rightarrow> bytes" where
  "unlz_off E p = (case lz4_decompress E p MAX_CHUNK_SIZE of None \<Rightarrow> p | Some x \<Rightarrow> x)"

section \<open>The hot container\<close>

definition Ocall_SavehotContainer :: "string \<Rightarrow> off_st \<Rightarrow> off_st" where
  "Ocall_SavehotContainer t st =
    st\<lparr>odisk := (odisk st)(delta_path t (containerID (hot_container st)) \<mapsto> ct_bytes (hot_container st))\<rparr>"

definition fresh_hot :: "off_st \<Rightarrow> fault + off_st" where
  "fresh_hot st =
    (case uuid_bytes (off_times st) of
       None \<Rightarrow> Inl UuidOverflow
     | Some u \<Rightarrow> Inr (st\<lparr>off_times := Suc (off_times st), hot_container := (hot_container st)\<lparr>containerID := u, currentSize := 0\<rparr>\<rparr>))"

definition hot_fits :: "u32 \<Rightarrow> u32 \<Rightarrow> bool" where
  "hot_fits chunkSize saveOffset \<longleftrightarrow>
     (ucast (chunkSize + saveOffset :: u32) :: u64) + word_of_nat RECIPE_ENTRY_SIZE + word_of_nat (4 * CHUNK_HASH_SIZE) +
       word_of_nat CRYPTO_BLOCK_SIZE < word_of_nat MAX_CONTAINER_SIZE"

definition place_hot :: "bytes \<Rightarrow> RecipeEntry \<Rightarrow> bytes \<Rightarrow> bytes \<Rightarrow> bytes \<Rightarrow> u32 \<Rightarrow> off_st \<Rightarrow> fault + RecipeEntry \<times> off_st" where
  "place_hot content r chunkfp sf iv saveOffset st =
    (let h = hot_container st;
         r' = r\<lparr>addr_offset := saveOffset, deltaFlag := 1, containerName := containerID h\<rparr>
     in bindE (pack_chunk r' chunkfp sf content iv (ct_body h) (unat saveOffset)) (\<lambda>b.
          Inr (r', st\<lparr>hot_container := h\<lparr>ct_body := b, currentSize := grown_size (currentSize h) (addr_length r)\<rparr>\<rparr>)))"

definition InsertHot_container ::
  "string \<Rightarrow> bytes \<Rightarrow> RecipeEntry \<Rightarrow> bytes \<Rightarrow> bytes \<Rightarrow> bytes \<Rightarrow> off_st \<Rightarrow> fault + RecipeEntry \<times> off_st" where
  "InsertHot_container t content r chunkfp sf iv st =
    (if hot_fits (addr_length r) (currentSize (hot_container st))
     then place_hot content r chunkfp sf iv (currentSize (hot_container st)) st
     else bindE (fresh_hot (Ocall_SavehotContainer t st)) (place_hot content r chunkfp sf iv 0))"

section \<open>Encoding again\<close>

text \<open>
  The encoder of this class is a copy of the one of the frequency index that empties its table before
  it uses it, too. A delta longer than the chunk is not used. The two scratch buffers have
  \<open>MAX_CHUNK_SIZE\<close> bytes.
\<close>

definition ed3_encode_buffer :: "bytes \<Rightarrow> bytes \<Rightarrow> off_st \<Rightarrow> fault + bytes \<times> off_st" where
  "ed3_encode_buffer chunk ref st =
    bindE (of_edelta (EDeltaEncode chunk ref (newDeltaBuffer st) (ResetTable (offline_htable st)))) (\<lambda>(d, ht).
      if MAX_CHUNK_SIZE < length d then Inl WriteOutside
      else Inr (d, st\<lparr>offline_htable := ht, newDeltaBuffer := put (newDeltaBuffer st) 0 d\<rparr>))"

definition ed3_decode_buffer :: "bytes \<Rightarrow> bytes \<Rightarrow> fault + bytes" where
  "ed3_decode_buffer delta ref =
    bindE (of_edelta (EDeltaDecode delta (length delta) ref)) (\<lambda>m.
      if MAX_CHUNK_SIZE < length m then Inl WriteOutside else Inr m)"

definition count_redelta :: "nat \<Rightarrow> nat \<Rightarrow> offline_stats \<Rightarrow> offline_stats" where
  "count_redelta old_deltasize new_delta_chunk_size s =
    (let a = word_of_nat old_deltasize; b = word_of_nat new_delta_chunk_size
     in s\<lparr>offlineCompress_size := offlineCompress_size s - a + b, offlineCurrBackup_size := offlineCurrBackup_size s - a + b,
          Offline_DeltaSaveSize := Offline_DeltaSaveSize s + (a - b), off_DeltaSaveSize := off_DeltaSaveSize s + (a - b),
          off_deltaDataSize := off_deltaDataSize s - a + b, offlineDeltanum := offlineDeltanum s + 1,
          offlineDeDeltanum := offlineDeDeltanum s + 1\<rparr>)"

definition GetNew_deltachunk :: "bytes \<Rightarrow> bytes \<Rightarrow> bytes \<Rightarrow> off_st \<Rightarrow> fault + bytes \<times> bool \<times> off_st" where
  "GetNew_deltachunk old_delta old_chunk new_chunk st =
    bindE (ed3_decode_buffer old_delta old_chunk) (\<lambda>u.
    bindE (ed3_encode_buffer u new_chunk st) (\<lambda>(d, st1).
      if length u < length d then Inr (d, False, st1)
      else Inr (d, True, st1\<lparr>ostats := count_redelta (length old_delta) (length d) (ostats st1)\<rparr>)))"

text \<open>A chunk goes to the hot container as a delta against \<open>nk\<close>, and its old place is cold.\<close>

definition move_to_hot ::
  "enclave \<Rightarrow> string \<Rightarrow> fp \<Rightarrow> fp \<Rightarrow> bytes \<Rightarrow> RecipeEntry \<Rightarrow> bytes \<Rightarrow> bytes \<Rightarrow> bytes \<Rightarrow> off_st \<Rightarrow> fault + off_st" where
  "move_to_hot E t nk k d r chunkfp sf iv st =
    (let r1 = r\<lparr>addr_length := word_of_nat (length d), basechunkHash := nk\<rparr>
     in bindE (EncryptWithKeyIV (ssl E) CIPHER_TYPE (enclaveKey E) iv d) (\<lambda>c.
        bindE (InsertHot_container t c r1 chunkfp sf iv st) (\<lambda>(r2, st1).
        bindE (AESCBCEnc (ssl E) (indexQueryKey E) (entry_image r2)) (\<lambda>v.
        bindE (record_delta nk k (UpdateIndexStore k v st1)) (\<lambda>st2.
          cold_insert (containerName r) (cold_pair r) st2)))))"

text \<open>One delta \<open>k\<close> of the old base; the flag is cleared when one of them cannot be encoded again.\<close>

definition redelta ::
  "enclave \<Rightarrow> string \<Rightarrow> fp \<Rightarrow> bytes \<Rightarrow> bytes \<Rightarrow> fp \<Rightarrow> bool \<times> off_st \<Rightarrow> fault + bool \<times> off_st" where
  "redelta E t nk old_chunk new_chunk k fs =
    bindE (load_recipe E k (snd fs)) (\<lambda>(r, st1).
    bindE (Ocall_OneDeltaContainer t (set_addr_name (containerName r) st1)) (\<lambda>st2.
    let c = o_container (oentry st2)
    in bindE (GetChunk_FP c r) (\<lambda>chunkfp.
       bindE (GetChunk_SF c r) (\<lambda>sf.
       bindE (open_chunk E c r) (\<lambda>(delta, iv).
       bindE (GetNew_deltachunk delta old_chunk new_chunk st2) (\<lambda>(d, ok, st3).
         if ok then bindE (move_to_hot E t nk k d r chunkfp sf iv st3) (\<lambda>st4. Inr (fst fs, st4))
         else Inr (False, st3)))))))"

definition redelta_all ::
  "enclave \<Rightarrow> string \<Rightarrow> fp \<Rightarrow> fp \<Rightarrow> bytes \<Rightarrow> bytes \<Rightarrow> off_st \<Rightarrow> fault + bool \<times> off_st" where
  "redelta_all E t ok nk old_chunk new_chunk st =
    bindE (query_deltas ok st) (\<lambda>(ds, st1).
    let st2 = (if ds = [] then st1
               else st1\<lparr>delta_map := (delta_map st1)(ok \<mapsto> (case delta_map st1 ok of None \<Rightarrow> [] | Some xs \<Rightarrow> xs) @ ds)\<rparr>)
    in case delta_map st2 ok of
         None \<Rightarrow> Inr (True, st2)
       | Some xs \<Rightarrow> bindE (foldE (redelta E t nk old_chunk new_chunk) xs (True, st2)) (\<lambda>(flag, st3).
           Inr (flag, st3\<lparr>delta_map := (delta_map st3)(ok := None)\<rparr>)))"

section \<open>One pair of base chunks\<close>

definition count_replaced :: "nat \<Rightarrow> nat \<Rightarrow> nat \<Rightarrow> offline_stats \<Rightarrow> offline_stats" where
  "count_replaced old_chunk_size old_refchunksize new_delta_size s =
    (let a = word_of_nat old_chunk_size; b = word_of_nat new_delta_size; m = word_of_nat old_refchunksize
     in s\<lparr>offlineCompress_size := offlineCompress_size s - a + b, offlineCurrBackup_size := offlineCurrBackup_size s - a + b,
          offlinedeltaChunkNum := offlinedeltaChunkNum s + 1, off_deltaChunkNum := off_deltaChunkNum s + 1,
          off_baseChunkNum := off_baseChunkNum s - 1, off_deltaDataSize := off_deltaDataSize s + b,
          off_baseDataSize := off_baseDataSize s - a, Offline_DeltaSaveSize := Offline_DeltaSaveSize s + (m - b),
          off_lz4SaveSize := off_lz4SaveSize s - (m - a), off_DeltaSaveSize := off_DeltaSaveSize s + (m - b),
          offlineDeltanum := offlineDeltanum s + 1\<rparr>)"

text \<open>The features move from the old to the new base, and nothing else happens.\<close>

definition greedy_pair :: "enclave \<Rightarrow> fp \<Rightarrow> fp \<Rightarrow> off_st \<Rightarrow> fault + off_st" where
  "greedy_pair E ok nk st =
    bindE (load_recipe E ok st) (\<lambda>(ro, st1).
    bindE (load_recipe E nk (update_sf 0 ro st1)) (\<lambda>(rn, st2).
    bindE (query_deltas ok (update_sf 1 rn st2)) (\<lambda>(ds, st3). Inr st3)))"

text \<open>The old base as a delta against the new one; statistics are counted even if it stays.\<close>

definition delta_old_base ::
  "enclave \<Rightarrow> string \<Rightarrow> fp \<Rightarrow> fp \<Rightarrow> RecipeEntry \<Rightarrow> bytes \<Rightarrow> bytes \<Rightarrow> bytes \<Rightarrow> bool \<times> off_st \<Rightarrow> fault + off_st" where
  "delta_old_base E t ok nk ro iv old_chunk new_chunk fs =
    bindE (ed3_encode_buffer old_chunk new_chunk (snd fs)) (\<lambda>(d, st1).
      if length old_chunk < length d then Inr st1
      else let st2 = st1\<lparr>ostats := count_replaced (unat (addr_length ro)) (length old_chunk) (length d) (ostats st1)\<rparr>
           in if fst fs then move_to_hot E t nk ok d ro ok (superfeature ro) iv st2 else Inr st2)"

definition replace_base :: "enclave \<Rightarrow> string \<Rightarrow> fp \<Rightarrow> fp \<Rightarrow> off_st \<Rightarrow> fault + off_st" where
  "replace_base E t ok nk st =
    bindE (load_recipe E ok st) (\<lambda>(ro, st1).
    bindE (Ocall_OneContainer t (set_addr_name (containerName ro) st1)) (\<lambda>st2.
    if o_offlineFlag (oentry st2) = 0 then Inr st2
    else let old_container = o_container (oentry st2)
    in bindE (load_recipe E nk (update_sf 0 ro st2)) (\<lambda>(rn, st3).
       bindE (Ocall_OneContainer t (set_addr_name (containerName rn) st3)) (\<lambda>st4.
       if o_offlineFlag (oentry st4) = 0 then Inr st4
       else bindE (open_chunk E old_container ro) (\<lambda>(po, iv).
            bindE (open_chunk E (o_container (oentry st4)) rn) (\<lambda>(pn, ivn).
            bindE (redelta_all E t ok nk (unlz_off E po) (unlz_off E pn) (update_sf 1 rn st4)) (\<lambda>fs.
              delta_old_base E t ok nk ro iv (unlz_off E po) (unlz_off E pn) fs)))))))"

text \<open>\<open>GreeyOfflineSize\<close> is 0: \<open>GREEDY_THRESHOLD\<close> is 0.0.\<close>

definition offline_pair :: "enclave \<Rightarrow> string \<Rightarrow> fp \<times> fp \<Rightarrow> off_st \<Rightarrow> fault + off_st" where
  "offline_pair E t p st =
    (if offlineCurrBackup_size (ostats st) = 0 then greedy_pair E (fst p) (snd p) st
     else replace_base E t (fst p) (snd p) st)"

section \<open>Cutting cold chunks out\<close>

text \<open>The state of the copy: positions in the old and the new container, the new container, the index.\<close>

record copy_st =
  saveset :: nat
  newset :: nat
  cp_new :: bytes
  cp_db :: InMemoryDatabase

text \<open>
  One chunk is copied, its address moved by \<open>move\<close>, and the index updated. The positions are below the
  4 MiB of a container, since every copy stays inside both.
\<close>

definition rest_size :: "RecipeEntry \<Rightarrow> nat" where
  "rest_size a = unat (addr_length a + word_of_nat (4 * CHUNK_HASH_SIZE + CRYPTO_BLOCK_SIZE))"

definition copy_one :: "enclave \<Rightarrow> (RecipeEntry \<Rightarrow> RecipeEntry) \<Rightarrow> bytes \<Rightarrow> copy_st \<Rightarrow> fault + copy_st" where
  "copy_one E move src cs =
    (let p = saveset cs; a = move (entry_of (seg p RECIPE_ENTRY_SIZE src)); n = rest_size a; q = newset cs
     in if length src < p + RECIPE_ENTRY_SIZE + max n CHUNK_HASH_SIZE then Inl ReadOutside
        else bindE (memcpyE MAX_CONTAINER_SIZE (cp_new cs) q (entry_image a)) (\<lambda>b1.
             bindE (memcpyE MAX_CONTAINER_SIZE b1 (q + RECIPE_ENTRY_SIZE) (seg (p + RECIPE_ENTRY_SIZE) n src)) (\<lambda>b2.
             bindE (AESCBCEnc (ssl E) (indexQueryKey E) (entry_image a)) (\<lambda>v.
               Inr \<lparr>saveset = p + RECIPE_ENTRY_SIZE + n, newset = q + RECIPE_ENTRY_SIZE + n, cp_new = b2,
                 cp_db = InsertBothBuffer (seg (p + RECIPE_ENTRY_SIZE) CHUNK_HASH_SIZE src) CHUNK_HASH_SIZE v RECIPE_ENTRY_SIZE (cp_db cs)\<rparr>))))"

lemma copy_one_progress:
  assumes "copy_one E move src cs = Inr cs'"
  shows "saveset cs < saveset cs' \<and> saveset cs' \<le> length src"
  using assms by (auto simp: copy_one_def Let_def bindE_def RECIPE_ENTRY_SIZE_def split: if_splits sum.splits)

function copy_until :: "enclave \<Rightarrow> (RecipeEntry \<Rightarrow> RecipeEntry) \<Rightarrow> bytes \<Rightarrow> nat \<Rightarrow> copy_st \<Rightarrow> fault + copy_st" where
  "copy_until E move src limit cs =
    (if saveset cs < limit then
       case copy_one E move src cs of Inl e \<Rightarrow> Inl e | Inr cs' \<Rightarrow> copy_until E move src limit cs'
     else Inr cs)"
  by auto
termination
proof (relation "measure (\<lambda>(E, move, src, limit, cs). length src - saveset cs)")
  fix E move src limit cs cs'
  assume "copy_one E move src cs = Inr cs'"
  from copy_one_progress [OF this]
  show "((E, move, src, limit, cs'), (E, move, src, limit, cs)) \<in> measure (\<lambda>(E, move, src, limit, cs). length src - saveset cs)"
    by auto
qed simp

declare copy_until.simps [simp del]

definition move_back :: "u32 \<Rightarrow> RecipeEntry \<Rightarrow> RecipeEntry" where
  "move_back coldset a = a\<lparr>addr_offset := addr_offset a - coldset\<rparr>"

text \<open>Everything before the next cold chunk, then over the cold chunk.\<close>

definition skip_cold :: "enclave \<Rightarrow> bytes \<Rightarrow> u32 \<times> u32 \<Rightarrow> u32 \<times> copy_st \<Rightarrow> fault + u32 \<times> copy_st" where
  "skip_cold E src p s =
    bindE (copy_until E (move_back (fst s)) src (unat (fst p)) (snd s)) (\<lambda>cs.
      Inr (fst s + snd p, cs\<lparr>saveset := (saveset cs + unat (snd p)) mod 2 ^ 32\<rparr>))"

definition sort_cold :: "(u32 \<times> u32) list \<Rightarrow> (u32 \<times> u32) list" where
  "sort_cold = sort_key (\<lambda>p. unat (fst p))"

text \<open>The delta container of the name, else the base container; without a file the entry is left as it was.\<close>

definition Ocall_OneColdContainer :: "string \<Rightarrow> off_st \<Rightarrow> fault + bool \<times> off_st" where
  "Ocall_OneColdContainer t st =
    (let use = (\<lambda>flag f. bindE (memcpyE MAX_CONTAINER_SIZE (ocall_container st) 0 f) (\<lambda>b.
            Inr (flag, st\<lparr>ocall_container := b, oentry := (oentry st)\<lparr>o_container := b, o_containersize := length f\<rparr>\<rparr>)))
     in case odisk st (delta_path t (addr_name st)) of
          Some f \<Rightarrow> use True f
        | None \<Rightarrow> (case odisk st (base_path t (addr_name st)) of Some f \<Rightarrow> use False f | None \<Rightarrow> Inr (False, st)))"

definition Ocall_SaveColdContainer :: "string \<Rightarrow> container_name \<Rightarrow> bytes \<Rightarrow> bool \<Rightarrow> off_st \<Rightarrow> off_st" where
  "Ocall_SaveColdContainer t n b delta_flag st =
    st\<lparr>odisk := (odisk st)((if delta_flag then delta_path t n else base_path t n) \<mapsto> b)\<rparr>"

definition Update_cold_container :: "enclave \<Rightarrow> string \<Rightarrow> container_name \<times> (u32 \<times> u32) list \<Rightarrow> off_st \<Rightarrow> fault + off_st" where
  "Update_cold_container E t np st =
    bindE (Ocall_OneColdContainer t (set_addr_name (fst np) st)) (\<lambda>(delta_flag, st1).
    let src = o_container (oentry st1); sz = o_containersize (oentry st1)
    in bindE (foldE (skip_cold E src) (sort_cold (snd np))
                (0, \<lparr>saveset = 0, newset = 0, cp_new = merge_buffer st1, cp_db = odb st1\<rparr>)) (\<lambda>(coldset, cs).
       bindE (copy_until E (move_back coldset) src sz cs) (\<lambda>cs'.
         if sz < unat coldset \<or> length (cp_new cs') < sz - unat coldset then Inl ReadOutside
         else let st2 = st1\<lparr>odb := cp_db cs', merge_buffer := cp_new cs',
                    ostats := (ostats st1)\<lparr>offlineDeletenum := offlineDeletenum (ostats st1) + 1\<rparr>\<rparr>
              in Inr (Ocall_SaveColdContainer t (fst np) (take (sz - unat coldset) (cp_new cs')) delta_flag st2))))"

section \<open>Merging base containers\<close>

text \<open>
  \<open>Ocall_GetMergeContainer\<close> takes the sorted list of the files; two neighbours that fit together make
  a pair. Their sizes are local variables that keep the values of the previous pair when one of
  the files cannot be opened, and are not initialised before the first.
\<close>

fun merge_pairs :: "disk \<Rightarrow> (u32 \<times> u32) option \<Rightarrow> string list \<Rightarrow> fault + (string \<times> string) list" where
  "merge_pairs d sizes (p # q # ps) =
    (let sizes' = (case (d p, d q) of (Some f, Some g) \<Rightarrow> Some (word_of_nat (length f), word_of_nat (length g)) | _ \<Rightarrow> sizes)
     in case sizes' of
          None \<Rightarrow> Inl UninitLocal
        | Some (a, b) \<Rightarrow>
            if unat (a + b) < MAX_CONTAINER_SIZE - 1 then bindE (merge_pairs d sizes' ps) (\<lambda>rest. Inr ((p, q) # rest))
            else merge_pairs d sizes' (q # ps))"
| "merge_pairs d sizes ps = Inr []"

definition path_name :: "string \<Rightarrow> container_name" where
  "path_name p = map of_char (seg 16 CONTAINER_ID_LENGTH p)"

definition move_behind :: "container_name \<Rightarrow> u32 \<Rightarrow> RecipeEntry \<Rightarrow> RecipeEntry" where
  "move_behind n firstContainerSize a = a\<lparr>addr_offset := addr_offset a + firstContainerSize, containerName := n\<rparr>"

text \<open>\<open>Ocall_GetMergePair\<close>, the copy of the second container, and \<open>Ocall_MergeContent\<close>.\<close>

definition merge_pair :: "enclave \<Rightarrow> string \<times> string \<Rightarrow> off_st \<Rightarrow> fault + off_st" where
  "merge_pair E pq st =
    (let size1 = (case odisk st (fst pq) of None \<Rightarrow> 0 | Some f \<Rightarrow> length f)
     in case odisk st (snd pq) of
          None \<Rightarrow> Inl ExitFailure
        | Some g \<Rightarrow>
            if MAX_CONTAINER_SIZE < length g then Inl WriteOutside
            else bindE (copy_until E (move_behind (path_name (fst pq)) (word_of_nat size1)) g (length g)
                   \<lparr>saveset = 0, newset = 0, cp_new = merge_buffer st, cp_db = odb st\<rparr>) (\<lambda>cs.
                 let body = take (length g) (cp_new cs)
                 in Inr (st\<lparr>odb := cp_db cs, merge_buffer := cp_new cs,
                      odisk := (odisk st)(fst pq \<mapsto> (case odisk st (fst pq) of None \<Rightarrow> [] | Some f \<Rightarrow> f) @ body, snd pq := None)\<rparr>)))"

definition MergeContainer :: "enclave \<Rightarrow> string list \<Rightarrow> off_st \<Rightarrow> fault + off_st" where
  "MergeContainer E files st = bindE (merge_pairs (odisk st) None files) (\<lambda>pqs. foldE (merge_pair E) pqs st)"

section \<open>The pass\<close>

text \<open>
  The loop over the pairs, batch by batch: the next batch is asked for before the pairs of this one are
  worked on. \<open>ord\<close> is the order in which the hash table of the batch is walked.
\<close>

lemma small_count: "k \<le> 100 \<Longrightarrow> unat (word_of_nat k :: u32) = k"
  by (rule unat_of_nat_small) simp

lemma GetLocal_count:
  assumes "Ocall_GetLocal q = Inr q'"
  shows "unat (rd32 (off_test q')) = min (length (local_map q)) Local_Batch \<and>
    length (local_map q') = length (local_map q) - min (length (local_map q)) Local_Batch"
  using assms by (auto simp: Ocall_GetLocal_def Let_def bindE_Inr_iff memcpyE_def put_def Local_Batch_def small_count split: if_splits)

function pair_loop ::
  "enclave \<Rightarrow> string \<Rightarrow> ((fp \<times> fp) list \<Rightarrow> (fp \<times> fp) list) \<Rightarrow> pair_st \<Rightarrow> off_st \<Rightarrow> fault + pair_st \<times> off_st" where
  "pair_loop E t ord q st =
    (if unat (rd32 (off_test q)) = 0 then Inr (q, st)
     else case Ocall_GetLocal q of Inl e \<Rightarrow> Inl e
     | Inr q1 \<Rightarrow> bindE (foldE (offline_pair E t) (ord (read_local (off_test q))) st) (pair_loop E t ord q1))"
  by auto
termination
proof (relation "measure (\<lambda>(E, t, ord, q, st). length (local_map q) + (if unat (rd32 (off_test q)) = 0 then 0 else 1))")
  fix E t ord q st q1 st1
  assume "unat (rd32 (off_test q)) \<noteq> 0" "Ocall_GetLocal q = Inr q1"
  with GetLocal_count [OF this(2)]
  show "((E, t, ord, q1, st1), (E, t, ord, q, st)) \<in>
      measure (\<lambda>(E, t, ord, q, st). length (local_map q) + (if unat (rd32 (off_test q)) = 0 then 0 else 1))"
    by (auto simp: Local_Batch_def)
qed simp

declare pair_loop.simps [simp del]

text \<open>The loop over the cold containers, in the same way.\<close>

lemma GetCold_count:
  assumes "Ocall_GetCold c = Inr c'"
  shows "unat (rd32 (off_out c')) = min (length (cold_container_vector c)) Cold_Batch \<and>
    length (cold_container_vector c') = length (cold_container_vector c) - min (length (cold_container_vector c)) Cold_Batch"
  using assms by (auto simp: Ocall_GetCold_def Let_def bindE_Inr_iff memcpyE_def put_def Cold_Batch_def small_count split: if_splits)

function cold_loop :: "enclave \<Rightarrow> string \<Rightarrow> cold_st \<Rightarrow> off_st \<Rightarrow> fault + cold_st \<times> off_st" where
  "cold_loop E t c st =
    (if unat (rd32 (off_out c)) = 0 then Inr (c, st)
     else case Ocall_GetCold c of Inl e \<Rightarrow> Inl e
     | Inr c1 \<Rightarrow> bindE (foldE (Update_cold_container E t) (parse_cold (unat (rd32 (off_out c))) (drop 4 (off_out c))) st) (cold_loop E t c1))"
  by auto
termination
proof (relation "measure (\<lambda>(E, t, c, st). length (cold_container_vector c) + (if unat (rd32 (off_out c)) = 0 then 0 else 1))")
  fix E t c st c1 st1
  assume "unat (rd32 (off_out c)) \<noteq> 0" "Ocall_GetCold c = Inr c1"
  with GetCold_count [OF this(2)]
  show "((E, t, c1, st1), (E, t, c, st)) \<in>
      measure (\<lambda>(E, t, c, st). length (cold_container_vector c) + (if unat (rd32 (off_out c)) = 0 then 0 else 1))"
    by (auto simp: Cold_Batch_def)
qed simp

declare cold_loop.simps [simp del]

definition local_phase :: "enclave \<Rightarrow> string \<Rightarrow> ((fp \<times> fp) list \<Rightarrow> (fp \<times> fp) list) \<Rightarrow> off_st \<Rightarrow> fault + off_st" where
  "local_phase E t ord st =
    bindE (Ocall_GetLocal (pairs st)) (\<lambda>q.
    bindE (pair_loop E t ord q st) (\<lambda>(q', st1).
      let st2 = st1\<lparr>pairs := q'\<rparr>
      in Inr (if currentSize (hot_container st2) \<noteq> 0 then Ocall_SavehotContainer t st2 else st2)))"

definition cold_phase :: "enclave \<Rightarrow> string \<Rightarrow> off_st \<Rightarrow> fault + off_st" where
  "cold_phase E t st =
    bindE (Ocall_GetCold (Ocall_Coldrevise (cold st))) (\<lambda>c.
    bindE (cold_loop E t c st) (\<lambda>(c', st1). Inr (st1\<lparr>cold := c'\<rparr>)))"

text \<open>\<open>files\<close> is the sorted directory \<open>Base-Containers\<close> when the containers are merged.\<close>

definition Easy_update ::
  "enclave \<Rightarrow> string \<Rightarrow> ((fp \<times> fp) list \<Rightarrow> (fp \<times> fp) list) \<Rightarrow> (disk \<Rightarrow> string list) \<Rightarrow> off_st \<Rightarrow> fault + off_st" where
  "Easy_update E t ord files st =
    bindE (local_phase E t ord st) (\<lambda>st1.
    bindE (cold_phase E t st1) (\<lambda>st2.
    bindE (MergeContainer E (files (odisk st2)) st2) (\<lambda>st3.
      Inr (st3\<lparr>delta_map := Map.empty\<rparr>))))"

text \<open>\<open>EcallFreqIndex::ProcessOffline\<close> with \<open>Init\<close>; \<open>s\<close> are the statistics of the uploads.\<close>

definition start_stats :: "up_st \<Rightarrow> freq_stats \<Rightarrow> offline_stats \<Rightarrow> offline_stats" where
  "start_stats u s o1 = o1\<lparr>offlineCompress_size := onlineCompress_size u, offlineCurrBackup_size := onlineBackupSize u,
     off_baseChunkNum := baseChunkNum s, off_baseDataSize := baseDataSize s, off_deltaChunkNum := deltaChunkNum s,
     off_deltaDataSize := deltaDataSize s, off_DeltaSaveSize := DeltaSaveSize s, off_lz4SaveSize := lz4SaveSize s\<rparr>"

definition ProcessOffline ::
  "enclave \<Rightarrow> string \<Rightarrow> bool \<Rightarrow> ((fp \<times> fp) list \<Rightarrow> (fp \<times> fp) list) \<Rightarrow> (disk \<Rightarrow> string list) \<Rightarrow> up_st \<Rightarrow> freq_stats \<Rightarrow> off_st \<Rightarrow> fault + off_st" where
  "ProcessOffline E t Offline_Flag ord files u s st =
    bindE (fresh_hot (st\<lparr>ostats := start_stats u s (ostats st)\<rparr>)) (\<lambda>st1.
      if Offline_Flag then Easy_update E t ord files st1
      else Inr (st1\<lparr>pairs := (pairs st1)\<lparr>local_map := []\<rparr>\<rparr>))"

text \<open>\<open>EnclaveIndex::ProcessOff\<close>.\<close>

definition ProcessOff ::
  "enclave \<Rightarrow> string \<Rightarrow> bool \<Rightarrow> (fp \<times> fp) list \<Rightarrow> fp list \<Rightarrow> ((fp \<times> fp) list \<Rightarrow> (fp \<times> fp) list) \<Rightarrow> (disk \<Rightarrow> string list) \<Rightarrow>
    up_st \<Rightarrow> freq_stats \<Rightarrow> off_st \<Rightarrow> fault + off_st" where
  "ProcessOff E t Offline_Flag order ks ord files u s st = ProcessOffline E t Offline_Flag ord files u s (Ocall_Localrevise order ks st)"

end
