(* ===== verification/OfflineCopy.thy ===== *)
theory OfflineCopy
  imports Offline
begin

text \<open>
  Containers as sequences of records, and the copies of the offline pass over them: what is left
  of a container after its cold chunks were cut out, and a container appended to another. The
  content of every chunk that is kept stays what it was, its address moves with it.
\<close>

section \<open>Containers as records\<close>

record crec =
  cr_addr :: RecipeEntry
  cr_key :: fp
  cr_sf :: bytes
  cr_data :: bytes
  cr_iv :: bytes

definition rec_bytes :: "crec \<Rightarrow> bytes" where
  "rec_bytes r = chunk_record (cr_addr r) (cr_key r) (cr_sf r) (cr_data r) (cr_iv r)"

definition rec_size :: "crec \<Rightarrow> nat" where
  "rec_size r = META_SIZE + length (cr_data r)"

definition crec_ok :: "container_name \<Rightarrow> crec \<Rightarrow> bool" where
  "crec_ok n r \<longleftrightarrow> entry_wf (cr_addr r) \<and> meta_ok (cr_key r) (cr_sf r) (cr_iv r) \<and> containerName (cr_addr r) = n \<and>
     unat (addr_length (cr_addr r)) = length (cr_data r)"

definition rimage :: "crec list \<Rightarrow> bytes" where
  "rimage rs = concat (map rec_bytes rs)"

fun laid :: "container_name \<Rightarrow> nat \<Rightarrow> crec list \<Rightarrow> bool" where
  "laid n p [] = True"
| "laid n p (r # rs) = (crec_ok n r \<and> unat (addr_offset (cr_addr r)) = p \<and> laid n (p + rec_size r) rs)"

lemma length_rec_bytes [simp]: "crec_ok n r \<Longrightarrow> length (rec_bytes r) = rec_size r"
  by (simp add: rec_bytes_def crec_ok_def rec_size_def)

lemma rimage_simps [simp]: "rimage [] = []" "rimage (r # rs) = rec_bytes r @ rimage rs" "rimage (rs @ ss) = rimage rs @ rimage ss"
  by (simp_all add: rimage_def)

lemma laid_append: "laid n p (rs @ ss) \<longleftrightarrow> laid n p rs \<and> laid n (p + length (rimage rs)) ss"
  by (induction rs arbitrary: p) (auto simp: add.assoc)

lemma laid_crec_ok: "laid n p rs \<Longrightarrow> r \<in> set rs \<Longrightarrow> crec_ok n r"
  by (induction rs arbitrary: p) auto

lemma laid_split:
  assumes "laid n p rs" "r \<in> set rs"
  shows "\<exists>xs ys. rs = xs @ r # ys \<and> unat (addr_offset (cr_addr r)) = p + length (rimage xs) \<and> crec_ok n r"
proof -
  obtain xs ys where "rs = xs @ r # ys" using assms(2) by (meson split_list)
  with assms(1) show ?thesis by (auto simp: laid_append)
qed

lemma rec_size_pos: "0 < rec_size r"
  by (simp add: rec_size_def meta_consts)

lemma laid_offsets:
  "laid n p rs \<Longrightarrow> sorted (map (\<lambda>r. unat (addr_offset (cr_addr r))) rs) \<and> distinct (map (\<lambda>r. unat (addr_offset (cr_addr r))) rs) \<and>
    (\<forall>r \<in> set rs. p \<le> unat (addr_offset (cr_addr r)))"
proof (induction rs arbitrary: p)
  case (Cons r rs)
  from Cons.IH [of "p + rec_size r"] Cons.prems rec_size_pos [of r] show ?case by fastforce
qed simp

lemma laid_addr_inj:
  assumes "laid n p rs" "r \<in> set rs" "s \<in> set rs" "cr_addr r = cr_addr s"
  shows "r = s"
  using laid_offsets [OF assms(1)] assms(2-4) by (auto simp: distinct_map inj_on_def)

text \<open>The fields of a record in a container.\<close>

lemma seg_record:
  assumes "crec_ok n r" "p = length pre"
  shows "seg p RECIPE_ENTRY_SIZE (pre @ rec_bytes r @ post) = entry_image (cr_addr r)"
    "seg (p + RECIPE_ENTRY_SIZE) CHUNK_HASH_SIZE (pre @ rec_bytes r @ post) = cr_key r"
    "seg (p + RECIPE_ENTRY_SIZE + CHUNK_HASH_SIZE) (3 * CHUNK_HASH_SIZE) (pre @ rec_bytes r @ post) = cr_sf r"
    "seg (p + RECIPE_ENTRY_SIZE + 4 * CHUNK_HASH_SIZE) (length (cr_data r)) (pre @ rec_bytes r @ post) = cr_data r"
    "seg (p + RECIPE_ENTRY_SIZE + 4 * CHUNK_HASH_SIZE + length (cr_data r)) CRYPTO_BLOCK_SIZE (pre @ rec_bytes r @ post) = cr_iv r"
    "seg (p + RECIPE_ENTRY_SIZE) (4 * CHUNK_HASH_SIZE + CRYPTO_BLOCK_SIZE + length (cr_data r)) (pre @ rec_bytes r @ post) =
       cr_key r @ cr_sf r @ cr_data r @ cr_iv r"
proof -
  have l: "length (entry_image (cr_addr r)) = RECIPE_ENTRY_SIZE" "length (cr_key r) = CHUNK_HASH_SIZE"
      "length (cr_sf r) = 3 * CHUNK_HASH_SIZE" "length (cr_iv r) = CRYPTO_BLOCK_SIZE"
    using assms(1) by (simp_all add: crec_ok_def meta_ok_def)
  note d = seg_def rec_bytes_def chunk_record_def assms(2)
  show "seg p RECIPE_ENTRY_SIZE (pre @ rec_bytes r @ post) = entry_image (cr_addr r)"
    "seg (p + RECIPE_ENTRY_SIZE) CHUNK_HASH_SIZE (pre @ rec_bytes r @ post) = cr_key r"
    "seg (p + RECIPE_ENTRY_SIZE + CHUNK_HASH_SIZE) (3 * CHUNK_HASH_SIZE) (pre @ rec_bytes r @ post) = cr_sf r"
    "seg (p + RECIPE_ENTRY_SIZE + 4 * CHUNK_HASH_SIZE) (length (cr_data r)) (pre @ rec_bytes r @ post) = cr_data r"
    "seg (p + RECIPE_ENTRY_SIZE + 4 * CHUNK_HASH_SIZE + length (cr_data r)) CRYPTO_BLOCK_SIZE (pre @ rec_bytes r @ post) = cr_iv r"
    "seg (p + RECIPE_ENTRY_SIZE) (4 * CHUNK_HASH_SIZE + CRYPTO_BLOCK_SIZE + length (cr_data r)) (pre @ rec_bytes r @ post) =
       cr_key r @ cr_sf r @ cr_data r @ cr_iv r"
    using l by (simp_all add: d drop_append size_consts)
qed

lemma record_room:
  "crec_ok n r \<Longrightarrow> length (pre @ rec_bytes r @ post) =
    length pre + RECIPE_ENTRY_SIZE + 4 * CHUNK_HASH_SIZE + length (cr_data r) + CRYPTO_BLOCK_SIZE + length post"
  by (simp add: rec_size_def META_SIZE_def)

lemma read_chunk_record:
  assumes "laid n 0 rs" "r \<in> set rs"
  shows "read_chunk (rimage rs) (addr_offset (cr_addr r)) (addr_length (cr_addr r)) = Some (cr_data r, cr_iv r)"
proof -
  obtain xs ys where s: "rs = xs @ r # ys" "unat (addr_offset (cr_addr r)) = length (rimage xs)" "crec_ok n r"
    using laid_split [OF assms] by auto
  have "unat (addr_length (cr_addr r)) = length (cr_data r)" using s(3) by (simp add: crec_ok_def)
  moreover have i: "rimage rs = rimage xs @ rec_bytes r @ rimage ys" using s(1) by simp
  ultimately show ?thesis
    using seg_record(4,5) [OF s(3) refl, of "rimage xs" "rimage ys"] record_room [OF s(3), of "rimage xs" "rimage ys"] s(2)
    unfolding read_chunk_def Let_def i by (simp add: size_consts)
qed

section \<open>Encrypted addresses\<close>

definition encaddr :: "enclave \<Rightarrow> RecipeEntry \<Rightarrow> bytes" where
  "encaddr E a = (case AESCBCEnc (ssl E) (indexQueryKey E) (entry_image a) of Inr v \<Rightarrow> v | Inl e \<Rightarrow> [])"

lemma encaddr_ok:
  assumes "evp_ok (ssl E)" "entry_wf a"
  shows "AESCBCEnc (ssl E) (indexQueryKey E) (entry_image a) = Inr (encaddr E a)" "length (encaddr E a) = RECIPE_ENTRY_SIZE"
    "AESCBCDec (ssl E) (indexQueryKey E) (encaddr E a) = Inr (entry_image a)"
proof -
  have "CRYPTO_BLOCK_SIZE dvd length (entry_image a)" using assms(2) by (simp add: size_consts RECIPE_ENTRY_SIZE_def)
  from AESCBC_ok [OF assms(1) this, of "indexQueryKey E"] obtain e where
      "AESCBCEnc (ssl E) (indexQueryKey E) (entry_image a) = Inr e" "length e = length (entry_image a)"
      "AESCBCDec (ssl E) (indexQueryKey E) e = Inr (entry_image a)" by blast
  then show "AESCBCEnc (ssl E) (indexQueryKey E) (entry_image a) = Inr (encaddr E a)" "length (encaddr E a) = RECIPE_ENTRY_SIZE"
    "AESCBCDec (ssl E) (indexQueryKey E) (encaddr E a) = Inr (entry_image a)"
    using assms(2) by (simp_all add: encaddr_def)
qed

text \<open>The index after the addresses of some records were written to it.\<close>

definition index_rec :: "enclave \<Rightarrow> crec \<Rightarrow> InMemoryDatabase \<Rightarrow> InMemoryDatabase" where
  "index_rec E r db = db\<lparr>indexObj := (indexObj db)(cr_key r \<mapsto> encaddr E (cr_addr r))\<rparr>"

definition reindex :: "enclave \<Rightarrow> crec list \<Rightarrow> InMemoryDatabase \<Rightarrow> InMemoryDatabase" where
  "reindex E rs = fold (index_rec E) rs"

lemma reindex_simps [simp]: "reindex E [] db = db" "reindex E (r # rs) db = reindex E rs (index_rec E r db)"
  by (simp_all add: reindex_def)

lemma reindex_same [simp]:
  "sfObj (reindex E rs db) = sfObj db" "delta_index (reindex E rs db) = delta_index db"
  "local_tmp_map (reindex E rs db) = local_tmp_map db" "skipMap (reindex E rs db) = skipMap db"
  by (induction rs arbitrary: db) (simp_all add: index_rec_def)

lemma reindex_other: "k \<notin> cr_key ` set rs \<Longrightarrow> indexObj (reindex E rs db) k = indexObj db k"
  by (induction rs arbitrary: db) (simp_all add: index_rec_def)

lemma reindex_at:
  "distinct (map cr_key rs) \<Longrightarrow> r \<in> set rs \<Longrightarrow> indexObj (reindex E rs db) (cr_key r) = Some (encaddr E (cr_addr r))"
proof (induction rs arbitrary: db)
  case (Cons x rs)
  show ?case
  proof (cases "r = x")
    case True
    then have "cr_key r \<notin> cr_key ` set rs" using Cons.prems(1) by auto
    then show ?thesis using True by (simp add: reindex_other) (simp add: index_rec_def)
  next
    case False
    with Cons show ?thesis by simp
  qed
qed simp

section \<open>Copying records\<close>

definition moved :: "(RecipeEntry \<Rightarrow> RecipeEntry) \<Rightarrow> crec \<Rightarrow> crec" where
  "moved move r = r\<lparr>cr_addr := move (cr_addr r)\<rparr>"

text \<open>A move that keeps the form and the length of an address.\<close>

definition keeps_length :: "(RecipeEntry \<Rightarrow> RecipeEntry) \<Rightarrow> bool" where
  "keeps_length move \<longleftrightarrow> (\<forall>a. entry_wf a \<longrightarrow> entry_wf (move a) \<and> addr_length (move a) = addr_length a)"

lemma unat_eqD: "unat w = k \<Longrightarrow> w = word_of_nat k"
  by auto

lemma rest_size_rec:
  assumes "unat (addr_length a) = k" "k \<le> MAX_CONTAINER_SIZE"
  shows "rest_size a = 4 * CHUNK_HASH_SIZE + CRYPTO_BLOCK_SIZE + k"
proof -
  have "addr_length a = word_of_nat k" using assms(1) by (rule unat_eqD)
  then have "addr_length a + word_of_nat (4 * CHUNK_HASH_SIZE + CRYPTO_BLOCK_SIZE) = word_of_nat (4 * CHUNK_HASH_SIZE + CRYPTO_BLOCK_SIZE + k)"
    by (simp add: add.commute)
  moreover have "4 * CHUNK_HASH_SIZE + CRYPTO_BLOCK_SIZE + k < 2 ^ 32" using assms(2) by (simp add: size_consts)
  ultimately show ?thesis by (simp only: rest_size_def) (rule unat_of_nat_small, simp)
qed

lemma copy_one_ok:
  assumes "evp_ok (ssl E)" "keeps_length move" "crec_ok n r" "src = pre @ rec_bytes r @ post" "saveset cs = length pre"
    "length src \<le> MAX_CONTAINER_SIZE" "newset cs \<le> length (cp_new cs)" "newset cs + rec_size r \<le> MAX_CONTAINER_SIZE"
  shows "copy_one E move src cs =
    Inr \<lparr>saveset = saveset cs + rec_size r, newset = newset cs + rec_size r, cp_new = put (cp_new cs) (newset cs) (rec_bytes (moved move r)),
      cp_db = index_rec E (moved move r) (cp_db cs)\<rparr>"
proof -
  let ?a = "move (cr_addr r)" and ?k = "length (cr_data r)"
  let ?m = "4 * CHUNK_HASH_SIZE + CRYPTO_BLOCK_SIZE + ?k"
  have r: "entry_wf (cr_addr r)" "unat (addr_length (cr_addr r)) = ?k" "length (cr_key r) = CHUNK_HASH_SIZE"
    using assms(3) by (simp_all add: crec_ok_def meta_ok_def)
  then have a: "entry_wf ?a" "unat (addr_length ?a) = ?k" using assms(2) by (simp_all add: keeps_length_def)
  have room: "length src = length pre + RECIPE_ENTRY_SIZE + ?m + length post"
    using record_room [OF assms(3), of pre post] assms(4) by (simp add: add.assoc add.commute add.left_commute)
  then have "?k \<le> MAX_CONTAINER_SIZE" using assms(6) by simp
  then have n: "rest_size ?a = ?m" using rest_size_rec [OF a(2)] by simp
  have e: "entry_of (seg (saveset cs) RECIPE_ENTRY_SIZE src) = cr_addr r"
    using seg_record(1) [OF assms(3,5), of post] entry_of_image [OF r(1), of "[]"] assms(4) by simp
  have b: "seg (saveset cs + RECIPE_ENTRY_SIZE) ?m src = cr_key r @ cr_sf r @ cr_data r @ cr_iv r"
    "seg (saveset cs + RECIPE_ENTRY_SIZE) CHUNK_HASH_SIZE src = cr_key r"
    using seg_record(6,2) [OF assms(3,5), of post] assms(4) by simp_all
  have sz: "RECIPE_ENTRY_SIZE + ?m = rec_size r" by (simp add: rec_size_def META_SIZE_def)
  have im: "length (entry_image ?a) = RECIPE_ENTRY_SIZE" using a(1) by simp
  have lb: "length (cr_key r @ cr_sf r @ cr_data r @ cr_iv r) = ?m" using assms(3) by (simp add: crec_ok_def meta_ok_def)
  have w1: "memcpyE MAX_CONTAINER_SIZE (cp_new cs) (newset cs) (entry_image ?a) = Inr (put (cp_new cs) (newset cs) (entry_image ?a))"
    using assms(7,8) im sz by (intro memcpyE_ok) simp_all
  have w2: "memcpyE MAX_CONTAINER_SIZE (put (cp_new cs) (newset cs) (entry_image ?a)) (newset cs + RECIPE_ENTRY_SIZE)
      (cr_key r @ cr_sf r @ cr_data r @ cr_iv r) =
      Inr (put (cp_new cs) (newset cs) (entry_image ?a @ cr_key r @ cr_sf r @ cr_data r @ cr_iv r))"
    using assms(7,8) im lb sz by (intro memcpyE_next) simp_all
  have "\<not> length src < saveset cs + RECIPE_ENTRY_SIZE + max ?m CHUNK_HASH_SIZE" using room assms(5) by simp
  then show ?thesis
    unfolding copy_one_def Let_def e n b w1 encaddr_ok(1) [OF assms(1) a(1)] bindE_simps w2
    using encaddr_ok(2) [OF assms(1) a(1)] r(3)
    by (simp add: moved_def rec_bytes_def chunk_record_def index_rec_def InsertBothBuffer_def rec_size_def META_SIZE_def add.assoc)
qed


lemma put_Nil [simp]: "put b p [] = b"
  by (simp add: put_def)

lemma length_moved [simp]:
  "keeps_length move \<Longrightarrow> crec_ok n r \<Longrightarrow> length (rec_bytes (moved move r)) = rec_size r"
  by (simp add: keeps_length_def crec_ok_def rec_bytes_def moved_def rec_size_def)

lemma length_image_moved [simp]:
  "keeps_length move \<Longrightarrow> \<forall>r \<in> set rs. crec_ok n r \<Longrightarrow> length (rimage (map (moved move) rs)) = length (rimage rs)"
  by (induction rs) auto

lemma copy_until_step:
  "saveset cs < limit \<Longrightarrow> copy_one E move src cs = Inr cs' \<Longrightarrow> copy_until E move src limit cs = copy_until E move src limit cs'"
  by (subst copy_until.simps) simp

lemma copy_until_done: "limit \<le> saveset cs \<Longrightarrow> copy_until E move src limit cs = Inr cs"
  by (subst copy_until.simps) simp

lemma copy_until_ok:
  assumes "evp_ok (ssl E)" "keeps_length move"
  shows "\<forall>r \<in> set rs. crec_ok n r \<Longrightarrow> src = pre @ rimage rs @ post \<Longrightarrow> saveset cs = length pre \<Longrightarrow>
    limit = length pre + length (rimage rs) \<Longrightarrow> length src \<le> MAX_CONTAINER_SIZE \<Longrightarrow> newset cs \<le> length (cp_new cs) \<Longrightarrow>
    newset cs + length (rimage rs) \<le> MAX_CONTAINER_SIZE \<Longrightarrow>
    copy_until E move src limit cs =
      Inr \<lparr>saveset = limit, newset = newset cs + length (rimage rs), cp_new = put (cp_new cs) (newset cs) (rimage (map (moved move) rs)),
        cp_db = reindex E (map (moved move) rs) (cp_db cs)\<rparr>"
proof (induction rs arbitrary: pre cs)
  case Nil
  then show ?case by (simp add: copy_until_done)
next
  case (Cons r rs)
  have r: "crec_ok n r" using Cons.prems(1) by simp
  let ?b = "rec_bytes (moved move r)"
  define cs1 where "cs1 = \<lparr>saveset = saveset cs + rec_size r, newset = newset cs + rec_size r,
    cp_new = put (cp_new cs) (newset cs) ?b, cp_db = index_rec E (moved move r) (cp_db cs)\<rparr>"
  have one: "copy_one E move src cs = Inr cs1"
    unfolding cs1_def using Cons.prems r by (intro copy_one_ok [OF assms r]) simp_all
  have lt: "saveset cs < limit" using Cons.prems(3,4) r rec_size_pos [of r] by simp
  have p: "put (put (cp_new cs) (newset cs) ?b) (newset cs + rec_size r) x = put (cp_new cs) (newset cs) (?b @ x)" for x
    using put_put [of "newset cs" ?b "newset cs + rec_size r" "cp_new cs" x] Cons.prems(6) assms(2) r by simp
  have "copy_until E move src limit cs1 =
      Inr \<lparr>saveset = limit, newset = newset cs1 + length (rimage rs), cp_new = put (cp_new cs1) (newset cs1) (rimage (map (moved move) rs)),
        cp_db = reindex E (map (moved move) rs) (cp_db cs1)\<rparr>"
  proof (rule Cons.IH [of "pre @ rec_bytes r"])
    show "newset cs1 \<le> length (cp_new cs1)"
      using put_length_le [OF Cons.prems(6), of ?b] assms(2) r by (simp add: cs1_def)
  qed (use Cons.prems r in \<open>simp_all add: cs1_def\<close>)
  then show ?case unfolding copy_until_step [OF lt one] using p r by (simp add: cs1_def add.assoc)
qed

section \<open>Cutting out\<close>

definition size32 :: "crec \<Rightarrow> u32" where
  "size32 r = snd (cold_pair (cr_addr r))"

lemma unat_size32:
  assumes "crec_ok n r" "rec_size r \<le> MAX_CONTAINER_SIZE"
  shows "unat (size32 r) = rec_size r" "size32 r = word_of_nat (rec_size r)"
proof -
  have "addr_length (cr_addr r) = word_of_nat (length (cr_data r))" using assms(1) by (simp add: crec_ok_def unat_eqD)
  then show s: "size32 r = word_of_nat (rec_size r)"
    by (simp add: size32_def cold_pair_def rec_size_def meta_consts add.commute)
  show "unat (size32 r) = rec_size r" unfolding s by (rule unat_of_nat_small) (use assms(2) in \<open>simp add: size_consts\<close>)
qed

text \<open>The records that stay, moved by the size of the dead ones before them, and that size.\<close>

fun compacted :: "(crec \<Rightarrow> bool) \<Rightarrow> u32 \<Rightarrow> crec list \<Rightarrow> crec list" where
  "compacted dead c [] = []"
| "compacted dead c (r # rs) = (if dead r then compacted dead (c + size32 r) rs else moved (move_back c) r # compacted dead c rs)"

fun cold_total :: "(crec \<Rightarrow> bool) \<Rightarrow> u32 \<Rightarrow> crec list \<Rightarrow> u32" where
  "cold_total dead c [] = c"
| "cold_total dead c (r # rs) = cold_total dead (if dead r then c + size32 r else c) rs"

definition cold_list :: "(crec \<Rightarrow> bool) \<Rightarrow> crec list \<Rightarrow> (u32 \<times> u32) list" where
  "cold_list dead rs = map (\<lambda>r. cold_pair (cr_addr r)) (filter dead rs)"

definition cut_run :: "enclave \<Rightarrow> bytes \<Rightarrow> (u32 \<times> u32) list \<Rightarrow> nat \<Rightarrow> u32 \<times> copy_st \<Rightarrow> fault + u32 \<times> copy_st" where
  "cut_run E src cps sz s =
    bindE (foldE (skip_cold E src) cps s) (\<lambda>(coldset, cs).
    bindE (copy_until E (move_back coldset) src sz cs) (\<lambda>cs'. Inr (coldset, cs')))"

lemma keeps_move_back [simp]: "keeps_length (move_back c)"
  by (simp add: keeps_length_def move_back_def entry_wf_def)

lemma cut_run_live:
  assumes "copy_one E (move_back c) src cs = Inr cs'" "saveset cs < sz" "\<forall>p \<in> set cps. saveset cs < unat (fst p)"
  shows "cut_run E src cps sz (c, cs) = cut_run E src cps sz (c, cs')"
proof (cases cps)
  case Nil
  then show ?thesis using copy_until_step [OF assms(2,1)] by (simp add: cut_run_def)
next
  case (Cons p ps)
  then have "copy_until E (move_back c) src (unat (fst p)) cs = copy_until E (move_back c) src (unat (fst p)) cs'"
    using copy_until_step [OF _ assms(1)] assms(3) by simp
  then show ?thesis using Cons by (simp add: cut_run_def skip_cold_def)
qed

lemma cut_run_ok:
  assumes "evp_ok (ssl E)"
  shows "laid n (length pre) rs \<Longrightarrow> src = pre @ rimage rs @ post \<Longrightarrow> saveset cs = length pre \<Longrightarrow>
    sz = length pre + length (rimage rs) \<Longrightarrow> length src \<le> MAX_CONTAINER_SIZE \<Longrightarrow> newset cs \<le> length (cp_new cs) \<Longrightarrow>
    newset cs + length (rimage rs) \<le> MAX_CONTAINER_SIZE \<Longrightarrow>
    cut_run E src (cold_list dead rs) sz (c, cs) =
      Inr (cold_total dead c rs, \<lparr>saveset = sz, newset = newset cs + length (rimage (compacted dead c rs)),
        cp_new = put (cp_new cs) (newset cs) (rimage (compacted dead c rs)), cp_db = reindex E (compacted dead c rs) (cp_db cs)\<rparr>)"
proof (induction rs arbitrary: pre cs c)
  case Nil
  then show ?case by (simp add: cut_run_def cold_list_def copy_until_done)
next
  case (Cons r rs)
  have r: "crec_ok n r" "unat (addr_offset (cr_addr r)) = length pre" "laid n (length (pre @ rec_bytes r)) rs" using Cons.prems(1) by auto
  have sz: "rec_size r \<le> MAX_CONTAINER_SIZE" "length pre + rec_size r \<le> MAX_CONTAINER_SIZE" using Cons.prems(2,5) r(1) by simp_all
  have src: "src = (pre @ rec_bytes r) @ rimage rs @ post" using Cons.prems(2) by simp
  show ?case
  proof (cases "dead r")
    case True
    let ?cs = "cs\<lparr>saveset := length pre + rec_size r\<rparr>"
    have "(length pre + rec_size r) mod 2 ^ 32 = length pre + rec_size r" using sz(2) by (simp add: size_consts)
    then have "skip_cold E src (cold_pair (cr_addr r)) (c, cs) = Inr (c + size32 r, ?cs)"
      using r(2) Cons.prems(3) unat_size32(1) [OF r(1) sz(1)]
      by (simp add: skip_cold_def copy_until_done cold_pair_def size32_def)
    then have "cut_run E src (cold_list dead (r # rs)) sz (c, cs) = cut_run E src (cold_list dead rs) sz (c + size32 r, ?cs)"
      using True by (simp add: cut_run_def cold_list_def)
    also have "\<dots> = Inr (cold_total dead (c + size32 r) rs, \<lparr>saveset = sz, newset = newset ?cs + length (rimage (compacted dead (c + size32 r) rs)),
        cp_new = put (cp_new ?cs) (newset ?cs) (rimage (compacted dead (c + size32 r) rs)),
        cp_db = reindex E (compacted dead (c + size32 r) rs) (cp_db ?cs)\<rparr>)"
      using Cons.prems r(1) by (intro Cons.IH [OF r(3) src]) simp_all
    finally show ?thesis using True by simp
  next
    case False
    let ?b = "rec_bytes (moved (move_back c) r)"
    define cs1 where "cs1 = \<lparr>saveset = saveset cs + rec_size r, newset = newset cs + rec_size r,
      cp_new = put (cp_new cs) (newset cs) ?b, cp_db = index_rec E (moved (move_back c) r) (cp_db cs)\<rparr>"
    have one: "copy_one E (move_back c) src cs = Inr cs1"
      unfolding cs1_def using Cons.prems r(1) by (intro copy_one_ok [OF assms keeps_move_back r(1)]) simp_all
    have "\<forall>p \<in> set (cold_list dead rs). saveset cs < unat (fst p)"
      using laid_offsets [OF r(3)] r(1) rec_size_pos [of r] Cons.prems(3) by (fastforce simp: cold_list_def cold_pair_def)
    then have "cut_run E src (cold_list dead rs) sz (c, cs) = cut_run E src (cold_list dead rs) sz (c, cs1)"
      using r(1) rec_size_pos [of r] Cons.prems(3,4) by (intro cut_run_live [OF one]) simp_all
    also have "\<dots> = Inr (cold_total dead c rs, \<lparr>saveset = sz, newset = newset cs1 + length (rimage (compacted dead c rs)),
        cp_new = put (cp_new cs1) (newset cs1) (rimage (compacted dead c rs)), cp_db = reindex E (compacted dead c rs) (cp_db cs1)\<rparr>)"
    proof (rule Cons.IH [OF r(3) src])
      show "newset cs1 \<le> length (cp_new cs1)"
        using put_length_le [OF Cons.prems(6), of ?b] r(1) by (simp add: cs1_def)
    qed (use Cons.prems r(1) in \<open>simp_all add: cs1_def\<close>)
    moreover have "put (put (cp_new cs) (newset cs) ?b) (newset cs + rec_size r) x = put (cp_new cs) (newset cs) (?b @ x)" for x
      using put_put [of "newset cs" ?b "newset cs + rec_size r" "cp_new cs" x] Cons.prems(6) r(1) by simp
    ultimately show ?thesis using False r(1) by (simp add: cs1_def cold_list_def add.assoc)
  qed
qed


lemma moved_simps [simp]:
  "cr_key (moved move r) = cr_key r" "cr_sf (moved move r) = cr_sf r" "cr_data (moved move r) = cr_data r" "cr_iv (moved move r) = cr_iv r"
  "cr_addr (moved move r) = move (cr_addr r)" "rec_size (moved move r) = rec_size r"
  by (simp_all add: moved_def rec_size_def)

lemma move_back_simps [simp]:
  "containerName (move_back c a) = containerName a" "deltaFlag (move_back c a) = deltaFlag a" "addr_length (move_back c a) = addr_length a"
  "basechunkHash (move_back c a) = basechunkHash a" "superfeature (move_back c a) = superfeature a"
  "addr_offset (move_back c a) = addr_offset a - c"
  by (simp_all add: move_back_def)

lemma crec_ok_back [simp]: "crec_ok n r \<Longrightarrow> crec_ok n (moved (move_back c) r)"
  by (auto simp: crec_ok_def entry_wf_def)

lemma unat_back:
  assumes "k \<le> p" "p \<le> MAX_CONTAINER_SIZE" "unat (a :: u32) = p"
  shows "unat (a - word_of_nat k) = p - k"
proof -
  have "unat (word_of_nat k :: u32) = k" by (rule unat_of_nat_small) (use assms in \<open>simp add: size_consts\<close>)
  then show ?thesis using assms by (simp add: unat_sub word_le_nat_alt)
qed

lemma compact_layout:
  "laid n p rs \<Longrightarrow> c = word_of_nat k \<Longrightarrow> k \<le> p \<Longrightarrow> p + length (rimage rs) \<le> MAX_CONTAINER_SIZE \<Longrightarrow>
    laid n (p - k) (compacted dead c rs) \<and> (\<exists>j. cold_total dead c rs = word_of_nat j \<and> j + length (rimage (compacted dead c rs)) = k + length (rimage rs))"
proof (induction rs arbitrary: p c k)
  case (Cons r rs)
  have r: "crec_ok n r" "unat (addr_offset (cr_addr r)) = p" "laid n (p + rec_size r) rs" using Cons.prems(1) by simp_all
  have sz: "rec_size r \<le> MAX_CONTAINER_SIZE" "p + rec_size r + length (rimage rs) \<le> MAX_CONTAINER_SIZE" using Cons.prems(4) r(1) by simp_all
  show ?case
  proof (cases "dead r")
    case True
    have "c + size32 r = word_of_nat (k + rec_size r)" using Cons.prems(2) unat_size32(2) [OF r(1) sz(1)] by simp
    from Cons.IH [OF r(3) this] Cons.prems(3) sz(2) obtain j where
        "laid n (p - k) (compacted dead (c + size32 r) rs)" "cold_total dead (c + size32 r) rs = word_of_nat j"
        "j + length (rimage (compacted dead (c + size32 r) rs)) = k + rec_size r + length (rimage rs)" by auto
    then show ?thesis using True r(1) by auto
  next
    case False
    from Cons.IH [OF r(3) Cons.prems(2)] Cons.prems(3) sz(2) obtain j where
        j: "laid n (p + rec_size r - k) (compacted dead c rs)" "cold_total dead c rs = word_of_nat j"
        "j + length (rimage (compacted dead c rs)) = k + length (rimage rs)" by auto
    have "unat (addr_offset (cr_addr r) - c) = p - k"
      using unat_back [OF Cons.prems(3) _ r(2)] sz(2) Cons.prems(2) by simp
    then show ?thesis using False r(1) j Cons.prems(3) by auto
  qed
qed simp

lemma set_compact: "r' \<in> set (compacted dead c rs) \<Longrightarrow> \<exists>r c'. r \<in> set rs \<and> \<not> dead r \<and> r' = moved (move_back c') r"
  by (induction rs arbitrary: c) (fastforce split: if_splits)+

lemma compact_set: "r \<in> set rs \<Longrightarrow> \<not> dead r \<Longrightarrow> \<exists>c'. moved (move_back c') r \<in> set (compacted dead c rs)"
  by (induction rs arbitrary: c) (auto split: if_splits)

lemma compact_keys: "map cr_key (compacted dead c rs) = map cr_key (filter (\<lambda>r. \<not> dead r) rs)"
  by (induction rs arbitrary: c) auto

lemma sort_cold_list:
  assumes "laid n p rs" "distinct ps" "set ps = set (cold_list dead rs)"
  shows "sort_cold ps = cold_list dead rs"
proof -
  let ?f = "\<lambda>p :: u32 \<times> u32. unat (fst p)"
  have m: "map ?f (cold_list dead rs) = map (\<lambda>r. unat (addr_offset (cr_addr r))) (filter dead rs)"
    by (simp add: cold_list_def cold_pair_def comp_def)
  have o: "sorted (map (\<lambda>r. unat (addr_offset (cr_addr r))) rs)" "distinct (map (\<lambda>r. unat (addr_offset (cr_addr r))) rs)"
    using laid_offsets [OF assms(1)] by simp_all
  have s: "sorted (map ?f (cold_list dead rs))" "distinct (map ?f (cold_list dead rs))"
    unfolding m using sorted_filter [OF o(1), of dead] distinct_map_filter [OF o(2), of dead] by simp_all
  then have inj: "inj_on ?f (set (cold_list dead rs))" by (simp add: distinct_map)
  have "sorted (map ?f (sort_cold ps))" by (simp add: sort_cold_def)
  moreover have "distinct (map ?f (sort_cold ps))" using assms(2,3) inj by (simp add: sort_cold_def distinct_map)
  ultimately show ?thesis
    using map_sorted_distinct_set_unique [of ?f "sort_cold ps" "cold_list dead rs"] s assms(3) inj by (simp add: sort_cold_def)
qed

section \<open>A container without its cold chunks\<close>

lemma addr_name_set [simp]: "length n = CONTAINER_ID_LENGTH \<Longrightarrow> addr_name (set_addr_name n st) = n"
  by (simp add: addr_name_def set_addr_name_def put_def)

definition cold_file :: "string \<Rightarrow> disk \<Rightarrow> container_name \<Rightarrow> bool \<Rightarrow> bytes \<Rightarrow> bool" where
  "cold_file t d n df f \<longleftrightarrow> (if df then d (delta_path t n) = Some f else d (delta_path t n) = None \<and> d (base_path t n) = Some f)"

definition file_path :: "string \<Rightarrow> container_name \<Rightarrow> bool \<Rightarrow> string" where
  "file_path t n df = (if df then delta_path t n else base_path t n)"

lemma memcpy_file:
  assumes "length f \<le> MAX_CONTAINER_SIZE" "length b \<le> MAX_CONTAINER_SIZE"
  shows "\<exists>rest. memcpyE MAX_CONTAINER_SIZE b 0 f = Inr (f @ rest) \<and> length (f @ rest) \<le> MAX_CONTAINER_SIZE"
proof -
  have "memcpyE MAX_CONTAINER_SIZE b 0 f = Inr (f @ drop (length f) b)" using assms(1) by (simp add: memcpyE_def put_def)
  moreover have "length (f @ drop (length f) b) \<le> MAX_CONTAINER_SIZE" using assms by simp
  ultimately show ?thesis by blast
qed

text \<open>What cutting and merging leave alone.\<close>

definition kept_st :: "off_st \<Rightarrow> off_st \<Rightarrow> bool" where
  "kept_st st st' \<longleftrightarrow> pairs st' = pairs st \<and> cold st' = cold st \<and> off_process st' = off_process st \<and> delta_map st' = delta_map st \<and>
     hot_container st' = hot_container st \<and> offline_htable st' = offline_htable st \<and> off_times st' = off_times st \<and>
     (\<forall>p. odisk st p = None \<longrightarrow> odisk st' p = None)"

lemma kept_st_refl [simp]: "kept_st st st"
  by (simp add: kept_st_def)

lemma kept_st_trans: "kept_st a b \<Longrightarrow> kept_st b c \<Longrightarrow> kept_st a c"
  by (simp add: kept_st_def)

lemma Update_cold_container_ok:
  assumes "evp_ok (ssl E)" "length n = CONTAINER_ID_LENGTH" "cold_file t (odisk st) n df (rimage rs)" "laid n 0 rs"
    "length (rimage rs) \<le> MAX_CONTAINER_SIZE" "length (ocall_container st) \<le> MAX_CONTAINER_SIZE"
    "distinct ps" "set ps = set (cold_list dead rs)"
  shows "\<exists>st'. Update_cold_container E t (n, ps) st = Inr st' \<and> odisk st' = (odisk st)(file_path t n df \<mapsto> rimage (compacted dead 0 rs)) \<and>
    odb st' = reindex E (compacted dead 0 rs) (odb st) \<and> length (ocall_container st') \<le> MAX_CONTAINER_SIZE \<and> kept_st st st'"
proof -
  let ?rs = "compacted dead 0 rs" and ?st = "set_addr_name n st"
  obtain rest where rest: "memcpyE MAX_CONTAINER_SIZE (ocall_container st) 0 (rimage rs) = Inr (rimage rs @ rest)"
      "length (rimage rs @ rest) \<le> MAX_CONTAINER_SIZE" using memcpy_file [OF assms(5,6)] by blast
  define st1 where "st1 = ?st\<lparr>ocall_container := rimage rs @ rest,
    oentry := (oentry ?st)\<lparr>o_container := rimage rs @ rest, o_containersize := length (rimage rs)\<rparr>\<rparr>"
  have same: "odisk ?st = odisk st" "ocall_container ?st = ocall_container st" by (simp_all add: set_addr_name_def)
  have one: "Ocall_OneColdContainer t ?st = Inr (df, st1)"
    using assms(2,3) rest(1) by (cases df) (simp_all add: Ocall_OneColdContainer_def same st1_def cold_file_def)
  obtain j where lay: "laid n 0 ?rs" "cold_total dead 0 rs = word_of_nat j" "j + length (rimage ?rs) = length (rimage rs)"
    using compact_layout [OF assms(4), of 0 0 dead] assms(5) by auto
  have j: "unat (word_of_nat j :: u32) = j" by (rule unat_of_nat_small) (use lay(3) assms(5) in \<open>simp add: size_consts\<close>)
  define cs where "cs = \<lparr>saveset = 0, newset = 0, cp_new = merge_buffer st1, cp_db = odb st1\<rparr>"
  have "cut_run E (rimage rs @ rest) (cold_list dead rs) (length (rimage rs)) (0, cs) =
      Inr (cold_total dead 0 rs, \<lparr>saveset = length (rimage rs), newset = newset cs + length (rimage ?rs),
        cp_new = put (cp_new cs) (newset cs) (rimage ?rs), cp_db = reindex E ?rs (cp_db cs)\<rparr>)"
    using assms(4,5) rest(2) by (intro cut_run_ok [OF assms(1), of n "[]" rs _ rest]) (simp_all add: cs_def)
  then have cut: "cut_run E (rimage rs @ rest) (sort_cold ps) (length (rimage rs)) (0, cs) =
      Inr (word_of_nat j, \<lparr>saveset = length (rimage rs), newset = length (rimage ?rs), cp_new = put (merge_buffer st1) 0 (rimage ?rs),
        cp_db = reindex E ?rs (odb st1)\<rparr>)"
    using sort_cold_list [OF assms(4,7,8)] lay(2) by (simp add: cs_def)
  then obtain coldset cs1 where f: "foldE (skip_cold E (rimage rs @ rest)) (sort_cold ps) (0, cs) = Inr (coldset, cs1)"
    by (auto simp: cut_run_def bindE_Inr_iff)
  with cut have u: "coldset = word_of_nat j" "copy_until E (move_back coldset) (rimage rs @ rest) (length (rimage rs)) cs1 =
      Inr \<lparr>saveset = length (rimage rs), newset = length (rimage ?rs), cp_new = put (merge_buffer st1) 0 (rimage ?rs),
        cp_db = reindex E ?rs (odb st1)\<rparr>" by (auto simp: cut_run_def bindE_Inr_iff)
  have sz: "length (rimage rs) - j = length (rimage ?rs)" "\<not> length (rimage rs) < j" using lay(3) by simp_all
  have l: "length (rimage ?rs) \<le> length (put (merge_buffer st1) 0 (rimage ?rs))" "take (length (rimage ?rs)) (put (merge_buffer st1) 0 (rimage ?rs)) = rimage ?rs"
    by (simp_all add: put_def)
  have src: "o_container (oentry st1) = rimage rs @ rest" "o_containersize (oentry st1) = length (rimage rs)" by (simp_all add: st1_def)
  have "Update_cold_container E t (n, ps) st = Inr (Ocall_SaveColdContainer t n (rimage ?rs) df
      (st1\<lparr>odb := reindex E ?rs (odb st1), merge_buffer := put (merge_buffer st1) 0 (rimage ?rs),
        ostats := (ostats st1)\<lparr>offlineDeletenum := offlineDeletenum (ostats st1) + 1\<rparr>\<rparr>))"
    unfolding Update_cold_container_def fst_conv snd_conv one bindE_simps prod.case Let_def src f [unfolded cs_def] u(1) u(2) [unfolded u(1)]
    using l sz j by simp
  moreover have "odisk st (file_path t n df) \<noteq> None" using assms(3) by (auto simp: cold_file_def file_path_def)
  ultimately show ?thesis
    using rest(2) by (intro exI conjI) (assumption, auto simp: Ocall_SaveColdContainer_def file_path_def st1_def set_addr_name_def kept_st_def)
qed

section \<open>Two containers merged\<close>

lemma move_behind_simps [simp]:
  "containerName (move_behind n k a) = n" "deltaFlag (move_behind n k a) = deltaFlag a" "addr_length (move_behind n k a) = addr_length a"
  "basechunkHash (move_behind n k a) = basechunkHash a" "superfeature (move_behind n k a) = superfeature a"
  "addr_offset (move_behind n k a) = addr_offset a + k"
  by (simp_all add: move_behind_def)

lemma keeps_move_behind: "length n = CONTAINER_ID_LENGTH \<Longrightarrow> keeps_length (move_behind n k)"
  by (simp add: keeps_length_def entry_wf_def)

lemma laid_behind:
  assumes "length n = CONTAINER_ID_LENGTH"
  shows "laid n' p rs \<Longrightarrow> p + k + length (rimage rs) \<le> MAX_CONTAINER_SIZE \<Longrightarrow>
    laid n (p + k) (map (moved (move_behind n (word_of_nat k))) rs)"
proof (induction rs arbitrary: p)
  case (Cons r rs)
  have r: "crec_ok n' r" "unat (addr_offset (cr_addr r)) = p" "laid n' (p + rec_size r) rs" using Cons.prems(1) by simp_all
  have "addr_offset (cr_addr r) = word_of_nat p" using r(2) by (rule unat_eqD)
  then have "addr_offset (cr_addr r) + word_of_nat k = word_of_nat (p + k)" by simp
  moreover have "unat (word_of_nat (p + k) :: u32) = p + k" by (rule unat_of_nat_small) (use Cons.prems(2) in \<open>simp add: size_consts\<close>)
  moreover have "crec_ok n (moved (move_behind n (word_of_nat k)) r)"
    using r(1) assms by (simp add: crec_ok_def entry_wf_def)
  ultimately show ?case using Cons.IH [OF r(3)] Cons.prems(2) r(1) by (simp add: add.commute add.left_commute)
qed simp

lemma byte_of_char [simp]: "of_char (char_of (unat b) :: char) = (b :: byte)"
proof -
  have "(of_char (char_of (unat b) :: char) :: byte) = of_nat (of_char (char_of (unat b) :: char))" by (simp only: of_nat_of_char)
  also have "of_char (char_of (unat b) :: char) = unat b mod 256" by (simp only: of_char_of)
  also have "\<dots> = unat b" using unsigned_less [of b, where ?'a = nat] by simp
  finally show ?thesis by simp
qed

lemma path_name_base: "length n = CONTAINER_ID_LENGTH \<Longrightarrow> path_name (base_path t n) = n"
  by (simp add: path_name_def base_path_def seg_def name_string_def CONTAINER_ID_LENGTH_def comp_def)

lemma merge_pair_ok:
  assumes "evp_ok (ssl E)" "length n = CONTAINER_ID_LENGTH" "odisk st (base_path t n) = Some (rimage rs)"
    "odisk st (base_path t n') = Some (rimage ss)" "laid n' 0 ss" "length (rimage ss) \<le> MAX_CONTAINER_SIZE" "n \<noteq> n'"
  shows "\<exists>st'. merge_pair E (base_path t n, base_path t n') st = Inr st' \<and>
    odisk st' = (odisk st)(base_path t n \<mapsto> rimage (rs @ map (moved (move_behind n (word_of_nat (length (rimage rs))))) ss), base_path t n' := None) \<and>
    odb st' = reindex E (map (moved (move_behind n (word_of_nat (length (rimage rs))))) ss) (odb st) \<and>
    ocall_container st' = ocall_container st \<and> kept_st st st'"
proof -
  let ?mv = "move_behind n (word_of_nat (length (rimage rs)))" and ?b = "merge_buffer st"
  have ok: "\<forall>r \<in> set ss. crec_ok n' r" using laid_crec_ok [OF assms(5)] by blast
  have im: "length (rimage (map (moved ?mv) ss)) = length (rimage ss)"
    using length_image_moved [OF keeps_move_behind [OF assms(2)] ok] by simp
  have "copy_until E ?mv (rimage ss) (length (rimage ss)) \<lparr>saveset = 0, newset = 0, cp_new = ?b, cp_db = odb st\<rparr> =
      Inr \<lparr>saveset = length (rimage ss), newset = 0 + length (rimage ss), cp_new = put ?b 0 (rimage (map (moved ?mv) ss)),
        cp_db = reindex E (map (moved ?mv) ss) (odb st)\<rparr>"
    using copy_until_ok [OF assms(1) keeps_move_behind [OF assms(2)] ok, where pre = "[]" and post = "[]" and src = "rimage ss"
        and limit = "length (rimage ss)" and cs = "\<lparr>saveset = 0, newset = 0, cp_new = ?b, cp_db = odb st\<rparr>"] assms(6) by simp
  then have "merge_pair E (base_path t n, base_path t n') st =
      Inr (st\<lparr>odb := reindex E (map (moved ?mv) ss) (odb st), merge_buffer := put ?b 0 (rimage (map (moved ?mv) ss)),
        odisk := (odisk st)(base_path t n \<mapsto> rimage (rs @ map (moved ?mv) ss), base_path t n' := None)\<rparr>)"
    using assms(3,4,6) path_name_base [OF assms(2)] im by (simp add: merge_pair_def Let_def put_def)
  then show ?thesis using assms(3) by (intro exI conjI) (assumption, auto simp: kept_st_def)
qed

end
