(* ===== verification/OfflineArch.thy ===== *)
theory OfflineArch
  imports OfflineCopy
begin

text \<open>
  What the offline pass keeps: every chunk has a record, in a container file or in the hot
  container, and the index holds its address. \<open>L\<close> gives the record of a chunk and \<open>B\<close> the base of a
  delta. A record that no chunk uses any more is dead, and the dead records are exactly the cold ones.
\<close>

section \<open>Files of records\<close>

definition no_file :: "string \<Rightarrow> disk \<Rightarrow> container_name \<Rightarrow> bool" where
  "no_file t d n \<longleftrightarrow> d (base_path t n) = None \<and> d (delta_path t n) = None"

definition arch1 :: "string \<Rightarrow> disk \<Rightarrow> container_name \<Rightarrow> crec list \<Rightarrow> bool" where
  "arch1 t d n rs \<longleftrightarrow> laid n 0 rs \<and> length (rimage rs) \<le> MAX_CONTAINER_SIZE \<and> (rs \<noteq> [] \<longrightarrow> \<not> no_file t d n) \<and>
     (\<forall>f. d (base_path t n) = Some f \<longrightarrow> f = rimage rs \<and> d (delta_path t n) = None \<and> (\<forall>r \<in> set rs. deltaFlag (cr_addr r) = delta_code NO_DELTA)) \<and>
     (\<forall>f. d (delta_path t n) = Some f \<longrightarrow> f = rimage rs \<and> (\<forall>r \<in> set rs. deltaFlag (cr_addr r) = delta_code DELTA))"

definition arch :: "string \<Rightarrow> disk \<Rightarrow> (container_name \<Rightarrow> crec list) \<Rightarrow> bool" where
  "arch t d R \<longleftrightarrow> (\<forall>n. arch1 t d n (R n))"

definition recs :: "(container_name \<Rightarrow> crec list) \<Rightarrow> crec set" where
  "recs R = (\<Union>n. set (R n))"

lemma recsI: "r \<in> set (R n) \<Longrightarrow> r \<in> recs R"
  by (auto simp: recs_def)

lemma arch_rec:
  assumes "arch t d R" "r \<in> recs R"
  shows "r \<in> set (R (containerName (cr_addr r)))" "crec_ok (containerName (cr_addr r)) r"
proof -
  obtain n where n: "r \<in> set (R n)" using assms(2) by (auto simp: recs_def)
  have "laid n 0 (R n)" using assms(1) by (simp add: arch_def arch1_def)
  then have "crec_ok n r" using laid_crec_ok n by blast
  then show "r \<in> set (R (containerName (cr_addr r)))" "crec_ok (containerName (cr_addr r)) r"
    using n by (simp_all add: crec_ok_def)
qed

lemma arch_no_file: "arch t d R \<Longrightarrow> no_file t d n \<Longrightarrow> R n = []"
  by (auto simp: arch_def arch1_def)

text \<open>A record is where its address says, in the directory of its kind.\<close>

lemma arch_file:
  assumes "arch t d R" "r \<in> recs R"
  shows "deltaFlag (cr_addr r) = delta_code NO_DELTA \<Longrightarrow> d (base_path t (containerName (cr_addr r))) = Some (rimage (R (containerName (cr_addr r))))"
    "deltaFlag (cr_addr r) = delta_code DELTA \<Longrightarrow> d (delta_path t (containerName (cr_addr r))) = Some (rimage (R (containerName (cr_addr r)))) \<and>
       d (base_path t (containerName (cr_addr r))) = None"
proof -
  let ?n = "containerName (cr_addr r)"
  have a: "arch1 t d ?n (R ?n)" using assms(1) by (simp add: arch_def)
  have r: "r \<in> set (R ?n)" using arch_rec(1) [OF assms] .
  then have "\<not> no_file t d ?n" using a by (auto simp: arch1_def)
  with a r show "deltaFlag (cr_addr r) = delta_code NO_DELTA \<Longrightarrow> d (base_path t ?n) = Some (rimage (R ?n))"
    "deltaFlag (cr_addr r) = delta_code DELTA \<Longrightarrow> d (delta_path t ?n) = Some (rimage (R ?n)) \<and> d (base_path t ?n) = None"
    by (cases "d (base_path t ?n)"; cases "d (delta_path t ?n)"; auto simp: arch1_def no_file_def)+
qed

lemma arch_files_of:
  assumes "arch t d R" "r \<in> recs R"
  shows "files_of t d (containerName (cr_addr r)) = Some (rimage (R (containerName (cr_addr r))))"
proof -
  let ?n = "containerName (cr_addr r)"
  have a: "arch1 t d ?n (R ?n)" using assms(1) by (simp add: arch_def)
  have "R ?n \<noteq> []" using arch_rec(1) [OF assms] by auto
  then have "\<not> no_file t d ?n" using a by (auto simp: arch1_def)
  with a show ?thesis by (auto simp: files_of_def read_container_def arch1_def no_file_def split: option.splits)
qed

section \<open>The hot container\<close>

abbreviation free_names :: "off_st \<Rightarrow> container_name set" where
  "free_names st \<equiv> new_names (off_times st) (INT_MAX)"

definition hot_inv :: "string \<Rightarrow> (container_name \<Rightarrow> crec list) \<Rightarrow> crec list \<Rightarrow> off_st \<Rightarrow> bool" where
  "hot_inv t R H st \<longleftrightarrow>
    (let h = hot_container st; n = containerID h
     in laid n 0 H \<and> length n = CONTAINER_ID_LENGTH \<and> unat (currentSize h) = length (rimage H) \<and> ct_bytes h = rimage H \<and>
        length (rimage H) \<le> MAX_CONTAINER_SIZE \<and> no_file t (odisk st) n \<and> n \<notin> free_names st \<and>
        (\<forall>r \<in> set H. deltaFlag (cr_addr r) = delta_code DELTA)) \<and>
    (\<forall>n \<in> free_names st. no_file t (odisk st) n)"

lemma free_names_Suc:
  assumes "uuid_bytes k = Some u" "k < INT_MAX"
  shows "u \<in> new_names k (INT_MAX)" "new_names (Suc k) (INT_MAX) \<subseteq> new_names k (INT_MAX)"
    "u \<notin> new_names (Suc k) (INT_MAX)"
proof -
  show "u \<in> new_names k (INT_MAX)" using assms by (auto simp: new_names_def)
  show "new_names (Suc k) (INT_MAX) \<subseteq> new_names k (INT_MAX)"
    unfolding new_names_def using Suc_leD by blast
  show "u \<notin> new_names (Suc k) (INT_MAX)"
  proof
    assume "u \<in> new_names (Suc k) (INT_MAX)"
    then obtain j where "k < j" "j < INT_MAX" "uuid_bytes j = Some u"
      by (auto simp: new_names_def Suc_le_eq)
    moreover from this uuid_bytes_ok [of j] have "u \<notin> used_names j" by auto
    ultimately show False using assms(1) by (auto simp: used_names_def)
  qed
qed

lemma hot_fits_iff:
  assumes "k \<le> MAX_CHUNK_SIZE" "unat off \<le> MAX_CONTAINER_SIZE"
  shows "hot_fits (word_of_nat k) off \<longleftrightarrow> unat off + META_SIZE + k < MAX_CONTAINER_SIZE"
proof -
  let ?n = "k + unat off"
  have n: "?n < 2 ^ 32" using assms by (simp add: size_consts)
  have "word_of_nat k + off = (word_of_nat ?n :: u32)" by simp
  moreover have "(ucast (word_of_nat ?n :: u32) :: u64) = word_of_nat ?n"
  proof -
    have "unat (word_of_nat ?n :: u32) = ?n" using n by (intro unat_of_nat_small) simp
    then show ?thesis by (metis of_nat_unat)
  qed
  ultimately have "hot_fits (word_of_nat k) off \<longleftrightarrow> (word_of_nat (?n + META_SIZE) :: u64) < word_of_nat MAX_CONTAINER_SIZE"
    unfolding hot_fits_def by (simp add: meta_consts add.assoc)
  also have "\<dots> \<longleftrightarrow> ?n + META_SIZE < MAX_CONTAINER_SIZE"
  proof -
    have "unat (word_of_nat (?n + META_SIZE) :: u64) = ?n + META_SIZE"
      using n by (intro unat_of_nat_small) (simp add: meta_consts)
    moreover have "unat (word_of_nat MAX_CONTAINER_SIZE :: u64) = MAX_CONTAINER_SIZE"
      by (intro unat_of_nat_small) (simp add: size_consts)
    ultimately show ?thesis by (simp only: word_less_nat_alt)
  qed
  finally show ?thesis by (simp add: add.commute add.left_commute)
qed

text \<open>What inserting into the hot container leaves alone.\<close>

definition kept_hot :: "off_st \<Rightarrow> off_st \<Rightarrow> bool" where
  "kept_hot st st' \<longleftrightarrow> odb st' = odb st \<and> pairs st' = pairs st \<and> cold st' = cold st \<and> ocall_container st' = ocall_container st \<and>
     oentry st' = oentry st \<and> off_process st' = off_process st \<and> delta_map st' = delta_map st \<and> offline_htable st' = offline_htable st \<and>
     ostats st' = ostats st"

definition hot_addr :: "RecipeEntry \<Rightarrow> off_st \<Rightarrow> RecipeEntry" where
  "hot_addr r st = r\<lparr>addr_offset := currentSize (hot_container st), deltaFlag := 1, containerName := containerID (hot_container st)\<rparr>"

definition hot_rec :: "RecipeEntry \<Rightarrow> fp \<Rightarrow> bytes \<Rightarrow> bytes \<Rightarrow> bytes \<Rightarrow> off_st \<Rightarrow> crec" where
  "hot_rec r k sf c iv st = \<lparr>cr_addr = hot_addr r st, cr_key = k, cr_sf = sf, cr_data = c, cr_iv = iv\<rparr>"

lemma delta_code_1: "delta_code DELTA = 1"
  by (simp add: delta_code.simps)

lemma place_hot_ok:
  assumes "hot_inv t R H st" "entry_wf r" "meta_ok k sf iv" "unat (addr_length r) = length c"
    "length (rimage H) + META_SIZE + length c < MAX_CONTAINER_SIZE"
  shows "\<exists>st'. place_hot c r k sf iv (currentSize (hot_container st)) st = Inr (hot_addr r st, st') \<and>
    hot_inv t R (H @ [hot_rec r k sf c iv st]) st' \<and> kept_hot st st' \<and> odisk st' = odisk st \<and> off_times st' = off_times st \<and>
    containerID (hot_container st') = containerID (hot_container st)"
proof -
  let ?h = "hot_container st" and ?x = "hot_rec r k sf c iv st"
  let ?off = "currentSize ?h" and ?r = "hot_addr r st"
  have h: "laid (containerID ?h) 0 H" "length (containerID ?h) = CONTAINER_ID_LENGTH" "unat ?off = length (rimage H)" "ct_bytes ?h = rimage H"
      "length (rimage H) \<le> MAX_CONTAINER_SIZE" "no_file t (odisk st) (containerID ?h)" "containerID ?h \<notin> free_names st"
      "\<forall>r \<in> set H. deltaFlag (cr_addr r) = delta_code DELTA" "\<forall>n \<in> free_names st. no_file t (odisk st) n"
    using assms(1) by (simp_all add: hot_inv_def Let_def)
  have wf: "entry_wf ?r" using assms(2) h(2) by (simp add: hot_addr_def entry_wf_def)
  have b: "take (length (rimage H)) (ct_body ?h) = rimage H" using h(3,4) by (simp add: ct_bytes_def)
  then have lb: "length (rimage H) \<le> length (ct_body ?h)" by (metis length_take min.cobounded1)
  have rb: "rec_bytes ?x = chunk_record ?r k sf c iv" by (simp add: rec_bytes_def hot_rec_def)
  have p: "pack_chunk ?r k sf c iv (ct_body ?h) (unat ?off) = Inr (put (ct_body ?h) (length (rimage H)) (rec_bytes ?x))"
    using pack_chunk_ok [OF wf assms(3), of "length (rimage H)" "ct_body ?h" c] lb assms(5) h(3) rb by simp
  define st' where "st' = st\<lparr>hot_container := ?h\<lparr>ct_body := put (ct_body ?h) (length (rimage H)) (rec_bytes ?x),
    currentSize := grown_size ?off (addr_length r)\<rparr>\<rparr>"
  have "addr_length r = word_of_nat (length c)" using assms(4) by (rule unat_eqD)
  then have g: "unat (grown_size ?off (addr_length r)) = length (rimage H) + META_SIZE + length c"
    using grown_size_eq [of ?off "length c"] h(3) assms(5) by (simp add: size_consts)
  have ok: "crec_ok (containerID ?h) ?x" using wf assms(3,4) by (simp add: crec_ok_def hot_rec_def hot_addr_def)
  have sz: "length (rec_bytes ?x) = META_SIZE + length c" using ok by (simp add: rec_size_def hot_rec_def)
  have "ct_bytes (hot_container st') = rimage H @ rec_bytes ?x"
    using g lb b sz take_put [of "length (rimage H)" "ct_body ?h" "length (rimage H) + META_SIZE + length c" "rec_bytes ?x"]
    by (simp add: st'_def ct_bytes_def)
  moreover have "unat (addr_offset (cr_addr ?x)) = length (rimage H)" using h(3) by (simp add: hot_rec_def hot_addr_def)
  moreover have "deltaFlag (cr_addr ?x) = delta_code DELTA" by (simp add: hot_rec_def hot_addr_def delta_code_1)
  ultimately have "hot_inv t R (H @ [?x]) st'"
    using h g ok sz assms(5) by (simp add: hot_inv_def Let_def st'_def laid_append ball_Un)
  moreover have "place_hot c r k sf iv ?off st = Inr (?r, st')"
    unfolding place_hot_def Let_def using p by (simp add: st'_def hot_addr_def)
  ultimately show ?thesis by (intro exI [of _ st']) (simp add: st'_def kept_hot_def)
qed

lemma fresh_hot_ok:
  assumes "off_times st < INT_MAX" "\<forall>n \<in> free_names st. no_file t (odisk st) n"
  shows "\<exists>st'. fresh_hot st = Inr st' \<and> hot_inv t R [] st' \<and> kept_hot st st' \<and> odisk st' = odisk st \<and>
    off_times st' = Suc (off_times st) \<and> currentSize (hot_container st') = 0 \<and> containerID (hot_container st') \<in> free_names st"
proof -
  obtain u where u: "uuid_bytes (off_times st) = Some u" "length u = CONTAINER_ID_LENGTH" using uuid_bytes_ok [OF assms(1)] by blast
  define st' where "st' = st\<lparr>off_times := Suc (off_times st), hot_container := (hot_container st)\<lparr>containerID := u, currentSize := 0\<rparr>\<rparr>"
  have "fresh_hot st = Inr st'" using u(1) by (simp add: fresh_hot_def st'_def)
  moreover have "hot_inv t R [] st'"
    using free_names_Suc [OF u(1) assms(1)] u(2) assms(2) by (auto simp: hot_inv_def Let_def st'_def ct_bytes_def)
  ultimately show ?thesis
    using free_names_Suc(1) [OF u(1) assms(1)] by (intro exI [of _ st']) (simp add: st'_def kept_hot_def)
qed

text \<open>The hot container becomes a file.\<close>

lemma arch_save:
  assumes "arch t d R" "no_file t d n" "laid n 0 H" "length (rimage H) \<le> MAX_CONTAINER_SIZE"
    "\<forall>r \<in> set H. deltaFlag (cr_addr r) = delta_code DELTA"
  shows "arch t (d(delta_path t n \<mapsto> rimage H)) (R(n := H))"
  using assms by (auto simp: arch_def arch1_def no_file_def)

lemma recs_save: "R n = [] \<Longrightarrow> recs (R(n := H)) = recs R \<union> set H"
  by (auto simp: recs_def split: if_splits) (metis empty_iff list.set(1))

lemma InsertHot_ok:
  assumes "hot_inv t R H st" "arch t (odisk st) R" "entry_wf r" "meta_ok k sf iv" "unat (addr_length r) = length c"
    "length c \<le> MAX_CHUNK_SIZE" "off_times st < INT_MAX"
  shows "\<exists>st1 st' R' H'. InsertHot_container t c r k sf iv st = Inr (hot_addr r st1, st') \<and>
    hot_inv t R' (H' @ [hot_rec r k sf c iv st1]) st' \<and> arch t (odisk st') R' \<and> kept_hot st st' \<and>
    recs R' \<union> set H' = recs R \<union> set H \<and> recs R \<subseteq> recs R' \<and> set H' \<subseteq> set H \<and> (\<forall>n. R' n = R n \<or> R n = [] \<and> R' n = H) \<and> off_times st' \<le> Suc (off_times st) \<and>
    crec_ok (containerName (hot_addr r st1)) (hot_rec r k sf c iv st1)"
proof -
  let ?h = "hot_container st"
  have h: "laid (containerID ?h) 0 H" "unat (currentSize ?h) = length (rimage H)" "ct_bytes ?h = rimage H" "length (rimage H) \<le> MAX_CONTAINER_SIZE"
      "no_file t (odisk st) (containerID ?h)" "containerID ?h \<notin> free_names st" "\<forall>r \<in> set H. deltaFlag (cr_addr r) = delta_code DELTA"
      "\<forall>n \<in> free_names st. no_file t (odisk st) n" using assms(1) by (simp_all add: hot_inv_def Let_def)
  have c: "addr_length r = word_of_nat (length c)" using assms(5) by (rule unat_eqD)
  have fits: "hot_fits (addr_length r) (currentSize ?h) \<longleftrightarrow> length (rimage H) + META_SIZE + length c < MAX_CONTAINER_SIZE"
    using hot_fits_iff [OF assms(6), of "currentSize ?h"] h(2,4) c by simp
  have ok: "crec_ok (containerName (hot_addr r s)) (hot_rec r k sf c iv s)" if "hot_inv t Q G s" for Q G s
    using that assms(3-5) by (simp add: crec_ok_def hot_rec_def hot_addr_def entry_wf_def hot_inv_def Let_def)
  show ?thesis
  proof (cases "hot_fits (addr_length r) (currentSize ?h)")
    case True
    from place_hot_ok [OF assms(1,3,4,5)] fits True obtain st' where
        "place_hot c r k sf iv (currentSize ?h) st = Inr (hot_addr r st, st')" "hot_inv t R (H @ [hot_rec r k sf c iv st]) st'"
        "kept_hot st st'" "odisk st' = odisk st" "off_times st' = off_times st" by blast
    with True assms(2) ok [OF assms(1)] show ?thesis
      by (intro exI [of _ st] exI [of _ st'] exI [of _ R] exI [of _ H]) (simp add: InsertHot_container_def)
  next
    case False
    let ?s = "Ocall_SavehotContainer t st" and ?R = "R(containerID ?h := H)"
    have s: "odisk ?s = (odisk st)(delta_path t (containerID ?h) \<mapsto> rimage H)" "off_times ?s = off_times st" "kept_hot st ?s"
      using h(3) by (simp_all add: Ocall_SavehotContainer_def kept_hot_def)
    have nf: "no_file t (odisk ?s) n" if "n \<in> free_names st" for n using h(6,8) that by (auto simp: s no_file_def)
    from fresh_hot_ok [of ?s t ?R] nf assms(7) s(2) obtain st1 where st1: "fresh_hot ?s = Inr st1" "hot_inv t ?R [] st1" "kept_hot ?s st1"
        "odisk st1 = odisk ?s" "off_times st1 = Suc (off_times st)" "currentSize (hot_container st1) = 0" by auto
    have "length (rimage []) + META_SIZE + length c < MAX_CONTAINER_SIZE" using assms(6) by (simp add: meta_consts)
    from place_hot_ok [OF st1(2) assms(3,4,5) this] obtain st' where st': "place_hot c r k sf iv 0 st1 = Inr (hot_addr r st1, st')"
        "hot_inv t ?R [hot_rec r k sf c iv st1] st'" "kept_hot st1 st'" "odisk st' = odisk st1" "off_times st' = off_times st1"
      using st1(6) by auto
    have e: "R (containerID ?h) = []" using arch_no_file [OF assms(2) h(5)] .
    have "kept_hot st st'" using s(3) st1(3) st'(3) by (simp add: kept_hot_def)
    moreover have "arch t (odisk st') ?R" using arch_save [OF assms(2) h(5,1,4,7)] st'(4) st1(4) s(1) by simp
    moreover have "InsertHot_container t c r k sf iv st = Inr (hot_addr r st1, st')"
      using False st1(1) st'(1) by (simp add: InsertHot_container_def)
    ultimately show ?thesis
      using st'(2,5) st1(5) e recs_save [of R, OF e] ok [OF st1(2)]
      by (intro exI [of _ st1] exI [of _ st'] exI [of _ ?R] exI [of _ "[]"]) simp
  qed
qed


section \<open>Where the chunks are\<close>

definition opens :: "enclave \<Rightarrow> crec \<Rightarrow> bytes \<Rightarrow> bool" where
  "opens E r p \<longleftrightarrow> length (cr_data r) = length p \<and> DecryptionWithKeyIV (ssl E) CIPHER_TYPE (enclaveKey E) (cr_iv r) (cr_data r) = Inr p"

definition holds :: "enclave \<Rightarrow> (bytes \<Rightarrow> bytes option) \<Rightarrow> bytes \<Rightarrow> crec \<Rightarrow> bool" where
  "holds E B m r \<longleftrightarrow> cr_key r = keyof E m \<and>
    (case B m of
       None \<Rightarrow> deltaFlag (cr_addr r) = delta_code NO_DELTA \<and> opens E r (plain_for E m)
     | Some mb \<Rightarrow> deltaFlag (cr_addr r) = delta_code DELTA \<and> basechunkHash (cr_addr r) = keyof E mb \<and>
         (\<exists>d. opens E r d \<and> length d \<le> length m \<and> EDeltaDecode d (length d) (base_text E mb) = Inr m))"

definition placed :: "enclave \<Rightarrow> bytes set \<Rightarrow> InMemoryDatabase \<Rightarrow> crec set \<Rightarrow> (bytes \<Rightarrow> crec) \<Rightarrow> (bytes \<Rightarrow> bytes option) \<Rightarrow> bool" where
  "placed E S db X L B \<longleftrightarrow>
    (\<forall>m \<in> S. L m \<in> X \<and> addr_at E db (keyof E m) (cr_addr (L m)) \<and> holds E B m (L m) \<and> (\<forall>mb. B m = Some mb \<longrightarrow> mb \<in> S \<and> B mb = None))"

text \<open>The features in the index belong to base chunks, and are those of their addresses.\<close>

definition sf_ok :: "enclave \<Rightarrow> bytes set \<Rightarrow> InMemoryDatabase \<Rightarrow> (bytes \<Rightarrow> crec) \<Rightarrow> (bytes \<Rightarrow> bytes option) \<Rightarrow> bool" where
  "sf_ok E S db L B \<longleftrightarrow> sf_wf db \<and>
    (\<forall>i < 3. \<forall>k vs. sfObj db i k = Some vs \<longrightarrow> (\<forall>v \<in> set vs. \<exists>m \<in> S. v = keyof E m \<and> B m = None \<and>
       k = seg (i * CHUNK_HASH_SIZE) CHUNK_HASH_SIZE (superfeature (cr_addr (L m)))))"

abbreviation cold_at :: "cold_st \<Rightarrow> container_name \<Rightarrow> (u32 \<times> u32) list" where
  "cold_at c n \<equiv> (case cold_map c n of None \<Rightarrow> [] | Some ps \<Rightarrow> ps)"

definition cold_ok :: "crec set \<Rightarrow> (container_name \<Rightarrow> crec list) \<Rightarrow> cold_st \<Rightarrow> bool" where
  "cold_ok used R c \<longleftrightarrow>
    (\<forall>n. distinct (cold_at c n) \<and> set (cold_at c n) = set (cold_list (\<lambda>r. r \<notin> used) (R n))) \<and>
    distinct (cold_container_set c) \<and> (\<forall>n. n \<in> set (cold_container_set c) \<longleftrightarrow> cold_at c n \<noteq> []) \<and> cold_container_vector c = []"

definition pass_inv ::
  "enclave \<Rightarrow> string \<Rightarrow> bytes set \<Rightarrow> (container_name \<Rightarrow> crec list) \<Rightarrow> crec list \<Rightarrow> (bytes \<Rightarrow> crec) \<Rightarrow> (bytes \<Rightarrow> bytes option) \<Rightarrow> off_st \<Rightarrow> bool" where
  "pass_inv E t S R H L B st \<longleftrightarrow> arch t (odisk st) R \<and> hot_inv t R H st \<and> placed E S (odb st) (recs R \<union> set H) L B \<and>
     dom (indexObj (odb st)) = keyof E ` S \<and> sf_ok E S (odb st) L B \<and> cold_ok (L ` S) R (cold st) \<and> set H \<subseteq> L ` S \<and>
     length (ocall_container st) \<le> MAX_CONTAINER_SIZE \<and> ht_inv (offline_htable st) \<and> ht_items (offline_htable st) = {}"

lemma placedD:
  assumes "placed E S db X L B" "m \<in> S"
  shows "L m \<in> X" "addr_at E db (keyof E m) (cr_addr (L m))" "holds E B m (L m)" "B m = Some mb \<Longrightarrow> mb \<in> S \<and> B mb = None"
  using assms unfolding placed_def by blast+

lemma placed_inj:
  assumes "placed E S db X L B" "inj_on (keyof E) S"
  shows "inj_on L S"
proof (rule inj_onI)
  fix x y assume x: "x \<in> S" "y \<in> S" "L x = L y"
  have "cr_key (L x) = keyof E x" "cr_key (L y) = keyof E y" using placedD(3) [OF assms(1)] x(1,2) unfolding holds_def by blast+
  then have "keyof E x = keyof E y" using x(3) by simp
  with inj_onD [OF assms(2)] x(1,2) show "x = y" by simp
qed

text \<open>One chunk gets a new record as a delta against \<open>mn\<close>.\<close>

lemma placed_move:
  assumes "placed E S db X L B" "inj_on (keyof E) S" "m \<in> S" "mn \<in> S" "B mn = None" "mn \<noteq> m" "\<forall>y \<in> S. B y \<noteq> Some m"
    "x \<in> X'" "X \<subseteq> X'" "indexObj db' = (indexObj db)(keyof E m \<mapsto> v)" "entry_wf (cr_addr x)"
    "AESCBCDec (ssl E) (indexQueryKey E) v = Inr (entry_image (cr_addr x))" "holds E (B(m := Some mn)) m x"
  shows "placed E S db' X' (L(m := x)) (B(m := Some mn))"
  unfolding placed_def
proof
  fix y assume y: "y \<in> S"
  show "(L(m := x)) y \<in> X' \<and> addr_at E db' (keyof E y) (cr_addr ((L(m := x)) y)) \<and> holds E (B(m := Some mn)) y ((L(m := x)) y) \<and>
      (\<forall>mb. (B(m := Some mn)) y = Some mb \<longrightarrow> mb \<in> S \<and> (B(m := Some mn)) mb = None)"
  proof (cases "y = m")
    case True
    then show ?thesis using assms(4,5,6,8,10-13) by (simp add: addr_at_def)
  next
    case False
    then have k: "keyof E y \<noteq> keyof E m" using inj_onD [OF assms(2)] assms(3) y by blast
    note p = placedD [OF assms(1) y]
    have "addr_at E db' (keyof E y) (cr_addr (L y))" using p(2) k assms(10) by (simp add: addr_at_def)
    moreover have "holds E (B(m := Some mn)) y (L y)" using p(3) False by (simp add: holds_def)
    moreover have "mb \<in> S \<and> (B(m := Some mn)) mb = None" if "B y = Some mb" for mb
      using p(4) [OF that] that assms(7) y by auto
    ultimately show ?thesis using p(1) False assms(9) by auto
  qed
qed

lemma set_insert_ok [simp]: "set (set_insert n ns) = insert n (set ns)" "distinct ns \<Longrightarrow> distinct (set_insert n ns)"
proof -
  let ?P = "\<lambda>x. name_less x n"
  have s: "set (takeWhile ?P ns) \<union> set (dropWhile ?P ns) = set ns" by (metis set_append takeWhile_dropWhile_id)
  then show "set (set_insert n ns) = insert n (set ns)" by (simp add: set_insert_def insert_absorb)
  assume d: "distinct ns"
  then have "set (takeWhile ?P ns) \<inter> set (dropWhile ?P ns) = {}" by (metis distinct_append takeWhile_dropWhile_id)
  then show "distinct (set_insert n ns)" using s d by (auto simp: set_insert_def)
qed

text \<open>A record falls out of use and becomes cold.\<close>

lemma cold_ok_move:
  assumes "cold_ok used R c" "arch t d R" "r \<in> recs R" "r \<in> used" "used' = insert x (used - {r})" "x \<notin> recs R'"
    "\<forall>n. R' n = R n \<or> R n = [] \<and> R' n = H" "set H \<subseteq> used" "r \<notin> set H"
    "n0 = containerName (cr_addr r)" "cold_map c' = (cold_map c)(n0 \<mapsto> cold_at c n0 @ [cold_pair (cr_addr r)])"
    "cold_container_set c' = set_insert n0 (cold_container_set c)" "cold_container_vector c' = cold_container_vector c"
  shows "cold_ok used' R' c'"
proof -
  have c: "distinct (cold_at c n)" "set (cold_at c n) = set (cold_list (\<lambda>r. r \<notin> used) (R n))" for n using assms(1) by (simp_all add: cold_ok_def)
  have r0: "r \<in> set (R n0)" using arch_rec(1) [OF assms(2,3)] assms(10) by simp
  have R0: "R' n0 = R n0" using assms(7) r0 by (metis empty_iff empty_set)
  have other: "r \<notin> set (R n)" if "n \<noteq> n0" for n
  proof
    assume "r \<in> set (R n)"
    moreover have "laid n 0 (R n)" using assms(2) by (simp add: arch_def arch1_def)
    ultimately show False using laid_crec_ok that assms(10) by (auto simp: crec_ok_def)
  qed
  have lay: "laid n0 0 (R n0)" using assms(2) by (simp add: arch_def arch1_def)
  have unused: "y \<notin> used' \<longleftrightarrow> y \<notin> used \<or> y = r" if "y \<in> set (R' n)" for y n
    using that assms(4,5,6) by (auto dest: recsI)
  have new: "cold_pair (cr_addr r) \<notin> set (cold_at c n0)"
  proof
    assume "cold_pair (cr_addr r) \<in> set (cold_at c n0)"
    then obtain y where y: "y \<in> set (R n0)" "y \<notin> used" "cold_pair (cr_addr r) = cold_pair (cr_addr y)" unfolding c(2) by (auto simp: cold_list_def)
    then have "addr_offset (cr_addr y) = addr_offset (cr_addr r)" by (simp add: cold_pair_def)
    then have "y = r" using laid_offsets [OF lay] y(1) r0 by (auto simp: distinct_map inj_on_def)
    with y(2) assms(4) show False by simp
  qed
  have "distinct (cold_at c' n) \<and> set (cold_at c' n) = set (cold_list (\<lambda>r. r \<notin> used') (R' n))" for n
  proof (cases "n = n0")
    case True
    have "set (cold_list (\<lambda>r. r \<notin> used') (R' n0)) = insert (cold_pair (cr_addr r)) (set (cold_list (\<lambda>r. r \<notin> used) (R n0)))"
      using unused [of _ n0] r0 R0 by (auto simp: cold_list_def)
    then show ?thesis using True c new assms(11) by simp
  next
    case False
    have "set (cold_list (\<lambda>r. r \<notin> used') (R' n)) = set (cold_list (\<lambda>r. r \<notin> used) (R n))"
    proof (cases "R' n = R n")
      case True
      then show ?thesis using unused [of _ n] other [OF False] by (auto simp: cold_list_def)
    next
      case False
      then have "R n = []" "R' n = H" using assms(7) by metis+
      then show ?thesis using unused [of _ n] assms(8,9) by (auto simp: cold_list_def)
    qed
    then show ?thesis using False c assms(11) by simp
  qed
  then show ?thesis using assms(1,11,12,13) by (simp add: cold_ok_def)
qed

end
