(* ===== verification/OfflineMove.thy ===== *)
theory OfflineMove
  imports OfflineArch Pacing
begin

text \<open>
  One chunk moves to the hot container as a delta against a new base, and the deltas of an old base are
  encoded again against the new one. The invariant of the pass holds again, with the chunk at
  its new place.
\<close>

section \<open>Small steps\<close>

lemma record_delta_ok:
  assumes "length base = CHUNK_HASH_SIZE" "length k = CHUNK_HASH_SIZE"
  shows "\<exists>b. record_delta base k st = Inr (st\<lparr>off_process := b, odb := InsertDeltaIndex base k (odb st)\<rparr>)"
proof -
  let ?p = "off_process (clear_process st)"
  have m: "memcpyE PROCESS_BUFFER_SIZE ?p 0 (base @ k) = Inr (put ?p 0 (base @ k))"
    using assms by (simp add: memcpyE_def PROCESS_BUFFER_SIZE_def size_consts)
  have "pair_at (put ?p 0 (base @ k)) 0 = (base, k)" using assms by (simp add: pair_at_def put_def seg_def)
  then have "Ocall_UpdateDeltaIndex (put ?p 0 (base @ k)) 1 (odb (clear_process st)) = InsertDeltaIndex base k (odb st)"
    by (simp add: Ocall_UpdateDeltaIndex_def clear_process_def)
  then show ?thesis unfolding record_delta_def Let_def m bindE_simps by (intro exI) (simp add: clear_process_def)
qed

lemma cold_insert_ok:
  assumes "length n = CONTAINER_ID_LENGTH"
  shows "\<exists>b. cold_insert n p st = Inr (st\<lparr>cold := (cold st)\<lparr>off_out := b, cold_map := (cold_map (cold st))(n \<mapsto> cold_at (cold st) n @ [p]),
    cold_container_set := set_insert n (cold_container_set (cold st))\<rparr>\<rparr>)"
proof -
  let ?d = "n @ le32 (fst p) @ le32 (snd p)" and ?b = "put (off_out (cold st)) 0 (n @ le32 (fst p) @ le32 (snd p))"
  have m: "memcpyE OUT_BUFFER_SIZE (off_out (cold st)) 0 ?d = Inr ?b" using assms by (simp add: memcpyE_def OUT_BUFFER_SIZE_def size_consts)
  have "seg 0 CONTAINER_ID_LENGTH ?b = n" "rd32 (drop 7 ?b) = fst p" "rd32 (drop 11 ?b) = snd p"
    using assms by (simp_all add: put_def CONTAINER_ID_LENGTH_def)
  then show ?thesis unfolding cold_insert_def using assms m by (intro exI) (simp add: Ocall_ColdInsert_def Let_def)
qed

lemma UpdateIndexStore_eq:
  "length v = RECIPE_ENTRY_SIZE \<Longrightarrow> UpdateIndexStore k v st = st\<lparr>odb := (odb st)\<lparr>indexObj := (indexObj (odb st))(k \<mapsto> v)\<rparr>\<rparr>"
  by (simp add: UpdateIndexStore_def InsertBothBuffer_def)

section \<open>Moving a chunk\<close>

text \<open>What a move says of the rest: nothing but the hot container, the index and the cold chunks change.\<close>

definition kept_move :: "off_st \<Rightarrow> off_st \<Rightarrow> bool" where
  "kept_move st st' \<longleftrightarrow> pairs st' = pairs st \<and> delta_map st' = delta_map st \<and> sfObj (odb st') = sfObj (odb st) \<and>
     local_tmp_map (odb st') = local_tmp_map (odb st) \<and> skipMap (odb st') = skipMap (odb st)"

definition in_sf :: "InMemoryDatabase \<Rightarrow> fp \<Rightarrow> bool" where
  "in_sf db v \<longleftrightarrow> (\<exists>i < 3. \<exists>k vs. sfObj db i k = Some vs \<and> v \<in> set vs)"

lemma sf_ok_move:
  assumes "sf_ok E S db L B" "\<not> in_sf db (keyof E m)" "sfObj db' = sfObj db"
  shows "sf_ok E S db' (L(m := x)) (B(m := Some mn))"
  unfolding sf_ok_def
proof (intro conjI allI impI ballI)
  show "sf_wf db'" using assms(1,3) by (simp add: sf_ok_def sf_wf_def)
next
  fix i k vs v assume i: "i < 3" "sfObj db' i k = Some vs" "v \<in> set vs"
  then obtain y where y: "y \<in> S" "v = keyof E y" "B y = None" "k = seg (i * CHUNK_HASH_SIZE) CHUNK_HASH_SIZE (superfeature (cr_addr (L y)))"
    using assms(1,3) unfolding sf_ok_def by metis
  then have "y \<noteq> m" using assms(2,3) i unfolding in_sf_def by metis
  with y show "\<exists>m' \<in> S. v = keyof E m' \<and> (B(m := Some mn)) m' = None \<and>
      k = seg (i * CHUNK_HASH_SIZE) CHUNK_HASH_SIZE (superfeature (cr_addr ((L(m := x)) m')))" by (intro bexI [of _ y]) simp_all
qed

lemma move_to_hot_ok:
  assumes "pass_inv E t S R H L B st" "evp_ok (ssl E)" "inj_on (keyof E) S" "m \<in> S" "mn \<in> S" "L m \<in> recs R" "B mn = None" "mn \<noteq> m"
    "\<forall>y \<in> S. B y \<noteq> Some m" "length d \<le> length m" "length d \<le> MAX_CHUNK_SIZE" "EDeltaDecode d (length d) (base_text E mn) = Inr m"
    "\<not> in_sf (odb st) (keyof E m)" "off_times st < INT_MAX" "length sf = 3 * CHUNK_HASH_SIZE" "length iv = CRYPTO_BLOCK_SIZE"
  shows "\<exists>st' R' H' x. move_to_hot E t (keyof E mn) (keyof E m) d (cr_addr (L m)) (keyof E m) sf iv st = Inr st' \<and>
    pass_inv E t S R' H' (L(m := x)) (B(m := Some mn)) st' \<and> recs R \<subseteq> recs R' \<and> off_times st' \<le> Suc (off_times st) \<and> kept_move st st' \<and>
    delta_index (odb st') = push_back (keyof E mn) (keyof E m) (delta_index (odb st))"
proof -
  let ?r = "cr_addr (L m)" and ?k = "keyof E m"
  let ?r1 = "?r\<lparr>addr_length := word_of_nat (length d), basechunkHash := keyof E mn\<rparr>"
  have a: "arch t (odisk st) R" "hot_inv t R H st" "placed E S (odb st) (recs R \<union> set H) L B" "dom (indexObj (odb st)) = keyof E ` S"
      "sf_ok E S (odb st) L B" "cold_ok (L ` S) R (cold st)" "set H \<subseteq> L ` S" using assms(1) by (simp_all add: pass_inv_def)
  have r0: "crec_ok (containerName ?r) (L m)" using arch_rec(2) [OF a(1) assms(6)] .
  then have wf: "entry_wf ?r" by (simp add: crec_ok_def)
  have wf1: "entry_wf ?r1" using wf length_keyof [OF assms(2), of mn] by (simp add: entry_wf_def)
  have kl: "length ?k = CHUNK_HASH_SIZE" "length (keyof E mn) = CHUNK_HASH_SIZE" using length_keyof [OF assms(2)] by simp_all
  obtain c where c: "EncryptWithKeyIV (ssl E) CIPHER_TYPE (enclaveKey E) iv d = Inr c" "length c = length d"
      "DecryptionWithKeyIV (ssl E) CIPHER_TYPE (enclaveKey E) iv c = Inr d" using EncryptWithKeyIV_ok [OF assms(2)] by blast
  have lc: "unat (word_of_nat (length d) :: u32) = length d" using assms(11) by (intro unat_of_nat_small) (simp add: size_consts)
  have len: "unat (addr_length ?r1) = length c" using lc c(2) by simp
  have meta: "meta_ok ?k sf iv" using kl(1) assms(15,16) by (simp add: meta_ok_def)
  obtain st1 st2 R' H' where i: "InsertHot_container t c ?r1 ?k sf iv st = Inr (hot_addr ?r1 st1, st2)"
      "hot_inv t R' (H' @ [hot_rec ?r1 ?k sf c iv st1]) st2" "arch t (odisk st2) R'" "kept_hot st st2" "recs R' \<union> set H' = recs R \<union> set H"
      "recs R \<subseteq> recs R'" "set H' \<subseteq> set H" "\<forall>n. R' n = R n \<or> R n = [] \<and> R' n = H" "off_times st2 \<le> Suc (off_times st)"
      "crec_ok (containerName (hot_addr ?r1 st1)) (hot_rec ?r1 ?k sf c iv st1)"
    using InsertHot_ok [OF a(2,1) wf1 meta len _ assms(14)] c(2) assms(11) by auto
  define x where "x = hot_rec ?r1 ?k sf c iv st1"
  have x: "cr_addr x = hot_addr ?r1 st1" "cr_key x = ?k" "cr_data x = c" "cr_iv x = iv" by (simp_all add: x_def hot_rec_def)
  have wx: "entry_wf (cr_addr x)" using i(10) x by (simp add: crec_ok_def x_def)
  have v: "AESCBCEnc (ssl E) (indexQueryKey E) (entry_image (hot_addr ?r1 st1)) = Inr (encaddr E (cr_addr x))"
      "length (encaddr E (cr_addr x)) = RECIPE_ENTRY_SIZE" "AESCBCDec (ssl E) (indexQueryKey E) (encaddr E (cr_addr x)) = Inr (entry_image (cr_addr x))"
    using encaddr_ok [OF assms(2) wx] x(1) by simp_all
  define st3 where "st3 = st2\<lparr>odb := (odb st2)\<lparr>indexObj := (indexObj (odb st2))(?k \<mapsto> encaddr E (cr_addr x))\<rparr>\<rparr>"
  obtain b where b: "record_delta (keyof E mn) ?k st3 = Inr (st3\<lparr>off_process := b, odb := InsertDeltaIndex (keyof E mn) ?k (odb st3)\<rparr>)"
    using record_delta_ok [OF kl(2,1)] by blast
  define st4 where "st4 = st3\<lparr>off_process := b, odb := InsertDeltaIndex (keyof E mn) ?k (odb st3)\<rparr>"
  have nl: "length (containerName ?r) = CONTAINER_ID_LENGTH" using wf by (simp add: entry_wf_def)
  obtain b' where b': "cold_insert (containerName ?r) (cold_pair ?r) st4 = Inr (st4\<lparr>cold := (cold st4)\<lparr>off_out := b',
      cold_map := (cold_map (cold st4))(containerName ?r \<mapsto> cold_at (cold st4) (containerName ?r) @ [cold_pair ?r]),
      cold_container_set := set_insert (containerName ?r) (cold_container_set (cold st4))\<rparr>\<rparr>)" using cold_insert_ok [OF nl] by blast
  define st5 where "st5 = st4\<lparr>cold := (cold st4)\<lparr>off_out := b',
      cold_map := (cold_map (cold st4))(containerName ?r \<mapsto> cold_at (cold st4) (containerName ?r) @ [cold_pair ?r]),
      cold_container_set := set_insert (containerName ?r) (cold_container_set (cold st4))\<rparr>\<rparr>"
  have run: "move_to_hot E t (keyof E mn) ?k d ?r ?k sf iv st = Inr st5"
    unfolding move_to_hot_def Let_def c(1) bindE_simps i(1) prod.case v(1) UpdateIndexStore_eq [OF v(2)] st3_def [symmetric] b st4_def [symmetric] b' st5_def [symmetric] ..
  have hk: "odb st2 = odb st" "cold st2 = cold st" "pairs st2 = pairs st" "delta_map st2 = delta_map st" "ocall_container st2 = ocall_container st"
      "offline_htable st2 = offline_htable st" using i(4) by (simp_all add: kept_hot_def)
  have f: "odisk st5 = odisk st2" "hot_container st5 = hot_container st2" "off_times st5 = off_times st2" "ocall_container st5 = ocall_container st"
      "offline_htable st5 = offline_htable st" "pairs st5 = pairs st" "delta_map st5 = delta_map st"
      "indexObj (odb st5) = (indexObj (odb st))(?k \<mapsto> encaddr E (cr_addr x))" "sfObj (odb st5) = sfObj (odb st)"
      "local_tmp_map (odb st5) = local_tmp_map (odb st)" "skipMap (odb st5) = skipMap (odb st)"
      "delta_index (odb st5) = push_back (keyof E mn) ?k (delta_index (odb st))"
    using hk by (simp_all add: st5_def st4_def st3_def InsertDeltaIndex_def)
  have g: "cold_map (cold st5) = (cold_map (cold st))(containerName ?r \<mapsto> cold_at (cold st) (containerName ?r) @ [cold_pair ?r])"
      "cold_container_set (cold st5) = set_insert (containerName ?r) (cold_container_set (cold st))" "cold_container_vector (cold st5) = cold_container_vector (cold st)"
    using hk by (simp_all add: st5_def st4_def st3_def)
  have hot: "hot_inv t R' (H' @ [x]) st5" using i(2) f(1-3) by (simp add: hot_inv_def Let_def x_def)
  have xn: "containerName (cr_addr x) = containerID (hot_container st5)" using hot by (simp add: hot_inv_def Let_def laid_append crec_ok_def)
  have nf: "no_file t (odisk st5) (containerID (hot_container st5))" using hot by (simp add: hot_inv_def Let_def)
  have xr: "x \<notin> recs R'"
  proof
    assume "x \<in> recs R'"
    then have "x \<in> set (R' (containerName (cr_addr x)))" using arch_rec(1) [OF i(3)] by blast
    then show False using arch_no_file [OF i(3), of "containerName (cr_addr x)"] nf f(1) xn by simp
  qed
  have holdx: "holds E (B(m := Some mn)) m x"
    using x c assms(10,12) by (auto simp: holds_def opens_def hot_addr_def delta_code_1)
  have place: "placed E S (odb st5) (recs R' \<union> set (H' @ [x])) (L(m := x)) (B(m := Some mn))"
    using i(5) by (intro placed_move [OF a(3) assms(3-5,7-9) _ _ f(8) wx v(3) holdx]) auto
  have rH: "L m \<notin> set H"
  proof
    assume "L m \<in> set H"
    moreover have "laid (containerID (hot_container st)) 0 H" "no_file t (odisk st) (containerID (hot_container st))"
      using a(2) by (simp_all add: hot_inv_def Let_def)
    ultimately have "R (containerName ?r) = []" using laid_crec_ok arch_no_file [OF a(1)] by (fastforce simp: crec_ok_def)
    then show False using arch_rec(1) [OF a(1) assms(6)] by simp
  qed
  have used: "(L(m := x)) ` S = insert x (L ` S - {L m})"
    using placed_inj [OF a(3) assms(3)] assms(4) by (auto simp: inj_on_def)
  have cold: "cold_ok ((L(m := x)) ` S) R' (cold st5)"
    using assms(4) by (intro cold_ok_move [OF a(6,1) assms(6) _ used xr i(8) a(7) rH refl g]) simp
  have dom: "dom (indexObj (odb st5)) = keyof E ` S" using a(4) assms(4) f(8) by auto
  have Hx: "set (H' @ [x]) \<subseteq> (L(m := x)) ` S" unfolding used using i(7) a(7) rH by auto
  have "pass_inv E t S R' (H' @ [x]) (L(m := x)) (B(m := Some mn)) st5"
    unfolding pass_inv_def using i(3) hot place dom sf_ok_move [OF a(5) assms(13) f(9)] cold Hx f assms(1) by (simp add: pass_inv_def)
  then show ?thesis
    using run i(6,9) f by (intro exI [of _ st5] exI [of _ R'] exI [of _ "H' @ [x]"] exI [of _ x]) (simp add: kept_move_def)
qed


section \<open>The deltas of a base\<close>

definition delta_list :: "InMemoryDatabase \<Rightarrow> fp \<Rightarrow> fp list" where
  "delta_list db k = (case delta_index db k of None \<Rightarrow> [] | Some ds \<Rightarrow> ds)"

definition deps_ok :: "enclave \<Rightarrow> bytes set \<Rightarrow> (bytes \<Rightarrow> bytes option) \<Rightarrow> InMemoryDatabase \<Rightarrow> bytes \<Rightarrow> bool" where
  "deps_ok E S B db mb \<longleftrightarrow> distinct (delta_list db (keyof E mb)) \<and> set (delta_list db (keyof E mb)) = keyof E ` {m \<in> S. B m = Some mb}"

definition tracked :: "enclave \<Rightarrow> bytes set \<Rightarrow> (bytes \<Rightarrow> bytes option) \<Rightarrow> InMemoryDatabase \<Rightarrow> bytes set \<Rightarrow> bool" where
  "tracked E S B db D \<longleftrightarrow> D \<subseteq> S \<and> (\<forall>mb \<in> D. deps_ok E S B db mb)"

lemma tracked_move:
  assumes "tracked E S B db D" "inj_on (keyof E) S" "m \<in> S" "mn \<in> S" "B m \<noteq> Some mn" "\<forall>mo. B m = Some mo \<longrightarrow> mo \<notin> D"
    "delta_index db' = push_back (keyof E mn) (keyof E m) (delta_index db)"
  shows "tracked E S (B(m := Some mn)) db' D"
  unfolding tracked_def
proof (intro conjI ballI)
  show D: "D \<subseteq> S" using assms(1) by (simp add: tracked_def)
  fix mb assume mb: "mb \<in> D"
  then have d: "distinct (delta_list db (keyof E mb))" "set (delta_list db (keyof E mb)) = keyof E ` {m \<in> S. B m = Some mb}"
    using assms(1) by (simp_all add: tracked_def deps_ok_def)
  show "deps_ok E S (B(m := Some mn)) db' mb"
  proof (cases "mb = mn")
    case True
    have "{y \<in> S. (B(m := Some mn)) y = Some mn} = insert m {y \<in> S. B y = Some mn}" using assms(3) by auto
    moreover have "keyof E m \<notin> keyof E ` {y \<in> S. B y = Some mn}" using assms(5) inj_onD [OF assms(2) _ assms(3)] by auto
    ultimately show ?thesis using True d assms(7) by (simp add: deps_ok_def delta_list_def push_back_def)
  next
    case False
    then have k: "keyof E mb \<noteq> keyof E mn" using inj_onD [OF assms(2) _ _ assms(4)] mb D by auto
    have "B m \<noteq> Some mb" using assms(6) mb by auto
    then have "{y \<in> S. (B(m := Some mn)) y = Some mb} = {y \<in> S. B y = Some mb}" using False by auto
    then show ?thesis using k d assms(7) by (simp add: deps_ok_def delta_list_def push_back_def)
  qed
qed

section \<open>Reading records\<close>

lemma load_recipe_ok:
  assumes "addr_at E (odb st) k a" "length k = CHUNK_HASH_SIZE"
  shows "\<exists>e. load_recipe E k st = Inr (a, st\<lparr>oentry := e\<rparr>) \<and> o_chunkHash e = k"
proof -
  obtain v where v: "indexObj (odb st) k = Some v" "AESCBCDec (ssl E) (indexQueryKey E) v = Inr (entry_image a)" "entry_wf a"
    using assms(1) by (auto simp: addr_at_def)
  have l: "length v = RECIPE_ENTRY_SIZE" using AESCBCDec_length [OF v(2)] v(3) by simp
  have e: "entry_of (entry_image a) = a" using entry_of_image [OF v(3), of "[]"] by simp
  show ?thesis
    unfolding load_recipe_def Ocall_OneRecipe_def Let_def using v l e assms(2)
    by (intro exI [of _ "(oentry st)\<lparr>o_chunkHash := k, o_chunkAddr := v\<rparr>"]) (simp add: QueryBuffer_def)
qed

lemma record_fields:
  assumes "laid n 0 rs" "r \<in> set rs" "length (cr_data r) \<le> MAX_CHUNK_SIZE"
  shows "GetChunk_FP (rimage rs @ rest) (cr_addr r) = Inr (cr_key r)" "GetChunk_SF (rimage rs @ rest) (cr_addr r) = Inr (cr_sf r)"
    "opens E r p \<Longrightarrow> open_chunk E (rimage rs @ rest) (cr_addr r) = Inr (p, cr_iv r)"
proof -
  obtain xs ys where s: "rs = xs @ r # ys" "unat (addr_offset (cr_addr r)) = length (rimage xs)" "crec_ok n r"
    using laid_split [OF assms(1,2)] by auto
  have i: "rimage rs @ rest = rimage xs @ rec_bytes r @ rimage ys @ rest" using s(1) by simp
  have l: "unat (addr_length (cr_addr r)) = length (cr_data r)" using s(3) by (simp add: crec_ok_def)
  note sg = seg_record [OF s(3) refl, of "rimage xs" "rimage ys @ rest"] and room = record_room [OF s(3), of "rimage xs" "rimage ys @ rest"]
  show "GetChunk_FP (rimage rs @ rest) (cr_addr r) = Inr (cr_key r)"
    unfolding GetChunk_FP_def read_at_def i s(2) sg using room by simp
  show "GetChunk_SF (rimage rs @ rest) (cr_addr r) = Inr (cr_sf r)"
    unfolding GetChunk_SF_def read_at_def i s(2) sg using room by simp
  have "GetChunk_content_buffer (rimage rs @ rest) (cr_addr r) = Inr (cr_data r)"
    unfolding GetChunk_content_buffer_def read_at_def i s(2) l sg using room assms(3) by simp
  moreover have "GetChunk_IV (rimage rs @ rest) (cr_addr r) = Inr (cr_iv r)"
    unfolding GetChunk_IV_def read_at_def i s(2) l sg using room by simp
  ultimately show "open_chunk E (rimage rs @ rest) (cr_addr r) = Inr (p, cr_iv r)" if "opens E r p"
    using that by (simp add: open_chunk_def opens_def)
qed

lemma pass_inv_same:
  assumes "pass_inv E t S R H L B st" "odisk st' = odisk st" "odb st' = odb st" "hot_container st' = hot_container st" "off_times st' = off_times st"
    "cold st' = cold st" "length (ocall_container st') \<le> MAX_CONTAINER_SIZE" "ht_inv (offline_htable st')" "ht_items (offline_htable st') = {}"
  shows "pass_inv E t S R H L B st'"
  using assms by (simp add: pass_inv_def hot_inv_def)

section \<open>Encoding again\<close>

text \<open>The encoder succeeds and its output fits the buffer.\<close>

definition encodes :: "bytes \<Rightarrow> bytes \<Rightarrow> bool" where
  "encodes m ref \<longleftrightarrow> starts_paced m ref \<and> 
     (\<forall>buf ht d ht'. ht_inv ht \<longrightarrow> ht_items ht = {} \<longrightarrow> EDeltaEncode m ref buf ht = Inr (d, ht') \<longrightarrow> length d \<le> MAX_CHUNK_SIZE)"

lemma encode_ok:
  assumes "chunk_ok m" "length ref \<le> MAX_CHUNK_SIZE" "encodes m ref" "ht_inv (offline_htable st)" "ht_items (offline_htable st) = {}"
  shows "\<exists>d ht b. ed3_encode_buffer m ref st = Inr (d, st\<lparr>offline_htable := ht, newDeltaBuffer := b\<rparr>) \<and> length d \<le> MAX_CHUNK_SIZE \<and>
    EDeltaDecode d (length d) ref = Inr m \<and> ht_inv ht \<and> ht_items ht = {}"
proof -
  have l: "m \<noteq> []" "length m < 2 ^ 31" "length ref < 2 ^ 31" using assms(1,2) by (simp_all add: chunk_ok_def size_consts)
  have r: "ht_inv (ResetTable (offline_htable st))" "ht_items (ResetTable (offline_htable st)) = {}" using ResetTable_inv [OF assms(4)] by simp_all
  obtain us ht where us: "EDeltaEncode m ref (newDeltaBuffer st) (ResetTable (offline_htable st)) = Inr (enc_script us, ht)"
      "us \<noteq> []" "list_all (unit_ok ref) us" "run_script ref us = m" "ht_inv ht" "ht_items ht = {}"
    using EDeltaEncode_spec [OF l r, of "newDeltaBuffer st"] assms(3) by (auto simp: encodes_def)
  have "length (enc_script us) \<le> MAX_CHUNK_SIZE" using assms(3) r us(1) unfolding encodes_def by blast
  moreover have "EDeltaDecode (enc_script us) (length (enc_script us)) ref = Inr m" using decode_script [OF us(2,3)] us(4) by simp
  ultimately show ?thesis
    using us(1,5,6) by (intro exI [of _ "enc_script us"] exI [of _ ht] exI [of _ "put (newDeltaBuffer st) 0 (enc_script us)"])
      (simp add: ed3_encode_buffer_def of_edelta_def)
qed

lemma encodes_sizes:
  assumes "m \<noteq> []" "length m < 2 * length ref" "length m + 12 \<le> MAX_CHUNK_SIZE" "length ref \<le> MAX_CHUNK_SIZE"
  shows "encodes m ref"
proof -
  have l: "length m < 2 ^ 31" "length ref < 2 ^ 31" "length m \<le> 2 ^ 22" using assms(3,4) by (simp_all add: size_consts)
  have p: "starts_paced m ref" using paced_sizes [of m ref] assms(1,2) l(3) by simp
  have "length d \<le> MAX_CHUNK_SIZE" if ht: "ht_inv ht" "ht_items ht = {}" "EDeltaEncode m ref buf ht = Inr (d, ht')" for buf ht d ht'
    using EDeltaEncode_spec [OF assms(1) l(1,2) ht(1,2) p, of buf] ht(3) assms(3) by auto
  then show ?thesis using p unfolding encodes_def by blast
qed

lemma GetNew_deltachunk_ok:
  assumes "chunk_ok m" "length nb \<le> MAX_CHUNK_SIZE" "encodes m nb" "ht_inv (offline_htable st)" "ht_items (offline_htable st) = {}"
    "EDeltaDecode old (length old) ob = Inr m"
  shows "\<exists>d ht b s. GetNew_deltachunk old ob nb st = Inr (d, length d \<le> length m, st\<lparr>offline_htable := ht, newDeltaBuffer := b, ostats := s\<rparr>) \<and>
    length d \<le> MAX_CHUNK_SIZE \<and> EDeltaDecode d (length d) nb = Inr m \<and> ht_inv ht \<and> ht_items ht = {}"
proof -
  obtain d ht b where d: "ed3_encode_buffer m nb st = Inr (d, st\<lparr>offline_htable := ht, newDeltaBuffer := b\<rparr>)" "length d \<le> MAX_CHUNK_SIZE"
      "EDeltaDecode d (length d) nb = Inr m" "ht_inv ht" "ht_items ht = {}" using encode_ok [OF assms(1-5)] by blast
  have u: "ed3_decode_buffer old ob = Inr m" using assms(1,6) by (simp add: ed3_decode_buffer_def of_edelta_def chunk_ok_def)
  show ?thesis
  proof (cases "length m < length d")
    case True
    then have "GetNew_deltachunk old ob nb st = Inr (d, length d \<le> length m, st\<lparr>offline_htable := ht, newDeltaBuffer := b, ostats := ostats st\<rparr>)"
      using u d(1) by (simp add: GetNew_deltachunk_def)
    then show ?thesis using d by blast
  next
    case False
    then have "GetNew_deltachunk old ob nb st =
        Inr (d, length d \<le> length m, st\<lparr>offline_htable := ht, newDeltaBuffer := b, ostats := count_redelta (length old) (length d) (ostats st)\<rparr>)"
      using u d(1) by (simp add: GetNew_deltachunk_def)
    then show ?thesis using d by blast
  qed
qed

text \<open>What the pass needs of the chunks of a store.\<close>

definition store_clear :: "enclave \<Rightarrow> bytes set \<Rightarrow> bool" where
  "store_clear E S \<longleftrightarrow> (\<forall>m \<in> S. chunk_ok m \<and> base_text E m = m \<and> unlz_off E (plain_for E m) = m)"

lemma one_delta_container:
  assumes "odisk st (delta_path t n) = Some f" "length f \<le> MAX_CONTAINER_SIZE" "length (ocall_container st) \<le> MAX_CONTAINER_SIZE"
    "length n = CONTAINER_ID_LENGTH"
  shows "\<exists>rest e. Ocall_OneDeltaContainer t (set_addr_name n st) = Inr (st\<lparr>ocall_container := f @ rest, oentry := e\<rparr>) \<and> o_container e = f @ rest \<and>
    length (f @ rest) \<le> MAX_CONTAINER_SIZE"
proof -
  obtain rest where r: "memcpyE MAX_CONTAINER_SIZE (ocall_container st) 0 f = Inr (f @ rest)" "length (f @ rest) \<le> MAX_CONTAINER_SIZE"
    using memcpy_file [OF assms(2,3)] by blast
  let ?s = "set_addr_name n st"
  have "Ocall_OneDeltaContainer t ?s = Inr (?s\<lparr>ocall_container := f @ rest, oentry := (oentry ?s)\<lparr>o_container := f @ rest\<rparr>\<rparr>)"
    using assms(1,4) r(1) by (simp add: Ocall_OneDeltaContainer_def) (simp add: set_addr_name_def)
  also have "?s\<lparr>ocall_container := f @ rest, oentry := (oentry ?s)\<lparr>o_container := f @ rest\<rparr>\<rparr> =
      st\<lparr>ocall_container := f @ rest, oentry := (oentry ?s)\<lparr>o_container := f @ rest\<rparr>\<rparr>" by (simp add: set_addr_name_def)
  finally show ?thesis using r(2) by (intro exI [of _ rest] exI [of _ "(oentry ?s)\<lparr>o_container := f @ rest\<rparr>"]) simp
qed

definition redelta_post ::
  "enclave \<Rightarrow> string \<Rightarrow> bytes set \<Rightarrow> bytes set \<Rightarrow> (container_name \<Rightarrow> crec list) \<Rightarrow> (bytes \<Rightarrow> crec) \<Rightarrow> (bytes \<Rightarrow> bytes option) \<Rightarrow> off_st \<Rightarrow>
    bytes set \<Rightarrow> bytes \<Rightarrow> bytes \<Rightarrow> bool \<Rightarrow> bool \<Rightarrow> off_st \<Rightarrow> bool" where
  "redelta_post E t S D R L B st X mo mn flag flag' st' \<longleftrightarrow>
    (\<exists>R' H' L' B'. pass_inv E t S R' H' L' B' st' \<and> tracked E S B' (odb st') D \<and> recs R \<subseteq> recs R' \<and>
      (\<forall>y. y \<notin> X \<longrightarrow> L' y = L y \<and> B' y = B y) \<and> (\<forall>y \<in> X. B' y = Some mn \<or> \<not> flag' \<and> B' y = Some mo) \<and> (flag' \<longrightarrow> flag)) \<and>
    off_times st' \<le> off_times st + card X \<and> kept_move st st'"

lemma kept_move_trans: "kept_move a b \<Longrightarrow> kept_move b c \<Longrightarrow> kept_move a c"
  by (simp add: kept_move_def)

lemma redelta_ok:
  assumes "pass_inv E t S R H L B st" "tracked E S B (odb st) D" "evp_ok (ssl E)" "inj_on (keyof E) S" "store_clear E S"
    "m \<in> S" "mn \<in> S" "L m \<in> recs R" "B m = Some mo" "B mn = None" "mo \<notin> D" "mo \<noteq> mn" "encodes m mn" "off_times st < INT_MAX"
  shows "\<exists>flag' st'. redelta E t (keyof E mn) mo mn (keyof E m) (flag, st) = Inr (flag', st') \<and>
    redelta_post E t S D R L B st {m} mo mn flag flag' st'"
proof -
  let ?r = "L m"
  let ?a = "cr_addr ?r"
  have inv: "arch t (odisk st) R" "placed E S (odb st) (recs R \<union> set H) L B" "sf_ok E S (odb st) L B" "length (ocall_container st) \<le> MAX_CONTAINER_SIZE"
      "ht_inv (offline_htable st)" "ht_items (offline_htable st) = {}" using assms(1) by (simp_all add: pass_inv_def)
  have cl: "chunk_ok m" "length mn \<le> MAX_CHUNK_SIZE" "base_text E mo = mo" "base_text E mn = mn"
    using assms(5-7) placedD(4) [OF inv(2) assms(6,9)] by (auto simp: store_clear_def chunk_ok_def)
  obtain delta where del: "cr_key ?r = keyof E m" "deltaFlag ?a = delta_code DELTA" "opens E ?r delta" "length delta \<le> length m"
      "EDeltaDecode delta (length delta) mo = Inr m" using placedD(3) [OF inv(2) assms(6)] assms(9) cl(3) by (auto simp: holds_def)
  have ok: "crec_ok (containerName ?a) ?r" "?r \<in> set (R (containerName ?a))" using arch_rec [OF inv(1) assms(8)] by simp_all
  have lay: "laid (containerName ?a) 0 (R (containerName ?a))" "length (rimage (R (containerName ?a))) \<le> MAX_CONTAINER_SIZE"
    using inv(1) by (simp_all add: arch_def arch1_def)
  have ml: "length (cr_data ?r) \<le> MAX_CHUNK_SIZE" using del(3,4) cl(1) by (simp add: opens_def chunk_ok_def)
  have nl: "length (containerName ?a) = CONTAINER_ID_LENGTH" "meta_ok (cr_key ?r) (cr_sf ?r) (cr_iv ?r)" using ok(1) by (simp_all add: crec_ok_def entry_wf_def)
  obtain e where e: "load_recipe E (keyof E m) st = Inr (?a, st\<lparr>oentry := e\<rparr>)"
    using load_recipe_ok [OF placedD(2) [OF inv(2) assms(6)]] length_keyof [OF assms(3)] by blast
  obtain rest e' where c: "Ocall_OneDeltaContainer t (set_addr_name (containerName ?a) (st\<lparr>oentry := e\<rparr>)) =
      Inr (st\<lparr>oentry := e, ocall_container := rimage (R (containerName ?a)) @ rest, oentry := e'\<rparr>)" "o_container e' = rimage (R (containerName ?a)) @ rest"
      "length (rimage (R (containerName ?a)) @ rest) \<le> MAX_CONTAINER_SIZE"
    using one_delta_container [of "st\<lparr>oentry := e\<rparr>" t "containerName ?a", OF _ lay(2) _ nl(1)] arch_file(2) [OF inv(1) assms(8) del(2)] inv(4) by auto
  define st2 where "st2 = st\<lparr>oentry := e, ocall_container := rimage (R (containerName ?a)) @ rest, oentry := e'\<rparr>"
  have rf: "GetChunk_FP (o_container (oentry st2)) ?a = Inr (keyof E m)" "GetChunk_SF (o_container (oentry st2)) ?a = Inr (cr_sf ?r)"
      "open_chunk E (o_container (oentry st2)) ?a = Inr (delta, cr_iv ?r)"
    using record_fields [OF lay(1) ok(2) ml] del(1,3) c(2) by (simp_all add: st2_def)
  obtain d ht b s where g: "GetNew_deltachunk delta mo mn st2 =
      Inr (d, length d \<le> length m, st2\<lparr>offline_htable := ht, newDeltaBuffer := b, ostats := s\<rparr>)" "length d \<le> MAX_CHUNK_SIZE"
      "EDeltaDecode d (length d) mn = Inr m" "ht_inv ht" "ht_items ht = {}"
    using GetNew_deltachunk_ok [OF cl(1,2) assms(13), of st2 delta mo] inv(5,6) del(5) by (auto simp: st2_def)
  define st3 where "st3 = st2\<lparr>offline_htable := ht, newDeltaBuffer := b, ostats := s\<rparr>"
  have p3: "pass_inv E t S R H L B st3" using g(4,5) c(3) by (intro pass_inv_same [OF assms(1)]) (simp_all add: st3_def st2_def)
  have db3: "odb st3 = odb st" "off_times st3 = off_times st" "kept_move st st3" by (simp_all add: st3_def st2_def kept_move_def)
  have run: "redelta E t (keyof E mn) mo mn (keyof E m) (flag, st) =
      (if length d \<le> length m then bindE (move_to_hot E t (keyof E mn) (keyof E m) d ?a (keyof E m) (cr_sf ?r) (cr_iv ?r) st3) (\<lambda>st4. Inr (flag, st4))
       else Inr (False, st3))"
    unfolding redelta_def fst_conv snd_conv e bindE_simps prod.case c(1) st2_def [symmetric] Let_def rf g(1) st3_def [symmetric] ..
  show ?thesis
  proof (cases "length d \<le> length m")
    case False
    have "redelta_post E t S D R L B st {m} mo mn flag False st3"
      unfolding redelta_post_def using p3 db3 assms(2,9)
      by (intro conjI exI [of _ R] exI [of _ H] exI [of _ L] exI [of _ B]) simp_all
    then show ?thesis using run False by auto
  next
    case True
    have nosf: "\<not> in_sf (odb st3) (keyof E m)"
    proof
      assume "in_sf (odb st3) (keyof E m)"
      then obtain y where "y \<in> S" "keyof E m = keyof E y" "B y = None" using inv(3) unfolding in_sf_def sf_ok_def db3(1) by metis
      moreover from this have "m = y" using inj_onD [OF assms(4)] assms(6) by blast
      ultimately show False using assms(9) by simp
    qed
    have nob: "\<forall>y \<in> S. B y \<noteq> Some m"
    proof (intro ballI notI)
      fix y assume "y \<in> S" "B y = Some m"
      from placedD(4) [OF inv(2) this] assms(9) show False by simp
    qed
    have ne: "mn \<noteq> m" using assms(9,10) by auto
    from move_to_hot_ok [OF p3 assms(3,4,6,7,8,10) ne nob True g(2) _ nosf, of "cr_sf ?r" "cr_iv ?r"] g(3) cl(4) db3(2) assms(14) nl(2)
    obtain st' R' H' x where st': "move_to_hot E t (keyof E mn) (keyof E m) d ?a (keyof E m) (cr_sf ?r) (cr_iv ?r) st3 = Inr st'"
        "pass_inv E t S R' H' (L(m := x)) (B(m := Some mn)) st'" "recs R \<subseteq> recs R'" "off_times st' \<le> Suc (off_times st3)" "kept_move st3 st'"
        "delta_index (odb st') = push_back (keyof E mn) (keyof E m) (delta_index (odb st3))" by (auto simp: meta_ok_def)
    have tr: "tracked E S (B(m := Some mn)) (odb st') D"
      using assms(2,9,11,12) st'(6) db3(1) by (intro tracked_move [OF _ assms(4,6,7)]) auto
    have "redelta_post E t S D R L B st {m} mo mn flag flag st'"
      unfolding redelta_post_def using st'(2,3,4) tr db3(2) kept_move_trans [OF db3(3) st'(5)]
      by (intro conjI exI [of _ R'] exI [of _ H'] exI [of _ "L(m := x)"] exI [of _ "B(m := Some mn)"]) simp_all
    then show ?thesis using run True st'(1) by auto
  qed
qed

end
