(* ===== verification/OfflinePair.thy ===== *)
theory OfflinePair
  imports OfflineMove
begin

text \<open>
  One pair of an old and a new base: all deltas of the old base are encoded again, the features
  move to the new base, and the old base becomes a delta if all of that succeeded.
\<close>

section \<open>All deltas of a base\<close>

lemma addr_at_index: "indexObj db' = indexObj db \<Longrightarrow> addr_at E db' = addr_at E db"
  by (intro ext) (simp add: addr_at_def)

lemma placed_index: "indexObj db' = indexObj db \<Longrightarrow> placed E S db' X L B = placed E S db X L B"
  unfolding placed_def by (drule addr_at_index [of _ _ E]) (simp only:)

lemma pass_inv_cong:
  assumes "pass_inv E t S R H L B st" "odisk st' = odisk st" "indexObj (odb st') = indexObj (odb st)" "sf_ok E S (odb st') L B"
    "hot_container st' = hot_container st" "off_times st' = off_times st"
    "cold st' = cold st" "length (ocall_container st') \<le> MAX_CONTAINER_SIZE" "ht_inv (offline_htable st')" "ht_items (offline_htable st') = {}"
  shows "pass_inv E t S R H L B st'"
  using assms placed_index [OF assms(3)] by (simp add: pass_inv_def hot_inv_def)

lemma redelta_loop:
  assumes "evp_ok (ssl E)" "inj_on (keyof E) S" "store_clear E S" "mn \<in> S" "mo \<notin> D" "mo \<noteq> mn"
  shows "distinct ms \<Longrightarrow> set ms \<subseteq> S \<Longrightarrow> \<forall>m \<in> set ms. B m = Some mo \<and> L m \<in> recs R \<and> encodes m mn \<Longrightarrow> B mn = None \<Longrightarrow>
    pass_inv E t S R H L B st \<Longrightarrow> tracked E S B (odb st) D \<Longrightarrow> off_times st + length ms \<le> INT_MAX \<Longrightarrow>
    \<exists>flag' st'. foldE (redelta E t (keyof E mn) mo mn) (map (keyof E) ms) (flag, st) = Inr (flag', st') \<and>
      redelta_post E t S D R L B st (set ms) mo mn flag flag' st'"
proof (induction ms arbitrary: R H L B st flag)
  case Nil
  have "redelta_post E t S D R L B st {} mo mn flag flag st"
    unfolding redelta_post_def using Nil.prems by (intro conjI exI [of _ R] exI [of _ H] exI [of _ L] exI [of _ B]) (simp_all add: kept_move_def)
  then show ?case by auto
next
  case (Cons m ms)
  have m: "m \<in> S" "B m = Some mo" "L m \<in> recs R" "encodes m mn" "m \<noteq> mn" "m \<notin> set ms" "off_times st < INT_MAX"
    using Cons.prems by auto
  obtain f1 st1 where 1: "redelta E t (keyof E mn) mo mn (keyof E m) (flag, st) = Inr (f1, st1)" "redelta_post E t S D R L B st {m} mo mn flag f1 st1"
    using redelta_ok [OF Cons.prems(5,6) assms(1-3) m(1) assms(4) m(3,2) Cons.prems(4) assms(5,6) m(4,7)] by blast
  then obtain R1 H1 L1 B1 where p1: "pass_inv E t S R1 H1 L1 B1 st1" "tracked E S B1 (odb st1) D" "recs R \<subseteq> recs R1"
      "\<forall>y. y \<noteq> m \<longrightarrow> L1 y = L y \<and> B1 y = B y" "B1 m = Some mn \<or> \<not> f1 \<and> B1 m = Some mo" "f1 \<longrightarrow> flag"
      "off_times st1 \<le> Suc (off_times st)" "kept_move st st1" unfolding redelta_post_def by auto
  have ms: "\<forall>y \<in> set ms. B1 y = Some mo \<and> L1 y \<in> recs R1 \<and> encodes y mn" "B1 mn = None"
    using Cons.prems(3,4) p1(3,4) m(5,6) by (metis (no_types, lifting) list.set_intros(2) subsetD)+
  obtain f2 st2 where 2: "foldE (redelta E t (keyof E mn) mo mn) (map (keyof E) ms) (f1, st1) = Inr (f2, st2)"
      "redelta_post E t S D R1 L1 B1 st1 (set ms) mo mn f1 f2 st2"
    using Cons.IH [OF _ _ ms p1(1,2), of f1] Cons.prems(1,2,7) p1(7) by auto
  then obtain R2 H2 L2 B2 where p2: "pass_inv E t S R2 H2 L2 B2 st2" "tracked E S B2 (odb st2) D" "recs R1 \<subseteq> recs R2"
      "\<forall>y. y \<notin> set ms \<longrightarrow> L2 y = L1 y \<and> B2 y = B1 y" "\<forall>y \<in> set ms. B2 y = Some mn \<or> \<not> f2 \<and> B2 y = Some mo" "f2 \<longrightarrow> f1"
      "off_times st2 \<le> off_times st1 + card (set ms)" "kept_move st1 st2" unfolding redelta_post_def by auto
  have X: "\<forall>y \<in> set (m # ms). B2 y = Some mn \<or> \<not> f2 \<and> B2 y = Some mo"
    using p1(5) p2(4,5,6) m(6) by (metis set_ConsD)
  have "redelta_post E t S D R L B st (set (m # ms)) mo mn flag f2 st2"
    unfolding redelta_post_def
    using p2(1,2,3,4) p1(3,4,6,7) X p2(6,7) kept_move_trans [OF p1(8) p2(8)] m(6)
    by (intro conjI exI [of _ R2] exI [of _ H2] exI [of _ L2] exI [of _ B2]) auto
  then show ?case using 1(1) 2(1) by auto
qed

lemma length_concat_same: "\<forall>x \<in> set xs. length x = n \<Longrightarrow> length (concat xs) = length xs * n"
  by (induction xs) simp_all

lemma seg_concat:
  assumes "\<forall>x \<in> set xs. length x = n" "i < length xs"
  shows "seg (i * n) n (concat xs @ ys) = xs ! i"
proof -
  have "concat xs = concat (take i xs) @ xs ! i @ concat (drop (Suc i) xs)"
    by (metis assms(2) concat.simps(2) concat_append id_take_nth_drop)
  moreover have "length (concat (take i xs)) = i * n"
    using length_concat_same [of "take i xs" n] assms by (auto dest: in_set_takeD)
  ultimately show ?thesis using assms by (simp add: seg_def)
qed

lemma query_deltas_ok:
  assumes "length k = CHUNK_HASH_SIZE" "\<forall>x \<in> set (delta_list (odb st) k). length x = CHUNK_HASH_SIZE" "length (delta_list (odb st) k) < 100000"
  shows "\<exists>b. query_deltas k st = Inr (delta_list (odb st) k, st\<lparr>off_process := b, odb := (odb st)\<lparr>delta_index := (delta_index (odb st))(k := None)\<rparr>\<rparr>)"
proof -
  let ?st = "clear_process st" and ?db = "(odb st)\<lparr>delta_index := (delta_index (odb st))(k := None)\<rparr>"
  let ?b = "put (off_process (clear_process st)) 0 k"
  have m: "memcpyE PROCESS_BUFFER_SIZE (off_process ?st) 0 k = Inr ?b" using assms(1) by (simp add: memcpyE_def PROCESS_BUFFER_SIZE_def size_consts)
  have k: "seg 0 CHUNK_HASH_SIZE ?b = k" "CHUNK_HASH_SIZE \<le> length ?b" using assms(1) by (simp_all add: put_def)
  have st: "odb ?st = odb st" by (simp add: clear_process_def)
  show ?thesis
  proof (cases "delta_index (odb st) k")
    case None
    then have "(delta_index (odb st))(k := None) = delta_index (odb st)" by (intro ext) simp
    then have "?db = odb st" by simp
    moreover have "Ocall_QueryDeltaIndex (?st\<lparr>off_process := ?b\<rparr>) = Inr (0, ?st\<lparr>off_process := ?b, odb := odb st\<rparr>)"
      using None k(1) st by (simp add: Ocall_QueryDeltaIndex_def QueryDeltaIndex_def)
    ultimately show ?thesis
      using None m by (intro exI [of _ ?b]) (simp add: query_deltas_def Let_def delta_list_def clear_process_def)
  next
    case (Some ds)
    then have ds: "\<forall>x \<in> set ds. length x = CHUNK_HASH_SIZE" "length ds < 100000" using assms(2,3) by (simp_all add: delta_list_def)
    note lc = length_concat_same [OF ds(1)]
    let ?c = "put ?b CHUNK_HASH_SIZE (concat ds)"
    have m2: "memcpyE PROCESS_BUFFER_SIZE ?b CHUNK_HASH_SIZE (concat ds) = Inr ?c"
      using k(2) lc ds(2) by (intro memcpyE_ok) (simp_all add: PROCESS_BUFFER_SIZE_def size_consts)
    have "Ocall_QueryDeltaIndex (?st\<lparr>off_process := ?b\<rparr>) = Inr (length ds, ?st\<lparr>off_process := ?c, odb := ?db\<rparr>)"
      using Some k(1) st m2 by (simp add: Ocall_QueryDeltaIndex_def QueryDeltaIndex_def)
    moreover have "map (\<lambda>i. seg ((i + 1) * CHUNK_HASH_SIZE) CHUNK_HASH_SIZE ?c) [0..<length ds] = ds"
    proof (rule nth_equalityI)
      fix i assume i: "i < length (map (\<lambda>i. seg ((i + 1) * CHUNK_HASH_SIZE) CHUNK_HASH_SIZE ?c) [0..<length ds])"
      have "seg (CHUNK_HASH_SIZE + i * CHUNK_HASH_SIZE) CHUNK_HASH_SIZE (take CHUNK_HASH_SIZE ?b @ concat ds @ x) = ds ! i" for x
        using k(2) seg_concat [OF ds(1), of i x] i by (simp add: seg_append_right min_def del: length_concat)
      then have "seg (CHUNK_HASH_SIZE + i * CHUNK_HASH_SIZE) CHUNK_HASH_SIZE ?c = ds ! i" by (simp only: put_def)
      then show "map (\<lambda>i. seg ((i + 1) * CHUNK_HASH_SIZE) CHUNK_HASH_SIZE ?c) [0..<length ds] ! i = ds ! i" using i by simp
    qed simp
    ultimately show ?thesis
      using Some m by (intro exI [of _ ?c]) (simp add: query_deltas_def Let_def delta_list_def clear_process_def)
  qed
qed


lemma keys_list:
  assumes "inj_on f S" "X \<subseteq> S" "set ds = f ` X" "distinct ds"
  shows "\<exists>ms. ds = map f ms \<and> distinct ms \<and> set ms = X"
proof -
  let ?ms = "map (the_inv_into S f) ds"
  have i: "inj_on f X" using assms(1,2) by (rule inj_on_subset)
  have g: "\<forall>d \<in> set ds. f (the_inv_into S f d) = d" using assms f_the_inv_into_f [OF assms(1)] by (metis imageE image_eqI subsetD)
  then have m: "ds = map f ?ms" by (simp add: map_idI)
  have "set ?ms = X" using assms(2,3) the_inv_into_f_f [OF assms(1)] by (auto simp: subset_iff image_iff)
  moreover have "distinct ?ms" using m assms(4) by (metis distinct_map)
  ultimately show ?thesis using m by blast
qed

abbreviation deltas_of :: "bytes set \<Rightarrow> (bytes \<Rightarrow> bytes option) \<Rightarrow> bytes \<Rightarrow> bytes set" where
  "deltas_of S B mo \<equiv> {m \<in> S. B m = Some mo}"

lemma sf_ok_cong: "sfObj db' = sfObj db \<Longrightarrow> sf_ok E S db' L B = sf_ok E S db L B"
  by (simp add: sf_ok_def sf_wf_def)

lemma tracked_forget:
  assumes "tracked E S B db D" "inj_on (keyof E) S" "mo \<in> S" "delta_index db' = (delta_index db)(keyof E mo := None)"
  shows "tracked E S B db' (D - {mo})"
  unfolding tracked_def
proof (intro conjI ballI)
  show "D - {mo} \<subseteq> S" using assms(1) by (auto simp: tracked_def)
  fix mb assume mb: "mb \<in> D - {mo}"
  then have "mb \<in> S" using assms(1) by (auto simp: tracked_def)
  then have "keyof E mb \<noteq> keyof E mo" using inj_onD [OF assms(2) _ _ assms(3)] mb by auto
  then show "deps_ok E S B db' mb" using assms(1,4) mb by (simp add: tracked_def deps_ok_def delta_list_def)
qed

text \<open>A pair the pass can work on.\<close>

definition pair_ok ::
  "enclave \<Rightarrow> bytes set \<Rightarrow> (container_name \<Rightarrow> crec list) \<Rightarrow> (bytes \<Rightarrow> crec) \<Rightarrow> (bytes \<Rightarrow> bytes option) \<Rightarrow> bytes set \<Rightarrow> bytes \<times> bytes \<Rightarrow> bool" where
  "pair_ok E S R L B D p \<longleftrightarrow> (case p of (mo, mn) \<Rightarrow> mo \<in> D \<and> mo \<in> S \<and> mn \<in> S \<and> mo \<noteq> mn \<and> B mn = None \<and> encodes mo mn \<and>
     card (deltas_of S B mo) < 100000 \<and> (\<forall>m \<in> deltas_of S B mo. L m \<in> recs R \<and> encodes m mn))"

lemma pass_keys:
  assumes "tracked E S B db D" "mo \<in> D" "evp_ok (ssl E)" "inj_on (keyof E) S"
  shows "\<exists>ms. delta_list db (keyof E mo) = map (keyof E) ms \<and> distinct ms \<and> set ms = deltas_of S B mo \<and> length ms = card (deltas_of S B mo)"
proof -
  have "distinct (delta_list db (keyof E mo))" "set (delta_list db (keyof E mo)) = keyof E ` deltas_of S B mo"
    using assms(1,2) by (simp_all add: tracked_def deps_ok_def)
  from keys_list [OF assms(4) _ this(2,1)] obtain ms where "delta_list db (keyof E mo) = map (keyof E) ms" "distinct ms" "set ms = deltas_of S B mo" by auto
  with distinct_card [of ms] show ?thesis by metis
qed

text \<open>Asking for the deltas of a base changes nothing but the list of them.\<close>

lemma ask_deltas:
  assumes "pass_inv E t S R H L B st" "tracked E S B (odb st) D" "mo \<in> D" "evp_ok (ssl E)" "inj_on (keyof E) S" "card (deltas_of S B mo) < 100000"
  shows "\<exists>ms st1. query_deltas (keyof E mo) st = Inr (map (keyof E) ms, st1) \<and> distinct ms \<and> set ms = deltas_of S B mo \<and>
    length ms = card (deltas_of S B mo) \<and> pass_inv E t S R H L B st1 \<and> tracked E S B (odb st1) (D - {mo}) \<and> kept_move st st1 \<and>
    off_times st1 = off_times st \<and> oentry st1 = oentry st \<and> ostats st1 = ostats st"
proof -
  let ?k = "keyof E mo"
  obtain ms where ms: "delta_list (odb st) ?k = map (keyof E) ms" "distinct ms" "set ms = deltas_of S B mo" "length ms = card (deltas_of S B mo)"
    using pass_keys [OF assms(2-5)] by blast
  have l: "\<forall>x \<in> set (delta_list (odb st) ?k). length x = CHUNK_HASH_SIZE" unfolding ms(1) using length_keyof [OF assms(4)] by auto
  obtain b where b: "query_deltas ?k st = Inr (map (keyof E) ms, st\<lparr>off_process := b, odb := (odb st)\<lparr>delta_index := (delta_index (odb st))(?k := None)\<rparr>\<rparr>)"
    using query_deltas_ok [OF length_keyof [OF assms(4)] l] ms(1,4) assms(6) by auto
  define st1 where "st1 = st\<lparr>off_process := b, odb := (odb st)\<lparr>delta_index := (delta_index (odb st))(?k := None)\<rparr>\<rparr>"
  have i: "sf_ok E S (odb st) L B" "length (ocall_container st) \<le> MAX_CONTAINER_SIZE" "ht_inv (offline_htable st)" "ht_items (offline_htable st) = {}"
    using assms(1) by (simp_all add: pass_inv_def)
  have "pass_inv E t S R H L B st1"
    using i sf_ok_cong [of "odb st1" "odb st"] by (intro pass_inv_cong [OF assms(1)]) (simp_all add: st1_def)
  moreover have "mo \<in> S" using assms(2,3) by (auto simp: tracked_def)
  then have "tracked E S B (odb st1) (D - {mo})" by (intro tracked_forget [OF assms(2,5)]) (simp_all add: st1_def)
  ultimately show ?thesis using b ms(2-4) by (intro exI [of _ ms] exI [of _ st1]) (simp add: st1_def kept_move_def)
qed

lemma redelta_all_ok:
  assumes "pass_inv E t S R H L B st" "tracked E S B (odb st) D" "evp_ok (ssl E)" "inj_on (keyof E) S" "store_clear E S"
    "pair_ok E S R L B D (mo, mn)" "delta_map st = Map.empty" "off_times st + card (deltas_of S B mo) \<le> INT_MAX"
  shows "\<exists>flag st'. redelta_all E t (keyof E mo) (keyof E mn) mo mn st = Inr (flag, st') \<and>
    redelta_post E t S (D - {mo}) R L B st (deltas_of S B mo) mo mn True flag st'"
proof -
  let ?k = "keyof E mo"
  have p: "mo \<in> D" "mn \<in> S" "mo \<noteq> mn" "B mn = None" "card (deltas_of S B mo) < 100000" "\<forall>m \<in> deltas_of S B mo. L m \<in> recs R \<and> encodes m mn"
    using assms(6) by (simp_all add: pair_ok_def)
  obtain ms st1 where ms: "query_deltas ?k st = Inr (map (keyof E) ms, st1)" "distinct ms" "set ms = deltas_of S B mo" "length ms = card (deltas_of S B mo)"
      "pass_inv E t S R H L B st1" "tracked E S B (odb st1) (D - {mo})" "kept_move st st1" "off_times st1 = off_times st"
    using ask_deltas [OF assms(1,2) p(1) assms(3,4) p(5)] by blast
  have e: "delta_map st1 = Map.empty" using ms(7) assms(7) by (simp add: kept_move_def)
  show ?thesis
  proof (cases "ms = []")
    case True
    then have run: "redelta_all E t ?k (keyof E mn) mo mn st = Inr (True, st1)" unfolding redelta_all_def ms(1) using e by simp
    have X: "deltas_of S B mo = {}" using ms(3) True by simp
    have "redelta_post E t S (D - {mo}) R L B st (deltas_of S B mo) mo mn True True st1"
      unfolding redelta_post_def X using ms(5-8) by (intro conjI exI [of _ R] exI [of _ H] exI [of _ L] exI [of _ B]) simp_all
    then show ?thesis using run by blast
  next
    case False
    define st2 where "st2 = st1\<lparr>delta_map := [?k \<mapsto> map (keyof E) ms]\<rparr>"
    have i: "sf_ok E S (odb st1) L B" "length (ocall_container st1) \<le> MAX_CONTAINER_SIZE" "ht_inv (offline_htable st1)" "ht_items (offline_htable st1) = {}"
      using ms(5) by (simp_all add: pass_inv_def)
    have p2: "pass_inv E t S R H L B st2" using i by (intro pass_inv_cong [OF ms(5)]) (simp_all add: st2_def)
    have t2: "tracked E S B (odb st2) (D - {mo})" "off_times st2 = off_times st" using ms(6,8) by (simp_all add: st2_def)
    have nD: "mo \<notin> D - {mo}" and sub: "set ms \<subseteq> S" and bound: "off_times st2 + length ms \<le> INT_MAX"
      using ms(3,4) t2(2) assms(8) by auto
    have all: "\<forall>m \<in> set ms. B m = Some mo \<and> L m \<in> recs R \<and> encodes m mn" unfolding ms(3) using p(6) by blast
    obtain flag st3 where l: "foldE (redelta E t (keyof E mn) mo mn) (map (keyof E) ms) (True, st2) = Inr (flag, st3)"
        "redelta_post E t S (D - {mo}) R L B st2 (set ms) mo mn True flag st3"
      using redelta_loop [OF assms(3-5) p(2) nD p(3) ms(2) sub all p(4) p2 t2(1) bound, of True] by blast
    define st' where "st' = st3\<lparr>delta_map := (delta_map st3)(?k := None)\<rparr>"
    have run: "redelta_all E t ?k (keyof E mn) mo mn st = Inr (flag, st')"
      unfolding redelta_all_def ms(1) bindE_simps prod.case Let_def using False e l(1) by (simp add: st2_def st'_def)
    obtain R' H' L' B' where q: "pass_inv E t S R' H' L' B' st3" "tracked E S B' (odb st3) (D - {mo})" "recs R \<subseteq> recs R'"
        "\<forall>y. y \<notin> set ms \<longrightarrow> L' y = L y \<and> B' y = B y" "\<forall>y \<in> set ms. B' y = Some mn \<or> \<not> flag \<and> B' y = Some mo"
        "off_times st3 \<le> off_times st2 + card (set ms)" "kept_move st2 st3" using l(2) unfolding redelta_post_def by blast
    have i3: "sf_ok E S (odb st3) L' B'" "length (ocall_container st3) \<le> MAX_CONTAINER_SIZE" "ht_inv (offline_htable st3)" "ht_items (offline_htable st3) = {}"
      using q(1) by (simp_all add: pass_inv_def)
    have p': "pass_inv E t S R' H' L' B' st'" using i3 by (intro pass_inv_cong [OF q(1)]) (simp_all add: st'_def)
    have "delta_map st3 = [?k \<mapsto> map (keyof E) ms]" using q(7) by (simp add: kept_move_def st2_def)
    then have "delta_map st' = Map.empty" by (simp add: st'_def)
    then have "kept_move st st'" using q(7) ms(7) assms(7) by (simp add: kept_move_def st'_def st2_def)
    then have "redelta_post E t S (D - {mo}) R L B st (deltas_of S B mo) mo mn True flag st'"
      unfolding redelta_post_def ms(3) [symmetric] using p' q t2(2)
      by (intro conjI exI [of _ R'] exI [of _ H'] exI [of _ L'] exI [of _ B']) (simp_all add: st'_def)
    then show ?thesis using run by blast
  qed
qed


section \<open>Features\<close>

lemma update_sf_db:
  "odb (update_sf j r st) = InsertSF (superfeature r) (o_chunkHash (oentry st)) (if j = 0 then 2 else 1) (odb st)"
  by (simp add: update_sf_def Ocall_OFFline_updateIndex_def)

lemma update_sf_same [simp]:
  "odisk (update_sf j r st) = odisk st" "hot_container (update_sf j r st) = hot_container st" "off_times (update_sf j r st) = off_times st"
  "cold (update_sf j r st) = cold st" "ocall_container (update_sf j r st) = ocall_container st" "offline_htable (update_sf j r st) = offline_htable st"
  "pairs (update_sf j r st) = pairs st" "delta_map (update_sf j r st) = delta_map st" "o_container (oentry (update_sf j r st)) = o_container (oentry st)"
  "o_chunkHash (oentry (update_sf j r st)) = o_chunkHash (oentry st)" "o_offlineFlag (oentry (update_sf j r st)) = o_offlineFlag (oentry st)"
  "ostats (update_sf j r st) = ostats st"
  by (simp_all add: update_sf_def Ocall_OFFline_updateIndex_def)

lemma InsertSF_same [simp]:
  "indexObj (InsertSF k b f db) = indexObj db" "delta_index (InsertSF k b f db) = delta_index db"
  "local_tmp_map (InsertSF k b f db) = local_tmp_map db" "skipMap (InsertSF k b f db) = skipMap db"
  by (simp_all add: InsertSF_def)

text \<open>Erasing the features of a chunk leaves it nowhere in the feature index.\<close>

lemma erase_sf:
  assumes "sf_ok E S db L B" "inj_on (keyof E) S" "mo \<in> S" "key = superfeature (cr_addr (L mo))"
  shows "sf_ok E S (InsertSF key b 2 db) L B" "\<not> in_sf (InsertSF key b 2 db) (keyof E mo)"
    "in_sf (InsertSF key b 2 db) v \<Longrightarrow> in_sf db v"
proof -
  let ?db = "InsertSF key b 2 db"
  have sub: "sfObj db i k = Some vs \<and> k \<noteq> seg (i * CHUNK_HASH_SIZE) CHUNK_HASH_SIZE key" if "i < 3" "sfObj ?db i k = Some vs" for i k vs
    using that by (auto simp: InsertSF_sfObj insert_sf1_def split: if_splits)
  show "sf_ok E S ?db L B" using assms(1) InsertSF_wf sub unfolding sf_ok_def by metis
  show "in_sf db v" if "in_sf ?db v" using that sub unfolding in_sf_def by metis
  show "\<not> in_sf ?db (keyof E mo)"
  proof
    assume "in_sf ?db (keyof E mo)"
    then obtain i k vs where i: "i < 3" "sfObj ?db i k = Some vs" "keyof E mo \<in> set vs" by (auto simp: in_sf_def)
    then obtain y where "y \<in> S" "keyof E mo = keyof E y" "k = seg (i * CHUNK_HASH_SIZE) CHUNK_HASH_SIZE (superfeature (cr_addr (L y)))"
      using assms(1) sub [OF i(1,2)] unfolding sf_ok_def by metis
    moreover from this have "mo = y" using inj_onD [OF assms(2)] assms(3) by blast
    ultimately show False using sub [OF i(1,2)] assms(4) by simp
  qed
qed

lemma replace_sf:
  assumes "sf_ok E S db L B" "mn \<in> S" "B mn = None" "key = superfeature (cr_addr (L mn))" "length (keyof E mn) = CHUNK_HASH_SIZE"
  shows "sf_ok E S (InsertSF key (keyof E mn) 1 db) L B"
    "in_sf (InsertSF key (keyof E mn) 1 db) v \<Longrightarrow> in_sf db v \<or> v = keyof E mn"
proof -
  let ?db = "InsertSF key (keyof E mn) 1 db"
  have sub: "sfObj db i k = Some vs \<or> k = seg (i * CHUNK_HASH_SIZE) CHUNK_HASH_SIZE key \<and> vs = [keyof E mn]" if "i < 3" "sfObj ?db i k = Some vs" for i k vs
    using that assms(5) by (auto simp: InsertSF_sfObj insert_sf1_def push_back_def split: if_splits)
  show "sf_ok E S ?db L B"
    unfolding sf_ok_def
  proof (intro conjI allI impI ballI)
    show "sf_wf ?db" using assms(1) InsertSF_wf by (simp add: sf_ok_def)
    fix i k vs v assume i: "i < 3" "sfObj ?db i k = Some vs" "v \<in> set vs"
    show "\<exists>m \<in> S. v = keyof E m \<and> B m = None \<and> k = seg (i * CHUNK_HASH_SIZE) CHUNK_HASH_SIZE (superfeature (cr_addr (L m)))"
      using sub [OF i(1,2)] i assms(1-4) unfolding sf_ok_def by (metis empty_iff empty_set set_ConsD)
  qed
  show "in_sf db v \<or> v = keyof E mn" if "in_sf ?db v" using that sub unfolding in_sf_def by (metis empty_iff empty_set set_ConsD)
qed

text \<open>The two updates on the state.\<close>

lemma update_sf_old:
  assumes "pass_inv E t S R H L B st" "tracked E S B (odb st) D" "inj_on (keyof E) S" "mo \<in> S"
  shows "pass_inv E t S R H L B (update_sf 0 (cr_addr (L mo)) st)" "tracked E S B (odb (update_sf 0 (cr_addr (L mo)) st)) D"
    "\<not> in_sf (odb (update_sf 0 (cr_addr (L mo)) st)) (keyof E mo)"
    "in_sf (odb (update_sf 0 (cr_addr (L mo)) st)) v \<Longrightarrow> in_sf (odb st) v"
proof -
  have i: "sf_ok E S (odb st) L B" "length (ocall_container st) \<le> MAX_CONTAINER_SIZE" "ht_inv (offline_htable st)" "ht_items (offline_htable st) = {}"
    using assms(1) by (simp_all add: pass_inv_def)
  note e = erase_sf [OF i(1) assms(3,4) refl, of "o_chunkHash (oentry st)"]
  show "pass_inv E t S R H L B (update_sf 0 (cr_addr (L mo)) st)"
    using i e(1) by (intro pass_inv_cong [OF assms(1)]) (simp_all add: update_sf_db)
  show "tracked E S B (odb (update_sf 0 (cr_addr (L mo)) st)) D"
    using assms(2) by (simp add: tracked_def deps_ok_def delta_list_def update_sf_db)
  show "\<not> in_sf (odb (update_sf 0 (cr_addr (L mo)) st)) (keyof E mo)" "in_sf (odb (update_sf 0 (cr_addr (L mo)) st)) v \<Longrightarrow> in_sf (odb st) v"
    using e(2,3) by (simp_all add: update_sf_db)
qed

lemma update_sf_new:
  assumes "pass_inv E t S R H L B st" "tracked E S B (odb st) D" "evp_ok (ssl E)" "mn \<in> S" "B mn = None" "o_chunkHash (oentry st) = keyof E mn"
  shows "pass_inv E t S R H L B (update_sf 1 (cr_addr (L mn)) st)" "tracked E S B (odb (update_sf 1 (cr_addr (L mn)) st)) D"
    "in_sf (odb (update_sf 1 (cr_addr (L mn)) st)) v \<Longrightarrow> in_sf (odb st) v \<or> v = keyof E mn"
proof -
  have i: "sf_ok E S (odb st) L B" "length (ocall_container st) \<le> MAX_CONTAINER_SIZE" "ht_inv (offline_htable st)" "ht_items (offline_htable st) = {}"
    using assms(1) by (simp_all add: pass_inv_def)
  note e = replace_sf [OF i(1) assms(4,5) refl length_keyof [OF assms(3)]]
  show "pass_inv E t S R H L B (update_sf 1 (cr_addr (L mn)) st)"
    using i e(1) assms(6) by (intro pass_inv_cong [OF assms(1)]) (simp_all add: update_sf_db)
  show "tracked E S B (odb (update_sf 1 (cr_addr (L mn)) st)) D"
    using assms(2) by (simp add: tracked_def deps_ok_def delta_list_def update_sf_db)
  show "in_sf (odb (update_sf 1 (cr_addr (L mn)) st)) v \<Longrightarrow> in_sf (odb st) v \<or> v = keyof E mn"
    using e(2) assms(6) by (simp add: update_sf_db)
qed

end
