(* ===== verification/OfflineBase.thy ===== *)
theory OfflineBase
  imports OfflinePair
begin

text \<open>
  The old base itself: \<open>replace_base\<close> keeps every chunk restorable, whether the old base becomes a
  delta, stays because a delta did not pay off, or is skipped.
\<close>

section \<open>Base containers\<close>

lemma one_container_found:
  assumes "odisk st (base_path t n) = Some f" "length f \<le> MAX_CONTAINER_SIZE" "length (ocall_container st) \<le> MAX_CONTAINER_SIZE"
    "length n = CONTAINER_ID_LENGTH"
  shows "\<exists>rest e. Ocall_OneContainer t (set_addr_name n st) = Inr (st\<lparr>ocall_container := f @ rest, oentry := e\<rparr>) \<and> o_container e = f @ rest \<and>
    o_offlineFlag e = 1 \<and> o_chunkHash e = o_chunkHash (oentry st) \<and> length (f @ rest) \<le> MAX_CONTAINER_SIZE"
proof -
  obtain rest where r: "memcpyE MAX_CONTAINER_SIZE (ocall_container st) 0 f = Inr (f @ rest)" "length (f @ rest) \<le> MAX_CONTAINER_SIZE"
    using memcpy_file [OF assms(2,3)] by blast
  let ?s = "set_addr_name n st"
  let ?e = "(oentry ?s)\<lparr>o_container := f @ rest, o_offlineFlag := 1\<rparr>"
  have "Ocall_OneContainer t ?s = Inr (?s\<lparr>ocall_container := f @ rest, oentry := ?e\<rparr>)"
    using assms(1,4) r(1) by (simp add: Ocall_OneContainer_def) (simp add: set_addr_name_def)
  also have "?s\<lparr>ocall_container := f @ rest, oentry := ?e\<rparr> = st\<lparr>ocall_container := f @ rest, oentry := ?e\<rparr>" by (simp add: set_addr_name_def)
  finally show ?thesis using r(2) by (intro exI [of _ rest] exI [of _ ?e]) (simp add: set_addr_name_def)
qed

lemma one_container_missing:
  assumes "odisk st (base_path t n) = None" "length n = CONTAINER_ID_LENGTH"
  shows "\<exists>e. Ocall_OneContainer t (set_addr_name n st) = Inr (st\<lparr>oentry := e\<rparr>) \<and> o_offlineFlag e = 0"
proof -
  let ?e = "(oentry (set_addr_name n st))\<lparr>o_offlineFlag := 0\<rparr>"
  have "Ocall_OneContainer t (set_addr_name n st) = Inr (st\<lparr>oentry := ?e\<rparr>)"
    using assms by (simp add: Ocall_OneContainer_def) (simp add: set_addr_name_def)
  then show ?thesis by (intro exI [of _ ?e]) simp
qed

text \<open>Base chunks are in base containers, deltas are not.\<close>

lemma base_rec:
  assumes "pass_inv E t S R H L B st" "m \<in> S" "B m = None"
  shows "L m \<in> recs R" "deltaFlag (cr_addr (L m)) = delta_code NO_DELTA" "opens E (L m) (plain_for E m)" "cr_key (L m) = keyof E m"
proof -
  have p: "placed E S (odb st) (recs R \<union> set H) L B" "\<forall>r \<in> set H. deltaFlag (cr_addr r) = delta_code DELTA"
    using assms(1) by (simp_all add: pass_inv_def hot_inv_def Let_def)
  show f: "deltaFlag (cr_addr (L m)) = delta_code NO_DELTA" "opens E (L m) (plain_for E m)" "cr_key (L m) = keyof E m"
    using placedD(3) [OF p(1) assms(2)] assms(3) by (simp_all add: holds_def)
  show "L m \<in> recs R" using placedD(1) [OF p(1) assms(2)] p(2) f(1) by auto
qed

lemma delta_rec_missing:
  assumes "pass_inv E t S R H L B st" "m \<in> S" "B m = Some mb"
  shows "odisk st (base_path t (containerName (cr_addr (L m)))) = None" "length (containerName (cr_addr (L m))) = CONTAINER_ID_LENGTH"
proof -
  let ?n = "containerName (cr_addr (L m))"
  have p: "placed E S (odb st) (recs R \<union> set H) L B" "arch t (odisk st) R" "laid (containerID (hot_container st)) 0 H" "no_file t (odisk st) (containerID (hot_container st))"
    using assms(1) by (simp_all add: pass_inv_def hot_inv_def Let_def)
  have d: "deltaFlag (cr_addr (L m)) = delta_code DELTA" using placedD(3) [OF p(1) assms(2)] assms(3) by (simp add: holds_def)
  have "odisk st (base_path t ?n) = None \<and> length ?n = CONTAINER_ID_LENGTH"
  proof (cases "L m \<in> recs R")
    case True
    then show ?thesis using arch_file(2) [OF p(2) True d] arch_rec(2) [OF p(2) True] by (simp add: crec_ok_def entry_wf_def)
  next
    case False
    then have "L m \<in> set H" using placedD(1) [OF p(1) assms(2)] by simp
    then have "crec_ok (containerID (hot_container st)) (L m)" using laid_crec_ok [OF p(3)] by blast
    then show ?thesis using p(4) by (auto simp: crec_ok_def entry_wf_def no_file_def)
  qed
  then show "odisk st (base_path t ?n) = None" "length ?n = CONTAINER_ID_LENGTH" by simp_all
qed

text \<open>Loading a base chunk.\<close>

lemma load_base:
  assumes "pass_inv E t S R H L B st" "evp_ok (ssl E)" "store_clear E S" "lz4_ok E" "m \<in> S" "B m = None"
  shows "\<exists>st1 st2 iv. load_recipe E (keyof E m) st = Inr (cr_addr (L m), st1) \<and> Ocall_OneContainer t (set_addr_name (containerName (cr_addr (L m))) st1) = Inr st2 \<and>
    o_offlineFlag (oentry st2) \<noteq> 0 \<and> o_chunkHash (oentry st2) = keyof E m \<and> pass_inv E t S R H L B st2 \<and>
    (\<exists>p. open_chunk E (o_container (oentry st2)) (cr_addr (L m)) = Inr (p, iv) \<and> unlz_off E p = m) \<and> length iv = CRYPTO_BLOCK_SIZE \<and>
    odb st1 = odb st \<and> odb st2 = odb st \<and> off_times st2 = off_times st \<and> delta_map st2 = delta_map st \<and> ostats st2 = ostats st"
proof -
  let ?r = "L m"
  let ?a = "cr_addr ?r"
  have inv: "arch t (odisk st) R" "placed E S (odb st) (recs R \<union> set H) L B" "length (ocall_container st) \<le> MAX_CONTAINER_SIZE"
      "ht_inv (offline_htable st)" "ht_items (offline_htable st) = {}" using assms(1) by (simp_all add: pass_inv_def)
  note b = base_rec [OF assms(1,5,6)]
  have ok: "crec_ok (containerName ?a) ?r" "?r \<in> set (R (containerName ?a))" using arch_rec [OF inv(1) b(1)] by simp_all
  have lay: "laid (containerName ?a) 0 (R (containerName ?a))" "length (rimage (R (containerName ?a))) \<le> MAX_CONTAINER_SIZE"
    using inv(1) by (simp_all add: arch_def arch1_def)
  have cl: "chunk_ok m" "unlz_off E (plain_for E m) = m" using assms(3,5) by (simp_all add: store_clear_def)
  have ml: "length (cr_data ?r) \<le> MAX_CHUNK_SIZE" using b(3) length_plain_for [OF assms(4), of m] cl(1) by (simp add: opens_def chunk_ok_def)
  have nl: "length (containerName ?a) = CONTAINER_ID_LENGTH" "length (cr_iv ?r) = CRYPTO_BLOCK_SIZE" using ok(1) by (simp_all add: crec_ok_def entry_wf_def meta_ok_def)
  obtain e where e: "load_recipe E (keyof E m) st = Inr (?a, st\<lparr>oentry := e\<rparr>)" "o_chunkHash e = keyof E m"
    using load_recipe_ok [OF placedD(2) [OF inv(2) assms(5)]] length_keyof [OF assms(2)] by blast
  obtain rest e' where c: "Ocall_OneContainer t (set_addr_name (containerName ?a) (st\<lparr>oentry := e\<rparr>)) =
      Inr (st\<lparr>oentry := e, ocall_container := rimage (R (containerName ?a)) @ rest, oentry := e'\<rparr>)" "o_container e' = rimage (R (containerName ?a)) @ rest"
      "o_offlineFlag e' = 1" "o_chunkHash e' = keyof E m" "length (rimage (R (containerName ?a)) @ rest) \<le> MAX_CONTAINER_SIZE"
    using one_container_found [of "st\<lparr>oentry := e\<rparr>" t "containerName ?a", OF _ lay(2) _ nl(1)] arch_file(1) [OF inv(1) b(1,2)] inv(3) e(2) by auto
  define st2 where "st2 = st\<lparr>oentry := e, ocall_container := rimage (R (containerName ?a)) @ rest, oentry := e'\<rparr>"
  have run: "Ocall_OneContainer t (set_addr_name (containerName ?a) (st\<lparr>oentry := e\<rparr>)) = Inr st2" using c(1) by (simp only: st2_def)
  have f: "oentry st2 = e'" "odb st2 = odb st" "off_times st2 = off_times st" "delta_map st2 = delta_map st" "ostats st2 = ostats st"
    by (simp_all add: st2_def)
  have o: "open_chunk E (o_container (oentry st2)) ?a = Inr (plain_for E m, cr_iv ?r)"
    using record_fields(3) [OF lay(1) ok(2) ml b(3)] c(2) f(1) by simp
  have p2: "pass_inv E t S R H L B st2" using inv(4,5) c(5) by (intro pass_inv_same [OF assms(1)]) (simp_all add: st2_def)
  show ?thesis
    using run f o p2 e(1) c(3,4) cl(2) nl(2) by (intro exI [of _ "st\<lparr>oentry := e\<rparr>"] exI [of _ st2] exI [of _ "cr_iv ?r"]) simp
qed

section \<open>The old base\<close>

definition pair_post ::
  "enclave \<Rightarrow> string \<Rightarrow> bytes set \<Rightarrow> bytes set \<Rightarrow> (container_name \<Rightarrow> crec list) \<Rightarrow> (bytes \<Rightarrow> crec) \<Rightarrow> (bytes \<Rightarrow> bytes option) \<Rightarrow> off_st \<Rightarrow>
    bytes \<Rightarrow> bytes \<Rightarrow> off_st \<Rightarrow> bool" where
  "pair_post E t S D R L B st mo mn st' \<longleftrightarrow>
    (\<exists>R' H' L' B'. pass_inv E t S R' H' L' B' st' \<and> tracked E S B' (odb st') (D - {mo}) \<and> recs R \<subseteq> recs R' \<and>
      (\<forall>y. (B y = None \<longrightarrow> y \<noteq> mo) \<and> (y \<in> S \<longrightarrow> B y \<noteq> Some mo) \<longrightarrow> L' y = L y \<and> B' y = B y) \<and> (\<forall>y. B' y = B y \<or> B' y = Some mn)) \<and>
    \<not> in_sf (odb st') (keyof E mo) \<and> (\<forall>v. in_sf (odb st') v \<longrightarrow> in_sf (odb st) v \<or> v = keyof E mn) \<and>
    off_times st' \<le> off_times st + Suc (card (deltas_of S B mo)) \<and> delta_map st' = delta_map st"

lemma in_sf_cong: "sfObj db' = sfObj db \<Longrightarrow> in_sf db' = in_sf db"
  by (intro ext) (simp add: in_sf_def)

lemma delta_old_base_ok:
  assumes "pass_inv E t S R H L B st" "tracked E S B (odb st) D" "evp_ok (ssl E)" "inj_on (keyof E) S" "store_clear E S"
    "mo \<in> S" "mn \<in> S" "mo \<noteq> mn" "B mo = None" "B mn = None" "encodes mo mn" "\<not> in_sf (odb st) (keyof E mo)" "length iv = CRYPTO_BLOCK_SIZE"
    "flag \<Longrightarrow> \<forall>y \<in> S. B y \<noteq> Some mo" "off_times st < INT_MAX"
  shows "\<exists>st' R' H' L' B'. delta_old_base E t (keyof E mo) (keyof E mn) (cr_addr (L mo)) iv mo mn (flag, st) = Inr st' \<and>
    pass_inv E t S R' H' L' B' st' \<and> tracked E S B' (odb st') D \<and> recs R \<subseteq> recs R' \<and> (\<forall>y. y \<noteq> mo \<longrightarrow> L' y = L y \<and> B' y = B y) \<and>
    (B' mo = None \<or> B' mo = Some mn) \<and> off_times st' \<le> Suc (off_times st) \<and> kept_move st st'"
proof -
  have h: "ht_inv (offline_htable st)" "ht_items (offline_htable st) = {}" "length (ocall_container st) \<le> MAX_CONTAINER_SIZE" "arch t (odisk st) R"
    using assms(1) by (simp_all add: pass_inv_def)
  have cl: "chunk_ok mo" "length mn \<le> MAX_CHUNK_SIZE" "base_text E mn = mn" using assms(5-7) by (auto simp: store_clear_def chunk_ok_def)
  obtain d ht b where d: "ed3_encode_buffer mo mn st = Inr (d, st\<lparr>offline_htable := ht, newDeltaBuffer := b\<rparr>)" "length d \<le> MAX_CHUNK_SIZE"
      "EDeltaDecode d (length d) mn = Inr mo" "ht_inv ht" "ht_items ht = {}" using encode_ok [OF cl(1,2) assms(11) h(1,2)] by blast
  have same: "pass_inv E t S R H L B (st\<lparr>offline_htable := ht, newDeltaBuffer := b, ostats := s\<rparr>)" for s
    using h d(4,5) by (intro pass_inv_same [OF assms(1)]) simp_all
  have stay: ?thesis if "delta_old_base E t (keyof E mo) (keyof E mn) (cr_addr (L mo)) iv mo mn (flag, st) =
      Inr (st\<lparr>offline_htable := ht, newDeltaBuffer := b, ostats := s\<rparr>)" for s
    using that same [of s] assms(2,9)
    by (intro exI [of _ "st\<lparr>offline_htable := ht, newDeltaBuffer := b, ostats := s\<rparr>"] exI [of _ R] exI [of _ H] exI [of _ L] exI [of _ B])
      (simp add: kept_move_def)
  show ?thesis
  proof (cases "length mo < length d")
    case True
    then show ?thesis using d(1) by (intro stay [of "ostats st"]) (simp add: delta_old_base_def)
  next
    case False
    define st2 where "st2 = st\<lparr>offline_htable := ht, newDeltaBuffer := b,
      ostats := count_replaced (unat (addr_length (cr_addr (L mo)))) (length mo) (length d) (ostats st)\<rparr>"
    show ?thesis
    proof (cases flag)
      case False
      then show ?thesis using d(1) \<open>\<not> length mo < length d\<close>
        by (intro stay [of "count_replaced (unat (addr_length (cr_addr (L mo)))) (length mo) (length d) (ostats st)"]) (simp add: delta_old_base_def Let_def)
    next
      case True
      have p2: "pass_inv E t S R H L B st2" using same by (simp add: st2_def)
      note r = base_rec(1) [OF assms(1,6,9)]
      have sf: "length (superfeature (cr_addr (L mo))) = 3 * CHUNK_HASH_SIZE" using arch_rec(2) [OF h(4) r] by (simp add: crec_ok_def entry_wf_def)
      have "\<not> in_sf (odb st2) (keyof E mo)" "off_times st2 < INT_MAX" using assms(12,15) by (simp_all add: st2_def)
      moreover have "EDeltaDecode d (length d) (base_text E mn) = Inr mo" "length d \<le> length mo" "mn \<noteq> mo" using d(3) cl(3) False assms(8) by simp_all
      ultimately obtain st' R' H' x where st': "move_to_hot E t (keyof E mn) (keyof E mo) d (cr_addr (L mo)) (keyof E mo) (superfeature (cr_addr (L mo))) iv st2 = Inr st'"
          "pass_inv E t S R' H' (L(mo := x)) (B(mo := Some mn)) st'" "recs R \<subseteq> recs R'" "off_times st' \<le> Suc (off_times st2)" "kept_move st2 st'"
          "delta_index (odb st') = push_back (keyof E mn) (keyof E mo) (delta_index (odb st2))"
        using move_to_hot_ok [OF p2 assms(3,4,6,7) r assms(10) _ assms(14) [OF True] _ d(2) _ _ _ sf assms(13)] by blast
      have "tracked E S (B(mo := Some mn)) (odb st') D"
        using assms(2,9) st'(6) by (intro tracked_move [OF assms(2,4,6,7)]) (simp_all add: st2_def)
      moreover have "delta_old_base E t (keyof E mo) (keyof E mn) (cr_addr (L mo)) iv mo mn (flag, st) = Inr st'"
        using d(1) False True st'(1) by (simp add: delta_old_base_def Let_def st2_def)
      moreover have "kept_move st st'" "off_times st' \<le> Suc (off_times st)" using st'(4,5) by (simp_all add: kept_move_def st2_def)
      ultimately show ?thesis
        using st'(2,3) by (intro exI [of _ st'] exI [of _ R'] exI [of _ H'] exI [of _ "L(mo := x)"] exI [of _ "B(mo := Some mn)"]) simp
    qed
  qed
qed

section \<open>One pair\<close>

lemma tracked_mono: "tracked E S B db D \<Longrightarrow> D' \<subseteq> D \<Longrightarrow> tracked E S B db D'"
  by (auto simp: tracked_def)

lemma in_sf_base: "sf_ok E S db L B \<Longrightarrow> in_sf db v \<Longrightarrow> \<exists>m \<in> S. v = keyof E m \<and> B m = None"
  unfolding sf_ok_def in_sf_def by metis

lemma not_in_sf:
  assumes "sf_ok E S db L B" "inj_on (keyof E) S" "mo \<in> S" "B mo \<noteq> None"
  shows "\<not> in_sf db (keyof E mo)"
proof
  assume "in_sf db (keyof E mo)"
  then obtain m where "m \<in> S" "keyof E mo = keyof E m" "B m = None" using in_sf_base [OF assms(1)] by blast
  with inj_onD [OF assms(2)] assms(3,4) show False by metis
qed

text \<open>An old base that is a delta by now has no base container: the pair is skipped.\<close>

lemma replace_base_skip:
  assumes "pass_inv E t S R H L B st" "tracked E S B (odb st) D" "evp_ok (ssl E)" "inj_on (keyof E) S" "mo \<in> S" "B mo = Some mb"
  shows "\<exists>st'. replace_base E t (keyof E mo) k st = Inr st' \<and> pair_post E t S D R L B st mo mn st'"
proof -
  have inv: "placed E S (odb st) (recs R \<union> set H) L B" "length (ocall_container st) \<le> MAX_CONTAINER_SIZE" "sf_ok E S (odb st) L B"
      "ht_inv (offline_htable st)" "ht_items (offline_htable st) = {}" using assms(1) by (simp_all add: pass_inv_def)
  note mis = delta_rec_missing [OF assms(1,5,6)]
  obtain e where e: "load_recipe E (keyof E mo) st = Inr (cr_addr (L mo), st\<lparr>oentry := e\<rparr>)"
    using load_recipe_ok [OF placedD(2) [OF inv(1) assms(5)]] length_keyof [OF assms(3)] by blast
  obtain e' where c: "Ocall_OneContainer t (set_addr_name (containerName (cr_addr (L mo))) (st\<lparr>oentry := e\<rparr>)) = Inr (st\<lparr>oentry := e, oentry := e'\<rparr>)"
      "o_offlineFlag e' = 0"
    using one_container_missing [of "st\<lparr>oentry := e\<rparr>" t "containerName (cr_addr (L mo))", OF _ mis(2)] mis(1) by auto
  define st' where "st' = st\<lparr>oentry := e'\<rparr>"
  have run: "replace_base E t (keyof E mo) k st = Inr st'" using e c by (simp add: replace_base_def st'_def)
  have "pass_inv E t S R H L B st'" using inv by (intro pass_inv_same [OF assms(1)]) (simp_all add: st'_def)
  moreover have "tracked E S B (odb st') (D - {mo})" using tracked_mono [OF assms(2)] by (simp add: st'_def)
  moreover have "\<not> in_sf (odb st') (keyof E mo)" using not_in_sf [OF inv(3) assms(4,5)] assms(6) by (simp add: st'_def)
  ultimately have "pair_post E t S D R L B st mo mn st'"
    unfolding pair_post_def by (intro conjI exI [of _ R] exI [of _ H] exI [of _ L] exI [of _ B]) (simp_all add: st'_def)
  then show ?thesis using run by blast
qed

text \<open>What the work on the deltas and on the old base itself adds up to.\<close>

lemma pair_post_join:
  assumes "redelta_post E t S (D - {mo}) R L B s5 (deltas_of S B mo) mo mn True flag s6" "delta_map s5 = delta_map st" "off_times s5 = off_times st"
    "\<not> in_sf (odb s5) (keyof E mo)" "\<And>v. in_sf (odb s5) v \<Longrightarrow> in_sf (odb st) v \<or> v = keyof E mn" "B mo = None" "B mn = None" "mo \<noteq> mn"
    "mo \<in> S" "mn \<in> S" "evp_ok (ssl E)" "inj_on (keyof E) S" "store_clear E S" "encodes mo mn" "length iv = CRYPTO_BLOCK_SIZE"
    "off_times st + card (deltas_of S B mo) < INT_MAX"
  shows "\<exists>st'. delta_old_base E t (keyof E mo) (keyof E mn) (cr_addr (L mo)) iv mo mn (flag, s6) = Inr st' \<and> pair_post E t S D R L B st mo mn st'"
proof -
  obtain R6 H6 L6 B6 where q: "pass_inv E t S R6 H6 L6 B6 s6" "tracked E S B6 (odb s6) (D - {mo})" "recs R \<subseteq> recs R6"
      "\<forall>y. y \<notin> deltas_of S B mo \<longrightarrow> L6 y = L y \<and> B6 y = B y" "\<forall>y \<in> deltas_of S B mo. B6 y = Some mn \<or> \<not> flag \<and> B6 y = Some mo"
      "off_times s6 \<le> off_times s5 + card (deltas_of S B mo)" "kept_move s5 s6" using assms(1) unfolding redelta_post_def by blast
  have b: "B6 mo = None" "B6 mn = None" "L6 mo = L mo" using q(4) assms(6,7) by auto
  have sf6: "in_sf (odb s6) = in_sf (odb s5)" using q(7) by (intro in_sf_cong) (simp add: kept_move_def)
  have fl: "\<forall>y \<in> S. B6 y \<noteq> Some mo" if flag
  proof
    fix y assume y: "y \<in> S"
    show "B6 y \<noteq> Some mo" using q(4,5) that assms(8) y by (cases "B y = Some mo") auto
  qed
  have "\<not> in_sf (odb s6) (keyof E mo)" "off_times s6 < INT_MAX" using sf6 assms(3,4,16) q(6) by simp_all
  then obtain st' R' H' L' B' where r: "delta_old_base E t (keyof E mo) (keyof E mn) (cr_addr (L mo)) iv mo mn (flag, s6) = Inr st'"
      "pass_inv E t S R' H' L' B' st'" "tracked E S B' (odb st') (D - {mo})" "recs R6 \<subseteq> recs R'" "\<forall>y. y \<noteq> mo \<longrightarrow> L' y = L6 y \<and> B' y = B6 y"
      "B' mo = None \<or> B' mo = Some mn" "off_times st' \<le> Suc (off_times s6)" "kept_move s6 st'"
    using delta_old_base_ok [OF q(1,2) assms(11-13,9,10,8) b(1,2) assms(14) _ assms(15) fl] unfolding b(3) by blast
  have sf': "in_sf (odb st') = in_sf (odb s5)" using r(8) sf6 in_sf_cong [of "odb st'" "odb s6"] by (simp add: kept_move_def)
  have same: "\<forall>y. (B y = None \<longrightarrow> y \<noteq> mo) \<and> (y \<in> S \<longrightarrow> B y \<noteq> Some mo) \<longrightarrow> L' y = L y \<and> B' y = B y"
  proof (intro allI impI)
    fix y assume y: "(B y = None \<longrightarrow> y \<noteq> mo) \<and> (y \<in> S \<longrightarrow> B y \<noteq> Some mo)"
    then have "y \<noteq> mo" "y \<notin> deltas_of S B mo" using assms(6) by auto
    from this(2) have "L6 y = L y \<and> B6 y = B y" using q(4) by blast
    then show "L' y = L y \<and> B' y = B y" using r(5) \<open>y \<noteq> mo\<close> by simp
  qed
  have either: "B' y = B y \<or> B' y = Some mn" for y
    using r(5,6) q(4,5) assms(6) by (cases "y = mo"; cases "y \<in> deltas_of S B mo") auto
  have "pair_post E t S D R L B st mo mn st'"
    unfolding pair_post_def
  proof (intro conjI exI [of _ R'] exI [of _ H'] exI [of _ L'] exI [of _ B'])
    show "pass_inv E t S R' H' L' B' st'" "tracked E S B' (odb st') (D - {mo})" using r(2,3) .
    show "recs R \<subseteq> recs R'" using q(3) r(4) by (rule subset_trans)
    show "\<forall>y. (B y = None \<longrightarrow> y \<noteq> mo) \<and> (y \<in> S \<longrightarrow> B y \<noteq> Some mo) \<longrightarrow> L' y = L y \<and> B' y = B y" by (rule same)
    show "\<forall>y. B' y = B y \<or> B' y = Some mn" using either by blast
    show "\<not> in_sf (odb st') (keyof E mo)" "\<forall>v. in_sf (odb st') v \<longrightarrow> in_sf (odb st) v \<or> v = keyof E mn" using sf' assms(4,5) by auto
    show "off_times st' \<le> off_times st + Suc (card (deltas_of S B mo))" using r(7) q(6) assms(3) by simp
    show "delta_map st' = delta_map st" using r(8) q(7) assms(2) by (simp add: kept_move_def)
  qed
  then show ?thesis using r(1) by blast
qed

lemma replace_base_ok:
  assumes "pass_inv E t S R H L B st" "tracked E S B (odb st) D" "evp_ok (ssl E)" "lz4_ok E" "inj_on (keyof E) S" "store_clear E S"
    "pair_ok E S R L B D (mo, mn)" "delta_map st = Map.empty" "off_times st + card (deltas_of S B mo) < INT_MAX"
  shows "\<exists>st'. replace_base E t (keyof E mo) (keyof E mn) st = Inr st' \<and> pair_post E t S D R L B st mo mn st'"
proof (cases "B mo")
  case (Some mb)
  have "mo \<in> S" using assms(7) by (simp add: pair_ok_def)
  from replace_base_skip [OF assms(1,2,3,5) this Some] show ?thesis .
next
  case None
  have p: "mo \<in> S" "mn \<in> S" "mo \<noteq> mn" "B mn = None" "encodes mo mn" using assms(7) by (simp_all add: pair_ok_def)
  let ?ro = "cr_addr (L mo)" and ?rn = "cr_addr (L mn)"
  obtain st1 st2 iv po where o: "load_recipe E (keyof E mo) st = Inr (?ro, st1)" "Ocall_OneContainer t (set_addr_name (containerName ?ro) st1) = Inr st2"
      "o_offlineFlag (oentry st2) \<noteq> 0" "pass_inv E t S R H L B st2" "open_chunk E (o_container (oentry st2)) ?ro = Inr (po, iv)" "unlz_off E po = mo"
      "length iv = CRYPTO_BLOCK_SIZE" "odb st2 = odb st" "off_times st2 = off_times st" "delta_map st2 = delta_map st"
    using load_base [OF assms(1,3,6,4) p(1) None] by blast
  have t2: "tracked E S B (odb st2) D" using assms(2) o(8) by simp
  note u = update_sf_old [OF o(4) t2 assms(5) p(1)]
  obtain st3 st4 ivn pn where n: "load_recipe E (keyof E mn) (update_sf 0 ?ro st2) = Inr (?rn, st3)"
      "Ocall_OneContainer t (set_addr_name (containerName ?rn) st3) = Inr st4" "o_offlineFlag (oentry st4) \<noteq> 0" "o_chunkHash (oentry st4) = keyof E mn"
      "pass_inv E t S R H L B st4" "open_chunk E (o_container (oentry st4)) ?rn = Inr (pn, ivn)" "unlz_off E pn = mn"
      "odb st4 = odb (update_sf 0 ?ro st2)" "off_times st4 = off_times (update_sf 0 ?ro st2)" "delta_map st4 = delta_map (update_sf 0 ?ro st2)"
    using load_base [OF u(1) assms(3,6,4) p(2,4)] by blast
  define s5 where "s5 = update_sf 1 ?rn st4"
  have t4: "tracked E S B (odb st4) D" using u(2) n(8) by simp
  note v = update_sf_new [OF n(5) t4 assms(3) p(2,4) n(4), folded s5_def]
  have s5: "delta_map s5 = delta_map st" "off_times s5 = off_times st" using n(9,10) o(9,10) by (simp_all add: s5_def)
  have key: "keyof E mo \<noteq> keyof E mn" using inj_onD [OF assms(5) _ p(1,2)] p(3) by blast
  have old: "in_sf (odb s5) x \<Longrightarrow> in_sf (odb st) x \<or> x = keyof E mn" "\<not> in_sf (odb s5) (keyof E mo)" for x
    using v(3) [of x] v(3) [of "keyof E mo"] u(3,4) key unfolding n(8) o(8) by blast+
  obtain flag s6 where r: "redelta_all E t (keyof E mo) (keyof E mn) mo mn s5 = Inr (flag, s6)"
      "redelta_post E t S (D - {mo}) R L B s5 (deltas_of S B mo) mo mn True flag s6"
    using redelta_all_ok [OF v(1,2) assms(3,5,6,7)] assms(8,9) s5 by auto
  obtain st' where d: "delta_old_base E t (keyof E mo) (keyof E mn) ?ro iv mo mn (flag, s6) = Inr st'" "pair_post E t S D R L B st mo mn st'"
    using pair_post_join [OF r(2) s5 old(2) old(1) None p(4,3,1,2) assms(3,5,6) p(5) o(7) assms(9)] by blast
  have "replace_base E t (keyof E mo) (keyof E mn) st = Inr st'"
    unfolding replace_base_def using o n r(1) [unfolded s5_def] d(1) by simp
  then show ?thesis using d(2) by blast
qed

end
