(* ===== verification/OfflineLoop.thy ===== *)
theory OfflineLoop
  imports OfflineBase
begin

text \<open>
  The loop over the pairs of base chunks: batches of at most \<open>Local_Batch\<close> pairs come from outside, and
  after the last one every chunk is still where the index says, and no replaced base is left in
  the feature index.
\<close>

section \<open>Either way of working on a pair\<close>

lemma greedy_pair_ok:
  assumes "pass_inv E t S R H L B st" "tracked E S B (odb st) D" "evp_ok (ssl E)" "inj_on (keyof E) S" "pair_ok E S R L B D (mo, mn)"
  shows "\<exists>st'. greedy_pair E (keyof E mo) (keyof E mn) st = Inr st' \<and> pair_post E t S D R L B st mo mn st'"
proof -
  have p: "mo \<in> D" "mo \<in> S" "mn \<in> S" "mo \<noteq> mn" "B mn = None" "card (deltas_of S B mo) < 100000" using assms(5) by (simp_all add: pair_ok_def)
  have load: "\<exists>e. load_recipe E (keyof E m) s = Inr (cr_addr (L m), s\<lparr>oentry := e\<rparr>) \<and> o_chunkHash e = keyof E m \<and> pass_inv E t S R H L B (s\<lparr>oentry := e\<rparr>)"
    if s: "pass_inv E t S R H L B s" "m \<in> S" for s m
  proof -
    have i: "placed E S (odb s) (recs R \<union> set H) L B" "length (ocall_container s) \<le> MAX_CONTAINER_SIZE" "ht_inv (offline_htable s)" "ht_items (offline_htable s) = {}"
      using s(1) by (simp_all add: pass_inv_def)
    obtain e where e: "load_recipe E (keyof E m) s = Inr (cr_addr (L m), s\<lparr>oentry := e\<rparr>)" "o_chunkHash e = keyof E m"
      using load_recipe_ok [OF placedD(2) [OF i(1) s(2)]] length_keyof [OF assms(3)] by blast
    have "pass_inv E t S R H L B (s\<lparr>oentry := e\<rparr>)" using i by (intro pass_inv_same [OF s(1)]) simp_all
    with e show ?thesis by blast
  qed
  obtain e where e: "load_recipe E (keyof E mo) st = Inr (cr_addr (L mo), st\<lparr>oentry := e\<rparr>)" "pass_inv E t S R H L B (st\<lparr>oentry := e\<rparr>)"
    using load [OF assms(1) p(2)] by blast
  have t1: "tracked E S B (odb (st\<lparr>oentry := e\<rparr>)) D" using assms(2) by simp
  define s1 where "s1 = update_sf 0 (cr_addr (L mo)) (st\<lparr>oentry := e\<rparr>)"
  note u = update_sf_old [OF e(2) t1 assms(4) p(2), folded s1_def]
  obtain e' where f: "load_recipe E (keyof E mn) s1 = Inr (cr_addr (L mn), s1\<lparr>oentry := e'\<rparr>)" "o_chunkHash e' = keyof E mn"
      "pass_inv E t S R H L B (s1\<lparr>oentry := e'\<rparr>)" using load [OF u(1) p(3)] by blast
  have t2: "tracked E S B (odb (s1\<lparr>oentry := e'\<rparr>)) D" "o_chunkHash (oentry (s1\<lparr>oentry := e'\<rparr>)) = keyof E mn" using u(2) f(2) by simp_all
  define s2 where "s2 = update_sf 1 (cr_addr (L mn)) (s1\<lparr>oentry := e'\<rparr>)"
  note v = update_sf_new [OF f(3) t2(1) assms(3) p(3,5) t2(2), folded s2_def]
  obtain ms st' where q: "query_deltas (keyof E mo) s2 = Inr (map (keyof E) ms, st')" "pass_inv E t S R H L B st'" "tracked E S B (odb st') (D - {mo})"
      "kept_move s2 st'" "off_times st' = off_times s2" using ask_deltas [OF v(1,2) p(1) assms(3,4) p(6)] by blast
  have key: "keyof E mo \<noteq> keyof E mn" using inj_onD [OF assms(4) _ p(2,3)] p(4) by blast
  have sf: "in_sf (odb st') = in_sf (odb s2)" using q(4) by (intro in_sf_cong) (simp add: kept_move_def)
  have old: "in_sf (odb s2) x \<Longrightarrow> in_sf (odb st) x \<or> x = keyof E mn" "\<not> in_sf (odb s2) (keyof E mo)" for x
    using v(3) [of x] v(3) [of "keyof E mo"] u(3) u(4) [of x] key by auto
  have kept: "delta_map st' = delta_map st" "off_times st' = off_times st"
    using q(4,5) by (simp_all add: kept_move_def s2_def s1_def)
  have "pair_post E t S D R L B st mo mn st'"
    unfolding pair_post_def using q(2,3) sf old kept by (intro conjI exI [of _ R] exI [of _ H] exI [of _ L] exI [of _ B]) auto
  moreover have "greedy_pair E (keyof E mo) (keyof E mn) st = Inr st'"
    unfolding greedy_pair_def using e(1) f(1) [unfolded s1_def] q(1) [unfolded s2_def s1_def] by simp
  ultimately show ?thesis by blast
qed

abbreviation key_pair :: "enclave \<Rightarrow> bytes \<times> bytes \<Rightarrow> fp \<times> fp" where
  "key_pair E p \<equiv> (keyof E (fst p), keyof E (snd p))"

lemma offline_pair_ok:
  assumes "pass_inv E t S R H L B st" "tracked E S B (odb st) D" "evp_ok (ssl E)" "lz4_ok E" "inj_on (keyof E) S" "store_clear E S"
    "pair_ok E S R L B D p" "delta_map st = Map.empty" "off_times st + card (deltas_of S B (fst p)) < INT_MAX"
  shows "\<exists>st'. offline_pair E t (key_pair E p) st = Inr st' \<and> pair_post E t S D R L B st (fst p) (snd p) st'"
proof (cases "offlineCurrBackup_size (ostats st) = 0")
  case True
  then show ?thesis using greedy_pair_ok [OF assms(1,2,3,5), of "fst p" "snd p"] assms(7) by (simp add: offline_pair_def)
next
  case False
  then show ?thesis using replace_base_ok [OF assms(1-6), of "fst p" "snd p"] assms(7-9) by (simp add: offline_pair_def)
qed

section \<open>All pairs\<close>

abbreviation pair_work :: "bytes set \<Rightarrow> (bytes \<Rightarrow> bytes option) \<Rightarrow> bytes \<times> bytes \<Rightarrow> nat" where
  "pair_work S B p \<equiv> Suc (card (deltas_of S B (fst p)))"

text \<open>Working on one pair leaves the others as they have to be.\<close>

lemma pair_ok_rest:
  assumes "pair_ok E S R L B D p" "fst p \<noteq> mo" "fst p \<noteq> mn" "snd p \<noteq> mo" "finite S" "recs R \<subseteq> recs R'"
    "\<forall>y. (B y = None \<longrightarrow> y \<noteq> mo) \<and> (y \<in> S \<longrightarrow> B y \<noteq> Some mo) \<longrightarrow> L' y = L y \<and> B' y = B y" "\<forall>y. B' y = B y \<or> B' y = Some mn"
  shows "pair_ok E S R' L' B' (D - {mo}) p" "pair_work S B' p \<le> pair_work S B p"
proof -
  obtain a b where p: "p = (a, b)" by fastforce
  have q: "a \<in> D" "a \<in> S" "b \<in> S" "a \<noteq> b" "B b = None" "encodes a b" "card (deltas_of S B a) < 100000" "\<forall>m \<in> deltas_of S B a. L m \<in> recs R \<and> encodes m b"
    using assms(1) by (simp_all add: pair_ok_def p)
  have n: "a \<noteq> mo" "a \<noteq> mn" "b \<noteq> mo" using assms(2-4) by (simp_all add: p)
  have prev: "B m = Some a \<and> L' m = L m" if "m \<in> deltas_of S B' a" for m
  proof -
    have "B m = Some a" using that assms(8) n(2) by (metis (mono_tags, lifting) mem_Collect_eq option.inject)
    then show ?thesis using assms(7) n(1) by simp
  qed
  from prev have sub: "deltas_of S B' a \<subseteq> deltas_of S B a" by auto
  then have le: "card (deltas_of S B' a) \<le> card (deltas_of S B a)" using assms(5) by (intro card_mono) simp_all
  have "B' b = None" using assms(7) q(5) n(3) by simp
  moreover have "\<forall>m \<in> deltas_of S B' a. L' m \<in> recs R' \<and> encodes m b" using q(8) prev sub assms(6) by (metis (no_types, lifting) subsetD)
  ultimately show "pair_ok E S R' L' B' (D - {mo}) p" using q n le by (simp add: pair_ok_def p)
  show "pair_work S B' p \<le> pair_work S B p" using le by (simp add: p)
qed

definition pairs_post ::
  "enclave \<Rightarrow> string \<Rightarrow> bytes set \<Rightarrow> bytes set \<Rightarrow> (bytes \<times> bytes) set \<Rightarrow> off_st \<Rightarrow> off_st \<Rightarrow> bool" where
  "pairs_post E t S D P st st' \<longleftrightarrow> (\<exists>R' H' L' B'. pass_inv E t S R' H' L' B' st' \<and> tracked E S B' (odb st') (D - fst ` P)) \<and>
     (\<forall>p \<in> P. \<not> in_sf (odb st') (keyof E (fst p))) \<and>
     (\<forall>v. in_sf (odb st') v \<longrightarrow> in_sf (odb st) v \<or> v \<in> keyof E ` snd ` P) \<and> delta_map st' = Map.empty"

lemma pairs_loop:
  assumes "evp_ok (ssl E)" "lz4_ok E" "inj_on (keyof E) S" "store_clear E S" "finite S"
  shows "distinct (map fst ps) \<Longrightarrow> fst ` set ps \<inter> snd ` set ps = {} \<Longrightarrow> \<forall>p \<in> set ps. pair_ok E S R L B D p \<Longrightarrow>
    pass_inv E t S R H L B st \<Longrightarrow> tracked E S B (odb st) D \<Longrightarrow> delta_map st = Map.empty \<Longrightarrow>
    off_times st + sum_list (map (pair_work S B) ps) \<le> INT_MAX \<Longrightarrow>
    \<exists>st'. foldE (offline_pair E t) (map (key_pair E) ps) st = Inr st' \<and> pairs_post E t S D (set ps) st st'"
proof (induction ps arbitrary: R H L B D st)
  case Nil
  then have "pairs_post E t S D {} st st"
    unfolding pairs_post_def by (intro conjI exI [of _ R] exI [of _ H] exI [of _ L] exI [of _ B]) simp_all
  then show ?case by simp
next
  case (Cons p ps)
  let ?mo = "fst p" and ?mn = "snd p"
  have p: "pair_ok E S R L B D p" "off_times st + card (deltas_of S B ?mo) < INT_MAX" using Cons.prems(3,7) by simp_all
  obtain st1 where 1: "offline_pair E t (key_pair E p) st = Inr st1" "pair_post E t S D R L B st ?mo ?mn st1"
    using offline_pair_ok [OF Cons.prems(4,5) assms(1-4) p(1) Cons.prems(6) p(2)] by blast
  then obtain R1 H1 L1 B1 where q: "pass_inv E t S R1 H1 L1 B1 st1" "tracked E S B1 (odb st1) (D - {?mo})" "recs R \<subseteq> recs R1"
      "\<forall>y. (B y = None \<longrightarrow> y \<noteq> ?mo) \<and> (y \<in> S \<longrightarrow> B y \<noteq> Some ?mo) \<longrightarrow> L1 y = L y \<and> B1 y = B y" "\<forall>y. B1 y = B y \<or> B1 y = Some ?mn"
      "\<not> in_sf (odb st1) (keyof E ?mo)" "\<forall>v. in_sf (odb st1) v \<longrightarrow> in_sf (odb st) v \<or> v = keyof E ?mn"
      "off_times st1 \<le> off_times st + pair_work S B p" "delta_map st1 = delta_map st" unfolding pair_post_def by blast
  have apart: "fst r \<noteq> ?mo" "fst r \<noteq> ?mn" "snd r \<noteq> ?mo" if "r \<in> set ps" for r
  proof -
    have r: "fst r \<in> fst ` set ps" "snd r \<in> snd ` set ps" using that by simp_all
    have c: "?mo \<notin> fst ` set ps" "fst ` set ps \<inter> snd ` set ps = {}" "?mn \<notin> fst ` set ps" "?mo \<notin> snd ` set ps"
      using Cons.prems(1,2) by auto
    show "fst r \<noteq> ?mo" "fst r \<noteq> ?mn" "snd r \<noteq> ?mo" using r c by metis+
  qed
  have ok: "\<forall>r \<in> set ps. pair_ok E S R1 L1 B1 (D - {?mo}) r"
  proof
    fix r assume r: "r \<in> set ps"
    have "pair_ok E S R L B D r" using Cons.prems(3) r by simp
    from pair_ok_rest(1) [OF this apart [OF r] assms(5) q(3,4,5)] show "pair_ok E S R1 L1 B1 (D - {?mo}) r" .
  qed
  have "sum_list (map (pair_work S B1) ps) \<le> sum_list (map (pair_work S B) ps)"
  proof (rule sum_list_mono)
    fix r assume r: "r \<in> set ps"
    have "pair_ok E S R L B D r" using Cons.prems(3) r by simp
    from pair_ok_rest(2) [OF this apart [OF r] assms(5) q(3,4,5)] show "pair_work S B1 r \<le> pair_work S B r" .
  qed
  then have bound: "off_times st1 + sum_list (map (pair_work S B1) ps) \<le> INT_MAX" using Cons.prems(7) q(8) by simp
  have d: "distinct (map fst ps)" "fst ` set ps \<inter> snd ` set ps = {}" "delta_map st1 = Map.empty" using Cons.prems(1,2,6) q(9) by auto
  obtain st' where 2: "foldE (offline_pair E t) (map (key_pair E) ps) st1 = Inr st'" "pairs_post E t S (D - {?mo}) (set ps) st1 st'"
    using Cons.IH [OF d(1,2) ok q(1,2) d(3) bound] by blast
  then obtain R' H' L' B' where f: "pass_inv E t S R' H' L' B' st'" "tracked E S B' (odb st') (D - {?mo} - fst ` set ps)"
      "\<forall>p \<in> set ps. \<not> in_sf (odb st') (keyof E (fst p))" "\<forall>v. in_sf (odb st') v \<longrightarrow> in_sf (odb st1) v \<or> v \<in> keyof E ` snd ` set ps"
      "delta_map st' = Map.empty" unfolding pairs_post_def by blast
  have new: "keyof E ?mo \<notin> keyof E ` snd ` set ps"
  proof
    assume "keyof E ?mo \<in> keyof E ` snd ` set ps"
    then obtain r where r: "r \<in> set ps" "keyof E ?mo = keyof E (snd r)" by auto
    have "?mo \<in> S" "snd r \<in> S" using Cons.prems(3) r(1) by (auto simp: pair_ok_def)
    with inj_onD [OF assms(3) r(2)] have "?mo = snd r" by simp
    with apart(3) [OF r(1)] show False by simp
  qed
  have gone: "\<not> in_sf (odb st') (keyof E ?mo)" using f(4) q(6) new by blast
  have "D - {?mo} - fst ` set ps = D - fst ` set (p # ps)" by auto
  then have "pairs_post E t S D (set (p # ps)) st st'"
    unfolding pairs_post_def using f q(7) gone by (intro conjI exI [of _ R'] exI [of _ H'] exI [of _ L'] exI [of _ B']) auto
  then show ?case using 1(1) 2(1) by auto
qed

end
