(* ===== verification/OfflineLocal.thy ===== *)
theory OfflineLocal
  imports OfflineLoop "HOL-Library.Multiset"
begin

text \<open>
  The first half of the pass: the pairs arrive in batches of \<open>Local_Batch\<close>, each in a buffer, and at the
  end the hot container becomes a file.
\<close>

section \<open>Batches of pairs\<close>

abbreviation pairs_image :: "(fp \<times> fp) list \<Rightarrow> bytes" where
  "pairs_image ps \<equiv> concat (map (\<lambda>(a, b). a @ b) ps)"

lemma mset_map_exists: "mset xs = image_mset f (mset ys) \<Longrightarrow> \<exists>zs. xs = map f zs \<and> mset zs = mset ys"
proof (induction xs arbitrary: ys)
  case (Cons x xs)
  then have "x \<in># image_mset f (mset ys)" by (metis list.set_intros(1) set_mset_mset)
  then obtain y where y: "y \<in> set ys" "x = f y" by auto
  then have "mset ys = add_mset y (mset (remove1 y ys))" by simp
  then have "image_mset f (mset ys) = add_mset x (image_mset f (mset (remove1 y ys)))" using y(2) by (metis image_mset_add_mset)
  then have "mset xs = image_mset f (mset (remove1 y ys))" using Cons.prems by simp
  then obtain zs where "xs = map f zs" "mset zs = mset (remove1 y ys)" using Cons.IH by blast
  then show ?case using y by (intro exI [of _ "y # zs"]) simp
qed simp

definition fp_pairs :: "(fp \<times> fp) list \<Rightarrow> bool" where
  "fp_pairs ps \<longleftrightarrow> (\<forall>p \<in> set ps. length (fst p) = CHUNK_HASH_SIZE \<and> length (snd p) = CHUNK_HASH_SIZE)"

lemma length_pairs_image: "fp_pairs ps \<Longrightarrow> length (pairs_image ps) = length ps * (2 * CHUNK_HASH_SIZE)"
  by (induction ps) (auto simp: fp_pairs_def)

lemma pair_at_image:
  assumes "fp_pairs ps" "i < length ps"
  shows "pair_at (pairs_image ps @ x) i = ps ! i"
proof -
  let ?xs = "map (\<lambda>(a, b). a @ b) ps"
  obtain a b where ab: "ps ! i = (a, b)" by fastforce
  then have l: "length a = CHUNK_HASH_SIZE" "length b = CHUNK_HASH_SIZE" using assms nth_mem [OF assms(2)] by (auto simp: fp_pairs_def)
  have "\<forall>y \<in> set ?xs. length y = 2 * CHUNK_HASH_SIZE" using assms(1) by (auto simp: fp_pairs_def)
  from seg_concat [OF this, of i x] assms(2) ab have s: "seg (i * (2 * CHUNK_HASH_SIZE)) (2 * CHUNK_HASH_SIZE) (pairs_image ps @ x) = a @ b" by simp
  have "seg (2 * i * CHUNK_HASH_SIZE) CHUNK_HASH_SIZE y = take CHUNK_HASH_SIZE (seg (i * (2 * CHUNK_HASH_SIZE)) (2 * CHUNK_HASH_SIZE) y)" for y :: bytes
    by (simp add: seg_def ac_simps min_def)
  moreover have "seg ((2 * i + 1) * CHUNK_HASH_SIZE) CHUNK_HASH_SIZE y = drop CHUNK_HASH_SIZE (seg (i * (2 * CHUNK_HASH_SIZE)) (2 * CHUNK_HASH_SIZE) y)" for y :: bytes
    by (simp add: seg_def drop_take algebra_simps)
  ultimately show ?thesis using l ab s by (simp only: pair_at_def) simp
qed

lemma fold_update_new:
  "distinct (map fst ps) \<Longrightarrow> fst ` set ps \<inter> fst ` set m = {} \<Longrightarrow> fold (\<lambda>(a, b). AList.update a b) ps m = m @ ps"
proof (induction ps arbitrary: m)
  case (Cons p ps)
  have "AList.update a b m = m @ [(a, b)]" if "a \<notin> fst ` set m" for a b using that by (induction m) auto
  then have "AList.update (fst p) (snd p) m = m @ [p]" using Cons.prems(2) by simp
  moreover have "fold (\<lambda>(a, b). AList.update a b) ps (m @ [p]) = (m @ [p]) @ ps" using Cons.prems by (intro Cons.IH) auto
  ultimately show ?case by (cases p) simp
qed simp

lemma read_local_image:
  assumes "fp_pairs ps" "distinct (map fst ps)" "length ps \<le> Local_Batch"
  shows "read_local (le32 (word_of_nat (length ps)) @ pairs_image ps @ x) = ps"
proof -
  let ?f = "\<lambda>(a, b). AList.update a b"
  let ?buf = "le32 (word_of_nat (length ps)) @ pairs_image ps @ x"
  have n: "unat (rd32 ?buf) = length ps" using assms(3) by (simp add: Local_Batch_def small_count)
  have d: "drop 4 ?buf = pairs_image ps @ x" by simp
  have "read_local ?buf = fold (\<lambda>i. ?f (pair_at (pairs_image ps @ x) i)) [0..<length ps] []"
    unfolding read_local_def n d by (simp add: case_prod_beta)
  also have "\<dots> = fold (\<lambda>i. ?f (ps ! i)) [0..<length ps] []"
    using pair_at_image [OF assms(1)] by (intro fold_cong refl) simp
  also have "\<dots> = fold ?f (map (nth ps) [0..<length ps]) []" by (simp only: fold_map comp_def)
  also have "\<dots> = ps" using fold_update_new [OF assms(2), of "[]"] by (simp only: map_nth) simp
  finally show ?thesis .
qed

text \<open>The batch that waits in the buffer.\<close>

definition loaded :: "pair_st \<Rightarrow> (fp \<times> fp) list \<Rightarrow> bool" where
  "loaded q ps \<longleftrightarrow> unat (rd32 (off_test q)) = length ps \<and> read_local (off_test q) = ps"

lemma GetLocal_ok:
  assumes "fp_pairs (local_map q)" "distinct (map fst (local_map q))"
  shows "\<exists>q' ps. Ocall_GetLocal q = Inr q' \<and> loaded q' ps \<and> mset (local_map q' @ ps) = mset (local_map q) \<and> (ps = [] \<longrightarrow> local_map q' = [])"
proof -
  let ?lm = "local_map q"
  let ?n = "min (length ?lm) Local_Batch"
  let ?ps = "take ?n (rev ?lm)" and ?m = "take (length ?lm - ?n) ?lm"
  have split: "?lm = ?m @ rev ?ps" by (simp add: take_rev)
  have "set ?ps \<subseteq> set ?lm" using set_take_subset [of ?n "rev ?lm"] by simp
  then have ps: "fp_pairs ?ps" "length ?ps = ?n" using assms(1) by (auto simp: fp_pairs_def)
  have "distinct (take ?n (rev (map fst ?lm)))" using assms(2) by (intro distinct_take) simp
  then have dps: "distinct (map fst ?ps)" by (simp only: take_map rev_map)
  have "length (pairs_image ?ps) = ?n * (2 * CHUNK_HASH_SIZE)"
    using length_pairs_image [OF ps(1)] ps(2) by simp
  then have fit: "length (le32 (word_of_nat ?n) @ pairs_image ?ps) \<le> TEST_BUFFER_SIZE"
    by (simp add: TEST_BUFFER_SIZE_def size_consts Local_Batch_def min_def)
  define b where "b = put (off_test q) 0 (le32 (word_of_nat ?n) @ pairs_image ?ps)"
  define q' where "q' = q\<lparr>off_test := b, local_map := ?m\<rparr>"
  have "Ocall_GetLocal q = Inr q'" unfolding Ocall_GetLocal_def Let_def using fit by (simp add: memcpyE_def b_def q'_def)
  moreover have "b = le32 (word_of_nat (length ?ps)) @ pairs_image ?ps @ drop (length (le32 (word_of_nat ?n) @ pairs_image ?ps)) (off_test q)"
    using ps(2) by (simp add: b_def put_def)
  then have "loaded q' ?ps"
    unfolding loaded_def using read_local_image [OF ps(1) dps] ps(2) by (simp add: q'_def Local_Batch_def small_count)
  moreover have "mset (local_map q' @ ?ps) = mset ?lm" using arg_cong [OF split, of mset] by (simp add: q'_def)
  moreover have "?ps = [] \<longrightarrow> local_map q' = []" using ps(2) by (auto simp: q'_def Local_Batch_def min_def split: if_splits)
  ultimately show ?thesis by blast
qed

text \<open>The loop works on all pairs, each once, in an order of its own.\<close>

lemma pair_loop_flat:
  assumes "\<forall>xs. mset (ord xs) = mset xs"
  shows "loaded q ps \<Longrightarrow> (ps = [] \<longrightarrow> local_map q = []) \<Longrightarrow> fp_pairs (local_map q) \<Longrightarrow> distinct (map fst (local_map q)) \<Longrightarrow>
    \<exists>q' todo. mset todo = mset (local_map q @ ps) \<and> local_map q' = [] \<and>
      (\<forall>st. pair_loop E t ord q st = bindE (foldE (offline_pair E t) todo st) (\<lambda>st'. Inr (q', st')))"
proof (induction "length (local_map q) + length ps" arbitrary: q ps rule: less_induct)
  case less
  show ?case
  proof (cases "ps = []")
    case True
    then have "\<forall>st. pair_loop E t ord q st = bindE (foldE (offline_pair E t) [] st) (\<lambda>st'. Inr (q, st'))"
      using less.prems(1) by (subst pair_loop.simps) (simp add: loaded_def)
    then show ?thesis using True less.prems(2) by (intro exI [of _ q] exI [of _ "[]"]) simp
  next
    case False
    obtain q1 qs where q1: "Ocall_GetLocal q = Inr q1" "loaded q1 qs" "mset (local_map q1 @ qs) = mset (local_map q)" "qs = [] \<longrightarrow> local_map q1 = []"
      using GetLocal_ok [OF less.prems(3,4)] by blast
    have "length (local_map q1) + length qs = length (local_map q)" using mset_eq_length [OF q1(3)] by simp
    then have smaller: "length (local_map q1) + length qs < length (local_map q) + length ps" using False by simp
    have "set (local_map q1 @ qs) = set (local_map q)" using q1(3) by (rule mset_eq_setD)
    then have fp: "fp_pairs (local_map q1)" using less.prems(3) by (auto simp: fp_pairs_def)
    have "mset (map fst (local_map q1 @ qs)) = mset (map fst (local_map q))" using q1(3) by (simp only: mset_map)
    then have "distinct (map fst (local_map q1 @ qs))" using less.prems(4) mset_eq_imp_distinct_iff by blast
    then have d: "distinct (map fst (local_map q1))" by simp
    obtain q' todo where IH: "mset todo = mset (local_map q1 @ qs)" "local_map q' = []"
        "\<forall>st. pair_loop E t ord q1 st = bindE (foldE (offline_pair E t) todo st) (\<lambda>st'. Inr (q', st'))"
      using less.hyps [OF smaller q1(2,4) fp d] by blast
    have run: "pair_loop E t ord q st = bindE (foldE (offline_pair E t) (ord ps @ todo) st) (\<lambda>st'. Inr (q', st'))" for st
      using False less.prems(1) q1(1) IH(3)
      by (subst pair_loop.simps) (simp add: loaded_def foldE_append bindE_def split: sum.splits)
    have "mset (ord ps @ todo) = mset (local_map q @ ps)" using assms IH(1) q1(3) by simp
    then show ?thesis using run IH(2) by blast
  qed
qed

lemma all_pairs:
  assumes "\<forall>xs. mset (ord xs) = mset xs" "fp_pairs (local_map p)" "distinct (map fst (local_map p))"
  shows "\<exists>q q' todo. Ocall_GetLocal p = Inr q \<and> mset todo = mset (local_map p) \<and> local_map q' = [] \<and>
    (\<forall>st. pair_loop E t ord q st = bindE (foldE (offline_pair E t) todo st) (\<lambda>st'. Inr (q', st')))"
proof -
  obtain q bs where q: "Ocall_GetLocal p = Inr q" "loaded q bs" "mset (local_map q @ bs) = mset (local_map p)" "bs = [] \<longrightarrow> local_map q = []"
    using GetLocal_ok [OF assms(2,3)] by blast
  have "set (local_map q @ bs) = set (local_map p)" using q(3) by (rule mset_eq_setD)
  then have fp: "fp_pairs (local_map q)" using assms(2) by (auto simp: fp_pairs_def)
  have "mset (map fst (local_map q @ bs)) = mset (map fst (local_map p))" using q(3) by (simp only: mset_map)
  then have d: "distinct (map fst (local_map q))" using assms(3) mset_eq_imp_distinct_iff by fastforce
  obtain q' todo where todo: "mset todo = mset (local_map q @ bs)" "local_map q' = []"
      "\<forall>st. pair_loop E t ord q st = bindE (foldE (offline_pair E t) todo st) (\<lambda>st'. Inr (q', st'))"
    using pair_loop_flat [OF assms(1) q(2,4) fp d] by blast
  have "mset todo = mset (local_map p)" using todo(1) q(3) by simp
  then show ?thesis using q(1) todo(2,3) by blast
qed

section \<open>The first half of the pass\<close>

text \<open>The archive with nothing in the hot container.\<close>

definition filed ::
  "enclave \<Rightarrow> string \<Rightarrow> bytes set \<Rightarrow> (container_name \<Rightarrow> crec list) \<Rightarrow> (bytes \<Rightarrow> crec) \<Rightarrow> (bytes \<Rightarrow> bytes option) \<Rightarrow> off_st \<Rightarrow> bool" where
  "filed E t S R L B st \<longleftrightarrow> arch t (odisk st) R \<and> placed E S (odb st) (recs R) L B \<and> dom (indexObj (odb st)) = keyof E ` S \<and>
     sf_ok E S (odb st) L B \<and> length (ocall_container st) \<le> MAX_CONTAINER_SIZE"

definition stored_inv ::
  "enclave \<Rightarrow> string \<Rightarrow> bytes set \<Rightarrow> (container_name \<Rightarrow> crec list) \<Rightarrow> (bytes \<Rightarrow> crec) \<Rightarrow> (bytes \<Rightarrow> bytes option) \<Rightarrow> off_st \<Rightarrow> bool" where
  "stored_inv E t S R L B st \<longleftrightarrow> filed E t S R L B st \<and> cold_ok (L ` S) R (cold st)"

lemma save_hot:
  assumes "pass_inv E t S R H L B st"
  shows "stored_inv E t S (R(containerID (hot_container st) := H)) L B (Ocall_SavehotContainer t st)"
proof -
  let ?n = "containerID (hot_container st)"
  have i: "arch t (odisk st) R" "placed E S (odb st) (recs R \<union> set H) L B" "dom (indexObj (odb st)) = keyof E ` S" "sf_ok E S (odb st) L B"
      "cold_ok (L ` S) R (cold st)" "set H \<subseteq> L ` S" "length (ocall_container st) \<le> MAX_CONTAINER_SIZE" using assms by (simp_all add: pass_inv_def)
  have h: "laid ?n 0 H" "ct_bytes (hot_container st) = rimage H" "length (rimage H) \<le> MAX_CONTAINER_SIZE" "no_file t (odisk st) ?n"
      "\<forall>r \<in> set H. deltaFlag (cr_addr r) = delta_code DELTA" using assms by (simp_all add: pass_inv_def hot_inv_def Let_def)
  have e: "R ?n = []" using arch_no_file [OF i(1) h(4)] .
  have r: "recs (R(?n := H)) = recs R \<union> set H" using recs_save [of R ?n H, OF e] .
  have none: "cold_list (\<lambda>r. r \<notin> L ` S) H = []" using i(6) by (auto simp: cold_list_def filter_empty_conv)
  have "cold_list (\<lambda>r. r \<notin> L ` S) ((R(?n := H)) n) = cold_list (\<lambda>r. r \<notin> L ` S) (R n)" for n
    using none e by (simp add: cold_list_def)
  then have "cold_ok (L ` S) (R(?n := H)) (cold st)" using i(5) unfolding cold_ok_def by presburger
  moreover have "arch t ((odisk st)(delta_path t ?n \<mapsto> rimage H)) (R(?n := H))" using arch_save [OF i(1) h(4,1,3,5)] .
  ultimately show ?thesis using i(2,3,4,7) h(2) r by (simp add: stored_inv_def filed_def Ocall_SavehotContainer_def)
qed

lemma nothing_hot:
  assumes "pass_inv E t S R H L B st" "currentSize (hot_container st) = 0"
  shows "stored_inv E t S R L B st"
proof -
  have "length (rimage H) = 0" using assms by (simp add: pass_inv_def hot_inv_def Let_def)
  moreover have "rimage H \<noteq> []" if "H \<noteq> []"
  proof -
    from that obtain r rs where H: "H = r # rs" by (cases H) auto
    then have "crec_ok (containerID (hot_container st)) r" using assms(1) by (simp add: pass_inv_def hot_inv_def Let_def)
    then have "0 < length (rec_bytes r)" using rec_size_pos [of r] by simp
    then show ?thesis using H by auto
  qed
  ultimately have "H = []" by auto
  then show ?thesis using assms(1) by (simp add: pass_inv_def stored_inv_def filed_def)
qed

text \<open>A pass over pairs the index outside holds.\<close>

definition pass_pairs ::
  "enclave \<Rightarrow> bytes set \<Rightarrow> (container_name \<Rightarrow> crec list) \<Rightarrow> (bytes \<Rightarrow> crec) \<Rightarrow> (bytes \<Rightarrow> bytes option) \<Rightarrow> bytes set \<Rightarrow> (bytes \<times> bytes) list \<Rightarrow> off_st \<Rightarrow> bool" where
  "pass_pairs E S R L B D ps st \<longleftrightarrow> local_map (pairs st) = map (key_pair E) ps \<and> distinct (map fst ps) \<and> fst ` set ps \<inter> snd ` set ps = {} \<and>
     (\<forall>p \<in> set ps. pair_ok E S R L B D p) \<and> off_times st + sum_list (map (pair_work S B) ps) \<le> INT_MAX"

definition pass_ready :: "string \<Rightarrow> off_st \<Rightarrow> bool" where
  "pass_ready t st \<longleftrightarrow> ht_inv (offline_htable st) \<and> ht_items (offline_htable st) = {} \<and> delta_map st = Map.empty \<and>
     (\<forall>n \<in> free_names st. no_file t (odisk st) n)"

definition local_post :: "enclave \<Rightarrow> string \<Rightarrow> bytes set \<Rightarrow> bytes set \<Rightarrow> (bytes \<times> bytes) set \<Rightarrow> off_st \<Rightarrow> off_st \<Rightarrow> bool" where
  "local_post E t S D P st st' \<longleftrightarrow> (\<exists>R' L' B'. stored_inv E t S R' L' B' st' \<and> tracked E S B' (odb st') (D - fst ` P)) \<and>
     pass_ready t st' \<and> local_map (pairs st') = [] \<and> (\<forall>p \<in> P. \<not> in_sf (odb st') (keyof E (fst p))) \<and> (\<forall>v. in_sf (odb st') v \<longrightarrow> in_sf (odb st) v \<or> v \<in> keyof E ` snd ` P)"

lemma local_phase_ok:
  assumes "evp_ok (ssl E)" "lz4_ok E" "inj_on (keyof E) S" "store_clear E S" "finite S" "\<forall>xs. mset (ord xs) = mset xs"
    "pass_inv E t S R H L B st" "tracked E S B (odb st) D" "pass_pairs E S R L B D ps st" "delta_map st = Map.empty"
  shows "\<exists>st'. local_phase E t ord st = Inr st' \<and> local_post E t S D (set ps) st st'"
proof -
  have p: "local_map (pairs st) = map (key_pair E) ps" "distinct (map fst ps)" "fst ` set ps \<inter> snd ` set ps = {}" "\<forall>p \<in> set ps. pair_ok E S R L B D p"
      "off_times st + sum_list (map (pair_work S B) ps) \<le> INT_MAX" using assms(9) by (simp_all add: pass_pairs_def)
  have fp: "fp_pairs (local_map (pairs st))" unfolding p(1) fp_pairs_def using length_keyof [OF assms(1)] by auto
  have "fst ` set ps \<subseteq> S" using p(4) by (auto simp: pair_ok_def)
  then have "inj_on (keyof E) (set (map fst ps))" using inj_on_subset [OF assms(3)] by simp
  then have d: "distinct (map fst (local_map (pairs st)))" unfolding p(1) using p(2) distinct_map [of "keyof E" "map fst ps"] by (simp add: comp_def)
  obtain q q' todo where q: "Ocall_GetLocal (pairs st) = Inr q" "mset todo = mset (local_map (pairs st))" "local_map q' = []"
      "\<forall>st. pair_loop E t ord q st = bindE (foldE (offline_pair E t) todo st) (\<lambda>st'. Inr (q', st'))"
    using all_pairs [OF assms(6) fp d] by blast
  have "mset todo = image_mset (key_pair E) (mset ps)" using q(2) p(1) by simp
  then obtain ps' where ps': "todo = map (key_pair E) ps'" "mset ps' = mset ps" using mset_map_exists by blast
  have set': "set ps' = set ps" using ps'(2) by (rule mset_eq_setD)
  have m: "mset (map fst ps') = mset (map fst ps)" "mset (map (pair_work S B) ps') = mset (map (pair_work S B) ps)" using ps'(2) by simp_all
  have "distinct (map fst ps')" using p(2) mset_eq_imp_distinct_iff [OF m(1)] by simp
  moreover have "sum_list (map (pair_work S B) ps') = sum_list (map (pair_work S B) ps)" using arg_cong [OF m(2), of sum_mset] by (simp only: sum_mset_sum_list)
  ultimately obtain st1 where st1: "foldE (offline_pair E t) todo st = Inr st1" "pairs_post E t S D (set ps) st st1"
    using pairs_loop [OF assms(1-5) _ _ _ assms(7,8,10), of ps'] p(3-5) unfolding ps'(1) set' by auto
  then obtain R' H' L' B' where i: "pass_inv E t S R' H' L' B' st1" "tracked E S B' (odb st1) (D - fst ` set ps)"
      "\<forall>p \<in> set ps. \<not> in_sf (odb st1) (keyof E (fst p))" "\<forall>v. in_sf (odb st1) v \<longrightarrow> in_sf (odb st) v \<or> v \<in> keyof E ` snd ` set ps"
      "delta_map st1 = Map.empty" unfolding pairs_post_def by blast
  define st2 where "st2 = st1\<lparr>pairs := q'\<rparr>"
  define st' where "st' = (if currentSize (hot_container st2) \<noteq> 0 then Ocall_SavehotContainer t st2 else st2)"
  have run: "local_phase E t ord st = Inr st'"
    using q(1,4) st1(1) by (simp add: local_phase_def Let_def st'_def st2_def)
  have "pass_inv E t S R' H' L' B' st2" using i(1) by (simp add: pass_inv_def hot_inv_def st2_def)
  from save_hot [OF this] nothing_hot [OF this] have "\<exists>R. stored_inv E t S R L' B' st'" by (auto simp: st'_def)
  moreover have "odb st' = odb st1" "local_map (pairs st') = []" using q(3) by (simp_all add: st'_def st2_def Ocall_SavehotContainer_def)
  moreover have "pass_ready t st'"
    using i(1,5) by (auto simp: pass_ready_def st'_def st2_def Ocall_SavehotContainer_def pass_inv_def hot_inv_def Let_def no_file_def)
  ultimately have "local_post E t S D (set ps) st st'" unfolding local_post_def using i(2-4) by auto
  then show ?thesis using run by blast
qed

end
