(* ===== verification/OfflineCold.thy ===== *)
theory OfflineCold
  imports OfflineLocal
begin

text \<open>
  The second half of the pass: the cold chunks are cut out of their containers, and small base
  containers are merged. Every chunk that is in use moves with its address.
\<close>

section \<open>Records that move\<close>

definition shifted :: "crec \<Rightarrow> crec \<Rightarrow> bool" where
  "shifted r r' \<longleftrightarrow> cr_key r' = cr_key r \<and> cr_data r' = cr_data r \<and> cr_iv r' = cr_iv r \<and> deltaFlag (cr_addr r') = deltaFlag (cr_addr r) \<and>
     basechunkHash (cr_addr r') = basechunkHash (cr_addr r) \<and> superfeature (cr_addr r') = superfeature (cr_addr r) \<and> entry_wf (cr_addr r')"

lemma holds_shifted: "holds E B m r \<Longrightarrow> shifted r r' \<Longrightarrow> holds E B m r'"
  by (auto simp: holds_def shifted_def opens_def split: option.splits)

lemma shifted_back: "crec_ok n r \<Longrightarrow> shifted r (moved (move_back c) r)"
  by (auto simp: shifted_def crec_ok_def entry_wf_def)

lemma shifted_behind: "crec_ok n' r \<Longrightarrow> length n = CONTAINER_ID_LENGTH \<Longrightarrow> shifted r (moved (move_behind n k) r)"
  by (simp add: shifted_def crec_ok_def entry_wf_def)

definition relocated ::
  "enclave \<Rightarrow> bytes set \<Rightarrow> crec set \<Rightarrow> (bytes \<Rightarrow> crec) \<Rightarrow> (bytes \<Rightarrow> crec) \<Rightarrow> crec list \<Rightarrow> bool" where
  "relocated E S X L L' rs \<longleftrightarrow> distinct (map cr_key rs) \<and> cr_key ` set rs \<subseteq> keyof E ` S \<and>
     (\<forall>m \<in> S. L' m \<in> X \<and> (L' m \<in> set rs \<and> shifted (L m) (L' m) \<or> L' m = L m \<and> keyof E m \<notin> cr_key ` set rs))"

lemma relocatedD:
  assumes "relocated E S X L L' rs" "m \<in> S"
  shows "L' m \<in> X" "L' m \<in> set rs \<and> shifted (L m) (L' m) \<or> L' m = L m \<and> keyof E m \<notin> cr_key ` set rs"
  using assms unfolding relocated_def by blast+

lemma placed_relocated:
  assumes "placed E S db X L B" "evp_ok (ssl E)" "relocated E S X' L L' rs"
  shows "placed E S (reindex E rs db) X' L' B"
  unfolding placed_def
proof
  fix m assume m: "m \<in> S"
  note p = placedD [OF assms(1) m] and r = relocatedD [OF assms(3) m]
  have "addr_at E (reindex E rs db) (keyof E m) (cr_addr (L' m)) \<and> holds E B m (L' m)"
  proof (cases "L' m \<in> set rs \<and> shifted (L m) (L' m)")
    case True
    have k: "cr_key (L' m) = keyof E m" using True p(3) by (simp add: holds_def shifted_def)
    have d: "distinct (map cr_key rs)" using assms(3) by (simp add: relocated_def)
    have wf: "entry_wf (cr_addr (L' m))" using True by (simp add: shifted_def)
    have "indexObj (reindex E rs db) (keyof E m) = Some (encaddr E (cr_addr (L' m)))"
      using reindex_at [OF d, of "L' m"] True k by simp
    then have "addr_at E (reindex E rs db) (keyof E m) (cr_addr (L' m))" using encaddr_ok(3) [OF assms(2) wf] wf by (simp add: addr_at_def)
    then show ?thesis using holds_shifted [OF p(3)] True by simp
  next
    case False
    then have "L' m = L m" "keyof E m \<notin> cr_key ` set rs" using r(2) by blast+
    then show ?thesis using p(2,3) reindex_other [of "keyof E m" rs E db] by (simp add: addr_at_def)
  qed
  then show "L' m \<in> X' \<and> addr_at E (reindex E rs db) (keyof E m) (cr_addr (L' m)) \<and> holds E B m (L' m) \<and> (\<forall>mb. B m = Some mb \<longrightarrow> mb \<in> S \<and> B mb = None)"
    using r(1) p(4) by simp
qed

lemma sf_ok_relocated:
  assumes "sf_ok E S db L B" "relocated E S X L L' rs" "sfObj db' = sfObj db"
  shows "sf_ok E S db' L' B"
proof -
  have "superfeature (cr_addr (L' m)) = superfeature (cr_addr (L m))" if "m \<in> S" for m
    using relocatedD(2) [OF assms(2) that] by (auto simp: shifted_def)
  then have "sf_ok E S db L' B" using assms(1) unfolding sf_ok_def by metis
  then show ?thesis using sf_ok_cong [OF assms(3)] by simp
qed

lemma dom_reindex: "dom (indexObj (reindex E rs db)) = dom (indexObj db) \<union> cr_key ` set rs"
  by (induction rs arbitrary: db) (auto simp: index_rec_def)

lemma filed_relocated:
  assumes "filed E t S R L B st" "evp_ok (ssl E)" "relocated E S (recs R') L L' rs" "arch t (odisk st') R'"
    "odb st' = reindex E rs (odb st)" "length (ocall_container st') \<le> MAX_CONTAINER_SIZE"
  shows "filed E t S R' L' B st'"
proof -
  have i: "placed E S (odb st) (recs R) L B" "dom (indexObj (odb st)) = keyof E ` S" "sf_ok E S (odb st) L B" using assms(1) by (simp_all add: filed_def)
  have "cr_key ` set rs \<subseteq> keyof E ` S" using assms(3) by (simp add: relocated_def)
  then have "dom (indexObj (odb st')) = keyof E ` S" unfolding assms(5) dom_reindex i(2) by blast
  moreover have "sf_ok E S (odb st') L' B" using assms(5) by (intro sf_ok_relocated [OF i(3) assms(3)]) simp
  ultimately show ?thesis using placed_relocated [OF i(1) assms(2,3)] assms(4-6) by (simp add: filed_def)
qed

lemma laid_distinct: "laid n p rs \<Longrightarrow> distinct rs"
  using laid_offsets by (fastforce simp: distinct_map)

lemma live_keys:
  assumes "placed E S db X L B" "inj_on (keyof E) S" "distinct rs" "set rs \<subseteq> L ` S"
  shows "distinct (map cr_key rs)"
proof -
  have "inj_on cr_key (set rs)"
  proof (rule inj_onI)
    fix r r' assume r: "r \<in> set rs" "r' \<in> set rs" "cr_key r = cr_key r'"
    then obtain m m' where m: "m \<in> S" "r = L m" "m' \<in> S" "r' = L m'" using assms(4) by blast
    have "cr_key (L m) = keyof E m" "cr_key (L m') = keyof E m'" using placedD(3) [OF assms(1)] m(1,3) by (auto simp: holds_def)
    then show "r = r'" using r(3) m inj_onD [OF assms(2)] by metis
  qed
  then show ?thesis using assms(3) by (simp add: distinct_map)
qed

section \<open>One container without its cold chunks\<close>

abbreviation unused :: "(bytes \<Rightarrow> crec) \<Rightarrow> bytes set \<Rightarrow> crec \<Rightarrow> bool" where
  "unused L S r \<equiv> r \<notin> L ` S"

lemma arch_names:
  assumes "arch t d R" "r \<in> set (R n)"
  shows "containerName (cr_addr r) = n"
proof -
  have "laid n 0 (R n)" using assms(1) by (simp add: arch_def arch1_def)
  then show ?thesis using laid_crec_ok assms(2) by (auto simp: crec_ok_def)
qed

lemma compact_relocated:
  assumes "arch t d R" "placed E S db (recs R) L B" "inj_on (keyof E) S"
  shows "\<exists>L'. relocated E S (recs (R(n := compacted (unused L S) 0 (R n)))) L L' (compacted (unused L S) 0 (R n)) \<and>
    set (compacted (unused L S) 0 (R n)) \<subseteq> L' ` S \<and> (\<forall>n' r. n' \<noteq> n \<and> r \<in> set (R n') \<longrightarrow> (r \<in> L' ` S \<longleftrightarrow> r \<in> L ` S))"
proof -
  let ?dead = "unused L S"
  let ?rs = "R n" and ?cs = "compacted ?dead 0 (R n)"
  let ?R = "R(n := ?cs)"
  have lay: "laid n 0 ?rs" using assms(1) by (simp add: arch_def arch1_def)
  have key: "cr_key (L m) = keyof E m" if "m \<in> S" for m using placedD(3) [OF assms(2) that] by (simp add: holds_def)
  have dist: "distinct (map cr_key ?cs)"
    unfolding compact_keys using laid_distinct [OF lay] by (intro live_keys [OF assms(2,3)]) auto
  have "\<forall>m \<in> S. \<exists>c. L m \<in> set ?rs \<longrightarrow> moved (move_back c) (L m) \<in> set ?cs" using compact_set [of _ ?rs ?dead 0] by blast
  then obtain f where f: "\<And>m. m \<in> S \<Longrightarrow> L m \<in> set ?rs \<Longrightarrow> moved (move_back (f m)) (L m) \<in> set ?cs" by metis
  define L' where "L' m = (if L m \<in> set ?rs then moved (move_back (f m)) (L m) else L m)" for m
  have from_live: "\<exists>m \<in> S. L m \<in> set ?rs \<and> cr_key r = keyof E m" if r: "r \<in> set ?cs" for r
  proof -
    obtain r0 c' where "r0 \<in> set ?rs" "r0 \<in> L ` S" "r = moved (move_back c') r0" using set_compact [OF r] by auto
    then show ?thesis using key by auto
  qed
  have keys: "keyof E m \<notin> cr_key ` set ?cs" if "m \<in> S" "L m \<notin> set ?rs" for m
  proof
    assume "keyof E m \<in> cr_key ` set ?cs"
    then obtain r where r: "r \<in> set ?cs" "keyof E m = cr_key r" by blast
    obtain m' where m': "m' \<in> S" "L m' \<in> set ?rs" "cr_key r = keyof E m'" using from_live [OF r(1)] by blast
    have "m = m'" using inj_onD [OF assms(3) _ that(1) m'(1)] r(2) m'(3) by simp
    with m'(2) that(2) show False by simp
  qed
  have reloc: "relocated E S (recs ?R) L L' ?cs"
    unfolding relocated_def
  proof (intro conjI ballI)
    show "distinct (map cr_key ?cs)" by (rule dist)
    show "cr_key ` set ?cs \<subseteq> keyof E ` S" using from_live by blast
    fix m assume m: "m \<in> S"
    show "L' m \<in> recs ?R"
    proof (cases "L m \<in> set ?rs")
      case True
      then show ?thesis using f [OF m] by (intro recsI [of _ _ n]) (simp add: L'_def)
    next
      case False
      then obtain n' where "L m \<in> set (R n')" "n' \<noteq> n" using placedD(1) [OF assms(2) m] by (auto simp: recs_def)
      then show ?thesis using False by (intro recsI [of _ _ n']) (simp add: L'_def)
    qed
    show "L' m \<in> set ?cs \<and> shifted (L m) (L' m) \<or> L' m = L m \<and> keyof E m \<notin> cr_key ` set ?cs"
      using f [OF m] keys [OF m] shifted_back [OF laid_crec_ok [OF lay]] by (cases "L m \<in> set ?rs") (simp_all add: L'_def)
  qed
  have live: "set ?cs \<subseteq> L' ` S"
  proof
    fix r assume r: "r \<in> set ?cs"
    obtain m where m: "m \<in> S" "L m \<in> set ?rs" "cr_key r = keyof E m" using from_live [OF r] by blast
    then have "L' m \<in> set ?cs" "cr_key (L' m) = cr_key r" using f key by (simp_all add: L'_def)
    then have "L' m = r" using dist r by (auto simp: distinct_map inj_on_def)
    then show "r \<in> L' ` S" using m(1) by blast
  qed
  have "r \<in> L' ` S \<longleftrightarrow> r \<in> L ` S" if r: "n' \<noteq> n" "r \<in> set (R n')" for n' r
  proof -
    have "r = L' m \<longleftrightarrow> r = L m" if m: "m \<in> S" for m
    proof (cases "L m \<in> set ?rs")
      case True
      then have "containerName (cr_addr (L m)) = n" "containerName (cr_addr (L' m)) = n" using arch_names [OF assms(1) True] by (simp_all add: L'_def)
      then show ?thesis using arch_names [OF assms(1) r(2)] r(1) by auto
    qed (simp add: L'_def)
    then show ?thesis by blast
  qed
  then show ?thesis using reloc live by blast
qed

lemma cut_container:
  assumes "filed E t S R L B st" "evp_ok (ssl E)" "inj_on (keyof E) S" "R n \<noteq> []" "distinct ps" "set ps = set (cold_list (unused L S) (R n))"
  shows "\<exists>st' R' L'. Update_cold_container E t (n, ps) st = Inr st' \<and> filed E t S R' L' B st' \<and> set (R' n) \<subseteq> L' ` S \<and>
    (\<forall>n'. n' \<noteq> n \<longrightarrow> R' n' = R n' \<and> (\<forall>r \<in> set (R n'). r \<in> L' ` S \<longleftrightarrow> r \<in> L ` S)) \<and>
    kept_st st st' \<and> sfObj (odb st') = sfObj (odb st) \<and> delta_index (odb st') = delta_index (odb st)"
proof -
  let ?cs = "compacted (unused L S) 0 (R n)"
  let ?R = "R(n := ?cs)"
  have i: "arch t (odisk st) R" "placed E S (odb st) (recs R) L B" "length (ocall_container st) \<le> MAX_CONTAINER_SIZE" using assms(1) by (simp_all add: filed_def)
  have a: "laid n 0 (R n)" "length (rimage (R n)) \<le> MAX_CONTAINER_SIZE" "\<not> no_file t (odisk st) n" using i(1) assms(4) by (simp_all add: arch_def arch1_def)
  have nl: "length n = CONTAINER_ID_LENGTH" using laid_crec_ok [OF a(1)] assms(4) by (cases "R n") (auto simp: crec_ok_def entry_wf_def)
  obtain j where lay: "laid n 0 ?cs" "j + length (rimage ?cs) = length (rimage (R n))" using compact_layout [OF a(1), of 0 0 "unused L S"] a(2) by auto
  define df where "df \<longleftrightarrow> odisk st (delta_path t n) \<noteq> None"
  have fl: "cold_file t (odisk st) n df (rimage (R n))"
    using i(1) a(3) unfolding arch_def arch1_def cold_file_def df_def no_file_def by (metis option.exhaust)
  obtain st' where st': "Update_cold_container E t (n, ps) st = Inr st'" "odisk st' = (odisk st)(file_path t n df \<mapsto> rimage ?cs)"
      "odb st' = reindex E ?cs (odb st)" "length (ocall_container st') \<le> MAX_CONTAINER_SIZE" "kept_st st st'"
    using Update_cold_container_ok [OF assms(2) nl fl a(1,2) i(3) assms(5,6)] by blast
  obtain L' where L': "relocated E S (recs ?R) L L' ?cs" "set ?cs \<subseteq> L' ` S" "\<forall>n' r. n' \<noteq> n \<and> r \<in> set (R n') \<longrightarrow> (r \<in> L' ` S \<longleftrightarrow> r \<in> L ` S)"
    using compact_relocated [OF i(1,2) assms(3)] by blast
  have "arch1 t (odisk st') n' (?R n')" for n'
  proof (cases "n' = n")
    case True
    have o: "arch1 t (odisk st) n (R n)" using i(1) by (simp add: arch_def)
    have flags: "\<exists>r0 \<in> set (R n). deltaFlag (cr_addr r) = deltaFlag (cr_addr r0)" if "r \<in> set ?cs" for r
      using set_compact [OF that] by force
    have sz: "length (rimage ?cs) \<le> MAX_CONTAINER_SIZE" using lay(2) a(2) by simp
    have "arch1 t (odisk st') n ?cs"
    proof (cases "odisk st (delta_path t n)")
      case None
      then have b: "odisk st (base_path t n) \<noteq> None" using a(3) by (simp add: no_file_def)
      then have "\<forall>r \<in> set (R n). deltaFlag (cr_addr r) = delta_code NO_DELTA" using o by (auto simp: arch1_def)
      then have "\<forall>r \<in> set ?cs. deltaFlag (cr_addr r) = delta_code NO_DELTA" using flags by metis
      then show ?thesis using None lay(1) sz st'(2) by (simp add: arch1_def no_file_def file_path_def df_def)
    next
      case (Some f)
      then have "odisk st (base_path t n) = None" "\<forall>r \<in> set (R n). deltaFlag (cr_addr r) = delta_code DELTA" using o by (auto simp: arch1_def)
      moreover from this(2) have "\<forall>r \<in> set ?cs. deltaFlag (cr_addr r) = delta_code DELTA" using flags by metis
      ultimately show ?thesis using Some lay(1) sz st'(2) by (simp add: arch1_def no_file_def file_path_def df_def)
    qed
    then show ?thesis using True by simp
  next
    case False
    have "arch1 t (odisk st) n' (R n')" using i(1) by (simp add: arch_def)
    moreover have "odisk st' (base_path t n') = odisk st (base_path t n')" "odisk st' (delta_path t n') = odisk st (delta_path t n')"
      using False st'(2) by (auto simp: file_path_def)
    ultimately show ?thesis using False by (simp add: arch1_def no_file_def)
  qed
  then have "arch t (odisk st') ?R" by (simp add: arch_def)
  then have "filed E t S ?R L' B st'" using filed_relocated [OF assms(1,2) L'(1) _ st'(3,4)] by simp
  then show ?thesis using st' L'(2,3) by (intro exI [of _ st'] exI [of _ ?R] exI [of _ L']) simp
qed

end
