(* ===== verification/OfflineCut.thy ===== *)
theory OfflineCut
  imports OfflineCold
begin

text \<open>
  All containers with cold chunks: they are handed over one at a time with the places of their cold
  chunks, and afterwards every record of the archive is in use.
\<close>

section \<open>Handing over the cold chunks\<close>

lemma parse_pairs_image: "parse_pairs (length ps) (concat (map (\<lambda>(a, b). le32 a @ le32 b) ps) @ x) = ps"
  by (induction ps) (auto simp: case_prod_beta)

lemma parse_cold_image:
  assumes "length n = CONTAINER_ID_LENGTH" "length ps < 2 ^ 32"
  shows "parse_cold 1 (cold_image n ps @ x) = [(n, ps)]"
proof -
  have u: "unat (word_of_nat (length ps) :: u32) = length ps" by (rule unat_of_nat_small) (use assms(2) in simp)
  have d: "drop CONTAINER_ID_LENGTH (cold_image n ps @ x) = le32 (word_of_nat (length ps)) @ concat (map (\<lambda>(a, b). le32 a @ le32 b) ps) @ x"
    "drop (CONTAINER_ID_LENGTH + 4) (cold_image n ps @ x) = concat (map (\<lambda>(a, b). le32 a @ le32 b) ps) @ x"
    using assms(1) by (simp_all add: cold_image_def)
  then show ?thesis using u assms(1) parse_pairs_image [of ps x] by (simp add: Let_def cold_image_def)
qed

lemma length_cold_image: "length (cold_image n ps) = length n + 4 + 8 * length ps"
proof -
  have "length (concat (map (\<lambda>(a, b). le32 a @ le32 b) ps)) = 8 * length ps" by (induction ps) auto
  then show ?thesis by (simp add: cold_image_def)
qed

definition loaded_cold :: "cold_st \<Rightarrow> (container_name \<times> (u32 \<times> u32) list) list \<Rightarrow> bool" where
  "loaded_cold c bs \<longleftrightarrow> unat (rd32 (off_out c)) = length bs \<and> parse_cold (length bs) (drop 4 (off_out c)) = bs"

definition cold_small :: "cold_st \<Rightarrow> container_name \<Rightarrow> bool" where
  "cold_small c n \<longleftrightarrow> length n = CONTAINER_ID_LENGTH \<and> length (cold_at c n) \<le> 15000"

lemma GetCold_none:
  assumes "cold_container_vector c = []"
  shows "\<exists>b. Ocall_GetCold c = Inr (c\<lparr>off_out := b\<rparr>) \<and> loaded_cold (c\<lparr>off_out := b\<rparr>) []"
proof -
  let ?b = "put (off_out c) 0 (le32 0)"
  have "Ocall_GetCold c = Inr (c\<lparr>off_out := ?b\<rparr>)"
    using assms by (simp add: Ocall_GetCold_def memcpyE_def OUT_BUFFER_SIZE_def size_consts)
  then show ?thesis by (intro exI [of _ ?b]) (simp add: loaded_cold_def put_def)
qed

lemma GetCold_one:
  assumes "cold_container_vector c = v @ [n]" "cold_small c n"
  shows "\<exists>b. Ocall_GetCold c = Inr (c\<lparr>off_out := b, cold_container_vector := v, cold_map := (cold_map c)(n := None)\<rparr>) \<and>
    loaded_cold (c\<lparr>off_out := b, cold_container_vector := v, cold_map := (cold_map c)(n := None)\<rparr>) [(n, rev (cold_at c n))]"
proof -
  have n: "length n = CONTAINER_ID_LENGTH" "length (rev (cold_at c n)) < 2 ^ 32" "length (cold_at c n) \<le> 15000" using assms(2) by (simp_all add: cold_small_def)
  let ?i = "cold_image n (rev (cold_at c n))"
  let ?b = "put (off_out c) 0 (le32 1 @ ?i)"
  let ?c = "c\<lparr>off_out := ?b, cold_container_vector := v, cold_map := (cold_map c)(n := None)\<rparr>"
  have cp: "cold_pairs c n = rev (cold_at c n)" by (simp add: cold_pairs_def split: option.splits)
  have fit: "length (le32 1 @ ?i) \<le> OUT_BUFFER_SIZE" using n by (simp add: length_cold_image OUT_BUFFER_SIZE_def size_consts CONTAINER_ID_LENGTH_def)
  have m: "(\<lambda>x. if x = n then None else cold_map c x) = (cold_map c)(n := None)" by (intro ext) simp
  have "Ocall_GetCold c = Inr ?c"
    using assms(1) fit cp m by (simp add: Ocall_GetCold_def Let_def Cold_Batch_def memcpyE_def)
  moreover have "drop 4 ?b = ?i @ drop (length (le32 1 @ ?i)) (off_out c)" by (simp add: put_def)
  then have "parse_cold 1 (drop 4 ?b) = [(n, rev (cold_at c n))]"
    using parse_cold_image [OF n(1,2), of "drop (length (le32 1 @ ?i)) (off_out c)"] by (simp only:)
  then have "loaded_cold ?c [(n, rev (cold_at c n))]" by (simp add: loaded_cold_def put_def)
  ultimately show ?thesis by blast
qed

abbreviation cold_todo :: "cold_st \<Rightarrow> container_name \<Rightarrow> container_name \<times> (u32 \<times> u32) list" where
  "cold_todo c n \<equiv> (n, rev (cold_at c n))"

lemma cold_loop_flat:
  "cold_container_vector c = v \<Longrightarrow> loaded_cold c bs \<Longrightarrow> (bs = [] \<longrightarrow> v = []) \<Longrightarrow> distinct v \<Longrightarrow> \<forall>n \<in> set v. cold_small c n \<Longrightarrow>
    \<exists>c'. cold_map c' = (\<lambda>n. if n \<in> set v then None else cold_map c n) \<and> cold_container_vector c' = [] \<and> cold_container_set c' = cold_container_set c \<and>
      (\<forall>st. cold_loop E t c st = bindE (foldE (Update_cold_container E t) (bs @ map (cold_todo c) (rev v)) st) (\<lambda>st'. Inr (c', st')))"
proof (induction v arbitrary: c bs rule: rev_induct)
  case Nil
  show ?case
  proof (cases "bs = []")
    case True
    then have "\<forall>st. cold_loop E t c st = Inr (c, st)" using Nil.prems(2) by (subst cold_loop.simps) (simp add: loaded_cold_def)
    then show ?thesis using True Nil.prems(1) by (intro exI [of _ c]) simp
  next
    case False
    obtain b where b: "Ocall_GetCold c = Inr (c\<lparr>off_out := b\<rparr>)" "loaded_cold (c\<lparr>off_out := b\<rparr>) []" using GetCold_none [OF Nil.prems(1)] by blast
    then have "\<forall>st. cold_loop E t (c\<lparr>off_out := b\<rparr>) st = Inr (c\<lparr>off_out := b\<rparr>, st)" by (subst cold_loop.simps) (simp add: loaded_cold_def)
    then have "\<forall>st. cold_loop E t c st = bindE (foldE (Update_cold_container E t) bs st) (\<lambda>st'. Inr (c\<lparr>off_out := b\<rparr>, st'))"
      using False Nil.prems(2) b(1) by (subst cold_loop.simps) (simp add: loaded_cold_def bindE_def split: sum.splits)
    then show ?thesis using Nil.prems(1) by (intro exI [of _ "c\<lparr>off_out := b\<rparr>"]) simp
  qed
next
  case (snoc n v)
  have n: "cold_small c n" "n \<notin> set v" "bs \<noteq> []" using snoc.prems(3,4,5) by auto
  obtain b where b: "Ocall_GetCold c = Inr (c\<lparr>off_out := b, cold_container_vector := v, cold_map := (cold_map c)(n := None)\<rparr>)"
      "loaded_cold (c\<lparr>off_out := b, cold_container_vector := v, cold_map := (cold_map c)(n := None)\<rparr>) [cold_todo c n]"
    using GetCold_one [OF snoc.prems(1) n(1)] by blast
  define c1 where "c1 = c\<lparr>off_out := b, cold_container_vector := v, cold_map := (cold_map c)(n := None)\<rparr>"
  have c1: "cold_container_vector c1 = v" "cold_container_set c1 = cold_container_set c" "cold_map c1 = (cold_map c)(n := None)" by (simp_all add: c1_def)
  have small: "\<forall>x \<in> set v. cold_small c1 x" using snoc.prems(5) n(2) c1(3) by (auto simp: cold_small_def)
  have todo: "map (cold_todo c1) (rev v) = map (cold_todo c) (rev v)" using n(2) c1(3) by (auto simp: map_eq_conv)
  obtain c' where c': "cold_map c' = (\<lambda>x. if x \<in> set v then None else cold_map c1 x)" "cold_container_vector c' = []" "cold_container_set c' = cold_container_set c1"
      "\<forall>st. cold_loop E t c1 st = bindE (foldE (Update_cold_container E t) ([cold_todo c n] @ map (cold_todo c1) (rev v)) st) (\<lambda>st'. Inr (c', st'))"
    using snoc.IH [OF c1(1) b(2) [folded c1_def]] snoc.prems(4) small by auto
  have run: "cold_loop E t c st = bindE (foldE (Update_cold_container E t) (bs @ map (cold_todo c) (rev (v @ [n]))) st) (\<lambda>st'. Inr (c', st'))" for st
    using n(3) snoc.prems(2) b(1) [folded c1_def] c'(4) todo
    by (subst cold_loop.simps) (simp add: loaded_cold_def foldE_append bindE_def split: sum.splits)
  have "cold_map c' = (\<lambda>x. if x \<in> set (v @ [n]) then None else cold_map c x)" using c'(1) c1(3) by (intro ext) simp
  then show ?case using c'(2,3) c1(2) run by (intro exI [of _ c']) simp
qed

section \<open>All containers\<close>

definition cuts_ok :: "(container_name \<Rightarrow> crec list) \<Rightarrow> (bytes \<Rightarrow> crec) \<Rightarrow> bytes set \<Rightarrow> container_name \<times> (u32 \<times> u32) list \<Rightarrow> bool" where
  "cuts_ok R L S p \<longleftrightarrow> R (fst p) \<noteq> [] \<and> distinct (snd p) \<and> set (snd p) = set (cold_list (unused L S) (R (fst p)))"

lemma cut_loop:
  assumes "evp_ok (ssl E)" "inj_on (keyof E) S"
  shows "filed E t S R L B st \<Longrightarrow> distinct (map fst todo) \<Longrightarrow> \<forall>p \<in> set todo. cuts_ok R L S p \<Longrightarrow>
    \<exists>st' R' L'. foldE (Update_cold_container E t) todo st = Inr st' \<and> filed E t S R' L' B st' \<and> (\<forall>n \<in> fst ` set todo. set (R' n) \<subseteq> L' ` S) \<and>
      (\<forall>n. n \<notin> fst ` set todo \<longrightarrow> R' n = R n \<and> (\<forall>r \<in> set (R n). r \<in> L' ` S \<longleftrightarrow> r \<in> L ` S)) \<and>
      kept_st st st' \<and> sfObj (odb st') = sfObj (odb st) \<and> delta_index (odb st') = delta_index (odb st)"
proof (induction todo arbitrary: R L st)
  case Nil
  then show ?case by (intro exI [of _ st] exI [of _ R] exI [of _ L]) simp
next
  case (Cons p todo)
  obtain n ps where p: "p = (n, ps)" by fastforce
  have c: "R n \<noteq> []" "distinct ps" "set ps = set (cold_list (unused L S) (R n))" using Cons.prems(3) p by (simp_all add: cuts_ok_def)
  obtain st1 R1 L1 where 1: "Update_cold_container E t (n, ps) st = Inr st1" "filed E t S R1 L1 B st1" "set (R1 n) \<subseteq> L1 ` S"
      "\<forall>n'. n' \<noteq> n \<longrightarrow> R1 n' = R n' \<and> (\<forall>r \<in> set (R n'). r \<in> L1 ` S \<longleftrightarrow> r \<in> L ` S)"
      "kept_st st st1" "sfObj (odb st1) = sfObj (odb st)" "delta_index (odb st1) = delta_index (odb st)"
    using cut_container [OF Cons.prems(1) assms c] by blast
  have fresh: "n \<notin> fst ` set todo" "distinct (map fst todo)" using Cons.prems(2) p by auto
  have "\<forall>p \<in> set todo. cuts_ok R1 L1 S p"
  proof
    fix q assume q: "q \<in> set todo"
    then have "fst q \<noteq> n" using fresh(1) by auto
    then have s: "R1 (fst q) = R (fst q)" "\<forall>r \<in> set (R (fst q)). r \<in> L1 ` S \<longleftrightarrow> r \<in> L ` S" using 1(4) by blast+
    then have "filter (unused L1 S) (R (fst q)) = filter (unused L S) (R (fst q))" by (intro filter_cong refl) simp
    then show "cuts_ok R1 L1 S q" using Cons.prems(3) q s(1) by (simp add: cuts_ok_def cold_list_def)
  qed
  then obtain st' R' L' where 2: "foldE (Update_cold_container E t) todo st1 = Inr st'" "filed E t S R' L' B st'"
      "\<forall>n \<in> fst ` set todo. set (R' n) \<subseteq> L' ` S"
      "\<forall>n. n \<notin> fst ` set todo \<longrightarrow> R' n = R1 n \<and> (\<forall>r \<in> set (R1 n). r \<in> L' ` S \<longleftrightarrow> r \<in> L1 ` S)"
      "kept_st st1 st'" "sfObj (odb st') = sfObj (odb st1)" "delta_index (odb st') = delta_index (odb st1)"
    using Cons.IH [OF 1(2) fresh(2)] by blast
  have "R' n = R1 n" "\<forall>r \<in> set (R1 n). r \<in> L' ` S \<longleftrightarrow> r \<in> L1 ` S" using 2(4) fresh(1) by blast+
  then have n: "set (R' n) \<subseteq> L' ` S" using 1(3) by auto
  have others: "R' x = R x \<and> (\<forall>r \<in> set (R x). r \<in> L' ` S \<longleftrightarrow> r \<in> L ` S)" if "x \<notin> fst ` set (p # todo)" for x
  proof -
    have x: "x \<noteq> n" "x \<notin> fst ` set todo" using that p by auto
    then have "R1 x = R x" "\<forall>r \<in> set (R x). r \<in> L1 ` S \<longleftrightarrow> r \<in> L ` S" using 1(4) by blast+
    moreover have "R' x = R1 x" "\<forall>r \<in> set (R1 x). r \<in> L' ` S \<longleftrightarrow> r \<in> L1 ` S" using 2(4) x(2) by blast+
    ultimately show ?thesis by simp
  qed
  show ?case
  proof (intro exI [of _ st'] exI [of _ R'] exI [of _ L'] conjI)
    show "foldE (Update_cold_container E t) (p # todo) st = Inr st'" using 1(1) 2(1) p by simp
    show "filed E t S R' L' B st'" by (rule 2(2))
    show "\<forall>n \<in> fst ` set (p # todo). set (R' n) \<subseteq> L' ` S" using n 2(3) p by simp
    show "\<forall>n. n \<notin> fst ` set (p # todo) \<longrightarrow> R' n = R n \<and> (\<forall>r \<in> set (R n). r \<in> L' ` S \<longleftrightarrow> r \<in> L ` S)" using others by blast
    show "kept_st st st'" using kept_st_trans [OF 1(5) 2(5)] .
  qed (use 1(6,7) 2(6,7) in simp_all)
qed

lemma records_bound:
  assumes "laid n p rs" "length (rimage rs) \<le> MAX_CONTAINER_SIZE"
  shows "length rs \<le> 15000"
proof -
  have "length rs * META_SIZE \<le> length (rimage rs)" using assms(1) by (induction rs arbitrary: p) (fastforce simp: rec_size_def)+
  then show ?thesis using assms(2) by (simp add: meta_consts size_consts)
qed

lemma arch_name_length:
  assumes "arch t d R" "R n \<noteq> []"
  shows "length n = CONTAINER_ID_LENGTH"
proof -
  have "laid n 0 (R n)" using assms(1) by (simp add: arch_def arch1_def)
  then show ?thesis using assms(2) laid_crec_ok by (cases "R n") (auto simp: crec_ok_def entry_wf_def)
qed

lemma pass_ready_kept: "kept_st st st' \<Longrightarrow> pass_ready t st \<Longrightarrow> pass_ready t st'"
  by (simp add: pass_ready_def kept_st_def no_file_def)

text \<open>The second half of the pass: no record is left that is not in use.\<close>

lemma cold_phase_ok:
  assumes "evp_ok (ssl E)" "inj_on (keyof E) S" "stored_inv E t S R L B st"
  shows "\<exists>st' R' L'. cold_phase E t st = Inr st' \<and> stored_inv E t S R' L' B st' \<and> recs R' \<subseteq> L' ` S \<and>
    sfObj (odb st') = sfObj (odb st) \<and> delta_index (odb st') = delta_index (odb st) \<and> (pass_ready t st \<longrightarrow> pass_ready t st') \<and> pairs st' = pairs st"
proof -
  let ?v = "cold_container_set (cold st)"
  define c where "c = Ocall_Coldrevise (cold st)"
  have i: "filed E t S R L B st" "cold_ok (L ` S) R (cold st)" using assms(3) by (simp_all add: stored_inv_def)
  have a: "arch t (odisk st) R" using i(1) by (simp add: filed_def)
  have k: "distinct (cold_at (cold st) n)" "set (cold_at (cold st) n) = set (cold_list (unused L S) (R n))" "distinct ?v"
      "n \<in> set ?v \<longleftrightarrow> cold_at (cold st) n \<noteq> []" "cold_container_vector (cold st) = []" for n using i(2) by (simp_all add: cold_ok_def)
  have c: "cold_container_vector c = ?v" "cold_container_set c = []" "cold_map c = cold_map (cold st)" using k(5) by (simp_all add: c_def Ocall_Coldrevise_def)
  have ne: "R n \<noteq> []" if "n \<in> set ?v" for n
  proof
    assume "R n = []"
    then have "set (cold_at (cold st) n) = {}" unfolding k(2) by (simp add: cold_list_def)
    then have "cold_at (cold st) n = []" by (simp only: set_empty)
    with that k(4) [of n] show False by simp
  qed
  have small: "cold_small c n" if "n \<in> set ?v" for n
  proof -
    have "laid n 0 (R n)" "length (rimage (R n)) \<le> MAX_CONTAINER_SIZE" using a by (simp_all add: arch_def arch1_def)
    then have "length (R n) \<le> 15000" by (rule records_bound)
    moreover have "length (cold_at (cold st) n) \<le> length (cold_list (unused L S) (R n))"
      using distinct_card [OF k(1), of n] k(2) [of n] card_length by metis
    moreover have "length (cold_list (unused L S) (R n)) \<le> length (R n)" by (simp add: cold_list_def)
    ultimately have "length (cold_at c n) \<le> 15000" unfolding c(3) by linarith
    then show ?thesis using arch_name_length [OF a ne [OF that]] by (simp add: cold_small_def)
  qed
  have "\<exists>c1 bs v. Ocall_GetCold c = Inr c1 \<and> cold_container_vector c1 = v \<and> loaded_cold c1 bs \<and> (bs = [] \<longrightarrow> v = []) \<and> distinct v \<and> (\<forall>n \<in> set v. cold_small c1 n) \<and>
      cold_container_set c1 = [] \<and> bs @ map (cold_todo c1) (rev v) = map (cold_todo c) (rev ?v) \<and>
      (\<lambda>n. if n \<in> set v then None else cold_map c1 n) = (\<lambda>n. if n \<in> set ?v then None else cold_map c n)"
  proof (cases ?v rule: rev_cases)
    case Nil
    then obtain b where "Ocall_GetCold c = Inr (c\<lparr>off_out := b\<rparr>)" "loaded_cold (c\<lparr>off_out := b\<rparr>) []" using GetCold_none [of c] c(1) by auto
    then show ?thesis using Nil c by (intro exI [of _ "c\<lparr>off_out := b\<rparr>"] exI [of _ "[]"]) simp
  next
    case (snoc v n)
    define c1 where "c1 b = c\<lparr>off_out := b, cold_container_vector := v, cold_map := (cold_map c)(n := None)\<rparr>" for b
    obtain b where b: "Ocall_GetCold c = Inr (c1 b)" "loaded_cold (c1 b) [cold_todo c n]"
      using GetCold_one [of c v n] c(1) snoc small [of n] by (auto simp: c1_def)
    have v: "n \<notin> set v" "distinct v" using k(3) snoc by auto
    have "\<forall>x \<in> set v. cold_small (c1 b) x" using small v(1) snoc by (auto simp: cold_small_def c1_def)
    moreover have "map (cold_todo (c1 b)) (rev v) = map (cold_todo c) (rev v)" using v(1) by (auto simp: c1_def)
    moreover have "(\<lambda>x. if x \<in> set v then None else cold_map (c1 b) x) = (\<lambda>x. if x \<in> set ?v then None else cold_map c x)"
      using snoc by (intro ext) (simp add: c1_def)
    ultimately show ?thesis using b v(2) c(2) snoc by (intro exI [of _ "c1 b"] exI [of _ "[cold_todo c n]"] exI [of _ v]) (simp add: c1_def)
  qed
  then obtain c1 bs v where c1: "Ocall_GetCold c = Inr c1" "cold_container_vector c1 = v" "loaded_cold c1 bs" "bs = [] \<longrightarrow> v = []" "distinct v"
      "\<forall>n \<in> set v. cold_small c1 n" "cold_container_set c1 = []" "bs @ map (cold_todo c1) (rev v) = map (cold_todo c) (rev ?v)"
      "(\<lambda>n. if n \<in> set v then None else cold_map c1 n) = (\<lambda>n. if n \<in> set ?v then None else cold_map c n)" by blast
  obtain c' where c': "cold_map c' = (\<lambda>n. if n \<in> set ?v then None else cold_map c n)" "cold_container_vector c' = []" "cold_container_set c' = []"
      "\<forall>st. cold_loop E t c1 st = bindE (foldE (Update_cold_container E t) (map (cold_todo c) (rev ?v)) st) (\<lambda>st'. Inr (c', st'))"
    using cold_loop_flat [OF c1(2-6), of E t] unfolding c1(7-9) by blast
  have "\<forall>p \<in> set (map (cold_todo c) (rev ?v)). cuts_ok R L S p" using ne k(1,2) c(3) by (auto simp: cuts_ok_def)
  moreover have "distinct (map fst (map (cold_todo c) (rev ?v)))" using k(3) by (simp add: comp_def)
  ultimately obtain st1 R' L' where l: "foldE (Update_cold_container E t) (map (cold_todo c) (rev ?v)) st = Inr st1" "filed E t S R' L' B st1"
      "\<forall>n \<in> set ?v. set (R' n) \<subseteq> L' ` S" "\<forall>n. n \<notin> set ?v \<longrightarrow> R' n = R n \<and> (\<forall>r \<in> set (R n). r \<in> L' ` S \<longleftrightarrow> r \<in> L ` S)"
      "kept_st st st1" "sfObj (odb st1) = sfObj (odb st)" "delta_index (odb st1) = delta_index (odb st)"
    using cut_loop [OF assms(1,2) i(1), of "map (cold_todo c) (rev ?v)"] by (auto simp: image_image)
  have live: "set (R' n) \<subseteq> L' ` S" for n
  proof (cases "n \<in> set ?v")
    case False
    then have "cold_at (cold st) n = []" using k(4) [of n] by blast
    then have "set (cold_list (unused L S) (R n)) = {}" unfolding k(2) [symmetric] by (simp only: list.set(1))
    then have "set (R n) \<subseteq> L ` S" by (auto simp: cold_list_def filter_empty_conv)
    moreover have "R' n = R n" "\<forall>r \<in> set (R n). r \<in> L' ` S \<longleftrightarrow> r \<in> L ` S" using l(4) False by blast+
    ultimately show ?thesis by auto
  qed (use l(3) in blast)
  then have none: "cold_list (unused L' S) (R' n) = []" for n by (force simp: cold_list_def filter_empty_conv)
  have "cold_at c' n = []" for n using c'(1) c(3) k(4) [of n] by (auto split: if_splits option.splits)
  then have ok: "cold_ok (L' ` S) R' c'" using c'(2,3) none by (simp add: cold_ok_def)
  define st' where "st' = st1\<lparr>cold := c'\<rparr>"
  have "cold_phase E t st = Inr st'" unfolding cold_phase_def using c1(1) [unfolded c_def] c'(4) l(1) by (simp add: st'_def)
  moreover have "stored_inv E t S R' L' B st'" using l(2) ok by (simp add: stored_inv_def filed_def st'_def)
  moreover have "recs R' \<subseteq> L' ` S" using live by (auto simp: recs_def)
  moreover have "pass_ready t st'" if "pass_ready t st" using pass_ready_kept [OF l(5) that] by (simp add: pass_ready_def st'_def)
  moreover have "pairs st' = pairs st" using l(5) by (simp add: kept_st_def st'_def)
  ultimately show ?thesis using l(6,7) by (intro exI [of _ st'] exI [of _ R'] exI [of _ L']) (simp add: st'_def)
qed

end
