(* ===== verification/OfflineMerge.thy ===== *)
theory OfflineMerge
  imports OfflineCut
begin

text \<open>
  Merging base containers, the whole pass, and what it leaves behind for the restore path.
\<close>

section \<open>Two containers become one\<close>

lemma behind_relocated:
  assumes "arch t d R" "placed E S db (recs R) L B" "inj_on (keyof E) S" "recs R \<subseteq> L ` S" "n \<noteq> n'" "length n = CONTAINER_ID_LENGTH"
    "R' = R(n := R n @ map (moved (move_behind n k)) (R n'), n' := [])"
  shows "\<exists>L'. relocated E S (recs R') L L' (map (moved (move_behind n k)) (R n')) \<and> recs R' \<subseteq> L' ` S"
proof -
  let ?mv = "moved (move_behind n k)"
  define L' where "L' m = (if L m \<in> set (R n') then ?mv (L m) else L m)" for m
  have lay: "laid n' 0 (R n')" using assms(1) by (simp add: arch_def arch1_def)
  have sub: "set (R x) \<subseteq> L ` S" for x using assms(4) by (auto simp: recs_def)
  have key: "cr_key (L m) = keyof E m" if "m \<in> S" for m using placedD(3) [OF assms(2) that] by (simp add: holds_def)
  have dist: "distinct (map cr_key (map ?mv (R n')))"
    using live_keys [OF assms(2,3) laid_distinct [OF lay] sub] by (simp add: comp_def)
  have keys: "cr_key ` set (map ?mv (R n')) = cr_key ` set (R n')" by (simp add: image_image)
  have "relocated E S (recs R') L L' (map ?mv (R n'))"
    unfolding relocated_def
  proof (intro conjI ballI)
    show "distinct (map cr_key (map ?mv (R n')))" by (rule dist)
    show "cr_key ` set (map ?mv (R n')) \<subseteq> keyof E ` S" unfolding keys using sub [of n'] key by force
    fix m assume m: "m \<in> S"
    show "L' m \<in> recs R'"
    proof (cases "L m \<in> set (R n')")
      case True
      then show ?thesis using assms(5,7) by (intro recsI [of _ _ n]) (simp add: L'_def)
    next
      case False
      then obtain x where x: "L m \<in> set (R x)" "x \<noteq> n'" using placedD(1) [OF assms(2) m] by (auto simp: recs_def)
      then show ?thesis using False assms(5,7) by (intro recsI [of _ _ x]) (auto simp: L'_def)
    qed
    show "L' m \<in> set (map ?mv (R n')) \<and> shifted (L m) (L' m) \<or> L' m = L m \<and> keyof E m \<notin> cr_key ` set (map ?mv (R n'))"
    proof (cases "L m \<in> set (R n')")
      case True
      then show ?thesis using shifted_behind [OF laid_crec_ok [OF lay True] assms(6)] by (simp add: L'_def)
    next
      case False
      have "keyof E m \<notin> cr_key ` set (R n')"
      proof
        assume "keyof E m \<in> cr_key ` set (R n')"
        then obtain r where r: "r \<in> set (R n')" "keyof E m = cr_key r" by blast
        then obtain m' where m': "m' \<in> S" "r = L m'" using sub [of n'] by blast
        then have "m = m'" using inj_onD [OF assms(3) _ m m'(1)] r(2) key by simp
        with r(1) m'(2) False show False by simp
      qed
      then show ?thesis using False keys by (simp add: L'_def)
    qed
  qed
  moreover have "recs R' \<subseteq> L' ` S"
  proof
    fix r assume "r \<in> recs R'"
    then obtain x where "r \<in> set (R' x)" by (auto simp: recs_def)
    then consider "r \<in> set (R x)" "x \<noteq> n'" | r0 where "r0 \<in> set (R n')" "r = ?mv r0" using assms(5,7) by (auto split: if_splits)
    then show "r \<in> L' ` S"
    proof cases
      case 1
      then obtain m where m: "m \<in> S" "r = L m" using sub by blast
      have "L m \<notin> set (R n')" using arch_names [OF assms(1)] 1 m(2) by metis
      then have "L' m = r" using m(2) by (simp add: L'_def)
      then show ?thesis using m(1) by blast
    next
      case 2
      then obtain m where m: "m \<in> S" "r0 = L m" using sub by blast
      then have "L' m = r" using 2 by (simp add: L'_def)
      then show ?thesis using m(1) by blast
    qed
  qed
  ultimately show ?thesis by blast
qed

lemma merge_one:
  assumes "filed E t S R L B st" "recs R \<subseteq> L ` S" "evp_ok (ssl E)" "inj_on (keyof E) S" "n \<noteq> n'" "length n = CONTAINER_ID_LENGTH"
    "odisk st (base_path t n) = Some f" "odisk st (base_path t n') = Some g" "length f + length g < MAX_CONTAINER_SIZE"
  shows "\<exists>st' R' L'. merge_pair E (base_path t n, base_path t n') st = Inr st' \<and> filed E t S R' L' B st' \<and> recs R' \<subseteq> L' ` S \<and> kept_st st st' \<and>
    sfObj (odb st') = sfObj (odb st) \<and> delta_index (odb st') = delta_index (odb st) \<and>
    (\<forall>p. p \<noteq> base_path t n \<and> p \<noteq> base_path t n' \<longrightarrow> odisk st' p = odisk st p)"
proof -
  let ?mv = "moved (move_behind n (word_of_nat (length (rimage (R n)))))"
  define R' where "R' = R(n := R n @ map ?mv (R n'), n' := [])"
  have i: "arch t (odisk st) R" "placed E S (odb st) (recs R) L B" "length (ocall_container st) \<le> MAX_CONTAINER_SIZE" using assms(1) by (simp_all add: filed_def)
  have a: "arch1 t (odisk st) x (R x)" for x using i(1) by (simp add: arch_def)
  have f: "f = rimage (R n)" "odisk st (delta_path t n) = None" "\<forall>r \<in> set (R n). deltaFlag (cr_addr r) = delta_code NO_DELTA" "laid n 0 (R n)"
    using a [of n] assms(7) by (auto simp: arch1_def)
  have g: "g = rimage (R n')" "odisk st (delta_path t n') = None" "\<forall>r \<in> set (R n'). deltaFlag (cr_addr r) = delta_code NO_DELTA" "laid n' 0 (R n')"
    using a [of n'] assms(8) by (auto simp: arch1_def)
  obtain st' where st': "merge_pair E (base_path t n, base_path t n') st = Inr st'"
      "odisk st' = (odisk st)(base_path t n \<mapsto> rimage (R n @ map ?mv (R n')), base_path t n' := None)"
      "odb st' = reindex E (map ?mv (R n')) (odb st)" "ocall_container st' = ocall_container st" "kept_st st st'"
    using merge_pair_ok [OF assms(3,6) assms(7) [unfolded f(1)] assms(8) [unfolded g(1)] g(4) _ assms(5)] assms(9) g(1) by auto
  obtain L' where L': "relocated E S (recs R') L L' (map ?mv (R n'))" "recs R' \<subseteq> L' ` S"
    using behind_relocated [OF i(1,2) assms(4,2,5,6) R'_def] by blast
  have len: "length (rimage (map ?mv (R n'))) = length (rimage (R n'))"
    using length_image_moved [OF keeps_move_behind [OF assms(6)]] laid_crec_ok [OF g(4)] by blast
  have "laid n (0 + length (rimage (R n))) (map ?mv (R n'))"
    using laid_behind [OF assms(6) g(4), of "length (rimage (R n))"] assms(9) f(1) g(1) by simp
  then have lay: "laid n 0 (R n @ map ?mv (R n'))" using f(4) by (simp add: laid_append)
  have "arch1 t (odisk st') x (R' x)" for x
  proof -
    consider "x = n" | "x = n'" "x \<noteq> n" | "x \<noteq> n" "x \<noteq> n'" by blast
    then show ?thesis
    proof cases
      case 1
      have "\<forall>r \<in> set (R n @ map ?mv (R n')). deltaFlag (cr_addr r) = delta_code NO_DELTA" using f(3) g(3) by auto
      then show ?thesis using 1 lay len assms(5,9) f(1,2) g(1) st'(2) by (simp add: R'_def arch1_def no_file_def)
    next
      case 2
      then show ?thesis using g(2) st'(2) by (simp add: R'_def arch1_def)
    next
      case 3
      then show ?thesis using a [of x] st'(2) by (simp add: R'_def arch1_def no_file_def)
    qed
  qed
  then have "arch t (odisk st') R'" by (simp add: arch_def)
  then have "filed E t S R' L' B st'" using filed_relocated [OF assms(1,3) L'(1) _ st'(3)] st'(4) i(3) by simp
  then show ?thesis using st' L'(2) by (intro exI [of _ st'] exI [of _ R'] exI [of _ L']) simp
qed

section \<open>All pairs of small containers\<close>

definition base_files :: "string \<Rightarrow> string list \<Rightarrow> bool" where
  "base_files t ps \<longleftrightarrow> distinct ps \<and> (\<forall>p \<in> set ps. \<exists>n. p = base_path t n \<and> length n = CONTAINER_ID_LENGTH)"

abbreviation both :: "(string \<times> string) list \<Rightarrow> string list" where
  "both pqs \<equiv> concat (map (\<lambda>(p, q). [p, q]) pqs)"

definition merge_ok :: "disk \<Rightarrow> string \<times> string \<Rightarrow> bool" where
  "merge_ok d pq \<longleftrightarrow> (\<exists>f g. d (fst pq) = Some f \<and> d (snd pq) = Some g \<and> length f + length g < MAX_CONTAINER_SIZE)"

lemma base_sized: "arch t d R \<Longrightarrow> d (base_path t n) = Some f \<Longrightarrow> length f \<le> MAX_CONTAINER_SIZE"
  by (auto simp: arch_def arch1_def)

text \<open>The files of a directory listing are there.\<close>

definition listed :: "disk \<Rightarrow> string list \<Rightarrow> bool" where
  "listed d ps \<longleftrightarrow> (\<forall>p \<in> set ps. \<exists>f. d p = Some f)"

lemma merge_pairs_ok:
  assumes "\<And>p f. p \<in> F \<Longrightarrow> d p = Some f \<Longrightarrow> length f \<le> MAX_CONTAINER_SIZE"
  shows "set ps \<subseteq> F \<Longrightarrow> listed d ps \<Longrightarrow> distinct ps \<Longrightarrow> \<exists>pqs. merge_pairs d sizes ps = Inr pqs \<and>
    set (both pqs) \<subseteq> set ps \<and> distinct (both pqs) \<and> (\<forall>pq \<in> set pqs. merge_ok d pq)"
proof (induction "length ps" arbitrary: ps sizes rule: less_induct)
  case less
  show ?case
  proof (cases "\<exists>p q rest. ps = p # q # rest")
    case True
    then obtain p q rest where ps: "ps = p # q # rest" by blast
    then obtain f g where fg: "d p = Some f" "d q = Some g" using less.prems(2) by (auto simp: listed_def)
    let ?a = "word_of_nat (length f) :: u32" and ?b = "word_of_nat (length g) :: u32"
    have "length f \<le> MAX_CONTAINER_SIZE" "length g \<le> MAX_CONTAINER_SIZE" using assms fg less.prems(1) ps by auto
    then have sum: "unat (?a + ?b) = length f + length g"
      by (simp add: MAX_CONTAINER_SIZE_def unat_word_ariths(1) unat_of_nat take_bit_eq_mod)
    have run: "merge_pairs d sizes ps = (if length f + length g < MAX_CONTAINER_SIZE - 1
        then bindE (merge_pairs d (Some (?a, ?b)) rest) (\<lambda>rest. Inr ((p, q) # rest)) else merge_pairs d (Some (?a, ?b)) (q # rest))"
      by (simp add: ps fg sum)
    show ?thesis
    proof (cases "length f + length g < MAX_CONTAINER_SIZE - 1")
      case True
      then have "merge_ok d (p, q)" using fg by (simp add: merge_ok_def)
      moreover obtain pqs where "merge_pairs d (Some (?a, ?b)) rest = Inr pqs" "set (both pqs) \<subseteq> set rest" "distinct (both pqs)" "\<forall>pq \<in> set pqs. merge_ok d pq"
        using less.hyps [of rest "Some (?a, ?b)"] less.prems ps by (auto simp: listed_def)
      ultimately show ?thesis using True run less.prems(3) ps by (intro exI [of _ "(p, q) # pqs"]) auto
    next
      case False
      then have "merge_pairs d sizes ps = merge_pairs d (Some (?a, ?b)) (q # rest)" using run by simp
      moreover have "\<exists>pqs. merge_pairs d (Some (?a, ?b)) (q # rest) = Inr pqs \<and> set (both pqs) \<subseteq> set (q # rest) \<and> distinct (both pqs) \<and>
          (\<forall>pq \<in> set pqs. merge_ok d pq)" using less.hyps [of "q # rest" "Some (?a, ?b)"] less.prems ps by (simp add: listed_def)
      ultimately show ?thesis unfolding ps using subset_insertI by (metis (no_types, lifting) list.set(2) subset_trans)
    qed
  next
    case False
    then have "merge_pairs d sizes ps = Inr []" by (cases ps; cases "tl ps") auto
    then show ?thesis by simp
  qed
qed

lemma merge_loop:
  assumes "evp_ok (ssl E)" "inj_on (keyof E) S"
  shows "filed E t S R L B st \<Longrightarrow> recs R \<subseteq> L ` S \<Longrightarrow> base_files t (both pqs) \<Longrightarrow> \<forall>pq \<in> set pqs. merge_ok (odisk st) pq \<Longrightarrow>
    \<exists>st' R' L'. foldE (merge_pair E) pqs st = Inr st' \<and> filed E t S R' L' B st' \<and> recs R' \<subseteq> L' ` S \<and> kept_st st st' \<and>
      sfObj (odb st') = sfObj (odb st) \<and> delta_index (odb st') = delta_index (odb st)"
proof (induction pqs arbitrary: R L st)
  case Nil
  then show ?case by (intro exI [of _ st] exI [of _ R] exI [of _ L]) simp
next
  case (Cons pq pqs)
  obtain p q where pq: "pq = (p, q)" by fastforce
  have b: "p \<noteq> q" "p \<notin> set (both pqs)" "q \<notin> set (both pqs)" "base_files t (both pqs)" using Cons.prems(3) pq by (auto simp: base_files_def)
  obtain n n' where n: "p = base_path t n" "q = base_path t n'" "length n = CONTAINER_ID_LENGTH" "n \<noteq> n'"
    using Cons.prems(3) pq b(1) by (auto simp: base_files_def)
  obtain f g where fg: "odisk st (base_path t n) = Some f" "odisk st (base_path t n') = Some g" "length f + length g < MAX_CONTAINER_SIZE"
    using Cons.prems(4) pq n(1,2) by (auto simp: merge_ok_def)
  obtain st1 R1 L1 where 1: "merge_pair E (base_path t n, base_path t n') st = Inr st1" "filed E t S R1 L1 B st1" "recs R1 \<subseteq> L1 ` S" "kept_st st st1"
      "sfObj (odb st1) = sfObj (odb st)" "delta_index (odb st1) = delta_index (odb st)" "\<forall>x. x \<noteq> base_path t n \<and> x \<noteq> base_path t n' \<longrightarrow> odisk st1 x = odisk st x"
    using merge_one [OF Cons.prems(1,2) assms n(4,3) fg] by blast
  have "\<forall>pq \<in> set pqs. merge_ok (odisk st1) pq"
  proof
    fix xy assume xy: "xy \<in> set pqs"
    then have "fst xy \<in> set (both pqs)" "snd xy \<in> set (both pqs)" by (force simp: case_prod_beta)+
    then have "odisk st1 (fst xy) = odisk st (fst xy)" "odisk st1 (snd xy) = odisk st (snd xy)" using b(2,3) 1(7) n(1,2) by metis+
    then show "merge_ok (odisk st1) xy" using Cons.prems(4) xy by (simp add: merge_ok_def)
  qed
  then obtain st' R' L' where 2: "foldE (merge_pair E) pqs st1 = Inr st'" "filed E t S R' L' B st'" "recs R' \<subseteq> L' ` S" "kept_st st1 st'"
      "sfObj (odb st') = sfObj (odb st1)" "delta_index (odb st') = delta_index (odb st1)" using Cons.IH [OF 1(2,3) b(4)] by blast
  have "foldE (merge_pair E) (pq # pqs) st = Inr st'" using 1(1) 2(1) pq n(1,2) by simp
  then show ?case using 2 1(5,6) kept_st_trans [OF 1(4) 2(4)] by (intro exI [of _ st'] exI [of _ R'] exI [of _ L']) simp
qed

lemma MergeContainer_ok:
  assumes "evp_ok (ssl E)" "inj_on (keyof E) S" "filed E t S R L B st" "recs R \<subseteq> L ` S" "base_files t ps" "listed (odisk st) ps"
  shows "\<exists>st' R' L'. MergeContainer E ps st = Inr st' \<and> filed E t S R' L' B st' \<and> recs R' \<subseteq> L' ` S \<and> kept_st st st' \<and>
    sfObj (odb st') = sfObj (odb st) \<and> delta_index (odb st') = delta_index (odb st)"
proof -
  have ps: "distinct ps" "\<And>p f. p \<in> set ps \<Longrightarrow> odisk st p = Some f \<Longrightarrow> length f \<le> MAX_CONTAINER_SIZE"
    using assms(5) base_sized [of t "odisk st" R] assms(3) by (auto simp: base_files_def filed_def)
  obtain pqs where m: "merge_pairs (odisk st) None ps = Inr pqs" "set (both pqs) \<subseteq> set ps" "distinct (both pqs)" "\<forall>pq \<in> set pqs. merge_ok (odisk st) pq"
    using merge_pairs_ok [of "set ps" "odisk st" ps None] ps assms(6) by blast
  then have "base_files t (both pqs)" using assms(5) unfolding base_files_def by blast
  then show ?thesis using merge_loop [OF assms(1,2,3,4) _ m(4)] m(1) by (simp add: MergeContainer_def)
qed

end
