(* ===== verification/OfflineCorrect.thy ===== *)
theory OfflineCorrect
  imports OfflineMerge RestoreProps
begin

text \<open>
  The offline pass as a whole: what it keeps, and that every file can still be restored after it.
\<close>

section \<open>From records to the index\<close>

lemma files_sized:
  assumes "arch t d R"
  shows "sized t d"
  unfolding sized_def
proof (intro allI impI)
  fix n f assume "files_of t d n = Some f"
  then have "d (base_path t n) = Some f \<or> d (delta_path t n) = Some f"
    by (auto simp: files_of_def read_container_def split: option.splits sum.splits if_splits)
  moreover have "arch1 t d n (R n)" using assms by (simp add: arch_def)
  ultimately show "length f \<le> MAX_CONTAINER_SIZE" by (auto simp: arch1_def)
qed

lemma record_stored:
  assumes "arch t d R" "r \<in> recs R" "opens E r p"
  shows "stored E (files_of t d) (cr_addr r) p"
proof -
  let ?n = "containerName (cr_addr r)"
  have "laid ?n 0 (R ?n)" using assms(1) by (simp add: arch_def arch1_def)
  from read_chunk_record [OF this arch_rec(1) [OF assms(1,2)]] arch_files_of [OF assms(1,2)] assms(3)
  show ?thesis unfolding stored_def opens_def by blast
qed

lemma filed_base:
  assumes "filed E t S R L B st" "m \<in> S" "B m = None"
  shows "base_at E (files_of t (odisk st)) (odb st) m"
proof -
  have i: "arch t (odisk st) R" "placed E S (odb st) (recs R) L B" using assms(1) by (simp_all add: filed_def)
  note p = placedD [OF i(2) assms(2)]
  have "deltaFlag (cr_addr (L m)) = delta_code NO_DELTA" "opens E (L m) (plain_for E m)" using p(3) assms(3) by (simp_all add: holds_def)
  then have "base_chunk E (files_of t (odisk st)) (cr_addr (L m)) m" using record_stored [OF i(1) p(1)] by (simp add: base_chunk_def)
  then show ?thesis using p(2) unfolding base_at_def by blast
qed

lemma filed_chunk:
  assumes "filed E t S R L B st" "m \<in> S"
  shows "chunk_at E S (files_of t (odisk st)) (odb st) m"
proof (cases "B m")
  case None
  then show ?thesis using filed_base [OF assms] unfolding base_at_def chunk_at_def by blast
next
  case (Some mb)
  have i: "arch t (odisk st) R" "placed E S (odb st) (recs R) L B" using assms(1) by (simp_all add: filed_def)
  note p = placedD [OF i(2) assms(2)]
  have b: "mb \<in> S" "B mb = None" using p(4) Some by simp_all
  obtain d where d: "deltaFlag (cr_addr (L m)) = delta_code DELTA" "basechunkHash (cr_addr (L m)) = keyof E mb" "opens E (L m) d" "length d \<le> length m"
      "EDeltaDecode d (length d) (base_text E mb) = Inr m" using p(3) Some by (auto simp: holds_def)
  then have "delta_chunk E S (files_of t (odisk st)) (odb st) (cr_addr (L m)) m"
    unfolding delta_chunk_def using record_stored [OF i(1) p(1) d(3)] filed_base [OF assms(1) b] b(1) by blast
  then show ?thesis using p(2) unfolding chunk_at_def by blast
qed

lemma filed_db:
  assumes "filed E t S R L B st"
  shows "db_inv E S (files_of t (odisk st)) (odb st)"
proof -
  have i: "dom (indexObj (odb st)) = keyof E ` S" "sf_ok E S (odb st) L B" using assms by (simp_all add: filed_def)
  have "\<exists>m \<in> S. v = keyof E m \<and> base_at E (files_of t (odisk st)) (odb st) m" if "j < 3" "sfObj (odb st) j k = Some vs" "v \<in> set vs" for j k vs v
    using i(2) that filed_base [OF assms] unfolding sf_ok_def by metis
  then show ?thesis unfolding db_inv_def using i filed_chunk [OF assms] by (simp add: sf_ok_def)
qed

section \<open>The pass\<close>

text \<open>
  The store between two passes: every chunk has a record, every record is in use, the containers the
  counter will name next are not there yet, and the deltas of the bases \<open>D\<close> are known.
\<close>

definition offline_inv ::
  "enclave \<Rightarrow> string \<Rightarrow> bytes set \<Rightarrow> (container_name \<Rightarrow> crec list) \<Rightarrow> (bytes \<Rightarrow> crec) \<Rightarrow> (bytes \<Rightarrow> bytes option) \<Rightarrow> bytes set \<Rightarrow> off_st \<Rightarrow> bool" where
  "offline_inv E t S R L B D st \<longleftrightarrow> stored_inv E t S R L B st \<and> recs R \<subseteq> L ` S \<and> tracked E S B (odb st) D \<and> pass_ready t st"

text \<open>What the program around the pass has to guarantee.\<close>

definition pass_env ::
  "enclave \<Rightarrow> string \<Rightarrow> bytes set \<Rightarrow> ((fp \<times> fp) list \<Rightarrow> (fp \<times> fp) list) \<Rightarrow> (disk \<Rightarrow> string list) \<Rightarrow> bool" where
  "pass_env E t S ord files \<longleftrightarrow> evp_ok (ssl E) \<and> lz4_ok E \<and> inj_on (keyof E) S \<and> store_clear E S \<and> finite S \<and>
     (\<forall>xs. mset (ord xs) = mset xs) \<and> (\<forall>d. base_files t (files d) \<and> listed d (files d))"

lemma start_pass:
  assumes "offline_inv E t S R L B D st" "off_times st < INT_MAX"
  shows "\<exists>st'. fresh_hot st = Inr st' \<and> pass_inv E t S R [] L B st' \<and> odb st' = odb st \<and> pairs st' = pairs st \<and> delta_map st' = Map.empty \<and>
    off_times st' = Suc (off_times st)"
proof -
  have i: "filed E t S R L B st" "cold_ok (L ` S) R (cold st)" "pass_ready t st" using assms(1) by (simp_all add: offline_inv_def stored_inv_def)
  have r: "ht_inv (offline_htable st)" "ht_items (offline_htable st) = {}" "delta_map st = Map.empty" "\<forall>n \<in> free_names st. no_file t (odisk st) n"
    using i(3) by (simp_all add: pass_ready_def)
  obtain st' where st': "fresh_hot st = Inr st'" "hot_inv t R [] st'" "kept_hot st st'" "odisk st' = odisk st" "off_times st' = Suc (off_times st)"
    using fresh_hot_ok [OF assms(2) r(4)] by blast
  then have "pass_inv E t S R [] L B st'" using i(1,2) r(1,2) by (simp add: pass_inv_def filed_def kept_hot_def)
  then show ?thesis using st' r(3) by (intro exI [of _ st']) (simp add: kept_hot_def)
qed

lemma tracked_cong: "delta_index db' = delta_index db \<Longrightarrow> tracked E S B db' D = tracked E S B db D"
  by (simp add: tracked_def deps_ok_def delta_list_def)

definition pass_post :: "enclave \<Rightarrow> string \<Rightarrow> bytes set \<Rightarrow> bytes set \<Rightarrow> (bytes \<times> bytes) set \<Rightarrow> off_st \<Rightarrow> off_st \<Rightarrow> bool" where
  "pass_post E t S D P st st' \<longleftrightarrow> (\<exists>R' L' B'. offline_inv E t S R' L' B' (D - fst ` P) st') \<and> local_map (pairs st') = [] \<and>
     (\<forall>p \<in> P. \<not> in_sf (odb st') (keyof E (fst p))) \<and> (\<forall>v. in_sf (odb st') v \<longrightarrow> in_sf (odb st) v \<or> v \<in> keyof E ` snd ` P)"

lemma Easy_update_ok:
  assumes "pass_env E t S ord files" "pass_inv E t S R H L B st" "tracked E S B (odb st) D" "pass_pairs E S R L B D ps st" "delta_map st = Map.empty"
  shows "\<exists>st'. Easy_update E t ord files st = Inr st' \<and> pass_post E t S D (set ps) st st'"
proof -
  have e: "evp_ok (ssl E)" "lz4_ok E" "inj_on (keyof E) S" "store_clear E S" "finite S" "\<forall>xs. mset (ord xs) = mset xs" "\<forall>d. base_files t (files d) \<and> listed d (files d)"
    using assms(1) by (simp_all add: pass_env_def)
  obtain st1 where 1: "local_phase E t ord st = Inr st1" "local_post E t S D (set ps) st st1"
    using local_phase_ok [OF e(1-6) assms(2-5)] by blast
  then obtain R1 L1 B1 where s1: "stored_inv E t S R1 L1 B1 st1" "tracked E S B1 (odb st1) (D - fst ` set ps)" "pass_ready t st1" "local_map (pairs st1) = []"
      "\<forall>p \<in> set ps. \<not> in_sf (odb st1) (keyof E (fst p))" "\<forall>v. in_sf (odb st1) v \<longrightarrow> in_sf (odb st) v \<or> v \<in> keyof E ` snd ` set ps"
    unfolding local_post_def by blast
  obtain st2 R2 L2 where 2: "cold_phase E t st1 = Inr st2" "stored_inv E t S R2 L2 B1 st2" "recs R2 \<subseteq> L2 ` S" "sfObj (odb st2) = sfObj (odb st1)"
      "delta_index (odb st2) = delta_index (odb st1)" "pass_ready t st1 \<longrightarrow> pass_ready t st2" "pairs st2 = pairs st1"
    using cold_phase_ok [OF e(1,3) s1(1)] by blast
  have f: "filed E t S R2 L2 B1 st2" "cold_ok (L2 ` S) R2 (cold st2)" "base_files t (files (odisk st2))" "listed (odisk st2) (files (odisk st2))" using 2(2) e(7) by (simp_all add: stored_inv_def)
  obtain st3 R3 L3 where 3: "MergeContainer E (files (odisk st2)) st2 = Inr st3" "filed E t S R3 L3 B1 st3" "recs R3 \<subseteq> L3 ` S" "kept_st st2 st3"
      "sfObj (odb st3) = sfObj (odb st2)" "delta_index (odb st3) = delta_index (odb st2)"
    using MergeContainer_ok [OF e(1,3) f(1) 2(3) f(3,4)] by blast
  define st' where "st' = st3\<lparr>delta_map := Map.empty\<rparr>"
  have none: "cold_list (unused L S) rs = []" if "set rs \<subseteq> L ` S" for L rs using that by (force simp: cold_list_def filter_empty_conv)
  have live: "set (R2 n) \<subseteq> L2 ` S" "set (R3 n) \<subseteq> L3 ` S" for n using 2(3) 3(3) unfolding recs_def by blast+
  have "cold_ok (L3 ` S) R3 (cold st3)" using f(2) none [OF live(1)] none [OF live(2)] 3(4) by (simp add: cold_ok_def kept_st_def)
  then have "stored_inv E t S R3 L3 B1 st'" using 3(2) by (simp add: stored_inv_def filed_def st'_def)
  moreover have "pass_ready t st3" using pass_ready_kept [OF 3(4)] 2(6) s1(3) by blast
  then have "pass_ready t st'" by (simp add: pass_ready_def st'_def)
  moreover have "tracked E S B1 (odb st') (D - fst ` set ps)" using s1(2) tracked_cong [of "odb st'" "odb st1"] 2(5) 3(6) by (simp add: st'_def)
  ultimately have "offline_inv E t S R3 L3 B1 (D - fst ` set ps) st'" using 3(3) by (simp add: offline_inv_def)
  moreover have "in_sf (odb st') = in_sf (odb st1)" using 2(4) 3(5) by (intro in_sf_cong) (simp add: st'_def)
  moreover have "local_map (pairs st') = []" using s1(4) 2(7) 3(4) by (simp add: kept_st_def st'_def)
  ultimately have "pass_post E t S D (set ps) st st'" unfolding pass_post_def using s1(5,6) by auto
  moreover have "Easy_update E t ord files st = Inr st'" using 1(1) 2(1) 3(1) by (simp add: Easy_update_def st'_def)
  ultimately show ?thesis by blast
qed

lemma pass_keeps:
  assumes "pass_env E t S ord files" "offline_inv E t S R L B D st" "pass_pairs E S R L B D ps (Ocall_Localrevise order ks st)"
    "off_times st + sum_list (map (pair_work S B) ps) < INT_MAX"
  shows "\<exists>st'. ProcessOff E t True order ks ord files u s st = Inr st' \<and> pass_post E t S D (set ps) st st'"
proof -
  define st0 where "st0 = (Ocall_Localrevise order ks st)\<lparr>ostats := start_stats u s (ostats (Ocall_Localrevise order ks st))\<rparr>"
  have same: "odisk st0 = odisk st" "cold st0 = cold st" "ocall_container st0 = ocall_container st" "offline_htable st0 = offline_htable st"
      "delta_map st0 = delta_map st" "off_times st0 = off_times st" "indexObj (odb st0) = indexObj (odb st)" "sfObj (odb st0) = sfObj (odb st)"
      "delta_index (odb st0) = delta_index (odb st)" "pairs st0 = pairs (Ocall_Localrevise order ks st)"
    by (simp_all add: st0_def Ocall_Localrevise_def Let_def)
  have "offline_inv E t S R L B D st0"
    using assms(2) same placed_index [OF same(7)] sf_ok_cong [OF same(8)] tracked_cong [OF same(9)]
    by (simp add: offline_inv_def stored_inv_def filed_def pass_ready_def)
  then obtain st1 where st1: "fresh_hot st0 = Inr st1" "pass_inv E t S R [] L B st1" "odb st1 = odb st0" "pairs st1 = pairs st0" "delta_map st1 = Map.empty"
      "off_times st1 = Suc (off_times st0)" using start_pass [of E t S R L B D st0] assms(4) same(6) by auto
  have "pass_pairs E S R L B D ps st1" using assms(3,4) st1(4,6) same(6,10) by (simp add: pass_pairs_def)
  moreover have "tracked E S B (odb st1) D" using assms(2) tracked_cong [OF same(9)] st1(3) by (simp add: offline_inv_def)
  ultimately obtain st' where st': "Easy_update E t ord files st1 = Inr st'" "pass_post E t S D (set ps) st1 st'"
    using Easy_update_ok [OF assms(1) st1(2) _ _ st1(5)] by blast
  have "in_sf (odb st1) = in_sf (odb st)" using same(8) st1(3) by (intro in_sf_cong) simp
  then have "pass_post E t S D (set ps) st st'" using st'(2) by (simp add: pass_post_def)
  moreover have "ProcessOff E t True order ks ord files u s st = Inr st'"
    using st1(1) st'(1) by (simp add: ProcessOff_def ProcessOffline_def st0_def)
  ultimately show ?thesis by blast
qed

end
