(* ===== verification/OfflineProps.thy ===== *)
theory OfflineProps
  imports OfflineCorrect
begin

text \<open>
  The properties of the offline pass, with a small store to try them on: two bases in containers of their
  own and a delta against the older one in a third container.
\<close>

section \<open>A small store\<close>

definition s_old :: bytes where "s_old = replicate 40 1"
definition s_new :: bytes where "s_new = replicate 40 2"
definition s_delta :: bytes where "s_delta = 9 # replicate 39 1"

definition s_name :: "nat \<Rightarrow> container_name" where
  "s_name i = the (uuid_bytes i)"

definition s_rec :: "container_name \<Rightarrow> byte \<Rightarrow> nat \<Rightarrow> fp \<Rightarrow> byte \<Rightarrow> bytes \<Rightarrow> bytes \<Rightarrow> crec" where
  "s_rec n flag off base sf m d =
    \<lparr>cr_addr = \<lparr>containerName = n, deltaFlag = flag, addr_offset = word_of_nat off, addr_length = word_of_nat (length d),
       basechunkHash = base, superfeature = replicate (3 * CHUNK_HASH_SIZE) sf\<rparr>,
     cr_key = keyof toy_enclave m, cr_sf = replicate (3 * CHUNK_HASH_SIZE) sf, cr_data = shift_bytes 1 d, cr_iv = replicate CRYPTO_BLOCK_SIZE 0\<rparr>"

definition s_script :: "delta_unit list" where
  "s_script = [Lit [9], Copy 0 39]"

definition r_old :: crec where
  "r_old = s_rec (s_name 0) (delta_code NO_DELTA) 0 (replicate CHUNK_HASH_SIZE 0) 5 s_old s_old"

definition r_new :: crec where
  "r_new = s_rec (s_name 2) (delta_code NO_DELTA) 0 (replicate CHUNK_HASH_SIZE 0) 6 s_new s_new"

definition r_delta :: crec where
  "r_delta = s_rec (s_name 3) (delta_code DELTA) 0 (keyof toy_enclave s_old) 5 s_delta (enc_script s_script)"

text \<open>A record nothing refers to, behind the delta.\<close>

definition r_dead :: crec where
  "r_dead = s_rec (s_name 3) (delta_code DELTA) (META_SIZE + length (enc_script s_script)) (keyof toy_enclave s_old) 5 s_new s_new"

definition s_recs :: "crec list \<Rightarrow> container_name \<Rightarrow> crec list" where
  "s_recs ds n = (if n = s_name 0 then [r_old] else if n = s_name 3 then ds else if n = s_name 2 then [r_new] else [])"

definition s_place :: "bytes \<Rightarrow> crec" where
  "s_place m = (if m = s_old then r_old else if m = s_new then r_new else r_delta)"

definition s_base :: "bytes \<Rightarrow> bytes option" where
  "s_base m = (if m = s_delta then Some s_old else None)"

abbreviation s_store :: "bytes set" where
  "s_store \<equiv> {s_old, s_new, s_delta}"

definition s_db :: InMemoryDatabase where
  "s_db = \<lparr>indexObj = map_of (map (\<lambda>m. (keyof toy_enclave m, encaddr toy_enclave (cr_addr (s_place m)))) [s_old, s_new, s_delta]),
     sfObj = (\<lambda>i. [replicate CHUNK_HASH_SIZE 5 \<mapsto> [keyof toy_enclave s_old]]), delta_index = [keyof toy_enclave s_old \<mapsto> [keyof toy_enclave s_delta]],
     local_tmp_map = [keyof toy_enclave s_old \<mapsto> keyof toy_enclave s_new], skipMap = Map.empty\<rparr>"

definition s_state :: "crec list \<Rightarrow> off_st" where
  "s_state ds = \<lparr>odb = s_db, pairs = \<lparr>local_map = [], off_test = []\<rparr>,
     cold = \<lparr>cold_map = Map.empty, cold_container_set = [], cold_container_vector = [], off_out = []\<rparr>,
     odisk = [base_path ''.c'' (s_name 0) \<mapsto> rimage [r_old], delta_path ''.c'' (s_name 3) \<mapsto> rimage ds, base_path ''.c'' (s_name 2) \<mapsto> rimage [r_new]],
     ocall_container = [], oentry = hd (m_outq sample_mem), off_process = [], delta_map = Map.empty, hot_container = empty_ct, merge_buffer = [],
     newDeltaBuffer = [], offline_htable = ht_init 8, off_times = 4,
     ostats = \<lparr>offlineCompress_size = 0, offlineCurrBackup_size = 0, offlineDeltanum = 0, offlineDeDeltanum = 0, offlineDeletenum = 0,
       Offline_DeltaSaveSize = 0, off_baseChunkNum = 0, off_baseDataSize = 0, off_deltaChunkNum = 0, off_deltaDataSize = 0, off_lz4SaveSize = 0,
       off_DeltaSaveSize = 0, offlinedeltaChunkNum = 0\<rparr>\<rparr>"

lemma s_heads: "hd s_old = 1" "hd s_new = 2" "hd s_delta = 9"
  by (simp_all add: s_old_def s_new_def s_delta_def)

lemma s_heads_neq: "(1 :: byte) \<noteq> 2" "(1 :: byte) \<noteq> 9" "(2 :: byte) \<noteq> 9"
  by simp_all

lemma s_chunks: "s_old \<noteq> s_new" "s_old \<noteq> s_delta" "s_new \<noteq> s_delta" "s_new \<noteq> s_old" "s_delta \<noteq> s_old" "s_delta \<noteq> s_new"
  "length s_old = 40" "length s_new = 40" "length s_delta = 40"
proof -
  show "s_old \<noteq> s_new" "s_old \<noteq> s_delta" "s_new \<noteq> s_delta" "s_new \<noteq> s_old" "s_delta \<noteq> s_old" "s_delta \<noteq> s_new"
    using s_heads s_heads_neq by auto
qed (simp_all add: s_old_def s_new_def s_delta_def)

lemma s_keys: "inj_on (keyof toy_enclave) s_store"
proof (rule keyof_inj)
  show "evp_ok (ssl toy_enclave)" by (simp add: toy_enclave_def toy_evp_ok)
  have "hd (hashfp toy_enclave m) = hd m" if "m \<in> s_store" for m
  proof -
    have "length m = 40" using that s_chunks by auto
    then show ?thesis unfolding toy_hash by (cases m) auto
  qed
  then have "x = y" if "x \<in> s_store" "y \<in> s_store" "hashfp toy_enclave x = hashfp toy_enclave y" for x y
    using that s_heads by (metis (no_types, lifting) empty_iff insert_iff s_heads_neq)
  then show "inj_on (hashfp toy_enclave) s_store" by (rule inj_onI)
qed

lemma s_key [simp]: "length (keyof toy_enclave m) = CHUNK_HASH_SIZE"
  by (rule length_keyof) (simp add: toy_enclave_def toy_evp_ok)

lemma s_key_neq: "keyof toy_enclave s_old \<noteq> keyof toy_enclave s_new" "keyof toy_enclave s_old \<noteq> keyof toy_enclave s_delta"
  "keyof toy_enclave s_new \<noteq> keyof toy_enclave s_delta"
  using inj_onD [OF s_keys] s_chunks by blast+

lemma s_name_ok: "i < 4 \<Longrightarrow> uuid_bytes i = Some (s_name i) \<and> length (s_name i) = CONTAINER_ID_LENGTH \<and> s_name i \<notin> new_names 4 (INT_MAX)"
proof -
  assume i: "i < 4"
  then have l: "i < INT_MAX" by (simp add: INT_MAX_def)
  obtain u where u: "uuid_bytes i = Some u" "length u = CONTAINER_ID_LENGTH" using uuid_bytes_ok [OF l] by blast
  have "new_names 4 (INT_MAX) \<subseteq> new_names (Suc i) (INT_MAX)"
  proof
    fix x assume "x \<in> new_names 4 (INT_MAX)"
    then obtain j where "4 \<le> j" "j < INT_MAX" "uuid_bytes j = Some x" by (auto simp: new_names_def)
    moreover from this(1) i have "Suc i \<le> j" by simp
    ultimately show "x \<in> new_names (Suc i) (INT_MAX)" unfolding new_names_def by blast
  qed
  then show ?thesis using free_names_Suc(3) [OF u(1) l] u by (auto simp: s_name_def)
qed

lemma s_name_neq: "i < j \<Longrightarrow> j < 4 \<Longrightarrow> s_name i \<noteq> s_name j"
proof
  assume i: "i < j" "j < 4" "s_name i = s_name j"
  have "j < INT_MAX" using i(2) by (simp add: INT_MAX_def)
  then have "s_name j \<notin> used_names j" using uuid_bytes_ok s_name_ok [OF i(2)] by (metis option.inject)
  then show False using s_name_ok [of i] i by (auto simp: used_names_def)
qed

lemma s_names [simp]: "length (s_name 0) = CONTAINER_ID_LENGTH" "length (s_name 3) = CONTAINER_ID_LENGTH" "length (s_name 2) = CONTAINER_ID_LENGTH"
  "s_name 0 \<noteq> s_name 3" "s_name 0 \<noteq> s_name 2" "s_name 3 \<noteq> s_name 2" "s_name 3 \<noteq> s_name 0" "s_name 2 \<noteq> s_name 0" "s_name 2 \<noteq> s_name 3"
  using s_name_ok [of 0] s_name_ok [of 2] s_name_ok [of 3] s_name_neq [of 0 2] s_name_neq [of 0 3] s_name_neq [of 2 3] by auto

definition s_listing :: "disk \<Rightarrow> string list" where
  "s_listing d = filter (\<lambda>p. d p \<noteq> None) [base_path ''.c'' (s_name 0), base_path ''.c'' (s_name 2)]"

lemma s_env: "pass_env toy_enclave ''.c'' s_store (\<lambda>xs. xs) s_listing"
proof -
  have "store_clear toy_enclave s_store"
    using s_chunks toy_text by (auto simp: store_clear_def chunk_ok_def size_consts unlz_off_def plain_for_def plain_of_def toy_enclave_def)
  then show ?thesis
    using s_keys toy_lz4 by (auto simp: pass_env_def base_files_def listed_def s_listing_def toy_evp_ok toy_enclave_def)
qed

lemma s_rec_simps [simp]:
  "cr_addr (s_rec n flag off base sf m d) = \<lparr>containerName = n, deltaFlag = flag, addr_offset = word_of_nat off, addr_length = word_of_nat (length d),
     basechunkHash = base, superfeature = replicate (3 * CHUNK_HASH_SIZE) sf\<rparr>"
  "cr_key (s_rec n flag off base sf m d) = keyof toy_enclave m" "rec_size (s_rec n flag off base sf m d) = META_SIZE + length d"
  by (simp_all add: s_rec_def rec_size_def)

lemma s_rec_ok:
  assumes "length n = CONTAINER_ID_LENGTH" "length base = CHUNK_HASH_SIZE" "length d \<le> MAX_CHUNK_SIZE"
  shows "crec_ok n (s_rec n flag off base sf m d)" "opens toy_enclave (s_rec n flag off base sf m d) d"
proof -
  have "unat (word_of_nat (length d) :: u32) = length d" by (rule unat_of_nat_small) (use assms(3) in \<open>simp add: size_consts\<close>)
  then show "crec_ok n (s_rec n flag off base sf m d)" using assms by (simp add: crec_ok_def entry_wf_def meta_ok_def s_rec_def)
  show "opens toy_enclave (s_rec n flag off base sf m d) d"
    by (simp add: opens_def s_rec_def DecryptionWithKeyIV_def CIPHER_TYPE_def toy_enclave_def toy_evp_def evp_out_def shift_bytes_inv)
qed

lemma s_script: "length (enc_script s_script) \<le> 40" "EDeltaDecode (enc_script s_script) (length (enc_script s_script)) s_old = Inr s_delta"
proof -
  show "length (enc_script s_script) \<le> 40" by (simp add: s_script_def)
  have "run_script s_old s_script = s_delta" by (simp add: s_script_def s_old_def s_delta_def seg_def)
  moreover have "s_script \<noteq> []" "list_all (unit_ok s_old) s_script" by (simp_all add: s_script_def s_old_def)
  ultimately show "EDeltaDecode (enc_script s_script) (length (enc_script s_script)) s_old = Inr s_delta" using decode_script by metis
qed

lemma s_records:
  "crec_ok (s_name 0) r_old" "crec_ok (s_name 2) r_new" "crec_ok (s_name 3) r_delta" "crec_ok (s_name 3) r_dead"
  "opens toy_enclave r_old s_old" "opens toy_enclave r_new s_new" "opens toy_enclave r_delta (enc_script s_script)"
  using s_rec_ok s_chunks s_script(1) by (simp_all add: r_old_def r_new_def r_delta_def r_dead_def size_consts)

lemma s_flags: "deltaFlag (cr_addr r_old) = delta_code NO_DELTA" "deltaFlag (cr_addr r_new) = delta_code NO_DELTA"
  "deltaFlag (cr_addr r_delta) = delta_code DELTA" "deltaFlag (cr_addr r_dead) = delta_code DELTA"
  by (simp_all add: r_old_def r_new_def r_delta_def r_dead_def)

text \<open>The two contents of the delta container.\<close>

abbreviation s_deltas :: "crec list \<Rightarrow> bool" where
  "s_deltas ds \<equiv> ds = [r_delta] \<or> ds = [r_delta, r_dead]"

lemma s_laid: "laid (s_name 0) 0 [r_old]" "laid (s_name 2) 0 [r_new]" "s_deltas ds \<Longrightarrow> laid (s_name 3) 0 ds"
proof -
  have "unat (word_of_nat (META_SIZE + length (enc_script s_script)) :: u32) = META_SIZE + length (enc_script s_script)"
    by (rule unat_of_nat_small) (use s_script(1) in \<open>simp add: meta_consts\<close>)
  then show "s_deltas ds \<Longrightarrow> laid (s_name 3) 0 ds" using s_records by (auto simp: r_delta_def r_dead_def)
qed (use s_records in \<open>simp_all add: r_old_def r_new_def\<close>)

lemma s_arch:
  assumes "s_deltas ds"
  shows "arch ''.c'' (odisk (s_state ds)) (s_recs ds)"
proof -
  have sz: "rec_size r_old = META_SIZE + 40" "rec_size r_new = META_SIZE + 40" "rec_size r_delta \<le> META_SIZE + 40" "rec_size r_dead = META_SIZE + 40"
    using s_chunks s_script(1) by (simp_all add: r_old_def r_new_def r_delta_def r_dead_def)
  have l: "length (rimage [r_old]) \<le> MAX_CONTAINER_SIZE" "length (rimage [r_new]) \<le> MAX_CONTAINER_SIZE" "length (rimage ds) \<le> MAX_CONTAINER_SIZE"
    using assms sz s_records by (auto simp: meta_consts size_consts)
  have f: "\<forall>r \<in> set ds. deltaFlag (cr_addr r) = delta_code DELTA" using assms s_flags by auto
  show ?thesis unfolding arch_def
  proof
    fix n
    consider "n = s_name 0" | "n = s_name 3" | "n = s_name 2" | "n \<noteq> s_name 0" "n \<noteq> s_name 3" "n \<noteq> s_name 2" by blast
    then show "arch1 ''.c'' (odisk (s_state ds)) n (s_recs ds n)"
      by cases (use l f s_flags s_laid(1,2) s_laid(3) [OF assms] in \<open>auto simp: arch1_def s_recs_def s_state_def no_file_def simp del: laid.simps(2) rimage_simps(2)\<close>)
  qed
qed

lemma s_index: "m \<in> s_store \<Longrightarrow> indexObj s_db (keyof toy_enclave m) = Some (encaddr toy_enclave (cr_addr (s_place m)))"
  using s_key_neq s_chunks by (auto simp: s_db_def s_place_def)

lemma s_placed:
  assumes "r_delta \<in> set ds"
  shows "placed toy_enclave s_store (odb (s_state ds)) (recs (s_recs ds)) s_place s_base"
  unfolding placed_def
proof
  fix m assume m: "m \<in> s_store"
  have E: "evp_ok (ssl toy_enclave)" by (simp add: toy_enclave_def toy_evp_ok)
  have "r_old \<in> set (s_recs ds (s_name 0))" "r_delta \<in> set (s_recs ds (s_name 3))" "r_new \<in> set (s_recs ds (s_name 2))"
    using assms by (simp_all add: s_recs_def)
  then have rr: "r_old \<in> recs (s_recs ds)" "r_new \<in> recs (s_recs ds)" "r_delta \<in> recs (s_recs ds)" by (blast intro: recsI)+
  then have a: "s_place m \<in> recs (s_recs ds)" by (simp add: s_place_def)
  have wf: "entry_wf (cr_addr (s_place m))" using s_records by (simp add: s_place_def crec_ok_def)
  have "addr_at toy_enclave (odb (s_state ds)) (keyof toy_enclave m) (cr_addr (s_place m))"
    unfolding addr_at_def using wf s_index [OF m] encaddr_ok(3) [OF E wf] by (simp add: s_state_def)
  moreover have "plain_for toy_enclave x = x" for x by (simp add: plain_for_def plain_of_def toy_enclave_def)
  then have "holds toy_enclave s_base m (s_place m)"
    using m s_chunks s_records s_script toy_text
    by (auto simp: holds_def s_base_def s_place_def) (simp_all add: r_old_def r_new_def r_delta_def)
  ultimately show "s_place m \<in> recs (s_recs ds) \<and> addr_at toy_enclave (odb (s_state ds)) (keyof toy_enclave m) (cr_addr (s_place m)) \<and>
      holds toy_enclave s_base m (s_place m) \<and> (\<forall>mb. s_base m = Some mb \<longrightarrow> mb \<in> s_store \<and> s_base mb = None)"
    using a s_chunks by (simp add: s_base_def)
qed

lemma s_live: "recs (s_recs [r_delta]) \<subseteq> s_place ` s_store"
  using s_chunks by (auto simp: recs_def s_recs_def s_place_def split: if_splits)

lemma s_filed:
  assumes "s_deltas ds"
  shows "filed toy_enclave ''.c'' s_store (s_recs ds) s_place s_base (s_state ds)"
proof -
  have d: "dom (indexObj (odb (s_state ds))) = keyof toy_enclave ` s_store" by (auto simp: s_state_def s_db_def dom_map_of_conv_image_fst)
  have seg5: "seg (i * CHUNK_HASH_SIZE) CHUNK_HASH_SIZE (replicate (3 * CHUNK_HASH_SIZE) (5 :: byte)) = replicate CHUNK_HASH_SIZE 5" if "i < 3" for i :: nat
  proof -
    have "i = 0 \<or> i = 1 \<or> i = 2" using that by auto
    then show ?thesis by (auto simp: seg_def)
  qed
  have "sf_ok toy_enclave s_store s_db s_place s_base"
    using seg5 s_chunks by (auto simp: sf_ok_def sf_wf_def s_db_def s_base_def s_place_def r_old_def split: if_splits)
  then have sf: "sf_ok toy_enclave s_store (odb (s_state ds)) s_place s_base" by (simp add: s_state_def)
  have "r_delta \<in> set ds" using assms by auto
  from s_placed [OF this] s_arch [OF assms] d sf show ?thesis by (simp add: filed_def) (simp add: s_state_def)
qed

lemma s_cold: "cold_ok (s_place ` s_store) (s_recs [r_delta]) (cold (s_state [r_delta]))"
proof -
  have "set (s_recs [r_delta] n) \<subseteq> s_place ` s_store" for n using s_live unfolding recs_def by blast
  then have "cold_list (unused s_place s_store) (s_recs [r_delta] n) = []" for n by (force simp: cold_list_def filter_empty_conv)
  then show ?thesis by (simp add: cold_ok_def s_state_def)
qed

lemma s_inv: "offline_inv toy_enclave ''.c'' s_store (s_recs [r_delta]) s_place s_base s_store (s_state [r_delta])"
proof -
  have "tracked toy_enclave s_store s_base (odb (s_state [r_delta])) s_store"
    using s_key_neq s_chunks by (auto simp: tracked_def deps_ok_def delta_list_def s_state_def s_db_def s_base_def split: if_splits)
  moreover have "pass_ready ''.c'' (s_state [r_delta])"
    using s_name_ok [of 0] s_name_ok [of 2] s_name_ok [of 3] ht_init_inv [of 8] by (auto simp: pass_ready_def s_state_def no_file_def)
  ultimately show ?thesis using s_filed s_cold s_live by (simp add: offline_inv_def stored_inv_def)
qed

abbreviation s_keys_pair :: "fp \<times> fp" where
  "s_keys_pair \<equiv> (keyof toy_enclave s_old, keyof toy_enclave s_new)"

lemma s_encodes: "encodes s_old s_new" "encodes s_delta s_new"
  by (rule encodes_sizes; use s_chunks in \<open>auto simp: size_consts\<close>)+

lemma s_pairs:
  "pass_pairs toy_enclave s_store (s_recs [r_delta]) s_place s_base s_store [(s_old, s_new)]
     (Ocall_Localrevise [s_keys_pair] [keyof toy_enclave s_old] (s_state [r_delta]))"
proof -
  let ?st = "Ocall_Localrevise [s_keys_pair] [keyof toy_enclave s_old] (s_state [r_delta])"
  have d: "deltas_of s_store s_base s_old = {s_delta}" using s_chunks by (auto simp: s_base_def)
  have "s_place s_delta = r_delta" "r_delta \<in> set (s_recs [r_delta] (s_name 3))" using s_chunks by (simp_all add: s_place_def s_recs_def)
  then have "pair_ok toy_enclave s_store (s_recs [r_delta]) s_place s_base s_store (s_old, s_new)"
    using d s_encodes s_chunks recsI by (auto simp: pair_ok_def s_base_def)
  moreover have "local_map (pairs ?st) = [s_keys_pair]" "off_times ?st = 4"
    by (simp_all add: Ocall_Localrevise_def greedy_map_def s_state_def s_db_def)
  ultimately show ?thesis using s_chunks d by (simp add: pass_pairs_def INT_MAX_def)
qed

section \<open>Properties\<close>

text \<open>
  C4: an offline pass over pairs of an old and a new base, provided that no new base is the old base of
  another pair of the pass (no chains; the program can produce them, and then reads deltas that are still in the unsaved
  hot container). The pass ends without a fault, and afterwards the index still leads to every chunk that was
  ever stored, as a base or as a delta against a base that is there; the replaced bases are no longer in the
  feature index, no pair is left, and every record of the containers is in use. The invariant holds
  again, with the deltas of the handled bases no longer tracked (\<open>D - fst ` set ps\<close>, the delta index forgets
  them), so that the next pass can follow on pairs of the remaining bases. Required are the ciphers and LZ4
  as documented, that no stored chunk is mistaken for compressed data (\<open>store_clear\<close>), that every delta and old base of a
  pair can be encoded against the new base within the buffers (\<open>pair_ok\<close>, \<open>encodes\<close>), a directory listing of
  existing base containers, and fewer than \<open>INT_MAX\<close> container names.
\<close>

theorem offline_correct:
  assumes "pass_env E t S ord files" "offline_inv E t S R L B D st" "pass_pairs E S R L B D ps (Ocall_Localrevise order ks st)"
    "off_times st + sum_list (map (pair_work S B) ps) < INT_MAX"
  shows "\<exists>st' R' L' B'. ProcessOff E t True order ks ord files u s st = Inr st' \<and> offline_inv E t S R' L' B' (D - fst ` set ps) st' \<and>
    db_inv E S (files_of t (odisk st')) (odb st') \<and> local_map (pairs st') = [] \<and> (\<forall>p \<in> set ps. \<not> in_sf (odb st') (keyof E (fst p)))"
proof -
  obtain st' R' L' B' where st': "ProcessOff E t True order ks ord files u s st = Inr st'" "offline_inv E t S R' L' B' (D - fst ` set ps) st'"
      "local_map (pairs st') = []" "\<forall>p \<in> set ps. \<not> in_sf (odb st') (keyof E (fst p))"
    using pass_keeps [OF assms, of u s] unfolding pass_post_def by blast
  then have "filed E t S R' L' B' st'" by (simp add: offline_inv_def stored_inv_def)
  from filed_db [OF this] st' show ?thesis by blast
qed

abbreviation s_pass :: "fault + off_st" where
  "s_pass \<equiv> ProcessOff toy_enclave ''.c'' True [s_keys_pair] [keyof toy_enclave s_old] (\<lambda>xs. xs)
     s_listing (fresh_up\<lparr>onlineBackupSize := 1000\<rparr>) (stats start_st) (s_state [r_delta])"

lemma s_room: "off_times (s_state [r_delta]) + sum_list (map (pair_work s_store s_base) [(s_old, s_new)]) < INT_MAX"
proof -
  have "deltas_of s_store s_base s_old = {s_delta}" using s_chunks by (auto simp: s_base_def)
  then show ?thesis by (simp add: s_state_def INT_MAX_def)
qed

theorem offline_correct_witness:
  "\<exists>st'. s_pass = Inr st' \<and> db_inv toy_enclave s_store (files_of ''.c'' (odisk st')) (odb st') \<and> \<not> in_sf (odb st') (keyof toy_enclave s_old)"
  using offline_correct [OF s_env s_inv s_pairs s_room] by fastforce

text \<open>
  C5: restoring after an offline pass, with the buffers the program allocates. The recipe of a file whose
  chunks are stored gives back the chunks of the file, in their order and nothing else, although the pass
  moved them, encoded them again and cut and merged containers, unless more than sixteen container identifiers
  are needed at once: then, exactly, the restore writes outside their buffer; a file without deltas never needs
  more. The pass is one as in the previous theorem (\<open>pass_pairs\<close>: no chains of pairs, every new base encodes
  what it has to), and of the chunks of the file is required, in the store after the pass, that one
  stored whole is not taken for compressed data and one stored as a delta is at most twice as long as the delta and
  its base together.
\<close>

theorem offline_restore:
  assumes "pass_env E t S ord files" "offline_inv E t S R L B D st" "pass_pairs E S R L B D ps (Ocall_Localrevise order ks st)"
    "off_times st + sum_list (map (pair_work S B) ps) < INT_MAX"
    "0 < sendRecipeBatchSize E" "0 < sendChunkBatchSize E" "set ms \<subseteq> S" "read_recipe E rf = Inr (concat (map (hashfp E) ms))"
    "CONTAINERARRAY_VALUE \<le> length slots" "BASE_QUERY_SIZE \<le> length queries"
  shows "\<exists>st'. ProcessOff E t True order ks ord files u s st = Inr st' \<and>
    ((\<forall>m \<in> set ms. clear_chunk E S (files_of t (odisk st')) (odb st') m) \<longrightarrow>
      (\<exists>rs. RecvDecoder_Run E (odb st') t (odisk st') rf (InitRestoreBuffer 64 slots queries) =
          (if id_bytes E (odb st') t (odisk st') rf slots queries \<le> ID_BYTES then Inr rs else Inl WriteOutside) \<and> all_sent E ms rs) \<and>
      ((\<forall>m \<in> set ms. base_at E (files_of t (odisk st')) (odb st') m) \<longrightarrow> id_bytes E (odb st') t (odisk st') rf slots queries \<le> ID_BYTES))"
proof -
  have e: "evp_ok (ssl E)" "lz4_ok E" "\<forall>m \<in> S. chunk_ok m" using assms(1) by (simp_all add: pass_env_def store_clear_def)
  obtain st' R' L' B' where st': "ProcessOff E t True order ks ord files u s st = Inr st'" "offline_inv E t S R' L' B' (D - fst ` set ps) st'"
    using pass_keeps [OF assms(1-4), of u s] unfolding pass_post_def by blast
  then have f: "filed E t S R' L' B' st'" by (simp add: offline_inv_def stored_inv_def)
  then have sz: "sized t (odisk st')" using files_sized by (auto simp: filed_def)
  have "restores E (odb st') t (odisk st') rf slots queries ms" "\<forall>m \<in> set ms. base_at E (files_of t (odisk st')) (odb st') m \<Longrightarrow>
      id_bytes E (odb st') t (odisk st') rf slots queries \<le> ID_BYTES" if "\<forall>m \<in> set ms. clear_chunk E S (files_of t (odisk st')) (odb st') m"
    using restore_exact [OF e(1,2) assms(5,6) e(3) filed_db [OF f] sz assms(7,8) that assms(9,10)] by blast+
  with st'(1) show ?thesis unfolding restores_def by blast
qed

definition s_recipe :: bytes where
  "s_recipe = shift_bytes 3 (concat (map (hashfp toy_enclave) [s_delta, s_old]))"

lemma s_recipe: "read_recipe toy_enclave s_recipe = Inr (concat (map (hashfp toy_enclave) [s_delta, s_old]))"
proof -
  have "length (hashfp toy_enclave m) = 32" for m by (simp add: toy_hash)
  then have l: "length s_recipe = 64" by (simp add: s_recipe_def)
  have "DecryptWithKey (ssl toy_enclave) CIPHER_TYPE (masterKey toy_enclave) s_recipe = Inr (concat (map (hashfp toy_enclave) [s_delta, s_old]))"
    by (simp add: s_recipe_def DecryptWithKey_def CIPHER_TYPE_def toy_enclave_def toy_evp_def evp_out_def shift_bytes_inv)
  moreover have "sendRecipeBatchSize toy_enclave = 2" by (simp add: toy_enclave_def)
  ultimately show ?thesis using l by (subst read_recipe.simps) (auto simp: Let_def CHUNK_HASH_SIZE_def)
qed

theorem offline_restore_witness:
  "\<exists>st' rs. s_pass = Inr st' \<and> all_sent toy_enclave [s_delta, s_old] rs \<and>
    RecvDecoder_Run toy_enclave (odb st') ''.c'' (odisk st') s_recipe (InitRestoreBuffer 64 (replicate 50 []) (m_outq sample_mem)) =
    (if id_bytes toy_enclave (odb st') ''.c'' (odisk st') s_recipe (replicate 50 []) (m_outq sample_mem) \<le> ID_BYTES then Inr rs else Inl WriteOutside)"
proof -
  have e: "0 < sendRecipeBatchSize toy_enclave" "0 < sendChunkBatchSize toy_enclave" "set [s_delta, s_old] \<subseteq> s_store" by (simp_all add: toy_enclave_def)
  have c: "\<forall>m \<in> set [s_delta, s_old]. clear_chunk toy_enclave s_store w db m" for w db
    using s_chunks by (auto intro!: clear_chunkI simp: toy_text chunk_ok_def size_consts)
  have r: "CONTAINERARRAY_VALUE \<le> length (replicate 50 [])" "BASE_QUERY_SIZE \<le> length (m_outq sample_mem)"
    by (simp_all add: CONTAINERARRAY_VALUE_def BASE_QUERY_SIZE_def sample_mem_def)
  from offline_restore [OF s_env s_inv s_pairs s_room e s_recipe r] c show ?thesis by blast
qed

text \<open>
  C33: a delta that is encoded again against another base. The new delta decodes, against the new base, to
  the chunk the old delta decoded to against the old base, and it is used only when it is not
  longer than the chunk.
\<close>

theorem redelta_roundtrip:
  assumes "chunk_ok m" "length nb \<le> MAX_CHUNK_SIZE" "encodes m nb" "ht_inv (offline_htable st)" "ht_items (offline_htable st) = {}"
    "EDeltaDecode old (length old) ob = Inr m"
  shows "\<exists>d st'. GetNew_deltachunk old ob nb st = Inr (d, length d \<le> length m, st') \<and> EDeltaDecode d (length d) nb = Inr m \<and>
    odb st' = odb st \<and> odisk st' = odisk st \<and> hot_container st' = hot_container st"
proof -
  obtain d ht b s where d: "GetNew_deltachunk old ob nb st = Inr (d, length d \<le> length m, st\<lparr>offline_htable := ht, newDeltaBuffer := b, ostats := s\<rparr>)"
      "EDeltaDecode d (length d) nb = Inr m" using GetNew_deltachunk_ok [OF assms] by blast
  then show ?thesis by (intro exI [of _ d] exI [of _ "st\<lparr>offline_htable := ht, newDeltaBuffer := b, ostats := s\<rparr>"]) simp
qed

theorem redelta_roundtrip_witness:
  "\<exists>d st'. GetNew_deltachunk (enc_script s_script) s_old s_new (s_state []) = Inr (d, length d \<le> length s_delta, st') \<and>
    EDeltaDecode d (length d) s_new = Inr s_delta"
proof -
  have "chunk_ok s_delta" "length s_new \<le> MAX_CHUNK_SIZE" "ht_inv (offline_htable (s_state []))" "ht_items (offline_htable (s_state [])) = {}"
    using s_chunks ht_init_inv [of 8] by (auto simp: chunk_ok_def size_consts s_state_def)
  from redelta_roundtrip [OF this(1,2) s_encodes(2) this(3,4) s_script(2)] show ?thesis by blast
qed

text \<open>
  C34: cutting cold chunks out of a container. Whatever the order in which the places of the cold
  chunks were collected, the container keeps exactly the records that are in use, each with its content;
  the index leads to every chunk, in this and in all other containers.
\<close>

theorem cut_keeps_chunks:
  assumes "filed E t S R L B st" "evp_ok (ssl E)" "inj_on (keyof E) S" "R n \<noteq> []" "distinct ps" "set ps = set (cold_list (unused L S) (R n))"
  shows "\<exists>st' R' L'. Update_cold_container E t (n, ps) st = Inr st' \<and> filed E t S R' L' B st' \<and> set (R' n) \<subseteq> L' ` S \<and>
    db_inv E S (files_of t (odisk st')) (odb st') \<and> (\<forall>n'. n' \<noteq> n \<longrightarrow> R' n' = R n')"
proof -
  obtain st' R' L' where st': "Update_cold_container E t (n, ps) st = Inr st'" "filed E t S R' L' B st'" "set (R' n) \<subseteq> L' ` S"
      "\<forall>n'. n' \<noteq> n \<longrightarrow> R' n' = R n' \<and> (\<forall>r \<in> set (R n'). r \<in> L' ` S \<longleftrightarrow> r \<in> L ` S)"
    using cut_container [OF assms] by blast
  then show ?thesis using filed_db [OF st'(2)] by (intro exI [of _ st'] exI [of _ R'] exI [of _ L']) simp
qed

theorem cut_keeps_chunks_witness:
  "\<exists>st'. Update_cold_container toy_enclave ''.c'' (s_name 3, [cold_pair (cr_addr r_dead)]) (s_state [r_delta, r_dead]) = Inr st' \<and>
    db_inv toy_enclave s_store (files_of ''.c'' (odisk st')) (odb st')"
proof -
  have E: "evp_ok (ssl toy_enclave)" by (simp add: toy_enclave_def toy_evp_ok)
  have r: "s_recs [r_delta, r_dead] (s_name 3) = [r_delta, r_dead]" by (simp add: s_recs_def)
  have "cr_addr r_dead \<noteq> cr_addr r_old" "cr_addr r_dead \<noteq> cr_addr r_new" using s_flags by (auto simp: delta_code.simps)
  moreover have "cr_key r_dead \<noteq> cr_key r_delta" using s_key_neq by (simp add: r_dead_def r_delta_def)
  ultimately have "unused s_place s_store r_dead" "\<not> unused s_place s_store r_delta" using s_chunks by (auto simp: s_place_def)
  then have c: "cold_list (unused s_place s_store) (s_recs [r_delta, r_dead] (s_name 3)) = [cold_pair (cr_addr r_dead)]" unfolding r by (simp add: cold_list_def)
  have ne: "s_recs [r_delta, r_dead] (s_name 3) \<noteq> []" using r by simp
  have f: "filed toy_enclave ''.c'' s_store (s_recs [r_delta, r_dead]) s_place s_base (s_state [r_delta, r_dead])" by (rule s_filed) simp
  have "distinct [cold_pair (cr_addr r_dead)]" "set [cold_pair (cr_addr r_dead)] = set (cold_list (unused s_place s_store) (s_recs [r_delta, r_dead] (s_name 3)))"
    unfolding c by simp_all
  from cut_keeps_chunks [OF f E s_keys ne this] show ?thesis by blast
qed

text \<open>
  C35: merging base containers. Neighbours in the listing of the directory, whose files can be opened, that fit into one container are joined, the
  second moves behind the first, and the index leads to every chunk as before.
\<close>

theorem merge_keeps_chunks:
  assumes "evp_ok (ssl E)" "inj_on (keyof E) S" "filed E t S R L B st" "recs R \<subseteq> L ` S" "base_files t ps" "listed (odisk st) ps"
  shows "\<exists>st' R' L'. MergeContainer E ps st = Inr st' \<and> filed E t S R' L' B st' \<and> recs R' \<subseteq> L' ` S \<and>
    db_inv E S (files_of t (odisk st')) (odb st') \<and> sfObj (odb st') = sfObj (odb st) \<and> delta_index (odb st') = delta_index (odb st)"
proof -
  obtain st' R' L' where st': "MergeContainer E ps st = Inr st'" "filed E t S R' L' B st'" "recs R' \<subseteq> L' ` S"
      "sfObj (odb st') = sfObj (odb st)" "delta_index (odb st') = delta_index (odb st)" using MergeContainer_ok [OF assms] by blast
  from filed_db [OF st'(2)] st' show ?thesis by blast
qed

theorem merge_keeps_chunks_witness:
  "\<exists>st'. MergeContainer toy_enclave [base_path ''.c'' (s_name 0), base_path ''.c'' (s_name 2)] (s_state [r_delta]) = Inr st' \<and>
    db_inv toy_enclave s_store (files_of ''.c'' (odisk st')) (odb st')"
proof -
  have E: "evp_ok (ssl toy_enclave)" by (simp add: toy_enclave_def toy_evp_ok)
  have "filed toy_enclave ''.c'' s_store (s_recs [r_delta]) s_place s_base (s_state [r_delta])" by (rule s_filed) simp
  moreover have "base_files ''.c'' [base_path ''.c'' (s_name 0), base_path ''.c'' (s_name 2)]" by (auto simp: base_files_def)
  moreover have "listed (odisk (s_state [r_delta])) [base_path ''.c'' (s_name 0), base_path ''.c'' (s_name 2)]" by (simp add: listed_def s_state_def)
  ultimately show ?thesis using merge_keeps_chunks [OF E s_keys _ s_live] by blast
qed

text \<open>
  C36: the pairs come in batches. The loop ends, and it has worked on every pair exactly once, in an
  order that depends on the hash table of each batch; no pair is left behind.
\<close>

theorem all_pairs_handled:
  assumes "\<forall>xs. mset (ord xs) = mset xs" "fp_pairs (local_map q)" "distinct (map fst (local_map q))"
  shows "\<exists>q1 q' todo. Ocall_GetLocal q = Inr q1 \<and> mset todo = mset (local_map q) \<and> local_map q' = [] \<and>
    (\<forall>st. pair_loop E t ord q1 st = bindE (foldE (offline_pair E t) todo st) (\<lambda>st'. Inr (q', st')))"
  using all_pairs [OF assms] by blast

theorem all_pairs_handled_witness:
  "\<exists>q1 q' todo. Ocall_GetLocal \<lparr>local_map = [s_keys_pair], off_test = []\<rparr> = Inr q1 \<and> mset todo = {#s_keys_pair#} \<and> local_map q' = [] \<and>
    (\<forall>st. pair_loop toy_enclave ''.c'' rev q1 st = bindE (foldE (offline_pair toy_enclave ''.c'') todo st) (\<lambda>st'. Inr (q', st')))"
  using all_pairs_handled [of rev "\<lparr>local_map = [s_keys_pair], off_test = []\<rparr>" toy_enclave "''.c''"] by (simp add: fp_pairs_def)

end
