(* ===== verification/Mega.thy ===== *)
theory Mega
  imports Session
begin

text \<open>
  The MeGA index (\<open>ecallMeGA.cc\<close>), an alternative to the frequency index: a delta is made at once,
  but only against a base in a container that enough chunks of the batch refer to; nothing is left
  to the offline pass. What the class shares with the frequency index line by line (hashing, the
  top-k index, super-features, delta compression, the loop over the batch) is used from there.
  The storing of a unique chunk is shown to fulfil the contract of the loop.
\<close>

section \<open>Counting the bases of a batch\<close>

definition MeGA_THRESOLD :: nat where "MeGA_THRESOLD = 3"

type_synonym mega_map = "container_name \<rightharpoonup> nat"

definition MeGALoad :: "enclave \<Rightarrow> InQueryEntry \<Rightarrow> OutQueryEntry \<Rightarrow> mega_map \<Rightarrow> fault + InQueryEntry \<times> OutQueryEntry \<times> mega_map" where
  "MeGALoad E e o1 cm =
    (if o_deltaFlag o1 = delta_code OUT_DELTA then
       bindE (AESCBCDec (ssl E) (indexQueryKey E) (o_basechunkAddr o1)) (\<lambda>p.
         let n = containerName (entry_of p)
         in Inr (e\<lparr>i_chunkAddr := (i_chunkAddr e)\<lparr>basechunkHash := addr_base (o_chunkAddr o1)\<rparr>, i_basechunkAddr := entry_of p\<rparr>,
                 o1\<lparr>o_basechunkAddr := p\<rparr>, cm(n \<mapsto> (case cm n of None \<Rightarrow> 1 | Some k \<Rightarrow> k + 1))))
     else Inr (e, o1, cm))"

fun mega_entries ::
  "enclave \<Rightarrow> InQueryEntry list \<Rightarrow> OutQueryEntry list \<Rightarrow> mega_map \<Rightarrow> fault + InQueryEntry list \<times> OutQueryEntry list \<times> mega_map" where
  "mega_entries E [] oq cm = Inr ([], oq, cm)"
| "mega_entries E (e # es) oq cm =
    (if i_dedupFlag e = two_path_code UNIQUE then
       (case oq of [] \<Rightarrow> Inl ReadOutside
        | o1 # os \<Rightarrow>
            bindE (if o_dedupFlag o1 = two_path_code UNIQUE then MeGALoad E e o1 cm else Inr (e, o1, cm)) (\<lambda>(e', o', cm1).
            bindE (mega_entries E es os cm1) (\<lambda>(es', os', cm2). Inr (e' # es', o' # os', cm2))))
     else bindE (mega_entries E es oq cm) (\<lambda>(es', oq', cm1). Inr (e # es', oq', cm1)))"

definition MeGAChecker :: "enclave \<Rightarrow> nat \<Rightarrow> freq_st \<Rightarrow> fault + mega_map \<times> freq_st" where
  "MeGAChecker E itemNum st =
    bindE (mega_entries E (take itemNum (inQueryBase st)) (outQueryBase st) Map.empty) (\<lambda>(es, oq, cm).
      Inr (cm, st\<lparr>inQueryBase := es @ drop itemNum (inQueryBase st), outQueryBase := oq\<rparr>))"

section \<open>Whether a delta is made\<close>

text \<open>The flag in the address of the query entry, which is overwritten with the new address later.\<close>

definition clear_addr_flag :: "bytes \<Rightarrow> bytes" where
  "clear_addr_flag a = put a CONTAINER_ID_LENGTH [delta_code NO_DELTA]"

definition MeGA_Flag :: "mega_map \<Rightarrow> container_name \<Rightarrow> bool" where
  "MeGA_Flag cm n = (case cm n of None \<Rightarrow> True | Some k \<Rightarrow> \<not> k > MeGA_THRESOLD)"

text \<open>The container of the base from disk; it is read back from the cache after it was inserted.\<close>

definition mega_from_disk ::
  "string \<Rightarrow> InQueryEntry \<Rightarrow> OutQueryEntry \<Rightarrow> freq_st \<Rightarrow> fault + InQueryEntry \<times> OutQueryEntry \<times> freq_st" where
  "mega_from_disk t e o1 st =
    bindE (if o_deltaFlag o1 = delta_code OUT_DELTA then Ocall_getRefContainer t (disk_now t st) (tmpOcallcontainer st) o1
           else Inr (o1, tmpOcallcontainer st)) (\<lambda>(o2, b).
    let name = containerName (entry_of (o_basechunkAddr o2)); st1 = st\<lparr>tmpOcallcontainer := b\<rparr>
    in if o_deltaFlag o2 = delta_code DELTA \<and> \<not> ExistsInCache name (inContainercache st1) then
         bindE (InsertToCache_Offline name (o_container o2) (inContainercache st1)) (\<lambda>c1.
         bindE (ReadFromCache name c1) (\<lambda>(buf, c2).
           Inr (e\<lparr>i_chunkAddr := (i_chunkAddr e)\<lparr>basechunkHash := addr_base (o_chunkAddr o2)\<rparr>\<rparr>,
                o2\<lparr>o_container := buf\<rparr>, st1\<lparr>inContainercache := c2\<rparr>)))
       else Inr (e, o2, st1))"

definition MeGAdeltaTure ::
  "string \<Rightarrow> mega_map \<Rightarrow> InQueryEntry \<Rightarrow> OutQueryEntry \<Rightarrow> freq_st \<Rightarrow> fault + InQueryEntry \<times> OutQueryEntry \<times> freq_st" where
  "MeGAdeltaTure t cm e o1 st =
    (let name = containerName (entry_of (o_basechunkAddr o1))
     in if MeGA_Flag cm name \<and> o_deltaFlag o1 = delta_code OUT_DELTA then
          Inr (e, o1\<lparr>o_chunkAddr := clear_addr_flag (o_chunkAddr o1)\<rparr>, st)
        else if o_deltaFlag o1 = delta_code OUT_DELTA \<and> ExistsInCache name (inContainercache st) then base_from_cache e o1 st
        else mega_from_disk t e o1 st)"

section \<open>One batch\<close>

definition mega_save_delta ::
  "enclave \<Rightarrow> bytes \<Rightarrow> nat \<Rightarrow> InQueryEntry \<Rightarrow> OutQueryEntry \<Rightarrow> loop_st \<Rightarrow> fault + InQueryEntry \<times> OutQueryEntry \<times> loop_st" where
  "mega_save_delta E delta chunkSize e o1 ls =
    (let st = fst_st ls
     in bindE (ProcessSheUniqueChunk E (i_chunkAddr e) delta (i_superfeature e) (o_chunkHash o1) (up st)) (\<lambda>(a, u).
        let saved = word_of_nat chunkSize - ucast (addr_length a) :: u64; s = stats st
        in Inr (e\<lparr>i_chunkAddr := a\<rparr>, o1\<lparr>o_deltaFlag := delta_code DELTA\<rparr>,
             ls\<lparr>fst_st := st\<lparr>up := u,
               stats := s\<lparr>deltaChunkNum := deltaChunkNum s + 1, deltaDataSize := deltaDataSize s + ucast (addr_length a),
                 DeltaSaveSize := DeltaSaveSize s + saved\<rparr>\<rparr>\<rparr>)))"

definition mega_store_unique :: "enclave \<Rightarrow> string \<Rightarrow> mega_map \<Rightarrow> storer" where
  "mega_store_unique E t cm chunk e o1 ls =
    (let e1 = e\<lparr>i_deltaFlag := delta_code NO_DELTA, i_chunkAddr := (i_chunkAddr e)\<lparr>deltaFlag := delta_code NO_DELTA\<rparr>\<rparr>
     in bindE (MeGAdeltaTure t cm e1 o1 (fst_st ls)) (\<lambda>(e2, o2, st2).
        bindE (if o_deltaFlag o2 = delta_code DELTA then ProcessDeltachunk E e2 o2 chunk st2
               else Inr ([], e2, o2, st2)) (\<lambda>(delta, e3, o3, st3).
        let ls3 = ls\<lparr>fst_st := st3\<rparr>
        in bindE (if deltaFlag (i_chunkAddr e3) = delta_code DELTA then mega_save_delta E delta (length chunk) e3 o3 ls3
                  else if deltaFlag (i_chunkAddr e3) = delta_code NO_DELTA then save_base E chunk e3 o3 ls3
                  else Inr (e3, o3, ls3)) (\<lambda>(e4, o4, ls4).
           bindE (AESCBCEnc (ssl E) (indexQueryKey E) (entry_image (i_chunkAddr e4))) (\<lambda>c.
             let st4 = fst_st ls4; s = stats st4
             in Inr (e4, o4\<lparr>o_chunkAddr := c\<rparr>, ls4\<lparr>fst_st := st4\<lparr>stats := s\<lparr>uniqueChunkNum := uniqueChunkNum s + 1,
                  uniqueDataSize := uniqueDataSize s + word_of_nat (length chunk)\<rparr>\<rparr>\<rparr>))))))"

definition MeGA_ProcessOneBatch :: "enclave \<Rightarrow> string \<Rightarrow> schedule \<Rightarrow> bytes \<Rightarrow> nat \<Rightarrow> freq_st \<Rightarrow> fault + freq_st" where
  "MeGA_ProcessOneBatch E t w dataBuffer itemNum st0 =
    bindE (receive_batch E dataBuffer itemNum st0) (\<lambda>st1.
    bindE (check_topk E itemNum st1) (\<lambda>(outQueryNum, st2).
    bindE (find_similar E itemNum outQueryNum st2) (\<lambda>st3.
    bindE (MeGAChecker E itemNum st3) (\<lambda>(cm, st4).
    bindE (foldE (process_chunk E t w (mega_store_unique E t cm)) [0..<itemNum]
             \<lparr>fst_st = st4, currentOffset = 0, processNum = 0, batch_basemap = []\<rparr>) (\<lambda>ls.
    let st5 = fst_st ls
    in bindE (offer_entries (topThreshold E) (take itemNum (inQueryBase st5)) (insideDedupIndex st5)) (\<lambda>h.
         Inr (st5\<lparr>insideDedupIndex := h, queryNum := outQueryNum, currNum := 0, localIndex := Map.empty\<rparr>)))))))"

definition MeGA_Index_ProcessOneBatch :: "enclave \<Rightarrow> string \<Rightarrow> schedule \<Rightarrow> bytes \<Rightarrow> nat \<Rightarrow> freq_st \<Rightarrow> fault + freq_st" where
  "MeGA_Index_ProcessOneBatch E t w dataBuffer itemNum st =
    bindE (MeGA_ProcessOneBatch E t w dataBuffer itemNum st) (\<lambda>st'. Inr (update_outside st'))"

section \<open>The checker loads what the frequency index loads\<close>

lemma MeGALoad_eq:
  "EntryLoad E e o1 ids = Inr (e', o', ids') \<Longrightarrow> \<exists>cm'. MeGALoad E e o1 cm = Inr (e', o', cm')"
  by (auto simp: EntryLoad_def MeGALoad_def Let_def bindE_Inr_iff split: if_splits)

lemma mega_entries_eq:
  "load_entries E es oq ids = Inr (es', oq', ids') \<Longrightarrow> \<exists>cm'. mega_entries E es oq cm = Inr (es', oq', cm')"
proof (induction es arbitrary: oq ids cm es' oq' ids')
  case (Cons e es)
  show ?case
  proof (cases "i_dedupFlag e = two_path_code UNIQUE")
    case True
    with Cons.prems obtain x xs e1 x1 ids1 es1 oq1 where l: "oq = x # xs"
        "(if o_dedupFlag x = two_path_code UNIQUE then EntryLoad E e x ids else Inr (e, x, ids)) = Inr (e1, x1, ids1)"
        "load_entries E es xs ids1 = Inr (es1, oq1, ids')" "es' = e1 # es1" "oq' = x1 # oq1"
      by (auto simp: bindE_Inr_iff split: list.splits)
    obtain cm1 where "(if o_dedupFlag x = two_path_code UNIQUE then MeGALoad E e x cm else Inr (e, x, cm)) = Inr (e1, x1, cm1)"
      using l(2) MeGALoad_eq [of E e x ids e1 x1 ids1 cm] by (auto split: if_splits)
    moreover obtain cm2 where "mega_entries E es xs cm1 = Inr (es1, oq1, cm2)" using Cons.IH [OF l(3)] by blast
    ultimately show ?thesis using True l by simp
  next
    case False
    with Cons.prems obtain es1 where l: "load_entries E es oq ids = Inr (es1, oq', ids')" "es' = e # es1"
      by (auto simp: bindE_Inr_iff)
    obtain cm1 where "mega_entries E es oq cm = Inr (es1, oq', cm1)" using Cons.IH [OF l(1)] by blast
    with False l show ?thesis by simp
  qed
qed simp

section \<open>Storing a unique chunk\<close>

lemma insert_then_read:
  assumes "inc.agrees files c" "\<not> ExistsInCache n c" "files n = Some f" "length d \<le> MAX_CONTAINER_SIZE" "take (length f) d = f"
  shows "\<exists>c1 b c2. InsertToCache_Offline n d c = Inr c1 \<and> ReadFromCache n c1 = Inr (b, c2) \<and> inc.agrees files c2 \<and> take (length f) b = f"
proof -
  have c: "cache_inv c" "cache_look c n = None" using assms(1,2) by (auto simp: inc.agrees_def ExistsInCache_iff)
  obtain c1 where c1: "InsertToCache_Offline n d c = Inr c1" "inc.agrees files c1" using inc.miss [OF assms] by blast
  then have "ExistsInCache n c1" using inc.insert_ok [OF c assms(4)] by (auto simp: ExistsInCache_iff)
  from inc.hit [OF c1(2) this] c1(1) assms(3) show ?thesis by auto
qed

lemma mega_from_disk_ok:
  assumes "evp_ok (ssl E)" "undecided E S (sworld t st) (outdb st) m e x" "o_deltaFlag x = delta_code OUT_DELTA" "disk_ok t st" "ht_ok st"
    "\<not> ExistsInCache (containerName (entry_of (o_basechunkAddr x))) (inContainercache st)" "untorn x st"
  shows "\<exists>e' x' st'. mega_from_disk t e x st = Inr (e', x', st') \<and> keeps t 0 st st' \<and> decided E S (sworld t st') (outdb st) m e' x'"
proof -
  let ?n = "containerName (entry_of (o_basechunkAddr x))" and ?d = "cdisk st"
  let ?e = "e\<lparr>i_chunkAddr := (i_chunkAddr e)\<lparr>basechunkHash := addr_base (o_chunkAddr x)\<rparr>\<rparr>"
  note d = disk_okD [OF assms(4)]
  note now = disk_now_untorn [OF assms(7,3), of t]
  show ?thesis
  proof (cases "?d (base_path t ?n)")
    case None
    have "mega_from_disk t e x st = Inr (e, x\<lparr>o_deltaFlag := delta_code NO_DELTA\<rparr>, st)"
      using None assms(3) by (simp add: mega_from_disk_def Ocall_getRefContainer_def now Let_def)
    with undecided_no_delta(2) [OF assms(2)] keeps_refl [OF assms(4,5)] show ?thesis by auto
  next
    case (Some f)
    let ?b = "put (tmpOcallcontainer st) 0 f"
    have f: "length f \<le> MAX_CONTAINER_SIZE" using d(4) Some by blast
    have fl: "files_of t ?d ?n = Some f" using Some by (simp add: files_of_def read_container_def)
    have b: "take (length f) ?b = f" "length ?b \<le> MAX_CONTAINER_SIZE" using f d(6) by (simp_all add: buf_simps)
    obtain c1 buf c where c: "InsertToCache_Offline ?n ?b (inContainercache st) = Inr c1" "ReadFromCache ?n c1 = Inr (buf, c)"
        "inc.agrees (files_of t ?d) c" "take (length f) buf = f"
      using insert_then_read [OF d(3) assms(6) fl b(2,1)] by blast
    obtain mb where mb: "delta_ready E S (sworld t st) (outdb st) ?e (x\<lparr>o_container := buf\<rparr>)" "addr_base (o_chunkAddr x) = keyof E mb"
      using base_readable [OF assms(2,3,4) fl c(4)] by blast
    let ?st = "st\<lparr>tmpOcallcontainer := ?b, inContainercache := c\<rparr>"
    let ?x = "x\<lparr>o_container := buf, o_containersize := length f, o_deltaFlag := delta_code DELTA\<rparr>"
    have "memcpyE MAX_CONTAINER_SIZE (tmpOcallcontainer st) 0 f = Inr ?b" using f by (simp add: memcpyE_ok)
    then have "mega_from_disk t e x st = Inr (?e, ?x, ?st)"
      using Some assms(3,6) c(1,2) by (simp add: mega_from_disk_def Ocall_getRefContainer_def now Let_def)
    moreover have "keeps t 0 st ?st"
      using assms(4,5) b(2) c(3) by (simp add: keeps_def disk_ok_def ht_ok_def env_def sworld_def world_le_refl)
    moreover have "sworld t ?st = sworld t st" by (simp add: sworld_def)
    moreover have "decided E S (sworld t st) (outdb st) m ?e ?x"
      using undecided_delta [OF assms(2,1) mb(2), of ?x] mb(1) by (simp add: delta_ready_def)
    ultimately show ?thesis by auto
  qed
qed

lemma length_clear_addr_flag [simp]: "length a = RECIPE_ENTRY_SIZE \<Longrightarrow> length (clear_addr_flag a) = RECIPE_ENTRY_SIZE"
  by (simp add: clear_addr_flag_def buf_simps RECIPE_ENTRY_SIZE_def CONTAINER_ID_LENGTH_def)

text \<open>Decided: either as for the frequency index, or the chunk is kept whole and its flag still tells of a similar chunk.\<close>

definition mega_decided where
  "mega_decided E S w db m e x \<longleftrightarrow> decided E S w db m e x \<or>
     marked_unique E m e x \<and> deltaFlag (i_chunkAddr e) = delta_code NO_DELTA \<and> o_deltaFlag x = delta_code OUT_DELTA"

lemma MeGAdeltaTure_ok:
  assumes "evp_ok (ssl E)" "undecided E S (sworld t st) (outdb st) m e x" "disk_ok t st" "ht_ok st" "untorn x st"
  shows "\<exists>e' x' st'. MeGAdeltaTure t cm e x st = Inr (e', x', st') \<and> keeps t 0 st st' \<and> mega_decided E S (sworld t st') (outdb st) m e' x'"
proof -
  let ?n = "containerName (entry_of (o_basechunkAddr x))"
  have flags: "o_deltaFlag x = delta_code NO_DELTA \<or> o_deltaFlag x = delta_code OUT_DELTA"
    using assms(2) by (auto simp: undecided_def loaded_query_def)
  consider (none) "o_deltaFlag x = delta_code NO_DELTA" | (few) "o_deltaFlag x = delta_code OUT_DELTA" "MeGA_Flag cm ?n"
    | (cached) "o_deltaFlag x = delta_code OUT_DELTA" "\<not> MeGA_Flag cm ?n" "ExistsInCache ?n (inContainercache st)"
    | (disk) "o_deltaFlag x = delta_code OUT_DELTA" "\<not> MeGA_Flag cm ?n" "\<not> ExistsInCache ?n (inContainercache st)"
    using flags by blast
  then show ?thesis
  proof cases
    case none
    then have "MeGAdeltaTure t cm e x st = Inr (e, x, st)" by (simp add: MeGAdeltaTure_def mega_from_disk_def Let_def)
    moreover have "decided E S (sworld t st) (outdb st) m e x"
      using assms(2) none by (auto simp: undecided_def decided_def loaded_query_def)
    ultimately show ?thesis using keeps_refl [OF assms(3,4)] by (auto simp: mega_decided_def)
  next
    case few
    let ?x = "x\<lparr>o_chunkAddr := clear_addr_flag (o_chunkAddr x)\<rparr>"
    have "MeGAdeltaTure t cm e x st = Inr (e, ?x, st)" using few by (simp add: MeGAdeltaTure_def)
    moreover have "mega_decided E S (sworld t st) (outdb st) m e ?x"
      using assms(2) few(1) by (simp add: mega_decided_def marked_unique_def undecided_def loaded_query_def)
    ultimately show ?thesis using keeps_refl [OF assms(3,4)] by auto
  next
    case cached
    with base_from_cache_ok [OF assms(1,2) cached(1) assms(3,4) cached(3)] show ?thesis
      by (auto simp: MeGAdeltaTure_def mega_decided_def)
  next
    case disk
    with mega_from_disk_ok [OF assms(1,2) disk(1) assms(3,4) disk(3) assms(5)] show ?thesis
      by (auto simp: MeGAdeltaTure_def mega_decided_def)
  qed
qed

lemma mega_save_delta_ok:
  assumes "evp_ok (ssl E)" "lz4_ok E" "length d \<le> MAX_CHUNK_SIZE" "disk_ok t (fst_st ls)" "ht_ok (fst_st ls)"
    "con_times (up (fst_st ls)) < INT_MAX" "length (o_chunkHash x) = CHUNK_HASH_SIZE"
    "length (i_superfeature e) = 3 * CHUNK_HASH_SIZE" "sane (i_chunkAddr e)" "deltaFlag (i_chunkAddr e) = delta_code DELTA"
    "delta_of E S (sworld t (fst_st ls)) (outdb (fst_st ls)) (basechunkHash (i_chunkAddr e)) m d" "length d < length m"
  shows "saved_chunk E S t m e x ls (mega_save_delta E d n e x ls)"
proof -
  let ?st = "fst_st ls"
  obtain a u where s: "ProcessSheUniqueChunk E (i_chunkAddr e) d (i_superfeature e) (o_chunkHash x) (up ?st) = Inr (a, u)"
      "disk_ok t (?st\<lparr>up := u\<rparr>)" "world_le (sworld t ?st) (sworld t (?st\<lparr>up := u\<rparr>))" "con_times u \<le> Suc (con_times (up ?st))"
      "entry_wf a" "deltaFlag a = delta_code DELTA" "basechunkHash a = basechunkHash (i_chunkAddr e)"
      "inRecipe u = inRecipe (up ?st)" "recipeFile u = recipeFile (up ?st)" "stored E (sworld t (?st\<lparr>up := u\<rparr>)) a d"
    using store_chunk_ok [OF assms(1,2,4,6,3,7,8,9)] assms(10) by (auto simp: plain_of_def)
  obtain sts where r: "mega_save_delta E d n e x ls = Inr (e\<lparr>i_chunkAddr := a\<rparr>, x\<lparr>o_deltaFlag := delta_code DELTA\<rparr>,
      ls\<lparr>fst_st := ?st\<lparr>up := u, stats := sts\<rparr>\<rparr>)"
      "uniqueChunkNum sts = uniqueChunkNum (stats ?st)" "logicalChunkNum sts = logicalChunkNum (stats ?st)"
    using s(1) by (simp add: mega_save_delta_def Let_def)
  let ?ls = "ls\<lparr>fst_st := ?st\<lparr>up := u, stats := sts\<rparr>\<rparr>"
  have w: "sworld t (?st\<lparr>up := u, stats := sts\<rparr>) = sworld t (?st\<lparr>up := u\<rparr>)" by (simp add: sworld_def)
  have "keeps t 1 ?st (fst_st ?ls)"
    using assms(5) s r(2,3) by (simp add: keeps_def w) (simp add: disk_ok_def ht_ok_def env_def)
  moreover have "kept_at E S (sworld t (fst_st ?ls)) (outdb ?st) m a (delta_code DELTA)"
    using s(5,6,7,10) assms(11) less_imp_le [OF assms(12)] base_at_mono [OF s(3) db_le_refl] by (auto simp: w kept_at_def delta_chunk_def delta_of_def)
  ultimately show ?thesis unfolding saved_chunk_def r(1) by (intro exI [of _ a] exI [of _ "delta_code DELTA"] exI [of _ ?ls]) simp
qed

definition mega_save_decided where
  "mega_save_decided E delta m e x ls =
    (if deltaFlag (i_chunkAddr e) = delta_code DELTA then mega_save_delta E delta (length m) e x ls
     else if deltaFlag (i_chunkAddr e) = delta_code NO_DELTA then save_base E m e x ls else Inr (e, x, ls))"

lemma mega_save_decided_ok:
  assumes "evp_ok (ssl E)" "lz4_ok E" "chunk_ok m" "disk_ok t (fst_st ls)" "ht_ok (fst_st ls)"
    "con_times (up (fst_st ls)) < INT_MAX" "marked_unique E m e x"
    "compressed E S (sworld t (fst_st ls)) (outdb (fst_st ls)) m delta e"
  shows "saved_chunk E S t m e x ls (mega_save_decided E delta m e x ls)"
proof (cases "deltaFlag (i_chunkAddr e) = delta_code NO_DELTA")
  case True
  then show ?thesis
    using save_base_ok [OF assms(1-6), of x e S] marked_uniqueD [OF assms(7,1)] by (simp add: mega_save_decided_def)
next
  case False
  then have d: "deltaFlag (i_chunkAddr e) = delta_code DELTA" "length delta < length m"
      "delta_of E S (sworld t (fst_st ls)) (outdb (fst_st ls)) (basechunkHash (i_chunkAddr e)) m delta"
    using assms(8) by (simp_all add: compressed_def)
  then have "length delta \<le> MAX_CHUNK_SIZE" using assms(3) by (simp add: chunk_ok_def)
  then show ?thesis
    using mega_save_delta_ok [OF assms(1,2) _ assms(4-6), of delta x e S m "length m"] marked_uniqueD [OF assms(7,1)] d
    by (simp add: mega_save_decided_def)
qed

lemma mega_compress_ok:
  assumes "evp_ok (ssl E)" "lz4_ok E" "chunk_ok m" "\<forall>mb \<in> S. chunk_ok mb \<and> starts_paced m (base_text E mb)"
    "mega_decided E S (sworld t st) (outdb st) m e x" "disk_ok t st" "ht_ok st"
  shows "\<exists>delta e' x' st'. (if o_deltaFlag x = delta_code DELTA then ProcessDeltachunk E e x m st else Inr ([], e, x, st)) =
      Inr (delta, e', x', st') \<and> keeps t 0 st st' \<and> marked_unique E m e' x' \<and> compressed E S (sworld t st') (outdb st') m delta e'"
proof (cases "decided E S (sworld t st) (outdb st) m e x")
  case True
  then show ?thesis by (rule compress_ok [OF assms(1-4) _ assms(6,7)])
next
  case False
  then show ?thesis using assms(5) keeps_refl [OF assms(6,7)] by (auto simp: mega_decided_def compressed_def)
qed

lemma mega_store_unique_ok:
  assumes "evp_ok (ssl E)" "lz4_ok E" "paced E S m" "untorn x (fst_st ls)" "store_pre loaded_query E S t m e x ls"
  shows "store_post finished E S t m ls (mega_store_unique E t cm m e x ls)"
proof -
  let ?st = "fst_st ls"
  note p = store_preD [OF assms(5)]
  obtain e2 x2 st2 where o: "MeGAdeltaTure t cm (no_delta e) x ?st = Inr (e2, x2, st2)" "keeps t 0 ?st st2"
        "mega_decided E S (sworld t st2) (outdb ?st) m e2 x2"
    using MeGAdeltaTure_ok [OF assms(1) store_undecided [OF assms(5)] p(6,7) assms(4)] by blast
  have st2: "disk_ok t st2" "ht_ok st2" "outdb st2 = outdb ?st" using o(2) by (auto simp: keeps_def env_def)
  from mega_compress_ok [OF assms(1,2) p(1) assms(3) [unfolded paced_def] _ st2(1,2)] o(3) st2(3) obtain delta e3 x3 st3 where
      c: "(if o_deltaFlag x2 = delta_code DELTA then ProcessDeltachunk E e2 x2 m st2 else Inr ([], e2, x2, st2)) = Inr (delta, e3, x3, st3)"
        "keeps t 0 st2 st3" "marked_unique E m e3 x3" "compressed E S (sworld t st3) (outdb st3) m delta e3"
    by metis
  let ?ls3 = "ls\<lparr>fst_st := st3\<rparr>"
  have k: "keeps t 0 ?st st3" using keeps_trans [OF o(2) c(2)] by simp
  then have st3: "disk_ok t st3" "ht_ok st3" "con_times (up st3) < INT_MAX" using p(8) by (auto simp: keeps_def)
  have "saved_chunk E S t m e3 x3 ?ls3 (mega_save_decided E delta m e3 x3 ?ls3)"
    using st3 c(3,4) by (intro mega_save_decided_ok [OF assms(1,2) p(1)]) simp_all
  then have "store_post finished E S t m ls (seal_entry E (length m) (mega_save_decided E delta m e3 x3 ?ls3))"
    using k by (intro seal_entry_ok [OF assms(1) p(2) _ c(3), where lt = ?ls3 and ps = "[]"]) (simp_all add: pairs_ok_def)
  moreover have "mega_store_unique E t cm m e x ls = seal_entry E (length m) (mega_save_decided E delta m e3 x3 ?ls3)"
    using o(1) c(1) unfolding mega_store_unique_def mega_save_decided_def no_delta_def seal_entry_def by (simp add: Let_def count_unique_def)
  ultimately show ?thesis by simp
qed

interpretation mega: unique_storer loaded_query finished paced untorn "\<lambda>E t. mega_store_unique E t cm" for cm
  by unfold_locales (rule mega_store_unique_ok)

section \<open>What the index promises\<close>

text \<open>
  C28: a batch that the MeGA index processes ends without fault while the writer saves
  containers step by step, under every schedule in which the enclave never reads a container file while
  that file is being saved, and keeps the promises of the frequency index: every chunk ever uploaded is found under
  its fingerprint and can be rebuilt, what could be read stays readable, and exactly the new
  chunks are stored. So a restore, which depends on these promises only, gives back the files.
\<close>

theorem mega_batch_correct:
  assumes "evp_ok (ssl E)" "lz4_ok E" "2 \<le> topThreshold E" "freq_inv E t S fs st"
    "SessionKeyDec (ssl E) (sessionKey E) dataBuffer = Inr (frames ms)" "batch_ok E S ms"
    "con_times (up st) + length ms \<le> INT_MAX" "relies untorn t wr"
  shows "\<exists>st'. MeGA_Index_ProcessOneBatch E t wr dataBuffer (length ms) st = Inr st' \<and> batch_result E t S fs ms st st' \<and>
    (\<forall>m \<in> S \<union> set ms. chunk_at E (S \<union> set ms) (sworld t st') (outdb st') m)"
proof -
  note ms = batch_okD [OF assms(6)]
  have S: "\<forall>m \<in> set ms. chunk_ok m \<and> paced E S m" "index_ok E S (outdb st)"
    using assms(4) ms(5) db_inv_index by (auto simp: freq_inv_def paced_def)
  obtain st1 num st2 st3 ns where pre: "receive_batch E dataBuffer (length ms) st = Inr st1"
      "check_topk E (length ms) st1 = Inr (num, st2)" "find_similar E (length ms) num st2 = Inr st3"
      "num = length ns" "distinct ns" "set ns \<subseteq> set ms" "set ms \<subseteq> S \<union> set ns" "similar_batch E S t st ms ns st3"
    using batch_similar [OF assms(1,3,4,5) ms(1-3)] by blast
  let ?C = "start_ctx E t fs ms ns st"
  obtain es oq ids where ld: "load_entries E (take (length ms) (inQueryBase st3)) (outQueryBase st3) [] = Inr (es, oq, ids)"
      "\<And>s. uniqueChunkNum s = uniqueChunkNum (stats st) \<Longrightarrow> logicalChunkNum s = logicalChunkNum (stats st) \<Longrightarrow>
        loop_inv loaded_query finished E S t ?C ms 0 \<lparr>fst_st = st3\<lparr>inQueryBase := es @ drop (length ms) (inQueryBase st3), outQueryBase := oq, stats := s\<rparr>,
         currentOffset = 0, processNum = 0, batch_basemap = []\<rparr>"
    using loaded_batch [OF assms(1,4) pre(8)] by blast
  define st4 where "st4 = st3\<lparr>inQueryBase := es @ drop (length ms) (inQueryBase st3), outQueryBase := oq\<rparr>"
  have s3: "stats st3 = stats st" using pre(8) by (auto simp: similar_batch_def)
  have "st3\<lparr>inQueryBase := es @ drop (length ms) (inQueryBase st3), outQueryBase := oq, stats := stats st3\<rparr> = st4" by (simp add: st4_def)
  with ld(2) [of "stats st3"] s3 have li: "loop_inv loaded_query finished E S t ?C ms 0 \<lparr>fst_st = st4, currentOffset = 0, processNum = 0, batch_basemap = []\<rparr>" by simp
  obtain cm where mc: "MeGAChecker E (length ms) st3 = Inr (cm, st4)"
    using mega_entries_eq [OF ld(1), of Map.empty] by (auto simp: MeGAChecker_def st4_def)
  have c: "c_world ?C = sworld t st" "c_db ?C = outdb st" "c_size ?C = sendChunkBatchSize E" "c_times ?C = con_times (up st)"
      "c_recv ?C = frames ms @ drop (length (frames ms)) (recvBuffer st)" by (simp_all add: start_ctx_def)
  obtain ls where ls: "foldE (process_chunk E t wr (mega_store_unique E t cm)) [0..<length ms] \<lparr>fst_st = st4, currentOffset = 0, processNum = 0, batch_basemap = []\<rparr> = Inr ls"
      "loop_inv loaded_query finished E S t ?C ms (length ms) ls"
    using mega.main_loop_ok [OF assms(1,2) S(1) _ li _ _ _ c(5) assms(8), of "length ms" cm] S(2) assms(7) ms(1,4) unfolding c by auto
  have same: "fst_st ls = (fst_st ls)\<lparr>test_buffer := test_buffer (fst_st ls), outdb := outdb (fst_st ls), stats := stats (fst_st ls)\<rparr>" by simp
  from freq_index.batch_leave [OF assms(1,3) assms(4) [unfolded freq_inv_eq] ms(2,3,1) pre(5-7) ls(2) same refl refl refl refl] obtain h where
      h: "offer_entries (topThreshold E) (take (length ms) (inQueryBase (fst_st ls))) (insideDedupIndex (fst_st ls)) = Inr h"
      "batch_result E t S fs ms st (update_outside ((fst_st ls)\<lparr>insideDedupIndex := h, queryNum := length ns, currNum := 0, localIndex := Map.empty\<rparr>))"
    unfolding batch_result_eq by blast
  let ?st = "update_outside ((fst_st ls)\<lparr>insideDedupIndex := h, queryNum := length ns, currNum := 0, localIndex := Map.empty\<rparr>)"
  have "MeGA_Index_ProcessOneBatch E t wr dataBuffer (length ms) st = Inr ?st"
    using pre(1-4) mc ls(1) h(1) by (simp add: MeGA_Index_ProcessOneBatch_def MeGA_ProcessOneBatch_def Let_def)
  moreover have "\<forall>m \<in> S \<union> set ms. chunk_at E (S \<union> set ms) (sworld t ?st) (outdb ?st) m"
    using h(2) unfolding batch_result_def freq_inv_def db_inv_def by blast
  ultimately show ?thesis using h(2) by blast
qed

theorem mega_batch_correct_witness:
  "\<exists>st st'. new_client sample_mem start_st = Inr st \<and>
    MeGA_Index_ProcessOneBatch toy_enclave ''.c'' sample_writer sample_data 2 st = Inr st' \<and>
    (\<forall>m \<in> {[1, 2], [3, 4]}. chunk_at toy_enclave {[1, 2], [3, 4]} (sworld ''.c'' st') (outdb st') m) \<and> uniqueChunkNum (stats st') = 2"
proof -
  have st0: "con_times (up start_st) = 1" "stats start_st = zero_stats"
    by (simp_all add: start_st_def EcallFreqIndex_new_def fresh_up_def store_st.defs fresh_store_def)
  have E: "0 < sendRecipeBatchSize toy_enclave" "evp_ok (ssl toy_enclave)" "2 \<le> topThreshold toy_enclave"
    by (simp_all add: toy_enclave_def toy_evp_ok)
  have c: "con_times (up start_st) + 2 \<le> INT_MAX" by (simp add: st0 size_consts)
  obtain st where st: "new_client sample_mem start_st = Inr st" "freq_inv toy_enclave ''.c'' {} [] st"
      "con_times (up st) = con_times (up start_st) + 2" "stats st = stats start_st"
    using new_client_ok [OF start_idle sample_mem_ok c E(1)] by blast
  have n: "length sample_chunks = 2" "set sample_chunks = {[1, 2], [3, 4]}" by (simp_all add: sample_chunks_def)
  have c1: "con_times (up st) + length sample_chunks \<le> INT_MAX" by (simp add: n st(3) st0 size_consts)
  from mega_batch_correct [OF E(2) toy_lz4 E(3) st(2) sample_sent upload_ok_Cons(1) [OF sample_upload] c1 sample_relies]
  obtain st' where "MeGA_Index_ProcessOneBatch toy_enclave ''.c'' sample_writer sample_data 2 st = Inr st'"
      "\<forall>m \<in> {[1, 2], [3, 4]}. chunk_at toy_enclave {[1, 2], [3, 4]} (sworld ''.c'' st') (outdb st') m"
      "uniqueChunkNum (stats st') = uniqueChunkNum (stats st) + word_of_nat (card {[1, 2], [3, 4 :: byte]})"
    unfolding batch_result_def n Un_empty_left Diff_empty by blast
  then show ?thesis using st(1,4) by (auto simp: st0 zero_stats_def)
qed















end
