(* ===== verification/Debe.thy ===== *)
theory Debe
  imports Session
begin

text \<open>
  The DEBE index (\<open>ecallDEBE.cc\<close>), an alternative to the frequency index without delta compression:
  a unique chunk is compressed, encrypted and written to a container as ciphertext and IV, without
  the header that the other indexes put in front. Hashing, the top-k index and the loop over the batch are
  used from the frequency index, of which the class has textual copies. The index keeps its own promise,
  shown with the shared loop; the layout is not the one the restore path reads.
\<close>

section \<open>One batch\<close>

text \<open>A chunk that is unique inside and outside. No delta flag is set, and no super-feature is computed.\<close>

definition debe_store_unique :: "enclave \<Rightarrow> storer" where
  "debe_store_unique E chunk e o1 ls =
    (let st = fst_st ls
     in bindE (ProcessUniqueChunk E (i_chunkAddr e) chunk (up st)) (\<lambda>(a, u).
        bindE (AESCBCEnc (ssl E) (indexQueryKey E) (entry_image a)) (\<lambda>c.
          let s = stats st
          in Inr (e\<lparr>i_chunkAddr := a\<rparr>, o1\<lparr>o_chunkAddr := c\<rparr>,
               ls\<lparr>fst_st := st\<lparr>up := u, stats := s\<lparr>lz4SaveSize := lz4SaveSize s + (word_of_nat (length chunk) - ucast (addr_length a)),
                 baseChunkNum := baseChunkNum s + 1, baseDataSize := baseDataSize s + ucast (addr_length a),
                 uniqueChunkNum := uniqueChunkNum s + 1, uniqueDataSize := uniqueDataSize s + word_of_nat (length chunk)\<rparr>\<rparr>\<rparr>))))"

definition debe_query :: "nat \<Rightarrow> freq_st \<Rightarrow> freq_st" where
  "debe_query outQueryNum st =
    (if outQueryNum \<noteq> 0
     then st\<lparr>queryNum := outQueryNum, outQueryBase := Ocall_QueryOutIndex (outdb st) outQueryNum (outQueryBase st),
       stats := (stats st)\<lparr>Inline_FPOcall := Inline_FPOcall (stats st) + 1\<rparr>\<rparr>
     else st)"

text \<open>
  The loop walks the query entries with a local pointer, which is the \<open>currNum\<close> of the shared
  loop; the field of that name is left as it was.
\<close>

definition DEBE_ProcessOneBatch :: "enclave \<Rightarrow> string \<Rightarrow> schedule \<Rightarrow> bytes \<Rightarrow> nat \<Rightarrow> freq_st \<Rightarrow> fault + freq_st" where
  "DEBE_ProcessOneBatch E t w dataBuffer itemNum st0 =
    bindE (receive_batch E dataBuffer itemNum st0) (\<lambda>st1.
    bindE (check_topk E itemNum st1) (\<lambda>(outQueryNum, st2).
    let st3 = debe_query outQueryNum st2
    in bindE (foldE (process_chunk E t w (debe_store_unique E)) [0..<itemNum]
             \<lparr>fst_st = st3\<lparr>currNum := 0\<rparr>, currentOffset = 0, processNum = 0, batch_basemap = []\<rparr>) (\<lambda>ls.
       let st4 = fst_st ls
       in bindE (offer_entries (topThreshold E) (take itemNum (inQueryBase st4)) (insideDedupIndex st4)) (\<lambda>h.
            Inr (st4\<lparr>insideDedupIndex := h, queryNum := outQueryNum, currNum := currNum st3, localIndex := Map.empty\<rparr>)))))"

definition DEBE_Index_ProcessOneBatch :: "enclave \<Rightarrow> string \<Rightarrow> schedule \<Rightarrow> bytes \<Rightarrow> nat \<Rightarrow> freq_st \<Rightarrow> fault + freq_st" where
  "DEBE_Index_ProcessOneBatch E t w dataBuffer itemNum st =
    bindE (DEBE_ProcessOneBatch E t w dataBuffer itemNum st) (\<lambda>st'. Inr (update_outside st'))"

section \<open>What the index promises\<close>

text \<open>The bytes at an address and the IV right behind them decrypt to \<open>p\<close>.\<close>

definition plain_at :: "enclave \<Rightarrow> (container_name \<Rightarrow> bytes option) \<Rightarrow> RecipeEntry \<Rightarrow> bytes \<Rightarrow> bool" where
  "plain_at E w a p \<longleftrightarrow>
    (\<exists>b. w (containerName a) = Some b \<and> unat (addr_offset a) + length p + CRYPTO_BLOCK_SIZE \<le> length b \<and> unat (addr_length a) = length p \<and>
       DecryptionWithKeyIV (ssl E) CIPHER_TYPE (enclaveKey E) (seg (unat (addr_offset a) + length p) CRYPTO_BLOCK_SIZE b)
         (seg (unat (addr_offset a)) (length p) b) = Inr p)"

definition debe_at :: "enclave \<Rightarrow> (container_name \<Rightarrow> bytes option) \<Rightarrow> InMemoryDatabase \<Rightarrow> bytes \<Rightarrow> bool" where
  "debe_at E w db m \<longleftrightarrow> (\<exists>a. addr_at E db (keyof E m) a \<and> plain_at E w a (plain_for E m))"

definition debe_db :: index_spec where
  "debe_db E S w db \<longleftrightarrow> dom (indexObj db) = keyof E ` S \<and> (\<forall>m \<in> S. debe_at E w db m)"

definition debe_entry :: entry_spec where
  "debe_entry E S w db m x \<longleftrightarrow> marked_entry E S m x \<and>
    (m \<notin> S \<longrightarrow> (\<exists>a. AESCBCDec (ssl E) (indexQueryKey E) (o_chunkAddr x) = Inr (entry_image a) \<and> entry_wf a \<and> plain_at E w a (plain_for E m)))"

lemma plain_at_mono:
  assumes "world_le w w'" "plain_at E w a p"
  shows "plain_at E w' a p"
proof -
  obtain b where b: "w (containerName a) = Some b" "unat (addr_offset a) + length p + CRYPTO_BLOCK_SIZE \<le> length b"
      "unat (addr_length a) = length p"
      "DecryptionWithKeyIV (ssl E) CIPHER_TYPE (enclaveKey E) (seg (unat (addr_offset a) + length p) CRYPTO_BLOCK_SIZE b)
         (seg (unat (addr_offset a)) (length p) b) = Inr p"
    using assms(2) unfolding plain_at_def by blast
  then have "b \<noteq> []" by (auto simp: CRYPTO_BLOCK_SIZE_def)
  then obtain r where "w' (containerName a) = Some (b @ r)" using assms(1) b(1) unfolding world_le_def by blast
  moreover have "seg i n (b @ r) = seg i n b" if "i + n \<le> length b" for i n using that by (simp add: seg_def)
  ultimately show ?thesis using b(2-4) by (auto simp: plain_at_def)
qed

lemma debe_at_mono: "world_le w w' \<Longrightarrow> db_le db db' \<Longrightarrow> debe_at E w db m \<Longrightarrow> debe_at E w' db' m"
  unfolding debe_at_def using plain_at_mono addr_at_mono by blast

lemma debe_update:
  assumes "evp_ok (ssl E)" "debe_db E S w db" "list_all2 (debe_entry E S w db) ns xs" "distinct ns" "inj_on (keyof E) (S \<union> set ns)"
  shows "debe_db E (S \<union> set ns) w (fold update_entry xs db)"
proof -
  let ?db = "fold update_entry xs db"
  have mk: "list_all2 (marked_entry E S) ns xs" using assms(3) by (rule list_all2_mono) (simp add: debe_entry_def)
  have "dom (indexObj db) = keyof E ` S" using assms(2) by (simp add: debe_db_def)
  note u = updated_index [OF assms(1) mk assms(4,5) this]
  have "debe_at E w ?db m" if m: "m \<in> S \<union> set ns" for m
  proof (cases "m \<in> S")
    case True
    then have "debe_at E w db m" using assms(2) by (simp add: debe_db_def)
    then show ?thesis by (rule debe_at_mono [OF world_le_refl u(1)])
  next
    case False
    then obtain x where x: "(m, x) \<in> set (zip ns xs)" using m list_all2_lengthD [OF mk] by (metis Un_iff in_set_impl_in_set_zip1)
    then have "debe_entry E S w db m x" using assms(3) by (auto simp: list_all2_iff)
    with False u(3) [OF x False] show ?thesis by (auto simp: debe_entry_def debe_at_def addr_at_def)
  qed
  then show ?thesis using u(2) by (simp add: debe_db_def)
qed

section \<open>Storing a chunk\<close>

lemma place_plain_names: "place_plain d a off st = Inr (a', st') \<Longrightarrow> same_names st st'"
  by (auto simp: place_plain_def Let_def bindE_Inr_iff same_names_def cur_names_def count_written_def)

text \<open>What saving does to the queue of containers.\<close>

lemma SaveChunk_frame:
  assumes "SaveChunk d a st = Inr (a', st')" "store_inv st" "small_queue st"
  shows "grows st st'" "small_queue st'"
proof -
  let ?st1 = "\<lambda>c. st\<lparr>curContainer := c, inContainer := (inContainer st)\<lparr>curSize := 0\<rparr>\<rparr>"
  consider (fits) "same_names st st'"
    | (full) c st1 where "dump_container (inContainer st) (curContainer st) = Inr c" "Ocall_WriteContainer (?st1 c) = Inr st1" "same_names st1 st'"
    using assms(1) by (auto simp: SaveChunk_def Let_def bindE_Inr_iff split: if_splits dest!: place_plain_names)
  then have "grows st st' \<and> small_queue st'"
  proof cases
    case fits
    then show ?thesis using grows_same_right [OF grows_refl] small_same [OF assms(3)] by blast
  next
    case (full c st1)
    have "same_names st (?st1 c)" using dump_container_ID [OF full(1)] by (simp add: same_names_def cur_names_def)
    from grows_same_right [OF grows_same_left [OF this Ocall_WriteContainer_grows [OF full(2)]] full(3)]
    have "grows st st'" .
    moreover have "small_queue (?st1 c)" using assms(3) by (simp add: small_queue_def)
    from small_write(1) [OF this _ full(2)] dump_size [OF full(1)] assms(2) have "small_queue st1" by (simp add: store_inv_def ic_ok_def)
    then have "small_queue st'" using full(3) by (rule small_same)
    ultimately show ?thesis by blast
  qed
  then show "grows st st'" "small_queue st'" by simp_all
qed

lemma fetch_plain_at:
  assumes "fetch st a (length (c @ iv)) = Some (c @ iv)" "length c = length p" "length iv = CRYPTO_BLOCK_SIZE"
    "unat (addr_length a) = length p" "DecryptionWithKeyIV (ssl E) CIPHER_TYPE (enclaveKey E) iv c = Inr p"
  shows "plain_at E (world t d st) a p"
proof -
  let ?o = "unat (addr_offset a)"
  obtain b where b: "container_bytes st (containerName a) = Some b" "?o + length (c @ iv) \<le> length b" "seg ?o (length (c @ iv)) b = c @ iv"
    using assms(1) by (auto simp: fetch_def bind_eq_Some_conv split: if_splits)
  have "seg ?o (length c) b = take (length c) (seg ?o (length (c @ iv)) b)" by (simp add: seg_def min_def)
  then have 1: "seg ?o (length c) b = c" using b(3) by simp
  have "seg (?o + length c) (length iv) b = drop (length c) (seg ?o (length (c @ iv)) b)" by (simp add: seg_def drop_take add.commute)
  then have 2: "seg (?o + length c) (length iv) b = iv" using b(3) by simp
  have "world t d st (containerName a) = Some b" using b(1) by (simp add: world_def)
  then show ?thesis using b(2) 1 2 assms(2-5) by (auto simp: plain_at_def)
qed

lemma ProcessUniqueChunk_ok:
  assumes "evp_ok (ssl E)" "lz4_ok E" "store_inv st" "con_times st < INT_MAX" "length chunk \<le> MAX_CHUNK_SIZE" "sane a"
  shows "\<exists>a' st' c. ProcessUniqueChunk E a chunk st = Inr (a', st') \<and>
    SaveChunk c a (count_stored (length (plain_for E chunk)) (PickNewIV st)) = Inr (a', st') \<and> store_inv st' \<and> extends st st' \<and>
    con_times st' \<le> Suc (con_times st) \<and> entry_wf a' \<and> inRecipe st' = inRecipe st \<and> recipeFile st' = recipeFile st \<and>
    plain_at E (world t d st') a' (plain_for E chunk)"
proof -
  let ?p = "plain_for E chunk" and ?st1 = "PickNewIV st" and ?iv = "next_iv (client_iv st)"
  have len: "length ?p \<le> MAX_CHUNK_SIZE" by (rule length_plain_for [OF assms(2,5)])
  obtain c where c: "seal_chunk E (lz4_compress E chunk (length chunk)) chunk ?st1 = Inr (c, count_stored (length ?p) ?st1)" "length c = length ?p"
      "DecryptionWithKeyIV (ssl E) CIPHER_TYPE (enclaveKey E) ?iv c = Inr ?p"
    using seal_chunk_ok [OF assms(1), of "lz4_compress E chunk (length chunk)" chunk ?st1] len by (auto simp: store_frame plain_for_def)
  let ?st2 = "count_stored (length ?p) ?st1"
  have inv: "store_inv ?st2" using assms(3) PickNewIV_inv store_frame by blast
  have fit: "con_times ?st2 < INT_MAX" "CRYPTO_BLOCK_SIZE + length c < MAX_CONTAINER_SIZE"
    using assms(4) len c(2) by (simp_all add: store_frame size_consts)
  obtain a' st' where s: "SaveChunk c a ?st2 = Inr (a', st')" "saved ?st2 a' (c @ ?iv) st'"
      "a' = a\<lparr>addr_length := word_of_nat (length c), containerName := containerName a', addr_offset := addr_offset a'\<rparr>"
    using SaveChunk_ok [OF inv fit, of a] by (auto simp: store_frame)
  have f: "addr_length a' = word_of_nat (length c)" "basechunkHash a' = basechunkHash a" "superfeature a' = superfeature a"
    by (subst s(3), simp)+
  have iv: "length ?iv = CRYPTO_BLOCK_SIZE" using assms(3) by (simp add: store_inv_def)
  have "unat (addr_length a') = length ?p"
    unfolding f(1) c(2) using len by (intro unat_of_nat_small) (simp add: size_consts)
  moreover have "fetch st' a' (length (c @ ?iv)) = Some (c @ ?iv)" using s(2) by (simp add: saved_def)
  ultimately have "plain_at E (world t d st') a' ?p" by (intro fetch_plain_at [OF _ c(2) iv _ c(3)])
  moreover have "ProcessUniqueChunk E a chunk st = Inr (a', st')" using c(1) s(1) by (simp add: ProcessUniqueChunk_def)
  moreover have "inRecipe st' = inRecipe st" "recipeFile st' = recipeFile st"
    using s(2) up_more [of st' ?st2] by (simp_all add: saved_def count_stored_def PickNewIV_def)
  moreover have "entry_wf a'" using assms(6) s(2) f by (simp add: entry_wf_def sane_def saved_def)
  ultimately show ?thesis using s by (auto simp: saved_def store_frame)
qed

lemma debe_store_ok:
  assumes "evp_ok (ssl E)" "lz4_ok E" "store_pre (\<lambda>E S w db m e x. True) E S t m e x ls"
  shows "store_post debe_entry E S t m ls (debe_store_unique E m e x ls)"
proof -
  let ?st = "fst_st ls"
  note p = store_preD [OF assms(3)]
  note d = disk_okD [OF p(6)]
  have x: "o_chunkHash x = keyof E m" "o_dedupFlag x = two_path_code UNIQUE" using p(2,3) by (simp_all add: asked_def)
  obtain a u c where s: "ProcessUniqueChunk E (i_chunkAddr e) m (up ?st) = Inr (a, u)"
      "SaveChunk c (i_chunkAddr e) (count_stored (length (plain_for E m)) (PickNewIV (up ?st))) = Inr (a, u)" "store_inv u" "extends (up ?st) u"
      "con_times u \<le> Suc (con_times (up ?st))" "entry_wf a" "inRecipe u = inRecipe (up ?st)" "recipeFile u = recipeFile (up ?st)"
      "plain_at E (world t (cdisk ?st) u) a (plain_for E m)"
    using ProcessUniqueChunk_ok [OF assms(1,2) d(1) p(8), of m "i_chunkAddr e" t "cdisk ?st"] p(1,4)
    by (auto simp: chunk_ok_def entry_for_def)
  let ?st1 = "count_stored (length (plain_for E m)) (PickNewIV (up ?st))"
  have st1: "store_inv ?st1" "small_queue ?st1" "same_names (up ?st) ?st1"
    using PickNewIV_inv [OF d(1)] d(5) store_frame(1)
    by (simp_all add: small_queue_def same_names_def cur_names_def count_stored_def PickNewIV_def store_inv_def store_names_def)
  note g0 = SaveChunk_frame [OF s(2) st1(1,2)]
  have g: "grows (up ?st) u" using grows_same_left [OF st1(3) g0(1)] .
  have room: "con_times u \<le> INT_MAX" using s(5) p(8) by simp
  have disk: "disk_ok t (?st\<lparr>up := u\<rparr>)"
    using d s(3) g0(2) disk_inv_grows [OF d(2) g room] saved_inv_append [OF d(7)] g
    by (auto simp: disk_ok_def small_queue_def grows_def)
  have le: "world_le (sworld t ?st) (sworld t (?st\<lparr>up := u\<rparr>))" using world_grows [OF d(2) g s(4) room] by (simp add: sworld_def)
  have "CRYPTO_BLOCK_SIZE dvd length (entry_image a)" using s(6) by (simp add: RECIPE_ENTRY_SIZE_def CRYPTO_BLOCK_SIZE_def)
  from AESCBC_ok [OF assms(1) this, of "indexQueryKey E"] s(6) obtain v where
      v: "AESCBCEnc (ssl E) (indexQueryKey E) (entry_image a) = Inr v" "length v = RECIPE_ENTRY_SIZE"
        "AESCBCDec (ssl E) (indexQueryKey E) v = Inr (entry_image a)" by auto
  let ?x = "x\<lparr>o_chunkAddr := v\<rparr>" and ?e = "e\<lparr>i_chunkAddr := a\<rparr>"
  obtain sts where r: "debe_store_unique E m e x ls = Inr (?e, ?x, ls\<lparr>fst_st := count_unique (length m) (?st\<lparr>up := u, stats := sts\<rparr>)\<rparr>)"
      "uniqueChunkNum sts = uniqueChunkNum (stats ?st)" "logicalChunkNum sts = logicalChunkNum (stats ?st)"
  proof
    let ?s = "(stats ?st)\<lparr>lz4SaveSize := lz4SaveSize (stats ?st) + (word_of_nat (length m) - ucast (addr_length a)),
        baseChunkNum := baseChunkNum (stats ?st) + 1, baseDataSize := baseDataSize (stats ?st) + ucast (addr_length a)\<rparr>"
    show "debe_store_unique E m e x ls = Inr (?e, ?x, ls\<lparr>fst_st := count_unique (length m) (?st\<lparr>up := u, stats := ?s\<rparr>)\<rparr>)"
      using s(1) v(1) by (simp add: debe_store_unique_def count_unique_def Let_def)
  qed simp_all
  let ?st' = "?st\<lparr>up := u, stats := sts\<rparr>"
  have w: "sworld t ?st' = sworld t (?st\<lparr>up := u\<rparr>)" by (simp add: sworld_def)
  have "keeps t 1 ?st ?st'"
    using disk le p(7) s(5,7,8) r(2,3) by (simp add: keeps_def w) (simp add: disk_ok_def ht_ok_def env_def)
  moreover have "debe_entry E S (sworld t ?st') (outdb ?st) m ?x"
    using x v p(2) s(6,9) by (auto simp: debe_entry_def marked_entry_def sworld_def)
  moreover have "entry_for E m ?e" "i_dedupFlag ?e = two_path_code UNIQUE"
    using p(4,5) entry_wf_sane [OF s(6)] by (simp_all add: entry_for_def)
  ultimately show ?thesis unfolding store_post_def
    by (intro exI [of _ ?e] exI [of _ ?x] exI [of _ "[]"] exI [of _ "ls\<lparr>fst_st := count_unique (length m) ?st'\<rparr>"] exI [of _ ?st'])
      (simp add: r(1) pairs_ok_def)
qed

lemma debe_same:
  assumes "indexObj db' = indexObj db"
  shows "debe_db E S w db \<Longrightarrow> debe_db E S w db'" "debe_entry E S w db m x \<Longrightarrow> debe_entry E S w db' m x"
  using assms by (simp_all add: debe_db_def debe_at_def addr_at_def debe_entry_def)

text \<open>The storing reads no container, so that any schedule of the writer will do.\<close>

lemma all_calm: "relies (\<lambda>x st. True) t w"
  by (simp add: relies_def)

interpretation debe: unique_storer "\<lambda>E S w db m e x. True" debe_entry "\<lambda>E S m. True" "\<lambda>x st. True" "\<lambda>E t. debe_store_unique E"
  by unfold_locales (use plain_at_mono debe_store_ok in \<open>auto simp: debe_entry_def\<close>)

interpretation debe_index: index_contract "\<lambda>E S w db m e x. True" debe_entry debe_db
proof unfold_locales
  show "debe_db E S w db \<Longrightarrow> index_ok E S db" for E S w db by (auto simp: debe_db_def debe_at_def index_ok_def)
  show "world_le w w' \<Longrightarrow> debe_db E S w db \<Longrightarrow> debe_db E S w' db" for w w' E S db
    using debe_at_mono [OF _ db_le_refl] by (auto simp: debe_db_def)
qed (blast intro: debe_same debe_update)+

section \<open>A batch\<close>

lemma debe_query_eq:
  "debe_query n st = st\<lparr>outQueryBase := Ocall_QueryOutIndex (outdb st) n (outQueryBase st), queryNum := (if n = 0 then queryNum st else n),
    stats := (stats st)\<lparr>Inline_FPOcall := Inline_FPOcall (stats st) + (if n = 0 then 0 else 1)\<rparr>\<rparr>"
  by (simp add: debe_query_def Ocall_QueryOutIndex_def first_entries_def)

definition debe_batch_ok :: "enclave \<Rightarrow> bytes set \<Rightarrow> bytes list \<Rightarrow> bool" where
  "debe_batch_ok E S ms \<longleftrightarrow> length ms \<le> sendChunkBatchSize E \<and> length ms \<le> 50000 \<and> (\<forall>m \<in> set ms. chunk_ok m) \<and>
     inj_on (hashfp E) (S \<union> set ms)"

text \<open>
  C30: a batch that the DEBE index processes ends without fault under every interleaving with the
  writer. Afterwards the index has exactly the chunks uploaded so far and leads for each of them to
  an encrypted address at which the container has the ciphertext and the IV of the chunk; nothing stored
  before is lost, and exactly the new chunks are counted as unique.
\<close>

theorem debe_batch_correct:
  assumes "evp_ok (ssl E)" "lz4_ok E" "2 \<le> topThreshold E" "index_inv debe_db E t S fs st"
    "SessionKeyDec (ssl E) (sessionKey E) dataBuffer = Inr (frames ms)" "debe_batch_ok E S ms"
    "con_times (up st) + length ms \<le> INT_MAX"
  shows "\<exists>st'. DEBE_Index_ProcessOneBatch E t wr dataBuffer (length ms) st = Inr st' \<and> batch_done debe_db E t S fs ms st st'"
proof -
  have ms: "length ms \<le> sendChunkBatchSize E" "length ms \<le> 50000" "\<forall>m \<in> set ms. chunk_ok m" "inj_on (hashfp E) (S \<union> set ms)"
    using assms(6) by (simp_all add: debe_batch_ok_def)
  have i: "disk_ok t st" "ht_ok st" "recipe_inv E fs (up st)" "currNum st = 0" "index_ok E S (outdb st)"
    using assms(4) debe_index.dbi_index by (auto simp: index_inv_def buffers_ok_def)
  let ?recv = "frames ms @ drop (length (frames ms)) (recvBuffer st)" and ?n = "length ms"
  obtain st1 st2 sk iq oq loc where 2: "receive_batch E dataBuffer ?n st = Inr st1"
      "check_topk E ?n st1 = Inr (length (news ms (take ?n iq)), st2)"
      "st2 = st\<lparr>recvBuffer := ?recv, cmSketch := sk, inQueryBase := iq, outQueryBase := oq, localIndex := loc\<rparr>"
      "length iq = sendChunkBatchSize E" "length oq = sendChunkBatchSize E" "\<forall>e \<in> set iq. sane (i_chunkAddr e)"
      "\<forall>x \<in> set oq. length (o_chunkAddr x) = RECIPE_ENTRY_SIZE"
      "paired E (\<lambda>m e x. o_chunkHash x = keyof E m \<and> length (o_chunkAddr x) = RECIPE_ENTRY_SIZE) ms (take ?n iq) oq"
      "distinct (news ms (take ?n iq))" "set ms \<subseteq> S \<union> set (news ms (take ?n iq))"
    using batch_classified [OF assms(1,3,4,5) ms(1,3,4)] by blast
  let ?ns = "news ms (take ?n iq)" and ?oq = "Ocall_QueryOutIndex (outdb st) (length (news ms (take ?n iq))) oq"
  note q = queried_ok [OF assms(1) i(5) ms(4) 2(7,8) refl]
  obtain k s where 3: "debe_query (length ?ns) st2 = st\<lparr>recvBuffer := ?recv, cmSketch := sk, localIndex := loc,
      inQueryBase := iq, outQueryBase := ?oq, queryNum := k, stats := s\<rparr>" "uniqueChunkNum s = uniqueChunkNum (stats st)"
      "logicalChunkNum s = logicalChunkNum (stats st)"
    by (rule that [where k = "if length ?ns = 0 then queryNum st else length ?ns" and
          s = "(stats st)\<lparr>Inline_FPOcall := Inline_FPOcall (stats st) + (if length ?ns = 0 then 0 else 1)\<rparr>"])
      (simp_all add: 2(3) debe_query_eq)
  define st3 where "st3 = debe_query (length ?ns) st2"
  have cur: "currNum st3 = 0" "st3\<lparr>currNum := 0\<rparr> = st3" using i(4) by (simp_all add: st3_def 3(1))
  let ?C = "start_ctx E t fs ms ?ns st" and ?ls = "\<lparr>fst_st = st3, currentOffset = 0, processNum = 0, batch_basemap = []\<rparr>"
  have li: "loop_inv (\<lambda>E S w db m e x. True) debe_entry E S t ?C ms 0 ?ls"
    by (rule start_loop [OF i(1-3) 3(1) [folded st3_def] i(4) 3(2,3) 2(4) _ 2(6) q(2) refl q(1)])
      (use 2(5) in \<open>simp add: Ocall_QueryOutIndex_def\<close>)
  have c: "c_db ?C = outdb st" "c_size ?C = sendChunkBatchSize E" "c_times ?C = con_times (up st)" "c_recv ?C = ?recv"
    by (simp_all add: start_ctx_def)
  obtain ls where ls: "foldE (process_chunk E t wr (debe_store_unique E)) [0..<?n] ?ls = Inr ls"
      "loop_inv (\<lambda>E S w db m e x. True) debe_entry E S t ?C ms ?n ls"
    using debe.main_loop_ok [OF assms(1,2) _ _ li _ _ ms(2) c(4) all_calm, of ?n] i(5) ms(1,3) assms(7) unfolding c by auto
  have same: "fst_st ls = (fst_st ls)\<lparr>test_buffer := test_buffer (fst_st ls), outdb := outdb (fst_st ls), stats := stats (fst_st ls)\<rparr>" by simp
  from debe_index.batch_leave [OF assms(1,3,4) ms(3,4,1) 2(9) set_news 2(10) ls(2) same refl refl refl refl] obtain h where
      h: "offer_entries (topThreshold E) (take ?n (inQueryBase (fst_st ls))) (insideDedupIndex (fst_st ls)) = Inr h"
      "batch_done debe_db E t S fs ms st (update_outside ((fst_st ls)\<lparr>insideDedupIndex := h, queryNum := length ?ns, currNum := 0, localIndex := Map.empty\<rparr>))"
    by blast
  have "DEBE_Index_ProcessOneBatch E t wr dataBuffer ?n st =
      Inr (update_outside ((fst_st ls)\<lparr>insideDedupIndex := h, queryNum := length ?ns, currNum := 0, localIndex := Map.empty\<rparr>))"
    using 2(1,2) ls(1) h(1) by (simp add: DEBE_Index_ProcessOneBatch_def DEBE_ProcessOneBatch_def Let_def st3_def [symmetric] cur)
  with h(2) show ?thesis by blast
qed

lemma sample_debe:
  "\<exists>st. new_client sample_mem start_st = Inr st \<and> index_inv debe_db toy_enclave ''.c'' {} [] st \<and> con_times (up st) = 3 \<and> stats st = zero_stats"
proof -
  have st0: "con_times (up start_st) = 1" "stats start_st = zero_stats"
    by (simp_all add: start_st_def EcallFreqIndex_new_def fresh_up_def store_st.defs fresh_store_def)
  have c: "con_times (up start_st) + 2 \<le> INT_MAX" "0 < sendRecipeBatchSize toy_enclave"
    by (simp_all add: st0 size_consts toy_enclave_def)
  obtain st where st: "new_client sample_mem start_st = Inr st" "freq_inv toy_enclave ''.c'' {} [] st"
      "con_times (up st) = con_times (up start_st) + 2" "stats st = stats start_st"
    using new_client_ok [OF start_idle sample_mem_ok c] by blast
  have "index_inv debe_db toy_enclave ''.c'' {} [] st" using st(2) by (simp add: freq_inv_def index_inv_def db_inv_def debe_db_def)
  with st st0 show ?thesis by simp
qed

theorem debe_batch_correct_witness:
  "\<exists>st st'. new_client sample_mem start_st = Inr st \<and>
    DEBE_Index_ProcessOneBatch toy_enclave ''.c'' sample_writer sample_data 2 st = Inr st' \<and>
    (\<forall>m \<in> {[1, 2], [3, 4]}. debe_at toy_enclave (sworld ''.c'' st') (outdb st') m) \<and> uniqueChunkNum (stats st') = 2"
proof -
  obtain st where st: "new_client sample_mem start_st = Inr st" "index_inv debe_db toy_enclave ''.c'' {} [] st" "con_times (up st) = 3"
      "stats st = zero_stats" using sample_debe by blast
  have E: "evp_ok (ssl toy_enclave)" "2 \<le> topThreshold toy_enclave" by (simp_all add: toy_enclave_def toy_evp_ok)
  have n: "length sample_chunks = 2" "set sample_chunks = {[1, 2], [3, 4]}" by (simp_all add: sample_chunks_def)
  have c: "con_times (up st) + length sample_chunks \<le> INT_MAX" by (simp add: n st(3) size_consts)
  have "debe_batch_ok toy_enclave {} sample_chunks"
    using upload_ok_Cons(1) [OF sample_upload] by (simp add: batch_ok_def debe_batch_ok_def)
  from debe_batch_correct [OF E(1) toy_lz4 E(2) st(2) sample_sent this c, of sample_writer]
  obtain st' where "DEBE_Index_ProcessOneBatch toy_enclave ''.c'' sample_writer sample_data 2 st = Inr st'"
      "debe_db toy_enclave {[1, 2], [3, 4]} (sworld ''.c'' st') (outdb st')"
      "uniqueChunkNum (stats st') = uniqueChunkNum (stats st) + word_of_nat (card {[1, 2], [3, 4 :: byte]})"
    unfolding batch_done_def index_inv_def n Un_empty_left Diff_empty by blast
  then show ?thesis using st(1,4) by (auto simp: debe_db_def zero_stats_def)
qed

end
