(* ===== verification/Sealed.thy ===== *)
theory Sealed
  imports EntryHeap CMSketch
begin

text \<open>
  Saving and loading the in-enclave index across restarts: the file OCalls of
  \<open>storeOCall.cc\<close>, the buffered transfers of \<open>commonEnclave.cc\<close>, and \<open>PersistDedupIndex\<close> and
  \<open>LoadDedupIndex\<close> of \<open>ecallFreqIndex.cc\<close> (\<open>ecallDEBE.cc\<close> and \<open>ecallMeGA.cc\<close> hold the same
  code). The main result is that a restart restores the sketch counters and the heap.
\<close>

section \<open>Files\<close>

text \<open>The disk, the name open for writing, and what is left of the file open for reading.\<close>

record sealed_fs =
  files :: "string \<rightharpoonup> bytes"
  outSealed :: "string option"
  inSealed :: "bytes option"

definition SEALED_SKETCH :: string where "SEALED_SKETCH = ''cm-sketch''"
definition SEALED_FREQ_INDEX :: string where "SEALED_FREQ_INDEX = ''freq-index''"

definition Ocall_InitWriteSealedFile :: "string \<Rightarrow> sealed_fs \<Rightarrow> bool \<times> sealed_fs" where
  "Ocall_InitWriteSealedFile name fs =
    (if outSealed fs \<noteq> None then (False, fs)
     else (True, fs\<lparr>files := (files fs)(name \<mapsto> []), outSealed := Some name\<rparr>))"

definition Ocall_WriteSealedData :: "bytes \<Rightarrow> sealed_fs \<Rightarrow> sealed_fs" where
  "Ocall_WriteSealedData d fs =
    (case outSealed fs of
       None \<Rightarrow> fs
     | Some name \<Rightarrow> fs\<lparr>files := (files fs)(name \<mapsto> the (files fs name) @ d)\<rparr>)"

definition Ocall_CloseWriteSealedFile :: "sealed_fs \<Rightarrow> sealed_fs" where
  "Ocall_CloseWriteSealedFile fs = fs\<lparr>outSealed := None\<rparr>"

text \<open>
  Opening a second file for reading fails, but the stream is still open on the first one. Its size is
  then computed from two failed \<open>tellg\<close> and is 0, after which no caller reads.
\<close>

definition Ocall_InitReadSealedFile :: "string \<Rightarrow> sealed_fs \<Rightarrow> nat \<times> sealed_fs" where
  "Ocall_InitReadSealedFile name fs =
    (if inSealed fs \<noteq> None then (0, fs)
     else case files fs name of None \<Rightarrow> (0, fs) | Some d \<Rightarrow> (length d, fs\<lparr>inSealed := Some d\<rparr>))"

definition Ocall_ReadSealedData :: "nat \<Rightarrow> sealed_fs \<Rightarrow> bytes \<times> sealed_fs" where
  "Ocall_ReadSealedData n fs =
    (case inSealed fs of None \<Rightarrow> ([], fs) | Some r \<Rightarrow> (take n r, fs\<lparr>inSealed := Some (drop n r)\<rparr>))"

definition Ocall_CloseReadSealedFile :: "sealed_fs \<Rightarrow> sealed_fs" where
  "Ocall_CloseReadSealedFile fs = fs\<lparr>inSealed := None\<rparr>"

section \<open>Transfers in blocks\<close>

definition SGX_PERSISTENCE_BUFFER_SIZE :: nat where "SGX_PERSISTENCE_BUFFER_SIZE = 2 * 1024 * 1024"

function WriteBufferToFile :: "bytes \<Rightarrow> nat \<Rightarrow> nat \<Rightarrow> sealed_fs \<Rightarrow> sealed_fs" where
  "WriteBufferToFile buffer offset remainSize fs =
    (if remainSize \<noteq> 0 then
       if remainSize > SGX_PERSISTENCE_BUFFER_SIZE then
         WriteBufferToFile buffer (offset + SGX_PERSISTENCE_BUFFER_SIZE) (remainSize - SGX_PERSISTENCE_BUFFER_SIZE)
           (Ocall_WriteSealedData (seg offset SGX_PERSISTENCE_BUFFER_SIZE buffer) fs)
       else Ocall_WriteSealedData (seg offset remainSize buffer) fs
     else fs)"
  by pat_completeness auto
termination
  by (relation "measure (\<lambda>(buffer, offset, remainSize, fs). remainSize)")
    (auto simp: SGX_PERSISTENCE_BUFFER_SIZE_def)

function ReadFileToBuffer :: "bytes \<Rightarrow> nat \<Rightarrow> nat \<Rightarrow> sealed_fs \<Rightarrow> bytes \<times> sealed_fs" where
  "ReadFileToBuffer buffer offset remainSize fs =
    (if remainSize \<noteq> 0 then
       if remainSize > SGX_PERSISTENCE_BUFFER_SIZE then
         let (d, fs') = Ocall_ReadSealedData SGX_PERSISTENCE_BUFFER_SIZE fs
         in ReadFileToBuffer (put buffer offset d) (offset + SGX_PERSISTENCE_BUFFER_SIZE)
              (remainSize - SGX_PERSISTENCE_BUFFER_SIZE) fs'
       else
         let (d, fs') = Ocall_ReadSealedData remainSize fs
         in (put buffer offset d, fs')
     else (buffer, fs))"
  by pat_completeness auto
termination
  by (relation "measure (\<lambda>(buffer, offset, remainSize, fs). remainSize)")
    (auto simp: SGX_PERSISTENCE_BUFFER_SIZE_def)

declare WriteBufferToFile.simps [simp del] ReadFileToBuffer.simps [simp del]

lemma WriteBufferToFile_eq:
  assumes "outSealed fs = Some name" "files fs name = Some d" "off + n \<le> length buffer"
  shows "WriteBufferToFile buffer off n fs = fs\<lparr>files := (files fs)(name \<mapsto> d @ seg off n buffer)\<rparr>"
  using assms
proof (induction buffer off n fs arbitrary: d rule: WriteBufferToFile.induct)
  case (1 buffer off n fs)
  let ?B = SGX_PERSISTENCE_BUFFER_SIZE
  show ?case
  proof (cases "n > ?B")
    case True
    let ?fs = "Ocall_WriteSealedData (seg off ?B buffer) fs"
    have fs: "?fs = fs\<lparr>files := (files fs)(name \<mapsto> d @ seg off ?B buffer)\<rparr>"
      using "1.prems" by (simp add: Ocall_WriteSealedData_def)
    have "WriteBufferToFile buffer off n fs = WriteBufferToFile buffer (off + ?B) (n - ?B) ?fs"
      using True by (subst WriteBufferToFile.simps) simp
    also have "\<dots> = ?fs\<lparr>files := (files ?fs)(name \<mapsto> (d @ seg off ?B buffer) @ seg (off + ?B) (n - ?B) buffer)\<rparr>"
      using True "1.prems" by (intro "1.IH") (simp_all add: fs)
    finally have w: "WriteBufferToFile buffer off n fs = \<dots>" .
    show ?thesis
      unfolding w using seg_append_seg [of off ?B buffer "n - ?B"] True
      by (intro sealed_fs.equality) (simp_all add: fs fun_eq_iff)
  next
    case False
    with "1.prems" show ?thesis
      by (subst WriteBufferToFile.simps) (auto simp: Ocall_WriteSealedData_def fun_upd_idem)
  qed
qed

lemma ReadFileToBuffer_eq:
  assumes "inSealed fs = Some r" "n \<le> length r" "off + n \<le> length buffer"
  shows "ReadFileToBuffer buffer off n fs = (put buffer off (take n r), fs\<lparr>inSealed := Some (drop n r)\<rparr>)"
  using assms
proof (induction buffer off n fs arbitrary: r rule: ReadFileToBuffer.induct)
  case (1 buffer off n fs)
  let ?B = SGX_PERSISTENCE_BUFFER_SIZE
  show ?case
  proof (cases "n > ?B")
    case True
    let ?fs = "fs\<lparr>inSealed := Some (drop ?B r)\<rparr>"
    have "ReadFileToBuffer buffer off n fs = ReadFileToBuffer (put buffer off (take ?B r)) (off + ?B) (n - ?B) ?fs"
      using True "1.prems" by (subst ReadFileToBuffer.simps) (simp add: Ocall_ReadSealedData_def)
    also have "\<dots> = (put (put buffer off (take ?B r)) (off + ?B) (take (n - ?B) (drop ?B r)),
        ?fs\<lparr>inSealed := Some (drop (n - ?B) (drop ?B r))\<rparr>)"
      using True "1.prems"
      by (intro "1.IH" [OF _ True _ refl]) (auto simp: Ocall_ReadSealedData_def length_put)
    also have "put (put buffer off (take ?B r)) (off + ?B) (take (n - ?B) (drop ?B r)) = put buffer off (take n r)"
      using True "1.prems" by (subst put_put) (simp_all add: take_add [symmetric])
    finally show ?thesis using True by simp
  next
    case False
    with "1.prems" show ?thesis
      by (subst ReadFileToBuffer.simps) (auto simp: Ocall_ReadSealedData_def put_def)
  qed
qed

section \<open>The images\<close>

definition row_image :: "u32 list \<Rightarrow> bytes" where
  "row_image row = concat (map le32 row)"

fun row_of :: "nat \<Rightarrow> bytes \<Rightarrow> u32 list" where
  "row_of 0 b = []"
| "row_of (Suc n) b = rd32 b # row_of n (drop 4 b)"

lemma length_row_image [simp]: "length (row_image row) = 4 * length row"
  by (induction row) (simp_all add: row_image_def)

lemma row_of_image: "row_of (length row) (row_image row @ rest) = row"
  by (induction row) (simp_all add: row_image_def)

definition HEAP_ITEM_SIZE :: nat where "HEAP_ITEM_SIZE = 152"

definition item_image :: "HeapItem \<Rightarrow> bytes" where
  "item_image it = entry_image (address it) @ le32 (chunkFreq it) @ le32 (word_of_nat (hidx it))"

definition item_of :: "bytes \<Rightarrow> HeapItem" where
  "item_of b = \<lparr>address = entry_of b, chunkFreq = rd32 (drop 144 b), hidx = unat (rd32 (drop 148 b))\<rparr>"

definition item_wf :: "HeapItem \<Rightarrow> bool" where
  "item_wf it \<longleftrightarrow> entry_wf (address it) \<and> hidx it < 2 ^ 32"

lemma length_item_image [simp]: "item_wf it \<Longrightarrow> length (item_image it) = HEAP_ITEM_SIZE"
  by (simp add: item_image_def item_wf_def RECIPE_ENTRY_SIZE_def HEAP_ITEM_SIZE_def)

lemma item_of_image:
  assumes "item_wf it"
  shows "item_of (item_image it @ rest) = it"
proof -
  have l: "length (entry_image (address it)) = 144"
    using assms by (simp add: item_wf_def RECIPE_ENTRY_SIZE_def)
  have "drop 144 (item_image it @ rest) = le32 (chunkFreq it) @ le32 (word_of_nat (hidx it)) @ rest"
      "drop 148 (item_image it @ rest) = le32 (word_of_nat (hidx it)) @ rest"
    using l by (simp_all add: item_image_def)
  moreover have "entry_of (item_image it @ rest) = address it"
    using assms entry_of_image by (simp add: item_image_def item_wf_def)
  ultimately show ?thesis
    using assms by (simp add: item_of_def item_wf_def unat_of_nat_small)
qed

section \<open>Saving and loading\<close>

definition PersistDedupIndex :: "CMSketch \<Rightarrow> EntryHeap \<Rightarrow> sealed_fs \<Rightarrow> sealed_fs option" where
  "PersistDedupIndex sk h fs =
    (case Ocall_InitWriteSealedFile SEALED_SKETCH fs of
       (False, _) \<Rightarrow> None
     | (True, fs1) \<Rightarrow>
         let fs2 = fold (\<lambda>i. WriteBufferToFile (row_image (counterArray sk ! i)) 0 (cm_width sk * 4)) [0..<cm_depth sk] fs1;
             fs3 = Ocall_CloseWriteSealedFile fs2
         in case Ocall_InitWriteSealedFile SEALED_FREQ_INDEX fs3 of
              (False, _) \<Rightarrow> None
            | (True, fs4) \<Rightarrow>
                let itemNum = length (h_heap h);
                    requiredBufferSize = 8 + itemNum * (CHUNK_HASH_SIZE + HEAP_ITEM_SIZE);
                    tmpBuffer = le64 (word_of_nat itemNum) @
                      concat (map (\<lambda>k. take CHUNK_HASH_SIZE k @ item_image (the (h_index h k))) (h_heap h))
                in Some (Ocall_CloseWriteSealedFile (WriteBufferToFile tmpBuffer 0 requiredBufferSize fs4)))"

fun load_rows :: "nat \<Rightarrow> nat \<Rightarrow> u32 list list \<Rightarrow> sealed_fs \<Rightarrow> u32 list list \<times> sealed_fs" where
  "load_rows width 0 a fs = (a, fs)"
| "load_rows width (Suc n) a fs =
    (let (a', fs') = load_rows width n a fs;
         (buf, fs'') = ReadFileToBuffer (row_image (a' ! n)) 0 (4 * width) fs'
     in (a'[n := row_of width buf], fs''))"

fun load_items :: "nat \<Rightarrow> bytes \<Rightarrow> EntryHeap \<Rightarrow> EntryHeap" where
  "load_items 0 b h = h"
| "load_items (Suc n) b h =
    load_items n (drop (CHUNK_HASH_SIZE + HEAP_ITEM_SIZE) b)
      (heap_insert h (take CHUNK_HASH_SIZE b) (item_of (drop CHUNK_HASH_SIZE b)))"

definition LoadDedupIndex :: "CMSketch \<Rightarrow> EntryHeap \<Rightarrow> sealed_fs \<Rightarrow> bool \<times> CMSketch \<times> EntryHeap \<times> sealed_fs" where
  "LoadDedupIndex sk h fs =
    (let (size1, fs1) = Ocall_InitReadSealedFile SEALED_SKETCH fs
     in if size1 = 0 then (False, sk, h, fs1)
        else
          let (rows, fs2) = load_rows (cm_width sk) (cm_depth sk) (counterArray sk) fs1;
              sk' = sk\<lparr>counterArray := rows\<rparr>;
              fs3 = Ocall_CloseReadSealedFile fs2;
              (size2, fs4) = Ocall_InitReadSealedFile SEALED_FREQ_INDEX fs3
          in if size2 = 0 then (False, sk', h, fs4)
             else
               let (buf, fs5) = ReadFileToBuffer (replicate size2 0) 0 size2 fs4;
                   h' = load_items (unat (rd64 buf)) (drop 8 buf) h
               in (True, sk', h', Ocall_CloseReadSealedFile fs5))"

section \<open>The round trip\<close>

lemma persist_rows:
  assumes "outSealed fs = Some name" "files fs name = Some d" "n \<le> length a" "\<forall>r \<in> set a. length r = w"
  shows "fold (\<lambda>i. WriteBufferToFile (row_image (a ! i)) 0 (w * 4)) [0..<n] fs =
    fs\<lparr>files := (files fs)(name \<mapsto> d @ concat (map row_image (take n a)))\<rparr>"
  using assms(3)
proof (induction n)
  case 0
  with assms(2) show ?case by (simp add: fun_upd_idem)
next
  case (Suc n)
  let ?fs = "fs\<lparr>files := (files fs)(name \<mapsto> d @ concat (map row_image (take n a)))\<rparr>"
  have "length (a ! n) = w" using Suc.prems assms(4) by simp
  then have "WriteBufferToFile (row_image (a ! n)) 0 (w * 4) ?fs =
      ?fs\<lparr>files := (files ?fs)(name \<mapsto> (d @ concat (map row_image (take n a))) @ seg 0 (w * 4) (row_image (a ! n)))\<rparr>"
    using assms(1) by (intro WriteBufferToFile_eq) simp_all
  also have "\<dots> = fs\<lparr>files := (files fs)(name \<mapsto> d @ concat (map row_image (take (Suc n) a)))\<rparr>"
    using Suc.prems \<open>length (a ! n) = w\<close>
    by (intro sealed_fs.equality) (simp_all add: take_Suc_conv_app_nth fun_eq_iff)
  finally show ?case using Suc by (simp del: fun_upd_apply)
qed

lemma load_rows_eq:
  assumes "n \<le> length rows" "length a = length rows" "\<forall>r \<in> set rows. length r = w" "\<forall>r \<in> set a. length r = w"
    "inSealed fs = Some (concat (map row_image rows))"
  shows "load_rows w n a fs =
    (take n rows @ drop n a, fs\<lparr>inSealed := Some (concat (map row_image (drop n rows)))\<rparr>)"
  using assms(1)
proof (induction n)
  case 0
  with assms(5) show ?case by simp
next
  case (Suc n)
  let ?a = "take n rows @ drop n a" and ?r = "concat (map row_image (drop n rows))"
  have n: "n < length rows" "length (rows ! n) = w" "length (a ! n) = w"
    using Suc.prems assms by simp_all
  have an: "?a ! n = a ! n" using n assms(2) by (simp add: nth_append)
  have r: "?r = row_image (rows ! n) @ concat (map row_image (drop (Suc n) rows))"
    using n by (simp flip: Cons_nth_drop_Suc)
  have rd: "ReadFileToBuffer (row_image (a ! n)) 0 (4 * w) (fs\<lparr>inSealed := Some ?r\<rparr>) =
      (put (row_image (a ! n)) 0 (take (4 * w) ?r), fs\<lparr>inSealed := Some (drop (4 * w) ?r)\<rparr>)"
    using ReadFileToBuffer_eq [of "fs\<lparr>inSealed := Some ?r\<rparr>" ?r "4 * w" 0 "row_image (a ! n)"] n r by simp
  have "row_of w (put (row_image (a ! n)) 0 (take (4 * w) ?r)) = rows ! n"
    using row_of_image [of "rows ! n" "[]"] n r by (simp add: put_def)
  moreover have "?a[n := rows ! n] = take (Suc n) rows @ drop (Suc n) a"
    using n assms(2) by (simp add: list_update_append take_Suc_conv_app_nth flip: Cons_nth_drop_Suc)
  ultimately show ?case using Suc rd an n r by (simp add: Let_def)
qed

lemma load_items_eq:
  assumes "distinct ks" "set ks \<inter> dom (h_index h) = {}" "\<forall>k \<in> set ks. length k = CHUNK_HASH_SIZE \<and> item_wf (f k)"
  shows "load_items (length ks) (concat (map (\<lambda>k. k @ item_image (f k)) ks) @ rest) h =
    h\<lparr>h_heap := h_heap h @ ks, h_index := (\<lambda>k. if k \<in> set ks then Some (f k) else h_index h k)\<rparr>"
  using assms
proof (induction ks arbitrary: h)
  case (Cons k ks)
  let ?h = "heap_insert h k (f k)"
  have k: "length k = CHUNK_HASH_SIZE" "item_wf (f k)" "k \<notin> dom (h_index h)" using Cons.prems by auto
  have h: "h_heap ?h = h_heap h @ [k]" "h_index ?h = (h_index h)(k \<mapsto> f k)" "EntryHeap.more ?h = EntryHeap.more h"
    using k by (simp_all add: heap_insert_def)
  have "load_items (length ks) (concat (map (\<lambda>k. k @ item_image (f k)) ks) @ rest) ?h =
      ?h\<lparr>h_heap := h_heap ?h @ ks, h_index := (\<lambda>x. if x \<in> set ks then Some (f x) else h_index ?h x)\<rparr>"
    using Cons.prems by (intro Cons.IH) (auto simp: h split: if_splits)
  also have "\<dots> = h\<lparr>h_heap := h_heap h @ k # ks, h_index := (\<lambda>x. if x \<in> set (k # ks) then Some (f x) else h_index h x)\<rparr>"
    by (rule EntryHeap.equality) (auto simp: h fun_eq_iff)
  finally show ?case using k by (simp add: item_of_image)
qed simp

definition index_wf :: "CMSketch \<Rightarrow> EntryHeap \<Rightarrow> bool" where
  "index_wf sk h \<longleftrightarrow> cm_wf sk \<and> heap_inv h \<and> length (h_heap h) < 2 ^ 32 \<and>
     (\<forall>k \<in> set (h_heap h). length k = CHUNK_HASH_SIZE \<and> item_wf (the (h_index h k)))"

text \<open>The two files.\<close>

definition sketch_image :: "CMSketch \<Rightarrow> bytes" where
  "sketch_image sk = concat (map row_image (counterArray sk))"

definition heap_image :: "EntryHeap \<Rightarrow> bytes" where
  "heap_image h = le64 (word_of_nat (length (h_heap h))) @ concat (map (\<lambda>k. k @ item_image (the (h_index h k))) (h_heap h))"

lemma index_wfD:
  assumes "index_wf sk h"
  shows "cm_wf sk" "heap_inv h" "length (h_heap h) < 2 ^ 32"
    "\<forall>k \<in> set (h_heap h). length k = CHUNK_HASH_SIZE \<and> item_wf (the (h_index h k))"
    "length (counterArray sk) = cm_depth sk" "\<forall>r \<in> set (counterArray sk). length r = cm_width sk"
  using assms by (auto simp: index_wf_def cm_wf_def in_set_conv_nth)

lemma length_items:
  "\<forall>k \<in> set ks. length k = CHUNK_HASH_SIZE \<and> item_wf (f k) \<Longrightarrow>
    length (concat (map (\<lambda>k. k @ item_image (f k)) ks)) = length ks * (CHUNK_HASH_SIZE + HEAP_ITEM_SIZE)"
  by (induction ks) auto

lemma length_heap_image: "index_wf sk h \<Longrightarrow> length (heap_image h) = 8 + length (h_heap h) * (CHUNK_HASH_SIZE + HEAP_ITEM_SIZE)"
  using length_items [OF index_wfD(4)] by (simp add: heap_image_def)

lemma files_names: "SEALED_FREQ_INDEX \<noteq> SEALED_SKETCH"
  by (simp add: SEALED_FREQ_INDEX_def SEALED_SKETCH_def)

lemma PersistDedupIndex_eq:
  assumes "index_wf sk h" "outSealed fs = None"
  shows "PersistDedupIndex sk h fs = Some (fs\<lparr>files := (files fs)(SEALED_SKETCH \<mapsto> sketch_image sk, SEALED_FREQ_INDEX \<mapsto> heap_image h)\<rparr>)"
proof -
  note wf = index_wfD [OF assms(1)]
  let ?w = "cm_width sk" and ?ks = "h_heap h"
  have take32: "map (\<lambda>k. take CHUNK_HASH_SIZE k @ item_image (the (h_index h k))) ?ks = map (\<lambda>k. k @ item_image (the (h_index h k))) ?ks"
    using wf(4) by simp
  define fs1 where "fs1 = fs\<lparr>files := (files fs)(SEALED_SKETCH \<mapsto> []), outSealed := Some SEALED_SKETCH\<rparr>"
  have p1: "fold (\<lambda>i. WriteBufferToFile (row_image (counterArray sk ! i)) 0 (?w * 4)) [0..<cm_depth sk] fs1 =
      fs1\<lparr>files := (files fs1)(SEALED_SKETCH \<mapsto> sketch_image sk)\<rparr>"
    using persist_rows [of fs1 SEALED_SKETCH "[]" "cm_depth sk" "counterArray sk" ?w] wf(5,6) by (simp add: fs1_def sketch_image_def)
  define fs4 where "fs4 = fs\<lparr>files := (files fs)(SEALED_SKETCH \<mapsto> sketch_image sk, SEALED_FREQ_INDEX \<mapsto> []), outSealed := Some SEALED_FREQ_INDEX\<rparr>"
  have p2: "WriteBufferToFile (heap_image h) 0 (8 + length ?ks * (CHUNK_HASH_SIZE + HEAP_ITEM_SIZE)) fs4 =
      fs4\<lparr>files := (files fs4)(SEALED_FREQ_INDEX \<mapsto> heap_image h)\<rparr>"
    using WriteBufferToFile_eq [of fs4 SEALED_FREQ_INDEX "[]" 0 "length (heap_image h)" "heap_image h"] length_heap_image [OF assms(1)]
    by (simp add: fs4_def)
  have "PersistDedupIndex sk h fs = Some (Ocall_CloseWriteSealedFile
      (WriteBufferToFile (heap_image h) 0 (8 + length ?ks * (CHUNK_HASH_SIZE + HEAP_ITEM_SIZE)) fs4))"
    using assms(2) p1
    by (simp add: PersistDedupIndex_def Ocall_InitWriteSealedFile_def Ocall_CloseWriteSealedFile_def Let_def
        take32 fs4_def fs1_def fun_upd_def if_distrib heap_image_def cong: if_cong)
  then show ?thesis
    unfolding p2 using assms(2) by (simp add: Ocall_CloseWriteSealedFile_def fs4_def)
qed

lemma load_heap:
  assumes "index_wf sk h"
  shows "load_items (unat (rd64 (heap_image h))) (drop 8 (heap_image h)) empty_heap = h"
proof -
  note wf = index_wfD [OF assms]
  let ?ks = "h_heap h"
  have "load_items (length ?ks) (concat (map (\<lambda>k. k @ item_image (the (h_index h k))) ?ks) @ []) empty_heap =
      empty_heap\<lparr>h_heap := ?ks, h_index := (\<lambda>k. if k \<in> set ?ks then Some (the (h_index h k)) else h_index empty_heap k)\<rparr>"
    using load_items_eq [of ?ks empty_heap "\<lambda>k. the (h_index h k)" "[]"] wf(2,4) by (simp add: heap_inv_def keys_ok_def)
  also have "\<dots> = h"
    using wf(2) by (intro EntryHeap.equality) (auto simp: heap_inv_def keys_ok_def fun_eq_iff)
  finally have "load_items (length ?ks) (concat (map (\<lambda>k. k @ item_image (the (h_index h k))) ?ks)) empty_heap = h" by simp
  moreover have "unat (word_of_nat (length ?ks) :: u64) = length ?ks" using wf(3) by (intro unat_of_nat_small) simp
  ultimately show ?thesis by (simp add: heap_image_def)
qed

lemma LoadDedupIndex_eq:
  assumes "index_wf sk h" "inSealed fs = None" "files fs SEALED_SKETCH = Some (sketch_image sk)"
    "files fs SEALED_FREQ_INDEX = Some (heap_image h)"
  shows "LoadDedupIndex (cm_init (cm_width sk) (cm_depth sk)) empty_heap fs = (True, sk\<lparr>cm_total := 0\<rparr>, h, fs)"
proof -
  note wf = index_wfD [OF assms(1)]
  let ?w = "cm_width sk" and ?d = "cm_depth sk" and ?rows = "counterArray sk" and ?img = "heap_image h"
  have "0 < length (sketch_image sk)" using wf(1,5,6) by (cases ?rows) (auto simp: cm_wf_def sketch_image_def)
  moreover have "load_rows ?w ?d (replicate ?d (replicate ?w 0)) (fs\<lparr>inSealed := Some (sketch_image sk)\<rparr>) = (?rows, fs\<lparr>inSealed := Some []\<rparr>)"
    using wf(5,6) load_rows_eq [of ?d ?rows "replicate ?d (replicate ?w 0)" ?w "fs\<lparr>inSealed := Some (sketch_image sk)\<rparr>"]
    by (simp add: sketch_image_def)
  moreover have "ReadFileToBuffer (replicate (length ?img) 0) 0 (length ?img) (fs\<lparr>inSealed := Some ?img\<rparr>) = (?img, fs\<lparr>inSealed := Some []\<rparr>)"
    using ReadFileToBuffer_eq [of "fs\<lparr>inSealed := Some ?img\<rparr>" ?img "length ?img" 0 "replicate (length ?img) 0"] by (simp add: put_def)
  moreover have "0 < length ?img" using length_heap_image [OF assms(1)] by simp
  moreover have "(cm_init ?w ?d)\<lparr>counterArray := ?rows\<rparr> = sk\<lparr>cm_total := 0\<rparr>" by (simp add: cm_init_def)
  ultimately show ?thesis
    using assms(2-4) load_heap [OF assms(1)]
    by (simp add: LoadDedupIndex_def Ocall_InitReadSealedFile_def Ocall_CloseReadSealedFile_def cm_init_def Let_def)
qed

text \<open>
  C17: a restart restores the in-enclave index. Loading, with a freshly constructed sketch of
  the same size and an empty heap, what \<open>PersistDedupIndex\<close> wrote gives back every counter
  and the heap with its index, whatever was in the two files before; no stream stays open.
\<close>

theorem persist_load:
  assumes "index_wf sk h" "outSealed fs = None" "inSealed fs = None"
  shows "\<exists>fs'. PersistDedupIndex sk h fs = Some fs' \<and>
    LoadDedupIndex (cm_init (cm_width sk) (cm_depth sk)) empty_heap fs' = (True, sk\<lparr>cm_total := 0\<rparr>, h, fs')"
  using PersistDedupIndex_eq [OF assms(1,2)] LoadDedupIndex_eq [OF assms(1)] assms(3) files_names by simp

theorem persist_load_witness:
  "\<exists>fs'. PersistDedupIndex (cm_init 3 2) empty_heap \<lparr>files = Map.empty, outSealed = None, inSealed = None\<rparr> = Some fs' \<and>
    LoadDedupIndex (cm_init 3 2) empty_heap fs' = (True, cm_init 3 2, empty_heap, fs')"
proof -
  have "index_wf (cm_init 3 2) empty_heap"
    using cm_counts_init [of 3 2] empty_heap_inv by (simp add: index_wf_def cm_counts_def empty_heap_def)
  with persist_load [of "cm_init 3 2" empty_heap "\<lparr>files = Map.empty, outSealed = None, inSealed = None\<rparr>"]
  show ?thesis by (auto simp: cm_init_def)
qed

end
