(* ===== verification/Boot.thy ===== *)
theory Boot
  imports Sealed Storage
begin

text \<open>
  Start and stop of the enclave (\<open>Enclave/ecallSrc/ecall/storeECall.cc\<close>, \<open>App/dbeServer.cc\<close>): the keys
  of the enclave and the statistics and index of the upload object are kept in files across
  restarts. The only way to end a server is an interrupt, whose handler destroys the enclave before it
  asks it to save its keys: index and statistics come back, keys that were not on disk do not.
\<close>

section \<open>The keys of the enclave\<close>

definition ENCLAVE_KEY_FILE_NAME :: string where "ENCLAVE_KEY_FILE_NAME = ''enclave-key''"
definition ENCLAVE_INDEX_INFO_NAME :: string where "ENCLAVE_INDEX_INFO_NAME = ''enclave-index-info''"

record EnclaveConfig =
  cfg_sendChunkBatchSize :: u64
  cfg_sendRecipeBatchSize :: u64
  cfg_topKParam :: u64

record enclave_globals =
  g_enclaveKey :: bytes
  g_indexQueryKey :: bytes
  g_firstBootstrap :: bool
  g_config :: EnclaveConfig

text \<open>
  \<open>r1\<close> and \<open>r2\<close> are what \<open>sgx_read_rand\<close> returns. An empty key file counts as none; from a short one
  part of the keys is read from uninitialised memory.
\<close>

definition Ecall_Enclave_Init :: "EnclaveConfig \<Rightarrow> bytes \<Rightarrow> bytes \<Rightarrow> sealed_fs \<Rightarrow> fault + enclave_globals \<times> sealed_fs" where
  "Ecall_Enclave_Init cfg r1 r2 fs =
    (let (readFileSize, fs1) = Ocall_InitReadSealedFile ENCLAVE_KEY_FILE_NAME fs
     in bindE
          (if readFileSize = 0
           then Inr (\<lparr>g_enclaveKey = r1, g_indexQueryKey = r2, g_firstBootstrap = True, g_config = cfg\<rparr>, fs1)
           else let (d, fs2) = Ocall_ReadSealedData (2 * CHUNK_HASH_SIZE) fs1
                in if length d < 2 * CHUNK_HASH_SIZE then Inl UninitLocal
                   else Inr (\<lparr>g_enclaveKey = take CHUNK_HASH_SIZE d, g_indexQueryKey = drop CHUNK_HASH_SIZE d,
                          g_firstBootstrap = False, g_config = cfg\<rparr>, fs2))
          (\<lambda>(g, fs3). Inr (g, Ocall_CloseReadSealedFile fs3)))"

definition Ecall_Enclave_Destroy :: "enclave_globals \<Rightarrow> sealed_fs \<Rightarrow> fault + sealed_fs" where
  "Ecall_Enclave_Destroy g fs =
    (if g_firstBootstrap g then
       (case Ocall_InitWriteSealedFile ENCLAVE_KEY_FILE_NAME fs of
          (False, _) \<Rightarrow> Inl ExitFailure
        | (True, fs1) \<Rightarrow>
            Inr (Ocall_CloseWriteSealedFile (Ocall_WriteSealedData (g_indexQueryKey g) (Ocall_WriteSealedData (g_enclaveKey g) fs1))))
     else Inr fs)"

section \<open>The upload object\<close>

definition index_type_of :: "int \<Rightarrow> INDEX_TYPE_SET option" where
  "index_type_of n =
    (if n = 0 then Some SECURE_MEGA else if n = 1 then Some DEBE else if n = 2 then Some FORWORD
     else if n = 3 then Some ONLY_FORWORD else if n = 4 then Some FREQ_INDEX else None)"

datatype index_class = EcallFreqIndex | EcallMeGA | EcallDEBE

fun index_class_of :: "INDEX_TYPE_SET \<Rightarrow> index_class" where
  "index_class_of SECURE_MEGA = EcallMeGA"
| "index_class_of DEBE = EcallDEBE"
| "index_class_of FORWORD = EcallFreqIndex"
| "index_class_of ONLY_FORWORD = EcallFreqIndex"
| "index_class_of FREQ_INDEX = EcallFreqIndex"

record index_info =
  info_logicalDataSize :: u64
  info_logicalChunkNum :: u64
  info_uniqueDataSize :: u64
  info_uniqueChunkNum :: u64
  info_compressedDataSize :: u64

record enclave_index =
  ix_class :: index_class
  ix_Forward_Flag :: bool
  ix_Offline_Flag :: bool
  ix_sketch :: CMSketch
  ix_heap :: EntryHeap
  ix_info :: index_info

definition sketchWidth :: nat where "sketchWidth = 256 * 1024"
definition sketchDepth :: nat where "sketchDepth = 4"

text \<open>The constructors of the three classes: an empty index, or the one on disk.\<close>

definition new_index :: "index_class \<Rightarrow> sealed_fs \<Rightarrow> enclave_index \<times> sealed_fs" where
  "new_index c fs =
    (let (ok, sk, h, fs') = LoadDedupIndex (cm_init sketchWidth sketchDepth) empty_heap fs
     in (\<lparr>ix_class = c, ix_Forward_Flag = False, ix_Offline_Flag = True, ix_sketch = sk, ix_heap = h,
          ix_info = \<lparr>info_logicalDataSize = 0, info_logicalChunkNum = 0, info_uniqueDataSize = 0, info_uniqueChunkNum = 0,
            info_compressedDataSize = 0\<rparr>\<rparr>, fs'))"

definition set_mode :: "INDEX_TYPE_SET \<Rightarrow> enclave_index \<Rightarrow> enclave_index" where
  "set_mode ty ix =
    (if ty = FORWORD then ix\<lparr>ix_Forward_Flag := True\<rparr> else if ty = ONLY_FORWORD then ix\<lparr>ix_Offline_Flag := False\<rparr> else ix)"

definition info_of :: "bytes \<Rightarrow> index_info" where
  "info_of b = \<lparr>info_logicalDataSize = rd64 b, info_logicalChunkNum = rd64 (drop 8 b), info_uniqueDataSize = rd64 (drop 16 b),
     info_uniqueChunkNum = rd64 (drop 24 b), info_compressedDataSize = rd64 (drop 32 b)\<rparr>"

definition Ecall_Init_Upload :: "int \<Rightarrow> sealed_fs \<Rightarrow> fault + enclave_index \<times> sealed_fs" where
  "Ecall_Init_Upload n fs =
    (case index_type_of n of
       None \<Rightarrow> Inl ExitFailure
     | Some ty \<Rightarrow>
         let (ix0, fs1) = new_index (index_class_of ty) fs; ix = set_mode ty ix0;
             (readFileSize, fs2) = Ocall_InitReadSealedFile ENCLAVE_INDEX_INFO_NAME fs1
         in bindE
              (if readFileSize \<noteq> 0 then
                 let (d, fs3) = Ocall_ReadSealedData 40 fs2
                 in if length d < 40 then Inl UninitLocal else Inr (ix\<lparr>ix_info := info_of d\<rparr>, fs3)
               else Inr (ix, fs2))
              (\<lambda>(ix', fs4). Inr (ix', Ocall_CloseReadSealedFile fs4)))"

text \<open>The statistics are written, then the destructor of the index writes sketch and heap.\<close>

definition info_fields :: "index_info \<Rightarrow> u64 list" where
  "info_fields i = [info_logicalDataSize i, info_logicalChunkNum i, info_uniqueDataSize i, info_uniqueChunkNum i, info_compressedDataSize i]"

definition Ecall_Destroy_Upload :: "enclave_index \<Rightarrow> sealed_fs \<Rightarrow> fault + sealed_fs" where
  "Ecall_Destroy_Upload ix fs =
    (case Ocall_InitWriteSealedFile ENCLAVE_INDEX_INFO_NAME fs of
       (False, _) \<Rightarrow> Inl ExitFailure
     | (True, fs1) \<Rightarrow>
         let fs2 = Ocall_CloseWriteSealedFile (fold (\<lambda>v. Ocall_WriteSealedData (le64 v)) (info_fields (ix_info ix)) fs1)
         in case PersistDedupIndex (ix_sketch ix) (ix_heap ix) fs2 of None \<Rightarrow> Inl ExitFailure | Some fs3 \<Rightarrow> Inr fs3)"

section \<open>The server\<close>

definition server_boot ::
  "EnclaveConfig \<Rightarrow> bytes \<Rightarrow> bytes \<Rightarrow> int \<Rightarrow> sealed_fs \<Rightarrow> fault + enclave_globals \<times> enclave_index \<times> sealed_fs" where
  "server_boot cfg r1 r2 n fs =
    bindE (Ecall_Enclave_Init cfg r1 r2 fs) (\<lambda>(g, fs1).
    bindE (Ecall_Init_Upload n fs1) (\<lambda>(ix, fs2). Inr (g, ix, fs2)))"

text \<open>
  The handler of an interrupt: the server object is deleted, which ends the upload object; the enclave
  is destroyed; then it is called. \<open>gone\<close> is what the SDK makes of a call into an enclave that
  was destroyed. By its documentation the call returns an error (which is ignored here) and runs nothing.
\<close>

definition CTRLC ::
  "((sealed_fs \<Rightarrow> fault + sealed_fs) \<Rightarrow> sealed_fs \<Rightarrow> fault + sealed_fs) \<Rightarrow> enclave_globals \<Rightarrow> enclave_index \<Rightarrow> sealed_fs \<Rightarrow> fault + sealed_fs" where
  "CTRLC gone g ix fs = bindE (Ecall_Destroy_Upload ix fs) (\<lambda>fs1. gone (Ecall_Enclave_Destroy g) fs1)"

text \<open>The server is interrupted and started again, any number of times.\<close>

fun restarts ::
  "((sealed_fs \<Rightarrow> fault + sealed_fs) \<Rightarrow> sealed_fs \<Rightarrow> fault + sealed_fs) \<Rightarrow> int \<Rightarrow> (EnclaveConfig \<times> bytes \<times> bytes) list \<Rightarrow>
    enclave_globals \<times> enclave_index \<times> sealed_fs \<Rightarrow> fault + enclave_globals \<times> enclave_index \<times> sealed_fs" where
  "restarts gone n [] s = Inr s"
| "restarts gone n ((cfg, r1, r2) # xs) (g, ix, fs) =
    bindE (CTRLC gone g ix fs) (\<lambda>fs1.
    bindE (server_boot cfg r1 r2 n fs1) (restarts gone n xs))"

section \<open>What is on disk\<close>

definition info_image :: "index_info \<Rightarrow> bytes" where
  "info_image i = concat (map le64 (info_fields i))"

lemma info_of_image: "info_of (info_image i) = i" "length (info_image i) = 40"
  using rd64_le64 [of _ "[]"] by (simp_all add: info_of_def info_image_def info_fields_def)

lemma file_names:
  "ENCLAVE_KEY_FILE_NAME \<noteq> ENCLAVE_INDEX_INFO_NAME" "ENCLAVE_KEY_FILE_NAME \<noteq> SEALED_SKETCH" "ENCLAVE_KEY_FILE_NAME \<noteq> SEALED_FREQ_INDEX"
  "ENCLAVE_INDEX_INFO_NAME \<noteq> SEALED_SKETCH" "ENCLAVE_INDEX_INFO_NAME \<noteq> SEALED_FREQ_INDEX" "SEALED_FREQ_INDEX \<noteq> SEALED_SKETCH"
  by (simp_all add: ENCLAVE_KEY_FILE_NAME_def ENCLAVE_INDEX_INFO_NAME_def SEALED_SKETCH_def SEALED_FREQ_INDEX_def)

lemmas other_names = file_names file_names [symmetric]

lemma write_fields:
  "outSealed fs = Some n \<Longrightarrow> files fs n = Some d \<Longrightarrow>
    fold (\<lambda>v. Ocall_WriteSealedData (le64 v)) vs fs = fs\<lparr>files := (files fs)(n \<mapsto> d @ concat (map le64 vs))\<rparr>"
proof (induction vs arbitrary: fs d)
  case (Cons v vs)
  let ?fs = "fs\<lparr>files := (files fs)(n \<mapsto> d @ le64 v)\<rparr>"
  have w: "Ocall_WriteSealedData (le64 v) fs = ?fs" using Cons.prems by (simp add: Ocall_WriteSealedData_def)
  have "fold (\<lambda>v. Ocall_WriteSealedData (le64 v)) vs ?fs = ?fs\<lparr>files := (files ?fs)(n \<mapsto> (d @ le64 v) @ concat (map le64 vs))\<rparr>"
    using Cons.prems by (intro Cons.IH) simp_all
  also have "\<dots> = fs\<lparr>files := (files fs)(n \<mapsto> d @ concat (map le64 (v # vs)))\<rparr>" by (simp del: fun_upd_apply)
  finally show ?case by (simp only: fold_Cons o_apply w)
qed (simp add: fun_upd_idem)

definition closed :: "sealed_fs \<Rightarrow> bool" where
  "closed fs \<longleftrightarrow> outSealed fs = None \<and> inSealed fs = None"

lemma Destroy_Upload_eq:
  assumes "index_wf (ix_sketch ix) (ix_heap ix)" "closed fs"
  shows "Ecall_Destroy_Upload ix fs = Inr (fs\<lparr>files := (files fs)(ENCLAVE_INDEX_INFO_NAME \<mapsto> info_image (ix_info ix),
    SEALED_SKETCH \<mapsto> sketch_image (ix_sketch ix), SEALED_FREQ_INDEX \<mapsto> heap_image (ix_heap ix))\<rparr>)"
proof -
  let ?fs1 = "fs\<lparr>files := (files fs)(ENCLAVE_INDEX_INFO_NAME \<mapsto> []), outSealed := Some ENCLAVE_INDEX_INFO_NAME\<rparr>"
  let ?fs2 = "fs\<lparr>files := (files fs)(ENCLAVE_INDEX_INFO_NAME \<mapsto> info_image (ix_info ix)), outSealed := None\<rparr>"
  have "fold (\<lambda>v. Ocall_WriteSealedData (le64 v)) (info_fields (ix_info ix)) ?fs1 =
      ?fs1\<lparr>files := (files ?fs1)(ENCLAVE_INDEX_INFO_NAME \<mapsto> [] @ concat (map le64 (info_fields (ix_info ix))))\<rparr>"
    by (rule write_fields) simp_all
  then have "Ocall_CloseWriteSealedFile (fold (\<lambda>v. Ocall_WriteSealedData (le64 v)) (info_fields (ix_info ix)) ?fs1) = ?fs2"
    by (simp add: Ocall_CloseWriteSealedFile_def info_image_def)
  then show ?thesis
    using assms(2) PersistDedupIndex_eq [OF assms(1), of ?fs2]
    by (simp add: Ecall_Destroy_Upload_def Ocall_InitWriteSealedFile_def closed_def Let_def)
qed

lemma Enclave_Init_file:
  assumes "closed fs" "files fs ENCLAVE_KEY_FILE_NAME = Some (k1 @ k2)" "length k1 = CHUNK_HASH_SIZE" "length k2 = CHUNK_HASH_SIZE"
  shows "Ecall_Enclave_Init cfg r1 r2 fs = Inr (\<lparr>g_enclaveKey = k1, g_indexQueryKey = k2, g_firstBootstrap = False, g_config = cfg\<rparr>, fs)"
  using assms by (simp add: Ecall_Enclave_Init_def Ocall_InitReadSealedFile_def Ocall_ReadSealedData_def Ocall_CloseReadSealedFile_def
      closed_def CHUNK_HASH_SIZE_def Let_def)

lemma Enclave_Init_new:
  assumes "closed fs" "files fs ENCLAVE_KEY_FILE_NAME = None"
  shows "Ecall_Enclave_Init cfg r1 r2 fs = Inr (\<lparr>g_enclaveKey = r1, g_indexQueryKey = r2, g_firstBootstrap = True, g_config = cfg\<rparr>, fs)"
  using assms by (simp add: Ecall_Enclave_Init_def Ocall_InitReadSealedFile_def Ocall_CloseReadSealedFile_def closed_def Let_def)

text \<open>The object that \<open>Ecall_Init_Upload\<close> makes for an index type, with any content.\<close>

definition made_for :: "int \<Rightarrow> enclave_index \<Rightarrow> bool" where
  "made_for n ix \<longleftrightarrow> (\<exists>ty. index_type_of n = Some ty \<and> ix_class ix = index_class_of ty \<and>
     ix_Forward_Flag ix = (ty = FORWORD) \<and> ix_Offline_Flag ix = (ty \<noteq> ONLY_FORWORD)) \<and>
     index_wf (ix_sketch ix) (ix_heap ix) \<and> cm_width (ix_sketch ix) = sketchWidth \<and> cm_depth (ix_sketch ix) = sketchDepth"

definition same_index :: "enclave_index \<Rightarrow> enclave_index" where
  "same_index ix = ix\<lparr>ix_sketch := (ix_sketch ix)\<lparr>cm_total := 0\<rparr>\<rparr>"

lemma Init_Upload_eq:
  assumes "made_for n ix" "closed fs" "files fs ENCLAVE_INDEX_INFO_NAME = Some (info_image (ix_info ix))"
    "files fs SEALED_SKETCH = Some (sketch_image (ix_sketch ix))" "files fs SEALED_FREQ_INDEX = Some (heap_image (ix_heap ix))"
  shows "Ecall_Init_Upload n fs = Inr (same_index ix, fs)"
proof -
  obtain ty where ty: "index_type_of n = Some ty" "ix_class ix = index_class_of ty" "ix_Forward_Flag ix = (ty = FORWORD)"
      "ix_Offline_Flag ix = (ty \<noteq> ONLY_FORWORD)"
    and wf: "index_wf (ix_sketch ix) (ix_heap ix)" "cm_width (ix_sketch ix) = sketchWidth" "cm_depth (ix_sketch ix) = sketchDepth"
    using assms(1) unfolding made_for_def by blast
  have "inSealed fs = None" using assms(2) by (simp add: closed_def)
  note ld = LoadDedupIndex_eq [OF wf(1) this assms(4,5), unfolded wf(2,3)]
  have mode: "(set_mode ty (fst (new_index (index_class_of ty) fs)))\<lparr>ix_info := ix_info ix\<rparr> = same_index ix" "snd (new_index (index_class_of ty) fs) = fs"
    using ty by (auto simp: new_index_def ld set_mode_def same_index_def)
  show ?thesis
    using ty(1) mode assms(2,3) info_of_image [of "ix_info ix"]
    by (simp add: Ecall_Init_Upload_def Ocall_InitReadSealedFile_def Ocall_ReadSealedData_def Ocall_CloseReadSealedFile_def closed_def
        Let_def split_def)
qed

section \<open>Restarts\<close>

text \<open>A running server: the keys are on disk unless this is the first session.\<close>

definition running :: "int \<Rightarrow> enclave_globals \<times> enclave_index \<times> sealed_fs \<Rightarrow> bool" where
  "running n s \<longleftrightarrow> (case s of (g, ix, fs) \<Rightarrow> made_for n ix \<and> closed fs \<and> length (g_enclaveKey g) = CHUNK_HASH_SIZE \<and>
     length (g_indexQueryKey g) = CHUNK_HASH_SIZE \<and>
     (\<not> g_firstBootstrap g \<longrightarrow> files fs ENCLAVE_KEY_FILE_NAME = Some (g_enclaveKey g @ g_indexQueryKey g)))"

lemma CTRLC_eq:
  assumes "made_for n ix" "closed fs" "\<And>f fs1. gone f fs1 = Inr fs1"
  shows "CTRLC gone g ix fs = Inr (fs\<lparr>files := (files fs)(ENCLAVE_INDEX_INFO_NAME \<mapsto> info_image (ix_info ix),
    SEALED_SKETCH \<mapsto> sketch_image (ix_sketch ix), SEALED_FREQ_INDEX \<mapsto> heap_image (ix_heap ix))\<rparr>)"
  using Destroy_Upload_eq [OF _ assms(2), of ix] assms(1,3) by (simp add: CTRLC_def made_for_def)

text \<open>One interrupt and start: the index comes back, and the keys of the key file if there is one.\<close>

definition booted :: "EnclaveConfig \<Rightarrow> bytes \<Rightarrow> bytes \<Rightarrow> enclave_globals \<Rightarrow> enclave_globals" where
  "booted cfg r1 r2 g =
    (if g_firstBootstrap g then \<lparr>g_enclaveKey = r1, g_indexQueryKey = r2, g_firstBootstrap = True, g_config = cfg\<rparr> else g\<lparr>g_config := cfg\<rparr>)"

lemma restart_one:
  assumes "running n (g, ix, fs)" "g_firstBootstrap g \<longrightarrow> files fs ENCLAVE_KEY_FILE_NAME = None" "\<And>f fs1. gone f fs1 = Inr fs1"
  shows "\<exists>fs1. CTRLC gone g ix fs = Inr fs1 \<and> server_boot cfg r1 r2 n fs1 = Inr (booted cfg r1 r2 g, same_index ix, fs1) \<and> closed fs1 \<and>
    files fs1 ENCLAVE_KEY_FILE_NAME = files fs ENCLAVE_KEY_FILE_NAME"
proof -
  have r: "made_for n ix" "closed fs" "length (g_enclaveKey g) = CHUNK_HASH_SIZE" "length (g_indexQueryKey g) = CHUNK_HASH_SIZE"
      "\<not> g_firstBootstrap g \<Longrightarrow> files fs ENCLAVE_KEY_FILE_NAME = Some (g_enclaveKey g @ g_indexQueryKey g)"
    using assms(1) by (auto simp: running_def)
  let ?fs = "fs\<lparr>files := (files fs)(ENCLAVE_INDEX_INFO_NAME \<mapsto> info_image (ix_info ix),
    SEALED_SKETCH \<mapsto> sketch_image (ix_sketch ix), SEALED_FREQ_INDEX \<mapsto> heap_image (ix_heap ix))\<rparr>"
  have c: "closed ?fs" "files ?fs ENCLAVE_KEY_FILE_NAME = files fs ENCLAVE_KEY_FILE_NAME" using r(2) by (simp_all add: closed_def other_names)
  have f: "files ?fs ENCLAVE_INDEX_INFO_NAME = Some (info_image (ix_info ix))" "files ?fs SEALED_SKETCH = Some (sketch_image (ix_sketch ix))"
      "files ?fs SEALED_FREQ_INDEX = Some (heap_image (ix_heap ix))" by (auto simp: other_names)
  have "Ecall_Enclave_Init cfg r1 r2 ?fs = Inr (booted cfg r1 r2 g, ?fs)"
  proof (cases "g_firstBootstrap g")
    case True
    then show ?thesis using Enclave_Init_new [OF c(1)] c(2) assms(2) by (simp add: booted_def)
  next
    case False
    then show ?thesis using Enclave_Init_file [OF c(1) _ r(3,4)] c(2) r(5) by (simp add: booted_def)
  qed
  then have "server_boot cfg r1 r2 n ?fs = Inr (booted cfg r1 r2 g, same_index ix, ?fs)" using Init_Upload_eq [OF r(1) c(1) f] by (simp add: server_boot_def)
  with CTRLC_eq [where gone = gone, OF r(1,2) assms(3)] c show ?thesis by blast
qed

lemma made_same: "made_for n ix \<Longrightarrow> made_for n (same_index ix)"
  by (simp add: made_for_def same_index_def index_wf_def cm_wf_def)

definition sample_server :: "enclave_globals \<times> enclave_index \<times> sealed_fs" where
  "sample_server =
    (\<lparr>g_enclaveKey = replicate 32 7, g_indexQueryKey = replicate 32 9, g_firstBootstrap = True, g_config = \<lparr>cfg_sendChunkBatchSize = 128,
       cfg_sendRecipeBatchSize = 1024, cfg_topKParam = 2\<rparr>\<rparr>,
     \<lparr>ix_class = EcallFreqIndex, ix_Forward_Flag = False, ix_Offline_Flag = True, ix_sketch = cm_init sketchWidth sketchDepth,
       ix_heap = empty_heap, ix_info = \<lparr>info_logicalDataSize = 5, info_logicalChunkNum = 1, info_uniqueDataSize = 5,
       info_uniqueChunkNum = 1, info_compressedDataSize = 4\<rparr>\<rparr>,
     \<lparr>files = Map.empty, outSealed = None, inSealed = None\<rparr>)"

lemma sample_running: "running 4 sample_server"
proof -
  have "index_wf (cm_init sketchWidth sketchDepth) empty_heap"
    using cm_counts_init [of sketchWidth sketchDepth] empty_heap_inv by (simp add: index_wf_def cm_counts_def empty_heap_def sketchWidth_def sketchDepth_def)
  then show ?thesis
    by (simp add: running_def sample_server_def made_for_def closed_def index_type_of_def CHUNK_HASH_SIZE_def cm_init_def)
qed

text \<open>
  C31: however often the server is interrupted and started again, with whatever configuration and
  random numbers, the enclave comes back with the same frequent chunks, the same counters of the
  sketch and the same statistics. The two keys come back too if they were read from a key file. In a
  session that made up its keys, and so after every restart of a server without key file, they are the
  random numbers of the last start: no interrupt ever writes the key file.
\<close>

theorem restarts_keep:
  assumes "running n (g, ix, fs)" "g_firstBootstrap g \<longrightarrow> files fs ENCLAVE_KEY_FILE_NAME = None" "\<And>f fs1. gone f fs1 = Inr fs1"
    "xs \<noteq> []" "\<forall>(cfg, r1, r2) \<in> set xs. length r1 = CHUNK_HASH_SIZE \<and> length r2 = CHUNK_HASH_SIZE"
  shows "\<exists>g' fs'. restarts gone n xs (g, ix, fs) = Inr (g', same_index ix, fs') \<and> running n (g', same_index ix, fs') \<and>
    g_firstBootstrap g' = g_firstBootstrap g \<and> files fs' ENCLAVE_KEY_FILE_NAME = files fs ENCLAVE_KEY_FILE_NAME \<and>
    (g_enclaveKey g', g_indexQueryKey g') = (if g_firstBootstrap g then snd (last xs) else (g_enclaveKey g, g_indexQueryKey g))"
  using assms(1,2,4,5)
proof (induction xs arbitrary: g ix fs)
  case (Cons x xs)
  obtain cfg r1 r2 where x: "x = (cfg, r1, r2)" by (cases x)
  let ?g = "booted cfg r1 r2 g"
  obtain fs1 where o: "CTRLC gone g ix fs = Inr fs1" "server_boot cfg r1 r2 n fs1 = Inr (?g, same_index ix, fs1)" "closed fs1"
      "files fs1 ENCLAVE_KEY_FILE_NAME = files fs ENCLAVE_KEY_FILE_NAME" using restart_one [where gone = gone, OF Cons.prems(1,2) assms(3)] by blast
  have r: "running n (?g, same_index ix, fs1)" "g_firstBootstrap ?g \<longrightarrow> files fs1 ENCLAVE_KEY_FILE_NAME = None"
    using Cons.prems(1,2,4) o(3,4) made_same [of n ix] by (auto simp: running_def booted_def x)
  have i: "same_index (same_index ix) = same_index ix" by (simp add: same_index_def)
  show ?case
  proof (cases "xs = []")
    case True
    with o x r(1) show ?thesis by (auto simp: booted_def)
  next
    case False
    obtain g' fs' where b: "restarts gone n xs (?g, same_index ix, fs1) = Inr (g', same_index ix, fs')" "running n (g', same_index ix, fs')"
      "g_firstBootstrap g' = g_firstBootstrap ?g" "files fs' ENCLAVE_KEY_FILE_NAME = files fs1 ENCLAVE_KEY_FILE_NAME"
      "(g_enclaveKey g', g_indexQueryKey g') = (if g_firstBootstrap ?g then snd (last xs) else (g_enclaveKey ?g, g_indexQueryKey ?g))"
      using Cons.IH [OF r False] Cons.prems(4) unfolding i by auto
    have run: "restarts gone n (x # xs) (g, ix, fs) = Inr (g', same_index ix, fs')" using o b(1) by (simp add: x)
    show ?thesis by (rule exI [of _ g'], rule exI [of _ fs']) (use run b(2-5) o(4) False in \<open>simp add: booted_def split: if_splits\<close>)
  qed
qed simp

theorem restarts_keep_witness:
  "\<exists>g ix fs. restarts (\<lambda>f fs1. Inr fs1) 4 [(g_config (fst sample_server), replicate 32 1, replicate 32 2),
      (g_config (fst sample_server), replicate 32 3, replicate 32 4)] sample_server = Inr (g, ix, fs) \<and>
    g_enclaveKey g = replicate 32 3 \<and> info_uniqueChunkNum (ix_info ix) = 1"
proof -
  let ?xs = "[(g_config (fst sample_server), replicate 32 (1 :: byte), replicate 32 (2 :: byte)), (g_config (fst sample_server), replicate 32 3, replicate 32 4)]"
  obtain g ix fs where s: "sample_server = (g, ix, fs)" "files fs = Map.empty" "g_firstBootstrap g" "info_uniqueChunkNum (ix_info ix) = 1"
    by (simp add: sample_server_def)
  have r: "running 4 (g, ix, fs)" "g_firstBootstrap g \<longrightarrow> files fs ENCLAVE_KEY_FILE_NAME = None" using sample_running s(1,2) by simp_all
  have l: "\<forall>(cfg, r1, r2) \<in> set ?xs. length r1 = CHUNK_HASH_SIZE \<and> length r2 = CHUNK_HASH_SIZE" by (simp add: CHUNK_HASH_SIZE_def)
  obtain g' fs' where "restarts (\<lambda>f fs1. Inr fs1) 4 ?xs (g, ix, fs) = Inr (g', same_index ix, fs')"
      "(g_enclaveKey g', g_indexQueryKey g') = (if g_firstBootstrap g then snd (last ?xs) else (g_enclaveKey g, g_indexQueryKey g))"
    using restarts_keep [OF r, of "\<lambda>f fs1. Inr fs1" ?xs] l by blast
  then show ?thesis using s by (auto simp: same_index_def)
qed

text \<open>
  C32: an interrupt in the first session loses the keys. The handler calls \<open>Ecall_Enclave_Destroy\<close> only
  after \<open>sgx_destroy_enclave\<close>, when the call runs nothing. The statistics and the index were saved, but
  no key file exists, and the next start makes up new keys, under which nothing stored can be read.
\<close>

theorem CTRLC_loses_keys:
  assumes "running n (g, ix, fs)" "files fs ENCLAVE_KEY_FILE_NAME = None" "\<And>f fs1. gone f fs1 = Inr fs1"
  shows "\<exists>fs'. CTRLC gone g ix fs = Inr fs' \<and>
    server_boot cfg r1 r2 n fs' = Inr (\<lparr>g_enclaveKey = r1, g_indexQueryKey = r2, g_firstBootstrap = True, g_config = cfg\<rparr>, same_index ix, fs')"
proof -
  have r: "made_for n ix" "closed fs" using assms(1) by (simp_all add: running_def)
  let ?fs = "fs\<lparr>files := (files fs)(ENCLAVE_INDEX_INFO_NAME \<mapsto> info_image (ix_info ix),
    SEALED_SKETCH \<mapsto> sketch_image (ix_sketch ix), SEALED_FREQ_INDEX \<mapsto> heap_image (ix_heap ix))\<rparr>"
  have c: "closed ?fs" using r(2) by (simp add: closed_def)
  have "CTRLC gone g ix fs = Inr ?fs" by (rule CTRLC_eq [OF r assms(3)])
  moreover have "files ?fs ENCLAVE_KEY_FILE_NAME = None" using assms(2) by (simp add: other_names)
  then have "server_boot cfg r1 r2 n ?fs =
      Inr (\<lparr>g_enclaveKey = r1, g_indexQueryKey = r2, g_firstBootstrap = True, g_config = cfg\<rparr>, same_index ix, ?fs)"
    unfolding server_boot_def Enclave_Init_new [OF c \<open>files ?fs ENCLAVE_KEY_FILE_NAME = None\<close>]
    using Init_Upload_eq [OF r(1) c] by (simp add: other_names)
  ultimately show ?thesis by blast
qed

theorem CTRLC_loses_keys_witness:
  "\<exists>g ix fs fs' g'. sample_server = (g, ix, fs) \<and> CTRLC (\<lambda>f fs1. Inr fs1) g ix fs = Inr fs' \<and>
    server_boot (g_config g) (replicate 32 1) (replicate 32 2) 4 fs' = Inr (g', same_index ix, fs') \<and> g_enclaveKey g' \<noteq> g_enclaveKey g"
proof -
  obtain g ix fs where s: "sample_server = (g, ix, fs)" "files fs = Map.empty" "g_enclaveKey g = replicate 32 7"
    by (simp add: sample_server_def)
  have "running 4 (g, ix, fs)" "files fs ENCLAVE_KEY_FILE_NAME = None" using sample_running s(1,2) by simp_all
  from CTRLC_loses_keys [OF this, of "\<lambda>f fs1. Inr fs1" "g_config g" "replicate 32 1" "replicate 32 2"] obtain fs' where
      b: "CTRLC (\<lambda>f fs1. Inr fs1) g ix fs = Inr fs'" "server_boot (g_config g) (replicate 32 1) (replicate 32 2) 4 fs' =
        Inr (\<lparr>g_enclaveKey = replicate 32 1, g_indexQueryKey = replicate 32 2, g_firstBootstrap = True, g_config = g_config g\<rparr>, same_index ix, fs')"
    by blast
  have "g_enclaveKey \<lparr>g_enclaveKey = replicate 32 1, g_indexQueryKey = replicate 32 2, g_firstBootstrap = True, g_config = g_config g\<rparr> \<noteq> g_enclaveKey g"
    unfolding s(3) by (simp add: replicate_eq_replicate)
  with s(1) b show ?thesis by blast
qed

end
