(* ===== verification/Spec2Isabelle.thy ===== *)
theory Spec2Isabelle
  imports EDeltaProps EndToEnd OfflineProps Mega Debe Boot
begin

text \<open>
  ShieldReduce: deduplication and delta compression of encrypted backups inside an SGX enclave.
  This development models the program under \<open>src/Prototype\<close> and proves what makes it correct.
  The sources are named relative to \<open>src/Prototype/src\<close> and \<open>src/Prototype/include\<close>.

  \<^bold>\<open>The program.\<close> A client cuts a file into chunks (\<open>Client/chunker.cc\<close>), packs them into
  encrypted batches (\<open>Client/dataSender.cc\<close>) and sends them to the server
  (\<open>Server/dataReceiver.cc\<close>, \<open>Server/storageCore.cc\<close>). The server passes every batch to the enclave
  (\<open>Enclave/ecallSrc/ecallIndex/ecallFreqIndex.cc\<close>), which decrypts it, looks every fingerprint up (in
  the index of frequent chunks inside, then in the index outside through OCalls of
  \<open>Enclave/ocallSrc/storeOCall.cc\<close>), looks for a similar base chunk by super-features, and stores
  a unique chunk compressed or as a delta against its base, encrypted, in a container
  (\<open>enclaveBase.cc\<close>, \<open>ecallStorage.cc\<close>). Full containers go through a message queue to a writer
  thread (\<open>Server/dataWriter.cc\<close>). The fingerprints of the chunks are encrypted into the recipe of the file.
  Between uploads the server runs an offline pass (\<open>ecallUtil/ecallOffline.cc\<close>): of two similar
  bases the newer one replaces the older, whose deltas are encoded again against it; the old base
  becomes a delta, and containers are rewritten without the copies nobody needs. Two other
  indexes can be chosen at start (\<open>ecallMeGA.cc\<close>, \<open>ecallDEBE.cc\<close>). Keys, statistics and the index inside
  are kept in files from one start of the enclave to the next (\<open>ecall/storeECall.cc\<close>, \<open>App/dbeServer.cc\<close>).
  A restore reads the recipe batch by batch, fetches containers, decodes and sends the chunks
  (\<open>ecallRecvDecoder.cc\<close>, \<open>Server/enclaveRecvDecoder.cc\<close>) to the client
  (\<open>Client/dataRetriever.cc\<close>, \<open>Client/restoreWriter.cc\<close>).

  \<^bold>\<open>The theories\<close>, bottom up.
  \<^item> \<open>Prelude\<close>: fixed-width integers, byte buffers (\<open>seg\<close>, \<open>upd\<close>, little-endian fields), sequencing of
    code that can fail (\<open>bindE\<close>, \<open>foldE\<close> over a result \<open>'e + 'a\<close>), and lemmas on them.
  \<^item> The delta codec (\<open>edelta/util.cc\<close>, \<open>edelta/htable.cc\<close>, \<open>EDeltaEncode\<close> and \<open>EDeltaDecode\<close> of
    \<open>ecallFreqIndex.cc\<close>): \<open>Gear\<close> (sub-chunking), \<open>HTable\<close> (hash table), \<open>DeltaFormat\<close> (units and decoder),
    \<open>MatchRun\<close> (head, tail and run scans), \<open>EDelta\<close> (the encoder), \<open>EDeltaWrite\<close>, \<open>EDeltaCorrect\<close>,
    \<open>Pacing\<close>, \<open>EDeltaProps\<close>. A delta decodes to the chunk it was made from, is barely larger than it,
    and the code reads uninitialised variables exactly when the pacing test (a comparison of
    two \<open>float\<close> quotients) fails in the first turn.
  \<^item> \<open>Structures\<close>: the data the components exchange (\<open>constVar.h\<close>, \<open>chunkStructure.h\<close>) and
    container names; \<open>EntryHeap\<close> and \<open>CMSketch\<close>: the index of frequent chunks and the frequencies;
    \<open>Sealed\<close>: their persistence; \<open>SuperFeature\<close>: \<open>getSF2\<close>.
  \<^item> \<open>Storage\<close> (\<open>ecallStorage.cc\<close>, \<open>dataWriter.cc\<close>), \<open>Crypto\<close> (\<open>ecallEnc.cc\<close>, \<open>cryptoPrimitive.cc\<close>),
    \<open>Database\<close> (\<open>inMemoryDatabase.cc\<close>), \<open>Upload\<close> (\<open>enclaveBase.cc\<close>), \<open>Cache\<close> (\<open>lruCache.h\<close>,
    \<open>readCache.cc\<close>, \<open>ecallinContainercache.cc\<close>), \<open>OutIndex\<close> (OCalls of the index).
  \<^item> \<open>FreqIndex\<close>: \<open>EcallFreqIndex::ProcessOneBatch\<close> and what it calls. \<open>FreqSpec\<close> states the
    specification (every uploaded chunk is found and can be rebuilt), \<open>FreqPhases\<close>,
    \<open>FreqSimilar\<close>, \<open>FreqWorld\<close>, \<open>FreqLoop\<close>, \<open>FreqBatch\<close> and \<open>FreqCorrect\<close> prove it phase by phase, the loop
    over the batch once for every way to store a unique chunk. \<open>Mega\<close> (\<open>ecallMeGA.cc\<close>) and \<open>Debe\<close>
    (\<open>ecallDEBE.cc\<close>) use that loop with theirs; what \<open>Debe\<close> stores the restore path does not read.
  \<^item> \<open>Session\<close>: one upload on the server, from the first message to the last container file.
    \<open>Restore\<close>, \<open>RestoreCorrect\<close>, \<open>RestoreProps\<close>: the restore of a file.
  \<^item> \<open>Offline\<close>: the offline pass, \<open>OFFLineBackward\<close> with its OCalls. Its invariant gives every chunk a
    record in a container (\<open>OfflineArch\<close>, over the records of \<open>OfflineCopy\<close>). \<open>OfflineMove\<close>, \<open>OfflinePair\<close>,
    \<open>OfflineBase\<close>, \<open>OfflineLoop\<close> and \<open>OfflineLocal\<close> show that encoding again keeps it, \<open>OfflineCold\<close>, \<open>OfflineCut\<close> and
    \<open>OfflineMerge\<close> that cutting and merging containers does; \<open>OfflineCorrect\<close> and \<open>OfflineProps\<close> conclude that
    the pass ends without fault and every file can be restored after it.
  \<^item> \<open>Boot\<close>: start and stop of the enclave. An orderly restart keeps everything; the interrupt handler
    loses the keys of the first session.
  \<^item> \<open>MsgQueue\<close> (\<open>messageQueue.h\<close>): producer and consumer as an interleaved step relation;
    \<open>Chunker\<close>, \<open>Client\<close>: the client; \<open>EndToEnd\<close>: the composition of everything.

  \<^bold>\<open>State and errors.\<close> Each class is a \<open>record\<close> of its members and each method a function on it.
  Hash tables are maps (or association lists where the order is used), the disk is a map
  from names to contents, messages are lists. Integers have their C width wherever a value can
  wrap. An abort (\<open>Ocall_SGX_Exit_Error\<close>), a read or a write outside a buffer and the
  read of an uninitialised variable are values of \<open>fault\<close> (declared in \<open>Storage\<close>); \<open>safety\<close> of a run is that it is an \<open>Inr\<close>.

  \<^bold>\<open>Parameters.\<close> OpenSSL (record \<open>evp\<close>, hypothesis \<open>evp_ok\<close>: what is encrypted is decrypted under
  the same key and IV, stream ciphers keep the length, a digest has its length), LZ4 (record
  \<open>lz4\<close>, hypothesis \<open>lz4_ok\<close>: what was compressed decompresses to the input, with the documented return
  values), the random numbers of the enclave (any list), and the collision-freeness of
  the fingerprint on the chunks of a store. The offline pass is given the iteration order of its hash
  tables and the listing of the container directory (any orders), and its theorems ask that the
  pairs can be encoded (\<open>pass_pairs\<close>: the codec does not read uninitialised variables on them, and no chunk is
  both the old and the new base of a pair) and that no chunk stored raw happens to be a valid LZ4
  block (\<open>store_clear\<close>; the code tells the two apart by trying to decompress). The interrupt handler is given what the SDK
  makes of a call into an enclave that is gone. Every theorem with such a hypothesis has a witness that
  instantiates it with concrete functions.

  \<^bold>\<open>Bounds and fuel.\<close> The main loop of the encoder recurses on a fuel equal to the size of
  the input; every turn consumes a byte, so it is never used up (part of the round trip). The
  chunker loops are \<open>partial_function (option)\<close> and proved to return. The codec needs sizes below
  \<open>2 ^ 31\<close>, which chunks of at most 16384 bytes have. The restore theorem needs
  the buffer of container identifiers to hold 17 (the code allocates 16, a finding), batches of at most
  4000 chunks and a read size below 4096 MB, all far above the shipped configuration.

  \<^bold>\<open>Interfaces.\<close> Locales state what one component relies on: the hash table as the
  encoder sees it (\<open>chunk_index\<close>), the heap of frequent chunks (\<open>freq_queue\<close>), the key-value index (\<open>kv_index\<close>),
  the stored containers (\<open>chunk_store\<close>) and their cache (\<open>container_cache\<close>). The indexes share three:
  \<open>entry_contract\<close> (what a query entry says before and after a chunk is processed, monotone in what is
  stored), \<open>unique_storer\<close>, which adds that storing a unique chunk takes the first to the second, and
  \<open>index_contract\<close>, which adds that the finished entries update the index outside. Each is interpreted on
  the model's own definitions, the last three for the frequency index, MeGA and DEBE.

  \<^bold>\<open>Configuration.\<close> The model follows the build the repository ships: \<open>EDR_BREAKDOWN\<close>, \<open>SGX_BREAKDOWN\<close>,
  \<open>SF_SINGLE_THREAD\<close> and \<open>MULTI_CLIENT\<close> are 0 and \<open>PREDEFINED_GEAR_MATRIX\<close> is defined.

  \<^bold>\<open>Not modelled.\<close> The copy of \<open>ProcessOneBatch\<close> that times its phases (\<open>EDR_BREAKDOWN\<close>), remote
  attestation and the session key exchange (Intel's SDK and the IAS), TLS transport, parsing of the command
  line and of the configuration, the trace-driven chunkers (random content), LevelDB, vendored code (LZ4,
  xdelta3, xxhash, the lock-free queues, json), and timing and logging everywhere.
\<close>

end
